(* ===== verification/Prelude.thy ===== *)
theory Prelude
  imports Main "HOL-Library.Word"
begin

section \<open>Shared vocabulary\<close>

text \<open>
  Generic facts that several components use: the invalid index value of the log cache
  (LogCacheGlobals.h), arithmetic of a probe sequence modulo a table size, counting of list
  entries, and small facts about words.  The named collections group the rules that the
  component proofs pass to the simplifier.
\<close>

unbundle bit_operations_syntax

named_theorems qh_simps \<open>unfolding rules of the quick hash statistics and accessors\<close>
named_theorems dict_simps \<open>unfolding rules of the dictionary containers\<close>
named_theorems stream_simps \<open>unfolding rules of the packed stream formats\<close>

type_synonym size_t = "64 word"
type_synonym dword = "32 word"
type_synonym index_t = "32 word"
type_synonym revision_t = "32 word"
type_synonym byte = "8 word"

definition NO_INDEX :: "'i::len word" where
  "NO_INDEX = - 1"

abbreviation NO_REVISION :: revision_t where
  "NO_REVISION \<equiv> NO_INDEX"

lemma unat_NO_INDEX: "unat (NO_INDEX :: 'i::len word) = 2 ^ LENGTH('i) - 1"
  by (simp add: NO_INDEX_def unsigned_minus_1_eq_mask mask_eq_exp_minus_1)

lemma unat_bound [simp]: "unat (i :: 'i::len word) < 2 ^ LENGTH('i)"
  by (rule unsigned_less)

lemma unat_of_nat_small: "n < 2 ^ LENGTH('i) \<Longrightarrow> unat (of_nat n :: 'i::len word) = n"
  by (simp add: unsigned_of_nat take_bit_nat_eq_self)

lemma of_nat_neq_NO_INDEX:
  "n < 2 ^ LENGTH('i) - 1 \<Longrightarrow> (of_nat n :: 'i::len word) \<noteq> NO_INDEX"
  by (metis less_imp_diff_less less_irrefl less_trans unat_NO_INDEX unat_bound unat_of_nat_small)

lemma unat_less_NO_INDEX: "(i :: 'i::len word) \<noteq> NO_INDEX \<Longrightarrow> unat i < 2 ^ LENGTH('i) - 1"
proof -
  assume "i \<noteq> NO_INDEX"
  then have "unat i \<noteq> 2 ^ LENGTH('i) - 1"
    by (metis unat_NO_INDEX word_unat_eq_iff)
  moreover have "unat i < 2 ^ LENGTH('i)" by (rule unat_bound)
  ultimately show ?thesis by linarith
qed

lemma of_nat_word_inj:
  "(of_nat m :: 'i::len word) = of_nat n \<Longrightarrow> m < 2 ^ LENGTH('i) \<Longrightarrow> n < 2 ^ LENGTH('i) \<Longrightarrow> m = n"
  by (metis unat_of_nat_small)

section \<open>Probe sequences\<close>

text \<open>
  A probe sequence starts at a bucket and advances by a fixed stride modulo the capacity.
  When stride and capacity are coprime it reaches every bucket.
\<close>

definition probe :: "nat \<Rightarrow> nat \<Rightarrow> nat \<Rightarrow> nat \<Rightarrow> nat" where
  "probe c t s k = (s + k * t) mod c"

lemma probe_0 [simp]: "s < c \<Longrightarrow> probe c t s 0 = s"
  by (simp add: probe_def)

lemma probe_less [simp]: "0 < c \<Longrightarrow> probe c t s k < c"
  by (simp add: probe_def)

lemma probe_Suc: "probe c t s (Suc k) = (probe c t s k + t) mod c"
  by (simp add: probe_def mod_simps algebra_simps)

lemma probe_shift: "probe c t (probe c t s 1) k = probe c t s (Suc k)"
  by (simp add: probe_def mod_simps algebra_simps)

lemma probe_inj_aux:
  assumes "coprime t c" "j \<le> k" "k < c" "probe c t s j = probe c t s k"
  shows "j = k"
proof -
  have "c dvd (s + k * t) - (s + j * t)"
    using assms mod_eq_dvd_iff_nat [of "s + j * t" "s + k * t" c] by (simp add: probe_def)
  then have "c dvd (k - j) * t" by (simp add: diff_mult_distrib)
  with assms(1) have "c dvd k - j"
    by (simp add: coprime_commute coprime_dvd_mult_left_iff)
  with assms(2,3) show ?thesis
    by (metis diff_is_0_eq le_antisym less_imp_diff_less nat_dvd_not_less neq0_conv)
qed

lemma probe_inj: "coprime t c \<Longrightarrow> inj_on (probe c t s) {..<c}"
  by (rule inj_onI) (metis lessThan_iff nat_le_linear probe_inj_aux)

lemma probe_surj:
  assumes "coprime t c" "p < c"
  obtains k where "k < c" "probe c t s k = p"
proof -
  have "probe c t s ` {..<c} \<subseteq> {..<c}" using assms(2) by (auto simp: probe_def)
  then have "probe c t s ` {..<c} = {..<c}"
    using probe_inj [OF assms(1)] by (simp add: endo_inj_surj)
  then show thesis using that assms(2) by (metis imageE lessThan_iff)
qed

section \<open>Counting list entries\<close>

lemma count_filter_update:
  assumes "p < length xs" "\<not> P (xs ! p)" "P y"
  shows "length (filter P (xs[p := y])) = Suc (length (filter P xs))"
proof -
  have "xs = take p xs @ xs ! p # drop (Suc p) xs"
    using assms(1) by (simp add: id_take_nth_drop)
  then have "length (filter P xs) = length (filter P (take p xs)) + length (filter P (drop (Suc p) xs))"
    using assms(2) by (metis filter.simps(2) filter_append length_append)
  then show ?thesis using assms(1,3) by (simp add: upd_conv_take_nth_drop)
qed

lemma filter_length_less_ex:
  assumes "length (filter P xs) < length xs"
  shows "\<exists>p < length xs. \<not> P (xs ! p)"
  using assms by (metis length_filter_less linorder_not_less nth_mem filter_id_conv in_set_conv_nth less_irrefl)

section \<open>Exceptions and undefined behaviour as values\<close>

text \<open>
  Operations that throw return a sum.  \<open>Undefined\<close> stands for what C++ leaves undefined or for a
  loop that never returns; the text of an exception is kept.
\<close>

datatype container_error = CContainerException string | StdOutOfRange | Undefined

definition of_opt :: "'a option \<Rightarrow> container_error + 'a" where
  "of_opt x = (case x of None \<Rightarrow> Inl Undefined | Some y \<Rightarrow> Inr y)"

fun bindE :: "'e + 'a \<Rightarrow> ('a \<Rightarrow> 'e + 'b) \<Rightarrow> 'e + 'b" where
  "bindE (Inl e) f = Inl e"
| "bindE (Inr x) f = f x"

lemma of_opt_simps [simp]: "of_opt None = Inl Undefined" "of_opt (Some x) = Inr x"
  by (simp_all add: of_opt_def)

lemma bindE_Inr_iff [simp]: "bindE m f = Inr y \<longleftrightarrow> (\<exists>x. m = Inr x \<and> f x = Inr y)"
  by (cases m) auto

section \<open>C strings in a character array\<close>

text \<open>The string that starts at an offset: the characters before the terminating zero.\<close>

definition cstr_at :: "byte list \<Rightarrow> nat \<Rightarrow> byte list" where
  "cstr_at p off = takeWhile (\<lambda>c. c \<noteq> 0) (drop off p)"

lemma takeWhile_nonzero: "0 \<notin> set s \<Longrightarrow> takeWhile (\<lambda>c. c \<noteq> 0) (s @ 0 # q) = s"
  by (induction s) auto

lemma cstr_at_append: "0 \<notin> set s \<Longrightarrow> cstr_at (p @ s @ 0 # q) (length p) = s"
  by (simp add: cstr_at_def takeWhile_nonzero)

end
