(* ===== verification/QuickHash.thy ===== *)
theory QuickHash
  imports Prelude "HOL-Library.Multiset" "HOL-Library.Monad_Syntax"
begin

section \<open>quick\_hash (src/Utils/QuickHash.h)\<close>

text \<open>
  The linear-probing hash index that every dictionary of the log cache uses.  A table holds
  indices of type \<open>'i word\<close> (the template parameter index\_type); the stored values live in the
  container that owns the table and are reached through the functor HF, a record of its three
  operations.  The result \<open>None\<close> stands for a run that never returns (a probe loop that does
  not stop) or that is undefined in C++ (the growth beyond the last usable table size).
  Counters of type size\_t are natural numbers: they are bounded by a small multiple of the
  capacity, which never exceeds 1073741827.

  The lemmas show that the probe loops stop, that every table operation keeps the table
  well-formed (\<open>qh_inv\<close>) and preserves or extends its entries, and the locale
  \<open>hash_container\<close> turns this into lookup laws for the containers that own a table.
\<close>

subsection \<open>Statistics and the growth policy\<close>

record statistics_t =
  capacity :: nat
  used :: nat
  collisions :: nat
  max_path :: nat
  collision_path_sum :: nat

definition statistics_t_init :: statistics_t where
  "statistics_t_init = \<lparr>capacity = 1, used = 0, collisions = 0, max_path = 1, collision_path_sum = 0\<rparr>"

text \<open>The array has 31 elements but only 30 initialisers: its last element is zero.\<close>

definition primes :: "nat list" where
  "primes =
    [1, 3, 7, 17,
     31, 67, 127, 257,
     509, 1021, 2053, 4099,
     8191, 16381, 32771, 65537,
     131071, 262147, 524287, 1048573,
     2097143, 4194301, 8388617, 16777213,
     33554467, 67108859, 134217757, 268435459,
     536870909, 1073741827, 0]"

record prime_grower =
  statistics :: statistics_t
  grower_index :: nat
  nextStride :: nat

definition prime_grower_init :: prime_grower where
  "prime_grower_init =
     \<lparr>statistics = statistics_t_init\<lparr>capacity := primes ! 0\<rparr>, grower_index = 0, nextStride = 1\<rparr>"

definition grower_capacity :: "prime_grower \<Rightarrow> nat" where
  "grower_capacity g = capacity (statistics g)"

definition grower_size :: "prime_grower \<Rightarrow> nat" where
  "grower_size g = used (statistics g)"

definition grower_collisions :: "prime_grower \<Rightarrow> nat" where
  "grower_collisions g = collisions (statistics g)"

definition inserted_cleanly :: "prime_grower \<Rightarrow> prime_grower" where
  "inserted_cleanly g = g\<lparr>statistics := (statistics g)\<lparr>used := used (statistics g) + 1\<rparr>\<rparr>"

definition inserted_collision :: "nat \<Rightarrow> prime_grower \<Rightarrow> prime_grower" where
  "inserted_collision path_size g =
     (let st = (statistics g)\<lparr>used := used (statistics g) + 1,
                 collisions := collisions (statistics g) + 1,
                 collision_path_sum := collision_path_sum (statistics g) + path_size\<rparr>
      in g\<lparr>statistics := if max_path st \<le> path_size then st\<lparr>max_path := path_size + 1\<rparr> else st\<rparr>)"

definition batch_inserted :: "nat \<Rightarrow> nat \<Rightarrow> prime_grower \<Rightarrow> prime_grower" where
  "batch_inserted n collisions_count g =
     g\<lparr>statistics := (statistics g)\<lparr>used := used (statistics g) + n,
                       collisions := collisions (statistics g) + collisions_count\<rparr>\<rparr>"

text \<open>
  An index beyond the array, or the division by the zero capacity, is undefined.
\<close>

definition grow :: "prime_grower \<Rightarrow> prime_grower option" where
  "grow g =
     (let i = grower_index g + 1 in
      if i < length primes \<and> primes ! i \<noteq> 0
      then Some (g\<lparr>statistics := (statistics g)\<lparr>capacity := primes ! i, collisions := 0, used := 0,
                                     collision_path_sum := 0, max_path := 1\<rparr>,
                   grower_index := i,
                   nextStride := 46337 mod primes ! i\<rparr>)
      else None)"

definition grower_map :: "prime_grower \<Rightarrow> size_t \<Rightarrow> nat" where
  "grower_map g hash_value = unat hash_value mod grower_capacity g"

definition grower_next :: "prime_grower \<Rightarrow> nat \<Rightarrow> nat" where
  "grower_next g ind =
     (let ind' = ind + nextStride g
      in if ind' \<ge> grower_capacity g then ind' - grower_capacity g else ind')"

subsection \<open>The table\<close>

record ('v, 'w) hash_functor =
  hf_hash :: "'v \<Rightarrow> size_t"
  hf_value :: "'w \<Rightarrow> 'v"
  hf_equal :: "'v \<Rightarrow> 'w \<Rightarrow> bool"

record 'w quick_hash =
  qh_data :: "'w list"
  qh_grower :: prime_grower

definition should_grow :: "'i::len word quick_hash \<Rightarrow> bool" where
  "should_grow T \<longleftrightarrow>
     grower_size (qh_grower T) + grower_collisions (qh_grower T) + 1 \<ge> grower_capacity (qh_grower T)"

definition should_grow_by :: "nat \<Rightarrow> 'i::len word quick_hash \<Rightarrow> bool" where
  "should_grow_by n T \<longleftrightarrow>
     grower_size (qh_grower T) + grower_collisions (qh_grower T) + n \<ge> grower_capacity (qh_grower T)"

definition create_data :: "'i::len word quick_hash \<Rightarrow> 'i word quick_hash" where
  "create_data T = T\<lparr>qh_data := replicate (grower_capacity (qh_grower T)) NO_INDEX\<rparr>"

text \<open>The do-while loop of \<open>internal_insert\<close>: the next empty bucket and the path length.\<close>

partial_function (option) collision_path ::
    "'i::len word list \<Rightarrow> prime_grower \<Rightarrow> nat \<Rightarrow> nat \<Rightarrow> (nat \<times> nat) option" where
  "collision_path d g bucket path_size =
     (let bucket' = grower_next g bucket; path' = path_size + 1
      in if d ! bucket' \<noteq> NO_INDEX then collision_path d g bucket' path' else Some (bucket', path'))"

definition internal_insert :: "'i::len word quick_hash \<Rightarrow> nat \<Rightarrow> 'i word \<Rightarrow> 'i word quick_hash option" where
  "internal_insert T bucket i =
     (if qh_data T ! bucket = NO_INDEX
      then Some (T\<lparr>qh_data := (qh_data T)[bucket := i], qh_grower := inserted_cleanly (qh_grower T)\<rparr>)
      else do {
        (target, path_size) \<leftarrow> collision_path (qh_data T) (qh_grower T) bucket 0;
        Some (T\<lparr>qh_data := (qh_data T)[target := i],
                qh_grower := inserted_collision path_size (qh_grower T)\<rparr>)
      })"

fun rehash_loop ::
    "('v, 'i::len word) hash_functor \<Rightarrow> 'i word list \<Rightarrow> 'i word quick_hash \<Rightarrow> 'i word quick_hash option" where
  "rehash_loop hf [] T = Some T"
| "rehash_loop hf (i # old_data) T =
     (if i \<noteq> NO_INDEX
      then do {
        T' \<leftarrow> internal_insert T (grower_map (qh_grower T) (hf_hash hf (hf_value hf i))) i;
        rehash_loop hf old_data T'
      }
      else rehash_loop hf old_data T)"

definition rehash ::
    "('v, 'i::len word) hash_functor \<Rightarrow> 'i word list \<Rightarrow> 'i word quick_hash \<Rightarrow> 'i word quick_hash option" where
  "rehash hf old_data T = rehash_loop hf old_data (create_data T)"

definition quick_hash_init :: "'i::len word quick_hash" where
  "quick_hash_init = create_data \<lparr>qh_data = [], qh_grower = prime_grower_init\<rparr>"

partial_function (option) find_loop ::
    "('v, 'i::len word) hash_functor \<Rightarrow> 'i word quick_hash \<Rightarrow> 'v \<Rightarrow> nat \<Rightarrow> 'i word option" where
  "find_loop hf T v bucket =
     (let i = qh_data T ! bucket
      in if i = NO_INDEX then Some i
         else if hf_equal hf v i then Some i
         else find_loop hf T v (grower_next (qh_grower T) bucket))"

definition qh_find :: "('v, 'i::len word) hash_functor \<Rightarrow> 'i word quick_hash \<Rightarrow> 'v \<Rightarrow> 'i word option" where
  "qh_find hf T v = find_loop hf T v (grower_map (qh_grower T) (hf_hash hf v))"

lemma grow_SomeD: "grow g = Some g' \<Longrightarrow> grower_index g' = grower_index g + 1 \<and> grower_index g' < 31"
  by (auto simp: grow_def Let_def primes_def split: if_splits)

function grow_to :: "nat \<Rightarrow> prime_grower \<Rightarrow> prime_grower option" where
  "grow_to min_bucket_count g =
     (if grower_capacity g < min_bucket_count
      then (case grow g of None \<Rightarrow> None | Some g' \<Rightarrow> grow_to min_bucket_count g')
      else Some g)"
  by pat_completeness auto
termination
  by (relation "measure (\<lambda>(m, g). 31 - grower_index g)") (auto dest: grow_SomeD)

definition reserve_target :: "nat \<Rightarrow> nat \<Rightarrow> nat" where
  "reserve_target index_size min_bucket_count =
     (if (2 ^ 64 - 1) div (4 * index_size) > min_bucket_count
      then min_bucket_count + min_bucket_count div 2 else min_bucket_count)"

definition reserve ::
    "('v, 'i::len word) hash_functor \<Rightarrow> nat \<Rightarrow> 'i word quick_hash \<Rightarrow> 'i word quick_hash option" where
  "reserve hf min_bucket_count T = do {
     g \<leftarrow> grow_to (reserve_target (LENGTH('i) div 8) min_bucket_count) (qh_grower T);
     if grower_capacity g \<noteq> grower_capacity (qh_grower T)
     then rehash hf (qh_data T) (T\<lparr>qh_grower := g\<rparr>)
     else Some (T\<lparr>qh_grower := g\<rparr>)
   }"

definition qh_insert ::
    "('v, 'i::len word) hash_functor \<Rightarrow> 'v \<Rightarrow> 'i word \<Rightarrow> 'i word quick_hash \<Rightarrow> 'i word quick_hash option" where
  "qh_insert hf v i T = do {
     T' \<leftarrow> (if should_grow T then reserve hf (grower_capacity (qh_grower T) + 1) T else Some T);
     internal_insert T' (grower_map (qh_grower T') (hf_hash hf v)) i
   }"

subsection \<open>Batch insertion\<close>

text \<open>
  \<open>presorted_insert\<close> distributes the entries over 256 clusters of neighbouring buckets; the flat
  buffer \<open>temp\<close> holds \<open>clusterSize\<close> pairs per cluster and \<open>used_n\<close> the fill level of each.  A
  full cluster is written to the table and emptied; the remaining entries follow at the end.
\<close>

definition MAX_CLUSTERS :: nat where
  "MAX_CLUSTERS = 256"

function cluster_shift :: "nat \<Rightarrow> nat \<Rightarrow> nat" where
  "cluster_shift cap shift =
     (if MAX_CLUSTERS * 2 ^ shift < cap then cluster_shift cap (shift + 1) else shift)"
  by pat_completeness auto
termination
  by (relation "measure (\<lambda>(cap, shift). cap - MAX_CLUSTERS * 2 ^ shift)")
     (auto simp: MAX_CLUSTERS_def intro: diff_less_mono2)

partial_function (option) batch_place ::
    "'i::len word list \<Rightarrow> prime_grower \<Rightarrow> nat \<Rightarrow> nat \<Rightarrow> (nat \<times> nat) option" where
  "batch_place d g nbucket collisions_count =
     (if d ! nbucket \<noteq> NO_INDEX
      then batch_place d g (grower_next g nbucket) (collisions_count + 1)
      else Some (nbucket, collisions_count))"

fun write_cluster ::
    "prime_grower \<Rightarrow> (nat \<times> 'i::len word) list \<Rightarrow> nat \<Rightarrow> 'i word list \<Rightarrow> ('i word list \<times> nat) option" where
  "write_cluster g [] collisions_count d = Some (d, collisions_count)"
| "write_cluster g ((bucket, i) # entries) collisions_count d = do {
     (target, collisions_count') \<leftarrow> batch_place d g bucket collisions_count;
     write_cluster g entries collisions_count' (d[target := i])
   }"

definition flush_cluster :: "(nat \<times> 'i::len word) list \<Rightarrow> 'i word quick_hash \<Rightarrow> 'i word quick_hash option" where
  "flush_cluster entries T = do {
     (d, collisions_count) \<leftarrow> write_cluster (qh_grower T) entries 0 (qh_data T);
     Some (T\<lparr>qh_data := d,
             qh_grower := batch_inserted (length entries) collisions_count (qh_grower T)\<rparr>)
   }"

fun presort_main ::
    "('v, 'i::len word) hash_functor \<Rightarrow> nat \<Rightarrow> nat \<Rightarrow> 'v list \<Rightarrow> 'i word \<Rightarrow>
     (nat \<times> 'i word) list \<Rightarrow> nat list \<Rightarrow> 'i word quick_hash \<Rightarrow>
     ((nat \<times> 'i word) list \<times> nat list \<times> 'i word quick_hash) option" where
  "presort_main hf clusterSize shift [] i temp used_n T = Some (temp, used_n, T)"
| "presort_main hf clusterSize shift (v # vs) i temp used_n T =
     (let bucket = grower_map (qh_grower T) (hf_hash hf v);
          clusterIndex = bucket div 2 ^ shift;
          offset = used_n ! clusterIndex + clusterIndex * clusterSize;
          temp' = temp[offset := (bucket, i)];
          n = used_n ! clusterIndex + 1
      in if n = clusterSize
         then do {
           T' \<leftarrow> flush_cluster (take clusterSize (drop (clusterIndex * clusterSize) temp')) T;
           presort_main hf clusterSize shift vs (i + 1) temp' (used_n[clusterIndex := 0]) T'
         }
         else presort_main hf clusterSize shift vs (i + 1) temp' (used_n[clusterIndex := n]) T)"

fun presort_rest ::
    "nat \<Rightarrow> nat list \<Rightarrow> (nat \<times> 'i::len word) list \<Rightarrow> nat list \<Rightarrow> 'i word quick_hash \<Rightarrow> 'i word quick_hash option" where
  "presort_rest clusterSize [] temp used_n T = Some T"
| "presort_rest clusterSize (c # cs) temp used_n T = do {
     T' \<leftarrow> flush_cluster (take (used_n ! c) (drop (c * clusterSize) temp)) T;
     presort_rest clusterSize cs temp used_n T'
   }"

definition presorted_insert ::
    "('v, 'i::len word) hash_functor \<Rightarrow> 'v list \<Rightarrow> 'i word \<Rightarrow> 'i word quick_hash \<Rightarrow> 'i word quick_hash option" where
  "presorted_insert hf vs i T =
     (let clusterSize = max 1 (length vs div MAX_CLUSTERS);
          shift = cluster_shift (grower_capacity (qh_grower T)) 0
      in do {
        (temp, used_n, T') \<leftarrow> presort_main hf clusterSize shift vs i
           (replicate (MAX_CLUSTERS * clusterSize) (0, 0)) (replicate MAX_CLUSTERS 0) T;
        presort_rest clusterSize [0..<MAX_CLUSTERS] temp used_n T'
      })"

fun insert_each ::
    "('v, 'i::len word) hash_functor \<Rightarrow> 'v list \<Rightarrow> 'i word \<Rightarrow> 'i word quick_hash \<Rightarrow> 'i word quick_hash option" where
  "insert_each hf [] i T = Some T"
| "insert_each hf (v # vs) i T = do {
     T' \<leftarrow> internal_insert T (grower_map (qh_grower T) (hf_hash hf v)) i;
     insert_each hf vs (i + 1) T'
   }"

definition insert_range ::
    "('v, 'i::len word) hash_functor \<Rightarrow> 'v list \<Rightarrow> 'i word \<Rightarrow> 'i word quick_hash \<Rightarrow> 'i word quick_hash option" where
  "insert_range hf vs i T =
     (let n = length vs in do {
        T' \<leftarrow> (if should_grow_by n T then reserve hf (grower_capacity (qh_grower T) + n) T else Some T);
        if n < 1000 then insert_each hf vs i T' else presorted_insert hf vs i T'
      })"

subsection \<open>Whole-table operations\<close>

definition qh_assign :: "'i::len word quick_hash \<Rightarrow> 'i word quick_hash \<Rightarrow> 'i word quick_hash" where
  "qh_assign T rhs =
     T\<lparr>qh_grower := qh_grower rhs, qh_data := take (grower_capacity (qh_grower rhs)) (qh_data rhs)\<rparr>"

definition qh_clear :: "'i::len word quick_hash \<Rightarrow> 'i word quick_hash" where
  "qh_clear T =
     (if grower_size (qh_grower T) > 0 then create_data (T\<lparr>qh_grower := prime_grower_init\<rparr>) else T)"

definition qh_swap :: "'i::len word quick_hash \<Rightarrow> 'i word quick_hash \<Rightarrow> 'i word quick_hash \<times> 'i word quick_hash" where
  "qh_swap T rhs =
     (T\<lparr>qh_data := qh_data rhs, qh_grower := qh_grower rhs\<rparr>,
      rhs\<lparr>qh_data := qh_data T, qh_grower := qh_grower T\<rparr>)"

definition may_cause_growth :: "nat \<Rightarrow> 'i::len word quick_hash \<Rightarrow> bool" where
  "may_cause_growth toAdd T \<longleftrightarrow>
     grower_size (qh_grower T) + grower_collisions (qh_grower T) + 2 * toAdd \<ge> grower_capacity (qh_grower T)"

declare find_loop.simps [code] collision_path.simps [code] batch_place.simps [code]
declare grow_to.simps [simp del] cluster_shift.simps [simp del]

subsection \<open>Well-formed tables\<close>

text \<open>
  \<open>H i\<close> is the hash of the value that index \<open>i\<close> stands for.  A table is well-formed when every
  stored index is reached by the probe sequence of its hash over occupied buckets, and at least
  one bucket is empty.
\<close>

definition grower_ok :: "prime_grower \<Rightarrow> bool" where
  "grower_ok g \<longleftrightarrow> grower_index g < 30 \<and> grower_capacity g = primes ! grower_index g \<and>
     nextStride g = (if grower_index g = 0 then 1 else 46337 mod primes ! grower_index g)"

definition probe_ok :: "nat \<Rightarrow> nat \<Rightarrow> ('i::len word \<Rightarrow> nat) \<Rightarrow> 'i word list \<Rightarrow> bool" where
  "probe_ok c t home d \<longleftrightarrow> length d = c \<and>
     (\<forall>p < c. d ! p \<noteq> NO_INDEX \<longrightarrow>
        (\<exists>k. probe c t (home (d ! p)) k = p \<and>
             (\<forall>j < k. d ! probe c t (home (d ! p)) j \<noteq> NO_INDEX)))"

definition entries :: "'i::len word list \<Rightarrow> 'i word multiset" where
  "entries d = mset (filter (\<lambda>i. i \<noteq> NO_INDEX) d)"

definition home_bucket :: "('i::len word \<Rightarrow> size_t) \<Rightarrow> nat \<Rightarrow> 'i word \<Rightarrow> nat" where
  "home_bucket H c i = unat (H i) mod c"

definition qh_inv :: "('i::len word \<Rightarrow> size_t) \<Rightarrow> 'i word quick_hash \<Rightarrow> bool" where
  "qh_inv H T \<longleftrightarrow> grower_ok (qh_grower T) \<and>
     probe_ok (grower_capacity (qh_grower T)) (nextStride (qh_grower T))
       (home_bucket H (grower_capacity (qh_grower T))) (qh_data T) \<and>
     grower_size (qh_grower T) = size (entries (qh_data T)) \<and>
     grower_size (qh_grower T) < grower_capacity (qh_grower T)"

lemmas [qh_simps] = grower_capacity_def grower_size_def grower_collisions_def inserted_cleanly_def
  inserted_collision_def batch_inserted_def Let_def


subsubsection \<open>The growth policy\<close>

lemma length_primes [simp]: "length primes = 31"
  by (simp add: primes_def)

lemma primes_coprime:
  "list_all (\<lambda>p. 0 < p \<and> coprime (46337 mod p) p \<and> 46337 mod p \<le> p) (take 30 primes)"
  by (simp add: primes_def coprime_iff_gcd_eq_1 gcd_non_0_nat)

lemma primes_props:
  assumes "i < 30"
  shows "0 < primes ! i \<and> coprime (46337 mod primes ! i) (primes ! i) \<and> 46337 mod primes ! i \<le> primes ! i"
proof -
  have "i < length (take 30 primes)" using assms by simp
  moreover have "take 30 primes ! i = primes ! i" using assms by (rule nth_take)
  ultimately show ?thesis using primes_coprime unfolding list_all_length by metis
qed

lemma grower_cases:
  assumes "grower_ok g"
  shows "0 < grower_capacity g \<and> coprime (nextStride g) (grower_capacity g) \<and> nextStride g \<le> grower_capacity g"
proof (cases "grower_index g = 0")
  case True
  then show ?thesis using assms by (simp add: grower_ok_def primes_def)
next
  case False
  with assms primes_props [of "grower_index g"] show ?thesis
    unfolding grower_ok_def by metis
qed

lemma primes_sorted: "sorted_wrt (<) (take 30 primes)"
  by (simp add: primes_def)

lemma primes_mono: "i < j \<Longrightarrow> j < 30 \<Longrightarrow> primes ! i < primes ! j"
proof -
  assume "i < j" "j < 30"
  then have "take 30 primes ! i < take 30 primes ! j"
    using sorted_wrt_nth_less [OF primes_sorted, of i j] by simp
  with \<open>i < j\<close> \<open>j < 30\<close> show ?thesis by (simp only: nth_take less_trans)
qed

lemma grower_next_probe:
  assumes "grower_ok g" "b < grower_capacity g"
  shows "grower_next g b = probe (grower_capacity g) (nextStride g) b 1"
proof -
  have "nextStride g \<le> grower_capacity g" using grower_cases [OF assms(1)] by simp
  then show ?thesis using assms(2)
    by (auto simp: grower_next_def probe_def Let_def mod_if le_mod_geq)
qed

lemma grower_next_less: "grower_ok g \<Longrightarrow> b < grower_capacity g \<Longrightarrow> grower_next g b < grower_capacity g"
  using grower_cases [of g] by (simp add: grower_next_probe)

lemma grower_probe_next:
  "grower_ok g \<Longrightarrow> b < grower_capacity g \<Longrightarrow>
   probe (grower_capacity g) (nextStride g) (grower_next g b) k
     = probe (grower_capacity g) (nextStride g) b (Suc k)"
  by (simp only: grower_next_probe probe_shift)

lemma grow_ok:
  assumes "grower_ok g" "grower_index g < 29"
  obtains g' where "grow g = Some g'" "grower_ok g'" "grower_capacity g < grower_capacity g'"
    "grower_size g' = 0" "grower_collisions g' = 0" "grower_index g' = Suc (grower_index g)"
proof -
  have p: "primes ! Suc (grower_index g) > primes ! grower_index g"
    using primes_mono [of "grower_index g" "Suc (grower_index g)"] assms(2) by simp
  show thesis
    by (rule that [of "the (grow g)"]) (use assms p in \<open>auto simp: grow_def grower_ok_def qh_simps\<close>)
qed

text \<open>Growing to a size within the table of capacities succeeds.\<close>

lemma grow_to_ok:
  assumes "grower_ok g" "m \<le> primes ! 29"
  shows "\<exists>g'. grow_to m g = Some g' \<and> grower_ok g' \<and> m \<le> grower_capacity g' \<and>
    (if grower_capacity g < m
     then grower_capacity g < grower_capacity g' \<and> grower_size g' = 0 \<and> grower_collisions g' = 0 else g' = g)"
  using assms
proof (induction "29 - grower_index g" arbitrary: g)
  case 0
  then have "grower_index g = 29" by (simp add: grower_ok_def)
  then have "\<not> grower_capacity g < m" using 0 by (simp add: grower_ok_def)
  then show ?case using 0 by (simp add: grow_to.simps [of m g])
next
  case (Suc n)
  show ?case
  proof (cases "grower_capacity g < m")
    case False
    then show ?thesis using Suc.prems by (simp add: grow_to.simps [of m g])
  next
    case True
    obtain g1 where g1: "grow g = Some g1" "grower_ok g1" "grower_capacity g < grower_capacity g1"
      "grower_size g1 = 0" "grower_collisions g1 = 0" "grower_index g1 = Suc (grower_index g)"
      using grow_ok [of g] Suc.prems Suc.hyps(2) by (metis zero_less_Suc zero_less_diff)
    have "n = 29 - grower_index g1" using Suc.hyps(2) g1(6) by simp
    from Suc.hyps(1) [OF this g1(2) Suc.prems(2)] obtain g' where
      g': "grow_to m g1 = Some g'" "grower_ok g'" "m \<le> grower_capacity g'"
      "if grower_capacity g1 < m then grower_capacity g1 < grower_capacity g' \<and> grower_size g' = 0 \<and>
         grower_collisions g' = 0 else g' = g1" by blast
    then show ?thesis using True g1 by (auto simp: grow_to.simps [of m g] split: if_splits)
  qed
qed

subsubsection \<open>The probe loops\<close>

lemma collision_path_reach:
  assumes "grower_ok g" "b < grower_capacity g" "0 < k"
    "\<And>j. 0 < j \<Longrightarrow> j < k \<Longrightarrow> d ! probe (grower_capacity g) (nextStride g) b j \<noteq> NO_INDEX"
    "d ! probe (grower_capacity g) (nextStride g) b k = NO_INDEX"
  shows "collision_path d g b n = Some (probe (grower_capacity g) (nextStride g) b k, n + k)"
  using assms(2-)
proof (induction k arbitrary: b n)
  case (Suc k)
  note ok = assms(1) Suc.prems(1)
  show ?case
  proof (cases "k = 0")
    case True
    then show ?thesis using Suc.prems ok
      by (simp add: collision_path.simps Let_def grower_next_probe)
  next
    case False
    have "d ! grower_next g b \<noteq> NO_INDEX" using Suc.prems(3) [of 1] False ok
      by (simp add: grower_next_probe)
    moreover have "collision_path d g (grower_next g b) (n + 1)
        = Some (probe (grower_capacity g) (nextStride g) (grower_next g b) k, n + 1 + k)"
      by (rule Suc.IH) (use False Suc.prems ok in \<open>simp_all add: grower_next_less grower_probe_next\<close>)
    ultimately show ?thesis using ok
      by (simp add: collision_path.simps [of d g b] Let_def grower_probe_next)
  qed
qed simp

lemma batch_place_reach:
  assumes "grower_ok g" "b < grower_capacity g"
    "\<And>j. j < k \<Longrightarrow> d ! probe (grower_capacity g) (nextStride g) b j \<noteq> NO_INDEX"
    "d ! probe (grower_capacity g) (nextStride g) b k = NO_INDEX"
  shows "batch_place d g b n = Some (probe (grower_capacity g) (nextStride g) b k, n + k)"
  using assms(2-)
proof (induction k arbitrary: b n)
  case 0
  then show ?case by (simp add: batch_place.simps)
next
  case (Suc k)
  note ok = assms(1) Suc.prems(1)
  have "d ! b \<noteq> NO_INDEX" using Suc.prems(2) [of 0] ok by simp
  moreover have "batch_place d g (grower_next g b) (n + 1)
      = Some (probe (grower_capacity g) (nextStride g) (grower_next g b) k, n + 1 + k)"
    by (rule Suc.IH) (use Suc.prems ok in \<open>simp_all add: grower_next_less grower_probe_next\<close>)
  ultimately show ?case using ok
    by (simp add: batch_place.simps [of d g b] grower_probe_next)
qed

lemma find_loop_reach:
  assumes T: "qh_grower T = g" "qh_data T = d" and g: "grower_ok g"
    and b: "b < grower_capacity g"
    and path: "\<And>j. j < k \<Longrightarrow> d ! probe (grower_capacity g) (nextStride g) b j \<noteq> NO_INDEX
       \<and> \<not> hf_equal hf v (d ! probe (grower_capacity g) (nextStride g) b j)"
    and stop: "d ! probe (grower_capacity g) (nextStride g) b k = NO_INDEX \<or>
       hf_equal hf v (d ! probe (grower_capacity g) (nextStride g) b k)"
  shows "find_loop hf T v b = Some (d ! probe (grower_capacity g) (nextStride g) b k)"
  using b path stop
proof (induction k arbitrary: b)
  case 0
  then show ?case by (auto simp: find_loop.simps [of hf T v b] T Let_def)
next
  case (Suc k)
  note nx = grower_probe_next [OF g Suc.prems(1)]
  have "d ! b \<noteq> NO_INDEX \<and> \<not> hf_equal hf v (d ! b)"
    using Suc.prems(2) [of 0] Suc.prems(1) by simp
  moreover have "find_loop hf T v (grower_next g b)
      = Some (d ! probe (grower_capacity g) (nextStride g) (grower_next g b) k)"
  proof (rule Suc.IH)
    show "grower_next g b < grower_capacity g" using g Suc.prems(1) by (rule grower_next_less)
  next
    fix j assume "j < k"
    then show "d ! probe (grower_capacity g) (nextStride g) (grower_next g b) j \<noteq> NO_INDEX \<and>
       \<not> hf_equal hf v (d ! probe (grower_capacity g) (nextStride g) (grower_next g b) j)"
      unfolding nx using Suc.prems(2) [of "Suc j"] by simp
  next
    show "d ! probe (grower_capacity g) (nextStride g) (grower_next g b) k = NO_INDEX \<or>
       hf_equal hf v (d ! probe (grower_capacity g) (nextStride g) (grower_next g b) k)"
      unfolding nx by (rule Suc.prems(3))
  qed
  ultimately show ?case
    by (simp add: find_loop.simps [of hf T v b] Let_def T nx)
qed

subsubsection \<open>Placing an entry\<close>

lemma entries_filter: "entries d = filter_mset (\<lambda>i. i \<noteq> NO_INDEX) (mset d)"
  by (simp add: entries_def)

lemma set_entries [simp]: "set_mset (entries d) = set d - {NO_INDEX}"
  by (auto simp: entries_filter)

lemma entries_replicate [simp]: "entries (replicate n NO_INDEX) = {#}"
  by (simp add: entries_def)

lemma entries_update:
  assumes "p < length d" "d ! p = NO_INDEX" "i \<noteq> NO_INDEX"
  shows "entries (d[p := i]) = add_mset i (entries d)"
  using assms by (simp add: entries_filter mset_update)

lemma free_bucket_ex:
  fixes d :: "'i::len word list"
  assumes "length d = c" "size (entries d) < c" "coprime t c"
  shows "\<exists>k < c. d ! probe c t b k = NO_INDEX"
proof -
  have "length (filter (\<lambda>i. i \<noteq> NO_INDEX) d) < length d"
    using assms(1,2) unfolding entries_def size_mset by simp
  then obtain p where p: "p < c" "d ! p = NO_INDEX"
    using filter_length_less_ex assms(1) by blast
  with probe_surj [OF assms(3) p(1), of b] show ?thesis by metis
qed

lemma first_free_bucket:
  fixes d :: "'i::len word list"
  assumes "length d = c" "size (entries d) < c" "coprime t c"
  obtains k where "d ! probe c t b k = NO_INDEX" "\<And>j. j < k \<Longrightarrow> d ! probe c t b j \<noteq> NO_INDEX"
proof
  let ?k = "LEAST k. d ! probe c t b k = NO_INDEX"
  show "d ! probe c t b ?k = NO_INDEX"
    using free_bucket_ex [OF assms] by (metis (mono_tags, lifting) LeastI)
  show "d ! probe c t b j \<noteq> NO_INDEX" if "j < ?k" for j
    using that by (rule not_less_Least)
qed

lemma probe_ok_place:
  assumes ok: "probe_ok c t home d" and c: "0 < c" and i: "i \<noteq> NO_INDEX"
    and free: "d ! probe c t (home i) k = NO_INDEX"
    and path: "\<And>j. j < k \<Longrightarrow> d ! probe c t (home i) j \<noteq> NO_INDEX"
  shows "probe_ok c t home (d[probe c t (home i) k := i])" (is "probe_ok c t home ?d")
proof -
  have len: "length d = c" using ok by (simp add: probe_ok_def)
  have old: "?d ! q \<noteq> NO_INDEX" if "d ! q \<noteq> NO_INDEX" "q < c" for q
    using that i len by (cases "q = probe c t (home i) k") auto
  show ?thesis unfolding probe_ok_def
  proof (intro conjI allI impI)
    show "length ?d = c" using len by simp
    fix p assume p: "p < c" "?d ! p \<noteq> NO_INDEX"
    show "\<exists>k. probe c t (home (?d ! p)) k = p \<and> (\<forall>j<k. ?d ! probe c t (home (?d ! p)) j \<noteq> NO_INDEX)"
    proof (cases "p = probe c t (home i) k")
      case True
      then have "?d ! p = i" using p len by simp
      moreover have "\<forall>j<k. ?d ! probe c t (home i) j \<noteq> NO_INDEX" using path old c by simp
      ultimately show ?thesis using True by auto
    next
      case False
      then have "?d ! p = d ! p" by simp
      moreover obtain k' where "probe c t (home (d ! p)) k' = p"
        "\<forall>j<k'. d ! probe c t (home (d ! p)) j \<noteq> NO_INDEX"
        using ok p \<open>?d ! p = d ! p\<close> unfolding probe_ok_def by metis
      ultimately show ?thesis using old c by (metis probe_less)
    qed
  qed
qed

subsubsection \<open>Insertion keeps the table well-formed\<close>

lemma grower_stat_simps [simp]:
  "grower_capacity (inserted_cleanly g) = grower_capacity g"
  "grower_capacity (inserted_collision n g) = grower_capacity g"
  "grower_capacity (batch_inserted m n g) = grower_capacity g"
  "nextStride (inserted_cleanly g) = nextStride g"
  "nextStride (inserted_collision n g) = nextStride g"
  "nextStride (batch_inserted m n g) = nextStride g"
  "grower_size (inserted_cleanly g) = Suc (grower_size g)"
  "grower_size (inserted_collision n g) = Suc (grower_size g)"
  "grower_size (batch_inserted m n g) = grower_size g + m"
  "grower_ok (inserted_cleanly g) = grower_ok g"
  "grower_ok (inserted_collision n g) = grower_ok g"
  "grower_ok (batch_inserted m n g) = grower_ok g"
  by (simp_all add: grower_ok_def qh_simps)

lemma qh_invD:
  assumes "qh_inv H T"
  shows "grower_ok (qh_grower T)" "length (qh_data T) = grower_capacity (qh_grower T)"
    "probe_ok (grower_capacity (qh_grower T)) (nextStride (qh_grower T))
       (home_bucket H (grower_capacity (qh_grower T))) (qh_data T)"
    "grower_size (qh_grower T) = size (entries (qh_data T))"
    "size (entries (qh_data T)) < grower_capacity (qh_grower T)"
    "0 < grower_capacity (qh_grower T)" "coprime (nextStride (qh_grower T)) (grower_capacity (qh_grower T))"
  using assms grower_cases [of "qh_grower T"] by (auto simp: qh_inv_def probe_ok_def)

lemma home_bucket_less [simp]: "0 < c \<Longrightarrow> home_bucket H c i < c"
  by (simp add: home_bucket_def)

lemma probe_in_range: "0 < c \<Longrightarrow> length d = c \<Longrightarrow> probe c t b k < length d"
  by simp

lemma internal_insert_ok:
  assumes inv: "qh_inv H T" and room: "grower_size (qh_grower T) + 1 < grower_capacity (qh_grower T)"
    and i: "i \<noteq> NO_INDEX" and b: "b = home_bucket H (grower_capacity (qh_grower T)) i"
  shows "\<exists>T'. internal_insert T b i = Some T' \<and> qh_inv H T' \<and>
    entries (qh_data T') = add_mset i (entries (qh_data T)) \<and>
    grower_capacity (qh_grower T') = grower_capacity (qh_grower T)"
proof -
  let ?g = "qh_grower T" and ?d = "qh_data T"
  let ?p = "probe (grower_capacity ?g) (nextStride ?g) b"
  note D = qh_invD [OF inv]
  obtain k where k: "?d ! ?p k = NO_INDEX" "\<And>j. j < k \<Longrightarrow> ?d ! ?p j \<noteq> NO_INDEX"
    using first_free_bucket [OF D(2,5,7)] by blast
  have range: "?p k < length ?d" and bl: "b < grower_capacity ?g" using D b by simp_all
  have ok: "probe_ok (grower_capacity ?g) (nextStride ?g) (home_bucket H (grower_capacity ?g)) (?d[?p k := i])"
    using probe_ok_place [OF D(3,6) i, of k] k b by simp
  have ent: "entries (?d[?p k := i]) = add_mset i (entries ?d)" using entries_update range k(1) i by blast
  show ?thesis
  proof (cases "k = 0")
    case True
    then have "?d ! b = NO_INDEX" and "?p k = b" using k bl by simp_all
    then show ?thesis using ok ent D room by (auto simp: internal_insert_def qh_inv_def)
  next
    case False
    then have "?d ! b \<noteq> NO_INDEX" using k(2) [of 0] bl by simp
    moreover have "collision_path ?d ?g b 0 = Some (?p k, 0 + k)"
      by (rule collision_path_reach) (use False D bl k in auto)
    ultimately show ?thesis using ok ent D room by (auto simp: internal_insert_def qh_inv_def)
  qed
qed

lemma grower_map_home: "hf_hash hf v = H i \<Longrightarrow> grower_map g (hf_hash hf v) = home_bucket H (grower_capacity g) i"
  by (simp add: grower_map_def home_bucket_def)

lemma create_data_inv:
  "grower_ok g \<Longrightarrow> grower_size g = 0 \<Longrightarrow> qh_inv H (create_data (T\<lparr>qh_grower := g\<rparr>))"
  using grower_cases [of g] by (simp add: qh_inv_def create_data_def probe_ok_def)

lemma entries_create [simp]: "entries (qh_data (create_data T)) = {#}"
  by (simp add: create_data_def)

lemma rehash_loop_ok:
  assumes "qh_inv H T" "grower_size (qh_grower T) + size (entries old) < grower_capacity (qh_grower T)"
    "\<And>i. i \<in># entries old \<Longrightarrow> hf_hash hf (hf_value hf i) = H i"
  shows "\<exists>T'. rehash_loop hf old T = Some T' \<and> qh_inv H T' \<and>
    entries (qh_data T') = entries (qh_data T) + entries old \<and>
    grower_capacity (qh_grower T') = grower_capacity (qh_grower T)"
  using assms
proof (induction old arbitrary: T)
  case Nil
  then show ?case by (simp add: entries_def)
next
  case (Cons i old)
  show ?case
  proof (cases "i = NO_INDEX")
    case True
    then have "entries (i # old) = entries old" by (simp add: entries_def)
    then show ?thesis using True Cons by simp
  next
    case False
    then have e: "entries (i # old) = add_mset i (entries old)" by (simp add: entries_def)
    have "hf_hash hf (hf_value hf i) = H i" using Cons.prems(3) e by simp
    then obtain T1 where T1: "internal_insert T (grower_map (qh_grower T) (hf_hash hf (hf_value hf i))) i = Some T1"
      "qh_inv H T1" "entries (qh_data T1) = add_mset i (entries (qh_data T))"
      "grower_capacity (qh_grower T1) = grower_capacity (qh_grower T)"
      using internal_insert_ok [OF Cons.prems(1) _ False grower_map_home] Cons.prems(2) e by fastforce
    have "grower_size (qh_grower T1) + size (entries old) < grower_capacity (qh_grower T1)"
      using Cons.prems(2) T1 qh_invD(4) [OF T1(2)] qh_invD(4) [OF Cons.prems(1)] e by simp
    from Cons.IH [OF T1(2) this] Cons.prems(3) e show ?thesis using T1 False by fastforce
  qed
qed

lemma rehash_ok:
  assumes "grower_ok g" "grower_size g = 0" "size (entries old) < grower_capacity g"
    "\<And>i. i \<in># entries old \<Longrightarrow> hf_hash hf (hf_value hf i) = H i"
  shows "\<exists>T'. rehash hf old (T\<lparr>qh_grower := g\<rparr>) = Some T' \<and> qh_inv H T' \<and>
    entries (qh_data T') = entries old \<and> grower_capacity (qh_grower T') = grower_capacity g"
  using rehash_loop_ok [OF create_data_inv [of g H T] , of old hf] assms
  by (simp add: rehash_def) (simp add: create_data_def)

lemma reserve_target_ge: "m \<le> reserve_target s m"
  by (simp add: reserve_target_def)

lemma reserve_ok:
  fixes T :: "'i::len word quick_hash"
  assumes inv: "qh_inv H T" and m: "reserve_target (LENGTH('i) div 8) m \<le> primes ! 29"
    and val: "\<And>i. i \<in># entries (qh_data T) \<Longrightarrow> hf_hash hf (hf_value hf i) = H i"
  shows "\<exists>T'. reserve hf m T = Some T' \<and> qh_inv H T' \<and> entries (qh_data T') = entries (qh_data T) \<and>
    m \<le> grower_capacity (qh_grower T')"
proof -
  let ?m = "reserve_target (LENGTH('i) div 8) m"
  note D = qh_invD [OF inv]
  obtain g where g: "grow_to ?m (qh_grower T) = Some g" "grower_ok g" "?m \<le> grower_capacity g"
    "if grower_capacity (qh_grower T) < ?m then grower_capacity (qh_grower T) < grower_capacity g \<and>
       grower_size g = 0 \<and> grower_collisions g = 0 else g = qh_grower T"
    using grow_to_ok [OF D(1) m] by blast
  have mg: "m \<le> grower_capacity g" using reserve_target_ge g(3) by (rule le_trans)
  show ?thesis
  proof (cases "grower_capacity (qh_grower T) < ?m")
    case True
    then have "grower_capacity g \<noteq> grower_capacity (qh_grower T)" "grower_size g = 0"
      "size (entries (qh_data T)) < grower_capacity g" using g(4) D(5) by auto
    then show ?thesis using rehash_ok [OF g(2), of "qh_data T" hf H T] val g(1) mg
      by (auto simp: reserve_def)
  next
    case False
    then have "g = qh_grower T" using g(4) by simp
    then show ?thesis using inv g(1) mg by (auto simp: reserve_def)
  qed
qed

lemma qh_insert_ok:
  fixes T :: "'i::len word quick_hash"
  assumes inv: "qh_inv H T" and i: "i \<noteq> NO_INDEX" and v: "hf_hash hf v = H i"
    and m: "reserve_target (LENGTH('i) div 8) (grower_capacity (qh_grower T) + 1) \<le> primes ! 29"
    and val: "\<And>i. i \<in># entries (qh_data T) \<Longrightarrow> hf_hash hf (hf_value hf i) = H i"
  shows "\<exists>T'. qh_insert hf v i T = Some T' \<and> qh_inv H T' \<and>
    entries (qh_data T') = add_mset i (entries (qh_data T))"
proof -
  note D = qh_invD [OF inv]
  obtain T1 where T1: "(if should_grow T then reserve hf (grower_capacity (qh_grower T) + 1) T else Some T) = Some T1"
    "qh_inv H T1" "entries (qh_data T1) = entries (qh_data T)"
    "grower_size (qh_grower T1) + 1 < grower_capacity (qh_grower T1)"
  proof (cases "should_grow T")
    case False
    then show thesis using that [of T] inv by (simp add: should_grow_def)
  next
    case True
    obtain T' where T': "reserve hf (grower_capacity (qh_grower T) + 1) T = Some T'" "qh_inv H T'"
      "entries (qh_data T') = entries (qh_data T)"
      "grower_capacity (qh_grower T) + 1 \<le> grower_capacity (qh_grower T')"
      using reserve_ok [OF inv m, of hf] val by blast
    then show thesis using that [of T'] True D(5) qh_invD(4) [OF T'(2)] by simp
  qed
  then show ?thesis using internal_insert_ok [OF T1(2,4) i grower_map_home, of hf v] v
    by (auto simp: qh_insert_def)
qed

lemma insert_each_ok:
  assumes "qh_inv H T" "grower_size (qh_grower T) + length vs < grower_capacity (qh_grower T)"
    "\<And>n. n < length vs \<Longrightarrow> i + of_nat n \<noteq> NO_INDEX \<and> hf_hash hf (vs ! n) = H (i + of_nat n)"
  shows "\<exists>T'. insert_each hf vs i T = Some T' \<and> qh_inv H T' \<and>
    entries (qh_data T') = entries (qh_data T) + mset (map (\<lambda>n. i + of_nat n) [0..<length vs])"
  using assms
proof (induction vs arbitrary: i T)
  case (Cons v vs)
  have 0: "i \<noteq> NO_INDEX" "hf_hash hf v = H i" using Cons.prems(3) [of 0] by simp_all
  then obtain T1 where T1: "internal_insert T (grower_map (qh_grower T) (hf_hash hf v)) i = Some T1"
    "qh_inv H T1" "entries (qh_data T1) = add_mset i (entries (qh_data T))"
    "grower_capacity (qh_grower T1) = grower_capacity (qh_grower T)"
    using internal_insert_ok [OF Cons.prems(1) _ 0(1) grower_map_home] Cons.prems(2) by fastforce
  have "grower_size (qh_grower T1) + length vs < grower_capacity (qh_grower T1)"
    using Cons.prems(2) T1 qh_invD(4) [OF T1(2)] qh_invD(4) [OF Cons.prems(1)] by simp
  moreover have "\<And>n. n < length vs \<Longrightarrow> i + 1 + of_nat n \<noteq> NO_INDEX \<and> hf_hash hf (vs ! n) = H (i + 1 + of_nat n)"
    using Cons.prems(3) [of "Suc _"] by (auto simp: algebra_simps)
  ultimately obtain T' where T': "insert_each hf vs (i + 1) T1 = Some T'" "qh_inv H T'"
    "entries (qh_data T') = entries (qh_data T1) + mset (map (\<lambda>n. i + 1 + of_nat n) [0..<length vs])"
    using Cons.IH [OF T1(2)] by blast
  have "map (\<lambda>n. i + of_nat n) [0..<length (v # vs)] = i # map (\<lambda>n. i + 1 + of_nat n) [0..<length vs]"
    by (simp add: upt_conv_Cons map_Suc_upt [symmetric] algebra_simps del: upt_Suc)
  then show ?case using T1 T' by simp
qed simp

subsubsection \<open>Lookup\<close>

lemma find_first_stop:
  assumes inv: "qh_inv H T" and b: "b < grower_capacity (qh_grower T)"
  obtains k where
    "qh_data T ! probe (grower_capacity (qh_grower T)) (nextStride (qh_grower T)) b k = NO_INDEX \<or>
     hf_equal hf v (qh_data T ! probe (grower_capacity (qh_grower T)) (nextStride (qh_grower T)) b k)"
    "\<And>j. j < k \<Longrightarrow> qh_data T ! probe (grower_capacity (qh_grower T)) (nextStride (qh_grower T)) b j \<noteq> NO_INDEX \<and>
     \<not> hf_equal hf v (qh_data T ! probe (grower_capacity (qh_grower T)) (nextStride (qh_grower T)) b j)"
    "find_loop hf T v b = Some (qh_data T ! probe (grower_capacity (qh_grower T)) (nextStride (qh_grower T)) b k)"
proof -
  let ?x = "\<lambda>k. qh_data T ! probe (grower_capacity (qh_grower T)) (nextStride (qh_grower T)) b k"
  let ?k = "LEAST k. ?x k = NO_INDEX \<or> hf_equal hf v (?x k)"
  note D = qh_invD [OF inv]
  have "\<exists>k. ?x k = NO_INDEX \<or> hf_equal hf v (?x k)"
    using free_bucket_ex [OF D(2,5,7)] by blast
  then have 1: "?x ?k = NO_INDEX \<or> hf_equal hf v (?x ?k)" by (rule LeastI_ex)
  have 2: "?x j \<noteq> NO_INDEX \<and> \<not> hf_equal hf v (?x j)" if "j < ?k" for j
    using not_less_Least [OF that] by simp
  have "find_loop hf T v b = Some (?x ?k)"
    using 2 1 by (intro find_loop_reach [OF refl refl D(1) b])
  then show thesis using that 1 2 by blast
qed

lemma qh_find_miss:
  assumes inv: "qh_inv H T" and no: "\<And>i. i \<in># entries (qh_data T) \<Longrightarrow> \<not> hf_equal hf v i"
  shows "qh_find hf T v = Some NO_INDEX"
proof -
  let ?g = "qh_grower T"
  note D = qh_invD [OF inv]
  have b: "grower_map ?g (hf_hash hf v) < grower_capacity ?g" using D(6) by (simp add: grower_map_def)
  obtain k where k: "find_loop hf T v (grower_map ?g (hf_hash hf v)) =
      Some (qh_data T ! probe (grower_capacity ?g) (nextStride ?g) (grower_map ?g (hf_hash hf v)) k)"
    "qh_data T ! probe (grower_capacity ?g) (nextStride ?g) (grower_map ?g (hf_hash hf v)) k = NO_INDEX \<or>
     hf_equal hf v (qh_data T ! probe (grower_capacity ?g) (nextStride ?g) (grower_map ?g (hf_hash hf v)) k)"
    using find_first_stop [OF inv b] by metis
  have "qh_data T ! probe (grower_capacity ?g) (nextStride ?g) (grower_map ?g (hf_hash hf v)) k \<in> set (qh_data T)"
    using D(2,6) by simp
  with k no show ?thesis unfolding qh_find_def by (metis DiffI empty_iff insert_iff set_entries)
qed

text \<open>A lookup always ends, with an entry that is equal to the value or with no entry.\<close>

lemma qh_find_sound:
  assumes inv: "qh_inv H T"
  shows "\<exists>i. qh_find hf T v = Some i \<and> (i = NO_INDEX \<or> i \<in># entries (qh_data T) \<and> hf_equal hf v i)"
proof -
  let ?g = "qh_grower T"
  let ?p = "probe (grower_capacity ?g) (nextStride ?g) (grower_map ?g (hf_hash hf v))"
  note D = qh_invD [OF inv]
  have b: "grower_map ?g (hf_hash hf v) < grower_capacity ?g" using D(6) by (simp add: grower_map_def)
  obtain k where k: "find_loop hf T v (grower_map ?g (hf_hash hf v)) = Some (qh_data T ! ?p k)"
    "qh_data T ! ?p k = NO_INDEX \<or> hf_equal hf v (qh_data T ! ?p k)"
    using find_first_stop [OF inv b] by metis
  have "qh_data T ! ?p k \<in> set (qh_data T)" using D(2,6) by simp
  then show ?thesis using k unfolding qh_find_def set_entries by auto
qed

lemma qh_find_present:
  assumes inv: "qh_inv H T" and i: "i \<in># entries (qh_data T)" "hf_equal hf v i" "hf_hash hf v = H i"
  shows "qh_find hf T v \<noteq> Some NO_INDEX"
proof -
  let ?g = "qh_grower T" and ?d = "qh_data T"
  let ?b = "grower_map ?g (hf_hash hf v)"
  let ?p = "probe (grower_capacity ?g) (nextStride ?g) ?b"
  note D = qh_invD [OF inv]
  have b: "?b < grower_capacity ?g" and home: "?b = home_bucket H (grower_capacity ?g) i"
    using D(6) i(3) by (simp_all add: grower_map_def home_bucket_def)
  obtain k where k: "find_loop hf T v ?b = Some (?d ! ?p k)"
    "\<And>j. j < k \<Longrightarrow> ?d ! ?p j \<noteq> NO_INDEX \<and> \<not> hf_equal hf v (?d ! ?p j)"
    using find_first_stop [OF inv b] by metis
  obtain q where q: "q < grower_capacity ?g" "?d ! q = i" "i \<noteq> NO_INDEX"
    using i(1) D(2) by (auto simp: in_set_conv_nth)
  then obtain m where m: "?p m = q" "\<forall>j<m. ?d ! ?p j \<noteq> NO_INDEX"
    using D(3) home unfolding probe_ok_def by metis
  have "k \<le> m" using k(2) m(1) q(2) i(2) by (metis not_le)
  then have "?d ! ?p k \<noteq> NO_INDEX" using m q by (metis le_neq_implies_less)
  then show ?thesis using k(1) by (simp add: qh_find_def)
qed

lemma qh_find_hit:
  assumes inv: "qh_inv H T" and i: "i \<in># entries (qh_data T)" "hf_equal hf v i" "hf_hash hf v = H i"
    and uniq: "\<And>j. j \<in># entries (qh_data T) \<Longrightarrow> hf_equal hf v j \<Longrightarrow> j = i"
  shows "qh_find hf T v = Some i"
  using qh_find_sound [OF inv, of hf v] qh_find_present [OF inv i] uniq by auto

subsubsection \<open>Batch insertion\<close>

lemma write_cluster_ok:
  assumes "grower_ok g" "probe_ok (grower_capacity g) (nextStride g) home d"
    "size (entries d) + length es < grower_capacity g"
    "\<And>b i. (b, i) \<in> set es \<Longrightarrow> b = home i \<and> i \<noteq> NO_INDEX \<and> b < grower_capacity g"
  shows "\<exists>d' n'. write_cluster g es n d = Some (d', n') \<and>
    probe_ok (grower_capacity g) (nextStride g) home d' \<and> entries d' = entries d + mset (map snd es)"
  using assms
proof (induction es arbitrary: n d)
  case (Cons e es)
  obtain b i where e: "e = (b, i)" by (cases e)
  let ?p = "probe (grower_capacity g) (nextStride g) b"
  have c: "0 < grower_capacity g" "coprime (nextStride g) (grower_capacity g)"
    using grower_cases [OF Cons.prems(1)] by simp_all
  have len: "length d = grower_capacity g" using Cons.prems(2) by (simp add: probe_ok_def)
  have bi: "b = home i" "i \<noteq> NO_INDEX" "b < grower_capacity g" using Cons.prems(4) [of b i] e by simp_all
  obtain k where k: "d ! ?p k = NO_INDEX" "\<And>j. j < k \<Longrightarrow> d ! ?p j \<noteq> NO_INDEX"
    using first_free_bucket [OF len _ c(2)] Cons.prems(3) by (metis add_lessD1)
  have place: "batch_place d g b n = Some (?p k, n + k)"
    by (rule batch_place_reach) (use Cons.prems(1) bi k in auto)
  have "probe_ok (grower_capacity g) (nextStride g) home (d[?p k := i])"
    unfolding bi(1) by (rule probe_ok_place) (use Cons.prems(2) c bi k in auto)
  moreover have ent: "entries (d[?p k := i]) = add_mset i (entries d)"
    by (rule entries_update) (use len c k bi in auto)
  ultimately have "\<exists>d' n'. write_cluster g es (n + k) (d[?p k := i]) = Some (d', n') \<and>
    probe_ok (grower_capacity g) (nextStride g) home d' \<and>
    entries d' = entries (d[?p k := i]) + mset (map snd es)"
    using Cons.prems by (intro Cons.IH) auto
  then show ?case using place ent e by auto
qed simp

definition clustered :: "('i::len word \<Rightarrow> size_t) \<Rightarrow> nat \<Rightarrow> (nat \<times> 'i word) list \<Rightarrow> bool" where
  "clustered H c es \<longleftrightarrow> (\<forall>(b, i) \<in> set es. b = home_bucket H c i \<and> i \<noteq> NO_INDEX)"

lemma flush_cluster_ok:
  assumes inv: "qh_inv H T" and room: "size (entries (qh_data T)) + length es < grower_capacity (qh_grower T)"
    and es: "clustered H (grower_capacity (qh_grower T)) es"
  shows "\<exists>T'. flush_cluster es T = Some T' \<and> qh_inv H T' \<and>
    entries (qh_data T') = entries (qh_data T) + mset (map snd es) \<and>
    grower_capacity (qh_grower T') = grower_capacity (qh_grower T)"
proof -
  note D = qh_invD [OF inv]
  have c: "b = home_bucket H (grower_capacity (qh_grower T)) i \<and> i \<noteq> NO_INDEX \<and> b < grower_capacity (qh_grower T)"
    if "(b, i) \<in> set es" for b i
    using es that D(6) by (auto simp: clustered_def)
  obtain d' n' where w: "write_cluster (qh_grower T) es 0 (qh_data T) = Some (d', n')"
    "probe_ok (grower_capacity (qh_grower T)) (nextStride (qh_grower T))
       (home_bucket H (grower_capacity (qh_grower T))) d'"
    "entries d' = entries (qh_data T) + mset (map snd es)"
    using write_cluster_ok [OF D(1) D(3) room c, of 0] by blast
  then show ?thesis using D room by (auto simp: flush_cluster_def qh_inv_def)
qed

text \<open>The entries that wait in the buffer of cluster \<open>c\<close>.\<close>

definition cluster_chunk :: "nat \<Rightarrow> (nat \<times> 'i::len word) list \<Rightarrow> nat list \<Rightarrow> nat \<Rightarrow> (nat \<times> 'i word) list" where
  "cluster_chunk cs temp used_n c = take (used_n ! c) (drop (c * cs) temp)"

definition pending :: "nat \<Rightarrow> (nat \<times> 'i::len word) list \<Rightarrow> nat list \<Rightarrow> (nat \<times> 'i word) multiset" where
  "pending cs temp used_n = (\<Sum>c<MAX_CLUSTERS. mset (cluster_chunk cs temp used_n c))"

definition buffers_ok :: "nat \<Rightarrow> (nat \<times> 'i::len word) list \<Rightarrow> nat list \<Rightarrow> bool" where
  "buffers_ok cs temp used_n \<longleftrightarrow> length temp = MAX_CLUSTERS * cs \<and> length used_n = MAX_CLUSTERS \<and>
     (\<forall>c < MAX_CLUSTERS. used_n ! c < cs)"

lemma chunk_index:
  assumes "c < MAX_CLUSTERS" "n < cs"
  shows "n + c * cs < MAX_CLUSTERS * cs"
proof -
  have "n + c * cs < Suc c * cs" using assms(2) by simp
  also have "\<dots> \<le> MAX_CLUSTERS * cs" using assms(1) by (intro mult_le_mono1) simp
  finally show ?thesis .
qed

lemma drop_update_chunk:
  assumes "length xs = N * cs" "c < N" "n < cs"
  shows "take (Suc n) (drop (c * cs) (xs[n + c * cs := x])) = take n (drop (c * cs) xs) @ [x]"
proof -
  have "n + c * cs < Suc c * cs" using assms(3) by simp
  also have "\<dots> \<le> N * cs" using assms(2) by (intro mult_le_mono1) simp
  finally have "n < length (drop (c * cs) xs)" using assms(1) by simp
  then show ?thesis by (simp add: drop_update_swap take_Suc_conv_app_nth)
qed

lemma drop_update_other_chunk:
  assumes "c' \<noteq> c" "n < cs" "m \<le> cs"
  shows "take m (drop (c' * cs) (xs[n + c * cs := x])) = take m (drop (c' * cs) xs)"
proof (cases "c' < c")
  case True
  then have "c' * cs + m \<le> c * cs"
    by (metis add.commute add_le_mono1 assms(3) le_trans mult_Suc mult_le_mono1 Suc_leI)
  then show ?thesis by (simp add: drop_update_swap)
next
  case False
  then have "Suc c * cs \<le> c' * cs" using assms(1) by (intro mult_le_mono1) simp
  then have "n + c * cs < c' * cs" using assms(2) by simp
  then show ?thesis by (simp add: drop_update_cancel)
qed

lemma pending_add:
  assumes ok: "buffers_ok cs temp used_n" and c: "c < MAX_CLUSTERS" and n: "n = used_n ! c"
  shows "pending cs (temp[n + c * cs := x]) (used_n[c := n + 1]) = add_mset x (pending cs temp used_n)"
    and "cluster_chunk cs (temp[n + c * cs := x]) (used_n[c := n + 1]) c = cluster_chunk cs temp used_n c @ [x]"
proof -
  let ?t = "temp[n + c * cs := x]" and ?u = "used_n[c := n + 1]"
  have len: "length temp = MAX_CLUSTERS * cs" "length used_n = MAX_CLUSTERS" "n < cs"
    "\<And>c. c < MAX_CLUSTERS \<Longrightarrow> used_n ! c < cs" using ok c n by (auto simp: buffers_ok_def)
  show own: "cluster_chunk cs ?t ?u c = cluster_chunk cs temp used_n c @ [x]"
    using drop_update_chunk [OF len(1) c len(3), of x] len(2) c n by (simp add: cluster_chunk_def)
  have other: "cluster_chunk cs ?t ?u c' = cluster_chunk cs temp used_n c'" if "c' < MAX_CLUSTERS" "c' \<noteq> c" for c'
    using drop_update_other_chunk [of c' c n cs "used_n ! c'" temp x] len(3) len(4) [of c'] that
    by (simp add: cluster_chunk_def)
  have split: "(\<Sum>c'<MAX_CLUSTERS. f c') = f c + (\<Sum>c' \<in> {..<MAX_CLUSTERS} - {c}. f c')"
    for f :: "nat \<Rightarrow> (nat \<times> 'a word) multiset"
    using c by (intro sum.remove) auto
  show "pending cs ?t ?u = add_mset x (pending cs temp used_n)"
    unfolding pending_def split using own other by simp
qed

lemma pending_flush:
  assumes "length used_n = MAX_CLUSTERS" "c < MAX_CLUSTERS"
  shows "pending cs temp used_n = mset (cluster_chunk cs temp used_n c) + pending cs temp (used_n[c := 0])"
proof -
  have split: "(\<Sum>c'<MAX_CLUSTERS. f c') = f c + (\<Sum>c' \<in> {..<MAX_CLUSTERS} - {c}. f c')"
    for f :: "nat \<Rightarrow> (nat \<times> 'a word) multiset"
    using assms(2) by (intro sum.remove) auto
  show ?thesis unfolding pending_def split using assms by (simp add: cluster_chunk_def)
qed


lemma cluster_shift_ge: "cap \<le> MAX_CLUSTERS * 2 ^ cluster_shift cap s"
proof (induction cap s rule: cluster_shift.induct)
  case (1 cap s)
  then show ?case by (subst cluster_shift.simps) auto
qed

lemma cluster_index_less:
  assumes "b < cap" "cap \<le> MAX_CLUSTERS * 2 ^ s"
  shows "b div 2 ^ s < MAX_CLUSTERS"
  using assms by (simp add: less_mult_imp_div_less)

abbreviation clustered_mset :: "('i::len word \<Rightarrow> size_t) \<Rightarrow> nat \<Rightarrow> (nat \<times> 'i word) multiset \<Rightarrow> bool" where
  "clustered_mset H c M \<equiv> \<forall>(b, i) \<in> set_mset M. b = home_bucket H c i \<and> i \<noteq> NO_INDEX"

lemma new_indices_Cons_list:
  "map (\<lambda>n. i + of_nat n) [0..<length (v # vs)]
     = (i :: 'i::len word) # map (\<lambda>n. i + 1 + of_nat n) [0..<length vs]"
  by (simp add: upt_conv_Cons map_Suc_upt [symmetric] algebra_simps del: upt_Suc)

lemma new_indices_Cons:
  "mset (map (\<lambda>n. i + of_nat n) [0..<length (v # vs)])
     = add_mset (i :: 'i::len word) (mset (map (\<lambda>n. i + 1 + of_nat n) [0..<length vs]))"
  by (simp only: new_indices_Cons_list mset.simps)

lemma presort_main_ok:
  assumes "qh_inv H T" "buffers_ok cs temp used_n" "grower_capacity (qh_grower T) \<le> MAX_CLUSTERS * 2 ^ s"
    "clustered_mset H (grower_capacity (qh_grower T)) (pending cs temp used_n)"
    "size (entries (qh_data T)) + size (pending cs temp used_n) + length vs < grower_capacity (qh_grower T)"
    "\<And>n. n < length vs \<Longrightarrow> i + of_nat n \<noteq> NO_INDEX \<and> hf_hash hf (vs ! n) = H (i + of_nat n)"
  shows "\<exists>temp' used' T'. presort_main hf cs s vs i temp used_n T = Some (temp', used', T') \<and>
    qh_inv H T' \<and> buffers_ok cs temp' used' \<and> grower_capacity (qh_grower T') = grower_capacity (qh_grower T) \<and>
    clustered_mset H (grower_capacity (qh_grower T)) (pending cs temp' used') \<and>
    entries (qh_data T') + image_mset snd (pending cs temp' used')
      = entries (qh_data T) + image_mset snd (pending cs temp used_n)
        + mset (map (\<lambda>n. i + of_nat n) [0..<length vs])"
  using assms
proof (induction vs arbitrary: i temp used_n T)
  case (Cons v vs)
  let ?cap = "grower_capacity (qh_grower T)"
  define b where "b = grower_map (qh_grower T) (hf_hash hf v)"
  define c where "c = b div 2 ^ s"
  define n where "n = used_n ! c"
  define temp' where "temp' = temp[n + c * cs := (b, i)]"
  have i: "i \<noteq> NO_INDEX" and b: "b = home_bucket H ?cap i" and bl: "b < ?cap"
    using Cons.prems(6) [of 0] qh_invD(6) [OF Cons.prems(1)] by (auto simp: b_def grower_map_def home_bucket_def)
  have c: "c < MAX_CLUSTERS" unfolding c_def by (rule cluster_index_less [OF bl Cons.prems(3)])
  have buf: "length temp = MAX_CLUSTERS * cs" "length used_n = MAX_CLUSTERS" "n < cs"
    using Cons.prems(2) c by (auto simp: buffers_ok_def n_def)
  note P = pending_add [OF Cons.prems(2) c n_def, of "(b, i)", folded temp'_def]
  have step: "presort_main hf cs s (v # vs) i temp used_n T =
     (if n + 1 = cs
      then do { T' \<leftarrow> flush_cluster (take cs (drop (c * cs) temp')) T;
                presort_main hf cs s vs (i + 1) temp' (used_n[c := 0]) T' }
      else presort_main hf cs s vs (i + 1) temp' (used_n[c := n + 1]) T)"
    by (simp add: Let_def b_def c_def n_def temp'_def)
  have IHv: "\<And>m. m < length vs \<Longrightarrow> i + 1 + of_nat m \<noteq> NO_INDEX \<and> hf_hash hf (vs ! m) = H (i + 1 + of_nat m)"
    using Cons.prems(6) [of "Suc _"] by (auto simp: algebra_simps)
  have add: "clustered_mset H ?cap (pending cs temp' (used_n[c := n + 1]))"
    using Cons.prems(4) b i unfolding P(1) by auto
  show ?case
  proof (cases "n + 1 = cs")
    case False
    have "buffers_ok cs temp' (used_n[c := n + 1])"
      using Cons.prems(2) buf False c by (auto simp: buffers_ok_def temp'_def nth_list_update)
    moreover have "size (entries (qh_data T)) + size (pending cs temp' (used_n[c := n + 1])) + length vs < ?cap"
      using Cons.prems(5) unfolding P(1) by simp
    ultimately obtain temp2 used2 T2 where T2:
      "presort_main hf cs s vs (i + 1) temp' (used_n[c := n + 1]) T = Some (temp2, used2, T2)"
      "qh_inv H T2" "buffers_ok cs temp2 used2" "grower_capacity (qh_grower T2) = ?cap"
      "clustered_mset H ?cap (pending cs temp2 used2)"
      "entries (qh_data T2) + image_mset snd (pending cs temp2 used2)
      = entries (qh_data T) + image_mset snd (pending cs temp' (used_n[c := n + 1]))
        + mset (map (\<lambda>n. i + 1 + of_nat n) [0..<length vs])"
      using Cons.IH [OF Cons.prems(1) _ Cons.prems(3) add _ IHv] by blast
    have "entries (qh_data T2) + image_mset snd (pending cs temp2 used2)
        = entries (qh_data T) + image_mset snd (pending cs temp used_n)
          + mset (map (\<lambda>n. i + of_nat n) [0..<length (v # vs)])"
      unfolding T2(6) P(1) new_indices_Cons by simp
    moreover have "presort_main hf cs s (v # vs) i temp used_n T = Some (temp2, used2, T2)"
      unfolding step if_not_P [OF False] by (rule T2(1))
    ultimately show ?thesis using T2(2-5) by blast
  next
    case True
    let ?chunk = "take cs (drop (c * cs) temp')"
    have chunk: "cluster_chunk cs temp' (used_n[c := n + 1]) c = ?chunk"
      using True buf c by (simp add: cluster_chunk_def)
    have split: "add_mset (b, i) (pending cs temp used_n) = mset ?chunk + pending cs temp' (used_n[c := 0])"
      using pending_flush [of "used_n[c := n + 1]" c cs temp'] buf c P(1) chunk by simp
    have sizes: "size (pending cs temp used_n) + 1 = length ?chunk + size (pending cs temp' (used_n[c := 0]))"
      using arg_cong [OF split, of size] by simp
    have clu: "clustered H ?cap ?chunk" and clu': "clustered_mset H ?cap (pending cs temp' (used_n[c := 0]))"
      using add unfolding P(1) split clustered_def set_mset_union set_mset_mset by blast+
    have room: "size (entries (qh_data T)) + length ?chunk < ?cap"
      using Cons.prems(5) sizes by simp
    obtain T1 where T1: "flush_cluster ?chunk T = Some T1" "qh_inv H T1"
      "entries (qh_data T1) = entries (qh_data T) + mset (map snd ?chunk)"
      "grower_capacity (qh_grower T1) = ?cap"
      using flush_cluster_ok [OF Cons.prems(1) room clu] by blast
    have buf1: "buffers_ok cs temp' (used_n[c := 0])"
      using Cons.prems(2) buf c by (auto simp: buffers_ok_def temp'_def nth_list_update)
    have room1: "size (entries (qh_data T1)) + size (pending cs temp' (used_n[c := 0])) + length vs
        < grower_capacity (qh_grower T1)"
      using Cons.prems(5) sizes T1 by simp
    have cap1: "grower_capacity (qh_grower T1) \<le> MAX_CLUSTERS * 2 ^ s"
      and clu1: "clustered_mset H (grower_capacity (qh_grower T1)) (pending cs temp' (used_n[c := 0]))"
      unfolding T1(4) by (fact Cons.prems(3), fact clu')
    obtain temp2 used2 T2 where T2:
      "presort_main hf cs s vs (i + 1) temp' (used_n[c := 0]) T1 = Some (temp2, used2, T2)"
      "qh_inv H T2" "buffers_ok cs temp2 used2" "grower_capacity (qh_grower T2) = ?cap"
      "clustered_mset H ?cap (pending cs temp2 used2)"
      "entries (qh_data T2) + image_mset snd (pending cs temp2 used2)
      = entries (qh_data T1) + image_mset snd (pending cs temp' (used_n[c := 0]))
        + mset (map (\<lambda>n. i + 1 + of_nat n) [0..<length vs])"
      using Cons.IH [OF T1(2) buf1 cap1 clu1 room1 IHv] unfolding T1(4) by blast
    have "image_mset snd (add_mset (b, i) (pending cs temp used_n))
        = mset (map snd ?chunk) + image_mset snd (pending cs temp' (used_n[c := 0]))"
      unfolding split by simp
    then have "entries (qh_data T2) + image_mset snd (pending cs temp2 used2)
        = entries (qh_data T) + image_mset snd (pending cs temp used_n)
          + mset (map (\<lambda>n. i + of_nat n) [0..<length (v # vs)])"
      unfolding T2(6) T1(3) new_indices_Cons by (simp add: algebra_simps)
    moreover have "presort_main hf cs s (v # vs) i temp used_n T = Some (temp2, used2, T2)"
      unfolding step if_P [OF True] T1(1) bind.bind_lunit by (rule T2(1))
    ultimately show ?thesis using T2(2-5) by blast
  qed
qed simp

lemma presort_rest_ok:
  assumes "qh_inv H T"
    "size (entries (qh_data T)) + (\<Sum>c\<leftarrow>cs. length (cluster_chunk n temp used_n c)) < grower_capacity (qh_grower T)"
    "\<And>c. c \<in> set cs \<Longrightarrow> clustered H (grower_capacity (qh_grower T)) (cluster_chunk n temp used_n c)"
  shows "\<exists>T'. presort_rest n cs temp used_n T = Some T' \<and> qh_inv H T' \<and>
    entries (qh_data T') = entries (qh_data T) + (\<Sum>c\<leftarrow>cs. mset (map snd (cluster_chunk n temp used_n c)))"
  using assms
proof (induction cs arbitrary: T)
  case (Cons c cs)
  obtain T1 where T1: "flush_cluster (cluster_chunk n temp used_n c) T = Some T1" "qh_inv H T1"
    "entries (qh_data T1) = entries (qh_data T) + mset (map snd (cluster_chunk n temp used_n c))"
    "grower_capacity (qh_grower T1) = grower_capacity (qh_grower T)"
    using flush_cluster_ok [OF Cons.prems(1), of "cluster_chunk n temp used_n c"] Cons.prems(2,3) by auto
  show ?case using Cons.IH [OF T1(2)] Cons.prems(2,3) T1 by (auto simp: cluster_chunk_def add.assoc)
qed simp

lemma sum_list_length_chunks: "(\<Sum>c\<leftarrow>ks. length (f c)) = size (\<Sum>c\<leftarrow>ks. mset (f c))"
  by (induction ks) auto

lemma sum_list_map_snd:
  "(\<Sum>c\<leftarrow>ks. mset (map snd (f c))) = image_mset snd (\<Sum>c\<leftarrow>ks. mset (f c))"
  by (induction ks) auto

lemma presorted_insert_ok:
  assumes inv: "qh_inv H T" and room: "grower_size (qh_grower T) + length vs < grower_capacity (qh_grower T)"
    and new: "\<And>n. n < length vs \<Longrightarrow> i + of_nat n \<noteq> NO_INDEX \<and> hf_hash hf (vs ! n) = H (i + of_nat n)"
  shows "\<exists>T'. presorted_insert hf vs i T = Some T' \<and> qh_inv H T' \<and>
    entries (qh_data T') = entries (qh_data T) + mset (map (\<lambda>n. i + of_nat n) [0..<length vs])"
proof -
  define cs where "cs = max 1 (length vs div MAX_CLUSTERS)"
  let ?cap = "grower_capacity (qh_grower T)"
  let ?temp = "replicate (MAX_CLUSTERS * cs) (0, 0 :: 'a word)" and ?used = "replicate MAX_CLUSTERS (0::nat)"
  have p0: "pending cs ?temp ?used = {#}" by (simp add: pending_def cluster_chunk_def)
  have buf: "buffers_ok cs ?temp ?used" by (simp add: buffers_ok_def cs_def less_max_iff_disj)
  have clu0: "clustered_mset H ?cap (pending cs ?temp ?used)" unfolding p0 by simp
  have room0: "size (entries (qh_data T)) + size (pending cs ?temp ?used) + length vs < ?cap"
    unfolding p0 using room qh_invD(4) [OF inv] by simp
  obtain temp used' T1 where T1:
    "presort_main hf cs (cluster_shift ?cap 0) vs i ?temp ?used T = Some (temp, used', T1)"
    "qh_inv H T1" "buffers_ok cs temp used'" "grower_capacity (qh_grower T1) = ?cap"
    "clustered_mset H ?cap (pending cs temp used')"
    "entries (qh_data T1) + image_mset snd (pending cs temp used')
      = entries (qh_data T) + mset (map (\<lambda>n. i + of_nat n) [0..<length vs])"
    using presort_main_ok [OF inv buf cluster_shift_ge clu0 room0 new]
    unfolding p0 image_mset_empty add_0_right by blast
  let ?ch = "cluster_chunk cs temp used'"
  have pend: "pending cs temp used' = (\<Sum>c\<leftarrow>[0..<MAX_CLUSTERS]. mset (?ch c))"
    by (simp add: pending_def interv_sum_list_conv_sum_set_nat atLeast0LessThan)
  have "size (entries (qh_data T1)) + size (pending cs temp used') < ?cap"
    using arg_cong [OF T1(6), of size] room qh_invD(4) [OF inv] by simp
  then have room1: "size (entries (qh_data T1)) + (\<Sum>c\<leftarrow>[0..<MAX_CLUSTERS]. length (?ch c)) < grower_capacity (qh_grower T1)"
    using T1(4) unfolding pend sum_list_length_chunks by simp
  have clu: "clustered H (grower_capacity (qh_grower T1)) (?ch c)" if c: "c \<in> set [0..<MAX_CLUSTERS]" for c
  proof -
    have "pending cs temp used' = mset (?ch c) + (\<Sum>c' \<in> {..<MAX_CLUSTERS} - {c}. mset (?ch c'))"
      unfolding pending_def using c by (intro sum.remove) auto
    then have "set (?ch c) \<subseteq> set_mset (pending cs temp used')"
      by (simp only: set_mset_union set_mset_mset Un_upper1)
    then show ?thesis using T1(5) unfolding clustered_def T1(4) by blast
  qed
  from presort_rest_ok [OF T1(2) room1 clu] obtain T2 where
    T2: "presort_rest cs [0..<MAX_CLUSTERS] temp used' T1 = Some T2" "qh_inv H T2"
    and rest: "entries (qh_data T2)
      = entries (qh_data T1) + (\<Sum>c\<leftarrow>[0..<MAX_CLUSTERS]. mset (map snd (?ch c)))" by metis
  have "presorted_insert hf vs i T = Some T2"
    unfolding presorted_insert_def Let_def cs_def [symmetric] T1(1)
    by (simp only: bind.bind_lunit prod.case T2(1))
  moreover have "entries (qh_data T2) = entries (qh_data T) + mset (map (\<lambda>n. i + of_nat n) [0..<length vs])"
    using T1(6) by (simp only: rest sum_list_map_snd pend)
  ultimately show ?thesis using T2(2) by blast
qed

lemma insert_range_ok:
  fixes T :: "'i::len word quick_hash"
  assumes inv: "qh_inv H T"
    and m: "reserve_target (LENGTH('i) div 8) (grower_capacity (qh_grower T) + length vs) \<le> primes ! 29"
    and val: "\<And>i. i \<in># entries (qh_data T) \<Longrightarrow> hf_hash hf (hf_value hf i) = H i"
    and new: "\<And>n. n < length vs \<Longrightarrow> i + of_nat n \<noteq> NO_INDEX \<and> hf_hash hf (vs ! n) = H (i + of_nat n)"
  shows "\<exists>T'. insert_range hf vs i T = Some T' \<and> qh_inv H T' \<and>
    entries (qh_data T') = entries (qh_data T) + mset (map (\<lambda>n. i + of_nat n) [0..<length vs])"
proof -
  note D = qh_invD [OF inv]
  obtain T1 where T1:
    "(if should_grow_by (length vs) T then reserve hf (grower_capacity (qh_grower T) + length vs) T else Some T) = Some T1"
    "qh_inv H T1" "entries (qh_data T1) = entries (qh_data T)"
    "grower_size (qh_grower T1) + length vs < grower_capacity (qh_grower T1)"
  proof (cases "should_grow_by (length vs) T")
    case False
    then show thesis using that [of T] inv by (simp add: should_grow_by_def)
  next
    case True
    obtain T' where T': "reserve hf (grower_capacity (qh_grower T) + length vs) T = Some T'" "qh_inv H T'"
      "entries (qh_data T') = entries (qh_data T)"
      "grower_capacity (qh_grower T) + length vs \<le> grower_capacity (qh_grower T')"
      using reserve_ok [OF inv m, of hf] val by blast
    then show thesis using that [of T'] True D(5) qh_invD(4) [OF T'(2)] by simp
  qed
  then show ?thesis
    using insert_each_ok [OF T1(2,4) new] presorted_insert_ok [OF T1(2,4) new]
    by (cases "length vs < 1000") (auto simp: insert_range_def Let_def)
qed

subsubsection \<open>Construction, clearing, assignment\<close>

lemma grower_ok_init [simp]: "grower_ok prime_grower_init"
  by (simp add: grower_ok_def prime_grower_init_def qh_simps primes_def)

lemma grower_size_init [simp]: "grower_size prime_grower_init = 0"
  by (simp add: prime_grower_init_def statistics_t_init_def qh_simps)

lemma qh_inv_init: "qh_inv H quick_hash_init" "entries (qh_data quick_hash_init) = {#}"
  using create_data_inv [of prime_grower_init H "\<lparr>qh_data = [], qh_grower = prime_grower_init\<rparr>"]
  by (simp_all add: quick_hash_init_def)

lemma qh_inv_cong:
  assumes "qh_inv H T" "\<And>i. i \<in># entries (qh_data T) \<Longrightarrow> H i = H' i"
  shows "qh_inv H' T"
proof -
  let ?c = "grower_capacity (qh_grower T)"
  note D = qh_invD [OF assms(1)]
  have "home_bucket H ?c (qh_data T ! p) = home_bucket H' ?c (qh_data T ! p)"
    if "p < ?c" "qh_data T ! p \<noteq> NO_INDEX" for p
    using that assms(2) D(2) by (simp add: home_bucket_def)
  then have "probe_ok ?c (nextStride (qh_grower T)) (home_bucket H' ?c) (qh_data T)"
    using D(3) unfolding probe_ok_def by metis
  then show ?thesis using assms(1) by (simp add: qh_inv_def)
qed

lemma qh_clear_ok:
  assumes "qh_inv H T"
  shows "qh_inv H' (qh_clear T) \<and> entries (qh_data (qh_clear T)) = {#}"
proof (cases "grower_size (qh_grower T) > 0")
  case True
  then show ?thesis by (simp add: qh_clear_def create_data_inv)
next
  case False
  then have e: "entries (qh_data T) = {#}" using qh_invD(4) [OF assms] by simp
  then have "qh_inv H' T" using qh_inv_cong [OF assms, of H'] by simp
  then show ?thesis using False e by (simp add: qh_clear_def)
qed

lemma qh_assign_ok: "qh_inv H rhs \<Longrightarrow> qh_assign T rhs = rhs"
  using qh_invD(2) [of H rhs] by (simp add: qh_assign_def)

subsection \<open>The load of a table\<close>


text \<open>
  A table filled by single insertions has at most as many collisions as entries, so it grows only
  when it is half full: its capacity stays below a multiple of its size, and it never runs out of
  table sizes below 119304646 entries.
\<close>

text \<open>The table can still grow to hold \<open>n\<close> more entries within the table of capacities.\<close>

definition can_grow_by :: "nat \<Rightarrow> 'i::len word quick_hash \<Rightarrow> bool" where
  "can_grow_by n T \<longleftrightarrow>
     reserve_target (LENGTH('i) div 8) (grower_capacity (qh_grower T) + n) \<le> primes ! 29"

definition load_ok :: "'i::len word quick_hash \<Rightarrow> bool" where
  "load_ok T \<longleftrightarrow> grower_collisions (qh_grower T) \<le> grower_size (qh_grower T) \<and>
     grower_capacity (qh_grower T) \<le> 6 * grower_size (qh_grower T) + 3"

lemma internal_insert_stats:
  assumes "internal_insert T b i = Some T'"
  shows "grower_capacity (qh_grower T') = grower_capacity (qh_grower T) \<and>
    grower_size (qh_grower T') = Suc (grower_size (qh_grower T)) \<and>
    grower_collisions (qh_grower T') \<le> Suc (grower_collisions (qh_grower T))"
  using assms by (auto simp: internal_insert_def qh_simps split: if_splits bind_splits)

lemma rehash_loop_stats:
  "rehash_loop hf old T = Some T' \<Longrightarrow> grower_collisions (qh_grower T) \<le> grower_size (qh_grower T) \<Longrightarrow>
   grower_capacity (qh_grower T') = grower_capacity (qh_grower T) \<and>
   grower_collisions (qh_grower T') \<le> grower_size (qh_grower T')"
proof (induction hf old T rule: rehash_loop.induct)
  case (2 hf i old T)
  show ?case
  proof (cases "i = NO_INDEX")
    case True
    then show ?thesis using 2 by simp
  next
    case False
    then obtain T1 where T1: "internal_insert T (grower_map (qh_grower T) (hf_hash hf (hf_value hf i))) i = Some T1"
      "rehash_loop hf old T1 = Some T'" using "2.prems"(1) by (auto split: bind_splits)
    have "grower_collisions (qh_grower T1) \<le> grower_size (qh_grower T1)"
      using internal_insert_stats [OF T1(1)] "2.prems"(2) by simp
    then show ?thesis using "2.IH"(1) [OF False T1(1) T1(2)] internal_insert_stats [OF T1(1)] by simp
  qed
qed simp

lemma primes_ratio: "list_all (\<lambda>i. primes ! Suc i \<le> 3 * primes ! i \<and>
    (primes ! i + 1) + (primes ! i + 1) div 2 \<le> primes ! Suc i) [0..<29]"
  by (simp add: primes_def upt_rec)

lemma reserve_next_stats:
  assumes ok: "grower_ok (qh_grower T)" and i: "grower_index (qh_grower T) < 29"
    and r: "reserve hf (grower_capacity (qh_grower T) + 1) T = Some (T' :: 'i::len word quick_hash)"
  shows "grower_capacity (qh_grower T') \<le> 3 * grower_capacity (qh_grower T) \<and>
    grower_collisions (qh_grower T') \<le> grower_size (qh_grower T')"
proof -
  let ?g = "qh_grower T" and ?c = "grower_capacity (qh_grower T)"
  let ?m = "reserve_target (LENGTH('i) div 8) (?c + 1)"
  obtain g1 where g1: "grow ?g = Some g1" "grower_ok g1" "?c < grower_capacity g1"
    "grower_size g1 = 0" "grower_collisions g1 = 0" "grower_index g1 = Suc (grower_index ?g)"
    using grow_ok [OF ok i] by metis
  have "primes ! Suc (grower_index ?g) \<le> 3 * primes ! grower_index ?g"
    "primes ! grower_index ?g + 1 + (primes ! grower_index ?g + 1) div 2 \<le> primes ! Suc (grower_index ?g)"
    using primes_ratio i by (simp_all add: list_all_iff)
  then have cap: "grower_capacity g1 \<le> 3 * ?c" "?c + 1 + (?c + 1) div 2 \<le> grower_capacity g1"
    using ok g1(2,6) by (simp_all add: grower_ok_def)
  have "?m \<le> ?c + 1 + (?c + 1) div 2" by (simp add: reserve_target_def)
  then have "\<not> grower_capacity g1 < ?m" using cap(2) by simp
  moreover have "?c < ?m" using reserve_target_ge [of "?c + 1"] by (simp add: Suc_le_eq)
  moreover have "grow_to ?m g1 = Some g1" using calculation(1) by (subst grow_to.simps) simp
  ultimately have "grow_to ?m ?g = Some g1" by (subst grow_to.simps) (simp add: g1(1))
  then have "rehash_loop hf (qh_data T) (create_data (T\<lparr>qh_grower := g1\<rparr>)) = Some T'"
    using r g1(3) by (simp add: reserve_def rehash_def)
  then show ?thesis using rehash_loop_stats [of hf "qh_data T" "create_data (T\<lparr>qh_grower := g1\<rparr>)" T'] cap(1) g1(4,5)
    by (simp add: create_data_def)
qed

lemma qh_insert_load:
  assumes inv: "qh_inv H T" and ins: "qh_insert hf v i T = Some T'" and inv': "qh_inv H' T'"
    and load: "load_ok T" and ent: "size (entries (qh_data T')) = Suc (size (entries (qh_data T)))"
    and i: "grower_index (qh_grower T) < 29"
  shows "load_ok T'"
proof -
  note D = qh_invD [OF inv] qh_invD [OF inv']
  obtain T1 where T1: "(if should_grow T then reserve hf (grower_capacity (qh_grower T) + 1) T else Some T) = Some T1"
    "internal_insert T1 (grower_map (qh_grower T1) (hf_hash hf v)) i = Some T'"
    using ins by (auto simp: qh_insert_def split: bind_splits)
  note S = internal_insert_stats [OF T1(2)]
  have sz: "grower_size (qh_grower T1) = grower_size (qh_grower T)" using S D(4,11) ent by simp
  have "grower_collisions (qh_grower T1) \<le> grower_size (qh_grower T1) \<and>
      grower_capacity (qh_grower T1) \<le> 6 * grower_size (qh_grower T) + 3"
  proof (cases "should_grow T")
    case False
    then show ?thesis using T1(1) load by (simp add: load_ok_def)
  next
    case True
    then have "grower_capacity (qh_grower T) \<le> 2 * grower_size (qh_grower T) + 1"
      using load by (simp add: should_grow_def load_ok_def)
    then show ?thesis using reserve_next_stats [OF D(1) i, of hf T1] T1(1) True by simp
  qed
  then show ?thesis using S sz by (simp add: load_ok_def)
qed

lemma load_ok_index:
  assumes "grower_ok (qh_grower T)" "load_ok T" "grower_size (qh_grower T) \<le> 119304646"
  shows "grower_index (qh_grower T) < 29 \<and> can_grow_by 1 T"
proof -
  have c: "grower_capacity (qh_grower T) \<le> 715827879" using assms(2,3) by (simp add: load_ok_def)
  have "grower_index (qh_grower T) \<noteq> 29" using c assms(1) by (auto simp: grower_ok_def primes_def)
  then have "grower_index (qh_grower T) < 29" using assms(1) by (simp add: grower_ok_def)
  moreover have "can_grow_by 1 T" using c by (auto simp: can_grow_by_def reserve_target_def primes_def)
  ultimately show ?thesis ..
qed

lemma load_ok_init [simp]: "load_ok quick_hash_init"
  by (simp add: load_ok_def quick_hash_init_def create_data_def prime_grower_init_def statistics_t_init_def
      qh_simps primes_def)

lemma load_ok_clear: "load_ok T \<Longrightarrow> load_ok (qh_clear T)"
  by (auto simp: load_ok_def qh_clear_def create_data_def prime_grower_init_def statistics_t_init_def
      qh_simps primes_def)

lemma can_grow_clear_load:
  "load_ok T \<Longrightarrow> n \<le> 700000000 \<Longrightarrow> can_grow_by n (qh_clear T)"
  by (auto simp: load_ok_def can_grow_by_def qh_clear_def create_data_def prime_grower_init_def
      statistics_t_init_def qh_simps primes_def reserve_target_def)

subsection \<open>Containers that own a table\<close>

text \<open>
  A container stores its keys under consecutive indices; its table must hold exactly these.
  \<open>index_in ks k\<close> is the index that a lookup of \<open>k\<close> must return.
\<close>

definition index_in :: "'k list \<Rightarrow> 'k \<Rightarrow> 'i::len word" where
  "index_in ks k = (if k \<in> set ks then of_nat (length (takeWhile (\<lambda>x. x \<noteq> k) ks)) else NO_INDEX)"

definition index_rep :: "('k \<Rightarrow> size_t) \<Rightarrow> 'k list \<Rightarrow> 'i::len word quick_hash \<Rightarrow> bool" where
  "index_rep h ks T \<longleftrightarrow> length ks < 2 ^ LENGTH('i) \<and>
     qh_inv (\<lambda>i. h (ks ! unat i)) T \<and> entries (qh_data T) = mset (map of_nat [0..<length ks])"

lemma index_in_nth:
  assumes "distinct ks" "n < length ks"
  shows "index_in ks (ks ! n) = of_nat n"
proof -
  have "takeWhile (\<lambda>x. x \<noteq> ks ! n) ks = take n ks"
    using assms by (intro takeWhile_eq_take_P_nth) (auto simp: nth_eq_iff_index_eq)
  then show ?thesis using assms by (simp add: index_in_def)
qed

lemma takeWhile_neq_append: "k \<notin> set ks \<Longrightarrow> takeWhile (\<lambda>x. x \<noteq> k) (ks @ [k]) = ks"
  by (induction ks) auto

lemma index_in_append_new [simp]: "k \<notin> set ks \<Longrightarrow> index_in (ks @ [k]) k = of_nat (length ks)"
  by (simp add: index_in_def takeWhile_neq_append)

lemma index_in_append_old [simp]: "k \<in> set ks \<Longrightarrow> index_in (ks @ ks') k = index_in ks k"
  by (auto simp: index_in_def)

lemma index_in_append_other [simp]: "k \<noteq> k' \<Longrightarrow> index_in (ks @ [k']) k = index_in ks k"
  by (auto simp: index_in_def takeWhile_append2)

lemma index_in_NO_INDEX_iff:
  assumes "length ks < 2 ^ LENGTH('i)"
  shows "(index_in ks k :: 'i::len word) = NO_INDEX \<longleftrightarrow> k \<notin> set ks"
proof (cases "k \<in> set ks")
  case True
  then have "length (takeWhile (\<lambda>x. x \<noteq> k) ks) < length ks"
    by (induction ks) auto
  then have "(of_nat (length (takeWhile (\<lambda>x. x \<noteq> k) ks)) :: 'i word) \<noteq> NO_INDEX"
    using assms by (intro of_nat_neq_NO_INDEX) simp
  then show ?thesis using True by (simp add: index_in_def)
qed (simp add: index_in_def)

lemma entries_index:
  assumes "index_rep h ks (T :: 'i::len word quick_hash)"
  shows "i \<in># entries (qh_data T) \<longleftrightarrow> unat i < length ks"
proof -
  have "i \<in># entries (qh_data T) \<longleftrightarrow> i \<in> of_nat ` {0..<length ks}"
    using assms by (simp add: index_rep_def del: set_entries)
  also have "\<dots> \<longleftrightarrow> unat i < length ks"
  proof
    assume "i \<in> of_nat ` {0..<length ks}"
    then show "unat i < length ks" using assms by (auto simp: index_rep_def unat_of_nat_small)
  next
    assume "unat i < length ks"
    then show "i \<in> of_nat ` {0..<length ks}" by (intro image_eqI [of _ _ "unat i"]) auto
  qed
  finally show ?thesis .
qed

lemma index_rep_init: "index_rep h [] quick_hash_init"
  by (simp add: index_rep_def qh_inv_init del: set_entries)

lemma index_rep_clear: "index_rep h ks T \<Longrightarrow> index_rep h' [] (qh_clear T)"
  by (auto simp: index_rep_def dest: qh_clear_ok)

locale hash_container =
  fixes hfn :: "'s \<Rightarrow> ('v, 'i::len word) hash_functor"
    and keys :: "'s \<Rightarrow> 'k list"
    and norm_key :: "'v \<Rightarrow> 'k"
    and key_hash :: "'k \<Rightarrow> size_t"
    and valid :: "'s \<Rightarrow> bool"
  assumes hash_norm: "hf_hash (hfn s) v = key_hash (norm_key v)"
    and value_norm: "valid s \<Longrightarrow> unat i < length (keys s) \<Longrightarrow>
      norm_key (hf_value (hfn s) i) = keys s ! unat i"
    and equal_norm: "valid s \<Longrightarrow> unat i < length (keys s) \<Longrightarrow>
      hf_equal (hfn s) v i \<longleftrightarrow> norm_key v = keys s ! unat i"
begin

lemma find_key:
  assumes s: "valid s" and rep: "index_rep key_hash (keys s) T" and d: "distinct (keys s)"
  shows "qh_find (hfn s) T v = Some (index_in (keys s) (norm_key v))"
proof -
  note inv = rep [unfolded index_rep_def, THEN conjunct2, THEN conjunct1]
  note len = rep [unfolded index_rep_def, THEN conjunct1]
  note ent = entries_index [OF rep]
  show ?thesis
  proof (cases "norm_key v \<in> set (keys s)")
    case True
    then obtain n where n: "n < length (keys s)" "keys s ! n = norm_key v" by (auto simp: in_set_conv_nth)
    then have un: "unat (of_nat n :: 'i word) = n" using len by (simp add: unat_of_nat_small)
    have "qh_find (hfn s) T v = Some (of_nat n)"
    proof (rule qh_find_hit [OF inv])
      show "of_nat n \<in># entries (qh_data T)" using ent n un by metis
      show "hf_equal (hfn s) v (of_nat n)" using equal_norm [OF s] n un by metis
      show "hf_hash (hfn s) v = key_hash (keys s ! unat (of_nat n :: 'i word))"
        using hash_norm n un by metis
      fix j assume j: "j \<in># entries (qh_data T)" "hf_equal (hfn s) v j"
      then have "unat j < length (keys s)" using ent by metis
      moreover have "keys s ! unat j = keys s ! n" using equal_norm [OF s calculation] j n by simp
      ultimately have "unat j = n" using d n(1) by (simp add: nth_eq_iff_index_eq)
      then show "j = of_nat n" by auto
    qed
    moreover have "(index_in (keys s) (keys s ! n) :: 'i word) = of_nat n" by (rule index_in_nth [OF d n(1)])
    ultimately show ?thesis unfolding n(2) by simp
  next
    case False
    have "qh_find (hfn s) T v = Some NO_INDEX"
    proof (rule qh_find_miss [OF inv])
      fix i assume "i \<in># entries (qh_data T)"
      then have "unat i < length (keys s)" using ent by metis
      then show "\<not> hf_equal (hfn s) v i" using equal_norm [OF s] False by (metis nth_mem)
    qed
    then show ?thesis using False by (simp add: index_in_def)
  qed
qed

text \<open>Inserting the next key, with the functor of any state that agrees on the old keys.\<close>

lemma insert_key:
  assumes s: "valid s" and old: "\<And>n. n < length ks \<Longrightarrow> n < length (keys s) \<and> keys s ! n = ks ! n"
    and rep: "index_rep key_hash ks T" and grow: "can_grow_by 1 T"
    and len: "length ks + 1 < 2 ^ LENGTH('i)"
  shows "\<exists>T'. qh_insert (hfn s) v (of_nat (length ks)) T = Some T' \<and>
    index_rep key_hash (ks @ [norm_key v]) T' \<and> (load_ok T \<and> length ks \<le> 119304646 \<longrightarrow> load_ok T')"
proof -
  let ?H = "\<lambda>i :: 'i word. key_hash (ks ! unat i)" and ?H' = "\<lambda>i :: 'i word. key_hash ((ks @ [norm_key v]) ! unat i)"
  have ent: "unat i < length ks" if "i \<in># entries (qh_data T)" for i
    using entries_index [OF rep] that by metis
  have un: "unat (of_nat (length ks) :: 'i word) = length ks" using len by (simp add: unat_of_nat_small)
  have inv: "qh_inv ?H' T"
  proof (rule qh_inv_cong)
    show "qh_inv ?H T" using rep by (simp add: index_rep_def)
    fix i assume "i \<in># entries (qh_data T)"
    then show "?H i = ?H' i" using ent by (simp add: nth_append)
  qed
  obtain T' where T': "qh_insert (hfn s) v (of_nat (length ks)) T = Some T'" "qh_inv ?H' T'"
      "entries (qh_data T') = add_mset (of_nat (length ks)) (entries (qh_data T))"
  proof (atomize_elim, rule qh_insert_ok [OF inv])
    show "(of_nat (length ks) :: 'i word) \<noteq> NO_INDEX" using len by (intro of_nat_neq_NO_INDEX) simp
    show "hf_hash (hfn s) v = ?H' (of_nat (length ks))" using un by (simp add: hash_norm)
    show "reserve_target (LENGTH('i) div 8) (grower_capacity (qh_grower T) + 1) \<le> primes ! 29"
      using grow by (simp add: can_grow_by_def)
    fix i assume "i \<in># entries (qh_data T)"
    then have i: "unat i < length ks" by (rule ent)
    then show "hf_hash (hfn s) (hf_value (hfn s) i) = ?H' i"
      using value_norm [OF s, of i] old [OF i] by (simp add: hash_norm nth_append)
  qed
  have "load_ok T'" if "load_ok T" "length ks \<le> 119304646"
  proof (rule qh_insert_load [OF inv T'(1,2) that(1)])
    show "size (entries (qh_data T')) = Suc (size (entries (qh_data T)))" using T'(3) by simp
    have "grower_size (qh_grower T) = length ks" using rep qh_invD(4) [OF inv] by (simp add: index_rep_def)
    then show "grower_index (qh_grower T) < 29" using load_ok_index [OF qh_invD(1) [OF inv]] that by simp
  qed
  moreover have "index_rep key_hash (ks @ [norm_key v]) T'" using T'(2,3) rep len by (auto simp: index_rep_def)
  ultimately show ?thesis using T'(1) by blast
qed

lemma index_rep_can_grow:
  "index_rep key_hash ks (T :: 'i word quick_hash) \<Longrightarrow> load_ok T \<Longrightarrow> length ks \<le> 119304646 \<Longrightarrow> can_grow_by 1 T"
  using load_ok_index [of T] by (auto simp: index_rep_def qh_inv_def)

text \<open>Filling an empty table with the keys of the container, as after loading it.\<close>

lemma insert_all_keys:
  assumes rep: "index_rep key_hash [] T" and vs: "map norm_key vs = keys s"
    and grow: "can_grow_by (length vs) T" and len: "length (keys s) < 2 ^ LENGTH('i)"
  shows "\<exists>T'. insert_range (hfn s) vs 0 T = Some T' \<and> index_rep key_hash (keys s) T'"
proof -
  have vl: "length vs = length (keys s)" using vs by (metis length_map)
  let ?H = "\<lambda>i :: 'i word. key_hash (keys s ! unat i)"
  have e: "entries (qh_data T) = {#}" using rep by (simp add: index_rep_def)
  have "qh_inv ?H T" by (rule qh_inv_cong [of "\<lambda>i. key_hash ([] ! unat i)"]) (use rep e in \<open>auto simp: index_rep_def\<close>)
  then have "\<exists>T'. insert_range (hfn s) vs 0 T = Some T' \<and> qh_inv ?H T' \<and>
      entries (qh_data T') = entries (qh_data T) + mset (map (\<lambda>n. 0 + of_nat n) [0..<length vs])"
  proof (rule insert_range_ok)
    show "reserve_target (LENGTH('i) div 8) (grower_capacity (qh_grower T) + length vs) \<le> primes ! 29"
      using grow by (simp add: can_grow_by_def)
    show "\<And>i. i \<in># entries (qh_data T) \<Longrightarrow> hf_hash (hfn s) (hf_value (hfn s) i) = ?H i"
      unfolding e by simp
    fix n assume n: "n < length vs"
    then have "norm_key (vs ! n) = keys s ! n" by (metis nth_map vs)
    moreover have "(of_nat n :: 'i word) \<noteq> NO_INDEX" using n vl len by (intro of_nat_neq_NO_INDEX) simp
    ultimately show "0 + of_nat n \<noteq> (NO_INDEX :: 'i word) \<and> hf_hash (hfn s) (vs ! n) = ?H (0 + of_nat n)"
      using n vl len by (simp add: hash_norm unat_of_nat_small)
  qed
  then show ?thesis using len e vl by (auto simp: index_rep_def)
qed

end

subsection \<open>Tables of bounded capacity\<close>

definition ample :: "'i::len word quick_hash \<Rightarrow> bool" where
  "ample T \<longleftrightarrow> grower_collisions (qh_grower T) \<le> grower_size (qh_grower T) \<and> grower_capacity (qh_grower T) \<le> 715827879"

lemma ample_init [simp]: "ample quick_hash_init"
  by (simp add: ample_def quick_hash_init_def create_data_def prime_grower_init_def statistics_t_init_def qh_simps primes_def)

lemma ample_index:
  assumes "grower_ok (qh_grower T)" "ample T"
  shows "grower_index (qh_grower T) < 29" "can_grow_by 1 T"
proof -
  have "grower_index (qh_grower T) \<noteq> 29" using assms by (auto simp: ample_def grower_ok_def primes_def)
  then show "grower_index (qh_grower T) < 29" using assms(1) by (simp add: grower_ok_def)
  show "can_grow_by 1 T" using assms(2) by (auto simp: ample_def can_grow_by_def reserve_target_def primes_def)
qed

lemma ample_can_grow: "index_rep h ks T \<Longrightarrow> ample T \<Longrightarrow> can_grow_by (Suc 0) T"
  using ample_index(2) [of T] qh_invD(1) by (auto simp: index_rep_def)

lemma qh_insert_ample:
  assumes inv: "qh_inv H T" and ins: "qh_insert hf v i T = Some T'" and inv': "qh_inv H' T'"
    and am: "ample T" and ent: "size (entries (qh_data T')) = Suc (size (entries (qh_data T)))"
    and small: "size (entries (qh_data T)) \<le> 119304646"
  shows "ample T'"
proof -
  note D = qh_invD [OF inv] qh_invD [OF inv']
  obtain T1 where T1: "(if should_grow T then reserve hf (grower_capacity (qh_grower T) + 1) T else Some T) = Some T1"
    "internal_insert T1 (grower_map (qh_grower T1) (hf_hash hf v)) i = Some T'"
    using ins by (auto simp: qh_insert_def split: bind_splits)
  note S = internal_insert_stats [OF T1(2)]
  have sz: "grower_size (qh_grower T1) = grower_size (qh_grower T)" using S D(4,11) ent by simp
  have "grower_collisions (qh_grower T1) \<le> grower_size (qh_grower T1) \<and> grower_capacity (qh_grower T1) \<le> 715827879"
  proof (cases "should_grow T")
    case False
    then show ?thesis using T1(1) am by (simp add: ample_def)
  next
    case True
    then have "grower_capacity (qh_grower T) \<le> 2 * grower_size (qh_grower T) + 1"
      using am by (simp add: should_grow_def ample_def)
    then show ?thesis
      using reserve_next_stats [OF D(1) ample_index(1) [OF D(1) am], of hf T1] T1(1) True small D(4) by simp
  qed
  then show ?thesis using S sz by (simp add: ample_def)
qed

lemma qh_insert_ample_rep:
  assumes "index_rep h ks T" "index_rep h' ks' T'" "qh_insert hf v i T = Some T'" "length ks' = Suc (length ks)"
    "length ks \<le> 119304646" "ample T"
  shows "ample T'"
proof -
  have r: "qh_inv (\<lambda>i. h (ks ! unat i)) T" "qh_inv (\<lambda>i. h' (ks' ! unat i)) T'"
    "size (entries (qh_data T)) = length ks" "size (entries (qh_data T')) = length ks'"
    using assms(1,2) by (simp_all add: index_rep_def)
  show ?thesis by (rule qh_insert_ample [OF r(1) assms(3) r(2) assms(6)]) (use r(3,4) assms(4,5) in simp_all)
qed

lemma grow_to_capacity:
  "grower_ok g \<Longrightarrow> m \<le> primes ! 29 \<Longrightarrow> grow_to m g = Some g' \<Longrightarrow> grower_capacity g' \<le> max (grower_capacity g) (3 * m)"
proof (induction "29 - grower_index g" arbitrary: g)
  case 0
  then have "grower_index g = 29" by (simp add: grower_ok_def)
  then have "\<not> grower_capacity g < m" using 0 by (simp add: grower_ok_def)
  then show ?case using 0 by (simp add: grow_to.simps [of m g])
next
  case (Suc n)
  show ?case
  proof (cases "grower_capacity g < m")
    case False
    then show ?thesis using Suc.prems by (simp add: grow_to.simps [of m g])
  next
    case True
    obtain g1 where g1: "grow g = Some g1" "grower_ok g1" "grower_index g1 = Suc (grower_index g)"
      using grow_ok [of g] Suc.prems Suc.hyps(2) by (metis zero_less_Suc zero_less_diff)
    have "primes ! Suc (grower_index g) \<le> 3 * primes ! grower_index g"
      using primes_ratio Suc.hyps(2) by (simp add: list_all_iff)
    then have "grower_capacity g1 \<le> 3 * grower_capacity g" using g1(2,3) Suc.prems(1) by (simp add: grower_ok_def)
    then have c: "grower_capacity g1 \<le> 3 * m" using True by simp
    have "grow_to m g1 = Some g'" using Suc.prems(3) True g1(1) by (simp add: grow_to.simps [of m g])
    then have "grower_capacity g' \<le> max (grower_capacity g1) (3 * m)"
      using Suc.hyps g1 Suc.prems(2) by (intro Suc.hyps(1)) simp_all
    then show ?thesis using c by simp
  qed
qed

text \<open>Reserving room for up to 119304646 entries.\<close>

lemma reserve_ample:
  assumes rep: "index_rep h ks T" and am: "ample T" and m: "m \<le> 119304646"
    and val: "\<And>i. i \<in># entries (qh_data T) \<Longrightarrow> hf_hash hf (hf_value hf i) = h (ks ! unat i)"
  shows "\<exists>T'. reserve hf m T = Some T' \<and> index_rep h ks T' \<and> ample (T' :: 'i::len word quick_hash)"
proof -
  have inv: "qh_inv (\<lambda>i. h (ks ! unat i)) T" using rep by (simp add: index_rep_def)
  let ?m = "reserve_target (LENGTH('i) div 8) m"
  have tm: "?m \<le> m + m div 2" by (simp add: reserve_target_def)
  then have p: "?m \<le> primes ! 29" using m by (simp add: primes_def)
  obtain T' where T': "reserve hf m T = Some T'" "qh_inv (\<lambda>i. h (ks ! unat i)) T'" "entries (qh_data T') = entries (qh_data T)"
    using reserve_ok [OF inv p val] by blast
  obtain g where g: "grow_to ?m (qh_grower T) = Some g"
    "if grower_capacity (qh_grower T) < ?m then grower_capacity (qh_grower T) < grower_capacity g \<and>
       grower_size g = 0 \<and> grower_collisions g = 0 else g = qh_grower T"
    using grow_to_ok [OF qh_invD(1) [OF inv] p] by blast
  have "3 * ?m \<le> 536870907" using tm m by linarith
  then have "max (grower_capacity (qh_grower T)) (3 * ?m) \<le> 715827879" using am by (simp add: ample_def)
  then have cap: "grower_capacity g \<le> 715827879"
    by (rule order_trans [OF grow_to_capacity [OF qh_invD(1) [OF inv] p g(1)]])
  have "ample T'"
  proof (cases "grower_capacity g = grower_capacity (qh_grower T)")
    case True
    then show ?thesis using T'(1) g am by (auto simp: reserve_def ample_def split: if_splits)
  next
    case False
    then have "rehash_loop hf (qh_data T) (create_data (T\<lparr>qh_grower := g\<rparr>)) = Some T'"
      using T'(1) g(1) by (simp add: reserve_def rehash_def)
    moreover have "grower_collisions (qh_grower (create_data (T\<lparr>qh_grower := g\<rparr>))) \<le> grower_size (qh_grower (create_data (T\<lparr>qh_grower := g\<rparr>)))"
      using g(2) False by (auto simp: create_data_def split: if_splits)
    ultimately show ?thesis using rehash_loop_stats [of hf "qh_data T"] cap by (auto simp: ample_def create_data_def)
  qed
  moreover have "index_rep h ks T'" using rep T'(2,3) by (simp add: index_rep_def)
  ultimately show ?thesis using T'(1) by blast
qed

subsection \<open>Properties\<close>

lemma grow_to_fails:
  "grower_ok g \<Longrightarrow> 1073741827 < m \<Longrightarrow> grow_to m g = None"
proof (induction "30 - grower_index g" arbitrary: g)
  case (Suc n)
  have last: "primes ! 29 = 1073741827" by (simp add: primes_def)
  have "grower_capacity g < m"
  proof (cases "grower_index g = 29")
    case False
    then have "primes ! grower_index g < primes ! 29"
      using Suc.prems(1) by (intro primes_mono) (auto simp: grower_ok_def)
    then show ?thesis using Suc.prems last by (simp add: grower_ok_def)
  qed (use Suc.prems last in \<open>simp add: grower_ok_def\<close>)
  moreover have "(case grow g of None \<Rightarrow> None | Some g' \<Rightarrow> grow_to m g') = None"
  proof (cases "grower_index g < 29")
    case True
    then obtain g' where "grow g = Some g'" "grower_ok g'" "grower_index g' = Suc (grower_index g)"
      using grow_ok [OF Suc.prems(1)] by metis
    then show ?thesis using Suc by simp
  next
    case False
    then have "grower_index g = 29" using Suc.prems(1) by (simp add: grower_ok_def)
    then show ?thesis by (simp add: grow_def primes_def)
  qed
  ultimately show ?case by (subst grow_to.simps) simp
qed (simp add: grower_ok_def)

text \<open>
  C22.  A single insertion into a well-formed table succeeds, whether or not it has to rehash; the
  new table is well-formed, the inserted index is found for its value, and every other index
  that was found for its value before is found for it after.
\<close>

theorem quick_hash_insert_then_find:
  fixes T :: "'i::len word quick_hash"
  assumes inv: "qh_inv H T" and i: "i \<noteq> NO_INDEX" "hf_hash hf v = H i" "hf_equal hf v i"
    and room: "reserve_target (LENGTH('i) div 8) (grower_capacity (qh_grower T) + 1) \<le> 1073741827"
    and old: "\<And>j. j \<in># entries (qh_data T) \<Longrightarrow> hf_hash hf (hf_value hf j) = H j \<and> \<not> hf_equal hf v j"
  shows "\<exists>T'. qh_insert hf v i T = Some T' \<and> qh_inv H T' \<and> qh_find hf T' v = Some i \<and>
    (\<forall>w j. hf_hash hf w = H j \<and> j \<in># entries (qh_data T) \<and> \<not> hf_equal hf w i \<and>
       {k. k \<in># entries (qh_data T) \<and> hf_equal hf w k} = {j} \<longrightarrow> qh_find hf T' w = Some j)"
proof -
  have "\<exists>T'. qh_insert hf v i T = Some T' \<and> qh_inv H T' \<and> entries (qh_data T') = add_mset i (entries (qh_data T))"
  proof (rule qh_insert_ok [OF inv i(1,2)])
    show "reserve_target (LENGTH('i) div 8) (grower_capacity (qh_grower T) + 1) \<le> primes ! 29"
      using room by (simp add: primes_def)
  qed (use old in blast)
  then obtain T' where T': "qh_insert hf v i T = Some T'" "qh_inv H T'"
    "entries (qh_data T') = add_mset i (entries (qh_data T))" by blast
  have "qh_find hf T' v = Some i" by (rule qh_find_hit [OF T'(2)]) (use T'(3) i old in auto)
  moreover have "qh_find hf T' w = Some j"
    if "hf_hash hf w = H j" "j \<in># entries (qh_data T)" "\<not> hf_equal hf w i"
      "{k. k \<in># entries (qh_data T) \<and> hf_equal hf w k} = {j}" for w j
    by (rule qh_find_hit [OF T'(2)]) (use T'(3) that in auto)
  ultimately show ?thesis using T'(1,2) by blast
qed

theorem quick_hash_insert_then_find_witness:
  "\<exists>T'. qh_insert \<lparr>hf_hash = \<lambda>v. v, hf_value = (\<lambda>i::32 word. ucast i), hf_equal = (\<lambda>v i. v = ucast i)\<rparr>
     7 7 quick_hash_init = Some T'"
proof -
  let ?hf = "\<lparr>hf_hash = \<lambda>v. v, hf_value = (\<lambda>i::32 word. ucast i), hf_equal = (\<lambda>v i. v = ucast i)\<rparr> :: (64 word, 32 word) hash_functor"
  have "\<exists>T'. qh_insert ?hf 7 7 quick_hash_init = Some T' \<and> qh_inv ucast T' \<and> qh_find ?hf T' 7 = Some 7 \<and>
    (\<forall>w j. hf_hash ?hf w = ucast j \<and> j \<in># entries (qh_data (quick_hash_init :: 32 word quick_hash)) \<and> \<not> hf_equal ?hf w 7 \<and>
       {k. k \<in># entries (qh_data (quick_hash_init :: 32 word quick_hash)) \<and> hf_equal ?hf w k} = {j} \<longrightarrow> qh_find ?hf T' w = Some j)"
    by (rule quick_hash_insert_then_find [OF qh_inv_init(1)])
      (simp_all add: qh_inv_init(2) NO_INDEX_def quick_hash_init_def create_data_def prime_grower_init_def
        statistics_t_init_def qh_simps primes_def reserve_target_def)
  then show ?thesis by blast
qed

text \<open>
  C23.  Inserting a range of values at once succeeds, through the conventional loop and through the
  clustered \<open>presorted_insert\<close> alike; afterwards the value at position \<open>n\<close> is found under the
  index \<open>i + n\<close>, and the old indexes are still the ones found.
\<close>

theorem quick_hash_batch_insert_then_find:
  fixes T :: "'i::len word quick_hash"
  assumes inv: "qh_inv H T" and range: "unat i + length vs < 2 ^ LENGTH('i)"
    and room: "reserve_target (LENGTH('i) div 8) (grower_capacity (qh_grower T) + length vs) \<le> 1073741827"
    and old: "\<And>j. j \<in># entries (qh_data T) \<Longrightarrow> hf_hash hf (hf_value hf j) = H j"
    and new: "\<And>n. n < length vs \<Longrightarrow> hf_hash hf (vs ! n) = H (i + of_nat n) \<and>
      {j. hf_equal hf (vs ! n) j \<and> (j \<in># entries (qh_data T) \<or> (\<exists>m < length vs. j = i + of_nat m))} = {i + of_nat n}"
  shows "\<exists>T'. insert_range hf vs i T = Some T' \<and> qh_inv H T' \<and>
    (\<forall>n < length vs. qh_find hf T' (vs ! n) = Some (i + of_nat n)) \<and>
    (\<forall>w j. hf_hash hf w = H j \<and> j \<in># entries (qh_data T) \<and>
      {k. hf_equal hf w k \<and> (k \<in># entries (qh_data T) \<or> (\<exists>m < length vs. k = i + of_nat m))} = {j} \<longrightarrow>
      qh_find hf T' w = Some j)"
proof -
  have idx: "i + of_nat n \<noteq> NO_INDEX" if "n < length vs" for n
  proof -
    have "(of_nat (unat i + n) :: 'i word) \<noteq> NO_INDEX" using that range by (intro of_nat_neq_NO_INDEX) simp
    then show ?thesis by simp
  qed
  have "\<exists>T'. insert_range hf vs i T = Some T' \<and> qh_inv H T' \<and>
    entries (qh_data T') = entries (qh_data T) + mset (map (\<lambda>n. i + of_nat n) [0..<length vs])"
  proof (rule insert_range_ok [OF inv])
    show "reserve_target (LENGTH('i) div 8) (grower_capacity (qh_grower T) + length vs) \<le> primes ! 29"
      using room by (simp add: primes_def)
  qed (use old new idx in blast)+
  then obtain T' where T': "insert_range hf vs i T = Some T'" "qh_inv H T'"
    "entries (qh_data T') = entries (qh_data T) + mset (map (\<lambda>n. i + of_nat n) [0..<length vs])" by blast
  have ent: "j \<in># entries (qh_data T') \<longleftrightarrow> j \<in># entries (qh_data T) \<or> (\<exists>m < length vs. j = i + of_nat m)" for j
    unfolding T'(3) by (auto simp del: set_entries)
  have "qh_find hf T' w = Some j" if "hf_hash hf w = H j" 
      "{k. hf_equal hf w k \<and> (k \<in># entries (qh_data T) \<or> (\<exists>m < length vs. k = i + of_nat m))} = {j}" for w j
    by (rule qh_find_hit [OF T'(2)]) (use ent that in blast)+
  then show ?thesis using T'(1,2) new by blast
qed

theorem quick_hash_batch_insert_then_find_witness:
  "\<exists>T'. insert_range \<lparr>hf_hash = \<lambda>v. v, hf_value = (\<lambda>i::32 word. ucast i), hf_equal = (\<lambda>v i. v = ucast i)\<rparr>
     [4, 5] 4 quick_hash_init = Some T'"
proof -
  let ?vs = "[4, 5] :: 64 word list"
  let ?hf = "\<lparr>hf_hash = \<lambda>v. v, hf_value = (\<lambda>i::32 word. ucast i), hf_equal = (\<lambda>v i. v = ucast i)\<rparr> :: (64 word, 32 word) hash_functor"
  have e: "(ucast (5::32 word) :: 64 word) = 5" "(ucast (4::32 word) :: 64 word) = 4" by simp_all
  have m: "(\<exists>m < length ?vs. j = (4::32 word) + of_nat m) \<longleftrightarrow> j = 4 \<or> j = 5" for j
    by (auto simp: less_Suc_eq intro: exI [of _ 0] exI [of _ "Suc 0"])
  have "\<exists>T'. insert_range ?hf ?vs 4 (quick_hash_init :: 32 word quick_hash) = Some T' \<and> qh_inv ucast T' \<and>
    (\<forall>n < length ?vs. qh_find ?hf T' (?vs ! n) = Some (4 + of_nat n)) \<and>
    (\<forall>w j. hf_hash ?hf w = ucast j \<and> j \<in># entries (qh_data (quick_hash_init :: 32 word quick_hash)) \<and>
      {k. hf_equal ?hf w k \<and> (k \<in># entries (qh_data (quick_hash_init :: 32 word quick_hash)) \<or> (\<exists>m < length ?vs. k = 4 + of_nat m))} = {j} \<longrightarrow>
      qh_find ?hf T' w = Some j)"
  proof (rule quick_hash_batch_insert_then_find [OF qh_inv_init(1)])
    fix n assume "n < length ?vs"
    then have "n = 0 \<or> n = 1" by auto
    then show "hf_hash ?hf (?vs ! n) = ucast (4 + of_nat n :: 32 word) \<and>
      {j. hf_equal ?hf (?vs ! n) j \<and> (j \<in># entries (qh_data (quick_hash_init :: 32 word quick_hash)) \<or> (\<exists>m < length ?vs. j = 4 + of_nat m))} = {4 + of_nat n}"
      unfolding m qh_inv_init(2) using e by auto
  qed (simp_all add: qh_inv_init(2) NO_INDEX_def quick_hash_init_def create_data_def prime_grower_init_def
        statistics_t_init_def qh_simps primes_def reserve_target_def del: set_entries)
  then show ?thesis by blast
qed

text \<open>
  The table of capacities has 31 slots and 30 initialisers, so its last slot is 0.  A request that
  the 30th capacity cannot satisfy reaches it and divides by zero: such a \<open>reserve\<close> has no result.
\<close>

lemma quick_hash_reserve_limit:
  assumes "qh_inv H T" and "1073741827 < reserve_target (LENGTH('i) div 8) n"
  shows "reserve hf n (T :: 'i::len word quick_hash) = None"
  using assms grow_to_fails [of "qh_grower T"] by (simp add: reserve_def qh_inv_def)

lemma quick_hash_reserve_limit_witness:
  "\<forall>hf :: (index_t, 32 word) hash_functor. reserve hf 715827886 quick_hash_init = None"
  by (intro allI quick_hash_reserve_limit [OF qh_inv_init(1)]) (simp add: reserve_target_def)

end
