(* ===== verification/IndexPool.thy ===== *)
theory IndexPool
  imports QuickHash
begin

section \<open>Pools of unique values with immutable indexes\<close>

text \<open>
  The contract that the dictionaries of the log cache share ("efficiently stores unique \<dots> in a
  pool.  Each \<dots> is assigned an unique, immutable index"): a lookup returns the position of the
  value or \<open>NO_INDEX\<close>, an automatic insertion appends a new value and keeps the old positions.
  The pairs and the strings both interpret it; the paths are built on both.
\<close>

locale index_pool =
  fixes pool_inv :: "'s \<Rightarrow> bool"
    and elems :: "'s \<Rightarrow> 'k list"
    and lookup :: "'k \<Rightarrow> 's \<Rightarrow> 'i::len word option"
    and auto_insert :: "'k \<Rightarrow> 's \<Rightarrow> ('i word \<times> 's) option"
    and at :: "'s \<Rightarrow> 'i word \<Rightarrow> 'k option"
    and room :: "'k \<Rightarrow> 's \<Rightarrow> bool"
  assumes pool_distinct: "pool_inv s \<Longrightarrow> distinct (elems s)"
    and pool_length: "pool_inv s \<Longrightarrow> length (elems s) < 2 ^ LENGTH('i)"
    and pool_lookup: "pool_inv s \<Longrightarrow> lookup k s = Some (index_in (elems s) k)"
    and pool_insert: "pool_inv s \<Longrightarrow> room k s \<Longrightarrow>
      \<exists>s'. auto_insert k s = Some (index_in (elems s') k, s') \<and> pool_inv s' \<and>
        elems s' = (if k \<in> set (elems s) then elems s else elems s @ [k])"
    and pool_at: "pool_inv s \<Longrightarrow>
      at s i = (if unat i < length (elems s) then Some (elems s ! unat i) else None)"
begin

lemma index_position:
  assumes s: "pool_inv s" and k: "k \<in> set (elems s)"
  shows "\<exists>n < length (elems s). elems s ! n = k \<and> index_in (elems s) k = (of_nat n :: 'i word) \<and>
    unat (of_nat n :: 'i word) = n"
proof -
  obtain n where n: "n < length (elems s)" "elems s ! n = k" using k by (auto simp: in_set_conv_nth)
  moreover have "unat (of_nat n :: 'i word) = n" using n(1) pool_length [OF s] by (simp add: unat_of_nat_small)
  ultimately show ?thesis using index_in_nth [OF pool_distinct [OF s] n(1), where 'b = 'i] by blast
qed

lemma lookup_present_iff: "pool_inv s \<Longrightarrow> lookup k s \<noteq> Some NO_INDEX \<longleftrightarrow> k \<in> set (elems s)"
  using index_in_NO_INDEX_iff [OF pool_length, of s k] by (simp add: pool_lookup)

text \<open>The two accesses are inverse to each other.\<close>

lemma at_lookup:
  assumes s: "pool_inv s" and k: "lookup k s = Some i" "i \<noteq> NO_INDEX"
  shows "at s i = Some k"
proof -
  have "k \<in> set (elems s)" using lookup_present_iff [OF s, of k] k by auto
  from index_position [OF s this] show ?thesis using k(1) by (auto simp: pool_lookup [OF s] pool_at [OF s])
qed

lemma lookup_at:
  assumes s: "pool_inv s" and k: "at s i = Some k"
  shows "lookup k s = Some i"
proof -
  have i: "unat i < length (elems s)" "elems s ! unat i = k" using k by (auto simp: pool_at [OF s] split: if_splits)
  have "index_in (elems s) (elems s ! unat i) = (of_nat (unat i) :: 'i word)"
    by (rule index_in_nth [OF pool_distinct [OF s] i(1)])
  then show ?thesis using i(2) by (simp add: pool_lookup [OF s])
qed

lemma index_stable:
  assumes s: "pool_inv s" "pool_inv s'" and e: "elems s' = elems s @ ks" and i: "lookup k s = Some i" "i \<noteq> NO_INDEX"
  shows "lookup k s' = Some i"
proof -
  have "k \<in> set (elems s)" using lookup_present_iff [OF s(1), of k] i by auto
  then show ?thesis using i e by (simp add: pool_lookup [OF s(1)] pool_lookup [OF s(2)])
qed

text \<open>Insertion, from the outside: the new index finds the value and all old indexes stay.\<close>

lemma insert_lookup:
  assumes s: "pool_inv s" and r: "room k s"
  shows "\<exists>i s'. auto_insert k s = Some (i, s') \<and> pool_inv s' \<and> i \<noteq> NO_INDEX \<and> lookup k s' = Some i \<and>
    at s' i = Some k \<and> set (elems s') = insert k (set (elems s)) \<and>
    (\<forall>k' j. lookup k' s = Some j \<longrightarrow> j \<noteq> NO_INDEX \<longrightarrow> lookup k' s' = Some j)"
proof -
  obtain s' where s': "auto_insert k s = Some (index_in (elems s') k, s')" "pool_inv s'"
      "elems s' = (if k \<in> set (elems s) then elems s else elems s @ [k])" using pool_insert [OF s r] by blast
  have e: "\<exists>ks. elems s' = elems s @ ks" "k \<in> set (elems s')" using s'(3) by auto
  have l: "lookup k s' = Some (index_in (elems s') k)" by (rule pool_lookup [OF s'(2)])
  moreover have "index_in (elems s') k \<noteq> (NO_INDEX :: 'i word)"
    using index_in_NO_INDEX_iff [OF pool_length [OF s'(2)]] e(2) by blast
  moreover have "at s' (index_in (elems s') k) = Some k" by (rule at_lookup [OF s'(2) l calculation(2)])
  moreover have "set (elems s') = insert k (set (elems s))" using s'(3) by auto
  moreover have "lookup k' s' = Some j" if "lookup k' s = Some j" "j \<noteq> NO_INDEX" for k' j
    using index_stable [OF s s'(2) _ that] e(1) by blast
  ultimately show ?thesis using s'(1,2) by blast
qed

end

end
