(* ===== verification/IndexPairDictionary.thy ===== *)
theory IndexPairDictionary
  imports IndexPool
begin

section \<open>CIndexPairDictionary (src/LogCache/Containers)\<close>

text \<open>
  A pool of unique pairs of indices; each pair has an immutable index.  The pool is a vector plus
  a quick hash over it.  On a 64 bit build the hash of a pair is the pair itself, read as one
  little-endian machine word.  The lemmas show that a lookup returns the position of the pair
  and that inserting never changes the index of a pair already there.
\<close>

type_synonym index_pair = "index_t \<times> index_t"

record index_pair_dictionary =
  ipd_data :: "index_pair list"
  ipd_hashIndex :: "32 word quick_hash"

definition ipd_hash :: "index_pair \<Rightarrow> size_t" where
  "ipd_hash value = ucast (fst value) OR push_bit 32 (ucast (snd value))"

definition ipd_value :: "index_pair list \<Rightarrow> index_t \<Rightarrow> index_pair" where
  "ipd_value d index = d ! unat index"

definition ipd_equal :: "index_pair list \<Rightarrow> index_pair \<Rightarrow> index_t \<Rightarrow> bool" where
  "ipd_equal d value index \<longleftrightarrow> d ! unat index = value"

definition ipd_functor :: "index_pair list \<Rightarrow> (index_pair, 32 word) hash_functor" where
  "ipd_functor d = \<lparr>hf_hash = ipd_hash, hf_value = ipd_value d, hf_equal = ipd_equal d\<rparr>"

definition ipd_init :: index_pair_dictionary where
  "ipd_init = \<lparr>ipd_data = [], ipd_hashIndex = quick_hash_init\<rparr>"

definition ipd_size :: "index_pair_dictionary \<Rightarrow> index_t" where
  "ipd_size d = of_nat (length (ipd_data d))"

definition ipd_reserve :: "index_t \<Rightarrow> index_pair_dictionary \<Rightarrow> index_pair_dictionary option" where
  "ipd_reserve min_capacity d = do {
     T \<leftarrow> reserve (ipd_functor (ipd_data d)) (unat min_capacity) (ipd_hashIndex d);
     Some (d\<lparr>ipd_hashIndex := T\<rparr>)
   }"

text \<open>An index out of range is undefined behaviour of the vector in a release build.\<close>

definition ipd_at :: "index_pair_dictionary \<Rightarrow> index_t \<Rightarrow> index_pair option" where
  "ipd_at d index = (if unat index < length (ipd_data d) then Some (ipd_data d ! unat index) else None)"

definition ipd_Find :: "index_pair \<Rightarrow> index_pair_dictionary \<Rightarrow> index_t option" where
  "ipd_Find value d = qh_find (ipd_functor (ipd_data d)) (ipd_hashIndex d) value"

definition ipd_Insert :: "index_pair \<Rightarrow> index_pair_dictionary \<Rightarrow> (index_t \<times> index_pair_dictionary) option" where
  "ipd_Insert value d =
     (let result = of_nat (length (ipd_data d)) in do {
        T \<leftarrow> qh_insert (ipd_functor (ipd_data d)) value result (ipd_hashIndex d);
        Some (result, d\<lparr>ipd_hashIndex := T, ipd_data := ipd_data d @ [value]\<rparr>)
      })"

definition ipd_AutoInsert :: "index_pair \<Rightarrow> index_pair_dictionary \<Rightarrow> (index_t \<times> index_pair_dictionary) option" where
  "ipd_AutoInsert value d = do {
     result \<leftarrow> ipd_Find value d;
     if result = NO_INDEX then ipd_Insert value d else Some (result, d)
   }"

definition ipd_Clear :: "index_pair_dictionary \<Rightarrow> index_pair_dictionary" where
  "ipd_Clear d = d\<lparr>ipd_data := [], ipd_hashIndex := qh_clear (ipd_hashIndex d)\<rparr>"

definition ipd_Swap ::
    "index_pair_dictionary \<Rightarrow> index_pair_dictionary \<Rightarrow> index_pair_dictionary \<times> index_pair_dictionary" where
  "ipd_Swap d rhs =
     (let (T, T') = qh_swap (ipd_hashIndex d) (ipd_hashIndex rhs)
      in (d\<lparr>ipd_data := ipd_data rhs, ipd_hashIndex := T\<rparr>, rhs\<lparr>ipd_data := ipd_data d, ipd_hashIndex := T'\<rparr>))"

text \<open>The capacity of the vector belongs to the standard library: it is an argument.\<close>

definition ipd_CanInsertThreadSafely :: "nat \<Rightarrow> index_t \<Rightarrow> index_pair_dictionary \<Rightarrow> bool" where
  "ipd_CanInsertThreadSafely vector_capacity n d \<longleftrightarrow>
     length (ipd_data d) + unat n \<le> vector_capacity \<and> \<not> may_cause_growth (unat n) (ipd_hashIndex d)"

text \<open>Rebuilding the index after the vector was loaded (the end of \<open>operator>>\<close>).\<close>

definition ipd_rebuild :: "index_pair list \<Rightarrow> index_pair_dictionary option" where
  "ipd_rebuild d = do {
     T \<leftarrow> insert_range (ipd_functor d) d 0 (qh_assign quick_hash_init quick_hash_init);
     Some \<lparr>ipd_data = d, ipd_hashIndex = T\<rparr>
   }"

subsection \<open>Invariant and lookup laws\<close>

definition ipd_inv :: "index_pair_dictionary \<Rightarrow> bool" where
  "ipd_inv d \<longleftrightarrow> distinct (ipd_data d) \<and> index_rep ipd_hash (ipd_data d) (ipd_hashIndex d)"

definition ipd_room :: "index_pair_dictionary \<Rightarrow> bool" where
  "ipd_room d \<longleftrightarrow> can_grow_by 1 (ipd_hashIndex d) \<and> length (ipd_data d) + 1 < 2 ^ 32 - 1"

text \<open>The table was filled by single insertions and is far from the last table size.\<close>

definition ipd_light :: "index_pair_dictionary \<Rightarrow> bool" where
  "ipd_light d \<longleftrightarrow> load_ok (ipd_hashIndex d) \<and> length (ipd_data d) \<le> 119304646"

lemmas [dict_simps] = ipd_functor_def ipd_value_def ipd_equal_def

interpretation pairs: hash_container ipd_functor "\<lambda>d. d" "\<lambda>v. v" ipd_hash "\<lambda>_. True"
  by unfold_locales (auto simp: dict_simps)

lemma ipd_inv_init: "ipd_inv ipd_init"
  by (simp add: ipd_inv_def ipd_init_def index_rep_init)

lemma ipd_inv_Clear: "ipd_inv d \<Longrightarrow> ipd_inv (ipd_Clear d)"
  by (auto simp: ipd_inv_def ipd_Clear_def intro: index_rep_clear)

lemma ipd_Find_eq: "ipd_inv d \<Longrightarrow> ipd_Find v d = Some (index_in (ipd_data d) v)"
  unfolding ipd_inv_def ipd_Find_def by (blast intro: pairs.find_key)

lemma ipd_inv_length: "ipd_inv d \<Longrightarrow> length (ipd_data d) < 2 ^ 32"
  by (simp add: ipd_inv_def index_rep_def)

lemma ipd_Insert_ok:
  assumes inv: "ipd_inv d" and new: "v \<notin> set (ipd_data d)" and room: "ipd_room d"
  shows "\<exists>d'. ipd_Insert v d = Some (of_nat (length (ipd_data d)), d') \<and> ipd_inv d' \<and>
    ipd_data d' = ipd_data d @ [v] \<and> (ipd_light d \<longrightarrow> load_ok (ipd_hashIndex d'))"
proof -
  obtain T where "qh_insert (ipd_functor (ipd_data d)) v (of_nat (length (ipd_data d))) (ipd_hashIndex d) = Some T"
    "index_rep ipd_hash (ipd_data d @ [v]) T"
    "load_ok (ipd_hashIndex d) \<and> length (ipd_data d) \<le> 119304646 \<longrightarrow> load_ok T"
    using pairs.insert_key [of "ipd_data d" "ipd_data d" "ipd_hashIndex d" v] inv room
    by (auto simp: ipd_inv_def ipd_room_def)
  then show ?thesis using inv new by (auto simp: ipd_Insert_def ipd_inv_def ipd_light_def)
qed

lemma ipd_AutoInsert_ok:
  assumes inv: "ipd_inv d" and room: "ipd_room d"
  shows "\<exists>d'. ipd_AutoInsert v d = Some (index_in (ipd_data d') v, d') \<and> ipd_inv d' \<and>
    ipd_data d' = (if v \<in> set (ipd_data d) then ipd_data d else ipd_data d @ [v]) \<and>
    (ipd_light d \<longrightarrow> load_ok (ipd_hashIndex d'))"
proof -
  have len: "length (ipd_data d) < 2 ^ LENGTH(32)" using ipd_inv_length [OF inv] by simp
  show ?thesis
  proof (cases "v \<in> set (ipd_data d)")
    case True
    then show ?thesis using inv ipd_Find_eq [OF inv, of v] index_in_NO_INDEX_iff [OF len, of v]
      by (auto simp: ipd_AutoInsert_def ipd_light_def)
  next
    case False
    then show ?thesis
      using ipd_Insert_ok [OF inv False room] ipd_Find_eq [OF inv, of v] index_in_NO_INDEX_iff [OF len, of v]
      by (auto simp: ipd_AutoInsert_def)
  qed
qed

lemma ipd_light_room: "ipd_inv d \<Longrightarrow> ipd_light d \<Longrightarrow> ipd_room d"
  using pairs.index_rep_can_grow by (auto simp: ipd_inv_def ipd_light_def ipd_room_def)

lemma ipd_at_data: "ipd_at d i = Some v \<longleftrightarrow> unat i < length (ipd_data d) \<and> ipd_data d ! unat i = v"
  by (auto simp: ipd_at_def)

interpretation pair_pool: index_pool ipd_inv ipd_data ipd_Find ipd_AutoInsert ipd_at "\<lambda>_. ipd_room"
proof
  fix s :: index_pair_dictionary and k and i :: index_t
  assume s: "ipd_inv s"
  show "distinct (ipd_data s)" using s by (simp add: ipd_inv_def)
  show "length (ipd_data s) < 2 ^ LENGTH(32)" using ipd_inv_length [OF s] by simp
  show "ipd_Find k s = Some (index_in (ipd_data s) k)" by (rule ipd_Find_eq [OF s])
  show "ipd_at s i = (if unat i < length (ipd_data s) then Some (ipd_data s ! unat i) else None)"
    by (simp add: ipd_at_def)
  assume "ipd_room s"
  then show "\<exists>s'. ipd_AutoInsert k s = Some (index_in (ipd_data s') k, s') \<and> ipd_inv s' \<and>
      ipd_data s' = (if k \<in> set (ipd_data s) then ipd_data s else ipd_data s @ [k])"
    using ipd_AutoInsert_ok [OF s, of k] by blast
qed

subsection \<open>Pairs, possibly stored twice\<close>

text \<open>What lookups need: the table holds the indexes of all pairs.  A pair that is inserted although it
  is there already does no harm to that.\<close>

definition ipd_sound :: "index_pair_dictionary \<Rightarrow> bool" where
  "ipd_sound d \<longleftrightarrow> index_rep ipd_hash (ipd_data d) (ipd_hashIndex d)"

lemma ipd_inv_sound: "ipd_inv d \<Longrightarrow> ipd_sound d"
  by (simp add: ipd_inv_def ipd_sound_def)

lemma ipd_sound_init: "ipd_sound ipd_init"
  by (simp add: ipd_sound_def ipd_init_def index_rep_init)

lemma ipd_sound_length: "ipd_sound d \<Longrightarrow> length (ipd_data d) < 2 ^ 32"
  by (simp add: ipd_sound_def index_rep_def)

lemma ipd_Find_sound:
  assumes "ipd_sound d"
  shows "\<exists>i. ipd_Find v d = Some i \<and>
    (if v \<in> set (ipd_data d) then i \<noteq> NO_INDEX \<and> unat i < length (ipd_data d) \<and> ipd_data d ! unat i = v else i = NO_INDEX)"
proof -
  let ?h = "\<lambda>i. ipd_hash (ipd_data d ! unat i)" and ?f = "ipd_functor (ipd_data d)" and ?T = "ipd_hashIndex d"
  have rep: "index_rep ipd_hash (ipd_data d) ?T" using assms by (simp add: ipd_sound_def)
  then have inv: "qh_inv ?h ?T" by (simp add: index_rep_def)
  obtain i where i: "ipd_Find v d = Some i" "i = NO_INDEX \<or> i \<in># entries (qh_data ?T) \<and> hf_equal ?f v i"
    using qh_find_sound [OF inv, of ?f v] by (auto simp: ipd_Find_def)
  have hit: "unat i < length (ipd_data d)" "ipd_data d ! unat i = v" if "i \<noteq> NO_INDEX"
    using i(2) that entries_index [OF rep] by (auto simp: ipd_functor_def ipd_equal_def simp del: set_entries)
  show ?thesis
  proof (cases "v \<in> set (ipd_data d)")
    case True
    then obtain n where n: "n < length (ipd_data d)" "ipd_data d ! n = v" by (auto simp: in_set_conv_nth)
    have "length (ipd_data d) < 2 ^ 32" using assms by (simp add: ipd_sound_def index_rep_def)
    then obtain j :: index_t where j: "unat j < length (ipd_data d)" "ipd_data d ! unat j = v"
      using n by (intro that [of "of_nat n"]) (simp_all add: unat_of_nat_small)
    have "qh_find ?f ?T v \<noteq> Some NO_INDEX"
      using j entries_index [OF rep, of j] by (intro qh_find_present [OF inv, of j]) (simp_all add: ipd_functor_def ipd_equal_def del: set_entries)
    then have "i \<noteq> NO_INDEX" using i(1) by (auto simp: ipd_Find_def)
    then show ?thesis using i(1) hit True by auto
  next
    case False
    then show ?thesis using i(1) hit nth_mem by metis
  qed
qed

lemma ipd_Insert_sound:
  assumes s: "ipd_sound d" and am: "ample (ipd_hashIndex d)" and len: "length (ipd_data d) \<le> 119304646"
  shows "\<exists>d'. ipd_Insert v d = Some (of_nat (length (ipd_data d)), d') \<and> ipd_sound d' \<and> ample (ipd_hashIndex d') \<and>
    ipd_data d' = ipd_data d @ [v]"
proof -
  have rep: "index_rep ipd_hash (ipd_data d) (ipd_hashIndex d)" using s by (simp add: ipd_sound_def)
  obtain T where T: "qh_insert (ipd_functor (ipd_data d)) v (of_nat (length (ipd_data d))) (ipd_hashIndex d) = Some T"
    "index_rep ipd_hash (ipd_data d @ [v]) T"
    using pairs.insert_key [of "ipd_data d" "ipd_data d" "ipd_hashIndex d" v] rep ample_can_grow [OF rep am] len by auto
  have "ample T" by (rule qh_insert_ample_rep [OF rep T(2,1)]) (use am len in simp_all)
  then show ?thesis using T by (auto simp: ipd_Insert_def ipd_sound_def)
qed

lemma ipd_AutoInsert_sound:
  assumes s: "ipd_sound d" and am: "ample (ipd_hashIndex d)" and len: "length (ipd_data d) \<le> 119304646"
  shows "\<exists>i d'. ipd_AutoInsert v d = Some (i, d') \<and> ipd_sound d' \<and> ample (ipd_hashIndex d') \<and>
    unat i < length (ipd_data d') \<and> ipd_data d' ! unat i = v \<and> (ipd_data d' = ipd_data d \<or> ipd_data d' = ipd_data d @ [v])"
proof -
  obtain i where i: "ipd_Find v d = Some i" "i = NO_INDEX \<or> unat i < length (ipd_data d) \<and> ipd_data d ! unat i = v"
    using ipd_Find_sound [OF s, of v] by (auto split: if_splits)
  show ?thesis
  proof (cases "i = NO_INDEX")
    case True
    obtain d' where d': "ipd_Insert v d = Some (of_nat (length (ipd_data d)), d')" "ipd_sound d'" "ample (ipd_hashIndex d')"
        "ipd_data d' = ipd_data d @ [v]" using ipd_Insert_sound [OF assms] by blast
    have "unat (of_nat (length (ipd_data d)) :: index_t) = length (ipd_data d)" using len by (simp add: unat_of_nat_small)
    then show ?thesis using d' i(1) True by (auto simp: ipd_AutoInsert_def)
  next
    case False
    then show ?thesis using i s am by (auto simp: ipd_AutoInsert_def)
  qed
qed

lemma ipd_reserve_sound:
  assumes s: "ipd_sound d" and am: "ample (ipd_hashIndex d)" and m: "unat m \<le> 119304646"
  shows "\<exists>d'. ipd_reserve m d = Some d' \<and> ipd_sound d' \<and> ample (ipd_hashIndex d') \<and> ipd_data d' = ipd_data d"
proof -
  have rep: "index_rep ipd_hash (ipd_data d) (ipd_hashIndex d)" using s by (simp add: ipd_sound_def)
  have "\<exists>T'. reserve (ipd_functor (ipd_data d)) (unat m) (ipd_hashIndex d) = Some T' \<and> index_rep ipd_hash (ipd_data d) T' \<and> ample T'"
    by (rule reserve_ample [OF rep am m]) (simp add: ipd_functor_def ipd_value_def)
  then show ?thesis by (auto simp: ipd_reserve_def ipd_sound_def)
qed

lemma ample_clear: "ample T \<Longrightarrow> ample (qh_clear T)"
  by (simp add: ample_def qh_clear_def create_data_def prime_grower_init_def statistics_t_init_def qh_simps primes_def)

lemma ipd_Clear_sound: "ipd_sound d \<Longrightarrow> ample (ipd_hashIndex d) \<Longrightarrow>
    ipd_sound (ipd_Clear d) \<and> ample (ipd_hashIndex (ipd_Clear d)) \<and> ipd_data (ipd_Clear d) = []"
  by (auto simp: ipd_sound_def ipd_Clear_def intro: index_rep_clear ample_clear)

subsection \<open>Properties\<close>

text \<open>
  C25.  An automatic insertion returns an index under which the pair is found and read back, adds
  no other pair, and leaves the index of every pair that was in the dictionary as it was.
\<close>

theorem pair_dictionary_auto_insert:
  assumes "ipd_inv d" "ipd_room d"
  shows "\<exists>i d'. ipd_AutoInsert v d = Some (i, d') \<and> ipd_inv d' \<and> i \<noteq> NO_INDEX \<and> ipd_Find v d' = Some i \<and>
    ipd_at d' i = Some v \<and> set (ipd_data d') = insert v (set (ipd_data d)) \<and>
    (\<forall>w j. ipd_Find w d = Some j \<longrightarrow> j \<noteq> NO_INDEX \<longrightarrow> ipd_Find w d' = Some j)"
  by (rule pair_pool.insert_lookup [OF assms])

theorem pair_dictionary_auto_insert_witness:
  "\<exists>i d'. ipd_AutoInsert (3, 4) ipd_init = Some (i, d') \<and> ipd_Find (3, 4) d' = Some i"
proof -
  have "ipd_room ipd_init"
    by (simp add: ipd_room_def ipd_init_def can_grow_by_def quick_hash_init_def create_data_def
        prime_grower_init_def statistics_t_init_def qh_simps primes_def reserve_target_def)
  then show ?thesis using pair_dictionary_auto_insert [OF ipd_inv_init, of "(3, 4)"] by blast
qed

end
