(* ===== verification/QuickHashMap.thy ===== *)
theory QuickHashMap
  imports QuickHash
begin

section \<open>quick\_hash\_map and quick\_hash\_set (src/Utils)\<close>

text \<open>
  Two containers over a quick hash: a vector of (key, value) elements, or of plain values, with a
  64 bit index table.  The template argument K converts implicitly to size\_t: the conversion is
  the argument \<open>conv\<close>.  The set hashes the bytes of the object representation, which is the
  argument \<open>bytes\<close>.  A const\_iterator is the position in the vector.
\<close>

subsection \<open>Iterators\<close>

type_synonym const_iterator = nat

definition it_plus_assign :: "const_iterator \<Rightarrow> nat \<Rightarrow> const_iterator" where
  "it_plus_assign iter diff = iter + diff"

text \<open>The source adds the difference here as well.\<close>

definition it_minus_assign :: "const_iterator \<Rightarrow> nat \<Rightarrow> const_iterator" where
  "it_minus_assign iter diff = iter + diff"

definition it_plus :: "const_iterator \<Rightarrow> nat \<Rightarrow> const_iterator" where
  "it_plus iter diff = it_plus_assign iter diff"

definition it_minus :: "const_iterator \<Rightarrow> nat \<Rightarrow> const_iterator" where
  "it_minus iter diff = it_minus_assign iter diff"

definition it_inc :: "const_iterator \<Rightarrow> const_iterator" where
  "it_inc iter = iter + 1"

definition it_deref :: "('k \<times> 'v) list \<Rightarrow> const_iterator \<Rightarrow> 'v option" where
  "it_deref d iter = (if iter < length d then Some (snd (d ! iter)) else None)"

subsection \<open>quick\_hash\_map\<close>

record ('k, 'v) quick_hash_map =
  qm_data :: "('k \<times> 'v) list"
  qm_batch_insert_start :: size_t
  qm_hash :: "64 word quick_hash"

definition qm_functor :: "('k \<Rightarrow> size_t) \<Rightarrow> ('k \<times> 'v) list \<Rightarrow> ('k, 64 word) hash_functor" where
  "qm_functor conv d =
     \<lparr>hf_hash = conv, hf_value = (\<lambda>index. fst (d ! unat index)),
      hf_equal = (\<lambda>value index. value = fst (d ! unat index))\<rparr>"

definition qm_init :: "('k, 'v) quick_hash_map" where
  "qm_init = \<lparr>qm_data = [], qm_batch_insert_start = - 1, qm_hash = quick_hash_init\<rparr>"

definition qm_assign :: "('k, 'v) quick_hash_map \<Rightarrow> ('k, 'v) quick_hash_map \<Rightarrow> ('k, 'v) quick_hash_map" where
  "qm_assign m rhs =
     m\<lparr>qm_hash := qh_assign (qm_hash m) (qm_hash rhs), qm_data := qm_data rhs,
       qm_batch_insert_start := qm_batch_insert_start rhs\<rparr>"

definition qm_copy :: "('k, 'v) quick_hash_map \<Rightarrow> ('k, 'v) quick_hash_map" where
  "qm_copy rhs = qm_assign qm_init rhs"

definition qm_begin :: "('k, 'v) quick_hash_map \<Rightarrow> const_iterator" where
  "qm_begin m = 0"

definition qm_end :: "('k, 'v) quick_hash_map \<Rightarrow> const_iterator" where
  "qm_end m = length (qm_data m)"

definition qm_find :: "('k \<Rightarrow> size_t) \<Rightarrow> 'k \<Rightarrow> ('k, 'v) quick_hash_map \<Rightarrow> const_iterator option" where
  "qm_find conv key m = do {
     index \<leftarrow> qh_find (qm_functor conv (qm_data m)) (qm_hash m) key;
     Some (if index = NO_INDEX then qm_end m else it_plus (qm_begin m) (unat index))
   }"

definition qm_insert :: "('k \<Rightarrow> size_t) \<Rightarrow> 'k \<Rightarrow> 'v \<Rightarrow> ('k, 'v) quick_hash_map \<Rightarrow> ('k, 'v) quick_hash_map option" where
  "qm_insert conv key value m =
     (let d = qm_data m @ [(key, value)] in do {
        T \<leftarrow> qh_insert (qm_functor conv d) key (of_nat (length d - 1)) (qm_hash m);
        Some (m\<lparr>qm_data := d, qm_hash := T\<rparr>)
      })"

definition qm_auto_insert ::
    "('k \<Rightarrow> size_t) \<Rightarrow> 'k \<Rightarrow> 'v \<Rightarrow> ('k, 'v) quick_hash_map \<Rightarrow> ('k, 'v) quick_hash_map option" where
  "qm_auto_insert conv key value m = do {
     index \<leftarrow> qh_find (qm_functor conv (qm_data m)) (qm_hash m) key;
     if index = NO_INDEX then qm_insert conv key value m else Some m
   }"

definition qm_reserve ::
    "('k \<Rightarrow> size_t) \<Rightarrow> nat \<Rightarrow> nat \<Rightarrow> ('k, 'v) quick_hash_map \<Rightarrow> ('k, 'v) quick_hash_map option" where
  "qm_reserve conv vector_capacity min_bucket_count m =
     (if vector_capacity < min_bucket_count
      then do {
        T \<leftarrow> reserve (qm_functor conv (qm_data m)) min_bucket_count (qm_hash m);
        Some (m\<lparr>qm_hash := T\<rparr>)
      }
      else Some m)"

definition qm_begin_batch_insert :: "('k, 'v) quick_hash_map \<Rightarrow> ('k, 'v) quick_hash_map" where
  "qm_begin_batch_insert m = m\<lparr>qm_batch_insert_start := of_nat (length (qm_data m))\<rparr>"

definition qm_batch_insert :: "'k \<Rightarrow> 'v \<Rightarrow> ('k, 'v) quick_hash_map \<Rightarrow> ('k, 'v) quick_hash_map" where
  "qm_batch_insert key value m = m\<lparr>qm_data := qm_data m @ [(key, value)]\<rparr>"

definition qm_size :: "('k, 'v) quick_hash_map \<Rightarrow> nat" where
  "qm_size m = length (qm_data m)"

definition qm_clear :: "('k, 'v) quick_hash_map \<Rightarrow> ('k, 'v) quick_hash_map" where
  "qm_clear m = m\<lparr>qm_hash := qh_clear (qm_hash m), qm_data := []\<rparr>"

definition qm_swap ::
    "('k, 'v) quick_hash_map \<Rightarrow> ('k, 'v) quick_hash_map \<Rightarrow> ('k, 'v) quick_hash_map \<times> ('k, 'v) quick_hash_map" where
  "qm_swap m rhs =
     (let (T, T') = qh_swap (qm_hash m) (qm_hash rhs)
      in (m\<lparr>qm_data := qm_data rhs, qm_batch_insert_start := qm_batch_insert_start rhs, qm_hash := T\<rparr>,
          rhs\<lparr>qm_data := qm_data m, qm_batch_insert_start := qm_batch_insert_start m, qm_hash := T'\<rparr>))"

subsection \<open>quick\_hash\_set\<close>

record 't quick_hash_set =
  qs_data :: "'t list"
  qs_batch_insert_start :: size_t
  qs_hash :: "64 word quick_hash"

definition bytes_hash :: "byte list \<Rightarrow> size_t" where
  "bytes_hash bs = foldl (\<lambda>result c. (result * 33) XOR ucast c) 0 bs"

definition qs_functor :: "('t \<Rightarrow> byte list) \<Rightarrow> 't list \<Rightarrow> ('t, 64 word) hash_functor" where
  "qs_functor bytes d =
     \<lparr>hf_hash = (\<lambda>value. bytes_hash (bytes value)), hf_value = (\<lambda>index. d ! unat index),
      hf_equal = (\<lambda>value index. value = d ! unat index)\<rparr>"

definition qs_init :: "'t quick_hash_set" where
  "qs_init = \<lparr>qs_data = [], qs_batch_insert_start = - 1, qs_hash = quick_hash_init\<rparr>"

definition qs_find :: "('t \<Rightarrow> byte list) \<Rightarrow> 't \<Rightarrow> 't quick_hash_set \<Rightarrow> const_iterator option" where
  "qs_find bytes value s = do {
     index \<leftarrow> qh_find (qs_functor bytes (qs_data s)) (qs_hash s) value;
     Some (if index = NO_INDEX then length (qs_data s) else unat index)
   }"

definition qs_contains :: "('t \<Rightarrow> byte list) \<Rightarrow> 't \<Rightarrow> 't quick_hash_set \<Rightarrow> bool option" where
  "qs_contains bytes value s = do {
     index \<leftarrow> qh_find (qs_functor bytes (qs_data s)) (qs_hash s) value;
     Some (index \<noteq> NO_INDEX)
   }"

definition qs_insert :: "('t \<Rightarrow> byte list) \<Rightarrow> 't \<Rightarrow> 't quick_hash_set \<Rightarrow> 't quick_hash_set option" where
  "qs_insert bytes value s =
     (let d = qs_data s @ [value] in do {
        T \<leftarrow> qh_insert (qs_functor bytes d) value (of_nat (length d - 1)) (qs_hash s);
        Some (s\<lparr>qs_data := d, qs_hash := T\<rparr>)
      })"

definition qs_auto_insert :: "('t \<Rightarrow> byte list) \<Rightarrow> 't \<Rightarrow> 't quick_hash_set \<Rightarrow> 't quick_hash_set option" where
  "qs_auto_insert bytes value s = do {
     index \<leftarrow> qh_find (qs_functor bytes (qs_data s)) (qs_hash s) value;
     if index = NO_INDEX then qs_insert bytes value s else Some s
   }"

definition qs_begin_batch_insert :: "'t quick_hash_set \<Rightarrow> 't quick_hash_set" where
  "qs_begin_batch_insert s = s\<lparr>qs_batch_insert_start := of_nat (length (qs_data s))\<rparr>"

definition qs_batch_insert :: "'t \<Rightarrow> 't quick_hash_set \<Rightarrow> 't quick_hash_set" where
  "qs_batch_insert value s = s\<lparr>qs_data := qs_data s @ [value]\<rparr>"

definition qs_end_batch_insert :: "('t \<Rightarrow> byte list) \<Rightarrow> 't quick_hash_set \<Rightarrow> 't quick_hash_set option" where
  "qs_end_batch_insert bytes s = do {
     T \<leftarrow> insert_range (qs_functor bytes (qs_data s)) (drop (unat (qs_batch_insert_start s)) (qs_data s))
            (qs_batch_insert_start s) (qs_hash s);
     Some (s\<lparr>qs_hash := T, qs_batch_insert_start := - 1\<rparr>)
   }"

definition qs_clear :: "'t quick_hash_set \<Rightarrow> 't quick_hash_set" where
  "qs_clear s = s\<lparr>qs_hash := qh_clear (qs_hash s), qs_data := []\<rparr>"

definition qs_size :: "'t quick_hash_set \<Rightarrow> nat" where
  "qs_size s = length (qs_data s)"

definition qs_assign :: "'t quick_hash_set \<Rightarrow> 't quick_hash_set \<Rightarrow> 't quick_hash_set" where
  "qs_assign s rhs = s\<lparr>qs_hash := qh_assign (qs_hash s) (qs_hash rhs), qs_data := qs_data rhs,
     qs_batch_insert_start := qs_batch_insert_start rhs\<rparr>"

definition qs_reserve :: "('t \<Rightarrow> byte list) \<Rightarrow> nat \<Rightarrow> nat \<Rightarrow> 't quick_hash_set \<Rightarrow> 't quick_hash_set option" where
  "qs_reserve bytes vector_capacity min_bucket_count s =
     (if vector_capacity < min_bucket_count
      then do {
        T \<leftarrow> reserve (qs_functor bytes (qs_data s)) min_bucket_count (qs_hash s);
        Some (s\<lparr>qs_hash := T\<rparr>)
      }
      else Some s)"

definition qs_swap :: "'t quick_hash_set \<Rightarrow> 't quick_hash_set \<Rightarrow> 't quick_hash_set \<times> 't quick_hash_set" where
  "qs_swap s rhs =
     (let (T, T') = qh_swap (qs_hash s) (qs_hash rhs)
      in (s\<lparr>qs_data := qs_data rhs, qs_batch_insert_start := qs_batch_insert_start rhs, qs_hash := T\<rparr>,
          rhs\<lparr>qs_data := qs_data s, qs_batch_insert_start := qs_batch_insert_start s, qs_hash := T'\<rparr>))"

subsection \<open>The map laws\<close>

text \<open>A map is well-formed when its table indexes the keys of its vector.\<close>

definition qm_inv :: "('k \<Rightarrow> size_t) \<Rightarrow> ('k, 'v) quick_hash_map \<Rightarrow> bool" where
  "qm_inv conv m \<longleftrightarrow> distinct (map fst (qm_data m)) \<and> index_rep conv (map fst (qm_data m)) (qm_hash m)"

definition qm_room :: "('k, 'v) quick_hash_map \<Rightarrow> bool" where
  "qm_room m \<longleftrightarrow> can_grow_by 1 (qm_hash m) \<and> length (qm_data m) + 1 < 2 ^ 64 - 1"

definition qm_light :: "('k, 'v) quick_hash_map \<Rightarrow> bool" where
  "qm_light m \<longleftrightarrow> load_ok (qm_hash m) \<and> length (qm_data m) \<le> 119304646"

text \<open>What a reader of the map sees: the value behind the iterator that \<open>find\<close> returns.\<close>

definition qm_lookup :: "('k \<Rightarrow> size_t) \<Rightarrow> ('k, 'v) quick_hash_map \<Rightarrow> 'k \<Rightarrow> 'v option" where
  "qm_lookup conv m key = do { iter \<leftarrow> qm_find conv key m; it_deref (qm_data m) iter }"

interpretation qm: hash_container "qm_functor conv" "map fst" "\<lambda>v. v" conv "\<lambda>_. True" for conv
  by unfold_locales (auto simp: qm_functor_def)

interpretation qs: hash_container "qs_functor bytes" "\<lambda>d. d" "\<lambda>v. v" "\<lambda>v. bytes_hash (bytes v)" "\<lambda>_. True" for bytes
  by unfold_locales (auto simp: qs_functor_def)

lemma qm_inv_init: "qm_inv conv qm_init"
  by (simp add: qm_inv_def qm_init_def index_rep_init)

lemma qm_inv_length: "qm_inv conv m \<Longrightarrow> length (qm_data m) < 2 ^ LENGTH(64)"
  by (simp add: qm_inv_def index_rep_def)

lemma length_takeWhile_less_iff: "length (takeWhile P xs) < length xs \<longleftrightarrow> (\<exists>x \<in> set xs. \<not> P x)"
  by (induction xs) auto

lemma map_of_takeWhile:
  "k \<in> set (map fst d) \<Longrightarrow> map_of d k = Some (snd (d ! length (takeWhile (\<lambda>x. x \<noteq> k) (map fst d))))"
  by (induction d) auto

lemma qm_find_index:
  assumes "qm_inv conv m"
  shows "qh_find (qm_functor conv (qm_data m)) (qm_hash m) k = Some (index_in (map fst (qm_data m)) k)"
  using assms unfolding qm_inv_def by (blast intro: qm.find_key)

lemma qm_lookup_map_of:
  assumes inv: "qm_inv conv m"
  shows "qm_lookup conv m k = map_of (qm_data m) k"
proof (cases "k \<in> set (map fst (qm_data m))")
  case True
  let ?n = "length (takeWhile (\<lambda>x. x \<noteq> k) (map fst (qm_data m)))"
  have n: "?n < length (qm_data m)"
    using True length_takeWhile_less_iff [of "\<lambda>x. x \<noteq> k" "map fst (qm_data m)"] by simp
  have un: "unat (of_nat ?n :: 64 word) = ?n" using n qm_inv_length [OF inv] by (intro unat_of_nat_small) simp
  have "(of_nat ?n :: 64 word) \<noteq> NO_INDEX" using n qm_inv_length [OF inv] by (intro of_nat_neq_NO_INDEX) simp
  moreover have "index_in (map fst (qm_data m)) k = (of_nat ?n :: 64 word)" using True by (simp add: index_in_def)
  ultimately have "qm_find conv k m = Some ?n"
    using qm_find_index [OF inv, of k] un
    by (simp add: qm_find_def qm_begin_def it_plus_def it_plus_assign_def)
  then show ?thesis using n map_of_takeWhile [OF True] by (simp add: qm_lookup_def it_deref_def)
next
  case False
  then have "qm_find conv k m = Some (length (qm_data m))"
    using qm_find_index [OF inv, of k] by (simp add: qm_find_def index_in_def qm_end_def)
  moreover have "map_of (qm_data m) k = None" using False by (simp add: map_of_eq_None_iff)
  ultimately show ?thesis by (simp add: qm_lookup_def it_deref_def)
qed

lemma qm_insert_ok:
  assumes inv: "qm_inv conv m" and new: "k \<notin> fst ` set (qm_data m)" and room: "qm_room m"
  shows "\<exists>m'. qm_insert conv k v m = Some m' \<and> qm_inv conv m' \<and> qm_data m' = qm_data m @ [(k, v)] \<and>
    (qm_light m \<longrightarrow> load_ok (qm_hash m'))"
proof -
  let ?d = "qm_data m @ [(k, v)]"
  have "\<exists>T. qh_insert (qm_functor conv ?d) k (of_nat (length (map fst (qm_data m)))) (qm_hash m) = Some T \<and>
      index_rep conv (map fst (qm_data m) @ [k]) T \<and>
      (load_ok (qm_hash m) \<and> length (map fst (qm_data m)) \<le> 119304646 \<longrightarrow> load_ok T)"
    by (rule qm.insert_key) (use inv room in \<open>auto simp: qm_inv_def qm_room_def nth_append\<close>)
  then show ?thesis using inv new by (auto simp: qm_insert_def qm_inv_def qm_light_def)
qed

lemma qm_light_room: "qm_inv conv m \<Longrightarrow> qm_light m \<Longrightarrow> qm_room m"
  using qm.index_rep_can_grow [of conv "map fst (qm_data m)" "qm_hash m"]
  by (auto simp: qm_inv_def qm_light_def qm_room_def)

lemma qm_auto_insert_ok:
  assumes inv: "qm_inv conv m" and room: "qm_room m"
  shows "\<exists>m'. qm_auto_insert conv k v m = Some m' \<and> qm_inv conv m' \<and>
    qm_data m' = (if k \<in> fst ` set (qm_data m) then qm_data m else qm_data m @ [(k, v)]) \<and>
    (qm_light m \<longrightarrow> load_ok (qm_hash m'))"
proof -
  have len: "length (map fst (qm_data m)) < 2 ^ LENGTH(64)" using qm_inv_length [OF inv] by simp
  show ?thesis
    using inv qm_insert_ok [OF inv _ room, of k v] qm_find_index [OF inv, of k]
      index_in_NO_INDEX_iff [OF len, of k]
    by (cases "k \<in> fst ` set (qm_data m)") (auto simp: qm_auto_insert_def qm_light_def)
qed

definition qs_inv :: "('t \<Rightarrow> byte list) \<Rightarrow> 't quick_hash_set \<Rightarrow> bool" where
  "qs_inv bytes s \<longleftrightarrow> distinct (qs_data s) \<and> index_rep (\<lambda>v. bytes_hash (bytes v)) (qs_data s) (qs_hash s)"

lemma qs_contains_iff:
  assumes inv: "qs_inv bytes s"
  shows "qs_contains bytes v s = Some (v \<in> set (qs_data s))"
proof -
  have "qh_find (qs_functor bytes (qs_data s)) (qs_hash s) v = Some (index_in (qs_data s) v)"
    using inv unfolding qs_inv_def by (blast intro: qs.find_key)
  moreover have "length (qs_data s) < 2 ^ LENGTH(64)" using inv by (simp add: qs_inv_def index_rep_def)
  ultimately show ?thesis by (simp add: qs_contains_def index_in_NO_INDEX_iff)
qed

lemma qs_inv_init: "qs_inv bytes qs_init"
  by (simp add: qs_inv_def qs_init_def index_rep_init)

lemma qs_inv_length: "qs_inv bytes s \<Longrightarrow> length (qs_data s) < 2 ^ LENGTH(64)"
  by (simp add: qs_inv_def index_rep_def)

lemma qs_find_index:
  assumes "qs_inv bytes s"
  shows "qh_find (qs_functor bytes (qs_data s)) (qs_hash s) v = Some (index_in (qs_data s) v)"
  using assms unfolding qs_inv_def by (blast intro: qs.find_key)

definition qs_light :: "'t quick_hash_set \<Rightarrow> bool" where
  "qs_light s \<longleftrightarrow> load_ok (qs_hash s) \<and> length (qs_data s) \<le> 119304646"

lemma qs_auto_insert_ok:
  assumes inv: "qs_inv bytes s" and light: "qs_light s"
  shows "\<exists>s'. qs_auto_insert bytes v s = Some s' \<and> qs_inv bytes s' \<and> load_ok (qs_hash s') \<and>
    qs_data s' = (if v \<in> set (qs_data s) then qs_data s else qs_data s @ [v])"
proof -
  have f: "qh_find (qs_functor bytes (qs_data s)) (qs_hash s) v = Some (index_in (qs_data s) v)"
    by (rule qs_find_index [OF inv])
  show ?thesis
  proof (cases "v \<in> set (qs_data s)")
    case True
    then show ?thesis using inv light f index_in_NO_INDEX_iff [OF qs_inv_length [OF inv], of v]
      by (simp add: qs_auto_insert_def qs_light_def)
  next
    case False
    have "\<exists>T. qh_insert (qs_functor bytes (qs_data s @ [v])) v (of_nat (length (qs_data s))) (qs_hash s) = Some T \<and>
        index_rep (\<lambda>v. bytes_hash (bytes v)) (qs_data s @ [v]) T \<and>
        (load_ok (qs_hash s) \<and> length (qs_data s) \<le> 119304646 \<longrightarrow> load_ok T)"
    proof (rule qs.insert_key)
      show rep: "index_rep (\<lambda>v. bytes_hash (bytes v)) (qs_data s) (qs_hash s)" using inv by (simp add: qs_inv_def)
      show "can_grow_by 1 (qs_hash s)" using qs.index_rep_can_grow [OF rep] light by (simp add: qs_light_def)
      show "length (qs_data s) + 1 < 2 ^ LENGTH(64)" using light by (simp add: qs_light_def)
    qed (simp_all add: nth_append)
    then show ?thesis using inv light f False
      by (auto simp: qs_auto_insert_def qs_insert_def qs_inv_def qs_light_def index_in_def)
  qed
qed

lemma qs_end_batch_insert_ok:
  assumes inv: "qs_inv bytes s" and new: "distinct (qs_data s @ vs)" and s': "qs_data s' = qs_data s @ vs"
    "qs_hash s' = qs_hash s" "qs_batch_insert_start s' = of_nat (length (qs_data s))"
    and room: "can_grow_by (length vs) (qs_hash s)" and len: "length (qs_data s @ vs) < 2 ^ 64"
  shows "\<exists>s''. qs_end_batch_insert bytes s' = Some s'' \<and> qs_inv bytes s'' \<and> qs_data s'' = qs_data s @ vs"
proof -
  let ?d = "qs_data s @ vs" and ?n = "length (qs_data s)"
  let ?H = "\<lambda>i :: 64 word. bytes_hash (bytes (?d ! unat i))"
  have rep: "index_rep (\<lambda>v. bytes_hash (bytes v)) (qs_data s) (qs_hash s)" using inv by (simp add: qs_inv_def)
  have ent: "unat j < ?n" if "j \<in># entries (qh_data (qs_hash s))" for j
    using entries_index [OF rep] that by blast
  have un: "unat (of_nat m :: 64 word) = m" if "m < length ?d" for m
    using that len by (intro unat_of_nat_small) simp
  have "qh_inv (\<lambda>i. bytes_hash (bytes (qs_data s ! unat i))) (qs_hash s)" using rep by (simp add: index_rep_def)
  then have qinv: "qh_inv ?H (qs_hash s)" by (rule qh_inv_cong) (use ent in \<open>simp add: nth_append\<close>)
  have "\<exists>T. insert_range (qs_functor bytes ?d) vs (of_nat ?n) (qs_hash s) = Some T \<and> qh_inv ?H T \<and>
      entries (qh_data T) = entries (qh_data (qs_hash s)) + mset (map (\<lambda>m. of_nat ?n + of_nat m) [0..<length vs])"
  proof (rule insert_range_ok [OF qinv])
    show "reserve_target (LENGTH(64) div 8) (grower_capacity (qh_grower (qs_hash s)) + length vs) \<le> primes ! 29"
      using room by (simp add: can_grow_by_def)
    show "hf_hash (qs_functor bytes ?d) (hf_value (qs_functor bytes ?d) j) = ?H j"
      if "j \<in># entries (qh_data (qs_hash s))" for j by (simp add: qs_functor_def)
    fix m assume m: "m < length vs"
    have "(of_nat (?n + m) :: 64 word) \<noteq> NO_INDEX" using m len by (intro of_nat_neq_NO_INDEX) simp
    then show "of_nat ?n + of_nat m \<noteq> (NO_INDEX :: 64 word) \<and>
        hf_hash (qs_functor bytes ?d) (vs ! m) = ?H (of_nat ?n + of_nat m)"
      using un [of "?n + m"] m by (simp add: qs_functor_def)
  qed
  then obtain T where T: "insert_range (qs_functor bytes ?d) vs (of_nat ?n) (qs_hash s) = Some T" "qh_inv ?H T"
    "entries (qh_data T) = entries (qh_data (qs_hash s)) + mset (map (\<lambda>m. of_nat ?n + of_nat m) [0..<length vs])" by blast
  have "map (\<lambda>m. of_nat ?n + of_nat m :: 64 word) [0..<length vs] = map of_nat [?n..<length ?d]"
    by (rule nth_equalityI) simp_all
  moreover have "[0..<?n] @ [?n..<length ?d] = [0..<length ?d]" using upt_add_eq_append [of 0 ?n "length vs"] by simp
  ultimately have "entries (qh_data T) = mset (map of_nat [0..<length ?d])"
    using T(3) rep unfolding index_rep_def by (metis map_append mset_append)
  then have "index_rep (\<lambda>v. bytes_hash (bytes v)) ?d T" using T(2) len by (simp add: index_rep_def)
  moreover have "drop (unat (of_nat ?n :: 64 word)) ?d = vs"
    using un [of ?n] len by (cases vs) (simp_all add: unat_of_nat_small)
  ultimately show ?thesis using T(1) new s' by (auto simp: qs_end_batch_insert_def qs_inv_def)
qed

subsection \<open>Properties\<close>

fun qm_auto_inserts :: "('k \<Rightarrow> size_t) \<Rightarrow> ('k \<times> 'v) list \<Rightarrow> ('k, 'v) quick_hash_map \<Rightarrow> ('k, 'v) quick_hash_map option" where
  "qm_auto_inserts conv [] m = Some m"
| "qm_auto_inserts conv ((k, v) # kvs) m = do { m' \<leftarrow> qm_auto_insert conv k v m; qm_auto_inserts conv kvs m' }"

lemma qm_auto_inserts_ok:
  "qm_inv conv m \<Longrightarrow> load_ok (qm_hash m) \<Longrightarrow> length (qm_data m) + length kvs \<le> 119304646 \<Longrightarrow>
   \<exists>m'. qm_auto_inserts conv kvs m = Some m' \<and> qm_inv conv m' \<and>
     (\<forall>k. qm_lookup conv m' k = (map_of kvs ++ qm_lookup conv m) k)"
proof (induction kvs arbitrary: m)
  case (Cons kv kvs)
  obtain k v where kv: "kv = (k, v)" by (cases kv)
  have light: "qm_light m" using Cons.prems by (simp add: qm_light_def)
  obtain m1 where m1: "qm_auto_insert conv k v m = Some m1" "qm_inv conv m1" "load_ok (qm_hash m1)"
      "qm_data m1 = (if k \<in> fst ` set (qm_data m) then qm_data m else qm_data m @ [(k, v)])"
    using qm_auto_insert_ok [OF Cons.prems(1) qm_light_room [OF Cons.prems(1) light], of k v] light by blast
  have "length (qm_data m1) + length kvs \<le> 119304646" using m1(4) Cons.prems(3) by simp
  then obtain m' where m': "qm_auto_inserts conv kvs m1 = Some m'" "qm_inv conv m'"
      "\<forall>k. qm_lookup conv m' k = (map_of kvs ++ qm_lookup conv m1) k"
    using Cons.IH [OF m1(2,3)] by blast
  have "qm_lookup conv m1 k' = (map_of [(k, v)] ++ qm_lookup conv m) k'" for k'
  proof (cases "k \<in> fst ` set (qm_data m)")
    case True
    then obtain v0 where "map_of (qm_data m) k = Some v0" by (metis map_of_eq_None_iff option.exhaust)
    then show ?thesis using m1(4) True
      by (auto simp: qm_lookup_map_of [OF m1(2)] qm_lookup_map_of [OF Cons.prems(1)] map_add_def split: option.splits)
  next
    case False
    then have "map_of (qm_data m) k = None" by (simp add: map_of_eq_None_iff)
    then show ?thesis using m1(4) False
      by (auto simp: qm_lookup_map_of [OF m1(2)] qm_lookup_map_of [OF Cons.prems(1)] map_add_def split: option.splits)
  qed
  then show ?case using m' m1(1) kv by (auto simp: map_add_def split: option.splits)
qed simp

text \<open>
  C24.  Any sequence of automatic insertions into an empty map (up to the size the table supports)
  succeeds, whatever the key's conversion to a hash value; a lookup then sees the first value that
  was inserted for the key, and none for a key that was not.
\<close>

theorem quick_hash_map_auto_inserts:
  fixes conv :: "'k \<Rightarrow> size_t" and kvs :: "('k \<times> 'v) list"
  assumes "length kvs \<le> 119304646"
  shows "\<exists>m. qm_auto_inserts conv kvs qm_init = Some m \<and> qm_inv conv m \<and> qm_lookup conv m = map_of kvs"
proof -
  have "load_ok (qm_hash (qm_init :: ('k, 'v) quick_hash_map))" by (simp add: qm_init_def)
  moreover have "length (qm_data (qm_init :: ('k, 'v) quick_hash_map)) + length kvs \<le> 119304646"
    using assms by (simp add: qm_init_def)
  moreover have "qm_lookup conv (qm_init :: ('k, 'v) quick_hash_map) k = None" for k
    using qm_lookup_map_of [OF qm_inv_init] by (simp add: qm_init_def)
  ultimately show ?thesis using qm_auto_inserts_ok [OF qm_inv_init, of kvs conv]
    by (metis (no_types, lifting) ext map_add_empty map_add_def option.case_eq_if)
qed

theorem quick_hash_map_auto_inserts_witness:
  "\<exists>m. qm_auto_inserts id [(5, ''a''), (6, ''b''), (5, ''c'')] qm_init = Some m \<and> qm_lookup id m 5 = Some ''a''"
  using quick_hash_map_auto_inserts [of "[(5, ''a''), (6, ''b''), (5, ''c'')]" id] by auto

fun qs_auto_inserts :: "('t \<Rightarrow> byte list) \<Rightarrow> 't list \<Rightarrow> 't quick_hash_set \<Rightarrow> 't quick_hash_set option" where
  "qs_auto_inserts bytes [] s = Some s"
| "qs_auto_inserts bytes (v # vs) s = do { s' \<leftarrow> qs_auto_insert bytes v s; qs_auto_inserts bytes vs s' }"

lemma qs_auto_inserts_ok:
  "qs_inv bytes s \<Longrightarrow> load_ok (qs_hash s) \<Longrightarrow> length (qs_data s) + length vs \<le> 119304646 \<Longrightarrow>
   \<exists>s'. qs_auto_inserts bytes vs s = Some s' \<and> qs_inv bytes s' \<and> set (qs_data s') = set (qs_data s) \<union> set vs"
proof (induction vs arbitrary: s)
  case (Cons v vs)
  have "qs_light s" using Cons.prems by (simp add: qs_light_def)
  then obtain s1 where s1: "qs_auto_insert bytes v s = Some s1" "qs_inv bytes s1" "load_ok (qs_hash s1)"
      "qs_data s1 = (if v \<in> set (qs_data s) then qs_data s else qs_data s @ [v])"
    using qs_auto_insert_ok [OF Cons.prems(1), of v] by blast
  have "length (qs_data s1) + length vs \<le> 119304646" using s1(4) Cons.prems(3) by simp
  then show ?case using Cons.IH [OF s1(2,3)] s1(1,4) by auto
qed simp

text \<open>
  A set filled by any sequence of automatic insertions contains exactly the inserted values,
  whatever the bytes are that the values hash by.
\<close>

lemma quick_hash_set_auto_inserts:
  fixes bytes :: "'a \<Rightarrow> byte list"
  assumes "length vs \<le> 119304646"
  shows "\<exists>s. qs_auto_inserts bytes vs qs_init = Some s \<and> (\<forall>v. qs_contains bytes v s = Some (v \<in> set vs))"
proof -
  have "load_ok (qs_hash (qs_init :: 'a quick_hash_set))" "qs_data (qs_init :: 'a quick_hash_set) = []"
    by (simp_all add: qs_init_def)
  then obtain s where s: "qs_auto_inserts bytes vs qs_init = Some s" "qs_inv bytes s" "set (qs_data s) = set vs"
    using qs_auto_inserts_ok [OF qs_inv_init, of vs bytes] assms by auto
  have "qs_contains bytes v s = Some (v \<in> set vs)" for v using qs_contains_iff [OF s(2), of v] s(3) by simp
  then show ?thesis using s(1) by blast
qed

lemma quick_hash_set_auto_inserts_witness:
  "\<exists>s. qs_auto_inserts (\<lambda>c :: byte. [c]) [3, 4, 3] qs_init = Some s \<and> qs_contains (\<lambda>c. [c]) 5 s = Some False"
  using quick_hash_set_auto_inserts [of "[3, 4, 3]" "\<lambda>c :: byte. [c]"] by auto

text \<open>
  The iterators move the wrong way: \<open>operator-=\<close> adds, so that \<open>end() - size()\<close> is not
  \<open>begin()\<close> unless the container is empty.
\<close>

lemma iterator_minus_moves_forward:
  "it_minus (qm_end m) (qm_size m) = qm_begin m \<longleftrightarrow> qm_data m = []"
  by (simp add: it_minus_def it_minus_assign_def qm_end_def qm_size_def qm_begin_def)
end
