(* ===== verification/StringDictionary.thy ===== *)
theory StringDictionary
  imports QuickHashMap IndexPool
begin

section \<open>CStringDictionary (src/LogCache/Containers/StringDictonary)\<close>

text \<open>
  A pool of unique zero-terminated strings, packed into one character array; \<open>offsets\<close> holds the
  start of each string and, last, the end of the array.  Index 0 is the empty string.  A
  \<open>const char*\<close> argument is \<open>None\<close> for NULL or the characters before its terminating zero.
  The lemmas relate the packed form to the list of strings (\<open>sd_strings\<close>), and show lookup,
  insertion, merging, reordering and the rebuilding of the indexes on that list.
\<close>

type_synonym cstring = "byte list option"

type_synonym index_mapping_t = "(index_t, index_t) quick_hash_map"

record string_dictionary =
  packedStrings :: "byte list"
  offsets :: "index_t list"
  sd_hashIndex :: "32 word quick_hash"

text \<open>\<open>char\<close> is signed: a character is sign extended before it enters the hash.\<close>

definition sd_hash :: "cstring \<Rightarrow> size_t" where
  "sd_hash value = (case value of None \<Rightarrow> 0
     | Some s \<Rightarrow> foldl (\<lambda>result c. (result * 33) XOR scast c) 0 s)"

definition sd_value :: "byte list \<Rightarrow> index_t list \<Rightarrow> index_t \<Rightarrow> cstring" where
  "sd_value p os index = (if index = NO_INDEX then None else Some (cstr_at p (unat (os ! unat index))))"

definition sd_equal :: "byte list \<Rightarrow> index_t list \<Rightarrow> cstring \<Rightarrow> index_t \<Rightarrow> bool" where
  "sd_equal p os value index =
     (case value of None \<Rightarrow> index = 0 | Some s \<Rightarrow> s = cstr_at p (unat (os ! unat index)))"

definition sd_functor :: "byte list \<times> index_t list \<Rightarrow> (cstring, 32 word) hash_functor" where
  "sd_functor s =
     \<lparr>hf_hash = sd_hash, hf_value = sd_value (fst s) (snd s), hf_equal = sd_equal (fst s) (snd s)\<rparr>"

abbreviation sd_fun :: "string_dictionary \<Rightarrow> (cstring, 32 word) hash_functor" where
  "sd_fun d \<equiv> sd_functor (packedStrings d, offsets d)"

text \<open>
  \<open>RebuildIndexes\<close> recomputes the offsets from the character data.  An empty offset vector makes
  its loop run over 4294967295 entries that do not exist: undefined.
\<close>

fun rebuild_offsets :: "byte list \<Rightarrow> nat \<Rightarrow> index_t \<Rightarrow> container_error + index_t list" where
  "rebuild_offsets p 0 offset = Inr []"
| "rebuild_offsets p (Suc n) offset =
     (let len = length (takeWhile (\<lambda>c. c \<noteq> 0) (drop (unat offset) p));
          offset' = offset + of_nat (len + 1)
      in if unat offset' > length p
         then Inl (CContainerException ''missing nul terminator in string dictionary'')
         else bindE (rebuild_offsets p n offset') (\<lambda>os. Inr (offset # os)))"

definition sd_RebuildIndexes :: "string_dictionary \<Rightarrow> container_error + string_dictionary" where
  "sd_RebuildIndexes d =
     (if offsets d = [] then Inl Undefined else
      bindE (rebuild_offsets (packedStrings d) (length (offsets d) - 1) 0) (\<lambda>os.
        let os' = os @ [last (offsets d)];
            temp = map (\<lambda>offset. Some (cstr_at (packedStrings d) (unat offset))) os
        in bindE (of_opt (insert_range (sd_functor (packedStrings d, os')) temp 0 (qh_clear (sd_hashIndex d)))) (\<lambda>T.
             Inr (d\<lparr>offsets := os @ [of_nat (length (packedStrings d))], sd_hashIndex := T\<rparr>))))"

definition sd_Initialize :: "string_dictionary \<Rightarrow> string_dictionary option" where
  "sd_Initialize d =
     (let p = packedStrings d @ [0]; os = offsets d @ [0, 1] in do {
        T \<leftarrow> qh_insert (sd_functor (p, os)) (Some []) 0 (sd_hashIndex d);
        Some (d\<lparr>packedStrings := p, offsets := os, sd_hashIndex := T\<rparr>)
      })"

definition sd_init :: "string_dictionary option" where
  "sd_init = sd_Initialize \<lparr>packedStrings = [], offsets = [], sd_hashIndex = quick_hash_init\<rparr>"

definition sd_size :: "string_dictionary \<Rightarrow> index_t" where
  "sd_size d = of_nat (length (offsets d) - 1)"

definition sd_swap :: "string_dictionary \<Rightarrow> string_dictionary \<Rightarrow> string_dictionary \<times> string_dictionary" where
  "sd_swap d rhs =
     (let (T, T') = qh_swap (sd_hashIndex d) (sd_hashIndex rhs)
      in (d\<lparr>packedStrings := packedStrings rhs, offsets := offsets rhs, sd_hashIndex := T\<rparr>,
          rhs\<lparr>packedStrings := packedStrings d, offsets := offsets d, sd_hashIndex := T'\<rparr>))"

definition sd_Find :: "cstring \<Rightarrow> string_dictionary \<Rightarrow> index_t option" where
  "sd_Find s d = qh_find (sd_fun d) (sd_hashIndex d) s"

text \<open>An index at or beyond the last offset is out of range (checked in debug builds only).\<close>

definition sd_at :: "string_dictionary \<Rightarrow> index_t \<Rightarrow> byte list option" where
  "sd_at d index =
     (if unat index + 1 < length (offsets d)
      then Some (cstr_at (packedStrings d) (unat (offsets d ! unat index))) else None)"

definition sd_GetLength :: "string_dictionary \<Rightarrow> index_t \<Rightarrow> index_t option" where
  "sd_GetLength d index =
     (if unat index + 1 < length (offsets d)
      then Some (offsets d ! (unat index + 1) - offsets d ! unat index - 1) else None)"

definition sd_CopyTo :: "string_dictionary \<Rightarrow> index_t \<Rightarrow> byte list option" where
  "sd_CopyTo d index =
     (if unat index + 1 < length (offsets d)
      then let first = unat (offsets d ! unat index); last = unat (offsets d ! (unat index + 1)) - 1
           in Some (take (last - first) (drop first (packedStrings d)))
      else None)"

definition sd_overflow :: "nat \<Rightarrow> index_t \<Rightarrow> bool" where
  "sd_overflow packed_size string_size \<longleftrightarrow>
     (of_nat packed_size :: size_t) \<ge> ucast (NO_INDEX :: index_t) - (ucast string_size + 8)"

definition sd_Insert :: "byte list \<Rightarrow> string_dictionary \<Rightarrow> container_error + index_t \<times> string_dictionary" where
  "sd_Insert s d =
     (let string_size = of_nat (length s) + 1 in
      if sd_overflow (length (packedStrings d)) string_size
      then Inl (CContainerException ''dictionary overflow'')
      else
        let p = packedStrings d @ s @ [0]; result = of_nat (length (offsets d) - 1)
        in bindE (of_opt (qh_insert (sd_functor (p, offsets d)) (Some s) result (sd_hashIndex d))) (\<lambda>T.
             Inr (result, d\<lparr>packedStrings := p, sd_hashIndex := T, offsets := offsets d @ [of_nat (length p)]\<rparr>)))"

definition sd_AutoInsert :: "byte list \<Rightarrow> string_dictionary \<Rightarrow> container_error + index_t \<times> string_dictionary" where
  "sd_AutoInsert s d =
     bindE (of_opt (sd_Find (Some s) d)) (\<lambda>result.
       if result = NO_INDEX then sd_Insert s d else Inr (result, d))"

definition sd_CanInsertThreadSafely :: "nat \<Rightarrow> nat \<Rightarrow> index_t \<Rightarrow> nat \<Rightarrow> string_dictionary \<Rightarrow> bool" where
  "sd_CanInsertThreadSafely packed_capacity offsets_capacity n chars d \<longleftrightarrow>
     length (packedStrings d) + chars \<le> packed_capacity \<and>
     length (offsets d) + unat n \<le> offsets_capacity \<and> \<not> may_cause_growth (unat n) (sd_hashIndex d)"

definition sd_Clear :: "string_dictionary \<Rightarrow> string_dictionary option" where
  "sd_Clear d = sd_Initialize (d\<lparr>packedStrings := [], offsets := [], sd_hashIndex := qh_clear (sd_hashIndex d)\<rparr>)"

definition sd_Reserve :: "index_t \<Rightarrow> string_dictionary \<Rightarrow> string_dictionary option" where
  "sd_Reserve stringCount d = do {
     T \<leftarrow> reserve (sd_fun d) (unat stringCount) (sd_hashIndex d);
     Some (d\<lparr>sd_hashIndex := T\<rparr>)
   }"

definition sd_GetPackedStringSize :: "string_dictionary \<Rightarrow> nat" where
  "sd_GetPackedStringSize d = length (packedStrings d)"

abbreviation index_conv :: "index_t \<Rightarrow> size_t" where
  "index_conv \<equiv> ucast"

fun sd_merge_loop ::
    "string_dictionary \<Rightarrow> nat list \<Rightarrow> string_dictionary \<Rightarrow> index_mapping_t \<Rightarrow>
     container_error + string_dictionary \<times> index_mapping_t" where
  "sd_merge_loop source [] d result = Inr (d, result)"
| "sd_merge_loop source (i # is) d result =
     bindE (of_opt (sd_at source (of_nat i))) (\<lambda>s.
     bindE (sd_AutoInsert s d) (\<lambda>(index, d').
     bindE (of_opt (qm_insert index_conv (of_nat i) index result)) (\<lambda>result'.
       sd_merge_loop source is d' result')))"

definition sd_Merge ::
    "string_dictionary \<Rightarrow> string_dictionary \<Rightarrow> container_error + string_dictionary \<times> index_mapping_t" where
  "sd_Merge source d =
     bindE (of_opt (qm_insert index_conv NO_INDEX NO_INDEX qm_init)) (\<lambda>result.
       sd_merge_loop source [0..<unat (sd_size source)] d result)"

definition sd_piece :: "string_dictionary \<Rightarrow> index_t \<Rightarrow> byte list option" where
  "sd_piece d sourceIndex =
     (if unat sourceIndex + 1 < length (offsets d)
      then let sourceOffset = offsets d ! unat sourceIndex;
               len = offsets d ! (unat sourceIndex + 1) - sourceOffset
           in Some (take (unat len) (drop (unat sourceOffset) (packedStrings d)))
      else None)"

fun sd_copy_pieces :: "string_dictionary \<Rightarrow> index_t list \<Rightarrow> byte list option" where
  "sd_copy_pieces d [] = Some []"
| "sd_copy_pieces d (i # is) = do { piece \<leftarrow> sd_piece d i; rest \<leftarrow> sd_copy_pieces d is; Some (piece @ rest) }"

definition sd_Reorder :: "index_t list \<Rightarrow> string_dictionary \<Rightarrow> container_error + string_dictionary" where
  "sd_Reorder sourceIndices d =
     (if length sourceIndices < unat (sd_size d) then Inl Undefined else
      bindE (of_opt (sd_copy_pieces d (take (unat (sd_size d)) sourceIndices))) (\<lambda>target.
        if length target > length (packedStrings d) then Inl Undefined
        else sd_RebuildIndexes
          (d\<lparr>packedStrings := target @ replicate (length (packedStrings d) - length target) 0\<rparr>)))"

subsection \<open>The packed form of a list of strings\<close>

definition packed_of :: "byte list list \<Rightarrow> byte list" where
  "packed_of strs = concat (map (\<lambda>s. s @ [0]) strs)"

fun offsets_from :: "nat \<Rightarrow> byte list list \<Rightarrow> nat list" where
  "offsets_from n [] = [n]"
| "offsets_from n (s # strs) = n # offsets_from (n + length s + 1) strs"

definition strings_at :: "byte list \<times> index_t list \<Rightarrow> byte list list" where
  "strings_at s = map (\<lambda>offset. cstr_at (fst s) (unat offset)) (butlast (snd s))"

definition sd_strings :: "string_dictionary \<Rightarrow> byte list list" where
  "sd_strings d = strings_at (packedStrings d, offsets d)"

definition sd_norm :: "cstring \<Rightarrow> byte list" where
  "sd_norm v = (case v of None \<Rightarrow> [] | Some s \<Rightarrow> s)"

definition sd_valid :: "byte list \<times> index_t list \<Rightarrow> bool" where
  "sd_valid s \<longleftrightarrow> distinct (strings_at s) \<and> strings_at s \<noteq> [] \<and> hd (strings_at s) = [] \<and>
     length (strings_at s) < 2 ^ 32"

text \<open>The dictionary stores exactly the strings \<open>strs\<close>, in this order.\<close>

definition sd_packs :: "byte list list \<Rightarrow> string_dictionary \<Rightarrow> bool" where
  "sd_packs strs d \<longleftrightarrow> packedStrings d = packed_of strs \<and>
     offsets d = map of_nat (offsets_from 0 strs) \<and> (\<forall>s \<in> set strs. 0 \<notin> set s) \<and>
     length (packed_of strs) < 2 ^ 32"

definition sd_inv :: "string_dictionary \<Rightarrow> bool" where
  "sd_inv d \<longleftrightarrow> sd_packs (sd_strings d) d \<and> sd_valid (packedStrings d, offsets d) \<and>
     index_rep (\<lambda>s. sd_hash (Some s)) (sd_strings d) (sd_hashIndex d)"

definition sd_room :: "byte list \<Rightarrow> string_dictionary \<Rightarrow> bool" where
  "sd_room s d \<longleftrightarrow> can_grow_by 1 (sd_hashIndex d) \<and> length (packedStrings d) + length s + 10 < 2 ^ 32 \<and> 0 \<notin> set s"

definition sd_light :: "string_dictionary \<Rightarrow> bool" where
  "sd_light d \<longleftrightarrow> load_ok (sd_hashIndex d) \<and> length (sd_strings d) \<le> 119304646"

lemma packed_of_simps [simp]:
  "packed_of [] = []" "packed_of (s # strs) = s @ 0 # packed_of strs"
  "packed_of (strs @ strs') = packed_of strs @ packed_of strs'"
  by (simp_all add: packed_of_def)

lemma offsets_from_nonempty [simp]: "offsets_from n strs \<noteq> []"
  by (cases strs) auto

lemma length_offsets_from [simp]: "length (offsets_from n strs) = length strs + 1"
  by (induction n strs rule: offsets_from.induct) auto

lemma last_offsets_from: "last (offsets_from n strs) = n + length (packed_of strs)"
  by (induction n strs rule: offsets_from.induct) auto

lemma offsets_from_snoc:
  "offsets_from n (strs @ [s]) = offsets_from n strs @ [n + length (packed_of strs) + length s + 1]"
  by (induction n strs rule: offsets_from.induct) (auto simp: algebra_simps)

lemma nth_offsets_from:
  "i \<le> length strs \<Longrightarrow> offsets_from n strs ! i = n + length (packed_of (take i strs))"
proof (induction n strs arbitrary: i rule: offsets_from.induct)
  case (2 n s strs)
  then show ?case by (cases i) auto
qed simp

lemma packed_of_split:
  assumes "i < length strs"
  shows "packed_of strs = packed_of (take i strs) @ strs ! i @ 0 # packed_of (drop (Suc i) strs)"
  using arg_cong [OF id_take_nth_drop [OF assms], of packed_of] by simp

lemma length_packed_take: "length (packed_of (take i strs)) \<le> length (packed_of strs)"
  by (metis append_take_drop_id le_add1 length_append packed_of_simps(3))

lemma length_strs_le_packed: "length strs \<le> length (packed_of strs)"
  by (induction strs) auto

lemma cstr_at_packed:
  assumes "i < length strs" "0 \<notin> set (strs ! i)"
  shows "cstr_at (packed_of strs @ q) (length (packed_of (take i strs))) = strs ! i"
  using cstr_at_append [OF assms(2), of "packed_of (take i strs)" "packed_of (drop (Suc i) strs) @ q"]
  by (simp add: packed_of_split [OF assms(1)])

lemma strings_at_packed:
  assumes "\<forall>s \<in> set strs. 0 \<notin> set s" "length (packed_of strs) < 2 ^ 32"
  shows "strings_at (packed_of strs @ q, map of_nat (offsets_from 0 strs)) = strs"
proof (rule nth_equalityI)
  show len: "length (strings_at (packed_of strs @ q, map of_nat (offsets_from 0 strs))) = length strs"
    by (simp add: strings_at_def)
  fix i assume "i < length (strings_at (packed_of strs @ q, map of_nat (offsets_from 0 strs)))"
  then have i: "i < length strs" using len by simp
  have "length (packed_of (take i strs)) < 2 ^ 32" using length_packed_take [of i strs] assms(2) by simp
  then have un: "unat (of_nat (length (packed_of (take i strs))) :: index_t) = length (packed_of (take i strs))"
    by (intro unat_of_nat_small) simp
  show "strings_at (packed_of strs @ q, map of_nat (offsets_from 0 strs)) ! i = strs ! i"
    using i assms un by (simp add: strings_at_def nth_butlast nth_offsets_from cstr_at_packed)
qed

lemma sd_packs_strings: "sd_packs strs d \<Longrightarrow> sd_strings d = strs"
  using strings_at_packed [of strs "[]"] by (simp add: sd_packs_def sd_strings_def)

lemma sd_packs_length: "sd_packs strs d \<Longrightarrow> length (offsets d) = length strs + 1 \<and> length strs < 2 ^ 32"
  using length_strs_le_packed [of strs] by (simp add: sd_packs_def)

lemma nth_strings_at: "unat i < length (strings_at s) \<Longrightarrow> cstr_at (fst s) (unat (snd s ! unat i)) = strings_at s ! unat i"
  by (simp add: strings_at_def nth_butlast)

interpretation sd: hash_container sd_functor strings_at sd_norm "\<lambda>s. sd_hash (Some s)" sd_valid
proof
  fix s v show "hf_hash (sd_functor s) v = sd_hash (Some (sd_norm v))"
    by (cases v) (simp_all add: sd_functor_def sd_hash_def sd_norm_def)
next
  fix s and i :: index_t assume s: "sd_valid s" and i: "unat i < length (strings_at s)"
  have "i \<noteq> NO_INDEX" using s i unat_NO_INDEX [where 'i = 32] by (auto simp: sd_valid_def)
  then show "sd_norm (hf_value (sd_functor s) i) = strings_at s ! unat i"
    using i by (simp add: sd_functor_def sd_value_def sd_norm_def nth_strings_at)
next
  fix s v and i :: index_t assume s: "sd_valid s" and i: "unat i < length (strings_at s)"
  show "hf_equal (sd_functor s) v i \<longleftrightarrow> sd_norm v = strings_at s ! unat i"
  proof (cases v)
    case None
    have "strings_at s ! 0 = []" using s hd_conv_nth [of "strings_at s"] by (simp add: sd_valid_def)
    then have "i = 0 \<longleftrightarrow> [] = strings_at s ! unat i"
      using s i by (metis distinct_conv_nth sd_valid_def unat_eq_zero length_greater_0_conv)
    then show ?thesis using None by (simp add: sd_functor_def sd_equal_def sd_norm_def)
  next
    case (Some a)
    then show ?thesis using i by (simp add: sd_functor_def sd_equal_def sd_norm_def nth_strings_at)
  qed
qed

subsection \<open>Lookup and insertion\<close>

lemma sd_inv_rep:
  assumes "sd_inv d"
  shows "sd_packs (sd_strings d) d" "distinct (sd_strings d)" "sd_strings d \<noteq> []" "hd (sd_strings d) = []"
    "index_rep (\<lambda>s. sd_hash (Some s)) (sd_strings d) (sd_hashIndex d)"
    "sd_valid (packedStrings d, offsets d)"
  using assms by (auto simp: sd_inv_def sd_valid_def sd_strings_def)

lemma sd_invI:
  assumes "sd_packs strs d" "distinct strs" "strs \<noteq> []" "hd strs = []"
    "index_rep (\<lambda>s. sd_hash (Some s)) strs (sd_hashIndex d)"
  shows "sd_inv d \<and> sd_strings d = strs"
  using assms sd_packs_strings [OF assms(1)] sd_packs_length [OF assms(1)]
  by (auto simp: sd_inv_def sd_valid_def sd_strings_def)

lemma sd_Find_eq:
  assumes "sd_inv d"
  shows "sd_Find v d = Some (index_in (sd_strings d) (sd_norm v))"
  unfolding sd_Find_def sd_strings_def
  by (rule sd.find_key) (use sd_inv_rep [OF assms] in \<open>simp_all add: sd_strings_def\<close>)

lemma sd_at_eq:
  assumes "sd_inv d"
  shows "sd_at d i = (if unat i < length (sd_strings d) then Some (sd_strings d ! unat i) else None)"
  using sd_packs_length [OF sd_inv_rep(1) [OF assms]] nth_strings_at [of i "(packedStrings d, offsets d)"]
  by (auto simp: sd_at_def sd_strings_def)

lemma sd_size_eq: "sd_inv d \<Longrightarrow> sd_size d = of_nat (length (sd_strings d))"
  using sd_packs_length [OF sd_inv_rep(1)] by (simp add: sd_size_def)

lemma ucast_of_nat_size: "n < 2 ^ 32 \<Longrightarrow> (ucast (of_nat n :: index_t) :: size_t) = of_nat n"
  by (simp add: unsigned_of_nat take_bit_nat_eq_self)

lemma no_overflow:
  assumes "n + m + 10 < (2::nat) ^ 32"
  shows "\<not> sd_overflow n (of_nat m + 1)"
proof -
  have "(ucast (of_nat m + 1 :: index_t) :: size_t) = of_nat (m + 1)"
    using ucast_of_nat_size [of "m + 1"] assms by (simp add: add.commute)
  moreover have "(ucast (NO_INDEX :: index_t) :: size_t) = of_nat (2 ^ 32 - 1)"
    by (simp add: NO_INDEX_def unsigned_minus_1_eq_mask mask_eq_exp_minus_1)
  moreover have "(of_nat (2 ^ 32 - 1) :: size_t) - (of_nat (m + 1) + 8) = of_nat (2 ^ 32 - 1 - (m + 9))"
    using assms by (subst of_nat_diff) (simp_all add: algebra_simps)
  ultimately have "ucast (NO_INDEX :: index_t) - (ucast (of_nat m + 1 :: index_t) + 8) = (of_nat (2 ^ 32 - 1 - (m + 9)) :: size_t)"
    by (simp only:)
  moreover have "\<not> (of_nat (2 ^ 32 - 1 - (m + 9)) :: size_t) \<le> of_nat n"
  proof -
    have "unat (of_nat n :: size_t) = n" "unat (of_nat (2 ^ 32 - 1 - (m + 9)) :: size_t) = 2 ^ 32 - 1 - (m + 9)"
      by (rule unat_of_nat_small, use assms in simp)+
    then show ?thesis unfolding word_le_nat_alt using assms by simp
  qed
  ultimately show ?thesis by (simp only: sd_overflow_def not_False_eq_True)
qed

lemma sd_Insert_ok:
  assumes inv: "sd_inv d" and room: "sd_room s d" and new: "s \<notin> set (sd_strings d)"
  shows "\<exists>d'. sd_Insert s d = Inr (of_nat (length (sd_strings d)), d') \<and> sd_inv d' \<and>
    sd_strings d' = sd_strings d @ [s] \<and> (sd_light d \<longrightarrow> load_ok (sd_hashIndex d'))"
proof -
  let ?strs = "sd_strings d" and ?p = "packedStrings d @ s @ [0]"
  note R = sd_inv_rep [OF inv]
  have pk: "packedStrings d = packed_of ?strs" "offsets d = map of_nat (offsets_from 0 ?strs)"
    "\<forall>s \<in> set ?strs. 0 \<notin> set s" "length (packed_of ?strs) < 2 ^ 32" using R(1) by (auto simp: sd_packs_def)
  have keys: "strings_at (?p, offsets d) = ?strs"
    using strings_at_packed [OF pk(3,4), of "s @ [0]"] pk(1,2) by simp
  have len: "length ?strs + 1 < 2 ^ LENGTH(32)"
    using length_strs_le_packed [of ?strs] pk(1) room by (simp add: sd_room_def)
  have valid: "sd_valid (?p, offsets d)"
    using R len by (simp add: sd_valid_def keys)
  have "length (offsets d) - 1 = length ?strs" using sd_packs_length [OF R(1)] by simp
  moreover obtain T where T: "qh_insert (sd_functor (?p, offsets d)) (Some s) (of_nat (length ?strs)) (sd_hashIndex d) = Some T"
    "index_rep (\<lambda>s. sd_hash (Some s)) (?strs @ [s]) T"
    "load_ok (sd_hashIndex d) \<and> length ?strs \<le> 119304646 \<longrightarrow> load_ok T"
    using sd.insert_key [OF valid _ R(5) _ len, of "Some s"] keys room
    by (auto simp: sd_room_def sd_norm_def)
  moreover define d' where "d' = d\<lparr>packedStrings := ?p, sd_hashIndex := T, offsets := offsets d @ [of_nat (length ?p)]\<rparr>"
  ultimately have ins: "sd_Insert s d = Inr (of_nat (length ?strs), d')"
    using no_overflow [of "length (packedStrings d)" "length s"] room
    by (simp add: sd_Insert_def sd_room_def Let_def)
  have "sd_packs (?strs @ [s]) d'"
    using pk room by (simp add: sd_packs_def d'_def offsets_from_snoc sd_room_def)
  then have "sd_inv d' \<and> sd_strings d' = ?strs @ [s]"
    by (rule sd_invI) (use R new T(2) in \<open>auto simp: d'_def\<close>)
  with ins T(3) show ?thesis by (auto simp: d'_def sd_light_def)
qed

lemma sd_AutoInsert_ok:
  assumes inv: "sd_inv d" and room: "sd_room s d"
  shows "\<exists>d'. sd_AutoInsert s d = Inr (index_in (sd_strings d') s, d') \<and> sd_inv d' \<and>
    sd_strings d' = (if s \<in> set (sd_strings d) then sd_strings d else sd_strings d @ [s]) \<and>
    (sd_light d \<longrightarrow> load_ok (sd_hashIndex d'))"
proof -
  have len: "length (sd_strings d) < 2 ^ LENGTH(32)" using sd_packs_length [OF sd_inv_rep(1) [OF inv]] by simp
  show ?thesis
    using inv sd_Find_eq [OF inv, of "Some s"] index_in_NO_INDEX_iff [OF len, of s] sd_Insert_ok [OF inv room]
    by (cases "s \<in> set (sd_strings d)") (auto simp: sd_AutoInsert_def sd_norm_def sd_light_def)
qed

lemma sd_Initialize_ok:
  assumes d: "packedStrings d = []" "offsets d = []" and rep: "index_rep (\<lambda>s. sd_hash (Some s)) [] (sd_hashIndex d)"
    and grow: "can_grow_by 1 (sd_hashIndex d)"
  shows "\<exists>d'. sd_Initialize d = Some d' \<and> sd_inv d' \<and> sd_strings d' = [[]] \<and>
    (load_ok (sd_hashIndex d) \<longrightarrow> load_ok (sd_hashIndex d'))"
proof -
  have v: "sd_valid ([0], [0, 1])" by (simp add: sd_valid_def strings_at_def cstr_at_def)
  obtain T where T: "qh_insert (sd_functor ([0], [0, 1])) (Some []) 0 (sd_hashIndex d) = Some T"
    "index_rep (\<lambda>s. sd_hash (Some s)) [[]] T" "load_ok (sd_hashIndex d) \<longrightarrow> load_ok T"
    using sd.insert_key [OF v _ rep grow, of "Some []"] by (auto simp: sd_norm_def)
  define d' where "d' = d\<lparr>packedStrings := [0], offsets := [0, 1], sd_hashIndex := T\<rparr>"
  have "sd_packs [[]] d'" by (simp add: sd_packs_def d'_def)
  then have "sd_inv d' \<and> sd_strings d' = [[]]" by (rule sd_invI) (use T(2) in \<open>auto simp: d'_def\<close>)
  moreover have "sd_Initialize d = Some d'" using T(1) d by (simp add: sd_Initialize_def d'_def Let_def)
  ultimately show ?thesis using T(3) by (auto simp: d'_def)
qed

lemma can_grow_init [simp]:
  "can_grow_by (Suc 0) (quick_hash_init :: 32 word quick_hash)" "can_grow_by (Suc 0) (quick_hash_init :: 64 word quick_hash)"
  by (simp_all add: can_grow_by_def quick_hash_init_def create_data_def prime_grower_init_def
      qh_simps primes_def reserve_target_def)

lemma sd_init_ok: "\<exists>d. sd_init = Some d \<and> sd_inv d \<and> sd_strings d = [[]] \<and> load_ok (sd_hashIndex d)"
  using sd_Initialize_ok [of "\<lparr>packedStrings = [], offsets = [], sd_hashIndex = quick_hash_init\<rparr>"]
  by (simp add: sd_init_def index_rep_init)

lemma can_grow_clear: "can_grow_by (Suc 0) (T :: 32 word quick_hash) \<Longrightarrow> can_grow_by (Suc 0) (qh_clear T)"
  by (simp add: can_grow_by_def qh_clear_def create_data_def prime_grower_init_def statistics_t_init_def
      qh_simps primes_def reserve_target_def split: if_splits)

lemma sd_Clear_ok:
  assumes "sd_inv d" "can_grow_by 1 (sd_hashIndex d)"
  shows "\<exists>d'. sd_Clear d = Some d' \<and> sd_inv d' \<and> sd_strings d' = [[]] \<and>
    (load_ok (sd_hashIndex d) \<longrightarrow> load_ok (sd_hashIndex d'))"
  using sd_Initialize_ok [of "d\<lparr>packedStrings := [], offsets := [], sd_hashIndex := qh_clear (sd_hashIndex d)\<rparr>"]
    index_rep_clear [OF sd_inv_rep(5) [OF assms(1)]] assms(2) load_ok_clear [of "sd_hashIndex d"]
  by (auto simp: sd_Clear_def can_grow_clear)

lemma sd_GetLength_ok:
  assumes inv: "sd_inv d" and i: "unat i < length (sd_strings d)"
  shows "sd_GetLength d i = Some (of_nat (length (sd_strings d ! unat i)))"
proof -
  let ?strs = "sd_strings d"
  have pk: "offsets d = map of_nat (offsets_from 0 ?strs)" using sd_inv_rep(1) [OF inv] by (simp add: sd_packs_def)
  have "take (Suc (unat i)) ?strs = take (unat i) ?strs @ [?strs ! unat i]" using i by (rule take_Suc_conv_app_nth)
  then show ?thesis using i pk by (simp add: sd_GetLength_def nth_offsets_from)
qed

subsection \<open>Rebuilding the indexes\<close>

lemma butlast_offsets_from: "butlast (offsets_from n (s # strs)) = n # butlast (offsets_from (n + length s + 1) strs)"
  by simp

lemma rebuild_offsets_ok:
  assumes "drop (unat off) p = packed_of strs" "unat off \<le> length p" "length p < 2 ^ 32"
    "\<forall>s \<in> set strs. 0 \<notin> set s"
  shows "rebuild_offsets p (length strs) off = Inr (map of_nat (butlast (offsets_from (unat off) strs)))"
  using assms
proof (induction strs arbitrary: off)
  case (Cons s strs)
  let ?off = "off + of_nat (length s + 1)"
  have len: "unat off + length (packed_of (s # strs)) = length p" using arg_cong [OF Cons.prems(1), of length] Cons.prems(2) by simp
  have tw: "takeWhile (\<lambda>c. c \<noteq> 0) (drop (unat off) p) = s"
    using Cons.prems(1,4) by (simp add: takeWhile_append2 takeWhile_nonzero)
  have un: "unat ?off = unat off + length s + 1"
  proof -
    have "?off = of_nat (unat off + length s + 1)" by simp
    then show ?thesis using len Cons.prems(3) by (simp only: ) (rule unat_of_nat_small, simp)
  qed
  have "drop (unat ?off) p = drop (length s + 1) (drop (unat off) p)" by (simp only: un) (simp add: add.commute)
  then have "drop (unat ?off) p = packed_of strs" using Cons.prems(1) by simp
  then have "rebuild_offsets p (length strs) ?off = Inr (map of_nat (butlast (offsets_from (unat ?off) strs)))"
    using Cons.prems(3,4) un len by (intro Cons.IH) auto
  moreover have "\<not> length p < unat ?off" using un len by simp
  ultimately show ?case using tw un by (simp add: Let_def)
qed simp

lemma sd_RebuildIndexes_ok:
  assumes p: "packedStrings d = packed_of strs" and n: "length (offsets d) = length strs + 1"
    and z: "\<forall>s \<in> set strs. 0 \<notin> set s" and len: "length (packed_of strs) < 2 ^ 32"
    and s: "distinct strs" "strs \<noteq> []" "hd strs = []"
    and rep: "index_rep (\<lambda>s. sd_hash (Some s)) ks (sd_hashIndex d)"
    and grow: "can_grow_by (length strs) (qh_clear (sd_hashIndex d))"
  shows "\<exists>d'. sd_RebuildIndexes d = Inr d' \<and> sd_inv d' \<and> sd_strings d' = strs"
proof -
  let ?os = "map of_nat (butlast (offsets_from 0 strs)) :: index_t list"
  let ?s = "(packedStrings d, ?os @ [last (offsets d)])"
  let ?vs = "map (\<lambda>offset. Some (cstr_at (packedStrings d) (unat offset))) ?os"
  have os: "rebuild_offsets (packedStrings d) (length strs) 0 = Inr ?os"
    using rebuild_offsets_ok [of 0 "packedStrings d" strs] p z len by simp
  have full: "?os @ [of_nat (length (packedStrings d))] = map of_nat (offsets_from 0 strs)"
    using append_butlast_last_id [of "offsets_from 0 strs"] last_offsets_from [of 0 strs] p
    by (metis add_0 list.simps(8) list.simps(9) map_append offsets_from_nonempty)
  have st: "strings_at ?s = strs"
    using strings_at_packed [OF z len, of "[]"] p by (simp add: strings_at_def map_butlast)
  have vs: "map sd_norm ?vs = strings_at ?s" by (simp add: strings_at_def sd_norm_def o_def)
  have vl: "length ?vs = length strs" by simp
  have "\<exists>T. insert_range (sd_functor ?s) ?vs 0 (qh_clear (sd_hashIndex d)) = Some T \<and>
      index_rep (\<lambda>s. sd_hash (Some s)) (strings_at ?s) T"
  proof (rule sd.insert_all_keys [OF index_rep_clear [OF rep] vs])
    show "can_grow_by (length ?vs) (qh_clear (sd_hashIndex d))" using grow vl by simp
    show "length (strings_at ?s) < 2 ^ LENGTH(32)" using st length_strs_le_packed [of strs] len by simp
  qed
  then obtain T where T: "insert_range (sd_functor ?s) ?vs 0 (qh_clear (sd_hashIndex d)) = Some T"
      "index_rep (\<lambda>s. sd_hash (Some s)) strs T" using st by auto
  define d' where "d' = d\<lparr>offsets := ?os @ [of_nat (length (packedStrings d))], sd_hashIndex := T\<rparr>"
  have "sd_RebuildIndexes d = Inr d'"
    using os T(1) n by (auto simp: sd_RebuildIndexes_def d'_def Let_def)
  moreover have "sd_packs strs d'" using p full z len by (simp add: sd_packs_def d'_def)
  then have "sd_inv d' \<and> sd_strings d' = strs" by (rule sd_invI) (use s T(2) in \<open>auto simp: d'_def\<close>)
  ultimately show ?thesis by blast
qed

subsection \<open>Reordering\<close>

lemma sd_offset_nth:
  assumes inv: "sd_inv d" and i: "i \<le> length (sd_strings d)"
  shows "unat (offsets d ! i) = length (packed_of (take i (sd_strings d)))"
proof -
  have pk: "offsets d = map of_nat (offsets_from 0 (sd_strings d))" "length (packed_of (sd_strings d)) < 2 ^ 32"
    using sd_inv_rep(1) [OF inv] by (auto simp: sd_packs_def)
  have "length (packed_of (take i (sd_strings d))) < 2 ^ LENGTH(32)"
    using length_packed_take [of i "sd_strings d"] pk(2) by simp
  then show ?thesis using i pk(1) by (simp add: nth_offsets_from unat_of_nat_small)
qed

lemma sd_piece_ok:
  assumes inv: "sd_inv d" and i: "unat i < length (sd_strings d)"
  shows "sd_piece d i = Some (sd_strings d ! unat i @ [0])"
proof -
  let ?strs = "sd_strings d" and ?n = "unat i"
  have pk: "packedStrings d = packed_of ?strs" using sd_inv_rep(1) [OF inv] by (simp add: sd_packs_def)
  note o = sd_offset_nth [OF inv, of ?n] sd_offset_nth [OF inv, of "?n + 1"]
  have tk: "packed_of (take (?n + 1) ?strs) = packed_of (take ?n ?strs) @ ?strs ! ?n @ [0]"
    using i by (simp add: take_Suc_conv_app_nth)
  have "unat (offsets d ! (?n + 1) - offsets d ! ?n) = length (?strs ! ?n) + 1"
    using o i tk by (subst unat_sub) (simp_all add: word_le_nat_alt)
  then show ?thesis using i o sd_packs_length [OF sd_inv_rep(1) [OF inv]] pk packed_of_split [OF i]
    by (simp add: sd_piece_def Let_def)
qed

lemma sd_copy_pieces_ok:
  assumes inv: "sd_inv d"
  shows "\<forall>i \<in> set is. unat i < length (sd_strings d) \<Longrightarrow>
    sd_copy_pieces d is = Some (packed_of (map (\<lambda>i. sd_strings d ! unat i) is))"
  by (induction "is") (auto simp: sd_piece_ok [OF inv])

lemma length_packed_of: "length (packed_of strs) = (\<Sum>s\<in>#mset strs. length s + 1)"
  by (induction strs) auto

lemma sd_Reorder_ok:
  assumes inv: "sd_inv d" and len: "length is = length (sd_strings d)" and d: "distinct is"
    and rng: "\<forall>i \<in> set is. unat i < length (sd_strings d)" and hd: "hd is = 0"
    and grow: "can_grow_by (length is) (qh_clear (sd_hashIndex d))"
  shows "\<exists>d'. sd_Reorder is d = Inr d' \<and> sd_inv d' \<and> sd_strings d' = map (\<lambda>i. sd_strings d ! unat i) is"
proof -
  let ?strs = "sd_strings d" and ?new = "map (\<lambda>i. sd_strings d ! unat i) is"
  note R = sd_inv_rep [OF inv]
  have pk: "packedStrings d = packed_of ?strs" "\<forall>s \<in> set ?strs. 0 \<notin> set s" "length (packed_of ?strs) < 2 ^ 32"
    using R(1) by (auto simp: sd_packs_def)
  have sz: "unat (sd_size d) = length is"
    using len sd_packs_length [OF R(1)] sd_size_eq [OF inv] by (simp add: unat_of_nat_small)
  have dist: "distinct (map unat is)" using d by (auto simp: distinct_map inj_on_def unsigned_word_eqI)
  have "set (map unat is) = {0..<length ?strs}"
    using rng len distinct_card [OF dist] by (intro card_subset_eq) auto
  then have ms: "mset (map unat is) = mset [0..<length ?strs]"
    using dist by (metis distinct_upt set_eq_iff_mset_eq_distinct set_upt)
  have "mset ?new = image_mset ((!) ?strs) (mset (map unat is))" by (simp add: multiset.map_comp o_def)
  also have "\<dots> = mset (map ((!) ?strs) [0..<length ?strs])" unfolding ms by (rule mset_map [symmetric])
  also have "\<dots> = mset ?strs" by (simp only: map_nth)
  finally have msn: "mset ?new = mset ?strs" .
  have plen: "length (packed_of ?new) = length (packed_of ?strs)"
    unfolding length_packed_of msn ..
  define d0 where "d0 = d\<lparr>packedStrings := packed_of ?new\<rparr>"
  have "\<exists>d'. sd_RebuildIndexes d0 = Inr d' \<and> sd_inv d' \<and> sd_strings d' = ?new"
  proof (rule sd_RebuildIndexes_ok [where ks = ?strs])
    show "length (offsets d0) = length ?new + 1" using sd_packs_length [OF R(1)] len by (simp add: d0_def)
    show "\<forall>s \<in> set ?new. 0 \<notin> set s" using pk(2) msn by (metis mset_eq_setD)
    show "length (packed_of ?new) < 2 ^ 32" using plen pk(3) by simp
    show "distinct ?new" using msn R(2) by (metis mset_eq_imp_distinct_iff)
    show "?new \<noteq> []" using R(3) len by auto
    show "hd ?new = []" using R(3,4) len hd by (cases "is") (auto simp: hd_conv_nth)
    show "index_rep (\<lambda>s. sd_hash (Some s)) ?strs (sd_hashIndex d0)" using R(5) by (simp add: d0_def)
    show "can_grow_by (length ?new) (qh_clear (sd_hashIndex d0))" using grow by (simp add: d0_def)
  qed (simp add: d0_def)
  moreover have "sd_Reorder is d = sd_RebuildIndexes d0"
    using sz sd_copy_pieces_ok [OF inv rng] plen pk(1) by (simp add: sd_Reorder_def d0_def)
  ultimately show ?thesis by simp
qed

subsection \<open>Merging\<close>

fun add_new :: "'a list \<Rightarrow> 'a list \<Rightarrow> 'a list" where
  "add_new acc [] = acc"
| "add_new acc (s # ss) = add_new (if s \<in> set acc then acc else acc @ [s]) ss"

lemma set_add_new [simp]: "set (add_new acc ss) = set acc \<union> set ss"
  by (induction acc ss rule: add_new.induct) auto

lemma add_new_prefix: "\<exists>t. add_new acc ss = acc @ t"
  by (induction acc ss rule: add_new.induct) (auto split: if_splits)

lemma index_in_add_new: "k \<in> set acc \<Longrightarrow> index_in (add_new acc ss) k = index_in acc k"
  using add_new_prefix [of acc ss] by auto

lemma sd_room_light:
  "sd_inv d \<Longrightarrow> load_ok (sd_hashIndex d) \<Longrightarrow> length (sd_strings d) \<le> 119304646 \<Longrightarrow> 0 \<notin> set s \<Longrightarrow>
   length (packed_of (sd_strings d)) + length s + 10 < 2 ^ 32 \<Longrightarrow> sd_room s d"
  using sd.index_rep_can_grow [OF sd_inv_rep(5)] sd_inv_rep(1) [of d] by (auto simp: sd_room_def sd_packs_def)

lemma qm_insert_light:
  assumes inv: "qm_inv conv m" and load: "load_ok (qm_hash m)" and len: "length (qm_data m) \<le> 119304646"
    and new: "k \<notin> fst ` set (qm_data m)"
  shows "\<exists>m'. qm_insert conv k v m = Some m' \<and> qm_inv conv m' \<and> qm_data m' = qm_data m @ [(k, v)] \<and>
    load_ok (qm_hash m')"
  using qm_insert_ok [OF inv new qm_light_room [OF inv], of v] load len by (simp add: qm_light_def)

lemma sd_merge_loop_ok:
  assumes src: "sd_inv source"
  shows "sd_inv d \<Longrightarrow> load_ok (sd_hashIndex d) \<Longrightarrow> length (sd_strings d) + length is \<le> 119304646 \<Longrightarrow>
    length (packed_of (sd_strings d)) + length (packed_of (map (\<lambda>i. sd_strings source ! i) is)) + 10 < 2 ^ 32 \<Longrightarrow>
    qm_inv index_conv r \<Longrightarrow> load_ok (qm_hash r) \<Longrightarrow> length (qm_data r) + length is \<le> 119304647 \<Longrightarrow>
    distinct is \<Longrightarrow> \<forall>i \<in> set is. i < length (sd_strings source) \<and> of_nat i \<notin> fst ` set (qm_data r) \<Longrightarrow>
    \<exists>d' r'. sd_merge_loop source is d r = Inr (d', r') \<and> sd_inv d' \<and> load_ok (sd_hashIndex d') \<and>
      sd_strings d' = add_new (sd_strings d) (map (\<lambda>i. sd_strings source ! i) is) \<and>
      qm_inv index_conv r' \<and> load_ok (qm_hash r') \<and>
      qm_data r' = qm_data r @ map (\<lambda>i. (of_nat i, index_in (sd_strings d') (sd_strings source ! i))) is"
proof (induction "is" arbitrary: d r)
  case (Cons i "is")
  let ?s = "sd_strings source ! i"
  have n: "length (sd_strings source) < 2 ^ LENGTH(32)" using sd_packs_length [OF sd_inv_rep(1) [OF src]] by simp
  have i: "i < length (sd_strings source)" using Cons.prems(9) by simp
  have un: "unat (of_nat j :: index_t) = j" if "j < length (sd_strings source)" for j
    using that n by (intro unat_of_nat_small) simp
  have at: "sd_at source (of_nat i) = Some ?s" using i un by (simp add: sd_at_eq [OF src])
  have "0 \<notin> set ?s" using sd_inv_rep(1) [OF src] i by (simp add: sd_packs_def)
  then have room: "sd_room ?s d" using Cons.prems(1-4) by (intro sd_room_light) auto
  obtain d1 where d1: "sd_AutoInsert ?s d = Inr (index_in (sd_strings d1) ?s, d1)" "sd_inv d1"
      "sd_strings d1 = (if ?s \<in> set (sd_strings d) then sd_strings d else sd_strings d @ [?s])"
      "load_ok (sd_hashIndex d1)"
    using sd_AutoInsert_ok [OF Cons.prems(1) room] Cons.prems(2,3) by (auto simp: sd_light_def)
  obtain r1 where r1: "qm_insert index_conv (of_nat i) (index_in (sd_strings d1) ?s) r = Some r1" "qm_inv index_conv r1"
      "qm_data r1 = qm_data r @ [(of_nat i, index_in (sd_strings d1) ?s)]" "load_ok (qm_hash r1)"
    using qm_insert_light [OF Cons.prems(5,6), of "of_nat i" "index_in (sd_strings d1) ?s"] Cons.prems(7,9) by auto
  have fresh: "\<forall>j \<in> set is. j < length (sd_strings source) \<and> of_nat j \<notin> fst ` set (qm_data r1)"
  proof
    fix j assume j: "j \<in> set is"
    then have "j \<noteq> i" "j < length (sd_strings source)" using Cons.prems(8,9) by auto
    then have "(of_nat j :: index_t) \<noteq> of_nat i" using un i by metis
    then show "j < length (sd_strings source) \<and> of_nat j \<notin> fst ` set (qm_data r1)"
      using j Cons.prems(9) r1(3) by auto
  qed
  have "length (sd_strings d1) \<le> length (sd_strings d) + 1"
    "length (packed_of (sd_strings d1)) \<le> length (packed_of (sd_strings d)) + length ?s + 1"
    using d1(3) by auto
  then obtain d' r' where IH: "sd_merge_loop source is d1 r1 = Inr (d', r')" "sd_inv d'" "load_ok (sd_hashIndex d')"
      "sd_strings d' = add_new (sd_strings d1) (map (\<lambda>i. sd_strings source ! i) is)"
      "qm_inv index_conv r'" "load_ok (qm_hash r')"
      "qm_data r' = qm_data r1 @ map (\<lambda>i. (of_nat i, index_in (sd_strings d') (sd_strings source ! i))) is"
    using Cons.IH [OF d1(2,4) _ _ r1(2,4) _ _ fresh] Cons.prems(3,4,7,8) r1(3) by auto
  have "?s \<in> set (sd_strings d1)" using d1(3) by auto
  then have "index_in (sd_strings d') ?s = (index_in (sd_strings d1) ?s :: index_t)"
    unfolding IH(4) by (rule index_in_add_new)
  then have "qm_data r' = qm_data r @ map (\<lambda>i. (of_nat i, index_in (sd_strings d') (sd_strings source ! i))) (i # is)"
    using IH(7) r1(3) by simp
  moreover have "sd_strings d' = add_new (sd_strings d) (map (\<lambda>i. sd_strings source ! i) (i # is))"
    using IH(4) d1(3) by simp
  moreover have "sd_merge_loop source (i # is) d r = Inr (d', r')"
    using at d1(1) r1(1) IH(1) by simp
  ultimately show ?case using IH(2,3,5,6) by blast
qed simp

lemma qm_insert_init:
  "\<exists>r. qm_insert index_conv NO_INDEX v qm_init = Some r \<and> qm_inv index_conv r \<and> qm_data r = [(NO_INDEX, v)] \<and>
     load_ok (qm_hash r)"
  using qm_insert_light [OF qm_inv_init, where k = NO_INDEX and v = v] by (simp add: qm_init_def)

lemma sd_Merge_ok:
  assumes src: "sd_inv source" and inv: "sd_inv d" and load: "load_ok (sd_hashIndex d)"
    and n: "length (sd_strings d) + length (sd_strings source) \<le> 119304646"
    and c: "length (packedStrings d) + length (packedStrings source) + 10 < 2 ^ 32"
  shows "\<exists>d' r. sd_Merge source d = Inr (d', r) \<and> sd_inv d' \<and> load_ok (sd_hashIndex d') \<and>
    sd_strings d' = add_new (sd_strings d) (sd_strings source) \<and> qm_inv index_conv r \<and>
    qm_data r = (NO_INDEX, NO_INDEX) #
      map (\<lambda>i. (of_nat i, index_in (sd_strings d') (sd_strings source ! i))) [0..<length (sd_strings source)]"
proof -
  let ?n = "length (sd_strings source)"
  obtain r0 where r0: "qm_insert index_conv NO_INDEX (NO_INDEX :: index_t) qm_init = Some r0" "qm_inv index_conv r0"
      "qm_data r0 = [(NO_INDEX, NO_INDEX)]" "load_ok (qm_hash r0)" using qm_insert_init [of NO_INDEX] by blast
  have pk: "packedStrings d = packed_of (sd_strings d)" "packedStrings source = packed_of (sd_strings source)"
    using sd_inv_rep(1) [OF inv] sd_inv_rep(1) [OF src] by (auto simp: sd_packs_def)
  have sz: "unat (sd_size source) = ?n"
    using sd_packs_length [OF sd_inv_rep(1) [OF src]] by (simp add: sd_size_eq [OF src] unat_of_nat_small)
  have "(of_nat i :: index_t) \<noteq> NO_INDEX" if "i < ?n" for i
    using that n by (intro of_nat_neq_NO_INDEX) simp
  then have fresh: "\<forall>i \<in> set [0..<?n]. i < ?n \<and> (of_nat i :: index_t) \<notin> fst ` set (qm_data r0)"
    by (simp add: r0(3))
  have b: "length (sd_strings d) + length [0..<?n] \<le> 119304646" "length (qm_data r0) + length [0..<?n] \<le> 119304647"
    using n r0(3) by simp_all
  have c': "length (packed_of (sd_strings d)) + length (packed_of (map (\<lambda>i. sd_strings source ! i) [0..<?n])) + 10 < 2 ^ 32"
    unfolding map_nth using c pk by simp
  note ok = sd_merge_loop_ok [OF src inv load b(1) c' r0(2,4) b(2) distinct_upt fresh]
  obtain d' r where M: "sd_merge_loop source [0..<?n] d r0 = Inr (d', r)" "sd_inv d'" "load_ok (sd_hashIndex d')"
      "sd_strings d' = add_new (sd_strings d) (map (\<lambda>i. sd_strings source ! i) [0..<?n])" "qm_inv index_conv r"
      "qm_data r = qm_data r0 @ map (\<lambda>i. (of_nat i, index_in (sd_strings d') (sd_strings source ! i))) [0..<?n]"
    using ok by blast
  have "sd_Merge source d = Inr (d', r)" using M(1) by (simp add: sd_Merge_def r0(1) sz)
  moreover note M(2,3)
  moreover have "sd_strings d' = add_new (sd_strings d) (sd_strings source)" using M(4) unfolding map_nth .
  moreover note M(5)
  moreover have "qm_data r = (NO_INDEX, NO_INDEX) #
      map (\<lambda>i. (of_nat i, index_in (sd_strings d') (sd_strings source ! i))) [0..<?n]" using M(6) unfolding r0(3) by simp
  ultimately show ?thesis by blast
qed

lemma sd_Merge_lookup:
  assumes "sd_inv source" "sd_inv d" "load_ok (sd_hashIndex d)"
    "length (sd_strings d) + length (sd_strings source) \<le> 119304646"
    "length (packedStrings d) + length (packedStrings source) + 10 < 2 ^ 32"
  shows "\<exists>d' r. sd_Merge source d = Inr (d', r) \<and> sd_inv d' \<and>
    sd_strings d' = add_new (sd_strings d) (sd_strings source) \<and>
    qm_lookup index_conv r NO_INDEX = Some NO_INDEX \<and>
    (\<forall>i < length (sd_strings source).
       \<exists>j. qm_lookup index_conv r (of_nat i) = Some j \<and> sd_at d' j = Some (sd_strings source ! i))"
proof -
  obtain d' r where M: "sd_Merge source d = Inr (d', r)" "sd_inv d'"
      "sd_strings d' = add_new (sd_strings d) (sd_strings source)" "qm_inv index_conv r"
      "qm_data r = (NO_INDEX, NO_INDEX) #
        map (\<lambda>i. (of_nat i, index_in (sd_strings d') (sd_strings source ! i))) [0..<length (sd_strings source)]"
    using sd_Merge_ok [OF assms] by blast
  have "\<exists>j. qm_lookup index_conv r (of_nat i) = Some j \<and> sd_at d' j = Some (sd_strings source ! i)"
    if i: "i < length (sd_strings source)" for i
  proof (intro exI conjI)
    have "(of_nat i :: index_t, index_in (sd_strings d') (sd_strings source ! i)) \<in> set (qm_data r)"
      using i unfolding M(5) by auto
    then show "qm_lookup index_conv r (of_nat i) = Some (index_in (sd_strings d') (sd_strings source ! i))"
      using M(4) by (auto simp: qm_lookup_map_of [OF M(4)] qm_inv_def)
    obtain n where n: "n < length (sd_strings d')" "sd_strings d' ! n = sd_strings source ! i"
      using i M(3) by (metis Un_iff in_set_conv_nth nth_mem set_add_new)
    have "unat (of_nat n :: index_t) = n"
      using n(1) sd_packs_length [OF sd_inv_rep(1) [OF M(2)]] by (intro unat_of_nat_small) simp
    moreover have "index_in (sd_strings d') (sd_strings d' ! n) = (of_nat n :: index_t)"
      by (rule index_in_nth [OF sd_inv_rep(2) [OF M(2)] n(1)])
    ultimately show "sd_at d' (index_in (sd_strings d') (sd_strings source ! i)) = Some (sd_strings source ! i)"
      using n by (simp add: sd_at_eq [OF M(2)])
  qed
  then show ?thesis using M(1-3) qm_lookup_map_of [OF M(4), of NO_INDEX] M(5) by auto
qed

subsection \<open>The strings as an index pool\<close>

text \<open>\<open>sd_auto_insert\<close> drops the error value, so that the contract can be stated for it.\<close>

definition sd_auto_insert :: "byte list \<Rightarrow> string_dictionary \<Rightarrow> (index_t \<times> string_dictionary) option" where
  "sd_auto_insert s d = (case sd_AutoInsert s d of Inl _ \<Rightarrow> None | Inr r \<Rightarrow> Some r)"

interpretation string_pool: index_pool sd_inv sd_strings "\<lambda>s. sd_Find (Some s)" sd_auto_insert sd_at sd_room
proof
  fix s :: string_dictionary and k and i :: index_t
  assume s: "sd_inv s"
  show "distinct (sd_strings s)" by (rule sd_inv_rep(2) [OF s])
  show "length (sd_strings s) < 2 ^ LENGTH(32)" using sd_packs_length [OF sd_inv_rep(1) [OF s]] by simp
  show "sd_Find (Some k) s = Some (index_in (sd_strings s) k)" by (simp add: sd_Find_eq [OF s] sd_norm_def)
  show "sd_at s i = (if unat i < length (sd_strings s) then Some (sd_strings s ! unat i) else None)"
    by (rule sd_at_eq [OF s])
  assume "sd_room k s"
  then show "\<exists>s'. sd_auto_insert k s = Some (index_in (sd_strings s') k, s') \<and> sd_inv s' \<and>
      sd_strings s' = (if k \<in> set (sd_strings s) then sd_strings s else sd_strings s @ [k])"
    using sd_AutoInsert_ok [OF s, of k] by (auto simp: sd_auto_insert_def)
qed

subsection \<open>Properties\<close>

fun sd_auto_inserts :: "byte list list \<Rightarrow> string_dictionary \<Rightarrow> container_error + string_dictionary" where
  "sd_auto_inserts [] d = Inr d"
| "sd_auto_inserts (s # ss) d = bindE (sd_AutoInsert s d) (\<lambda>(_, d'). sd_auto_inserts ss d')"

lemma sd_auto_inserts_ok:
  "sd_inv d \<Longrightarrow> load_ok (sd_hashIndex d) \<Longrightarrow> length (sd_strings d) + length ss \<le> 119304646 \<Longrightarrow>
   length (packed_of (sd_strings d)) + length (packed_of ss) + 10 < 2 ^ 32 \<Longrightarrow> \<forall>s \<in> set ss. 0 \<notin> set s \<Longrightarrow>
   \<exists>d'. sd_auto_inserts ss d = Inr d' \<and> sd_inv d' \<and> load_ok (sd_hashIndex d') \<and>
     sd_strings d' = add_new (sd_strings d) ss"
proof (induction ss arbitrary: d)
  case (Cons s ss)
  have room: "sd_room s d" using Cons.prems by (intro sd_room_light) auto
  obtain d1 where d1: "sd_AutoInsert s d = Inr (index_in (sd_strings d1) s, d1)" "sd_inv d1"
      "sd_strings d1 = (if s \<in> set (sd_strings d) then sd_strings d else sd_strings d @ [s])"
      "load_ok (sd_hashIndex d1)"
    using sd_AutoInsert_ok [OF Cons.prems(1) room] Cons.prems(2,3) by (auto simp: sd_light_def)
  have "length (sd_strings d1) \<le> length (sd_strings d) + 1"
    "length (packed_of (sd_strings d1)) \<le> length (packed_of (sd_strings d)) + length s + 1" using d1(3) by auto
  then show ?case using Cons.IH [OF d1(2,4)] Cons.prems(3-5) d1(1,3) by auto
qed simp

text \<open>
  C1.  Starting from a new dictionary, any sequence of automatic insertions that stays below the
  32 bit limit succeeds: the dictionary holds the empty string and the given strings, each once and in the
  order of their first insertion; each is found at an index that reads it back and has its length.
\<close>

theorem string_dictionary_auto_inserts:
  assumes "length ss \<le> 119304645" "length (packed_of ss) + 11 < 2 ^ 32" "\<forall>s \<in> set ss. 0 \<notin> set s"
  shows "\<exists>d0 d. sd_init = Some d0 \<and> sd_auto_inserts ss d0 = Inr d \<and> sd_inv d \<and> sd_strings d = add_new [[]] ss \<and>
    (\<forall>s \<in> set ss. \<exists>i. sd_Find (Some s) d = Some i \<and> sd_at d i = Some s \<and> sd_GetLength d i = Some (of_nat (length s)))"
proof -
  obtain d0 where d0: "sd_init = Some d0" "sd_inv d0" "sd_strings d0 = [[]]" "load_ok (sd_hashIndex d0)"
    using sd_init_ok by blast
  obtain d where d: "sd_auto_inserts ss d0 = Inr d" "sd_inv d" "sd_strings d = add_new [[]] ss"
    using sd_auto_inserts_ok [OF d0(2,4), of ss] assms d0(3) by auto
  have "\<exists>i. sd_Find (Some s) d = Some i \<and> sd_at d i = Some s \<and> sd_GetLength d i = Some (of_nat (length s))"
    if "s \<in> set ss" for s
  proof -
    have s: "s \<in> set (sd_strings d)" using that d(3) by simp
    obtain i where i: "sd_Find (Some s) d = Some i" "sd_at d i = Some s"
      using string_pool.index_position [OF d(2) s] string_pool.pool_lookup [OF d(2), of s]
      by (auto simp: sd_at_eq [OF d(2)])
    then have "unat i < length (sd_strings d)" "sd_strings d ! unat i = s"
      by (auto simp: sd_at_eq [OF d(2)] split: if_splits)
    then show ?thesis using i sd_GetLength_ok [OF d(2), of i] by auto
  qed
  then show ?thesis using d0(1) d by blast
qed

theorem string_dictionary_auto_inserts_witness:
  "\<exists>d0 d. sd_init = Some d0 \<and> sd_auto_inserts [[97], [98, 99], [97]] d0 = Inr d \<and> sd_strings d = [[], [97], [98, 99]]"
  using string_dictionary_auto_inserts [of "[[97], [98, 99], [97]]"] by auto

text \<open>
  C2.  Merging one dictionary into another adds exactly the missing strings, behind the old ones,
  and the mapping it returns takes every index of the source to an index at which the target holds
  the same string, and \<open>NO_INDEX\<close> to itself.
\<close>

theorem string_dictionary_merge:
  assumes "sd_inv source" "sd_inv d" "load_ok (sd_hashIndex d)"
    "length (sd_strings d) + length (sd_strings source) \<le> 119304646"
    "length (packedStrings d) + length (packedStrings source) + 10 < 2 ^ 32"
  shows "\<exists>d' r. sd_Merge source d = Inr (d', r) \<and> sd_inv d' \<and>
    sd_strings d' = add_new (sd_strings d) (sd_strings source) \<and>
    qm_lookup index_conv r NO_INDEX = Some NO_INDEX \<and>
    (\<forall>i < length (sd_strings source).
       \<exists>j. qm_lookup index_conv r (of_nat i) = Some j \<and> sd_at d' j = Some (sd_strings source ! i))"
  using sd_Merge_lookup [OF assms] .

theorem string_dictionary_merge_witness:
  "\<exists>d d' r. sd_init = Some d \<and> sd_Merge d d = Inr (d', r) \<and> sd_strings d' = [[]]"
proof -
  obtain d where d: "sd_init = Some d" "sd_inv d" "sd_strings d = [[]]" "load_ok (sd_hashIndex d)"
    using sd_init_ok by blast
  moreover have "length (packedStrings d) = 1" using sd_inv_rep(1) [OF d(2)] d(3) by (simp add: sd_packs_def)
  ultimately show ?thesis using string_dictionary_merge [OF d(2,2,4)] by auto
qed

text \<open>
  C3.  \<open>Reorder\<close> with a permutation of the indexes that keeps the empty string first succeeds
  and yields a well-formed dictionary that holds, at each new index, the string of the source index.
\<close>

theorem string_dictionary_reorder:
  assumes "sd_inv d" "length is = length (sd_strings d)" "distinct is"
    "\<forall>i \<in> set is. unat i < length (sd_strings d)" "hd is = 0" "can_grow_by (length is) (qh_clear (sd_hashIndex d))"
  shows "\<exists>d'. sd_Reorder is d = Inr d' \<and> sd_inv d' \<and> sd_strings d' = map (\<lambda>i. sd_strings d ! unat i) is"
  by (rule sd_Reorder_ok [OF assms])

theorem string_dictionary_reorder_witness:
  "\<exists>d d'. sd_strings d = [[], [97], [98, 99]] \<and> sd_Reorder [0, 2, 1] d = Inr d' \<and> sd_strings d' = [[], [98, 99], [97]]"
proof -
  obtain d0 where d0: "sd_inv d0" "sd_strings d0 = [[]]" "load_ok (sd_hashIndex d0)" using sd_init_ok by blast
  obtain d where d: "sd_inv d" "sd_strings d = [[], [97], [98, 99]]" "load_ok (sd_hashIndex d)"
    using sd_auto_inserts_ok [OF d0(1,3), of "[[97], [98, 99]]"] d0(2) by auto
  show ?thesis using string_dictionary_reorder [OF d(1), of "[0, 2, 1]"] d(2) can_grow_clear_load [OF d(3), of 3] by (auto simp: numeral_3_eq_3)
qed

end
