(* ===== verification/PathDictionary.thy ===== *)
theory PathDictionary
  imports IndexPairDictionary StringDictionary "HOL-Library.Sublist"
begin

section \<open>CPathDictionary and CDictionaryBasedPath (src/LogCache/Containers/PathDictionary)\<close>

text \<open>
  Repository paths as a tree: a path is a pair (parent path, path element), both by index, and
  index 0 is the root.  A path object is an index into such a dictionary.  The dictionary is built
  on the string pool and the pair pool and is an index pool itself, of (parent, element) pairs.
  The lemmas read an index as the list of its elements from the root (\<open>path_at\<close>) and show that
  parsing, printing and the tree queries are the operations on these lists.
\<close>

record path_dictionary =
  pathElements :: string_dictionary
  paths :: index_pair_dictionary

definition pd_Initialize :: "path_dictionary \<Rightarrow> container_error + path_dictionary" where
  "pd_Initialize d = bindE (of_opt (ipd_Insert (NO_INDEX, 0) (paths d))) (\<lambda>(_, p). Inr (d\<lparr>paths := p\<rparr>))"

definition pd_init :: "container_error + path_dictionary" where
  "pd_init = bindE (of_opt sd_init) (\<lambda>e. pd_Initialize \<lparr>pathElements = e, paths = ipd_init\<rparr>)"

definition pd_Validate :: "path_dictionary \<Rightarrow> container_error + unit" where
  "pd_Validate d =
     (let maxElement = sd_size (pathElements d); n = ipd_size (paths d)
      in if \<exists>entry \<in> set (take (unat n) (ipd_data (paths d))).
              (fst entry \<ge> n \<and> fst entry \<noteq> NO_INDEX) \<or> (snd entry \<ge> maxElement \<and> snd entry \<noteq> NO_INDEX)
         then Inl (CContainerException ''path dictionary is corrupt'') else Inr ())"

definition pd_size :: "path_dictionary \<Rightarrow> index_t" where
  "pd_size d = ipd_size (paths d)"

definition pd_GetParent :: "path_dictionary \<Rightarrow> index_t \<Rightarrow> index_t option" where
  "pd_GetParent d index = map_option fst (ipd_at (paths d) index)"

definition pd_GetPathElement :: "path_dictionary \<Rightarrow> index_t \<Rightarrow> byte list option" where
  "pd_GetPathElement d index = do { entry \<leftarrow> ipd_at (paths d) index; sd_at (pathElements d) (snd entry) }"

definition pd_GetPathElementSize :: "path_dictionary \<Rightarrow> index_t \<Rightarrow> index_t option" where
  "pd_GetPathElementSize d index = do { entry \<leftarrow> ipd_at (paths d) index; sd_GetLength (pathElements d) (snd entry) }"

definition pd_GetPathElementID :: "path_dictionary \<Rightarrow> index_t \<Rightarrow> index_t option" where
  "pd_GetPathElementID d index = map_option snd (ipd_at (paths d) index)"

definition pd_Find :: "index_t \<Rightarrow> byte list \<Rightarrow> path_dictionary \<Rightarrow> index_t option" where
  "pd_Find parent pathElement d = do {
     pathElementIndex \<leftarrow> sd_Find (Some pathElement) (pathElements d);
     if pathElementIndex = NO_INDEX then Some NO_INDEX else ipd_Find (parent, pathElementIndex) (paths d)
   }"

definition pd_Insert ::
    "index_t \<Rightarrow> byte list \<Rightarrow> path_dictionary \<Rightarrow> container_error + index_t \<times> path_dictionary" where
  "pd_Insert parent pathElement d =
     bindE (sd_AutoInsert pathElement (pathElements d)) (\<lambda>(pathElementIndex, e).
     bindE (of_opt (ipd_Insert (parent, pathElementIndex) (paths d))) (\<lambda>(result, p).
       Inr (result, d\<lparr>pathElements := e, paths := p\<rparr>)))"

definition pd_AutoInsert ::
    "index_t \<Rightarrow> byte list \<Rightarrow> path_dictionary \<Rightarrow> container_error + index_t \<times> path_dictionary" where
  "pd_AutoInsert parent pathElement d =
     bindE (sd_AutoInsert pathElement (pathElements d)) (\<lambda>(pathElementIndex, e).
     bindE (of_opt (ipd_AutoInsert (parent, pathElementIndex) (paths d))) (\<lambda>(result, p).
       Inr (result, d\<lparr>pathElements := e, paths := p\<rparr>)))"

definition pd_CanInsertThreadSafely ::
    "nat \<Rightarrow> nat \<Rightarrow> nat \<Rightarrow> index_t \<Rightarrow> nat \<Rightarrow> path_dictionary \<Rightarrow> bool" where
  "pd_CanInsertThreadSafely paths_capacity packed_capacity offsets_capacity n chars d \<longleftrightarrow>
     ipd_CanInsertThreadSafely paths_capacity n (paths d) \<and>
     sd_CanInsertThreadSafely packed_capacity offsets_capacity n chars (pathElements d)"

definition pd_Clear :: "path_dictionary \<Rightarrow> container_error + path_dictionary" where
  "pd_Clear d = bindE (of_opt (sd_Clear (pathElements d))) (\<lambda>e.
     pd_Initialize \<lparr>pathElements = e, paths = ipd_Clear (paths d)\<rparr>)"

text \<open>\<open>*m.find (k)\<close>: dereferencing \<open>end()\<close> is undefined.\<close>

fun pd_merge_loop ::
    "path_dictionary \<Rightarrow> index_mapping_t \<Rightarrow> nat list \<Rightarrow> index_pair_dictionary \<Rightarrow> index_mapping_t \<Rightarrow>
     (index_pair_dictionary \<times> index_mapping_t) option" where
  "pd_merge_loop source elementMapping [] p result = Some (p, result)"
| "pd_merge_loop source elementMapping (i # is) p result = do {
     sourcePath \<leftarrow> ipd_at (paths source) (of_nat i);
     parent \<leftarrow> qm_lookup index_conv result (fst sourcePath);
     element \<leftarrow> qm_lookup index_conv elementMapping (snd sourcePath);
     (index, p') \<leftarrow> ipd_AutoInsert (parent, element) p;
     result' \<leftarrow> qm_insert index_conv (of_nat i) index result;
     pd_merge_loop source elementMapping is p' result'
   }"

definition pd_Merge ::
    "path_dictionary \<Rightarrow> path_dictionary \<Rightarrow> container_error + path_dictionary \<times> index_mapping_t" where
  "pd_Merge source d =
     bindE (of_opt (do { result \<leftarrow> qm_insert index_conv 0 0 qm_init;
                         qm_insert index_conv NO_INDEX NO_INDEX result })) (\<lambda>result.
     bindE (sd_Merge (pathElements source) (pathElements d)) (\<lambda>(e, elementMapping).
     bindE (of_opt (pd_merge_loop source elementMapping [1..<unat (pd_size source)] (paths d) result)) (\<lambda>(p, result').
       Inr (d\<lparr>pathElements := e, paths := p\<rparr>, result'))))"

subsection \<open>Paths as text\<close>

definition slash :: byte where "slash = 47"

text \<open>
  The text of a path object is cut at the slashes; a leading slash belongs to no element, and an
  element passed as a C string ends at its first zero character.  The text that follows the last
  slash is always an element, so that a trailing slash yields an empty one.
\<close>

lemma length_dropWhile_less: "xs \<noteq> [] \<Longrightarrow> length (dropWhile P xs) - Suc 0 < length xs"
  using length_dropWhile_le [of P xs] by (cases xs) (auto simp del: dropWhile.simps)

function split_elements :: "byte list \<Rightarrow> byte list list" where
  "split_elements text =
     (let element = takeWhile (\<lambda>c. c \<noteq> slash) text; rest = dropWhile (\<lambda>c. c \<noteq> slash) text
      in takeWhile (\<lambda>c. c \<noteq> 0) element # (if rest = [] then [] else split_elements (tl rest)))"
  by pat_completeness auto
termination
  by (relation "measure length") (auto intro!: length_dropWhile_less)

declare split_elements.simps [simp del]

definition path_elements :: "byte list \<Rightarrow> byte list list" where
  "path_elements path =
     (if path = [] then [] else split_elements (if hd path = slash then tl path else path))"

text \<open>
  The loop of \<open>ParsePath\<close>, over the elements that are still to come.  \<open>currentIndex\<close> is the node reached
  so far, \<open>NO_INDEX\<close> once an element was not found; \<open>index\<close> the result.  Without a writable
  dictionary the unknown elements go to \<open>relPath\<close>, or the loop stops at the first one.
\<close>

fun parse_lookup ::
    "path_dictionary \<Rightarrow> bool \<Rightarrow> byte list list \<Rightarrow> index_t \<Rightarrow> index_t \<Rightarrow> byte list list \<Rightarrow>
     (index_t \<times> byte list list) option" where
  "parse_lookup d collect [] currentIndex index relPath = Some (index, relPath)"
| "parse_lookup d collect (e # es) currentIndex index relPath = do {
     nextIndex \<leftarrow> pd_Find currentIndex e d;
     if nextIndex = NO_INDEX
     then (if collect then parse_lookup d collect es nextIndex index (relPath @ [e]) else Some (index, relPath))
     else parse_lookup d collect es nextIndex nextIndex relPath
   }"

fun parse_insert ::
    "byte list list \<Rightarrow> index_t \<Rightarrow> path_dictionary \<Rightarrow> container_error + index_t \<times> path_dictionary" where
  "parse_insert [] index d = Inr (index, d)"
| "parse_insert (e # es) index d =
     bindE (of_opt (pd_Find index e d)) (\<lambda>nextIndex.
       if nextIndex = NO_INDEX
       then bindE (pd_Insert index e d) (\<lambda>(nextIndex, d'). parse_insert es nextIndex d')
       else parse_insert es nextIndex d)"

text \<open>The three uses of \<open>ParsePath\<close>: lookup, lookup of a relative path, and insertion.\<close>

definition dbp_lookup :: "path_dictionary \<Rightarrow> byte list \<Rightarrow> index_t option" where
  "dbp_lookup d path = map_option fst (parse_lookup d False (path_elements path) 0 0 [])"

definition dbp_insert :: "byte list \<Rightarrow> path_dictionary \<Rightarrow> container_error + index_t \<times> path_dictionary" where
  "dbp_insert path d = parse_insert (path_elements path) 0 d"

fun count_missing :: "path_dictionary \<Rightarrow> byte list list \<Rightarrow> index_t \<Rightarrow> nat option" where
  "count_missing d [] currentIndex = Some 0"
| "count_missing d (e # es) currentIndex = do {
     currentIndex \<leftarrow> (if currentIndex \<noteq> NO_INDEX then pd_Find currentIndex e d else Some NO_INDEX);
     toAdd \<leftarrow> count_missing d es currentIndex;
     Some (if currentIndex = NO_INDEX then Suc toAdd else toAdd)
   }"

definition dbp_CanParsePathThreadSafely ::
    "nat \<Rightarrow> nat \<Rightarrow> nat \<Rightarrow> path_dictionary \<Rightarrow> byte list \<Rightarrow> bool option" where
  "dbp_CanParsePathThreadSafely paths_capacity packed_capacity offsets_capacity d path =
     (if path = [] then Some True else do {
        toAdd \<leftarrow> count_missing d (path_elements path) 0;
        Some (toAdd = 0 \<or> pd_CanInsertThreadSafely paths_capacity packed_capacity offsets_capacity
                            (of_nat toAdd) (length path) d)
      })"

subsection \<open>Tree queries\<close>

text \<open>
  The walks to the root may not end on a dictionary whose parents form a cycle; they are partial
  functions, and \<open>None\<close> also stands for an index out of range.
\<close>

partial_function (option) depth_loop :: "path_dictionary \<Rightarrow> index_t \<Rightarrow> index_t option" where
  "depth_loop d i = (if i = 0 then Some 0 else do { p \<leftarrow> pd_GetParent d i; n \<leftarrow> depth_loop d p; Some (n + 1) })"

definition dbp_GetDepth :: "path_dictionary \<Rightarrow> index_t \<Rightarrow> index_t option" where
  "dbp_GetDepth d index = (if index \<noteq> NO_INDEX then depth_loop d index else Some NO_INDEX)"

fun parent_steps :: "path_dictionary \<Rightarrow> nat \<Rightarrow> index_t \<Rightarrow> index_t option" where
  "parent_steps d 0 i = Some i"
| "parent_steps d (Suc n) i = do { p \<leftarrow> pd_GetParent d i; parent_steps d n p }"

definition dbp_ReverseAt :: "path_dictionary \<Rightarrow> index_t \<Rightarrow> nat \<Rightarrow> byte list option" where
  "dbp_ReverseAt d index reverseIndex = do {
     elementIndex \<leftarrow> parent_steps d reverseIndex index;
     pd_GetPathElement d elementIndex
   }"

definition dbp_at :: "path_dictionary \<Rightarrow> index_t \<Rightarrow> nat \<Rightarrow> byte list option" where
  "dbp_at d index ind = do {
     depth \<leftarrow> dbp_GetDepth d index;
     if ind < unat depth then dbp_ReverseAt d index (unat depth - ind - 1) else None
   }"

partial_function (option) ancestor_loop :: "path_dictionary \<Rightarrow> index_t \<Rightarrow> index_t \<Rightarrow> bool option" where
  "ancestor_loop d lhsIndex rhsIndex =
     (if rhsIndex \<ge> lhsIndex
      then if lhsIndex = rhsIndex then Some True
           else do { p \<leftarrow> pd_GetParent d rhsIndex; ancestor_loop d lhsIndex p }
      else Some False)"

definition dbp_IsSameOrParentOf :: "path_dictionary \<Rightarrow> index_t \<Rightarrow> index_t \<Rightarrow> bool option" where
  "dbp_IsSameOrParentOf d lhsIndex rhsIndex =
     (if lhsIndex = 0 then Some True else ancestor_loop d lhsIndex rhsIndex)"

definition dbp_Intersects :: "path_dictionary \<Rightarrow> index_t \<Rightarrow> index_t \<Rightarrow> bool option" where
  "dbp_Intersects d lhsIndex rhsIndex =
     (if lhsIndex < rhsIndex then dbp_IsSameOrParentOf d lhsIndex rhsIndex
      else dbp_IsSameOrParentOf d rhsIndex lhsIndex)"

partial_function (option) dbp_GetCommonRoot :: "path_dictionary \<Rightarrow> index_t \<Rightarrow> index_t \<Rightarrow> index_t option" where
  "dbp_GetCommonRoot d lhsIndex rhsIndex =
     (if lhsIndex = rhsIndex then Some lhsIndex
      else if lhsIndex < rhsIndex
           then do { p \<leftarrow> pd_GetParent d rhsIndex; dbp_GetCommonRoot d lhsIndex p }
           else do { p \<leftarrow> pd_GetParent d lhsIndex; dbp_GetCommonRoot d p rhsIndex })"

partial_function (option) dbp_Contains :: "path_dictionary \<Rightarrow> index_t \<Rightarrow> index_t \<Rightarrow> bool option" where
  "dbp_Contains d pathIndex pathElementID =
     (if pathIndex = 0 then Some False
      else do {
        e \<leftarrow> pd_GetPathElementID d pathIndex;
        if e = pathElementID then Some True
        else do { p \<leftarrow> pd_GetParent d pathIndex; dbp_Contains d p pathElementID }
      })"

subsection \<open>Conversion to text\<close>

text \<open>
  The elements are collected bottom-up, at most \<open>MAX_PATH\<close> (a constant of the Windows headers) of
  them, with their sizes.
\<close>

fun collect_elements :: "path_dictionary \<Rightarrow> nat \<Rightarrow> index_t \<Rightarrow> (byte list \<times> nat) list option" where
  "collect_elements d 0 currentIndex = Some []"
| "collect_elements d (Suc fuel) currentIndex =
     (if currentIndex = 0 then Some []
      else do {
        element \<leftarrow> pd_GetPathElementID d currentIndex;
        elementLen \<leftarrow> sd_GetLength (pathElements d) element;
        text \<leftarrow> sd_at (pathElements d) element;
        p \<leftarrow> pd_GetParent d currentIndex;
        rest \<leftarrow> collect_elements d fuel p;
        Some ((text, unat elementLen) # rest)
      })"

definition dbp_CollectPathElements :: "path_dictionary \<Rightarrow> nat \<Rightarrow> index_t \<Rightarrow> ((byte list \<times> nat) list \<times> nat) option" where
  "dbp_CollectPathElements d maxPath index = do {
     elements \<leftarrow> collect_elements d maxPath index;
     Some (elements, sum_list (map snd elements) + length elements)
   }"

text \<open>
  \<open>CopyPathElements\<close> writes the first \<open>depth\<close> collected elements, the last one first.  It copies
  whole machine words; what it writes past the end is overwritten by the next element or lies in
  the reserved space.
\<close>

definition copy_path_elements :: "(byte list \<times> nat) list \<Rightarrow> nat \<Rightarrow> byte list" where
  "copy_path_elements elements depth =
     concat (map (\<lambda>(text, len). slash # take len text) (rev (take depth elements)))"

definition dbp_GetPath :: "path_dictionary \<Rightarrow> nat \<Rightarrow> index_t \<Rightarrow> container_error + byte list" where
  "dbp_GetPath d maxPath index =
     (if index = NO_INDEX then Inl (CContainerException ''Access to invalid path object'') else
      bindE (of_opt (dbp_CollectPathElements d maxPath index)) (\<lambda>(elements, sz).
        Inr (if sz \<noteq> 0 then copy_path_elements elements (length elements) else [slash])))"

text \<open>
  The variant with a buffer limit drops elements until the rest should fit; it subtracts the size
  of the element, not of its slash.  The result is the text written and the distance of the returned
  pointer from the buffer.  A depth that would fall below zero is undefined.
\<close>

fun shrink_elements :: "(byte list \<times> nat) list \<Rightarrow> nat \<Rightarrow> nat \<Rightarrow> nat \<Rightarrow> (nat \<times> nat) option" where
  "shrink_elements elements maxSize sz 0 = (if sz > maxSize then None else Some (0, sz))"
| "shrink_elements elements maxSize sz (Suc depth) =
     (if sz > maxSize
      then shrink_elements elements maxSize (sz - snd (elements ! depth)) depth
      else Some (Suc depth, sz))"

definition dbp_GetPath_limited ::
    "path_dictionary \<Rightarrow> nat \<Rightarrow> nat \<Rightarrow> index_t \<Rightarrow> container_error + byte list \<times> nat" where
  "dbp_GetPath_limited d maxPath maxSize index =
     (if index = NO_INDEX then Inl (CContainerException ''Access to invalid path object'') else
      bindE (of_opt (dbp_CollectPathElements d maxPath index)) (\<lambda>(elements, sz).
      bindE (of_opt (shrink_elements elements maxSize sz (length elements))) (\<lambda>(depth, sz').
        Inr (copy_path_elements elements depth, sz'))))"

subsection \<open>Indexes as paths\<close>

definition pd_keys :: "path_dictionary \<Rightarrow> (index_t \<times> byte list) list" where
  "pd_keys d = map (map_prod id (\<lambda>e. sd_strings (pathElements d) ! unat e)) (ipd_data (paths d))"

definition tree_ok :: "(index_t \<times> byte list) list \<Rightarrow> bool" where
  "tree_ok ks \<longleftrightarrow> ks \<noteq> [] \<and> hd ks = (NO_INDEX, []) \<and> (\<forall>n < length ks. 0 < n \<longrightarrow> unat (fst (ks ! n)) < n)"

definition pd_inv :: "path_dictionary \<Rightarrow> bool" where
  "pd_inv d \<longleftrightarrow> sd_inv (pathElements d) \<and> ipd_inv (paths d) \<and> tree_ok (pd_keys d) \<and>
     (\<forall>entry \<in> set (ipd_data (paths d)). unat (snd entry) < length (sd_strings (pathElements d)))"

text \<open>The elements of a path from the root: the list that its index stands for.\<close>

function path_at :: "(index_t \<times> byte list) list \<Rightarrow> nat \<Rightarrow> byte list list" where
  "path_at ks n = (if n = 0 \<or> length ks \<le> n \<or> n \<le> unat (fst (ks ! n)) then []
     else path_at ks (unat (fst (ks ! n))) @ [snd (ks ! n)])"
  by pat_completeness auto
termination by (relation "measure snd") auto

declare path_at.simps [simp del]

definition pd_path :: "path_dictionary \<Rightarrow> index_t \<Rightarrow> byte list list" where
  "pd_path d i = path_at (pd_keys d) (unat i)"

definition pd_light :: "path_dictionary \<Rightarrow> bool" where
  "pd_light d \<longleftrightarrow> load_ok (sd_hashIndex (pathElements d)) \<and> load_ok (ipd_hashIndex (paths d))"

text \<open>Room for \<open>n\<close> more paths whose new elements take \<open>c\<close> bytes with their terminators.\<close>

definition pd_room :: "nat \<Rightarrow> nat \<Rightarrow> path_dictionary \<Rightarrow> bool" where
  "pd_room n c d \<longleftrightarrow> pd_light d \<and> length (sd_strings (pathElements d)) + n \<le> 119304647 \<and>
     length (pd_keys d) + n \<le> 119304647 \<and> length (packed_of (sd_strings (pathElements d))) + c + 10 < 2 ^ 32"

lemma length_pd_keys [simp]: "length (pd_keys d) = length (ipd_data (paths d))"
  by (simp add: pd_keys_def)

lemma path_at_0 [simp]: "path_at ks 0 = []"
  by (simp add: path_at.simps)

lemma path_at_step:
  "tree_ok ks \<Longrightarrow> 0 < n \<Longrightarrow> n < length ks \<Longrightarrow>
   path_at ks n = path_at ks (unat (fst (ks ! n))) @ [snd (ks ! n)] \<and> unat (fst (ks ! n)) < n"
  by (subst path_at.simps) (auto simp: tree_ok_def)

lemma tree_ok_append: "tree_ok ks \<Longrightarrow> unat p < length ks \<Longrightarrow> tree_ok (ks @ [(p, e)])"
  by (auto simp: tree_ok_def nth_append less_Suc_eq)

lemma path_at_append:
  "tree_ok ks \<Longrightarrow> n < length ks \<Longrightarrow> path_at (ks @ ks') n = path_at ks n"
proof (induction n rule: less_induct)
  case (less n)
  show ?case
  proof (cases "n = 0")
    case False
    let ?p = "unat (fst (ks ! n))"
    have p: "?p < n" "path_at ks n = path_at ks ?p @ [snd (ks ! n)]"
      using path_at_step [OF less.prems(1) _ less.prems(2)] False by auto
    have "path_at (ks @ ks') n = path_at (ks @ ks') ?p @ [snd (ks ! n)]"
      using p(1) less.prems(2) False by (subst path_at.simps) (simp add: nth_append)
    then show ?thesis using less.IH [OF p(1) less.prems(1)] p less.prems(2) by simp
  qed simp
qed

lemma path_at_inj:
  assumes "tree_ok ks" "distinct ks"
  shows "m < length ks \<Longrightarrow> n < length ks \<Longrightarrow> path_at ks m = path_at ks n \<Longrightarrow> m = n"
proof (induction m arbitrary: n rule: less_induct)
  case (less m)
  show ?case
  proof (cases "m = 0 \<or> n = 0")
    case True
    then show ?thesis using path_at_step [OF assms(1) _ less.prems(1)] path_at_step [OF assms(1) _ less.prems(2)] less.prems(3)
      by (cases "m = 0"; cases "n = 0") auto
  next
    case False
    note m = path_at_step [OF assms(1) _ less.prems(1)] and n = path_at_step [OF assms(1) _ less.prems(2)]
    have eq: "path_at ks (unat (fst (ks ! m))) = path_at ks (unat (fst (ks ! n)))" "snd (ks ! m) = snd (ks ! n)"
      using m n less.prems(3) False by auto
    have "unat (fst (ks ! m)) < m" "unat (fst (ks ! n)) < n" using m n False by auto
    then have "unat (fst (ks ! m)) = unat (fst (ks ! n))"
      using less.IH [OF _ _ _ eq(1)] less.prems(1,2) by (meson less_trans)
    then have "fst (ks ! m) = fst (ks ! n)" by (rule unsigned_word_eqI)
    then have "ks ! m = ks ! n" using eq(2) by (rule prod_eqI)
    then show ?thesis using assms(2) less.prems by (simp add: nth_eq_iff_index_eq)
  qed
qed

lemma index_in_map:
  assumes "inj_on f (insert x (set ks))"
  shows "index_in (map f ks) (f x) = index_in ks x"
proof -
  have "takeWhile (\<lambda>y. f y \<noteq> f x) ks = takeWhile (\<lambda>y. y \<noteq> x) ks"
    using assms by (intro takeWhile_cong) (auto simp: inj_on_def)
  moreover have "f x \<in> f ` set ks \<longleftrightarrow> x \<in> set ks" using assms by (auto simp: inj_on_def)
  ultimately show ?thesis by (simp add: index_in_def takeWhile_map comp_def)
qed

subsection \<open>Lookup and insertion\<close>

lemma pd_invD:
  assumes "pd_inv d"
  shows "sd_inv (pathElements d)" "ipd_inv (paths d)" "tree_ok (pd_keys d)"
    "\<And>entry. entry \<in> set (ipd_data (paths d)) \<Longrightarrow> unat (snd entry) < length (sd_strings (pathElements d))"
  using assms by (auto simp: pd_inv_def)

lemma key_inj:
  assumes "distinct strs" "\<forall>entry \<in> A. unat (snd entry) < length strs"
  shows "inj_on (map_prod id (\<lambda>e :: index_t. strs ! unat e)) A"
proof (rule inj_onI)
  fix x y assume xy: "x \<in> A" "y \<in> A"
    "map_prod id (\<lambda>e. strs ! unat e) x = map_prod id (\<lambda>e. strs ! unat e) y"
  obtain p e where x: "x = (p, e)" by (cases x)
  obtain q f where y: "y = (q, f)" by (cases y)
  have "unat e < length strs" "unat f < length strs" using assms(2) xy(1,2) unfolding x y by auto
  moreover have "strs ! unat e = strs ! unat f" "p = q" using xy(3) unfolding x y by auto
  ultimately have "unat e = unat f" using nth_eq_iff_index_eq [OF assms(1)] by blast
  then show "x = y" using \<open>p = q\<close> unfolding x y by (simp add: unsigned_word_eqI)
qed

lemma pd_keys_distinct: "pd_inv d \<Longrightarrow> distinct (pd_keys d)"
  using pd_invD(2) key_inj [OF sd_inv_rep(2) [OF pd_invD(1)], of d "set (ipd_data (paths d))"] pd_invD(4)
  by (simp add: pd_keys_def distinct_map ipd_inv_def)

lemma pd_keys_at:
  assumes "pd_inv d" "n < length (ipd_data (paths d))"
  shows "fst (pd_keys d ! n) = fst (ipd_data (paths d) ! n)"
    "snd (pd_keys d ! n) = sd_strings (pathElements d) ! unat (snd (ipd_data (paths d) ! n))"
    "unat (snd (ipd_data (paths d) ! n)) < length (sd_strings (pathElements d))"
  using assms pd_invD(4) [OF assms(1), of "ipd_data (paths d) ! n"] by (simp_all add: pd_keys_def)

lemma key_index:
  assumes inv: "pd_inv d" and i: "unat i < length (sd_strings (pathElements d))" "sd_strings (pathElements d) ! unat i = e"
  shows "index_in (pd_keys d) (p, e) = (index_in (ipd_data (paths d)) (p, i) :: index_t)"
    "(p, e) \<in> set (pd_keys d) \<longleftrightarrow> (p, i) \<in> set (ipd_data (paths d))"
proof -
  let ?f = "map_prod id (\<lambda>e. sd_strings (pathElements d) ! unat e)"
  have inj: "inj_on ?f (insert (p, i) (set (ipd_data (paths d))))"
    using pd_invD(4) [OF inv] i by (intro key_inj sd_inv_rep(2) pd_invD(1) [OF inv]) auto
  show "index_in (pd_keys d) (p, e) = (index_in (ipd_data (paths d)) (p, i) :: index_t)"
  proof -
    have "index_in (map ?f (ipd_data (paths d))) (?f (p, i)) = (index_in (ipd_data (paths d)) (p, i) :: index_t)"
      by (rule index_in_map [OF inj])
    then show ?thesis using i by (simp add: pd_keys_def)
  qed
  have "?f (p, i) \<in> ?f ` set (ipd_data (paths d)) \<longleftrightarrow> (p, i) \<in> set (ipd_data (paths d))"
    by (rule inj_on_image_mem_iff [OF inj]) auto
  then show "(p, e) \<in> set (pd_keys d) \<longleftrightarrow> (p, i) \<in> set (ipd_data (paths d))" using i by (simp add: pd_keys_def)
qed

lemma pd_Find_eq:
  assumes inv: "pd_inv d"
  shows "pd_Find p e d = Some (index_in (pd_keys d) (p, e))"
proof (cases "e \<in> set (sd_strings (pathElements d))")
  case True
  obtain n where n: "n < length (sd_strings (pathElements d))" "sd_strings (pathElements d) ! n = e"
      "index_in (sd_strings (pathElements d)) e = (of_nat n :: index_t)" "unat (of_nat n :: index_t) = n"
    using string_pool.index_position [OF pd_invD(1) [OF inv] True] by blast
  have "(of_nat n :: index_t) \<noteq> NO_INDEX"
    using string_pool.lookup_present_iff [OF pd_invD(1) [OF inv], of e] True n(3)
      string_pool.pool_lookup [OF pd_invD(1) [OF inv], of e] by simp
  then have "pd_Find p e d = Some (index_in (ipd_data (paths d)) (p, of_nat n))"
    using string_pool.pool_lookup [OF pd_invD(1) [OF inv], of e] ipd_Find_eq [OF pd_invD(2) [OF inv]] n(3)
    by (simp add: pd_Find_def)
  then show ?thesis using key_index(1) [OF inv, of "of_nat n" e p] n by simp
next
  case False
  then have "(p, e) \<notin> set (pd_keys d)" using pd_invD(4) [OF inv] by (auto simp: pd_keys_def)
  then show ?thesis using False string_pool.pool_lookup [OF pd_invD(1) [OF inv], of e]
    by (simp add: pd_Find_def index_in_def)
qed

lemma sd_AutoInsert_keeps:
  assumes inv: "pd_inv d" and room: "sd_room e (pathElements d)"
  shows "\<exists>strs i. sd_AutoInsert e (pathElements d) = Inr (i, strs) \<and> pd_inv (d\<lparr>pathElements := strs\<rparr>) \<and>
    pd_keys (d\<lparr>pathElements := strs\<rparr>) = pd_keys d \<and> unat i < length (sd_strings strs) \<and> sd_strings strs ! unat i = e \<and>
    sd_strings strs = (if e \<in> set (sd_strings (pathElements d)) then sd_strings (pathElements d)
      else sd_strings (pathElements d) @ [e]) \<and> (sd_light (pathElements d) \<longrightarrow> load_ok (sd_hashIndex strs))"
proof -
  obtain s where s: "sd_AutoInsert e (pathElements d) = Inr (index_in (sd_strings s) e, s)" "sd_inv s"
      "sd_strings s = (if e \<in> set (sd_strings (pathElements d)) then sd_strings (pathElements d)
        else sd_strings (pathElements d) @ [e])" "sd_light (pathElements d) \<longrightarrow> load_ok (sd_hashIndex s)"
    using sd_AutoInsert_ok [OF pd_invD(1) [OF inv] room] by blast
  have "e \<in> set (sd_strings s)" using s(3) by auto
  from string_pool.index_position [OF s(2) this]
  have i: "unat (index_in (sd_strings s) e :: index_t) < length (sd_strings s)"
      "sd_strings s ! unat (index_in (sd_strings s) e :: index_t) = e" by auto
  have keys: "pd_keys (d\<lparr>pathElements := s\<rparr>) = pd_keys d"
    using pd_invD(4) [OF inv] by (auto simp: pd_keys_def s(3) nth_append)
  moreover have "pd_inv (d\<lparr>pathElements := s\<rparr>)"
    using pd_invD [OF inv] s(2,3) keys by (auto simp: pd_inv_def intro: less_SucI)
  ultimately show ?thesis using s i by blast
qed

lemma paths_AutoInsert_ok:
  assumes inv: "pd_inv d" and room: "ipd_room (paths d)" and p: "unat p < length (pd_keys d)"
    and i: "unat i < length (sd_strings (pathElements d))" "sd_strings (pathElements d) ! unat i = e"
  shows "\<exists>q. ipd_AutoInsert (p, i) (paths d) = Some (index_in (pd_keys (d\<lparr>paths := q\<rparr>)) (p, e), q) \<and>
    pd_inv (d\<lparr>paths := q\<rparr>) \<and>
    pd_keys (d\<lparr>paths := q\<rparr>) = (if (p, e) \<in> set (pd_keys d) then pd_keys d else pd_keys d @ [(p, e)]) \<and>
    (ipd_light (paths d) \<longrightarrow> load_ok (ipd_hashIndex q))"
proof -
  obtain q where q: "ipd_AutoInsert (p, i) (paths d) = Some (index_in (ipd_data q) (p, i), q)" "ipd_inv q"
      "ipd_data q = (if (p, i) \<in> set (ipd_data (paths d)) then ipd_data (paths d) else ipd_data (paths d) @ [(p, i)])"
      "ipd_light (paths d) \<longrightarrow> load_ok (ipd_hashIndex q)"
    using ipd_AutoInsert_ok [OF pd_invD(2) [OF inv] room] by blast
  let ?d' = "d\<lparr>paths := q\<rparr>"
  have mem: "(p, e) \<in> set (pd_keys d) \<longleftrightarrow> (p, i) \<in> set (ipd_data (paths d))"
    by (rule key_index(2) [OF inv i])
  have keys: "pd_keys ?d' = (if (p, e) \<in> set (pd_keys d) then pd_keys d else pd_keys d @ [(p, e)])"
    using i(2) q(3) mem by (simp add: pd_keys_def)
  have inv': "pd_inv ?d'"
    using pd_invD [OF inv] q(2,3) keys i(1) tree_ok_append [OF pd_invD(3) [OF inv] p, of e]
    by (auto simp: pd_inv_def)
  show ?thesis using q(1,4) key_index(1) [OF inv', of i e p] i keys inv' by auto
qed

lemma pd_AutoInsert_ok:
  assumes inv: "pd_inv d" and room: "sd_room e (pathElements d)" "ipd_room (paths d)" and p: "unat p < length (pd_keys d)"
  shows "\<exists>d'. pd_AutoInsert p e d = Inr (index_in (pd_keys d') (p, e), d') \<and> pd_inv d' \<and>
    pd_keys d' = (if (p, e) \<in> set (pd_keys d) then pd_keys d else pd_keys d @ [(p, e)]) \<and>
    sd_strings (pathElements d') = (if e \<in> set (sd_strings (pathElements d)) then sd_strings (pathElements d)
      else sd_strings (pathElements d) @ [e]) \<and>
    (sd_light (pathElements d) \<and> ipd_light (paths d) \<longrightarrow> pd_light d')"
proof -
  obtain s i where s: "sd_AutoInsert e (pathElements d) = Inr (i, s)" "pd_inv (d\<lparr>pathElements := s\<rparr>)"
      "pd_keys (d\<lparr>pathElements := s\<rparr>) = pd_keys d" "unat i < length (sd_strings s)" "sd_strings s ! unat i = e"
      "sd_strings s = (if e \<in> set (sd_strings (pathElements d)) then sd_strings (pathElements d)
        else sd_strings (pathElements d) @ [e])" "sd_light (pathElements d) \<longrightarrow> load_ok (sd_hashIndex s)"
    using sd_AutoInsert_keeps [OF inv room(1)] by blast
  let ?d1 = "d\<lparr>pathElements := s\<rparr>"
  have "ipd_room (paths ?d1)" "unat p < length (pd_keys ?d1)" "unat i < length (sd_strings (pathElements ?d1))"
      "sd_strings (pathElements ?d1) ! unat i = e" using room(2) p s(3-5) by simp_all
  from paths_AutoInsert_ok [OF s(2) this] obtain q where
    q: "ipd_AutoInsert (p, i) (paths d) = Some (index_in (pd_keys (?d1\<lparr>paths := q\<rparr>)) (p, e), q)" "pd_inv (?d1\<lparr>paths := q\<rparr>)"
      "pd_keys (?d1\<lparr>paths := q\<rparr>) = (if (p, e) \<in> set (pd_keys ?d1) then pd_keys ?d1 else pd_keys ?d1 @ [(p, e)])"
      "ipd_light (paths d) \<longrightarrow> load_ok (ipd_hashIndex q)" by auto
  have "pd_AutoInsert p e d = Inr (index_in (pd_keys (?d1\<lparr>paths := q\<rparr>)) (p, e), ?d1\<lparr>paths := q\<rparr>)"
    using s(1) q(1) by (simp add: pd_AutoInsert_def)
  then show ?thesis using q(2-4) s(3,6,7) by (intro exI [of _ "?d1\<lparr>paths := q\<rparr>"]) (auto simp: pd_light_def)
qed

lemma pd_Insert_new:
  assumes inv: "pd_inv d" and room: "sd_room e (pathElements d)" and new: "(p, e) \<notin> set (pd_keys d)"
  shows "pd_Insert p e d = pd_AutoInsert p e d"
proof -
  obtain s i where s: "sd_AutoInsert e (pathElements d) = Inr (i, s)" "pd_inv (d\<lparr>pathElements := s\<rparr>)"
      "pd_keys (d\<lparr>pathElements := s\<rparr>) = pd_keys d" "unat i < length (sd_strings s)" "sd_strings s ! unat i = e"
    using sd_AutoInsert_keeps [OF inv room] by blast
  have "(p, i) \<notin> set (ipd_data (paths d))" using key_index(2) [OF s(2), of i e p] s(3-5) new by simp
  then have "ipd_Find (p, i) (paths d) = Some NO_INDEX"
    using ipd_Find_eq [OF pd_invD(2) [OF inv]] by (simp add: index_in_def)
  then show ?thesis using s(1) by (simp add: pd_Insert_def pd_AutoInsert_def ipd_AutoInsert_def)
qed

definition pd_auto_insert ::
    "index_t \<times> byte list \<Rightarrow> path_dictionary \<Rightarrow> (index_t \<times> path_dictionary) option" where
  "pd_auto_insert k d = (case pd_AutoInsert (fst k) (snd k) d of Inl _ \<Rightarrow> None | Inr r \<Rightarrow> Some r)"

definition pd_entry :: "path_dictionary \<Rightarrow> index_t \<Rightarrow> (index_t \<times> byte list) option" where
  "pd_entry d i = do { p \<leftarrow> pd_GetParent d i; e \<leftarrow> pd_GetPathElement d i; Some (p, e) }"

lemma pd_accessors:
  assumes inv: "pd_inv d" and i: "unat i < length (pd_keys d)"
  shows "pd_GetParent d i = Some (fst (pd_keys d ! unat i))" "pd_GetPathElement d i = Some (snd (pd_keys d ! unat i))"
    "\<exists>e. pd_GetPathElementID d i = Some e \<and> sd_at (pathElements d) e = Some (snd (pd_keys d ! unat i)) \<and>
      sd_GetLength (pathElements d) e = Some (of_nat (length (snd (pd_keys d ! unat i))))"
    "pd_GetPathElementSize d i = Some (of_nat (length (snd (pd_keys d ! unat i))))"
  using i pd_keys_at [OF inv, of "unat i"] sd_at_eq [OF pd_invD(1) [OF inv]] sd_GetLength_ok [OF pd_invD(1) [OF inv]]
  by (simp_all add: pd_GetParent_def pd_GetPathElement_def pd_GetPathElementID_def pd_GetPathElementSize_def ipd_at_def)

lemma pd_entry_eq:
  assumes inv: "pd_inv d"
  shows "pd_entry d i = (if unat i < length (pd_keys d) then Some (pd_keys d ! unat i) else None)"
proof (cases "unat i < length (pd_keys d)")
  case True
  then show ?thesis using pd_accessors [OF inv True] by (simp add: pd_entry_def)
next
  case False
  then show ?thesis by (simp add: pd_entry_def pd_GetParent_def ipd_at_def)
qed

lemma pd_keys_length: "pd_inv d \<Longrightarrow> length (pd_keys d) < 2 ^ LENGTH(32)"
  using ipd_inv_length [OF pd_invD(2)] by simp

interpretation path_pool: index_pool pd_inv pd_keys "\<lambda>k d. pd_Find (fst k) (snd k) d" pd_auto_insert pd_entry
  "\<lambda>k d. sd_room (snd k) (pathElements d) \<and> ipd_room (paths d) \<and> unat (fst k) < length (pd_keys d)"
proof
  fix d :: path_dictionary and k and i :: index_t
  assume d: "pd_inv d"
  show "distinct (pd_keys d)" by (rule pd_keys_distinct [OF d])
  show "length (pd_keys d) < 2 ^ LENGTH(32)" by (rule pd_keys_length [OF d])
  show "pd_Find (fst k) (snd k) d = Some (index_in (pd_keys d) k)" by (simp add: pd_Find_eq [OF d])
  show "pd_entry d i = (if unat i < length (pd_keys d) then Some (pd_keys d ! unat i) else None)"
    by (rule pd_entry_eq [OF d])
  assume "sd_room (snd k) (pathElements d) \<and> ipd_room (paths d) \<and> unat (fst k) < length (pd_keys d)"
  then show "\<exists>d'. pd_auto_insert k d = Some (index_in (pd_keys d') k, d') \<and> pd_inv d' \<and>
      pd_keys d' = (if k \<in> set (pd_keys d) then pd_keys d else pd_keys d @ [k])"
    using pd_AutoInsert_ok [OF d, of "snd k" "fst k"] by (auto simp: pd_auto_insert_def)
qed

lemma pd_init_ok:
  "\<exists>d. pd_init = Inr d \<and> pd_inv d \<and> pd_keys d = [(NO_INDEX, [])] \<and> sd_strings (pathElements d) = [[]] \<and> pd_light d"
proof -
  obtain e where e: "sd_init = Some e" "sd_inv e" "sd_strings e = [[]]" "load_ok (sd_hashIndex e)"
    using sd_init_ok by blast
  have "ipd_light ipd_init" by (simp add: ipd_light_def ipd_init_def)
  then obtain p where p: "ipd_Insert (NO_INDEX, 0) ipd_init = Some (0, p)" "ipd_inv p" "ipd_data p = [(NO_INDEX, 0)]"
      "load_ok (ipd_hashIndex p)"
    using ipd_Insert_ok [OF ipd_inv_init _ ipd_light_room [OF ipd_inv_init], of "(NO_INDEX, 0)"]
    by (auto simp: ipd_init_def)
  let ?d = "\<lparr>pathElements = e, paths = p\<rparr>"
  have "pd_keys ?d = [(NO_INDEX, [])]" using e(3) p(3) by (simp add: pd_keys_def)
  moreover have "pd_inv ?d" using e p calculation by (simp add: pd_inv_def tree_ok_def)
  moreover have "pd_init = Inr ?d" by (simp add: pd_init_def pd_Initialize_def e(1) p(1) of_opt_def)
  ultimately show ?thesis using e p by (auto simp: pd_light_def)
qed

subsection \<open>Parsing\<close>

lemma pd_path_step:
  assumes inv: "pd_inv d" and p: "unat p < length (pd_keys d)" and i: "pd_entry d i = Some (p, e)"
  shows "unat i < length (pd_keys d) \<and> pd_path d i = pd_path d p @ [e]"
proof -
  have i': "unat i < length (pd_keys d)" "pd_keys d ! unat i = (p, e)"
    using i by (auto simp: pd_entry_eq [OF inv] split: if_splits)
  have "unat i \<noteq> 0"
  proof
    assume "unat i = 0"
    then have "p = NO_INDEX" using i'(2) pd_invD(3) [OF inv] hd_conv_nth [of "pd_keys d"] by (auto simp: tree_ok_def)
    then show False using p pd_keys_length [OF inv] unat_NO_INDEX [where 'i = 32] by simp
  qed
  then show ?thesis using path_at_step [OF pd_invD(3) [OF inv] _ i'(1)] i' by (simp add: pd_path_def)
qed

lemma pd_Find_path:
  assumes inv: "pd_inv d" and p: "unat p < length (pd_keys d)" and f: "pd_Find p e d = Some i" "i \<noteq> NO_INDEX"
  shows "unat i < length (pd_keys d) \<and> pd_path d i = pd_path d p @ [e]"
  using pd_path_step [OF inv p] path_pool.at_lookup [OF inv, of "(p, e)" i] f by simp

lemma pd_Find_none:
  assumes inv: "pd_inv d" and p: "unat p < length (pd_keys d)" and f: "pd_Find p e d = Some NO_INDEX"
    and j: "unat j < length (pd_keys d)"
  shows "pd_path d j \<noteq> pd_path d p @ [e]"
proof
  assume eq: "pd_path d j = pd_path d p @ [e]"
  then have j0: "0 < unat j" by (cases "unat j = 0") (auto simp: pd_path_def)
  note st = path_at_step [OF pd_invD(3) [OF inv] j0 j]
  have "path_at (pd_keys d) (unat (fst (pd_keys d ! unat j))) = path_at (pd_keys d) (unat p)" "snd (pd_keys d ! unat j) = e"
    using st eq by (auto simp: pd_path_def)
  moreover from this(1) have "unat (fst (pd_keys d ! unat j)) = unat p"
    using st j p by (intro path_at_inj [OF pd_invD(3) [OF inv] pd_keys_distinct [OF inv]]) auto
  ultimately have "pd_keys d ! unat j = (p, e)" by (metis prod_eqI fst_conv snd_conv unsigned_word_eqI)
  then have "(p, e) \<in> set (pd_keys d)" using j by (metis nth_mem)
  then show False using f path_pool.lookup_present_iff [OF inv, of "(p, e)"] by simp
qed

lemma pd_room_insert:
  assumes "pd_inv d" "pd_room (Suc n) c d" "0 \<notin> set e" "length e < c"
  shows "sd_room e (pathElements d) \<and> ipd_room (paths d) \<and> sd_light (pathElements d) \<and> ipd_light (paths d)"
  using assms sd_room_light [OF pd_invD(1) [OF assms(1)], of e] ipd_light_room [OF pd_invD(2) [OF assms(1)]]
  by (auto simp: pd_room_def pd_light_def sd_light_def ipd_light_def)

lemma parse_insert_room:
  "pd_inv d \<Longrightarrow> unat index < length (pd_keys d) \<Longrightarrow> pd_room (length es + n) (length (packed_of es) + c) d \<Longrightarrow>
   \<forall>e \<in> set es. 0 \<notin> set e \<Longrightarrow>
   \<exists>i d' ks. parse_insert es index d = Inr (i, d') \<and> pd_inv d' \<and> pd_room n c d' \<and> pd_keys d' = pd_keys d @ ks \<and>
     length ks \<le> length es \<and> unat i < length (pd_keys d') \<and> pd_path d' i = pd_path d index @ es"
proof (induction es arbitrary: index d)
  case Nil
  then show ?case by (auto simp: pd_room_def)
next
  case (Cons e es)
  note inv = Cons.prems(1) and idx = Cons.prems(2)
  have z: "\<forall>e \<in> set es. 0 \<notin> set e" using Cons.prems(4) by simp
  obtain next_idx where f: "pd_Find index e d = Some next_idx" using pd_Find_eq [OF inv] by blast
  show ?case
  proof (cases "next_idx = NO_INDEX")
    case False
    have st: "unat next_idx < length (pd_keys d)" "pd_path d next_idx = pd_path d index @ [e]"
      using pd_Find_path [OF inv idx f False] by auto
    have "pd_room (length es + n) (length (packed_of es) + c) d" using Cons.prems(3) by (auto simp: pd_room_def)
    from Cons.IH [OF inv st(1) this z] obtain i d' ks where "parse_insert es next_idx d = Inr (i, d')" "pd_inv d'" "pd_room n c d'" "pd_keys d' = pd_keys d @ ks"
        "length ks \<le> length es" "unat i < length (pd_keys d')" "pd_path d' i = pd_path d next_idx @ es"
      by blast
    then show ?thesis using f False st(2) by (intro exI [of _ i] exI [of _ d'] exI [of _ ks]) simp
  next
    case True
    have room: "sd_room e (pathElements d) \<and> ipd_room (paths d) \<and> sd_light (pathElements d) \<and> ipd_light (paths d)"
      using Cons.prems(3,4) by (intro pd_room_insert [OF inv, of "length es + n" "length (packed_of (e # es)) + c"]) auto
    have new: "(index, e) \<notin> set (pd_keys d)"
      using path_pool.lookup_present_iff [OF inv, of "(index, e)"] f True by simp
    obtain d1 where d1: "pd_AutoInsert index e d = Inr (index_in (pd_keys d1) (index, e), d1)" "pd_inv d1"
        "pd_keys d1 = pd_keys d @ [(index, e)]" "pd_light d1"
        "sd_strings (pathElements d1) = (if e \<in> set (sd_strings (pathElements d)) then sd_strings (pathElements d)
          else sd_strings (pathElements d) @ [e])"
      using pd_AutoInsert_ok [OF inv _ _ idx, of e] room new by auto
    let ?n = "index_in (pd_keys d1) (index, e) :: index_t"
    have "pd_entry d1 ?n = Some (index, e)"
      using path_pool.at_lookup [OF d1(2), of "(index, e)" ?n] path_pool.pool_lookup [OF d1(2), of "(index, e)"]
        path_pool.lookup_present_iff [OF d1(2), of "(index, e)"] d1(3) by auto
    then have st: "unat ?n < length (pd_keys d1)" "pd_path d1 ?n = pd_path d1 index @ [e]"
      using pd_path_step [OF d1(2), of index ?n e] idx d1(3) by auto
    have "pd_path d1 index = pd_path d index"
      unfolding pd_path_def d1(3) by (rule path_at_append [OF pd_invD(3) [OF inv] idx])
    moreover have room1: "pd_room (length es + n) (length (packed_of es) + c) d1"
      using Cons.prems(3) d1(3-5) by (auto simp: pd_room_def simp flip: length_pd_keys)
    from Cons.IH [OF d1(2) st(1) this z] obtain i d' ks where "parse_insert es ?n d1 = Inr (i, d')" "pd_inv d'" "pd_room n c d'" "pd_keys d' = pd_keys d1 @ ks"
        "length ks \<le> length es" "unat i < length (pd_keys d')" "pd_path d' i = pd_path d1 ?n @ es"
      by blast
    moreover have "pd_Insert index e d = Inr (?n, d1)" using pd_Insert_new [OF inv _ new] room d1(1) by simp
    ultimately show ?thesis using f True st(2) d1(3)
      by (intro exI [of _ i] exI [of _ d'] exI [of _ "(index, e) # ks"]) simp
  qed
qed

lemma parse_insert_ok:
  "pd_inv d \<Longrightarrow> unat index < length (pd_keys d) \<Longrightarrow> pd_room (length es) (length (packed_of es)) d \<Longrightarrow>
   \<forall>e \<in> set es. 0 \<notin> set e \<Longrightarrow>
   \<exists>i d' ks. parse_insert es index d = Inr (i, d') \<and> pd_inv d' \<and> pd_light d' \<and> pd_keys d' = pd_keys d @ ks \<and>
     length ks \<le> length es \<and> unat i < length (pd_keys d') \<and> pd_path d' i = pd_path d index @ es"
  using parse_insert_room [of d index es 0 0] by (fastforce simp: pd_room_def)

lemma parse_lookup_ok:
  assumes inv: "pd_inv d"
  shows "unat index < length (pd_keys d) \<Longrightarrow>
    \<exists>i k. parse_lookup d False es index index [] = Some (i, []) \<and> unat i < length (pd_keys d) \<and> k \<le> length es \<and>
      pd_path d i = pd_path d index @ take k es \<and>
      (k < length es \<longrightarrow> (\<forall>j. unat j < length (pd_keys d) \<longrightarrow> pd_path d j \<noteq> pd_path d index @ take (Suc k) es))"
proof (induction es arbitrary: index)
  case (Cons e es)
  obtain n where f: "pd_Find index e d = Some n" using pd_Find_eq [OF inv] by blast
  show ?case
  proof (cases "n = NO_INDEX")
    case True
    then show ?thesis using f Cons.prems pd_Find_none [OF inv Cons.prems, of e]
      by (intro exI [of _ index] exI [of _ 0]) auto
  next
    case False
    have st: "unat n < length (pd_keys d)" "pd_path d n = pd_path d index @ [e]"
      using pd_Find_path [OF inv Cons.prems f False] by auto
    obtain i k where "parse_lookup d False es n n [] = Some (i, [])" "unat i < length (pd_keys d)" "k \<le> length es"
      "pd_path d i = pd_path d n @ take k es"
      "k < length es \<longrightarrow> (\<forall>j. unat j < length (pd_keys d) \<longrightarrow> pd_path d j \<noteq> pd_path d n @ take (Suc k) es)"
      using Cons.IH [OF st(1)] by blast
    then show ?thesis using f False st(2) by (intro exI [of _ i] exI [of _ "Suc k"]) auto
  qed
qed auto

text \<open>Once an element was missed, only an empty element could match again, at the root entry.\<close>

lemma pd_Find_NO_INDEX:
  assumes inv: "pd_inv d" and e: "e \<noteq> []"
  shows "pd_Find NO_INDEX e d = Some NO_INDEX"
proof -
  have "(NO_INDEX, e) \<notin> set (pd_keys d)"
  proof
    assume "(NO_INDEX, e) \<in> set (pd_keys d)"
    then obtain n where n: "n < length (pd_keys d)" "pd_keys d ! n = (NO_INDEX, e)" by (auto simp: in_set_conv_nth)
    then have "n \<noteq> 0" using pd_invD(3) [OF inv] hd_conv_nth [of "pd_keys d"] e by (auto simp: tree_ok_def)
    then have "unat (NO_INDEX :: index_t) < n" using n pd_invD(3) [OF inv] by (auto simp: tree_ok_def)
    then show False using n(1) pd_keys_length [OF inv] unat_NO_INDEX [where 'i = 32] by simp
  qed
  then show ?thesis using path_pool.lookup_present_iff [OF inv, of "(NO_INDEX, e)"] by simp
qed

lemma parse_lookup_missed:
  assumes inv: "pd_inv d"
  shows "[] \<notin> set es \<Longrightarrow> parse_lookup d True es NO_INDEX index rel = Some (index, rel @ es)"
  by (induction es arbitrary: rel) (auto simp: pd_Find_NO_INDEX [OF inv])

lemma parse_lookup_relative:
  assumes inv: "pd_inv d"
  shows "unat index < length (pd_keys d) \<Longrightarrow> [] \<notin> set es \<Longrightarrow>
    \<exists>i rel. parse_lookup d True es index index [] = Some (i, rel) \<and> unat i < length (pd_keys d) \<and>
      pd_path d i @ rel = pd_path d index @ es \<and>
      (rel \<noteq> [] \<longrightarrow> (\<forall>j. unat j < length (pd_keys d) \<longrightarrow> pd_path d j \<noteq> pd_path d i @ [hd rel]))"
proof (induction es arbitrary: index)
  case (Cons e es)
  obtain n where f: "pd_Find index e d = Some n" using pd_Find_eq [OF inv] by blast
  show ?case
  proof (cases "n = NO_INDEX")
    case True
    then show ?thesis using f Cons.prems pd_Find_none [OF inv Cons.prems(1), of e]
        parse_lookup_missed [OF inv, of es index "[e]"]
      by (intro exI [of _ index] exI [of _ "e # es"]) auto
  next
    case False
    have st: "unat n < length (pd_keys d)" "pd_path d n = pd_path d index @ [e]"
      using pd_Find_path [OF inv Cons.prems(1) f False] by auto
    obtain i rel where "parse_lookup d True es n n [] = Some (i, rel)" "unat i < length (pd_keys d)"
      "pd_path d i @ rel = pd_path d n @ es"
      "rel \<noteq> [] \<longrightarrow> (\<forall>j. unat j < length (pd_keys d) \<longrightarrow> pd_path d j \<noteq> pd_path d i @ [hd rel])"
      using Cons.IH [OF st(1)] Cons.prems(2) by auto
    then show ?thesis using f False st(2) by (intro exI [of _ i] exI [of _ rel]) auto
  qed
qed auto

subsection \<open>Tree queries\<close>

lemma pd_parent:
  assumes inv: "pd_inv d" and i: "unat i < length (pd_keys d)" "i \<noteq> 0"
  shows "\<exists>p e. pd_GetParent d i = Some p \<and> unat p < unat i \<and> pd_entry d i = Some (p, e) \<and> pd_path d i = pd_path d p @ [e]"
proof -
  have "unat i \<noteq> 0" using i(2) by (simp add: unat_eq_zero)
  then show ?thesis using path_at_step [OF pd_invD(3) [OF inv] _ i(1)] pd_accessors(1) [OF inv i(1)] i(1)
    by (auto simp: pd_entry_eq [OF inv] pd_path_def intro!: exI [of _ "snd (pd_keys d ! unat i)"])
qed

lemma pd_path_eq_iff:
  assumes "pd_inv d" "unat i < length (pd_keys d)" "unat j < length (pd_keys d)"
  shows "pd_path d i = pd_path d j \<longleftrightarrow> i = j"
  using path_at_inj [OF pd_invD(3) [OF assms(1)] pd_keys_distinct [OF assms(1)] assms(2,3)]
  by (auto simp: pd_path_def unsigned_word_eqI)

lemma pd_path_0 [simp]: "pd_path d 0 = []"
  by (simp add: pd_path_def)

lemma depth_loop_eq:
  "pd_inv d \<Longrightarrow> unat i < length (pd_keys d) \<Longrightarrow> depth_loop d i = Some (of_nat (length (pd_path d i)))"
proof (induction "unat i" arbitrary: i rule: less_induct)
  case less
  show ?case
  proof (cases "i = 0")
    case True
    then show ?thesis by (subst depth_loop.simps) simp
  next
    case False
    then obtain p e where p: "pd_GetParent d i = Some p" "unat p < unat i" "pd_path d i = pd_path d p @ [e]"
      using pd_parent [OF less.prems] by blast
    then have "depth_loop d p = Some (of_nat (length (pd_path d p)))" using less by simp
    then show ?thesis using p False by (subst depth_loop.simps) (simp add: add.commute)
  qed
qed

lemma length_path_le: "tree_ok ks \<Longrightarrow> n < length ks \<Longrightarrow> length (path_at ks n) \<le> n"
proof (induction n rule: less_induct)
  case (less n)
  then show ?case using path_at_step [OF less.prems(1) _ less.prems(2)] by (cases "n = 0") fastforce+
qed

lemma prefix_path_le:
  assumes ks: "tree_ok ks" "distinct ks" and m: "m < length ks"
  shows "n < length ks \<Longrightarrow> prefix (path_at ks m) (path_at ks n) \<Longrightarrow> m \<le> n"
proof (induction n rule: less_induct)
  case (less n)
  show ?case
  proof (cases "path_at ks m = path_at ks n")
    case True
    then show ?thesis using path_at_inj [OF ks m less.prems(1)] by simp
  next
    case False
    then have "n \<noteq> 0" using less.prems(2) by (cases "n = 0") auto
    then have n: "path_at ks n = path_at ks (unat (fst (ks ! n))) @ [snd (ks ! n)]" "unat (fst (ks ! n)) < n"
      using path_at_step [OF ks(1) _ less.prems(1)] by auto
    then have "prefix (path_at ks m) (path_at ks (unat (fst (ks ! n))))"
      using less.prems(2) False by (metis prefix_snoc)
    then have "m \<le> unat (fst (ks ! n))" using less.IH [OF n(2)] n(2) less.prems(1) by simp
    then show ?thesis using n(2) by simp
  qed
qed

lemma pd_prefix_le:
  "pd_inv d \<Longrightarrow> unat i < length (pd_keys d) \<Longrightarrow> unat j < length (pd_keys d) \<Longrightarrow>
   prefix (pd_path d i) (pd_path d j) \<Longrightarrow> i \<le> j"
  using prefix_path_le [OF pd_invD(3) pd_keys_distinct] by (simp add: pd_path_def word_le_nat_alt)

lemma ancestor_loop_eq:
  assumes inv: "pd_inv d" and l: "unat l < length (pd_keys d)" "l \<noteq> 0"
  shows "unat r < length (pd_keys d) \<Longrightarrow> ancestor_loop d l r = Some (prefix (pd_path d l) (pd_path d r))"
proof (induction "unat r" arbitrary: r rule: less_induct)
  case less
  consider "\<not> l \<le> r" | "l = r" | "l \<le> r" "l \<noteq> r" by blast
  then show ?case
  proof cases
    case 1
    then show ?thesis using pd_prefix_le [OF inv l(1) less.prems] by (subst ancestor_loop.simps) auto
  next
    case 2
    then show ?thesis by (subst ancestor_loop.simps) simp
  next
    case 3
    then have "r \<noteq> 0" using l(2) by (auto simp: word_le_nat_alt unat_eq_zero)
    then obtain p e where p: "pd_GetParent d r = Some p" "unat p < unat r" "pd_path d r = pd_path d p @ [e]"
      using pd_parent [OF inv less.prems] by blast
    have "pd_path d l \<noteq> pd_path d r" using pd_path_eq_iff [OF inv l(1) less.prems] 3 by simp
    then have "prefix (pd_path d l) (pd_path d r) \<longleftrightarrow> prefix (pd_path d l) (pd_path d p)" using p(3) by simp
    then show ?thesis using less.hyps [OF p(2)] less.prems p(1,2) 3 by (subst ancestor_loop.simps) simp
  qed
qed

lemma IsSameOrParentOf_eq:
  assumes "pd_inv d" "unat l < length (pd_keys d)" "unat r < length (pd_keys d)"
  shows "dbp_IsSameOrParentOf d l r = Some (prefix (pd_path d l) (pd_path d r))"
  using ancestor_loop_eq [OF assms(1,2) _ assms(3)] by (simp add: dbp_IsSameOrParentOf_def)

lemma lcp_snoc: "\<not> prefix (ys @ [y]) xs \<Longrightarrow> longest_common_prefix xs (ys @ [y]) = longest_common_prefix xs ys"
proof (induction ys arbitrary: xs)
  case Nil
  then show ?case by (cases xs) auto
next
  case (Cons a ys)
  then show ?case by (cases xs) auto
qed

lemma lcp_commute: "longest_common_prefix xs ys = longest_common_prefix ys xs"
  by (induction xs ys rule: longest_common_prefix.induct) auto

lemma lcp_same [simp]: "longest_common_prefix xs xs = xs"
  by (induction xs) auto

lemma GetCommonRoot_eq:
  assumes inv: "pd_inv d"
  shows "unat l < length (pd_keys d) \<Longrightarrow> unat r < length (pd_keys d) \<Longrightarrow>
    \<exists>c. dbp_GetCommonRoot d l r = Some c \<and> unat c < length (pd_keys d) \<and>
      pd_path d c = longest_common_prefix (pd_path d l) (pd_path d r)"
proof (induction "unat l + unat r" arbitrary: l r rule: less_induct)
  case less
  have step: "\<exists>p. pd_GetParent d b = Some p \<and> unat p < unat b \<and>
      longest_common_prefix (pd_path d a) (pd_path d b) = longest_common_prefix (pd_path d a) (pd_path d p)"
    if ab: "a < b" "unat a < length (pd_keys d)" "unat b < length (pd_keys d)" for a b
  proof -
    have "b \<noteq> 0" using ab(1) by (auto simp: word_less_nat_alt unat_eq_zero)
    then obtain p e where p: "pd_GetParent d b = Some p" "unat p < unat b" "pd_path d b = pd_path d p @ [e]"
      using pd_parent [OF inv ab(3)] by blast
    have "\<not> prefix (pd_path d b) (pd_path d a)" using pd_prefix_le [OF inv ab(3,2)] ab(1) by auto
    then show ?thesis using p lcp_snoc [of "pd_path d p" e "pd_path d a"] by simp
  qed
  consider "l = r" | "l < r" | "r < l" by fastforce
  then show ?case
  proof cases
    case 1
    then show ?thesis using less.prems by (subst dbp_GetCommonRoot.simps) simp
  next
    case 2
    from step [OF 2 less.prems] obtain p where p: "pd_GetParent d r = Some p" "unat p < unat r"
      "longest_common_prefix (pd_path d l) (pd_path d r) = longest_common_prefix (pd_path d l) (pd_path d p)"
      by blast
    obtain c where "dbp_GetCommonRoot d l p = Some c" "unat c < length (pd_keys d)"
        "pd_path d c = longest_common_prefix (pd_path d l) (pd_path d p)"
      using less.hyps [of l p] p(2) less.prems by auto
    then show ?thesis using 2 p(1,3) by (subst dbp_GetCommonRoot.simps) auto
  next
    case 3
    from step [OF 3 less.prems(2,1)] obtain p where p: "pd_GetParent d l = Some p" "unat p < unat l"
      "longest_common_prefix (pd_path d r) (pd_path d l) = longest_common_prefix (pd_path d r) (pd_path d p)"
      by blast
    obtain c where "dbp_GetCommonRoot d p r = Some c" "unat c < length (pd_keys d)"
        "pd_path d c = longest_common_prefix (pd_path d p) (pd_path d r)"
      using less.hyps [of p r] p(2) less.prems by auto
    then show ?thesis using 3 p(1,3) by (subst dbp_GetCommonRoot.simps) (auto simp: lcp_commute)
  qed
qed

lemma Contains_eq:
  assumes inv: "pd_inv d" and x: "unat x < length (sd_strings (pathElements d))"
  shows "unat i < length (pd_keys d) \<Longrightarrow>
    dbp_Contains d i x = Some (sd_strings (pathElements d) ! unat x \<in> set (pd_path d i))"
proof (induction "unat i" arbitrary: i rule: less_induct)
  case less
  show ?case
  proof (cases "i = 0")
    case True
    then show ?thesis by (subst dbp_Contains.simps) simp
  next
    case False
    then obtain p e where p: "pd_GetParent d i = Some p" "unat p < unat i" "pd_entry d i = Some (p, e)"
        "pd_path d i = pd_path d p @ [e]" using pd_parent [OF inv less.prems] by blast
    obtain eid where eid: "pd_GetPathElementID d i = Some eid" "sd_at (pathElements d) eid = Some e"
      using pd_accessors(3) [OF inv less.prems] p(3) less.prems by (auto simp: pd_entry_eq [OF inv])
    have e: "unat eid < length (sd_strings (pathElements d))" "sd_strings (pathElements d) ! unat eid = e"
      using eid(2) by (auto simp: sd_at_eq [OF pd_invD(1) [OF inv]] split: if_splits)
    have "eid = x \<longleftrightarrow> e = sd_strings (pathElements d) ! unat x"
      using e x nth_eq_iff_index_eq [OF sd_inv_rep(2) [OF pd_invD(1) [OF inv]] e(1) x] by (auto intro: unsigned_word_eqI)
    then show ?thesis using less.hyps [OF p(2)] less.prems p False eid(1)
      by (subst dbp_Contains.simps) auto
  qed
qed

subsection \<open>Text\<close>

definition text_of :: "byte list list \<Rightarrow> byte list" where
  "text_of es = concat (map (\<lambda>e. slash # e) es)"

lemma element_lengths:
  assumes inv: "pd_inv d" and i: "unat i < length (pd_keys d)"
  shows "unat (of_nat (length (snd (pd_keys d ! unat i))) :: index_t) = length (snd (pd_keys d ! unat i))"
proof (rule unat_of_nat_small)
  let ?strs = "sd_strings (pathElements d)" and ?e = "unat (snd (ipd_data (paths d) ! unat i))"
  have e: "?e < length ?strs" "snd (pd_keys d ! unat i) = ?strs ! ?e" using pd_keys_at [OF inv] i by auto
  have "length (packed_of ?strs) < 2 ^ 32" using sd_inv_rep(1) [OF pd_invD(1) [OF inv]] by (simp add: sd_packs_def)
  moreover have "length (?strs ! ?e) < length (packed_of ?strs)" using packed_of_split [OF e(1)] by simp
  ultimately show "length (snd (pd_keys d ! unat i)) < 2 ^ LENGTH(32)" using e(2) by simp
qed

lemma collect_elements_eq:
  assumes inv: "pd_inv d"
  shows "unat i < length (pd_keys d) \<Longrightarrow>
    collect_elements d fuel i = Some (take fuel (map (\<lambda>e. (e, length e)) (rev (pd_path d i))))"
proof (induction fuel arbitrary: i)
  case (Suc fuel)
  show ?case
  proof (cases "i = 0")
    case False
    then obtain p e where p: "pd_GetParent d i = Some p" "unat p < unat i" "pd_entry d i = Some (p, e)"
        "pd_path d i = pd_path d p @ [e]" using pd_parent [OF inv Suc.prems] by blast
    have e: "pd_keys d ! unat i = (p, e)" using p(3) Suc.prems by (simp add: pd_entry_eq [OF inv])
    obtain eid where "pd_GetPathElementID d i = Some eid" "sd_at (pathElements d) eid = Some e"
      "sd_GetLength (pathElements d) eid = Some (of_nat (length e))"
      using pd_accessors(3) [OF inv Suc.prems] e by auto
    then show ?thesis using Suc.IH [of p] Suc.prems p False element_lengths [OF inv Suc.prems] e by simp
  qed simp
qed simp

lemma rev_take_rev: "rev (take n (rev xs)) = drop (length xs - n) xs"
  by (simp add: rev_take)

lemma copy_path_elements_eq:
  "copy_path_elements (map (\<lambda>e. (e, length e)) es) n = text_of (rev (take n es))"
  by (simp add: copy_path_elements_def text_of_def take_map rev_map comp_def)

lemma dbp_GetPath_eq:
  assumes inv: "pd_inv d" and i: "unat i < length (pd_keys d)"
  shows "dbp_GetPath d maxPath i =
    (let es = drop (length (pd_path d i) - maxPath) (pd_path d i) in Inr (if es = [] then [slash] else text_of es))"
proof -
  define es where "es = take maxPath (rev (pd_path d i))"
  have "i \<noteq> NO_INDEX" using i pd_keys_length [OF inv] unat_NO_INDEX [where 'i = 32] by auto
  moreover have "collect_elements d maxPath i = Some (map (\<lambda>e. (e, length e)) es)"
    using collect_elements_eq [OF inv i] by (simp add: take_map es_def)
  ultimately have "dbp_GetPath d maxPath i = Inr (if es = [] then [slash] else text_of (rev es))"
    using copy_path_elements_eq [of es "length es"] by (cases es) (auto simp: dbp_GetPath_def dbp_CollectPathElements_def)
  moreover have "rev es = drop (length (pd_path d i) - maxPath) (pd_path d i)" unfolding es_def by (rule rev_take_rev)
  moreover have "es = [] \<longleftrightarrow> rev es = []" by simp
  ultimately show ?thesis by (simp only: Let_def)
qed

lemma split_elements_text:
  "e # es = fs \<Longrightarrow> \<forall>f \<in> set fs. slash \<notin> set f \<and> 0 \<notin> set f \<Longrightarrow> split_elements (e @ text_of es) = fs"
proof (induction es arbitrary: e fs)
  case Nil
  then have tw: "takeWhile (\<lambda>c. c \<noteq> slash) e = e" "dropWhile (\<lambda>c. c \<noteq> slash) e = []" "takeWhile (\<lambda>c. c \<noteq> 0) e = e"
    by (auto simp: takeWhile_eq_all_conv dropWhile_eq_Nil_conv)
  show ?case using Nil.prems(1) by (subst split_elements.simps) (simp add: text_of_def tw)
next
  case (Cons a es)
  have "\<forall>x \<in> set e. x \<noteq> slash" using Cons.prems by auto
  then have "takeWhile (\<lambda>c. c \<noteq> slash) (e @ text_of (a # es)) = e" "dropWhile (\<lambda>c. c \<noteq> slash) (e @ text_of (a # es)) = slash # a @ text_of es"
    by (auto simp: takeWhile_append2 dropWhile_append2 text_of_def)
  moreover have tw: "takeWhile (\<lambda>c. c \<noteq> 0) e = e" using Cons.prems by (auto simp: takeWhile_eq_all_conv)
  moreover have "split_elements (a @ text_of es) = a # es" using Cons.IH [OF refl, of a] Cons.prems by auto
  ultimately show ?case using Cons.prems(1) by (subst split_elements.simps) (simp add: Let_def tw)
qed

lemma path_elements_text:
  "es \<noteq> [] \<Longrightarrow> \<forall>e \<in> set es. slash \<notin> set e \<and> 0 \<notin> set e \<Longrightarrow> path_elements (text_of es) = es"
  using split_elements_text [OF refl, of "hd es" "tl es"]
  by (cases es) (auto simp: path_elements_def text_of_def)

lemma split_elements_no_zero: "e \<in> set (split_elements t) \<Longrightarrow> 0 \<notin> set e \<and> slash \<notin> set e"
proof (induction t rule: split_elements.induct)
  case (1 t)
  then show ?case
    by (subst (asm) split_elements.simps) (auto simp: Let_def split: if_splits dest: set_takeWhileD)
qed

lemma path_elements_no_zero: "e \<in> set (path_elements path) \<Longrightarrow> 0 \<notin> set e \<and> slash \<notin> set e"
  using split_elements_no_zero by (auto simp: path_elements_def split: if_splits)

subsection \<open>Merging\<close>

lemma pd_keys_extend:
  assumes inv: "pd_inv d" and e: "sd_inv e" "sd_strings e = sd_strings (pathElements d) @ t"
  shows "pd_keys (d\<lparr>pathElements := e\<rparr>) = pd_keys d \<and> pd_inv (d\<lparr>pathElements := e\<rparr>)"
proof
  show keys: "pd_keys (d\<lparr>pathElements := e\<rparr>) = pd_keys d"
    using pd_invD(4) [OF inv] e(2) by (auto simp: pd_keys_def nth_append)
  have "\<forall>entry \<in> set (ipd_data (paths d)). unat (snd entry) < length (sd_strings e)"
    using pd_invD(4) [OF inv] e(2) by (auto intro: trans_less_add1)
  then show "pd_inv (d\<lparr>pathElements := e\<rparr>)"
    using pd_invD(2,3) [OF inv] e(1) keys by (simp add: pd_inv_def)
qed

text \<open>Every path of the source below \<open>n\<close> is mapped to an index of the same path in \<open>d\<close>.\<close>

definition maps_paths :: "path_dictionary \<Rightarrow> nat \<Rightarrow> path_dictionary \<Rightarrow> index_mapping_t \<Rightarrow> bool" where
  "maps_paths source n d r \<longleftrightarrow> qm_lookup index_conv r NO_INDEX = Some NO_INDEX \<and>
     (\<forall>i < n. \<exists>j. qm_lookup index_conv r (of_nat i) = Some j \<and> unat j < length (pd_keys d) \<and>
        pd_path d j = path_at (pd_keys source) i)"

lemma pd_path_extend:
  "pd_inv d \<Longrightarrow> pd_keys d' = pd_keys d @ ks \<Longrightarrow> unat i < length (pd_keys d) \<Longrightarrow> pd_path d' i = pd_path d i"
  by (simp add: pd_path_def path_at_append [OF pd_invD(3)] del: length_pd_keys)

lemma qm_lookup_insert:
  assumes "qm_inv conv m" "qm_inv conv m'" "qm_data m' = qm_data m @ [(k, v)]"
  shows "qm_lookup conv m' = (qm_lookup conv m)(k \<mapsto> v)"
proof
  fix k'
  have "k \<notin> fst ` set (qm_data m)" using assms(2,3) by (simp add: qm_inv_def)
  then have "map_of (qm_data m) k = None" by (simp add: map_of_eq_None_iff)
  then show "qm_lookup conv m' k' = ((qm_lookup conv m)(k \<mapsto> v)) k'"
    by (auto simp: qm_lookup_map_of [OF assms(1)] qm_lookup_map_of [OF assms(2)] assms(3) map_add_def split: option.splits)
qed

lemma pd_merge_loop_ok:
  assumes src: "pd_inv source"
    and em: "\<forall>i < length (sd_strings (pathElements source)). \<exists>j. qm_lookup index_conv em (of_nat i) = Some j \<and>
      sd_at (pathElements d) j = Some (sd_strings (pathElements source) ! i)"
  shows "pd_inv (d\<lparr>paths := p\<rparr>) \<Longrightarrow> load_ok (ipd_hashIndex p) \<Longrightarrow> qm_inv index_conv r \<Longrightarrow> load_ok (qm_hash r) \<Longrightarrow>
    maps_paths source n (d\<lparr>paths := p\<rparr>) r \<Longrightarrow> 0 < n \<Longrightarrow> n \<le> length (pd_keys source) \<Longrightarrow>
    fst ` set (qm_data r) = insert NO_INDEX (of_nat ` {0..<n}) \<Longrightarrow>
    length (qm_data r) + (length (pd_keys source) - n) \<le> 119304647 \<Longrightarrow>
    length (ipd_data p) + (length (pd_keys source) - n) \<le> 119304646 \<Longrightarrow>
    \<exists>p' r' ks. pd_merge_loop source em [n..<length (pd_keys source)] p r = Some (p', r') \<and> pd_inv (d\<lparr>paths := p'\<rparr>) \<and>
      pd_keys (d\<lparr>paths := p'\<rparr>) = pd_keys (d\<lparr>paths := p\<rparr>) @ ks \<and>
      maps_paths source (length (pd_keys source)) (d\<lparr>paths := p'\<rparr>) r'"
proof (induction "length (pd_keys source) - n" arbitrary: n p r)
  case 0
  then show ?case by (intro exI [of _ p] exI [of _ r] exI [of _ "[]"]) simp
next
  case (Suc m)
  let ?d = "d\<lparr>paths := p\<rparr>" and ?ks = "pd_keys source"
  note inv = Suc.prems(1)
  have n: "n < length ?ks" using Suc.hyps(2) by simp
  have N: "length ?ks < 2 ^ LENGTH(32)" by (rule pd_keys_length [OF src])
  have un: "unat (of_nat k :: index_t) = k" if "k < length ?ks" for k using that N by (intro unat_of_nat_small) simp
  obtain q eid where src_n: "ipd_at (paths source) (of_nat n) = Some (q, eid)" "unat q < n"
      "unat eid < length (sd_strings (pathElements source))" "path_at ?ks n = path_at ?ks (unat q) @ [sd_strings (pathElements source) ! unat eid]"
    using pd_keys_at [OF src, of n] path_at_step [OF pd_invD(3) [OF src] Suc.prems(6) n] n un [OF n]
    by (cases "ipd_data (paths source) ! n") (auto simp: ipd_at_def)
  obtain parent where parent: "qm_lookup index_conv r q = Some parent" "unat parent < length (pd_keys ?d)"
      "pd_path ?d parent = path_at ?ks (unat q)"
    using Suc.prems(5) [unfolded maps_paths_def, THEN conjunct2, rule_format, OF src_n(2)] by auto
  obtain x where x: "qm_lookup index_conv em eid = Some x" "sd_at (pathElements d) x = Some (sd_strings (pathElements source) ! unat eid)"
    using em [rule_format, OF src_n(3)] by auto
  let ?e = "sd_strings (pathElements source) ! unat eid"
  have sd: "sd_inv (pathElements ?d)" by (rule pd_invD(1) [OF inv])
  then have x': "unat x < length (sd_strings (pathElements ?d))" "sd_strings (pathElements ?d) ! unat x = ?e"
    using x(2) by (auto simp: sd_at_eq split: if_splits)
  have "ipd_room (paths ?d)"
    using Suc.prems(2,10) n by (intro ipd_light_room [OF pd_invD(2) [OF inv]]) (simp add: ipd_light_def)
  from paths_AutoInsert_ok [OF inv this parent(2) x'] obtain p1 where
    p1: "ipd_AutoInsert (parent, x) p = Some (index_in (pd_keys (d\<lparr>paths := p1\<rparr>)) (parent, ?e), p1)" "pd_inv (d\<lparr>paths := p1\<rparr>)"
      "pd_keys (d\<lparr>paths := p1\<rparr>) = (if (parent, ?e) \<in> set (pd_keys ?d) then pd_keys ?d else pd_keys ?d @ [(parent, ?e)])"
      "ipd_light p \<longrightarrow> load_ok (ipd_hashIndex p1)" by auto
  let ?d1 = "d\<lparr>paths := p1\<rparr>" and ?i = "index_in (pd_keys (d\<lparr>paths := p1\<rparr>)) (parent, ?e) :: index_t"
  obtain t where t: "pd_keys ?d1 = pd_keys ?d @ t" "length t \<le> 1" using p1(3) by (cases "(parent, ?e) \<in> set (pd_keys ?d)") auto
  have "(parent, ?e) \<in> set (pd_keys ?d1)" using p1(3) by auto
  then have "pd_entry ?d1 ?i = Some (parent, ?e)"
    using path_pool.at_lookup [OF p1(2), of "(parent, ?e)" ?i] path_pool.pool_lookup [OF p1(2), of "(parent, ?e)"]
      path_pool.lookup_present_iff [OF p1(2), of "(parent, ?e)"] by auto
  then have i: "unat ?i < length (pd_keys ?d1)" "pd_path ?d1 ?i = path_at ?ks n"
    using pd_path_step [OF p1(2), of parent ?i ?e] parent(2,3) t(1) pd_path_extend [OF inv t(1) parent(2)] src_n(4)
    by (simp_all del: length_pd_keys)
  have rl: "length (qm_data r) \<le> 119304646" using Suc.prems(9) n by simp
  have "of_nat n \<notin> fst ` set (qm_data r)"
  proof
    assume "of_nat n \<in> fst ` set (qm_data r)"
    then consider "(of_nat n :: index_t) = NO_INDEX" | k where "k < n" "(of_nat n :: index_t) = of_nat k"
      using Suc.prems(8) by auto
    then show False
    proof cases
      case 1
      then show False using of_nat_neq_NO_INDEX [of n, where 'i = 32] n N by simp
    next
      case 2
      then show False using un [OF n] un [of k] n by (metis less_trans less_irrefl)
    qed
  qed
  from qm_insert_light [OF Suc.prems(3,4) rl this, of ?i] obtain r1 where
    r1: "qm_insert index_conv (of_nat n) ?i r = Some r1" "qm_inv index_conv r1" "qm_data r1 = qm_data r @ [(of_nat n, ?i)]"
      "load_ok (qm_hash r1)" by blast
  have look: "qm_lookup index_conv r1 = (qm_lookup index_conv r)(of_nat n \<mapsto> ?i)"
    by (rule qm_lookup_insert [OF Suc.prems(3) r1(2,3)])
  have maps: "maps_paths source (Suc n) ?d1 r1"
    unfolding maps_paths_def
  proof (intro conjI allI impI)
    have "(NO_INDEX :: index_t) \<noteq> of_nat n" using of_nat_neq_NO_INDEX [of n, where 'i = 32] n N by simp
    then show "qm_lookup index_conv r1 NO_INDEX = Some NO_INDEX" using Suc.prems(5) look by (simp add: maps_paths_def)
    fix k assume k: "k < Suc n"
    show "\<exists>j. qm_lookup index_conv r1 (of_nat k) = Some j \<and> unat j < length (pd_keys ?d1) \<and> pd_path ?d1 j = path_at ?ks k"
    proof (cases "k = n")
      case True
      then show ?thesis using look i by simp
    next
      case False
      then have "k < n" using k by simp
      then have ne: "(of_nat k :: index_t) \<noteq> of_nat n" using un [OF n] un [of k] n by (metis less_trans less_irrefl)
      obtain j where "qm_lookup index_conv r (of_nat k) = Some j" "unat j < length (pd_keys ?d)" "pd_path ?d j = path_at ?ks k"
        using Suc.prems(5) \<open>k < n\<close> unfolding maps_paths_def by blast
      then show ?thesis using look ne t(1) pd_path_extend [OF inv t(1)] by (simp del: length_pd_keys)
    qed
  qed
  have len: "length (ipd_data p1) \<le> length (ipd_data p) + 1" using arg_cong [OF t(1), of length] t(2) by simp
  have "\<exists>p' r' ks. pd_merge_loop source em [Suc n..<length ?ks] p1 r1 = Some (p', r') \<and> pd_inv (d\<lparr>paths := p'\<rparr>) \<and>
      pd_keys (d\<lparr>paths := p'\<rparr>) = pd_keys ?d1 @ ks \<and> maps_paths source (length ?ks) (d\<lparr>paths := p'\<rparr>) r'"
  proof (rule Suc.hyps(1) [OF _ p1(2) _ r1(2,4) maps])
    show "load_ok (ipd_hashIndex p1)" using p1(4) Suc.prems(2,10) n by (simp add: ipd_light_def)
    show "fst ` set (qm_data r1) = insert NO_INDEX (of_nat ` {0..<Suc n})"
      unfolding r1(3) using Suc.prems(8) by (auto simp: atLeast0_lessThan_Suc)
  qed (use Suc.hyps(2) Suc.prems(9,10) r1(3) n len in \<open>simp_all del: length_pd_keys\<close>)
  then obtain p' r' ks where R: "pd_merge_loop source em [Suc n..<length ?ks] p1 r1 = Some (p', r')" "pd_inv (d\<lparr>paths := p'\<rparr>)"
      "pd_keys (d\<lparr>paths := p'\<rparr>) = pd_keys ?d1 @ ks" "maps_paths source (length ?ks) (d\<lparr>paths := p'\<rparr>) r'" by blast
  have "[n..<length ?ks] = n # [Suc n..<length ?ks]" using n by (rule upt_conv_Cons)
  then have "pd_merge_loop source em [n..<length ?ks] p r = Some (p', r')"
    using src_n(1) parent(1) x(1) p1(1) r1(1) R(1) by simp
  then show ?case using R(2-4) t(1) by (metis append_assoc)
qed

lemma merge_mapping_init:
  "\<exists>r. (do { r0 \<leftarrow> qm_insert index_conv (0 :: index_t) (0 :: index_t) qm_init; qm_insert index_conv NO_INDEX NO_INDEX r0 }) = Some r \<and>
     qm_inv index_conv r \<and> qm_data r = [(0, 0), (NO_INDEX, NO_INDEX)] \<and> load_ok (qm_hash r)"
proof -
  have i: "qm_inv index_conv (qm_init :: index_mapping_t)" by (rule qm_inv_init)
  have "load_ok (qm_hash (qm_init :: index_mapping_t))" "length (qm_data (qm_init :: index_mapping_t)) \<le> 119304646"
    "(0 :: index_t) \<notin> fst ` set (qm_data (qm_init :: index_mapping_t))" by (simp_all add: qm_init_def)
  from qm_insert_light [OF i this, of 0] obtain r0 where
    r0: "qm_insert index_conv (0 :: index_t) (0 :: index_t) qm_init = Some r0" "qm_inv index_conv r0" "qm_data r0 = [(0, 0)]"
      "load_ok (qm_hash r0)" by (auto simp: qm_init_def)
  have "length (qm_data r0) \<le> 119304646" "(NO_INDEX :: index_t) \<notin> fst ` set (qm_data r0)"
    using r0(3) by (simp_all add: NO_INDEX_def)
  from qm_insert_light [OF r0(2,4) this, of NO_INDEX] r0(1,3) show ?thesis by auto
qed

lemma pd_Merge_ok:
  assumes src: "pd_inv source" and inv: "pd_inv d" and light: "pd_light d"
    and n: "length (sd_strings (pathElements d)) + length (sd_strings (pathElements source)) \<le> 119304646"
    and c: "length (packedStrings (pathElements d)) + length (packedStrings (pathElements source)) + 10 < 2 ^ 32"
    and k: "length (pd_keys d) + length (pd_keys source) \<le> 119304646"
  shows "\<exists>d' r ks. pd_Merge source d = Inr (d', r) \<and> pd_inv d' \<and> pd_keys d' = pd_keys d @ ks \<and>
    maps_paths source (length (pd_keys source)) d' r"
proof -
  obtain e em where e: "sd_Merge (pathElements source) (pathElements d) = Inr (e, em)" "sd_inv e"
      "sd_strings e = add_new (sd_strings (pathElements d)) (sd_strings (pathElements source))"
      "\<forall>i < length (sd_strings (pathElements source)). \<exists>j. qm_lookup index_conv em (of_nat i) = Some j \<and>
        sd_at e j = Some (sd_strings (pathElements source) ! i)"
    using sd_Merge_lookup [OF pd_invD(1) [OF src] pd_invD(1) [OF inv] _ n c] light by (auto simp: pd_light_def)
  obtain t where t: "sd_strings e = sd_strings (pathElements d) @ t" using add_new_prefix e(3) by metis
  let ?d1 = "d\<lparr>pathElements := e\<rparr>"
  have d1: "pd_keys ?d1 = pd_keys d" "pd_inv ?d1" using pd_keys_extend [OF inv e(2) t] by auto
  obtain r where r: "(do { r0 \<leftarrow> qm_insert index_conv (0 :: index_t) (0 :: index_t) qm_init; qm_insert index_conv NO_INDEX NO_INDEX r0 }) = Some r"
      "qm_inv index_conv r" "qm_data r = [(0, 0), (NO_INDEX, NO_INDEX)]" "load_ok (qm_hash r)"
    using merge_mapping_init by blast
  have tree: "0 < length (pd_keys d)" "0 < length (pd_keys source)" using pd_invD(3) [OF inv] pd_invD(3) [OF src]
    by (simp_all add: tree_ok_def del: length_pd_keys)
  have maps: "maps_paths source 1 (?d1\<lparr>paths := paths d\<rparr>) r"
    using tree(1) d1(1) by (simp add: maps_paths_def qm_lookup_map_of [OF r(2)] r(3) NO_INDEX_def)
  have sz: "unat (pd_size source) = length (pd_keys source)"
    using pd_keys_length [OF src] by (simp add: pd_size_def ipd_size_def unat_of_nat_small)
  have "\<exists>p' r' ks. pd_merge_loop source em [1..<length (pd_keys source)] (paths d) r = Some (p', r') \<and>
      pd_inv (?d1\<lparr>paths := p'\<rparr>) \<and> pd_keys (?d1\<lparr>paths := p'\<rparr>) = pd_keys (?d1\<lparr>paths := paths d\<rparr>) @ ks \<and>
      maps_paths source (length (pd_keys source)) (?d1\<lparr>paths := p'\<rparr>) r'"
  proof (rule pd_merge_loop_ok [OF src _ _ _ r(2,4) maps])
    show "\<forall>i < length (sd_strings (pathElements source)). \<exists>j. qm_lookup index_conv em (of_nat i) = Some j \<and>
        sd_at (pathElements ?d1) j = Some (sd_strings (pathElements source) ! i)" using e(4) by simp
    show "pd_inv (?d1\<lparr>paths := paths d\<rparr>)" using d1(2) by simp
    show "load_ok (ipd_hashIndex (paths d))" using light by (simp add: pd_light_def)
  qed (use tree k r(3) in \<open>simp_all add: Suc_le_eq insert_commute\<close>)
  then obtain p' r' ks where P: "pd_merge_loop source em [1..<length (pd_keys source)] (paths d) r = Some (p', r')"
      "pd_inv (?d1\<lparr>paths := p'\<rparr>)" "pd_keys (?d1\<lparr>paths := p'\<rparr>) = pd_keys d @ ks"
      "maps_paths source (length (pd_keys source)) (?d1\<lparr>paths := p'\<rparr>) r'"
    using d1(1) by auto
  have "pd_Merge source d = Inr (?d1\<lparr>paths := p'\<rparr>, r')"
    unfolding pd_Merge_def r(1) e(1) sz of_opt_simps bindE.simps case_prod_conv P(1) by simp
  then show ?thesis using P(2-4) by blast
qed

subsection \<open>Properties\<close>

lemma ancestor_exists:
  assumes inv: "pd_inv d"
  shows "unat i < length (pd_keys d) \<Longrightarrow> pd_path d i = xs @ ys \<Longrightarrow> \<exists>j. unat j < length (pd_keys d) \<and> pd_path d j = xs"
proof (induction "unat i" arbitrary: i ys rule: less_induct)
  case less
  show ?case
  proof (cases "ys = []")
    case True
    then show ?thesis using less.prems by auto
  next
    case False
    then have "i \<noteq> 0" using less.prems(2) by auto
    then obtain p e where p: "unat p < unat i" "pd_path d i = pd_path d p @ [e]" using pd_parent [OF inv less.prems(1)] by blast
    then have "pd_path d p = xs @ butlast ys" using less.prems(2) False by (metis butlast_append butlast_snoc)
    then show ?thesis using less.hyps [OF p(1)] p(1) less.prems(1) by auto
  qed
qed

lemma pd_inv_root: "pd_inv d \<Longrightarrow> unat (0 :: index_t) < length (pd_keys d)"
  using pd_invD(3) [of d] by (simp add: tree_ok_def del: length_pd_keys)

lemma dbp_lookup_known:
  assumes inv: "pd_inv d" and i: "unat i < length (pd_keys d)" "pd_path d i = path_elements path"
  shows "dbp_lookup d path = Some i"
proof -
  obtain j k where j: "parse_lookup d False (path_elements path) 0 0 [] = Some (j, [])" "unat j < length (pd_keys d)"
      "pd_path d j = take k (path_elements path)" "k \<le> length (path_elements path)"
      "k < length (path_elements path) \<longrightarrow> (\<forall>j. unat j < length (pd_keys d) \<longrightarrow> pd_path d j \<noteq> take (Suc k) (path_elements path))"
    using parse_lookup_ok [OF inv pd_inv_root [OF inv], of "path_elements path"] by auto
  have "\<not> k < length (path_elements path)"
    using j(5) ancestor_exists [OF inv i(1), of "take (Suc k) (path_elements path)" "drop (Suc k) (path_elements path)"] i(2)
    by auto
  then have "pd_path d j = pd_path d i" using j(3,4) i(2) by simp
  then show ?thesis using j(1) pd_path_eq_iff [OF inv j(2) i(1)] by (simp add: dbp_lookup_def)
qed

text \<open>
  C26.  Interning a path in a well-formed dictionary with enough room succeeds.  The index it
  returns stands for exactly the elements of the path, looking the path up returns this index,
  and every index that existed before still stands for the same path.
\<close>

theorem path_insert_then_lookup:
  assumes inv: "pd_inv d" and room: "pd_room (length (path_elements path)) (length (packed_of (path_elements path))) d"
  shows "\<exists>i d'. dbp_insert path d = Inr (i, d') \<and> pd_inv d' \<and> pd_light d' \<and> pd_path d' i = path_elements path \<and>
    dbp_lookup d' path = Some i \<and>
    (\<forall>j. unat j < length (pd_keys d) \<longrightarrow> pd_path d' j = pd_path d j)"
proof -
  obtain i d' ks where R: "parse_insert (path_elements path) 0 d = Inr (i, d')" "pd_inv d'" "pd_light d'"
      "pd_keys d' = pd_keys d @ ks" "unat i < length (pd_keys d')" "pd_path d' i = path_elements path"
  proof -
    have z: "\<forall>e \<in> set (path_elements path). 0 \<notin> set e" using path_elements_no_zero by blast
    from parse_insert_ok [OF inv pd_inv_root [OF inv] room this] that show thesis unfolding pd_path_0 append_Nil by blast
  qed
  then show ?thesis using dbp_lookup_known [OF R(2,5,6)] pd_path_extend [OF inv R(4)] by (auto simp: dbp_insert_def)
qed

theorem path_insert_then_lookup_witness:
  "\<exists>d i d'. pd_init = Inr d \<and> dbp_insert [47, 97, 47, 98] d = Inr (i, d') \<and> pd_path d' i = [[97], [98]]"
proof -
  obtain d where d: "pd_init = Inr d" "pd_inv d" "pd_keys d = [(NO_INDEX, [])]" "sd_strings (pathElements d) = [[]]" "pd_light d"
    using pd_init_ok by blast
  have e: "path_elements [47, 97, 47, 98] = [[97], [98]]"
    using path_elements_text [of "[[97], [98]]"] by (simp add: text_of_def slash_def)
  have "length (ipd_data (paths d)) = 1" using arg_cong [OF d(3), of length] by simp
  then have "pd_room (length (path_elements [47, 97, 47, 98])) (length (packed_of (path_elements [47, 97, 47, 98]))) d"
    unfolding e using d(4,5) by (simp add: pd_room_def)
  then show ?thesis using path_insert_then_lookup [OF d(2)] d(1) e by metis
qed

text \<open>
  C27.  Printing an interned path gives back its text: the elements from the root, each behind a slash.
\<close>

theorem path_text_roundtrip:
  assumes inv: "pd_inv d" and room: "pd_room (length es) (length (packed_of es)) d"
    and es: "es \<noteq> []" "\<forall>e \<in> set es. slash \<notin> set e \<and> 0 \<notin> set e" and len: "length es \<le> maxPath"
  shows "\<exists>i d'. dbp_insert (text_of es) d = Inr (i, d') \<and> dbp_GetPath d' maxPath i = Inr (text_of es) \<and>
    dbp_GetDepth d' i = Some (of_nat (length es))"
proof -
  have pe: "path_elements (text_of es) = es" by (rule path_elements_text [OF es])
  obtain i d' ks where R: "parse_insert es 0 d = Inr (i, d')" "pd_inv d'"
      "unat i < length (pd_keys d')" "pd_path d' i = es"
    using parse_insert_ok [OF inv pd_inv_root [OF inv] room] es(2) by auto
  have "i \<noteq> NO_INDEX" using R(3) pd_keys_length [OF R(2)] unat_NO_INDEX [where 'i = 32] by auto
  then show ?thesis using R dbp_GetPath_eq [OF R(2,3), of maxPath] depth_loop_eq [OF R(2,3)] es(1) len pe
    by (simp add: dbp_insert_def dbp_GetDepth_def)
qed

theorem path_text_roundtrip_witness:
  "\<exists>d i d'. pd_init = Inr d \<and> dbp_insert (text_of [[97], [98]]) d = Inr (i, d') \<and>
     dbp_GetPath d' 260 i = Inr [47, 97, 47, 98]"
proof -
  obtain d where d: "pd_init = Inr d" "pd_inv d" "pd_keys d = [(NO_INDEX, [])]" "sd_strings (pathElements d) = [[]]" "pd_light d"
    using pd_init_ok by blast
  have "length (ipd_data (paths d)) = 1" using arg_cong [OF d(3), of length] by simp
  then have "pd_room (length [[97], [98 :: byte]]) (length (packed_of [[97], [98]])) d"
    using d(4,5) by (simp add: pd_room_def)
  from path_text_roundtrip [OF d(2) this, of 260] d(1) show ?thesis by (auto simp: text_of_def slash_def)
qed

text \<open>
  The tree queries are the queries on element lists: the depth is the length of the path,
  "same or parent of" is the prefix relation, and "contains" is membership of the element.
\<close>

lemma path_tree_queries:
  assumes "pd_inv d" "unat l < length (pd_keys d)" "unat r < length (pd_keys d)"
    "unat x < length (sd_strings (pathElements d))"
  shows "depth_loop d l = Some (of_nat (length (pd_path d l))) \<and>
    dbp_IsSameOrParentOf d l r = Some (prefix (pd_path d l) (pd_path d r)) \<and>
    dbp_Contains d l x = Some (sd_strings (pathElements d) ! unat x \<in> set (pd_path d l))"
  using assms by (simp add: depth_loop_eq IsSameOrParentOf_eq Contains_eq)

lemma path_tree_queries_witness:
  "\<exists>d. pd_init = Inr d \<and> depth_loop d 0 = Some 0 \<and> dbp_IsSameOrParentOf d 0 0 = Some True \<and> dbp_Contains d 0 0 = Some False"
proof -
  obtain d where d: "pd_init = Inr d" "pd_inv d" "sd_strings (pathElements d) = [[]]" using pd_init_ok by blast
  from path_tree_queries [OF d(2) pd_inv_root [OF d(2)] pd_inv_root [OF d(2)], of 0] d(3)
  have "depth_loop d 0 = Some 0 \<and> dbp_IsSameOrParentOf d 0 0 = Some True \<and> dbp_Contains d 0 0 = Some False" by simp
  with d(1) show ?thesis by blast
qed

text \<open>
  C28.  The common root of two paths is the longest common prefix of their elements; in particular
  the loop ends.
\<close>

theorem path_common_root:
  assumes "pd_inv d" "unat l < length (pd_keys d)" "unat r < length (pd_keys d)"
  shows "\<exists>c. dbp_GetCommonRoot d l r = Some c \<and> pd_path d c = longest_common_prefix (pd_path d l) (pd_path d r)"
  using GetCommonRoot_eq [OF assms] by blast

theorem path_common_root_witness:
  "\<exists>d c. pd_init = Inr d \<and> dbp_GetCommonRoot d 0 0 = Some c \<and> pd_path d c = []"
proof -
  obtain d where d: "pd_init = Inr d" "pd_inv d" using pd_init_ok by blast
  from path_common_root [OF d(2) pd_inv_root [OF d(2)] pd_inv_root [OF d(2)]] d(1) show ?thesis by auto
qed

text \<open>
  C29.  Merging a path dictionary into another keeps the indexes of the target, and the mapping it
  returns takes each index of the source to an index of the target that stands for the same path.
\<close>

theorem path_dictionary_merge:
  assumes "pd_inv source" "pd_inv d" "pd_light d"
    "length (sd_strings (pathElements d)) + length (sd_strings (pathElements source)) \<le> 119304646"
    "length (packedStrings (pathElements d)) + length (packedStrings (pathElements source)) + 10 < 2 ^ 32"
    "length (pd_keys d) + length (pd_keys source) \<le> 119304646"
  shows "\<exists>d' r ks. pd_Merge source d = Inr (d', r) \<and> pd_inv d' \<and> pd_keys d' = pd_keys d @ ks \<and>
    (\<forall>i < length (pd_keys source). \<exists>j. qm_lookup index_conv r (of_nat i) = Some j \<and>
       unat j < length (pd_keys d') \<and> pd_path d' j = path_at (pd_keys source) i)"
  using pd_Merge_ok [OF assms] unfolding maps_paths_def by blast

theorem path_dictionary_merge_witness:
  "\<exists>d d' r. pd_init = Inr d \<and> pd_Merge d d = Inr (d', r) \<and> pd_inv d'"
proof -
  obtain d where d: "pd_init = Inr d" "pd_inv d" "pd_keys d = [(NO_INDEX, [])]" "sd_strings (pathElements d) = [[]]" "pd_light d"
    using pd_init_ok by blast
  have "length (ipd_data (paths d)) = 1" using arg_cong [OF d(3), of length] by simp
  moreover have "length (packedStrings (pathElements d)) = 1"
    using sd_inv_rep(1) [OF pd_invD(1) [OF d(2)]] d(4) by (simp add: sd_packs_def)
  ultimately show ?thesis using path_dictionary_merge [OF d(2,2,5)] d(1,4) by auto
qed

definition cyclic_dictionary :: path_dictionary where
  "cyclic_dictionary =
     \<lparr>pathElements = \<lparr>packedStrings = [0], offsets = [0, 1], sd_hashIndex = quick_hash_init\<rparr>,
      paths = \<lparr>ipd_data = [(NO_INDEX, 0), (1, 0)], ipd_hashIndex = quick_hash_init\<rparr>\<rparr>"

lemma depth_loop_self:
  assumes "pd_GetParent d0 i = Some i" "i \<noteq> 0"
  shows "depth_loop d j = Some n \<Longrightarrow> \<not> (d = d0 \<and> j = i)"
proof (erule depth_loop.raw_induct [where P = "\<lambda>d j n. \<not> (d = d0 \<and> j = i)", rotated])
  fix f d j n
  assume "\<And>d j n. f d j = Some n \<Longrightarrow> \<not> (d = d0 \<and> j = i)"
    "(if j = 0 then Some 0 else Option.bind (pd_GetParent d j) (\<lambda>p. Option.bind (f d p) (\<lambda>n. Some (n + 1)))) = Some n"
  then show "\<not> (d = d0 \<and> j = i)" using assms by (auto split: if_splits bind_splits)
qed

text \<open>
  C39.  The check of loaded data accepts a dictionary whose path 1 is its own parent, although the
  tree queries rely on parents having smaller indexes: the depth of that path is never computed.
\<close>

theorem validate_accepts_cycle:
  "pd_Validate cyclic_dictionary = Inr () \<and> dbp_GetDepth cyclic_dictionary 1 = None"
proof
  show "pd_Validate cyclic_dictionary = Inr ()"
    by (simp add: pd_Validate_def cyclic_dictionary_def sd_size_def ipd_size_def word_le_nat_alt NO_INDEX_def)
  have "pd_GetParent cyclic_dictionary 1 = Some 1" by (simp add: pd_GetParent_def ipd_at_def cyclic_dictionary_def)
  then have "depth_loop cyclic_dictionary 1 = None"
    using depth_loop_self [of cyclic_dictionary 1] by (cases "depth_loop cyclic_dictionary 1") auto
  then show "dbp_GetDepth cyclic_dictionary 1 = None" by (simp add: dbp_GetDepth_def NO_INDEX_def)
qed

text \<open>
  The conversion to a buffer of limited size drops elements at the root's end and
  forgets their slashes: on a path \<open>/ab/cd\<close> and a buffer of 5 characters it writes \<open>/cd\<close>, three
  characters, and returns a pointer to the end of four.
\<close>

lemma limited_text_wrong_end:
  assumes "pd_inv d" "unat i < length (pd_keys d)" "pd_path d i = [[97, 98], [99, 100]]" "2 \<le> maxPath"
  shows "dbp_GetPath_limited d maxPath 5 i = Inr ([47, 99, 100], 4)"
proof -
  have "i \<noteq> NO_INDEX" using assms(2) pd_keys_length [OF assms(1)] unat_NO_INDEX [where 'i = 32] by auto
  moreover have "collect_elements d maxPath i = Some [([99, 100], 2), ([97, 98], 2)]"
    using collect_elements_eq [OF assms(1,2), of maxPath] assms(3,4) by simp
  ultimately show ?thesis
    by (simp add: dbp_GetPath_limited_def dbp_CollectPathElements_def numeral_eq_Suc copy_path_elements_def slash_def)
qed

lemma limited_text_wrong_end_witness:
  "\<exists>d i. dbp_GetPath_limited d 260 5 i = Inr ([47, 99, 100], 4)"
proof -
  obtain d where d: "pd_inv d" "pd_keys d = [(NO_INDEX, [])]" "sd_strings (pathElements d) = [[]]" "pd_light d"
    using pd_init_ok by blast
  have "length (ipd_data (paths d)) = 1" using arg_cong [OF d(2), of length] by simp
  then have "pd_room (length [[97, 98], [99, 100 :: byte]]) (length (packed_of [[97, 98], [99, 100]])) d"
    using d(3,4) by (simp add: pd_room_def)
  from parse_insert_ok [OF d(1) pd_inv_root [OF d(1)] this]
  obtain i d' where "pd_inv d'" "unat i < length (pd_keys d')" "pd_path d' i = [[97, 98], [99, 100]]" by auto
  from limited_text_wrong_end [OF this, of 260] show ?thesis by auto
qed

end
