(* ===== verification/DictionaryBasedTempPath.thy ===== *)
theory DictionaryBasedTempPath
  imports PathDictionary
begin

section \<open>CDictionaryBasedTempPath (src/LogCache/Containers/DictionaryBasedTempPath)\<close>

text \<open>
  A path that need not be stored in the dictionary: a dictionary-based path and the elements that
  follow it.  The lemmas read it as one list of elements (\<open>tp_full\<close>) and show when parsing, the
  repeated lookup and the conversion to text agree with it; further theorems show where the common
  root, the order and the renaming of a parent do not do what they promise.
\<close>

record temp_path =
  tp_index :: index_t
  tp_relPathElements :: "byte list list"

definition tp_invalid :: temp_path where
  "tp_invalid = \<lparr>tp_index = NO_INDEX, tp_relPathElements = []\<rparr>"

definition tp_of_path :: "index_t \<Rightarrow> temp_path" where
  "tp_of_path path = \<lparr>tp_index = path, tp_relPathElements = []\<rparr>"

definition tp_parse :: "path_dictionary \<Rightarrow> byte list \<Rightarrow> temp_path option" where
  "tp_parse d path = do {
     (i, rel) \<leftarrow> parse_lookup d True (path_elements path) 0 0 [];
     Some \<lparr>tp_index = i, tp_relPathElements = rel\<rparr>
   }"

definition tp_IsValid :: "temp_path \<Rightarrow> bool" where
  "tp_IsValid t \<longleftrightarrow> tp_index t \<noteq> NO_INDEX"

definition tp_Invalidate :: "temp_path \<Rightarrow> temp_path" where
  "tp_Invalidate t = t\<lparr>tp_index := NO_INDEX, tp_relPathElements := []\<rparr>"

definition tp_IsFullyCachedPath :: "temp_path \<Rightarrow> bool" where
  "tp_IsFullyCachedPath t \<longleftrightarrow> tp_relPathElements t = []"

definition tp_IsRoot :: "temp_path \<Rightarrow> bool" where
  "tp_IsRoot t \<longleftrightarrow> tp_index t = 0 \<and> tp_relPathElements t = []"

definition tp_GetDepth :: "path_dictionary \<Rightarrow> temp_path \<Rightarrow> index_t option" where
  "tp_GetDepth d t = do { n \<leftarrow> dbp_GetDepth d (tp_index t); Some (n + of_nat (length (tp_relPathElements t))) }"

definition tp_at :: "path_dictionary \<Rightarrow> temp_path \<Rightarrow> nat \<Rightarrow> byte list option" where
  "tp_at d t ind = do {
     parentDepth \<leftarrow> dbp_GetDepth d (tp_index t);
     if ind < unat parentDepth then dbp_ReverseAt d (tp_index t) (unat parentDepth - ind - 1)
     else if ind - unat parentDepth < length (tp_relPathElements t)
          then Some (tp_relPathElements t ! (ind - unat parentDepth)) else None
   }"

text \<open>
  The common root of two paths with the same base walks two iterators over the relative elements.
  Both are taken from the object itself: \<open>rhsIter\<close> starts at its own \<open>relPathElements\<close>.
\<close>

fun match_elements :: "byte list list \<Rightarrow> byte list list \<Rightarrow> byte list list" where
  "match_elements (x # xs) (y # ys) = (if x = y then x # match_elements xs ys else [])"
| "match_elements _ _ = []"

definition tp_GetCommonRoot :: "path_dictionary \<Rightarrow> temp_path \<Rightarrow> temp_path \<Rightarrow> temp_path option" where
  "tp_GetCommonRoot d t rhs =
     (if tp_index rhs \<noteq> tp_index t
      then map_option tp_of_path (dbp_GetCommonRoot d (tp_index t) (tp_index rhs))
      else Some \<lparr>tp_index = tp_index t,
                 tp_relPathElements = match_elements (tp_relPathElements t) (tp_relPathElements t)\<rparr>)"

definition tp_IsSameOrParentOf :: "path_dictionary \<Rightarrow> temp_path \<Rightarrow> index_t \<Rightarrow> bool option" where
  "tp_IsSameOrParentOf d t rhsIndex =
     (if tp_IsFullyCachedPath t then dbp_IsSameOrParentOf d (tp_index t) rhsIndex else Some False)"

definition tp_IsSameOrChildOf :: "path_dictionary \<Rightarrow> temp_path \<Rightarrow> index_t \<Rightarrow> bool option" where
  "tp_IsSameOrChildOf d t rhsIndex = dbp_IsSameOrParentOf d rhsIndex (tp_index t)"

definition tp_equal :: "temp_path \<Rightarrow> temp_path \<Rightarrow> bool" where
  "tp_equal t rhs \<longleftrightarrow> tp_index t = tp_index rhs \<and>
     length (tp_relPathElements t) = length (tp_relPathElements rhs) \<and>
     tp_relPathElements t = tp_relPathElements rhs"

definition tp_equal_path :: "temp_path \<Rightarrow> index_t \<Rightarrow> bool" where
  "tp_equal_path t rhs \<longleftrightarrow> tp_IsFullyCachedPath t \<and> tp_index t = rhs"

fun append_elements :: "byte list \<Rightarrow> byte list list \<Rightarrow> byte list" where
  "append_elements result [] = result"
| "append_elements result (e # es) =
     append_elements ((if length result > 1 then result @ [slash] else result) @ e) es"

definition tp_GetPath :: "path_dictionary \<Rightarrow> nat \<Rightarrow> temp_path \<Rightarrow> container_error + byte list" where
  "tp_GetPath d maxPath t =
     bindE (dbp_GetPath d maxPath (tp_index t)) (\<lambda>result. Inr (append_elements result (tp_relPathElements t)))"

text \<open>\<open>substr\<close> throws when its position is beyond the end.\<close>

definition substr :: "byte list \<Rightarrow> nat \<Rightarrow> container_error + byte list" where
  "substr s pos = (if pos > length s then Inl StdOutOfRange else Inr (drop pos s))"

definition tp_ReplaceParent ::
    "path_dictionary \<Rightarrow> nat \<Rightarrow> temp_path \<Rightarrow> index_t \<Rightarrow> index_t \<Rightarrow> container_error + temp_path" where
  "tp_ReplaceParent d maxPath t oldParent newParent =
     bindE (dbp_GetPath d maxPath newParent) (\<lambda>newText.
     bindE (tp_GetPath d maxPath t) (\<lambda>text.
     bindE (dbp_GetPath d maxPath oldParent) (\<lambda>oldText.
     bindE (substr text (length oldText)) (\<lambda>rest.
       of_opt (tp_parse d (newText @ rest))))))"

fun repeat_lookup_loop :: "path_dictionary \<Rightarrow> index_t \<Rightarrow> byte list list \<Rightarrow> (index_t \<times> byte list list) option" where
  "repeat_lookup_loop d currentIndex [] = Some (currentIndex, [])"
| "repeat_lookup_loop d currentIndex (e # es) = do {
     nextIndex \<leftarrow> pd_Find currentIndex (takeWhile (\<lambda>c. c \<noteq> 0) e) d;
     if nextIndex = NO_INDEX then Some (currentIndex, e # es) else repeat_lookup_loop d nextIndex es
   }"

definition tp_RepeatLookup :: "path_dictionary \<Rightarrow> temp_path \<Rightarrow> temp_path option" where
  "tp_RepeatLookup d t =
     (if tp_relPathElements t = [] then Some t else do {
        (currentIndex, rest) \<leftarrow> repeat_lookup_loop d (tp_index t) (tp_relPathElements t);
        Some (if rest \<noteq> []
              then (if length rest \<noteq> length (tp_relPathElements t)
                    then t\<lparr>tp_relPathElements := rest, tp_index := currentIndex\<rparr> else t)
              else (if tp_index t \<noteq> currentIndex
                    then t\<lparr>tp_relPathElements := [], tp_index := currentIndex\<rparr> else t))
      })"

text \<open>
  The order first compares the indexes through the difference of two unsigned 32 bit values,
  which is widened to a signed 64 bit value; then the numbers of elements; then the elements.
\<close>

fun lex_less :: "('a \<Rightarrow> 'a \<Rightarrow> bool) \<Rightarrow> 'a list \<Rightarrow> 'a list \<Rightarrow> bool" where
  "lex_less lt [] ys \<longleftrightarrow> ys \<noteq> []"
| "lex_less lt (x # xs) [] \<longleftrightarrow> False"
| "lex_less lt (x # xs) (y # ys) \<longleftrightarrow> lt x y \<or> (\<not> lt y x \<and> lex_less lt xs ys)"

definition tp_less :: "temp_path \<Rightarrow> temp_path \<Rightarrow> bool" where
  "tp_less lhs rhs =
     (let diff = sint (ucast (tp_index lhs - tp_index rhs) :: 64 word)
      in if diff < 0 then True else if diff > 0 then False
         else let diff = sint (of_nat (length (tp_relPathElements lhs)) - of_nat (length (tp_relPathElements rhs)) :: 64 word)
              in if diff < 0 then True else if diff > 0 then False
                 else lex_less (lex_less (<)) (tp_relPathElements lhs) (tp_relPathElements rhs))"

subsection \<open>The path as a list of elements\<close>

definition tp_full :: "path_dictionary \<Rightarrow> temp_path \<Rightarrow> byte list list" where
  "tp_full d t = pd_path d (tp_index t) @ tp_relPathElements t"

definition tp_ok :: "path_dictionary \<Rightarrow> temp_path \<Rightarrow> bool" where
  "tp_ok d t \<longleftrightarrow> pd_inv d \<and> unat (tp_index t) < length (pd_keys d) \<and> (\<forall>e \<in> set (tp_relPathElements t). 0 \<notin> set e)"

lemma match_elements_same: "match_elements xs xs = xs"
  by (induction xs) auto

lemma append_elements_text:
  "1 < length result \<Longrightarrow> append_elements result es = result @ text_of es"
proof (induction es arbitrary: result)
  case (Cons e es)
  have "1 < length (result @ slash # e)"
    unfolding length_append by (rule trans_less_add1 [OF Cons.prems])
  then show ?case using Cons.IH [of "result @ slash # e"] Cons.prems by (simp add: text_of_def)
qed (simp add: text_of_def)

lemma text_of_append: "text_of (xs @ ys) = text_of xs @ text_of ys"
  by (simp add: text_of_def)

lemma tp_GetPath_text:
  assumes ok: "tp_ok d t" and len: "length (pd_path d (tp_index t)) \<le> maxPath"
    and ne: "tp_full d t \<noteq> []" "[] \<notin> set (tp_full d t)"
  shows "tp_GetPath d maxPath t = Inr (text_of (tp_full d t))"
proof -
  have inv: "pd_inv d" "unat (tp_index t) < length (pd_keys d)" using ok by (auto simp: tp_ok_def)
  show ?thesis
  proof (cases "pd_path d (tp_index t)")
    case Nil
    then obtain e es where e: "tp_relPathElements t = e # es" "e \<noteq> []"
      using ne by (cases "tp_relPathElements t") (auto simp: tp_full_def)
    then have "append_elements [slash] (e # es) = (slash # e) @ text_of es"
      using append_elements_text [of "slash # e" es] by (cases e) auto
    then show ?thesis using dbp_GetPath_eq [OF inv, of maxPath] Nil e
      by (simp add: tp_GetPath_def tp_full_def text_of_def)
  next
    case (Cons a as)
    then have "1 < length (text_of (pd_path d (tp_index t)))"
      using ne(2) by (cases a) (auto simp: tp_full_def text_of_def)
    moreover have "dbp_GetPath d maxPath (tp_index t) = Inr (text_of (pd_path d (tp_index t)))"
      using dbp_GetPath_eq [OF inv, of maxPath] Cons len by simp
    ultimately show ?thesis using append_elements_text [of "text_of (pd_path d (tp_index t))" "tp_relPathElements t"]
      by (simp add: tp_GetPath_def tp_full_def text_of_append)
  qed
qed

lemma repeat_lookup_loop_ok:
  assumes inv: "pd_inv d"
  shows "unat i < length (pd_keys d) \<Longrightarrow> \<forall>e \<in> set es. 0 \<notin> set e \<Longrightarrow>
    \<exists>j rest. repeat_lookup_loop d i es = Some (j, rest) \<and> unat j < length (pd_keys d) \<and>
      pd_path d j @ rest = pd_path d i @ es \<and> length rest \<le> length es \<and> set rest \<subseteq> set es \<and>
      (length rest = length es \<longrightarrow> j = i) \<and>
      (rest \<noteq> [] \<longrightarrow> (\<forall>k. unat k < length (pd_keys d) \<longrightarrow> pd_path d k \<noteq> pd_path d j @ [hd rest]))"
proof (induction es arbitrary: i)
  case (Cons e es)
  have e: "takeWhile (\<lambda>c. c \<noteq> 0) e = e" using Cons.prems(2) by (auto simp: takeWhile_eq_all_conv)
  obtain n where f: "pd_Find i e d = Some n" using pd_Find_eq [OF inv] by blast
  show ?case
  proof (cases "n = NO_INDEX")
    case True
    then show ?thesis using f e Cons.prems pd_Find_none [OF inv Cons.prems(1), of e]
      by (intro exI [of _ i] exI [of _ "e # es"]) (simp del: takeWhile_eq_all_conv)
  next
    case False
    have st: "unat n < length (pd_keys d)" "pd_path d n = pd_path d i @ [e]"
      using pd_Find_path [OF inv Cons.prems(1) f False] by auto
    have z: "\<forall>e \<in> set es. 0 \<notin> set e" using Cons.prems(2) by simp
    obtain j rest where IH: "repeat_lookup_loop d n es = Some (j, rest)" "unat j < length (pd_keys d)"
      "pd_path d j @ rest = pd_path d n @ es" "length rest \<le> length es" "set rest \<subseteq> set es"
      "rest \<noteq> [] \<longrightarrow> (\<forall>k. unat k < length (pd_keys d) \<longrightarrow> pd_path d k \<noteq> pd_path d j @ [hd rest])"
      using Cons.IH [OF st(1) z] by blast
    have "repeat_lookup_loop d i (e # es) = Some (j, rest)" using f e False IH(1) by (simp del: takeWhile_eq_all_conv)
    then show ?thesis using IH(2-6) st(2) by (intro exI [of _ j] exI [of _ rest]) auto
  qed
qed auto

subsection \<open>Properties\<close>

text \<open>
  C30.  Parsing the text of a path of at least one and at most \<open>maxPath\<close> elements, none of them empty (so no doubled and no
  trailing slash, and not the root), without zero bytes, splits it into the longest known path and the elements behind it, so
  that the whole is unchanged and the text is given back.  A trailing slash is excluded with reason: it can lose the known part
  (\<open>temp_path_trailing_slash\<close> below).
\<close>

theorem temp_path_parse:
  assumes inv: "pd_inv d" and es: "es \<noteq> []" "\<forall>e \<in> set es. e \<noteq> [] \<and> slash \<notin> set e \<and> 0 \<notin> set e" "length es \<le> maxPath"
  shows "\<exists>t. tp_parse d (text_of es) = Some t \<and> tp_full d t = es \<and> tp_GetPath d maxPath t = Inr (text_of es) \<and>
    (tp_relPathElements t \<noteq> [] \<longrightarrow> (\<forall>j. unat j < length (pd_keys d) \<longrightarrow>
       pd_path d j \<noteq> pd_path d (tp_index t) @ [hd (tp_relPathElements t)]))"
proof -
  have pe: "path_elements (text_of es) = es" using es by (intro path_elements_text) auto
  obtain i rel where R: "parse_lookup d True es 0 0 [] = Some (i, rel)" "unat i < length (pd_keys d)"
      "pd_path d i @ rel = es" "rel \<noteq> [] \<longrightarrow> (\<forall>j. unat j < length (pd_keys d) \<longrightarrow> pd_path d j \<noteq> pd_path d i @ [hd rel])"
    using parse_lookup_relative [OF inv pd_inv_root [OF inv], of es] es(2) by auto
  let ?t = "\<lparr>tp_index = i, tp_relPathElements = rel\<rparr>"
  have full: "tp_full d ?t = es" using R(3) by (simp add: tp_full_def)
  have "tp_ok d ?t" using inv R(2,3) es(2) by (auto simp: tp_ok_def)
  moreover have "length (pd_path d i) \<le> maxPath" using R(3) es(3) by auto
  ultimately have "tp_GetPath d maxPath ?t = Inr (text_of es)"
    using tp_GetPath_text [of d ?t maxPath] es full by auto
  then show ?thesis using R full pe by (auto simp: tp_parse_def)
qed

theorem temp_path_parse_witness:
  "\<exists>d t. pd_init = Inr d \<and> tp_parse d (text_of [[97], [98]]) = Some t \<and> tp_GetPath d 260 t = Inr (text_of [[97], [98]])"
proof -
  obtain d where d: "pd_init = Inr d" "pd_inv d" using pd_init_ok by blast
  from temp_path_parse [OF d(2), of "[[97], [98]]" 260] d(1) show ?thesis by (auto simp: slash_def)
qed

text \<open>
  Repeating the lookup after the dictionary grew keeps the path and leaves the shortest
  possible list of relative elements: the first of them is not a child of the new base.
\<close>

lemma temp_path_repeat_lookup:
  assumes "tp_ok d t"
  shows "\<exists>t'. tp_RepeatLookup d t = Some t' \<and> tp_ok d t' \<and> tp_full d t' = tp_full d t \<and>
    (tp_relPathElements t' \<noteq> [] \<longrightarrow> (\<forall>k. unat k < length (pd_keys d) \<longrightarrow>
       pd_path d k \<noteq> pd_path d (tp_index t') @ [hd (tp_relPathElements t')]))"
proof -
  have ok: "pd_inv d" "unat (tp_index t) < length (pd_keys d)" "\<forall>e \<in> set (tp_relPathElements t). 0 \<notin> set e"
    using assms by (auto simp: tp_ok_def)
  obtain j rest where R: "repeat_lookup_loop d (tp_index t) (tp_relPathElements t) = Some (j, rest)" "unat j < length (pd_keys d)"
      "pd_path d j @ rest = tp_full d t" "length rest \<le> length (tp_relPathElements t)" "set rest \<subseteq> set (tp_relPathElements t)"
      "length rest = length (tp_relPathElements t) \<longrightarrow> j = tp_index t"
      "rest \<noteq> [] \<longrightarrow> (\<forall>k. unat k < length (pd_keys d) \<longrightarrow> pd_path d k \<noteq> pd_path d j @ [hd rest])"
    using repeat_lookup_loop_ok [OF ok(1-3)] by (auto simp: tp_full_def)
  let ?t = "t\<lparr>tp_relPathElements := rest, tp_index := j\<rparr>"
  have "tp_RepeatLookup d t = Some ?t"
  proof (cases "tp_relPathElements t = []")
    case True
    then have "rest = []" "j = tp_index t" using R(4,6) by auto
    then show ?thesis using True by (simp add: tp_RepeatLookup_def)
  next
    case False
    then have "rest = [] \<Longrightarrow> j \<noteq> tp_index t" using R(3) by (auto simp: tp_full_def)
    moreover have "length rest = length (tp_relPathElements t) \<Longrightarrow> t = ?t" using R(3,6) by (simp add: tp_full_def)
    ultimately show ?thesis using False R(1) by (auto simp: tp_RepeatLookup_def)
  qed
  moreover have "tp_ok d ?t" using ok R(2,5) by (auto simp: tp_ok_def)
  ultimately show ?thesis using R(3,7) by (auto simp: tp_full_def)
qed

lemma temp_path_repeat_lookup_witness:
  "\<exists>d t. pd_init = Inr d \<and> tp_RepeatLookup d \<lparr>tp_index = 0, tp_relPathElements = [[97]]\<rparr> = Some t \<and> tp_full d t = [[97]]"
proof -
  obtain d where d: "pd_init = Inr d" "pd_inv d" using pd_init_ok by blast
  have "tp_ok d \<lparr>tp_index = 0, tp_relPathElements = [[97]]\<rparr>"
    using d(2) pd_inv_root [OF d(2)] by (simp add: tp_ok_def)
  from temp_path_repeat_lookup [OF this] d(1) show ?thesis by (auto simp: tp_full_def)
qed

text \<open>
  The common root of two temporary paths with the same base is the first path itself, whatever
  the other one is: the second iterator runs over the elements of the first path.
\<close>

lemma temp_path_common_root_ignores_rhs:
  assumes "tp_index rhs = tp_index t"
  shows "tp_GetCommonRoot d t rhs = Some t"
  using assms by (simp add: tp_GetCommonRoot_def match_elements_same)

lemma temp_path_common_root_ignores_rhs_witness:
  "\<exists>d. pd_init = Inr d \<and> tp_GetCommonRoot d \<lparr>tp_index = 0, tp_relPathElements = [[97]]\<rparr>
      \<lparr>tp_index = 0, tp_relPathElements = [[98]]\<rparr> = Some \<lparr>tp_index = 0, tp_relPathElements = [[97]]\<rparr>"
proof -
  obtain d where "pd_init = Inr d" using pd_init_ok by blast
  then show ?thesis
    using temp_path_common_root_ignores_rhs [of "\<lparr>tp_index = 0, tp_relPathElements = [[98]]\<rparr>"
      "\<lparr>tp_index = 0, tp_relPathElements = [[97]]\<rparr>" d] by auto
qed

text \<open>
  Paths with different base indexes are never ordered: the difference of the unsigned indexes is
  not negative once it is widened, so \<open>operator<\<close> is false both ways and an ordered container
  takes them as equivalent.
\<close>

lemma temp_path_order_ignores_index:
  assumes "tp_index a \<noteq> tp_index b"
  shows "\<not> tp_less a b \<and> \<not> tp_less b a"
proof -
  have pos: "0 < sint (ucast x :: 64 word)" if "x \<noteq> 0" for x :: index_t
  proof -
    have "uint x < 2 ^ 32" using uint_lt2p [of x] by simp
    have "- (2 ^ 63) \<le> uint x" by (rule order_trans [of _ 0]) simp_all
    moreover have "uint x < 2 ^ 63" using \<open>uint x < 2 ^ 32\<close> by simp
    ultimately have "signed_take_bit 63 (uint x) = uint x" by (rule signed_take_bit_int_eq_self)
    then have "sint (ucast x :: 64 word) = uint x" using \<open>uint x < 2 ^ 32\<close>
      by (simp add: sint_uint unsigned_ucast_eq take_bit_int_eq_self)
    moreover have "uint x \<noteq> 0" using that by (simp add: uint_0_iff)
    then have "0 < uint x" using uint_nonnegative [of x] by linarith
    ultimately show ?thesis by simp
  qed
  have "tp_index a - tp_index b \<noteq> 0" "tp_index b - tp_index a \<noteq> 0" using assms by auto
  from pos [OF this(1)] pos [OF this(2)] show ?thesis by (simp add: tp_less_def Let_def)
qed

lemma temp_path_order_ignores_index_witness:
  "\<not> tp_less (tp_of_path 1) (tp_of_path 2) \<and> \<not> tp_less (tp_of_path 2) (tp_of_path 1)"
  using temp_path_order_ignores_index [of "tp_of_path 1" "tp_of_path 2"] by (simp add: tp_of_path_def)

text \<open>
  Renaming the root as a parent glues two names together: the slash between the text of
  the new parent and the rest of the path is lost with the old parent's text \<open>/\<close>.
\<close>

lemma replace_root_parent_glues:
  assumes inv: "pd_inv d" and x: "unat x < length (pd_keys d)" "pd_path d x \<noteq> []" "length (pd_path d x) \<le> maxPath"
    and a: "unat a < length (pd_keys d)" "pd_path d a \<noteq> []" "length (pd_path d a) \<le> maxPath"
  shows "tp_ReplaceParent d maxPath (tp_of_path a) 0 x =
    of_opt (tp_parse d (text_of (pd_path d x) @ tl (text_of (pd_path d a))))"
proof -
  have "dbp_GetPath d maxPath x = Inr (text_of (pd_path d x))" "dbp_GetPath d maxPath a = Inr (text_of (pd_path d a))"
    using dbp_GetPath_eq [OF inv x(1), of maxPath] dbp_GetPath_eq [OF inv a(1), of maxPath] x(2,3) a(2,3) by simp_all
  moreover have "dbp_GetPath d maxPath 0 = Inr [slash]"
    using dbp_GetPath_eq [OF inv pd_inv_root [OF inv], of maxPath] by simp
  moreover have "text_of (pd_path d a) \<noteq> []" using a(2) by (cases "pd_path d a") (auto simp: text_of_def)
  ultimately show ?thesis
    by (cases "text_of (pd_path d a)") (auto simp: tp_ReplaceParent_def tp_GetPath_def tp_of_path_def substr_def drop_Suc)
qed

lemma replace_root_parent_glues_witness:
  "\<exists>d x. pd_path d x = [[120]] \<and> tp_ReplaceParent d 260 (tp_of_path x) 0 x = of_opt (tp_parse d [47, 120, 120])"
proof -
  obtain d where d: "pd_inv d" "pd_keys d = [(NO_INDEX, [])]" "sd_strings (pathElements d) = [[]]" "pd_light d"
    using pd_init_ok by blast
  have "length (ipd_data (paths d)) = 1" using arg_cong [OF d(2), of length] by simp
  then have "pd_room (length [[120 :: byte]]) (length (packed_of [[120]])) d"
    using d(3,4) by (simp add: pd_room_def)
  from parse_insert_ok [OF d(1) pd_inv_root [OF d(1)] this]
  obtain x d1 where x: "pd_inv d1" "unat x < length (pd_keys d1)" "pd_path d1 x = [[120]]" by auto
  from replace_root_parent_glues [OF x(1,2) _ _ x(2), of 260] x(3) show ?thesis by (auto simp: text_of_def slash_def)
qed

lemma pd_Find_root_entry:
  assumes inv: "pd_inv d"
  shows "pd_Find NO_INDEX [] d = Some 0"
proof -
  have ks: "pd_keys d \<noteq> []" "pd_keys d ! 0 = (NO_INDEX, [])"
    using pd_invD(3) [OF inv] hd_conv_nth [of "pd_keys d"] by (auto simp: tree_ok_def)
  have "pd_entry d 0 = Some (NO_INDEX, [])" using ks by (simp add: pd_entry_eq [OF inv] del: length_pd_keys)
  then show ?thesis using path_pool.lookup_at [OF inv, of 0 "(NO_INDEX, [])"] by simp
qed

lemma parse_missed_then_empty:
  assumes inv: "pd_inv d"
  shows "[] \<notin> set es \<Longrightarrow> parse_lookup d True (es @ [[]]) NO_INDEX index rel = Some (0, rel @ es)"
proof (induction es arbitrary: rel)
  case Nil
  have "(0 :: index_t) \<noteq> NO_INDEX" by (simp add: NO_INDEX_def)
  then show ?case by (simp add: pd_Find_root_entry [OF inv])
qed (auto simp: pd_Find_NO_INDEX [OF inv])

lemma parse_then_empty:
  assumes inv: "pd_inv d"
  shows "[] \<notin> set es \<Longrightarrow> parse_lookup d True es index index [] = Some (i, rel) \<Longrightarrow> rel \<noteq> [] \<Longrightarrow>
    parse_lookup d True (es @ [[]]) index index [] = Some (0, rel)"
proof (induction es arbitrary: index)
  case (Cons e es)
  obtain n where f: "pd_Find index e d = Some n" using pd_Find_eq [OF inv] by blast
  show ?case
  proof (cases "n = NO_INDEX")
    case True
    have "rel = e # es" using Cons.prems f True parse_lookup_missed [OF inv, of es index "[e]"] by simp
    then show ?thesis using Cons.prems(1) f True parse_missed_then_empty [OF inv, of es index "[e]"] by simp
  qed (use Cons f in simp)
qed simp

text \<open>
  A trailing slash loses the base: when a path is only partly known, the empty element behind
  the slash is looked up below no parent and matches the root entry, so that the unknown elements
  hang below the root instead of below the known part.
\<close>

lemma temp_path_trailing_slash:
  assumes inv: "pd_inv d" and es: "es \<noteq> []" "\<forall>e \<in> set es. e \<noteq> [] \<and> slash \<notin> set e \<and> 0 \<notin> set e"
    and t: "tp_parse d (text_of es) = Some t" "tp_relPathElements t \<noteq> []"
  shows "tp_parse d (text_of es @ [slash]) = Some (t\<lparr>tp_index := 0\<rparr>)"
proof -
  have "text_of es @ [slash] = text_of (es @ [[]])" by (simp add: text_of_def)
  moreover have "path_elements (text_of (es @ [[]])) = es @ [[]]" using es by (intro path_elements_text) auto
  moreover have "path_elements (text_of es) = es" using es by (intro path_elements_text) auto
  moreover obtain i rel where R: "parse_lookup d True es 0 0 [] = Some (i, rel)" "t = \<lparr>tp_index = i, tp_relPathElements = rel\<rparr>"
    using t(1) calculation(3) by (auto simp: tp_parse_def split: bind_splits)
  moreover have "parse_lookup d True (es @ [[]]) 0 0 [] = Some (0, rel)"
    using parse_then_empty [OF inv _ R(1)] es(2) t(2) R(2) by auto
  ultimately show ?thesis by (simp add: tp_parse_def)
qed

lemma temp_path_trailing_slash_witness:
  "\<exists>d x. pd_path d x = [[120]] \<and> tp_parse d (text_of [[120], [121]]) = Some \<lparr>tp_index = x, tp_relPathElements = [[121]]\<rparr> \<and>
     tp_parse d (text_of [[120], [121]] @ [slash]) = Some \<lparr>tp_index = 0, tp_relPathElements = [[121]]\<rparr>"
proof -
  obtain d where d: "pd_inv d" "pd_keys d = [(NO_INDEX, [])]" "sd_strings (pathElements d) = [[]]" "pd_light d"
    using pd_init_ok by blast
  have "length (ipd_data (paths d)) = 1" using arg_cong [OF d(2), of length] by simp
  then have "pd_room (length [[120 :: byte]]) (length (packed_of [[120]])) d"
    using d(3,4) by (simp add: pd_room_def)
  moreover have "\<forall>e \<in> set [[120 :: byte]]. 0 \<notin> set e" by simp
  ultimately obtain x d1 ks where x: "pd_inv d1" "unat x < length (pd_keys d1)" "pd_path d1 x = [[120]]"
      "pd_keys d1 = pd_keys d @ ks" "length ks \<le> length [[120 :: byte]]"
    using parse_insert_ok [OF d(1) pd_inv_root [OF d(1)]] unfolding pd_path_0 append_Nil by blast
  have len: "length (pd_keys d1) \<le> 2" using x(4,5) d(2) by simp
  have pe: "path_elements (text_of [[120], [121]]) = [[120], [121]]" by (rule path_elements_text) (auto simp: slash_def)
  obtain i rel where R: "parse_lookup d1 True [[120], [121]] 0 0 [] = Some (i, rel)" "unat i < length (pd_keys d1)"
      "pd_path d1 i @ rel = [[120], [121]]"
      "rel \<noteq> [] \<longrightarrow> (\<forall>j. unat j < length (pd_keys d1) \<longrightarrow> pd_path d1 j \<noteq> pd_path d1 i @ [hd rel])"
    using parse_lookup_relative [OF x(1) pd_inv_root [OF x(1)], of "[[120], [121]]"] by auto
  have "length (pd_path d1 i) \<le> 1"
    using length_path_le [OF pd_invD(3) [OF x(1)] R(2)] R(2) len by (simp add: pd_path_def)
  then have "pd_path d1 i = [] \<and> rel = [[120], [121]] \<or> pd_path d1 i = [[120]] \<and> rel = [[121]]"
    using R(3) by (cases "pd_path d1 i") auto
  then have i: "pd_path d1 i = [[120]]" "rel = [[121]]" using R(4) x(2,3) by auto
  then have "i = x" using pd_path_eq_iff [OF x(1) R(2) x(2)] x(3) by simp
  then have t: "tp_parse d1 (text_of [[120], [121]]) = Some \<lparr>tp_index = x, tp_relPathElements = [[121]]\<rparr>"
    using R(1) i(2) pe by (simp add: tp_parse_def)
  from temp_path_trailing_slash [OF x(1) _ _ t] t x(3) show ?thesis by (auto simp: slash_def)
qed

end
