(* ===== verification/PackedStreams.thy ===== *)
theory PackedStreams
  imports Prelude
begin

section \<open>Data streams (src/LogCache/Streams)\<close>

text \<open>
  The write streams turn values into bytes that are collected in a buffer of 128 KiB; a full buffer
  is written as one chunk.  The read streams take the values from the joined chunks again.  The
  classes derive from each other: \<open>CBinary*Stream\<close>, then \<open>CPackedDWORD*Stream\<close> (7 bits per byte and
  run-length encoding), \<open>CPackedInteger*Stream\<close> (signs), \<open>CDiff*Stream\<close> (differences), and
  \<open>CPackedTime64*Stream\<close> besides.  A record extension stands for each step.
\<close>

datatype stream_error = CStreamException string | UndefinedRead

subsection \<open>Binary streams\<close>

definition CHUNK_SIZE :: nat where
  "CHUNK_SIZE = 128 * 1024"

record binary_out =
  bo_chunks :: "byte list list"
  bo_current :: "byte list"

definition bo_Flush :: "'a binary_out_scheme \<Rightarrow> 'a binary_out_scheme" where
  "bo_Flush s = s\<lparr>bo_chunks := bo_chunks s @ [bo_current s], bo_current := []\<rparr>"

definition bo_AddByte :: "byte \<Rightarrow> 'a binary_out_scheme \<Rightarrow> 'a binary_out_scheme" where
  "bo_AddByte c s =
     (let s = (if length (bo_current s) = CHUNK_SIZE then bo_Flush s else s)
      in s\<lparr>bo_current := bo_current s @ [c]\<rparr>)"

partial_function (option) bo_make_room :: "nat \<Rightarrow> 'a binary_out_scheme \<Rightarrow> 'a binary_out_scheme option" where
  "bo_make_room byteCount s =
     (if length (bo_current s) + byteCount > CHUNK_SIZE then bo_make_room byteCount (bo_Flush s) else Some s)"

definition bo_Add :: "byte list \<Rightarrow> 'a binary_out_scheme \<Rightarrow> 'a binary_out_scheme option" where
  "bo_Add source s = map_option (\<lambda>s. s\<lparr>bo_current := bo_current s @ source\<rparr>) (bo_make_room (length source) s)"

definition bo_GetStreamSize :: "'a binary_out_scheme \<Rightarrow> stream_error + nat" where
  "bo_GetStreamSize s = (let size = length (bo_current s)
     in if size > unat (- 1 :: dword) then Inl (CStreamException ''binary stream too large'') else Inr size)"

text \<open>A read stream: all its bytes, and those behind the current position.\<close>

record binary_in =
  bi_first :: "byte list"
  bi_current :: "byte list"

definition bi_GetSize :: "'a binary_in_scheme \<Rightarrow> nat" where
  "bi_GetSize s = length (bi_first s)"

definition bi_GetRemaining :: "'a binary_in_scheme \<Rightarrow> nat" where
  "bi_GetRemaining s = length (bi_current s)"

definition bi_GetByte :: "'a binary_in_scheme \<Rightarrow> stream_error + byte \<times> 'a binary_in_scheme" where
  "bi_GetByte s =
     (case bi_current s of
        [] \<Rightarrow> Inl (CStreamException ''unexpected end of stream'')
      | c # current \<Rightarrow> Inr (c, s\<lparr>bi_current := current\<rparr>))"

definition bi_Reset :: "'a binary_in_scheme \<Rightarrow> 'a binary_in_scheme" where
  "bi_Reset s = s\<lparr>bi_current := bi_first s\<rparr>"

definition bi_EndOfStream :: "'a binary_in_scheme \<Rightarrow> bool" where
  "bi_EndOfStream s \<longleftrightarrow> bi_current s = []"

subsection \<open>Packed DWORD streams\<close>

record packed_out = binary_out +
  po_lastValue :: dword
  po_count :: dword

definition packed_out_init :: packed_out where
  "packed_out_init = \<lparr>bo_chunks = [], bo_current = [], po_lastValue = 0, po_count = 0\<rparr>"

lemma unat_drop_bit_div: "unat (drop_bit n (v :: 'i::len word)) = unat v div 2 ^ n"
  by (simp only: unsigned_drop_bit_eq drop_bit_nat_eq) (simp add: drop_bit_eq_div take_bit_nat_eq_self)

function po_InternalAdd :: "dword \<Rightarrow> 'a binary_out_scheme \<Rightarrow> 'a binary_out_scheme" where
  "po_InternalAdd v s =
     (if v < 0x80 then bo_AddByte (ucast v) s
      else po_InternalAdd (drop_bit 7 v) (bo_AddByte (ucast (v AND 0x7f) + 0x80) s))"
  by pat_completeness auto
termination
proof (relation "measure (\<lambda>(v, s). unat v)")
  fix v :: dword and s :: "'a binary_out_scheme"
  assume "\<not> v < 0x80"
  then have "128 \<le> unat v" by (simp add: word_less_nat_alt)
  then have "unat v div 2 ^ 7 < unat v" by (intro div_less_dividend) auto
  moreover have "unat (drop_bit 7 v) = unat v div 2 ^ 7" by (rule unat_drop_bit_div)
  ultimately have "unat (drop_bit 7 v) < unat v" by simp
  then show "((drop_bit 7 v, bo_AddByte (ucast (v AND 0x7f) + 0x80) s), v, s) \<in> measure (\<lambda>(v, s). unat v)" by simp
qed simp

definition po_FlushLastValue :: "'a packed_out_scheme \<Rightarrow> 'a packed_out_scheme" where
  "po_FlushLastValue s =
     (if po_count s > 0 then po_InternalAdd (po_lastValue s) (po_InternalAdd (po_count s) (po_InternalAdd 0 s)) else s)"

definition po_Add :: "dword \<Rightarrow> 'a packed_out_scheme \<Rightarrow> 'a packed_out_scheme" where
  "po_Add v s =
     (if v = po_lastValue s then s\<lparr>po_count := po_count s + 1\<rparr>
      else
        let s' =
          (if po_count s = 1 then po_InternalAdd (po_lastValue s + 1) s
           else if po_count s = 2 \<and> po_lastValue s < 0x80
           then (po_InternalAdd (po_lastValue s + 1) (po_InternalAdd (po_lastValue s + 1) s))\<lparr>po_count := 1\<rparr>
           else (po_FlushLastValue s)\<lparr>po_count := 1\<rparr>)
        in s'\<lparr>po_lastValue := v\<rparr>)"

definition po_AddSizeValue :: "size_t \<Rightarrow> 'a packed_out_scheme \<Rightarrow> 'a packed_out_scheme" where
  "po_AddSizeValue v s = po_InternalAdd (ucast v) s"

record packed_in = binary_in +
  pi_lastValue :: dword
  pi_count :: dword

definition packed_in_open :: "byte list \<Rightarrow> packed_in" where
  "packed_in_open bs = \<lparr>bi_first = bs, bi_current = bs, pi_lastValue = 0, pi_count = 0\<rparr>"

lemma bi_GetByte_shrinks: "bi_GetByte s = Inr (c, s') \<Longrightarrow> length (bi_current s') < length (bi_current s)"
  by (cases "bi_current s") (auto simp: bi_GetByte_def)

text \<open>A shift by the width of the value or more is undefined.\<close>

function value_loop :: "dword \<Rightarrow> nat \<Rightarrow> 'a binary_in_scheme \<Rightarrow> stream_error + dword \<times> 'a binary_in_scheme" where
  "value_loop result shift s =
     (case bi_GetByte s of
        Inl e \<Rightarrow> Inl e
      | Inr (c, s') \<Rightarrow>
          if shift \<ge> 32 then Inl UndefinedRead
          else if ucast c < (0x80 :: dword) then Inr (result + push_bit shift (ucast c), s')
          else value_loop (result + push_bit shift (ucast c - 0x80)) (shift + 7) s')"
  by pat_completeness auto
termination
  by (relation "measure (\<lambda>(r, n, s). length (bi_current s))") (auto dest: bi_GetByte_shrinks)

declare po_InternalAdd.simps [simp del] value_loop.simps [simp del]

definition pi_InternalGetValue :: "'a binary_in_scheme \<Rightarrow> stream_error + dword \<times> 'a binary_in_scheme" where
  "pi_InternalGetValue s =
     bindE (bi_GetByte s) (\<lambda>(c, s). if ucast c < (0x80 :: dword) then Inr (ucast c, s) else value_loop (ucast c - 0x80) 7 s)"

lemma value_loop_shrinks: "value_loop r n s = Inr (v, s') \<Longrightarrow> length (bi_current s') < length (bi_current s)"
proof (induction r n s rule: value_loop.induct)
  case (1 r n s)
  obtain c s1 where c: "bi_GetByte s = Inr (c, s1)" using "1.prems" by (subst (asm) value_loop.simps) (auto split: sum.splits)
  note less = bi_GetByte_shrinks [OF c]
  show ?case
  proof (cases "n < 32 \<and> \<not> ucast c < (0x80 :: dword)")
    case True
    then have "value_loop (r + push_bit n (ucast c - 0x80)) (n + 7) s1 = Inr (v, s')"
      using "1.prems" c by (subst (asm) value_loop.simps) simp
    then show ?thesis using "1.IH" [OF c refl] True less by fastforce
  next
    case False
    then have "s' = s1" using "1.prems" c by (subst (asm) value_loop.simps) (auto split: if_splits)
    then show ?thesis using less by simp
  qed
qed

lemma pi_InternalGetValue_shrinks: "pi_InternalGetValue s = Inr (v, s') \<Longrightarrow> length (bi_current s') < length (bi_current s)"
  by (auto simp: pi_InternalGetValue_def split: if_splits dest: bi_GetByte_shrinks value_loop_shrinks intro: less_trans)

function pi_GetValue :: "'a packed_in_scheme \<Rightarrow> stream_error + dword \<times> 'a packed_in_scheme" where
  "pi_GetValue s =
     (if pi_count s \<noteq> 0 then Inr (pi_lastValue s, s\<lparr>pi_count := pi_count s - 1\<rparr>)
      else case pi_InternalGetValue s of
        Inl e \<Rightarrow> Inl e
      | Inr (result, s1) \<Rightarrow>
          if result \<noteq> 0 then Inr (result - 1, s1)
          else case pi_InternalGetValue s1 of
            Inl e \<Rightarrow> Inl e
          | Inr (n, s2) \<Rightarrow>
              case pi_InternalGetValue (s2\<lparr>pi_count := n\<rparr>) of
                Inl e \<Rightarrow> Inl e
              | Inr (v, s3) \<Rightarrow> pi_GetValue (s3\<lparr>pi_lastValue := v\<rparr>))"
  by pat_completeness auto
termination
proof (relation "measure (\<lambda>s. length (bi_current s))")
  fix s :: "'a packed_in_scheme" and x r s1 y n s2 z v s3
  assume "pi_InternalGetValue s = Inr x" "(r, s1) = x" "pi_InternalGetValue s1 = Inr y" "(n, s2) = y"
    "pi_InternalGetValue (s2\<lparr>pi_count := n\<rparr>) = Inr z" "(v, s3) = z"
  then have "length (bi_current s1) < length (bi_current s)" "length (bi_current s2) < length (bi_current s1)"
      "length (bi_current s3) < length (bi_current (s2\<lparr>pi_count := n\<rparr>))"
    by (metis pi_InternalGetValue_shrinks)+
  then show "(s3\<lparr>pi_lastValue := v\<rparr>, s) \<in> measure (\<lambda>s. length (bi_current s))" by simp
qed simp

declare pi_GetValue.simps [simp del]


definition pi_GetSizeValue :: "'a packed_in_scheme \<Rightarrow> stream_error + size_t \<times> 'a packed_in_scheme" where
  "pi_GetSizeValue s = bindE (pi_InternalGetValue s) (\<lambda>(v, s). Inr (ucast v, s))"

subsection \<open>Signed values and differences\<close>

text \<open>An \<open>int\<close> is a 32 bit word read as signed; its arithmetic wraps around.\<close>

definition fold_sign :: "dword \<Rightarrow> dword" where
  "fold_sign v = (if sint v \<ge> 0 then 2 * v else 2 * (- v) + 1)"

definition po_AddInteger :: "dword \<Rightarrow> 'a packed_out_scheme \<Rightarrow> 'a packed_out_scheme" where
  "po_AddInteger v s = po_Add (fold_sign v) s"

definition unfold_sign :: "dword \<Rightarrow> dword" where
  "unfold_sign v = (if v AND 1 \<noteq> 0 then - (v div 2) else v div 2)"

definition pi_GetInteger :: "'a packed_in_scheme \<Rightarrow> stream_error + dword \<times> 'a packed_in_scheme" where
  "pi_GetInteger s = bindE (pi_GetValue s) (\<lambda>(v, s). Inr (unfold_sign v, s))"

text \<open>The templates over the base class: \<open>base\<close> is its \<open>Add\<close> or \<open>GetValue\<close>.\<close>

record diff_out = packed_out +
  do_lastValue :: dword

definition diff_out_init :: diff_out where
  "diff_out_init = \<lparr>bo_chunks = [], bo_current = [], po_lastValue = 0, po_count = 0, do_lastValue = 0\<rparr>"

definition do_Add :: "(dword \<Rightarrow> diff_out \<Rightarrow> diff_out) \<Rightarrow> dword \<Rightarrow> diff_out \<Rightarrow> diff_out" where
  "do_Add base v s = (base (v - do_lastValue s) s)\<lparr>do_lastValue := v\<rparr>"

record diff_in = packed_in +
  di_lastValue :: dword

definition diff_in_open :: "byte list \<Rightarrow> diff_in" where
  "diff_in_open bs = \<lparr>bi_first = bs, bi_current = bs, pi_lastValue = 0, pi_count = 0, di_lastValue = 0\<rparr>"

definition di_GetValue :: "(diff_in \<Rightarrow> stream_error + dword \<times> diff_in) \<Rightarrow> diff_in \<Rightarrow> stream_error + dword \<times> diff_in" where
  "di_GetValue base s = bindE (base s) (\<lambda>(v, s). let l = di_lastValue s + v in Inr (l, s\<lparr>di_lastValue := l\<rparr>))"

definition di_Reset :: "diff_in \<Rightarrow> diff_in" where
  "di_Reset s = (bi_Reset s)\<lparr>di_lastValue := 0\<rparr>"

subsection \<open>Time stamps\<close>

record time_out = binary_out +
  to_lastValue :: "64 word"

definition time_out_init :: time_out where
  "time_out_init = \<lparr>bo_chunks = [], bo_current = [], to_lastValue = 0\<rparr>"

text \<open>The eight bytes of a value, the lowest first, and the value they make up.\<close>

definition qword_bytes :: "64 word \<Rightarrow> byte list" where
  "qword_bytes v = map (\<lambda>k. ucast (drop_bit (8 * k) v)) [0..<8]"

fun bytes_qword :: "byte list \<Rightarrow> 64 word" where
  "bytes_qword [] = 0"
| "bytes_qword (b # bs) = ucast b + push_bit 8 (bytes_qword bs)"

text \<open>\<open>buf\<close> holds the value from index 1 on; the loop looks for its last byte that is not zero.\<close>

fun used_size :: "byte list \<Rightarrow> nat \<Rightarrow> nat" where
  "used_size buf (Suc (Suc n)) = (if buf ! Suc (Suc n) = 0 then used_size buf (Suc n) else Suc (Suc n))"
| "used_size buf n = n"

definition to_Add :: "64 word \<Rightarrow> time_out \<Rightarrow> time_out option" where
  "to_Add v s =
     (let d = v - to_lastValue s;
          (d, head) = (if sint d < 0 then (- d, 0x80 :: byte) else (d, 0));
          head = head + (ucast d AND 0xf);
          d = signed_drop_bit 4 d;
          buf = 0 # qword_bytes d;
          sz = used_size buf 8;
          head = head + of_nat ((sz - 1) * 0x10)
      in bo_Add (take (sz + 1) (buf[0 := head])) (s\<lparr>to_lastValue := v\<rparr>))"

definition to_AddSizeValue :: "size_t \<Rightarrow> time_out \<Rightarrow> time_out option" where
  "to_AddSizeValue v s = to_Add (ucast (ucast v :: dword)) s"

record time_in = binary_in +
  ti_lastValue :: "64 word"

definition time_in_open :: "byte list \<Rightarrow> time_in" where
  "time_in_open bs = \<lparr>bi_first = bs, bi_current = bs, ti_lastValue = 0\<rparr>"

fun get_bytes :: "nat \<Rightarrow> 'a binary_in_scheme \<Rightarrow> stream_error + byte list \<times> 'a binary_in_scheme" where
  "get_bytes 0 s = Inr ([], s)"
| "get_bytes (Suc n) s =
     bindE (bi_GetByte s) (\<lambda>(b, s). bindE (get_bytes n s) (\<lambda>(bs, s). Inr (b # bs, s)))"

definition ti_GetValue :: "time_in \<Rightarrow> stream_error + 64 word \<times> time_in" where
  "ti_GetValue s =
     bindE (bi_GetByte s) (\<lambda>(head, s).
     let n = unat ((head div 0x10) AND 0x7) + 1 in
     bindE (get_bytes n s) (\<lambda>(buffer, s).
     let d = bytes_qword buffer * 0x10 + (ucast head AND 0xf);
         d = (if head \<ge> 0x80 then - d else d);
         v = d + ti_lastValue s
     in Inr (v, s\<lparr>ti_lastValue := v\<rparr>)))"

definition ti_GetSizeValue :: "time_in \<Rightarrow> stream_error + size_t \<times> time_in" where
  "ti_GetSizeValue s = ti_GetValue s"

subsection \<open>Vectors\<close>

text \<open>
  The template operators of a vector: its size, its elements, then \<open>AutoClose\<close>, of which \<open>flush\<close> is the
  \<open>FlushData\<close> of the stream.  \<open>conv\<close> is the cast, or the access to the member, of the element.
\<close>

definition write_vector ::
    "(size_t \<Rightarrow> 'o \<Rightarrow> 'o) \<Rightarrow> ('w \<Rightarrow> 'o \<Rightarrow> 'o) \<Rightarrow> ('o \<Rightarrow> 'o) \<Rightarrow> ('v \<Rightarrow> 'w) \<Rightarrow> 'v list \<Rightarrow> 'o \<Rightarrow> 'o" where
  "write_vector add_size add flush conv data s =
     flush (fold (\<lambda>x. add (conv x)) data (add_size (of_nat (length data)) s))"

fun read_values :: "('i \<Rightarrow> stream_error + 'w \<times> 'i) \<Rightarrow> nat \<Rightarrow> 'i \<Rightarrow> stream_error + 'w list \<times> 'i" where
  "read_values get 0 s = Inr ([], s)"
| "read_values get (Suc n) s =
     bindE (get s) (\<lambda>(v, s). bindE (read_values get n s) (\<lambda>(vs, s). Inr (v # vs, s)))"

definition read_vector ::
    "('i \<Rightarrow> stream_error + size_t \<times> 'i) \<Rightarrow> ('i \<Rightarrow> stream_error + 'w \<times> 'i) \<Rightarrow> ('w \<Rightarrow> 'v) \<Rightarrow> 'i \<Rightarrow> stream_error + 'v list \<times> 'i" where
  "read_vector get_size get conv s =
     bindE (get_size s) (\<lambda>(n, s). bindE (read_values get (unat n) s) (\<lambda>(vs, s). Inr (map conv vs, s)))"


subsection \<open>Single values\<close>

definition bo_bytes :: "'a binary_out_scheme \<Rightarrow> byte list" where
  "bo_bytes s = concat (bo_chunks s) @ bo_current s"

function dword_code :: "dword \<Rightarrow> byte list" where
  "dword_code v = (if v < 0x80 then [ucast v] else (ucast (v AND 0x7f) + 0x80) # dword_code (drop_bit 7 v))"
  by pat_completeness auto
termination
proof (relation "measure unat")
  fix v :: dword
  assume "\<not> v < 0x80"
  then have "128 \<le> unat v" by (simp add: word_less_nat_alt)
  then have "unat v div 2 ^ 7 < unat v" by (intro div_less_dividend) auto
  moreover have "unat (drop_bit 7 v) = unat v div 2 ^ 7" by (rule unat_drop_bit_div)
  ultimately show "(drop_bit 7 v, v) \<in> measure unat" by simp
qed simp

declare dword_code.simps [simp del]

lemma bo_bytes_fields [simp]: "bo_bytes (s\<lparr>po_lastValue := x\<rparr>) = bo_bytes s" "bo_bytes (s\<lparr>po_count := n\<rparr>) = bo_bytes s"
  "bo_bytes (t\<lparr>do_lastValue := x\<rparr>) = bo_bytes t"
  by (simp_all add: bo_bytes_def)

lemma bo_bytes_AddByte [stream_simps]: "bo_bytes (bo_AddByte c s) = bo_bytes s @ [c]"
  by (simp add: bo_bytes_def bo_AddByte_def bo_Flush_def Let_def)

lemma bo_bytes_InternalAdd [stream_simps]: "bo_bytes (po_InternalAdd v s) = bo_bytes s @ dword_code v"
proof (induction v s rule: po_InternalAdd.induct)
  case (1 v s)
  then show ?case by (subst po_InternalAdd.simps, subst dword_code.simps) (simp add: bo_bytes_AddByte)
qed

lemma po_fields_AddByte [stream_simps]: "po_count (bo_AddByte c s) = po_count s" "po_lastValue (bo_AddByte c s) = po_lastValue s"
  by (simp_all add: bo_AddByte_def bo_Flush_def Let_def)

lemma po_fields_InternalAdd [stream_simps]:
  fixes s :: "'a packed_out_scheme"
  shows "po_count (po_InternalAdd v s) = po_count s \<and> po_lastValue (po_InternalAdd v s) = po_lastValue s"
proof (induction v s rule: po_InternalAdd.induct)
  case (1 v s)
  then show ?case by (subst (1 2) po_InternalAdd.simps) (simp add: po_fields_AddByte)
qed

lemma low_bits_less: "unat (v AND 0x7f :: dword) < 128"
proof -
  have "v AND 0x7f \<le> 0x7f" by (rule word_and_le1)
  then show ?thesis by (simp add: word_le_nat_alt)
qed

lemma unat_marked_byte: "unat (ucast (v AND 0x7f :: dword) + 0x80 :: byte) = unat (v AND 0x7f) + 128"
  using low_bits_less [of v] by (simp add: unat_word_ariths unsigned_ucast_eq take_bit_nat_eq_self)

lemma ucast_marked_byte: "(ucast (ucast (v AND 0x7f :: dword) + 0x80 :: byte) :: dword) = (v AND 0x7f) + 0x80"
  using low_bits_less [of v] unat_marked_byte [of v]
  by (simp add: word_unat_eq_iff unat_word_ariths unsigned_ucast_eq take_bit_nat_eq_self)

lemma ucast_small_byte: "v < (0x80 :: dword) \<Longrightarrow> (ucast (ucast v :: byte) :: dword) = v"
  by (simp add: word_unat_eq_iff unsigned_ucast_eq unsigned_take_bit_eq take_bit_nat_eq_self word_less_nat_alt)

lemma split_low_bits: "push_bit n (v AND 0x7f) + push_bit (n + 7) (drop_bit 7 v) = push_bit n (v :: dword)"
proof -
  have "v AND 0x7f = take_bit 7 v" by (simp add: take_bit_eq_mask mask_eq_exp_minus_1)
  then have "(v AND 0x7f) + push_bit 7 (drop_bit 7 v) = v" by (metis add.commute bits_ident)
  then have "push_bit n ((v AND 0x7f) + push_bit 7 (drop_bit 7 v)) = push_bit n v" by simp
  then show ?thesis by (simp only: push_bit_add push_bit_push_bit)
qed

lemma value_loop_code:
  "n < 32 \<Longrightarrow> unat v < 2 ^ (32 - n) \<Longrightarrow> bi_current s = dword_code v @ rest \<Longrightarrow>
   value_loop r n s = Inr (r + push_bit n v, s\<lparr>bi_current := rest\<rparr>)"
proof (induction v arbitrary: r n s rule: dword_code.induct)
  case (1 v)
  show ?case
  proof (cases "v < 0x80")
    case True
    then show ?thesis using "1.prems" by (subst value_loop.simps) (simp add: dword_code.simps [of v] bi_GetByte_def ucast_small_byte)
  next
    case False
    let ?c = "ucast (v AND 0x7f) + 0x80 :: byte" and ?s = "s\<lparr>bi_current := dword_code (drop_bit 7 v) @ rest\<rparr>"
    have c: "bi_GetByte s = Inr (?c, ?s)"
      using "1.prems"(3) False by (simp add: dword_code.simps [of v] bi_GetByte_def)
    have big: "\<not> ucast ?c < (0x80 :: dword)"
      unfolding ucast_marked_byte using low_bits_less [of v] by (simp add: word_less_nat_alt unat_word_ariths)
    have v: "128 \<le> unat v" using False by (simp add: word_less_nat_alt)
    have n: "n + 7 < 32"
    proof (rule ccontr)
      assume "\<not> n + 7 < 32"
      then have "(2 :: nat) ^ (32 - n) \<le> 2 ^ 7" by (intro power_increasing) auto
      then show False using v "1.prems"(2) by simp
    qed
    have small: "unat (drop_bit 7 v) < 2 ^ (32 - (n + 7))"
    proof -
      have "32 - n = 7 + (32 - (n + 7))" using n by simp
      then have "unat v < 2 ^ 7 * 2 ^ (32 - (n + 7))" using "1.prems"(2) by (metis power_add)
      then show ?thesis unfolding unat_drop_bit_div by (simp add: less_mult_imp_div_less mult.commute)
    qed
    have "value_loop r n s = value_loop (r + push_bit n (v AND 0x7f)) (n + 7) ?s"
      using "1.prems"(1) big by (subst value_loop.simps) (simp add: c ucast_marked_byte)
    also have "\<dots> = Inr (r + push_bit n (v AND 0x7f) + push_bit (n + 7) (drop_bit 7 v), ?s\<lparr>bi_current := rest\<rparr>)"
      using False n small by (intro "1.IH") simp_all
    finally show ?thesis by (simp only: add.assoc split_low_bits) simp
  qed
qed

lemma InternalGetValue_code:
  assumes "bi_current s = dword_code v @ rest"
  shows "pi_InternalGetValue s = Inr (v, s\<lparr>bi_current := rest\<rparr>)"
proof (cases "v < 0x80")
  case True
  then show ?thesis using assms by (simp add: pi_InternalGetValue_def dword_code.simps [of v] bi_GetByte_def ucast_small_byte)
next
  case False
  let ?c = "ucast (v AND 0x7f) + 0x80 :: byte" and ?s = "s\<lparr>bi_current := dword_code (drop_bit 7 v) @ rest\<rparr>"
  have c: "bi_GetByte s = Inr (?c, ?s)" using assms False by (simp add: dword_code.simps [of v] bi_GetByte_def)
  have big: "\<not> ucast ?c < (0x80 :: dword)"
    unfolding ucast_marked_byte using low_bits_less [of v] by (simp add: word_less_nat_alt unat_word_ariths)
  have "unat v < 2 ^ 7 * 2 ^ 25" using unat_bound [of v] by simp
  then have small: "unat (drop_bit 7 v) < 2 ^ (32 - 7)"
    unfolding unat_drop_bit_div by (simp add: less_mult_imp_div_less mult.commute)
  have "value_loop (v AND 0x7f) 7 ?s = Inr ((v AND 0x7f) + push_bit 7 (drop_bit 7 v), ?s\<lparr>bi_current := rest\<rparr>)"
    using small by (intro value_loop_code) simp_all
  then show ?thesis using split_low_bits [of 0 v] big by (simp add: pi_InternalGetValue_def c ucast_marked_byte)
qed


subsection \<open>The contract of a value stream\<close>

text \<open>
  What a client relies on: \<open>writes s pre vs\<close> says that the write stream \<open>s\<close> held the bytes \<open>pre\<close> and was
  then given the values \<open>vs\<close>; \<open>reads i vs rest\<close> that the read stream \<open>i\<close> will deliver the values \<open>vs\<close> and
  leave the bytes \<open>rest\<close>.  Values that are flushed and then read come back.
\<close>

locale value_stream =
  fixes add :: "'v \<Rightarrow> 'o \<Rightarrow> 'o" and flush :: "'o \<Rightarrow> 'o" and get :: "'i \<Rightarrow> stream_error + 'v \<times> 'i"
    and written :: "'o \<Rightarrow> byte list" and unread :: "'i \<Rightarrow> byte list" and fresh :: "'i \<Rightarrow> bool"
    and storable :: "'v list \<Rightarrow> 'v \<Rightarrow> bool"
    and writes :: "'o \<Rightarrow> byte list \<Rightarrow> 'v list \<Rightarrow> bool" and reads :: "'i \<Rightarrow> 'v list \<Rightarrow> byte list \<Rightarrow> bool"
  assumes add_ok: "writes s pre vs \<Longrightarrow> storable vs v \<Longrightarrow> writes (add v s) pre (vs @ [v])"
    and flush_ok: "writes s pre vs \<Longrightarrow>
      \<exists>bs. written (flush s) = pre @ bs \<and> (\<forall>i rest. fresh i \<longrightarrow> unread i = bs @ rest \<longrightarrow> reads i vs rest)"
    and get_ok: "reads i (v # vs) rest \<Longrightarrow> \<exists>i'. get i = Inr (v, i') \<and> reads i' vs rest"
    and reads_done: "reads i [] rest \<Longrightarrow> unread i = rest"
begin

text \<open>All values of a list can be stored, one after the other.\<close>

fun storable_all :: "'v list \<Rightarrow> 'v list \<Rightarrow> bool" where
  "storable_all us [] = True"
| "storable_all us (v # vs) = (storable us v \<and> storable_all (us @ [v]) vs)"

lemma write_all: "writes s pre us \<Longrightarrow> storable_all us vs \<Longrightarrow> writes (fold add vs s) pre (us @ vs)"
proof (induction vs arbitrary: s us)
  case (Cons v vs)
  then show ?case using add_ok [of s pre us v] Cons.IH [of "add v s" "us @ [v]"] by simp
qed simp

lemma read_all: "reads i vs rest \<Longrightarrow> \<exists>i'. read_values get (length vs) i = Inr (vs, i') \<and> unread i' = rest"
proof (induction vs arbitrary: i)
  case Nil
  then show ?case using reads_done by simp
next
  case (Cons v vs)
  obtain i' where "get i = Inr (v, i')" "reads i' vs rest" using get_ok [OF Cons.prems] by blast
  then show ?case using Cons.IH by fastforce
qed

lemma values_roundtrip:
  assumes "writes s pre []" "storable_all [] vs"
  shows "\<exists>bs. written (flush (fold add vs s)) = pre @ bs \<and>
    (\<forall>i rest. fresh i \<longrightarrow> unread i = bs @ rest \<longrightarrow>
       (\<exists>i'. read_values get (length vs) i = Inr (vs, i') \<and> unread i' = rest))"
proof -
  have "writes (fold add vs s) pre vs" using write_all [OF assms] by simp
  from flush_ok [OF this] show ?thesis using read_all by blast
qed

end

text \<open>A stream that also stores the size of a vector in front of its elements.\<close>

locale sized_stream = value_stream +
  fixes add_size :: "size_t \<Rightarrow> 'b \<Rightarrow> 'b" and get_size :: "'c \<Rightarrow> stream_error + size_t \<times> 'c" and fresh_out :: "'b \<Rightarrow> bool"
  assumes size_ok: "fresh_out s \<Longrightarrow> unat n < 2 ^ 32 \<Longrightarrow>
    \<exists>hd. writes (add_size n s) (written s @ hd) [] \<and>
      (\<forall>i rest. fresh i \<longrightarrow> unread i = hd @ rest \<longrightarrow> (\<exists>i'. get_size i = Inr (n, i') \<and> fresh i' \<and> unread i' = rest))"
begin

lemma vector_roundtrip:
  assumes s: "fresh_out s" and vs: "storable_all [] (map conv vs)" and len: "length vs < 2 ^ 32"
    and conv: "\<And>v. v \<in> set vs \<Longrightarrow> conv' (conv v) = v"
  shows "\<exists>bs. written (write_vector add_size add flush conv vs s) = written s @ bs \<and>
    (\<forall>i rest. fresh i \<longrightarrow> unread i = bs @ rest \<longrightarrow>
       (\<exists>i'. read_vector get_size get conv' i = Inr (vs, i') \<and> unread i' = rest))"
proof -
  let ?n = "of_nat (length vs) :: size_t"
  have n: "unat ?n = length vs" using len by (intro unat_of_nat_small) simp
  obtain hd where hd: "writes (add_size ?n s) (written s @ hd) []"
    "\<And>i rest. fresh i \<Longrightarrow> unread i = hd @ rest \<Longrightarrow> \<exists>i'. get_size i = Inr (?n, i') \<and> fresh i' \<and> unread i' = rest"
    using size_ok [OF s, of ?n] n len by auto
  obtain bs where bs: "written (flush (fold add (map conv vs) (add_size ?n s))) = (written s @ hd) @ bs"
    "\<And>i rest. fresh i \<Longrightarrow> unread i = bs @ rest \<Longrightarrow>
       \<exists>i'. read_values get (length (map conv vs)) i = Inr (map conv vs, i') \<and> unread i' = rest"
    using values_roundtrip [OF hd(1) vs] by blast
  have inverse: "map conv' (map conv vs) = vs" using conv by (simp add: map_idI)
  have "\<exists>i'. read_vector get_size get conv' i = Inr (vs, i') \<and> unread i' = rest"
    if "fresh i" "unread i = (hd @ bs) @ rest" for i rest
  proof -
    have "\<exists>i1. get_size i = Inr (?n, i1) \<and> fresh i1 \<and> unread i1 = bs @ rest" using that by (intro hd(2)) simp_all
    then obtain i1 where i1: "get_size i = Inr (?n, i1)" "fresh i1" "unread i1 = bs @ rest" by blast
    obtain i2 where i2: "read_values get (length vs) i1 = Inr (map conv vs, i2)" "unread i2 = rest"
      using bs(2) [OF i1(2,3)] by auto
    have "read_vector get_size get conv' i = Inr (map conv' (map conv vs), i2)"
      using i1(1) i2(1) n by (simp add: read_vector_def)
    then show ?thesis unfolding inverse using i2(2) by blast
  qed
  then show ?thesis using bs(1)
    by (intro exI [of _ "hd @ bs"]) (simp add: write_vector_def fold_map comp_def)
qed

end

subsection \<open>Packed values\<close>

text \<open>The byte sequences of a packed stream and the values that they stand for.\<close>

inductive coded :: "byte list \<Rightarrow> dword list \<Rightarrow> bool" where
  coded_Nil: "coded [] []"
| coded_value: "x \<noteq> - 1 \<Longrightarrow> coded bs ws \<Longrightarrow> coded (dword_code (x + 1) @ bs) (x # ws)"
| coded_run: "n \<noteq> 0 \<Longrightarrow> coded bs ws \<Longrightarrow>
    coded (dword_code 0 @ dword_code n @ dword_code x @ bs) (replicate (unat n) x @ ws)"

lemma coded_append: "coded bs vs \<Longrightarrow> coded bs' vs' \<Longrightarrow> coded (bs @ bs') (vs @ vs')"
  by (induction rule: coded.induct) (auto intro: coded.intros)

lemmas coded_one = coded_value [OF _ coded_Nil, simplified]
lemmas coded_one_run = coded_run [OF _ coded_Nil, simplified]

lemma coded_no_values: "coded bs [] \<Longrightarrow> bs = []"
proof (erule coded.cases)
  fix n :: dword and bs' ws x
  assume "n \<noteq> 0" "[] = replicate (unat n) x @ ws"
  then show "bs = []" by (simp add: unat_eq_zero)
qed auto

definition packed_writes :: "'a packed_out_scheme \<Rightarrow> byte list \<Rightarrow> dword list \<Rightarrow> bool" where
  "packed_writes s pre vs \<longleftrightarrow> (\<exists>bs ws. bo_bytes s = pre @ bs \<and> coded bs ws \<and>
     vs = ws @ replicate (unat (po_count s)) (po_lastValue s)) \<and> (po_count s \<noteq> 0 \<longrightarrow> po_lastValue s \<noteq> - 1)"

definition packed_reads :: "'a packed_in_scheme \<Rightarrow> dword list \<Rightarrow> byte list \<Rightarrow> bool" where
  "packed_reads i vs rest \<longleftrightarrow> (\<exists>bs ws. bi_current i = bs @ rest \<and> coded bs ws \<and>
     vs = replicate (unat (pi_count i)) (pi_lastValue i) @ ws)"

definition packed_storable :: "dword list \<Rightarrow> dword \<Rightarrow> bool" where
  "packed_storable vs v \<longleftrightarrow> v \<noteq> - 1 \<and> length vs + 1 < 2 ^ 32"

lemma packed_add_ok:
  assumes "packed_writes s pre vs" "packed_storable vs v"
  shows "packed_writes (po_Add v s) pre (vs @ [v])"
proof -
  obtain bs ws where w: "bo_bytes s = pre @ bs" "coded bs ws" "vs = ws @ replicate (unat (po_count s)) (po_lastValue s)"
      "po_count s \<noteq> 0 \<longrightarrow> po_lastValue s \<noteq> - 1"
    using assms(1) by (auto simp: packed_writes_def)
  have v: "v \<noteq> - 1" "unat (po_count s) + 1 < 2 ^ 32" using assms(2) w(3) by (auto simp: packed_storable_def)
  show ?thesis
  proof (cases "v = po_lastValue s")
    case True
    have "unat (po_count s + 1) = Suc (unat (po_count s))" using v(2) by (simp add: unat_word_ariths)
    then show ?thesis using w v True
      by (auto simp: packed_writes_def po_Add_def bo_bytes_def replicate_append_same)
  next
    case False
    have step: ?thesis if "bo_bytes (po_Add v s) = (pre @ bs) @ bs'" "coded bs' (replicate (unat (po_count s)) (po_lastValue s))"
      "po_count (po_Add v s) = 1" "po_lastValue (po_Add v s) = v" for bs'
      using that w(3) coded_append [OF w(2) that(2)] v(1) by (auto simp: packed_writes_def)
    consider (one) "po_count s = 1" | (two) "po_count s = 2" "po_lastValue s < 0x80"
      | (run) "po_count s \<noteq> 1" "\<not> (po_count s = 2 \<and> po_lastValue s < 0x80)" "po_count s \<noteq> 0" | (none) "po_count s = 0"
      by blast
    then show ?thesis
    proof cases
      case one
      then show ?thesis using False w coded_one [of "po_lastValue s"]
        by (intro step [of "dword_code (po_lastValue s + 1)"])
          (simp_all add: po_Add_def Let_def bo_bytes_InternalAdd po_fields_InternalAdd)
    next
      case two
      have "coded (dword_code (po_lastValue s + 1) @ dword_code (po_lastValue s + 1)) [po_lastValue s, po_lastValue s]"
        using coded_append [OF coded_one coded_one] w(4) two by force
      moreover have "replicate 2 (po_lastValue s) = [po_lastValue s, po_lastValue s]" by (simp add: numeral_2_eq_2)
      ultimately show ?thesis using False w two
        by (intro step [of "dword_code (po_lastValue s + 1) @ dword_code (po_lastValue s + 1)"])
          (simp_all add: po_Add_def Let_def bo_bytes_InternalAdd po_fields_InternalAdd)
    next
      case run
      then show ?thesis using False w coded_one_run [of "po_count s" "po_lastValue s"]
        by (intro step [of "dword_code 0 @ dword_code (po_count s) @ dword_code (po_lastValue s)"])
          (auto simp: po_Add_def Let_def po_FlushLastValue_def bo_bytes_InternalAdd po_fields_InternalAdd word_gt_0)
    next
      case none
      then show ?thesis using False w coded_Nil
        by (intro step [of "[]"]) (simp_all add: po_Add_def Let_def po_FlushLastValue_def)
    qed
  qed
qed

lemma packed_flush_ok:
  assumes "packed_writes s pre vs"
  shows "\<exists>bs. bo_bytes (po_FlushLastValue s) = pre @ bs \<and> coded bs vs"
proof -
  obtain bs ws where w: "bo_bytes s = pre @ bs" "coded bs ws" "vs = ws @ replicate (unat (po_count s)) (po_lastValue s)"
    using assms by (auto simp: packed_writes_def)
  show ?thesis
  proof (cases "po_count s = 0")
    case True
    then show ?thesis using w by (auto simp: po_FlushLastValue_def)
  next
    case False
    then have "coded (bs @ dword_code 0 @ dword_code (po_count s) @ dword_code (po_lastValue s)) vs"
      using coded_append [OF w(2) coded_one_run] w(3) by simp
    then show ?thesis using False w(1)
      by (auto simp: po_FlushLastValue_def word_gt_0 bo_bytes_InternalAdd po_fields_InternalAdd)
  qed
qed

lemma packed_open_ok: "coded bs vs \<Longrightarrow> pi_count i = 0 \<Longrightarrow> bi_current i = bs @ rest \<Longrightarrow> packed_reads i vs rest"
  by (auto simp: packed_reads_def)

lemma packed_reads_done: "packed_reads i [] rest \<Longrightarrow> bi_current i = rest"
  by (auto simp: packed_reads_def dest: coded_no_values)

lemma packed_get_ok:
  assumes "packed_reads i (v # vs) rest"
  shows "\<exists>i'. pi_GetValue i = Inr (v, i') \<and> packed_reads i' vs rest \<and> packed_in.more i' = packed_in.more i"
proof -
  obtain bs ws where r: "bi_current i = bs @ rest" "coded bs ws" "v # vs = replicate (unat (pi_count i)) (pi_lastValue i) @ ws"
    using assms by (auto simp: packed_reads_def)
  have run: "\<exists>i'. pi_GetValue i = Inr (v, i') \<and> packed_reads i' vs rest \<and> packed_in.more i' = packed_in.more i"
    if i: "bi_current i = bs @ rest" "coded bs ws" "v # vs = replicate (unat (pi_count i)) (pi_lastValue i) @ ws" "pi_count i \<noteq> 0"
    for i :: "'a packed_in_scheme" and bs ws
  proof -
    have n: "unat (pi_count i) = Suc (unat (pi_count i - 1))" using i(4) by (simp add: unat_minus_one unat_gt_0)
    then have "v = pi_lastValue i" "vs = replicate (unat (pi_count i - 1)) (pi_lastValue i) @ ws" using i(3) by simp_all
    then show ?thesis using i by (subst pi_GetValue.simps) (auto simp: packed_reads_def)
  qed
  show ?thesis
  proof (cases "pi_count i = 0")
    case False
    then show ?thesis using run r by blast
  next
    case True
    then have ws: "ws = v # vs" using r(3) by simp
    from r(2) show ?thesis
    proof cases
      case coded_Nil
      then show ?thesis using ws by simp
    next
      case (coded_value x bs' ws')
      then have x: "x = v" "ws' = vs" "v + 1 \<noteq> 0"
        using ws by (auto simp: eq_neg_iff_add_eq_0 [symmetric])
      have "pi_InternalGetValue i = Inr (v + 1, i\<lparr>bi_current := bs' @ rest\<rparr>)"
        using r(1) coded_value x by (intro InternalGetValue_code) simp
      then have "pi_GetValue i = Inr (v, i\<lparr>bi_current := bs' @ rest\<rparr>)"
        using True x(3) by (subst pi_GetValue.simps) simp
      moreover have "packed_reads (i\<lparr>bi_current := bs' @ rest\<rparr>) vs rest"
        using True coded_value(4) x(2) by (intro packed_open_ok [of bs']) auto
      ultimately show ?thesis by simp
    next
      case (coded_run n bs' ws' x)
      let ?i1 = "i\<lparr>bi_current := dword_code n @ dword_code x @ bs' @ rest\<rparr>"
      let ?i2 = "i\<lparr>bi_current := dword_code x @ bs' @ rest\<rparr>"
      let ?i3 = "i\<lparr>pi_count := n, bi_current := bs' @ rest, pi_lastValue := x\<rparr>"
      have "pi_InternalGetValue i = Inr (0, ?i1)" using r(1) coded_run by (intro InternalGetValue_code) simp
      moreover have "pi_InternalGetValue ?i1 = Inr (n, ?i2)"
        by (subst InternalGetValue_code [of _ n "dword_code x @ bs' @ rest"]) simp_all
      moreover have "pi_InternalGetValue (?i2\<lparr>pi_count := n\<rparr>) = Inr (x, ?i2\<lparr>pi_count := n, bi_current := bs' @ rest\<rparr>)"
        by (rule InternalGetValue_code) simp
      ultimately have "pi_GetValue i = pi_GetValue ?i3"
        using True by (subst pi_GetValue.simps) simp
      moreover have "v # vs = replicate (unat (pi_count ?i3)) (pi_lastValue ?i3) @ ws'" using ws coded_run by simp
      ultimately show ?thesis using run [of ?i3 bs' ws'] coded_run by simp
    qed
  qed
qed

interpretation packed: value_stream po_Add po_FlushLastValue pi_GetValue bo_bytes bi_current
  "\<lambda>i :: 'b packed_in_scheme. pi_count i = 0" packed_storable
  "packed_writes :: 'a packed_out_scheme \<Rightarrow> byte list \<Rightarrow> dword list \<Rightarrow> bool" packed_reads
proof
  fix s :: "'a packed_out_scheme" and pre vs v
  assume s: "packed_writes s pre vs"
  show "\<exists>bs. bo_bytes (po_FlushLastValue s) = pre @ bs \<and>
      (\<forall>(i :: 'b packed_in_scheme) rest. pi_count i = 0 \<longrightarrow> bi_current i = bs @ rest \<longrightarrow> packed_reads i vs rest)"
    using packed_flush_ok [OF s] packed_open_ok by blast
  show "packed_storable vs v \<Longrightarrow> packed_writes (po_Add v s) pre (vs @ [v])" by (rule packed_add_ok [OF s])
next
  show "\<exists>i'. pi_GetValue i = Inr (v, i') \<and> packed_reads i' vs rest" if "packed_reads i (v # vs) rest"
    for i :: "'b packed_in_scheme" and v vs rest using packed_get_ok [OF that] by blast
qed (rule packed_reads_done)


text \<open>The size of a vector is a plain value in front of the packed ones.\<close>

definition packed_fresh :: "'a packed_out_scheme \<Rightarrow> bool" where
  "packed_fresh s \<longleftrightarrow> po_count s = 0"

lemma packed_size_written: "packed_fresh s \<Longrightarrow> packed_writes (po_AddSizeValue n s) (bo_bytes s @ dword_code (ucast n)) []"
  by (auto simp: packed_writes_def packed_fresh_def po_AddSizeValue_def bo_bytes_InternalAdd po_fields_InternalAdd coded_Nil)

lemma packed_size_read:
  assumes "unat n < 2 ^ 32" "pi_count i = 0" "bi_current i = dword_code (ucast n) @ rest"
  shows "pi_GetSizeValue i = Inr (n, i\<lparr>bi_current := rest\<rparr>)"
proof -
  have "(ucast (ucast n :: dword) :: size_t) = n"
    using assms(1) by (simp add: word_unat_eq_iff unsigned_ucast_eq unsigned_take_bit_eq take_bit_nat_eq_self)
  then show ?thesis using InternalGetValue_code [OF assms(3)] by (simp add: pi_GetSizeValue_def)
qed

interpretation packed: sized_stream po_Add po_FlushLastValue pi_GetValue bo_bytes bi_current
  "\<lambda>i :: 'b packed_in_scheme. pi_count i = 0" packed_storable
  "packed_writes :: 'a packed_out_scheme \<Rightarrow> byte list \<Rightarrow> dword list \<Rightarrow> bool" packed_reads
  po_AddSizeValue pi_GetSizeValue packed_fresh
proof
  show "\<exists>hd. packed_writes (po_AddSizeValue n s) (bo_bytes s @ hd) [] \<and>
      (\<forall>(i :: 'b packed_in_scheme) rest. pi_count i = 0 \<longrightarrow> bi_current i = hd @ rest \<longrightarrow>
        (\<exists>i'. pi_GetSizeValue i = Inr (n, i') \<and> pi_count i' = 0 \<and> bi_current i' = rest))"
    if "packed_fresh s" "unat n < 2 ^ 32" for s :: "'a packed_out_scheme" and n
  proof (intro exI [of _ "dword_code (ucast n)"] conjI allI impI)
    show "packed_writes (po_AddSizeValue n s) (bo_bytes s @ dword_code (ucast n)) []" by (rule packed_size_written [OF that(1)])
    fix i :: "'b packed_in_scheme" and rest
    assume i: "pi_count i = 0" "bi_current i = dword_code (ucast n) @ rest"
    show "\<exists>i'. pi_GetSizeValue i = Inr (n, i') \<and> pi_count i' = 0 \<and> bi_current i' = rest"
      using packed_size_read [OF that(2) i] i(1) by simp
  qed
qed

subsection \<open>Signed values\<close>

definition integer_writes :: "'a packed_out_scheme \<Rightarrow> byte list \<Rightarrow> dword list \<Rightarrow> bool" where
  "integer_writes s pre vs \<longleftrightarrow> packed_writes s pre (map fold_sign vs) \<and> (\<forall>v \<in> set vs. - 2147483647 < sint v)"

definition integer_reads :: "'a packed_in_scheme \<Rightarrow> dword list \<Rightarrow> byte list \<Rightarrow> bool" where
  "integer_reads i vs rest \<longleftrightarrow> (\<exists>ws. packed_reads i ws rest \<and> vs = map unfold_sign ws)"

text \<open>The two smallest values cannot be stored, as the comment of the class says.\<close>

definition integer_storable :: "dword list \<Rightarrow> dword \<Rightarrow> bool" where
  "integer_storable vs v \<longleftrightarrow> - 2147483647 < sint v \<and> length vs + 1 < 2 ^ 32"

lemma sint_unat:
  "sint (v :: dword) = (if unat v < 2 ^ 31 then int (unat v) else int (unat v) - 2 ^ 32)"
proof -
  define x where "x = int (unat v)"
  have "sint v = (uint v + 2 ^ 31) mod 2 ^ 32 - 2 ^ 31" using int_word_sint [of "uint v", where 'a = 32] by simp
  also have "uint v = x" by (simp add: x_def)
  finally have s: "sint v = (x + 2 ^ 31) mod 2 ^ 32 - 2 ^ 31" .
  have "unat v < 2 ^ 32" using unat_bound [of v] by simp
  then have x: "0 \<le> x" "x < 2 ^ 32" unfolding x_def by (simp, metis of_nat_less_iff of_nat_numeral of_nat_power)
  have "(x + 2 ^ 31) mod 2 ^ 32 - 2 ^ 31 = (if x < 2 ^ 31 then x else x - 2 ^ 32)"
  proof (cases "x < 2 ^ 31")
    case True
    then have "(x + 2 ^ 31) mod 2 ^ 32 = x + 2 ^ 31" using x by (intro mod_pos_pos_trivial) simp_all
    then show ?thesis using True by simp
  next
    case False
    have "x + 2 ^ 31 = (x - 2 ^ 31) + 2 ^ 32" by simp
    then have "(x + 2 ^ 31) mod 2 ^ 32 = (x - 2 ^ 31) mod 2 ^ 32" by (metis mod_add_self2)
    also have "\<dots> = x - 2 ^ 31" using False x by (intro mod_pos_pos_trivial) simp_all
    finally show ?thesis using False by simp
  qed
  moreover have "x < 2 ^ 31 \<longleftrightarrow> unat v < 2 ^ 31" unfolding x_def by (metis of_nat_less_iff of_nat_numeral of_nat_power)
  ultimately show ?thesis unfolding s x_def [symmetric] by simp
qed

lemma unat_neg: "v \<noteq> 0 \<Longrightarrow> unat (- v :: dword) = 2 ^ 32 - unat v"
proof -
  assume "v \<noteq> 0"
  then have v: "0 < unat v" by (simp add: unat_gt_0)
  have "unat (v + - v) = 0" by simp
  then have "(unat v + unat (- v)) mod 2 ^ 32 = 0" by (simp only: unat_word_ariths) simp
  then obtain k where k: "unat v + unat (- v) = 2 ^ 32 * k" by auto
  have b: "unat v < 2 ^ 32" "unat (- v) < 2 ^ 32" using unat_bound [of v] unat_bound [of "- v"] by simp_all
  have "k = 1"
  proof (rule ccontr)
    assume "k \<noteq> 1"
    then have "k = 0 \<or> 2 \<le> k" by linarith
    then show False using k v b by auto
  qed
  then show ?thesis using k by simp
qed

lemma fold_unfold_sign:
  assumes "- 2147483647 < sint v"
  shows "unfold_sign (fold_sign v) = v \<and> fold_sign v \<noteq> - 1"
proof (cases "unat v < 2 ^ 31")
  case True
  then have f: "fold_sign v = 2 * v" by (simp add: fold_sign_def sint_unat)
  have u: "unat (2 * v) = 2 * unat v" using True by (simp add: unat_word_ariths)
  then have "2 * v div 2 = v" by (simp add: word_unat_eq_iff unat_div)
  moreover have "(2 * v) AND 1 = 0" using u by (simp add: and_one_eq word_unat_eq_iff unat_mod)
  moreover have "2 * v \<noteq> - 1"
  proof
    assume "2 * v = - 1"
    then have "2 * unat v = 4294967295" using u unat_NO_INDEX [where 'i = 32] by (simp add: NO_INDEX_def)
    then show False by presburger
  qed
  ultimately show ?thesis by (simp add: f unfold_sign_def)
next
  case False
  then have v: "v \<noteq> 0" "unat v < 2 ^ 32" using unat_bound [of v] by auto
  let ?m = "unat (- v)"
  obtain n where n: "n = unat v" by simp
  have "sint v = int n - 2 ^ 32" using False by (simp only: sint_unat n if_False)
  then have "2147483649 < n" using assms by simp
  then have m: "?m < 2147483647" using unat_neg [OF v(1)] n by simp
  have "int n < 2 ^ 32" using v(2) [folded n] by simp
  then have "\<not> 0 \<le> sint v" using \<open>sint v = int n - 2 ^ 32\<close> by simp
  then have f: "fold_sign v = 2 * (- v) + 1" by (simp add: fold_sign_def)
  have u: "unat (2 * (- v) + 1) = 2 * ?m + 1" using m by (simp add: unat_word_ariths del: mult_minus_right)
  then have "(2 * (- v) + 1) div 2 = - v" by (simp add: word_unat_eq_iff unat_div del: mult_minus_right)
  moreover have "(2 * (- v) + 1) AND 1 \<noteq> 0" using u by (simp add: and_one_eq word_unat_eq_iff unat_mod del: mult_minus_right)
  moreover have "2 * (- v) + 1 \<noteq> - 1"
  proof
    assume "2 * (- v) + 1 = - 1"
    then have "2 * ?m + 1 = 4294967295" using u unat_NO_INDEX [where 'i = 32] by (simp add: NO_INDEX_def)
    then show False using m by presburger
  qed
  ultimately show ?thesis by (simp add: f unfold_sign_def)
qed


interpretation integers: sized_stream po_AddInteger po_FlushLastValue pi_GetInteger bo_bytes bi_current
  "\<lambda>i :: 'b packed_in_scheme. pi_count i = 0" integer_storable
  "integer_writes :: 'a packed_out_scheme \<Rightarrow> byte list \<Rightarrow> dword list \<Rightarrow> bool" integer_reads
  po_AddSizeValue pi_GetSizeValue packed_fresh
proof
  fix s :: "'a packed_out_scheme" and pre vs v
  assume s: "integer_writes s pre vs"
  show "integer_writes (po_AddInteger v s) pre (vs @ [v])" if "integer_storable vs v"
    using that s packed_add_ok [of s pre "map fold_sign vs" "fold_sign v"] fold_unfold_sign [of v]
    by (simp add: integer_writes_def integer_storable_def packed_storable_def po_AddInteger_def)
  have same: "map unfold_sign (map fold_sign vs) = vs"
    using s fold_unfold_sign by (simp add: integer_writes_def map_idI)
  show "\<exists>bs. bo_bytes (po_FlushLastValue s) = pre @ bs \<and>
      (\<forall>(i :: 'b packed_in_scheme) rest. pi_count i = 0 \<longrightarrow> bi_current i = bs @ rest \<longrightarrow> integer_reads i vs rest)"
    using packed.flush_ok [of s pre "map fold_sign vs"] s same by (metis integer_reads_def integer_writes_def)
next
  fix i :: "'b packed_in_scheme" and v vs rest
  assume "integer_reads i (v # vs) rest"
  then obtain w ws where w: "packed_reads i (w # ws) rest" "v = unfold_sign w" "vs = map unfold_sign ws"
    by (auto simp: integer_reads_def Cons_eq_map_conv)
  then show "\<exists>i'. pi_GetInteger i = Inr (v, i') \<and> integer_reads i' vs rest"
    using packed_get_ok [OF w(1)] by (fastforce simp: pi_GetInteger_def integer_reads_def)
next
  fix i :: "'b packed_in_scheme" and rest
  show "integer_reads i [] rest \<Longrightarrow> bi_current i = rest" by (auto simp: integer_reads_def intro: packed_reads_done)
next
  fix s :: "'a packed_out_scheme" and n :: size_t
  assume "packed_fresh s" "unat n < 2 ^ 32"
  then show "\<exists>hd. integer_writes (po_AddSizeValue n s) (bo_bytes s @ hd) [] \<and>
      (\<forall>(i :: 'b packed_in_scheme) rest. pi_count i = 0 \<longrightarrow> bi_current i = hd @ rest \<longrightarrow>
        (\<exists>i'. pi_GetSizeValue i = Inr (n, i') \<and> pi_count i' = 0 \<and> bi_current i' = rest))"
    using packed.size_ok [of s n] by (simp add: integer_writes_def)
qed

subsection \<open>Differences\<close>

fun diffs_from :: "dword \<Rightarrow> dword list \<Rightarrow> dword list" where
  "diffs_from l [] = []"
| "diffs_from l (v # vs) = (v - l) # diffs_from v vs"

lemma diffs_from_snoc: "diffs_from l (vs @ [v]) = diffs_from l vs @ [v - last (l # vs)]"
  by (induction vs arbitrary: l) auto

definition diff_writes :: "(diff_out \<Rightarrow> byte list \<Rightarrow> dword list \<Rightarrow> bool) \<Rightarrow> diff_out \<Rightarrow> byte list \<Rightarrow> dword list \<Rightarrow> bool" where
  "diff_writes W s pre vs \<longleftrightarrow> W s pre (diffs_from 0 vs) \<and> do_lastValue s = last (0 # vs)"

definition diff_reads :: "(diff_in \<Rightarrow> dword list \<Rightarrow> byte list \<Rightarrow> bool) \<Rightarrow> diff_in \<Rightarrow> dword list \<Rightarrow> byte list \<Rightarrow> bool" where
  "diff_reads R i vs rest \<longleftrightarrow> R i (diffs_from (di_lastValue i) vs) rest"

definition diff_storable :: "(dword list \<Rightarrow> dword \<Rightarrow> bool) \<Rightarrow> dword list \<Rightarrow> dword \<Rightarrow> bool" where
  "diff_storable P vs v \<longleftrightarrow> P (diffs_from 0 vs) (v - last (0 # vs))"

definition diff_fresh :: "diff_in \<Rightarrow> bool" where
  "diff_fresh i \<longleftrightarrow> pi_count i = 0 \<and> di_lastValue i = 0"

definition diff_fresh_out :: "diff_out \<Rightarrow> bool" where
  "diff_fresh_out s \<longleftrightarrow> po_count s = 0 \<and> do_lastValue s = 0"

text \<open>The template keeps the contract of its base class, whichever of the two it is.\<close>

lemma diff_value_stream:
  assumes base: "value_stream add flush get bo_bytes bi_current (\<lambda>i :: diff_in. pi_count i = 0) P W R"
    and W: "\<And>s x pre ws. W (s\<lparr>do_lastValue := x\<rparr>) pre ws = W s pre ws"
    and R: "\<And>i x ws rest. R (i\<lparr>di_lastValue := x\<rparr>) ws rest = R i ws rest"
    and get: "\<And>i v ws rest. R i (v # ws) rest \<Longrightarrow>
      \<exists>i'. get i = Inr (v, i') \<and> R i' ws rest \<and> di_lastValue i' = di_lastValue i"
  shows "value_stream (do_Add add) flush (di_GetValue get) bo_bytes bi_current diff_fresh
    (diff_storable P) (diff_writes W) (diff_reads R)"
proof
  show "diff_writes W (do_Add add v s) pre (vs @ [v])" if s: "diff_writes W s pre vs" and v: "diff_storable P vs v" for s pre vs v
    using value_stream.add_ok [OF base, of s pre "diffs_from 0 vs" "v - do_lastValue s"] s v
    by (simp add: diff_writes_def diff_storable_def do_Add_def W diffs_from_snoc)
  show "\<exists>bs. bo_bytes (flush s) = pre @ bs \<and>
      (\<forall>i rest. diff_fresh i \<longrightarrow> bi_current i = bs @ rest \<longrightarrow> diff_reads R i vs rest)" if "diff_writes W s pre vs" for s pre vs
    using value_stream.flush_ok [OF base, of s pre "diffs_from 0 vs"] that
    by (auto simp: diff_writes_def diff_reads_def diff_fresh_def)
  show "\<exists>i'. di_GetValue get i = Inr (v, i') \<and> diff_reads R i' vs rest" if "diff_reads R i (v # vs) rest" for i v vs rest
    using get [of i "v - di_lastValue i" "diffs_from v vs" rest] that
    by (fastforce simp: diff_reads_def di_GetValue_def Let_def R)
  show "bi_current i = rest" if "diff_reads R i [] rest" for i rest
    using value_stream.reads_done [OF base] that by (simp add: diff_reads_def)
qed

lemma packed_writes_diff [simp]: "packed_writes (s\<lparr>do_lastValue := x\<rparr>) pre ws = packed_writes s pre ws"
  by (simp add: packed_writes_def)

lemma packed_reads_diff [simp]: "packed_reads (i\<lparr>di_lastValue := x\<rparr>) ws rest = packed_reads i ws rest"
  by (simp add: packed_reads_def)

lemma di_lastValue_more: "packed_in.more i' = packed_in.more i \<Longrightarrow> di_lastValue i' = di_lastValue (i :: diff_in)"
  by (cases i; cases i') auto

lemma packed_get_diff:
  assumes "packed_reads i (v # vs) rest"
  shows "\<exists>i'. pi_GetValue i = Inr (v, i') \<and> packed_reads i' vs rest \<and> di_lastValue i' = di_lastValue (i :: diff_in)"
proof -
  obtain i' where "pi_GetValue i = Inr (v, i')" "packed_reads i' vs rest" "packed_in.more i' = packed_in.more i"
    using packed_get_ok [OF assms] by blast
  then show ?thesis using di_lastValue_more by metis
qed

lemma integer_get_diff:
  assumes "integer_reads i (v # vs) rest"
  shows "\<exists>i'. pi_GetInteger i = Inr (v, i') \<and> integer_reads i' vs rest \<and> di_lastValue i' = di_lastValue (i :: diff_in)"
proof -
  obtain w us where w: "packed_reads i (w # us) rest" "v = unfold_sign w" "vs = map unfold_sign us"
    using assms by (auto simp: integer_reads_def Cons_eq_map_conv)
  obtain i' where i': "pi_GetValue i = Inr (w, i')" "packed_reads i' us rest" "di_lastValue i' = di_lastValue i"
    using packed_get_diff [OF w(1)] by blast
  then have "pi_GetInteger i = Inr (v, i')" "integer_reads i' vs rest" using w by (auto simp: pi_GetInteger_def integer_reads_def)
  then show ?thesis using i'(3) by blast
qed

lemma do_lastValue_InternalAdd: "do_lastValue (po_InternalAdd v s) = do_lastValue s"
proof (induction v s rule: po_InternalAdd.induct)
  case (1 v s)
  then show ?case by (subst po_InternalAdd.simps) (simp add: bo_AddByte_def bo_Flush_def Let_def)
qed

lemma diff_size_ok:
  assumes "diff_fresh_out s" "unat n < 2 ^ 32" and W: "\<And>s pre. W s pre [] = packed_writes s pre []"
  shows "\<exists>hd. diff_writes W (po_AddSizeValue n s) (bo_bytes s @ hd) [] \<and>
    (\<forall>i rest. diff_fresh i \<longrightarrow> bi_current i = hd @ rest \<longrightarrow>
       (\<exists>i'. pi_GetSizeValue i = Inr (n, i') \<and> diff_fresh i' \<and> bi_current i' = rest))"
proof (intro exI [of _ "dword_code (ucast n)"] conjI allI impI)
  show "diff_writes W (po_AddSizeValue n s) (bo_bytes s @ dword_code (ucast n)) []"
    using packed_size_written [of s n] assms(1)
    by (simp add: diff_writes_def W diff_fresh_out_def packed_fresh_def po_AddSizeValue_def do_lastValue_InternalAdd)
  fix i rest
  assume i: "diff_fresh i" "bi_current i = dword_code (ucast n) @ rest"
  then show "\<exists>i'. pi_GetSizeValue i = Inr (n, i') \<and> diff_fresh i' \<and> bi_current i' = rest"
    using packed_size_read [OF assms(2) _ i(2)] by (simp add: diff_fresh_def)
qed

interpretation diff_dwords: sized_stream "do_Add po_Add" po_FlushLastValue "di_GetValue pi_GetValue" bo_bytes bi_current diff_fresh
  "diff_storable packed_storable" "diff_writes packed_writes" "diff_reads packed_reads"
  po_AddSizeValue pi_GetSizeValue diff_fresh_out
proof (intro sized_stream.intro sized_stream_axioms.intro)
  show "value_stream (do_Add po_Add) po_FlushLastValue (di_GetValue pi_GetValue) bo_bytes bi_current diff_fresh
    (diff_storable packed_storable) (diff_writes packed_writes) (diff_reads packed_reads)"
  proof (rule diff_value_stream [OF packed.value_stream_axioms])
  qed (simp_all add: packed_get_diff)
qed (rule diff_size_ok, simp_all)

interpretation diff_integers: sized_stream "do_Add po_AddInteger" po_FlushLastValue "di_GetValue pi_GetInteger" bo_bytes bi_current diff_fresh
  "diff_storable integer_storable" "diff_writes integer_writes" "diff_reads integer_reads"
  po_AddSizeValue pi_GetSizeValue diff_fresh_out
proof (intro sized_stream.intro sized_stream_axioms.intro)
  show "value_stream (do_Add po_AddInteger) po_FlushLastValue (di_GetValue pi_GetInteger) bo_bytes bi_current diff_fresh
    (diff_storable integer_storable) (diff_writes integer_writes) (diff_reads integer_reads)"
  proof (rule diff_value_stream [OF integers.value_stream_axioms])
    show "\<exists>i'. pi_GetInteger i = Inr (v, i') \<and> integer_reads i' ws rest \<and> di_lastValue i' = di_lastValue i"
      if "integer_reads i (v # ws) rest" for i :: diff_in and v ws rest by (rule integer_get_diff [OF that])
  qed (simp_all add: integer_writes_def integer_reads_def)
qed (rule diff_size_ok, simp_all add: integer_writes_def)


subsection \<open>Blocks of bytes and time stamps\<close>

lemma bo_make_room_fits: "length (bo_current s) + n \<le> CHUNK_SIZE \<Longrightarrow> bo_make_room n s = Some s"
  by (subst bo_make_room.simps) simp

lemma bo_Add_ok:
  assumes "length bs \<le> CHUNK_SIZE"
  shows "\<exists>s'. bo_Add bs s = Some s' \<and> bo_bytes s' = bo_bytes s @ bs \<and> binary_out.more s' = binary_out.more s"
proof (cases "length (bo_current s) + length bs \<le> CHUNK_SIZE")
  case True
  then show ?thesis by (simp add: bo_Add_def bo_make_room_fits bo_bytes_def)
next
  case False
  then have "bo_make_room (length bs) s = Some (bo_Flush s)"
    using assms by (subst bo_make_room.simps) (simp add: bo_make_room_fits bo_Flush_def)
  then show ?thesis by (simp add: bo_Add_def bo_Flush_def bo_bytes_def)
qed

lemma used_size_ok:
  "1 \<le> n \<Longrightarrow> 1 \<le> used_size buf n \<and> used_size buf n \<le> n \<and> (\<forall>k. used_size buf n < k \<and> k \<le> n \<longrightarrow> buf ! k = 0)"
proof (induction buf n rule: used_size.induct)
  case (1 buf n)
  show ?case
  proof (cases "buf ! Suc (Suc n) = 0")
    case True
    then have "1 \<le> used_size buf (Suc n) \<and> used_size buf (Suc n) \<le> Suc n \<and>
        (\<forall>k. used_size buf (Suc n) < k \<and> k \<le> Suc n \<longrightarrow> buf ! k = 0)" using "1.IH" by simp
    then show ?thesis using True by (auto simp: le_Suc_eq)
  qed auto
qed auto

lemma ucast_byte_take: "(ucast (ucast (v :: 64 word) :: byte) :: 64 word) = take_bit 8 v"
  by (simp add: word_unat_eq_iff unsigned_ucast_eq unsigned_take_bit_eq take_bit_nat_eq_self)

lemma bytes_qword_digits:
  "bytes_qword (map (\<lambda>k. ucast (drop_bit (8 * k) v)) [0..<n]) = take_bit (8 * n) v"
proof (induction n arbitrary: v)
  case (Suc n)
  let ?x = "take_bit (8 + 8 * n) v"
  have "map (\<lambda>k. ucast (drop_bit (8 * k) v) :: byte) [0..<Suc n] =
      ucast v # map (\<lambda>k. ucast (drop_bit (8 * k) (drop_bit 8 v))) [0..<n]"
    by (simp add: upt_conv_Cons map_Suc_upt [symmetric] comp_def add.commute del: upt_Suc)
  then have "bytes_qword (map (\<lambda>k. ucast (drop_bit (8 * k) v)) [0..<Suc n]) =
      take_bit 8 v + push_bit 8 (take_bit (8 * n) (drop_bit 8 v))"
    by (simp only: bytes_qword.simps Suc.IH ucast_byte_take)
  also have "take_bit 8 v = take_bit 8 ?x" by simp
  also have "take_bit (8 * n) (drop_bit 8 v) = drop_bit 8 ?x" by (simp add: drop_bit_take_bit)
  also have "take_bit 8 ?x + push_bit 8 (drop_bit 8 ?x) = ?x" by (metis add.commute bits_ident)
  finally show ?case by simp
qed simp

lemma take_bit_zero_bytes:
  "sz \<le> n \<Longrightarrow> (\<And>k. sz \<le> k \<Longrightarrow> k < n \<Longrightarrow> (ucast (drop_bit (8 * k) v) :: byte) = 0) \<Longrightarrow>
   take_bit (8 * sz) (v :: 64 word) = take_bit (8 * n) v"
proof (induction n)
  case (Suc n)
  show ?case
  proof (cases "sz = Suc n")
    case False
    then have IH: "take_bit (8 * sz) v = take_bit (8 * n) v" using Suc by simp
    have "take_bit 8 (drop_bit (8 * n) v) = 0" using Suc.prems(2) [of n] Suc.prems(1) False ucast_byte_take [of "drop_bit (8 * n) v"] by simp
    moreover have "take_bit (8 * n + 8) v = push_bit (8 * n) (take_bit 8 (drop_bit (8 * n) v)) + take_bit (8 * n) v"
    proof -
      let ?x = "take_bit (8 * n + 8) v"
      have "drop_bit (8 * n) ?x = take_bit 8 (drop_bit (8 * n) v)" by (simp add: drop_bit_take_bit)
      moreover have "take_bit (8 * n) ?x = take_bit (8 * n) v" by simp
      ultimately show ?thesis by (metis bits_ident)
    qed
    ultimately show ?thesis using IH by (simp add: add.commute)
  qed simp
qed simp


text \<open>The bytes of one difference, as \<open>to_Add\<close> puts them into its buffer.\<close>

definition time_code :: "64 word \<Rightarrow> byte list" where
  "time_code d =
     (let (d, head) = (if sint d < 0 then (- d, 0x80 :: byte) else (d, 0));
          head = head + (ucast d AND 0xf);
          d = signed_drop_bit 4 d;
          sz = used_size (0 # qword_bytes d) 8
      in (head + of_nat ((sz - 1) * 0x10)) # take sz (qword_bytes d))"

lemma to_Add_code: "to_Add v s = bo_Add (time_code (v - to_lastValue s)) (s\<lparr>to_lastValue := v\<rparr>)"
  by (simp add: to_Add_def time_code_def Let_def split: prod.split)

lemma low_nibble: "unat ((ucast (d :: 64 word) :: byte) AND 0xf) = unat d mod 16"
proof -
  have "(ucast d :: byte) AND 0xf = take_bit 4 (ucast d)" by (simp add: take_bit_eq_mask mask_eq_exp_minus_1)
  then have "unat ((ucast d :: byte) AND 0xf) = take_bit 4 (unat (ucast d :: byte))" by (simp add: unsigned_take_bit_eq)
  also have "\<dots> = unat d mod 2 ^ 8 mod 2 ^ 4" by (simp only: unsigned_ucast_eq take_bit_eq_mod) simp
  finally show ?thesis by (simp add: mod_mod_cancel)
qed

lemma nibble_join: "signed_drop_bit 4 d * 0x10 + take_bit 4 d = (d :: 64 word)"
proof -
  have "signed_drop_bit 4 d * 0x10 = push_bit 4 (signed_drop_bit 4 d)" by (simp add: push_bit_eq_mult)
  moreover have "push_bit 4 (signed_drop_bit 4 d) = push_bit 4 (drop_bit 4 d)"
    by (rule bit_word_eqI) (auto simp: bit_push_bit_iff bit_signed_drop_bit_iff bit_drop_bit_eq)
  ultimately show ?thesis by (metis add.commute bits_ident)
qed

lemma time_head:
  assumes "unat low < 16" "1 \<le> sz" "sz \<le> (8 :: nat)" "sgn_byte = 0 \<or> sgn_byte = (0x80 :: byte)"
  defines "h \<equiv> sgn_byte + low + of_nat ((sz - 1) * 0x10)"
  shows "unat ((h div 0x10) AND 0x7) + 1 = sz" "h \<ge> 0x80 \<longleftrightarrow> sgn_byte = 0x80" "unat h mod 16 = unat low"
proof -
  have k: "unat (of_nat ((sz - 1) * 0x10) :: byte) = (sz - 1) * 16" using assms(2,3) by (intro unat_of_nat_small) simp
  have s: "unat sgn_byte = 0 \<or> unat sgn_byte = 128" using assms(4) by auto
  have h: "unat h = unat sgn_byte + unat low + (sz - 1) * 16"
    unfolding h_def using k assms(1-3) s by (auto simp: unat_word_ariths)
  have "(h div 0x10) AND 0x7 = take_bit 3 (h div 0x10)" by (simp add: take_bit_eq_mask mask_eq_exp_minus_1)
  then have "unat ((h div 0x10) AND 0x7) = unat h div 16 mod 8" by (simp add: unsigned_take_bit_eq unat_div unat_mod take_bit_eq_mod)
  moreover have "unat h div 16 = (if unat sgn_byte = 0 then 0 else 8) + (sz - 1)" unfolding h using assms(1) s by auto
  moreover obtain m where "sz = Suc m" "m < 8" using assms(2,3) by (cases sz) auto
  ultimately show "unat ((h div 0x10) AND 0x7) + 1 = sz" by simp
  show "h \<ge> 0x80 \<longleftrightarrow> sgn_byte = 0x80" using h assms(1-4) s by (auto simp: word_le_nat_alt)
  have "unat h = unat low + 16 * ((if unat sgn_byte = 0 then 0 else 8) + (sz - 1))" using h s by auto
  then show "unat h mod 16 = unat low" using assms(1) by (simp only: mod_mult_self2 mod_less)
qed

lemma get_bytes_ok: "bi_current s = bs @ rest \<Longrightarrow> get_bytes (length bs) s = Inr (bs, s\<lparr>bi_current := rest\<rparr>)"
proof (induction bs arbitrary: s)
  case (Cons b bs)
  then show ?case using Cons.IH [of "s\<lparr>bi_current := bs @ rest\<rparr>"] by (simp add: bi_GetByte_def)
qed simp

lemma time_code_ok:
  assumes s: "bi_current s = time_code d @ rest"
  shows "ti_GetValue s = Inr (d + ti_lastValue s, s\<lparr>bi_current := rest, ti_lastValue := d + ti_lastValue s\<rparr>)"
    and "length (time_code d) \<le> 9"
proof -
  define neg where "neg \<longleftrightarrow> sint d < 0"
  define a where "a = (if neg then - d else d)"
  define sgn_byte where "sgn_byte = (if neg then 0x80 else 0 :: byte)"
  define e where "e = signed_drop_bit 4 a"
  define sz where "sz = used_size (0 # qword_bytes e) 8"
  define h where "h = sgn_byte + (ucast a AND 0xf) + of_nat ((sz - 1) * 0x10)"
  have code: "time_code d = h # take sz (qword_bytes e)"
    by (simp add: time_code_def Let_def h_def sz_def e_def a_def sgn_byte_def neg_def)
  have sz: "1 \<le> sz" "sz \<le> 8" "\<And>k. sz < k \<Longrightarrow> k \<le> 8 \<Longrightarrow> (0 # qword_bytes e) ! k = 0"
    using used_size_ok [of 8 "0 # qword_bytes e"] unfolding sz_def by auto
  have tk: "take sz (qword_bytes e) = map (\<lambda>k. ucast (drop_bit (8 * k) e)) [0..<sz]"
    using sz(2) by (simp add: qword_bytes_def take_map)
  show "length (time_code d) \<le> 9" using sz(2) by (simp add: code tk)
  have "(ucast (drop_bit (8 * k) e) :: byte) = 0" if "sz \<le> k" "k < 8" for k
    using sz(3) [of "Suc k"] that by (simp add: qword_bytes_def)
  then have "take_bit (8 * sz) e = take_bit (8 * 8) e" using sz(2) by (intro take_bit_zero_bytes) auto
  then have e: "bytes_qword (take sz (qword_bytes e)) = e" unfolding tk bytes_qword_digits by (simp add: take_bit_word_eq_self)
  have low: "unat (ucast a AND 0xf :: byte) < 16" by (simp add: low_nibble)
  have sg: "sgn_byte = 0 \<or> sgn_byte = 0x80" by (simp add: sgn_byte_def)
  note hd = time_head [OF low sz(1,2) sg, folded h_def]
  have "unat (ucast h AND 0xf :: 64 word) = unat (take_bit 4 a)"
  proof -
    have "(ucast h AND 0xf :: 64 word) = take_bit 4 (ucast h)" by (simp add: take_bit_eq_mask mask_eq_exp_minus_1)
    moreover have "unat (ucast h :: 64 word) = unat h"
      using unat_bound [of h] by (simp add: unsigned_ucast_eq take_bit_nat_eq_self)
    ultimately have "unat (ucast h AND 0xf :: 64 word) = unat h mod 16"
      by (simp add: unsigned_take_bit_eq take_bit_eq_mod unat_mod)
    then show ?thesis using hd(3) by (simp add: low_nibble unsigned_take_bit_eq take_bit_eq_mod unat_mod)
  qed
  then have nib: "(ucast h AND 0xf :: 64 word) = take_bit 4 a" by (simp add: word_unat_eq_iff)
  have v: "(if h \<ge> 0x80 then - (e * 0x10 + (ucast h AND 0xf)) else e * 0x10 + (ucast h AND 0xf)) = d"
    unfolding nib e_def nibble_join hd(2) by (simp add: a_def sgn_byte_def)
  have g1: "bi_GetByte s = Inr (h, s\<lparr>bi_current := take sz (qword_bytes e) @ rest\<rparr>)"
    using s by (simp add: code bi_GetByte_def)
  have len: "length (take sz (qword_bytes e)) = sz" by (simp add: tk)
  have g2: "get_bytes sz (s\<lparr>bi_current := take sz (qword_bytes e) @ rest\<rparr>) = Inr (take sz (qword_bytes e), s\<lparr>bi_current := rest\<rparr>)"
    using get_bytes_ok [of "s\<lparr>bi_current := take sz (qword_bytes e) @ rest\<rparr>" "take sz (qword_bytes e)" rest] len by simp
  show "ti_GetValue s = Inr (d + ti_lastValue s, s\<lparr>bi_current := rest, ti_lastValue := d + ti_lastValue s\<rparr>)"
    using v by (simp only: ti_GetValue_def g1 bindE.simps prod.case hd(1) Let_def g2 e) simp
qed


lemma to_Add_ok: "\<exists>s'. to_Add v s = Some s' \<and> bo_bytes s' = bo_bytes s @ time_code (v - to_lastValue s) \<and> to_lastValue s' = v"
proof -
  have "length (time_code (v - to_lastValue s)) \<le> CHUNK_SIZE"
    using time_code_ok(2) [of "\<lparr>bi_first = [], bi_current = time_code (v - to_lastValue s), ti_lastValue = 0\<rparr>" "v - to_lastValue s" "[]"]
    by (simp add: CHUNK_SIZE_def)
  from bo_Add_ok [OF this, of "s\<lparr>to_lastValue := v\<rparr>"] obtain s' where
    "to_Add v s = Some s'" "bo_bytes s' = bo_bytes s @ time_code (v - to_lastValue s)"
    "binary_out.more s' = binary_out.more (s\<lparr>to_lastValue := v\<rparr>)" by (auto simp: to_Add_code bo_bytes_def)
  moreover from this(3) have "to_lastValue s' = v" by (cases s; cases s') auto
  ultimately show ?thesis by blast
qed

text \<open>The vector operators on a time stamp stream: here the size is a first value.\<close>

fun to_AddAll :: "64 word list \<Rightarrow> time_out \<Rightarrow> time_out option" where
  "to_AddAll [] s = Some s"
| "to_AddAll (v # vs) s = Option.bind (to_Add v s) (to_AddAll vs)"

definition to_write_vector :: "64 word list \<Rightarrow> time_out \<Rightarrow> time_out option" where
  "to_write_vector data s = Option.bind (to_AddSizeValue (of_nat (length data)) s) (to_AddAll data)"

fun time_codes :: "64 word \<Rightarrow> 64 word list \<Rightarrow> byte list" where
  "time_codes l [] = []"
| "time_codes l (v # vs) = time_code (v - l) @ time_codes v vs"

lemma to_AddAll_ok:
  "\<exists>s'. to_AddAll vs s = Some s' \<and> bo_bytes s' = bo_bytes s @ time_codes (to_lastValue s) vs"
proof (induction vs arbitrary: s)
  case (Cons v vs)
  obtain s1 where "to_Add v s = Some s1" "bo_bytes s1 = bo_bytes s @ time_code (v - to_lastValue s)" "to_lastValue s1 = v"
    using to_Add_ok by blast
  then show ?case using Cons.IH [of s1] by auto
qed simp

lemma read_time_codes:
  "bi_current s = time_codes (ti_lastValue s) vs @ rest \<Longrightarrow>
   \<exists>s'. read_values ti_GetValue (length vs) s = Inr (vs, s') \<and> bi_current s' = rest"
proof (induction vs arbitrary: s)
  case (Cons v vs)
  let ?s = "s\<lparr>bi_current := time_codes v vs @ rest, ti_lastValue := v\<rparr>"
  have "ti_GetValue s = Inr (v, ?s)"
    using time_code_ok(1) [of s "v - ti_lastValue s" "time_codes v vs @ rest"] Cons.prems by simp
  then show ?case using Cons.IH [of ?s] by auto
qed simp


subsection \<open>Properties\<close>

lemma packed_storable_all:
  "length us + length vs < 2 ^ 32 \<Longrightarrow> - 1 \<notin> set vs \<Longrightarrow> packed.storable_all us vs"
  by (induction vs arbitrary: us) (auto simp: packed_storable_def)

lemma integer_storable_all:
  "length us + length vs < 2 ^ 32 \<Longrightarrow> (\<forall>v \<in> set vs. - 2147483647 < sint v) \<Longrightarrow> integers.storable_all us vs"
  by (induction vs arbitrary: us) (auto simp: integer_storable_def)

lemma length_diffs_from [simp]: "length (diffs_from l vs) = length vs"
  by (induction vs arbitrary: l) auto

lemma diff_dwords_storable_all:
  "length us + length vs < 2 ^ 32 \<Longrightarrow> - 1 \<notin> set (diffs_from (last (0 # us)) vs) \<Longrightarrow> diff_dwords.storable_all us vs"
  by (induction vs arbitrary: us) (auto simp: diff_storable_def packed_storable_def)

lemma diff_integers_storable_all:
  "length us + length vs < 2 ^ 32 \<Longrightarrow> (\<forall>v \<in> set (diffs_from (last (0 # us)) vs). - 2147483647 < sint v) \<Longrightarrow>
   diff_integers.storable_all us vs"
  by (induction vs arbitrary: us) (auto simp: diff_storable_def integer_storable_def)

text \<open>
  A vector of values other than \<open>0xffffffff\<close> that is written to a packed DWORD stream is read back
  from its bytes, and nothing is left over.
\<close>

lemma packed_dword_roundtrip:
  assumes "- 1 \<notin> set vs" "length vs < 2 ^ 32"
  shows "\<exists>i. read_vector pi_GetSizeValue pi_GetValue id (packed_in_open
      (bo_bytes (write_vector po_AddSizeValue po_Add po_FlushLastValue id vs packed_out_init))) = Inr (vs, i) \<and> bi_EndOfStream i"
proof -
  have st: "packed.storable_all [] (map id vs)" using packed_storable_all [of "[]" vs] assms by simp
  have fresh: "packed_fresh packed_out_init" "bo_bytes packed_out_init = []" "\<And>bs. pi_count (packed_in_open bs) = 0"
    "\<And>bs. bi_current (packed_in_open bs) = bs"
    by (simp_all add: packed_fresh_def packed_out_init_def bo_bytes_def packed_in_open_def)
  from packed.vector_roundtrip [of packed_out_init id vs id, OF fresh(1) st assms(2)] fresh(2-) show ?thesis
    by (metis append_Nil append_Nil2 bi_EndOfStream_def id_apply)
qed

lemma packed_dword_roundtrip_witness:
  "\<exists>i. read_vector pi_GetSizeValue pi_GetValue id (packed_in_open
     (bo_bytes (write_vector po_AddSizeValue po_Add po_FlushLastValue id [7, 7, 7, 300, 0] packed_out_init))) =
   Inr ([7, 7, 7, 300, 0], i) \<and> bi_EndOfStream i"
  using packed_dword_roundtrip [of "[7, 7, 7, 300, 0]"] by simp

text \<open>
  The same for signed values above \<open>- 0x7fffffff\<close>, the ones the class documents as storable.
\<close>

lemma packed_integer_roundtrip:
  assumes "\<forall>v \<in> set vs. - 2147483647 < sint v" "length vs < 2 ^ 32"
  shows "\<exists>i. read_vector pi_GetSizeValue pi_GetInteger id (packed_in_open
      (bo_bytes (write_vector po_AddSizeValue po_AddInteger po_FlushLastValue id vs packed_out_init))) = Inr (vs, i) \<and>
    bi_EndOfStream i"
proof -
  have st: "integers.storable_all [] (map id vs)" using integer_storable_all [of "[]" vs] assms by simp
  have fresh: "packed_fresh packed_out_init" "bo_bytes packed_out_init = []" "\<And>bs. pi_count (packed_in_open bs) = 0"
    "\<And>bs. bi_current (packed_in_open bs) = bs"
    by (simp_all add: packed_fresh_def packed_out_init_def bo_bytes_def packed_in_open_def)
  from integers.vector_roundtrip [of packed_out_init id vs id, OF fresh(1) st assms(2)] fresh(2-) show ?thesis
    by (metis append_Nil append_Nil2 bi_EndOfStream_def id_apply)
qed

lemma packed_integer_roundtrip_witness:
  "\<exists>i. read_vector pi_GetSizeValue pi_GetInteger id (packed_in_open
     (bo_bytes (write_vector po_AddSizeValue po_AddInteger po_FlushLastValue id [- 5, 2, 2] packed_out_init))) =
   Inr ([- 5, 2, 2], i) \<and> bi_EndOfStream i"
proof -
  have "sint (- 5 :: dword) = - 5" by (simp add: sint_unat unat_neg)
  then show ?thesis using packed_integer_roundtrip [of "[- 5, 2, 2]"] by (simp add: sint_unat)
qed

text \<open>
  A vector of unsigned or of signed values is read back from a stream of differences when the
  differences can be stored, whatever the values are.
\<close>

lemma diff_roundtrip:
  assumes "length vs < 2 ^ 32"
  shows "(- 1 \<notin> set (diffs_from 0 vs) \<longrightarrow>
      (\<exists>i. read_vector pi_GetSizeValue (di_GetValue pi_GetValue) id (diff_in_open
        (bo_bytes (write_vector po_AddSizeValue (do_Add po_Add) po_FlushLastValue id vs diff_out_init))) = Inr (vs, i) \<and>
       bi_EndOfStream i)) \<and>
    ((\<forall>v \<in> set (diffs_from 0 vs). - 2147483647 < sint v) \<longrightarrow>
      (\<exists>i. read_vector pi_GetSizeValue (di_GetValue pi_GetInteger) id (diff_in_open
        (bo_bytes (write_vector po_AddSizeValue (do_Add po_AddInteger) po_FlushLastValue id vs diff_out_init))) = Inr (vs, i) \<and>
       bi_EndOfStream i))"
proof (intro conjI impI)
  have fresh: "diff_fresh_out diff_out_init" "bo_bytes diff_out_init = []" "\<And>bs. diff_fresh (diff_in_open bs)"
    "\<And>bs. bi_current (diff_in_open bs) = bs"
    by (simp_all add: diff_fresh_out_def diff_out_init_def bo_bytes_def diff_fresh_def diff_in_open_def)
  show "\<exists>i. read_vector pi_GetSizeValue (di_GetValue pi_GetValue) id (diff_in_open
        (bo_bytes (write_vector po_AddSizeValue (do_Add po_Add) po_FlushLastValue id vs diff_out_init))) = Inr (vs, i) \<and>
       bi_EndOfStream i" if d: "- 1 \<notin> set (diffs_from 0 vs)"
  proof -
    have st: "diff_dwords.storable_all [] (map id vs)" using diff_dwords_storable_all [of "[]" vs] assms d by simp
    from diff_dwords.vector_roundtrip [of diff_out_init id vs id, OF fresh(1) st assms] fresh(2-) show ?thesis
      by (metis append_Nil append_Nil2 bi_EndOfStream_def id_apply)
  qed
  show "\<exists>i. read_vector pi_GetSizeValue (di_GetValue pi_GetInteger) id (diff_in_open
        (bo_bytes (write_vector po_AddSizeValue (do_Add po_AddInteger) po_FlushLastValue id vs diff_out_init))) = Inr (vs, i) \<and>
       bi_EndOfStream i" if d: "\<forall>v \<in> set (diffs_from 0 vs). - 2147483647 < sint v"
  proof -
    have st: "diff_integers.storable_all [] (map id vs)" using diff_integers_storable_all [of "[]" vs] assms d by simp
    from diff_integers.vector_roundtrip [of diff_out_init id vs id, OF fresh(1) st assms] fresh(2-) show ?thesis
      by (metis append_Nil append_Nil2 bi_EndOfStream_def id_apply)
  qed
qed

lemma diff_roundtrip_witness:
  "\<exists>i. read_vector pi_GetSizeValue (di_GetValue pi_GetInteger) id (diff_in_open
     (bo_bytes (write_vector po_AddSizeValue (do_Add po_AddInteger) po_FlushLastValue id [9, 9, 8] diff_out_init))) =
   Inr ([9, 9, 8], i) \<and> bi_EndOfStream i"
proof -
  have "sint (- 1 :: dword) = - 1" by (simp add: sint_unat unat_neg)
  then have "\<forall>v \<in> set (diffs_from 0 [9, 9, 8]). - 2147483647 < sint v" by (simp add: sint_unat)
  then show ?thesis using diff_roundtrip [of "[9, 9, 8]"] by simp
qed

lemma time_vector_back:
  assumes "length vs < 2 ^ 32"
  shows "\<exists>s bs i. to_write_vector vs time_out_init = Some s \<and> bo_bytes s = bs \<and>
    read_vector ti_GetSizeValue ti_GetValue id (time_in_open bs) = Inr (vs, i) \<and> bi_EndOfStream i"
proof -
  let ?n = "of_nat (length vs) :: size_t"
  have n: "unat ?n = length vs" using assms by (intro unat_of_nat_small) simp
  have c: "(ucast (ucast ?n :: dword) :: size_t) = ?n"
    using assms n by (simp add: word_unat_eq_iff unsigned_ucast_eq unsigned_take_bit_eq take_bit_nat_eq_self)
  obtain s where s: "to_write_vector vs time_out_init = Some s" "bo_bytes s = time_codes 0 (?n # vs)"
    using to_AddAll_ok [of "?n # vs" time_out_init]
    by (auto simp: to_write_vector_def to_AddSizeValue_def c bo_bytes_def time_out_init_def)
  let ?i = "time_in_open (time_codes 0 (?n # vs))"
  obtain i where i: "read_values ti_GetValue (Suc (length vs)) ?i = Inr (?n # vs, i)" "bi_current i = []"
    using read_time_codes [of ?i "?n # vs" "[]"] by (auto simp: time_in_open_def)
  then have "read_vector ti_GetSizeValue ti_GetValue id ?i = Inr (vs, i)"
    using n by (auto simp: read_vector_def ti_GetSizeValue_def)
  then show ?thesis using s i(2) by (auto simp: bi_EndOfStream_def)
qed

text \<open>
  C36.  Time stamps of any value, in any order, are read back from a packed time stamp stream.
\<close>

theorem time_stamp_roundtrip:
  assumes "length vs < 2 ^ 32"
  shows "\<exists>s bs i. to_write_vector vs time_out_init = Some s \<and> bo_bytes s = bs \<and>
    read_vector ti_GetSizeValue ti_GetValue id (time_in_open bs) = Inr (vs, i) \<and> bi_EndOfStream i"
  using assms by (rule time_vector_back)

theorem time_stamp_roundtrip_witness:
  "\<exists>s i. to_write_vector [1000000, 5, - 1] time_out_init = Some s \<and>
    read_vector ti_GetSizeValue ti_GetValue id (time_in_open (bo_bytes s)) = Inr ([1000000, 5, - 1], i)"
  using time_stamp_roundtrip [of "[1000000, 5, - 1]"] by auto

text \<open>
  The value that a packed DWORD stream cannot hold damages what follows it: its code is the escape
  of a run, and reading ends with an exception.
\<close>

lemma packed_dword_escape_lost:
  "read_vector pi_GetSizeValue pi_GetValue id (packed_in_open
     (bo_bytes (write_vector po_AddSizeValue po_Add po_FlushLastValue id [- 1, 1] packed_out_init))) =
   Inl (CStreamException ''unexpected end of stream'')"
proof -
  have "bo_bytes (write_vector po_AddSizeValue po_Add po_FlushLastValue id [- 1, 1] packed_out_init) = [2, 0, 0, 1, 1]"
    by (simp add: write_vector_def packed_out_init_def po_AddSizeValue_def po_Add_def po_FlushLastValue_def
        po_InternalAdd.simps bo_AddByte_def bo_bytes_def Let_def CHUNK_SIZE_def)
  moreover have "(read_values pi_GetValue 2 :: packed_in \<Rightarrow> _) = read_values pi_GetValue (Suc (Suc 0))" by (simp add: numeral_2_eq_2)
  ultimately show ?thesis
    by (simp add: packed_in_open_def read_vector_def pi_GetSizeValue_def pi_InternalGetValue_def bi_GetByte_def
        pi_GetValue.simps)
qed

lemma bo_make_room_large:
  assumes "CHUNK_SIZE < n0"
  shows "bo_make_room n s = Some s' \<Longrightarrow> n \<noteq> n0"
proof (erule bo_make_room.raw_induct [where P = "\<lambda>n s s'. n \<noteq> n0", rotated])
  fix f :: "nat \<Rightarrow> 'a binary_out_scheme \<Rightarrow> 'a binary_out_scheme option" and n s s'
  assume "\<And>n s s'. f n s = Some s' \<Longrightarrow> n \<noteq> n0"
    "(if CHUNK_SIZE < length (bo_current s) + n then f n (bo_Flush s) else Some s) = Some s'"
  then show "n \<noteq> n0" using assms by (auto split: if_splits)
qed

text \<open>
  Adding a block of bytes ends exactly when the block fits into an empty buffer; a larger one
  is never stored, since emptying the buffer makes no room for it.
\<close>

lemma binary_add_terminates:
  "(\<exists>s'. bo_Add bs (s :: binary_out) = Some s') \<longleftrightarrow> length bs \<le> CHUNK_SIZE"
proof (cases "length bs \<le> CHUNK_SIZE")
  case True
  then show ?thesis using bo_Add_ok [of bs s] by blast
next
  case False
  then have "bo_make_room (length bs) s = None" using bo_make_room_large [of "length bs" "length bs" s]
    by (cases "bo_make_room (length bs) s") auto
  then show ?thesis using False by (simp add: bo_Add_def)
qed

end
