(* ===== verification/HuffmanEncoder.thy ===== *)
theory HuffmanEncoder
  imports PackedStreams "HOL-Library.Monad_Syntax"
begin

section \<open>Huffman encoder (src/LogCache/Streams/HuffmanBase, HuffmanEncoder)\<close>

text \<open>
  The 64 bit variant of the encoder: byte counts, a code tree built by splitting the sorted
  symbols, and the bit stream that is written eight bytes at a time.  Arrays are lists of fixed length;
  the target buffer is a list that is written at an offset.  \<open>None\<close> stands for an access outside of an
  array or a shift by a negative amount.
\<close>

definition BUCKET_COUNT :: nat where
  "BUCKET_COUNT = 256"

definition MAX_ENCODING_LENGTH :: nat where
  "MAX_ENCODING_LENGTH = 12"

definition MIN_HEADER_LENGTH :: nat where
  "MIN_HEADER_LENGTH = 2 * 4 + 1"

fun reverse_bits_loop :: "16 word \<Rightarrow> nat \<Rightarrow> 16 word \<Rightarrow> 16 word" where
  "reverse_bits_loop v 0 result = result"
| "reverse_bits_loop v (Suc n) result = reverse_bits_loop (drop_bit 1 v) n (2 * result + (v AND 1))"

definition ReverseBits :: "16 word \<Rightarrow> nat \<Rightarrow> 16 word" where
  "ReverseBits v n = reverse_bits_loop v n 0"

record huffman_encoder =
  he_key :: "64 word list"
  he_keyLength :: "byte list"
  he_count :: "dword list"
  he_sorted :: "byte list"
  he_sortedCount :: nat

definition huffman_encoder_init :: huffman_encoder where
  "huffman_encoder_init =
     \<lparr>he_key = replicate BUCKET_COUNT 0, he_keyLength = replicate BUCKET_COUNT 0, he_count = replicate BUCKET_COUNT 0,
      he_sorted = replicate BUCKET_COUNT 0, he_sortedCount = 0\<rparr>"

subsection \<open>Counting\<close>

text \<open>Long inputs are counted in eight lanes, one per byte of a block, in steps of two.\<close>

definition add_count :: "dword \<Rightarrow> byte \<Rightarrow> dword list \<Rightarrow> dword list" where
  "add_count n b count = count[unat b := count ! unat b + n]"

fun count_blocks :: "nat \<Rightarrow> byte list \<Rightarrow> dword list list \<Rightarrow> byte list \<times> dword list list" where
  "count_blocks 0 source localCount = (source, localCount)"
| "count_blocks (Suc n) source localCount =
     count_blocks n (drop 8 source) (map2 (add_count 2) (take 8 source) localCount)"

definition fold_lane :: "dword list \<Rightarrow> dword list \<Rightarrow> dword list" where
  "fold_lane lane count = map2 (\<lambda>c l. c + l div 2) count lane"

definition CountValues :: "byte list \<Rightarrow> dword list" where
  "CountValues source =
     (let zero = replicate BUCKET_COUNT 0
      in if 2 * length source > (8 * BUCKET_COUNT) div 2
         then let (rest, localCount) = count_blocks (length source div 8) source (replicate 8 zero)
              in fold (add_count 1) rest (fold fold_lane localCount zero)
         else fold (add_count 1) source zero)"

subsection \<open>Keys\<close>

fun find_mid :: "dword list \<Rightarrow> byte list \<Rightarrow> dword \<Rightarrow> nat \<Rightarrow> dword \<Rightarrow> nat \<times> dword" where
  "find_mid count [] limit mid halfSum = (mid, halfSum)"
| "find_mid count (x # xs) limit mid halfSum =
     (if halfSum < limit then find_mid count xs limit (mid + 1) (halfSum + count ! unat x) else (mid, halfSum))"

definition split_range :: "dword list \<Rightarrow> byte list \<Rightarrow> nat \<Rightarrow> nat option" where
  "split_range count xs bitCount =
     (if bitCount > MAX_ENCODING_LENGTH - 1 then None
      else if 2 ^ (MAX_ENCODING_LENGTH - 1 - bitCount) < length xs then Some (length xs div 2)
      else
        let totalSum = sum_list (map (\<lambda>x. count ! unat x) xs);
            (mid, halfSum) = find_mid count xs (totalSum div 2) 0 0
        in if mid = 0 then None
           else let lowerHalfSum = halfSum - count ! unat (xs ! (mid - 1))
                in Some (if totalSum - lowerHalfSum < halfSum then mid - 1 else mid))"

function AssignEncoding ::
    "dword list \<Rightarrow> byte list \<Rightarrow> 16 word \<Rightarrow> nat \<Rightarrow> 64 word list \<times> byte list \<Rightarrow> (64 word list \<times> byte list) option" where
  "AssignEncoding count xs encoding bitCount st =
     (if length xs = 1
      then Some ((fst st)[unat (hd xs) := ucast (ReverseBits encoding bitCount)], (snd st)[unat (hd xs) := of_nat bitCount])
      else case split_range count xs bitCount of
        None \<Rightarrow> None
      | Some mid \<Rightarrow>
          if 0 < mid \<and> mid < length xs
          then (case AssignEncoding count (take mid xs) (2 * encoding) (bitCount + 1) st of
                  None \<Rightarrow> None
                | Some st' \<Rightarrow> AssignEncoding count (drop mid xs) (2 * encoding + 1) (bitCount + 1) st')
          else None)"
  by pat_completeness auto
termination by (relation "measure (\<lambda>(count, xs, e, b, st). length xs)") auto

declare AssignEncoding.simps [simp del]

text \<open>\<open>std::sort\<close> orders the pairs of count and symbol by the count, then by the symbol.\<close>

definition frequency_order :: "dword list \<Rightarrow> (dword \<times> byte) list" where
  "frequency_order count =
     sort_key (\<lambda>(n, b). unat n * 256 + unat b)
       (map (\<lambda>i. (count ! i, of_nat i)) (filter (\<lambda>i. count ! i > 0) [0..<BUCKET_COUNT]))"

definition SortByFrequency :: "huffman_encoder \<Rightarrow> huffman_encoder option" where
  "SortByFrequency h =
     (let xs = map snd (frequency_order (he_count h));
          h = h\<lparr>he_sortedCount := length xs, he_sorted := xs @ drop (length xs) (he_sorted h)\<rparr>
      in if xs = [] then Some h
         else map_option (\<lambda>(key, len). h\<lparr>he_key := key, he_keyLength := len\<rparr>)
                (AssignEncoding (he_count h) xs 0 0 (he_key h, he_keyLength h)))"

subsection \<open>Writing\<close>

definition CalculatePackedSize :: "huffman_encoder \<Rightarrow> dword" where
  "CalculatePackedSize h =
     (let bitCount = sum_list (map (\<lambda>i. ucast (he_count h ! i * ucast (he_keyLength h ! i)) :: 64 word) [0..<BUCKET_COUNT])
      in 2 * 4 + of_nat (1 + (3 * he_sortedCount h + 1) div 2) + ucast (bitCount div 8 + 8))"

fun table_lengths :: "huffman_encoder \<Rightarrow> nat list \<Rightarrow> byte list" where
  "table_lengths h [] = []"
| "table_lengths h (i # is) =
     (he_keyLength h ! unat (he_sorted h ! i) + he_keyLength h ! unat (he_sorted h ! (i + 1)) * 0x10) # table_lengths h is"

definition WriteHuffmanTable :: "huffman_encoder \<Rightarrow> byte list" where
  "WriteHuffmanTable h =
     of_nat (he_sortedCount h) # take (he_sortedCount h) (he_sorted h) @
     table_lengths h (map (\<lambda>k. 2 * k) [0..<(he_sortedCount h + 1) div 2])"

text \<open>The state of the bit writer: cached bits, their number, the target buffer and the offset in it.\<close>

record bit_writer =
  bw_code :: "64 word"
  bw_bits :: nat
  bw_buffer :: "byte list"
  bw_dest :: nat

definition write_qword :: "bit_writer \<Rightarrow> bit_writer option" where
  "write_qword w =
     (if bw_dest w + 8 \<le> length (bw_buffer w)
      then Some (w\<lparr>bw_buffer := take (bw_dest w) (bw_buffer w) @ qword_bytes (bw_code w) @ drop (bw_dest w + 8) (bw_buffer w)\<rparr>)
      else None)"

definition add_key :: "huffman_encoder \<Rightarrow> byte \<Rightarrow> bit_writer \<Rightarrow> bit_writer" where
  "add_key h b w =
     w\<lparr>bw_code := bw_code w + push_bit (bw_bits w) (he_key h ! unat b),
       bw_bits := bw_bits w + unat (he_keyLength h ! unat b)\<rparr>"

definition write_full_bytes :: "bit_writer \<Rightarrow> bit_writer option" where
  "write_full_bytes w =
     map_option (\<lambda>w. w\<lparr>bw_code := drop_bit (bw_bits w - bw_bits w mod 8) (bw_code w),
                       bw_dest := bw_dest w + bw_bits w div 8, bw_bits := bw_bits w mod 8\<rparr>) (write_qword w)"

fun encode_blocks :: "huffman_encoder \<Rightarrow> nat \<Rightarrow> byte list \<Rightarrow> bit_writer \<Rightarrow> (byte list \<times> bit_writer) option" where
  "encode_blocks h 0 source w = Some (source, w)"
| "encode_blocks h (Suc n) source w =
     Option.bind (write_full_bytes (fold (add_key h) (take 4 source) w)) (encode_blocks h n (drop 4 source))"

fun encode_odd :: "huffman_encoder \<Rightarrow> byte list \<Rightarrow> bit_writer \<Rightarrow> bit_writer option" where
  "encode_odd h [] w = Some w"
| "encode_odd h (b # source) w = Option.bind (write_full_bytes (add_key h b w)) (encode_odd h source)"

definition WriteHuffmanEncoded :: "huffman_encoder \<Rightarrow> byte list \<Rightarrow> byte list \<Rightarrow> nat \<Rightarrow> byte list option" where
  "WriteHuffmanEncoded h source buffer dest = do {
     (source, w) \<leftarrow> encode_blocks h (length source div 4) source \<lparr>bw_code = 0, bw_bits = 0, bw_buffer = buffer, bw_dest = dest\<rparr>;
     w \<leftarrow> encode_odd h source w;
     w \<leftarrow> write_qword w;
     Some (bw_buffer w)
   }"

definition dword_bytes :: "dword \<Rightarrow> byte list" where
  "dword_bytes v = map (\<lambda>k. ucast (drop_bit (8 * k) v)) [0..<4]"

definition huffman_encoded :: "byte list \<Rightarrow> huffman_encoder option" where
  "huffman_encoded source = SortByFrequency (huffman_encoder_init\<lparr>he_count := CountValues source\<rparr>)"

definition Encode :: "byte list \<Rightarrow> stream_error + byte list" where
  "Encode source =
     (if length source > unat (- 1 :: dword) then Inl (CStreamException ''BLOB to large for stream'')
      else case huffman_encoded source of
        None \<Rightarrow> Inl UndefinedRead
      | Some h \<Rightarrow>
          let byteCount = of_nat (length source) :: dword;
              targetSize = min (byteCount + of_nat MIN_HEADER_LENGTH) (CalculatePackedSize h);
              header = dword_bytes byteCount @ dword_bytes targetSize
          in if length source + MIN_HEADER_LENGTH = unat targetSize then Inr (header @ 0 # source)
             else
               let table = WriteHuffmanTable h;
                   start = header @ table
               in case WriteHuffmanEncoded h source (start @ replicate (unat targetSize - length start) 0) (length start) of
                    None \<Rightarrow> Inl UndefinedRead
                  | Some buffer \<Rightarrow> Inr buffer)"

subsection \<open>The counts\<close>

lemma unat_byte [simp]: "unat (b :: byte) < 256"
  using unat_bound [of b] by simp

lemma add_count_nth:
  "length count = 256 \<Longrightarrow> k < 256 \<Longrightarrow>
   add_count n b count ! k = (if k = unat b then count ! k + n else count ! k)"
  by (simp add: add_count_def nth_list_update)

lemma length_add_count [simp]: "length (add_count n b count) = length count"
  by (simp add: add_count_def)

definition occurrences :: "byte list \<Rightarrow> nat \<Rightarrow> nat" where
  "occurrences bs k = length (filter (\<lambda>b. unat b = k) bs)"

lemma occurrences_simps [simp]: "occurrences [] k = 0" "occurrences (b # bs) k = of_bool (unat b = k) + occurrences bs k"
  "occurrences (bs @ bs') k = occurrences bs k + occurrences bs' k"
  by (simp_all add: occurrences_def)

lemma occurrences_le: "occurrences bs k \<le> length bs"
  by (simp add: occurrences_def)

lemma unat_add_small_dword: "unat a + unat b < 2 ^ 32 \<Longrightarrow> unat (a + b :: dword) = unat a + unat b"
  by (simp add: unat_word_ariths)

lemma fold_add_count:
  "length count = 256 \<Longrightarrow> k < 256 \<Longrightarrow> unat (count ! k) + length bs < 2 ^ 32 \<Longrightarrow>
   unat (fold (add_count 1) bs count ! k) = unat (count ! k) + occurrences bs k \<and> length (fold (add_count 1) bs count) = 256"
proof (induction bs arbitrary: count)
  case (Cons b bs)
  have u: "unat (add_count 1 b count ! k) = unat (count ! k) + of_bool (unat b = k)"
    using Cons.prems unat_add_small_dword [of "count ! k" 1] by (auto simp: add_count_nth)
  then have "unat (fold (add_count 1) bs (add_count 1 b count) ! k) = unat (add_count 1 b count ! k) + occurrences bs k \<and>
      length (fold (add_count 1) bs (add_count 1 b count)) = 256"
    using Cons.prems by (intro Cons.IH) auto
  then show ?case using u by simp
qed simp

text \<open>The lanes: each counts by two, together they count the bytes of the blocks.\<close>

definition lanes_ok :: "dword list list \<Rightarrow> byte list \<Rightarrow> bool" where
  "lanes_ok ls bs \<longleftrightarrow> length ls = 8 \<and> (\<forall>j < 8. length (ls ! j) = 256) \<and>
     (\<forall>k < 256. \<exists>c. (\<forall>j < 8. unat (ls ! j ! k) = 2 * c j) \<and> (\<Sum>j<8. c j) = occurrences bs k)"

lemma occurrences_sum: "occurrences bs k = (\<Sum>j<length bs. of_bool (unat (bs ! j) = k))"
proof (induction bs rule: rev_induct)
  case (snoc b bs)
  have "(\<Sum>j<length bs. of_bool (unat ((bs @ [b]) ! j) = k) :: nat) = (\<Sum>j<length bs. of_bool (unat (bs ! j) = k))"
    by (intro sum.cong) (auto simp: nth_append)
  then show ?case using snoc by simp
qed simp

lemma lanes_ok_step:
  assumes l: "lanes_ok ls bs" and b: "length b = 8" "length bs < 2 ^ 28"
  shows "lanes_ok (map2 (add_count 2) b ls) (bs @ b)"
proof -
  have len: "length ls = 8" "\<And>j. j < 8 \<Longrightarrow> length (ls ! j) = 256" using l by (auto simp: lanes_ok_def)
  have nth: "map2 (add_count 2) b ls ! j = add_count 2 (b ! j) (ls ! j)" if "j < 8" for j
    using that b len by simp
  have "\<exists>c. (\<forall>j < 8. unat (map2 (add_count 2) b ls ! j ! k) = 2 * c j) \<and> (\<Sum>j<8. c j) = occurrences (bs @ b) k"
    if k: "k < 256" for k
  proof -
    obtain c where c: "\<And>j. j < 8 \<Longrightarrow> unat (ls ! j ! k) = 2 * c j" "(\<Sum>j<8. c j) = occurrences bs k"
      using l k by (auto simp: lanes_ok_def)
    let ?c = "\<lambda>j. c j + of_bool (unat (b ! j) = k)"
    have "unat (map2 (add_count 2) b ls ! j ! k) = 2 * ?c j" if j: "j < 8" for j
    proof -
      have "c j \<le> (\<Sum>j<8. c j)" using j by (intro member_le_sum) auto
      then have "2 * c j + 2 < 2 ^ 32" using c(2) occurrences_le [of bs k] b(2) by simp
      then show ?thesis using c(1) [OF j] len(2) [OF j] k j unat_add_small_dword [of "ls ! j ! k" 2]
        by (auto simp: nth add_count_nth)
    qed
    moreover have "(\<Sum>j<8. ?c j) = occurrences (bs @ b) k"
    proof -
      have "(\<Sum>j<8. ?c j) = (\<Sum>j<8. c j) + (\<Sum>j<8. of_bool (unat (b ! j) = k))" by (rule sum.distrib)
      also have "(\<Sum>j<8. of_bool (unat (b ! j) = k)) = occurrences b k" using occurrences_sum [of b k] b(1) by simp
      finally show ?thesis using c(2) by simp
    qed
    ultimately show ?thesis by (intro exI [of _ ?c]) simp
  qed
  moreover have "length (map2 (add_count 2) b ls ! j) = 256" if "j < 8" for j using that len by (simp add: nth)
  ultimately show ?thesis using len b by (simp add: lanes_ok_def)
qed

lemma count_blocks_ok:
  "lanes_ok ls bs \<Longrightarrow> 8 * n \<le> length source \<Longrightarrow> length bs + length source < 2 ^ 28 \<Longrightarrow>
   \<exists>ls'. count_blocks n source ls = (drop (8 * n) source, ls') \<and> lanes_ok ls' (bs @ take (8 * n) source)"
proof (induction n arbitrary: source ls bs)
  case (Suc n)
  have "lanes_ok (map2 (add_count 2) (take 8 source) ls) (bs @ take 8 source)"
    using Suc.prems by (intro lanes_ok_step) auto
  moreover have "8 * n \<le> length (drop 8 source)" "length (bs @ take 8 source) + length (drop 8 source) < 2 ^ 28"
    using Suc.prems by auto
  ultimately obtain ls' where
    "count_blocks n (drop 8 source) (map2 (add_count 2) (take 8 source) ls) = (drop (8 * n) (drop 8 source), ls')"
    "lanes_ok ls' ((bs @ take 8 source) @ take (8 * n) (drop 8 source))" using Suc.IH by blast
  moreover have "take 8 source @ take (8 * n) (drop 8 source) = take (8 * Suc n) source"
    by (simp add: take_add [symmetric])
  moreover have "drop (8 * n) (drop 8 source) = drop (8 * Suc n) source" by (simp add: add.commute)
  ultimately show ?case by simp
qed simp

lemma fold_lanes_ok:
  "length count = 256 \<Longrightarrow> (\<And>l. l \<in> set ls \<Longrightarrow> length l = 256) \<Longrightarrow> k < 256 \<Longrightarrow>
   unat (count ! k) + sum_list (map (\<lambda>l. unat (l ! k) div 2) ls) < 2 ^ 32 \<Longrightarrow>
   unat (fold fold_lane ls count ! k) = unat (count ! k) + sum_list (map (\<lambda>l. unat (l ! k) div 2) ls) \<and>
   length (fold fold_lane ls count) = 256"
proof (induction ls arbitrary: count)
  case (Cons l ls)
  have len: "length l = 256" using Cons.prems(2) by simp
  have u: "unat (fold_lane l count ! k) = unat (count ! k) + unat (l ! k) div 2"
    using Cons.prems len by (simp add: fold_lane_def unat_add_small_dword unat_div)
  have "unat (fold fold_lane ls (fold_lane l count) ! k) =
      unat (fold_lane l count ! k) + sum_list (map (\<lambda>l. unat (l ! k) div 2) ls) \<and> length (fold fold_lane ls (fold_lane l count)) = 256"
    using Cons.prems len u by (intro Cons.IH) (auto simp: fold_lane_def)
  then show ?case using u by simp
qed simp

lemma CountValues_ok:
  assumes "length source < 2 ^ 28" "k < 256"
  shows "unat (CountValues source ! k) = occurrences source k \<and> length (CountValues source) = 256"
proof (cases "2 * length source > (8 * BUCKET_COUNT) div 2")
  case False
  then have "CountValues source = fold (add_count 1) source (replicate BUCKET_COUNT 0)" by (simp add: CountValues_def Let_def)
  then show ?thesis using fold_add_count [of "replicate BUCKET_COUNT 0" k source] assms by (simp add: BUCKET_COUNT_def)
next
  case True
  let ?n = "length source div 8" and ?zero = "replicate 256 0 :: dword list"
  have "lanes_ok (replicate 8 ?zero) []"
    by (auto simp: lanes_ok_def intro!: exI [of _ "\<lambda>_. 0"])
  from count_blocks_ok [OF this, of ?n source] assms(1) obtain ls where
    ls: "count_blocks ?n source (replicate 8 ?zero) = (drop (8 * ?n) source, ls)" "lanes_ok ls (take (8 * ?n) source)" by auto
  have C: "CountValues source = fold (add_count 1) (drop (8 * ?n) source) (fold fold_lane ls ?zero)"
    using True ls(1) by (simp add: CountValues_def Let_def BUCKET_COUNT_def)
  have len: "length ls = 8" "\<And>l. l \<in> set ls \<Longrightarrow> length l = 256" using ls(2) by (auto simp: lanes_ok_def in_set_conv_nth)
  obtain c where c: "\<And>j. j < 8 \<Longrightarrow> unat (ls ! j ! k) = 2 * c j" "(\<Sum>j<8. c j) = occurrences (take (8 * ?n) source) k"
    using ls(2) assms(2) by (auto simp: lanes_ok_def)
  have "sum_list (map (\<lambda>l. unat (l ! k) div 2) ls) = (\<Sum>j<8. unat (ls ! j ! k) div 2)"
    by (simp add: sum_list_sum_nth len(1) atLeast0LessThan)
  also have "\<dots> = (\<Sum>j<8. c j)" using c(1) by (intro sum.cong) auto
  finally have s: "sum_list (map (\<lambda>l. unat (l ! k) div 2) ls) = occurrences (take (8 * ?n) source) k" using c(2) by simp
  have "occurrences (take (8 * ?n) source) k \<le> length source" using occurrences_le [of "take (8 * ?n) source" k] by simp
  then have f: "unat (fold fold_lane ls ?zero ! k) = occurrences (take (8 * ?n) source) k" "length (fold fold_lane ls ?zero) = 256"
    using fold_lanes_ok [of ?zero ls k] len(2) s assms by auto
  then have "unat (CountValues source ! k) = unat (fold fold_lane ls ?zero ! k) + occurrences (drop (8 * ?n) source) k \<and>
      length (CountValues source) = 256"
    unfolding C using assms \<open>occurrences (take (8 * ?n) source) k \<le> length source\<close> by (intro fold_add_count) auto
  then show ?thesis using f(1) by (metis append_take_drop_id occurrences_simps(3))
qed


subsection \<open>Sorting and splitting\<close>

lemma frequency_order_ok:
  assumes "length count = 256"
  shows "distinct (map snd (frequency_order count)) \<and> set (map snd (frequency_order count)) = {b. 0 < count ! unat b}"
proof -
  let ?is = "filter (\<lambda>i. count ! i > 0) [0..<BUCKET_COUNT]"
  let ?m = "map (\<lambda>i. (count ! i, of_nat i :: byte)) ?is"
  have snd: "map snd ?m = map of_nat ?is" by simp
  have inj: "inj_on (of_nat :: nat \<Rightarrow> byte) (set ?is)"
    by (rule inj_onI) (auto simp: BUCKET_COUNT_def dest: of_nat_word_inj)
  have "distinct (map snd ?m)" unfolding snd using inj by (simp add: distinct_map)
  then have "distinct (map snd (frequency_order count))" "set (map snd (frequency_order count)) = set (map snd ?m)"
    unfolding frequency_order_def distinct_map distinct_sort by (simp_all only: set_sort set_map)
  moreover have "set (map snd ?m) = {b. 0 < count ! unat b}"
  proof -
    have "b \<in> of_nat ` set ?is" if "0 < count ! unat b" for b :: byte
      using that by (intro image_eqI [of _ _ "unat b"]) (auto simp: BUCKET_COUNT_def)
    then show ?thesis unfolding snd by (auto simp: BUCKET_COUNT_def unat_of_nat_small)
  qed
  ultimately show ?thesis by simp
qed

definition weight_of :: "dword list \<Rightarrow> byte list \<Rightarrow> nat" where
  "weight_of count xs = sum_list (map (\<lambda>x. unat (count ! unat x)) xs)"

lemma weight_of_simps [simp]: "weight_of count [] = 0" "weight_of count (x # xs) = unat (count ! unat x) + weight_of count xs"
  "weight_of count (xs @ ys) = weight_of count xs + weight_of count ys"
  by (simp_all add: weight_of_def)

lemma unat_sum_weights:
  "weight_of count xs < 2 ^ 32 \<Longrightarrow> unat (sum_list (map (\<lambda>x. count ! unat x) xs)) = weight_of count xs"
  by (induction xs) (simp_all add: unat_add_small_dword)

lemma find_mid_ok:
  "unat half + weight_of count xs < 2 ^ 32 \<Longrightarrow> find_mid count xs limit mid half = (m, h) \<Longrightarrow>
   \<exists>j \<le> length xs. m = mid + j \<and> unat h = unat half + weight_of count (take j xs) \<and>
     (j = length xs \<or> limit \<le> h) \<and> (\<forall>i < j. unat half + weight_of count (take i xs) < unat limit)"
proof (induction xs arbitrary: mid half)
  case (Cons x xs)
  show ?case
  proof (cases "half < limit")
    case False
    then show ?thesis using Cons.prems by (intro exI [of _ 0]) auto
  next
    case True
    let ?h = "half + count ! unat x"
    have u: "unat ?h = unat half + unat (count ! unat x)" using Cons.prems(1) by (simp add: unat_add_small_dword)
    have "find_mid count xs limit (mid + 1) ?h = (m, h)" using Cons.prems(2) True by simp
    with Cons.IH [of ?h "mid + 1"] u Cons.prems(1) obtain j where
      j: "j \<le> length xs" "m = mid + 1 + j" "unat h = unat ?h + weight_of count (take j xs)"
        "j = length xs \<or> limit \<le> h" "\<And>i. i < j \<Longrightarrow> unat ?h + weight_of count (take i xs) < unat limit" by auto
    have "unat half + weight_of count (take i (x # xs)) < unat limit" if "i < Suc j" for i
      using that j(5) [of "i - 1"] u True by (cases i) (auto simp: word_less_nat_alt)
    then show ?thesis using j u by (intro exI [of _ "Suc j"]) auto
  qed
qed simp

lemma split_range_ok:
  assumes xs: "2 \<le> length xs" "\<forall>x \<in> set xs. 0 < count ! unat x" and w: "weight_of count xs < 2 ^ 32"
    and len: "length xs \<le> 2 ^ (12 - b)" "b \<le> 12"
  shows "\<exists>m. split_range count xs b = Some m \<and> 0 < m \<and> m < length xs \<and> b < 12 \<and> m \<le> 2 ^ (11 - b) \<and> length xs - m \<le> 2 ^ (11 - b)"
proof -
  have b: "b < 12" using xs(1) len by (cases "b = 12") auto
  then have p: "(2 :: nat) ^ (12 - b) = 2 * 2 ^ (11 - b)" by (simp add: Suc_diff_le flip: power_Suc)
  show ?thesis
  proof (cases "2 ^ (11 - b) < length xs")
    case True
    then show ?thesis using b xs(1) len(1) p by (auto simp: split_range_def MAX_ENCODING_LENGTH_def)
  next
    case False
    let ?t = "sum_list (map (\<lambda>x. count ! unat x) xs)"
    have t: "unat ?t = weight_of count xs" by (rule unat_sum_weights [OF w])
    obtain m h where mh: "find_mid count xs (?t div 2) 0 0 = (m, h)" by force
    have "\<exists>j \<le> length xs. m = 0 + j \<and> unat h = unat (0 :: dword) + weight_of count (take j xs) \<and>
       (j = length xs \<or> ?t div 2 \<le> h) \<and> (\<forall>i < j. unat (0 :: dword) + weight_of count (take i xs) < unat (?t div 2))"
      using mh w by (intro find_mid_ok) auto
    then have m: "m \<le> length xs" "unat h = weight_of count (take m xs)" "m = length xs \<or> ?t div 2 \<le> h"
        "\<And>i. i < m \<Longrightarrow> weight_of count (take i xs) < weight_of count xs div 2" using t by (auto simp: unat_div)
    have pos: "length ys \<le> weight_of count ys" if "set ys \<subseteq> set xs" for ys
      using that xs(2) by (induction ys) (auto simp: word_less_nat_alt Suc_le_eq intro: add_less_le_mono)
    have w2: "2 \<le> weight_of count xs" using pos [of xs] xs(1) by simp
    have m0: "0 < m"
    proof (rule ccontr)
      assume "\<not> 0 < m"
      then have "?t div 2 \<le> h" "unat h = 0" using m(2,3) xs(1) by auto
      then have "weight_of count xs div 2 \<le> 0" using t by (simp add: word_le_nat_alt unat_div)
      then show False using w2 by simp
    qed
    let ?x = "xs ! (m - 1)" and ?W = "\<lambda>i. weight_of count (take i xs)"
    have Wm: "?W m = ?W (m - 1) + unat (count ! unat ?x)"
      using m0 m(1) by (cases m) (simp_all add: take_Suc_conv_app_nth)
    have low: "unat (h - count ! unat ?x) = ?W (m - 1)"
      using Wm m(2) by (simp add: unat_sub word_le_nat_alt)
    have low_less: "?W (m - 1) < weight_of count xs div 2" using m(4) m0 by simp
    have rest: "unat (?t - (h - count ! unat ?x)) = weight_of count xs - ?W (m - 1)"
      using low t low_less by (subst unat_sub) (simp_all add: word_le_nat_alt)
    have Wle: "?W m \<le> weight_of count xs" by (metis append_take_drop_id le_add1 weight_of_simps(3))
    define r where "r = (if ?t - (h - count ! unat ?x) < h then m - 1 else m)"
    have res: "split_range count xs b = Some r"
      using b False m0 by (simp add: split_range_def MAX_ENCODING_LENGTH_def mh Let_def r_def)
    have "0 < r \<and> r < length xs"
    proof (cases "?t - (h - count ! unat ?x) < h")
      case True
      then have "weight_of count xs - ?W (m - 1) < ?W m" using rest m(2) by (simp add: word_less_nat_alt)
      then have "m \<noteq> 1" using Wle by (cases "m = 1") auto
      then show ?thesis using True m0 m(1) by (simp add: r_def)
    next
      case nl: False
      then have ge: "?W m \<le> weight_of count xs - ?W (m - 1)" using rest m(2) by (simp add: word_less_nat_alt)
      have "m \<noteq> length xs"
      proof
        assume ml: "m = length xs"
        then have "?W (m - 1) = 0" using ge low_less by simp
        moreover have "m - 1 \<le> ?W (m - 1)" using pos [of "take (m - 1) xs"] m(1) set_take_subset by fastforce
        ultimately show False using ml xs(1) by simp
      qed
      then show ?thesis using nl m0 m(1) by (simp add: r_def)
    qed
    then show ?thesis using res b False by auto
  qed
qed


subsection \<open>The code tree\<close>

text \<open>
  The paths of the leaves of a binary tree, from left to right: \<open>False\<close> is the first half of a split.  The
  value of a path is read with its first step as the highest bit (the encoding) or as the lowest
  (the key, after \<open>ReverseBits\<close>).
\<close>

inductive code_paths :: "bool list list \<Rightarrow> bool" where
  code_leaf: "code_paths [[]]"
| code_node: "code_paths L \<Longrightarrow> code_paths R \<Longrightarrow> code_paths (map (Cons False) L @ map (Cons True) R)"

fun lsb_val :: "bool list \<Rightarrow> nat" where
  "lsb_val [] = 0"
| "lsb_val (b # bs) = of_bool b + 2 * lsb_val bs"

definition msb_val :: "bool list \<Rightarrow> nat" where
  "msb_val bs = foldl (\<lambda>a b. 2 * a + of_bool b) 0 bs"

lemma msb_val_simps [simp]: "msb_val [] = 0" "msb_val (bs @ [b]) = 2 * msb_val bs + of_bool b"
  by (simp_all add: msb_val_def)

lemma lsb_val_append: "lsb_val (bs @ cs) = lsb_val bs + 2 ^ length bs * lsb_val cs"
  by (induction bs) (simp_all add: algebra_simps)

lemma lsb_val_less: "lsb_val bs < 2 ^ length bs"
  by (induction bs) auto

lemma msb_val_less: "msb_val bs < 2 ^ length bs"
  by (induction bs rule: rev_induct) auto

lemma msb_val_append: "msb_val (bs @ cs) = 2 ^ length cs * msb_val bs + msb_val cs"
  by (induction cs rule: rev_induct) (simp_all add: algebra_simps flip: append_assoc)

lemma msb_val_replicate: "msb_val (replicate n False) = 0" "msb_val (replicate n True) + 1 = 2 ^ n"
proof -
  have "replicate (Suc m) b = replicate m b @ [b]" for m and b :: bool by (simp add: replicate_append_same)
  then show "msb_val (replicate n False) = 0" "msb_val (replicate n True) + 1 = 2 ^ n"
    by (induction n) (simp_all del: replicate.simps(2))
qed

lemma reverse_bits_loop_ok:
  "length bs \<le> 16 \<Longrightarrow> length bs + n \<le> 16 \<Longrightarrow> r < 2 ^ n \<Longrightarrow>
   reverse_bits_loop (of_nat (msb_val bs)) (length bs) (of_nat r) = of_nat (2 ^ length bs * r + lsb_val bs)"
proof (induction bs arbitrary: n r rule: rev_induct)
  case (snoc b bs)
  have m: "msb_val bs < 2 ^ 15" using msb_val_less [of bs] snoc.prems(1) power_increasing [of "length bs" 15 "2 :: nat"] by simp
  have N: "unat (of_nat (msb_val (bs @ [b])) :: 16 word) = msb_val (bs @ [b])"
    using m by (intro unat_of_nat_small) simp
  have M: "unat (of_nat (msb_val bs) :: 16 word) = msb_val bs" using m by (intro unat_of_nat_small) simp
  have d: "drop_bit 1 (of_nat (msb_val (bs @ [b])) :: 16 word) = of_nat (msb_val bs)"
    unfolding word_unat_eq_iff unat_drop_bit_div N M by simp
  have a: "(of_nat (msb_val (bs @ [b])) :: 16 word) AND 1 = of_nat (of_bool b)"
    unfolding and_one_eq word_unat_eq_iff unat_mod N by simp
  have "reverse_bits_loop (of_nat (msb_val (bs @ [b]))) (length (bs @ [b])) (of_nat r) =
      reverse_bits_loop (of_nat (msb_val bs)) (length bs) (of_nat (2 * r + of_bool b))"
    unfolding length_append using d a by simp
  also have "\<dots> = of_nat (2 ^ length bs * (2 * r + of_bool b) + lsb_val bs)"
    using snoc.prems by (intro snoc.IH [of "Suc n"]) auto
  finally show ?case by (simp add: lsb_val_append algebra_simps)
qed simp

lemma ReverseBits_ok: "length bs \<le> 16 \<Longrightarrow> ReverseBits (of_nat (msb_val bs)) (length bs) = of_nat (lsb_val bs)"
  using reverse_bits_loop_ok [of bs 0 0] by (simp add: ReverseBits_def)

lemma code_paths_ne: "code_paths P \<Longrightarrow> P \<noteq> []"
  by (induction rule: code_paths.induct) auto

lemma code_paths_prefix_free:
  "code_paths P \<Longrightarrow> i < length P \<Longrightarrow> j < length P \<Longrightarrow> take (length (P ! i)) (P ! j) = P ! i \<Longrightarrow> i = j"
proof (induction arbitrary: i j rule: code_paths.induct)
  case (code_node L R)
  then show ?case
    by (cases "i < length L"; cases "j < length L")
      (auto simp: nth_append, metis add_diff_inverse_nat less_diff_conv2 linorder_not_less add.commute nat_add_left_cancel_less)
qed auto

text \<open>The encodings of neighbouring leaves: one more, then as many bits as the next one has.\<close>

definition neighbours :: "bool list \<Rightarrow> bool list \<Rightarrow> bool" where
  "neighbours p q \<longleftrightarrow> (\<exists>c a b. p = c @ False # replicate a True \<and> q = c @ True # replicate b False)"

lemma code_paths_hd_last:
  "code_paths P \<Longrightarrow> (\<exists>a. hd P = replicate a False) \<and> (\<exists>a. last P = replicate a True)"
proof (induction rule: code_paths.induct)
  case (code_node L R)
  obtain a b where "hd L = replicate a False" "last R = replicate b True" using code_node.IH by blast
  then have "False # hd L = replicate (Suc a) False" "True # last R = replicate (Suc b) True" by simp_all
  then show ?case using code_paths_ne code_node.hyps by (metis hd_append2 hd_map last_appendR last_map map_is_Nil_conv)
qed (auto intro: exI [of _ 0])

lemma code_paths_neighbours:
  "code_paths P \<Longrightarrow> Suc i < length P \<Longrightarrow> neighbours (P ! i) (P ! Suc i)"
proof (induction arbitrary: i rule: code_paths.induct)
  case (code_node L R)
  have cons: "neighbours (x # p) (x # q)" if "neighbours p q" for x p q
    using that unfolding neighbours_def by (metis append_Cons)
  note ne = code_node.hyps [THEN code_paths_ne]
  consider "Suc i < length L" | "Suc i = length L" | "length L \<le> i" by linarith
  then show ?case
  proof cases
    case 1
    then show ?thesis using code_node.IH(1) [of i] cons by (simp add: nth_append)
  next
    case 2
    obtain a b where "last L = replicate a True" "hd R = replicate b False"
      using code_paths_hd_last code_node.hyps by blast
    moreover have "i = length L - 1" using 2 by simp
    moreover from this have "L ! i = last L" "R ! 0 = hd R" using ne by (simp_all add: last_conv_nth hd_conv_nth)
    ultimately show ?thesis using 2 ne by (auto simp: nth_append neighbours_def intro!: exI [of _ "[]"])
  next
    case 3
    then show ?thesis using code_node.IH(2) [of "i - length L"] code_node.prems cons
      by (auto simp: nth_append Suc_diff_le)
  qed
qed simp


text \<open>What the arrays of keys and lengths hold for the symbols of a range.\<close>

definition keys_ok :: "64 word list \<times> byte list \<Rightarrow> byte list \<Rightarrow> bool list list \<Rightarrow> bool" where
  "keys_ok st xs P \<longleftrightarrow> length P = length xs \<and> (\<forall>i < length xs.
     fst st ! unat (xs ! i) = of_nat (lsb_val (P ! i)) \<and> snd st ! unat (xs ! i) = of_nat (length (P ! i)))"

definition same_outside :: "byte list \<Rightarrow> 64 word list \<times> byte list \<Rightarrow> 64 word list \<times> byte list \<Rightarrow> bool" where
  "same_outside xs st st' \<longleftrightarrow> length (fst st') = length (fst st) \<and> length (snd st') = length (snd st) \<and>
     (\<forall>b. b \<notin> set xs \<longrightarrow> fst st' ! unat b = fst st ! unat b \<and> snd st' ! unat b = snd st ! unat b)"

lemma keys_ok_append:
  assumes "keys_ok st xs P" "keys_ok st' ys Q" "same_outside ys st st'" "set xs \<inter> set ys = {}"
  shows "keys_ok st' (xs @ ys) (P @ Q)"
  unfolding keys_ok_def
proof (intro conjI allI impI)
  show "length (P @ Q) = length (xs @ ys)" using assms(1,2) by (simp add: keys_ok_def)
  fix i assume i: "i < length (xs @ ys)"
  have "fst st' ! unat ((xs @ ys) ! i) = of_nat (lsb_val ((P @ Q) ! i)) \<and>
      snd st' ! unat ((xs @ ys) ! i) = of_nat (length ((P @ Q) ! i))"
  proof (cases "i < length xs")
    case True
    then have "xs ! i \<notin> set ys" using assms(4) nth_mem by blast
    then show ?thesis using True assms(1,3) by (simp add: keys_ok_def same_outside_def nth_append)
  next
    case False
    then show ?thesis using i assms(1,2) by (simp add: keys_ok_def nth_append)
  qed
  then show "fst st' ! unat ((xs @ ys) ! i) = of_nat (lsb_val ((P @ Q) ! i))"
    "snd st' ! unat ((xs @ ys) ! i) = of_nat (length ((P @ Q) ! i))" by blast+
qed

lemma AssignEncoding_ok:
  assumes "xs \<noteq> []" "distinct xs" "\<forall>x \<in> set xs. 0 < count ! unat x" "weight_of count xs < 2 ^ 32"
    "length xs \<le> 2 ^ (12 - length q)" "length q \<le> 12" "length (fst st) = 256" "length (snd st) = 256"
  shows "\<exists>P st'. AssignEncoding count xs (of_nat (msb_val q)) (length q) st = Some st' \<and> code_paths P \<and>
    (\<forall>p \<in> set P. length q + length p \<le> 12) \<and> keys_ok st' xs (map (\<lambda>p. q @ p) P) \<and> same_outside xs st st'"
  using assms
proof (induction "length xs" arbitrary: xs q st rule: less_induct)
  case less
  show ?case
  proof (cases "length xs = 1")
    case True
    then obtain x where x: "xs = [x]" by (cases xs) auto
    have "lsb_val q < 2 ^ 12" using lsb_val_less [of q] power_increasing [OF less.prems(6), of "2 :: nat"] by simp
    then have "(ucast (ReverseBits (of_nat (msb_val q)) (length q)) :: 64 word) = of_nat (lsb_val q)"
      using ReverseBits_ok [of q] less.prems(6)
      by (simp add: word_unat_eq_iff unsigned_ucast_eq unat_of_nat_small take_bit_nat_eq_self)
    moreover have "AssignEncoding count xs (of_nat (msb_val q)) (length q) st =
        Some ((fst st)[unat x := ucast (ReverseBits (of_nat (msb_val q)) (length q))], (snd st)[unat x := of_nat (length q)])"
      unfolding x by (subst AssignEncoding.simps) simp
    ultimately show ?thesis using less.prems(6-8) x code_leaf
      by (intro exI [of _ "[[]]"] exI) (auto simp: keys_ok_def same_outside_def nth_list_update simp flip: word_unat_eq_iff)
  next
    case False
    then have "2 \<le> length xs" using less.prems(1) by (cases xs) (auto simp: Suc_le_eq)
    then obtain m where m: "split_range count xs (length q) = Some m" "0 < m" "m < length xs" "length q < 12"
        "m \<le> 2 ^ (11 - length q)" "length xs - m \<le> 2 ^ (11 - length q)"
      using split_range_ok [OF _ less.prems(3,4,5,6)] by blast
    let ?l = "take m xs" and ?r = "drop m xs"
    have xs: "?l @ ?r = xs" by simp
    have w: "weight_of count ?l < 2 ^ 32" "weight_of count ?r < 2 ^ 32"
      using less.prems(4) weight_of_simps(3) [of count ?l ?r] unfolding xs by linarith+
    have dj: "set ?l \<inter> set ?r = {}" using less.prems(2) by (metis distinct_append xs)
    have e: "2 * of_nat (msb_val q) = (of_nat (msb_val (q @ [False])) :: 16 word)"
      "2 * of_nat (msb_val q) + 1 = (of_nat (msb_val (q @ [True])) :: 16 word)" by simp_all
    have len: "11 - length q = 12 - length (q @ [b])" for b :: bool using m(4) by simp
    have "\<exists>P st'. AssignEncoding count ?l (of_nat (msb_val (q @ [False]))) (length (q @ [False])) st = Some st' \<and> code_paths P \<and>
      (\<forall>p \<in> set P. length (q @ [False]) + length p \<le> 12) \<and> keys_ok st' ?l (map (\<lambda>p. (q @ [False]) @ p) P) \<and> same_outside ?l st st'"
      using less.prems m w(1) len by (intro less.hyps) (auto dest: in_set_takeD)
    then obtain P st1 where P: "AssignEncoding count ?l (2 * of_nat (msb_val q)) (length q + 1) st = Some st1" "code_paths P"
        "\<forall>p \<in> set P. length q + 1 + length p \<le> 12" "keys_ok st1 ?l (map (\<lambda>p. q @ False # p) P)" "same_outside ?l st st1"
      unfolding e by auto
    have st1: "length (fst st1) = 256" "length (snd st1) = 256" using P(5) less.prems(7,8) by (simp_all add: same_outside_def)
    have "\<exists>P st'. AssignEncoding count ?r (of_nat (msb_val (q @ [True]))) (length (q @ [True])) st1 = Some st' \<and> code_paths P \<and>
      (\<forall>p \<in> set P. length (q @ [True]) + length p \<le> 12) \<and> keys_ok st' ?r (map (\<lambda>p. (q @ [True]) @ p) P) \<and> same_outside ?r st1 st'"
      using less.prems m w(2) len st1 by (intro less.hyps) (auto dest: in_set_dropD)
    then obtain Q st2 where Q: "AssignEncoding count ?r (2 * of_nat (msb_val q) + 1) (length q + 1) st1 = Some st2" "code_paths Q"
        "\<forall>p \<in> set Q. length q + 1 + length p \<le> 12" "keys_ok st2 ?r (map (\<lambda>p. q @ True # p) Q)" "same_outside ?r st1 st2"
      unfolding e by (auto simp: add.commute)
    have "AssignEncoding count xs (of_nat (msb_val q)) (length q) st = Some st2"
      using False m P(1) Q(1) by (subst AssignEncoding.simps) simp
    moreover have "keys_ok st2 xs (map (\<lambda>p. q @ p) (map (Cons False) P @ map (Cons True) Q))"
      using keys_ok_append [OF P(4) Q(4,5) dj] by (simp add: comp_def)
    moreover have "same_outside xs st st2" using P(5) Q(5) set_append [of ?l ?r] unfolding xs same_outside_def by simp
    moreover have "\<forall>p \<in> set (map (Cons False) P @ map (Cons True) Q). length q + length p \<le> 12" using P(3) Q(3) by auto
    ultimately show ?thesis using code_node [OF P(2) Q(2)] by blast
  qed
qed

subsection \<open>The code that is assigned to a source\<close>

lemma occurrences_count_list: "occurrences bs (unat b) = count_list bs b"
  by (induction bs) (auto simp flip: word_unat_eq_iff)

lemma weight_of_occurrences:
  assumes "\<And>b :: byte. unat (count ! unat b) = occurrences source (unat b)" "distinct xs" "set xs = set source"
  shows "weight_of count xs = length source"
  using assms by (simp add: weight_of_def sum_list_distinct_conv_sum_set occurrences_count_list sum_count_set)

definition symbols :: "huffman_encoder \<Rightarrow> byte list" where
  "symbols h = take (he_sortedCount h) (he_sorted h)"

definition huffman_ok :: "huffman_encoder \<Rightarrow> byte list \<Rightarrow> bool list list \<Rightarrow> bool" where
  "huffman_ok h source P \<longleftrightarrow>
     code_paths P \<and> (\<forall>p \<in> set P. length p \<le> MAX_ENCODING_LENGTH) \<and> keys_ok (he_key h, he_keyLength h) (symbols h) P \<and>
     distinct (symbols h) \<and> set (symbols h) = set source \<and> length (symbols h) = he_sortedCount h \<and>
     length (he_sorted h) = BUCKET_COUNT \<and> (\<forall>b. b \<notin> set source \<longrightarrow> he_keyLength h ! unat b = 0) \<and>
     (\<forall>k < BUCKET_COUNT. unat (he_count h ! k) = occurrences source k)"

lemma huffman_encoded_ok:
  assumes "source \<noteq> []" "length source < 2 ^ 28"
  shows "\<exists>h P. huffman_encoded source = Some h \<and> huffman_ok h source P"
proof -
  let ?c = "CountValues source" and ?xs = "map snd (frequency_order (CountValues source))"
  let ?st = "(replicate 256 0, replicate 256 0) :: 64 word list \<times> byte list"
  have c: "length ?c = 256" "\<And>k. k < 256 \<Longrightarrow> unat (?c ! k) = occurrences source k"
    using CountValues_ok [OF assms(2), of 0] CountValues_ok [OF assms(2)] by auto
  have occ: "unat (?c ! unat b) = occurrences source (unat b)" for b :: byte using c(2) [of "unat b"] by simp
  have pos: "0 < ?c ! unat b \<longleftrightarrow> b \<in> set source" for b
    using occ [of b] by (auto simp: word_greater_zero_iff occurrences_count_list count_list_0_iff
        simp flip: unat_eq_0)
  have xs: "distinct ?xs" "set ?xs = set source" using frequency_order_ok [OF c(1)] pos by auto
  have len: "length ?xs \<le> 256"
    using card_mono [of "UNIV :: byte set" "set ?xs"] distinct_card [OF xs(1)] by (simp add: card_word)
  have "\<exists>P st'. AssignEncoding ?c ?xs (of_nat (msb_val [])) (length ([] :: bool list)) ?st = Some st' \<and> code_paths P \<and>
    (\<forall>p \<in> set P. length ([] :: bool list) + length p \<le> 12) \<and> keys_ok st' ?xs (map (\<lambda>p. [] @ p) P) \<and> same_outside ?xs ?st st'"
    using weight_of_occurrences [OF occ xs] xs assms len pos by (intro AssignEncoding_ok) auto
  then obtain P k l where P: "AssignEncoding ?c ?xs 0 0 ?st = Some (k, l)" "code_paths P" "\<forall>p \<in> set P. length p \<le> 12"
      "keys_ok (k, l) ?xs P" "same_outside ?xs ?st (k, l)" by auto
  define h where "h = \<lparr>he_key = k, he_keyLength = l, he_count = ?c, he_sorted = ?xs @ drop (length ?xs) (replicate 256 0),
    he_sortedCount = length ?xs\<rparr>"
  have ne: "?xs \<noteq> []" using xs(2) assms(1) by (metis set_empty)
  have "huffman_encoded source = Some h"
    using P(1) ne by (simp add: huffman_encoded_def SortByFrequency_def Let_def huffman_encoder_init_def BUCKET_COUNT_def h_def)
  moreover have "symbols h = ?xs" by (simp add: symbols_def h_def)
  moreover have "huffman_ok h source P"
    unfolding huffman_ok_def calculation(2)
    using P(2-5) xs len c(2) by (simp add: h_def MAX_ENCODING_LENGTH_def BUCKET_COUNT_def same_outside_def)
  ultimately show ?thesis by blast
qed

text \<open>The path of a symbol.\<close>

definition path_of :: "huffman_encoder \<Rightarrow> bool list list \<Rightarrow> byte \<Rightarrow> bool list" where
  "path_of h P b = the (map_of (zip (symbols h) P) b)"

lemma path_of_nth:
  "huffman_ok h source P \<Longrightarrow> i < length P \<Longrightarrow> path_of h P (symbols h ! i) = P ! i"
  by (auto simp: huffman_ok_def path_of_def keys_ok_def map_of_zip_nth)

lemma path_of_ok:
  assumes "huffman_ok h source P" "b \<in> set source"
  shows "length (path_of h P b) \<le> 12" "he_key h ! unat b = of_nat (lsb_val (path_of h P b))"
    "he_keyLength h ! unat b = of_nat (length (path_of h P b))" "unat (he_keyLength h ! unat b) = length (path_of h P b)"
proof -
  have "b \<in> set (symbols h)" using assms by (simp add: huffman_ok_def)
  then obtain i where i: "i < length P" "symbols h ! i = b" using assms(1) by (auto simp: in_set_conv_nth huffman_ok_def keys_ok_def)
  then have p: "path_of h P b = P ! i" using path_of_nth [OF assms(1)] by auto
  show len: "length (path_of h P b) \<le> 12" using assms(1) i(1) unfolding p huffman_ok_def MAX_ENCODING_LENGTH_def by simp
  show "he_key h ! unat b = of_nat (lsb_val (path_of h P b))" "he_keyLength h ! unat b = of_nat (length (path_of h P b))"
    using assms(1) i unfolding p by (auto simp: huffman_ok_def keys_ok_def)
  then show "unat (he_keyLength h ! unat b) = length (path_of h P b)" using len by (simp add: unat_of_nat_small)
qed

definition encoded_bits :: "huffman_encoder \<Rightarrow> bool list list \<Rightarrow> byte list \<Rightarrow> bool list" where
  "encoded_bits h P source = concat (map (path_of h P) source)"

lemma encoded_bits_simps [simp]: "encoded_bits h P [] = []" "encoded_bits h P (b # bs) = path_of h P b @ encoded_bits h P bs"
  "encoded_bits h P (bs @ cs) = encoded_bits h P bs @ encoded_bits h P cs"
  by (simp_all add: encoded_bits_def)

lemma encoded_bits_length:
  "huffman_ok h source P \<Longrightarrow> set bs \<subseteq> set source \<Longrightarrow> length (encoded_bits h P bs) \<le> 12 * length bs"
proof (induction bs)
  case (Cons b bs)
  then show ?case using path_of_ok(1) [OF Cons.prems(1), of b] by simp
qed simp

lemma sum_occurrences:
  "(\<Sum>i<256. occurrences bs i * f i) = sum_list (map (\<lambda>b. f (unat b)) bs)"
proof (induction bs)
  case (Cons b bs)
  have "(\<Sum>i<256. of_bool (unat b = i) * f i) = (\<Sum>i<256. if i = unat b then f i else 0)" by (intro sum.cong) auto
  also have "\<dots> = f (unat b)" by (subst sum.delta) auto
  finally show ?case using Cons by (simp add: distrib_right sum.distrib)
qed simp

lemma unat_sum_list_64:
  "sum_list (map (\<lambda>i. unat (f i :: 64 word)) xs) < 2 ^ 64 \<Longrightarrow> unat (sum_list (map f xs)) = sum_list (map (\<lambda>i. unat (f i)) xs)"
proof (induction xs)
  case (Cons a xs)
  then show ?case by (simp add: unat_word_ariths)
qed simp

lemma CalculatePackedSize_ok:
  assumes ok: "huffman_ok h source P" and len: "length source < 2 ^ 28"
  shows "unat (CalculatePackedSize h) = 8 + (1 + (3 * he_sortedCount h + 1) div 2) + (length (encoded_bits h P source) div 8 + 8)"
proof -
  let ?f = "\<lambda>i. ucast (he_count h ! i * ucast (he_keyLength h ! i)) :: 64 word"
  let ?T = "length (encoded_bits h P source)"
  have T: "?T \<le> 12 * length source" by (rule encoded_bits_length [OF ok subset_refl])
  have f: "unat (?f i) = occurrences source i * unat (he_keyLength h ! i)" if i: "i < 256" for i
  proof -
    define b where "b = (of_nat i :: byte)"
    have ib: "i = unat b" using i by (simp add: b_def unat_of_nat_small)
    have o1: "unat (he_count h ! i) = occurrences source i" using ok i by (simp add: huffman_ok_def BUCKET_COUNT_def)
    have "unat (he_keyLength h ! i) \<le> 12"
      using path_of_ok(1,4) [OF ok, of b] ok unfolding ib by (cases "b \<in> set source") (auto simp: huffman_ok_def)
    then have "occurrences source i * unat (he_keyLength h ! i) \<le> length source * 12"
      by (intro mult_mono occurrences_le) auto
    then have l: "occurrences source i * unat (he_keyLength h ! i) < 2 ^ 32" using len by simp
    then have "unat (he_count h ! i * ucast (he_keyLength h ! i)) = occurrences source i * unat (he_keyLength h ! i)"
      using take_bit_nat_eq_self [of "unat (he_keyLength h ! i)" 32] \<open>unat (he_keyLength h ! i) \<le> 12\<close>
      by (simp add: unat_word_ariths o1 unsigned_ucast_eq)
    then show ?thesis using l by (simp add: unsigned_ucast_eq take_bit_nat_eq_self)
  qed
  have s: "sum_list (map (\<lambda>i. unat (?f i)) [0..<256]) = ?T"
  proof -
    have "sum_list (map (\<lambda>i. unat (?f i)) [0..<256]) = (\<Sum>i<256. unat (?f i))"
      by (simp only: sum_set_upt_conv_sum_list_nat [symmetric] set_upt atLeast0LessThan)
    also have "\<dots> = (\<Sum>i<256. occurrences source i * unat (he_keyLength h ! i))" using f by (intro sum.cong) auto
    also have "\<dots> = sum_list (map (\<lambda>b. unat (he_keyLength h ! unat b)) source)" by (rule sum_occurrences)
    also have "\<dots> = sum_list (map (\<lambda>b. length (path_of h P b)) source)"
      using path_of_ok(4) [OF ok] by (intro arg_cong [of _ _ sum_list] map_cong) auto
    finally show ?thesis by (simp add: encoded_bits_def length_concat comp_def)
  qed
  have "unat (sum_list (map ?f [0..<256])) = ?T" using T len s by (subst unat_sum_list_64) simp_all
  moreover have "?T div 8 + 8 < 2 ^ 30" using T len by simp
  ultimately have u: "unat (ucast (sum_list (map ?f [0..<256]) div 8 + 8) :: dword) = ?T div 8 + 8"
    by (simp add: unsigned_ucast_eq unat_word_ariths unat_div take_bit_nat_eq_self)
  have "he_sortedCount h \<le> 256" using ok by (auto simp: huffman_ok_def symbols_def BUCKET_COUNT_def)
  then have v: "unat (of_nat (1 + (3 * he_sortedCount h + 1) div 2) :: dword) = 1 + (3 * he_sortedCount h + 1) div 2"
    by (intro unat_of_nat_small) simp
  define a where "a = (of_nat (1 + (3 * he_sortedCount h + 1) div 2) :: dword)"
  define b where "b = (ucast (sum_list (map ?f [0..<256]) div 8 + 8) :: dword)"
  have "CalculatePackedSize h = 2 * 4 + a + b" by (simp only: CalculatePackedSize_def Let_def BUCKET_COUNT_def a_def b_def)
  moreover have "unat a = 1 + (3 * he_sortedCount h + 1) div 2" "unat b = ?T div 8 + 8" unfolding a_def b_def by (fact u v)+
  ultimately show ?thesis
    using \<open>?T div 8 + 8 < 2 ^ 30\<close> \<open>he_sortedCount h \<le> 256\<close> by (simp add: unat_word_ariths)
qed

subsection \<open>The bit writer\<close>

fun bytes_val :: "byte list \<Rightarrow> nat" where
  "bytes_val [] = 0"
| "bytes_val (b # bs) = unat b + 2 ^ 8 * bytes_val bs"

lemma bytes_val_append: "bytes_val (bs @ cs) = bytes_val bs + 2 ^ (8 * length bs) * bytes_val cs"
  by (induction bs) (simp_all add: algebra_simps power_add)

lemma bytes_val_less: "bytes_val bs < 2 ^ (8 * length bs)"
proof (induction bs)
  case (Cons b bs)
  have "unat b + 2 ^ 8 * bytes_val bs < 2 ^ 8 * (bytes_val bs + 1)" using unat_byte [of b] by simp
  also have "\<dots> \<le> 2 ^ 8 * 2 ^ (8 * length bs)" using Cons by (intro mult_left_mono) auto
  finally show ?case by (simp add: power_add)
qed simp

lemma bytes_val_digits:
  "bytes_val (map (\<lambda>k. ucast (drop_bit (8 * k) v)) [0..<n]) = take_bit (8 * n) (unat (v :: 'i::len word))"
proof (induction n arbitrary: v)
  case (Suc n)
  have "[0..<Suc n] = 0 # map Suc [0..<n]" by (simp add: map_Suc_upt upt_conv_Cons del: upt_Suc)
  then have "bytes_val (map (\<lambda>k. ucast (drop_bit (8 * k) v)) [0..<Suc n]) =
      take_bit 8 (unat v) + 2 ^ 8 * bytes_val (map (\<lambda>k. ucast (drop_bit (8 * k) (drop_bit 8 v))) [0..<n])"
    by (simp add: comp_def unsigned_ucast_eq add.commute [of 8] del: upt_Suc)
  also have "\<dots> = take_bit 8 (unat v) + 2 ^ 8 * take_bit (8 * n) (unat v div 2 ^ 8)" by (simp only: Suc.IH unat_drop_bit_div)
  also have "\<dots> = take_bit (8 * Suc n) (unat v)"
    using mod_mult2_eq [of "unat v" "2 ^ 8" "2 ^ (8 * n)"] by (simp add: take_bit_eq_mod power_add)
  finally show ?case .
qed simp

lemma bytes_val_qword: "bytes_val (take n (qword_bytes v)) = take_bit (8 * min n 8) (unat v)"
  proof -
  have "take n (qword_bytes v) = map (\<lambda>k. ucast (drop_bit (8 * k) v)) [0..<min n 8]"
    by (cases "n \<le> 8") (simp_all add: qword_bytes_def take_map min_def del: upt_conv_Cons)
  then show ?thesis by (simp only: bytes_val_digits)
qed

lemma lsb_val_take: "lsb_val (take n bs) = take_bit n (lsb_val bs)"
proof (cases "n \<le> length bs")
  case True
  have "lsb_val bs = lsb_val (take n bs) + 2 ^ n * lsb_val (drop n bs)"
    using lsb_val_append [of "take n bs" "drop n bs"] True by simp
  then show ?thesis using lsb_val_less [of "take n bs"] True by (simp add: take_bit_eq_mod)
next
  case False
  then have "lsb_val bs < 2 ^ n" using lsb_val_less [of bs] power_increasing [of "length bs" n "2 :: nat"] by linarith
  then show ?thesis using False by (simp add: take_bit_nat_eq_self)
qed

lemma lsb_val_drop: "lsb_val (drop n bs) = drop_bit n (lsb_val bs)"
proof (cases "n \<le> length bs")
  case True
  have "lsb_val bs = lsb_val (take n bs) + 2 ^ n * lsb_val (drop n bs)"
    using lsb_val_append [of "take n bs" "drop n bs"] True by simp
  then show ?thesis using lsb_val_less [of "take n bs"] True by (simp add: drop_bit_eq_div)
next
  case False
  then have "lsb_val bs < 2 ^ n" using lsb_val_less [of bs] power_increasing [of "length bs" n "2 :: nat"] by linarith
  then show ?thesis using False by (simp add: drop_bit_eq_div)
qed

definition writer_ok :: "byte list \<Rightarrow> nat \<Rightarrow> bool list \<Rightarrow> bool list \<Rightarrow> bit_writer \<Rightarrow> bool" where
  "writer_ok pre N cs ds w \<longleftrightarrow>
     (\<exists>Y. take (bw_dest w) (bw_buffer w) = pre @ Y \<and> bw_dest w = length pre + length Y \<and>
          8 * length Y = length cs \<and> bytes_val Y = lsb_val cs) \<and>
     length (bw_buffer w) = N \<and> unat (bw_code w) = lsb_val ds \<and> bw_bits w = length ds"

lemma writer_ok_add:
  assumes w: "writer_ok pre N cs ds w" and ok: "huffman_ok h source P" "b \<in> set source" and len: "length ds + 12 \<le> 64"
  shows "writer_ok pre N cs (ds @ path_of h P b) (add_key h b w)"
proof -
  let ?p = "path_of h P b"
  note k = path_of_ok [OF ok]
  have l: "lsb_val (ds @ ?p) < 2 ^ 64"
    using lsb_val_less [of "ds @ ?p"] k(1) len power_increasing [of "length (ds @ ?p)" 64 "2 :: nat"] by simp
  have p: "lsb_val ?p < 2 ^ 64" using lsb_val_less [of ?p] k(1) power_increasing [of "length ?p" 64 "2 :: nat"] by simp
  have c: "unat (bw_code w) = lsb_val ds" "bw_bits w = length ds" using w by (auto simp: writer_ok_def)
  have "unat (push_bit (bw_bits w) (he_key h ! unat b)) = 2 ^ length ds * lsb_val ?p"
  proof -
    have "unat (push_bit (bw_bits w) (he_key h ! unat b)) = take_bit 64 (push_bit (length ds) (lsb_val ?p))"
      unfolding c(2) k(2) unsigned_push_bit_eq using p by (simp add: unat_of_nat_small)
    then show ?thesis using l unfolding lsb_val_append push_bit_eq_mult by (simp add: take_bit_nat_eq_self mult.commute)
  qed
  then have "unat (bw_code w + push_bit (bw_bits w) (he_key h ! unat b)) = lsb_val (ds @ ?p)"
    using l c unfolding lsb_val_append by (simp add: unat_word_ariths)
  then show ?thesis using w k(4) by (simp add: writer_ok_def add_key_def)
qed

lemma writer_ok_add_all:
  assumes "huffman_ok h source P"
  shows "set bs \<subseteq> set source \<Longrightarrow> writer_ok pre N cs ds w \<Longrightarrow> length ds + 12 * length bs \<le> 64 \<Longrightarrow>
    writer_ok pre N cs (ds @ encoded_bits h P bs) (fold (add_key h) bs w)"
proof (induction bs arbitrary: ds w)
  case (Cons b bs)
  have "writer_ok pre N cs ((ds @ path_of h P b) @ encoded_bits h P bs) (fold (add_key h) bs (add_key h b w))"
    using Cons.prems path_of_ok(1) [OF assms, of b] by (intro Cons.IH writer_ok_add [OF _ assms]) auto
  then show ?case by simp
qed simp

lemma write_qword_buffer:
  assumes "writer_ok pre N cs ds w" "bw_dest w + 8 \<le> N"
  obtains Y where "write_qword w = Some (w\<lparr>bw_buffer := pre @ Y @ qword_bytes (bw_code w) @ drop (bw_dest w + 8) (bw_buffer w)\<rparr>)"
    "bw_dest w = length pre + length Y" "8 * length Y = length cs" "bytes_val Y = lsb_val cs"
proof -
  obtain Y where Y: "take (bw_dest w) (bw_buffer w) = pre @ Y" "bw_dest w = length pre + length Y" "8 * length Y = length cs"
      "bytes_val Y = lsb_val cs" using assms(1) by (auto simp: writer_ok_def)
  moreover have "length (bw_buffer w) = N" using assms(1) by (simp add: writer_ok_def)
  ultimately show thesis using assms(2) by (intro that [of Y]) (simp_all add: write_qword_def)
qed

lemma write_full_bytes_ok:
  assumes w: "writer_ok pre N cs ds w" "bw_dest w + 8 \<le> N" "length ds \<le> 64"
  defines "m \<equiv> 8 * (length ds div 8)"
  shows "\<exists>w'. write_full_bytes w = Some w' \<and> writer_ok pre N (cs @ take m ds) (drop m ds) w'"
proof -
  obtain Y where Y: "write_qword w = Some (w\<lparr>bw_buffer := pre @ Y @ qword_bytes (bw_code w) @ drop (bw_dest w + 8) (bw_buffer w)\<rparr>)"
      "bw_dest w = length pre + length Y" "8 * length Y = length cs" "bytes_val Y = lsb_val cs"
    by (rule write_qword_buffer [OF w(1,2)])
  have c: "unat (bw_code w) = lsb_val ds" "bw_bits w = length ds" "length (bw_buffer w) = N" using w by (auto simp: writer_ok_def)
  define n where "n = length ds div 8"
  have m: "m = 8 * n" "m \<le> length ds" "n \<le> 8" "length ds - length ds mod 8 = m" "length ds - m = length ds mod 8"
    using w(3) by (auto simp: m_def n_def minus_mod_eq_mult_div minus_mult_div_eq_mod)
  let ?Z = "take n (qword_bytes (bw_code w))"
  have lq: "length (qword_bytes (bw_code w)) = 8" by (simp add: qword_bytes_def)
  have "bytes_val (Y @ ?Z) = lsb_val (cs @ take m ds)"
    using Y(3,4) m(1,3) c(1) by (simp add: bytes_val_append lsb_val_append bytes_val_qword lsb_val_take min_def)
  moreover have "8 * length (Y @ ?Z) = length (cs @ take m ds)" using Y(3) m lq by simp
  moreover have "unat (drop_bit (bw_bits w - bw_bits w mod 8) (bw_code w)) = lsb_val (drop m ds)"
    unfolding c(2) m(4) lsb_val_drop unat_drop_bit_div c(1) by (rule drop_bit_eq_div [symmetric])
  ultimately show ?thesis
    using Y(1,2) c m lq w(2)
    by (simp add: write_full_bytes_def writer_ok_def n_def [symmetric] exI [of _ "Y @ ?Z"])
qed

lemma encode_step_ok:
  assumes ok: "huffman_ok h source P" "set bs \<subseteq> set source" and w: "writer_ok pre N cs ds w" "length ds < 8" "length bs \<le> 4"
    and N: "length pre + length (cs @ ds @ encoded_bits h P bs) div 8 + 8 \<le> N"
  shows "\<exists>w' cs' ds'. write_full_bytes (fold (add_key h) bs w) = Some w' \<and> writer_ok pre N cs' ds' w' \<and>
    cs' @ ds' = cs @ ds @ encoded_bits h P bs \<and> length ds' < 8"
proof -
  let ?e = "ds @ encoded_bits h P bs" and ?w = "fold (add_key h) bs w"
  let ?m = "8 * (length ?e div 8)"
  have a: "writer_ok pre N cs ?e ?w" using w by (intro writer_ok_add_all [OF ok]) auto
  have l: "length ?e \<le> 64" using encoded_bits_length [OF ok] w(2,3) by simp
  have "bw_dest ?w + 8 \<le> N"
  proof -
    have "bw_dest ?w = length pre + length cs div 8" using a by (auto simp: writer_ok_def)
    moreover have "length cs div 8 \<le> length (cs @ ds @ encoded_bits h P bs) div 8" by (intro div_le_mono) simp
    ultimately show ?thesis using N by simp
  qed
  from write_full_bytes_ok [OF a this l] obtain w' where
    "write_full_bytes ?w = Some w'" "writer_ok pre N (cs @ take ?m ?e) (drop ?m ?e) w'" by blast
  moreover have "length (drop ?m ?e) < 8" unfolding length_drop by presburger
  moreover have "(cs @ take ?m ?e) @ drop ?m ?e = cs @ ds @ encoded_bits h P bs" unfolding append_assoc append_take_drop_id ..
  ultimately show ?thesis by blast
qed

lemma encode_blocks_ok:
  assumes ok: "huffman_ok h source P"
  shows "set bs \<subseteq> set source \<Longrightarrow> 4 * n \<le> length bs \<Longrightarrow> writer_ok pre N cs ds w \<Longrightarrow> length ds < 8 \<Longrightarrow>
    length pre + length (cs @ ds @ encoded_bits h P bs) div 8 + 8 \<le> N \<Longrightarrow>
    \<exists>w' cs' ds'. encode_blocks h n bs w = Some (drop (4 * n) bs, w') \<and> writer_ok pre N cs' ds' w' \<and>
      cs' @ ds' = cs @ ds @ encoded_bits h P (take (4 * n) bs) \<and> length ds' < 8"
proof (induction n arbitrary: bs cs ds w)
  case (Suc n)
  have split: "encoded_bits h P bs = encoded_bits h P (take 4 bs) @ encoded_bits h P (drop 4 bs)"
    by (metis append_take_drop_id encoded_bits_simps(3))
  have "length pre + length (cs @ ds @ encoded_bits h P (take 4 bs)) div 8 + 8 \<le> N"
    using Suc.prems(5) div_le_mono [of "length (cs @ ds @ encoded_bits h P (take 4 bs))" "length (cs @ ds @ encoded_bits h P bs)" 8]
    unfolding split by simp
  then obtain w1 cs1 ds1 where 1: "write_full_bytes (fold (add_key h) (take 4 bs) w) = Some w1" "writer_ok pre N cs1 ds1 w1"
      "cs1 @ ds1 = cs @ ds @ encoded_bits h P (take 4 bs)" "length ds1 < 8"
    using encode_step_ok [OF ok _ Suc.prems(3,4), of "take 4 bs"] Suc.prems(1) set_take_subset [of 4 bs] by (auto simp: subset_iff)
  have all: "cs1 @ ds1 @ encoded_bits h P (drop 4 bs) = cs @ ds @ encoded_bits h P bs"
    using 1(3) unfolding split append_assoc [symmetric] by simp
  have "\<exists>w' cs' ds'. encode_blocks h n (drop 4 bs) w1 = Some (drop (4 * n) (drop 4 bs), w') \<and> writer_ok pre N cs' ds' w' \<and>
      cs' @ ds' = cs1 @ ds1 @ encoded_bits h P (take (4 * n) (drop 4 bs)) \<and> length ds' < 8"
    using Suc.prems 1(2,4) set_drop_subset [of 4 bs] by (intro Suc.IH) (auto simp: all)
  then obtain w' cs' ds' where 2: "encode_blocks h n (drop 4 bs) w1 = Some (drop (4 * n) (drop 4 bs), w')" "writer_ok pre N cs' ds' w'"
      "cs' @ ds' = cs1 @ ds1 @ encoded_bits h P (take (4 * n) (drop 4 bs))" "length ds' < 8" by blast
  have "encoded_bits h P (take (4 * Suc n) bs) = encoded_bits h P (take 4 bs) @ encoded_bits h P (take (4 * n) (drop 4 bs))"
    unfolding encoded_bits_simps(3) [symmetric] by (simp add: take_add)
  then have "cs' @ ds' = cs @ ds @ encoded_bits h P (take (4 * Suc n) bs)"
    using 2(3) arg_cong [OF 1(3), of "\<lambda>x. x @ encoded_bits h P (take (4 * n) (drop 4 bs))"] by simp
  moreover have "encode_blocks h (Suc n) bs w = Some (drop (4 * Suc n) bs, w')" using 1(1) 2(1) by (simp add: add.commute)
  ultimately show ?case using 2(2,4) by blast
qed auto

lemma encode_odd_ok:
  assumes ok: "huffman_ok h source P"
  shows "set bs \<subseteq> set source \<Longrightarrow> writer_ok pre N cs ds w \<Longrightarrow> length ds < 8 \<Longrightarrow>
    length pre + length (cs @ ds @ encoded_bits h P bs) div 8 + 8 \<le> N \<Longrightarrow>
    \<exists>w' cs' ds'. encode_odd h bs w = Some w' \<and> writer_ok pre N cs' ds' w' \<and>
      cs' @ ds' = cs @ ds @ encoded_bits h P bs \<and> length ds' < 8"
proof (induction bs arbitrary: cs ds w)
  case (Cons b bs)
  have "length (cs @ ds @ encoded_bits h P [b]) \<le> length (cs @ ds @ encoded_bits h P (b # bs))" by simp
  then have "length pre + length (cs @ ds @ encoded_bits h P [b]) div 8 + 8 \<le> N"
    using Cons.prems(4) div_le_mono [of _ "length (cs @ ds @ encoded_bits h P (b # bs))" 8] by fastforce
  then have "\<exists>w' cs' ds'. write_full_bytes (fold (add_key h) [b] w) = Some w' \<and> writer_ok pre N cs' ds' w' \<and>
      cs' @ ds' = cs @ ds @ encoded_bits h P [b] \<and> length ds' < 8"
    using Cons.prems by (intro encode_step_ok [OF ok]) auto
  then obtain w1 cs1 ds1 where 1: "write_full_bytes (add_key h b w) = Some w1" "writer_ok pre N cs1 ds1 w1"
      "cs1 @ ds1 = cs @ ds @ encoded_bits h P [b]" "length ds1 < 8" by auto
  have all: "cs1 @ ds1 @ encoded_bits h P bs = cs @ ds @ encoded_bits h P (b # bs)"
    using 1(3) unfolding append_assoc [symmetric] by simp
  have "\<exists>w' cs' ds'. encode_odd h bs w1 = Some w' \<and> writer_ok pre N cs' ds' w' \<and>
      cs' @ ds' = cs1 @ ds1 @ encoded_bits h P bs \<and> length ds' < 8"
    using Cons.prems 1(2,4) by (intro Cons.IH) (auto simp: all)
  then show ?case unfolding all using 1(1) by simp
qed auto

lemma WriteHuffmanEncoded_ok:
  assumes ok: "huffman_ok h source P"
  shows "\<exists>Y. WriteHuffmanEncoded h source (pre @ replicate (length (encoded_bits h P source) div 8 + 8) 0) (length pre) = Some (pre @ Y) \<and>
    length Y = length (encoded_bits h P source) div 8 + 8 \<and> bytes_val Y = lsb_val (encoded_bits h P source)"
proof -
  let ?e = "encoded_bits h P source" and ?n = "length source div 4"
  let ?N = "length pre + length ?e div 8 + 8"
  let ?buf = "pre @ replicate (length ?e div 8 + 8) 0"
  let ?w = "\<lparr>bw_code = 0, bw_bits = 0, bw_buffer = ?buf, bw_dest = length pre\<rparr>"
  have "writer_ok pre ?N [] [] ?w"
    by (simp add: writer_ok_def exI [of _ "[]"])
  then have "\<exists>w' cs' ds'. encode_blocks h ?n source ?w = Some (drop (4 * ?n) source, w') \<and> writer_ok pre ?N cs' ds' w' \<and>
      cs' @ ds' = [] @ [] @ encoded_bits h P (take (4 * ?n) source) \<and> length ds' < 8"
    by (intro encode_blocks_ok [OF ok]) auto
  then obtain w1 cs1 ds1 where 1:
    "encode_blocks h ?n source \<lparr>bw_code = 0, bw_bits = 0, bw_buffer = ?buf, bw_dest = length pre\<rparr> = Some (drop (4 * ?n) source, w1)"
    "writer_ok pre ?N cs1 ds1 w1" "cs1 @ ds1 = encoded_bits h P (take (4 * ?n) source)" "length ds1 < 8"
    by auto
  have all: "cs1 @ ds1 @ encoded_bits h P (drop (4 * ?n) source) = ?e"
    using 1(3) unfolding append_assoc [symmetric] by (simp only: encoded_bits_simps(3) [symmetric] append_take_drop_id)
  have "\<exists>w' cs' ds'. encode_odd h (drop (4 * ?n) source) w1 = Some w' \<and> writer_ok pre ?N cs' ds' w' \<and>
      cs' @ ds' = cs1 @ ds1 @ encoded_bits h P (drop (4 * ?n) source) \<and> length ds' < 8"
    using 1 all set_drop_subset [of "4 * ?n" source] by (intro encode_odd_ok [OF ok]) auto
  then obtain w2 cs2 ds2 where 2: "encode_odd h (drop (4 * ?n) source) w1 = Some w2" "writer_ok pre ?N cs2 ds2 w2"
      "cs2 @ ds2 = ?e" "length ds2 < 8" unfolding all by blast
  have d: "bw_dest w2 = length pre + length cs2 div 8" "8 dvd length cs2" "unat (bw_code w2) = lsb_val ds2" "length (bw_buffer w2) = ?N"
    using 2(2) by (auto simp: writer_ok_def) (metis dvd_triv_left)
  have "length ?e = length cs2 + length ds2" unfolding 2(3) [symmetric] by simp
  then have q: "length ?e div 8 = length cs2 div 8" using d(2) 2(4) by (auto elim: dvdE)
  then have "bw_dest w2 + 8 \<le> ?N" using d(1) by simp
  from write_qword_buffer [OF 2(2) this] obtain Y where Y:
    "write_qword w2 = Some (w2\<lparr>bw_buffer := pre @ Y @ qword_bytes (bw_code w2) @ drop (bw_dest w2 + 8) (bw_buffer w2)\<rparr>)"
    "bw_dest w2 = length pre + length Y" "8 * length Y = length cs2" "bytes_val Y = lsb_val cs2" .
  let ?Y = "Y @ qword_bytes (bw_code w2)"
  have "drop (bw_dest w2 + 8) (bw_buffer w2) = []" using d(1,4) q by simp
  moreover have "bytes_val (qword_bytes (bw_code w2)) = lsb_val ds2"
    using bytes_val_digits [where v = "bw_code w2" and n = 8] d(3) lsb_val_less [of ds2] 2(4) power_increasing [of "length ds2" 64 "2 :: nat"]
    by (simp add: qword_bytes_def take_bit_nat_eq_self)
  moreover from this have "bytes_val ?Y = lsb_val ?e"
    using Y(3,4) unfolding 2(3) [symmetric] by (simp add: bytes_val_append lsb_val_append)
  moreover have "length ?Y = length ?e div 8 + 8" using Y(3) q by (simp add: qword_bytes_def)
  ultimately show ?thesis using 1(1) 2(1) Y(1) by (intro exI [of _ ?Y]) (simp add: WriteHuffmanEncoded_def)
qed

subsection \<open>The encoded data\<close>

lemma length_table_lengths [simp]: "length (table_lengths h is) = length is"
  by (induction "is") auto

lemma length_WriteHuffmanTable:
  "huffman_ok h source P \<Longrightarrow> length (WriteHuffmanTable h) = 1 + (3 * he_sortedCount h + 1) div 2"
proof -
  assume "huffman_ok h source P"
  then have "he_sortedCount h \<le> length (he_sorted h)" by (auto simp: huffman_ok_def symbols_def min_def split: if_splits)
  then have "length (WriteHuffmanTable h) = 1 + he_sortedCount h + (he_sortedCount h + 1) div 2" by (simp add: WriteHuffmanTable_def)
  then show ?thesis by presburger
qed

lemma length_dword_bytes [simp]: "length (dword_bytes v) = 4"
  by (simp add: dword_bytes_def)

lemma Encode_empty: "Encode [] = Inr (dword_bytes 0 @ dword_bytes 9 @ [0])"
proof -
  have c: "CountValues [] = replicate 256 0" by (simp add: CountValues_def BUCKET_COUNT_def)
  have f: "frequency_order (replicate 256 0) = []"
    by (simp add: frequency_order_def BUCKET_COUNT_def filter_empty_conv del: upt_rec_numeral)
  have h: "huffman_encoded [] = Some (huffman_encoder_init\<lparr>he_count := replicate 256 0\<rparr>)"
    unfolding huffman_encoded_def SortByFrequency_def c by (simp add: f huffman_encoder_init_def)
  have "sum_list (map (\<lambda>i. ucast ((replicate 256 0 :: dword list) ! i * ucast ((replicate 256 0 :: byte list) ! i)) :: 64 word) [0..<256]) =
      sum_list (map (\<lambda>i. 0) [0..<256])" by (intro arg_cong [of _ _ sum_list] map_cong refl) simp
  then have "CalculatePackedSize (huffman_encoder_init\<lparr>he_count := replicate 256 0\<rparr>) = 17"
    by (simp add: CalculatePackedSize_def huffman_encoder_init_def BUCKET_COUNT_def del: upt_rec_numeral)
  then show ?thesis by (simp add: Encode_def h MIN_HEADER_LENGTH_def min_def)
qed

lemma Encode_ok:
  assumes "source \<noteq> []" "length source < 2 ^ 28"
  shows "(\<exists>h P. huffman_ok h source P \<and>
       length source + 9 \<le> 8 + length (WriteHuffmanTable h) + (length (encoded_bits h P source) div 8 + 8) \<and>
       Encode source = Inr (dword_bytes (of_nat (length source)) @ dword_bytes (of_nat (length source) + 9) @ 0 # source)) \<or>
    (\<exists>h P Y. huffman_ok h source P \<and> length Y = length (encoded_bits h P source) div 8 + 8 \<and>
       bytes_val Y = lsb_val (encoded_bits h P source) \<and> 8 + length (WriteHuffmanTable h) + length Y < length source + 9 \<and>
       Encode source = Inr (dword_bytes (of_nat (length source)) @
         dword_bytes (of_nat (8 + length (WriteHuffmanTable h) + length Y)) @ WriteHuffmanTable h @ Y))"
proof -
  obtain h P where h: "huffman_encoded source = Some h" "huffman_ok h source P" using huffman_encoded_ok [OF assms] by blast
  let ?n = "of_nat (length source) :: dword"
  have n: "unat ?n = length source" "unat (?n + 9) = length source + 9" "length source \<le> unat (- 1 :: dword)"
    using assms(2) by (simp_all add: unat_word_ariths unat_of_nat_small unsigned_minus_1_eq_mask mask_eq_exp_minus_1)
  let ?e = "encoded_bits h P source" and ?t = "WriteHuffmanTable h"
  have size: "unat (CalculatePackedSize h) = 8 + length ?t + (length ?e div 8 + 8)"
    using CalculatePackedSize_ok [OF h(2) assms(2)] length_WriteHuffmanTable [OF h(2)] by simp
  show ?thesis
  proof (cases "?n + 9 \<le> CalculatePackedSize h")
    case True
    then have "Encode source = Inr (dword_bytes ?n @ dword_bytes (?n + 9) @ 0 # source)"
      using n h(1) by (simp add: Encode_def Let_def MIN_HEADER_LENGTH_def min_def)
    moreover have "length source + 9 \<le> 8 + length ?t + (length ?e div 8 + 8)" using True n(2) size by (simp add: word_le_nat_alt)
    ultimately show ?thesis using h(2) by blast
  next
    case False
    then have less: "8 + length ?t + (length ?e div 8 + 8) < length source + 9" using n(2) size by (simp add: word_le_nat_alt)
    let ?start = "dword_bytes ?n @ dword_bytes (CalculatePackedSize h) @ ?t"
    obtain Y where Y: "WriteHuffmanEncoded h source (?start @ replicate (length ?e div 8 + 8) 0) (length ?start) = Some (?start @ Y)"
        "length Y = length ?e div 8 + 8" "bytes_val Y = lsb_val ?e" using WriteHuffmanEncoded_ok [OF h(2), of ?start] by blast
    have "unat (CalculatePackedSize h) - length ?start = length ?e div 8 + 8" "length source + 9 \<noteq> unat (CalculatePackedSize h)"
      using size less by simp_all
    then have "Encode source = Inr (?start @ Y)"
      using n h(1) False Y(1) by (simp add: Encode_def Let_def MIN_HEADER_LENGTH_def min_def)
    moreover have "CalculatePackedSize h = of_nat (8 + length ?t + length Y)"
      unfolding Y(2) size [symmetric] by simp
    ultimately show ?thesis using h(2) Y(2,3) less by (metis append_assoc)
  qed
qed

end
