(* ===== verification/HuffmanDecoder.thy ===== *)
theory HuffmanDecoder
  imports HuffmanEncoder
begin

section \<open>Huffman decoder (src/LogCache/Streams/HuffmanDecoder)\<close>

text \<open>
  The input buffer holds the memory from the current position on and the number of bytes that may be
  taken from it; the memory goes on behind them.  The output buffer is what was written and the room left.
\<close>

record input_buffer =
  ib_current :: "byte list"
  ib_remaining :: nat

record output_buffer =
  ob_written :: "byte list"
  ob_remaining :: nat

definition ib_GetData :: "nat \<Rightarrow> input_buffer \<Rightarrow> stream_error + byte list \<times> input_buffer" where
  "ib_GetData len b =
     (if ib_remaining b < len then Inl (CStreamException ''corrupted huffman stream'')
      else Inr (ib_current b, b\<lparr>ib_current := drop len (ib_current b), ib_remaining := ib_remaining b - len\<rparr>))"

definition ib_GetByte :: "input_buffer \<Rightarrow> stream_error + byte \<times> input_buffer" where
  "ib_GetByte b =
     bindE (ib_GetData 1 b) (\<lambda>(p, b). case p of [] \<Rightarrow> Inl UndefinedRead | c # _ \<Rightarrow> Inr (c, b))"

definition ib_PeekByte :: "input_buffer \<Rightarrow> stream_error + byte" where
  "ib_PeekByte b =
     (if ib_remaining b < 1 then Inl (CStreamException ''corrupted huffman stream'')
      else case ib_current b of [] \<Rightarrow> Inl UndefinedRead | c # _ \<Rightarrow> Inr c)"

fun bytes_dword :: "byte list \<Rightarrow> dword" where
  "bytes_dword [] = 0"
| "bytes_dword (b # bs) = ucast b + push_bit 8 (bytes_dword bs)"

definition ib_GetDWORD :: "input_buffer \<Rightarrow> stream_error + dword \<times> input_buffer" where
  "ib_GetDWORD b =
     bindE (ib_GetData 4 b) (\<lambda>(p, b). if length p < 4 then Inl UndefinedRead else Inr (bytes_dword (take 4 p), b))"

definition ob_GetBuffer :: "nat \<Rightarrow> output_buffer \<Rightarrow> stream_error + output_buffer" where
  "ob_GetBuffer len t =
     (if ob_remaining t < len then Inl (CStreamException ''huffman buffer overflow'')
      else Inr (t\<lparr>ob_remaining := ob_remaining t - len\<rparr>))"

subsection \<open>The decoding table\<close>

record huffman_decoder =
  hd_value :: "byte list"
  hd_length :: "byte list"

definition huffman_decoder_init :: huffman_decoder where
  "huffman_decoder_init =
     \<lparr>hd_value = replicate (2 ^ MAX_ENCODING_LENGTH) 0, hd_length = replicate (2 ^ MAX_ENCODING_LENGTH) 0\<rparr>"

fun ib_GetBytes :: "nat \<Rightarrow> input_buffer \<Rightarrow> stream_error + byte list \<times> input_buffer" where
  "ib_GetBytes 0 b = Inr ([], b)"
| "ib_GetBytes (Suc n) b =
     bindE (ib_GetByte b) (\<lambda>(c, b). bindE (ib_GetBytes n b) (\<lambda>(cs, b). Inr (c # cs, b)))"

definition unpack_lengths :: "byte list \<Rightarrow> byte list" where
  "unpack_lengths bs = concat (map (\<lambda>b. [b AND 0x0f, b div 0x10]) bs)"

fun rebuild_keys :: "16 word \<Rightarrow> nat \<Rightarrow> nat list \<Rightarrow> 16 word list" where
  "rebuild_keys currentKey prevKeyLength [] = []"
| "rebuild_keys currentKey prevKeyLength (thisKeylength # lengths) =
     (let currentKey = currentKey + 1;
          currentKey = (if prevKeyLength < thisKeylength then push_bit (thisKeylength - prevKeyLength) currentKey
                        else drop_bit (prevKeyLength - thisKeylength) currentKey)
      in ReverseBits currentKey thisKeylength # rebuild_keys currentKey thisKeylength lengths)"

function fill_entry :: "byte \<Rightarrow> byte \<Rightarrow> nat \<Rightarrow> huffman_decoder \<Rightarrow> huffman_decoder" where
  "fill_entry v l k t =
     (if k < 2 ^ MAX_ENCODING_LENGTH
      then fill_entry v l (k + 2 ^ unat l) (t\<lparr>hd_value := (hd_value t)[k := v], hd_length := (hd_length t)[k := l]\<rparr>)
      else t)"
  by pat_completeness auto
termination
  by (relation "measure (\<lambda>(v, l, k, t). 2 ^ MAX_ENCODING_LENGTH - k)") (auto intro: diff_less_mono2)

declare fill_entry.simps [simp del]

fun fill_table :: "(byte \<times> byte \<times> 16 word) list \<Rightarrow> huffman_decoder \<Rightarrow> huffman_decoder" where
  "fill_table [] t = t"
| "fill_table ((v, l, key) # es) t = fill_table es (fill_entry v l (unat key) t)"

definition BuildDecodeTable :: "input_buffer \<Rightarrow> huffman_decoder \<Rightarrow> stream_error + huffman_decoder \<times> input_buffer" where
  "BuildDecodeTable source t =
     bindE (ib_GetByte source) (\<lambda>(c, source).
     let entryCount = (if c = 0 then BUCKET_COUNT else unat c) in
     bindE (ib_GetBytes entryCount source) (\<lambda>(values, source).
     bindE (ib_GetBytes ((entryCount + 1) div 2) source) (\<lambda>(packed, source).
     let keyLength = take entryCount (unpack_lengths packed);
         keys = 0 # rebuild_keys 0 (unat (hd keyLength)) (map unat (tl keyLength))
     in Inr (fill_table (zip values (zip keyLength keys)) t, source))))"

subsection \<open>Decoding\<close>

definition read_qword :: "byte list \<Rightarrow> nat \<Rightarrow> 64 word option" where
  "read_qword mem p = (if p + 8 \<le> length mem then Some (bytes_qword (take 8 (drop p mem))) else None)"

definition decode_symbol :: "huffman_decoder \<Rightarrow> 64 word \<Rightarrow> byte \<Rightarrow> byte \<times> 64 word \<times> byte" where
  "decode_symbol t code bits =
     (let i = unat (code AND (2 ^ MAX_ENCODING_LENGTH - 1)); keyLength = hd_length t ! i
      in (hd_value t ! i, drop_bit (unat keyLength) code, bits - keyLength))"

text \<open>
  Four symbols per round: the cached code takes in the codes fetched before, and the next ones are
  fetched at the first byte that the cache does not hold completely.  A shift by 64 or more is undefined.
\<close>

fun decode_blocks ::
    "huffman_decoder \<Rightarrow> byte list \<Rightarrow> nat \<Rightarrow> nat \<Rightarrow> 64 word \<Rightarrow> byte \<Rightarrow> 64 word \<Rightarrow> byte list \<Rightarrow>
     (64 word \<times> byte \<times> 64 word \<times> byte list) option" where
  "decode_blocks t mem 0 first cachedCode cachedBits nextCodes dest = Some (cachedCode, cachedBits, nextCodes, dest)"
| "decode_blocks t mem (Suc n) first cachedCode cachedBits nextCodes dest =
     (if unat cachedBits \<ge> 64 then None
      else
        let cachedCode = cachedCode OR push_bit (unat cachedBits) nextCodes;
            first = first + (63 - unat cachedBits) div 8;
            cachedBits = cachedBits OR 56;
            (b0, cachedCode, cachedBits) = decode_symbol t cachedCode cachedBits;
            (b1, cachedCode, cachedBits) = decode_symbol t cachedCode cachedBits
        in case read_qword mem first of
             None \<Rightarrow> None
           | Some nextCodes \<Rightarrow>
               let (b2, cachedCode, cachedBits) = decode_symbol t cachedCode cachedBits;
                   (b3, cachedCode, cachedBits) = decode_symbol t cachedCode cachedBits
               in decode_blocks t mem n first cachedCode cachedBits nextCodes (dest @ [b0, b1, b2, b3]))"

fun decode_odd :: "huffman_decoder \<Rightarrow> nat \<Rightarrow> 64 word \<Rightarrow> byte list \<Rightarrow> byte list" where
  "decode_odd t 0 cachedCode dest = dest"
| "decode_odd t (Suc n) cachedCode dest =
     (let (b, cachedCode, _) = decode_symbol t cachedCode 0 in decode_odd t n cachedCode (dest @ [b]))"

definition WriteDecodedStream ::
    "huffman_decoder \<Rightarrow> byte list \<Rightarrow> output_buffer \<Rightarrow> dword \<Rightarrow> stream_error + output_buffer" where
  "WriteDecodedStream t mem target decodedSize =
     bindE (ob_GetBuffer (unat decodedSize) target) (\<lambda>target.
     case read_qword mem 0 of
       None \<Rightarrow> Inl UndefinedRead
     | Some nextCodes \<Rightarrow>
         (case decode_blocks t mem (unat decodedSize div 4) 0 0 0 nextCodes [] of
            None \<Rightarrow> Inl UndefinedRead
          | Some (cachedCode, cachedBits, nextCodes, dest) \<Rightarrow>
              if unat cachedBits \<ge> 64 then Inl UndefinedRead
              else Inr (target\<lparr>ob_written := ob_written target @
                     decode_odd t (unat decodedSize mod 4) (cachedCode OR push_bit (unat cachedBits) nextCodes) dest\<rparr>)))"

definition Decode ::
    "input_buffer \<Rightarrow> output_buffer \<Rightarrow> huffman_decoder \<Rightarrow> stream_error + input_buffer \<times> output_buffer \<times> huffman_decoder" where
  "Decode source target t =
     (let totalSourceLen = ib_remaining source in
      bindE (ib_GetDWORD source) (\<lambda>(decodedSize, source).
      bindE (ib_GetDWORD source) (\<lambda>(encodedSize, source).
      if decodedSize = 0 then Inr (source, target, t)
      else
        bindE (if encodedSize = decodedSize + of_nat MIN_HEADER_LENGTH
               then map_sum id (\<lambda>c. c = 0) (ib_PeekByte source) else Inr False) (\<lambda>unpacked.
        if unpacked
        then
          bindE (ib_GetByte source) (\<lambda>(_, source).
          bindE (ob_GetBuffer (unat decodedSize) target) (\<lambda>target.
          bindE (ib_GetData (unat decodedSize) source) (\<lambda>(p, source).
            Inr (source, target\<lparr>ob_written := ob_written target @ take (unat decodedSize) p\<rparr>, t))))
        else
          bindE (BuildDecodeTable source t) (\<lambda>(t, source).
          let headerLen = totalSourceLen - ib_remaining source in
          if unat encodedSize < headerLen then Inl (CStreamException ''corrupted huffman stream'')
          else
            bindE (ib_GetData (unat encodedSize - headerLen) source) (\<lambda>(p, source).
            bindE (WriteDecodedStream t p target decodedSize) (\<lambda>target.
              Inr (source, target, t))))))))"

subsection \<open>Reading bytes\<close>

lemma ib_GetByte_Cons:
  "ib_current b = c # rest \<Longrightarrow> 0 < ib_remaining b \<Longrightarrow>
   ib_GetByte b = Inr (c, b\<lparr>ib_current := rest, ib_remaining := ib_remaining b - 1\<rparr>)"
  by (simp add: ib_GetByte_def ib_GetData_def)

lemma ib_GetBytes_append:
  "ib_current b = xs @ rest \<Longrightarrow> length xs \<le> ib_remaining b \<Longrightarrow>
   ib_GetBytes (length xs) b = Inr (xs, b\<lparr>ib_current := rest, ib_remaining := ib_remaining b - length xs\<rparr>)"
proof (induction xs arbitrary: b)
  case (Cons x xs)
  then show ?case by (simp add: ib_GetByte_Cons)
qed simp

lemma unat_byte_step:
  assumes "16 \<le> LENGTH('i)"
  shows "unat (ucast (b :: byte) + push_bit 8 w :: 'i::len word) = (unat b + 2 ^ 8 * unat w) mod 2 ^ LENGTH('i)"
proof -
  have "(2 :: nat) ^ 8 < 2 ^ LENGTH('i)" using assms by (intro power_strict_increasing) auto
  then have "unat b < 2 ^ LENGTH('i)" using unat_byte [of b] by (intro less_trans [OF unat_byte]) simp
  then have "unat (ucast b :: 'i word) = unat b" by (simp add: unsigned_ucast_eq take_bit_nat_eq_self)
  then show ?thesis unfolding unat_word_ariths(1) unsigned_push_bit_eq take_bit_eq_mod
    by (simp add: push_bit_eq_mult mod_simps mult.commute)
qed

lemma bytes_val_mod_step: "(unat b + 2 ^ 8 * (bytes_val bs mod n)) mod n = bytes_val (b # bs) mod n"
  by (simp add: mod_add_right_eq mod_mult_right_eq) (metis mod_add_right_eq mod_mult_right_eq)

lemma unat_bytes_dword: "unat (bytes_dword bs) = bytes_val bs mod 2 ^ 32"
proof (induction bs)
  case (Cons b bs)
  show ?case unfolding bytes_dword.simps using unat_byte_step [where 'i = 32, of b "bytes_dword bs"] bytes_val_mod_step [of b bs "2 ^ 32"]
    unfolding Cons by simp
qed simp

lemma bytes_dword_bytes: "bytes_dword (dword_bytes v) = v"
  unfolding word_unat_eq_iff unat_bytes_dword dword_bytes_def bytes_val_digits
  using unat_bound [of v] by (simp add: take_bit_eq_mod)

lemma ib_GetDWORD_append:
  "ib_current b = dword_bytes v @ rest \<Longrightarrow> 4 \<le> ib_remaining b \<Longrightarrow>
   ib_GetDWORD b = Inr (v, b\<lparr>ib_current := rest, ib_remaining := ib_remaining b - 4\<rparr>)"
  by (simp add: ib_GetDWORD_def ib_GetData_def bytes_dword_bytes)

lemma unat_bytes_qword: "length bs \<le> 8 \<Longrightarrow> unat (bytes_qword bs) = bytes_val bs"
proof -
  have "unat (bytes_qword bs) = bytes_val bs mod 2 ^ 64" for bs
  proof (induction bs)
    case (Cons b bs)
    show ?case unfolding bytes_qword.simps using unat_byte_step [where 'i = 64, of b "bytes_qword bs"] bytes_val_mod_step [of b bs "2 ^ 64"]
      unfolding Cons by simp
  qed simp
  moreover assume "length bs \<le> 8"
  then have "bytes_val bs < 2 ^ 64" using bytes_val_less [of bs] power_increasing [of "8 * length bs" 64 "2 :: nat"] by simp
  ultimately show ?thesis by simp
qed

subsection \<open>The table\<close>

lemma keyLength_small: "huffman_ok h source P \<Longrightarrow> he_keyLength h ! unat (b :: byte) \<le> 12"
proof (cases "b \<in> set source")
  case True
  assume "huffman_ok h source P"
  then show ?thesis using path_of_ok(1,4) [of h source P b] True by (simp add: word_le_nat_alt)
qed (simp add: huffman_ok_def)

lemma nibbles:
  assumes "a \<le> (12 :: byte)" "b \<le> 12"
  shows "(a + b * 0x10) AND 0x0f = a" "(a + b * 0x10) div 0x10 = b"
proof -
  have n: "unat a \<le> 12" "unat b \<le> 12" using assms by (simp_all add: word_le_nat_alt)
  then have u: "unat (a + b * 0x10) = unat a + 16 * unat b" by (simp add: unat_word_ariths)
  have "(0x0f :: byte) = mask 4" by (simp add: mask_eq_exp_minus_1)
  then have "(a + b * 0x10) AND 0x0f = take_bit 4 (a + b * 0x10)" by (simp add: take_bit_eq_mask)
  also have "\<dots> = a" unfolding word_unat_eq_iff using u n by (simp only: unsigned_take_bit_eq) (simp add: take_bit_eq_mod)
  finally show "(a + b * 0x10) AND 0x0f = a" .
  show "(a + b * 0x10) div 0x10 = b" unfolding word_unat_eq_iff using u n by (simp add: unat_div)
qed

lemma unpack_table_lengths:
  assumes "huffman_ok h source P"
  shows "unpack_lengths (table_lengths h (map (\<lambda>k. 2 * k) [0..<m])) = map (\<lambda>i. he_keyLength h ! unat (he_sorted h ! i)) [0..<2 * m]"
proof -
  have t: "table_lengths h is = map (\<lambda>i. he_keyLength h ! unat (he_sorted h ! i) + he_keyLength h ! unat (he_sorted h ! (i + 1)) * 0x10) is" for "is"
    by (induction "is") auto
  have "unpack_lengths (table_lengths h is) = concat (map (\<lambda>i. [he_keyLength h ! unat (he_sorted h ! i), he_keyLength h ! unat (he_sorted h ! (i + 1))]) is)" for "is"
    using nibbles [OF keyLength_small [OF assms] keyLength_small [OF assms]] by (simp add: unpack_lengths_def t comp_def)
  moreover have "concat (map (\<lambda>i. [f i, f (i + 1)]) (map (\<lambda>k. 2 * k) [0..<m])) = map f [0..<2 * m]" for f :: "nat \<Rightarrow> byte"
    by (induction m) auto
  ultimately show ?thesis by simp
qed

lemma neighbours_step:
  assumes "neighbours p q" "length p \<le> 12" "length q \<le> 12"
  defines "k \<equiv> (of_nat (msb_val p) + 1 :: 16 word)"
  shows "(if length p < length q then push_bit (length q - length p) k else drop_bit (length p - length q) k) = of_nat (msb_val q)"
proof -
  obtain c a b where pq: "p = c @ False # replicate a True" "q = c @ True # replicate b False" using assms(1) by (auto simp: neighbours_def)
  have mp: "msb_val p + 1 = (2 * msb_val c + 1) * 2 ^ a"
    using msb_val_replicate(2) [of a] unfolding pq by (simp add: msb_val_append [of "c @ [False]", simplified] algebra_simps)
  have mq: "msb_val q = (2 * msb_val c + 1) * 2 ^ b"
    unfolding pq by (simp add: msb_val_append [of "c @ [True]", simplified] msb_val_replicate algebra_simps)
  have l: "length p = length c + 1 + a" "length q = length c + 1 + b" by (simp_all add: pq)
  have less: "msb_val p + 1 \<le> 2 ^ 12" "msb_val q < 2 ^ 12"
    using msb_val_less [of p] msb_val_less [of q] power_increasing [OF assms(2), of "2 :: nat"] power_increasing [OF assms(3), of "2 :: nat"] by linarith+
  have k: "unat k = msb_val p + 1" unfolding k_def using less(1) by (simp add: unat_word_ariths unat_of_nat_small)
  show ?thesis
  proof (cases "length p < length q")
    case True
    then have "(2 :: nat) ^ b = 2 ^ (length q - length p) * 2 ^ a" unfolding l power_add [symmetric] by simp
    then have "msb_val q = 2 ^ (length q - length p) * (msb_val p + 1)" unfolding mp mq by (simp add: algebra_simps)
    then have "(of_nat (msb_val q) :: 16 word) = 2 ^ (length q - length p) * k" unfolding k_def by (simp add: algebra_simps)
    then show ?thesis using True by (simp add: push_bit_eq_mult mult.commute)
  next
    case False
    then have "(2 :: nat) ^ a = 2 ^ (length p - length q) * 2 ^ b" unfolding l power_add [symmetric] by simp
    then have "msb_val p + 1 = 2 ^ (length p - length q) * msb_val q" unfolding mp mq by (simp add: algebra_simps)
    then have "unat (drop_bit (length p - length q) k) = msb_val q" unfolding unat_drop_bit_div k by simp
    then show ?thesis using False less(2) by (simp add: word_unat_eq_iff unat_of_nat_small)
qed
qed

lemma rebuild_keys_ok:
  assumes "\<And>i. Suc i < length (p # Q) \<Longrightarrow> neighbours ((p # Q) ! i) ((p # Q) ! Suc i)" "\<forall>p \<in> set (p # Q). length p \<le> 12"
  shows "rebuild_keys (of_nat (msb_val p)) (length p) (map length Q) = map (\<lambda>p. of_nat (lsb_val p)) Q"
  using assms
proof (induction Q arbitrary: p)
  case (Cons q Q)
  have n: "neighbours p q" using Cons.prems(1) [of 0] by simp
  have "rebuild_keys (of_nat (msb_val q)) (length q) (map length Q) = map (\<lambda>p. of_nat (lsb_val p)) Q"
    using Cons.prems(1) [of "Suc i" for i] Cons.prems(2) by (intro Cons.IH) auto
  then show ?case using neighbours_step [OF n] Cons.prems(2) ReverseBits_ok [of q] by (simp add: Let_def)
qed simp

definition tables_ok :: "huffman_decoder \<Rightarrow> bool" where
  "tables_ok t \<longleftrightarrow> length (hd_value t) = 4096 \<and> length (hd_length t) = 4096"

lemma fill_entry_ok:
  "tables_ok t \<Longrightarrow> tables_ok (fill_entry v l k t) \<and> (\<forall>i < 4096.
     hd_value (fill_entry v l k t) ! i = (if k \<le> i \<and> (i - k) mod 2 ^ unat l = 0 then v else hd_value t ! i) \<and>
     hd_length (fill_entry v l k t) ! i = (if k \<le> i \<and> (i - k) mod 2 ^ unat l = 0 then l else hd_length t ! i))"
proof (induction v l k t rule: fill_entry.induct)
  case (1 v l k t)
  let ?t = "t\<lparr>hd_value := (hd_value t)[k := v], hd_length := (hd_length t)[k := l]\<rparr>" and ?d = "2 ^ unat l :: nat"
  show ?case
  proof (cases "k < 4096")
    case True
    have t: "tables_ok ?t" using 1(2) by (simp add: tables_ok_def)
    have e: "fill_entry v l k t = fill_entry v l (k + ?d) ?t" using True by (simp add: fill_entry.simps [of v l k] MAX_ENCODING_LENGTH_def)
    have step: "(k \<le> i \<and> (i - k) mod ?d = 0) = (i = k \<or> k + ?d \<le> i \<and> (i - (k + ?d)) mod ?d = 0)" for i
    proof (cases "k + ?d \<le> i")
      case True
      then have "(i - k) mod ?d = (i - (k + ?d)) mod ?d" by (metis le_mod_geq diff_diff_left le_diff_conv2 add.commute add_leD1)
      then show ?thesis using True by auto
    next
      case False
      then show ?thesis by (auto simp: not_le intro!: mod_less dest: dvd_imp_le)
    qed
    show ?thesis using 1(1) [OF _ t] True 1(2) unfolding e step
      by (auto simp: MAX_ENCODING_LENGTH_def tables_ok_def nth_list_update)
  qed (use 1(2) in \<open>auto simp: fill_entry.simps MAX_ENCODING_LENGTH_def\<close>)
qed

text \<open>An entry holds at an index when the index starts with the key.\<close>

definition entry_at :: "byte \<times> byte \<times> 16 word \<Rightarrow> nat \<Rightarrow> bool" where
  "entry_at e i \<longleftrightarrow> take_bit (unat (fst (snd e))) i = unat (snd (snd e))"

lemma entry_at_iff:
  assumes "unat key < 2 ^ unat l"
  shows "entry_at (v, l, key) i \<longleftrightarrow> unat key \<le> i \<and> (i - unat key) mod 2 ^ unat l = 0"
proof -
  have "i mod 2 ^ unat l = unat key \<longleftrightarrow> unat key \<le> i \<and> (i - unat key) mod 2 ^ unat l = 0" (is "?a = ?b")
  proof
    assume ?a
    then show ?b by (metis mod_less_eq_dividend minus_mod_eq_mult_div mod_mult_self1_is_0)
  next
    assume ?b
    then have "i mod 2 ^ unat l = (unat key + (i - unat key)) mod 2 ^ unat l" by simp
    also have "\<dots> = unat key" using \<open>?b\<close> assms by (metis add.right_neutral mod_add_right_eq mod_less)
    finally show ?a .
qed
  then show ?thesis by (simp add: entry_at_def take_bit_eq_mod)
qed

lemma fill_table_ok:
  assumes "tables_ok t" "\<forall>(v, l, key) \<in> set es. unat key < 2 ^ unat l" "i < 4096"
    "\<And>e e'. e \<in> set es \<Longrightarrow> e' \<in> set es \<Longrightarrow> entry_at e i \<Longrightarrow> entry_at e' i \<Longrightarrow> e = e'"
  shows "tables_ok (fill_table es t) \<and>
    (\<forall>v l key. (v, l, key) \<in> set es \<longrightarrow> entry_at (v, l, key) i \<longrightarrow> hd_value (fill_table es t) ! i = v \<and> hd_length (fill_table es t) ! i = l) \<and>
    ((\<forall>e \<in> set es. \<not> entry_at e i) \<longrightarrow>
       hd_value (fill_table es t) ! i = hd_value t ! i \<and> hd_length (fill_table es t) ! i = hd_length t ! i)"
  using assms
proof (induction es arbitrary: t)
  case (Cons e es)
  obtain v l key where e: "e = (v, l, key)" by (cases e)
  let ?t = "fill_entry v l (unat key) t"
  have f: "tables_ok ?t" "hd_value ?t ! i = (if entry_at e i then v else hd_value t ! i)"
      "hd_length ?t ! i = (if entry_at e i then l else hd_length t ! i)"
    using fill_entry_ok [OF Cons.prems(1), of v l "unat key"] Cons.prems(2,3) entry_at_iff [of key l v i] unfolding e by auto
  note IH = Cons.IH [OF f(1) _ Cons.prems(3)]
  have "\<And>e e'. e \<in> set es \<Longrightarrow> e' \<in> set es \<Longrightarrow> entry_at e i \<Longrightarrow> entry_at e' i \<Longrightarrow> e = e'" using Cons.prems(4) by auto
  then have ih: "tables_ok (fill_table es ?t)"
    "\<And>v l key. (v, l, key) \<in> set es \<Longrightarrow> entry_at (v, l, key) i \<Longrightarrow> hd_value (fill_table es ?t) ! i = v \<and> hd_length (fill_table es ?t) ! i = l"
    "(\<forall>e \<in> set es. \<not> entry_at e i) \<Longrightarrow> hd_value (fill_table es ?t) ! i = hd_value ?t ! i \<and> hd_length (fill_table es ?t) ! i = hd_length ?t ! i"
    using IH Cons.prems(2) by auto
  have ft: "fill_table (e # es) t = fill_table es ?t" by (simp add: e)
  have here: "hd_value (fill_table es ?t) ! i = v \<and> hd_length (fill_table es ?t) ! i = l" if "entry_at e i"
  proof (cases "e \<in> set es")
    case True
    then show ?thesis using ih(2) that e by blast
  next
    case False
    then have "\<forall>e' \<in> set es. \<not> entry_at e' i" using Cons.prems(4) [of e] that by auto
    then show ?thesis using ih(3) f that by simp
qed
  show ?case unfolding ft using ih here f e by auto
qed simp

definition table_ok :: "huffman_decoder \<Rightarrow> huffman_encoder \<Rightarrow> bool list list \<Rightarrow> byte list \<Rightarrow> bool" where
  "table_ok t h P source \<longleftrightarrow> (\<forall>b \<in> set source. \<forall>i < 4096. take_bit (length (path_of h P b)) i = lsb_val (path_of h P b) \<longrightarrow>
     hd_value t ! i = b \<and> hd_length t ! i = of_nat (length (path_of h P b)))"

lemma lsb_val_inj: "length p = length q \<Longrightarrow> lsb_val p = lsb_val q \<Longrightarrow> p = q"
proof (induction p q rule: list_induct2)
  case (Cons x p y q)
  have "of_bool x + 2 * lsb_val p = of_bool y + 2 * lsb_val q" using Cons.prems by simp
  moreover from arg_cong [OF this, of odd] have "x = y" by simp
  ultimately show ?case using Cons.IH by simp
qed simp

lemma prefix_lsb:
  assumes "take_bit (length p) i = lsb_val p" "take_bit (length q) i = lsb_val q" "length p \<le> length q"
  shows "take (length p) q = p"
proof -
  have "lsb_val (take (length p) q) = take_bit (length p) (take_bit (length q) i)" unfolding lsb_val_take assms(2) ..
  also have "\<dots> = lsb_val p" using assms(1,3) by (simp add: min_def)
  finally show ?thesis using assms(3) by (intro lsb_val_inj) auto
qed

lemma code_paths_unique:
  assumes "code_paths P" "i < length P" "j < length P" "take_bit (length (P ! i)) n = lsb_val (P ! i)" "take_bit (length (P ! j)) n = lsb_val (P ! j)"
  shows "i = j"
  using prefix_lsb [OF assms(4,5)] prefix_lsb [OF assms(5,4)] code_paths_prefix_free [OF assms(1)] assms(2,3)
  by (metis nat_le_linear)

definition table_entries :: "huffman_encoder \<Rightarrow> bool list list \<Rightarrow> (byte \<times> byte \<times> 16 word) list" where
  "table_entries h P = zip (symbols h) (zip (map (\<lambda>p. of_nat (length p)) P) (map (\<lambda>p. of_nat (lsb_val p)) P))"

lemma fill_table_entries:
  assumes ok: "huffman_ok h source P" and t: "tables_ok t"
  shows "tables_ok (fill_table (table_entries h P) t)" "table_ok (fill_table (table_entries h P) t) h P source"
proof -
  have len: "length (symbols h) = length P" "\<And>p. p \<in> set P \<Longrightarrow> length p \<le> 12" and cp: "code_paths P"
    and set: "set (symbols h) = set source"
    using ok by (auto simp: huffman_ok_def keys_ok_def MAX_ENCODING_LENGTH_def)
  have u: "unat (of_nat (length p) :: byte) = length p" "unat (of_nat (lsb_val p) :: 16 word) = lsb_val p" if "p \<in> set P" for p
    using len(2) [OF that] lsb_val_less [of p] power_increasing [OF len(2) [OF that], of "2 :: nat"] by (auto simp: unat_of_nat_small)
  have mem: "e \<in> set (table_entries h P) \<longleftrightarrow> (\<exists>j < length P. e = (symbols h ! j, of_nat (length (P ! j)), of_nat (lsb_val (P ! j))))" for e
    using len(1) by (auto simp: table_entries_def set_zip)
  have at: "entry_at (v, of_nat (length (P ! j)), of_nat (lsb_val (P ! j))) i \<longleftrightarrow> take_bit (length (P ! j)) i = lsb_val (P ! j)"
    if "j < length P" for v j i
    using u [of "P ! j"] that by (simp add: entry_at_def)
  have F: "tables_ok (fill_table (table_entries h P) t) \<and>
    (\<forall>v l key. (v, l, key) \<in> set (table_entries h P) \<longrightarrow> entry_at (v, l, key) i \<longrightarrow>
       hd_value (fill_table (table_entries h P) t) ! i = v \<and> hd_length (fill_table (table_entries h P) t) ! i = l)" if i: "i < 4096" for i
  proof -
    have "\<forall>(v, l, key) \<in> set (table_entries h P). unat key < 2 ^ unat l"
      using u lsb_val_less by (auto simp: mem)
    moreover have "e = e'" if "e \<in> set (table_entries h P)" "e' \<in> set (table_entries h P)" "entry_at e i" "entry_at e' i" for e e'
      using that code_paths_unique [OF cp, of _ _ i] at unfolding mem by metis
    ultimately show ?thesis using fill_table_ok [OF t _ i, of "table_entries h P"] by blast
qed
  show "tables_ok (fill_table (table_entries h P) t)" using F [of 0] by simp
  show "table_ok (fill_table (table_entries h P) t) h P source"
    unfolding table_ok_def
  proof (intro ballI allI impI)
    fix b i assume b: "b \<in> set source" "i < 4096" "take_bit (length (path_of h P b)) i = lsb_val (path_of h P b)"
    then obtain j where j: "j < length P" "b = symbols h ! j" using set len(1) by (metis in_set_conv_nth)
    then have "path_of h P b = P ! j" using path_of_nth [OF ok] by simp
    then show "hd_value (fill_table (table_entries h P) t) ! i = b \<and>
        hd_length (fill_table (table_entries h P) t) ! i = of_nat (length (path_of h P b))"
      using F [OF b(2)] mem [of "(symbols h ! j, of_nat (length (P ! j)), of_nat (lsb_val (P ! j)))"] at [OF j(1)] j b(3) by fastforce
qed
qed

lemma BuildDecodeTable_ok:
  assumes ok: "huffman_ok h source P" "source \<noteq> []" and b: "ib_current b = WriteHuffmanTable h @ rest" "length (WriteHuffmanTable h) \<le> ib_remaining b"
  shows "BuildDecodeTable b t = Inr (fill_table (table_entries h P) t,
    b\<lparr>ib_current := rest, ib_remaining := ib_remaining b - length (WriteHuffmanTable h)\<rparr>)"
proof -
  let ?s = "he_sortedCount h" and ?m = "(he_sortedCount h + 1) div 2"
  let ?L = "table_lengths h (map (\<lambda>k. 2 * k) [0..<?m])"
  have h: "length (symbols h) = ?s" "length P = ?s" "length (he_sorted h) = 256" "set (symbols h) = set source" and cp: "code_paths P"
    and l12: "\<forall>p \<in> set P. length p \<le> 12"
    using ok by (auto simp: huffman_ok_def keys_ok_def BUCKET_COUNT_def MAX_ENCODING_LENGTH_def)
  have s: "0 < ?s" "?s \<le> 256" using h ok(2) by (auto simp: symbols_def intro!: Nat.gr0I)
  have table: "WriteHuffmanTable h = of_nat ?s # symbols h @ ?L" by (simp add: WriteHuffmanTable_def symbols_def)
  have count: "(if (of_nat ?s :: byte) = 0 then BUCKET_COUNT else unat (of_nat ?s :: byte)) = ?s"
    using s by (cases "?s = 256") (auto simp: BUCKET_COUNT_def unat_of_nat_small word_unat_eq_iff)
  let ?b1 = "b\<lparr>ib_current := symbols h @ ?L @ rest, ib_remaining := ib_remaining b - 1\<rparr>"
  let ?b2 = "?b1\<lparr>ib_current := ?L @ rest, ib_remaining := ib_remaining b - 1 - ?s\<rparr>"
  have g1: "ib_GetByte b = Inr (of_nat ?s, ?b1)" using b table by (intro ib_GetByte_Cons) auto
  have g2: "ib_GetBytes ?s ?b1 = Inr (symbols h, ?b2)" using ib_GetBytes_append [of ?b1 "symbols h" "?L @ rest"] b table h(1) by simp
  have g3: "ib_GetBytes ?m ?b2 = Inr (?L, b\<lparr>ib_current := rest, ib_remaining := ib_remaining b - 1 - ?s - ?m\<rparr>)"
    using ib_GetBytes_append [of ?b2 ?L rest] b table h(1) by simp
  have "take ?s (unpack_lengths ?L) = map (\<lambda>i. he_keyLength h ! unat (he_sorted h ! i)) [0..<?s]"
    unfolding unpack_table_lengths [OF ok(1)] by (simp add: take_map min_def)
  also have "\<dots> = map (\<lambda>i. he_keyLength h ! unat (symbols h ! i)) [0..<?s]" using s by (intro map_cong) (auto simp: symbols_def)
  also have "\<dots> = map (\<lambda>p. of_nat (length p)) P"
    using ok(1) h(1,2) by (intro nth_equalityI) (auto simp: huffman_ok_def keys_ok_def)
  finally have lens: "take ?s (unpack_lengths ?L) = map (\<lambda>p. of_nat (length p)) P" .
  obtain p Q where P: "P = p # Q" using h(2) s by (cases P) auto
  obtain a where a: "p = replicate a False" using code_paths_hd_last [OF cp] P by auto
  have l0: "lsb_val (replicate n False) = 0" for n by (induction n) auto
  have ul: "unat (of_nat (length p) :: byte) = length p" if "p \<in> set P" for p using l12 that by (force simp: unat_of_nat_small)
  have "rebuild_keys (of_nat (msb_val p)) (length p) (map length Q) = map (\<lambda>p. of_nat (lsb_val p)) Q"
    using code_paths_neighbours [OF cp] l12 unfolding P by (intro rebuild_keys_ok) auto
  moreover have "msb_val p = 0" "lsb_val p = 0" by (simp_all add: a msb_val_replicate l0)
  ultimately have rk: "rebuild_keys 0 (length p) (map length Q) = map (\<lambda>p. of_nat (lsb_val p)) Q" "lsb_val p = 0" by simp_all
  let ?K = "map (\<lambda>p. of_nat (length p) :: byte) P"
  have K: "map unat (tl ?K) = map length Q" "unat (hd ?K) = length p" using ul by (simp_all add: P)
  have keys: "0 # rebuild_keys 0 (unat (hd ?K)) (map unat (tl ?K)) = map (\<lambda>p. of_nat (lsb_val p)) P"
    unfolding K rk(1) using rk(2) by (simp add: P)
  have "length (WriteHuffmanTable h) = 1 + ?s + ?m" using table h(1) by simp
  then show ?thesis
    unfolding BuildDecodeTable_def g1 bindE.simps prod.case Let_def count g2 g3 lens keys table_entries_def by simp
qed

subsection \<open>Following the bit stream\<close>

definition stream_at :: "nat \<Rightarrow> nat \<Rightarrow> bool list \<Rightarrow> bool" where
  "stream_at V C p \<longleftrightarrow> take_bit (length p) (drop_bit C V) = lsb_val p"

lemma stream_at_append:
  assumes "stream_at V C (p @ q)"
  shows "stream_at V C p" "stream_at V (C + length p) q"
proof -
  have "lsb_val p = take_bit (length p) (take_bit (length (p @ q)) (drop_bit C V))"
    using lsb_val_take [of "length p" "p @ q"] assms by (simp add: stream_at_def)
  then show "stream_at V C p" by (simp add: stream_at_def min_def)
  have "lsb_val q = drop_bit (length p) (take_bit (length (p @ q)) (drop_bit C V))"
    using lsb_val_drop [of "length p" "p @ q"] assms by (simp add: stream_at_def)
  then show "stream_at V (C + length p) q" by (simp add: stream_at_def drop_bit_take_bit add.commute)
qed

lemma decode_symbol_ok:
  assumes t: "table_ok t h P source" and b: "b \<in> set source" and ok: "huffman_ok h source P"
    and code: "unat code = take_bit r (drop_bit C V)" "12 \<le> r" and s: "stream_at V C (path_of h P b)"
  shows "decode_symbol t code bits = (b, drop_bit (length (path_of h P b)) code, bits - of_nat (length (path_of h P b)))"
    "unat (drop_bit (length (path_of h P b)) code) = take_bit (r - length (path_of h P b)) (drop_bit (C + length (path_of h P b)) V)"
proof -
  let ?p = "path_of h P b"
  have l: "length ?p \<le> 12" by (rule path_of_ok(1) [OF ok b])
  have "(2 ^ MAX_ENCODING_LENGTH - 1 :: 64 word) = mask 12" by (simp add: mask_eq_exp_minus_1 MAX_ENCODING_LENGTH_def)
  then have "unat (code AND (2 ^ MAX_ENCODING_LENGTH - 1)) = take_bit 12 (unat code)"
    by (simp only: take_bit_eq_mask [symmetric] unsigned_take_bit_eq)
  then have i: "unat (code AND (2 ^ MAX_ENCODING_LENGTH - 1)) = take_bit 12 (drop_bit C V)" using code by simp
  have "take_bit (length ?p) (take_bit 12 (drop_bit C V)) = lsb_val ?p" using s l by (simp add: stream_at_def min_def)
  moreover have "take_bit 12 (drop_bit C V) < 4096" by (simp add: take_bit_eq_mod)
  ultimately have "hd_value t ! take_bit 12 (drop_bit C V) = b" "hd_length t ! take_bit 12 (drop_bit C V) = of_nat (length ?p)"
    using t b by (auto simp: table_ok_def)
  moreover have "unat (of_nat (length ?p) :: byte) = length ?p" using l by (simp add: unat_of_nat_small)
  ultimately show "decode_symbol t code bits = (b, drop_bit (length ?p) code, bits - of_nat (length ?p))"
    by (simp add: decode_symbol_def i Let_def)
  have "unat (drop_bit (length ?p) code) = drop_bit (length ?p) (take_bit r (drop_bit C V))"
    unfolding unat_drop_bit_div code(1) by (rule drop_bit_eq_div [symmetric])
  then show "unat (drop_bit (length ?p) code) = take_bit (r - length ?p) (drop_bit (C + length ?p) V)"
    by (simp add: drop_bit_take_bit add.commute)
qed

lemma bytes_val_slice: "bytes_val (take n (drop p mem)) = take_bit (8 * n) (drop_bit (8 * p) (bytes_val mem))"
proof -
  have d: "bytes_val (drop p mem) = drop_bit (8 * p) (bytes_val mem)" for p mem
  proof (cases "p \<le> length mem")
    case True
    then have "bytes_val mem = bytes_val (take p mem) + 2 ^ (8 * p) * bytes_val (drop p mem)"
      using bytes_val_append [of "take p mem" "drop p mem"] by simp
    then show ?thesis using bytes_val_less [of "take p mem"] True by (simp add: drop_bit_eq_div)
  next
    case False
    then have "bytes_val mem < 2 ^ (8 * p)"
      using bytes_val_less [of mem] power_increasing [of "8 * length mem" "8 * p" "2 :: nat"] by linarith
    then show ?thesis using False by (simp add: drop_bit_eq_div)
qed
  have t: "bytes_val (take n mem) = take_bit (8 * n) (bytes_val mem)" for mem
  proof (cases "n \<le> length mem")
    case True
    then have "bytes_val mem = bytes_val (take n mem) + 2 ^ (8 * n) * bytes_val (drop n mem)"
      using bytes_val_append [of "take n mem" "drop n mem"] by simp
    then show ?thesis using bytes_val_less [of "take n mem"] True by (simp add: take_bit_eq_mod)
  next
    case False
    then have "bytes_val mem < 2 ^ (8 * n)"
      using bytes_val_less [of mem] power_increasing [of "8 * length mem" "8 * n" "2 :: nat"] by linarith
    then show ?thesis using False by (simp add: take_bit_nat_eq_self)
qed
  show ?thesis unfolding t d ..
qed

lemma read_qword_ok:
  assumes "p + 8 \<le> length mem"
  obtains v where "read_qword mem p = Some v" "unat v = take_bit 64 (drop_bit (8 * p) (bytes_val mem))"
  using assms bytes_val_slice [of 8 p mem] unat_bytes_qword [of "take 8 (drop p mem)"] by (auto simp: read_qword_def)

lemma merge_bits:
  fixes X :: nat
  assumes "c \<le> r" "r \<le> 64"
  shows "or (take_bit r X) (take_bit 64 (push_bit c (take_bit 64 (drop_bit c X)))) = take_bit 64 X"
  using assms by (intro bit_eqI) (auto simp: bit_simps)

lemma merge_codes:
  assumes "unat (code :: 64 word) = take_bit r X" "unat (codes :: 64 word) = take_bit 64 (drop_bit c X)" "c \<le> r" "r \<le> 64"
  shows "unat (code OR push_bit c codes) = take_bit 64 X"
proof -
  have "unat (push_bit c codes) = take_bit 64 (push_bit c (unat codes))" unfolding unsigned_push_bit_eq by simp
  then show ?thesis unfolding unsigned_or_eq using merge_bits [OF assms(3,4), of X] assms(1,2) by simp
qed

lemma or_56: "c < (64 :: byte) \<Longrightarrow> unat (c OR 56) = 56 + unat c mod 8"
proof -
  have "list_all (\<lambda>c. or c 56 = 56 + c mod (8 :: nat)) [0..<64]" by code_simp
  moreover assume "c < 64"
  ultimately show ?thesis unfolding unsigned_or_eq by (simp add: list_all_iff word_less_nat_alt del: upt_rec_numeral)
qed

lemma decode_odd_ok:
  assumes t: "table_ok t h P source" and ok: "huffman_ok h source P"
  shows "set bs \<subseteq> set source \<Longrightarrow> unat code = take_bit r (drop_bit C V) \<Longrightarrow> 12 * length bs \<le> r \<Longrightarrow>
    stream_at V C (encoded_bits h P bs) \<Longrightarrow> decode_odd t (length bs) code dest = dest @ bs"
proof (induction bs arbitrary: code r C dest)
  case (Cons b bs)
  note s = stream_at_append [OF Cons.prems(4) [unfolded encoded_bits_simps]]
  note d = decode_symbol_ok [OF t _ ok Cons.prems(2) _ s(1)]
  have l: "length (path_of h P b) \<le> 12" using Cons.prems(1) by (intro path_of_ok(1) [OF ok]) simp
  have "decode_odd t (length bs) (drop_bit (length (path_of h P b)) code) (dest @ [b]) = (dest @ [b]) @ bs"
    using Cons.prems l s(2) by (intro Cons.IH [OF _ d(2)]) auto
  then show ?case using d(1) Cons.prems by simp
qed simp

lemma decode_four:
  assumes t: "table_ok t h P source" and ok: "huffman_ok h source P" and src: "set [b0, b1, b2, b3] \<subseteq> set source"
    and code: "unat code = take_bit 64 (drop_bit C V)" and s: "stream_at V C (encoded_bits h P [b0, b1, b2, b3] @ q)"
  defines "L \<equiv> length (encoded_bits h P [b0, b1, b2, b3])"
  obtains d1 e1 d2 e2 d3 e3 d4 where "decode_symbol t code bits = (b0, d1, e1)" "decode_symbol t d1 e1 = (b1, d2, e2)"
    "decode_symbol t d2 e2 = (b2, d3, e3)" "decode_symbol t d3 e3 = (b3, d4, bits - of_nat L)"
    "unat d4 = take_bit (64 - L) (drop_bit (C + L) V)"
proof -
  let ?p = "path_of h P"
  have m: "b0 \<in> set source" "b1 \<in> set source" "b2 \<in> set source" "b3 \<in> set source" using src by auto
  have l: "length (?p b0) \<le> 12" "length (?p b1) \<le> 12" "length (?p b2) \<le> 12" using m path_of_ok(1) [OF ok] by blast+
  note s' = s [unfolded encoded_bits_simps append_assoc]
  note s0 = stream_at_append [OF s']
  note s1 = stream_at_append [OF s0(2)]
  note s2 = stream_at_append [OF s1(2)]
  note s3 = stream_at_append [OF s2(2)]
  have d0: "decode_symbol t code bits = (b0, drop_bit (length (?p b0)) code, bits - of_nat (length (?p b0)))"
      "unat (drop_bit (length (?p b0)) code) = take_bit (64 - length (?p b0)) (drop_bit (C + length (?p b0)) V)"
    using decode_symbol_ok [OF t m(1) ok code _ s0(1)] by simp_all
  define d1 e1 where d1: "d1 = drop_bit (length (?p b0)) code" and e1: "e1 = bits - of_nat (length (?p b0))"
  have "12 \<le> 64 - length (?p b0)" using l by simp
  note d1' = decode_symbol_ok [OF t m(2) ok d0(2) [folded d1] this s1(1)]
  define d2 e2 where d2: "d2 = drop_bit (length (?p b1)) d1" and e2: "e2 = e1 - of_nat (length (?p b1))"
  have "12 \<le> 64 - length (?p b0) - length (?p b1)" using l by simp
  note d2' = decode_symbol_ok [OF t m(3) ok d1'(2) [folded d2] this s2(1)]
  define d3 e3 where d3: "d3 = drop_bit (length (?p b2)) d2" and e3: "e3 = e2 - of_nat (length (?p b2))"
  have "12 \<le> 64 - length (?p b0) - length (?p b1) - length (?p b2)" using l by simp
  note d3' = decode_symbol_ok [OF t m(4) ok d2'(2) [folded d3] this s3(1)]
  have "e3 - of_nat (length (?p b3)) = bits - of_nat L" by (simp add: e3 e2 e1 L_def)
  moreover have "unat (drop_bit (length (?p b3)) d3) = take_bit (64 - L) (drop_bit (C + L) V)"
    using d3'(2) by (simp add: L_def add.assoc)
  ultimately show thesis using d0(1) d1'(1) d2'(1) d3'(1) by (intro that [of d1 e1 d2 e2 d3 e3]) (simp_all add: d1 e1 d2 e2 d3 e3)
qed

lemma fetch_position: "c < (64 :: nat) \<Longrightarrow> c + 8 * ((63 - c) div 8) = 56 + c mod 8"
proof -
  have "list_all (\<lambda>c. c + 8 * ((63 - c) div 8) = 56 + c mod 8) [0..<64 :: nat]" by code_simp
  moreover assume "c < 64"
  ultimately show ?thesis by (simp add: list_all_iff del: upt_rec_numeral)
qed

lemma decode_blocks_ok:
  fixes mem
  defines "V \<equiv> bytes_val mem"
  assumes t: "table_ok t h P source" and ok: "huffman_ok h source P"
  shows "set bs \<subseteq> set source \<Longrightarrow> 4 * n \<le> length bs \<Longrightarrow> stream_at V C (encoded_bits h P bs) \<Longrightarrow>
    (C + length (encoded_bits h P bs) + 63) div 8 + 8 \<le> length mem \<Longrightarrow>
    unat (code OR push_bit (unat bits) codes) = take_bit 64 (drop_bit C V) \<Longrightarrow> 8 * first = C + unat bits \<Longrightarrow> unat bits < 64 \<Longrightarrow>
    \<exists>code' bits' codes'. decode_blocks t mem n first code bits codes dest = Some (code', bits', codes', dest @ take (4 * n) bs) \<and>
      unat bits' < 64 \<and> unat (code' OR push_bit (unat bits') codes') = take_bit 64 (drop_bit (C + length (encoded_bits h P (take (4 * n) bs))) V)"
proof (induction n arbitrary: bs C first code bits codes dest)
  case (Suc n)
  have "4 \<le> length bs" using Suc.prems(2) by simp
  then obtain b0 b1 b2 b3 cs where bs: "bs = [b0, b1, b2, b3] @ cs"
    by (auto simp: Suc_le_length_iff numeral_eq_Suc)
  let ?b = "[b0, b1, b2, b3]" and ?c = "unat bits"
  let ?first = "first + (63 - ?c) div 8" and ?L = "length (encoded_bits h P [b0, b1, b2, b3])"
  have src: "set ?b \<subseteq> set source" "set cs \<subseteq> set source" using Suc.prems(1) by (auto simp: bs)
  have s: "stream_at V C (encoded_bits h P ?b @ encoded_bits h P cs)" using Suc.prems(3) unfolding bs encoded_bits_simps(3) .
  obtain d1 e1 d2 e2 d3 e3 d4 where d: "decode_symbol t (code OR push_bit ?c codes) (bits OR 56) = (b0, d1, e1)" "decode_symbol t d1 e1 = (b1, d2, e2)"
    "decode_symbol t d2 e2 = (b2, d3, e3)" "decode_symbol t d3 e3 = (b3, d4, (bits OR 56) - of_nat ?L)"
    "unat d4 = take_bit (64 - ?L) (drop_bit (C + ?L) V)"
    by (rule decode_four [OF t ok src(1) Suc.prems(5) s])
  define e4 where "e4 = (bits OR 56) - of_nat ?L"
  have L: "?L \<le> 48" using encoded_bits_length [OF ok src(1)] by simp
  have c56: "unat (bits OR 56) = 56 + ?c mod 8" using Suc.prems(7) by (intro or_56) (simp add: word_less_nat_alt)
  have uL: "unat (of_nat ?L :: byte) = ?L" using L by (intro unat_of_nat_small) simp
  have e4: "unat e4 = 56 + ?c mod 8 - ?L"
    unfolding e4_def using c56 uL L by (subst unat_sub) (simp_all add: word_le_nat_alt del: encoded_bits_simps)
  have e4b: "unat e4 < 64" "unat e4 \<le> 64 - ?L" using L unfolding e4 by simp_all
  have "?c + 8 * ((63 - ?c) div 8) = 56 + ?c mod 8" using Suc.prems(7) by (rule fetch_position)
  then have first: "8 * ?first = (C + ?L) + unat e4" using Suc.prems(6) L unfolding e4 by simp
  have len: "length (encoded_bits h P bs) = ?L + length (encoded_bits h P cs)" unfolding bs encoded_bits_simps(3) by simp
  have "8 * ?first \<le> C + length (encoded_bits h P bs) + 63" using first e4 L by simp
  then have "?first \<le> (C + length (encoded_bits h P bs) + 63) div 8" by (simp only: less_eq_div_iff_mult_less_eq mult.commute)
  then have "?first + 8 \<le> length mem" using Suc.prems(4) by linarith
  then obtain codes' where q: "read_qword mem ?first = Some codes'" "unat codes' = take_bit 64 (drop_bit (8 * ?first) (bytes_val mem))"
    by (rule read_qword_ok)
  have "unat (d4 OR push_bit (unat e4) codes') = take_bit 64 (drop_bit (C + ?L) V)"
    using q(2) e4b(2) unfolding first by (intro merge_codes [OF d(5)]) (simp_all add: V_def add.commute del: encoded_bits_simps)
  then have "\<exists>code' bits' codes''. decode_blocks t mem n ?first d4 e4 codes' (dest @ ?b) = Some (code', bits', codes'', (dest @ ?b) @ take (4 * n) cs) \<and>
      unat bits' < 64 \<and> unat (code' OR push_bit (unat bits') codes'') =
        take_bit 64 (drop_bit ((C + ?L) + length (encoded_bits h P (take (4 * n) cs))) V)"
    using src(2) Suc.prems(2,4) stream_at_append(2) [OF s] first e4b(1) unfolding len
    by (intro Suc.IH) (auto simp: bs)
  then obtain code' bits' codes'' where r: "decode_blocks t mem n ?first d4 e4 codes' (dest @ ?b) = Some (code', bits', codes'', (dest @ ?b) @ take (4 * n) cs)"
      "unat bits' < 64" "unat (code' OR push_bit (unat bits') codes'') =
        take_bit 64 (drop_bit ((C + ?L) + length (encoded_bits h P (take (4 * n) cs))) V)" by blast
  have tk: "take (4 * Suc n) bs = ?b @ take (4 * n) cs" unfolding bs take_append using take_all [of ?b "4 * Suc n"] by simp
  have "decode_blocks t mem (Suc n) first code bits codes dest = decode_blocks t mem n ?first d4 e4 codes' (dest @ ?b)"
    using Suc.prems(7) d q(1) by (simp add: Let_def e4_def)
  then show ?case using r unfolding tk encoded_bits_simps(3) by (intro exI [of _ code'] exI [of _ bits'] exI [of _ codes'']) (simp add: add.assoc)
next
  case 0
  show ?case using "0.prems"(5,7) by (intro exI [of _ code] exI [of _ bits] exI [of _ codes]) simp
qed

lemma WriteDecodedStream_ok:
  assumes t: "table_ok t h P source" and ok: "huffman_ok h source P" and n: "length source < 2 ^ 28" "length source \<le> ob_remaining target"
    and Y: "length Y = length (encoded_bits h P source) div 8 + 8" "bytes_val Y = lsb_val (encoded_bits h P source)" "8 \<le> length rest"
  shows "WriteDecodedStream t (Y @ rest) target (of_nat (length source)) =
    Inr (target\<lparr>ob_written := ob_written target @ source, ob_remaining := ob_remaining target - length source\<rparr>)"
proof -
  let ?e = "encoded_bits h P source" and ?n = "length source div 4" and ?V = "bytes_val (Y @ rest)"
  have un: "unat (of_nat (length source) :: dword) = length source" using n(1) by (simp add: unat_of_nat_small)
  have "length ?e < 8 * length Y" unfolding Y(1) by simp
  then have "take_bit (length ?e) ?V = take_bit (length ?e) (bytes_val Y)"
    by (simp add: bytes_val_append take_bit_eq_mod mod_mult_right_eq) (metis (no_types) add.right_neutral le_imp_power_dvd less_imp_le mod_add_right_eq mod_eq_0_iff_dvd mult.commute dvd_mult)
  then have s: "stream_at ?V 0 ?e" using lsb_val_less [of ?e] Y(2) by (simp add: stream_at_def take_bit_nat_eq_self)
  have "0 + 8 \<le> length (Y @ rest)" using Y by simp
  then obtain codes where q: "read_qword (Y @ rest) 0 = Some codes" "unat codes = take_bit 64 (drop_bit (8 * 0) ?V)" by (rule read_qword_ok)
  have "(length ?e + 63) div 8 \<le> length ?e div 8 + 8" by presburger
  then have "(0 + length ?e + 63) div 8 + 8 \<le> length (Y @ rest)" using Y by simp
  then have "\<exists>code' bits' codes'. decode_blocks t (Y @ rest) ?n 0 0 0 codes [] = Some (code', bits', codes', [] @ take (4 * ?n) source) \<and>
      unat bits' < 64 \<and> unat (code' OR push_bit (unat bits') codes') = take_bit 64 (drop_bit (0 + length (encoded_bits h P (take (4 * ?n) source))) ?V)"
    using s q(2) by (intro decode_blocks_ok [OF t ok]) auto
  then obtain code' bits' codes' where d: "decode_blocks t (Y @ rest) ?n 0 0 0 codes [] = Some (code', bits', codes', take (4 * ?n) source)"
      "unat bits' < 64" "unat (code' OR push_bit (unat bits') codes') = take_bit 64 (drop_bit (length (encoded_bits h P (take (4 * ?n) source))) ?V)"
    by auto
  have "encoded_bits h P (take (4 * ?n) source) @ encoded_bits h P (drop (4 * ?n) source) = ?e"
    by (simp only: encoded_bits_simps(3) [symmetric] append_take_drop_id)
  from stream_at_append(2) [OF s [folded this]]
  have s2: "stream_at ?V (length (encoded_bits h P (take (4 * ?n) source))) (encoded_bits h P (drop (4 * ?n) source))" by simp
  have l: "length (drop (4 * ?n) source) = length source mod 4" by (simp add: minus_mult_div_eq_mod)
  have "decode_odd t (length (drop (4 * ?n) source)) (code' OR push_bit (unat bits') codes') (take (4 * ?n) source) =
      take (4 * ?n) source @ drop (4 * ?n) source"
    by (rule decode_odd_ok [OF t ok set_drop_subset d(3) _ s2]) (simp add: l)
  then have "decode_odd t (length source mod 4) (code' OR push_bit (unat bits') codes') (take (4 * ?n) source) = source"
    unfolding l append_take_drop_id .
  then show ?thesis using q(1) d(1,2) n(2) by (simp add: WriteDecodedStream_def ob_GetBuffer_def un)
qed

lemma ib_GetData_append:
  "n \<le> ib_remaining b \<Longrightarrow> ib_GetData n b = Inr (ib_current b, b\<lparr>ib_current := drop n (ib_current b), ib_remaining := ib_remaining b - n\<rparr>)"
  by (simp add: ib_GetData_def)

lemma Decode_huffman:
  assumes ok: "huffman_ok h source P" "source \<noteq> []" and n: "length source < 2 ^ 28" "length source \<le> ob_remaining target"
    and Y: "length Y = length (encoded_bits h P source) div 8 + 8" "bytes_val Y = lsb_val (encoded_bits h P source)" "8 \<le> length rest"
    and size: "8 + length (WriteHuffmanTable h) + length Y < length source + 9"
    and enc: "enc = dword_bytes (of_nat (length source)) @ dword_bytes (of_nat (8 + length (WriteHuffmanTable h) + length Y)) @ WriteHuffmanTable h @ Y"
    and b: "ib_current b = enc @ rest" "length enc \<le> ib_remaining b" and t: "tables_ok t"
  shows "\<exists>t'. Decode b target t = Inr (b\<lparr>ib_current := rest, ib_remaining := ib_remaining b - length enc\<rparr>,
    target\<lparr>ob_written := ob_written target @ source, ob_remaining := ob_remaining target - length source\<rparr>, t') \<and> tables_ok t'"
proof -
  let ?T = "WriteHuffmanTable h" and ?n = "of_nat (length source) :: dword" and ?t = "fill_table (table_entries h P) t"
  let ?s = "of_nat (8 + length ?T + length Y) :: dword"
  have un: "unat ?n = length source" "unat ?s = 8 + length ?T + length Y" "unat (?n + 9) = length source + 9"
    using n(1) size by (simp_all add: unat_of_nat_small unat_word_ariths del: of_nat_add)
  have ne: "?n \<noteq> 0" "?s \<noteq> ?n + 9" using ok(2) un size by (auto simp: word_unat_eq_iff)
  have el: "length enc = 8 + length ?T + length Y" unfolding enc by simp
  let ?b1 = "b\<lparr>ib_current := dword_bytes ?s @ ?T @ Y @ rest, ib_remaining := ib_remaining b - 4\<rparr>"
  let ?b2 = "b\<lparr>ib_current := ?T @ Y @ rest, ib_remaining := ib_remaining b - 8\<rparr>"
  let ?b3 = "b\<lparr>ib_current := Y @ rest, ib_remaining := ib_remaining b - (8 + length ?T)\<rparr>"
  have g1: "ib_GetDWORD b = Inr (?n, ?b1)" using b el unfolding enc by (intro ib_GetDWORD_append) auto
  have g2: "ib_GetDWORD ?b1 = Inr (?s, ?b2)" using ib_GetDWORD_append [of ?b1 ?s "?T @ Y @ rest"] b(2) el by simp
  have g3: "BuildDecodeTable ?b2 t = Inr (?t, ?b3)"
    using BuildDecodeTable_ok [OF ok, of ?b2 "Y @ rest" t] b(2) el by simp
  have hl: "ib_remaining b - ib_remaining ?b3 = 8 + length ?T" using b(2) el by simp
  have g4: "ib_GetData (length Y) ?b3 = Inr (Y @ rest, b\<lparr>ib_current := rest, ib_remaining := ib_remaining b - length enc\<rparr>)"
    using ib_GetData_append [of "length Y" ?b3] b(2) el by simp
  have g5: "WriteDecodedStream ?t (Y @ rest) target ?n =
      Inr (target\<lparr>ob_written := ob_written target @ source, ob_remaining := ob_remaining target - length source\<rparr>)"
    using fill_table_entries [OF ok(1) t] by (intro WriteDecodedStream_ok [OF _ ok(1) n Y])
  have "\<not> unat ?s < 8 + length ?T" "unat ?s - (8 + length ?T) = length Y" unfolding un by simp_all
  then have "Decode b target t = Inr (b\<lparr>ib_current := rest, ib_remaining := ib_remaining b - length enc\<rparr>,
    target\<lparr>ob_written := ob_written target @ source, ob_remaining := ob_remaining target - length source\<rparr>, ?t)"
    unfolding Decode_def Let_def g1 bindE.simps prod.case g2 using ne
    by (simp add: MIN_HEADER_LENGTH_def g3 hl [simplified] g4 g5 del: of_nat_add)
  then show ?thesis using fill_table_entries(1) [OF ok(1) t] by blast
qed

lemma Decode_raw:
  assumes n: "source \<noteq> []" "length source < 2 ^ 28" "length source \<le> ob_remaining target"
    and enc: "enc = dword_bytes (of_nat (length source)) @ dword_bytes (of_nat (length source) + 9) @ 0 # source"
    and b: "ib_current b = enc @ rest" "length enc \<le> ib_remaining b"
  shows "Decode b target t = Inr (b\<lparr>ib_current := rest, ib_remaining := ib_remaining b - length enc\<rparr>,
    target\<lparr>ob_written := ob_written target @ source, ob_remaining := ob_remaining target - length source\<rparr>, t)"
proof -
  let ?n = "of_nat (length source) :: dword"
  have un: "unat ?n = length source" using n(2) by (simp add: unat_of_nat_small)
  have ne: "?n \<noteq> 0" using n(1) un by (auto simp: word_unat_eq_iff)
  have el: "length enc = 9 + length source" unfolding enc by simp
  let ?b1 = "b\<lparr>ib_current := dword_bytes (?n + 9) @ 0 # source @ rest, ib_remaining := ib_remaining b - 4\<rparr>"
  let ?b2 = "b\<lparr>ib_current := 0 # source @ rest, ib_remaining := ib_remaining b - 8\<rparr>"
  have g1: "ib_GetDWORD b = Inr (?n, ?b1)" using b el unfolding enc by (intro ib_GetDWORD_append) auto
  have g2: "ib_GetDWORD ?b1 = Inr (?n + 9, ?b2)" using ib_GetDWORD_append [of ?b1 "?n + 9" "0 # source @ rest"] b(2) el by simp
  have g3: "ib_GetByte ?b2 = Inr (0, b\<lparr>ib_current := source @ rest, ib_remaining := ib_remaining b - 9\<rparr>)"
    using ib_GetByte_Cons [of ?b2 0 "source @ rest"] b(2) el by simp
  have g4: "ib_PeekByte ?b2 = Inr 0" using b(2) el by (simp add: ib_PeekByte_def)
  show ?thesis
    unfolding Decode_def Let_def g1 bindE.simps prod.case g2 using ne n(3) b(2) el
    by (simp add: MIN_HEADER_LENGTH_def g3 g4 un ob_GetBuffer_def ib_GetData_def)
qed

lemma Decode_nothing:
  assumes "ib_current b = dword_bytes 0 @ dword_bytes s @ rest" "8 \<le> ib_remaining b"
  shows "Decode b target t = Inr (b\<lparr>ib_current := rest, ib_remaining := ib_remaining b - 8\<rparr>, target, t)"
proof -
  let ?b1 = "b\<lparr>ib_current := dword_bytes s @ rest, ib_remaining := ib_remaining b - 4\<rparr>"
  have g1: "ib_GetDWORD b = Inr (0, ?b1)" using assms by (intro ib_GetDWORD_append) auto
  have g2: "ib_GetDWORD ?b1 = Inr (s, b\<lparr>ib_current := rest, ib_remaining := ib_remaining b - 8\<rparr>)"
    using ib_GetDWORD_append [of ?b1 s rest] assms(2) by simp
  show ?thesis by (simp add: Decode_def Let_def g1 g2)
qed

lemma Decode_Encode:
  assumes "source \<noteq> []" "length source < 2 ^ 28" "Encode source = Inr enc" "8 \<le> length rest" "tables_ok t"
    "ib_current b = enc @ rest" "length enc \<le> ib_remaining b" "length source \<le> ob_remaining target"
  shows "\<exists>t'. Decode b target t = Inr (b\<lparr>ib_current := rest, ib_remaining := ib_remaining b - length enc\<rparr>,
    target\<lparr>ob_written := ob_written target @ source, ob_remaining := ob_remaining target - length source\<rparr>, t') \<and> tables_ok t'"
  using Encode_ok [OF assms(1,2)]
proof (elim disjE exE conjE)
  assume "Encode source = Inr (dword_bytes (of_nat (length source)) @ dword_bytes (of_nat (length source) + 9) @ 0 # source)"
  then show ?thesis using Decode_raw [OF assms(1,2,8) _ assms(6,7), of t] assms(3,5) by auto
next
  fix h P Y
  assume h: "huffman_ok h source P" "length Y = length (encoded_bits h P source) div 8 + 8" "bytes_val Y = lsb_val (encoded_bits h P source)"
    "8 + length (WriteHuffmanTable h) + length Y < length source + 9"
    "Encode source = Inr (dword_bytes (of_nat (length source)) @ dword_bytes (of_nat (8 + length (WriteHuffmanTable h) + length Y)) @ WriteHuffmanTable h @ Y)"
  show ?thesis by (rule Decode_huffman [OF h(1) assms(1,2,8) h(2,3) assms(4) h(4) _ assms(6,7,5)]) (use h(5) assms(3) in simp)
qed

text \<open>
  C4.  Decoding what the encoder made of a source gives the source back and takes exactly the encoded
  bytes from the input, for sources that are packed and for those that are stored as they are, as long
  as eight more bytes may be read behind them.
\<close>

theorem huffman_roundtrip:
  assumes "source \<noteq> []" "length source < 2 ^ 28" "Encode source = Inr enc" "8 \<le> length rest" "tables_ok t"
    "ib_current b = enc @ rest" "length enc \<le> ib_remaining b" "length source \<le> ob_remaining target"
  shows "\<exists>t'. Decode b target t = Inr (b\<lparr>ib_current := rest, ib_remaining := ib_remaining b - length enc\<rparr>,
    target\<lparr>ob_written := ob_written target @ source, ob_remaining := ob_remaining target - length source\<rparr>, t') \<and> tables_ok t'"
  by (rule Decode_Encode [OF assms])

theorem huffman_roundtrip_witness:
  "\<exists>enc t'. Encode (replicate 20 7) = Inr enc \<and>
     Decode \<lparr>ib_current = enc @ replicate 8 0, ib_remaining = length enc\<rparr> \<lparr>ob_written = [], ob_remaining = 20\<rparr> huffman_decoder_init =
       Inr (\<lparr>ib_current = replicate 8 0, ib_remaining = 0\<rparr>, \<lparr>ob_written = replicate 20 7, ob_remaining = 0\<rparr>, t')"
proof -
  obtain enc where e: "Encode (replicate 20 7) = Inr enc" using Encode_ok [of "replicate 20 7"] by auto
  then show ?thesis
    using huffman_roundtrip [of "replicate 20 7" enc "replicate 8 0" huffman_decoder_init
        "\<lparr>ib_current = enc @ replicate 8 0, ib_remaining = length enc\<rparr>" "\<lparr>ob_written = [], ob_remaining = 20\<rparr>"]
    by (auto simp: tables_ok_def huffman_decoder_init_def MAX_ENCODING_LENGTH_def)
qed

text \<open>Packing costs at most the nine bytes of the header, whatever the source.\<close>

lemma Encode_length: "length source < 2 ^ 28 \<Longrightarrow> \<exists>enc. Encode source = Inr enc \<and> length enc \<le> length source + 9"
  using Encode_empty Encode_ok [of source] by (cases "source = []") auto

text \<open>The bits of the key of \<open>b\<close> are the first bits of the key of \<open>c\<close>.\<close>

definition key_starts :: "huffman_encoder \<Rightarrow> byte \<Rightarrow> byte \<Rightarrow> bool" where
  "key_starts h b c \<longleftrightarrow> unat (he_keyLength h ! unat b) \<le> unat (he_keyLength h ! unat c) \<and>
     take_bit (unat (he_keyLength h ! unat b)) (he_key h ! unat c) = he_key h ! unat b"

lemma key_starts_unique:
  assumes ok: "huffman_ok h source P" and bc: "b \<in> set source" "c \<in> set source" and s: "key_starts h b c"
  shows "b = c"
proof -
  note p = path_of_ok [OF ok bc(1)] and q = path_of_ok [OF ok bc(2)]
  have set: "set source = set (symbols h)" and len: "length P = length (symbols h)" and cp: "code_paths P"
    using ok by (auto simp: huffman_ok_def keys_ok_def)
  obtain i j where ij: "i < length P" "symbols h ! i = b" "j < length P" "symbols h ! j = c"
    using bc unfolding set len in_set_conv_nth by blast
  have pq: "path_of h P b = P ! i" "path_of h P c = P ! j" using path_of_nth [OF ok] ij by auto
  have "lsb_val (P ! i) < 2 ^ 64" "lsb_val (P ! j) < 2 ^ 64"
    using p(1) q(1) unfolding pq by (auto intro!: less_le_trans [OF lsb_val_less] power_increasing [of _ 64 2, simplified])
  then have u: "unat (he_key h ! unat b) = lsb_val (P ! i)" "unat (he_key h ! unat c) = lsb_val (P ! j)"
    using p(2) q(2) unfolding pq by (simp_all add: unat_of_nat_small)
  have "take_bit (length (P ! i)) (lsb_val (P ! j)) = lsb_val (P ! i)"
    using s p(4) arg_cong [of _ _ unat, OF conjunct2 [OF s [unfolded key_starts_def]]] u unfolding pq unsigned_take_bit_eq by simp
  moreover have "take_bit (length (P ! j)) (lsb_val (P ! j)) = lsb_val (P ! j)"
    using lsb_val_less by (rule take_bit_nat_eq_self)
  ultimately have "i = j" by (rule code_paths_unique [OF cp ij(1,3)])
  then show ?thesis using ij by simp
qed

text \<open>
  C5.  The keys are a prefix code of bounded length: no key is longer than twelve bits, and the bits of a key
  are not the first bits of the key of another byte of the source.
\<close>

theorem huffman_keys_prefix_free:
  assumes "source \<noteq> []" "length source < 2 ^ 28"
  shows "\<exists>h. huffman_encoded source = Some h \<and> (\<forall>b \<in> set source. unat (he_keyLength h ! unat b) \<le> MAX_ENCODING_LENGTH) \<and>
    (\<forall>b \<in> set source. \<forall>c \<in> set source. key_starts h b c \<longrightarrow> b = c)"
proof -
  obtain h P where h: "huffman_encoded source = Some h" "huffman_ok h source P" using huffman_encoded_ok [OF assms] by blast
  have "unat (he_keyLength h ! unat b) \<le> MAX_ENCODING_LENGTH" if "b \<in> set source" for b
    using path_of_ok(1,4) [OF h(2) that] by (simp add: MAX_ENCODING_LENGTH_def)
  then show ?thesis using h(1) key_starts_unique [OF h(2)] by blast
qed

theorem huffman_keys_prefix_free_witness:
  "\<exists>h. huffman_encoded [1, 2, 2] = Some h \<and> unat (he_keyLength h ! unat (1 :: byte)) \<le> 12 \<and> \<not> key_starts h 1 2 \<and> \<not> key_starts h 2 1"
proof -
  have l: "[1, 2, 2 :: byte] \<noteq> []" "length [1, 2, 2 :: byte] < 2 ^ 28" by simp_all
  from huffman_keys_prefix_free [OF l] obtain h where h: "huffman_encoded [1, 2, 2] = Some h"
      "\<forall>b \<in> set [1, 2, 2 :: byte]. unat (he_keyLength h ! unat b) \<le> MAX_ENCODING_LENGTH"
      "\<forall>b \<in> set [1, 2, 2]. \<forall>c \<in> set [1, 2, 2]. key_starts h b c \<longrightarrow> b = c"
    by (elim exE conjE)
  show ?thesis
  proof (intro exI conjI notI)
    show "huffman_encoded [1, 2, 2] = Some h" by (fact h(1))
    show "unat (he_keyLength h ! unat (1 :: byte)) \<le> 12" using bspec [OF h(2), of 1] by (simp add: MAX_ENCODING_LENGTH_def)
    show False if "key_starts h 1 2" using h(3) that by simp
    show False if "key_starts h 2 1" using h(3) that by simp
qed
qed

lemma single_symbol_code:
  assumes ok: "huffman_ok h (replicate n c) P" and n: "0 < n"
  shows "length (WriteHuffmanTable h) = 3 \<and> encoded_bits h P (replicate n c) = []"
proof -
  have sym: "set (symbols h) = {c}" "distinct (symbols h)" "length (symbols h) = he_sortedCount h" "length P = length (symbols h)"
    using ok n by (auto simp: huffman_ok_def keys_ok_def)
  then have s1: "he_sortedCount h = 1" using distinct_card [OF sym(2)] by simp
  then have "symbols h = [c]" using sym by (cases "symbols h") auto
  moreover have "P = [[]]" if "code_paths P" "length P = 1" for P
    using that by (cases rule: code_paths.cases) (auto dest!: code_paths_ne simp: add_is_1)
  moreover have "code_paths P" "length P = 1" using ok s1 sym(3,4) by (simp_all add: huffman_ok_def)
  ultimately have "symbols h = [c]" "P = [[]]" by blast+
  then have "path_of h P c = []" using path_of_nth [OF ok, of 0] by simp
  then show ?thesis using length_WriteHuffmanTable [OF ok] s1 by (auto simp: encoded_bits_def)
qed

text \<open>
  C37.  The decoder fetches up to seven bytes beyond the data: a run of one byte is packed into a buffer that
  the decoder reads past the end of, unless the memory goes on behind it.
\<close>

theorem decoder_reads_behind_the_data:
  assumes "10 < n" "n < 2 ^ 28" "Encode (replicate n c) = Inr enc" "n \<le> room" "tables_ok t"
  shows "Decode \<lparr>ib_current = enc, ib_remaining = length enc\<rparr> \<lparr>ob_written = [], ob_remaining = room\<rparr> t = Inl UndefinedRead"
proof -
  let ?s = "replicate n c"
  have ne: "?s \<noteq> []" "length ?s < 2 ^ 28" using assms(1,2) by auto
  have "\<not> (\<exists>h P. huffman_ok h ?s P \<and> length ?s + 9 \<le> 8 + length (WriteHuffmanTable h) + (length (encoded_bits h P ?s) div 8 + 8) \<and>
       Encode ?s = Inr (dword_bytes (of_nat (length ?s)) @ dword_bytes (of_nat (length ?s) + 9) @ 0 # ?s))"
    using single_symbol_code assms(1) by fastforce
  then obtain h P Y where ok: "huffman_ok h ?s P" and Y: "length Y = length (encoded_bits h P ?s) div 8 + 8" and
    e: "Encode ?s = Inr (dword_bytes (of_nat (length ?s)) @
         dword_bytes (of_nat (8 + length (WriteHuffmanTable h) + length Y)) @ WriteHuffmanTable h @ Y)"
    using Encode_ok [OF ne] by blast
  have h: "huffman_ok h ?s P" "length Y = 8" and T: "length (WriteHuffmanTable h) = 3" using ok Y single_symbol_code [OF ok] assms(1) by auto
  have enc: "enc = dword_bytes (of_nat n) @ dword_bytes 19 @ WriteHuffmanTable h @ Y"
    using assms(3) e T h(2) by simp
  let ?b = "\<lparr>ib_current = enc, ib_remaining = length enc\<rparr>" and ?n = "of_nat n :: dword"
  let ?b1 = "\<lparr>ib_current = dword_bytes 19 @ WriteHuffmanTable h @ Y, ib_remaining = 15\<rparr>"
  let ?b2 = "\<lparr>ib_current = WriteHuffmanTable h @ Y, ib_remaining = 11\<rparr>"
  have un: "unat ?n = n" "unat (?n + 9) = n + 9" using assms(2) by (simp_all add: unat_of_nat_small unat_word_ariths)
  have ne: "?n \<noteq> 0" "19 \<noteq> ?n + 9" using un assms(1) by (auto simp: word_unat_eq_iff)
  have g1: "ib_GetDWORD ?b = Inr (?n, ?b1)" using ib_GetDWORD_append [of ?b ?n] enc T h(2) by simp
  have g2: "ib_GetDWORD ?b1 = Inr (19, ?b2)" using ib_GetDWORD_append [of ?b1 19] by simp
  have g3: "BuildDecodeTable ?b2 t = Inr (fill_table (table_entries h P) t, \<lparr>ib_current = Y, ib_remaining = 8\<rparr>)"
    using BuildDecodeTable_ok [OF h(1), of ?b2 Y t] T assms(1) by simp
  have g4: "ib_GetData 8 \<lparr>ib_current = Y, ib_remaining = 8\<rparr> = Inr (Y, \<lparr>ib_current = [], ib_remaining = 0\<rparr>)"
    using h(2) by (simp add: ib_GetData_def)
  obtain codes where q: "read_qword Y 0 = Some codes" using h(2) by (simp add: read_qword_def)
  have q7: "read_qword Y 7 = None" using h(2) by (simp add: read_qword_def)
  obtain k where k: "n div 4 = Suc k" using assms(1) by (cases "n div 4") auto
  have "decode_blocks t' Y (Suc k) 0 0 0 codes [] = None" for t'
    using q7 by (simp add: Let_def split: prod.splits)
  then have w: "WriteDecodedStream t' Y \<lparr>ob_written = [], ob_remaining = room\<rparr> ?n = Inl UndefinedRead" for t'
    using q k un assms(4) by (simp add: WriteDecodedStream_def ob_GetBuffer_def)
  show ?thesis
    unfolding Decode_def Let_def g1 bindE.simps prod.case g2 using ne
    by (simp add: MIN_HEADER_LENGTH_def g3 g4 w enc T h(2))
qed

theorem decoder_reads_behind_the_data_witness:
  "\<exists>enc. Encode (replicate 20 7) = Inr enc \<and>
     Decode \<lparr>ib_current = enc, ib_remaining = length enc\<rparr> \<lparr>ob_written = [], ob_remaining = 20\<rparr> huffman_decoder_init = Inl UndefinedRead"
proof -
  obtain enc where e: "Encode (replicate 20 7) = Inr enc" using Encode_ok [of "replicate 20 7"] by auto
  then show ?thesis
    using decoder_reads_behind_the_data [of 20 7 enc 20 huffman_decoder_init]
    by (simp add: tables_ok_def huffman_decoder_init_def MAX_ENCODING_LENGTH_def)
qed

end
