(* ===== verification/CacheFile.thy ===== *)
theory CacheFile
  imports HuffmanDecoder
begin

section \<open>The cache file (src/LogCache/Streams)\<close>

text \<open>
  A cache file is a sequence of streams and a directory of their sizes.  Streams are nested: the data of a
  stream starts with the list of its sub-streams, by their number in the file; the Huffman coded
  blocks of its own data and their total size follow.  A stream is written when it is closed, after all its
  sub-streams; the root comes last.  The files themselves (creation, mapping, removal) are those of the
  operating system: a file is the list of its bytes.
\<close>

subsection \<open>CBufferedOutFile\<close>

definition BUFFER_SIZE :: dword where
  "BUFFER_SIZE = 1024 * 1024"

record buffered_out_file =
  bf_written :: "byte list"
  bf_buffer :: "byte list"
  bf_fileSize :: size_t

definition bf_Flush :: "'a buffered_out_file_scheme \<Rightarrow> 'a buffered_out_file_scheme" where
  "bf_Flush f =
     (if 0 < length (bf_buffer f) then f\<lparr>bf_written := bf_written f @ bf_buffer f, bf_buffer := []\<rparr> else f)"

text \<open>The copy into the buffer, with the error value for one that leaves it.\<close>

definition bf_buffer_chunk :: "byte list \<Rightarrow> 'a buffered_out_file_scheme \<Rightarrow> stream_error + 'a buffered_out_file_scheme" where
  "bf_buffer_chunk data f =
     (if length (bf_buffer f) + length data > unat BUFFER_SIZE then Inl UndefinedRead
      else Inr (f\<lparr>bf_buffer := bf_buffer f @ data, bf_fileSize := bf_fileSize f + of_nat (length data)\<rparr>))"

definition bf_Add :: "byte list \<Rightarrow> 'a buffered_out_file_scheme \<Rightarrow> stream_error + 'a buffered_out_file_scheme" where
  "bf_Add data f =
     (let bytes = of_nat (length data) :: dword; used = of_nat (length (bf_buffer f)) :: dword in
      if used + bytes > BUFFER_SIZE
      then
        let f = bf_Flush f in
        if bytes \<ge> BUFFER_SIZE
        then Inr (f\<lparr>bf_written := bf_written f @ data, bf_fileSize := bf_fileSize f + of_nat (length data)\<rparr>)
        else bf_buffer_chunk data f
      else bf_buffer_chunk data f)"

definition bf_AddDWORD :: "dword \<Rightarrow> 'a buffered_out_file_scheme \<Rightarrow> stream_error + 'a buffered_out_file_scheme" where
  "bf_AddDWORD v f = bf_Add (dword_bytes v) f"

subsection \<open>CCacheFileOutBuffer\<close>

definition OUR_LOG_CACHE_FILE_VERSION :: dword where "OUR_LOG_CACHE_FILE_VERSION = 0x20100515"
definition MIN_LOG_CACHE_FILE_VERSION :: dword where "MIN_LOG_CACHE_FILE_VERSION = 0x20100515"
definition OLDEST_LOG_CACHE_FILE_VERSION :: dword where "OLDEST_LOG_CACHE_FILE_VERSION = 0x20070607"
definition NEWEST_LOG_CACHE_FILE_VERSION :: dword where "NEWEST_LOG_CACHE_FILE_VERSION = 0x20100515"

record cache_file_out = buffered_out_file +
  streamOffsets :: "size_t list"
  streamIsOpen :: bool

definition co_init :: "stream_error + cache_file_out" where
  "co_init =
     bindE (bf_AddDWORD OUR_LOG_CACHE_FILE_VERSION
              \<lparr>bf_written = [], bf_buffer = [], bf_fileSize = 0, streamOffsets = [], streamIsOpen = False\<rparr>)
       (bf_AddDWORD MIN_LOG_CACHE_FILE_VERSION)"

definition co_OpenStream :: "cache_file_out \<Rightarrow> dword \<times> cache_file_out" where
  "co_OpenStream f =
     (let f = f\<lparr>streamIsOpen := True, streamOffsets := streamOffsets f @ [bf_fileSize f]\<rparr>
      in (of_nat (length (streamOffsets f)) - 1, f))"

definition co_CloseStream :: "cache_file_out \<Rightarrow> cache_file_out" where
  "co_CloseStream f = f\<lparr>streamIsOpen := False\<rparr>"

text \<open>
  The destructor adds the directory; the file is removed when a stream is too large (\<open>None\<close>).  The
  result is the file left behind.
\<close>

fun write_sizes :: "size_t \<Rightarrow> size_t list \<Rightarrow> cache_file_out \<Rightarrow> stream_error + cache_file_out option" where
  "write_sizes lastOffset [] f = Inr (Some f)"
| "write_sizes lastOffset (offset # offsets) f =
     (let size = offset - lastOffset in
      if size \<ge> ucast (- 1 :: dword) then Inr None
      else bindE (bf_AddDWORD (ucast size) f) (write_sizes offset offsets))"

definition co_destroy :: "cache_file_out \<Rightarrow> stream_error + byte list option" where
  "co_destroy f =
     (let offsets = streamOffsets f @ [bf_fileSize f] in
      bindE (write_sizes (hd offsets) (tl offsets) (f\<lparr>streamOffsets := offsets\<rparr>)) (\<lambda>r.
      case r of
        None \<Rightarrow> Inr None
      | Some f \<Rightarrow>
          bindE (bf_AddDWORD (of_nat (length (streamOffsets f)) - 1) f) (\<lambda>f. Inr (Some (bf_written (bf_Flush f))))))"

subsection \<open>Hierarchical output streams\<close>

text \<open>
  A stream object: what all classes have in common, \<open>sb_data\<close> being the bytes that
  \<open>GetStreamData\<close> returns, and its sub-streams.  Sub-streams are written through pointers; the client
  finishes one before it turns to the next, so that here the object with the sub-streams inside is
  the state.  \<open>sb_index\<close> is -1 until the stream is written.
\<close>

record stream_base =
  sb_id :: dword
  sb_type :: dword
  sb_index :: dword
  sb_isOpen :: bool
  sb_decodedSize :: size_t
  sb_data :: "byte list"

datatype out_stream = OutStream (os_base: stream_base) (os_subStreams: "out_stream list")

definition ROOT_STREAM_TYPE_ID :: dword where "ROOT_STREAM_TYPE_ID = 0"
definition COMPOSITE_STREAM_TYPE_ID :: dword where "COMPOSITE_STREAM_TYPE_ID = 0x10"
definition BLOB_STREAM_TYPE_ID :: dword where "BLOB_STREAM_TYPE_ID = 0x20"
definition BINARY_STREAM_TYPE_ID :: dword where "BINARY_STREAM_TYPE_ID = 0x30"

text \<open>The types whose factories are in the pools; the root stream has none.\<close>

definition stream_types :: "dword list" where
  "stream_types = [COMPOSITE_STREAM_TYPE_ID, BLOB_STREAM_TYPE_ID, BINARY_STREAM_TYPE_ID, 0x31, 0x32, 0x33, 0x34, 0x35]"

definition GetFactory :: "dword \<Rightarrow> stream_error + dword" where
  "GetFactory type =
     (if type \<in> set stream_types then Inr type else Inl (CStreamException ''No factory for that stream type''))"

definition new_stream :: "dword \<Rightarrow> dword \<Rightarrow> out_stream" where
  "new_stream subStreamID type =
     OutStream \<lparr>sb_id = subStreamID, sb_type = type, sb_index = - 1, sb_isOpen = False, sb_decodedSize = 0, sb_data = []\<rparr> []"

text \<open>
  The virtual call \<open>AutoClose\<close> on a sub-stream is the argument \<open>close\<close>: it returns the index, the
  changed object and the changed file.
\<close>

type_synonym closer = "out_stream \<Rightarrow> cache_file_out \<Rightarrow> stream_error + dword \<times> out_stream \<times> cache_file_out"

definition CloseLatestSubStream ::
    "closer \<Rightarrow> out_stream list \<Rightarrow> cache_file_out \<Rightarrow> stream_error + out_stream list \<times> cache_file_out" where
  "CloseLatestSubStream close subStreams f =
     (if subStreams = [] then Inr (subStreams, f)
      else bindE (close (last subStreams) f) (\<lambda>(_, s, f). Inr (butlast subStreams @ [s], f)))"

fun write_entries ::
    "closer \<Rightarrow> out_stream list \<Rightarrow> cache_file_out \<Rightarrow> stream_error + out_stream list \<times> cache_file_out" where
  "write_entries close [] f = Inr ([], f)"
| "write_entries close (s # ss) f =
     bindE (close s f) (\<lambda>(index, s, f).
     bindE (bf_AddDWORD index f) (\<lambda>f.
     bindE (bf_AddDWORD (sb_id (os_base s)) f) (\<lambda>f.
     bindE (bf_AddDWORD (sb_type (os_base s)) f) (\<lambda>f.
     bindE (write_entries close ss f) (\<lambda>(ss, f). Inr (s # ss, f))))))"

definition WriteSubStreamList ::
    "closer \<Rightarrow> out_stream list \<Rightarrow> cache_file_out \<Rightarrow> stream_error + out_stream list \<times> cache_file_out" where
  "WriteSubStreamList close subStreams f =
     bindE (bf_AddDWORD (of_nat (length subStreams)) f) (write_entries close subStreams)"

definition os_AutoOpen :: "closer \<Rightarrow> out_stream \<Rightarrow> cache_file_out \<Rightarrow> stream_error + out_stream \<times> cache_file_out" where
  "os_AutoOpen close s f =
     (if sb_isOpen (os_base s) then Inr (s, f)
      else
        bindE (CloseLatestSubStream close (os_subStreams s) f) (\<lambda>(subStreams, f).
        case co_OpenStream f of (index, f) \<Rightarrow>
        bindE (WriteSubStreamList close subStreams f) (\<lambda>(subStreams, f).
          Inr (OutStream ((os_base s)\<lparr>sb_isOpen := True, sb_index := index\<rparr>) subStreams, f))))"

definition GetStreamSize :: "stream_base \<Rightarrow> stream_error + nat" where
  "GetStreamSize b =
     (let size = length (sb_data b)
      in if size > unat (- 1 :: dword) then Inl (CStreamException ''binary stream too large'') else Inr size)"

definition WriteThisStream :: "closer \<Rightarrow> out_stream \<Rightarrow> cache_file_out \<Rightarrow> stream_error + out_stream \<times> cache_file_out" where
  "WriteThisStream close s f =
     bindE (os_AutoOpen close s f) (\<lambda>(s, f).
     bindE (GetStreamSize (os_base s)) (\<lambda>size.
     bindE (Encode (sb_data (os_base s))) (\<lambda>packedData.
     bindE (bf_Add packedData f) (\<lambda>f.
       Inr (OutStream ((os_base s)\<lparr>sb_decodedSize := sb_decodedSize (os_base s) + of_nat size\<rparr>) (os_subStreams s), f)))))"

text \<open>Binary streams release their buffer; the others keep what \<open>GetStreamData\<close> returns.\<close>

definition ReleaseStreamData :: "stream_base \<Rightarrow> stream_base" where
  "ReleaseStreamData b =
     (if sb_type b = ROOT_STREAM_TYPE_ID \<or> sb_type b = COMPOSITE_STREAM_TYPE_ID \<or> sb_type b = BLOB_STREAM_TYPE_ID
      then b else b\<lparr>sb_data := []\<rparr>)"

definition os_Close :: "closer \<Rightarrow> out_stream \<Rightarrow> cache_file_out \<Rightarrow> stream_error + out_stream \<times> cache_file_out" where
  "os_Close close s f =
     bindE (WriteThisStream close s f) (\<lambda>(s, f).
     bindE (bf_AddDWORD (ucast (sb_decodedSize (os_base s))) f) (\<lambda>f.
       Inr (OutStream ((ReleaseStreamData (os_base s))\<lparr>sb_isOpen := False\<rparr>) (os_subStreams s), co_CloseStream f)))"

text \<open>
  The recursion through the virtual call ends with the nesting of the objects; the first argument bounds
  it, and the nesting depth is enough: the result without fuel is never reached.
\<close>

fun close_nested :: "nat \<Rightarrow> closer" where
  "close_nested 0 s f = Inl UndefinedRead"
| "close_nested (Suc n) s f =
     (if sb_isOpen (os_base s) \<or> sb_index (os_base s) = - 1
      then bindE (os_Close (close_nested n) s f) (\<lambda>(s, f). Inr (sb_index (os_base s), s, f))
      else Inr (sb_index (os_base s), s, f))"

fun os_depth :: "out_stream \<Rightarrow> nat" where
  "os_depth (OutStream b ss) = Suc (foldr max (map os_depth ss) 0)"

definition os_AutoClose :: closer where
  "os_AutoClose s f = close_nested (os_depth s) s f"

definition os_OpenSubStream ::
    "dword \<Rightarrow> dword \<Rightarrow> out_stream \<Rightarrow> cache_file_out \<Rightarrow> stream_error + out_stream \<times> cache_file_out" where
  "os_OpenSubStream subStreamID type s f =
     bindE (CloseLatestSubStream (close_nested (os_depth s)) (os_subStreams s) f) (\<lambda>(subStreams, f).
     bindE (GetFactory type) (\<lambda>type.
       Inr (OutStream (os_base s) (subStreams @ [new_stream subStreamID type]), f)))"

subsection \<open>Binary and BLOB streams\<close>

definition bs_Flush :: "out_stream \<Rightarrow> cache_file_out \<Rightarrow> stream_error + out_stream \<times> cache_file_out" where
  "bs_Flush s f =
     bindE (WriteThisStream (close_nested (os_depth s)) s f) (\<lambda>(s, f).
       Inr (OutStream ((os_base s)\<lparr>sb_data := []\<rparr>) (os_subStreams s), f))"

partial_function (option) bs_make_room ::
    "nat \<Rightarrow> out_stream \<Rightarrow> cache_file_out \<Rightarrow> (stream_error + out_stream \<times> cache_file_out) option" where
  "bs_make_room byteCount s f =
     (if length (sb_data (os_base s)) + byteCount > CHUNK_SIZE
      then case bs_Flush s f of Inl e \<Rightarrow> Some (Inl e) | Inr r \<Rightarrow> bs_make_room byteCount (fst r) (snd r)
      else Some (Inr (s, f)))"

definition bs_append :: "byte list \<Rightarrow> out_stream \<Rightarrow> out_stream" where
  "bs_append source s = OutStream ((os_base s)\<lparr>sb_data := sb_data (os_base s) @ source\<rparr>) (os_subStreams s)"

definition bs_Add ::
    "byte list \<Rightarrow> out_stream \<Rightarrow> cache_file_out \<Rightarrow> (stream_error + out_stream \<times> cache_file_out) option" where
  "bs_Add source s f =
     map_option (\<lambda>r. bindE r (\<lambda>(s, f). Inr (bs_append source s, f))) (bs_make_room (length source) s f)"

definition bs_AddByte :: "byte \<Rightarrow> out_stream \<Rightarrow> cache_file_out \<Rightarrow> stream_error + out_stream \<times> cache_file_out" where
  "bs_AddByte c s f =
     bindE (if length (sb_data (os_base s)) = CHUNK_SIZE then bs_Flush s f else Inr (s, f)) (\<lambda>(s, f).
       Inr (bs_append [c] s, f))"

definition bl_Add :: "byte list \<Rightarrow> out_stream \<Rightarrow> cache_file_out \<Rightarrow> stream_error + out_stream \<times> cache_file_out" where
  "bl_Add source s f =
     (if length source > unat (- 1 :: dword) then Inl (CStreamException ''BLOB to large for stream'')
      else bindE (os_AutoClose (OutStream ((os_base s)\<lparr>sb_data := source\<rparr>) (os_subStreams s)) f) (\<lambda>(_, s, f). Inr (s, f)))"

subsection \<open>CCacheFileInBuffer\<close>

text \<open>
  The mapped file and the addresses at which the streams start, one more than there are streams, as
  offsets to the start of the mapping.  A read outside of the mapping is an error value of its own.
\<close>

record cache_file_in =
  cfi_buffer :: "byte list"
  streamContents :: "nat list"

definition GetDWORD :: "byte list \<Rightarrow> nat \<Rightarrow> stream_error + dword" where
  "GetDWORD buffer offset =
     (if offset + 4 \<le> length buffer then Inr (bytes_dword (take 4 (drop offset buffer))) else Inl UndefinedRead)"

fun stream_starts :: "byte list \<Rightarrow> nat \<Rightarrow> size_t \<Rightarrow> nat \<Rightarrow> stream_error + nat list" where
  "stream_starts buffer 0 streamSizes lastStream = Inr []"
| "stream_starts buffer (Suc n) streamSizes lastStream =
     bindE (GetDWORD buffer (unat streamSizes)) (\<lambda>size.
     let lastStream = lastStream + unat size in
     bindE (stream_starts buffer n (streamSizes + 4) lastStream) (\<lambda>starts. Inr (lastStream # starts)))"

definition ReadStreamOffsets :: "byte list \<Rightarrow> stream_error + cache_file_in" where
  "ReadStreamOffsets buffer =
     (let size = of_nat (length buffer) :: size_t in
      if size < 3 * 4 then Inl (CStreamException ''log cache file too small'')
      else
        bindE (GetDWORD buffer 0) (\<lambda>creatorVersion.
        bindE (GetDWORD buffer 4) (\<lambda>requiredVersion.
        if creatorVersion < OLDEST_LOG_CACHE_FILE_VERSION then Inl (CStreamException ''log cache file format too old'')
        else if requiredVersion > NEWEST_LOG_CACHE_FILE_VERSION then Inl (CStreamException ''log cache file format too new'')
        else
          bindE (GetDWORD buffer (unat (size - 4))) (\<lambda>streamCount.
          if size < ucast (3 + streamCount) * 4
          then Inl (CStreamException ''log cache file too small to hold stream directory'')
          else
            let contentEnd = size - ucast (streamCount + 1) * 4 in
            bindE (stream_starts buffer (unat streamCount) contentEnd (2 * 4)) (\<lambda>starts.
            if (of_nat (last (2 * 4 # starts)) :: size_t) \<noteq> contentEnd
            then Inl (CStreamException ''stream directory corrupted'')
            else Inr \<lparr>cfi_buffer = buffer, streamContents = 2 * 4 # starts\<rparr>)))))"

definition GetLastStream :: "cache_file_in \<Rightarrow> dword" where
  "GetLastStream f = of_nat (length (streamContents f)) - 2"

text \<open>A stream index is a signed number; the comparison extends it to 64 bits.\<close>

definition GetStreamBuffer :: "cache_file_in \<Rightarrow> dword \<Rightarrow> stream_error + nat \<times> nat" where
  "GetStreamBuffer f index =
     (if (scast index :: size_t) \<ge> of_nat (length (streamContents f)) - 1 then Inl (CStreamException ''invalid stream index'')
      else Inr (streamContents f ! unat index, streamContents f ! (unat index + 1)))"

subsection \<open>Hierarchical input streams\<close>

text \<open>
  A stream object: its type, the range of its data in the file, behind the list of sub-streams, the decoded
  data while it is open, and its sub-streams by their id.
\<close>

datatype in_stream = InStream (is_type: dword) (is_first: nat) (is_last: nat) (is_decoded: "byte list option")
  (is_subStreams: "(dword \<times> in_stream) list")

text \<open>The part of \<open>ReadSubStreams\<close> before the loop: the range, the number of sub-streams and the size of their list.\<close>

definition read_directory :: "cache_file_in \<Rightarrow> dword \<Rightarrow> stream_error + nat \<times> nat \<times> dword \<times> nat" where
  "read_directory f index =
     bindE (GetStreamBuffer f index) (\<lambda>(first, final).
     let size = final - first in
     if 4 > size then Inl (CStreamException ''stream too short'')
     else
       bindE (GetDWORD (cfi_buffer f) first) (\<lambda>subStreamCount.
       let directorySize = unat (subStreamCount + 1) * 4 in
       if directorySize > size then Inl (CStreamException ''stream too short for sub-stream list'')
       else Inr (first, final, subStreamCount, directorySize)))"

definition emplace :: "'k \<Rightarrow> 'v \<Rightarrow> ('k \<times> 'v) list \<Rightarrow> ('k \<times> 'v) list" where
  "emplace k v m = (if k \<in> fst ` set m then m else m @ [(k, v)])"

definition read_entry :: "cache_file_in \<Rightarrow> nat \<Rightarrow> stream_error + dword \<times> dword \<times> dword" where
  "read_entry f source =
     bindE (GetDWORD (cfi_buffer f) source) (\<lambda>subStreamIndex.
     bindE (GetDWORD (cfi_buffer f) (source + 4)) (\<lambda>subStreamID.
     bindE (GetDWORD (cfi_buffer f) (source + 8)) (\<lambda>subStreamType.
     bindE (GetFactory subStreamType) (\<lambda>type. Inr (subStreamIndex, subStreamID, type)))))"

text \<open>
  The loop of \<open>ReadSubStreams\<close>, from the entry at \<open>source\<close> on.  The factory creates the sub-stream, whose
  constructor reads its own list of sub-streams first; nothing in the file bounds this recursion.
\<close>

partial_function (option) read_subs ::
    "cache_file_in \<Rightarrow> nat \<Rightarrow> nat \<Rightarrow> (dword \<times> in_stream) list \<Rightarrow> (stream_error + (dword \<times> in_stream) list) option" where
  "read_subs f source n subStreams =
     (if n = 0 then Some (Inr subStreams)
      else case bindE (read_entry f source) (\<lambda>(index, subStreamID, type).
             map_sum id (\<lambda>d. (subStreamID, type, d)) (read_directory f index)) of
        Inl e \<Rightarrow> Some (Inl e)
      | Inr (subStreamID, type, first, final, count, directorySize) \<Rightarrow>
          Option.bind (read_subs f (first + 4) (unat count) []) (\<lambda>r. case r of
            Inl e \<Rightarrow> Some (Inl e)
          | Inr subs \<Rightarrow>
              read_subs f (source + 12) (n - 1)
                (emplace subStreamID (InStream type (first + directorySize) final None subs) subStreams)))"

definition ReadSubStreams :: "dword \<Rightarrow> cache_file_in \<Rightarrow> dword \<Rightarrow> (stream_error + in_stream) option" where
  "ReadSubStreams type f index =
     (case read_directory f index of
        Inl e \<Rightarrow> Some (Inl e)
      | Inr (first, final, count, directorySize) \<Rightarrow>
          map_option (map_sum id (InStream type (first + directorySize) final None)) (read_subs f (first + 4) (unat count) []))"

partial_function (option) decode_blocks_loop ::
    "input_buffer \<Rightarrow> output_buffer \<Rightarrow> huffman_decoder \<Rightarrow> (stream_error + byte list) option" where
  "decode_blocks_loop source target t =
     (if ob_remaining target > 0
      then case Decode source target t of
             Inl e \<Rightarrow> Some (Inl e)
           | Inr r \<Rightarrow> decode_blocks_loop (fst r) (fst (snd r)) (snd (snd r))
      else Some (Inr (ob_written target)))"

definition DecodeThisStream :: "cache_file_in \<Rightarrow> in_stream \<Rightarrow> (stream_error + in_stream) option" where
  "DecodeThisStream f s =
     (case GetDWORD (cfi_buffer f) (is_last s - 4) of
        Inl e \<Rightarrow> Some (Inl e)
      | Inr decodedSize \<Rightarrow>
          map_option (map_sum id (\<lambda>d. InStream (is_type s) (is_first s) (is_last s) (Some d) (is_subStreams s)))
            (decode_blocks_loop
              \<lparr>ib_current = drop (is_first s) (cfi_buffer f), ib_remaining = is_last s - is_first s\<rparr>
              \<lparr>ob_written = [], ob_remaining = unat decodedSize\<rparr> huffman_decoder_init))"

definition is_AutoOpen :: "cache_file_in \<Rightarrow> in_stream \<Rightarrow> (stream_error + in_stream) option" where
  "is_AutoOpen f s = (if is_decoded s = None then DecodeThisStream f s else Some (Inr s))"

definition is_AutoClose :: "in_stream \<Rightarrow> in_stream" where
  "is_AutoClose s = InStream (is_type s) (is_first s) (is_last s) None (is_subStreams s)"

definition HasSubStream :: "dword \<Rightarrow> in_stream \<Rightarrow> bool" where
  "HasSubStream subStreamID s \<longleftrightarrow> subStreamID \<in> fst ` set (is_subStreams s)"

text \<open>The sub-stream found, which was opened on demand; the caller puts it back.\<close>

definition is_GetSubStream :: "cache_file_in \<Rightarrow> dword \<Rightarrow> bool \<Rightarrow> in_stream \<Rightarrow> (stream_error + in_stream) option" where
  "is_GetSubStream f subStreamID autoOpen s =
     (case map_of (is_subStreams s) subStreamID of
        None \<Rightarrow> Some (Inl (CStreamException ''no such sub-stream''))
      | Some c \<Rightarrow> if autoOpen then is_AutoOpen f c else Some (Inr c))"

definition CRootInStream :: "byte list \<Rightarrow> (stream_error + cache_file_in \<times> in_stream) option" where
  "CRootInStream file =
     (case ReadStreamOffsets file of
        Inl e \<Rightarrow> Some (Inl e)
      | Inr f \<Rightarrow>
          Option.bind (ReadSubStreams ROOT_STREAM_TYPE_ID f (GetLastStream f)) (\<lambda>r. case r of
            Inl e \<Rightarrow> Some (Inl e)
          | Inr s \<Rightarrow> map_option (map_sum id (\<lambda>s. (f, s))) (DecodeThisStream f s)))"

subsection \<open>Saving and loading a tree of streams\<close>

text \<open>
  What a client writes: a tree of streams, each with its id, its type, the blocks of data given to \<open>Add\<close>, and
  its sub-streams.  As the containers do, the client opens a sub-stream, writes it, and then opens the
  next one; the data of the stream itself follows.
\<close>

datatype stream_doc = Doc (doc_id: dword) (doc_type: dword) (doc_blocks: "byte list list") (doc_subs: "stream_doc list")

definition bindR :: "('e + 'a) option \<Rightarrow> ('a \<Rightarrow> ('e + 'b) option) \<Rightarrow> ('e + 'b) option" where
  "bindR m g = (case m of None \<Rightarrow> None | Some (Inl e) \<Rightarrow> Some (Inl e) | Some (Inr x) \<Rightarrow> g x)"

lemma bindR_simps [simp]: "bindR (Some (Inl e)) g = Some (Inl e)" "bindR (Some (Inr x)) g = g x" "bindR None g = None"
  by (simp_all add: bindR_def)

definition write_block ::
    "byte list \<Rightarrow> out_stream \<Rightarrow> cache_file_out \<Rightarrow> (stream_error + out_stream \<times> cache_file_out) option" where
  "write_block b s f = (if sb_type (os_base s) = BLOB_STREAM_TYPE_ID then Some (bl_Add b s f) else bs_Add b s f)"

fun write_blocks ::
    "byte list list \<Rightarrow> out_stream \<Rightarrow> cache_file_out \<Rightarrow> (stream_error + out_stream \<times> cache_file_out) option" where
  "write_blocks [] s f = Some (Inr (s, f))"
| "write_blocks (b # bs) s f = bindR (write_block b s f) (\<lambda>(s, f). write_blocks bs s f)"

fun write_doc :: "stream_doc \<Rightarrow> out_stream \<Rightarrow> cache_file_out \<Rightarrow> (stream_error + out_stream \<times> cache_file_out) option"
  and write_docs :: "stream_doc list \<Rightarrow> out_stream \<Rightarrow> cache_file_out \<Rightarrow> (stream_error + out_stream \<times> cache_file_out) option"
where
  "write_doc (Doc i t blocks subs) s f = bindR (write_docs subs s f) (\<lambda>(s, f). write_blocks blocks s f)"
| "write_docs [] s f = Some (Inr (s, f))"
| "write_docs (d # ds) s f =
     bindR (Some (os_OpenSubStream (doc_id d) (doc_type d) s f)) (\<lambda>(s, f).
     bindR (write_doc d (last (os_subStreams s)) f) (\<lambda>(c, f).
     write_docs ds (OutStream (os_base s) (butlast (os_subStreams s) @ [c])) f))"

text \<open>\<open>CRootOutStream\<close>: the constructor, the client, and the destructors of the stream and its file.\<close>

definition save_file :: "stream_doc list \<Rightarrow> (stream_error + byte list option) option" where
  "save_file docs =
     bindR (Some co_init) (\<lambda>f.
     bindR (write_docs docs (new_stream 0 ROOT_STREAM_TYPE_ID) f) (\<lambda>(s, f).
     Some (bindE (os_AutoClose s f) (\<lambda>(_, _, f). co_destroy f))))"

text \<open>A reader that opens every stream and takes all data it shows.\<close>

fun read_doc :: "cache_file_in \<Rightarrow> dword \<Rightarrow> in_stream \<Rightarrow> (stream_error + stream_doc) option"
  and read_docs :: "cache_file_in \<Rightarrow> (dword \<times> in_stream) list \<Rightarrow> (stream_error + stream_doc list) option"
where
  "read_doc f i (InStream t first final decoded subs) =
     bindR (is_AutoOpen f (InStream t first final decoded subs)) (\<lambda>s.
     bindR (read_docs f subs) (\<lambda>docs.
       Some (Inr (Doc i t [case is_decoded s of None \<Rightarrow> [] | Some d \<Rightarrow> d] docs))))"
| "read_docs f [] = Some (Inr [])"
| "read_docs f (s # ss) = bindR (read_doc f (fst s) (snd s)) (\<lambda>d. bindR (read_docs f ss) (\<lambda>ds. Some (Inr (d # ds))))"

definition load_file :: "byte list \<Rightarrow> (stream_error + stream_doc list) option" where
  "load_file file = bindR (CRootInStream file) (\<lambda>(f, s). read_docs f (is_subStreams s))"

end
