(* ===== verification/CacheFileWriter.thy ===== *)
theory CacheFileWriter
  imports CacheFile
begin

section \<open>What is in a cache file\<close>

text \<open>
  How the streams of a tree lie in a file, and that the writer puts them there: the buffered file is the
  sequence of the bytes added, a stream that was closed is in the file, and closing a stream writes its
  sub-streams first.
\<close>

subsection \<open>The buffered file is a sequence of bytes\<close>

definition bf_bytes :: "'a buffered_out_file_scheme \<Rightarrow> byte list" where
  "bf_bytes f = bf_written f @ bf_buffer f"

definition co_at :: "cache_file_out \<Rightarrow> byte list \<Rightarrow> size_t list \<Rightarrow> bool" where
  "co_at f bs offs \<longleftrightarrow> length (bf_buffer f) \<le> unat BUFFER_SIZE \<and> bf_bytes f = bs \<and>
     bf_fileSize f = of_nat (length bs) \<and> streamOffsets f = offs"

lemma unat_BUFFER_SIZE: "unat BUFFER_SIZE = 2 ^ 20"
  by (simp add: BUFFER_SIZE_def)

lemma length_dword_bytes4 [simp]: "length (dword_bytes v) = 4"
  by (simp add: dword_bytes_def)

lemma bf_Add_ok:
  assumes f: "co_at f bs offs" and n: "length data < 2 ^ 30"
  shows "\<exists>f'. bf_Add data f = Inr f' \<and> co_at f' (bs @ data) offs"
proof -
  let ?u = "of_nat (length (bf_buffer f)) :: dword" and ?b = "of_nat (length data) :: dword"
  have u: "length (bf_buffer f) \<le> 2 ^ 20" using f by (simp add: co_at_def unat_BUFFER_SIZE)
  have un: "unat ?u = length (bf_buffer f)" "unat ?b = length data" using u n by (simp_all add: unat_of_nat_small)
  have sum: "unat (?u + ?b) = length (bf_buffer f) + length data" using un u n by (simp add: unat_word_ariths del: of_nat_add)
  have gt: "?u + ?b > BUFFER_SIZE \<longleftrightarrow> 2 ^ 20 < length (bf_buffer f) + length data" unfolding word_less_nat_alt sum unat_BUFFER_SIZE by simp
  have ge: "?b \<ge> BUFFER_SIZE \<longleftrightarrow> 2 ^ 20 \<le> length data" unfolding word_le_nat_alt un unat_BUFFER_SIZE by simp
  have r: "bf_Add data f =
      (if 2 ^ 20 < length (bf_buffer f) + length data
       then if 2 ^ 20 \<le> length data
         then Inr ((bf_Flush f)\<lparr>bf_written := bf_written (bf_Flush f) @ data, bf_fileSize := bf_fileSize (bf_Flush f) + of_nat (length data)\<rparr>)
         else bf_buffer_chunk data (bf_Flush f)
       else bf_buffer_chunk data f)"
    unfolding bf_Add_def Let_def gt ge ..
  show ?thesis using f unfolding r
    by (auto simp: co_at_def bf_Flush_def bf_bytes_def bf_buffer_chunk_def unat_BUFFER_SIZE)
qed

lemma bf_AddDWORD_ok: "co_at f bs offs \<Longrightarrow> \<exists>f'. bf_AddDWORD v f = Inr f' \<and> co_at f' (bs @ dword_bytes v) offs"
  unfolding bf_AddDWORD_def by (rule bf_Add_ok) simp_all

lemma bf_Flush_bytes: "bf_written (bf_Flush f) = bf_bytes f"
  by (simp add: bf_Flush_def bf_bytes_def)

subsection \<open>Streams in a file\<close>

definition file_header :: "byte list" where
  "file_header = dword_bytes OUR_LOG_CACHE_FILE_VERSION @ dword_bytes MIN_LOG_CACHE_FILE_VERSION"

lemma length_file_header [simp]: "length file_header = 8"
  by (simp add: file_header_def)

definition start_of :: "byte list list \<Rightarrow> nat \<Rightarrow> nat" where
  "start_of ss k = 8 + length (concat (take k ss))"

lemma start_of_append [simp]: "k \<le> length ss \<Longrightarrow> start_of (ss @ ts) k = start_of ss k"
  by (simp add: start_of_def)

lemma start_of_0 [simp]: "start_of ss 0 = 8"
  by (simp add: start_of_def)

lemma start_of_Suc: "k < length ss \<Longrightarrow> start_of ss (Suc k) = start_of ss k + length (ss ! k)"
  by (simp add: start_of_def take_Suc_conv_app_nth)

definition file_open :: "cache_file_out \<Rightarrow> byte list list \<Rightarrow> byte list \<Rightarrow> bool" where
  "file_open f ss part \<longleftrightarrow> (\<forall>x \<in> set ss. length x < 2 ^ 32 - 1) \<and>
     co_at f (file_header @ concat ss @ part) (map (\<lambda>k. of_nat (start_of ss k)) [0..<Suc (length ss)])"

definition file_holds :: "cache_file_out \<Rightarrow> byte list list \<Rightarrow> bool" where
  "file_holds f ss \<longleftrightarrow> (\<forall>x \<in> set ss. length x < 2 ^ 32 - 1) \<and>
     co_at f (file_header @ concat ss) (map (\<lambda>k. of_nat (start_of ss k)) [0..<length ss])"

lemma co_init_ok: "\<exists>f. co_init = Inr f \<and> file_holds f []"
proof -
  let ?f = "\<lparr>bf_written = [], bf_buffer = [], bf_fileSize = 0, streamOffsets = [], streamIsOpen = False\<rparr> :: cache_file_out"
  have "co_at ?f [] []" by (simp add: co_at_def bf_bytes_def)
  then obtain f1 where f1: "bf_AddDWORD OUR_LOG_CACHE_FILE_VERSION ?f = Inr f1" "co_at f1 (dword_bytes OUR_LOG_CACHE_FILE_VERSION) []"
    using bf_AddDWORD_ok [of ?f "[]" "[]" OUR_LOG_CACHE_FILE_VERSION] by auto
  then show ?thesis using bf_AddDWORD_ok [OF f1(2), of MIN_LOG_CACHE_FILE_VERSION]
    by (auto simp: co_init_def file_holds_def file_header_def)
qed

lemma co_OpenStream_ok:
  assumes "file_holds f ss"
  shows "\<exists>f'. co_OpenStream f = (of_nat (length ss), f') \<and> file_open f' ss []"
  using assms by (auto simp: co_OpenStream_def file_holds_def file_open_def co_at_def bf_bytes_def start_of_def Let_def)

lemma file_open_Add:
  assumes "file_open f ss part" "length data < 2 ^ 30"
  shows "\<exists>f'. bf_Add data f = Inr f' \<and> file_open f' ss (part @ data)"
  using bf_Add_ok [OF _ assms(2), of f "file_header @ concat ss @ part"] assms(1) by (auto simp: file_open_def)

lemma file_open_AddDWORD: "file_open f ss part \<Longrightarrow> \<exists>f'. bf_AddDWORD v f = Inr f' \<and> file_open f' ss (part @ dword_bytes v)"
  unfolding bf_AddDWORD_def by (rule file_open_Add) simp_all

lemma file_open_CloseStream:
  "file_open f ss part \<Longrightarrow> length part < 2 ^ 32 - 1 \<Longrightarrow> file_holds (co_CloseStream f) (ss @ [part])"
  by (auto simp: file_open_def file_holds_def co_CloseStream_def co_at_def bf_bytes_def)

definition directory_bytes :: "nat list \<Rightarrow> stream_doc list \<Rightarrow> byte list" where
  "directory_bytes ixs docs =
     concat (map2 (\<lambda>i d. dword_bytes (of_nat i) @ dword_bytes (doc_id d) @ dword_bytes (doc_type d)) ixs docs)"

text \<open>
  The tree \<open>Doc i t blocks subs\<close> is stored in the n-th stream of a file: its data is cut into blocks \<open>cs\<close>
  (only the last may be empty) that are coded as \<open>es\<close>, and its sub-streams are stored in streams of their own.
\<close>

definition coded :: "byte list list \<Rightarrow> byte list list \<Rightarrow> bool" where
  "coded cs es \<longleftrightarrow> list_all2 (\<lambda>c e. Encode c = Inr e) cs es \<and> (\<forall>c \<in> set cs. length c < 2 ^ 28) \<and> [] \<notin> set (butlast cs)"

inductive stored :: "byte list list \<Rightarrow> nat \<Rightarrow> stream_doc \<Rightarrow> bool" for ss where
  stored_Doc: "n < length ss \<Longrightarrow> list_all2 (stored ss) ixs subs \<Longrightarrow> coded cs es \<Longrightarrow> concat cs = concat blocks \<Longrightarrow>
     ss ! n = dword_bytes (of_nat (length subs)) @ directory_bytes ixs subs @ concat es @ dword_bytes (of_nat (length (concat blocks))) \<Longrightarrow>
     stored ss n (Doc i t blocks subs)"

lemma stored_append: "stored ss n d \<Longrightarrow> stored (ss @ ts) n d"
proof (induction rule: stored.induct)
  case (stored_Doc n ixs subs cs es blocks i t)
  then show ?case by (intro stored.stored_Doc [where cs = cs]) (auto simp: nth_append elim!: list_all2_mono)
qed

lemma stored_all_append: "list_all2 (stored ss) ixs docs \<Longrightarrow> list_all2 (stored (ss @ ts)) ixs docs"
  by (erule list_all2_mono) (rule stored_append)

inductive_cases stored_DocE: "stored ss n (Doc i t blocks subs)"

lemma stored_less: "stored ss n d \<Longrightarrow> n < length ss"
  by (auto elim: stored.cases)

definition sub_done :: "byte list list \<Rightarrow> out_stream \<Rightarrow> stream_doc \<Rightarrow> bool" where
  "sub_done ss c d \<longleftrightarrow> sb_id (os_base c) = doc_id d \<and> sb_type (os_base c) = doc_type d \<and> \<not> sb_isOpen (os_base c) \<and>
     sb_index (os_base c) \<noteq> - 1 \<and> (\<exists>n. sb_index (os_base c) = of_nat n \<and> stored ss n d)"

lemma sub_done_append: "sub_done ss c d \<Longrightarrow> sub_done (ss @ ts) c d"
  unfolding sub_done_def using stored_append by blast

lemma close_done: "sub_done ss c d \<Longrightarrow> close_nested (Suc n) c f = Inr (sb_index (os_base c), c, f)"
  by (simp add: sub_done_def)

lemma write_entries_ok:
  assumes "list_all2 (sub_done ss) subs docs" "file_open f ss' part"
  shows "\<exists>ixs f'. write_entries (close_nested (Suc n)) subs f = Inr (subs, f') \<and> list_all2 (stored ss) ixs docs \<and>
    file_open f' ss' (part @ directory_bytes ixs docs)"
  using assms
proof (induction subs arbitrary: docs f part)
  case (Cons c subs)
  from Cons.prems obtain d ds where d: "docs = d # ds" "sub_done ss c d" "list_all2 (sub_done ss) subs ds"
    by (auto simp: list_all2_Cons1)
  then obtain i where i: "sb_index (os_base c) = of_nat i" "stored ss i d" "sb_id (os_base c) = doc_id d" "sb_type (os_base c) = doc_type d"
    by (auto simp: sub_done_def)
  obtain f1 where f1: "bf_AddDWORD (of_nat i) f = Inr f1" "file_open f1 ss' (part @ dword_bytes (of_nat i))"
    using file_open_AddDWORD [OF Cons.prems(2)] by blast
  obtain f2 where f2: "bf_AddDWORD (doc_id d) f1 = Inr f2" "file_open f2 ss' ((part @ dword_bytes (of_nat i)) @ dword_bytes (doc_id d))"
    using file_open_AddDWORD [OF f1(2)] by blast
  obtain f3 where f3: "bf_AddDWORD (doc_type d) f2 = Inr f3"
      "file_open f3 ss' (((part @ dword_bytes (of_nat i)) @ dword_bytes (doc_id d)) @ dword_bytes (doc_type d))"
    using file_open_AddDWORD [OF f2(2)] by blast
  obtain ixs f' where f': "write_entries (close_nested (Suc n)) subs f3 = Inr (subs, f')" "list_all2 (stored ss) ixs ds"
      "file_open f' ss' ((((part @ dword_bytes (of_nat i)) @ dword_bytes (doc_id d)) @ dword_bytes (doc_type d)) @ directory_bytes ixs ds)"
    using Cons.IH [OF d(3) f3(2)] by blast
  have "write_entries (close_nested (Suc n)) (c # subs) f = Inr (c # subs, f')"
    using close_done [OF d(2)] i(1,3,4) f1(1) f2(1) f3(1) f'(1) by (simp del: close_nested.simps)
  moreover have "list_all2 (stored ss) (i # ixs) docs" using i(2) f'(2) d(1) by simp
  moreover have "file_open f' ss' (part @ directory_bytes (i # ixs) docs)" using f'(3) by (simp add: d(1) directory_bytes_def)
  ultimately show ?case by blast
qed (auto simp: directory_bytes_def)

subsection \<open>Writing a stream\<close>

lemma foldr_max_ge: "x \<in> set xs \<Longrightarrow> x \<le> foldr max xs (a :: nat)"
  by (induction xs) auto

lemma os_depth_sub: "c \<in> set (os_subStreams s) \<Longrightarrow> os_depth c < os_depth s"
  by (cases s) (auto simp: less_Suc_eq_le intro!: foldr_max_ge)

lemma os_depth_pos: "\<exists>m. os_depth s = Suc m"
  by (cases s) simp

text \<open>
  \<open>finishes\<close>: closing the stream puts it into the file, as number \<open>N\<close>, behind the streams \<open>ss\<close> and those it
  still has to close.  \<open>subs_ready\<close>: the same for the sub-streams of a stream, of which only the latest can be open.
\<close>

definition finishes :: "byte list list \<Rightarrow> nat \<Rightarrow> out_stream \<Rightarrow> cache_file_out \<Rightarrow> stream_doc \<Rightarrow> bool" where
  "finishes ss N c f d \<longleftrightarrow> (\<forall>n \<ge> os_depth c. \<exists>c' f' ss'. close_nested n c f = Inr (sb_index (os_base c'), c', f') \<and>
     file_holds f' (ss @ ss') \<and> length (ss @ ss') = Suc N \<and> sub_done (ss @ ss') c' d)"

definition subs_ready :: "byte list list \<Rightarrow> nat \<Rightarrow> out_stream list \<Rightarrow> cache_file_out \<Rightarrow> stream_doc list \<Rightarrow> bool" where
  "subs_ready ss N subs f docs \<longleftrightarrow> (\<forall>n. (\<forall>c \<in> set subs. os_depth c \<le> n) \<longrightarrow> (\<exists>subs' f' ss'.
     CloseLatestSubStream (close_nested n) subs f = Inr (subs', f') \<and> file_holds f' (ss @ ss') \<and> length (ss @ ss') = N \<and>
     length subs' = length subs \<and> list_all2 (sub_done (ss @ ss')) subs' docs))"

lemma subs_ready_Nil: "file_holds f ss \<Longrightarrow> subs_ready ss (length ss) [] f []"
  by (simp add: subs_ready_def CloseLatestSubStream_def exI [of _ "[]"])

lemma subs_ready_snoc:
  assumes subs: "list_all2 (sub_done ss) subs docs" and c: "finishes ss N c f d"
  shows "subs_ready ss (Suc N) (subs @ [c]) f (docs @ [d])"
  unfolding subs_ready_def
proof (intro allI impI)
  fix n assume "\<forall>x \<in> set (subs @ [c]). os_depth x \<le> n"
  then obtain c' f' ss' where c': "close_nested n c f = Inr (sb_index (os_base c'), c', f')" "file_holds f' (ss @ ss')"
      "length (ss @ ss') = Suc N" "sub_done (ss @ ss') c' d" using c unfolding finishes_def by fastforce
  have "list_all2 (sub_done (ss @ ss')) (subs @ [c']) (docs @ [d])"
    using list_all2_mono [OF subs, of "sub_done (ss @ ss')"] c'(4) sub_done_append
    by (auto simp: list_all2_append list_all2_lengthD [OF subs])
  then show "\<exists>subs' f' ss'. CloseLatestSubStream (close_nested n) (subs @ [c]) f = Inr (subs', f') \<and> file_holds f' (ss @ ss') \<and>
      length (ss @ ss') = Suc N \<and> length subs' = length (subs @ [c]) \<and> list_all2 (sub_done (ss @ ss')) subs' (docs @ [d])"
    using c' by (intro exI [of _ "subs @ [c']"] exI [of _ f'] exI [of _ ss']) (simp add: CloseLatestSubStream_def)
qed

lemma subs_ready_mono:
  assumes "subs_ready (ss @ ts) N subs f docs"
  shows "subs_ready ss N subs f docs"
  unfolding subs_ready_def
proof (intro allI impI)
  fix n assume "\<forall>c \<in> set subs. os_depth c \<le> n"
  then obtain subs' f' ss' where "CloseLatestSubStream (close_nested n) subs f = Inr (subs', f')" "file_holds f' ((ss @ ts) @ ss')"
      "length ((ss @ ts) @ ss') = N" "length subs' = length subs" "list_all2 (sub_done ((ss @ ts) @ ss')) subs' docs"
    using assms unfolding subs_ready_def by blast
  then show "\<exists>subs' f' ss'. CloseLatestSubStream (close_nested n) subs f = Inr (subs', f') \<and> file_holds f' (ss @ ss') \<and>
      length (ss @ ss') = N \<and> length subs' = length subs \<and> list_all2 (sub_done (ss @ ss')) subs' docs"
    by (intro exI [of _ subs'] exI [of _ f'] exI [of _ "ts @ ss'"]) simp
qed

text \<open>The state of a stream whose blocks \<open>cs\<close> are already in the file, behind its list of sub-streams.\<close>

definition written ::
    "byte list list \<Rightarrow> nat \<Rightarrow> out_stream \<Rightarrow> cache_file_out \<Rightarrow> stream_doc list \<Rightarrow> byte list list \<Rightarrow> bool" where
  "written ss N s f docs cs \<longleftrightarrow> sb_isOpen (os_base s) \<and> sb_index (os_base s) = of_nat N \<and>
     sb_decodedSize (os_base s) = of_nat (length (concat cs)) \<and>
     (\<exists>ss' ixs es. length (ss @ ss') = N \<and> list_all2 (stored (ss @ ss')) ixs docs \<and> coded cs es \<and>
        file_open f (ss @ ss') (dword_bytes (of_nat (length docs)) @ directory_bytes ixs docs @ concat es))"

definition in_progress ::
    "byte list list \<Rightarrow> nat \<Rightarrow> out_stream \<Rightarrow> cache_file_out \<Rightarrow> stream_doc list \<Rightarrow> byte list \<Rightarrow> nat \<Rightarrow> bool" where
  "in_progress ss N s f docs content k \<longleftrightarrow>
     \<not> sb_isOpen (os_base s) \<and> sb_index (os_base s) = - 1 \<and> sb_decodedSize (os_base s) = 0 \<and> sb_data (os_base s) = content \<and>
       subs_ready ss N (os_subStreams s) f docs \<or>
     (\<exists>cs. written ss N s f docs cs \<and> length cs \<le> k \<and> [] \<notin> set cs \<and> content = concat cs @ sb_data (os_base s))"

lemma os_AutoOpen_ok:
  assumes s: "\<not> sb_isOpen (os_base s)" "sb_decodedSize (os_base s) = 0" and r: "subs_ready ss N (os_subStreams s) f docs"
    and n: "\<forall>c \<in> set (os_subStreams s). os_depth c \<le> n"
  shows "\<exists>subs f'. os_AutoOpen (close_nested n) s f = Inr (OutStream ((os_base s)\<lparr>sb_isOpen := True, sb_index := of_nat N\<rparr>) subs, f') \<and>
    written ss N (OutStream ((os_base s)\<lparr>sb_isOpen := True, sb_index := of_nat N\<rparr>) subs) f' docs []"
proof -
  obtain subs f1 ss' where c: "CloseLatestSubStream (close_nested n) (os_subStreams s) f = Inr (subs, f1)" "file_holds f1 (ss @ ss')"
      "length (ss @ ss') = N" "length subs = length (os_subStreams s)" "list_all2 (sub_done (ss @ ss')) subs docs"
    using r n unfolding subs_ready_def by blast
  obtain f2 where f2: "co_OpenStream f1 = (of_nat N, f2)" "file_open f2 (ss @ ss') []" using co_OpenStream_ok [OF c(2)] c(3) by auto
  obtain f3 where f3: "bf_AddDWORD (of_nat (length docs)) f2 = Inr f3" "file_open f3 (ss @ ss') (dword_bytes (of_nat (length docs)))"
    using file_open_AddDWORD [OF f2(2)] by auto
  obtain ixs f4 where f4: "write_entries (close_nested n) subs f3 = Inr (subs, f4)" "list_all2 (stored (ss @ ss')) ixs docs"
      "file_open f4 (ss @ ss') (dword_bytes (of_nat (length docs)) @ directory_bytes ixs docs)"
  proof (cases n)
    case 0
    then have "os_subStreams s = []" using n os_depth_pos by (cases "os_subStreams s") (auto, metis nat.distinct(1))
    then have "subs = []" "docs = []" using c(4,5) by auto
    then show ?thesis using that [of f3 "[]"] f3(2) by (simp add: directory_bytes_def)
  next
    case (Suc m)
    then show ?thesis using that write_entries_ok [OF c(5) f3(2), of m] by blast
  qed
  let ?s = "OutStream ((os_base s)\<lparr>sb_isOpen := True, sb_index := of_nat N\<rparr>) subs"
  have "os_AutoOpen (close_nested n) s f = Inr (?s, f4)"
    using s(1) c(1) f2(1) f3(1) f4(1) list_all2_lengthD [OF c(5)] by (simp add: os_AutoOpen_def WriteSubStreamList_def)
  moreover have "coded [] []" by (simp add: coded_def)
  then have "written ss N ?s f4 docs []" using f4(2,3) c(3) s(2) unfolding written_def by fastforce
  ultimately show ?thesis by blast
qed

lemma butlast_snoc_ne: "[] \<notin> set cs \<Longrightarrow> [] \<notin> set (butlast (cs @ [c]))"
  by simp

lemma WriteThisStream_ok:
  assumes p: "in_progress ss N s f docs content k" and n: "\<forall>c \<in> set (os_subStreams s). os_depth c \<le> n"
    and d: "length (sb_data (os_base s)) < 2 ^ 28"
  shows "\<exists>s' f' cs. WriteThisStream (close_nested n) s f = Inr (s', f') \<and> written ss N s' f' docs cs \<and> concat cs = content \<and>
    length cs \<le> Suc k \<and> (sb_data (os_base s) \<noteq> [] \<longrightarrow> [] \<notin> set cs) \<and> sb_data (os_base s') = sb_data (os_base s) \<and>
    sb_id (os_base s') = sb_id (os_base s) \<and> sb_type (os_base s') = sb_type (os_base s)"
proof -
  let ?data = "sb_data (os_base s)"
  obtain s1 f1 cs where o: "os_AutoOpen (close_nested n) s f = Inr (s1, f1)" "written ss N s1 f1 docs cs" "length cs \<le> k"
      "[] \<notin> set cs" "content = concat cs @ ?data" "sb_data (os_base s1) = ?data" "sb_id (os_base s1) = sb_id (os_base s)"
      "sb_type (os_base s1) = sb_type (os_base s)"
    using p unfolding in_progress_def
  proof (elim disjE exE conjE)
    assume "\<not> sb_isOpen (os_base s)" "sb_decodedSize (os_base s) = 0" "subs_ready ss N (os_subStreams s) f docs" "?data = content"
    then show ?thesis using that os_AutoOpen_ok [OF _ _ _ n, of ss N f docs] by fastforce
  next
    fix cs assume "written ss N s f docs cs" "length cs \<le> k" "[] \<notin> set cs" "content = concat cs @ ?data"
    then show ?thesis using that [of s f cs] by (simp add: os_AutoOpen_def written_def)
  qed
  obtain ss' ixs es where w: "sb_isOpen (os_base s1)" "sb_index (os_base s1) = of_nat N"
      "sb_decodedSize (os_base s1) = of_nat (length (concat cs))" "length (ss @ ss') = N" "list_all2 (stored (ss @ ss')) ixs docs"
      "coded cs es" "file_open f1 (ss @ ss') (dword_bytes (of_nat (length docs)) @ directory_bytes ixs docs @ concat es)"
    using o(2) unfolding written_def by blast
  obtain e where e: "Encode ?data = Inr e" "length e \<le> length ?data + 9" using Encode_length [OF d] by blast
  obtain f2 where f2: "bf_Add e f1 = Inr f2"
      "file_open f2 (ss @ ss') ((dword_bytes (of_nat (length docs)) @ directory_bytes ixs docs @ concat es) @ e)"
    using file_open_Add [OF w(7), of e] e(2) d by auto
  let ?s = "OutStream ((os_base s1)\<lparr>sb_decodedSize := sb_decodedSize (os_base s1) + of_nat (length ?data)\<rparr>) (os_subStreams s1)"
  have "GetStreamSize (os_base s1) = Inr (length ?data)"
    using d o(6) by (simp add: GetStreamSize_def Let_def unsigned_minus_1_eq_mask mask_eq_exp_minus_1)
  then have "WriteThisStream (close_nested n) s f = Inr (?s, f2)" using o(1,6) e(1) f2(1) by (simp add: WriteThisStream_def)
  moreover have "coded (cs @ [?data]) (es @ [e])" using w(6) e(1) d o(4) by (auto simp: coded_def list_all2_append list_all2_lengthD)
  then have "written ss N ?s f2 docs (cs @ [?data])" unfolding written_def using w f2(2)
    by (intro conjI exI [of _ ss'] exI [of _ ixs] exI [of _ "es @ [e]"]) simp_all
  ultimately show ?thesis using o(3-8)
    by (intro exI [of _ ?s] exI [of _ f2] exI [of _ "cs @ [?data]"]) simp
qed

lemma coded_length: "coded cs es \<Longrightarrow> length (concat es) \<le> length (concat cs) + 9 * length cs"
proof -
  assume c: "coded cs es"
  then have "list_all2 (\<lambda>c e. Encode c = Inr e \<and> length c < 2 ^ 28) cs es"
    by (simp add: coded_def list_all2_conv_all_nth)
  then show ?thesis
  proof (induction rule: list_all2_induct)
    case (Cons c cs e es)
    then show ?case using Encode_length [of c] by auto
  qed simp
qed

lemma length_directory_bytes: "length ixs = length docs \<Longrightarrow> length (directory_bytes ixs docs) = 12 * length docs"
  by (induction ixs docs rule: list_induct2) (simp_all add: directory_bytes_def)

lemma of_nat_index: "N < 2 ^ 31 \<Longrightarrow> (of_nat N :: dword) \<noteq> - 1"
  by (auto simp: word_unat_eq_iff unat_of_nat_small unsigned_minus_1_eq_mask mask_eq_exp_minus_1)

lemma close_nested_ok:
  assumes p: "in_progress ss N s f docs content k" and n: "os_depth s \<le> n" and d: "length (sb_data (os_base s)) < 2 ^ 28"
    and N: "N < 2 ^ 31" and size: "17 + 12 * length docs + length content + 9 * k < 2 ^ 32 - 1"
    and doc: "doc = Doc (sb_id (os_base s)) (sb_type (os_base s)) blocks docs" "concat blocks = content"
  shows "\<exists>c' f' ss'. close_nested n s f = Inr (sb_index (os_base c'), c', f') \<and> file_holds f' (ss @ ss') \<and>
    length (ss @ ss') = Suc N \<and> sub_done (ss @ ss') c' doc \<and> sb_index (os_base c') = of_nat N"
proof -
  obtain m where m: "n = Suc m" using n os_depth_pos [of s] by (cases n) auto
  have dm: "\<forall>c \<in> set (os_subStreams s). os_depth c \<le> m" using n m os_depth_sub by fastforce
  obtain s1 f1 cs where w: "WriteThisStream (close_nested m) s f = Inr (s1, f1)" "written ss N s1 f1 docs cs" "concat cs = content"
      "length cs \<le> Suc k" "sb_id (os_base s1) = sb_id (os_base s)" "sb_type (os_base s1) = sb_type (os_base s)"
    using WriteThisStream_ok [OF p dm d] by blast
  obtain ss' ixs es where i: "sb_index (os_base s1) = of_nat N"
      "sb_decodedSize (os_base s1) = of_nat (length (concat cs))" "length (ss @ ss') = N" "list_all2 (stored (ss @ ss')) ixs docs"
      "coded cs es" "file_open f1 (ss @ ss') (dword_bytes (of_nat (length docs)) @ directory_bytes ixs docs @ concat es)"
    using w(2) unfolding written_def by blast
  let ?total = "of_nat (length content) :: dword"
  let ?part = "dword_bytes (of_nat (length docs)) @ directory_bytes ixs docs @ concat es @ dword_bytes ?total"
  have total: "ucast (sb_decodedSize (os_base s1)) = ?total" unfolding i(2) w(3)
    by (simp add: word_unat_eq_iff unsigned_ucast_eq unsigned_of_nat)
  obtain f2 where f2: "bf_AddDWORD ?total f1 = Inr f2" "file_open f2 (ss @ ss') ?part"
    using file_open_AddDWORD [OF i(6), of ?total] by auto
  have "length (concat es) \<le> length content + 9 * Suc k" using coded_length [OF i(5)] w(3,4) by simp
  then have "length ?part < 2 ^ 32 - 1" using size length_directory_bytes [OF list_all2_lengthD [OF i(4)]] by simp
  then have holds: "file_holds (co_CloseStream f2) ((ss @ ss') @ [?part])" by (rule file_open_CloseStream [OF f2(2)])
  let ?c = "OutStream ((ReleaseStreamData (os_base s1))\<lparr>sb_isOpen := False\<rparr>) (os_subStreams s1)"
  have "sb_isOpen (os_base s) \<or> sb_index (os_base s) = - 1" using p by (auto simp: in_progress_def written_def)
  moreover have idx: "sb_index (os_base ?c) = of_nat N" using i(1) by (simp add: ReleaseStreamData_def)
  ultimately have "close_nested n s f = Inr (sb_index (os_base ?c), ?c, co_CloseStream f2)"
    using w(1) f2(1) unfolding m total [symmetric] by (simp add: os_Close_def)
  moreover have "stored ((ss @ ss') @ [?part]) N doc" unfolding doc
    using i(3-5) w(3) doc(2) stored_all_append [OF i(4), of "[?part]"]
    by (intro stored_Doc [where cs = cs and ixs = ixs and es = es]) (auto simp: nth_append)
  then have "sub_done (ss @ (ss' @ [?part])) ?c doc" unfolding sub_done_def
    using idx of_nat_index [OF N] w(5,6) doc(1) by (auto simp: ReleaseStreamData_def)
  ultimately show ?thesis using holds i(3) idx by (intro exI [of _ ?c] exI [of _ "co_CloseStream f2"] exI [of _ "ss' @ [?part]"]) simp
qed

subsection \<open>The data of a stream\<close>

lemma bs_Flush_ok:
  assumes p: "in_progress ss N s f docs content k" and d: "length (sb_data (os_base s)) < 2 ^ 28" "sb_data (os_base s) \<noteq> []"
  shows "\<exists>s' f'. bs_Flush s f = Inr (s', f') \<and> in_progress ss N s' f' docs content (Suc k) \<and> sb_data (os_base s') = [] \<and>
    sb_id (os_base s') = sb_id (os_base s) \<and> sb_type (os_base s') = sb_type (os_base s)"
proof -
  have dm: "\<forall>c \<in> set (os_subStreams s). os_depth c \<le> os_depth s" using os_depth_sub by fastforce
  obtain s1 f1 cs where w: "WriteThisStream (close_nested (os_depth s)) s f = Inr (s1, f1)" "written ss N s1 f1 docs cs"
      "concat cs = content" "length cs \<le> Suc k" "[] \<notin> set cs" "sb_id (os_base s1) = sb_id (os_base s)" "sb_type (os_base s1) = sb_type (os_base s)"
    using WriteThisStream_ok [OF p dm d(1)] d(2) by blast
  let ?s = "OutStream ((os_base s1)\<lparr>sb_data := []\<rparr>) (os_subStreams s1)"
  have "written ss N ?s f1 docs cs" using w(2) by (simp add: written_def)
  then have "in_progress ss N ?s f1 docs content (Suc k)" using w(3-5) unfolding in_progress_def by (intro disjI2 exI [of _ cs]) simp
  moreover have "bs_Flush s f = Inr (?s, f1)" using w(1) by (simp add: bs_Flush_def)
  ultimately show ?thesis using w(6,7) by (intro exI [of _ ?s] exI [of _ f1]) simp
qed

lemma bs_append_simps [simp]:
  "sb_data (os_base (bs_append b s)) = sb_data (os_base s) @ b" "sb_id (os_base (bs_append b s)) = sb_id (os_base s)"
  "sb_type (os_base (bs_append b s)) = sb_type (os_base s)" "written ss N (bs_append b s) f docs cs = written ss N s f docs cs"
  by (simp_all add: bs_append_def written_def)

lemma in_progress_append:
  assumes "in_progress ss N s f docs content k" "k \<le> m"
  shows "in_progress ss N (bs_append b s) f docs (content @ b) m"
  using assms(1) [unfolded in_progress_def]
proof (elim disjE exE conjE)
  fix cs assume "written ss N s f docs cs" "length cs \<le> k" "[] \<notin> set cs" "content = concat cs @ sb_data (os_base s)"
  then show ?thesis using assms(2) unfolding in_progress_def by (intro disjI2 exI [of _ cs]) simp
qed (simp add: in_progress_def bs_append_def)

lemma bs_Add_ok:
  assumes p: "in_progress ss N s f docs content k" and d: "length (sb_data (os_base s)) \<le> CHUNK_SIZE" "length b \<le> CHUNK_SIZE"
  shows "\<exists>s' f'. bs_Add b s f = Some (Inr (s', f')) \<and> in_progress ss N s' f' docs (content @ b) (Suc k) \<and>
    length (sb_data (os_base s')) \<le> CHUNK_SIZE \<and> sb_id (os_base s') = sb_id (os_base s) \<and> sb_type (os_base s') = sb_type (os_base s)"
proof (cases "length (sb_data (os_base s)) + length b > CHUNK_SIZE")
  case True
  then have d2: "length (sb_data (os_base s)) < 2 ^ 28" "sb_data (os_base s) \<noteq> []" using d by (auto simp: CHUNK_SIZE_def)
  obtain s1 f1 where f: "bs_Flush s f = Inr (s1, f1)" "in_progress ss N s1 f1 docs content (Suc k)" "sb_data (os_base s1) = []"
      "sb_id (os_base s1) = sb_id (os_base s)" "sb_type (os_base s1) = sb_type (os_base s)" using bs_Flush_ok [OF p d2] by blast
  have "bs_make_room (length b) s1 f1 = Some (Inr (s1, f1))" using f(3) d(2) by (subst bs_make_room.simps) simp
  then have "bs_make_room (length b) s f = Some (Inr (s1, f1))" using True f(1) by (subst bs_make_room.simps) simp
  then show ?thesis using in_progress_append [OF f(2) order_refl, of b] f(3-5) d(2) by (simp add: bs_Add_def)
next
  case False
  then have "bs_make_room (length b) s f = Some (Inr (s, f))" by (subst bs_make_room.simps) simp
  then show ?thesis using in_progress_append [OF p, of "Suc k" b] False by (simp add: bs_Add_def)
qed

lemma bs_blocks_ok:
  assumes "in_progress ss N s f docs content k" "length (sb_data (os_base s)) \<le> CHUNK_SIZE" "\<forall>b \<in> set bs. length b \<le> CHUNK_SIZE"
    "sb_type (os_base s) \<noteq> BLOB_STREAM_TYPE_ID"
  shows "\<exists>s' f'. write_blocks bs s f = Some (Inr (s', f')) \<and> in_progress ss N s' f' docs (content @ concat bs) (k + length bs) \<and>
    length (sb_data (os_base s')) \<le> CHUNK_SIZE \<and> sb_id (os_base s') = sb_id (os_base s) \<and> sb_type (os_base s') = sb_type (os_base s)"
  using assms
proof (induction bs arbitrary: s f content k)
  case (Cons b bs)
  obtain s1 f1 where a: "bs_Add b s f = Some (Inr (s1, f1))" "in_progress ss N s1 f1 docs (content @ b) (Suc k)"
      "length (sb_data (os_base s1)) \<le> CHUNK_SIZE" "sb_id (os_base s1) = sb_id (os_base s)" "sb_type (os_base s1) = sb_type (os_base s)"
    using bs_Add_ok [OF Cons.prems(1,2), of b] Cons.prems(3) by auto
  then show ?case using Cons.IH [OF a(2,3)] Cons.prems(3,4) by (simp add: write_block_def)
qed auto

subsection \<open>Writing a tree of streams\<close>

fun doc_count :: "stream_doc \<Rightarrow> nat" where
  "doc_count (Doc i t blocks subs) = Suc (sum_list (map doc_count subs))"

text \<open>
  The trees that a file can hold: known types, distinct ids, blocks that fit into the buffer, sizes in
  32 bits, and data only in streams without sub-streams.
\<close>

fun doc_ok :: "stream_doc \<Rightarrow> bool" where
  "doc_ok (Doc i t blocks subs) \<longleftrightarrow> t \<in> set stream_types \<and>
     (if t = BLOB_STREAM_TYPE_ID then length blocks \<le> 1 \<and> (\<forall>b \<in> set blocks. length b < 2 ^ 28)
      else \<forall>b \<in> set blocks. length b \<le> CHUNK_SIZE) \<and>
     (blocks \<noteq> [] \<longrightarrow> subs = [] \<and> t \<noteq> COMPOSITE_STREAM_TYPE_ID) \<and> distinct (map doc_id subs) \<and>
     17 + 12 * length subs + length (concat blocks) + 9 * length blocks < 2 ^ 32 - 1 \<and> (\<forall>d \<in> set subs. doc_ok d)"

lemma finishesI:
  assumes "in_progress ss N s f docs content k" "length (sb_data (os_base s)) < 2 ^ 28" "N < 2 ^ 31"
    "17 + 12 * length docs + length content + 9 * k < 2 ^ 32 - 1" "concat blocks = content"
    "sb_id (os_base s) = i" "sb_type (os_base s) = t"
  shows "finishes ss N s f (Doc i t blocks docs)"
  unfolding finishes_def
proof (intro allI impI)
  fix n assume n: "os_depth s \<le> n"
  show "\<exists>c' f' ss'. close_nested n s f = Inr (sb_index (os_base c'), c', f') \<and> file_holds f' (ss @ ss') \<and>
      length (ss @ ss') = Suc N \<and> sub_done (ss @ ss') c' (Doc i t blocks docs)"
    using close_nested_ok [OF assms(1) n assms(2-4) _ assms(5), of "Doc i t blocks docs"] assms(6,7) by blast
qed

lemma finishes_done:
  assumes "file_holds f (ss @ ts)" "length (ss @ ts) = Suc N" "sub_done (ss @ ts) c d"
  shows "finishes ss N c f d"
  unfolding finishes_def
proof (intro allI impI)
  fix n assume "os_depth c \<le> n"
  then obtain m where "n = Suc m" using os_depth_pos [of c] by (cases n) auto
  then show "\<exists>c' f' ss'. close_nested n c f = Inr (sb_index (os_base c'), c', f') \<and> file_holds f' (ss @ ss') \<and>
      length (ss @ ss') = Suc N \<and> sub_done (ss @ ss') c' d"
    using close_done [OF assms(3), of m f] assms by (intro exI [of _ c] exI [of _ f] exI [of _ ts]) simp
qed

lemma bl_Add_ok:
  assumes p: "in_progress ss N s f docs [] 0" and b: "length b < 2 ^ 28" and N: "N < 2 ^ 31"
    and size: "17 + 12 * length docs + length b < 2 ^ 32 - 1" and s: "sb_data (os_base s) = []" "\<not> sb_isOpen (os_base s)"
  shows "\<exists>s' f'. bl_Add b s f = Inr (s', f') \<and> finishes ss N s' f' (Doc (sb_id (os_base s)) (sb_type (os_base s)) [b] docs)"
proof -
  let ?s = "OutStream ((os_base s)\<lparr>sb_data := b\<rparr>) (os_subStreams s)"
  have "in_progress ss N ?s f docs b 0" using p s(2) by (auto simp: in_progress_def written_def)
  then obtain c f' ss' where c: "close_nested (os_depth ?s) ?s f = Inr (sb_index (os_base c), c, f')" "file_holds f' (ss @ ss')"
      "length (ss @ ss') = Suc N" "sub_done (ss @ ss') c (Doc (sb_id (os_base ?s)) (sb_type (os_base ?s)) [b] docs)"
    using close_nested_ok [of ss N ?s f docs b 0 "os_depth ?s" _ "[b]"] b N size by auto
  then have "bl_Add b s f = Inr (c, f')"
    using b by (simp add: bl_Add_def os_AutoClose_def unsigned_minus_1_eq_mask mask_eq_exp_minus_1)
  then show ?thesis using finishes_done [OF c(2-4)] by auto
qed

lemma os_OpenSubStream_ok:
  assumes r: "subs_ready ss N subs f docs" and t: "t \<in> set stream_types"
  shows "\<exists>subs' f' ss'. os_OpenSubStream i t (OutStream b subs) f = Inr (OutStream b (subs' @ [new_stream i t]), f') \<and>
    file_holds f' (ss @ ss') \<and> length (ss @ ss') = N \<and> list_all2 (sub_done (ss @ ss')) subs' docs"
proof -
  have "\<forall>c \<in> set subs. os_depth c \<le> os_depth (OutStream b subs)" using os_depth_sub [of _ "OutStream b subs"] by fastforce
  then obtain subs' f' ss' where "CloseLatestSubStream (close_nested (os_depth (OutStream b subs))) subs f = Inr (subs', f')"
      "file_holds f' (ss @ ss')" "length (ss @ ss') = N" "list_all2 (sub_done (ss @ ss')) subs' docs"
    using r unfolding subs_ready_def by blast
  then show ?thesis using t
    by (intro exI [of _ subs'] exI [of _ f'] exI [of _ ss']) (simp add: os_OpenSubStream_def GetFactory_def del: os_depth.simps)
qed

definition writes :: "stream_doc \<Rightarrow> bool" where
  "writes d \<longleftrightarrow> (\<forall>f ss. file_holds f ss \<longrightarrow> length ss + doc_count d \<le> 2 ^ 31 \<longrightarrow>
     (\<exists>c f'. write_doc d (new_stream (doc_id d) (doc_type d)) f = Some (Inr (c, f')) \<and>
        finishes ss (length ss + doc_count d - 1) c f' d))"

lemma doc_count_pos: "0 < doc_count d"
  by (cases d) simp

lemma write_docs_ok:
  assumes "\<forall>d \<in> set ds. writes d \<and> doc_ok d" "subs_ready ss N subs f ks" "N + sum_list (map doc_count ds) \<le> 2 ^ 31"
  shows "\<exists>subs' f'. write_docs ds (OutStream b subs) f = Some (Inr (OutStream b subs', f')) \<and>
    subs_ready ss (N + sum_list (map doc_count ds)) subs' f' (ks @ ds)"
  using assms
proof (induction ds arbitrary: N subs f ks)
  case (Cons d ds)
  have t: "doc_type d \<in> set stream_types" using Cons.prems(1) by (cases d) auto
  obtain subs1 f1 ts where o: "os_OpenSubStream (doc_id d) (doc_type d) (OutStream b subs) f =
        Inr (OutStream b (subs1 @ [new_stream (doc_id d) (doc_type d)]), f1)" "file_holds f1 (ss @ ts)" "length (ss @ ts) = N"
      "list_all2 (sub_done (ss @ ts)) subs1 ks"
    using os_OpenSubStream_ok [OF Cons.prems(2) t, of "doc_id d" b] by blast
  obtain c f2 where c: "write_doc d (new_stream (doc_id d) (doc_type d)) f1 = Some (Inr (c, f2))"
      "finishes (ss @ ts) (N + doc_count d - 1) c f2 d"
  proof -
    have "writes d" "length (ss @ ts) + doc_count d \<le> 2 ^ 31" using Cons.prems(1,3) o(3) by auto
    from this(1) [unfolded writes_def, rule_format, OF o(2) this(2)] show ?thesis using that unfolding o(3) by blast
  qed
  have "subs_ready (ss @ ts) (N + doc_count d) (subs1 @ [c]) f2 (ks @ [d])"
    using subs_ready_snoc [OF o(4) c(2)] doc_count_pos [of d] by simp
  then have "subs_ready ss (N + doc_count d) (subs1 @ [c]) f2 (ks @ [d])" by (rule subs_ready_mono)
  then show ?case using Cons.IH [of "N + doc_count d" "subs1 @ [c]" f2 "ks @ [d]"] Cons.prems(1,3) o(1) c(1)
    by (simp add: ac_simps)
qed simp

lemma new_stream_simps [simp]:
  "os_subStreams (new_stream i t) = []" "sb_id (os_base (new_stream i t)) = i" "sb_type (os_base (new_stream i t)) = t"
  "sb_index (os_base (new_stream i t)) = - 1" "\<not> sb_isOpen (os_base (new_stream i t))"
  "sb_decodedSize (os_base (new_stream i t)) = 0" "sb_data (os_base (new_stream i t)) = []"
  by (simp_all add: new_stream_def)

lemma write_doc_ok: "doc_ok d \<Longrightarrow> writes d"
proof (induction d)
  case (Doc i t blocks subs)
  show ?case unfolding writes_def
  proof (intro allI impI)
    fix f ss assume f: "file_holds f ss" and n: "length ss + doc_count (Doc i t blocks subs) \<le> 2 ^ 31"
    let ?N = "length ss + sum_list (map doc_count subs)" and ?b = "os_base (new_stream i t)"
    have s0: "new_stream i t = OutStream ?b []" by (simp add: new_stream_def)
    obtain subs1 f1 where w: "write_docs subs (OutStream ?b []) f = Some (Inr (OutStream ?b subs1, f1))"
        "subs_ready ss ?N subs1 f1 subs"
      using write_docs_ok [of subs ss "length ss" "[]" f "[]" ?b] Doc subs_ready_Nil [OF f] n by auto
    let ?s = "OutStream ?b subs1"
    have p: "in_progress ss ?N ?s f1 subs [] 0" using w(2) by (simp add: in_progress_def)
    have N: "?N < 2 ^ 31" using n by simp
    have sizes: "17 + 12 * length subs + length (concat blocks) + 9 * length blocks < 2 ^ 32 - 1" using Doc.prems by simp
    have "\<exists>c f'. write_blocks blocks ?s f1 = Some (Inr (c, f')) \<and> finishes ss ?N c f' (Doc i t blocks subs)"
    proof (cases "t = BLOB_STREAM_TYPE_ID \<and> blocks \<noteq> []")
      case True
      then obtain b where b: "blocks = [b]" "length b < 2 ^ 28" using Doc.prems by (cases blocks) auto
      then show ?thesis using bl_Add_ok [OF p b(2) N] sizes True by (auto simp: write_block_def)
    next
      case False
      have "\<exists>c f'. write_blocks blocks ?s f1 = Some (Inr (c, f')) \<and> in_progress ss ?N c f' subs (concat blocks) (length blocks) \<and>
          length (sb_data (os_base c)) \<le> CHUNK_SIZE \<and> sb_id (os_base c) = i \<and> sb_type (os_base c) = t"
      proof (cases "blocks = []")
        case True
        then show ?thesis using p by simp
      next
        case nonempty: False
        then show ?thesis using bs_blocks_ok [OF p, of blocks] False Doc.prems by auto
      qed
      then obtain c f' where c: "write_blocks blocks ?s f1 = Some (Inr (c, f'))"
          "in_progress ss ?N c f' subs (concat blocks) (length blocks)" "length (sb_data (os_base c)) \<le> CHUNK_SIZE"
          "sb_id (os_base c) = i" "sb_type (os_base c) = t" by blast
      have "finishes ss ?N c f' (Doc i t blocks subs)"
        using finishesI [OF c(2) _ N sizes refl c(4,5)] c(3) by (simp add: CHUNK_SIZE_def)
      then show ?thesis using c(1) by blast
    qed
    then show "\<exists>c f'. write_doc (Doc i t blocks subs) (new_stream (doc_id (Doc i t blocks subs)) (doc_type (Doc i t blocks subs))) f =
        Some (Inr (c, f')) \<and> finishes ss (length ss + doc_count (Doc i t blocks subs) - 1) c f' (Doc i t blocks subs)"
      using w(1) s0 by simp
  qed
qed

subsection \<open>The complete file\<close>

definition file_of :: "byte list list \<Rightarrow> byte list" where
  "file_of ss = file_header @ concat ss @ concat (map (\<lambda>s. dword_bytes (of_nat (length s))) ss) @ dword_bytes (of_nat (length ss))"

lemma write_sizes_ok:
  assumes "\<forall>s \<in> set ss. length s < 2 ^ 32 - 1" "co_at f bs offs" "length rs + length ss = length ts" "ts = rs @ ss"
  shows "\<exists>f'. write_sizes (of_nat (start_of ts (length rs))) (map (\<lambda>k. of_nat (start_of ts k)) [Suc (length rs)..<Suc (length ts)]) f =
      Inr (Some f') \<and> co_at f' (bs @ concat (map (\<lambda>s. dword_bytes (of_nat (length s))) ss)) offs"
  using assms
proof (induction ss arbitrary: rs f bs)
  case (Cons s ss)
  have k: "[Suc (length rs)..<Suc (length ts)] = Suc (length rs) # [Suc (Suc (length rs))..<Suc (length ts)]"
    using Cons.prems(3) by (subst upt_conv_Cons) auto
  have "start_of ts (Suc (length rs)) = start_of ts (length rs) + length s" using Cons.prems(4) by (subst start_of_Suc) auto
  then have diff: "(of_nat (start_of ts (Suc (length rs))) :: size_t) - of_nat (start_of ts (length rs)) = of_nat (length s)" by simp
  have l: "length s < 2 ^ 32 - 1" using Cons.prems(1) by simp
  then have small: "\<not> (of_nat (length s) :: size_t) \<ge> ucast (- 1 :: dword)"
    by (simp add: word_le_nat_alt unsigned_ucast_eq unat_of_nat_small unsigned_minus_1_eq_mask mask_eq_exp_minus_1)
  have cast: "ucast (of_nat (length s) :: size_t) = (of_nat (length s) :: dword)"
    by (simp add: word_unat_eq_iff unsigned_ucast_eq unsigned_of_nat)
  obtain f1 where f1: "bf_AddDWORD (of_nat (length s)) f = Inr f1" "co_at f1 (bs @ dword_bytes (of_nat (length s))) offs"
    using bf_AddDWORD_ok [OF Cons.prems(2)] by blast
  then show ?case using Cons.IH [of f1 "bs @ dword_bytes (of_nat (length s))" "rs @ [s]"] Cons.prems(1,3,4) diff small cast
    unfolding k by (simp add: Let_def)
qed auto

lemma co_destroy_ok:
  assumes "file_holds f ss" "ss \<noteq> []"
  shows "co_destroy f = Inr (Some (file_of ss))"
proof -
  let ?offs = "map (\<lambda>k. of_nat (start_of ss k) :: size_t) [0..<Suc (length ss)]"
  have c: "co_at f (file_header @ concat ss) (map (\<lambda>k. of_nat (start_of ss k)) [0..<length ss])" and b: "\<forall>s \<in> set ss. length s < 2 ^ 32 - 1"
    using assms(1) by (simp_all add: file_holds_def)
  have offs: "streamOffsets f @ [bf_fileSize f] = ?offs" using c by (simp add: co_at_def start_of_def)
  have split: "?offs = of_nat (start_of ss 0) # map (\<lambda>k. of_nat (start_of ss k)) [Suc 0..<Suc (length ss)]"
    by (subst upt_conv_Cons) simp_all
  have "co_at (f\<lparr>streamOffsets := ?offs\<rparr>) (file_header @ concat ss) ?offs" using c by (simp add: co_at_def bf_bytes_def)
  from write_sizes_ok [OF b this, of "[]" ss] obtain f1 where f1:
      "write_sizes (of_nat (start_of ss 0)) (map (\<lambda>k. of_nat (start_of ss k)) [Suc 0..<Suc (length ss)]) (f\<lparr>streamOffsets := ?offs\<rparr>) = Inr (Some f1)"
      "co_at f1 ((file_header @ concat ss) @ concat (map (\<lambda>s. dword_bytes (of_nat (length s))) ss)) ?offs" by auto
  have n: "of_nat (length (streamOffsets f1)) - 1 = (of_nat (length ss) :: dword)" using f1(2) by (simp add: co_at_def)
  obtain f2 where f2: "bf_AddDWORD (of_nat (length ss)) f1 = Inr f2" "bf_bytes f2 = file_of ss"
    using bf_AddDWORD_ok [OF f1(2), of "of_nat (length ss)"] by (auto simp: co_at_def file_of_def)
  show ?thesis using f1(1) f2 n unfolding co_destroy_def Let_def offs split by (simp add: bf_Flush_bytes)
qed

definition docs_ok :: "stream_doc list \<Rightarrow> bool" where
  "docs_ok docs \<longleftrightarrow> (\<forall>d \<in> set docs. doc_ok d) \<and> distinct (map doc_id docs) \<and> 17 + 12 * length docs < 2 ^ 32 - 1 \<and>
     sum_list (map doc_count docs) < 2 ^ 31"

lemma save_file_ok:
  assumes docs: "docs_ok docs"
  shows "\<exists>ss. save_file docs = Some (Inr (Some (file_of ss))) \<and> length ss = Suc (sum_list (map doc_count docs)) \<and>
    stored ss (length ss - 1) (Doc 0 ROOT_STREAM_TYPE_ID [] docs) \<and> (\<forall>s \<in> set ss. length s < 2 ^ 32 - 1)"
proof -
  let ?N = "sum_list (map doc_count docs)"
  define b where "b = os_base (new_stream 0 ROOT_STREAM_TYPE_ID)"
  have b: "sb_id b = 0" "sb_type b = ROOT_STREAM_TYPE_ID" "sb_index b = - 1" "\<not> sb_isOpen b" "sb_decodedSize b = 0" "sb_data b = []"
    unfolding b_def by (rule new_stream_simps)+
  obtain f where f: "co_init = Inr f" "file_holds f []" using co_init_ok by blast
  have s0: "new_stream 0 ROOT_STREAM_TYPE_ID = OutStream b []" by (simp add: new_stream_def b_def)
  obtain subs f1 where w: "write_docs docs (OutStream b []) f = Some (Inr (OutStream b subs, f1))" "subs_ready [] ?N subs f1 docs"
    using write_docs_ok [of docs "[]" 0 "[]" f "[]" b] docs write_doc_ok subs_ready_Nil [OF f(2)] by (auto simp: docs_ok_def)
  have "in_progress [] ?N (OutStream b subs) f1 docs [] 0" using w(2) b by (simp add: in_progress_def)
  then obtain c f2 ss where c: "os_AutoClose (OutStream b subs) f1 = Inr (sb_index (os_base c), c, f2)" "file_holds f2 ss"
      "length ss = Suc ?N" "sub_done ss c (Doc 0 ROOT_STREAM_TYPE_ID [] docs)" "sb_index (os_base c) = of_nat ?N"
    using close_nested_ok [of "[]" ?N "OutStream b subs" f1 docs "[]" 0 "os_depth (OutStream b subs)" _ "[]"] docs b
    by (auto simp: docs_ok_def os_AutoClose_def simp del: os_depth.simps)
  then obtain n where n: "(of_nat n :: dword) = of_nat ?N" "stored ss n (Doc 0 ROOT_STREAM_TYPE_ID [] docs)" by (auto simp: sub_done_def)
  have "n = ?N" using stored_less [OF n(2)] c(3) docs by (intro of_nat_word_inj [OF n(1)]) (simp_all add: docs_ok_def)
  then have "stored ss (length ss - 1) (Doc 0 ROOT_STREAM_TYPE_ID [] docs)" using n(2) c(3) by simp
  moreover have "save_file docs = Some (Inr (Some (file_of ss)))"
  proof -
    have "ss \<noteq> []" using c(3) by auto
    then have "co_destroy f2 = Inr (Some (file_of ss))" by (rule co_destroy_ok [OF c(2)])
    then show ?thesis unfolding save_file_def s0 f(1) bindR_simps w(1) prod.case c(1) bindE.simps by simp
  qed
  ultimately show ?thesis using c(2,3) by (auto simp: file_holds_def)
qed

end
