(* ===== verification/CacheFileReader.thy ===== *)
theory CacheFileReader
  imports CacheFileWriter
begin

section \<open>Reading a cache file\<close>

text \<open>
  The reader finds the streams of a complete file by their numbers and rebuilds the tree from the lists of
  sub-streams.
\<close>

subsection \<open>The directory of the file\<close>

lemma GetDWORD_at: "B = xs @ dword_bytes v @ ys \<Longrightarrow> n = length xs \<Longrightarrow> GetDWORD B n = Inr v"
  by (simp add: GetDWORD_def bytes_dword_bytes)

lemma stream_starts_ok:
  assumes "B = xs @ concat (map (\<lambda>s. dword_bytes (of_nat (length s))) rs) @ ys" "unat off = length xs"
    "length xs + 4 * length rs < 2 ^ 64" "\<forall>s \<in> set rs. length s < 2 ^ 32 - 1"
  shows "stream_starts B (length rs) off l = Inr (map (\<lambda>k. l + length (concat (take k rs))) [1..<Suc (length rs)])"
  using assms
proof (induction rs arbitrary: xs off l)
  case (Cons r rs)
  have g: "GetDWORD B (unat off) = Inr (of_nat (length r))"
    using Cons.prems(1,2) by (intro GetDWORD_at [of B xs _ "concat (map (\<lambda>s. dword_bytes (of_nat (length s))) rs) @ ys"]) simp_all
  have o: "unat (off + 4) = length (xs @ dword_bytes (of_nat (length r)))" using Cons.prems(2,3) by (simp add: unat_word_ariths)
  have u: "unat (of_nat (length r) :: dword) = length r" using Cons.prems(4) by (simp add: unat_of_nat_small)
  have s: "stream_starts B (length rs) (off + 4) (l + length r) =
      Inr (map (\<lambda>k. l + length r + length (concat (take k rs))) [1..<Suc (length rs)])"
    using Cons.prems(1,3,4) by (intro Cons.IH [of "xs @ dword_bytes (of_nat (length r))", OF _ o]) simp_all
  have k: "[1..<Suc (Suc (length rs))] = 1 # map Suc [1..<Suc (length rs)]" by (simp add: map_Suc_upt upt_conv_Cons del: upt_Suc)
  show ?case using g s u unfolding length_Cons k by (simp add: comp_def add.assoc del: upt_Suc)
qed simp

definition in_file :: "byte list list \<Rightarrow> cache_file_in" where
  "in_file ss = \<lparr>cfi_buffer = file_of ss, streamContents = map (start_of ss) [0..<Suc (length ss)]\<rparr>"

definition file_small :: "byte list list \<Rightarrow> bool" where
  "file_small ss \<longleftrightarrow> length ss \<le> 2 ^ 31 \<and> (\<forall>s \<in> set ss. length s < 2 ^ 32 - 1)"

lemma file_small_concat: "file_small ss \<Longrightarrow> length (concat ss) \<le> 2 ^ 63"
proof -
  assume s: "file_small ss"
  have "length (concat ss) \<le> length ss * 2 ^ 32" if "\<forall>s \<in> set ss. length s < 2 ^ 32 - 1"
    using that by (induction ss) auto
  also have "length ss * 2 ^ 32 \<le> 2 ^ 31 * 2 ^ 32" using s by (simp add: file_small_def)
  finally show ?thesis using s by (simp add: file_small_def)
qed

lemma length_sizes: "length (concat (map (\<lambda>s. dword_bytes (of_nat (length s))) ss)) = 4 * length ss"
  by (induction ss) simp_all

lemma length_file_of: "length (file_of ss) = 12 + length (concat ss) + 4 * length ss"
  by (simp add: file_of_def length_sizes)

lemma ReadStreamOffsets_ok:
  assumes small: "file_small ss"
  shows "ReadStreamOffsets (file_of ss) = Inr (in_file ss)"
proof -
  let ?B = "file_of ss" and ?L = "length (file_of ss)" and ?n = "length ss"
  define size where "size = (of_nat ?L :: size_t)"
  have L: "?L = 12 + length (concat ss) + 4 * ?n" by (rule length_file_of)
  have n: "?n \<le> 2 ^ 31" using small by (simp add: file_small_def)
  have Ls: "?L < 2 ^ 64" using L n file_small_concat [OF small] by simp
  have us: "unat size = ?L" unfolding size_def using Ls by (simp add: unat_of_nat_small)
  have v: "GetDWORD ?B 0 = Inr OUR_LOG_CACHE_FILE_VERSION" "GetDWORD ?B 4 = Inr MIN_LOG_CACHE_FILE_VERSION"
    unfolding file_of_def file_header_def by (rule GetDWORD_at [of _ "[]"], simp, simp, rule GetDWORD_at [of _ "dword_bytes _"], simp, simp)
  have u4: "unat (size - 4) = ?L - 4" using us L by (subst unat_sub) (simp_all add: word_le_nat_alt)
  have c: "GetDWORD ?B (?L - 4) = Inr (of_nat ?n)"
    by (rule GetDWORD_at [of _ "file_header @ concat ss @ concat (map (\<lambda>s. dword_bytes (of_nat (length s))) ss)" _ "[]"])
      (simp_all add: file_of_def)
  have un: "unat (of_nat ?n :: dword) = ?n" using n by (simp add: unat_of_nat_small)
  have u3: "unat (ucast (3 + of_nat ?n :: dword) * 4 :: size_t) = (3 + ?n) * 4" "unat (ucast (of_nat ?n + 1 :: dword) * 4 :: size_t) = (?n + 1) * 4"
    using n un by (simp_all add: unat_word_ariths unsigned_ucast_eq take_bit_nat_eq_self del: of_nat_add)
  define contentEnd where "contentEnd = size - ucast (of_nat ?n + 1 :: dword) * 4"
  have ce: "unat contentEnd = 8 + length (concat ss)"
    unfolding contentEnd_def using u3(2) us L by (subst unat_sub) (simp_all add: word_le_nat_alt)
  have st: "stream_starts ?B ?n contentEnd 8 = Inr (map (\<lambda>k. 8 + length (concat (take k ss))) [1..<Suc ?n])"
    using stream_starts_ok [of ?B "file_header @ concat ss" ss "dword_bytes (of_nat ?n)" contentEnd 8] ce small n file_small_concat [OF small]
    by (simp add: file_of_def file_small_def)
  have all: "8 # map (\<lambda>k. 8 + length (concat (take k ss))) [1..<Suc ?n] = map (start_of ss) [0..<Suc ?n]"
    unfolding start_of_def by (subst (2) upt_conv_Cons) simp_all
  have fin: "(of_nat (last (map (start_of ss) [0..<Suc ?n])) :: size_t) = contentEnd"
    using ce file_small_concat [OF small] unfolding word_unat_eq_iff
    by (simp add: start_of_def unat_of_nat_small [of "8 + length (concat ss)"] del: of_nat_add)
  have checks: "\<not> size < 3 * 4" "\<not> size < ucast (3 + of_nat ?n :: dword) * 4"
    using us L u3(1) by (simp_all add: word_less_nat_alt)
  have eight: "2 * 4 = (8 :: nat)" by simp
  show ?thesis
    unfolding ReadStreamOffsets_def Let_def size_def [symmetric] v bindE.simps u4 c contentEnd_def [symmetric] un eight
      add.commute [of "of_nat ?n" 1] unfolding add.commute [of 1 "of_nat ?n"] contentEnd_def [symmetric] st bindE.simps all
    using checks fin
    by (simp add: OLDEST_LOG_CACHE_FILE_VERSION_def OUR_LOG_CACHE_FILE_VERSION_def NEWEST_LOG_CACHE_FILE_VERSION_def
        MIN_LOG_CACHE_FILE_VERSION_def in_file_def del: upt_Suc)
qed

subsection \<open>The streams\<close>

lemma file_split:
  assumes "k < length ss"
  shows "\<exists>pre post. file_of ss = pre @ ss ! k @ post \<and> length pre = start_of ss k \<and> 8 \<le> length post"
proof (intro exI conjI)
  have "concat ss = concat (take k ss) @ ss ! k @ concat (drop (Suc k) ss)"
    using assms by (metis append_take_drop_id concat.simps(2) concat_append id_take_nth_drop append.assoc)
  then show "file_of ss = (file_header @ concat (take k ss)) @ ss ! k @
      (concat (drop (Suc k) ss) @ concat (map (\<lambda>s. dword_bytes (of_nat (length s))) ss) @ dword_bytes (of_nat (length ss)))"
    by (simp add: file_of_def)
  show "length (file_header @ concat (take k ss)) = start_of ss k" by (simp add: start_of_def)
  show "8 \<le> length (concat (drop (Suc k) ss) @ concat (map (\<lambda>s. dword_bytes (of_nat (length s))) ss) @ dword_bytes (of_nat (length ss)))"
    using assms length_sizes [of ss] by (cases ss) auto
qed

lemma GetStreamBuffer_ok:
  assumes small: "file_small ss" and k: "k < length ss"
  shows "GetStreamBuffer (in_file ss) (of_nat k) = Inr (start_of ss k, start_of ss (Suc k))"
proof -
  have n: "length ss \<le> 2 ^ 31" using small by (simp add: file_small_def)
  have "sint (of_nat k :: dword) = int k" using k n
    by (simp add: signed_of_nat signed_take_bit_int_eq_self)
  then have "(scast (of_nat k :: dword) :: size_t) = of_nat k" by (simp add: scast_eq)
  moreover have "\<not> (of_nat k :: size_t) \<ge> of_nat (length ss)" using k n by (simp add: word_le_nat_alt unat_of_nat_small)
  ultimately show ?thesis using k n by (simp add: GetStreamBuffer_def in_file_def unat_of_nat_small del: upt_Suc)
qed

lemma read_directory_ok:
  assumes small: "file_small ss" and s: "stored ss k (Doc i t blocks subs)"
  shows "read_directory (in_file ss) (of_nat k) =
    Inr (start_of ss k, start_of ss (Suc k), of_nat (length subs), 4 * length subs + 4)"
proof -
  from s obtain ixs cs es where 1: "k < length ss" "list_all2 (stored ss) ixs subs" "coded cs es" "concat cs = concat blocks"
      "ss ! k = dword_bytes (of_nat (length subs)) @ directory_bytes ixs subs @ concat es @ dword_bytes (of_nat (length (concat blocks)))"
    by (elim stored_DocE) blast
  obtain pre post where B: "file_of ss = pre @ ss ! k @ post" "length pre = start_of ss k" using file_split [OF 1(1)] by blast
  have l: "length (ss ! k) = length (concat es) + 12 * length subs + 8"
    using 1(5) length_directory_bytes [OF list_all2_lengthD [OF 1(2)]] by simp
  have "ss ! k \<in> set ss" using 1(1) by simp
  then have "length (ss ! k) < 2 ^ 32 - 1" using small unfolding file_small_def by blast
  then have m: "unat (of_nat (length subs) + 1 :: dword) = length subs + 1" using l
    by (simp add: unat_word_ariths unat_of_nat_small)
  have g: "GetDWORD (file_of ss) (start_of ss k) = Inr (of_nat (length subs))"
    using B 1(5) by (intro GetDWORD_at [of _ pre]) simp_all
  show ?thesis using g m l start_of_Suc [OF 1(1)]
    by (simp add: read_directory_def GetStreamBuffer_ok [OF small 1(1)]) (simp add: in_file_def Let_def)
qed

subsection \<open>The data\<close>

lemma decode_stream_ok:
  assumes "coded cs es" "ib_current b = concat es @ rest" "8 \<le> length rest" "length (concat es) \<le> ib_remaining b"
    "ob_remaining target = length (concat cs)" "tables_ok t"
  shows "decode_blocks_loop b target t = Some (Inr (ob_written target @ concat cs))"
  using assms
proof (induction cs arbitrary: es b target t)
  case Nil
  then show ?case by (subst decode_blocks_loop.simps) simp
next
  case (Cons c cs)
  obtain e es' where e: "es = e # es'" "Encode c = Inr e" "coded cs es'" "length c < 2 ^ 28" "cs = [] \<or> c \<noteq> []"
    using Cons.prems(1) by (auto simp: coded_def list_all2_Cons1 dest: in_set_butlastD split: if_splits)
  show ?case
  proof (cases "c = []")
    case True
    then show ?thesis using e(5) Cons.prems(5) by (subst decode_blocks_loop.simps) simp
  next
    case False
    let ?b = "b\<lparr>ib_current := concat es' @ rest, ib_remaining := ib_remaining b - length e\<rparr>"
      and ?t = "target\<lparr>ob_written := ob_written target @ c, ob_remaining := ob_remaining target - length c\<rparr>"
    obtain t' where d: "Decode b target t = Inr (?b, ?t, t')" "tables_ok t'"
      using Decode_Encode [OF False e(4,2), of "concat es' @ rest" t b target] Cons.prems e(1) by auto
    have "decode_blocks_loop ?b ?t t' = Some (Inr (ob_written ?t @ concat cs))"
      using Cons.prems e(1) by (intro Cons.IH [OF e(3) _ Cons.prems(3) _ _ d(2)]) auto
    then show ?thesis using False Cons.prems(5) d(1) by (subst decode_blocks_loop.simps) simp
  qed
qed

lemma DecodeThisStream_ok:
  assumes s: "stored ss k (Doc i t blocks subs)" and c: "subs = [] \<or> blocks = []" "length (concat blocks) < 2 ^ 32"
  shows "DecodeThisStream (in_file ss) (InStream t (start_of ss k + (4 * length subs + 4)) (start_of ss (Suc k)) None ins) =
    Some (Inr (InStream t (start_of ss k + (4 * length subs + 4)) (start_of ss (Suc k)) (Some (concat blocks)) ins))"
proof -
  from s obtain ixs cs es where 1: "k < length ss" "list_all2 (stored ss) ixs subs" "coded cs es" "concat cs = concat blocks"
      "ss ! k = dword_bytes (of_nat (length subs)) @ directory_bytes ixs subs @ concat es @ dword_bytes (of_nat (length (concat blocks)))"
    by (elim stored_DocE) blast
  obtain pre post where B: "file_of ss = pre @ ss ! k @ post" "length pre = start_of ss k" "8 \<le> length post" using file_split [OF 1(1)] by blast
  have d: "length (directory_bytes ixs subs) = 12 * length subs" by (rule length_directory_bytes [OF list_all2_lengthD [OF 1(2)]])
  have l: "length (ss ! k) = length (concat es) + 12 * length subs + 8" using 1(5) d by simp
  have g: "GetDWORD (file_of ss) (start_of ss (Suc k) - 4) = Inr (of_nat (length (concat blocks)))"
    using B(1,2) 1(5) d l start_of_Suc [OF 1(1)]
    by (intro GetDWORD_at [of _ "pre @ dword_bytes (of_nat (length subs)) @ directory_bytes ixs subs @ concat es" _ post]) simp_all
  have u: "unat (of_nat (length (concat blocks)) :: dword) = length (concat blocks)" using c(2) by (simp add: unat_of_nat_small)
  let ?b = "\<lparr>ib_current = drop (start_of ss k + (4 * length subs + 4)) (file_of ss),
      ib_remaining = start_of ss (Suc k) - (start_of ss k + (4 * length subs + 4))\<rparr>"
  have init: "tables_ok huffman_decoder_init" by (simp add: tables_ok_def huffman_decoder_init_def MAX_ENCODING_LENGTH_def)
  have "decode_blocks_loop ?b \<lparr>ob_written = [], ob_remaining = length (concat blocks)\<rparr> huffman_decoder_init = Some (Inr (concat blocks))"
  proof (cases "concat blocks = []")
    case True
    then show ?thesis by (subst decode_blocks_loop.simps) simp
  next
    case False
    then have "subs = []" using c(1) by auto
    then have "ib_current ?b = concat es @ (dword_bytes (of_nat (length (concat blocks))) @ post)"
      using B(1,2) 1(5) by (simp add: directory_bytes_def)
    then show ?thesis using decode_stream_ok [OF 1(3) _ _ _ _ init, of ?b "dword_bytes (of_nat (length (concat blocks))) @ post"
        "\<lparr>ob_written = [], ob_remaining = length (concat blocks)\<rparr>"] B(3) 1(4) l start_of_Suc [OF 1(1)] \<open>subs = []\<close> by simp
  qed
  then show ?thesis using g u by (simp add: DecodeThisStream_def in_file_def)
qed

subsection \<open>The tree\<close>

text \<open>What is seen of a stream: its data as one block.\<close>

fun joined :: "stream_doc \<Rightarrow> stream_doc" where
  "joined (Doc i t blocks subs) = Doc i t [concat blocks] (map joined subs)"

definition reads :: "byte list list \<Rightarrow> stream_doc \<Rightarrow> bool" where
  "reads ss d \<longleftrightarrow> (\<forall>k. stored ss k d \<longrightarrow> (\<exists>ins.
     read_subs (in_file ss) (start_of ss k + 4) (length (doc_subs d)) [] = Some (Inr ins) \<and>
     map fst ins = map doc_id (doc_subs d) \<and> read_docs (in_file ss) ins = Some (Inr (map joined (doc_subs d)))))"

lemma read_entry_ok:
  assumes "file_of ss = pre @ (dword_bytes (of_nat i) @ dword_bytes (doc_id d) @ dword_bytes (doc_type d)) @ post"
    "doc_type d \<in> set stream_types"
  shows "read_entry (in_file ss) (length pre) = Inr (of_nat i, doc_id d, doc_type d)"
proof -
  have "GetDWORD (file_of ss) (length pre) = Inr (of_nat i)" using assms(1) by (intro GetDWORD_at [of _ pre]) simp_all
  moreover have "GetDWORD (file_of ss) (length pre + 4) = Inr (doc_id d)"
    using assms(1) by (intro GetDWORD_at [of _ "pre @ dword_bytes (of_nat i)"]) simp_all
  moreover have "GetDWORD (file_of ss) (length pre + 8) = Inr (doc_type d)"
    using assms(1) by (intro GetDWORD_at [of _ "pre @ dword_bytes (of_nat i) @ dword_bytes (doc_id d)"]) simp_all
  ultimately show ?thesis using assms(2) by (simp add: read_entry_def in_file_def GetFactory_def)
qed

lemma read_subs_ok:
  assumes small: "file_small ss"
    and "\<forall>d \<in> set docs. reads ss d \<and> doc_ok d" "list_all2 (stored ss) ixs docs"
    "file_of ss = pre @ directory_bytes ixs docs @ post" "distinct (map fst acc @ map doc_id docs)" "length docs < 2 ^ 32"
  shows "\<exists>ins. read_subs (in_file ss) (length pre) (length docs) acc = Some (Inr (acc @ ins)) \<and> map fst ins = map doc_id docs \<and>
    read_docs (in_file ss) ins = Some (Inr (map joined docs))"
  using assms(2-)
proof (induction docs arbitrary: ixs pre acc)
  case Nil
  then show ?case by (subst read_subs.simps) simp
next
  case (Cons d docs)
  obtain i ixs' where x: "ixs = i # ixs'" "stored ss i d" "list_all2 (stored ss) ixs' docs" using Cons.prems(2) by (auto simp: list_all2_Cons2)
  obtain di t blocks subs where d: "d = Doc di t blocks subs" by (cases d)
  have ok: "reads ss d" "doc_ok d" using Cons.prems(1) by simp_all
  let ?entry = "dword_bytes (of_nat i) @ dword_bytes (doc_id d) @ dword_bytes (doc_type d)" and ?f = "in_file ss"
  have B: "file_of ss = pre @ ?entry @ (directory_bytes ixs' docs @ post)" using Cons.prems(3) x(1) by (simp add: directory_bytes_def)
  have e: "read_entry ?f (length pre) = Inr (of_nat i, di, t)" using read_entry_ok [OF B] ok(2) d by simp
  have r: "read_directory ?f (of_nat i) = Inr (start_of ss i, start_of ss (Suc i), of_nat (length subs), 4 * length subs + 4)"
    using read_directory_ok [OF small] x(2) d by blast
  have len: "17 + 12 * length subs + length (concat blocks) + 9 * length blocks < 2 ^ 32 - 1" using ok(2) d by simp
  then have u: "unat (of_nat (length subs) :: dword) = length subs" by (simp add: unat_of_nat_small)
  obtain ins where ins: "read_subs ?f (start_of ss i + 4) (length subs) [] = Some (Inr ins)" "read_docs ?f ins = Some (Inr (map joined subs))"
    using ok(1) x(2) d unfolding reads_def by auto
  let ?s = "InStream t (start_of ss i + (4 * length subs + 4)) (start_of ss (Suc i)) None ins"
  have "subs = [] \<or> blocks = []" "length (concat blocks) < 2 ^ 32" using ok(2) d len by auto
  then have dec: "DecodeThisStream ?f ?s = Some (Inr (InStream t (start_of ss i + (4 * length subs + 4)) (start_of ss (Suc i)) (Some (concat blocks)) ins))"
    using DecodeThisStream_ok x(2) d by blast
  have "di \<notin> fst ` set acc" using Cons.prems(4) d by auto
  then have em: "emplace di ?s acc = acc @ [(di, ?s)]" by (simp add: emplace_def)
  obtain ins' where rest: "read_subs ?f (length (pre @ ?entry)) (length docs) (acc @ [(di, ?s)]) = Some (Inr ((acc @ [(di, ?s)]) @ ins'))"
      "map fst ins' = map doc_id docs" "read_docs ?f ins' = Some (Inr (map joined docs))"
    using Cons.IH [of ixs' "pre @ ?entry" "acc @ [(di, ?s)]"] Cons.prems(1,4,5) x(3) B d by auto
  have "read_subs ?f (length pre) (length (d # docs)) acc = Some (Inr (acc @ (di, ?s) # ins'))"
    using e r u ins(1) em rest(1) by (subst read_subs.simps) simp
  moreover have "read_doc ?f di ?s = Some (Inr (joined d))" using dec ins(2) d by (simp add: is_AutoOpen_def)
  then have "read_docs ?f ((di, ?s) # ins') = Some (Inr (map joined (d # docs)))" using rest(3) by simp
  ultimately show ?case using rest(2) d by (intro exI [of _ "(di, ?s) # ins'"]) simp
qed

lemma stored_directory:
  assumes "stored ss k (Doc i t blocks subs)"
  shows "\<exists>ixs pre post. list_all2 (stored ss) ixs subs \<and> file_of ss = pre @ directory_bytes ixs subs @ post \<and> length pre = start_of ss k + 4"
proof -
  from assms obtain ixs cs es where 1: "k < length ss" "list_all2 (stored ss) ixs subs"
      "ss ! k = dword_bytes (of_nat (length subs)) @ directory_bytes ixs subs @ concat es @ dword_bytes (of_nat (length (concat blocks)))"
    by (elim stored_DocE) blast
  obtain pre post where B: "file_of ss = pre @ ss ! k @ post" "length pre = start_of ss k" using file_split [OF 1(1)] by blast
  then show ?thesis using 1
    by (intro exI [of _ ixs] exI [of _ "pre @ dword_bytes (of_nat (length subs))"]
        exI [of _ "concat es @ dword_bytes (of_nat (length (concat blocks))) @ post"]) simp
qed

lemma reads_ok: "file_small ss \<Longrightarrow> doc_ok d \<Longrightarrow> reads ss d"
proof (induction d)
  case (Doc i t blocks subs)
  show ?case unfolding reads_def
  proof (intro allI impI)
    fix k assume "stored ss k (Doc i t blocks subs)"
    from stored_directory [OF this] obtain ixs pre post where B: "list_all2 (stored ss) ixs subs"
        "file_of ss = pre @ directory_bytes ixs subs @ post" "length pre = start_of ss k + 4" by blast
    have "\<forall>d \<in> set subs. reads ss d \<and> doc_ok d" using Doc by auto
    from read_subs_ok [OF Doc.prems(1) this B(1,2), of "[]"] show "\<exists>ins.
       read_subs (in_file ss) (start_of ss k + 4) (length (doc_subs (Doc i t blocks subs))) [] = Some (Inr ins) \<and>
       map fst ins = map doc_id (doc_subs (Doc i t blocks subs)) \<and>
       read_docs (in_file ss) ins = Some (Inr (map joined (doc_subs (Doc i t blocks subs))))"
      using Doc.prems(2) B(3) by auto
  qed
qed

lemma CRootInStream_ok:
  assumes small: "file_small ss" and docs: "docs_ok docs" and n: "length ss = Suc n"
    and s: "stored ss n (Doc 0 ROOT_STREAM_TYPE_ID [] docs)"
  shows "\<exists>ins. CRootInStream (file_of ss) = Some (Inr (in_file ss,
      InStream ROOT_STREAM_TYPE_ID (start_of ss n + (4 * length docs + 4)) (start_of ss (Suc n)) (Some []) ins)) \<and>
    read_docs (in_file ss) ins = Some (Inr (map joined docs))"
proof -
  let ?f = "in_file ss"
  have root: "GetLastStream ?f = of_nat n" using n by (simp add: GetLastStream_def in_file_def)
  obtain ixs pre post where B: "list_all2 (stored ss) ixs docs" "file_of ss = pre @ directory_bytes ixs docs @ post" "length pre = start_of ss n + 4"
    using stored_directory [OF s] by blast
  have "\<forall>d \<in> set docs. reads ss d \<and> doc_ok d" using docs reads_ok [OF small] by (simp add: docs_ok_def)
  from read_subs_ok [OF small this B(1,2), of "[]"] obtain ins where ins:
      "read_subs ?f (start_of ss n + 4) (length docs) [] = Some (Inr ins)" "read_docs ?f ins = Some (Inr (map joined docs))"
    using docs B(3) by (auto simp: docs_ok_def)
  have u: "unat (of_nat (length docs) :: dword) = length docs" using docs by (simp add: docs_ok_def unat_of_nat_small)
  have "ReadSubStreams ROOT_STREAM_TYPE_ID ?f (of_nat n) =
      Some (Inr (InStream ROOT_STREAM_TYPE_ID (start_of ss n + (4 * length docs + 4)) (start_of ss (Suc n)) None ins))"
    using read_directory_ok [OF small s] ins(1) u by (simp add: ReadSubStreams_def)
  moreover have "DecodeThisStream ?f (InStream ROOT_STREAM_TYPE_ID (start_of ss n + (4 * length docs + 4)) (start_of ss (Suc n)) None ins) =
      Some (Inr (InStream ROOT_STREAM_TYPE_ID (start_of ss n + (4 * length docs + 4)) (start_of ss (Suc n)) (Some []) ins))"
    using DecodeThisStream_ok [OF s, of ins] by simp
  ultimately show ?thesis using ReadStreamOffsets_ok [OF small] root ins(2) by (simp add: CRootInStream_def)
qed

lemma load_file_ok:
  assumes "file_small ss" "docs_ok docs" "length ss = Suc n" "stored ss n (Doc 0 ROOT_STREAM_TYPE_ID [] docs)"
  shows "load_file (file_of ss) = Some (Inr (map joined docs))"
  using CRootInStream_ok [OF assms] by (auto simp: load_file_def)

lemma save_load:
  assumes "docs_ok docs"
  shows "\<exists>file. save_file docs = Some (Inr (Some file)) \<and> load_file file = Some (Inr (map joined docs))"
proof -
  obtain ss where ss: "save_file docs = Some (Inr (Some (file_of ss)))" "length ss = Suc (sum_list (map doc_count docs))"
      "stored ss (length ss - 1) (Doc 0 ROOT_STREAM_TYPE_ID [] docs)" "\<forall>s \<in> set ss. length s < 2 ^ 32 - 1"
    using save_file_ok [OF assms] by blast
  have "file_small ss" using ss(2,4) assms by (simp add: file_small_def docs_ok_def)
  then show ?thesis using load_file_ok [OF _ assms ss(2)] ss by auto
qed

text \<open>
  C6.  A cache file gives back the streams that were written: for every tree of streams within the limits of
  the format (\<open>docs_ok\<close>) the writer finishes and leaves a file, and the reader finds in it the same tree, with the same ids
  and types, the data of each stream being the blocks added to it, decoded.
\<close>

theorem cache_file_roundtrip:
  assumes "docs_ok docs"
  shows "\<exists>file. save_file docs = Some (Inr (Some file)) \<and> load_file file = Some (Inr (map joined docs))"
  using assms by (rule save_load)

definition sample_docs :: "stream_doc list" where
  "sample_docs = [Doc 1 0x10 [] [Doc 1 0x30 [[1, 2, 3], [4, 5]] [], Doc 2 0x20 [[9, 9, 9]] [], Doc 3 0x31 [] []], Doc 2 0x30 [[7]] []]"

theorem cache_file_roundtrip_witness:
  "\<exists>file. save_file sample_docs = Some (Inr (Some file)) \<and>
     load_file file = Some (Inr [Doc 1 0x10 [[]] [Doc 1 0x30 [[1, 2, 3, 4, 5]] [], Doc 2 0x20 [[9, 9, 9]] [], Doc 3 0x31 [[]] []],
       Doc 2 0x30 [[7]] []])"
  using cache_file_roundtrip [of sample_docs]
  by (simp add: sample_docs_def docs_ok_def stream_types_def CHUNK_SIZE_def COMPOSITE_STREAM_TYPE_ID_def BLOB_STREAM_TYPE_ID_def
      BINARY_STREAM_TYPE_ID_def)

end
