(* ===== verification/TokenizedStrings.thy ===== *)
theory TokenizedStrings
  imports StringDictionary IndexPairDictionary "HOL-Library.Monad_Syntax"
begin

section \<open>CTokenizedStringContainer (src/LogCache/Containers)\<close>

text \<open>
  The storage of the log messages: every string is a sequence of tokens, a token is a word of the
  word dictionary or a pair of tokens of the pair dictionary.  This theory holds the data, the access
  and the single modifications; the compression rounds follow in \<open>TokenizedStringsPacker\<close>.

  A function that returns an \<open>option\<close> of a sum may run forever (\<open>None\<close>) or fail (\<open>Inl\<close>).
\<close>

record tokenized_strings =
  ts_words :: string_dictionary
  ts_pairs :: index_pair_dictionary
  ts_stringData :: "index_t list"
  ts_offsets :: "index_t list"

definition ts_init :: "tokenized_strings option" where
  "ts_init = map_option (\<lambda>w. \<lparr>ts_words = w, ts_pairs = ipd_init, ts_stringData = [], ts_offsets = [0]\<rparr>) sd_init"

definition ts_size :: "tokenized_strings \<Rightarrow> index_t" where
  "ts_size c = of_nat (length (ts_offsets c)) - 1"

subsection \<open>Tokens\<close>

definition EMPTY_TOKEN :: index_t where
  "EMPTY_TOKEN = NO_INDEX"

definition LAST_PAIR_TOKEN :: index_t where
  "LAST_PAIR_TOKEN = NO_INDEX div 2"

definition IsToken :: "index_t \<Rightarrow> bool" where
  "IsToken token \<longleftrightarrow> token \<noteq> EMPTY_TOKEN"

definition IsDictionaryWord :: "index_t \<Rightarrow> bool" where
  "IsDictionaryWord token \<longleftrightarrow> token > LAST_PAIR_TOKEN"

definition GetWordIndex :: "index_t \<Rightarrow> index_t" where
  "GetWordIndex token = EMPTY_TOKEN - token"

definition GetPairIndex :: "index_t \<Rightarrow> index_t" where
  "GetPairIndex token = token"

definition GetWordToken :: "index_t \<Rightarrow> index_t" where
  "GetWordToken wordIndex = EMPTY_TOKEN - wordIndex"

definition GetPairToken :: "index_t \<Rightarrow> index_t" where
  "GetPairToken pairIndex = pairIndex"

text \<open>The recursion through the pairs ends only when no pair leads back to itself.\<close>

partial_function (option) AppendToken :: "tokenized_strings \<Rightarrow> index_t \<Rightarrow> (container_error + byte list) option" where
  "AppendToken c token =
     (if IsDictionaryWord token then Some (of_opt (sd_CopyTo (ts_words c) (GetWordIndex token)))
      else
        case ipd_at (ts_pairs c) (GetPairIndex token) of
          None \<Rightarrow> Some (Inl Undefined)
        | Some subTokens \<Rightarrow>
            Option.bind (AppendToken c (fst subTokens)) (\<lambda>r1.
              case r1 of
                Inl e \<Rightarrow> Some (Inl e)
              | Inr s1 \<Rightarrow> Option.bind (AppendToken c (snd subTokens)) (\<lambda>r2. Some (map_sum id ((@) s1) r2))))"

partial_function (option) GetTokenLength :: "tokenized_strings \<Rightarrow> index_t \<Rightarrow> (container_error + size_t) option" where
  "GetTokenLength c token =
     (if IsDictionaryWord token then Some (map_sum id ucast (of_opt (sd_GetLength (ts_words c) (GetWordIndex token))))
      else
        case ipd_at (ts_pairs c) (GetPairIndex token) of
          None \<Rightarrow> Some (Inl Undefined)
        | Some subTokens \<Rightarrow>
            Option.bind (GetTokenLength c (fst subTokens)) (\<lambda>r1.
              case r1 of
                Inl e \<Rightarrow> Some (Inl e)
              | Inr n1 \<Rightarrow> Option.bind (GetTokenLength c (snd subTokens)) (\<lambda>r2. Some (map_sum id ((+) n1) r2))))"

subsection \<open>Reading a string\<close>

text \<open>The tokens between the two offsets; outside of the data the iterators are invalid.\<close>

definition ts_range :: "tokenized_strings \<Rightarrow> index_t \<Rightarrow> index_t list option" where
  "ts_range c index =
     (if unat index + 1 < length (ts_offsets c)
      then let first = unat (ts_offsets c ! unat index); last = unat (ts_offsets c ! (unat index + 1))
           in if first \<le> last \<and> last \<le> length (ts_stringData c)
              then Some (take (last - first) (drop first (ts_stringData c))) else None
      else None)"

fun sum_lengths :: "tokenized_strings \<Rightarrow> index_t list \<Rightarrow> size_t \<Rightarrow> (container_error + size_t) option" where
  "sum_lengths c [] len = Some (Inr len)"
| "sum_lengths c (t # ts) len =
     (if IsToken t
      then Option.bind (GetTokenLength c t) (\<lambda>r. case r of Inl e \<Rightarrow> Some (Inl e) | Inr n \<Rightarrow> sum_lengths c ts (len + n))
      else Some (Inr len))"

fun append_tokens :: "tokenized_strings \<Rightarrow> index_t list \<Rightarrow> byte list \<Rightarrow> (container_error + byte list) option" where
  "append_tokens c [] s = Some (Inr s)"
| "append_tokens c (t # ts) s =
     (if IsToken t
      then Option.bind (AppendToken c t) (\<lambda>r. case r of Inl e \<Rightarrow> Some (Inl e) | Inr s' \<Rightarrow> append_tokens c ts (s @ s'))
      else Some (Inr s))"

text \<open>
  \<open>GetAt\<close> first adds up the lengths and then writes into a buffer of that size: writing more than that
  is undefined, what is not written stays zero.
\<close>

definition ts_GetAt :: "tokenized_strings \<Rightarrow> index_t \<Rightarrow> (container_error + byte list) option" where
  "ts_GetAt c index =
     (case ts_range c index of
        None \<Rightarrow> Some (Inl Undefined)
      | Some tokens \<Rightarrow>
          Option.bind (sum_lengths c tokens 0) (\<lambda>r.
            case r of
              Inl e \<Rightarrow> Some (Inl e)
            | Inr len \<Rightarrow>
                Option.bind (append_tokens c tokens []) (\<lambda>r2. Some (bindE r2 (\<lambda>s.
                  if length s \<le> unat len then Inr (s @ replicate (unat len - length s) 0) else Inl Undefined)))))"

subsection \<open>Appending a string\<close>

definition append_token :: "index_t \<Rightarrow> index_t list \<Rightarrow> container_error + index_t list" where
  "append_token token stringData =
     (if IsToken token
      then if length stringData = unat (NO_INDEX :: index_t) then Inl (CContainerException ''string container overflow'')
           else Inr (stringData @ [token])
      else Inr stringData)"

text \<open>
  The table of the delimiters has 256 entries and is indexed with a \<open>char\<close>: a negative one reads
  the memory in front of the table, which the argument \<open>outside\<close> stands for.
\<close>

definition delimiters :: "byte list" where
  "delimiters = [32, 9, 10, 92, 47, 40, 41, 60, 62, 123, 125, 34, 39, 46, 58, 61, 45, 43, 42, 94]"

definition is_delimiter :: "(byte \<Rightarrow> bool) \<Rightarrow> byte \<Rightarrow> bool" where
  "is_delimiter outside c = (if sint c < 0 then outside c else c \<in> set delimiters)"

text \<open>The length of the next word and whether the text behind it starts in a delimiter.\<close>

definition next_word :: "(byte \<Rightarrow> bool) \<Rightarrow> bool \<Rightarrow> byte list \<Rightarrow> nat \<times> bool" where
  "next_word delimiter inDelimiter s =
     (let nextPos = 1 + length (takeWhile (\<lambda>b. delimiter b = inDelimiter) (tl s));
          inDelimiter = (\<not> inDelimiter)
      in if nextPos + 1 < length s \<and> delimiter (s ! (nextPos + 1)) \<noteq> inDelimiter
         then (nextPos + 1, \<not> inDelimiter) else (nextPos, inDelimiter))"

text \<open>Folding: as long as the last token and the new one form a pair, both are replaced by it.\<close>

partial_function (option) fold_pairs ::
    "index_pair_dictionary \<Rightarrow> nat \<Rightarrow> index_t \<Rightarrow> index_t \<Rightarrow> index_t list \<Rightarrow>
     (container_error + index_t \<times> index_t \<times> index_t list) option" where
  "fold_pairs pairs stringStart lastToken token stringData =
     (case ipd_Find (lastToken, token) pairs of
        None \<Rightarrow> Some (Inl Undefined)
      | Some pairIndex \<Rightarrow>
          if pairIndex = NO_INDEX then Some (Inr (lastToken, token, stringData))
          else if length stringData = stringStart
          then fold_pairs pairs stringStart NO_INDEX (GetPairToken pairIndex) stringData
          else fold_pairs pairs stringStart (last stringData) (GetPairToken pairIndex) (butlast stringData))"

function append_words ::
    "(byte \<Rightarrow> bool) \<Rightarrow> nat \<Rightarrow> bool \<Rightarrow> index_t \<Rightarrow> byte list \<Rightarrow> tokenized_strings \<Rightarrow>
     (container_error + tokenized_strings) option" where
  "append_words delimiter stringStart inDelimiter lastToken s c =
     (if s = [] then Some (map_sum id (\<lambda>d. c\<lparr>ts_stringData := d\<rparr>) (append_token lastToken (ts_stringData c)))
      else
        let (n, inDelimiter) = next_word delimiter inDelimiter s;
            word = takeWhile (\<lambda>b. b \<noteq> 0) (take n s)
        in case sd_AutoInsert word (ts_words c) of
             Inl e \<Rightarrow> Some (Inl e)
           | Inr (wordIndex, words) \<Rightarrow>
               Option.bind (fold_pairs (ts_pairs c) stringStart lastToken (GetWordToken wordIndex) (ts_stringData c)) (\<lambda>r.
                 case bindE r (\<lambda>(lastToken, token, d). map_sum id (\<lambda>d. (token, d)) (append_token lastToken d)) of
                   Inl e \<Rightarrow> Some (Inl e)
                 | Inr (token, d) \<Rightarrow>
                     append_words delimiter stringStart inDelimiter token (drop n s) (c\<lparr>ts_words := words, ts_stringData := d\<rparr>)))"
  by pat_completeness auto
termination
  by (relation "measure (\<lambda>(delimiter, stringStart, inDelimiter, lastToken, s, c). length s)")
    (auto simp: next_word_def Let_def split: if_splits)

declare append_words.simps [simp del]

definition ts_Append :: "(byte \<Rightarrow> bool) \<Rightarrow> byte list \<Rightarrow> tokenized_strings \<Rightarrow> (container_error + tokenized_strings) option" where
  "ts_Append outside s c =
     append_words (is_delimiter outside) (length (ts_stringData c)) (s \<noteq> [] \<and> is_delimiter outside (hd s)) EMPTY_TOKEN s c"

subsection \<open>Modification\<close>

definition ts_Insert ::
    "(byte \<Rightarrow> bool) \<Rightarrow> byte list \<Rightarrow> tokenized_strings \<Rightarrow> (container_error + index_t \<times> tokenized_strings) option" where
  "ts_Insert outside s c =
     map_option (map_sum id (\<lambda>c.
       (of_nat (length (ts_offsets c) - 1), c\<lparr>ts_offsets := ts_offsets c @ [of_nat (length (ts_stringData c))]\<rparr>)))
       (ts_Append outside s c)"

text \<open>The second loop counts in an \<open>index_t\<close>: it does not end when the last bound is out of its range.\<close>

definition ts_Insert_copies ::
    "(byte \<Rightarrow> bool) \<Rightarrow> byte list \<Rightarrow> nat \<Rightarrow> tokenized_strings \<Rightarrow> (container_error + index_t \<times> tokenized_strings) option" where
  "ts_Insert_copies outside s copies c =
     (let result = of_nat (length (ts_offsets c) - 1)
      in if copies = 0 then Some (Inr (result, c))
         else
           let oldSize = length (ts_stringData c)
           in Option.bind (ts_Append outside s c) (\<lambda>r.
                case r of
                  Inl e \<Rightarrow> Some (Inl e)
                | Inr c \<Rightarrow>
                    let newSize = length (ts_stringData c); itemSize = newSize - oldSize;
                        item = drop oldSize (ts_stringData c)
                    in if itemSize * copies \<ge> 2 ^ 32 then None
                       else Some (Inr (result,
                         c\<lparr>ts_stringData := ts_stringData c @ concat (replicate (copies - 1) item),
                           ts_offsets := ts_offsets c @
                             (if itemSize = 0 then [] else map (\<lambda>k. of_nat (newSize + k * itemSize)) [0..<copies])\<rparr>))))"

definition ts_Remove :: "index_t \<Rightarrow> tokenized_strings \<Rightarrow> container_error + tokenized_strings" where
  "ts_Remove index c =
     (if unat (index + 2) = length (ts_offsets c) then Inr (c\<lparr>ts_offsets := butlast (ts_offsets c)\<rparr>)
      else if unat index < length (ts_offsets c) \<and> unat (ts_offsets c ! unat index) < length (ts_stringData c)
      then Inr (c\<lparr>ts_stringData := (ts_stringData c)[unat (ts_offsets c ! unat index) := EMPTY_TOKEN],
                  ts_offsets := take (unat index) (ts_offsets c) @ drop (unat index + 1) (ts_offsets c)\<rparr>)
      else Inl Undefined)"

definition ts_Clear :: "tokenized_strings \<Rightarrow> tokenized_strings option" where
  "ts_Clear c =
     map_option (\<lambda>w. \<lparr>ts_words = w, ts_pairs = ipd_Clear (ts_pairs c), ts_stringData = [], ts_offsets = take 1 (ts_offsets c)\<rparr>)
       (sd_Clear (ts_words c))"

definition ts_swap :: "tokenized_strings \<Rightarrow> tokenized_strings \<Rightarrow> tokenized_strings \<times> tokenized_strings" where
  "ts_swap c rhs =
     (let (w, w') = sd_swap (ts_words c) (ts_words rhs); (p, p') = ipd_Swap (ts_pairs c) (ts_pairs rhs)
      in (\<lparr>ts_words = w, ts_pairs = p, ts_stringData = ts_stringData rhs, ts_offsets = ts_offsets rhs\<rparr>,
          \<lparr>ts_words = w', ts_pairs = p', ts_stringData = ts_stringData c, ts_offsets = ts_offsets c\<rparr>))"

text \<open>The capacities of the vectors belong to the standard library: they are arguments.\<close>

definition ts_CanInsertThreadSafely :: "nat \<Rightarrow> nat \<Rightarrow> nat \<Rightarrow> nat \<Rightarrow> byte list \<Rightarrow> tokenized_strings \<Rightarrow> bool" where
  "ts_CanInsertThreadSafely offsets_capacity data_capacity packed_capacity word_offsets_capacity s c \<longleftrightarrow>
     length (ts_offsets c) + length s + 1 < offsets_capacity \<and>
     length (ts_stringData c) + length s + 1 < data_capacity \<and>
     sd_CanInsertThreadSafely packed_capacity word_offsets_capacity (of_nat (length s)) (length s) (ts_words c)"

definition ts_CompressedWordCount :: "tokenized_strings \<Rightarrow> nat" where
  "ts_CompressedWordCount c = length (ts_stringData c)"

definition ts_WorkTokenCount :: "tokenized_strings \<Rightarrow> index_t" where
  "ts_WorkTokenCount c = sd_size (ts_words c)"

definition ts_PairTokenCount :: "tokenized_strings \<Rightarrow> index_t" where
  "ts_PairTokenCount c = ipd_size (ts_pairs c)"

definition ts_WorkTokenSize :: "tokenized_strings \<Rightarrow> nat" where
  "ts_WorkTokenSize c = sd_GetPackedStringSize (ts_words c)"

subsection \<open>The check of loaded data\<close>

definition IsValidTokenIndex :: "tokenized_strings \<Rightarrow> index_t \<Rightarrow> bool" where
  "IsValidTokenIndex c token =
     (if \<not> IsToken token then True
      else if IsDictionaryWord token then GetWordIndex token < sd_size (ts_words c)
      else GetPairIndex token < ipd_size (ts_pairs c))"

fun valid_offsets :: "nat \<Rightarrow> index_t list \<Rightarrow> index_t \<Rightarrow> index_t option" where
  "valid_offsets n (o1 # o2 # os) last_offset =
     (if n \<le> unat o1 \<and> o1 \<noteq> o2 then None
      else if o1 < last_offset then None
      else valid_offsets n (o2 # os) o1)"
| "valid_offsets n os last_offset = Some last_offset"

definition ts_Validate :: "tokenized_strings \<Rightarrow> container_error + tokenized_strings" where
  "ts_Validate c =
     (if \<not> (\<forall>p \<in> set (ipd_data (ts_pairs c)). IsValidTokenIndex c (fst p) \<and> IsValidTokenIndex c (snd p))
      then Inl (CContainerException ''invalid token reference'')
      else if \<not> (\<forall>token \<in> set (ts_stringData c). IsValidTokenIndex c token)
      then Inl (CContainerException ''invalid token reference'')
      else
        case valid_offsets (length (ts_stringData c)) (ts_offsets c) 0 of
          None \<Rightarrow> Inl (CContainerException ''invalid offset in tokenized string container'')
        | Some last_offset \<Rightarrow>
            if unat last_offset > length (ts_stringData c)
            then Inl (CContainerException ''invalid offset in tokenized string container'') else Inr c)"

subsection \<open>What a token stands for\<close>

text \<open>The pairs are a grammar that produces every text from the words.\<close>

inductive expands :: "byte list list \<Rightarrow> index_pair list \<Rightarrow> index_t \<Rightarrow> byte list \<Rightarrow> bool" for ws ps where
  expands_word: "IsDictionaryWord t \<Longrightarrow> unat (GetWordIndex t) < length ws \<Longrightarrow> expands ws ps t (ws ! unat (GetWordIndex t))"
| expands_pair: "\<not> IsDictionaryWord t \<Longrightarrow> unat t < length ps \<Longrightarrow> ps ! unat t = (a, b) \<Longrightarrow>
    expands ws ps a x \<Longrightarrow> expands ws ps b y \<Longrightarrow> expands ws ps t (x @ y)"

inductive_cases expandsE: "expands ws ps t x"

fun expand_all :: "byte list list \<Rightarrow> index_pair list \<Rightarrow> index_t list \<Rightarrow> byte list \<Rightarrow> bool" where
  "expand_all ws ps [] x \<longleftrightarrow> x = []"
| "expand_all ws ps (t # ts) x \<longleftrightarrow> (\<exists>y z. x = y @ z \<and> expands ws ps t y \<and> expand_all ws ps ts z)"

lemma expands_det: "expands ws ps t x \<Longrightarrow> expands ws ps t y \<Longrightarrow> x = y"
proof (induction arbitrary: y rule: expands.induct)
  case (expands_word t)
  then show ?case by (auto elim: expandsE)
next
  case (expands_pair t a b x1 x2)
  obtain y1 y2 where "y = y1 @ y2" "expands ws ps a y1" "expands ws ps b y2"
    using expands_pair.prems expands_pair.hyps(1-3) by (auto elim: expandsE)
  then show ?case using expands_pair.IH by simp
qed

lemma expands_extend: "expands ws ps t x \<Longrightarrow> expands (ws @ ws') (ps @ ps') t x"
proof (induction rule: expands.induct)
  case (expands_word t)
  then show ?case using expands.expands_word [of t "ws @ ws'" "ps @ ps'"] by (simp add: nth_append)
next
  case (expands_pair t a b x y)
  then show ?case by (intro expands.expands_pair [of t "ps @ ps'" a b]) (simp_all add: nth_append)
qed

lemma expand_all_extend: "expand_all ws ps ts x \<Longrightarrow> expand_all (ws @ ws') (ps @ ps') ts x"
  by (induction ts arbitrary: x) (auto intro: expands_extend)

lemma expand_all_append [simp]:
  "expand_all ws ps (ts @ us) x \<longleftrightarrow> (\<exists>y z. x = y @ z \<and> expand_all ws ps ts y \<and> expand_all ws ps us z)"
proof (induction ts arbitrary: x)
  case (Cons t ts)
  show ?case by (simp add: Cons) (metis append_assoc)
qed simp

lemma expand_all_det: "expand_all ws ps ts x \<Longrightarrow> expand_all ws ps ts y \<Longrightarrow> x = y"
  by (induction ts arbitrary: x y) (auto dest: expands_det)

lemma sd_CopyTo_ok:
  assumes inv: "sd_inv d" and i: "unat i < length (sd_strings d)"
  shows "sd_CopyTo d i = Some (sd_strings d ! unat i)"
proof -
  let ?strs = "sd_strings d"
  have pk: "sd_packs ?strs d" by (rule sd_inv_rep(1) [OF inv])
  have o: "offsets d = map of_nat (offsets_from 0 ?strs)" "packedStrings d = packed_of ?strs" "length (packed_of ?strs) < 2 ^ 32"
    using pk by (simp_all add: sd_packs_def)
  note p = packed_of_split [OF i]
  have tk: "take (Suc (unat i)) ?strs = take (unat i) ?strs @ [?strs ! unat i]" using i by (rule take_Suc_conv_app_nth)
  let ?n = "length (packed_of (take (unat i) ?strs))" and ?m = "length (?strs ! unat i)"
  have b: "?n + ?m + 1 < 2 ^ 32" using o(3) arg_cong [OF p, of length] by simp
  have "offsets d ! unat i = of_nat ?n" "offsets d ! Suc (unat i) = of_nat (?n + ?m + 1)"
    using i by (simp_all add: o(1) nth_offsets_from tk)
  then have u: "unat (offsets d ! unat i) = ?n" "unat (offsets d ! Suc (unat i)) = ?n + ?m + 1"
    using b by (simp_all add: unat_of_nat_small del: of_nat_add of_nat_Suc)
  show ?thesis using i u o(1) unfolding sd_CopyTo_def Let_def o(2) by (subst p) simp
qed

lemma AppendToken_ok:
  assumes inv: "sd_inv (ts_words c)"
  shows "expands (sd_strings (ts_words c)) (ipd_data (ts_pairs c)) t x \<Longrightarrow> AppendToken c t = Some (Inr x)"
proof (induction rule: expands.induct)
  case (expands_word t)
  then show ?case by (simp add: AppendToken.simps [of c t] sd_CopyTo_ok [OF inv])
next
  case (expands_pair t a b x y)
  then show ?case by (simp add: AppendToken.simps [of c t] GetPairIndex_def ipd_at_def)
qed

lemma GetTokenLength_ok:
  assumes inv: "sd_inv (ts_words c)"
  shows "expands (sd_strings (ts_words c)) (ipd_data (ts_pairs c)) t x \<Longrightarrow> GetTokenLength c t = Some (Inr (of_nat (length x)))"
proof (induction rule: expands.induct)
  case (expands_word t)
  let ?i = "unat (GetWordIndex t)" and ?strs = "sd_strings (ts_words c)"
  have "length (?strs ! ?i) < length (packed_of ?strs)"
    using arg_cong [OF packed_of_split [OF expands_word(2)], of length] by simp
  then have "length (?strs ! ?i) < 2 ^ 32" using sd_inv_rep(1) [OF inv] by (simp add: sd_packs_def)
  then show ?case using expands_word by (simp add: GetTokenLength.simps [of c t] sd_GetLength_ok [OF inv] ucast_of_nat_size)
next
  case (expands_pair t a b x y)
  then show ?case by (simp add: GetTokenLength.simps [of c t] GetPairIndex_def ipd_at_def)
qed

subsection \<open>The token values\<close>

lemma unat_LAST_PAIR_TOKEN: "unat LAST_PAIR_TOKEN = 2 ^ 31 - 1"
  by (simp add: LAST_PAIR_TOKEN_def unat_div unat_NO_INDEX)

lemma word_token:
  assumes "unat i < 2 ^ 31"
  shows "IsDictionaryWord (GetWordToken i)" "GetWordIndex (GetWordToken i) = i" "IsToken (GetWordToken i) \<longleftrightarrow> i \<noteq> 0"
proof -
  have le: "i \<le> EMPTY_TOKEN" by (simp add: EMPTY_TOKEN_def NO_INDEX_def)
  have "unat (GetWordToken i) = 2 ^ 32 - 1 - unat i"
    using unat_sub [OF le] by (simp add: GetWordToken_def EMPTY_TOKEN_def unat_NO_INDEX)
  then show "IsDictionaryWord (GetWordToken i)"
    using assms by (simp add: IsDictionaryWord_def word_less_nat_alt unat_LAST_PAIR_TOKEN)
qed (simp_all add: GetWordIndex_def GetWordToken_def IsToken_def)

lemma pair_token: "unat p < 2 ^ 31 \<Longrightarrow> \<not> IsDictionaryWord p \<and> IsToken p"
  by (auto simp: IsDictionaryWord_def IsToken_def EMPTY_TOKEN_def word_less_nat_alt unat_LAST_PAIR_TOKEN unat_NO_INDEX)

text \<open>The parts of the container that the tokens are read with.\<close>

definition tokens_ok :: "string_dictionary \<Rightarrow> index_pair_dictionary \<Rightarrow> bool" where
  "tokens_ok w p \<longleftrightarrow> sd_inv w \<and> ipd_sound p \<and> length (sd_strings w) \<le> 2 ^ 31 \<and> length (ipd_data p) \<le> 2 ^ 31 \<and>
     (\<forall>(a, b) \<in> set (ipd_data p). IsToken a \<and> IsToken b)"

lemma expands_EMPTY: "sd_inv w \<Longrightarrow> expands (sd_strings w) ps EMPTY_TOKEN x \<longleftrightarrow> x = []"
proof -
  assume w: "sd_inv w"
  have "sd_strings w ! 0 = []" "0 < length (sd_strings w)" using sd_inv_rep(3,4) [OF w] by (simp_all add: hd_conv_nth)
  moreover have "IsDictionaryWord EMPTY_TOKEN" by (simp add: IsDictionaryWord_def EMPTY_TOKEN_def word_less_nat_alt unat_LAST_PAIR_TOKEN unat_NO_INDEX)
  moreover have "GetWordIndex EMPTY_TOKEN = 0" by (simp add: GetWordIndex_def)
  ultimately show ?thesis using expands_word [of EMPTY_TOKEN "sd_strings w" ps] expands_det by (metis unat_0)
qed

lemma expands_pair_token:
  assumes "tokens_ok w p" "ipd_Find (a, b) p = Some i" "i \<noteq> NO_INDEX" "expands (sd_strings w) (ipd_data p) a x"
    "expands (sd_strings w) (ipd_data p) b y"
  shows "expands (sd_strings w) (ipd_data p) i (x @ y)" "IsToken i" "IsToken a" "IsToken b"
proof -
  have p: "ipd_sound p" "length (ipd_data p) \<le> 2 ^ 31" "\<And>a b. (a, b) \<in> set (ipd_data p) \<Longrightarrow> IsToken a \<and> IsToken b"
    using assms(1) by (auto simp: tokens_ok_def)
  have at: "unat i < length (ipd_data p)" "ipd_data p ! unat i = (a, b)"
    using ipd_Find_sound [OF p(1), of "(a, b)"] assms(2,3) by (auto split: if_splits)
  then have t: "\<not> IsDictionaryWord i \<and> IsToken i" using p(2) by (intro pair_token) simp
  show "expands (sd_strings w) (ipd_data p) i (x @ y)" using t at assms(4,5) by (intro expands_pair [of i "ipd_data p" a b]) auto
  show "IsToken i" using t by simp
  show "IsToken a" "IsToken b" using at p(3) nth_mem by metis+
qed

lemma tokens_ok_Find: "tokens_ok w p \<Longrightarrow> \<exists>i. ipd_Find v p = Some i"
  using ipd_Find_sound [of p v] by (auto simp: tokens_ok_def)

subsection \<open>Folding and appending\<close>

lemma fold_pairs_ok:
  assumes ok: "tokens_ok w p"
  shows "\<forall>t \<in> set D. IsToken t \<Longrightarrow> (l = EMPTY_TOKEN \<longrightarrow> D = []) \<Longrightarrow> IsToken t \<Longrightarrow>
    expand_all (sd_strings w) (ipd_data p) (D @ [l, t]) x \<Longrightarrow>
    \<exists>l' t' D'. fold_pairs p (length pre) l t (pre @ D) = Some (Inr (l', t', pre @ D')) \<and> (\<forall>t \<in> set D'. IsToken t) \<and>
      (l' = EMPTY_TOKEN \<longrightarrow> D' = []) \<and> IsToken t' \<and> length D' \<le> length D \<and>
      expand_all (sd_strings w) (ipd_data p) (D' @ [l', t']) x"
proof (induction D arbitrary: l t rule: rev_induct)
  case Nil
  obtain i where i: "ipd_Find (l, t) p = Some i" using tokens_ok_Find [OF ok] by blast
  obtain y z where yz: "x = y @ z" "expands (sd_strings w) (ipd_data p) l y" "expands (sd_strings w) (ipd_data p) t z"
    using Nil.prems(4) by auto
  show ?case
  proof (cases "i = NO_INDEX")
    case True
    then show ?thesis using Nil.prems i by (simp add: fold_pairs.simps [of p "length pre" l t])
  next
    case False
    note e = expands_pair_token [OF ok i False yz(2,3)]
    obtain j where j: "ipd_Find (NO_INDEX, i) p = Some j" using tokens_ok_Find [OF ok] by blast
    have em: "expands (sd_strings w) (ipd_data p) EMPTY_TOKEN []" using expands_EMPTY ok by (simp add: tokens_ok_def)
    have "j = NO_INDEX" using expands_pair_token(3) [OF ok j [folded EMPTY_TOKEN_def] _ em e(1)] by (auto simp: IsToken_def EMPTY_TOKEN_def)
    then have "fold_pairs p (length pre) l t pre = Some (Inr (EMPTY_TOKEN, i, pre))"
      using i False j by (simp add: fold_pairs.simps [of p "length pre" l t] fold_pairs.simps [of p "length pre" NO_INDEX i] GetPairToken_def EMPTY_TOKEN_def)
    moreover have "expand_all (sd_strings w) (ipd_data p) [EMPTY_TOKEN, i] x" using em e(1) yz(1) by force
    ultimately show ?thesis using e(2) by (intro exI [of _ EMPTY_TOKEN] exI [of _ i] exI [of _ "[]"]) simp
  qed
next
  case (snoc d D)
  obtain i where i: "ipd_Find (l, t) p = Some i" using tokens_ok_Find [OF ok] by blast
  obtain u v where uv: "x = u @ v" "expand_all (sd_strings w) (ipd_data p) (D @ [d]) u" "expand_all (sd_strings w) (ipd_data p) [l, t] v"
    using iffD1 [OF expand_all_append snoc.prems(4)] by blast
  then obtain y z where yz: "x = u @ y @ z" "expand_all (sd_strings w) (ipd_data p) (D @ [d]) u"
      "expands (sd_strings w) (ipd_data p) l y" "expands (sd_strings w) (ipd_data p) t z"
    by auto
  show ?case
  proof (cases "i = NO_INDEX")
    case True
    then show ?thesis using snoc.prems i by (intro exI [of _ l] exI [of _ t] exI [of _ "D @ [d]"]) (simp add: fold_pairs.simps [of p "length pre" l t])
  next
    case False
    note e = expands_pair_token [OF ok i False yz(3,4)]
    have "fold_pairs p (length pre) l t (pre @ D @ [d]) = fold_pairs p (length pre) d i (pre @ D)"
      using i False by (simp add: fold_pairs.simps [of p "length pre" l t] GetPairToken_def butlast_append)
    moreover have "expand_all (sd_strings w) (ipd_data p) ((D @ [d]) @ [i]) x"
      by (rule iffD2 [OF expand_all_append], rule exI [of _ u], rule exI [of _ "y @ z"]) (use yz(1,2) e(1) in auto)
    moreover have "d \<noteq> EMPTY_TOKEN" "\<forall>t \<in> set D. IsToken t" using snoc.prems(1) by (auto simp: IsToken_def)
    ultimately show ?thesis using snoc.IH [of d i] e(2) unfolding append_assoc append_Cons append_Nil length_append by fastforce
  qed
qed

lemma tokens_ok_extend:
  assumes "tokens_ok w p" "sd_inv w'" "length (sd_strings w') \<le> 2 ^ 31"
  shows "tokens_ok w' p"
  using assms by (simp add: tokens_ok_def)

text \<open>Room for the words of a text: each of them takes its characters and a zero.\<close>

definition words_room :: "nat \<Rightarrow> string_dictionary \<Rightarrow> bool" where
  "words_room n w \<longleftrightarrow> load_ok (sd_hashIndex w) \<and> length (sd_strings w) + n \<le> 119304646 \<and>
     length (packed_of (sd_strings w)) + 2 * n + 10 < 2 ^ 32"

lemma words_insert_ok:
  assumes ok: "tokens_ok w p" and room: "words_room m w" and s: "s \<noteq> []" "0 \<notin> set s" "length s \<le> m"
  shows "\<exists>i w' ws. sd_AutoInsert s w = Inr (i, w') \<and> tokens_ok w' p \<and> sd_strings w' = sd_strings w @ ws \<and>
    words_room (m - length s) w' \<and> IsToken (GetWordToken i) \<and> expands (sd_strings w') (ipd_data p) (GetWordToken i) s"
proof -
  have inv: "sd_inv w" using ok by (simp add: tokens_ok_def)
  have "sd_room s w" using room s by (intro sd_room_light [OF inv]) (auto simp: words_room_def)
  then obtain w' where w': "sd_AutoInsert s w = Inr (index_in (sd_strings w') s, w')" "sd_inv w'"
      "sd_strings w' = (if s \<in> set (sd_strings w) then sd_strings w else sd_strings w @ [s])"
      "sd_light w \<longrightarrow> load_ok (sd_hashIndex w')" using sd_AutoInsert_ok [OF inv] by blast
  define ws where "ws = (if s \<in> set (sd_strings w) then [] else [s])"
  have app: "sd_strings w' = sd_strings w @ ws" by (simp add: w'(3) ws_def)
  have len: "length ws \<le> 1" "length (packed_of ws) \<le> length s + 1" by (auto simp: ws_def)
  have s1: "1 \<le> length s" using s(1) by (cases s) auto
  have "length (sd_strings w') \<le> 2 ^ 31" using len(1) room s1 s(3) by (simp add: app words_room_def)
  then have ok': "tokens_ok w' p" by (rule tokens_ok_extend [OF ok w'(2)])
  have "load_ok (sd_hashIndex w')" using w'(4) room by (simp add: sd_light_def words_room_def)
  moreover obtain k where "m = length s + k" using s(3) le_Suc_ex by blast
  ultimately have room': "words_room (m - length s) w'" using room len s1 by (simp add: words_room_def app)
  have "s \<in> set (sd_strings w')" by (simp add: w'(3))
  then obtain n where n: "n < length (sd_strings w')" "sd_strings w' ! n = s" "index_in (sd_strings w') s = (of_nat n :: index_t)"
      "unat (of_nat n :: index_t) = n" using string_pool.index_position [OF w'(2)] by blast
  let ?i = "of_nat n :: index_t"
  have i31: "unat ?i < 2 ^ 31" using n(1,4) room len(1) s1 s(3) by (simp add: app words_room_def)
  have "n \<noteq> 0" using n(2) s(1) sd_inv_rep(3,4) [OF w'(2)] by (metis hd_conv_nth)
  then have "?i \<noteq> 0" using n(4) by (metis unat_0)
  note t = word_token [OF i31]
  have "expands (sd_strings w') (ipd_data p) (GetWordToken ?i) s"
    using expands_word [of "GetWordToken ?i" "sd_strings w'" "ipd_data p"] t n(1,2,4) by simp
  moreover have "IsToken (GetWordToken ?i)" using t(3) \<open>?i \<noteq> 0\<close> by simp
  ultimately show ?thesis using w'(1) n(3) ok' app room' by auto
qed

lemma next_word_length:
  assumes "s \<noteq> []" "next_word delimiter b s = (n, b')"
  shows "0 < n" "n \<le> length s"
  using assms length_takeWhile_le [of "\<lambda>c. delimiter c = b" "tl s"]
  by (cases s; auto simp: next_word_def Let_def split: if_splits)+

lemma append_token_ok:
  assumes "expand_all ws ps (D @ [t]) x" "t = EMPTY_TOKEN \<longrightarrow> D = []" "\<forall>t \<in> set D. IsToken t" "length (pre @ D) + 1 < 2 ^ 32"
    and em: "\<And>y. expands ws ps EMPTY_TOKEN y \<longleftrightarrow> y = []"
  shows "\<exists>D'. append_token t (pre @ D) = Inr (pre @ D') \<and> expand_all ws ps D' x \<and> (\<forall>t \<in> set D'. IsToken t) \<and> length D' \<le> length D + 1"
proof (cases "t = EMPTY_TOKEN")
  case True
  then show ?thesis using assms by (intro exI [of _ "[]"]) (simp add: append_token_def IsToken_def)
next
  case False
  have "length (pre @ D) \<noteq> unat (NO_INDEX :: index_t)" using assms(4) by (simp add: unat_NO_INDEX)
  then show ?thesis using False assms by (intro exI [of _ "D @ [t]"]) (simp add: append_token_def IsToken_def del: expand_all_append)
qed

lemma append_words_ok:
  "tokens_ok (ts_words c) (ts_pairs c) \<Longrightarrow> words_room (length s + k) (ts_words c) \<Longrightarrow> 0 \<notin> set s \<Longrightarrow>
   ts_stringData c = pre @ D \<Longrightarrow> \<forall>t \<in> set D. IsToken t \<Longrightarrow> (l = EMPTY_TOKEN \<longrightarrow> D = []) \<Longrightarrow>
   expand_all (sd_strings (ts_words c)) (ipd_data (ts_pairs c)) (D @ [l]) x \<Longrightarrow> length (pre @ D) + length s + 1 < 2 ^ 32 \<Longrightarrow>
   \<exists>w ws D'. append_words delimiter (length pre) b l s c = Some (Inr (c\<lparr>ts_words := w, ts_stringData := pre @ D'\<rparr>)) \<and>
     tokens_ok w (ts_pairs c) \<and> sd_strings w = sd_strings (ts_words c) @ ws \<and> words_room k w \<and>
     (\<forall>t \<in> set D'. IsToken t) \<and> expand_all (sd_strings w) (ipd_data (ts_pairs c)) D' (x @ s) \<and> length D' \<le> length D + length s + 1"
proof (induction "length s" arbitrary: s b l c D x rule: less_induct)
  case less
  have inv: "sd_inv (ts_words c)" using less.prems(1) by (simp add: tokens_ok_def)
  show ?case
  proof (cases "s = []")
    case True
    have "length (pre @ D) + 1 < 2 ^ 32" using less.prems(8) by simp
    then obtain D' where "append_token l (pre @ D) = Inr (pre @ D')" "expand_all (sd_strings (ts_words c)) (ipd_data (ts_pairs c)) D' x"
        "\<forall>t \<in> set D'. IsToken t" "length D' \<le> length D + 1"
      using append_token_ok [OF less.prems(7,6,5) _ expands_EMPTY [OF inv]] by blast
    then show ?thesis using True less.prems(1,2,4)
      by (intro exI [of _ "ts_words c"] exI [of _ "[]"] exI [of _ D']) (simp add: append_words.simps)
  next
    case False
    obtain n b' where nw: "next_word delimiter b s = (n, b')" by force
    have n: "0 < n" "n \<le> length s" using next_word_length [OF False nw] by simp_all
    let ?word = "take n s"
    have z: "0 \<notin> set ?word" using less.prems(3) set_take_subset [of n s] by blast
    have tw: "takeWhile (\<lambda>b. b \<noteq> 0) ?word = ?word" using z by (simp add: takeWhile_eq_all_conv) blast
    have ne: "?word \<noteq> []" "length ?word = n" using n by auto
    obtain i w1 ws1 where w1: "sd_AutoInsert ?word (ts_words c) = Inr (i, w1)" "tokens_ok w1 (ts_pairs c)"
        "sd_strings w1 = sd_strings (ts_words c) @ ws1" "words_room (length s + k - n) w1" "IsToken (GetWordToken i)"
        "expands (sd_strings w1) (ipd_data (ts_pairs c)) (GetWordToken i) ?word"
      using words_insert_ok [OF less.prems(1,2) ne(1) z] ne(2) n(2) by auto
    have "expand_all (sd_strings w1) (ipd_data (ts_pairs c)) (D @ [l]) x"
      using expand_all_extend [OF less.prems(7), of ws1 "[]"] by (simp add: w1(3) del: expand_all_append)
    then have "expand_all (sd_strings w1) (ipd_data (ts_pairs c)) ((D @ [l]) @ [GetWordToken i]) (x @ ?word)"
      using w1(6) by (intro iffD2 [OF expand_all_append] exI [of _ x] exI [of _ ?word]) auto
    then have "expand_all (sd_strings w1) (ipd_data (ts_pairs c)) (D @ [l, GetWordToken i]) (x @ ?word)" by simp
    then obtain l' t' D1 where f: "fold_pairs (ts_pairs c) (length pre) l (GetWordToken i) (pre @ D) = Some (Inr (l', t', pre @ D1))"
        "\<forall>t \<in> set D1. IsToken t" "l' = EMPTY_TOKEN \<longrightarrow> D1 = []" "IsToken t'" "length D1 \<le> length D"
        "expand_all (sd_strings w1) (ipd_data (ts_pairs c)) (D1 @ [l', t']) (x @ ?word)"
      using fold_pairs_ok [OF w1(2) less.prems(5,6) w1(5)] by blast
    have "expand_all (sd_strings w1) (ipd_data (ts_pairs c)) ((D1 @ [l']) @ [t']) (x @ ?word)"
      using f(6) by (simp del: expand_all_append)
    from iffD1 [OF expand_all_append this] obtain u v where uv: "x @ ?word = u @ v" "expand_all (sd_strings w1) (ipd_data (ts_pairs c)) (D1 @ [l']) u"
        "expand_all (sd_strings w1) (ipd_data (ts_pairs c)) [t'] v"
      by blast
    have inv1: "sd_inv w1" using w1(2) by (simp add: tokens_ok_def)
    have "length (pre @ D1) + 1 < 2 ^ 32" using less.prems(8) f(5) by simp
    then obtain D2 where D2: "append_token l' (pre @ D1) = Inr (pre @ D2)" "expand_all (sd_strings w1) (ipd_data (ts_pairs c)) D2 u"
        "\<forall>t \<in> set D2. IsToken t" "length D2 \<le> length D1 + 1"
      using append_token_ok [OF uv(2) f(3,2) _ expands_EMPTY [OF inv1]] by blast
    let ?c = "c\<lparr>ts_words := w1, ts_stringData := pre @ D2\<rparr>"
    have e2: "expand_all (sd_strings w1) (ipd_data (ts_pairs c)) (D2 @ [t']) (x @ ?word)"
      unfolding uv(1) using D2(2) uv(3) by (intro iffD2 [OF expand_all_append] exI [of _ u] exI [of _ v]) auto
    have step: "append_words delimiter (length pre) b l s c = append_words delimiter (length pre) b' t' (drop n s) ?c"
      using False nw f(1) D2(1) less.prems(4) by (simp add: append_words.simps [of delimiter "length pre" b l s] tw w1(1))
    have room1: "words_room (length (drop n s) + k) w1" using w1(4) n(2) by simp
    have "\<exists>w ws D'. append_words delimiter (length pre) b' t' (drop n s) ?c =
        Some (Inr (?c\<lparr>ts_words := w, ts_stringData := pre @ D'\<rparr>)) \<and>
      tokens_ok w (ts_pairs ?c) \<and> sd_strings w = sd_strings (ts_words ?c) @ ws \<and> words_room k w \<and>
      (\<forall>t \<in> set D'. IsToken t) \<and> expand_all (sd_strings w) (ipd_data (ts_pairs ?c)) D' ((x @ ?word) @ drop n s) \<and>
      length D' \<le> length D2 + length (drop n s) + 1"
      using less.prems(3,8) n D2 f(4,5) e2 w1(2) room1 set_drop_subset [of n s]
      by (intro less.hyps) (auto simp: IsToken_def)
    then show ?thesis unfolding step using w1(3) D2(4) f(5) n by fastforce
  qed
qed

subsection \<open>The layout of the strings\<close>

fun starts :: "nat \<Rightarrow> 'a list list \<Rightarrow> nat list" where
  "starts n [] = [n]"
| "starts n (l # L) = n # starts (n + length l) L"

lemma length_starts [simp]: "length (starts n L) = length L + 1"
  by (induction n L rule: starts.induct) auto

lemma nth_starts: "i \<le> length L \<Longrightarrow> starts n L ! i = n + length (concat (take i L))"
proof (induction n L arbitrary: i rule: starts.induct)
  case (2 n l L)
  then show ?case by (cases i) auto
qed simp

lemma starts_snoc: "starts n (L @ [l]) = starts n L @ [n + length (concat L) + length l]"
  by (induction n L rule: starts.induct) auto

definition layout :: "tokenized_strings \<Rightarrow> index_t list \<Rightarrow> index_t list list \<Rightarrow> bool" where
  "layout c pre L \<longleftrightarrow> ts_stringData c = pre @ concat L \<and> ts_offsets c = map of_nat (starts (length pre) L) \<and>
     length (pre @ concat L) < 2 ^ 32 \<and> (pre = [] \<or> \<not> IsToken (hd pre))"

lemma length_concat_take: "length (concat (take i L)) \<le> length (concat L)"
  by (metis append_take_drop_id concat_append le_add1 length_append)

lemma concat_split: "i < length L \<Longrightarrow> concat L = concat (take i L) @ L ! i @ concat (drop (Suc i) L)"
  using arg_cong [OF id_take_nth_drop, of i L concat] by simp

lemma layout_offset:
  assumes "layout c pre L" "i \<le> length L"
  shows "unat (ts_offsets c ! i) = length pre + length (concat (take i L))"
proof -
  have "ts_offsets c ! i = of_nat (length pre + length (concat (take i L)))"
    using assms by (simp add: layout_def nth_starts)
  moreover have "length pre + length (concat (take i L)) < 2 ^ 32"
    using assms(1) length_concat_take [of i L] by (simp add: layout_def)
  ultimately show ?thesis by (simp add: unat_of_nat_small del: of_nat_add)
qed

lemma ts_range_ok:
  assumes l: "layout c pre L" and i: "unat i < length L"
  shows "ts_range c i = Some (L ! unat i)"
proof -
  let ?n = "length pre + length (concat (take (unat i) L))"
  have tk: "concat (take (Suc (unat i)) L) = concat (take (unat i) L) @ L ! unat i" using i by (simp add: take_Suc_conv_app_nth)
  note s = concat_split [OF i]
  have "unat (ts_offsets c ! unat i) = ?n" "unat (ts_offsets c ! Suc (unat i)) = ?n + length (L ! unat i)"
    using layout_offset [OF l] i by (simp_all add: tk)
  moreover have d: "ts_stringData c = (pre @ concat (take (unat i) L)) @ L ! unat i @ concat (drop (Suc (unat i)) L)"
    using l s by (simp add: layout_def)
  have "drop ?n (ts_stringData c) = L ! unat i @ concat (drop (Suc (unat i)) L)" "?n + length (L ! unat i) \<le> length (ts_stringData c)"
    by (simp_all add: d)
  moreover have "length (ts_offsets c) = length L + 1" using l by (simp add: layout_def)
  ultimately show ?thesis using i by (simp add: ts_range_def)
qed

text \<open>The tokens of a string end at the first empty one.\<close>

lemma sum_lengths_ok:
  assumes w: "sd_inv (ts_words c)"
  shows "expand_all (sd_strings (ts_words c)) (ipd_data (ts_pairs c)) (takeWhile IsToken ts) x \<Longrightarrow>
    sum_lengths c ts len = Some (Inr (len + of_nat (length x)))"
  by (induction ts arbitrary: len x) (auto simp: GetTokenLength_ok [OF w] algebra_simps split: if_splits)

lemma append_tokens_ok:
  assumes w: "sd_inv (ts_words c)"
  shows "expand_all (sd_strings (ts_words c)) (ipd_data (ts_pairs c)) (takeWhile IsToken ts) x \<Longrightarrow>
    append_tokens c ts s = Some (Inr (s @ x))"
  by (induction ts arbitrary: s x) (auto simp: AppendToken_ok [OF w] split: if_splits)

text \<open>The container holds the texts: their tokens lie in the data one after the other, each with some
  padding behind an empty token.\<close>

definition tokens_text :: "string_dictionary \<Rightarrow> index_pair_dictionary \<Rightarrow> index_t list \<Rightarrow> byte list \<Rightarrow> bool" where
  "tokens_text w p l x \<longleftrightarrow> expand_all (sd_strings w) (ipd_data p) (takeWhile IsToken l) x \<and> length x < 2 ^ 64"

definition readable :: "string_dictionary \<Rightarrow> index_pair_dictionary \<Rightarrow> index_t list \<Rightarrow> bool" where
  "readable w p ts \<longleftrightarrow> (\<forall>t \<in> set ts. \<exists>x. expands (sd_strings w) (ipd_data p) t x)"

definition ts_holds :: "tokenized_strings \<Rightarrow> byte list list \<Rightarrow> bool" where
  "ts_holds c texts \<longleftrightarrow> tokens_ok (ts_words c) (ts_pairs c) \<and> readable (ts_words c) (ts_pairs c) (ts_stringData c) \<and>
     (\<exists>pre L. layout c pre L \<and> list_all2 (tokens_text (ts_words c) (ts_pairs c)) L texts)"

lemma ts_holdsE:
  assumes "ts_holds c texts"
  obtains pre L where "layout c pre L" "list_all2 (tokens_text (ts_words c) (ts_pairs c)) L texts" "length L = length texts"
    "readable (ts_words c) (ts_pairs c) (ts_stringData c)"
  using assms list_all2_lengthD unfolding ts_holds_def by blast

lemma ts_holds_tokens: "ts_holds c texts \<Longrightarrow> tokens_ok (ts_words c) (ts_pairs c)"
  by (simp add: ts_holds_def)

lemma ts_GetAt_ok:
  assumes h: "ts_holds c texts" and i: "unat i < length texts"
  shows "ts_GetAt c i = Some (Inr (texts ! unat i))"
proof -
  obtain pre L where L: "layout c pre L" "list_all2 (tokens_text (ts_words c) (ts_pairs c)) L texts" "length L = length texts"
    by (rule ts_holdsE [OF h])
  have w: "sd_inv (ts_words c)" using h by (simp add: ts_holds_def tokens_ok_def)
  have iL: "unat i < length L" using i L(3) by simp
  have "tokens_text (ts_words c) (ts_pairs c) (L ! unat i) (texts ! unat i)" using L(2) i by (rule list_all2_nthD2)
  then have e: "expand_all (sd_strings (ts_words c)) (ipd_data (ts_pairs c)) (takeWhile IsToken (L ! unat i)) (texts ! unat i)"
    and l: "length (texts ! unat i) < 2 ^ 64" by (simp_all add: tokens_text_def)
  have "unat (of_nat (length (texts ! unat i)) :: size_t) = length (texts ! unat i)" using l by (simp add: unat_of_nat_small)
  then show ?thesis using ts_range_ok [OF L(1) iL] sum_lengths_ok [OF w e] append_tokens_ok [OF w e] by (simp add: ts_GetAt_def)
qed

lemma ts_holds_length: "ts_holds c texts \<Longrightarrow> length (ts_offsets c) = length texts + 1"
  by (auto simp: ts_holds_def layout_def dest: list_all2_lengthD)

lemma layout_snoc:
  assumes "layout c pre L" "length (pre @ concat L) + length D < 2 ^ 32"
  shows "layout (c\<lparr>ts_words := w, ts_stringData := ts_stringData c @ D, ts_offsets := ts_offsets c @ [of_nat (length (ts_stringData c @ D))]\<rparr>) pre (L @ [D])"
  using assms by (simp add: layout_def starts_snoc add.assoc)

lemma readable_append [simp]: "readable w p (ts @ us) \<longleftrightarrow> readable w p ts \<and> readable w p us"
  by (auto simp: readable_def)

lemma readable_tokens: "expand_all (sd_strings w) (ipd_data p) ts x \<Longrightarrow> readable w p ts"
  by (induction ts arbitrary: x) (auto simp: readable_def)

lemma readable_extend: "readable w p ts \<Longrightarrow> sd_strings w' = sd_strings w @ ws \<Longrightarrow> ipd_data p' = ipd_data p @ ps \<Longrightarrow> readable w' p' ts"
  by (auto simp: readable_def dest: expands_extend)

lemma tokens_text_extend:
  "list_all2 (tokens_text w p) L texts \<Longrightarrow> sd_strings w' = sd_strings w @ ws \<Longrightarrow> list_all2 (tokens_text w' p) L texts"
  using expand_all_extend [of "sd_strings w" "ipd_data p" _ _ ws "[]"] by (auto simp: tokens_text_def elim!: list_all2_mono)

lemma ts_Append_ok:
  assumes h: "tokens_ok (ts_words c) (ts_pairs c)" and room: "words_room (length s + k) (ts_words c)" "0 \<notin> set s"
    "length (ts_stringData c) + length s + 1 < 2 ^ 32"
  obtains w D ws where "ts_Append outside s c = Some (Inr (c\<lparr>ts_words := w, ts_stringData := ts_stringData c @ D\<rparr>))"
    "tokens_ok w (ts_pairs c)" "sd_strings w = sd_strings (ts_words c) @ ws" "words_room k w" "\<forall>t \<in> set D. IsToken t"
    "expand_all (sd_strings w) (ipd_data (ts_pairs c)) D s" "length D \<le> length s + 1"
proof -
  have ok: "tokens_ok (ts_words c) (ts_pairs c)" "sd_inv (ts_words c)" using h by (auto simp: tokens_ok_def)
  have "expand_all (sd_strings (ts_words c)) (ipd_data (ts_pairs c)) ([] @ [EMPTY_TOKEN]) []" using expands_EMPTY [OF ok(2)] by simp
  then show thesis
    using append_words_ok [of c s k "ts_stringData c" "[]" EMPTY_TOKEN "[]" "is_delimiter outside" "s \<noteq> [] \<and> is_delimiter outside (hd s)"]
      ok(1) room that by (auto simp: ts_Append_def)
qed

lemma tokens_text_tokens: "\<forall>t \<in> set D. IsToken t \<Longrightarrow> length x < 2 ^ 64 \<Longrightarrow>
    tokens_text w p D x \<longleftrightarrow> expand_all (sd_strings w) (ipd_data p) D x"
  by (simp add: tokens_text_def takeWhile_eq_all_conv [THEN iffD2])

lemma ts_Insert_ok:
  assumes h: "ts_holds c texts" and room: "words_room (length s + k) (ts_words c)" "0 \<notin> set s"
    "length (ts_stringData c) + length s + 1 < 2 ^ 32"
  shows "\<exists>c'. ts_Insert outside s c = Some (Inr (of_nat (length texts), c')) \<and> ts_holds c' (texts @ [s]) \<and> words_room k (ts_words c') \<and>
    length (ts_stringData c') \<le> length (ts_stringData c) + length s + 1 \<and> ts_pairs c' = ts_pairs c \<and>
    hd (ts_offsets c') = hd (ts_offsets c)"
proof -
  obtain w D ws where A: "ts_Append outside s c = Some (Inr (c\<lparr>ts_words := w, ts_stringData := ts_stringData c @ D\<rparr>))"
    "tokens_ok w (ts_pairs c)" "sd_strings w = sd_strings (ts_words c) @ ws" "words_room k w" "\<forall>t \<in> set D. IsToken t"
    "expand_all (sd_strings w) (ipd_data (ts_pairs c)) D s" "length D \<le> length s + 1"
    by (rule ts_Append_ok [OF ts_holds_tokens [OF h] room])
  obtain pre L where L: "layout c pre L" "list_all2 (tokens_text (ts_words c) (ts_pairs c)) L texts" "readable (ts_words c) (ts_pairs c) (ts_stringData c)"
    by (rule ts_holdsE [OF h])
  let ?c = "c\<lparr>ts_words := w, ts_stringData := ts_stringData c @ D, ts_offsets := ts_offsets c @ [of_nat (length (ts_stringData c @ D))]\<rparr>"
  have "length (pre @ concat L) + length D < 2 ^ 32" using L(1) A(7) room(3) by (simp add: layout_def)
  note lay = layout_snoc [OF L(1) this, of w]
  have "length s < 2 ^ 64" using room(1) by (simp add: words_room_def)
  then have "list_all2 (tokens_text w (ts_pairs c)) (L @ [D]) (texts @ [s])"
    using tokens_text_extend [OF L(2) A(3)] A(5,6) by (simp add: list_all2_appendI tokens_text_tokens)
  moreover have "readable w (ts_pairs c) (ts_stringData c @ D)"
    using readable_extend [OF L(3) A(3)] readable_tokens [OF A(6)] by simp
  ultimately have "ts_holds ?c (texts @ [s])" using lay A(2) unfolding ts_holds_def by (intro conjI exI [of _ pre] exI [of _ "L @ [D]"]) auto
  moreover have "hd (ts_offsets ?c) = hd (ts_offsets c)" using ts_holds_length [OF h] by (cases "ts_offsets c") auto
  ultimately show ?thesis using A(1,4,7) ts_holds_length [OF h] by (simp add: ts_Insert_def)
qed

lemma starts_ne [simp]: "starts n L \<noteq> []"
  by (cases L) auto

lemma starts_append: "starts n (A @ B) = butlast (starts n A) @ starts (n + length (concat A)) B"
  by (induction n A rule: starts.induct) (auto simp: add.assoc)

lemma butlast_starts_snoc [simp]: "butlast (starts n (A @ [x])) = starts n A"
  by (simp add: starts_snoc)

lemma takeWhile_stop: "\<not> P x \<Longrightarrow> takeWhile P (a @ x # t) = takeWhile P a"
  by (induction a) auto

lemma ts_Remove_layout:
  assumes l: "layout c pre (A @ (t # l) # B)" and len: "length A + length B + 2 < 2 ^ 32" and B: "B \<noteq> []"
  shows "\<exists>c' pre' A'. ts_Remove (of_nat (length A)) c = Inr c' \<and> layout c' pre' (A' @ B) \<and> length A' = length A \<and>
    ts_words c' = ts_words c \<and> ts_pairs c' = ts_pairs c \<and> set (ts_stringData c') \<subseteq> insert EMPTY_TOKEN (set (ts_stringData c)) \<and> map (takeWhile IsToken) A' = map (takeWhile IsToken) A"
proof -
  let ?n = "length A" and ?i = "of_nat (length A) :: index_t"
  have b: "?n + 2 < 2 ^ LENGTH(32)" "?n < 2 ^ LENGTH(32)" using len by simp_all
  have i: "unat ?i = ?n" "unat (?i + 2) = ?n + 2"
    using unat_of_nat_small [OF b(1)] unat_of_nat_small [OF b(2)] unfolding of_nat_add of_nat_numeral by simp_all
  have offs: "ts_offsets c = map of_nat (starts (length pre) (A @ (t # l) # B))" and
    data: "ts_stringData c = pre @ concat A @ t # l @ concat B" using l by (simp_all add: layout_def)
  have "0 < length B" using B by simp
  then have last: "unat (?i + 2) \<noteq> length (ts_offsets c)" unfolding i(2) by (simp add: offs)
  have off: "unat (ts_offsets c ! ?n) = length pre + length (concat A)" using layout_offset [OF l, of ?n] by simp
  let ?c = "c\<lparr>ts_stringData := pre @ concat A @ EMPTY_TOKEN # l @ concat B,
    ts_offsets := take ?n (ts_offsets c) @ drop (?n + 1) (ts_offsets c)\<rparr>"
  have rm: "ts_Remove ?i c = Inr ?c"
    using last i(1) off by (simp add: ts_Remove_def data list_update_append) (simp add: offs)
  have tk: "take ?n (ts_offsets c) = map of_nat (butlast (starts (length pre) A))"
    "drop (?n + 1) (ts_offsets c) = map of_nat (starts (length pre + length (concat A) + length (t # l)) B)"
    by (simp_all add: offs starts_append take_map drop_map)
  have small: "length (ts_stringData c) < 2 ^ 32" using l by (simp add: layout_def)
  have sub: "set (ts_stringData ?c) \<subseteq> insert EMPTY_TOKEN (set (ts_stringData c))" by (auto simp: data)
  show ?thesis
  proof (cases A rule: rev_cases)
    case Nil
    have "layout ?c (pre @ EMPTY_TOKEN # l) B"
      using l small by (cases pre) (auto simp: layout_def tk Nil data IsToken_def)
    then show ?thesis using rm Nil sub by (intro exI [of _ ?c] exI [of _ "pre @ EMPTY_TOKEN # l"] exI [of _ "[]"]) simp
  next
    case (snoc A1 a)
    let ?A = "A1 @ [a @ EMPTY_TOKEN # l]"
    have "layout ?c pre (?A @ B)"
      using l small unfolding layout_def tk data by (simp add: snoc starts_append add.assoc butlast_append)
    then show ?thesis using rm snoc sub by (intro exI [of _ ?c] exI [of _ pre] exI [of _ ?A]) (simp add: takeWhile_stop IsToken_def)
  qed
qed

lemma ts_Remove_ok:
  assumes h: "ts_holds c texts" and i: "Suc (unat i) < length texts" and len: "length texts + 1 < 2 ^ 32"
    and ne: "ts_offsets c ! unat i \<noteq> ts_offsets c ! Suc (unat i)"
  shows "\<exists>c'. ts_Remove i c = Inr c' \<and> ts_holds c' (take (unat i) texts @ drop (Suc (unat i)) texts)"
proof -
  obtain pre L where L: "layout c pre L" "list_all2 (tokens_text (ts_words c) (ts_pairs c)) L texts" "length L = length texts"
      "readable (ts_words c) (ts_pairs c) (ts_stringData c)"
    by (rule ts_holdsE [OF h])
  define A B where AB: "A = take (unat i) L" "B = drop (Suc (unat i)) L"
  have split: "L = A @ L ! unat i # B" and lA: "length A = unat i" using i L(3) by (simp_all add: AB id_take_nth_drop)
  have "L ! unat i \<noteq> []" using ne layout_offset [OF L(1), of "unat i"] layout_offset [OF L(1), of "Suc (unat i)"] i L(3)
    by (auto simp: take_Suc_conv_app_nth) (metis unsigned_word_eqI)
  then obtain t l where tl: "L ! unat i = t # l" by (cases "L ! unat i") auto
  have "length A + length B + 2 < 2 ^ 32" using len i by (simp add: AB L(3))
  moreover have "B \<noteq> []" using i L(3) by (simp add: AB)
  ultimately obtain c' pre' A' where c': "ts_Remove i c = Inr c'" "layout c' pre' (A' @ B)" "length A' = length A" "ts_words c' = ts_words c"
      "ts_pairs c' = ts_pairs c" "set (ts_stringData c') \<subseteq> insert EMPTY_TOKEN (set (ts_stringData c))" "map (takeWhile IsToken) A' = map (takeWhile IsToken) A"
    using ts_Remove_layout [of c pre A t l B] L(1) split tl lA by auto
  have "list_all2 (tokens_text (ts_words c) (ts_pairs c)) A (take (unat i) texts)"
    "list_all2 (tokens_text (ts_words c) (ts_pairs c)) B (drop (Suc (unat i)) texts)"
    unfolding AB by (rule list_all2_takeI [OF L(2)], rule list_all2_dropI [OF L(2)])
  moreover have "takeWhile IsToken (A' ! k) = takeWhile IsToken (A ! k)" if "k < length A" for k
    using arg_cong [OF c'(7), of "\<lambda>xs. xs ! k"] that c'(3) by simp
  ultimately have "list_all2 (tokens_text (ts_words c) (ts_pairs c)) (A' @ B) (take (unat i) texts @ drop (Suc (unat i)) texts)"
    by (intro list_all2_appendI) (auto simp: list_all2_conv_all_nth tokens_text_def c'(3))
  moreover have "readable (ts_words c') (ts_pairs c') (ts_stringData c')"
    using L(4) c'(4-6) expands_EMPTY [of "ts_words c"] ts_holds_tokens [OF h] by (auto simp: readable_def tokens_ok_def)
  ultimately show ?thesis using c'(1,2,4,5) ts_holds_tokens [OF h] by (auto simp: ts_holds_def)
qed

lemma ts_init_holds: "ts_init = Some c \<Longrightarrow> ts_holds c []"
proof -
  assume "ts_init = Some c"
  then obtain w where w: "sd_init = Some w" "c = \<lparr>ts_words = w, ts_pairs = ipd_init, ts_stringData = [], ts_offsets = [0]\<rparr>"
    by (auto simp: ts_init_def)
  have "sd_inv w" "sd_strings w = [[]]" using sd_init_ok unfolding w(1) by blast+
  then have "tokens_ok w ipd_init" by (simp add: tokens_ok_def ipd_sound_init) (simp add: ipd_init_def)
  then show ?thesis unfolding ts_holds_def w(2) by (auto simp: layout_def readable_def intro!: exI [of _ "[]"])
qed

lemma starts_replicate: "starts n (L @ replicate m D) = starts n L @ map (\<lambda>k. n + length (concat L) + Suc k * length D) [0..<m]"
proof (induction m)
  case (Suc m)
  have "starts n (L @ replicate (Suc m) D) = starts n ((L @ replicate m D) @ [D])" by (simp add: replicate_append_same)
  then show ?case unfolding starts_snoc Suc by (simp add: length_concat sum_list_replicate)
qed simp

lemma ts_Insert_copies_ok:
  assumes h: "ts_holds c texts" and room: "words_room (length s + k) (ts_words c)" "0 \<notin> set s" "s \<noteq> []" "0 < copies"
    "length (ts_stringData c) + copies * (length s + 1) < 2 ^ 32"
  shows "\<exists>c'. ts_Insert_copies outside s copies c = Some (Inr (of_nat (length texts), c')) \<and> ts_holds c' (texts @ replicate copies s)"
proof -
  have "length s + 1 \<le> copies * (length s + 1)" using room(4) by (cases copies) auto
  then have small: "length (ts_stringData c) + length s + 1 < 2 ^ 32" using room(5) by linarith
  obtain w D ws where A: "ts_Append outside s c = Some (Inr (c\<lparr>ts_words := w, ts_stringData := ts_stringData c @ D\<rparr>))"
    "tokens_ok w (ts_pairs c)" "sd_strings w = sd_strings (ts_words c) @ ws" "words_room k w" "\<forall>t \<in> set D. IsToken t"
    "expand_all (sd_strings w) (ipd_data (ts_pairs c)) D s" "length D \<le> length s + 1"
    by (rule ts_Append_ok [OF ts_holds_tokens [OF h] room(1,2) small])
  obtain pre L where L: "layout c pre L" "list_all2 (tokens_text (ts_words c) (ts_pairs c)) L texts"
      "readable (ts_words c) (ts_pairs c) (ts_stringData c)"
    by (rule ts_holdsE [OF h])
  have D: "D \<noteq> []" using A(6) room(3) by auto
  have dc: "copies * length D \<le> copies * (length s + 1)" using A(7) by (intro mult_le_mono2) simp
  obtain m where m: "copies = Suc m" using room(4) by (cases copies) auto
  let ?n = "length (ts_stringData c) + length D"
  let ?c = "c\<lparr>ts_words := w, ts_stringData := (ts_stringData c @ D) @ concat (replicate m D),
    ts_offsets := ts_offsets c @ map (\<lambda>k. of_nat (?n + k * length D)) [0..<copies]\<rparr>"
  have cat: "(ts_stringData c @ D) @ concat (replicate m D) = pre @ concat (L @ replicate copies D)"
    using L(1) by (simp add: layout_def m)
  have nn: "?n + k * length D = length pre + length (concat L) + Suc k * length D" for k using L(1) by (simp add: layout_def)
  have "ts_offsets c @ map (\<lambda>k. of_nat (?n + k * length D)) [0..<copies] = map of_nat (starts (length pre) (L @ replicate copies D))"
    unfolding starts_replicate nn using L(1) by (simp add: layout_def comp_def del: mult_Suc)
  moreover have "length (pre @ concat (L @ replicate copies D)) < 2 ^ 32"
    using L(1) dc room(5) by (simp add: layout_def length_concat sum_list_replicate)
  ultimately have "layout ?c pre (L @ replicate copies D)" using L(1) cat by (simp add: layout_def)
  moreover have "list_all2 (tokens_text w (ts_pairs c)) (L @ replicate copies D) (texts @ replicate copies s)"
    using tokens_text_extend [OF L(2) A(3)] A(5,6) room(1)
    by (intro list_all2_appendI) (auto simp: list_all2_conv_all_nth tokens_text_tokens words_room_def)
  moreover have "readable w (ts_pairs c) (ts_stringData ?c)"
    using readable_extend [OF L(3) A(3), of "ts_pairs c" "[]"] readable_tokens [OF A(6)] by (auto simp: readable_def)
  ultimately have "ts_holds ?c (texts @ replicate copies s)" using A(2) by (auto simp: ts_holds_def)
  moreover have "\<not> 2 ^ 32 \<le> length D * copies" using dc room(5) by (simp add: mult.commute)
  ultimately show ?thesis using A(1) D room(4) m ts_holds_length [OF h] by (simp add: ts_Insert_copies_def Let_def)
qed

lemma ts_Insert_copies_empty: "0 < n \<Longrightarrow> ts_Insert_copies outside [] n c = Some (Inr (of_nat (length (ts_offsets c) - 1), c))"
  by (cases "ts_stringData c"; simp add: ts_Insert_copies_def ts_Append_def append_words.simps append_token_def IsToken_def Let_def)

lemma ts_Remove_last_joins:
  assumes h: "ts_holds c texts" and room: "words_room (length x + length s) (ts_words c)" "0 \<notin> set x" "0 \<notin> set s"
    "length (ts_stringData c) + length x + length s + 2 < 2 ^ 32" "length texts + 2 < 2 ^ 32"
    and ins: "ts_Insert outside x c = Some (Inr (i, c1))"
  shows "\<exists>c2 c3. ts_Remove i c1 = Inr c2 \<and> ts_Insert outside s c2 = Some (Inr (i, c3)) \<and> ts_holds c3 (texts @ [x @ s])"
proof -
  have small: "length (ts_stringData c) + length x + 1 < 2 ^ 32" using room(4) by simp
  obtain w D ws where A: "ts_Append outside x c = Some (Inr (c\<lparr>ts_words := w, ts_stringData := ts_stringData c @ D\<rparr>))"
    "tokens_ok w (ts_pairs c)" "sd_strings w = sd_strings (ts_words c) @ ws" "words_room (length s) w" "\<forall>t \<in> set D. IsToken t"
    "expand_all (sd_strings w) (ipd_data (ts_pairs c)) D x" "length D \<le> length x + 1"
    by (rule ts_Append_ok [OF ts_holds_tokens [OF h] room(1,2) small])
  obtain pre L where L: "layout c pre L" "list_all2 (tokens_text (ts_words c) (ts_pairs c)) L texts"
      "readable (ts_words c) (ts_pairs c) (ts_stringData c)"
    by (rule ts_holdsE [OF h])
  note len = ts_holds_length [OF h]
  let ?c1 = "c\<lparr>ts_words := w, ts_stringData := ts_stringData c @ D, ts_offsets := ts_offsets c @ [of_nat (length (ts_stringData c @ D))]\<rparr>"
  let ?c2 = "c\<lparr>ts_words := w, ts_stringData := ts_stringData c @ D\<rparr>"
  have c1: "c1 = ?c1" "i = of_nat (length texts)" using ins A(1) len by (auto simp: ts_Insert_def)
  have b: "length texts + 2 < 2 ^ LENGTH(32)" using room(5) by simp
  have "unat (i + 2) = length (ts_offsets c1)"
    using unat_of_nat_small [OF b] len unfolding of_nat_add of_nat_numeral c1 by simp
  then have rm: "ts_Remove i c1 = Inr ?c2" by (simp add: ts_Remove_def c1)
  have "length (ts_stringData ?c2) + length s + 1 < 2 ^ 32" "tokens_ok (ts_words ?c2) (ts_pairs ?c2)" "words_room (length s + 0) (ts_words ?c2)"
    using A(2,4,7) room(4) by simp_all
  note ap = ts_Append_ok [OF this(2,3) room(3) this(1), of outside]
  obtain w2 D2 ws2 where A2: "ts_Append outside s ?c2 = Some (Inr (?c2\<lparr>ts_words := w2, ts_stringData := ts_stringData ?c2 @ D2\<rparr>))"
    "tokens_ok w2 (ts_pairs ?c2)" "sd_strings w2 = sd_strings (ts_words ?c2) @ ws2" "words_room 0 w2" "\<forall>t \<in> set D2. IsToken t"
    "expand_all (sd_strings w2) (ipd_data (ts_pairs ?c2)) D2 s" "length D2 \<le> length s + 1"
    by (rule ap)
  let ?c3 = "c\<lparr>ts_words := w2, ts_stringData := ts_stringData c @ D @ D2, ts_offsets := ts_offsets c @ [of_nat (length (ts_stringData c @ D @ D2))]\<rparr>"
  have "length (pre @ concat L) + length (D @ D2) < 2 ^ 32" using L(1) A(7) A2(7) room(4) by (simp add: layout_def)
  note lay = layout_snoc [OF L(1) this, of w2]
  have "expand_all (sd_strings w2) (ipd_data (ts_pairs c)) D x"
    using expand_all_extend [OF A(6), of ws2 "[]"] A2(3) by simp
  then have "expand_all (sd_strings w2) (ipd_data (ts_pairs c)) (D @ D2) (x @ s)"
    using A2(6) unfolding expand_all_append by auto
  moreover have "length (x @ s) < 2 ^ 64" using room(1) by (simp add: words_room_def)
  moreover have "\<forall>t \<in> set (D @ D2). IsToken t" using A(5) A2(5) by auto
  moreover note rd = readable_tokens [OF calculation(1)]
  ultimately have "tokens_text w2 (ts_pairs c) (D @ D2) (x @ s)" by (simp only: tokens_text_tokens)
  moreover have "list_all2 (tokens_text w2 (ts_pairs c)) L texts" by (rule tokens_text_extend [OF L(2), of _ "ws @ ws2"]) (use A(3) A2(3) in simp)
  moreover have "readable w2 (ts_pairs c) (ts_stringData c)"
    by (rule readable_extend [OF L(3), of _ "ws @ ws2" _ "[]"]) (use A(3) A2(3) in simp_all)
  ultimately have "ts_holds ?c3 (texts @ [x @ s])"
    using rd lay A2(2) unfolding ts_holds_def by (intro conjI exI [of _ pre] exI [of _ "L @ [D @ D2]"] list_all2_appendI) auto
  then show ?thesis using rm A2(1) len c1(2) by (simp add: ts_Insert_def)
qed

text \<open>Replacing the last string, when all tokens of the container are proper: its text grows.\<close>

lemma ts_replace_last_ok:
  assumes h: "ts_holds c (texts @ [x])" and clean: "\<forall>t \<in> set (ts_stringData c). IsToken t"
    and room: "words_room (length s + k) (ts_words c)" "0 \<notin> set s" "length (ts_stringData c) + length s + 1 < 2 ^ 32"
      "length texts + 2 < 2 ^ 32" "length x + length s < 2 ^ 64"
  shows "\<exists>c2 c3. ts_Remove (of_nat (length texts)) c = Inr c2 \<and> ts_Insert outside s c2 = Some (Inr (of_nat (length texts), c3)) \<and>
    ts_holds c3 (texts @ [x @ s]) \<and> words_room k (ts_words c3) \<and> length (ts_stringData c3) \<le> length (ts_stringData c) + length s + 1 \<and>
    (\<forall>t \<in> set (ts_stringData c3). IsToken t)"
proof -
  let ?c2 = "c\<lparr>ts_offsets := butlast (ts_offsets c)\<rparr>"
  have "tokens_ok (ts_words ?c2) (ts_pairs ?c2)" "words_room (length s + k) (ts_words ?c2)" "length (ts_stringData ?c2) + length s + 1 < 2 ^ 32"
    using ts_holds_tokens [OF h] room(1,3) by simp_all
  note ap = ts_Append_ok [OF this(1,2) room(2) this(3), of outside, simplified]
  obtain w D ws where A: "ts_Append outside s ?c2 =
      Some (Inr (c\<lparr>ts_offsets := butlast (ts_offsets c), ts_words := w, ts_stringData := ts_stringData c @ D\<rparr>))"
    "tokens_ok w (ts_pairs c)" "sd_strings w = sd_strings (ts_words c) @ ws" "words_room k w" "\<forall>t \<in> set D. IsToken t"
    "expand_all (sd_strings (ts_words c) @ ws) (ipd_data (ts_pairs c)) D s" "length D \<le> Suc (length s)" by (rule ap)
  obtain pre L where L: "layout c pre L" "list_all2 (tokens_text (ts_words c) (ts_pairs c)) L (texts @ [x])"
      "readable (ts_words c) (ts_pairs c) (ts_stringData c)" by (rule ts_holdsE [OF h])
  obtain L0 l where Ll: "L = L0 @ [l]" "list_all2 (tokens_text (ts_words c) (ts_pairs c)) L0 texts" "tokens_text (ts_words c) (ts_pairs c) l x"
    using L(2) by (auto simp: list_all2_append2 list_all2_Cons2)
  have d: "ts_stringData c = pre @ concat L0 @ l" and o: "ts_offsets c = map of_nat (starts (length pre) L0) @ [of_nat (length (ts_stringData c))]"
    using L(1) by (simp_all add: layout_def Ll(1) starts_snoc add.assoc)
  let ?c3 = "c\<lparr>ts_offsets := butlast (ts_offsets c) @ [of_nat (length (ts_stringData c @ D))], ts_words := w, ts_stringData := ts_stringData c @ D\<rparr>"
  have "(of_nat (length texts) :: index_t) + 2 = of_nat (length texts + 2)" by simp
  then have "unat ((of_nat (length texts) :: index_t) + 2) = length texts + 2"
    using room(4) unat_of_nat_small [of "length texts + 2", where 'i = 32] by (simp only:) simp
  then have rm: "ts_Remove (of_nat (length texts)) c = Inr ?c2" using ts_holds_length [OF h] by (simp add: ts_Remove_def)
  have ins: "ts_Insert outside s ?c2 = Some (Inr (of_nat (length texts), ?c3))" using A(1) ts_holds_length [OF h] by (simp add: ts_Insert_def)
  have lay: "layout ?c3 pre (L0 @ [l @ D])"
  proof -
    have "length (ts_stringData c @ D) < 2 ^ 32" using A(7) room(3) by simp
    moreover have "ts_offsets ?c3 = map of_nat (starts (length pre) (L0 @ [l @ D]))" using o d
      by (simp add: starts_snoc add.assoc del: of_nat_add)
    moreover have "pre = [] \<or> \<not> IsToken (hd pre)" using L(1) by (simp add: layout_def)
    ultimately show ?thesis using d by (simp add: layout_def add.assoc)
  qed
  have tok: "\<forall>t \<in> set l. IsToken t" using clean d by auto
  have "length x < 2 ^ 64" using room(5) by simp
  then have "expand_all (sd_strings (ts_words c)) (ipd_data (ts_pairs c)) l x" using Ll(3) tokens_text_tokens [OF tok] by blast
  then have "expand_all (sd_strings w) (ipd_data (ts_pairs c)) l x" using expand_all_extend [of _ _ _ _ ws "[]"] A(3) by simp
  then have "expand_all (sd_strings w) (ipd_data (ts_pairs c)) (l @ D) (x @ s)" using A(6)[folded A(3)] unfolding expand_all_append by blast
  moreover have "\<forall>t \<in> set (l @ D). IsToken t" using tok A(5) by auto
  ultimately have "tokens_text w (ts_pairs c) (l @ D) (x @ s)" using room(5) by (simp add: tokens_text_tokens)
  moreover have "list_all2 (tokens_text w (ts_pairs c)) L0 texts" by (rule tokens_text_extend [OF Ll(2) A(3)])
  moreover have "readable w (ts_pairs c) (ts_stringData c @ D)"
    using readable_extend [OF L(3) A(3)] readable_tokens [OF A(6)[folded A(3)]] by simp
  ultimately have "ts_holds ?c3 (texts @ [x @ s])"
    using lay A(2) unfolding ts_holds_def by (intro conjI exI [of _ pre] exI [of _ "L0 @ [l @ D]"]) (auto intro: list_all2_appendI)
  then show ?thesis using rm ins A(4,5,7) clean by auto
qed

lemma ts_Insert_tokens:
  assumes h: "ts_holds c texts" and room: "words_room (length s + k) (ts_words c)" "0 \<notin> set s" "length (ts_stringData c) + length s + 1 < 2 ^ 32"
    and ins: "ts_Insert outside s c = Some (Inr (i, c'))" and clean: "\<forall>t \<in> set (ts_stringData c). IsToken t"
  shows "\<forall>t \<in> set (ts_stringData c'). IsToken t"
proof -
  obtain w D ws where "ts_Append outside s c = Some (Inr (c\<lparr>ts_words := w, ts_stringData := ts_stringData c @ D\<rparr>))" "\<forall>t \<in> set D. IsToken t"
    using ts_Append_ok [OF ts_holds_tokens [OF h] room, of outside] by metis
  then show ?thesis using ins clean by (auto simp: ts_Insert_def)
qed

text \<open>A pair that leads back to itself is accepted, and then reading a string never ends.\<close>

definition self_pair :: "tokenized_strings \<Rightarrow> tokenized_strings" where
  "self_pair c = c\<lparr>ts_pairs := (ts_pairs c)\<lparr>ipd_data := [(0, 0)]\<rparr>, ts_stringData := [0], ts_offsets := [0, 1]\<rparr>"

lemma fixed_pair_diverges:
  assumes at: "ipd_at (ts_pairs c) t = Some (t, b)" and t: "\<not> IsDictionaryWord t"
  shows "GetTokenLength c t = None"
proof -
  have "GetTokenLength d u = Some r \<Longrightarrow> \<not> (d = c \<and> u = t)" for d u r
    by (rule GetTokenLength.raw_induct [where P = "\<lambda>d u r. \<not> (d = c \<and> u = t)"])
       (use at t in \<open>auto simp: GetPairIndex_def bind_eq_Some_conv split: if_splits, blast\<close>)
  then show ?thesis by (cases "GetTokenLength c t") auto
qed

lemma ts_GetAt_diverges:
  assumes "ts_range c i = Some (t # ts)" "ipd_at (ts_pairs c) t = Some (t, b)" "\<not> IsDictionaryWord t"
  shows "ts_GetAt c i = None"
proof -
  have "IsToken t" using assms(3) by (auto simp: IsToken_def IsDictionaryWord_def EMPTY_TOKEN_def word_less_nat_alt unat_LAST_PAIR_TOKEN unat_NO_INDEX)
  then show ?thesis using assms fixed_pair_diverges [OF assms(2,3)] by (simp add: ts_GetAt_def)
qed

lemma valid_offsets_last:
  "unat a < n \<Longrightarrow> (valid_offsets n (os @ [a, b]) l = None) = (valid_offsets n (os @ [a, x]) l = None) \<and>
   (valid_offsets n (os @ [a, b]) l = Some y \<longrightarrow> valid_offsets n (os @ [a, x]) l = Some y)"
proof (induction os arbitrary: l)
  case (Cons o1 os)
  then show ?case by (cases os) auto
qed auto

fun ts_inserts :: "(byte \<Rightarrow> bool) \<Rightarrow> byte list list \<Rightarrow> tokenized_strings \<Rightarrow> (container_error + tokenized_strings) option" where
  "ts_inserts outside [] c = Some (Inr c)"
| "ts_inserts outside (s # ss) c =
     Option.bind (ts_Insert outside s c) (\<lambda>r. case r of Inl e \<Rightarrow> Some (Inl e) | Inr (i, c) \<Rightarrow> ts_inserts outside ss c)"

definition total_length :: "byte list list \<Rightarrow> nat" where
  "total_length ss = sum_list (map (\<lambda>s. length s + 1) ss)"

lemma ts_inserts_ok:
  "ts_holds c texts \<Longrightarrow> words_room (total_length ss + k) (ts_words c) \<Longrightarrow> \<forall>s \<in> set ss. 0 \<notin> set s \<Longrightarrow>
   length (ts_stringData c) + total_length ss < 2 ^ 32 \<Longrightarrow>
   \<exists>c'. ts_inserts outside ss c = Some (Inr c') \<and> ts_holds c' (texts @ ss) \<and> words_room k (ts_words c') \<and>
     length (ts_stringData c') \<le> length (ts_stringData c) + total_length ss \<and> ts_pairs c' = ts_pairs c"
proof (induction ss arbitrary: c texts)
  case (Cons s ss)
  have room: "words_room (length s + (total_length ss + k)) (ts_words c)" using Cons.prems(2) by (simp add: total_length_def words_room_def)
  obtain c1 where c1: "ts_Insert outside s c = Some (Inr (of_nat (length texts), c1))" "ts_holds c1 (texts @ [s])"
      "words_room (total_length ss + k) (ts_words c1)" "length (ts_stringData c1) \<le> length (ts_stringData c) + length s + 1"
      "ts_pairs c1 = ts_pairs c"
    using ts_Insert_ok [OF Cons.prems(1) room, of outside] Cons.prems(3,4) by (auto simp: total_length_def)
  have "length (ts_stringData c1) + total_length ss < 2 ^ 32" using c1(4) Cons.prems(4) by (simp add: total_length_def)
  then obtain c' where "ts_inserts outside ss c1 = Some (Inr c')" "ts_holds c' ((texts @ [s]) @ ss)" "words_room k (ts_words c')"
      "length (ts_stringData c') \<le> length (ts_stringData c1) + total_length ss" "ts_pairs c' = ts_pairs c1"
    using Cons.IH [OF c1(2,3)] Cons.prems(3) by auto
  then show ?case using c1 by (simp add: total_length_def)
qed (simp add: total_length_def)

lemma ts_init_ok: "\<exists>c. ts_init = Some c \<and> ts_holds c [] \<and> words_room 119304645 (ts_words c) \<and> ts_stringData c = [] \<and> ts_pairs c = ipd_init"
proof -
  obtain w where w: "sd_init = Some w" "sd_strings w = [[]]" "load_ok (sd_hashIndex w)" using sd_init_ok by blast
  then show ?thesis using ts_init_holds by (auto simp: ts_init_def words_room_def)
qed

subsection \<open>Properties\<close>

text \<open>
  Inserting copies of a text adds that many strings; of the empty text it adds none, whatever the
  number, because the loop over the offsets advances by the number of tokens.
\<close>

lemma insert_copies:
  assumes "ts_holds c texts" "words_room (length s + k) (ts_words c)" "0 \<notin> set s" "0 < copies"
    "length (ts_stringData c) + copies * (length s + 1) < 2 ^ 32"
  shows "\<exists>c'. ts_Insert_copies outside s copies c = Some (Inr (of_nat (length texts), c')) \<and>
    ts_holds c' (texts @ (if s = [] then [] else replicate copies s))"
proof (cases "s = []")
  case True
  then show ?thesis using ts_Insert_copies_empty [OF assms(4)] ts_holds_length [OF assms(1)] assms(1) by simp
next
  case False
  then show ?thesis using ts_Insert_copies_ok [OF assms(1-3) False assms(4,5)] by simp
qed

lemma insert_copies_witness:
  "\<exists>c c' c''. ts_init = Some c \<and> ts_Insert_copies (\<lambda>_. False) [97, 32] 3 c = Some (Inr (0, c')) \<and> ts_holds c' [[97, 32], [97, 32], [97, 32]] \<and>
    ts_Insert_copies (\<lambda>_. False) [] 3 c = Some (Inr (0, c'')) \<and> ts_holds c'' []"
proof -
  obtain c where c: "ts_init = Some c" "ts_holds c []" "words_room 119304645 (ts_words c)" "ts_stringData c = []"
    using ts_init_ok by blast
  have w: "words_room (length [97, 32 :: byte] + 0) (ts_words c)" "words_room (length ([] :: byte list) + 0) (ts_words c)"
    using c(3) by (simp_all add: words_room_def)
  obtain c' where "ts_Insert_copies (\<lambda>_. False) [97, 32] 3 c = Some (Inr (0, c'))" "ts_holds c' [[97, 32], [97, 32], [97, 32]]"
    using insert_copies [OF c(2) w(1), of 3 "\<lambda>_. False"] c(4) by (auto simp: numeral_3_eq_3)
  moreover obtain c'' where "ts_Insert_copies (\<lambda>_. False) [] 3 c = Some (Inr (0, c''))" "ts_holds c'' []"
    using insert_copies [OF c(2) w(2), of 3 "\<lambda>_. False"] c(4) by auto
  ultimately show ?thesis using c(1) by blast
qed

text \<open>
  Removing the last string only drops its end: the string that is inserted next starts with the
  removed text.
\<close>

lemma removed_last_string_returns:
  assumes "ts_holds c texts" "words_room (length x + length s) (ts_words c)" "0 \<notin> set x" "0 \<notin> set s"
    "length (ts_stringData c) + length x + length s + 2 < 2 ^ 32" "length texts + 2 < 2 ^ 32"
    "ts_Insert outside x c = Some (Inr (i, c1))"
  shows "\<exists>c2 c3. ts_Remove i c1 = Inr c2 \<and> ts_Insert outside s c2 = Some (Inr (i, c3)) \<and> ts_GetAt c3 i = Some (Inr (x @ s))"
proof -
  obtain c2 c3 where c: "ts_Remove i c1 = Inr c2" "ts_Insert outside s c2 = Some (Inr (i, c3))" "ts_holds c3 (texts @ [x @ s])"
    using ts_Remove_last_joins [OF assms] by blast
  have i: "i = of_nat (length texts)" using ts_Insert_ok [OF assms(1,2,3), of outside] assms(5,7) by auto
  have "unat i = length texts" unfolding i using assms(6) by (simp add: unat_of_nat_small)
  then show ?thesis using c ts_GetAt_ok [OF c(3), of i] by auto
qed

lemma removed_last_string_returns_witness:
  "\<exists>c c1 c2 c3. ts_init = Some c \<and> ts_Insert (\<lambda>_. False) [97] c = Some (Inr (0, c1)) \<and> ts_Remove 0 c1 = Inr c2 \<and>
    ts_Insert (\<lambda>_. False) [98] c2 = Some (Inr (0, c3)) \<and> ts_GetAt c3 0 = Some (Inr [97, 98])"
proof -
  obtain c where c: "ts_init = Some c" "ts_holds c []" "words_room 119304645 (ts_words c)" "ts_stringData c = []"
    using ts_init_ok by blast
  have w: "words_room (length [97 :: byte] + length [98 :: byte]) (ts_words c)" using c(3) by (simp add: words_room_def)
  obtain c1 where c1: "ts_Insert (\<lambda>_. False) [97] c = Some (Inr (0, c1))"
    using ts_Insert_ok [OF c(2) w, of "\<lambda>_. False"] c(4) by auto
  have "\<exists>c2 c3. ts_Remove 0 c1 = Inr c2 \<and> ts_Insert (\<lambda>_. False) [98] c2 = Some (Inr (0, c3)) \<and> ts_GetAt c3 0 = Some (Inr ([97] @ [98]))"
    by (rule removed_last_string_returns [OF c(2) w _ _ _ _ c1]) (simp_all add: c(4))
  then show ?thesis using c(1) c1 by auto
qed

text \<open>
  C38.  The check of loaded data accepts a pair that consists of itself; reading a string with that pair
  never returns.
\<close>

theorem validation_accepts_endless_pair:
  "ts_Validate (self_pair c) = Inr (self_pair c) \<and> ts_GetAt (self_pair c) 0 = None"
proof
  have t: "\<not> IsDictionaryWord 0" "IsToken 0" using pair_token [of 0] by simp_all
  have v: "IsValidTokenIndex (self_pair c) 0" using t by (simp add: IsValidTokenIndex_def GetPairIndex_def self_pair_def ipd_size_def)
  then show "ts_Validate (self_pair c) = Inr (self_pair c)" by (simp add: ts_Validate_def) (simp add: self_pair_def)
  have "ts_range (self_pair c) 0 = Some [0]" by (simp add: ts_range_def self_pair_def)
  moreover have "ipd_at (ts_pairs (self_pair c)) 0 = Some (0, 0)" by (simp add: ipd_at_def self_pair_def)
  ultimately show "ts_GetAt (self_pair c) 0 = None" using t(1) by (rule ts_GetAt_diverges)
qed

text \<open>
  The check never looks at the last offset: a value behind the end of the data is accepted there, and
  reading the last string then leaves the data.
\<close>

lemma validation_accepts_wrong_last_offset:
  assumes "ts_Validate (c\<lparr>ts_offsets := os @ [a, b]\<rparr>) = Inr c0" "unat a < length (ts_stringData c)"
    "length (ts_stringData c) < unat x" "length os < 2 ^ 32"
  shows "ts_Validate (c\<lparr>ts_offsets := os @ [a, x]\<rparr>) = Inr (c\<lparr>ts_offsets := os @ [a, x]\<rparr>) \<and>
    ts_GetAt (c\<lparr>ts_offsets := os @ [a, x]\<rparr>) (of_nat (length os)) = Some (Inl Undefined)"
proof
  have tok: "IsValidTokenIndex (c\<lparr>ts_offsets := o1\<rparr>) = IsValidTokenIndex c" for o1 by (intro ext) (simp add: IsValidTokenIndex_def)
  show "ts_Validate (c\<lparr>ts_offsets := os @ [a, x]\<rparr>) = Inr (c\<lparr>ts_offsets := os @ [a, x]\<rparr>)"
    using assms(1) valid_offsets_last [OF assms(2), of os b 0 x]
    by (auto simp: ts_Validate_def tok split: if_splits option.splits)
  have "unat (of_nat (length os) :: index_t) = length os" using assms(4) by (simp add: unat_of_nat_small)
  then show "ts_GetAt (c\<lparr>ts_offsets := os @ [a, x]\<rparr>) (of_nat (length os)) = Some (Inl Undefined)"
    using assms(3) by (simp add: ts_GetAt_def ts_range_def nth_append)
qed

end
