(* ===== verification/TokenizedStringsPacker.thy ===== *)
theory TokenizedStringsPacker
  imports TokenizedStrings
begin

section \<open>Compression of the tokenized strings (src/LogCache/Containers)\<close>

text \<open>
  The pair packer works on a container in rounds: it counts the pairs of neighbouring tokens, puts the
  frequent ones into the pair dictionary and replaces them in the strings, in place, with empty tokens
  as padding.  The rounds end when nothing was replaced; the padding is removed and the pairs are
  renumbered.
\<close>

record pair_packer =
  pk_strings :: "index_t list"
  pk_newPairs :: index_pair_dictionary
  pk_counts :: "index_t list"
  pk_minimumToken :: index_t
  pk_replacements :: index_t

text \<open>All strings of two tokens or more.\<close>

fun long_strings :: "index_t \<Rightarrow> index_t \<Rightarrow> index_t list \<Rightarrow> index_t list" where
  "long_strings k offset [] = []"
| "long_strings k offset (nextOffset # os) =
     (if offset + 2 \<le> nextOffset then [k] else []) @ long_strings (k + 1) nextOffset os"

definition packer_init :: "tokenized_strings \<Rightarrow> container_error + pair_packer" where
  "packer_init c =
     (case ts_offsets c of
        [] \<Rightarrow> Inl Undefined
      | offset # os \<Rightarrow>
          map_sum id (\<lambda>p. \<lparr>pk_strings = long_strings 0 offset os, pk_newPairs = p, pk_counts = [],
                          pk_minimumToken = 0, pk_replacements = 0\<rparr>)
            (of_opt (ipd_reserve (ipd_size (ts_pairs c)) ipd_init)))"

text \<open>Counting the pairs of one string; a pair of two old tokens was tried in an earlier round.\<close>

definition count_pair :: "index_pair \<Rightarrow> index_pair_dictionary \<times> index_t list \<Rightarrow> container_error + index_pair_dictionary \<times> index_t list" where
  "count_pair newPair st =
     map_sum id (\<lambda>(index, newPairs).
       (newPairs, if unat index \<ge> length (snd st) then snd st @ [1] else (snd st)[unat index := snd st ! unat index + 1]))
     (of_opt (ipd_AutoInsert newPair (fst st)))"

fun accumulate ::
    "index_t \<Rightarrow> index_t \<Rightarrow> index_t list \<Rightarrow> index_pair_dictionary \<times> index_t list \<Rightarrow>
     container_error + index_pair_dictionary \<times> index_t list" where
  "accumulate minimumToken lastToken [] st = Inr st"
| "accumulate minimumToken lastToken (token # ts) st =
     (if IsToken token
      then bindE (if token \<ge> minimumToken \<or> lastToken \<ge> minimumToken then count_pair (lastToken, token) st else Inr st)
             (accumulate minimumToken token ts)
      else Inr st)"

definition AccumulatePairs :: "tokenized_strings \<Rightarrow> index_t \<Rightarrow> pair_packer \<Rightarrow> container_error + pair_packer" where
  "AccumulatePairs c stringIndex k =
     (case ts_range c stringIndex of
        Some (lastToken # ts) \<Rightarrow>
          map_sum id (\<lambda>(p, counts). k\<lparr>pk_newPairs := p, pk_counts := counts\<rparr>)
            (accumulate (pk_minimumToken k) lastToken ts (pk_newPairs k, pk_counts k))
      | _ \<Rightarrow> Inl Undefined)"

fun accumulate_all :: "tokenized_strings \<Rightarrow> index_t list \<Rightarrow> pair_packer \<Rightarrow> container_error + pair_packer" where
  "accumulate_all c [] k = Inr k"
| "accumulate_all c (i # is) k = bindE (AccumulatePairs c i k) (accumulate_all c is)"

fun add_compressable :: "index_pair_dictionary \<Rightarrow> nat \<Rightarrow> index_t list \<Rightarrow> index_pair_dictionary \<Rightarrow> container_error + index_pair_dictionary" where
  "add_compressable newPairs i [] pairs = Inr pairs"
| "add_compressable newPairs i (n # ns) pairs =
     bindE (if n > 4
            then case ipd_at newPairs (of_nat i) of
                   None \<Rightarrow> Inl Undefined
                 | Some newPair \<Rightarrow> map_sum id snd (of_opt (ipd_Insert newPair pairs))
            else Inr pairs)
       (add_compressable newPairs (i + 1) ns)"

definition AddCompressablePairs :: "pair_packer \<Rightarrow> tokenized_strings \<Rightarrow> container_error + tokenized_strings" where
  "AddCompressablePairs k c =
     map_sum id (\<lambda>p. c\<lparr>ts_pairs := p\<rparr>) (add_compressable (pk_newPairs k) 0 (pk_counts k) (ts_pairs c))"

text \<open>
  Replacing the pairs of one string.  The target lies behind the token that is read next, so the tokens
  that are still to be read are the old ones; \<open>out\<close> are those that were written.
\<close>

fun compress_loop ::
    "index_pair_dictionary \<Rightarrow> index_t \<Rightarrow> index_t \<Rightarrow> index_t list \<Rightarrow> index_t list \<Rightarrow> index_t \<Rightarrow>
     container_error + index_t list \<times> index_t" where
  "compress_loop pairs minimumToken lastToken [] out n = Inr (out @ [lastToken], n)"
| "compress_loop pairs minimumToken lastToken (token # ts) out n =
     (if IsToken token
      then bindE (of_opt (if token \<ge> minimumToken \<or> lastToken \<ge> minimumToken then ipd_Find (lastToken, token) pairs else Some NO_INDEX))
        (\<lambda>pairIndex.
           if pairIndex = NO_INDEX then compress_loop pairs minimumToken token ts (out @ [lastToken]) n
           else case ts of
                  [] \<Rightarrow> compress_loop pairs minimumToken EMPTY_TOKEN [] (out @ [GetPairToken pairIndex]) (n + 1)
                | token' # ts' \<Rightarrow> compress_loop pairs minimumToken token' ts' (out @ [GetPairToken pairIndex]) (n + 1))
      else Inr (out @ [lastToken], n))"

definition CompressString ::
    "index_t \<Rightarrow> tokenized_strings \<times> pair_packer \<Rightarrow> container_error + bool \<times> tokenized_strings \<times> pair_packer" where
  "CompressString stringIndex st =
     (let (c, k) = st; first = unat (ts_offsets c ! unat stringIndex)
      in case ts_range c stringIndex of
           Some (lastToken # ts) \<Rightarrow>
             map_sum id (\<lambda>(out, n).
               (n > pk_replacements k,
                c\<lparr>ts_stringData := take first (ts_stringData c) @ out @ replicate (length (lastToken # ts) - length out) EMPTY_TOKEN @
                    drop (first + length (lastToken # ts)) (ts_stringData c)\<rparr>,
                k\<lparr>pk_replacements := n\<rparr>))
               (compress_loop (ts_pairs c) (pk_minimumToken k) lastToken ts [] (pk_replacements k))
         | _ \<Rightarrow> Inl Undefined)"

fun compress_strings ::
    "index_t list \<Rightarrow> tokenized_strings \<times> pair_packer \<Rightarrow> container_error + index_t list \<times> tokenized_strings \<times> pair_packer" where
  "compress_strings [] st = Inr ([], st)"
| "compress_strings (i # is) st =
     bindE (CompressString i st) (\<lambda>(b, st).
       map_sum id (\<lambda>(kept, st). (if b then i # kept else kept, st)) (compress_strings is st))"

definition OneRound :: "tokenized_strings \<times> pair_packer \<Rightarrow> container_error + index_t \<times> tokenized_strings \<times> pair_packer" where
  "OneRound st =
     (let (c, k) = st; oldReplacementCount = pk_replacements k; oldPairsCount = ipd_size (ts_pairs c)
      in bindE (accumulate_all c (pk_strings k) k) (\<lambda>k.
         bindE (AddCompressablePairs k c) (\<lambda>c.
         map_sum id (\<lambda>(kept, c, k).
           (pk_replacements k - oldReplacementCount, c,
            k\<lparr>pk_strings := kept, pk_newPairs := ipd_Clear (pk_newPairs k), pk_counts := [],
              pk_minimumToken := GetPairToken oldPairsCount\<rparr>))
           (compress_strings (pk_strings k) (c, k)))))"

partial_function (option) all_rounds ::
    "tokenized_strings \<times> pair_packer \<Rightarrow> (container_error + tokenized_strings \<times> pair_packer) option" where
  "all_rounds st =
     (case OneRound st of
        Inl e \<Rightarrow> Some (Inl e)
      | Inr (n, st) \<Rightarrow> if n > 0 then all_rounds st else Some (Inr st))"

text \<open>
  Removing the padding.  The loops over the data and over the offsets are one recursion; \<open>offset_pos\<close>,
  \<open>iter\<close> and \<open>target\<close> are the positions of the iterators.
\<close>

partial_function (option) compact_loop ::
    "index_t list \<Rightarrow> index_t list \<Rightarrow> nat \<Rightarrow> nat \<Rightarrow> nat \<Rightarrow> nat \<Rightarrow> (container_error + index_t list \<times> index_t list) option" where
  "compact_loop stringData os offset_pos nextStringStart iter target =
     (if iter = length stringData
      then Some (Inr (take target stringData, take offset_pos os @ replicate (length os - offset_pos) (of_nat target)))
      else if iter = nextStringStart
      then if offset_pos + 1 < length os
           then compact_loop stringData (os[offset_pos := of_nat target]) (offset_pos + 1) (unat (os ! (offset_pos + 1))) iter target
           else Some (Inl Undefined)
      else if iter > length stringData then Some (Inl Undefined)
      else if IsToken (stringData ! iter)
      then compact_loop (stringData[target := stringData ! iter]) os offset_pos nextStringStart (iter + 1) (target + 1)
      else compact_loop stringData os offset_pos nextStringStart nextStringStart target)"

definition Compact :: "tokenized_strings \<times> pair_packer \<Rightarrow> (container_error + tokenized_strings) option" where
  "Compact st =
     (let (c, k) = st
      in if pk_replacements k = 0 then Some (Inr c)
         else case ts_offsets c of
                [] \<Rightarrow> Some (Inl Undefined)
              | offset # os \<Rightarrow>
                  map_option (map_sum id (\<lambda>(d, os). c\<lparr>ts_stringData := d, ts_offsets := os\<rparr>))
                    (compact_loop (ts_stringData c) (ts_offsets c) 0 (unat offset) 0 0))"


subsection \<open>Renumbering the pairs\<close>

text \<open>
  A step of the search for the used pairs: \<open>done\<close> marks those that are in the list already.
\<close>

definition mark :: "index_t \<Rightarrow> index_t list \<times> bool list \<Rightarrow> container_error + index_t list \<times> bool list" where
  "mark token st =
     (let (new2Old, visited) = st
      in if IsDictionaryWord token then Inr st
         else if unat token \<ge> length visited then Inl Undefined
         else if visited ! unat token then Inr st
         else Inr (new2Old @ [token], visited[unat token := True]))"

fun mark_direct :: "index_t list \<Rightarrow> index_t list \<times> bool list \<Rightarrow> container_error + index_t list \<times> bool list" where
  "mark_direct [] st = Inr st"
| "mark_direct (t # ts) st = bindE (mark t st) (mark_direct ts)"

definition unvisited :: "bool list \<Rightarrow> nat" where
  "unvisited visited = length (filter Not visited)"

lemma mark_cases:
  assumes "mark t (n, v) = Inr (n', v')"
  shows "n' = n \<and> v' = v \<and> (IsDictionaryWord t \<or> unat t < length v \<and> v ! unat t) \<or>
    \<not> IsDictionaryWord t \<and> unat t < length v \<and> \<not> v ! unat t \<and> n' = n @ [t] \<and> v' = v[unat t := True]"
  using assms by (auto simp: mark_def Let_def split: if_splits)

lemma mark_measure:
  assumes "mark t (n, v) = Inr (n', v')"
  shows "length n' + unvisited v' = length n + unvisited v \<and> length n \<le> length n'"
proof -
  have "unvisited (v[i := True]) + 1 = unvisited v" if "i < length v" "\<not> v ! i" for i
    using that
  proof (induction v arbitrary: i)
    case (Cons a v)
    then show ?case by (cases i) (auto simp: unvisited_def)
  qed simp
  then show ?thesis using mark_cases [OF assms] by auto
qed

function mark_indirect :: "index_pair_dictionary \<Rightarrow> nat \<Rightarrow> index_t list \<Rightarrow> bool list \<Rightarrow> container_error + index_t list" where
  "mark_indirect pairs i new2Old visited =
     (if i < length new2Old
      then case ipd_at pairs (new2Old ! i) of
             None \<Rightarrow> Inl Undefined
           | Some tokens \<Rightarrow>
               (case bindE (mark (fst tokens) (new2Old, visited)) (mark (snd tokens)) of
                  Inl e \<Rightarrow> Inl e
                | Inr (new2Old, visited) \<Rightarrow> mark_indirect pairs (i + 1) new2Old visited)
      else Inr new2Old)"
  by pat_completeness auto
termination
  by (relation "measure (\<lambda>(pairs, i, new2Old, visited). length new2Old + unvisited visited - i)")
    (auto dest!: mark_measure)

declare mark_indirect.simps [simp del]

text \<open>The new number of each old pair, and a token with it.\<close>

definition old_to_new :: "nat \<Rightarrow> index_t list \<Rightarrow> index_t list" where
  "old_to_new n new2Old = fold (\<lambda>i m. m[unat (new2Old ! i) := of_nat i]) [0..<length new2Old] (replicate n 0)"

definition renumber :: "index_t list \<Rightarrow> index_t \<Rightarrow> index_t" where
  "renumber old2New token = (if IsDictionaryWord token then token else old2New ! unat token)"

fun insert_renumbered ::
    "index_pair_dictionary \<Rightarrow> index_t list \<Rightarrow> index_t list \<Rightarrow> index_pair_dictionary \<Rightarrow> container_error + index_pair_dictionary" where
  "insert_renumbered pairs old2New [] temp = Inr temp"
| "insert_renumbered pairs old2New (i # is) temp =
     (case ipd_at pairs i of
        None \<Rightarrow> Inl Undefined
      | Some tokens \<Rightarrow>
          bindE (map_sum id snd (of_opt (ipd_Insert (renumber old2New (fst tokens), renumber old2New (snd tokens)) temp)))
            (insert_renumbered pairs old2New is))"

definition OptimizePairs :: "tokenized_strings \<Rightarrow> container_error + tokenized_strings" where
  "OptimizePairs c =
     (let pairs = ts_pairs c
      in bindE (mark_direct (ts_stringData c) ([], replicate (length (ipd_data pairs)) False)) (\<lambda>(new2Old, visited).
         bindE (mark_indirect pairs 0 new2Old visited) (\<lambda>new2Old.
         let old2New = old_to_new (length (ipd_data pairs)) new2Old
         in bindE (of_opt (ipd_reserve (of_nat (length new2Old)) ipd_init)) (\<lambda>temp.
         map_sum id (\<lambda>temp. c\<lparr>ts_pairs := temp, ts_stringData := map (renumber old2New) (ts_stringData c)\<rparr>)
           (insert_renumbered pairs old2New new2Old temp)))))"

subsection \<open>The whole compression\<close>

definition Compress :: "tokenized_strings \<Rightarrow> (container_error + tokenized_strings) option" where
  "Compress c =
     (case packer_init c of
        Inl e \<Rightarrow> Some (Inl e)
      | Inr k \<Rightarrow>
          Option.bind (all_rounds (c, k)) (\<lambda>r.
            case r of
              Inl e \<Rightarrow> Some (Inl e)
            | Inr st \<Rightarrow> map_option (\<lambda>r. bindE r OptimizePairs) (Compact st)))"

text \<open>Saving compresses only while few pairs were found, compared to the number of tokens.\<close>

definition AutoCompress :: "tokenized_strings \<Rightarrow> (container_error + tokenized_strings) option" where
  "AutoCompress c =
     (let n = length (ts_stringData c);
          relation = min (n div (unat (ipd_size (ts_pairs c)) + 1)) 63
      in if n < 2 ^ relation then Compress c else Some (Inr c))"

subsection \<open>Replacing the pairs of a string\<close>

definition weight :: "index_t list \<Rightarrow> nat" where
  "weight ts = length (filter IsToken ts)"

lemma weight_simps [simp]: "weight [] = 0" "weight (t # ts) = (if IsToken t then 1 else 0) + weight ts"
    "weight (ts @ us) = weight ts + weight us" "weight (replicate n EMPTY_TOKEN) = 0" "\<not> IsToken EMPTY_TOKEN"
  by (simp_all add: weight_def IsToken_def)

text \<open>The pairs that are considered for replacement.\<close>

fun positions :: "index_t \<Rightarrow> index_t \<Rightarrow> index_t list \<Rightarrow> index_pair list" where
  "positions m lastToken [] = []"
| "positions m lastToken (token # ts) =
     (if IsToken token then (if token \<ge> m \<or> lastToken \<ge> m then [(lastToken, token)] else []) @ positions m token ts else [])"

lemma replace_pair_text:
  assumes ok: "tokens_ok w p" and i: "ipd_Find (a, b) p = Some i" "i \<noteq> NO_INDEX"
  shows "expand_all (sd_strings w) (ipd_data p) (takeWhile IsToken (out @ a # b # ts)) x \<Longrightarrow>
    expand_all (sd_strings w) (ipd_data p) (takeWhile IsToken (out @ i # ts)) x"
proof (induction out arbitrary: x)
  case Nil
  have t: "(a, b) \<in> set (ipd_data p)"
    using ipd_Find_sound [of p "(a, b)"] ok i by (auto simp: tokens_ok_def split: if_splits)
  then have "IsToken a" "IsToken b" using ok by (auto simp: tokens_ok_def)
  then obtain y z u where "x = y @ z @ u" "expands (sd_strings w) (ipd_data p) a y" "expands (sd_strings w) (ipd_data p) b z"
      "expand_all (sd_strings w) (ipd_data p) (takeWhile IsToken ts) u" using Nil by auto
  moreover from this have "expands (sd_strings w) (ipd_data p) i (y @ z)" "IsToken i" using expands_pair_token [OF ok i] by auto
  ultimately show ?case by (simp, intro exI [of _ "y @ z"] exI [of _ u]) simp
qed (auto split: if_splits)

lemma compress_loop_ok:
  assumes ok: "tokens_ok w p"
  shows "\<exists>out' r. compress_loop p m l ts out n = Inr (out', n + of_nat r) \<and>
    length out' \<le> length out + 1 + length ts \<and> length out < length out' \<and>
    weight out' + r \<le> weight out + weight (l # ts) \<and> r \<le> length ts \<and>
    (\<forall>x. expand_all (sd_strings w) (ipd_data p) (takeWhile IsToken (out @ l # ts)) x \<longrightarrow>
       expand_all (sd_strings w) (ipd_data p) (takeWhile IsToken out') x) \<and>
    (readable w p (out @ l # ts) \<longrightarrow> readable w p out') \<and>
    length (filter (\<lambda>q. q \<in> set (ipd_data p)) (positions m l ts)) \<le> 2 * r \<and>
    (IsToken (hd (out @ [l])) \<longrightarrow> IsToken (hd out')) \<and>
    (r = 0 \<longrightarrow> (\<forall>t \<in> set ts. IsToken t) \<longrightarrow> out' = out @ l # ts)"
  (is "\<exists>out' r. ?P l ts out n out' r")
proof (induction "length ts" arbitrary: l ts out n rule: less_induct)
  case less
  have sound: "ipd_sound p" using ok by (simp add: tokens_ok_def)
  show ?case
  proof (cases ts)
    case Nil
    then show ?thesis by (intro exI [of _ "out @ [l]"] exI [of _ 0]) simp
  next
    case (Cons t ts1)
    show ?thesis
    proof (cases "IsToken t")
      case False
      then show ?thesis using Cons
        by (intro exI [of _ "out @ [l]"] exI [of _ 0]) (simp add: takeWhile_append readable_def)
    next
      case True
      define q where "q = (t \<ge> m \<or> l \<ge> m)"
      obtain i where i: "(if q then ipd_Find (l, t) p else Some NO_INDEX) = Some i"
          "i \<noteq> NO_INDEX \<Longrightarrow> q \<and> ipd_Find (l, t) p = Some i" "i = NO_INDEX \<Longrightarrow> \<not> q \<or> (l, t) \<notin> set (ipd_data p)"
        using ipd_Find_sound [OF sound, of "(l, t)"] by (cases q) (auto split: if_splits)
      show ?thesis
      proof (cases "i = NO_INDEX")
        case no: True
        have step: "compress_loop p m l ts out n = compress_loop p m t ts1 (out @ [l]) n"
          using Cons True i(1) no by (simp add: q_def)
        have pos: "filter (\<lambda>q. q \<in> set (ipd_data p)) (positions m l ts) = filter (\<lambda>q. q \<in> set (ipd_data p)) (positions m t ts1)"
          using Cons True i(3) no by (auto simp: q_def)
        obtain out' r where P: "?P t ts1 (out @ [l]) n out' r" using less.hyps [of ts1 t "out @ [l]" n] Cons by auto
        have "?P l ts out n out' r" unfolding step pos using P by (simp add: Cons hd_append)
        then show ?thesis by blast
      next
        case yes: False
        then have f: "ipd_Find (l, t) p = Some i" "q" using i(2) by auto
        then have mem: "(l, t) \<in> set (ipd_data p)" using ipd_Find_sound [OF sound, of "(l, t)"] yes by (auto split: if_splits)
        then have tk: "IsToken l" "IsToken t" using ok by (auto simp: tokens_ok_def)
        have it: "IsToken i"
        proof -
          have "unat i < length (ipd_data p)" using ipd_Find_sound [OF sound, of "(l, t)"] f yes by (auto split: if_splits)
          then show ?thesis using ok pair_token [of i] by (simp add: tokens_ok_def)
        qed
        have rd: "readable w p (out @ l # ts) \<longrightarrow> readable w p (out @ [i])"
        proof
          assume r: "readable w p (out @ l # ts)"
          then obtain y z where "expands (sd_strings w) (ipd_data p) l y" "expands (sd_strings w) (ipd_data p) t z"
            by (auto simp: readable_def Cons)
          then show "readable w p (out @ [i])" using expands_pair_token(1) [OF ok f(1) yes] r by (auto simp: readable_def)
        qed
        have em: "\<exists>x. expands (sd_strings w) (ipd_data p) EMPTY_TOKEN x" using expands_EMPTY ok by (auto simp: tokens_ok_def)
        note rep = replace_pair_text [OF ok f(1) yes]
        show ?thesis
        proof (cases ts1)
          case Nil
          have "compress_loop p m l ts out n = Inr (out @ [i, EMPTY_TOKEN], n + 1)"
            using Cons True i(1) yes Nil by (simp add: q_def GetPairToken_def)
          moreover have "takeWhile IsToken (out @ [i, EMPTY_TOKEN]) = takeWhile IsToken (out @ [i])"
            using takeWhile_stop [of IsToken EMPTY_TOKEN "out @ [i]" "[]"] by simp
          ultimately show ?thesis using Cons Nil tk it rd em rep [of out "[]"]
            by (intro exI [of _ "out @ [i, EMPTY_TOKEN]"] exI [of _ 1]) (auto simp: readable_def hd_append)
        next
          case (Cons u ts2)
          have step: "compress_loop p m l ts out n = compress_loop p m u ts2 (out @ [i]) (n + 1)"
            using \<open>ts = t # ts1\<close> True i(1) yes Cons by (simp add: q_def GetPairToken_def)
          obtain out' r where P: "?P u ts2 (out @ [i]) (n + 1) out' r"
            using less.hyps [of ts2 u "out @ [i]" "n + 1"] Cons \<open>ts = t # ts1\<close> by auto
          let ?S = "\<lambda>q. q \<in> set (ipd_data p)"
          have ts: "ts = t # u # ts2" using \<open>ts = t # ts1\<close> Cons by simp
          have pos: "length (filter ?S (positions m l ts)) \<le> 2 + length (filter ?S (positions m u ts2))"
            by (simp add: ts)
          have same: "\<forall>x. expand_all (sd_strings w) (ipd_data p) (takeWhile IsToken (out @ l # ts)) x \<longrightarrow>
              expand_all (sd_strings w) (ipd_data p) (takeWhile IsToken ((out @ [i]) @ u # ts2)) x"
            using rep [of out "u # ts2"] by (simp only: ts append_assoc append_Cons append_Nil) blast
          have rd': "readable w p (out @ l # ts) \<longrightarrow> readable w p ((out @ [i]) @ u # ts2)"
            using rd by (auto simp: readable_def ts)
          have hd': "IsToken (hd ((out @ [i]) @ [u]))" if "IsToken (hd (out @ [l]))" using that it by (cases out) auto
          have "?P l ts out n out' (Suc r)" unfolding step
            using P pos same rd' hd' tk it by (elim conjE, intro conjI) (simp_all add: ts)
          then show ?thesis by blast
        qed
      qed
    qed
  qed
qed

subsection \<open>Counting the pairs\<close>

definition counted :: "index_pair list \<Rightarrow> index_pair_dictionary \<times> index_t list \<Rightarrow> bool" where
  "counted A st \<longleftrightarrow> ipd_inv (fst st) \<and> ample (ipd_hashIndex (fst st)) \<and> set (ipd_data (fst st)) = set A \<and>
     length (ipd_data (fst st)) \<le> length A \<and> map unat (snd st) = map (count_list A) (ipd_data (fst st))"

lemma map_count_new: "v \<notin> set d \<Longrightarrow> map (count_list (A @ [v])) d = map (count_list A) d"
  by (auto simp: count_list_append)

lemma map_count_old:
  assumes "distinct d" "n < length d" "d ! n = v"
  shows "map (count_list (A @ [v])) d = (map (count_list A) d)[n := count_list A v + 1]"
  using assms by (intro nth_equalityI) (auto simp: count_list_append nth_list_update nth_eq_iff_index_eq)

lemma count_pair_ok:
  assumes c: "counted A st" and len: "length A < 119304646"
  shows "\<exists>st'. count_pair q st = Inr st' \<and> counted (A @ [q]) st'"
proof -
  obtain d cs where st: "st = (d, cs)" by (cases st)
  have inv: "ipd_inv d" and am: "ample (ipd_hashIndex d)" and A: "set (ipd_data d) = set A" "length (ipd_data d) \<le> length A"
    "map unat cs = map (count_list A) (ipd_data d)" using c by (simp_all add: counted_def st)
  have dist: "distinct (ipd_data d)" using inv by (simp add: ipd_inv_def)
  have lc: "length cs = length (ipd_data d)" using arg_cong [OF A(3), of length] by simp
  have "ipd_room d" using ample_can_grow [of ipd_hash "ipd_data d" "ipd_hashIndex d"] inv am A(2) len by (simp add: ipd_room_def ipd_inv_def)
  then obtain d' where d': "ipd_AutoInsert q d = Some (index_in (ipd_data d') q, d')" "ipd_inv d'"
      "ipd_data d' = (if q \<in> set (ipd_data d) then ipd_data d else ipd_data d @ [q])" using ipd_AutoInsert_ok [OF inv] by blast
  have am': "ample (ipd_hashIndex d')" using ipd_AutoInsert_sound [OF ipd_inv_sound [OF inv] am, of q] A(2) len d'(1) by auto
  have "q \<in> set (ipd_data d')" by (simp add: d'(3))
  then obtain n where n: "n < length (ipd_data d')" "ipd_data d' ! n = q" "index_in (ipd_data d') q = (of_nat n :: index_t)"
      "unat (of_nat n :: index_t) = n" using pair_pool.index_position [OF d'(2)] by blast
  have cnt: "count_list A q < 2 ^ 32 - 1" using le_less_trans [OF count_le_length [of A q] len] by simp
  show ?thesis
  proof (cases "q \<in> set (ipd_data d)")
    case True
    then have dd: "ipd_data d' = ipd_data d" by (simp add: d'(3))
    have nn: "n < length (ipd_data d)" "ipd_data d ! n = q" using n(1,2) by (simp_all add: dd)
    have "unat (cs ! n) = count_list A q" using arg_cong [OF A(3), of "\<lambda>xs. xs ! n"] nn lc by simp
    then have "unat (cs ! n + 1) = count_list A q + 1" using cnt by (simp add: unat_word_ariths)
    then have "map unat (cs[n := cs ! n + 1]) = map (count_list (A @ [q])) (ipd_data d)"
      unfolding map_count_old [OF dist nn] by (simp add: map_update A(3))
    moreover have "count_pair q st = Inr (d', cs[n := cs ! n + 1])"
      using nn(1) lc by (simp add: count_pair_def st d'(1) n(3,4))
    moreover have "set (ipd_data d') = set (A @ [q])" "length (ipd_data d') \<le> length (A @ [q])" using A dd True by auto
    ultimately show ?thesis using d'(2) am' dd by (simp add: counted_def)
  next
    case False
    then have dd: "ipd_data d' = ipd_data d @ [q]" by (simp add: d'(3))
    then have nn: "n = length (ipd_data d)" using n(1,2) False by (auto simp: nth_append split: if_splits)
    have "count_list A q = 0" using False A(1) by (simp add: count_list_0_iff)
    then have "map unat (cs @ [1]) = map (count_list (A @ [q])) (ipd_data d')" using map_count_new [OF False, of A] A(3) by (simp add: dd)
    moreover have "count_pair q st = Inr (d', cs @ [1])"
      using lc n(4) [unfolded nn] by (simp add: count_pair_def st d'(1) n(3) nn)
    moreover have "set (ipd_data d') = set (A @ [q])" "length (ipd_data d') \<le> length (A @ [q])" using A dd by auto
    ultimately show ?thesis using d'(2) am' by (simp add: counted_def)
  qed
qed

lemma accumulate_ok:
  "counted A st \<Longrightarrow> length A + length ts \<le> 119304646 \<Longrightarrow>
   \<exists>st'. accumulate m l ts st = Inr st' \<and> counted (A @ positions m l ts) st'"
proof (induction ts arbitrary: A l st)
  case (Cons t ts)
  show ?case
  proof (cases "IsToken t \<and> (t \<ge> m \<or> l \<ge> m)")
    case True
    then obtain st1 where st1: "count_pair (l, t) st = Inr st1" "counted (A @ [(l, t)]) st1"
      using count_pair_ok [OF Cons.prems(1), of "(l, t)"] Cons.prems(2) by auto
    then show ?thesis using Cons.IH [OF st1(2)] Cons.prems(2) True by auto
  next
    case False
    then show ?thesis using Cons.IH [of A st t] Cons.prems by (cases "IsToken t") auto
  qed
qed auto

lemma length_positions: "length (positions m l ts) \<le> weight ts"
  by (induction ts arbitrary: l) (auto simp: le_SucI)

lemma positions_tokens: "IsToken l \<Longrightarrow> \<forall>(a, b) \<in> set (positions m l ts). IsToken a \<and> IsToken b"
  by (induction ts arbitrary: l) (auto split: if_splits)

fun selected :: "index_pair list \<Rightarrow> nat \<Rightarrow> index_t list \<Rightarrow> index_pair list" where
  "selected d i [] = []"
| "selected d i (n # ns) = (if n > 4 then [d ! i] else []) @ selected d (i + 1) ns"

lemma add_compressable_ok:
  assumes "length (ipd_data newPairs) < 2 ^ 32"
  shows "ipd_sound p \<Longrightarrow> ample (ipd_hashIndex p) \<Longrightarrow> i + length ns \<le> length (ipd_data newPairs) \<Longrightarrow>
   length (ipd_data p) + length (selected (ipd_data newPairs) i ns) \<le> 119304646 \<Longrightarrow>
   \<exists>p'. add_compressable newPairs i ns p = Inr p' \<and> ipd_sound p' \<and> ample (ipd_hashIndex p') \<and>
     ipd_data p' = ipd_data p @ selected (ipd_data newPairs) i ns"
proof (induction ns arbitrary: i p)
  case (Cons n ns)
  show ?case
  proof (cases "n > 4")
    case True
    have at: "ipd_at newPairs (of_nat i) = Some (ipd_data newPairs ! i)"
      using Cons.prems(3) assms by (simp add: ipd_at_def unat_of_nat_small)
    obtain p1 where p1: "ipd_Insert (ipd_data newPairs ! i) p = Some (of_nat (length (ipd_data p)), p1)" "ipd_sound p1" "ample (ipd_hashIndex p1)"
        "ipd_data p1 = ipd_data p @ [ipd_data newPairs ! i]"
      using ipd_Insert_sound [OF Cons.prems(1,2), of "ipd_data newPairs ! i"] Cons.prems(4) True by auto
    then show ?thesis using Cons.IH [OF p1(2,3), of "i + 1"] Cons.prems(3,4) True by (simp add: at)
  next
    case False
    then show ?thesis using Cons.IH [of p "i + 1"] Cons.prems by simp
  qed
qed simp

lemma filter_distinct_count: "distinct S \<Longrightarrow> length (filter (\<lambda>q. q \<in> set S) A) = sum_list (map (count_list A) S)"
proof (induction A)
  case (Cons a A)
  have "sum_list (map (count_list (a # A)) S) = (if a \<in> set S then 1 else 0) + sum_list (map (count_list A) S)"
    using Cons.prems by (induction S) auto
  then show ?case using Cons by (simp del: count_list.simps)
qed simp

lemma selected_zip: "length ns \<le> length d \<Longrightarrow> selected (pre @ d) (length pre) ns = map fst (filter (\<lambda>(q, n). n > 4) (zip d ns))"
proof (induction ns arbitrary: pre d)
  case (Cons n ns)
  then obtain q d1 where d: "d = q # d1" by (cases d) auto
  then show ?case using Cons.IH [of d1 "pre @ [q]"] Cons.prems by simp
qed simp

text \<open>A pair is taken when it occurs five times: so few pairs are taken.\<close>

lemma selected_count:
  assumes c: "counted A (d, cs)"
  defines "S \<equiv> selected (ipd_data d) 0 cs"
  shows "set S \<subseteq> set A" "5 * length S \<le> length (filter (\<lambda>q. q \<in> set S) A)"
proof -
  have f: "map unat cs = map (count_list A) (ipd_data d)"
    and A: "set (ipd_data d) = set A" and dist: "distinct (ipd_data d)"
    using c by (simp_all add: counted_def ipd_inv_def)
  have l: "length cs = length (ipd_data d)" using arg_cong [OF f, of length] by simp
  have S: "S = map fst (filter (\<lambda>(q, n). n > 4) (zip (ipd_data d) cs))"
    using selected_zip [of cs "ipd_data d" "[]"] l by (simp add: S_def)
  have distS: "distinct S" unfolding S by (rule distinct_map_filter) (simp add: l dist)
  show "set S \<subseteq> set A" unfolding S A [symmetric] by (auto dest: set_zip_leftD)
  have "5 \<le> count_list A q" if q: "q \<in> set S" for q
  proof -
    obtain k where k: "k < length cs" "ipd_data d ! k = q" "cs ! k > 4" using q by (auto simp: S set_zip l)
    have "unat (cs ! k) = count_list A q" using arg_cong [OF f, of "\<lambda>xs. xs ! k"] k(1,2) l by simp
    then show ?thesis using k(3) by (simp add: word_less_nat_alt)
  qed
  then have "sum_list (map (\<lambda>q. 5) S) \<le> sum_list (map (count_list A) S)" by (rule sum_list_mono)
  then show "5 * length S \<le> length (filter (\<lambda>q. q \<in> set S) A)"
    by (simp add: filter_distinct_count [OF distS] sum_list_triv mult.commute)
qed

subsection \<open>One round\<close>

definition held :: "tokenized_strings \<Rightarrow> index_t list \<Rightarrow> index_t list list \<Rightarrow> byte list list \<Rightarrow> bool" where
  "held c pre L texts \<longleftrightarrow> tokens_ok (ts_words c) (ts_pairs c) \<and> readable (ts_words c) (ts_pairs c) (ts_stringData c) \<and>
     ample (ipd_hashIndex (ts_pairs c)) \<and> layout c pre L \<and> list_all2 (tokens_text (ts_words c) (ts_pairs c)) L texts"

text \<open>The strings that the packer works on start in a token.\<close>

definition packable :: "index_t list list \<Rightarrow> index_t list \<Rightarrow> bool" where
  "packable L is \<longleftrightarrow> distinct is \<and> (\<forall>i \<in> set is. unat i < length L \<and> L ! unat i \<noteq> [] \<and> IsToken (hd (L ! unat i)))"

lemma starts_cong: "map length L = map length L' \<Longrightarrow> starts n L = starts n L'"
proof (induction L arbitrary: n L')
  case (Cons l L)
  then show ?case by (cases L') auto
qed simp

lemma takeWhile_padding: "\<not> P e \<Longrightarrow> takeWhile P (xs @ replicate n e) = takeWhile P xs"
  by (induction xs) (auto simp: takeWhile_replicate)

lemma layout_update:
  assumes l: "layout c pre L" and i: "i < length L" and len: "length l' = length (L ! i)"
  defines "first \<equiv> unat (ts_offsets c ! i)"
  shows "layout (c\<lparr>ts_stringData := take first (ts_stringData c) @ l' @ drop (first + length (L ! i)) (ts_stringData c)\<rparr>) pre (L[i := l'])"
    "take first (ts_stringData c) @ l' @ drop (first + length (L ! i)) (ts_stringData c) =
       pre @ concat (take i L) @ l' @ concat (drop (Suc i) L)"
    "ts_stringData c = pre @ concat (take i L) @ L ! i @ concat (drop (Suc i) L)"
proof -
  have f: "first = length (pre @ concat (take i L))" using layout_offset [OF l] i by (simp add: first_def)
  show d: "ts_stringData c = pre @ concat (take i L) @ L ! i @ concat (drop (Suc i) L)"
    using l concat_split [OF i] by (simp add: layout_def)
  show u: "take first (ts_stringData c) @ l' @ drop (first + length (L ! i)) (ts_stringData c) =
      pre @ concat (take i L) @ l' @ concat (drop (Suc i) L)" by (simp add: f d)
  have c: "concat (L[i := l']) = concat (take i L) @ l' @ concat (drop (Suc i) L)"
    using i by (simp add: upd_conv_take_nth_drop)
  have "map length (L[i := l']) = map length L" using len by (simp add: map_update list_update_same_conv i)
  then have "starts (length pre) (L[i := l']) = starts (length pre) L" by (rule starts_cong)
  moreover have "length (concat (L[i := l'])) = length (concat L)" using c concat_split [OF i] len by simp
  ultimately show "layout (c\<lparr>ts_stringData := take first (ts_stringData c) @ l' @ drop (first + length (L ! i)) (ts_stringData c)\<rparr>) pre (L[i := l'])"
    unfolding u using l c by (simp add: layout_def)
qed

lemma weight_concat_update: "i < length L \<Longrightarrow> weight (concat (L[i := l'])) + weight (L ! i) = weight (concat L) + weight l'"
  using concat_split [of i L] by (simp add: upd_conv_take_nth_drop)

text \<open>The pairs of a string that are considered.\<close>

definition string_positions :: "index_t \<Rightarrow> index_t list \<Rightarrow> index_pair list" where
  "string_positions m l = positions m (hd l) (tl l)"

lemma CompressString_ok:
  assumes h: "held c pre L texts" and i: "unat i < length L" "L ! unat i \<noteq> []" "IsToken (hd (L ! unat i))"
  shows "\<exists>b d' l' r. CompressString i (c, k) = Inr (b, c\<lparr>ts_stringData := d'\<rparr>, k\<lparr>pk_replacements := pk_replacements k + of_nat r\<rparr>) \<and>
    held (c\<lparr>ts_stringData := d'\<rparr>) pre (L[unat i := l']) texts \<and> length l' = length (L ! unat i) \<and> IsToken (hd l') \<and>
    weight l' + r \<le> weight (L ! unat i) \<and>
    length (filter (\<lambda>q. q \<in> set (ipd_data (ts_pairs c))) (string_positions (pk_minimumToken k) (L ! unat i))) \<le> 2 * r \<and>
    (r = 0 \<longrightarrow> (\<forall>t \<in> set (L ! unat i). IsToken t) \<longrightarrow> l' = L ! unat i)"
proof -
  let ?w = "ts_words c" and ?p = "ts_pairs c" and ?l = "L ! unat i"
  have ok: "tokens_ok ?w ?p" and rd: "readable ?w ?p (ts_stringData c)" and lay: "layout c pre L"
    and texts: "list_all2 (tokens_text ?w ?p) L texts" using h by (simp_all add: held_def)
  obtain t ts where l: "?l = t # ts" using i(2) by (cases ?l) auto
  obtain out r where C: "compress_loop ?p (pk_minimumToken k) t ts [] (pk_replacements k) = Inr (out, pk_replacements k + of_nat r)"
    "length out \<le> 1 + length ts" "0 < length out" "weight out + r \<le> weight ?l"
    "\<forall>x. expand_all (sd_strings ?w) (ipd_data ?p) (takeWhile IsToken ?l) x \<longrightarrow>
       expand_all (sd_strings ?w) (ipd_data ?p) (takeWhile IsToken out) x"
    "readable ?w ?p ?l \<longrightarrow> readable ?w ?p out" "IsToken t \<longrightarrow> IsToken (hd out)"
    "length (filter (\<lambda>q. q \<in> set (ipd_data ?p)) (positions (pk_minimumToken k) t ts)) \<le> 2 * r"
    "r = 0 \<longrightarrow> (\<forall>t \<in> set ts. IsToken t) \<longrightarrow> out = ?l"
    using compress_loop_ok [OF ok, of "pk_minimumToken k" t ts "[]" "pk_replacements k"] by (auto simp: l)
  let ?l' = "out @ replicate (length ?l - length out) EMPTY_TOKEN"
  let ?f = "unat (ts_offsets c ! unat i)"
  let ?d = "take ?f (ts_stringData c) @ ?l' @ drop (?f + length ?l) (ts_stringData c)"
  have len: "length ?l' = length ?l" using C(2) by (simp add: l)
  note up = layout_update [OF lay i(1) len]
  have step: "\<exists>b. CompressString i (c, k) = Inr (b, c\<lparr>ts_stringData := ?d\<rparr>, k\<lparr>pk_replacements := pk_replacements k + of_nat r\<rparr>)"
    using ts_range_ok [OF lay i(1)] C(1) by (simp add: CompressString_def l Let_def)
  have rl: "readable ?w ?p ?l'"
    using C(6) rd expands_EMPTY [of ?w] ok unfolding up(3) by (auto simp: readable_def tokens_ok_def)
  have "readable ?w ?p ?d" using rd rl unfolding up(2) up(3) [symmetric] by (simp add: up(3))
  moreover have "list_all2 (tokens_text ?w ?p) (L[unat i := ?l']) texts"
    using texts i(1) C(5) by (auto simp: list_all2_conv_all_nth nth_list_update tokens_text_def takeWhile_padding)
  ultimately have "held (c\<lparr>ts_stringData := ?d\<rparr>) pre (L[unat i := ?l']) texts" using h up(1) by (simp add: held_def)
  moreover have "IsToken (hd ?l')" "weight ?l' + r \<le> weight ?l" using C(3,4,7) i(3) l by (cases out; simp)+
  moreover have "length (filter (\<lambda>q. q \<in> set (ipd_data ?p)) (string_positions (pk_minimumToken k) ?l)) \<le> 2 * r"
    using C(8) by (simp add: string_positions_def l)
  moreover have "r = 0 \<longrightarrow> (\<forall>t \<in> set ?l. IsToken t) \<longrightarrow> ?l' = ?l" using C(9) by (simp add: l)
  ultimately show ?thesis using step len by blast
qed

lemma compress_strings_ok:
  "held c pre L texts \<Longrightarrow> packable L is \<Longrightarrow>
   \<exists>kept d' L' r. compress_strings is (c, k) = Inr (kept, c\<lparr>ts_stringData := d'\<rparr>, k\<lparr>pk_replacements := pk_replacements k + of_nat r\<rparr>) \<and>
     held (c\<lparr>ts_stringData := d'\<rparr>) pre L' texts \<and> length L' = length L \<and> packable L' kept \<and> set kept \<subseteq> set is \<and>
     (\<forall>j < length L. j \<notin> unat ` set is \<longrightarrow> L' ! j = L ! j) \<and>
     weight (concat L') + r \<le> weight (concat L) \<and> length (concat L') = length (concat L) \<and>
     (\<Sum>i\<leftarrow>is. length (filter (\<lambda>q. q \<in> set (ipd_data (ts_pairs c))) (string_positions (pk_minimumToken k) (L ! unat i)))) \<le> 2 * r \<and>
     (r = 0 \<longrightarrow> (\<forall>t \<in> set (concat L). IsToken t) \<longrightarrow> L' = L)"
proof (induction "is" arbitrary: c L k)
  case Nil
  then show ?case by (intro exI [of _ "[]"] exI [of _ "ts_stringData c"] exI [of _ L] exI [of _ 0]) (simp add: packable_def)
next
  case (Cons i "is")
  have i: "unat i < length L" "L ! unat i \<noteq> []" "IsToken (hd (L ! unat i))" "i \<notin> set is"
    using Cons.prems(2) by (auto simp: packable_def)
  obtain b d1 l1 r1 where C: "CompressString i (c, k) = Inr (b, c\<lparr>ts_stringData := d1\<rparr>, k\<lparr>pk_replacements := pk_replacements k + of_nat r1\<rparr>)"
    "held (c\<lparr>ts_stringData := d1\<rparr>) pre (L[unat i := l1]) texts" "length l1 = length (L ! unat i)" "IsToken (hd l1)"
    "weight l1 + r1 \<le> weight (L ! unat i)"
    "length (filter (\<lambda>q. q \<in> set (ipd_data (ts_pairs c))) (string_positions (pk_minimumToken k) (L ! unat i))) \<le> 2 * r1"
    "r1 = 0 \<longrightarrow> (\<forall>t \<in> set (L ! unat i). IsToken t) \<longrightarrow> l1 = L ! unat i"
    using CompressString_ok [OF Cons.prems(1) i(1-3)] by blast
  let ?c = "c\<lparr>ts_stringData := d1\<rparr>" and ?L = "L[unat i := l1]" and ?k = "k\<lparr>pk_replacements := pk_replacements k + of_nat r1\<rparr>"
  have other: "?L ! unat j = L ! unat j" if "j \<in> set is" for j
    using that i(4) by (metis nth_list_update_neq word_unat_eq_iff)
  have pk: "packable ?L is" using Cons.prems(2) other by (simp add: packable_def)
  obtain kept d' L' r where R: "compress_strings is (?c, ?k) = Inr (kept, ?c\<lparr>ts_stringData := d'\<rparr>, ?k\<lparr>pk_replacements := pk_replacements ?k + of_nat r\<rparr>)"
     "held (?c\<lparr>ts_stringData := d'\<rparr>) pre L' texts" "length L' = length ?L" "packable L' kept" "set kept \<subseteq> set is"
     "\<forall>j < length ?L. j \<notin> unat ` set is \<longrightarrow> L' ! j = ?L ! j"
     "weight (concat L') + r \<le> weight (concat ?L)" "length (concat L') = length (concat ?L)"
     "(\<Sum>i\<leftarrow>is. length (filter (\<lambda>q. q \<in> set (ipd_data (ts_pairs ?c))) (string_positions (pk_minimumToken ?k) (?L ! unat i)))) \<le> 2 * r" "r = 0 \<longrightarrow> (\<forall>t \<in> set (concat ?L). IsToken t) \<longrightarrow> L' = ?L"
    using Cons.IH [OF C(2) pk, of ?k] by blast
  have ni: "unat i \<notin> unat ` set is" using i(4) by (auto simp: word_unat_eq_iff [symmetric])
  have L'i: "L' ! unat i = l1" using R(6) ni i(1) by simp
  have sum: "(\<Sum>i\<leftarrow>is. length (filter (\<lambda>q. q \<in> set (ipd_data (ts_pairs c))) (string_positions (pk_minimumToken k) (L ! unat i)))) \<le> 2 * r"
    using R(9) other by (simp cong: map_cong)
  have w: "weight (concat L') + (r1 + r) \<le> weight (concat L)" using R(7) C(5) weight_concat_update [OF i(1), of l1] by linarith
  have lc: "length (concat L') = length (concat L)" using R(8) C(3) concat_split [OF i(1)] i(1) by (simp add: upd_conv_take_nth_drop)
  have "l1 \<noteq> []" using C(3) i(2) by (cases l1) auto
  then have pk': "packable L' (if b then i # kept else kept)" using R(3,4,5) i(1,4) L'i C(4) by (auto simp: packable_def)
  have same: "L' = L" if "r1 + r = 0" "\<forall>t \<in> set (concat L). IsToken t"
  proof -
    have "\<forall>t \<in> set (L ! unat i). IsToken t" using that(2) nth_mem [OF i(1)] by auto
    then have "?L = L" using C(7) that(1) by simp
    then show ?thesis using R(10) that by simp
  qed
  show ?case
    using R(2,3,5,6) C(1,6) same R(1) sum w lc pk'
    by (intro exI [of _ "if b then i # kept else kept"] exI [of _ d'] exI [of _ L'] exI [of _ "r1 + r"]) (auto simp: add.assoc)
qed

lemma sum_selected_strings:
  assumes "distinct is" "\<forall>i \<in> set is. unat (i :: index_t) < length L"
  shows "(\<Sum>i\<leftarrow>is. f (L ! unat i)) \<le> (\<Sum>l\<leftarrow>L. f l :: nat)"
proof -
  have inj: "inj_on unat (set is)" by (rule inj_onI) (simp add: word_unat_eq_iff)
  have "(\<Sum>i\<leftarrow>is. f (L ! unat i)) = (\<Sum>i\<in>set is. f (L ! unat i))" using assms(1) by (simp add: sum_list_distinct_conv_sum_set)
  also have "\<dots> = (\<Sum>j\<in>unat ` set is. f (L ! j))" using inj by (simp add: sum.reindex)
  also have "\<dots> \<le> (\<Sum>j\<in>{0..<length L}. f (L ! j))" using assms(2) by (intro sum_mono2) auto
  also have "\<dots> = (\<Sum>l\<leftarrow>L. f l)" by (simp add: sum_list_sum_nth)
  finally show ?thesis .
qed

lemma length_string_positions: "l \<noteq> [] \<Longrightarrow> length (string_positions m l) \<le> length l"
  using length_positions [of m "hd l" "tl l"] length_filter_le [of IsToken "tl l"]
  by (simp add: string_positions_def weight_def)

lemma string_positions_tokens: "IsToken (hd l) \<Longrightarrow> (a, b) \<in> set (string_positions m l) \<Longrightarrow> IsToken a \<and> IsToken b"
  using positions_tokens [of "hd l" m "tl l"] by (auto simp: string_positions_def)

lemma counted_length: "counted A (p, cs) \<Longrightarrow> length cs = length (ipd_data p)"
  by (auto simp: counted_def dest: map_eq_imp_length_eq)

lemma accumulate_all_ok:
  "layout c pre L \<Longrightarrow> packable L is \<Longrightarrow> counted A (pk_newPairs k, pk_counts k) \<Longrightarrow>
   length A + (\<Sum>i\<leftarrow>is. length (L ! unat i)) \<le> 119304646 \<Longrightarrow>
   \<exists>p cs. accumulate_all c is k = Inr (k\<lparr>pk_newPairs := p, pk_counts := cs\<rparr>) \<and>
     counted (A @ concat (map (\<lambda>i. string_positions (pk_minimumToken k) (L ! unat i)) is)) (p, cs)"
proof (induction "is" arbitrary: A k)
  case Nil
  then show ?case by (intro exI [of _ "pk_newPairs k"] exI [of _ "pk_counts k"]) simp
next
  case (Cons i "is")
  have i: "unat i < length L" "L ! unat i \<noteq> []" using Cons.prems(2) by (auto simp: packable_def)
  obtain t ts where l: "L ! unat i = t # ts" using i(2) by (cases "L ! unat i") auto
  obtain p cs where a: "accumulate (pk_minimumToken k) t ts (pk_newPairs k, pk_counts k) = Inr (p, cs)"
      "counted (A @ string_positions (pk_minimumToken k) (L ! unat i)) (p, cs)"
    using accumulate_ok [OF Cons.prems(3), of ts "pk_minimumToken k" t] Cons.prems(4) l by (auto simp: string_positions_def)
  let ?k = "k\<lparr>pk_newPairs := p, pk_counts := cs\<rparr>"
  have "AccumulatePairs c i k = Inr ?k" using ts_range_ok [OF Cons.prems(1) i(1)] a(1) by (simp add: AccumulatePairs_def l)
  moreover have "length (A @ string_positions (pk_minimumToken k) (L ! unat i)) + (\<Sum>i\<leftarrow>is. length (L ! unat i)) \<le> 119304646"
    using Cons.prems(4) length_string_positions [OF i(2), of "pk_minimumToken k"] by simp
  moreover have "packable L is" using Cons.prems(2) by (simp add: packable_def)
  ultimately show ?case using Cons.IH [of "A @ string_positions (pk_minimumToken k) (L ! unat i)" ?k] Cons.prems(1) a(2) by simp
qed

lemma held_extend:
  assumes h: "held c pre L texts" and p: "ipd_sound p" "ample (ipd_hashIndex p)" "ipd_data p = ipd_data (ts_pairs c) @ ps"
    and len: "length (ipd_data p) \<le> 119304646" and t: "\<forall>(a, b) \<in> set ps. IsToken a \<and> IsToken b"
  shows "held (c\<lparr>ts_pairs := p\<rparr>) pre L texts"
proof -
  have "tokens_ok (ts_words c) p" using h p len t by (auto simp: held_def tokens_ok_def)
  moreover have "readable (ts_words c) p (ts_stringData c)"
    using h p(3) readable_extend [of "ts_words c" "ts_pairs c" _ "ts_words c" "[]" p ps] by (simp add: held_def)
  moreover have "list_all2 (tokens_text (ts_words c) p) L texts"
    using h expand_all_extend [of "sd_strings (ts_words c)" "ipd_data (ts_pairs c)" _ _ "[]" ps] p(3)
    by (auto simp: held_def tokens_text_def elim!: list_all2_mono)
  ultimately show ?thesis using h p(2) by (simp add: held_def layout_def)
qed

lemma OneRound_ok:
  assumes h: "held c pre L texts" and pk: "packable L (pk_strings k)" and c0: "counted [] (pk_newPairs k, pk_counts k)"
    and len: "length (ipd_data (ts_pairs c)) + length (concat L) \<le> 119304646"
  shows "\<exists>c' k' L' r. OneRound (c, k) = Inr (of_nat r, c', k') \<and> held c' pre L' texts \<and> packable L' (pk_strings k') \<and>
    counted [] (pk_newPairs k', pk_counts k') \<and> weight (concat L') + r \<le> weight (concat L) \<and>
    length (concat L') = length (concat L) \<and> 5 * length (ipd_data (ts_pairs c')) \<le> 5 * length (ipd_data (ts_pairs c)) + 2 * r \<and>
    pk_replacements k' = pk_replacements k + of_nat r \<and> ts_offsets c' = ts_offsets c \<and> ts_words c' = ts_words c \<and>
    (r = 0 \<longrightarrow> (\<forall>t \<in> set (concat L). IsToken t) \<longrightarrow> L' = L)"
proof -
  let ?m = "pk_minimumToken k" and ?is = "pk_strings k" and ?p = "ts_pairs c"
  have lay: "layout c pre L" using h by (simp add: held_def)
  define A where "A = concat (map (\<lambda>i. string_positions ?m (L ! unat i)) ?is)"
  have strs: "distinct ?is" "\<forall>i \<in> set ?is. unat i < length L" "\<forall>i \<in> set ?is. L ! unat i \<noteq> [] \<and> IsToken (hd (L ! unat i))"
    using pk by (auto simp: packable_def)
  have sum: "(\<Sum>i\<leftarrow>?is. length (L ! unat i)) \<le> length (concat L)"
    using sum_selected_strings [OF strs(1,2), of length] by (simp add: length_concat)
  have "length [] + (\<Sum>i\<leftarrow>?is. length (L ! unat i)) \<le> 119304646" using sum len by simp
  from accumulate_all_ok [OF lay pk c0 this] obtain np cs where
    acc: "accumulate_all c ?is k = Inr (k\<lparr>pk_newPairs := np, pk_counts := cs\<rparr>)" "counted A (np, cs)"
    by (auto simp: A_def)
  let ?k = "k\<lparr>pk_newPairs := np, pk_counts := cs\<rparr>"
  define S where "S = selected (ipd_data np) 0 cs"
  note S = selected_count [OF acc(2), folded S_def]
  have lA: "length A \<le> length (concat L)"
  proof -
    have "length A = (\<Sum>i\<leftarrow>?is. length (string_positions ?m (L ! unat i)))" by (simp add: A_def length_concat comp_def)
    also have "\<dots> \<le> (\<Sum>i\<leftarrow>?is. length (L ! unat i))" using strs(3) by (intro sum_list_mono) (simp add: length_string_positions)
    finally show ?thesis using sum by simp
  qed
  have lS: "5 * length S \<le> length (filter (\<lambda>q. q \<in> set S) A)" "length (ipd_data ?p) + length S \<le> 119304646"
    using S(2) le_trans [OF S(2) length_filter_le] lA len by simp_all
  have ln: "length cs = length (ipd_data np)" by (rule counted_length [OF acc(2)])
  have np: "length (ipd_data np) < 2 ^ 32" using acc(2) ipd_inv_length by (simp add: counted_def)
  obtain p where p: "add_compressable np 0 cs ?p = Inr p" "ipd_sound p" "ample (ipd_hashIndex p)" "ipd_data p = ipd_data ?p @ S"
    using add_compressable_ok [OF np, of ?p 0 cs] h ln lS(2) by (auto simp: held_def tokens_ok_def S_def)
  have "\<forall>(a, b) \<in> set A. IsToken a \<and> IsToken b"
    using strs(3) by (auto simp: A_def dest: string_positions_tokens)
  then have "\<forall>(a, b) \<in> set S. IsToken a \<and> IsToken b" using S(1) by auto
  then have h1: "held (c\<lparr>ts_pairs := p\<rparr>) pre L texts" using held_extend [OF h p(2-4)] lS(2) p(4) by simp
  let ?c1 = "c\<lparr>ts_pairs := p\<rparr>"
  obtain kept d' L' r where R0: "compress_strings ?is (?c1, ?k) = Inr (kept, ?c1\<lparr>ts_stringData := d'\<rparr>, ?k\<lparr>pk_replacements := pk_replacements ?k + of_nat r\<rparr>)"
     "held (?c1\<lparr>ts_stringData := d'\<rparr>) pre L' texts" "packable L' kept"
     "weight (concat L') + r \<le> weight (concat L)" "length (concat L') = length (concat L)"
     "(\<Sum>i\<leftarrow>?is. length (filter (\<lambda>q. q \<in> set (ipd_data (ts_pairs ?c1))) (string_positions (pk_minimumToken ?k) (L ! unat i)))) \<le> 2 * r"
     "r = 0 \<longrightarrow> (\<forall>t \<in> set (concat L). IsToken t) \<longrightarrow> L' = L"
    using compress_strings_ok [OF h1 pk, of ?k] by blast
  note R = R0(1-5) R0(6) [simplified] R0(7)
  have "length (filter (\<lambda>q. q \<in> set S) A) \<le> length (filter (\<lambda>q. q \<in> set (ipd_data p)) A)"
    unfolding p(4) by (induction A) auto
  also have "\<dots> = (\<Sum>i\<leftarrow>?is. length (filter (\<lambda>q. q \<in> set (ipd_data p)) (string_positions ?m (L ! unat i))))"
    by (simp add: A_def filter_concat length_concat comp_def)
  finally have "5 * length (ipd_data p) \<le> 5 * length (ipd_data ?p) + 2 * r" using lS(1) R(6) p(4) by simp
  moreover have "counted [] (ipd_Clear np, [])"
    using acc(2) ipd_inv_Clear [of np] ample_clear [of "ipd_hashIndex np"] by (auto simp: counted_def ipd_Clear_def)
  moreover let ?k' = "?k\<lparr>pk_replacements := pk_replacements k + of_nat r, pk_strings := kept, pk_newPairs := ipd_Clear np, pk_counts := [],
    pk_minimumToken := GetPairToken (ipd_size ?p)\<rparr>"
  have "OneRound (c, k) = Inr (of_nat r, c\<lparr>ts_pairs := p, ts_stringData := d'\<rparr>, ?k')"
    using R(1) acc(1) p(1) by (simp add: OneRound_def AddCompressablePairs_def Let_def)
  ultimately show ?thesis using R(2-5,7)
    by (intro exI [of _ "c\<lparr>ts_pairs := p, ts_stringData := d'\<rparr>"] exI [of _ ?k'] exI [of _ L'] exI [of _ r]) simp
qed

subsection \<open>All rounds\<close>

text \<open>Every round that goes on has replaced tokens, so the rounds end.\<close>

lemma weight_le: "weight ts \<le> length ts"
  by (simp add: weight_def)

lemma all_rounds_ok:
  "held c pre L texts \<Longrightarrow> packable L (pk_strings k) \<Longrightarrow> counted [] (pk_newPairs k, pk_counts k) \<Longrightarrow>
   5 * length (ipd_data (ts_pairs c)) + 2 * weight (concat L) + 5 * length (concat L) \<le> 5 * 119304646 \<Longrightarrow>
   \<exists>c' k' L' r. all_rounds (c, k) = Some (Inr (c', k')) \<and> held c' pre L' texts \<and>
    weight (concat L') + r \<le> weight (concat L) \<and> length (concat L') = length (concat L) \<and>
    5 * length (ipd_data (ts_pairs c')) \<le> 5 * length (ipd_data (ts_pairs c)) + 2 * r \<and>
    pk_replacements k' = pk_replacements k + of_nat r \<and> ts_offsets c' = ts_offsets c \<and> ts_words c' = ts_words c \<and>
    (r = 0 \<longrightarrow> (\<forall>t \<in> set (concat L). IsToken t) \<longrightarrow> L' = L)"
proof (induction "weight (concat L)" arbitrary: c k L rule: less_induct)
  case less
  have "length (ipd_data (ts_pairs c)) + length (concat L) \<le> 119304646" using less.prems(4) by linarith
  from OneRound_ok [OF less.prems(1-3) this] obtain c1 k1 L1 r1 where
    R: "OneRound (c, k) = Inr (of_nat r1, c1, k1)" "held c1 pre L1 texts" "packable L1 (pk_strings k1)"
      "counted [] (pk_newPairs k1, pk_counts k1)" "weight (concat L1) + r1 \<le> weight (concat L)"
      "length (concat L1) = length (concat L)" "5 * length (ipd_data (ts_pairs c1)) \<le> 5 * length (ipd_data (ts_pairs c)) + 2 * r1"
      "pk_replacements k1 = pk_replacements k + of_nat r1" "ts_offsets c1 = ts_offsets c" "ts_words c1 = ts_words c"
      "r1 = 0 \<longrightarrow> (\<forall>t \<in> set (concat L). IsToken t) \<longrightarrow> L1 = L" by blast
  have "r1 \<le> 119304646" using R(5) weight_le [of "concat L"] less.prems(4) by linarith
  then have u: "unat (of_nat r1 :: index_t) = r1" by (simp add: unat_of_nat_small)
  show ?case
  proof (cases "r1 = 0")
    case True
    then show ?thesis using R by (intro exI [of _ c1] exI [of _ k1] exI [of _ L1] exI [of _ 0]) (simp add: all_rounds.simps [of "(c, k)"])
  next
    case False
    have pos: "(of_nat r1 :: index_t) > 0" using False u by (metis unat_0 word_gt_0)
    have w: "weight (concat L1) < weight (concat L)" using R(5) False by simp
    have b: "5 * length (ipd_data (ts_pairs c1)) + 2 * weight (concat L1) + 5 * length (concat L1) \<le> 5 * 119304646"
      using R(5,7) less.prems(4) unfolding R(6) by linarith
    have step: "all_rounds (c, k) = all_rounds (c1, k1)" using R(1) pos by (simp add: all_rounds.simps [of "(c, k)"])
    obtain c' k' L' r where "all_rounds (c1, k1) = Some (Inr (c', k'))" "held c' pre L' texts"
      "weight (concat L') + r \<le> weight (concat L1)" "length (concat L') = length (concat L1)"
      "5 * length (ipd_data (ts_pairs c')) \<le> 5 * length (ipd_data (ts_pairs c1)) + 2 * r"
      "pk_replacements k' = pk_replacements k1 + of_nat r" "ts_offsets c' = ts_offsets c1" "ts_words c' = ts_words c1"
      using less.hyps [OF w R(2-4) b] by blast
    then show ?thesis using R(5-10) False unfolding step by (intro exI [of _ c'] exI [of _ k'] exI [of _ L'] exI [of _ "r1 + r"]) simp
  qed
qed

lemma starts_Cons_tl: "starts n L = n # tl (starts n L)"
  by (cases L) auto

lemma long_strings_ok:
  "n + length (concat L) + 2 < 2 ^ 32 \<Longrightarrow> k + length L < 2 ^ 32 \<Longrightarrow>
   distinct (long_strings (of_nat k) (of_nat n) (map of_nat (tl (starts n L)))) \<and>
   (\<forall>i \<in> set (long_strings (of_nat k) (of_nat n) (map of_nat (tl (starts n L)))). k \<le> unat i \<and> unat i < k + length L \<and> 2 \<le> length (L ! (unat i - k)))"
proof (induction L arbitrary: k n)
  case (Cons l L)
  let ?rest = "long_strings (of_nat (Suc k)) (of_nat (n + length l)) (map of_nat (tl (starts (n + length l) L)))"
  have IH: "distinct ?rest \<and> (\<forall>i \<in> set ?rest. Suc k \<le> unat i \<and> unat i < Suc k + length L \<and> 2 \<le> length (L ! (unat i - Suc k)))"
    by (rule Cons.IH) (use Cons.prems in simp_all)
  have tls: "map of_nat (tl (starts n (l # L))) = (of_nat (n + length l) :: index_t) # map of_nat (tl (starts (n + length l) L))"
    using starts_Cons_tl [of "n + length l" L] by (metis list.map(2) list.sel(3) starts.simps(2))
  have e: "long_strings (of_nat k) (of_nat n) (map of_nat (tl (starts n (l # L)))) =
      (if (of_nat n + 2 :: index_t) \<le> of_nat (n + length l) then [of_nat k] else []) @ ?rest"
    using tls by (simp add: add.commute)
  have k: "unat (of_nat k :: index_t) = k" using Cons.prems(2) by (simp add: unat_of_nat_small)
  have b: "n + 2 < 2 ^ LENGTH(32)" "n + length l < 2 ^ LENGTH(32)" using Cons.prems(1) by simp_all
  have "(of_nat n + 2 :: index_t) = of_nat (n + 2)" by simp
  then have "(of_nat n + 2 :: index_t) \<le> of_nat (n + length l) \<longleftrightarrow> 2 \<le> length l"
    using unat_of_nat_small [OF b(1)] unat_of_nat_small [OF b(2)] by (simp only: word_le_nat_alt) simp
  moreover have "of_nat k \<notin> set ?rest" using IH k by fastforce
  moreover have "(l # L) ! (unat i - k) = L ! (unat i - Suc k)" "k \<le> unat i" "unat i < k + length (l # L)" "2 \<le> length (L ! (unat i - Suc k))"
    if "i \<in> set ?rest" for i
    using IH that by (auto simp: nth_Cons')
  ultimately show ?case unfolding e using IH k by auto
qed simp

text \<open>A string of two tokens or more starts in a token, unless a removed string was put behind an empty one.\<close>

definition leading :: "tokenized_strings \<Rightarrow> bool" where
  "leading c \<longleftrightarrow> (\<forall>i. i + 1 < length (ts_offsets c) \<longrightarrow> unat (ts_offsets c ! i) + 2 \<le> unat (ts_offsets c ! (i + 1)) \<longrightarrow>
     IsToken (ts_stringData c ! unat (ts_offsets c ! i)))"

lemma leading_layout:
  assumes l: "layout c pre L" and c: "leading c" and i: "i < length L" "2 \<le> length (L ! i)"
  shows "IsToken (hd (L ! i))"
proof -
  have o: "unat (ts_offsets c ! i) = length pre + length (concat (take i L))"
    "unat (ts_offsets c ! (i + 1)) = length pre + length (concat (take i L)) + length (L ! i)"
    using layout_offset [OF l, of i] layout_offset [OF l, of "i + 1"] i(1) by (simp_all add: take_Suc_conv_app_nth)
  have "length (ts_offsets c) = length L + 1" using l by (simp add: layout_def)
  moreover have "unat (ts_offsets c ! i) + 2 \<le> unat (ts_offsets c ! (i + 1))" using i(2) by (simp only: o)
  ultimately have "IsToken (ts_stringData c ! unat (ts_offsets c ! i))" using c i(1) by (simp add: leading_def)
  moreover have "ts_stringData c = (pre @ concat (take i L)) @ L ! i @ concat (drop (Suc i) L)"
    using l concat_split [OF i(1)] by (simp add: layout_def)
  moreover have "L ! i \<noteq> []" using i(2) by auto
  ultimately show ?thesis unfolding o(1) by (simp add: nth_append hd_conv_nth)
qed

lemma packer_init_ok:
  assumes h: "held c pre L texts" and c: "leading c" and len: "length (ts_stringData c) + 2 < 2 ^ 32" "length L < 2 ^ 32"
    "length (ipd_data (ts_pairs c)) \<le> 119304646"
  shows "\<exists>k. packer_init c = Inr k \<and> packable L (pk_strings k) \<and> counted [] (pk_newPairs k, pk_counts k) \<and> pk_replacements k = 0"
proof -
  have lay: "layout c pre L" using h by (simp add: held_def)
  have "unat (ipd_size (ts_pairs c)) \<le> 119304646" using len(3) by (simp add: ipd_size_def unat_of_nat_small)
  moreover have "ample (ipd_hashIndex ipd_init)" by (simp add: ipd_init_def)
  ultimately obtain p where p: "ipd_reserve (ipd_size (ts_pairs c)) ipd_init = Some p" "ipd_sound p" "ample (ipd_hashIndex p)" "ipd_data p = ipd_data ipd_init"
    using ipd_reserve_sound [OF ipd_sound_init] by blast
  have d: "ipd_data p = []" by (simp add: p(4) ipd_init_def)
  have cnt: "counted [] (p, [])" using p(2,3) d by (simp add: counted_def ipd_inv_def ipd_sound_def)
  have offs: "ts_offsets c = of_nat (length pre) # map of_nat (tl (starts (length pre) L))"
    using lay starts_Cons_tl [of "length pre" L] by (metis layout_def list.map(2))
  let ?is = "long_strings 0 (of_nat (length pre)) (map of_nat (tl (starts (length pre) L)))"
  have ls: "distinct ?is \<and> (\<forall>i \<in> set ?is. unat i < length L \<and> 2 \<le> length (L ! unat i))"
    using long_strings_ok [of "length pre" L 0] lay len(1,2) by (simp add: layout_def)
  then have "packable L ?is" using leading_layout [OF lay c] by (fastforce simp: packable_def)
  then show ?thesis using p(1) cnt by (simp add: packer_init_def offs)
qed

subsection \<open>Removing the padding\<close>

lemma compact_string:
  "\<exists>gap'. length gap' + length (takeWhile IsToken l) = length gap + length l \<and>
     compact_loop (out @ gap @ l @ R) os oi (length out + length gap + length l) (length out + length gap) (length out) =
     compact_loop ((out @ takeWhile IsToken l) @ gap' @ R) os oi (length out + length gap + length l) (length out + length gap + length l)
       (length (out @ takeWhile IsToken l))"
proof (induction l arbitrary: out gap)
  case Nil
  show ?case by (intro exI [of _ gap]) simp
next
  case (Cons t l)
  let ?d = "out @ gap @ (t # l) @ R" and ?pos = "length out + length gap + length (t # l)" and ?i = "length out + length gap"
  have at: "?d ! ?i = t" using nth_append_length [of "out @ gap" t "l @ R"] by simp
  note unf = compact_loop.simps [of ?d os oi ?pos ?i "length out"]
  show ?case
  proof (cases "IsToken t")
    case True
    define gap1 where "gap1 = (if gap = [] then [] else tl gap @ [t])"
    have u: "?d[length out := t] = (out @ [t]) @ gap1 @ l @ R" "length gap1 = length gap"
      by (cases gap; simp add: gap1_def list_update_append)+
    have "compact_loop ?d os oi ?pos ?i (length out) =
        compact_loop ((out @ [t]) @ gap1 @ l @ R) os oi (length (out @ [t]) + length gap1 + length l) (length (out @ [t]) + length gap1) (length (out @ [t]))"
      using True unfolding unf at u(1) by (simp add: u(2))
    moreover obtain gap' where "length gap' + length (takeWhile IsToken l) = length gap1 + length l"
      "compact_loop ((out @ [t]) @ gap1 @ l @ R) os oi (length (out @ [t]) + length gap1 + length l) (length (out @ [t]) + length gap1) (length (out @ [t])) =
       compact_loop (((out @ [t]) @ takeWhile IsToken l) @ gap' @ R) os oi (length (out @ [t]) + length gap1 + length l)
         (length (out @ [t]) + length gap1 + length l) (length ((out @ [t]) @ takeWhile IsToken l))"
      using Cons.IH [of gap1 "out @ [t]"] by blast
    ultimately show ?thesis using True u(2) by (intro exI [of _ gap']) simp
  next
    case False
    then show ?thesis unfolding unf at by (intro exI [of _ "gap @ t # l"]) simp
  qed
qed

lemma starts_empty: "concat L = [] \<Longrightarrow> starts n (map f L) = replicate (length L + 1) n" if "f [] = []"
  using that by (induction L) auto

lemma compact_strings:
  "length (out @ gap @ concat L) < 2 ^ 32 \<Longrightarrow> os = map of_nat (starts (length out + length gap) L) \<Longrightarrow>
   compact_loop (out @ gap @ concat L) (pre @ os) (length pre) (length out + length gap) (length out + length gap) (length out) =
   Some (Inr (out @ concat (map (takeWhile IsToken) L), pre @ map of_nat (starts (length out) (map (takeWhile IsToken) L))))"
proof (induction L arbitrary: out gap pre os)
  case Nil
  then show ?case by (simp add: compact_loop.simps [of _ _ _ "length out + length gap" "length out + length gap" "length out"])
next
  case (Cons l L)
  let ?d = "out @ gap @ concat (l # L)" and ?i = "length out + length gap" and ?tw = "takeWhile IsToken"
  note unf = compact_loop.simps [of ?d "pre @ os" "length pre" ?i ?i "length out"]
  have os: "os = of_nat ?i # map of_nat (starts (?i + length l) L)" using Cons.prems(2) by simp
  show ?case
  proof (cases "concat (l # L) = []")
    case True
    have "starts (length out) (map ?tw (l # L)) = replicate (length (l # L) + 1) (length out)" using True by (intro starts_empty) simp_all
    moreover have "concat (map ?tw (l # L)) = []" using True by (auto simp: concat_eq_Nil_conv)
    ultimately show ?thesis using True os by (subst unf) simp
  next
    case False
    let ?os = "map of_nat (starts (?i + length l) L) :: index_t list"
    have nx: "unat ((pre @ os) ! (length pre + 1)) = ?i + length l"
    proof -
      have "?i + length l < 2 ^ LENGTH(32)" using Cons.prems(1) by simp
      moreover have "?os ! 0 = of_nat (?i + length l)" by (subst starts_Cons_tl) simp
      moreover have "(pre @ os) ! (length pre + 1) = ?os ! 0" by (simp add: os nth_append)
      ultimately show ?thesis by (simp only: unat_of_nat_small)
    qed
    have ln: "length pre + 1 < length (pre @ os)" by (simp add: os)
    have up: "(pre @ os)[length pre := of_nat (length out)] = (pre @ [of_nat (length out)]) @ ?os" by (simp add: os list_update_append)
    have ne: "?i \<noteq> length ?d" using False by auto
    have step: "compact_loop ?d (pre @ os) (length pre) ?i ?i (length out) =
        compact_loop (out @ gap @ l @ concat L) ((pre @ [of_nat (length out)]) @ ?os) (length (pre @ [of_nat (length out)])) (?i + length l) ?i (length out)"
      by (subst unf) (use ne ln up nx in auto)
    obtain gap' where g: "length gap' + length (?tw l) = length gap + length l"
      "compact_loop (out @ gap @ l @ concat L) ((pre @ [of_nat (length out)]) @ ?os) (length (pre @ [of_nat (length out)])) (?i + length l) ?i (length out) =
       compact_loop ((out @ ?tw l) @ gap' @ concat L) ((pre @ [of_nat (length out)]) @ ?os) (length (pre @ [of_nat (length out)])) (?i + length l) (?i + length l)
         (length (out @ ?tw l))"
      using compact_string [of l gap out "concat L" "(pre @ [of_nat (length out)]) @ ?os" "length (pre @ [of_nat (length out)])"] by auto
    have pos: "?i + length l = length (out @ ?tw l) + length gap'" using g(1) by simp
    have "length ((out @ ?tw l) @ gap' @ concat L) < 2 ^ 32" using Cons.prems(1) g(1) by simp
    from Cons.IH [OF this, of ?os "pre @ [of_nat (length out)]"] show ?thesis unfolding step g(2) unfolding pos by simp
  qed
qed

lemma tokens_text_takeWhile: "list_all2 (tokens_text w p) (map (takeWhile IsToken) L) texts = list_all2 (tokens_text w p) L texts"
proof -
  have "takeWhile IsToken (takeWhile IsToken l) = takeWhile IsToken l" for l by (auto simp: takeWhile_eq_all_conv dest: set_takeWhileD)
  then show ?thesis by (simp add: list_all2_conv_all_nth tokens_text_def)
qed

lemma Compact_ok:
  assumes h: "held c pre L texts"
  shows "\<exists>c' pre' L'. Compact (c, k) = Some (Inr c') \<and> held c' pre' L' texts \<and> ts_pairs c' = ts_pairs c \<and> ts_words c' = ts_words c \<and>
    (if pk_replacements k = 0 then c' = c
     else length (ts_stringData c') \<le> weight (concat L) \<and> (\<forall>t \<in> set (ts_stringData c'). IsToken t))"
proof (cases "pk_replacements k = 0")
  case True
  then show ?thesis using h by (intro exI [of _ c] exI [of _ pre] exI [of _ L]) (simp add: Compact_def)
next
  case False
  have lay: "layout c pre L" using h by (simp add: held_def)
  let ?L = "map (takeWhile IsToken) L"
  have tp: "takeWhile IsToken pre = []" using lay by (cases pre) (auto simp: layout_def)
  obtain gap where gap: "length gap = length pre"
    "compact_loop (pre @ concat L) (ts_offsets c) 0 (length pre) 0 0 = compact_loop (gap @ concat L) (ts_offsets c) 0 (length pre) (length pre) 0"
    using compact_string [of pre "[]" "[]" "concat L" "ts_offsets c" 0] by (auto simp: tp)
  have "compact_loop (gap @ concat L) (ts_offsets c) 0 (length pre) (length pre) 0 = Some (Inr (concat ?L, map of_nat (starts 0 ?L)))"
    using compact_strings [of "[]" gap L "ts_offsets c" "[]"] lay gap(1) by (simp add: layout_def)
  moreover have "ts_stringData c = pre @ concat L" using lay by (simp add: layout_def)
  ultimately have cl: "compact_loop (ts_stringData c) (ts_offsets c) 0 (length pre) 0 0 = Some (Inr (concat ?L, map of_nat (starts 0 ?L)))"
    using gap(2) by simp
  obtain os where os: "ts_offsets c = of_nat (length pre) # os"
    using lay starts_Cons_tl [of "length pre" L] by (metis layout_def list.map(2))
  have u: "unat (of_nat (length pre) :: index_t) = length pre" using lay by (simp add: layout_def unat_of_nat_small)
  let ?c = "c\<lparr>ts_stringData := concat ?L, ts_offsets := map of_nat (starts 0 ?L)\<rparr>"
  have c': "Compact (c, k) = Some (Inr ?c)"
    using False cl by (simp add: Compact_def os u del: map_map)
  have "length (takeWhile IsToken l) \<le> weight l" for l by (induction l) auto
  then have lw: "length (concat ?L) \<le> weight (concat L)" by (induction L) (auto intro: add_mono)
  then have le: "length (concat ?L) \<le> length (concat L)" using weight_le [of "concat L"] by simp
  have sub: "set (concat ?L) \<subseteq> set (ts_stringData c)" using lay by (auto simp: layout_def dest: set_takeWhileD)
  have "layout ?c [] ?L" using lay le by (simp add: layout_def)
  moreover have "readable (ts_words c) (ts_pairs c) (concat ?L)" using h sub by (auto simp: held_def readable_def)
  ultimately have "held ?c [] ?L texts" using h by (simp add: held_def tokens_text_takeWhile)
  moreover have "\<forall>t \<in> set (concat ?L). IsToken t" by (auto dest: set_takeWhileD)
  ultimately show ?thesis using c' lw False
    by (intro exI [of _ ?c] exI [of _ "[]"] exI [of _ ?L]) (simp add: layout_def)
qed

subsection \<open>Renumbering keeps the texts\<close>

text \<open>Every pair of the container can be read, the ones that no text uses as well.\<close>

definition pairs_readable :: "string_dictionary \<Rightarrow> index_pair_dictionary \<Rightarrow> bool" where
  "pairs_readable w p \<longleftrightarrow> (\<forall>(a, b) \<in> set (ipd_data p). readable w p [a, b])"

definition marks :: "index_t list \<Rightarrow> bool list \<Rightarrow> bool" where
  "marks n v \<longleftrightarrow> distinct n \<and> (\<forall>t \<in> set n. \<not> IsDictionaryWord t \<and> unat t < length v) \<and>
     (\<forall>t. unat t < length v \<longrightarrow> (v ! unat t \<longleftrightarrow> t \<in> set n))"

lemma mark_ok:
  assumes m: "marks n v" and t: "IsDictionaryWord t \<or> unat t < length v"
  shows "\<exists>ext v'. mark t (n, v) = Inr (n @ ext, v') \<and> marks (n @ ext) v' \<and> length v' = length v \<and>
    set (n @ ext) = set n \<union> (if IsDictionaryWord t then {} else {t})"
proof (cases "IsDictionaryWord t \<or> v ! unat t")
  case True
  then show ?thesis using m t by (auto simp: mark_def marks_def intro!: exI [of _ "[]"])
next
  case False
  then have "marks (n @ [t]) (v[unat t := True])"
    using m t by (auto simp: marks_def nth_list_update word_unat_eq_iff [symmetric])
  then show ?thesis using False t by (auto simp: mark_def intro!: exI [of _ "[t]"])
qed

lemma mark_direct_ok:
  "marks n v \<Longrightarrow> \<forall>t \<in> set ts. IsDictionaryWord t \<or> unat t < length v \<Longrightarrow>
   \<exists>n' v'. mark_direct ts (n, v) = Inr (n', v') \<and> marks n' v' \<and> length v' = length v \<and>
     set n' = set n \<union> {t \<in> set ts. \<not> IsDictionaryWord t}"
proof (induction ts arbitrary: n v)
  case (Cons t ts)
  obtain ext v1 where m: "mark t (n, v) = Inr (n @ ext, v1)" "marks (n @ ext) v1" "length v1 = length v"
      "set (n @ ext) = set n \<union> (if IsDictionaryWord t then {} else {t})"
    using mark_ok [OF Cons.prems(1), of t] Cons.prems(2) by auto
  obtain n' v' where "mark_direct ts (n @ ext, v1) = Inr (n', v')" "marks n' v'" "length v' = length v1"
      "set n' = set (n @ ext) \<union> {t \<in> set ts. \<not> IsDictionaryWord t}"
    using Cons.IH [OF m(2)] Cons.prems(2) m(3) by auto
  then show ?case using m by auto
qed simp

text \<open>The members of a pair are words or pairs of the list.\<close>

definition closed_upto :: "index_pair list \<Rightarrow> nat \<Rightarrow> index_t list \<Rightarrow> bool" where
  "closed_upto ps i n \<longleftrightarrow> (\<forall>j < i. \<forall>u \<in> {fst (ps ! unat (n ! j)), snd (ps ! unat (n ! j))}. IsDictionaryWord u \<or> u \<in> set n)"

lemma closed_upto_append: "closed_upto ps i n \<Longrightarrow> i \<le> length n \<Longrightarrow> closed_upto ps i (n @ ext)"
  by (auto simp: closed_upto_def nth_append)

lemma expands_valid: "expands ws ps t x \<Longrightarrow> IsDictionaryWord t \<or> unat t < length ps"
  by (auto elim: expandsE)

lemma mark_indirect_ok:
  "marks n v \<Longrightarrow> length v = length (ipd_data p) \<Longrightarrow> \<forall>t \<in> set n. \<exists>x. expands ws (ipd_data p) t x \<Longrightarrow>
   closed_upto (ipd_data p) i n \<Longrightarrow> i \<le> length n \<Longrightarrow>
   \<exists>n' v'. mark_indirect p i n v = Inr n' \<and> marks n' v' \<and> length v' = length v \<and> set n \<subseteq> set n' \<and>
     closed_upto (ipd_data p) (length n') n' \<and> (\<forall>t \<in> set n'. \<exists>x. expands ws (ipd_data p) t x)"
proof (induction p i n v rule: mark_indirect.induct)
  case (1 p i n v)
  show ?case
  proof (cases "i < length n")
    case False
    then have "mark_indirect p i n v = Inr n" by (simp add: mark_indirect.simps [of p i n v])
    then show ?thesis using "1.prems" False by auto
  next
    case True
    let ?t = "n ! i"
    obtain x where x: "expands ws (ipd_data p) ?t x" using "1.prems"(3) True by (meson nth_mem)
    have t: "\<not> IsDictionaryWord ?t" "unat ?t < length (ipd_data p)" using "1.prems"(1,2) True by (auto simp: marks_def)
    obtain a b where ab: "ipd_data p ! unat ?t = (a, b)" by force
    then obtain y z where yz: "expands ws (ipd_data p) a y" "expands ws (ipd_data p) b z"
      using x t by (auto elim: expandsE)
    have at: "ipd_at p ?t = Some (a, b)" using t ab by (simp add: ipd_at_def)
    obtain e1 v1 where m1: "mark a (n, v) = Inr (n @ e1, v1)" "marks (n @ e1) v1" "length v1 = length v"
      "set (n @ e1) = set n \<union> (if IsDictionaryWord a then {} else {a})"
      using mark_ok [OF "1.prems"(1), of a] expands_valid [OF yz(1)] "1.prems"(2) by auto
    obtain e2 v2 where m2: "mark b (n @ e1, v1) = Inr ((n @ e1) @ e2, v2)" "marks ((n @ e1) @ e2) v2" "length v2 = length v1"
      "set ((n @ e1) @ e2) = set (n @ e1) \<union> (if IsDictionaryWord b then {} else {b})"
      using mark_ok [OF m1(2), of b] expands_valid [OF yz(2)] "1.prems"(2) m1(3) by auto
    let ?n = "(n @ e1) @ e2"
    have mem: "IsDictionaryWord a \<or> a \<in> set ?n" "IsDictionaryWord b \<or> b \<in> set ?n" using m1(4) m2(4) by auto
    have ex: "\<forall>t \<in> set ?n. \<exists>x. expands ws (ipd_data p) t x"
      unfolding m2(4) m1(4) using "1.prems"(3) yz by auto
    have "closed_upto (ipd_data p) i (n @ (e1 @ e2))" using "1.prems"(4,5) by (rule closed_upto_append)
    moreover have "?n ! i = ?t" using True by (simp add: nth_append)
    ultimately have cl: "closed_upto (ipd_data p) (i + 1) ?n" using mem ab by (auto simp: closed_upto_def less_Suc_eq)
    have step: "mark_indirect p i n v = mark_indirect p (i + 1) ?n v2"
      using True at m1(1) m2(1) by (simp add: mark_indirect.simps [of p i n v])
    have "bindE (mark (fst (a, b)) (n, v)) (mark (snd (a, b))) = Inr (?n, v2)" using m1(1) m2(1) by simp
    from "1.IH" [OF True at this refl m2(2) _ ex cl] obtain n' v' where
      "mark_indirect p (i + 1) ?n v2 = Inr n'" "marks n' v'" "length v' = length v2" "set ?n \<subseteq> set n'"
      "closed_upto (ipd_data p) (length n') n'" "\<forall>t \<in> set n'. \<exists>x. expands ws (ipd_data p) t x"
      using m1(3) m2(3) "1.prems"(2) True by auto
    then show ?thesis unfolding step using m1(3) m2(3) by auto
  qed
qed

lemma old_to_new_ok:
  assumes "distinct n" "\<forall>t \<in> set n. unat t < s" "j < length n"
  shows "old_to_new s n ! unat (n ! j) = of_nat j"
proof -
  let ?f = "\<lambda>i m. m[unat (n ! i) := of_nat i :: index_t]"
  have "length (fold ?f [0..<k] (replicate s 0)) = s \<and> (\<forall>j < k. fold ?f [0..<k] (replicate s 0) ! unat (n ! j) = of_nat j)"
    if "k \<le> length n" for k
    using that
  proof (induction k)
    case (Suc k)
    have neq: "unat (n ! j) \<noteq> unat (n ! k)" if "j < k" for j
      using that assms(1) Suc.prems by (simp add: word_unat_eq_iff [symmetric] nth_eq_iff_index_eq)
    have "unat (n ! k) < s" using assms(2) Suc.prems by simp
    then show ?case using Suc neq by (auto simp: less_Suc_eq nth_list_update) metis
  qed simp
  then show ?thesis using assms(3) by (simp add: old_to_new_def)
qed

lemma insert_renumbered_ok:
  "ipd_sound d \<Longrightarrow> ample (ipd_hashIndex d) \<Longrightarrow> \<forall>i \<in> set is. unat i < length (ipd_data p) \<Longrightarrow>
   length (ipd_data d) + length is \<le> 119304646 \<Longrightarrow>
   \<exists>d'. insert_renumbered p m is d = Inr d' \<and> ipd_sound d' \<and> ample (ipd_hashIndex d') \<and>
     ipd_data d' = ipd_data d @ map (\<lambda>i. map_prod (renumber m) (renumber m) (ipd_data p ! unat i)) is"
proof (induction "is" arbitrary: d)
  case (Cons i "is")
  obtain a b where ab: "ipd_data p ! unat i = (a, b)" by force
  obtain d1 where d1: "ipd_Insert (renumber m a, renumber m b) d = Some (of_nat (length (ipd_data d)), d1)" "ipd_sound d1"
      "ample (ipd_hashIndex d1)" "ipd_data d1 = ipd_data d @ [(renumber m a, renumber m b)]"
    using ipd_Insert_sound [OF Cons.prems(1,2)] Cons.prems(4) by fastforce
  then show ?case using Cons.IH [OF d1(2,3)] Cons.prems(3,4) ab by (simp add: ipd_at_def)
qed simp

lemma renumber_expands:
  assumes m: "\<And>j. j < length n \<Longrightarrow> renumber m (n ! j) = of_nat j" "length n \<le> 2 ^ 31" and cl: "closed_upto ps (length n) n"
  defines "ps' \<equiv> map (\<lambda>i. map_prod (renumber m) (renumber m) (ps ! unat i)) n"
  shows "expands ws ps t x \<Longrightarrow> IsDictionaryWord t \<or> t \<in> set n \<Longrightarrow> expands ws ps' (renumber m t) x"
proof (induction rule: expands.induct)
  case (expands_word t)
  then show ?case by (simp add: renumber_def expands.expands_word)
next
  case (expands_pair t a b x y)
  then obtain j where j: "j < length n" "n ! j = t" by (auto simp: in_set_conv_nth)
  have r: "renumber m t = of_nat j" using m(1) [OF j(1)] j(2) by simp
  have u: "unat (of_nat j :: index_t) = j" using j(1) m(2) by (simp add: unat_of_nat_small)
  have ab: "IsDictionaryWord a \<or> a \<in> set n" "IsDictionaryWord b \<or> b \<in> set n"
    using cl j expands_pair.hyps(3) by (force simp: closed_upto_def)+
  have "\<not> IsDictionaryWord (of_nat j)" using pair_token [of "of_nat j"] u j(1) m(2) by simp
  moreover have "ps' ! j = (renumber m a, renumber m b)" using j expands_pair.hyps(3) by (simp add: ps'_def)
  moreover have "expands ws ps' (renumber m a) x" "expands ws ps' (renumber m b) y" using expands_pair.IH ab by simp_all
  ultimately show ?case unfolding r using expands.expands_pair [of "of_nat j" ps' "renumber m a" "renumber m b" ws x y] j(1) u
    by (simp add: ps'_def)
qed

lemma OptimizePairs_ok:
  assumes h: "held c pre L texts" and len: "length (ipd_data (ts_pairs c)) \<le> 119304646"
  shows "\<exists>c' pre' L'. OptimizePairs c = Inr c' \<and> held c' pre' L' texts \<and> length (ipd_data (ts_pairs c')) \<le> length (ipd_data (ts_pairs c)) \<and>
    length (ts_stringData c') = length (ts_stringData c) \<and>
    (\<forall>i < length (ts_stringData c). IsToken (ts_stringData c' ! i) = IsToken (ts_stringData c ! i)) \<and> ts_words c' = ts_words c \<and>
    pairs_readable (ts_words c') (ts_pairs c')"
proof -
  let ?p = "ts_pairs c" and ?w = "ts_words c" and ?d = "ts_stringData c"
  let ?ps = "ipd_data ?p" and ?ws = "sd_strings ?w"
  let ?v = "replicate (length ?ps) False"
  have ok: "tokens_ok ?w ?p" and rd: "readable ?w ?p ?d" and lay: "layout c pre L" and tx: "list_all2 (tokens_text ?w ?p) L texts"
    using h by (simp_all add: held_def)
  have ex: "\<forall>t \<in> set ?d. \<exists>x. expands ?ws ?ps t x" using rd by (simp add: readable_def)
  then have vd: "\<forall>t \<in> set ?d. IsDictionaryWord t \<or> unat t < length ?v" by (auto dest: expands_valid)
  have "marks [] ?v" by (simp add: marks_def)
  from mark_direct_ok [OF this vd] obtain n1 v1 where n1: "mark_direct ?d ([], ?v) = Inr (n1, v1)" "marks n1 v1" "length v1 = length ?ps"
      "set n1 = {t \<in> set ?d. \<not> IsDictionaryWord t}" by auto
  have ex1: "\<forall>t \<in> set n1. \<exists>x. expands ?ws ?ps t x" using ex n1(4) by auto
  have cl: "closed_upto ?ps 0 n1" by (simp add: closed_upto_def)
  obtain n v where n: "mark_indirect ?p 0 n1 v1 = Inr n" "marks n v" "length v = length ?ps" "set n1 \<subseteq> set n"
      "closed_upto ?ps (length n) n" "\<forall>t \<in> set n. \<exists>x. expands ?ws ?ps t x"
    using mark_indirect_ok [OF n1(2,3) ex1 cl le0] unfolding n1(3) by blast
  have dn: "distinct n" "\<forall>t \<in> set n. \<not> IsDictionaryWord t \<and> unat t < length ?ps" using n(2,3) by (auto simp: marks_def)
  have "card (unat ` set n) \<le> card {0..<length ?ps}" using dn(2) by (intro card_mono) auto
  moreover have "card (unat ` set n) = length n" using dn(1) by (simp add: card_image inj_on_def word_unat_eq_iff distinct_card)
  ultimately have ln: "length n \<le> length ?ps" by simp
  define m where "m = old_to_new (length ?ps) n"
  have ren: "renumber m (n ! j) = of_nat j" if "j < length n" for j
    using old_to_new_ok [OF dn(1) _ that, of "length ?ps"] dn(2) nth_mem [OF that] by (simp add: renumber_def m_def)
  have "ample (ipd_hashIndex ipd_init)" by (simp add: ipd_init_def)
  moreover have "unat (of_nat (length n) :: index_t) \<le> 119304646" using ln len by (simp add: unat_of_nat_small)
  ultimately obtain t0 where t0: "ipd_reserve (of_nat (length n)) ipd_init = Some t0" "ipd_sound t0" "ample (ipd_hashIndex t0)" "ipd_data t0 = []"
    using ipd_reserve_sound [OF ipd_sound_init] by (auto simp: ipd_init_def)
  have "\<forall>t \<in> set n. unat t < length ?ps" "length (ipd_data t0) + length n \<le> 119304646" using dn(2) ln len t0(4) by simp_all
  from insert_renumbered_ok [OF t0(2,3) this, of m] obtain t where t: "insert_renumbered ?p m n t0 = Inr t" "ipd_sound t" "ample (ipd_hashIndex t)"
      "ipd_data t = map (\<lambda>i. map_prod (renumber m) (renumber m) (?ps ! unat i)) n" by (auto simp: t0(4))
  let ?c = "c\<lparr>ts_pairs := t, ts_stringData := map (renumber m) ?d\<rparr>"
  have opt: "OptimizePairs c = Inr ?c" using n1(1) n(1) t0(1) t(1) by (simp add: OptimizePairs_def m_def)
  have "length n \<le> 2 ^ 31" using ln len by simp
  note rex = renumber_expands [OF ren this n(5), where ws = ?ws, folded t(4)]
  have istok: "IsToken (renumber m u) = IsToken u" if u: "IsDictionaryWord u \<or> u \<in> set n" for u
  proof (cases "IsDictionaryWord u")
    case False
    then obtain j where j: "j < length n" "n ! j = u" using u by (auto simp: in_set_conv_nth)
    then have "renumber m u = of_nat j" "unat (of_nat j :: index_t) = j" using ren ln len by (auto simp: unat_of_nat_small)
    then show ?thesis using pair_token [of "of_nat j"] pair_token [of u] j(1) ln len dn(2) u False by auto
  qed (simp add: renumber_def)
  have du: "IsDictionaryWord u \<or> u \<in> set n" if "u \<in> set ?d" for u using that n1(4) n(4) by auto
  have "IsToken a \<and> IsToken b \<and> readable ?w t [a, b]" if ab: "(a, b) \<in> set (ipd_data t)" for a b
  proof -
    obtain i where i: "i \<in> set n" "(a, b) = map_prod (renumber m) (renumber m) (?ps ! unat i)" using ab by (auto simp: t(4))
    obtain a1 b1 where p: "?ps ! unat i = (a1, b1)" by force
    have "(a1, b1) \<in> set ?ps" using dn(2) i(1) p by (metis nth_mem)
    then have "IsToken a1" "IsToken b1" using ok by (auto simp: tokens_ok_def)
    moreover have "IsDictionaryWord a1 \<or> a1 \<in> set n" "IsDictionaryWord b1 \<or> b1 \<in> set n"
      using n(5) i(1) p by (force simp: closed_upto_def in_set_conv_nth)+
    moreover obtain x y where "expands ?ws ?ps a1 x" "expands ?ws ?ps b1 y"
      using n(6) i(1) p dn(2) by (metis expandsE fst_conv snd_conv)
    ultimately show ?thesis using istok rex i(2) p by (fastforce simp: readable_def)
  qed
  then have "\<forall>(a, b) \<in> set (ipd_data t). IsToken a \<and> IsToken b" and pr: "pairs_readable ?w t" by (auto simp: pairs_readable_def)
  moreover have "length (ipd_data t) \<le> 2 ^ 31" using t(4) ln len by simp
  ultimately have "tokens_ok ?w t" using ok t(2) by (simp add: tokens_ok_def)
  moreover have "readable ?w t (map (renumber m) ?d)" using ex rex du by (fastforce simp: readable_def)
  moreover have "layout ?c (map (renumber m) pre) (map (map (renumber m)) L)"
  proof -
    have d: "?d = pre @ concat L" using lay by (simp add: layout_def)
    have "starts k (map (map (renumber m)) L) = starts k L" for k by (rule starts_cong) simp
    moreover have "pre = [] \<or> \<not> IsToken (hd (map (renumber m) pre))"
      using lay istok [OF du] d by (cases pre) (auto simp: layout_def)
    moreover have "length (concat (map (map (renumber m)) L)) = length (concat L)" by (simp add: map_concat [symmetric])
    ultimately show ?thesis using lay by (simp add: layout_def map_concat)
  qed
  moreover have "list_all2 (tokens_text ?w t) (map (map (renumber m)) L) texts"
  proof -
    have exp: "expand_all ?ws ?ps us x \<Longrightarrow> set us \<subseteq> set ?d \<Longrightarrow> expand_all ?ws (ipd_data t) (map (renumber m) us) x" for us x
      using rex du by (induction us arbitrary: x) (auto, blast)
    have tw: "takeWhile IsToken (map (renumber m) us) = map (renumber m) (takeWhile IsToken us)" if "set us \<subseteq> set ?d" for us
      using that istok du by (induction us) auto
    have sub: "set (L ! i) \<subseteq> set ?d" if "i < length L" for i using lay that nth_mem [OF that] by (auto simp: layout_def)
    have sub': "set (takeWhile IsToken (L ! i)) \<subseteq> set ?d" if "i < length L" for i using sub [OF that] by (auto dest: set_takeWhileD)
    show ?thesis using tx exp sub' tw [OF sub] by (simp add: list_all2_conv_all_nth tokens_text_def)
  qed
  ultimately have "held ?c (map (renumber m) pre) (map (map (renumber m)) L) texts" using t(3) by (simp add: held_def)
  moreover have "\<forall>i < length ?d. IsToken (map (renumber m) ?d ! i) = IsToken (?d ! i)" using istok du by simp
  ultimately show ?thesis using opt t(4) ln pr
    by (intro exI [of _ ?c] exI [of _ "map (renumber m) pre"] exI [of _ "map (map (renumber m)) L"]) simp
qed

subsection \<open>Compression keeps the texts\<close>

text \<open>Room for the pairs that the rounds can find: each round pays for its new pairs with the tokens
  that it saves.\<close>

definition potential :: "tokenized_strings \<Rightarrow> nat" where
  "potential c = 5 * length (ipd_data (ts_pairs c)) + 2 * length (ts_stringData c)"

definition compress_room :: "tokenized_strings \<Rightarrow> bool" where
  "compress_room c \<longleftrightarrow> ample (ipd_hashIndex (ts_pairs c)) \<and> potential c \<le> 170435208"

definition packed :: "tokenized_strings \<Rightarrow> bool" where
  "packed c \<longleftrightarrow> (\<forall>t \<in> set (ts_stringData c). IsToken t)"

lemma packed_leading: "ts_holds c texts \<Longrightarrow> packed c \<Longrightarrow> leading c"
proof (unfold leading_def, intro allI impI)
  fix i assume h: "ts_holds c texts" "packed c" and i: "i + 1 < length (ts_offsets c)"
    "unat (ts_offsets c ! i) + 2 \<le> unat (ts_offsets c ! (i + 1))"
  obtain pre L where L: "layout c pre L" by (rule ts_holdsE [OF h(1)])
  have "i + 1 \<le> length L" using L i(1) by (simp add: layout_def)
  then have "unat (ts_offsets c ! (i + 1)) \<le> length (ts_stringData c)"
    using layout_offset [OF L, of "i + 1"] length_concat_take [of "i + 1" L] L by (simp add: layout_def)
  then show "IsToken (ts_stringData c ! unat (ts_offsets c ! i))" using h(2) i(2) by (simp add: packed_def)
qed

lemma Compress_ok:
  assumes h: "ts_holds c texts" and ld: "leading c" and room: "compress_room c" and len: "length texts < 2 ^ 32"
  shows "\<exists>c'. Compress c = Some (Inr c') \<and> ts_holds c' texts \<and> compress_room c' \<and> potential c' \<le> potential c \<and>
    length (ts_stringData c') \<le> length (ts_stringData c) \<and> ts_words c' = ts_words c \<and> (packed c \<longrightarrow> packed c') \<and>
    pairs_readable (ts_words c') (ts_pairs c')"
proof -
  obtain pre L where L: "layout c pre L" "list_all2 (tokens_text (ts_words c) (ts_pairs c)) L texts" "length L = length texts"
      "readable (ts_words c) (ts_pairs c) (ts_stringData c)" by (rule ts_holdsE [OF h])
  have h0: "held c pre L texts" using h L room by (simp add: held_def ts_holds_def compress_room_def)
  let ?n = "length (concat L)"
  have d: "ts_stringData c = pre @ concat L" using L(1) by (simp add: layout_def)
  have pot: "5 * length (ipd_data (ts_pairs c)) + 2 * length (ts_stringData c) \<le> 170435208"
    using room by (simp add: compress_room_def potential_def)
  then have n: "5 * length (ipd_data (ts_pairs c)) + 2 * weight (concat L) + 5 * ?n \<le> 5 * 119304646"
    using weight_le [of "concat L"] by (simp add: d)
  obtain k where k: "packer_init c = Inr k" "packable L (pk_strings k)" "counted [] (pk_newPairs k, pk_counts k)" "pk_replacements k = 0"
    using packer_init_ok [OF h0 ld] pot len L(3) by auto
  obtain c1 k1 L1 r where R: "all_rounds (c, k) = Some (Inr (c1, k1))" "held c1 pre L1 texts"
    "weight (concat L1) + r \<le> weight (concat L)" "length (concat L1) = ?n"
    "5 * length (ipd_data (ts_pairs c1)) \<le> 5 * length (ipd_data (ts_pairs c)) + 2 * r"
    "pk_replacements k1 = 0 + of_nat r" "ts_words c1 = ts_words c" "r = 0 \<longrightarrow> (\<forall>t \<in> set (concat L). IsToken t) \<longrightarrow> L1 = L"
    using all_rounds_ok [OF h0 k(2,3) n] unfolding k(4) by blast
  have r: "r < 2 ^ 32" using R(3) weight_le [of "concat L"] n by simp
  have d1: "ts_stringData c1 = pre @ concat L1" using R(2) by (simp add: held_def layout_def)
  obtain c2 pre2 L2 where C: "Compact (c1, k1) = Some (Inr c2)" "held c2 pre2 L2 texts" "ts_pairs c2 = ts_pairs c1" "ts_words c2 = ts_words c1"
    "if pk_replacements k1 = 0 then c2 = c1
     else length (ts_stringData c2) \<le> weight (concat L1) \<and> (\<forall>t \<in> set (ts_stringData c2). IsToken t)"
    using Compact_ok [OF R(2), of k1] by blast
  have z: "pk_replacements k1 = 0 \<longleftrightarrow> r = 0" unfolding R(6) using r unat_of_nat_small [of r, where ?'i = 32] by auto
  have p2: "5 * length (ipd_data (ts_pairs c2)) + 2 * length (ts_stringData c2) \<le> potential c \<and> length (ts_stringData c2) \<le> length (ts_stringData c)"
  proof (cases "r = 0")
    case True
    then show ?thesis using C(5) z R(4,5) d d1 by (simp add: potential_def)
  next
    case False
    then show ?thesis using C(3,5) z R(3,5) weight_le [of "concat L"] d by (simp add: potential_def)
  qed
  have pk2: "packed c2" if "packed c"
  proof (cases "r = 0")
    case True
    then show ?thesis using C(5) z R(8) d d1 that by (auto simp: packed_def)
  next
    case False
    then show ?thesis using C(5) z by (simp add: packed_def)
  qed
  have "length (ipd_data (ts_pairs c2)) \<le> 119304646" using p2 pot by (simp add: potential_def)
  from OptimizePairs_ok [OF C(2) this] obtain c' pre' L' where O: "OptimizePairs c2 = Inr c'" "held c' pre' L' texts"
    "length (ipd_data (ts_pairs c')) \<le> length (ipd_data (ts_pairs c2))" "length (ts_stringData c') = length (ts_stringData c2)"
    "\<forall>i < length (ts_stringData c2). IsToken (ts_stringData c' ! i) = IsToken (ts_stringData c2 ! i)" "ts_words c' = ts_words c2"
    "pairs_readable (ts_words c') (ts_pairs c')" by blast
  have "Compress c = Some (Inr c')" using k(1) R(1) C(1) O(1) by (simp add: Compress_def)
  moreover have "ts_holds c' texts" using O(2) by (auto simp: held_def ts_holds_def)
  moreover have p': "potential c' \<le> potential c" using p2 O(3,4) by (simp add: potential_def)
  moreover have "compress_room c'" using O(2) p' room by (simp add: compress_room_def held_def)
  moreover have "packed c'" if "packed c" using pk2 [OF that] O(4,5) by (simp add: packed_def all_set_conv_all_nth)
  ultimately show ?thesis using p2 O(4,6,7) C(4) R(7) by (intro exI [of _ c']) simp
qed

lemma AutoCompress_ok:
  assumes "ts_holds c texts" "leading c" "compress_room c" "length texts < 2 ^ 32"
  shows "\<exists>c'. AutoCompress c = Some (Inr c') \<and> ts_holds c' texts \<and> compress_room c' \<and> potential c' \<le> potential c \<and>
    length (ts_stringData c') \<le> length (ts_stringData c) \<and> ts_words c' = ts_words c \<and> (packed c \<longrightarrow> packed c') \<and>
    (pairs_readable (ts_words c) (ts_pairs c) \<longrightarrow> pairs_readable (ts_words c') (ts_pairs c'))"
  using Compress_ok [OF assms] assms by (auto simp: AutoCompress_def Let_def)

lemma Insert_packed:
  assumes "tokens_ok (ts_words c) (ts_pairs c)" "words_room (length s + k) (ts_words c)" "0 \<notin> set s"
    "length (ts_stringData c) + length s + 1 < 2 ^ 32" "ts_Insert outside s c = Some (Inr (i, c'))"
  shows "packed c \<longrightarrow> packed c'"
proof -
  obtain w D ws where "ts_Append outside s c = Some (Inr (c\<lparr>ts_words := w, ts_stringData := ts_stringData c @ D\<rparr>))"
    "\<forall>t \<in> set D. IsToken t" by (rule ts_Append_ok [OF assms(1-4)])
  then show ?thesis using assms(5) by (auto simp: ts_Insert_def packed_def)
qed

subsection \<open>The life of a container\<close>

text \<open>A cache is filled and saved again and again; saving compresses.\<close>

datatype ts_op = InsertString "byte list" | CompressStrings | SaveStrings

fun ts_step :: "(byte \<Rightarrow> bool) \<Rightarrow> ts_op \<Rightarrow> tokenized_strings \<Rightarrow> (container_error + tokenized_strings) option" where
  "ts_step outside (InsertString s) c = map_option (map_sum id snd) (ts_Insert outside s c)"
| "ts_step outside CompressStrings c = Compress c"
| "ts_step outside SaveStrings c = AutoCompress c"

fun ts_run :: "(byte \<Rightarrow> bool) \<Rightarrow> ts_op list \<Rightarrow> tokenized_strings \<Rightarrow> (container_error + tokenized_strings) option" where
  "ts_run outside [] c = Some (Inr c)"
| "ts_run outside (a # as) c =
     Option.bind (ts_step outside a c) (\<lambda>r. case r of Inl e \<Rightarrow> Some (Inl e) | Inr c \<Rightarrow> ts_run outside as c)"

definition inserted :: "ts_op list \<Rightarrow> byte list list" where
  "inserted as = concat (map (\<lambda>a. case a of InsertString s \<Rightarrow> [s] | _ \<Rightarrow> []) as)"

lemma inserted_simps [simp]: "inserted [] = []" "inserted (InsertString s # as) = s # inserted as"
    "inserted (CompressStrings # as) = inserted as" "inserted (SaveStrings # as) = inserted as"
  by (simp_all add: inserted_def)

lemma ts_run_ok:
  "ts_holds c texts \<Longrightarrow> packed c \<Longrightarrow> compress_room c \<Longrightarrow> words_room (total_length (inserted as) + k) (ts_words c) \<Longrightarrow>
   \<forall>s \<in> set (inserted as). 0 \<notin> set s \<Longrightarrow> potential c + 2 * total_length (inserted as) \<le> 170435208 \<Longrightarrow>
   length texts + length (inserted as) < 2 ^ 32 \<Longrightarrow>
   \<exists>c'. ts_run outside as c = Some (Inr c') \<and> ts_holds c' (texts @ inserted as) \<and> packed c' \<and> compress_room c' \<and> potential c' \<le> 170435208"
proof (induction as arbitrary: c texts)
  case Nil
  then show ?case by (simp add: total_length_def)
next
  case (Cons a as)
  have ld: "leading c" by (rule packed_leading [OF Cons.prems(1,2)])
  have tx: "length texts < 2 ^ 32" using Cons.prems(7) by simp
  show ?case
  proof (cases a)
    case (InsertString s)
    have room: "words_room (length s + (total_length (inserted as) + k)) (ts_words c)"
      using Cons.prems(4) by (simp add: InsertString total_length_def words_room_def)
    have z: "0 \<notin> set s" using Cons.prems(5) InsertString by simp
    have small: "length (ts_stringData c) + length s + 1 < 2 ^ 32"
      using Cons.prems(6) by (simp add: InsertString total_length_def potential_def)
    obtain c1 where c1: "ts_Insert outside s c = Some (Inr (of_nat (length texts), c1))" "ts_holds c1 (texts @ [s])"
        "words_room (total_length (inserted as) + k) (ts_words c1)" "length (ts_stringData c1) \<le> length (ts_stringData c) + length s + 1"
        "ts_pairs c1 = ts_pairs c"
      using ts_Insert_ok [OF Cons.prems(1) room z small, of outside] by blast
    have pk: "packed c1" using Insert_packed [OF ts_holds_tokens [OF Cons.prems(1)] room z small c1(1)] Cons.prems(2) by simp
    have pot: "potential c1 + 2 * total_length (inserted as) \<le> 170435208"
      using Cons.prems(6) c1(4,5) by (simp add: InsertString total_length_def potential_def)
    have cr: "compress_room c1" using Cons.prems(3) c1(5) pot by (simp add: compress_room_def)
    have "length (texts @ [s]) + length (inserted as) < 2 ^ 32" using Cons.prems(7) by (simp add: InsertString)
    from Cons.IH [OF c1(2) pk cr c1(3) _ pot this] show ?thesis using Cons.prems(5) c1(1) by (simp add: InsertString)
  next
    case CompressStrings
    obtain c1 where c1: "Compress c = Some (Inr c1)" "ts_holds c1 texts" "compress_room c1" "potential c1 \<le> potential c"
        "ts_words c1 = ts_words c" "packed c1"
      using Compress_ok [OF Cons.prems(1) ld Cons.prems(3) tx] Cons.prems(2) by blast
    show ?thesis using Cons.IH [OF c1(2,6,3)] Cons.prems(4-7) c1 by (simp add: CompressStrings)
  next
    case SaveStrings
    obtain c1 where c1: "AutoCompress c = Some (Inr c1)" "ts_holds c1 texts" "compress_room c1" "potential c1 \<le> potential c"
        "ts_words c1 = ts_words c" "packed c1"
      using AutoCompress_ok [OF Cons.prems(1) ld Cons.prems(3) tx] Cons.prems(2) by blast
    show ?thesis using Cons.IH [OF c1(2,6,3)] Cons.prems(4-7) c1 by (simp add: SaveStrings)
  qed
qed

lemma length_le_total_length: "length ss \<le> total_length ss"
  by (induction ss) (simp_all add: total_length_def)

subsection \<open>Properties\<close>

text \<open>
  C10.  A container that is filled, compressed and saved in any order never fails: every operation
  returns, and at the end each string reads back as it was inserted.
\<close>

theorem tokenized_strings_life:
  assumes "\<forall>s \<in> set (inserted as). 0 \<notin> set s" "total_length (inserted as) \<le> 85217604"
  shows "\<exists>c0 c. ts_init = Some c0 \<and> ts_run outside as c0 = Some (Inr c) \<and> ts_size c = of_nat (length (inserted as)) \<and>
    (\<forall>i < length (inserted as). ts_GetAt c (of_nat i) = Some (Inr (inserted as ! i)))"
proof -
  obtain c0 where c0: "ts_init = Some c0" "ts_holds c0 []" "words_room 119304645 (ts_words c0)" "ts_stringData c0 = []" "ts_pairs c0 = ipd_init"
    using ts_init_ok by blast
  have "packed c0" "compress_room c0" "potential c0 = 0"
    using c0(4,5) by (simp_all add: packed_def compress_room_def potential_def ipd_init_def)
  moreover have "words_room (total_length (inserted as) + 0) (ts_words c0)" using c0(3) assms(2) by (simp add: words_room_def)
  moreover have len: "length (inserted as) \<le> total_length (inserted as)" by (rule length_le_total_length)
  ultimately obtain c where c: "ts_run outside as c0 = Some (Inr c)" "ts_holds c (inserted as)"
    using ts_run_ok [OF c0(2), of "as" 0 outside] assms by auto
  have "ts_GetAt c (of_nat i) = Some (Inr (inserted as ! i))" if i: "i < length (inserted as)" for i
  proof -
    have "unat (of_nat i :: index_t) = i" using i len assms(2) by (simp add: unat_of_nat_small)
    then show ?thesis using ts_GetAt_ok [OF c(2), of "of_nat i"] i by simp
  qed
  moreover have "ts_size c = of_nat (length (inserted as))" using ts_holds_length [OF c(2)] by (simp add: ts_size_def)
  ultimately show ?thesis using c0(1) c(1) by blast
qed

theorem tokenized_strings_life_witness:
  "\<exists>c0 c. ts_init = Some c0 \<and>
    ts_run (\<lambda>_. False) [InsertString [97, 32, 98], CompressStrings, InsertString [97, 32], SaveStrings] c0 = Some (Inr c) \<and>
    ts_GetAt c 1 = Some (Inr [97, 32])"
proof -
  let ?as = "[InsertString [97, 32, 98], CompressStrings, InsertString [97, 32], SaveStrings]"
  have "\<forall>s \<in> set (inserted ?as). 0 \<notin> set s" "total_length (inserted ?as) \<le> 85217604" by (simp_all add: total_length_def)
  from tokenized_strings_life [OF this, of "\<lambda>_. False"] obtain c0 c where c: "ts_init = Some c0" "ts_run (\<lambda>_. False) ?as c0 = Some (Inr c)"
    "\<forall>i < length (inserted ?as). ts_GetAt c (of_nat i) = Some (Inr (inserted ?as ! i))" by blast
  from c(3) [rule_format, of 1] have "ts_GetAt c 1 = Some (Inr [97, 32])" by simp
  then show ?thesis using c(1,2) by blast
qed

text \<open>
  C11.  Compression ends, keeps every text and never adds tokens; two new pairs are paid for with five saved tokens.
\<close>

theorem compress_keeps_texts:
  assumes "ts_holds c texts" "leading c" "compress_room c" "length texts < 2 ^ 32"
  shows "\<exists>c'. Compress c = Some (Inr c') \<and> ts_holds c' texts \<and>
    (\<forall>i < length texts. ts_GetAt c' (of_nat i) = Some (Inr (texts ! i))) \<and>
    ts_CompressedWordCount c' \<le> ts_CompressedWordCount c \<and>
    5 * length (ipd_data (ts_pairs c')) + 2 * ts_CompressedWordCount c' \<le> 5 * length (ipd_data (ts_pairs c)) + 2 * ts_CompressedWordCount c"
proof -
  obtain c' where c': "Compress c = Some (Inr c')" "ts_holds c' texts" "potential c' \<le> potential c"
    "length (ts_stringData c') \<le> length (ts_stringData c)" using Compress_ok [OF assms] by blast
  have "ts_GetAt c' (of_nat i) = Some (Inr (texts ! i))" if i: "i < length texts" for i
  proof -
    have "unat (of_nat i :: index_t) = i" using i assms(4) by (simp add: unat_of_nat_small)
    then show ?thesis using ts_GetAt_ok [OF c'(2), of "of_nat i"] i by simp
  qed
  then show ?thesis using c' by (auto simp: ts_CompressedWordCount_def potential_def)
qed

theorem compress_keeps_texts_witness:
  "\<exists>c0 c c'. ts_init = Some c0 \<and> ts_run (\<lambda>_. False) [InsertString [97, 32, 98], InsertString [97]] c0 = Some (Inr c) \<and>
    Compress c = Some (Inr c') \<and> ts_GetAt c' 1 = Some (Inr [97])"
proof -
  let ?as = "[InsertString [97, 32, 98], InsertString [97]]"
  obtain c0 where c0: "ts_init = Some c0" "ts_holds c0 []" "words_room 119304645 (ts_words c0)" "ts_stringData c0 = []" "ts_pairs c0 = ipd_init"
    using ts_init_ok by blast
  have "packed c0" "compress_room c0" "potential c0 = 0"
    using c0(4,5) by (simp_all add: packed_def compress_room_def potential_def ipd_init_def)
  moreover have "words_room (total_length (inserted ?as) + 0) (ts_words c0)" using c0(3) by (simp add: words_room_def total_length_def)
  ultimately obtain c where c: "ts_run (\<lambda>_. False) ?as c0 = Some (Inr c)" "ts_holds c [[97, 32, 98], [97]]" "packed c" "compress_room c"
    using ts_run_ok [OF c0(2), of ?as 0 "\<lambda>_. False"] by (auto simp: total_length_def)
  have len: "length [[97, 32, 98], [97 :: byte]] < 2 ^ 32" by simp
  obtain c' where c': "Compress c = Some (Inr c')" "\<forall>i < 2. ts_GetAt c' (of_nat i) = Some (Inr ([[97, 32, 98], [97]] ! i))"
    using compress_keeps_texts [OF c(2) packed_leading [OF c(2,3)] c(4) len] by auto
  from c'(2) [rule_format, of 1] have "ts_GetAt c' 1 = Some (Inr [97])" by simp
  then show ?thesis using c0(1) c(1) c'(1) by blast
qed

end
