(* ===== verification/RevisionIndex.thy ===== *)
theory RevisionIndex
  imports QuickHash
begin

section \<open>CRevisionIndex (src/LogCache/Containers/RevisionIndex)\<close>

text \<open>
  Maps revisions to indexes.  Only the range of revisions from \<open>firstRevision\<close> on is stored; it
  grows at both ends, by at least its own length.  The lemmas relate the array to the partial
  map from revisions to indexes that \<open>operator[]\<close> shows.
\<close>

record revision_index =
  firstRevision :: revision_t
  indices :: "index_t list"

definition ri_init :: revision_index where
  "ri_init = \<lparr>firstRevision = 0, indices = []\<rparr>"

definition ri_GetFirstRevision :: "revision_index \<Rightarrow> revision_t" where
  "ri_GetFirstRevision r = firstRevision r"

definition ri_GetLastRevision :: "revision_index \<Rightarrow> revision_t" where
  "ri_GetLastRevision r = firstRevision r + of_nat (length (indices r))"

fun first_cached :: "index_t list \<Rightarrow> nat option" where
  "first_cached [] = None"
| "first_cached (i # is) = (if i \<noteq> NO_INDEX then Some 0 else map_option Suc (first_cached is))"

definition ri_GetFirstCachedRevision :: "revision_index \<Rightarrow> revision_t" where
  "ri_GetFirstCachedRevision r =
     (case first_cached (indices r) of Some i \<Rightarrow> firstRevision r + of_nat i | None \<Rightarrow> NO_REVISION)"

fun last_cached :: "index_t list \<Rightarrow> nat \<Rightarrow> nat option" where
  "last_cached is 0 = None"
| "last_cached is (Suc i) = (if is ! i \<noteq> NO_INDEX then Some (Suc i) else last_cached is i)"

definition ri_GetLastCachedRevision :: "revision_index \<Rightarrow> revision_t" where
  "ri_GetLastCachedRevision r =
     (case last_cached (indices r) (length (indices r)) of Some i \<Rightarrow> firstRevision r + of_nat i | None \<Rightarrow> NO_REVISION)"

function first_gap :: "index_t list \<Rightarrow> nat \<Rightarrow> nat option" where
  "first_gap is i =
     (if i < length is then if is ! i = NO_INDEX then Some i else first_gap is (Suc i) else None)"
  by pat_completeness auto
termination by (relation "measure (\<lambda>(is, i). length is - i)") auto

declare first_gap.simps [simp del]

definition ri_GetFirstMissingRevision :: "revision_index \<Rightarrow> revision_t \<Rightarrow> revision_t" where
  "ri_GetFirstMissingRevision r start =
     (if indices r = [] then start
      else if firstRevision r > start then start
      else case first_gap (indices r) (unat (start - firstRevision r)) of
             Some i \<Rightarrow> firstRevision r + of_nat i
           | None \<Rightarrow> firstRevision r + of_nat (length (indices r)))"

definition ri_at :: "revision_index \<Rightarrow> revision_t \<Rightarrow> index_t" where
  "ri_at r revision =
     (let revision = revision - firstRevision r
      in if unat revision < length (indices r) then indices r ! unat revision else NO_INDEX)"

text \<open>Growing at the lower end doubles the length where it can, and covers the new revision.\<close>

definition ri_grow_lower :: "revision_t \<Rightarrow> revision_index \<Rightarrow> revision_index" where
  "ri_grow_lower revision r =
     (let indexSize = of_nat (length (indices r));
          newFirstRevision = (if firstRevision r < indexSize then 0 else min (firstRevision r - indexSize) revision)
      in r\<lparr>indices := replicate (unat (firstRevision r - newFirstRevision)) NO_INDEX @ indices r,
           firstRevision := newFirstRevision\<rparr>)"

definition ri_grow_upper :: "revision_t \<Rightarrow> revision_index \<Rightarrow> revision_index" where
  "ri_grow_upper revision r =
     (let sz = of_nat (length (indices r))
      in if revision - firstRevision r \<ge> sz
         then let toAdd = max sz (revision + 1 - firstRevision r - sz)
              in r\<lparr>indices := indices r @ replicate (unat toAdd) NO_INDEX\<rparr>
         else r)"

definition ri_SetRevisionIndex :: "revision_t \<Rightarrow> index_t \<Rightarrow> revision_index \<Rightarrow> container_error + revision_index" where
  "ri_SetRevisionIndex revision index r =
     (if revision = NO_REVISION then Inl (CContainerException ''Invalid revision'')
      else if indices r = [] then Inr (r\<lparr>indices := [index], firstRevision := revision\<rparr>)
      else if revision = ri_GetLastRevision r then Inr (r\<lparr>indices := indices r @ [index]\<rparr>)
      else
        let r' = (if revision < firstRevision r then ri_grow_lower revision r else ri_grow_upper revision r);
            bucket = unat (revision - firstRevision r')
        in if bucket < length (indices r') then Inr (r'\<lparr>indices := (indices r')[bucket := index]\<rparr>) else Inl Undefined)"

definition ri_CanSetRevisionIndexThreadSafely :: "nat \<Rightarrow> revision_index \<Rightarrow> revision_t \<Rightarrow> bool" where
  "ri_CanSetRevisionIndexThreadSafely vector_capacity r revision \<longleftrightarrow>
     indices r \<noteq> [] \<and> \<not> revision < firstRevision r \<and> revision - firstRevision r < of_nat vector_capacity"

definition ri_Clear :: "revision_index \<Rightarrow> revision_index" where
  "ri_Clear r = r\<lparr>indices := [], firstRevision := 0\<rparr>"

subsection \<open>The map from revisions to indexes\<close>

definition ri_ok :: "revision_index \<Rightarrow> bool" where
  "ri_ok r \<longleftrightarrow> unat (firstRevision r) + length (indices r) < 2 ^ 32"

lemma ri_at_ok:
  assumes ok: "ri_ok r"
  shows "ri_at r v0 = (if unat (firstRevision r) \<le> unat v0 \<and> unat v0 < unat (firstRevision r) + length (indices r)
    then indices r ! (unat v0 - unat (firstRevision r)) else NO_INDEX)"
proof (cases "firstRevision r \<le> v0")
  case True
  then have "unat (v0 - firstRevision r) = unat v0 - unat (firstRevision r)" by (rule unat_sub)
  then show ?thesis using True by (auto simp: ri_at_def Let_def word_le_nat_alt)
next
  case False
  then have "unat (v0 - firstRevision r) = 2 ^ 32 - (unat (firstRevision r) - unat v0)"
    using unat_sub_if_size [of v0 "firstRevision r"] by (simp add: word_size word_le_nat_alt)
  then show ?thesis using False ok by (auto simp: ri_at_def ri_ok_def word_le_nat_alt Let_def)
qed

lemma ri_sub: "firstRevision r \<le> v0 \<Longrightarrow> unat (v0 - firstRevision r) = unat v0 - unat (firstRevision r)"
  by (rule unat_sub)

lemma read_lower:
  assumes "a \<le> v" "v < (f :: nat)"
  shows "(if a \<le> x \<and> x < a + (f - a + length is) then (replicate (f - a) z @ is)[v - a := i] ! (x - a) else z) =
    (if x = v then i else if f \<le> x \<and> x < f + length is then is ! (x - f) else z)"
proof -
  obtain b where f: "f = a + b" using assms by (metis le_add_diff_inverse less_imp_le order.trans)
  obtain c where v: "v = a + c" using assms by (metis le_add_diff_inverse)
  have cb: "c < b" using assms f v by simp
  show ?thesis
  proof (cases "a \<le> x")
    case True
    then obtain y where "x = a + y" by (metis le_add_diff_inverse)
    then show ?thesis using f v cb by (auto simp: nth_append nth_list_update)
  qed (use f v in auto)
qed

lemma read_upper:
  assumes "f + length is \<le> v" "v < f + length is + (k :: nat)"
  shows "(if f \<le> x \<and> x < f + (length is + k) then (is @ replicate k z)[v - f := i] ! (x - f) else z) =
    (if x = v then i else if f \<le> x \<and> x < f + length is then is ! (x - f) else z)"
proof -
  obtain c where v: "v = f + c" using assms by (metis add_leD1 le_add_diff_inverse)
  show ?thesis
  proof (cases "f \<le> x")
    case True
    then obtain y where "x = f + y" by (metis le_add_diff_inverse)
    then show ?thesis using v assms by (auto simp: nth_append nth_list_update)
  qed (use v in auto)
qed

lemma revision_bound:
  assumes "revision \<noteq> NO_REVISION"
  shows "unat revision + 1 < 2 ^ 32"
proof -
  have "unat revision \<noteq> unat NO_REVISION"
  proof
    assume "unat revision = unat NO_REVISION"
    then have "revision = NO_REVISION" by (rule unsigned_word_eqI)
    then show False using assms by simp
  qed
  then show ?thesis using unat_bound [of revision] unat_NO_INDEX [where 'i = 32] by simp
qed

lemma ri_grow_lower_ok:
  assumes ok: "ri_ok r" and less: "unat revision < unat (firstRevision r)"
  shows "\<exists>a. firstRevision (ri_grow_lower revision r) = a \<and> unat a \<le> unat revision \<and>
    indices (ri_grow_lower revision r) = replicate (unat (firstRevision r) - unat a) NO_INDEX @ indices r"
proof -
  define a where "a = (if firstRevision r < of_nat (length (indices r)) then 0
    else min (firstRevision r - of_nat (length (indices r))) revision)"
  have a: "a \<le> revision" by (auto simp: a_def min_def)
  then have "unat a \<le> unat revision" by (simp add: word_le_nat_alt)
  moreover from this have "unat (firstRevision r - a) = unat (firstRevision r) - unat a"
    using less by (intro unat_sub) (simp add: word_le_nat_alt)
  moreover have "ri_grow_lower revision r =
      r\<lparr>indices := replicate (unat (firstRevision r - a)) NO_INDEX @ indices r, firstRevision := a\<rparr>"
    by (simp add: ri_grow_lower_def a_def Let_def)
  ultimately show ?thesis by simp
qed

lemma ri_grow_upper_ok:
  assumes ok: "ri_ok r" and rev_ok: "revision \<noteq> NO_REVISION" and ge: "unat (firstRevision r) \<le> unat revision"
  shows "ri_grow_upper revision r = (if unat (firstRevision r) + length (indices r) \<le> unat revision
    then r\<lparr>indices := indices r @ replicate
        (max (length (indices r)) (unat revision + 1 - unat (firstRevision r) - length (indices r))) NO_INDEX\<rparr> else r)"
proof -
  let ?f = "unat (firstRevision r)" and ?n = "length (indices r)" and ?v = "unat revision"
  have n: "unat (of_nat ?n :: revision_t) = ?n" using ok by (intro unat_of_nat_small) (simp add: ri_ok_def)
  have sub: "unat (revision - firstRevision r) = ?v - ?f" using ge by (intro unat_sub) (simp add: word_le_nat_alt)
  show ?thesis
  proof (cases "?f + ?n \<le> ?v")
    case True
    have "unat (revision + 1) = ?v + 1" using revision_bound [OF rev_ok] by (simp add: unat_word_ariths)
    then have "unat (revision + 1 - firstRevision r) = ?v + 1 - ?f" using True by (subst unat_sub) (simp_all add: word_le_nat_alt)
    then have "unat (revision + 1 - firstRevision r - of_nat ?n) = ?v + 1 - ?f - ?n"
      using True n by (subst unat_sub) (simp_all add: word_le_nat_alt)
    then have "unat (max (of_nat ?n) (revision + 1 - firstRevision r - of_nat ?n)) = max ?n (?v + 1 - ?f - ?n)"
      using n by (auto simp: max_def word_le_nat_alt)
    moreover have "of_nat ?n \<le> revision - firstRevision r" using True n sub by (simp add: word_le_nat_alt)
    ultimately show ?thesis using True by (simp add: ri_grow_upper_def Let_def)
  next
    case False
    then have "\<not> of_nat ?n \<le> revision - firstRevision r" using ge n sub by (simp add: word_le_nat_alt)
    then show ?thesis using False by (simp add: ri_grow_upper_def Let_def)
  qed
qed

lemma ri_SetRevisionIndex_ok:
  assumes ok: "ri_ok r" and nr: "revision \<noteq> NO_REVISION" and room: "unat (firstRevision r) + 2 * length (indices r) < 2 ^ 32"
  shows "\<exists>r'. ri_SetRevisionIndex revision index r = Inr r' \<and> ri_ok r' \<and> ri_at r' = (ri_at r)(revision := index)"
proof -
  let ?f = "unat (firstRevision r)" and ?n = "length (indices r)" and ?v = "unat revision"
  note v = revision_bound [OF nr]
  have eq: "unat x = ?v \<longleftrightarrow> x = revision" for x by (auto intro: unsigned_word_eqI)
  have "\<exists>r'. ri_SetRevisionIndex revision index r = Inr r' \<and> ri_ok r' \<and>
    (\<forall>x. ri_at r' x = (if x = revision then index else ri_at r x))"
  proof -
    consider "indices r = []" | "indices r \<noteq> []" "revision = ri_GetLastRevision r"
      | "indices r \<noteq> []" "revision \<noteq> ri_GetLastRevision r" "?v < ?f"
      | "indices r \<noteq> []" "revision \<noteq> ri_GetLastRevision r" "?f \<le> ?v" by linarith
    then show ?thesis
    proof cases
      case 1
      let ?r = "r\<lparr>indices := [index], firstRevision := revision\<rparr>"
      have ok': "ri_ok ?r" using v by (simp add: ri_ok_def)
      have "(?v \<le> unat x \<and> unat x < ?v + 1) = (x = revision)" for x using eq [of x] by auto
      moreover have "ri_at r x = NO_INDEX" for x using 1 by (simp add: ri_at_def Let_def)
      ultimately show ?thesis using 1 nr ok' by (simp add: ri_SetRevisionIndex_def ri_at_ok [OF ok'])
    next
      case 2
      let ?r = "r\<lparr>indices := indices r @ [index]\<rparr>"
      have n: "unat (of_nat ?n :: revision_t) = ?n" using ok by (intro unat_of_nat_small) (simp add: ri_ok_def)
      have v2: "?v = ?f + ?n" using 2(2) n ok by (simp add: ri_GetLastRevision_def ri_ok_def unat_word_ariths)
      then have ok': "ri_ok ?r" using v by (simp add: ri_ok_def)
      have "ri_at ?r x = (if x = revision then index else ri_at r x)" for x
        using v2 eq [of x] by (auto simp: ri_at_ok [OF ok] ri_at_ok [OF ok'] nth_append)
      then show ?thesis using 2 nr ok' by (simp add: ri_SetRevisionIndex_def)
    next
      case 3
      obtain a where a: "firstRevision (ri_grow_lower revision r) = a" "unat a \<le> ?v"
        "indices (ri_grow_lower revision r) = replicate (?f - unat a) NO_INDEX @ indices r"
        using ri_grow_lower_ok [OF ok 3(3)] by blast
      have sub: "unat (revision - a) = ?v - unat a" using a(2) by (intro unat_sub) (simp add: word_le_nat_alt)
      let ?r = "(ri_grow_lower revision r)\<lparr>indices := (replicate (?f - unat a) NO_INDEX @ indices r)[?v - unat a := index]\<rparr>"
      have "ri_SetRevisionIndex revision index r = Inr ?r"
        using 3 nr a sub by (simp add: ri_SetRevisionIndex_def Let_def word_less_nat_alt)
      moreover have ok': "ri_ok ?r" using ok 3 a by (simp add: ri_ok_def)
      moreover have "ri_at ?r x = (if x = revision then index else ri_at r x)" for x
      proof -
        have "ri_at ?r x = (if unat a \<le> unat x \<and> unat x < unat a + (?f - unat a + ?n)
            then (replicate (?f - unat a) NO_INDEX @ indices r)[?v - unat a := index] ! (unat x - unat a) else NO_INDEX)"
          by (simp add: ri_at_ok [OF ok'] a(1))
        also note read_lower [OF a(2) 3(3)]
        finally show ?thesis by (simp only: eq ri_at_ok [OF ok])
      qed
      ultimately show ?thesis by blast
    next
      case 4
      have sub: "unat (revision - firstRevision r) = ?v - ?f" using 4 by (intro unat_sub) (simp add: word_le_nat_alt)
      note up = ri_grow_upper_ok [OF ok nr 4(3)]
      have nl: "\<not> revision < firstRevision r" using 4 by (simp add: word_less_nat_alt)
      show ?thesis
      proof (cases "?f + ?n \<le> ?v")
        case True
        define k where "k = max ?n (?v + 1 - ?f - ?n)"
        have k: "?v < ?f + ?n + k" using True unfolding k_def by linarith
        let ?r = "r\<lparr>indices := (indices r @ replicate k NO_INDEX)[?v - ?f := index]\<rparr>"
        have "ri_grow_upper revision r = r\<lparr>indices := indices r @ replicate k NO_INDEX\<rparr>" using up True by (simp add: k_def)
        moreover have "?v - ?f < ?n + k" using k True by simp
        ultimately have "ri_SetRevisionIndex revision index r = Inr ?r"
          using 4 nr sub nl by (simp add: ri_SetRevisionIndex_def Let_def)
        moreover have ok': "ri_ok ?r" using v room True by (simp add: ri_ok_def k_def max_def)
        moreover have "ri_at ?r x = (if x = revision then index else ri_at r x)" for x
        proof -
          have "ri_at ?r x = (if ?f \<le> unat x \<and> unat x < ?f + (?n + k)
              then (indices r @ replicate k NO_INDEX)[?v - ?f := index] ! (unat x - ?f) else NO_INDEX)"
            by (simp add: ri_at_ok [OF ok'])
          also note read_upper [OF True k]
          finally show ?thesis by (simp only: eq ri_at_ok [OF ok])
        qed
        ultimately show ?thesis by blast
      next
        case False
        let ?r = "r\<lparr>indices := (indices r)[?v - ?f := index]\<rparr>"
        have lt: "?v - ?f < ?n" using False 4 by simp
        have "ri_SetRevisionIndex revision index r = Inr ?r"
          using 4 nr sub nl lt up False by (simp add: ri_SetRevisionIndex_def Let_def)
        moreover have ok': "ri_ok ?r" using ok by (simp add: ri_ok_def)
        moreover have "ri_at ?r x = (if x = revision then index else ri_at r x)" for x
        proof -
          have "unat x - ?f = ?v - ?f \<longleftrightarrow> x = revision" if "?f \<le> unat x" using that 4(3) eq [of x] by auto
          then show ?thesis using lt 4(3) by (auto simp: ri_at_ok [OF ok] ri_at_ok [OF ok'] nth_list_update)
        qed
        ultimately show ?thesis by blast
      qed
    qed
  qed
  then show ?thesis by (auto simp: fun_eq_iff)
qed

lemma first_cached_Some:
  "first_cached is = Some i \<Longrightarrow> i < length is \<and> is ! i \<noteq> NO_INDEX \<and> (\<forall>j < i. is ! j = NO_INDEX)"
  by (induction "is" arbitrary: i) (auto split: if_splits simp: less_Suc_eq_0_disj nth_Cons split: nat.splits)

lemma first_cached_None: "first_cached is = None \<longleftrightarrow> set is \<subseteq> {NO_INDEX}"
  by (induction "is") auto

lemma last_cached_Some:
  "last_cached is n = Some i \<Longrightarrow> 0 < i \<and> i \<le> n \<and> is ! (i - 1) \<noteq> NO_INDEX \<and> (\<forall>j < n. i \<le> j \<longrightarrow> is ! j = NO_INDEX)"
  by (induction "is" n rule: last_cached.induct) (auto split: if_splits simp: less_Suc_eq)

lemma last_cached_None: "last_cached is n = None \<longleftrightarrow> (\<forall>j < n. is ! j = NO_INDEX)"
  by (induction "is" n rule: last_cached.induct) (auto simp: less_Suc_eq)

lemma first_gap_Some:
  "first_gap is i = Some k \<Longrightarrow> i \<le> k \<and> k < length is \<and> is ! k = NO_INDEX \<and> (\<forall>j. i \<le> j \<longrightarrow> j < k \<longrightarrow> is ! j \<noteq> NO_INDEX)"
proof (induction "is" i rule: first_gap.induct)
  case (1 "is" i)
  show ?case
  proof (cases "i < length is \<and> is ! i \<noteq> NO_INDEX")
    case True
    then have "first_gap is (Suc i) = Some k" using "1.prems" by (simp add: first_gap.simps [of "is" i])
    then have IH: "Suc i \<le> k" "k < length is" "is ! k = NO_INDEX" "\<forall>j. Suc i \<le> j \<longrightarrow> j < k \<longrightarrow> is ! j \<noteq> NO_INDEX"
      using "1.IH" True by auto
    have "is ! j \<noteq> NO_INDEX" if "i \<le> j" "j < k" for j using that IH(4) True by (cases "i = j") auto
    then show ?thesis using IH by auto
  next
    case False
    then show ?thesis using "1.prems" by (auto simp: first_gap.simps [of "is" i] split: if_splits)
  qed
qed

lemma first_gap_None:
  "first_gap is i = None \<Longrightarrow> i \<le> j \<Longrightarrow> j < length is \<Longrightarrow> is ! j \<noteq> NO_INDEX"
proof (induction "is" i rule: first_gap.induct)
  case (1 "is" i)
  have i: "i < length is" "is ! i \<noteq> NO_INDEX" "first_gap is (Suc i) = None"
    using "1.prems" by (auto simp: first_gap.simps [of "is" i] split: if_splits)
  show ?case
  proof (cases "i = j")
    case False
    then have "Suc i \<le> j" using "1.prems"(2) by simp
    then show ?thesis using "1.IH" [OF i] "1.prems"(3) by blast
  qed (use i in simp)
qed

lemma unat_shift:
  assumes "ri_ok r" "i \<le> length (indices r)"
  shows "unat (firstRevision r + of_nat i) = unat (firstRevision r) + i"
proof -
  have "unat (of_nat i :: revision_t) = i" using assms by (intro unat_of_nat_small) (simp add: ri_ok_def)
  then show ?thesis using assms by (subst unat_add_lem [THEN iffD1]) (simp_all add: ri_ok_def)
qed

subsection \<open>Properties\<close>

text \<open>
  C31.  Storing the index of a revision changes the map at this revision only, however the array has
  to grow for it, at the lower or at the upper end; it fails for \<open>NO_REVISION\<close> only.
\<close>

theorem revision_index_set:
  assumes "ri_ok r" "unat (firstRevision r) + 2 * length (indices r) < 2 ^ 32"
  shows "ri_SetRevisionIndex NO_REVISION index r = Inl (CContainerException ''Invalid revision'') \<and>
    (revision \<noteq> NO_REVISION \<longrightarrow>
      (\<exists>r'. ri_SetRevisionIndex revision index r = Inr r' \<and> ri_ok r' \<and> ri_at r' = (ri_at r)(revision := index)))"
  using ri_SetRevisionIndex_ok [OF assms(1) _ assms(2)] by (auto simp: ri_SetRevisionIndex_def)

theorem revision_index_set_witness:
  "\<exists>r. ri_SetRevisionIndex 7 1 \<lparr>firstRevision = 10, indices = [5, 6]\<rparr> = Inr r \<and> ri_at r 7 = 1 \<and> ri_at r 11 = 6 \<and> ri_at r 9 = NO_INDEX"
proof -
  have ok: "ri_ok \<lparr>firstRevision = 10, indices = [5, 6]\<rparr>" by (simp add: ri_ok_def)
  have ne: "(7 :: revision_t) \<noteq> NO_REVISION" by (simp add: NO_INDEX_def)
  have "ri_at \<lparr>firstRevision = 10, indices = [5, 6]\<rparr> 11 = 6 \<and> ri_at \<lparr>firstRevision = 10, indices = [5, 6]\<rparr> 9 = NO_INDEX"
    by (simp add: ri_at_ok [OF ok])
  then show ?thesis using revision_index_set [OF ok, of 1 7] ne by auto
qed

text \<open>
  The bounds of the cached revisions: no revision below the first one and none from the last
  one on has an index, the first one and the one before the last do, and both are
  \<open>NO_REVISION\<close> exactly when no revision has an index.
\<close>

lemma revision_index_cached_range:
  assumes ok: "ri_ok r"
  shows "if \<forall>x. ri_at r x = NO_INDEX
    then ri_GetFirstCachedRevision r = NO_REVISION \<and> ri_GetLastCachedRevision r = NO_REVISION
    else ri_at r (ri_GetFirstCachedRevision r) \<noteq> NO_INDEX \<and> ri_at r (ri_GetLastCachedRevision r - 1) \<noteq> NO_INDEX \<and>
      (\<forall>x. x < ri_GetFirstCachedRevision r \<or> ri_GetLastCachedRevision r \<le> x \<longrightarrow> ri_at r x = NO_INDEX)"
proof -
  let ?f = "unat (firstRevision r)" and ?is = "indices r"
  have at: "ri_at r (firstRevision r + of_nat i) = ?is ! i" if "i < length ?is" for i
    using that unat_shift [OF ok, of i] by (simp add: ri_at_ok [OF ok])
  show ?thesis
  proof (cases "\<forall>j < length ?is. ?is ! j = NO_INDEX")
    case True
    then have "\<forall>x. ri_at r x = NO_INDEX" by (simp add: ri_at_def Let_def)
    moreover have "first_cached ?is = None" using True by (auto simp: first_cached_None in_set_conv_nth)
    moreover have "last_cached ?is (length ?is) = None" using True by (simp add: last_cached_None)
    ultimately show ?thesis by (simp add: ri_GetFirstCachedRevision_def ri_GetLastCachedRevision_def)
  next
    case False
    then obtain i k where i: "first_cached ?is = Some i" and k: "last_cached ?is (length ?is) = Some k"
      by (metis first_cached_None last_cached_None insertI1 nth_mem option.exhaust singletonD subsetD)
    note I = first_cached_Some [OF i] and K = last_cached_Some [OF k]
    have fi: "ri_GetFirstCachedRevision r = firstRevision r + of_nat i" by (simp add: ri_GetFirstCachedRevision_def i)
    have la: "ri_GetLastCachedRevision r = firstRevision r + of_nat k" by (simp add: ri_GetLastCachedRevision_def k)
    obtain k' where k': "k = Suc k'" using K by (cases k) auto
    have "ri_GetLastCachedRevision r - 1 = firstRevision r + of_nat k'" by (simp add: la k')
    then have "ri_at r (ri_GetLastCachedRevision r - 1) \<noteq> NO_INDEX" using at [of k'] K k' by simp
    moreover have c: "ri_at r (ri_GetFirstCachedRevision r) \<noteq> NO_INDEX" using at I fi by simp
    moreover have "ri_at r x = NO_INDEX" if "x < ri_GetFirstCachedRevision r \<or> ri_GetLastCachedRevision r \<le> x" for x
      using that I K unat_shift [OF ok, of i] unat_shift [OF ok, of k]
      by (auto simp: ri_at_ok [OF ok] fi la word_less_nat_alt word_le_nat_alt)
    ultimately show ?thesis by auto
  qed
qed

lemma revision_index_cached_range_witness:
  "ri_at \<lparr>firstRevision = 10, indices = [5, 6]\<rparr> (ri_GetFirstCachedRevision \<lparr>firstRevision = 10, indices = [5, 6]\<rparr>) \<noteq> NO_INDEX"
proof -
  have ok: "ri_ok \<lparr>firstRevision = 10, indices = [5, 6]\<rparr>" by (simp add: ri_ok_def)
  have "ri_at \<lparr>firstRevision = 10, indices = [5, 6]\<rparr> 10 \<noteq> NO_INDEX" by (simp add: ri_at_ok [OF ok] NO_INDEX_def)
  then have ex: "\<not> (\<forall>x. ri_at \<lparr>firstRevision = 10, indices = [5, 6]\<rparr> x = NO_INDEX)" by blast
  show ?thesis using revision_index_cached_range [OF ok] unfolding if_not_P [OF ex] by blast
qed

text \<open>
  The first missing revision from a start inside the stored range, or below it, is the
  smallest revision from the start on that has no index.  A start beyond the end is answered with
  the end of the range, which is smaller.
\<close>

lemma revision_index_first_missing:
  assumes ok: "ri_ok r" and ne: "indices r \<noteq> []"
  shows "(start \<le> ri_GetLastRevision r \<longrightarrow>
      start \<le> ri_GetFirstMissingRevision r start \<and> ri_at r (ri_GetFirstMissingRevision r start) = NO_INDEX \<and>
      (\<forall>x. start \<le> x \<and> x < ri_GetFirstMissingRevision r start \<longrightarrow> ri_at r x \<noteq> NO_INDEX)) \<and>
    (ri_GetLastRevision r < start \<longrightarrow> ri_GetFirstMissingRevision r start = ri_GetLastRevision r)"
proof -
  let ?f = "unat (firstRevision r)" and ?is = "indices r"
  have la: "unat (ri_GetLastRevision r) = ?f + length ?is" using unat_shift [OF ok, of "length ?is"] by (simp add: ri_GetLastRevision_def)
  show ?thesis
  proof (cases "firstRevision r > start")
    case True
    then have "ri_GetFirstMissingRevision r start = start" using ne by (simp add: ri_GetFirstMissingRevision_def)
    moreover have "ri_at r start = NO_INDEX" using True by (simp add: ri_at_ok [OF ok] word_less_nat_alt)
    moreover have "\<not> ri_GetLastRevision r < start" using True la by (simp add: word_less_nat_alt)
    ultimately show ?thesis by auto
  next
    case False
    then have le: "?f \<le> unat start" by (simp add: word_less_nat_alt)
    then have sub: "unat (start - firstRevision r) = unat start - ?f" by (intro unat_sub) (simp add: word_le_nat_alt)
    show ?thesis
    proof (cases "first_gap ?is (unat start - ?f)")
      case None
      have m: "ri_GetFirstMissingRevision r start = ri_GetLastRevision r"
        using None False ne sub by (simp add: ri_GetFirstMissingRevision_def ri_GetLastRevision_def)
      have "ri_at r x \<noteq> NO_INDEX" if "start \<le> x" "x < ri_GetLastRevision r" for x
        using that first_gap_None [OF None, of "unat x - ?f"] le la
        by (auto simp: ri_at_ok [OF ok] word_less_nat_alt word_le_nat_alt)
      moreover have "ri_at r (ri_GetLastRevision r) = NO_INDEX" using la by (simp add: ri_at_ok [OF ok])
      ultimately show ?thesis using m by auto
    next
      case (Some k)
      note G = first_gap_Some [OF Some]
      have m: "ri_GetFirstMissingRevision r start = firstRevision r + of_nat k"
        using Some False ne sub by (simp add: ri_GetFirstMissingRevision_def)
      have u: "unat (firstRevision r + of_nat k) = ?f + k" using unat_shift [OF ok, of k] G by simp
      have "ri_at r x \<noteq> NO_INDEX" if "start \<le> x" "x < firstRevision r + of_nat k" for x
        using that G le u by (auto simp: ri_at_ok [OF ok] word_less_nat_alt word_le_nat_alt)
      moreover have "ri_at r (firstRevision r + of_nat k) = NO_INDEX" using u G by (simp add: ri_at_ok [OF ok])
      moreover have "start \<le> firstRevision r + of_nat k" using conjunct1 [OF G] u le by (simp add: word_le_nat_alt)
      moreover have "\<not> ri_GetLastRevision r < start" using conjunct1 [OF G] conjunct1 [OF conjunct2 [OF G]] la le
        by (simp add: word_less_nat_alt)
      ultimately show ?thesis using m by auto
    qed
  qed
qed

lemma revision_index_first_missing_witness:
  "ri_GetFirstMissingRevision \<lparr>firstRevision = 5, indices = [1]\<rparr> 10 = 6"
proof -
  have "ri_GetLastRevision \<lparr>firstRevision = 5, indices = [1]\<rparr> = 6" by (simp add: ri_GetLastRevision_def)
  then show ?thesis using revision_index_first_missing [of "\<lparr>firstRevision = 5, indices = [1]\<rparr>" 10] by (simp add: ri_ok_def)
qed
end
