(* ===== verification/ContainerStreams.thy ===== *)
theory ContainerStreams
  imports CacheFileReader TokenizedStringsPacker PathDictionary RevisionIndex
begin

section \<open>Containers in streams (the stream operators in src/LogCache/Containers)\<close>

text \<open>
  A container is written to the sub-streams of a stream it is given and read from them again.  What it writes
  is the list of the sub-streams with their blocks of data, in the order in which they are opened, as
  \<open>CacheFile\<close> describes it for a client; what it reads is such a list with the decoded data.  The lemmas show that
  reading gives the container back, and that this is so through a cache file.
\<close>

datatype load_error = StreamError stream_error | ContainerError container_error

definition of_stream :: "stream_error + 'a \<Rightarrow> load_error + 'a" where
  "of_stream = map_sum StreamError id"

definition of_container :: "container_error + 'a \<Rightarrow> load_error + 'a" where
  "of_container = map_sum ContainerError id"

lemma of_stream_simps [simp]: "of_stream (Inl e) = Inl (StreamError e)" "of_stream (Inr x) = Inr x"
  by (simp_all add: of_stream_def)

lemma of_container_simps [simp]: "of_container (Inl e) = Inl (ContainerError e)" "of_container (Inr x) = Inr x"
  by (simp_all add: of_container_def)

subsection \<open>Sub-streams\<close>

definition PACKED_INTEGER_STREAM_TYPE_ID :: dword where "PACKED_INTEGER_STREAM_TYPE_ID = 0x32"
definition DIFF_INTEGER_STREAM_TYPE_ID :: dword where "DIFF_INTEGER_STREAM_TYPE_ID = 0x33"
definition DIFF_DWORD_STREAM_TYPE_ID :: dword where "DIFF_DWORD_STREAM_TYPE_ID = 0x34"

definition sub_stream :: "dword \<Rightarrow> stream_doc list \<Rightarrow> load_error + stream_doc" where
  "sub_stream subStreamID docs =
     (case List.find (\<lambda>d. doc_id d = subStreamID) docs of
        None \<Rightarrow> Inl (StreamError (CStreamException ''no such sub-stream''))
      | Some d \<Rightarrow> Inr d)"

text \<open>\<open>GetSubStream<S>\<close>: the dynamic cast to the class of the stream; the result is the decoded data.\<close>

definition typed_stream :: "dword \<Rightarrow> dword \<Rightarrow> stream_doc list \<Rightarrow> load_error + byte list" where
  "typed_stream subStreamID type docs =
     bindE (sub_stream subStreamID docs) (\<lambda>d.
       if doc_type d = type then Inr (concat (doc_blocks d)) else Inl (StreamError (CStreamException ''stream type mismatch'')))"

definition bo_blocks :: "'a binary_out_scheme \<Rightarrow> byte list list" where
  "bo_blocks s = bo_chunks s @ [bo_current s]"

definition packed_doc :: "dword \<Rightarrow> dword \<Rightarrow> 'a binary_out_scheme \<Rightarrow> stream_doc" where
  "packed_doc subStreamID type s = Doc subStreamID type (bo_blocks s) []"

subsection \<open>The string pool\<close>

definition resize :: "nat \<Rightarrow> 'a \<Rightarrow> 'a list \<Rightarrow> 'a list" where
  "resize n x xs = take n xs @ replicate (n - length xs) x"

definition sd_write :: "string_dictionary \<Rightarrow> stream_doc list" where
  "sd_write d =
     [Doc 1 BLOB_STREAM_TYPE_ID [packedStrings d] [],
      packed_doc 2 DIFF_DWORD_STREAM_TYPE_ID (po_FlushLastValue (po_AddSizeValue (of_nat (length (offsets d))) diff_out_init))]"

text \<open>The address of the first character of an empty vector is undefined.\<close>

definition sd_read :: "stream_doc list \<Rightarrow> string_dictionary \<Rightarrow> load_error + string_dictionary" where
  "sd_read stream dictionary =
     bindE (typed_stream 1 BLOB_STREAM_TYPE_ID stream) (\<lambda>data.
     if (of_nat (length data) :: size_t) \<ge> ucast (NO_INDEX :: index_t)
     then Inl (ContainerError (CContainerException ''data stream to large''))
     else if data = [] then Inl (ContainerError Undefined)
     else
       bindE (typed_stream 2 DIFF_DWORD_STREAM_TYPE_ID stream) (\<lambda>bytes.
       bindE (of_stream (pi_GetSizeValue (diff_in_open bytes))) (\<lambda>(offsetCount, _).
         of_container (sd_RebuildIndexes (dictionary\<lparr>packedStrings := data,
           offsets := resize (unat offsetCount) 0 (offsets dictionary),
           sd_hashIndex := qh_assign (sd_hashIndex dictionary) quick_hash_init\<rparr>)))))"

subsection \<open>The pool of pairs\<close>

definition ipd_write :: "index_pair_dictionary \<Rightarrow> stream_doc list" where
  "ipd_write d =
     [packed_doc 1 DIFF_INTEGER_STREAM_TYPE_ID (po_FlushLastValue
        (fold (do_Add po_AddInteger) (of_nat (length (ipd_data d)) # map fst (ipd_data d)) diff_out_init)),
      packed_doc 2 DIFF_INTEGER_STREAM_TYPE_ID (po_FlushLastValue
        (fold (do_Add po_AddInteger) (map snd (ipd_data d)) diff_out_init))]"

definition ipd_read :: "stream_doc list \<Rightarrow> load_error + index_pair_dictionary" where
  "ipd_read stream =
     bindE (typed_stream 1 DIFF_INTEGER_STREAM_TYPE_ID stream) (\<lambda>bytes.
     bindE (of_stream (di_GetValue pi_GetInteger (diff_in_open bytes))) (\<lambda>(count, s).
     bindE (of_stream (read_values (di_GetValue pi_GetInteger) (unat count) s)) (\<lambda>(firsts, _).
     bindE (typed_stream 2 DIFF_INTEGER_STREAM_TYPE_ID stream) (\<lambda>bytes.
     bindE (of_stream (read_values (di_GetValue pi_GetInteger) (unat count) (diff_in_open bytes))) (\<lambda>(seconds, _).
       of_container (of_opt (ipd_rebuild (zip firsts seconds))))))))"

subsection \<open>The paths\<close>

definition pd_write :: "path_dictionary \<Rightarrow> stream_doc list" where
  "pd_write d =
     [Doc 1 COMPOSITE_STREAM_TYPE_ID [] (sd_write (pathElements d)), Doc 2 COMPOSITE_STREAM_TYPE_ID [] (ipd_write (paths d))]"

definition pd_read :: "stream_doc list \<Rightarrow> path_dictionary \<Rightarrow> load_error + path_dictionary" where
  "pd_read stream dictionary =
     bindE (sub_stream 1 stream) (\<lambda>elementsStream.
     bindE (sd_read (doc_subs elementsStream) (pathElements dictionary)) (\<lambda>elements.
     bindE (sub_stream 2 stream) (\<lambda>pathsStream.
     bindE (ipd_read (doc_subs pathsStream)) (\<lambda>p.
     let dictionary = dictionary\<lparr>pathElements := elements, paths := p\<rparr> in
     bindE (of_container (pd_Validate dictionary)) (\<lambda>_. Inr dictionary)))))"

subsection \<open>The revision index\<close>

definition ri_write :: "revision_index \<Rightarrow> stream_doc list" where
  "ri_write c =
     [packed_doc 1 DIFF_INTEGER_STREAM_TYPE_ID
        (write_vector po_AddSizeValue (do_Add po_AddInteger) po_FlushLastValue id (indices c)
           (po_AddSizeValue (ucast (firstRevision c)) diff_out_init))]"

definition ri_read :: "stream_doc list \<Rightarrow> revision_index \<Rightarrow> load_error + revision_index" where
  "ri_read stream c =
     bindE (typed_stream 1 DIFF_INTEGER_STREAM_TYPE_ID stream) (\<lambda>bytes.
     bindE (of_stream (pi_GetSizeValue (diff_in_open bytes))) (\<lambda>(first, s).
     bindE (of_stream (read_vector pi_GetSizeValue (di_GetValue pi_GetInteger) id s)) (\<lambda>(vs, _).
       Inr (c\<lparr>firstRevision := ucast first, indices := vs\<rparr>))))"

subsection \<open>The texts\<close>

text \<open>The container is compressed first; \<open>None\<close> is the result of a compression that does not return.\<close>

definition ts_docs :: "tokenized_strings \<Rightarrow> stream_doc list" where
  "ts_docs c =
     [Doc 1 COMPOSITE_STREAM_TYPE_ID [] (sd_write (ts_words c)), Doc 2 COMPOSITE_STREAM_TYPE_ID [] (ipd_write (ts_pairs c)),
      packed_doc 3 PACKED_INTEGER_STREAM_TYPE_ID
        (write_vector po_AddSizeValue po_AddInteger po_FlushLastValue id (ts_stringData c) packed_out_init),
      packed_doc 4 DIFF_DWORD_STREAM_TYPE_ID
        (write_vector po_AddSizeValue (do_Add po_Add) po_FlushLastValue id (ts_offsets c) diff_out_init)]"

definition ts_write :: "tokenized_strings \<Rightarrow> (container_error + stream_doc list \<times> tokenized_strings) option" where
  "ts_write c = map_option (map_sum id (\<lambda>c. (ts_docs c, c))) (AutoCompress c)"

definition ts_read :: "stream_doc list \<Rightarrow> tokenized_strings \<Rightarrow> load_error + tokenized_strings" where
  "ts_read stream c =
     bindE (sub_stream 1 stream) (\<lambda>wordsStream.
     bindE (sd_read (doc_subs wordsStream) (ts_words c)) (\<lambda>words.
     bindE (sub_stream 2 stream) (\<lambda>pairsStream.
     bindE (ipd_read (doc_subs pairsStream)) (\<lambda>pairs.
     bindE (typed_stream 3 PACKED_INTEGER_STREAM_TYPE_ID stream) (\<lambda>bytes.
     bindE (of_stream (read_vector pi_GetSizeValue pi_GetInteger id (packed_in_open bytes))) (\<lambda>(strings, _).
     bindE (typed_stream 4 DIFF_DWORD_STREAM_TYPE_ID stream) (\<lambda>bytes.
     bindE (of_stream (read_vector pi_GetSizeValue (di_GetValue pi_GetValue) id (diff_in_open bytes))) (\<lambda>(offs, _).
       of_container (ts_Validate (c\<lparr>ts_words := words, ts_pairs := pairs, ts_stringData := strings, ts_offsets := offs\<rparr>))))))))))"

subsection \<open>Blocks and sizes of value streams\<close>

text \<open>The blocks of a write stream fit into its buffer, and it holds at most \<open>n\<close> bytes.\<close>

definition sized :: "nat \<Rightarrow> 'a binary_out_scheme \<Rightarrow> bool" where
  "sized n s \<longleftrightarrow> (\<forall>c \<in> set (bo_chunks s). c \<noteq> [] \<and> length c \<le> CHUNK_SIZE) \<and> length (bo_current s) \<le> CHUNK_SIZE \<and>
     length (bo_bytes s) \<le> n"

lemma concat_bo_blocks [simp]: "concat (bo_blocks s) = bo_bytes s"
  by (simp add: bo_blocks_def bo_bytes_def)

lemma sized_fields [simp]:
  "sized n (s\<lparr>po_lastValue := x\<rparr>) = sized n s" "sized n (s\<lparr>po_count := y\<rparr>) = sized n s" "sized n (t\<lparr>do_lastValue := x\<rparr>) = sized n t"
  by (simp_all add: sized_def)

lemma sized_AddByte: "sized n s \<Longrightarrow> sized (n + 1) (bo_AddByte c s)"
  by (auto simp: sized_def bo_AddByte_def bo_Flush_def bo_bytes_def Let_def CHUNK_SIZE_def)

lemma dword_code_length: "unat v < 2 ^ (7 * k) \<Longrightarrow> 0 < k \<Longrightarrow> length (dword_code v) \<le> k"
proof (induction v arbitrary: k rule: dword_code.induct)
  case (1 v)
  show ?case
  proof (cases "v < 0x80")
    case True
    then show ?thesis using 1(3) by (subst dword_code.simps) simp
  next
    case False
    then have big: "128 \<le> unat v" by (simp add: word_less_nat_alt)
    then obtain m where m: "k = Suc m" "0 < m" using 1(2,3) by (cases k; cases "k - 1") auto
    have "unat (drop_bit 7 v) < 2 ^ (7 * m)" using 1(2) m by (simp add: unat_drop_bit_div less_mult_imp_div_less power_add mult.commute)
    then show ?thesis using 1(1) [OF False _ m(2)] False m(1) by (subst dword_code.simps) simp
  qed
qed

lemma dword_code_length5: "length (dword_code v) \<le> 5"
proof (rule dword_code_length)
  have "unat v < 2 ^ 32" using unat_bound [of v] by simp
  also have "(2 :: nat) ^ 32 \<le> 2 ^ (7 * 5)" by (intro power_increasing) simp_all
  finally show "unat v < 2 ^ (7 * 5)" .
qed simp

lemma sized_InternalAdd: "sized n s \<Longrightarrow> sized (n + 5) (po_InternalAdd v s)"
proof -
  have "sized m s \<Longrightarrow> sized (m + length (dword_code v)) (po_InternalAdd v s)" for m
  proof (induction v s arbitrary: m rule: po_InternalAdd.induct)
    case (1 v s)
    show ?case
    proof (cases "v < 0x80")
      case True
      then show ?thesis using sized_AddByte [OF 1(2)] by (subst po_InternalAdd.simps, subst dword_code.simps) simp
    next
      case False
      then show ?thesis using 1(1) [OF False sized_AddByte [OF 1(2)]]
        by (subst po_InternalAdd.simps, subst dword_code.simps) (simp add: add.commute)
    qed
  qed
  then show "sized n s \<Longrightarrow> sized (n + 5) (po_InternalAdd v s)" using dword_code_length5 [of v] by (fastforce simp: sized_def)
qed

lemma sized_mono: "sized n s \<Longrightarrow> n \<le> m \<Longrightarrow> sized m s"
  by (auto simp: sized_def)

lemma sized_Flush: "sized n s \<Longrightarrow> sized (n + 15) (po_FlushLastValue s)"
proof -
  assume s: "sized n s"
  have "sized (n + 5 + 5 + 5) (po_InternalAdd a (po_InternalAdd b (po_InternalAdd c s)))" for a b c
    by (intro sized_InternalAdd s)
  then show ?thesis using sized_mono [OF s, of "n + 15"] by (simp add: po_FlushLastValue_def add.assoc)
qed

lemma sized_Add: "sized n s \<Longrightarrow> sized (n + 15) (po_Add v s)"
proof -
  assume s: "sized n s"
  have "sized (n + 15) (po_InternalAdd a s)" for a using sized_mono [OF sized_InternalAdd [OF s]] by simp
  moreover have "sized (n + 15) (po_InternalAdd a (po_InternalAdd b s))" for a b
    using sized_mono [OF sized_InternalAdd [OF sized_InternalAdd [OF s]]] by simp
  ultimately show ?thesis using sized_mono [OF s, of "n + 15"] sized_Flush [OF s] by (simp add: po_Add_def Let_def)
qed

lemma sized_AddInteger: "sized n s \<Longrightarrow> sized (n + 15) (po_AddInteger v s)"
  unfolding po_AddInteger_def by (rule sized_Add)

lemma sized_do_Add: "(\<And>v n s. sized n s \<Longrightarrow> sized (n + 15) (base v s)) \<Longrightarrow> sized n s \<Longrightarrow> sized (n + 15) (do_Add base v s)"
  by (simp add: do_Add_def)

lemma sized_fold: "(\<And>v n s. sized n s \<Longrightarrow> sized (n + 15) (g v s)) \<Longrightarrow> sized n s \<Longrightarrow> sized (n + 15 * length vs) (fold g vs s)"
proof (induction vs arbitrary: n s)
  case (Cons v vs)
  have "sized (n + 15) (g v s)" by (rule Cons.prems(1) [OF Cons.prems(2)])
  from Cons.IH [OF Cons.prems(1) this] show ?case by (simp add: add.assoc)
qed simp

lemma sized_AddSizeValue: "sized n s \<Longrightarrow> sized (n + 15) (po_AddSizeValue v s)"
  unfolding po_AddSizeValue_def using sized_mono [OF sized_InternalAdd] by fastforce

lemma sized_init [simp]: "sized n packed_out_init" "sized n diff_out_init"
  by (simp_all add: sized_def packed_out_init_def diff_out_init_def bo_bytes_def CHUNK_SIZE_def)

lemma sized_vector:
  assumes "\<And>v n s. sized n s \<Longrightarrow> sized (n + 15) (add v s)" "sized n s"
  shows "sized (n + 30 + 15 * length vs) (write_vector po_AddSizeValue add po_FlushLastValue id vs s)"
proof -
  have "sized (n + 15 + 15 * length vs) (fold add vs (po_AddSizeValue (of_nat (length vs)) s))"
    by (rule sized_fold [OF assms(1) sized_AddSizeValue [OF assms(2)]])
  from sized_Flush [OF this] show ?thesis by (simp add: write_vector_def add.assoc add.left_commute)
qed

lemma sized_blocks: "sized n s \<Longrightarrow> length (bo_blocks s) \<le> n + 1 \<and> (\<forall>b \<in> set (bo_blocks s). length b \<le> CHUNK_SIZE)"
proof -
  assume s: "sized n s"
  have "length cs \<le> length (concat cs)" if "\<forall>c \<in> set cs. c \<noteq> []" for cs :: "byte list list"
    using that
  proof (induction cs)
    case (Cons c cs)
    then show ?case by (cases c) auto
  qed simp
  from this [of "bo_chunks s"] show ?thesis using s by (auto simp: sized_def bo_blocks_def bo_bytes_def)
qed

text \<open>A stream of up to \<open>2 ^ 24\<close> values fits into the format.\<close>

lemma packed_doc_ok:
  assumes "sized (15 * n + 60) s" "n < 2 ^ 24" "t \<in> {0x30, 0x31, 0x32, 0x33, 0x34, 0x35}"
  shows "doc_ok (packed_doc i t s)"
  using sized_blocks [OF assms(1)] assms
  by (auto simp: packed_doc_def sized_def stream_types_def BLOB_STREAM_TYPE_ID_def COMPOSITE_STREAM_TYPE_ID_def BINARY_STREAM_TYPE_ID_def)

subsection \<open>Values come back\<close>

lemma unat_ucast_size: "unat (n :: size_t) < 2 ^ 32 \<Longrightarrow> unat (ucast n :: dword) = unat n"
  by (simp add: unsigned_ucast_eq take_bit_nat_eq_self)

lemma size_value_back:
  assumes "unat n < 2 ^ 32"
  shows "\<exists>i. pi_GetSizeValue (diff_in_open (bo_bytes (po_FlushLastValue (po_AddSizeValue n diff_out_init)))) = Inr (n, i)"
proof -
  have f: "diff_fresh_out diff_out_init" "bo_bytes diff_out_init = []" by (simp_all add: diff_fresh_out_def diff_out_init_def bo_bytes_def)
  obtain hd where hd: "diff_writes integer_writes (po_AddSizeValue n diff_out_init) (bo_bytes diff_out_init @ hd) []"
      "\<And>i rest. diff_fresh i \<Longrightarrow> bi_current i = hd @ rest \<Longrightarrow> \<exists>i'. pi_GetSizeValue i = Inr (n, i') \<and> diff_fresh i' \<and> bi_current i' = rest"
    using diff_integers.size_ok [OF f(1) assms] by blast
  obtain bs where bs: "bo_bytes (po_FlushLastValue (po_AddSizeValue n diff_out_init)) = hd @ bs"
    using diff_integers.flush_ok [OF hd(1)] f(2) by auto
  show ?thesis unfolding bs using hd(2) [of "diff_in_open (hd @ bs)" bs] by (auto simp: diff_fresh_def diff_in_open_def)
qed

lemma diff_integer_values_back:
  assumes "length vs + 1 < 2 ^ 32" "\<forall>v \<in> set (diffs_from 0 vs). - 2147483647 < sint v"
  shows "\<exists>i. read_values (di_GetValue pi_GetInteger) (length vs)
      (diff_in_open (bo_bytes (po_FlushLastValue (fold (do_Add po_AddInteger) vs diff_out_init)))) = Inr (vs, i)"
proof -
  have w: "diff_writes integer_writes diff_out_init [] []"
    by (simp add: diff_writes_def integer_writes_def packed_writes_def diff_out_init_def bo_bytes_def coded_Nil)
  have st: "diff_integers.storable_all [] vs" using assms diff_integers_storable_all [of "[]" vs] by simp
  from diff_integers.values_roundtrip [OF w st] obtain bs where
      bs: "bo_bytes (po_FlushLastValue (fold (do_Add po_AddInteger) vs diff_out_init)) = bs"
      "\<forall>i rest. diff_fresh i \<longrightarrow> bi_current i = bs @ rest \<longrightarrow>
         (\<exists>i'. read_values (di_GetValue pi_GetInteger) (length vs) i = Inr (vs, i') \<and> bi_current i' = rest)" by auto
  show ?thesis unfolding bs(1) using bs(2) [rule_format, of "diff_in_open bs" "[]"] by (auto simp: diff_fresh_def diff_in_open_def)
qed

lemma integer_vector_back:
  assumes "length vs < 2 ^ 32" "\<forall>v \<in> set vs. \<bar>sint v\<bar> < 2 ^ 29"
  shows "\<exists>i. read_vector pi_GetSizeValue pi_GetInteger id (packed_in_open
      (bo_bytes (write_vector po_AddSizeValue po_AddInteger po_FlushLastValue id vs packed_out_init))) = Inr (vs, i)"
proof -
  have st: "integers.storable_all [] (map id vs)" using integer_storable_all [of "[]" vs] assms by fastforce
  have fresh: "packed_fresh packed_out_init" "bo_bytes packed_out_init = []" "\<And>bs. pi_count (packed_in_open bs) = 0"
    "\<And>bs. bi_current (packed_in_open bs) = bs"
    by (simp_all add: packed_fresh_def packed_out_init_def bo_bytes_def packed_in_open_def)
  from integers.vector_roundtrip [of packed_out_init id vs id, OF fresh(1) st assms(1)] fresh(2-) show ?thesis
    by (metis append_Nil append_Nil2 id_apply)
qed

lemma diff_dword_vector_back:
  assumes "length vs < 2 ^ 32" "- 1 \<notin> set (diffs_from 0 vs)"
  shows "\<exists>i. read_vector pi_GetSizeValue (di_GetValue pi_GetValue) id (diff_in_open
      (bo_bytes (write_vector po_AddSizeValue (do_Add po_Add) po_FlushLastValue id vs diff_out_init))) = Inr (vs, i)"
proof -
  have st: "diff_dwords.storable_all [] (map id vs)" using diff_dwords_storable_all [of "[]" vs] assms by simp
  have fresh: "diff_fresh_out diff_out_init" "bo_bytes diff_out_init = []" "\<And>bs. diff_fresh (diff_in_open bs)"
    "\<And>bs. bi_current (diff_in_open bs) = bs"
    by (simp_all add: diff_fresh_out_def diff_out_init_def bo_bytes_def diff_fresh_def diff_in_open_def)
  from diff_dwords.vector_roundtrip [of diff_out_init id vs id, OF fresh(1) st assms(1)] fresh(2-) show ?thesis
    by (metis append_Nil append_Nil2 id_apply)
qed

text \<open>Differences of numbers that are small as signed values are small.\<close>

lemma sint_sub:
  assumes "\<bar>sint (a :: dword)\<bar> < 2 ^ 29" "\<bar>sint (b :: dword)\<bar> < 2 ^ 29"
  shows "sint (a - b) = sint a - sint b"
proof -
  have "a - b = of_int (sint a - sint b)" by simp
  then have "sint (a - b) = sint (of_int (sint a - sint b) :: dword)" by (rule arg_cong)
  also have "\<dots> = signed_take_bit 31 (sint a - sint b)" by (simp only: signed_of_int) simp
  also have "\<dots> = sint a - sint b" using assms by (intro signed_take_bit_int_eq_self) auto
  finally show ?thesis .
qed

lemma sint_sub_small: "\<bar>sint (a :: dword)\<bar> < 2 ^ 29 \<Longrightarrow> \<bar>sint (b :: dword)\<bar> < 2 ^ 29 \<Longrightarrow> - 2147483647 < sint (a - b)"
  by (simp add: sint_sub)

lemma diffs_small:
  "\<bar>sint l\<bar> < 2 ^ 29 \<Longrightarrow> (\<forall>v \<in> set vs. \<bar>sint v\<bar> < 2 ^ 29) \<Longrightarrow> \<forall>v \<in> set (diffs_from l vs). - 2147483647 < sint v"
  by (induction vs arbitrary: l) (auto intro: sint_sub_small)

lemma sint_small: "unat (v :: dword) < 2 ^ 29 \<Longrightarrow> \<bar>sint v\<bar> < 2 ^ 29"
proof -
  assume v: "unat v < 2 ^ 29"
  have "int (unat v) < int (2 ^ 29)" using v by (rule of_nat_less_iff [THEN iffD2])
  then have "uint v < 2 ^ 29" by simp
  moreover have "sint v = uint v" using v by (simp add: sint_unat)
  ultimately show ?thesis by simp
qed

subsection \<open>The pools\<close>

lemma joined_packed_doc [simp]: "joined (packed_doc i t s) = Doc i t [bo_bytes s] []"
  by (simp add: packed_doc_def)

lemma sd_read_write:
  assumes d: "sd_inv d" and n: "length (sd_strings d) < 2 ^ 24" and p: "length (packedStrings d) < 2 ^ 28"
  shows "\<exists>d'. sd_read (map joined (sd_write d)) d0 = Inr d' \<and> sd_inv d' \<and> sd_strings d' = sd_strings d"
proof -
  note R = sd_inv_rep [OF d]
  have pk: "packedStrings d = packed_of (sd_strings d)" "\<forall>s \<in> set (sd_strings d). 0 \<notin> set s" using R(1) by (auto simp: sd_packs_def)
  have lo: "length (offsets d) = length (sd_strings d) + 1" using sd_packs_length [OF R(1)] by simp
  let ?n = "of_nat (length (offsets d)) :: size_t"
  have un: "unat ?n = length (sd_strings d) + 1" unfolding lo using n by (intro unat_of_nat_small) simp
  obtain i where i: "pi_GetSizeValue (diff_in_open (bo_bytes (po_FlushLastValue (po_AddSizeValue ?n diff_out_init)))) = Inr (?n, i)"
    using size_value_back [of ?n] un n by auto
  have ne: "packedStrings d \<noteq> []" using pk(1) R(3) by (cases "sd_strings d") auto
  have "unat (of_nat (length (packedStrings d)) :: size_t) = length (packedStrings d)" using p by (simp add: unat_of_nat_small)
  then have small: "\<not> (of_nat (length (packedStrings d)) :: size_t) \<ge> ucast (NO_INDEX :: index_t)"
    using p by (simp add: word_le_nat_alt unsigned_ucast_eq unat_NO_INDEX)
  let ?d = "d0\<lparr>packedStrings := packedStrings d, offsets := resize (unat ?n) 0 (offsets d0),
      sd_hashIndex := qh_assign (sd_hashIndex d0) quick_hash_init\<rparr>"
  have a: "qh_assign (sd_hashIndex d0) quick_hash_init = quick_hash_init" using qh_assign_ok index_rep_init by (auto simp: index_rep_def)
  have "\<exists>d'. sd_RebuildIndexes ?d = Inr d' \<and> sd_inv d' \<and> sd_strings d' = sd_strings d"
  proof (rule sd_RebuildIndexes_ok [where ks = "[]"])
    show "packedStrings ?d = packed_of (sd_strings d)" using pk(1) by simp
    show "length (offsets ?d) = length (sd_strings d) + 1" using un by (simp add: resize_def)
    show "length (packed_of (sd_strings d)) < 2 ^ 32" using p pk(1) by simp
    show "index_rep (\<lambda>s. sd_hash (Some s)) [] (sd_hashIndex ?d)" unfolding a by (simp add: index_rep_init)
    show "can_grow_by (length (sd_strings d)) (qh_clear (sd_hashIndex ?d))" unfolding a
      using n by (intro can_grow_clear_load) (simp_all add: a)
  qed (rule pk(2) R(2-4))+
  then show ?thesis using i small ne
    by (auto simp: sd_read_def sd_write_def typed_stream_def sub_stream_def packed_doc_def)
qed

lemma can_grow_new: "n \<le> 700000000 \<Longrightarrow> can_grow_by n (quick_hash_init :: 32 word quick_hash)"
  by (auto simp add: can_grow_by_def quick_hash_init_def create_data_def prime_grower_init_def statistics_t_init_def qh_simps
      primes_def reserve_target_def)

lemma ipd_read_write:
  assumes d: "ipd_sound d" and n: "length (ipd_data d) < 2 ^ 24"
    and small: "\<forall>(a, b) \<in> set (ipd_data d). \<bar>sint a\<bar> < 2 ^ 29 \<and> \<bar>sint b\<bar> < 2 ^ 29"
  shows "\<exists>d'. ipd_read (map joined (ipd_write d)) = Inr d' \<and> ipd_sound d' \<and> ipd_data d' = ipd_data d"
proof -
  let ?n = "of_nat (length (ipd_data d)) :: dword" and ?f = "map fst (ipd_data d)" and ?s = "map snd (ipd_data d)"
  have un: "unat ?n = length (ipd_data d)" using n by (simp add: unat_of_nat_small)
  have sn: "\<bar>sint ?n\<bar> < 2 ^ 29" using n by (intro sint_small) (simp add: un)
  have f: "\<forall>v \<in> set (?n # ?f). \<bar>sint v\<bar> < 2 ^ 29" and s: "\<forall>v \<in> set ?s. \<bar>sint v\<bar> < 2 ^ 29" using small sn by auto
  obtain i where i: "read_values (di_GetValue pi_GetInteger) (Suc (length (ipd_data d)))
      (diff_in_open (bo_bytes (po_FlushLastValue (fold (do_Add po_AddInteger) (?n # ?f) diff_out_init)))) = Inr (?n # ?f, i)"
    using diff_integer_values_back [of "?n # ?f"] diffs_small [OF _ f, of 0] n by auto
  obtain j where j: "read_values (di_GetValue pi_GetInteger) (length (ipd_data d))
      (diff_in_open (bo_bytes (po_FlushLastValue (fold (do_Add po_AddInteger) ?s diff_out_init)))) = Inr (?s, j)"
    using diff_integer_values_back [of ?s] diffs_small [OF _ s, of 0] n by auto
  obtain k where k: "di_GetValue pi_GetInteger (diff_in_open (bo_bytes (po_FlushLastValue
        (fold (do_Add po_AddInteger) (?n # ?f) diff_out_init)))) = Inr (?n, k)"
      "read_values (di_GetValue pi_GetInteger) (length (ipd_data d)) k = Inr (?f, i)" using i by auto
  have a: "qh_assign quick_hash_init quick_hash_init = (quick_hash_init :: 32 word quick_hash)"
    using qh_assign_ok index_rep_init by (auto simp: index_rep_def)
  obtain T where T: "insert_range (ipd_functor (ipd_data d)) (ipd_data d) 0 quick_hash_init = Some T" "index_rep ipd_hash (ipd_data d) T"
    using pairs.insert_all_keys [of quick_hash_init "ipd_data d" "ipd_data d"] index_rep_init [of ipd_hash] can_grow_new [of "length (ipd_data d)"] n by auto
  have z: "zip ?f ?s = ipd_data d" by (simp add: zip_map_fst_snd)
  have "ipd_rebuild (zip ?f ?s) = Some \<lparr>ipd_data = ipd_data d, ipd_hashIndex = T\<rparr>" unfolding z ipd_rebuild_def a using T(1) by simp
  then show ?thesis using k j un T(2)
    by (simp add: ipd_read_def ipd_write_def typed_stream_def sub_stream_def packed_doc_def ipd_sound_def)
qed

lemma sd_write_docs:
  assumes "length (packedStrings d) < 2 ^ 28"
  shows "\<forall>x \<in> set (sd_write d). doc_ok x" "distinct (map doc_id (sd_write d))" "length (sd_write d) = 2"
    "sum_list (map doc_count (sd_write d)) = 2"
proof -
  have "sized (15 * 1 + 60) (po_FlushLastValue (po_AddSizeValue (of_nat (length (offsets d))) diff_out_init))"
    using sized_mono [OF sized_Flush [OF sized_AddSizeValue [OF sized_init(2) [of 0]]]] by simp
  then have "doc_ok (packed_doc 2 DIFF_DWORD_STREAM_TYPE_ID (po_FlushLastValue (po_AddSizeValue (of_nat (length (offsets d))) diff_out_init)))"
    by (rule packed_doc_ok) (simp_all add: DIFF_DWORD_STREAM_TYPE_ID_def)
  then show "\<forall>x \<in> set (sd_write d). doc_ok x"
    using assms by (auto simp: sd_write_def stream_types_def BLOB_STREAM_TYPE_ID_def COMPOSITE_STREAM_TYPE_ID_def)
qed (simp_all add: sd_write_def packed_doc_def)

lemma ipd_write_docs:
  assumes n: "length (ipd_data d) < 2 ^ 24"
  shows "\<forall>x \<in> set (ipd_write d). doc_ok x" "distinct (map doc_id (ipd_write d))" "length (ipd_write d) = 2"
    "sum_list (map doc_count (ipd_write d)) = 2"
proof -
  have ok: "doc_ok (packed_doc i DIFF_INTEGER_STREAM_TYPE_ID (po_FlushLastValue (fold (do_Add po_AddInteger) vs diff_out_init)))"
    if "length vs \<le> length (ipd_data d) + 1" for i vs
  proof (rule packed_doc_ok [OF _ n])
    have "sized (0 + 15 * length vs + 15) (po_FlushLastValue (fold (do_Add po_AddInteger) vs diff_out_init))"
      by (intro sized_Flush sized_fold sized_do_Add sized_AddInteger sized_init)
    then show "sized (15 * length (ipd_data d) + 60) (po_FlushLastValue (fold (do_Add po_AddInteger) vs diff_out_init))"
      by (rule sized_mono) (use that in simp)
  qed (simp add: DIFF_INTEGER_STREAM_TYPE_ID_def)
  then show "\<forall>x \<in> set (ipd_write d). doc_ok x" unfolding ipd_write_def
    using ok [of "of_nat (length (ipd_data d)) # map fst (ipd_data d)" 1] ok [of "map snd (ipd_data d)" 2]
    by (simp only: set_simps ball_simps length_map list.size)
qed (simp_all add: ipd_write_def packed_doc_def)

lemma composite_ok:
  "\<forall>x \<in> set docs. doc_ok x \<Longrightarrow> distinct (map doc_id docs) \<Longrightarrow> length docs < 2 ^ 24 \<Longrightarrow> doc_ok (Doc i COMPOSITE_STREAM_TYPE_ID [] docs)"
  by (simp add: stream_types_def COMPOSITE_STREAM_TYPE_ID_def BLOB_STREAM_TYPE_ID_def)

subsection \<open>The paths\<close>

lemma pd_read_write:
  assumes d: "pd_inv d" and n: "length (sd_strings (pathElements d)) < 2 ^ 24" "length (packedStrings (pathElements d)) < 2 ^ 28"
    "length (ipd_data (paths d)) < 2 ^ 24"
  shows "\<exists>d'. pd_read (map joined (pd_write d)) d0 = Inr d' \<and> pd_inv d' \<and> pd_keys d' = pd_keys d \<and>
    sd_strings (pathElements d') = sd_strings (pathElements d)"
proof -
  have inv: "sd_inv (pathElements d)" "ipd_inv (paths d)" "tree_ok (pd_keys d)"
      "\<forall>entry \<in> set (ipd_data (paths d)). unat (snd entry) < length (sd_strings (pathElements d))"
    using d by (simp_all add: pd_inv_def)
  have fsts: "fst e = NO_INDEX \<or> unat (fst e) < length (ipd_data (paths d))" if e: "e \<in> set (ipd_data (paths d))" for e
  proof -
    obtain k where k: "k < length (ipd_data (paths d))" "e = ipd_data (paths d) ! k" using e by (auto simp: in_set_conv_nth)
    then have f: "fst (pd_keys d ! k) = fst e" by (simp add: pd_keys_def)
    show ?thesis
    proof (cases "k = 0")
      case True
      have "pd_keys d ! 0 = (NO_INDEX, [])" using inv(3) hd_conv_nth [of "pd_keys d"] by (simp add: tree_ok_def)
      then show ?thesis using f True by simp
    next
      case False
      then have "unat (fst e) < k" using inv(3) f k(1) by (auto simp: tree_ok_def pd_keys_def)
      then show ?thesis using k(1) by simp
    qed
  qed
  have "\<forall>(a, b) \<in> set (ipd_data (paths d)). \<bar>sint a\<bar> < 2 ^ 29 \<and> \<bar>sint b\<bar> < 2 ^ 29"
  proof (clarify)
    fix a b assume e: "(a, b) \<in> set (ipd_data (paths d))"
    have "\<bar>sint a\<bar> < 2 ^ 29"
    proof (cases "a = NO_INDEX")
      case True
      then show ?thesis by (simp add: NO_INDEX_def)
    next
      case False
      then have "unat a < length (ipd_data (paths d))" using fsts [OF e] by simp
      then show ?thesis using n(3) by (intro sint_small) simp
    qed
    moreover have "\<bar>sint b\<bar> < 2 ^ 29" using inv(4) e n(1) by (intro sint_small) fastforce
    ultimately show "\<bar>sint a\<bar> < 2 ^ 29 \<and> \<bar>sint b\<bar> < 2 ^ 29" ..
  qed
  from ipd_read_write [OF ipd_inv_sound [OF inv(2)] n(3) this] obtain p where
      p: "ipd_read (map joined (ipd_write (paths d))) = Inr p" "ipd_sound p" "ipd_data p = ipd_data (paths d)" by blast
  obtain e where e: "sd_read (map joined (sd_write (pathElements d))) (pathElements d0) = Inr e" "sd_inv e"
      "sd_strings e = sd_strings (pathElements d)" using sd_read_write [OF inv(1) n(1,2)] by blast
  let ?d = "d0\<lparr>pathElements := e, paths := p\<rparr>"
  have keys: "pd_keys ?d = pd_keys d" using e(3) p(3) by (simp add: pd_keys_def)
  have "ipd_inv p" using p(2,3) inv(2) by (simp add: ipd_inv_def ipd_sound_def)
  then have "pd_inv ?d" using e p(3) inv keys by (simp add: pd_inv_def)
  have sizes: "unat (ipd_size p) = length (ipd_data (paths d))" "unat (sd_size e) = length (sd_strings (pathElements d))"
    using p(3) n sd_size_eq [OF e(2)] e(3) by (simp_all add: ipd_size_def unat_of_nat_small)
  have "pd_Validate ?d = Inr ()"
    unfolding pd_Validate_def Let_def using fsts inv(4) p(3) sizes by (auto simp: word_le_nat_alt) fastforce+
  then show ?thesis using e(1,3) p(1) keys \<open>pd_inv ?d\<close>
    by (intro exI [of _ ?d]) (simp add: pd_read_def pd_write_def sub_stream_def)
qed

subsection \<open>The texts\<close>

lemma expands_small:
  assumes "expands ws ps t x" "length ws < 2 ^ 24" "length ps < 2 ^ 24"
  shows "\<bar>sint t\<bar> < 2 ^ 29"
  using assms(1)
proof (cases rule: expands.cases)
  case expands_word
  have i: "unat (GetWordIndex t) < 2 ^ 24" using expands_word assms(2) by simp
  have "int (unat (GetWordIndex t)) < int (2 ^ 24)" using i by (rule of_nat_less_iff [THEN iffD2])
  then have s: "\<bar>sint (GetWordIndex t)\<bar> < 2 ^ 28" using i by (simp add: sint_unat)
  have "t = - 1 - GetWordIndex t" by (simp add: GetWordIndex_def EMPTY_TOKEN_def NO_INDEX_def)
  then have "sint t = - 1 - sint (GetWordIndex t)" using sint_sub [of "- 1" "GetWordIndex t"] s by simp
  then show ?thesis using s by simp
next
  case (expands_pair a b y z)
  then show ?thesis using assms(3) by (intro sint_small) simp
qed

lemma expands_token_valid:
  assumes "expands (sd_strings (ts_words c)) (ipd_data (ts_pairs c)) t x" "sd_inv (ts_words c)"
    "length (sd_strings (ts_words c)) < 2 ^ 24" "length (ipd_data (ts_pairs c)) < 2 ^ 24"
  shows "IsValidTokenIndex c t"
proof -
  have "unat (sd_size (ts_words c)) = length (sd_strings (ts_words c))" "unat (ipd_size (ts_pairs c)) = length (ipd_data (ts_pairs c))"
    using sd_size_eq [OF assms(2)] assms(3,4) by (simp_all add: ipd_size_def unat_of_nat_small)
  then show ?thesis using assms(1) by (auto simp: IsValidTokenIndex_def word_less_nat_alt GetPairIndex_def elim: expandsE)
qed

lemma valid_starts:
  "n + length (concat L) \<le> N \<Longrightarrow> N < 2 ^ 32 \<Longrightarrow> unat l \<le> n \<Longrightarrow>
   \<exists>y. valid_offsets N (map of_nat (starts n L)) l = Some y \<and> unat y \<le> N"
proof (induction L arbitrary: n l)
  case (Cons x L)
  let ?m = "n + length x"
  have u: "unat (of_nat n :: index_t) = n" "unat (of_nat ?m :: index_t) = ?m"
    using Cons.prems(1,2) by (simp_all add: unat_of_nat_small del: of_nat_add)
  obtain os :: "index_t list" where os: "map of_nat (starts ?m L) = of_nat ?m # os"
    using starts_Cons_tl [of ?m L] by (metis list.map(2))
  have "N \<le> n \<Longrightarrow> length x = 0" using Cons.prems(1) by (simp del: length_0_conv)
  then have "\<not> (N \<le> n \<and> (of_nat n :: index_t) \<noteq> of_nat ?m)" by auto
  moreover have "\<not> (of_nat n :: index_t) < l" using Cons.prems(3) u(1) by (simp add: word_less_nat_alt)
  moreover obtain y where "valid_offsets N (map of_nat (starts ?m L)) (of_nat n) = Some y" "unat y \<le> N"
    using Cons.IH [of ?m "of_nat n"] Cons.prems(1,2) u(1) by auto
  ultimately show ?case using u(1) os by (simp del: of_nat_add)
qed (auto intro: le_trans)

lemma ts_Validate_ok:
  assumes h: "ts_holds c texts" and pr: "pairs_readable (ts_words c) (ts_pairs c)"
    and n: "length (sd_strings (ts_words c)) < 2 ^ 24" "length (ipd_data (ts_pairs c)) < 2 ^ 24"
  shows "ts_Validate c = Inr c"
proof -
  obtain pre L where L: "layout c pre L" "readable (ts_words c) (ts_pairs c) (ts_stringData c)" by (rule ts_holdsE [OF h])
  have w: "sd_inv (ts_words c)" using ts_holds_tokens [OF h] by (simp add: tokens_ok_def)
  note valid = expands_token_valid [OF _ w n]
  have "\<forall>t \<in> set (ts_stringData c). IsValidTokenIndex c t" using L(2) valid by (auto simp: readable_def)
  moreover have "\<forall>p \<in> set (ipd_data (ts_pairs c)). IsValidTokenIndex c (fst p) \<and> IsValidTokenIndex c (snd p)"
    using pr valid by (fastforce simp: pairs_readable_def readable_def)
  moreover obtain y where "valid_offsets (length (ts_stringData c)) (ts_offsets c) 0 = Some y" "unat y \<le> length (ts_stringData c)"
    using valid_starts [of "length pre" L "length (ts_stringData c)" 0] L(1) by (auto simp: layout_def)
  ultimately show ?thesis by (simp add: ts_Validate_def)
qed

lemma diffs_starts: "m \<le> n \<Longrightarrow> diffs_from (of_nat m) (map of_nat (starts n L)) = of_nat (n - m) # map (of_nat \<circ> length) L"
proof (induction n L arbitrary: m rule: starts.induct)
  case (2 n l L)
  show ?case using "2.IH" [of n] "2.prems" by (simp add: of_nat_diff)
qed (simp add: of_nat_diff)

lemma ts_read_write:
  assumes h: "ts_holds c texts" and pr: "pairs_readable (ts_words c) (ts_pairs c)"
    and n: "length (sd_strings (ts_words c)) < 2 ^ 24" "length (packedStrings (ts_words c)) < 2 ^ 28"
      "length (ipd_data (ts_pairs c)) < 2 ^ 24" "length (ts_stringData c) < 2 ^ 24" "length texts < 2 ^ 24"
  shows "\<exists>c'. ts_read (map joined (ts_docs c)) c0 = Inr c' \<and> ts_holds c' texts"
proof -
  have ok: "sd_inv (ts_words c)" "ipd_sound (ts_pairs c)" using ts_holds_tokens [OF h] by (simp_all add: tokens_ok_def)
  obtain pre L where L: "layout c pre L" "length L = length texts" "readable (ts_words c) (ts_pairs c) (ts_stringData c)"
    by (rule ts_holdsE [OF h])
  note small = expands_small [OF _ n(1,3)]
  obtain w where w: "sd_read (map joined (sd_write (ts_words c))) (ts_words c0) = Inr w" "sd_inv w" "sd_strings w = sd_strings (ts_words c)"
    using sd_read_write [OF ok(1) n(1,2)] by blast
  have "\<forall>(a, b) \<in> set (ipd_data (ts_pairs c)). \<bar>sint a\<bar> < 2 ^ 29 \<and> \<bar>sint b\<bar> < 2 ^ 29"
    using pr small by (fastforce simp: pairs_readable_def readable_def)
  then obtain p where p: "ipd_read (map joined (ipd_write (ts_pairs c))) = Inr p" "ipd_sound p" "ipd_data p = ipd_data (ts_pairs c)"
    using ipd_read_write [OF ok(2) n(3)] by blast
  obtain i where i: "read_vector pi_GetSizeValue pi_GetInteger id (packed_in_open (bo_bytes
      (write_vector po_AddSizeValue po_AddInteger po_FlushLastValue id (ts_stringData c) packed_out_init))) = Inr (ts_stringData c, i)"
    using integer_vector_back [of "ts_stringData c"] L(3) small n(4) by (fastforce simp: readable_def)
  have "diffs_from 0 (ts_offsets c) = of_nat (length pre) # map (of_nat \<circ> length) L"
    using diffs_starts [of 0 "length pre" L] L(1) by (simp add: layout_def)
  moreover have "of_nat k \<noteq> (- 1 :: dword)" if "k \<le> length (ts_stringData c)" for k
  proof
    assume "of_nat k = (- 1 :: dword)"
    then have "unat (of_nat k :: dword) = unat (- 1 :: dword)" by (rule arg_cong)
    then show False using that n(4) unat_NO_INDEX [where 'i = 32] by (simp add: unat_of_nat_small NO_INDEX_def)
  qed
  moreover have "length l \<le> length (ts_stringData c)" if "l \<in> set L" for l
    using L(1) member_le_sum_list [of "length l" "map length L"] that by (simp add: layout_def length_concat)
  moreover have "length pre \<le> length (ts_stringData c)" using L(1) by (simp add: layout_def)
  ultimately have "- 1 \<notin> set (diffs_from 0 (ts_offsets c))" by (auto simp: eq_commute [of "- 1"])
  moreover have "length (ts_offsets c) < 2 ^ 32" using L(1,2) n(5) by (simp add: layout_def)
  ultimately obtain j where j: "read_vector pi_GetSizeValue (di_GetValue pi_GetValue) id (diff_in_open (bo_bytes
      (write_vector po_AddSizeValue (do_Add po_Add) po_FlushLastValue id (ts_offsets c) diff_out_init))) = Inr (ts_offsets c, j)"
    using diff_dword_vector_back by blast
  let ?c = "c0\<lparr>ts_words := w, ts_pairs := p, ts_stringData := ts_stringData c, ts_offsets := ts_offsets c\<rparr>"
  have "tokens_text w p = tokens_text (ts_words c) (ts_pairs c)" using w(3) p(3) by (intro ext) (simp add: tokens_text_def)
  then have h': "ts_holds ?c texts" using h w(2,3) p(2,3) by (simp add: ts_holds_def tokens_ok_def readable_def layout_def)
  have "pairs_readable (ts_words ?c) (ts_pairs ?c)" using pr w(3) p(3) by (simp add: pairs_readable_def readable_def)
  then have "ts_Validate ?c = Inr ?c" using ts_Validate_ok [OF h'] w(3) p(3) n by simp
  then show ?thesis using h' w(1) p(1) i j
    by (intro exI [of _ ?c]) (simp add: ts_read_def ts_docs_def sub_stream_def typed_stream_def packed_doc_def)
qed

lemma ts_docs_ok:
  assumes n: "length (packedStrings (ts_words c)) < 2 ^ 28"
      "length (ipd_data (ts_pairs c)) < 2 ^ 24" "length (ts_stringData c) < 2 ^ 24" "length (ts_offsets c) < 2 ^ 24"
  shows "docs_ok (ts_docs c)"
proof -
  have S: "sized (0 + 15 + 15 * length (ts_stringData c) + 15)
      (write_vector po_AddSizeValue po_AddInteger po_FlushLastValue id (ts_stringData c) packed_out_init)"
    unfolding write_vector_def list.map_id0 id_apply by (intro sized_Flush sized_fold sized_AddInteger sized_AddSizeValue sized_init)
  then have "doc_ok (packed_doc 3 PACKED_INTEGER_STREAM_TYPE_ID
      (write_vector po_AddSizeValue po_AddInteger po_FlushLastValue id (ts_stringData c) packed_out_init))"
    by (intro packed_doc_ok [OF sized_mono [OF S] n(3)]) (simp_all add: PACKED_INTEGER_STREAM_TYPE_ID_def)
  moreover have S2: "sized (0 + 15 + 15 * length (ts_offsets c) + 15)
      (write_vector po_AddSizeValue (do_Add po_Add) po_FlushLastValue id (ts_offsets c) diff_out_init)"
    unfolding write_vector_def list.map_id0 id_apply by (intro sized_Flush sized_fold sized_do_Add sized_Add sized_AddSizeValue sized_init)
  then have "doc_ok (packed_doc 4 DIFF_DWORD_STREAM_TYPE_ID
      (write_vector po_AddSizeValue (do_Add po_Add) po_FlushLastValue id (ts_offsets c) diff_out_init))"
    by (intro packed_doc_ok [OF sized_mono [OF S2] n(4)]) (simp_all add: DIFF_DWORD_STREAM_TYPE_ID_def)
  ultimately show ?thesis
    using composite_ok [OF sd_write_docs(1,2) [OF n(1)]] composite_ok [OF ipd_write_docs(1,2) [OF n(2)]] sd_write_docs(3,4) [OF n(1)]
      ipd_write_docs(3,4) [OF n(2)]
    by (simp add: docs_ok_def ts_docs_def packed_doc_def del: doc_ok.simps)
qed

subsection \<open>The revision index\<close>

lemma coded_NilD: "PackedStreams.coded bs [] \<Longrightarrow> bs = []"
  by (cases bs "[] :: dword list" rule: PackedStreams.coded.cases) (auto simp: unat_eq_0)

lemma ri_read_write:
  assumes n: "length (indices c) < 2 ^ 24" and v: "\<forall>i \<in> set (indices c). \<bar>sint i\<bar> < 2 ^ 29"
  shows "ri_read (map joined (ri_write c)) c0 = Inr c"
proof -
  let ?s = "po_AddSizeValue (ucast (firstRevision c)) diff_out_init"
  have f: "diff_fresh_out diff_out_init" "bo_bytes diff_out_init = []" by (simp_all add: diff_fresh_out_def diff_out_init_def bo_bytes_def)
  have u: "unat (ucast (firstRevision c) :: size_t) = unat (firstRevision c)"
    using unat_bound [of "firstRevision c"] by (simp add: unsigned_ucast_eq take_bit_nat_eq_self)
  have small: "unat (ucast (firstRevision c) :: size_t) < 2 ^ 32" unfolding u using unat_bound [of "firstRevision c"] by simp
  obtain hd where hd: "diff_writes integer_writes ?s hd []"
      "\<And>i rest. diff_fresh i \<Longrightarrow> bi_current i = hd @ rest \<Longrightarrow>
        \<exists>i'. pi_GetSizeValue i = Inr (ucast (firstRevision c), i') \<and> diff_fresh i' \<and> bi_current i' = rest"
    using diff_integers.size_ok [OF f(1) small] f(2) by auto
  have hb: "bo_bytes ?s = hd" using hd(1) by (auto simp: diff_writes_def integer_writes_def packed_writes_def dest: coded_NilD)
  have fs: "diff_fresh_out ?s" using f(1) by (simp add: diff_fresh_out_def po_AddSizeValue_def po_fields_InternalAdd do_lastValue_InternalAdd)
  have st: "diff_integers.storable_all [] (map id (indices c))"
    using diff_integers_storable_all [of "[]" "indices c"] diffs_small [of 0, OF _ v] n by simp
  have n': "length (indices c) < 2 ^ 32" using n by simp
  obtain bs where bs: "bo_bytes (write_vector po_AddSizeValue (do_Add po_AddInteger) po_FlushLastValue id (indices c) ?s) = hd @ bs"
      "\<And>i rest. diff_fresh i \<Longrightarrow> bi_current i = bs @ rest \<Longrightarrow>
        \<exists>i'. read_vector pi_GetSizeValue (di_GetValue pi_GetInteger) id i = Inr (indices c, i') \<and> bi_current i' = rest"
    using diff_integers.vector_roundtrip [OF fs st n', of id] unfolding hb by auto
  obtain i where i: "pi_GetSizeValue (diff_in_open (hd @ bs)) = Inr (ucast (firstRevision c), i)" "diff_fresh i" "bi_current i = bs"
    using hd(2) [of "diff_in_open (hd @ bs)" bs] by (auto simp: diff_fresh_def diff_in_open_def)
  obtain j where "read_vector pi_GetSizeValue (di_GetValue pi_GetInteger) id i = Inr (indices c, j)" using bs(2) [of i "[]"] i by auto
  moreover have "ucast (ucast (firstRevision c) :: size_t) = firstRevision c"
    using unat_ucast_size [OF small] u by (simp only: word_unat_eq_iff)
  ultimately show ?thesis using i(1)
    by (simp add: ri_read_def ri_write_def typed_stream_def sub_stream_def packed_doc_def bs(1))
qed

lemma ri_write_docs:
  assumes n: "length (indices c) < 2 ^ 24"
  shows "docs_ok (ri_write c)"
proof -
  have S: "sized (0 + 15 + 15 + 15 * length (indices c) + 15)
      (write_vector po_AddSizeValue (do_Add po_AddInteger) po_FlushLastValue id (indices c)
        (po_AddSizeValue (ucast (firstRevision c)) diff_out_init))"
    unfolding write_vector_def list.map_id0 id_apply
    by (intro sized_Flush sized_fold sized_do_Add sized_AddInteger sized_AddSizeValue sized_init)
  then have "doc_ok (packed_doc 1 DIFF_INTEGER_STREAM_TYPE_ID
      (write_vector po_AddSizeValue (do_Add po_AddInteger) po_FlushLastValue id (indices c)
        (po_AddSizeValue (ucast (firstRevision c)) diff_out_init)))"
    by (intro packed_doc_ok [OF sized_mono [OF S] n]) (simp_all add: DIFF_INTEGER_STREAM_TYPE_ID_def)
  then show ?thesis by (simp add: docs_ok_def ri_write_def packed_doc_def del: doc_ok.simps)
qed

text \<open>
  A path dictionary survives its cache file: written to a file and read from it, every index stands for the same
  path, and the dictionary read is well-formed again, with a hash index of its own.  The sizes are those for which
  the streams fit into the format.
\<close>

lemma path_dictionary_in_file:
  assumes d: "pd_inv d" and n: "length (sd_strings (pathElements d)) < 2 ^ 24" "length (packedStrings (pathElements d)) < 2 ^ 28"
    "length (ipd_data (paths d)) < 2 ^ 24"
  shows "\<exists>file docs d'. save_file (pd_write d) = Some (Inr (Some file)) \<and> load_file file = Some (Inr docs) \<and>
    pd_read docs d0 = Inr d' \<and> pd_inv d' \<and> pd_keys d' = pd_keys d"
proof -
  have docs: "docs_ok (pd_write d)"
    using composite_ok [OF sd_write_docs(1,2) [OF n(2)]] composite_ok [OF ipd_write_docs(1,2) [OF n(3)]] sd_write_docs(3,4) [OF n(2)]
      ipd_write_docs(3,4) [OF n(3)]
    by (simp add: docs_ok_def pd_write_def del: doc_ok.simps)
  from save_load [OF docs] obtain bytes where "save_file (pd_write d) = Some (Inr (Some bytes))"
      "load_file bytes = Some (Inr (map joined (pd_write d)))" by blast
  then show ?thesis using pd_read_write [OF d n, of d0] by blast
qed

lemma path_dictionary_in_file_witness:
  "\<exists>d file docs d'. pd_init = Inr d \<and> save_file (pd_write d) = Some (Inr (Some file)) \<and> load_file file = Some (Inr docs) \<and>
     pd_read docs d = Inr d' \<and> pd_keys d' = [(NO_INDEX, [])]"
proof -
  obtain d where d: "pd_init = Inr d" "pd_inv d" "pd_keys d = [(NO_INDEX, [])]" "sd_strings (pathElements d) = [[]]" "pd_light d"
    using pd_init_ok by blast
  have "packedStrings (pathElements d) = packed_of [[]]" using d(2,4) sd_inv_rep(1) by (fastforce simp: pd_inv_def sd_packs_def)
  moreover have "length (ipd_data (paths d)) = 1" using arg_cong [OF d(3), of length] by (simp add: pd_keys_def)
  ultimately show ?thesis using path_dictionary_in_file [of d d] d by (auto simp: packed_of_def)
qed

text \<open>
  The texts of a container survive its cache file: writing it compresses it, and when the file is read, the check of
  the loaded data accepts it and every text is the one that was stored, whatever the tokens are that it was written as.
\<close>

lemma texts_in_file:
  assumes h: "ts_holds c texts" "leading c" "compress_room c" and pr: "pairs_readable (ts_words c) (ts_pairs c)"
    and n: "length (sd_strings (ts_words c)) < 2 ^ 24" "length (packedStrings (ts_words c)) < 2 ^ 28" "potential c < 2 ^ 24"
      "length texts + 1 < 2 ^ 24"
  shows "\<exists>docs c' file docs' c''. ts_write c = Some (Inr (docs, c')) \<and> save_file docs = Some (Inr (Some file)) \<and>
    load_file file = Some (Inr docs') \<and> ts_read docs' c0 = Inr c'' \<and>
    (\<forall>i < length texts. ts_GetAt c'' (of_nat i) = Some (Inr (texts ! i)))"
proof -
  have len: "length texts < 2 ^ 24" "length texts < 2 ^ 32" using n(4) by simp_all
  obtain c' where c': "AutoCompress c = Some (Inr c')" "ts_holds c' texts" "potential c' \<le> potential c" "ts_words c' = ts_words c"
      "pairs_readable (ts_words c') (ts_pairs c')"
    using AutoCompress_ok [OF h len(2)] pr by blast
  have sz: "length (ipd_data (ts_pairs c')) < 2 ^ 24" "length (ts_stringData c') < 2 ^ 24"
    using c'(3) n(3) by (simp_all add: potential_def)
  have o: "length (ts_offsets c') < 2 ^ 24" using ts_holds_length [OF c'(2)] n(4) by simp
  note w = n(1,2) [folded c'(4)]
  obtain bytes where bytes: "save_file (ts_docs c') = Some (Inr (Some bytes))" "load_file bytes = Some (Inr (map joined (ts_docs c')))"
    using save_load [OF ts_docs_ok [OF w(2) sz o]] by blast
  obtain c'' where c'': "ts_read (map joined (ts_docs c')) c0 = Inr c''" "ts_holds c'' texts"
    using ts_read_write [OF c'(2,5) w sz len(1)] by blast
  have "ts_GetAt c'' (of_nat i) = Some (Inr (texts ! i))" if "i < length texts" for i
    using ts_GetAt_ok [OF c''(2), of "of_nat i"] that len(2) by (simp add: unat_of_nat_small)
  then show ?thesis using c'(1) bytes c''(1) by (auto simp: ts_write_def)
qed

text \<open>A container with one text of one word.\<close>

lemma sample_texts:
  "\<exists>w. sd_inv w \<and> sd_strings w = [[], [102, 105, 120]] \<and> load_ok (sd_hashIndex w) \<and>
     (\<forall>c. c = \<lparr>ts_words = w, ts_pairs = ipd_init, ts_stringData = [GetWordToken 1], ts_offsets = [0, 1]\<rparr> \<longrightarrow>
       ts_holds c [[102, 105, 120]] \<and> leading c \<and> compress_room c \<and> pairs_readable (ts_words c) (ts_pairs c) \<and> potential c < 2 ^ 24)"
proof -
  obtain w0 where w0: "sd_init = Some w0" "sd_inv w0" "sd_strings w0 = [[]]" "load_ok (sd_hashIndex w0)" using sd_init_ok by blast
  have "sd_room [102, 105, 120] w0" "sd_light w0"
    using sd_room_light [OF w0(2,4), of "[102, 105, 120]"] w0(3,4) by (simp_all add: packed_of_def sd_light_def)
  from sd_Insert_ok [OF w0(2) this(1)] this(2) w0(3) obtain w where w: "sd_inv w" "sd_strings w = [[], [102, 105, 120]]" "load_ok (sd_hashIndex w)"
    by auto
  define c where "c = \<lparr>ts_words = w, ts_pairs = ipd_init, ts_stringData = [GetWordToken 1], ts_offsets = [0, 1]\<rparr>"
  have tok: "IsDictionaryWord (GetWordToken 1)" "GetWordIndex (GetWordToken 1) = 1" "IsToken (GetWordToken 1)"
    using word_token [of 1] by simp_all
  have e: "expands (sd_strings w) (ipd_data ipd_init) (GetWordToken 1) [102, 105, 120]"
    using expands_word [of "GetWordToken 1" "sd_strings w"] tok w(2) by simp
  have "tokens_ok (ts_words c) (ts_pairs c)" using w ipd_sound_init by (simp add: tokens_ok_def c_def ipd_init_def)
  moreover have "readable (ts_words c) (ts_pairs c) (ts_stringData c)" using e by (auto simp: readable_def c_def)
  moreover have "layout c [] [[GetWordToken 1]]" by (simp add: layout_def c_def)
  moreover have "list_all2 (tokens_text (ts_words c) (ts_pairs c)) [[GetWordToken 1]] [[102, 105, 120]]"
    using e tok by (simp add: tokens_text_def c_def)
  ultimately have held: "ts_holds c [[102, 105, 120]]" unfolding ts_holds_def by blast
  then have "leading c" by (rule packed_leading) (simp add: packed_def c_def tok)
  moreover have "compress_room c" "pairs_readable (ts_words c) (ts_pairs c)" "potential c < 2 ^ 24"
    by (simp_all add: compress_room_def potential_def pairs_readable_def c_def ipd_init_def)
  ultimately show ?thesis using held w unfolding c_def by blast
qed

lemma texts_in_file_witness:
  "\<exists>w docs c' file docs' c''.
     ts_write \<lparr>ts_words = w, ts_pairs = ipd_init, ts_stringData = [GetWordToken 1], ts_offsets = [0, 1]\<rparr> = Some (Inr (docs, c')) \<and>
     save_file docs = Some (Inr (Some file)) \<and> load_file file = Some (Inr docs') \<and>
     ts_read docs' \<lparr>ts_words = w, ts_pairs = ipd_init, ts_stringData = [], ts_offsets = [0]\<rparr> = Inr c'' \<and>
     ts_GetAt c'' 0 = Some (Inr [102, 105, 120])"
proof -
  obtain w where w: "sd_inv w" "sd_strings w = [[], [102, 105, 120]]" and
    t: "\<forall>c. c = \<lparr>ts_words = w, ts_pairs = ipd_init, ts_stringData = [GetWordToken 1], ts_offsets = [0, 1]\<rparr> \<longrightarrow>
       ts_holds c [[102, 105, 120]] \<and> leading c \<and> compress_room c \<and> pairs_readable (ts_words c) (ts_pairs c) \<and> potential c < 2 ^ 24"
    using sample_texts by blast
  have "packedStrings w = packed_of (sd_strings w)" using sd_inv_rep(1) [OF w(1)] by (simp add: sd_packs_def)
  then have "length (sd_strings w) < 2 ^ 24" "length (packedStrings w) < 2 ^ 28" by (simp_all add: w(2) packed_of_def)
  then show ?thesis
    using t texts_in_file [of "\<lparr>ts_words = w, ts_pairs = ipd_init, ts_stringData = [GetWordToken 1], ts_offsets = [0, 1]\<rparr>" "[[102, 105, 120]]"
      "\<lparr>ts_words = w, ts_pairs = ipd_init, ts_stringData = [], ts_offsets = [0]\<rparr>"]
    by (intro exI [of _ w]) simp
qed

text \<open>
  A revision index survives its cache file unchanged: the first revision and all the indexes, the ones of missing
  revisions too.
\<close>

lemma revision_index_in_file:
  assumes "length (indices c) < 2 ^ 24" "\<forall>i \<in> set (indices c). \<bar>sint i\<bar> < 2 ^ 29"
  shows "\<exists>file docs. save_file (ri_write c) = Some (Inr (Some file)) \<and> load_file file = Some (Inr docs) \<and> ri_read docs c0 = Inr c"
  using save_load [OF ri_write_docs [OF assms(1)]] ri_read_write [OF assms] by blast

lemma revision_index_in_file_witness:
  "\<exists>file docs. save_file (ri_write \<lparr>firstRevision = 7, indices = [0, NO_INDEX, 1]\<rparr>) = Some (Inr (Some file)) \<and>
     load_file file = Some (Inr docs) \<and> ri_read docs ri_init = Inr \<lparr>firstRevision = 7, indices = [0, NO_INDEX, 1]\<rparr>"
  by (rule revision_index_in_file) (simp_all add: NO_INDEX_def)

end
