(* ===== verification/SkipRevisionInfo.thy ===== *)
theory SkipRevisionInfo
  imports PathDictionary
begin

section \<open>CSkipRevisionInfo (src/LogCache/Containers/SkipRevisionInfo)\<close>

text \<open>
  For each path, the ranges of revisions that are known to hold no log information.  The ranges
  of a path are a \<open>std::map\<close> from start to size: here a list of pairs in increasing order of the
  starts.  The lemmas read the ranges as the set of revisions they cover.
\<close>

type_synonym ranges = "(revision_t \<times> revision_t) list"

text \<open>What the code uses of \<open>std::map\<close>: \<open>emplace\<close> keeps an existing entry.\<close>

fun map_emplace :: "revision_t \<Rightarrow> revision_t \<Rightarrow> ranges \<Rightarrow> ranges" where
  "map_emplace k v [] = [(k, v)]"
| "map_emplace k v ((k', v') # m) =
     (if k < k' then (k, v) # (k', v') # m else if k = k' then (k', v') # m else (k', v') # map_emplace k v m)"

definition map_before :: "revision_t \<Rightarrow> ranges \<Rightarrow> ranges" where
  "map_before k m = takeWhile (\<lambda>e. fst e < k) m"

definition map_from :: "revision_t \<Rightarrow> ranges \<Rightarrow> ranges" where
  "map_from k m = dropWhile (\<lambda>e. fst e < k) m"

definition spr_FindPrevious :: "revision_t \<Rightarrow> ranges \<Rightarrow> revision_t" where
  "spr_FindPrevious revision m =
     (let upto = takeWhile (\<lambda>e. fst e \<le> revision) m
      in if upto = [] then NO_REVISION
         else let iter = last upto; next_rev = fst iter + snd iter
              in if next_rev \<le> revision then NO_REVISION else fst iter - 1)"

text \<open>
  \<open>Add\<close> emplaces the range or enlarges the one with the same start; joins it with the previous
  range when they touch; then joins it with the one following range when they touch.  The entry
  at hand is \<open>(s, n)\<close>, between the entries before and after it.
\<close>

definition spr_join_next :: "ranges \<Rightarrow> revision_t \<times> revision_t \<Rightarrow> ranges \<Rightarrow> revision_t \<Rightarrow> ranges" where
  "spr_join_next before entry after end_rev =
     (case after of [] \<Rightarrow> before @ [entry]
      | nxt # rest \<Rightarrow>
          if fst nxt \<le> end_rev
          then before @ [(fst entry, max end_rev (fst nxt + snd nxt) - fst entry)] @ rest
          else before @ entry # nxt # rest)"

definition spr_Add :: "revision_t \<Rightarrow> revision_t \<Rightarrow> ranges \<Rightarrow> ranges" where
  "spr_Add start sz m =
     (let end_rev = start + sz;
          before = map_before start m;
          inserted = map_from start (map_emplace start sz m);
          old = hd inserted; after = tl inserted;
          entry = (start, if snd old < sz then sz else snd old)
      in if before \<noteq> [] \<and> fst (last before) + snd (last before) \<ge> start
         then let prev = last before; previousEnd = fst prev + snd prev;
                  end_rev = (if end_rev < previousEnd then previousEnd else end_rev)
              in spr_join_next (butlast before) (fst prev, end_rev - fst prev) after end_rev
         else spr_join_next before entry after end_rev)"

subsection \<open>Available revisions\<close>

text \<open>
  \<open>avail\<close> tells whether log information with changed paths is cached for a revision
  (\<open>DataAvailable\<close>, of the revision index and the presence flags).
\<close>

function raise_lower :: "(revision_t \<Rightarrow> bool) \<Rightarrow> revision_t \<Rightarrow> revision_t \<Rightarrow> revision_t \<times> revision_t" where
  "raise_lower avail revision sz =
     (if sz > 0 \<and> avail revision then raise_lower avail (revision + 1) (sz - 1) else (revision, sz))"
  by pat_completeness auto
termination
  by (relation "measure (\<lambda>(avail, revision, sz). unat sz)")
    (auto simp: unat_minus_one word_gt_0 unat_gt_0)

function lower_upper :: "(revision_t \<Rightarrow> bool) \<Rightarrow> revision_t \<Rightarrow> revision_t \<Rightarrow> revision_t" where
  "lower_upper avail revision sz =
     (if sz > 0 \<and> avail (revision + sz - 1) then lower_upper avail revision (sz - 1) else sz)"
  by pat_completeness auto
termination
  by (relation "measure (\<lambda>(avail, revision, sz). unat sz)")
    (auto simp: unat_minus_one word_gt_0 unat_gt_0)

declare raise_lower.simps [simp del] lower_upper.simps [simp del]

definition sri_TryReduceRange :: "(revision_t \<Rightarrow> bool) \<Rightarrow> revision_t \<Rightarrow> revision_t \<Rightarrow> revision_t \<times> revision_t" where
  "sri_TryReduceRange avail revision sz =
     (let (revision, sz) = raise_lower avail revision sz in (revision, lower_upper avail revision sz))"

subsection \<open>The container\<close>

record skip_revision_info =
  sri_data :: "(index_t \<times> ranges) list"
  sri_index :: "32 word quick_hash"

definition sri_functor :: "(index_t \<times> ranges) list \<Rightarrow> (index_t, 32 word) hash_functor" where
  "sri_functor d =
     \<lparr>hf_hash = ucast, hf_value = (\<lambda>ind. fst (d ! unat ind)), hf_equal = (\<lambda>v ind. fst (d ! unat ind) = v)\<rparr>"

definition sri_init :: skip_revision_info where
  "sri_init = \<lparr>sri_data = [], sri_index = quick_hash_init\<rparr>"

definition sri_Find :: "index_t \<Rightarrow> skip_revision_info \<Rightarrow> ranges option option" where
  "sri_Find path s = do {
     dataIndex \<leftarrow> qh_find (sri_functor (sri_data s)) (sri_index s) path;
     if dataIndex = NO_INDEX then Some None
     else if unat dataIndex < length (sri_data s) then Some (Some (snd (sri_data s ! unat dataIndex))) else None
   }"

definition sri_Add ::
    "(revision_t \<Rightarrow> bool) \<Rightarrow> index_t \<Rightarrow> revision_t \<Rightarrow> revision_t \<Rightarrow> skip_revision_info \<Rightarrow> skip_revision_info option" where
  "sri_Add avail path revision sz s =
     (let (revision, sz) = sri_TryReduceRange avail revision sz
      in if sz = 0 then Some s else do {
        dataIndex \<leftarrow> qh_find (sri_functor (sri_data s)) (sri_index s) path;
        (if dataIndex = NO_INDEX
         then let d = sri_data s @ [(path, [])] in do {
           T \<leftarrow> qh_insert (sri_functor d) path (of_nat (length d - 1)) (sri_index s);
           Some (s\<lparr>sri_data := d[length d - 1 := (path, spr_Add revision sz [])], sri_index := T\<rparr>)
         }
         else if unat dataIndex < length (sri_data s)
         then let (p, m) = sri_data s ! unat dataIndex
              in Some (s\<lparr>sri_data := (sri_data s)[unat dataIndex := (p, spr_Add revision sz m)]\<rparr>)
         else None)
      })"

definition sri_Clear :: "skip_revision_info \<Rightarrow> skip_revision_info" where
  "sri_Clear s = s\<lparr>sri_data := [], sri_index := qh_clear (sri_index s)\<rparr>"

definition sri_GetPathCount :: "skip_revision_info \<Rightarrow> nat" where
  "sri_GetPathCount s = length (sri_data s)"

definition sri_GetPath :: "skip_revision_info \<Rightarrow> nat \<Rightarrow> index_t option" where
  "sri_GetPath s ind = (if ind < length (sri_data s) then Some (fst (sri_data s ! ind)) else None)"

definition sri_GetRanges :: "skip_revision_info \<Rightarrow> nat \<Rightarrow> ranges option" where
  "sri_GetRanges s ind = (if ind < length (sri_data s) then Some (snd (sri_data s ! ind)) else None)"

text \<open>
  \<open>GetPreviousRevision\<close> recurses into the parent path in each round of a loop.  The chain holds
  the ranges of the path and of its parents, the path first; the recursion ends above the root.
  The result pairs the last value of \<open>revision\<close> with that of \<open>result\<close>.
\<close>

function previous_loop :: "ranges option list \<Rightarrow> revision_t \<Rightarrow> revision_t \<times> revision_t" where
  "previous_loop [] revision = (revision, revision)"
| "previous_loop (m # parents) revision =
     (let parentNext =
            (if parents = [] \<or> revision = NO_REVISION then NO_REVISION
             else let (r, result) = previous_loop parents revision
                  in if r = revision then NO_REVISION else result);
          rev1 = (if parentNext \<noteq> NO_REVISION then parentNext else revision);
          rev2 = (case m of None \<Rightarrow> rev1
                  | Some m' \<Rightarrow> let next_rev = spr_FindPrevious rev1 m' in if next_rev \<noteq> NO_REVISION then next_rev else rev1)
      in if rev2 < revision then previous_loop (m # parents) rev2 else (rev2, revision))"
  by pat_completeness auto
termination
  by (relation "measures [\<lambda>(ms, r). length ms, \<lambda>(ms, r). unat r]") (auto simp: word_less_nat_alt)

declare previous_loop.simps(2) [simp del]

fun chain_previous :: "ranges option list \<Rightarrow> revision_t \<Rightarrow> revision_t" where
  "chain_previous [] revision = NO_REVISION"
| "chain_previous (m # parents) revision =
     (if revision = NO_REVISION then NO_REVISION
      else let (r, result) = previous_loop (m # parents) revision
           in if r = revision then NO_REVISION else result)"

partial_function (option) path_chain :: "path_dictionary \<Rightarrow> skip_revision_info \<Rightarrow> index_t \<Rightarrow> ranges option list option" where
  "path_chain d s path =
     (if path = NO_INDEX then Some []
      else do {
        m \<leftarrow> sri_Find path s;
        p \<leftarrow> pd_GetParent d path;
        rest \<leftarrow> path_chain d s p;
        Some (m # rest)
      })"

definition sri_GetPreviousRevision :: "path_dictionary \<Rightarrow> skip_revision_info \<Rightarrow> index_t \<Rightarrow> revision_t \<Rightarrow> revision_t option" where
  "sri_GetPreviousRevision d s path revision = do {
     chain \<leftarrow> path_chain d s path;
     Some (chain_previous chain revision)
   }"

subsection \<open>Compression\<close>

text \<open>
  \<open>RemoveKnownRevisions\<close> visits the entries of a map in order; \<open>from\<close> is the start from which the
  iterator goes on.  A range whose start moved is emplaced anew; the entry with the old start stays.
\<close>

definition map_erase :: "revision_t \<Rightarrow> ranges \<Rightarrow> ranges" where
  "map_erase k m = filter (\<lambda>e. fst e \<noteq> k) m"

definition map_update :: "revision_t \<Rightarrow> revision_t \<Rightarrow> ranges \<Rightarrow> ranges" where
  "map_update k v m = map (\<lambda>e. if fst e = k then (k, v) else e) m"

lemma dropWhile_hd: "dropWhile P m = x # rest \<Longrightarrow> \<not> P x"
  by (metis hd_dropWhile list.sel(1) list.simps(3))

lemma revision_measure:
  "\<not> unat s < n \<Longrightarrow> 4294967295 - unat (s :: revision_t) < 4294967296 - n"
  "\<not> unat s < n \<Longrightarrow> s < start \<Longrightarrow> 4294967295 - unat start < 4294967296 - n"
  using unat_bound [of s] unat_bound [of start] by (auto simp: word_less_nat_alt)

function remove_known :: "(revision_t \<Rightarrow> bool) \<Rightarrow> nat \<Rightarrow> ranges \<Rightarrow> ranges option" where
  "remove_known avail from_rev m =
     (case dropWhile (\<lambda>e. unat (fst e) < from_rev) m of
        [] \<Rightarrow> Some m
      | (s, n) # _ \<Rightarrow>
          let (start, len) = sri_TryReduceRange avail s n
          in if len = 0 then remove_known avail (unat s + 1) (map_erase s m)
             else if start = s then remove_known avail (unat s + 1) (map_update s len m)
             else if s < start then remove_known avail (unat start + 1) (map_emplace start len m)
             else None)"
  by pat_completeness auto

termination
  by (relation "measure (\<lambda>(avail, from_rev, m). 4294967296 - from_rev)") (auto dest!: dropWhile_hd intro: revision_measure)

declare remove_known.simps [simp del]

fun compress_data :: "(revision_t \<Rightarrow> bool) \<Rightarrow> nat \<Rightarrow> (index_t \<times> ranges) list \<Rightarrow> (index_t \<times> ranges) list option" where
  "compress_data avail 0 d = Some d"
| "compress_data avail (Suc i) d = do {
     m \<leftarrow> remove_known avail 0 (snd (d ! i));
     let d' = d[i := (fst (d ! i), m)];
     compress_data avail i (if m = [] then butlast (d'[i := last d']) else d')
   }"

fun rebuild_hash_loop ::
    "(index_t \<times> ranges) list \<Rightarrow> nat list \<Rightarrow> 32 word quick_hash \<Rightarrow> 32 word quick_hash option" where
  "rebuild_hash_loop d [] T = Some T"
| "rebuild_hash_loop d (i # is) T = do {
     T' \<leftarrow> qh_insert (sri_functor d) (fst (d ! i)) (of_nat i) T;
     rebuild_hash_loop d is T'
   }"

definition sri_RebuildHash :: "skip_revision_info \<Rightarrow> skip_revision_info option" where
  "sri_RebuildHash s = do {
     T \<leftarrow> reserve (sri_functor (sri_data s)) (length (sri_data s)) (qh_clear (sri_index s));
     T' \<leftarrow> rebuild_hash_loop (sri_data s) [0..<length (sri_data s)] T;
     Some (s\<lparr>sri_index := T'\<rparr>)
   }"

definition sri_Compress :: "(revision_t \<Rightarrow> bool) \<Rightarrow> skip_revision_info \<Rightarrow> skip_revision_info option" where
  "sri_Compress avail s = do {
     d \<leftarrow> compress_data avail (length (sri_data s)) (sri_data s);
     sri_RebuildHash (s\<lparr>sri_data := d\<rparr>)
   }"

subsection \<open>Ranges as sets of revisions\<close>

definition cov :: "ranges \<Rightarrow> nat set" where
  "cov m = {x. \<exists>e \<in> set m. unat (fst e) \<le> x \<and> x < unat (fst e) + unat (snd e)}"

text \<open>Ranges are not empty, do not overlap and do not touch, and end below the largest revision.\<close>

definition ranges_ok :: "ranges \<Rightarrow> bool" where
  "ranges_ok m \<longleftrightarrow> sorted_wrt (\<lambda>a b. unat (fst a) + unat (snd a) < unat (fst b)) m \<and>
     (\<forall>e \<in> set m. 0 < unat (snd e) \<and> unat (fst e) + unat (snd e) < 2 ^ 32)"

lemma cov_simps [simp]: "cov [] = {}" "cov (e # m) = {unat (fst e)..<unat (fst e) + unat (snd e)} \<union> cov m"
  "cov (m @ m') = cov m \<union> cov m'"
  by (auto simp: cov_def)

lemma ranges_ok_append: "ranges_ok (m @ m') \<longleftrightarrow> ranges_ok m \<and> ranges_ok m' \<and>
    (\<forall>a \<in> set m. \<forall>b \<in> set m'. unat (fst a) + unat (snd a) < unat (fst b))"
  by (auto simp: ranges_ok_def sorted_wrt_append)

lemma ranges_ok_Cons: "ranges_ok (e # m) \<longleftrightarrow> 0 < unat (snd e) \<and> unat (fst e) + unat (snd e) < 2 ^ 32 \<and> ranges_ok m \<and>
    (\<forall>b \<in> set m. unat (fst e) + unat (snd e) < unat (fst b))"
  by (auto simp: ranges_ok_def)

lemma ranges_ok_Nil [simp]: "ranges_ok []"
  by (simp add: ranges_ok_def)

lemma unat_add_small: "unat a + unat b < 2 ^ 32 \<Longrightarrow> unat (a + b :: revision_t) = unat a + unat b"
  by (simp add: unat_word_ariths)

lemma FindPrevious_inside:
  assumes ok: "ranges_ok m" and e: "(s, n) \<in> set m" "unat s \<le> unat r" "unat r < unat s + unat n"
  shows "spr_FindPrevious r m = s - 1"
proof -
  obtain pre post where m: "m = pre @ (s, n) # post" using e(1) by (meson split_list)
  have pre: "\<forall>a \<in> set pre. unat (fst a) \<le> unat r" using ok e(2) unfolding m by (auto simp: ranges_ok_append ranges_ok_Cons)
  have post: "\<forall>b \<in> set post. \<not> unat (fst b) \<le> unat r" using ok e(3) unfolding m by (auto simp: ranges_ok_append ranges_ok_Cons)
  have "takeWhile (\<lambda>e. fst e \<le> r) post = []" using post by (cases post) (auto simp: word_le_nat_alt)
  then have "takeWhile (\<lambda>e. fst e \<le> r) m = pre @ [(s, n)]"
    unfolding m using pre e(2) by (subst takeWhile_append2) (auto simp: word_le_nat_alt)
  moreover have "unat (s + n) = unat s + unat n" using ok unfolding m by (intro unat_add_small) (auto simp: ranges_ok_append ranges_ok_Cons)
  ultimately show ?thesis using e(3) by (simp add: spr_FindPrevious_def Let_def word_le_nat_alt)
qed

lemma FindPrevious_outside:
  assumes ok: "ranges_ok m" and r: "unat r \<notin> cov m"
  shows "spr_FindPrevious r m = NO_REVISION"
proof (cases "takeWhile (\<lambda>e. fst e \<le> r) m = []")
  case False
  define e where "e = last (takeWhile (\<lambda>e. fst e \<le> r) m)"
  have "e \<in> set (takeWhile (\<lambda>e. fst e \<le> r) m)" unfolding e_def using False by (rule last_in_set)
  then have e: "e \<in> set m" "fst e \<le> r" by (auto dest: set_takeWhileD)
  have "unat (fst e + snd e) = unat (fst e) + unat (snd e)" using ok e(1) by (intro unat_add_small) (auto simp: ranges_ok_def)
  moreover have "unat (fst e) + unat (snd e) \<le> unat r" using r e by (auto simp: cov_def word_le_nat_alt not_less)
  ultimately have "fst e + snd e \<le> r" by (simp add: word_le_nat_alt)
  then show ?thesis using False by (simp add: spr_FindPrevious_def Let_def flip: e_def)
qed (simp add: spr_FindPrevious_def)

lemma FindPrevious_empty_cov: "ranges_ok m \<Longrightarrow> unat r \<in> cov m \<Longrightarrow>
  \<exists>s n. (s, n) \<in> set m \<and> spr_FindPrevious r m = s - 1 \<and> unat s \<le> unat r \<and> {unat s..unat r} \<subseteq> cov m"
proof -
  assume ok: "ranges_ok m" and r: "unat r \<in> cov m"
  then obtain s n where e: "(s, n) \<in> set m" "unat s \<le> unat r" "unat r < unat s + unat n" by (auto simp: cov_def)
  have "{unat s..unat r} \<subseteq> cov m" using e by (auto simp: cov_def intro!: bexI [of _ "(s, n)"])
  then show ?thesis using FindPrevious_inside [OF ok e] e by blast
qed

subsection \<open>Adding a range\<close>

lemma join_next_ok:
  assumes b: "ranges_ok before" "\<And>e. e \<in> set before \<Longrightarrow> unat (fst e) + unat (snd e) < unat s"
    and n: "0 < unat n" "unat s + unat n < 2 ^ 32" and a: "ranges_ok after" "\<And>e. e \<in> set after \<Longrightarrow> unat s < unat (fst e)"
    and one: "\<And>e. e \<in> set (tl after) \<Longrightarrow> unat s + unat n < unat (fst e)"
    and r: "unat end_rev \<le> unat s + unat n"
      "after \<noteq> [] \<Longrightarrow> unat (fst (hd after)) \<le> unat s + unat n \<Longrightarrow> unat end_rev = unat s + unat n"
  shows "ranges_ok (spr_join_next before (s, n) after end_rev) \<and>
    cov (spr_join_next before (s, n) after end_rev) = cov before \<union> {unat s..<unat s + unat n} \<union> cov after"
proof (cases after)
  case Nil
  then show ?thesis using b n by (auto simp: spr_join_next_def ranges_ok_append ranges_ok_Cons)
next
  case (Cons x rest)
  obtain p q where x: "x = (p, q)" by (cases x)
  have ax: "unat s < unat p" "0 < unat q" "unat p + unat q < 2 ^ 32" "ranges_ok rest"
      "\<And>e. e \<in> set rest \<Longrightarrow> unat p + unat q < unat (fst e)"
    using a(1) a(2) [of x] unfolding Cons x by (auto simp: ranges_ok_Cons)
  have rest: "\<And>e. e \<in> set rest \<Longrightarrow> unat s + unat n < unat (fst e)" using one unfolding Cons by simp
  show ?thesis
  proof (cases "unat p \<le> unat end_rev")
    case True
    then have er: "unat end_rev = unat s + unat n" using r unfolding Cons x by simp
    have pq: "unat (p + q) = unat p + unat q" using ax(3) by (rule unat_add_small)
    define l where "l = max end_rev (p + q) - s"
    have m: "unat (max end_rev (p + q)) = max (unat s + unat n) (unat p + unat q)"
      using er pq by (simp add: max_def word_le_nat_alt)
    have "s \<le> max end_rev (p + q)" using m n(1) by (simp add: word_le_nat_alt)
    then have "unat l = max (unat s + unat n) (unat p + unat q) - unat s" unfolding l_def m [symmetric] by (rule unat_sub)
    then have l: "unat s + unat l = max (unat s + unat n) (unat p + unat q)" by simp
    have J: "spr_join_next before (s, n) after end_rev = before @ (s, l) # rest"
      using True by (simp add: spr_join_next_def Cons x l_def word_le_nat_alt)
    have "0 < unat l" using l n(1) by linarith
    moreover have "unat s + unat l < 2 ^ 32" using l n(2) ax(3) by simp
    moreover have "\<And>e. e \<in> set rest \<Longrightarrow> unat s + unat l < unat (fst e)" using l rest ax(5) by simp
    moreover have "\<And>e f. e \<in> set before \<Longrightarrow> f \<in> set rest \<Longrightarrow> unat (fst e) + unat (snd e) < unat (fst f)"
      using b(2) rest by (meson less_trans trans_less_add1)
    ultimately have "ranges_ok (before @ (s, l) # rest)"
      using b ax(4) by (simp add: ranges_ok_append ranges_ok_Cons)
    moreover have "{unat s..<unat s + unat l} = {unat s..<unat s + unat n} \<union> {unat p..<unat p + unat q}"
      using l ax(1) True er by auto
    ultimately show ?thesis unfolding J by (auto simp: Cons x)
  next
    case False
    then have "unat s + unat n < unat p" using r unfolding Cons x by fastforce
    moreover have J: "spr_join_next before (s, n) after end_rev = before @ (s, n) # after"
      using False by (simp add: spr_join_next_def Cons x word_le_nat_alt)
    moreover have "\<And>e f. e \<in> set before \<Longrightarrow> f \<in> set after \<Longrightarrow> unat (fst e) + unat (snd e) < unat (fst f)"
      using b(2) a(2) by (meson less_trans)
    ultimately have "ranges_ok (before @ (s, n) # after)"
      using b n a(1) ax(5) rest x Cons by (auto simp: ranges_ok_append ranges_ok_Cons)
    then show ?thesis unfolding J by auto
  qed
qed

lemma map_emplace_split:
  assumes "ranges_ok m"
  shows "\<exists>after old. map_from k (map_emplace k v m) = (k, old) # after \<and>
    ((\<forall>e \<in> set m. fst e \<noteq> k) \<and> old = v \<and> m = map_before k m @ after \<or> m = map_before k m @ (k, old) # after) \<and>
    (\<forall>e \<in> set (map_before k m). unat (fst e) < unat k) \<and> (\<forall>e \<in> set after. unat k < unat (fst e))"
  using assms
proof (induction m)
  case Nil
  then show ?case by (simp add: map_from_def map_before_def)
next
  case (Cons e m)
  obtain k' v' where e: "e = (k', v')" by (cases e)
  have ok: "ranges_ok m" "\<And>f. f \<in> set m \<Longrightarrow> unat k' < unat (fst f)" using Cons.prems e by (auto simp: ranges_ok_Cons)
  consider "k < k'" | "k = k'" | "k' < k" by fastforce
  then show ?case
  proof cases
    case 1
    then show ?thesis using e ok by (auto simp: map_from_def map_before_def word_less_nat_alt dest: less_trans)
  next
    case 2
    then show ?thesis using e ok by (auto simp: map_from_def map_before_def)
  next
    case 3
    then have "map_from k (map_emplace k v (e # m)) = map_from k (map_emplace k v m)" "map_before k (e # m) = e # map_before k m"
      using e by (auto simp: map_from_def map_before_def)
    then show ?thesis using Cons.IH [OF ok(1)] 3 e by (auto simp: word_less_nat_alt)
  qed
qed

lemma spr_Add_ok:
  assumes ok: "ranges_ok m" and sz: "0 < unat sz" "unat start + unat sz < 2 ^ 32"
    and one: "length (filter (\<lambda>e. unat start < unat (fst e) \<and> unat (fst e) \<le> unat start + unat sz) m) \<le> 1"
  shows "ranges_ok (spr_Add start sz m) \<and> cov (spr_Add start sz m) = cov m \<union> {unat start..<unat start + unat sz}"
proof -
  let ?before = "map_before start m"
  obtain after old where A: "map_from start (map_emplace start sz m) = (start, old) # after"
      "(\<forall>e \<in> set m. fst e \<noteq> start) \<and> old = sz \<and> m = ?before @ after \<or> m = ?before @ (start, old) # after"
      "\<forall>e \<in> set ?before. unat (fst e) < unat start" "\<forall>e \<in> set after. unat start < unat (fst e)"
    using map_emplace_split [OF ok, of start sz] by blast
  define n where "n = (if old < sz then sz else old)"
  have n: "unat sz \<le> unat n" "unat n = max (unat old) (unat sz)"
    by (auto simp: n_def word_less_nat_alt)
  have er: "unat (start + sz) = unat start + unat sz" using sz(2) by (rule unat_add_small)
  have okb: "ranges_ok ?before" "ranges_ok after" using A(2) ok by (metis ranges_ok_append ranges_ok_Cons)+
  have old: "m = ?before @ (start, old) # after \<Longrightarrow> unat start + unat old < 2 ^ 32 \<and>
      (\<forall>e \<in> set after. unat start + unat old < unat (fst e)) \<and> (\<forall>e \<in> set ?before. unat (fst e) + unat (snd e) < unat start)"
    using ok by (metis (no_types, lifting) fst_conv list.set_intros(1) ranges_ok_Cons ranges_ok_append snd_conv)
  have tail: "unat start + unat sz < unat (fst e)" if e: "e \<in> set (tl after)" for e
  proof (rule ccontr)
    assume le: "\<not> unat start + unat sz < unat (fst e)"
    let ?P = "\<lambda>e. unat start < unat (fst e) \<and> unat (fst e) \<le> unat start + unat sz"
    obtain x rest where x: "after = x # rest" using e by (cases after) auto
    have "unat (fst x) < unat (fst e)" using okb(2) e x by (auto simp: ranges_ok_Cons)
    then have "?P x" "?P e" using le A(4) e x by auto
    then have "1 < length (filter ?P after)" using e x by (cases "filter ?P rest") (auto simp: filter_empty_conv)
    moreover obtain mid where mid: "m = ?before @ mid @ after" using A(2) by (metis append_Cons append_Nil)
    have "length (filter ?P after) \<le> length (filter ?P m)"
      by (subst arg_cong [OF mid, of "\<lambda>l. length (filter ?P l)"]) (simp only: filter_append length_append)
    ultimately show False using one by simp
  qed
  show ?thesis
  proof (cases "?before \<noteq> [] \<and> fst (last ?before) + snd (last ?before) \<ge> start")
    case False
    have before: "unat (fst e) + unat (snd e) < unat start" if e: "e \<in> set ?before" for e
    proof -
      have ne: "?before \<noteq> []" using e by auto
      then have b: "?before = butlast ?before @ [last ?before]" by simp
      have "unat (fst (last ?before)) + unat (snd (last ?before)) < 2 ^ 32" using okb(1) ne by (auto simp: ranges_ok_def)
      then have "unat (fst (last ?before)) + unat (snd (last ?before)) < unat start"
        using False ne unat_add_small by (metis not_le word_le_nat_alt)
      moreover have "e \<in> set (butlast ?before) \<Longrightarrow> unat (fst e) + unat (snd e) < unat (fst (last ?before))"
        using okb(1) b by (metis list.set_intros(1) ranges_ok_append)
      ultimately show ?thesis using e b by (metis (no_types, lifting) Un_iff add_leD1 empty_iff le_less_trans less_imp_le list.set(1) list.set(2) not_le insert_iff set_append)
    qed
    have add: "spr_Add start sz m = spr_join_next ?before (start, n) after (start + sz)"
      by (simp only: spr_Add_def Let_def A(1) list.sel fst_conv snd_conv if_not_P [OF False] n_def)
    have nb: "unat start + unat n < 2 ^ 32" "\<And>e. e \<in> set after \<Longrightarrow> unat sz < unat n \<Longrightarrow> unat start + unat n < unat (fst e)"
      using A(2) old sz(2) n(2) by (elim disjE conjE; force simp: max_def)+
    have "ranges_ok (spr_join_next ?before (start, n) after (start + sz)) \<and>
        cov (spr_join_next ?before (start, n) after (start + sz)) = cov ?before \<union> {unat start..<unat start + unat n} \<union> cov after"
    proof (rule join_next_ok [OF okb(1) before _ nb(1) okb(2)])
      show "0 < unat n" using n(1) sz(1) by simp
      show "\<And>e. e \<in> set after \<Longrightarrow> unat start < unat (fst e)" using A(4) by blast
      show "unat start + unat n < unat (fst e)" if "e \<in> set (tl after)" for e
        using nb(2) [of e] tail [OF that] that n(1) by (cases after; cases "unat sz < unat n") auto
      show "unat (start + sz) \<le> unat start + unat n" using er n(1) by simp
      show "unat (start + sz) = unat start + unat n" if "after \<noteq> []" "unat (fst (hd after)) \<le> unat start + unat n"
        using nb(2) [of "hd after"] that er n(1) by (cases "unat sz < unat n") auto
    qed
    moreover have "cov ?before \<union> {unat start..<unat start + unat n} \<union> cov after = cov m \<union> {unat start..<unat start + unat sz}"
    proof -
      have "{unat start..<unat start + unat n} = {unat start..<unat start + unat old} \<union> {unat start..<unat start + unat sz}"
        using n by (cases "old = sz") (auto simp: max_def)
      moreover have "cov m = cov ?before \<union> cov after \<and> old = sz \<or> cov m = cov ?before \<union> {unat start..<unat start + unat old} \<union> cov after"
        using A(2) cov_simps(2) [of "(start, old)" after] cov_simps(3) [of ?before] by (metis fst_conv snd_conv sup_assoc)
      ultimately show ?thesis by auto
    qed
    ultimately show ?thesis unfolding add by simp
  next
    case True
    define prev where "prev = last ?before"
    obtain ps pn where p: "prev = (ps, pn)" by (cases prev)
    have b: "?before = butlast ?before @ [(ps, pn)]" using True p by (metis append_butlast_last_id prev_def)
    have okp: "ranges_ok (butlast ?before)" "0 < unat pn" "unat ps + unat pn < 2 ^ 32"
        "\<And>e. e \<in> set (butlast ?before) \<Longrightarrow> unat (fst e) + unat (snd e) < unat ps"
      using okb(1) b by (metis ranges_ok_append ranges_ok_Cons fst_conv snd_conv list.set_intros(1))+
    have pe: "unat (ps + pn) = unat ps + unat pn" using okp(3) by (rule unat_add_small)
    have ge: "unat start \<le> unat ps + unat pn" using True pe p by (simp add: word_le_nat_alt flip: prev_def)
    have ps: "unat ps < unat start" using A(3) b by (metis fst_conv in_set_conv_decomp)
    have nomid: "m = ?before @ after" "old = sz"
      using A(2) old ge b by (metis fst_conv in_set_conv_decomp not_le snd_conv)+
    define e' where "e' = (if start + sz < ps + pn then ps + pn else start + sz)"
    have e': "unat e' = max (unat start + unat sz) (unat ps + unat pn)" using er pe by (simp add: e'_def word_less_nat_alt max_def)
    define l where "l = e' - ps"
    have "unat l = unat e' - unat ps" unfolding l_def using e' ps by (intro unat_sub) (simp add: word_le_nat_alt)
    then have l: "unat ps + unat l = max (unat start + unat sz) (unat ps + unat pn)" using e' ps by simp
    have add: "spr_Add start sz m = spr_join_next (butlast ?before) (ps, l) after e'"
      using True p by (simp add: spr_Add_def A(1) Let_def e'_def l_def flip: prev_def)
    have pa: "\<And>e. e \<in> set after \<Longrightarrow> unat ps + unat pn < unat (fst e)"
      using ok nomid(1) b by (metis fst_conv in_set_conv_decomp ranges_ok_append snd_conv)
    have "ranges_ok (spr_join_next (butlast ?before) (ps, l) after e') \<and>
        cov (spr_join_next (butlast ?before) (ps, l) after e') = cov (butlast ?before) \<union> {unat ps..<unat ps + unat l} \<union> cov after"
    proof (rule join_next_ok [OF okp(1) okp(4) _ _ okb(2)])
      show "0 < unat l" using l ps sz(1) by simp
      show "unat ps + unat l < 2 ^ 32" using l sz(2) okp(3) by simp
      show "\<And>e. e \<in> set after \<Longrightarrow> unat ps < unat (fst e)" using pa by (meson add_leD1 le_less_trans less_imp_le order_refl trans_less_add1)
      show "unat ps + unat l < unat (fst e)" if "e \<in> set (tl after)" for e
        using l tail [OF that] pa [OF list.set_sel(2)] that by (cases after) auto
      show "unat e' \<le> unat ps + unat l" "unat e' = unat ps + unat l" using e' l by simp_all
    qed
    moreover have "{unat ps..<unat ps + unat l} = {unat ps..<unat ps + unat pn} \<union> {unat start..<unat start + unat sz}"
      using l ge ps by auto
    moreover have "cov m = cov (butlast ?before) \<union> {unat ps..<unat ps + unat pn} \<union> cov after"
      using nomid(1) b by (metis cov_simps(1,2,3) fst_conv snd_conv sup_bot_right)
    ultimately show ?thesis unfolding add by auto
  qed
qed

subsection \<open>The previous revision of a chain of paths\<close>

definition chain_cov :: "ranges option list \<Rightarrow> nat set" where
  "chain_cov ms = {x. \<exists>m. Some m \<in> set ms \<and> x \<in> cov m}"

text \<open>The stored ranges: well-formed, and none holds revision 0, as the code relies on.\<close>

definition stored_ok :: "ranges \<Rightarrow> bool" where
  "stored_ok m \<longleftrightarrow> ranges_ok m \<and> 0 \<notin> cov m"

definition previous_gap :: "nat set \<Rightarrow> revision_t \<Rightarrow> revision_t \<Rightarrow> bool" where
  "previous_gap C r v \<longleftrightarrow> unat v \<le> unat r \<and> unat v \<notin> C \<and> {unat v<..unat r} \<subseteq> C"

lemma chain_cov_simps [simp]: "chain_cov [] = {}" "chain_cov (None # ms) = chain_cov ms"
  "chain_cov (Some m # ms) = cov m \<union> chain_cov ms"
  by (auto simp: chain_cov_def)

lemma unat_not_NO_REVISION: "unat v \<le> unat r \<Longrightarrow> r \<noteq> NO_REVISION \<Longrightarrow> v \<noteq> (NO_REVISION :: revision_t)"
proof
  assume "unat v \<le> unat r" "r \<noteq> NO_REVISION" "v = NO_REVISION"
  then have "unat r = unat (NO_REVISION :: revision_t)"
    using unat_NO_INDEX [where 'i = 32] unat_bound [of r] by simp
  then have "r = NO_REVISION" by (rule unsigned_word_eqI)
  then show False using \<open>r \<noteq> NO_REVISION\<close> by simp
qed

lemma FindPrevious_step:
  assumes ok: "stored_ok m" and r: "r \<noteq> NO_REVISION"
  shows "(unat r \<notin> cov m \<and> spr_FindPrevious r m = NO_REVISION) \<or>
    (unat r \<in> cov m \<and> (\<exists>v. spr_FindPrevious r m = v \<and> v \<noteq> NO_REVISION \<and> unat v < unat r \<and> {unat v<..unat r} \<subseteq> cov m))"
proof (cases "unat r \<in> cov m")
  case False
  then show ?thesis using FindPrevious_outside ok by (auto simp: stored_ok_def)
next
  case True
  obtain s n where s: "(s, n) \<in> set m" "spr_FindPrevious r m = s - 1" "unat s \<le> unat r" "{unat s..unat r} \<subseteq> cov m"
    using FindPrevious_empty_cov [OF _ True] ok by (auto simp: stored_ok_def)
  have "s \<noteq> 0" using s(3,4) ok by (auto simp: stored_ok_def)
  then have u: "Suc (unat (s - 1)) = unat s" by (simp add: unat_minus_one word_gt_0_no unat_gt_0)
  then have "s - 1 \<noteq> NO_REVISION" using s(3) r unat_not_NO_REVISION [of "s - 1" r] by linarith
  moreover have "{unat (s - 1)<..unat r} \<subseteq> cov m" using s(4) u [symmetric] by (auto simp: Suc_le_eq)
  moreover have "unat (s - 1) < unat r" using s(3) u by linarith
  ultimately show ?thesis using True s(2) by blast
qed

lemma previous_loop_gap:
  assumes "\<forall>m. Some m \<in> set ms \<longrightarrow> stored_ok m" "r \<noteq> NO_REVISION"
  shows "\<exists>v. previous_loop ms r = (v, v) \<and> previous_gap (chain_cov ms) r v"
  using assms
proof (induction ms r rule: previous_loop.induct)
  case (1 revision)
  then show ?case by (simp add: previous_gap_def)
next
  case (2 m parents revision)
  define parentNext where "parentNext = (if parents = [] \<or> revision = NO_REVISION then NO_REVISION
    else let (r, result) = previous_loop parents revision in if r = revision then NO_REVISION else result)"
  define rev1 where "rev1 = (if parentNext \<noteq> NO_REVISION then parentNext else revision)"
  define rev2 where "rev2 = (case m of None \<Rightarrow> rev1
    | Some m' \<Rightarrow> let next_rev = spr_FindPrevious rev1 m' in if next_rev \<noteq> NO_REVISION then next_rev else rev1)"
  have loop: "previous_loop (m # parents) revision =
      (if rev2 < revision then previous_loop (m # parents) rev2 else (rev2, revision))"
    by (subst previous_loop.simps(2)) (simp only: Let_def parentNext_def rev1_def rev2_def)
  have IH: "rev2 < revision \<Longrightarrow> rev2 \<noteq> NO_REVISION \<Longrightarrow>
      \<exists>v. previous_loop (m # parents) rev2 = (v, v) \<and> previous_gap (chain_cov (m # parents)) rev2 v"
    using "2.IH"(2) [OF parentNext_def rev1_def rev2_def] "2.prems"(1) by blast
  have g1: "previous_gap (chain_cov parents) revision rev1"
  proof (cases "parents = []")
    case True
    then show ?thesis by (simp add: rev1_def parentNext_def previous_gap_def)
  next
    case False
    then obtain v where v: "previous_loop parents revision = (v, v)" "previous_gap (chain_cov parents) revision v"
      using "2.IH"(1) "2.prems" by fastforce
    then have "rev1 = v" using False "2.prems"(2) unat_not_NO_REVISION [of v revision]
      by (auto simp: rev1_def parentNext_def previous_gap_def)
    then show ?thesis using v by simp
  qed
  then have r1: "rev1 \<noteq> NO_REVISION" using unat_not_NO_REVISION [OF _ "2.prems"(2)] by (simp add: previous_gap_def)
  have g2: "rev2 \<noteq> NO_REVISION \<and> unat rev2 \<le> unat revision \<and> {unat rev2<..unat revision} \<subseteq> chain_cov (m # parents) \<and>
      (rev2 = revision \<longrightarrow> unat revision \<notin> chain_cov (m # parents))"
  proof (cases m)
    case None
    then show ?thesis using g1 r1 by (auto simp: rev2_def previous_gap_def)
  next
    case (Some m')
    then have "stored_ok m'" using "2.prems"(1) by simp
    from FindPrevious_step [OF this r1] show ?thesis
    proof (elim disjE conjE exE)
      assume *: "unat rev1 \<notin> cov m'" "spr_FindPrevious rev1 m' = NO_REVISION"
      then have "rev2 = rev1" by (simp add: rev2_def Some)
      then show ?thesis using * g1 r1 by (auto simp: previous_gap_def Some)
    next
      fix v assume *: "unat rev1 \<in> cov m'" "spr_FindPrevious rev1 m' = v" "v \<noteq> NO_REVISION" "unat v < unat rev1"
        "{unat v<..unat rev1} \<subseteq> cov m'"
      then have "rev2 = v" by (simp add: rev2_def Some)
      moreover have "unat rev1 \<le> unat revision" "{unat rev1<..unat revision} \<subseteq> chain_cov parents"
        using g1 by (auto simp: previous_gap_def)
      moreover have "{unat v<..unat revision} \<subseteq> {unat v<..unat rev1} \<union> {unat rev1<..unat revision}" by auto
      ultimately show ?thesis using * by (fastforce simp: Some)
    qed
  qed
  show ?case
  proof (cases "rev2 < revision")
    case True
    then obtain v where "previous_loop (m # parents) rev2 = (v, v)" "previous_gap (chain_cov (m # parents)) rev2 v"
      using IH g2 by blast
    moreover have "{unat v<..unat revision} \<subseteq> {unat v<..unat rev2} \<union> {unat rev2<..unat revision}" by auto
    ultimately have "previous_gap (chain_cov (m # parents)) revision v"
      using g2 unfolding previous_gap_def by (meson Un_least le_trans subset_trans)
    with \<open>previous_loop (m # parents) rev2 = (v, v)\<close> show ?thesis using loop True by simp
  next
    case False
    then have "unat rev2 = unat revision" using g2 by (simp add: word_less_nat_alt)
    then have "rev2 = revision" by (rule unsigned_word_eqI)
    then show ?thesis using loop False g2 by (simp add: previous_gap_def)
  qed
qed

lemma chain_previous_gap:
  assumes "\<forall>m. Some m \<in> set ms \<longrightarrow> stored_ok m" "r \<noteq> NO_REVISION" "ms \<noteq> []"
  shows "if unat r \<in> chain_cov ms
    then chain_previous ms r < r \<and> previous_gap (chain_cov ms) r (chain_previous ms r)
    else chain_previous ms r = NO_REVISION"
proof -
  obtain v where v: "previous_loop ms r = (v, v)" "previous_gap (chain_cov ms) r v"
    using previous_loop_gap [OF assms(1,2)] by blast
  then have "chain_previous ms r = (if v = r then NO_REVISION else v)" using assms(2,3) by (cases ms) auto
  moreover have "v = r \<longleftrightarrow> unat r \<notin> chain_cov ms"
  proof
    show "unat r \<notin> chain_cov ms" if "v = r" using v(2) that by (simp add: previous_gap_def)
    show "v = r" if "unat r \<notin> chain_cov ms"
    proof (rule unsigned_word_eqI, rule ccontr)
      assume "unat v \<noteq> unat r"
      then have "unat r \<in> {unat v<..unat r}" using v(2) by (simp add: previous_gap_def)
      then show False using v(2) that by (auto simp: previous_gap_def)
    qed
  qed
  ultimately show ?thesis using v(2) by (auto simp: previous_gap_def word_less_nat_alt le_less unsigned_word_eqI)
qed

subsection \<open>The container as a map from paths to ranges\<close>

definition sri_rep :: "skip_revision_info \<Rightarrow> bool" where
  "sri_rep s \<longleftrightarrow> distinct (map fst (sri_data s)) \<and> index_rep ucast (map fst (sri_data s)) (sri_index s)"

definition sri_stored_ok :: "skip_revision_info \<Rightarrow> bool" where
  "sri_stored_ok s \<longleftrightarrow> (\<forall>e \<in> set (sri_data s). stored_ok (snd e))"

definition sri_light :: "skip_revision_info \<Rightarrow> bool" where
  "sri_light s \<longleftrightarrow> load_ok (sri_index s) \<and> length (sri_data s) \<le> 119304646"

interpretation skips: hash_container sri_functor "map fst" "\<lambda>v. v" ucast "\<lambda>_. True"
  by unfold_locales (auto simp: sri_functor_def)

lemma sri_init_ok: "sri_rep sri_init" "sri_stored_ok sri_init" "sri_light sri_init"
  using load_ok_init by (simp_all add: sri_rep_def sri_init_def sri_stored_ok_def sri_light_def index_rep_init)

lemma sri_rep_length: "sri_rep s \<Longrightarrow> length (sri_data s) < 2 ^ LENGTH(32)"
  by (simp add: sri_rep_def index_rep_def)

lemma sri_find_index: "sri_rep s \<Longrightarrow>
  qh_find (sri_functor (sri_data s)) (sri_index s) path = Some (index_in (map fst (sri_data s)) path)"
  unfolding sri_rep_def by (blast intro: skips.find_key)

lemma index_in_map_of:
  assumes "distinct (map fst d)" "length d < 2 ^ LENGTH('i :: len)"
  shows "if (index_in (map fst d) k :: 'i word) = NO_INDEX then k \<notin> fst ` set d
    else \<exists>n < length d. unat (index_in (map fst d) k :: 'i word) = n \<and> fst (d ! n) = k \<and> map_of d k = Some (snd (d ! n))"
proof (cases "k \<in> fst ` set d")
  case False
  then show ?thesis by (simp add: index_in_def)
next
  case True
  then obtain n where n: "n < length (map fst d)" "map fst d ! n = k" by (metis in_set_conv_nth set_map)
  have "(index_in (map fst d) k :: 'i word) = of_nat n" using index_in_nth [OF assms(1) n(1)] n(2) by simp
  moreover have "unat (of_nat n :: 'i word) = n" using n assms(2) by (simp add: unat_of_nat_small)
  moreover have "map_of d k = Some (snd (d ! n))"
    using map_of_eq_Some_iff [OF assms(1), of k] n nth_mem [of n d] by (metis length_map nth_map prod.collapse)
  moreover have "(index_in (map fst d) k :: 'i word) \<noteq> NO_INDEX"
    using True index_in_NO_INDEX_iff [of "map fst d" k, where 'i = 'i] assms(2) by simp
  ultimately show ?thesis using n by auto
qed

lemma map_of_None: "k \<notin> fst ` set d \<Longrightarrow> map_of d k = None"
  by (simp add: map_of_eq_None_iff)

lemma sri_Find_map_of: "sri_rep s \<Longrightarrow> sri_Find path s = Some (map_of (sri_data s) path)"
  using index_in_map_of [of "sri_data s" path, where 'i = 32] sri_find_index [of s path] sri_rep_length [of s]
  by (auto simp: sri_Find_def sri_rep_def map_of_None split: if_splits)

lemma map_of_update_nth:
  assumes "distinct (map fst d)" "n < length d"
  shows "map_of (d[n := (fst (d ! n), v)]) = (map_of d)(fst (d ! n) \<mapsto> v)"
  using assms
proof (induction d arbitrary: n)
  case (Cons e d)
  show ?case
  proof (cases n)
    case 0
    then show ?thesis by (cases e) (simp add: fun_eq_iff)
  next
    case (Suc m)
    then have "map_of (d[m := (fst (d ! m), v)]) = (map_of d)(fst (d ! m) \<mapsto> v)" using Cons.prems Suc by (intro Cons.IH) simp_all
    moreover have "fst (d ! m) \<noteq> fst e" using Cons.prems Suc by (metis distinct.simps(2) imageI length_Cons list.simps(9) nth_mem set_map Suc_less_eq)
    ultimately show ?thesis using Suc by (cases e) (auto simp: fun_upd_def fun_eq_iff)
  qed
qed simp

text \<open>Adding a range: the ranges of the path change as \<open>spr_Add\<close> says, those of no other path.\<close>

lemma sri_Add_ok:
  assumes rep: "sri_rep s" and light: "sri_light s" and red: "sri_TryReduceRange avail r n = (r', n')" "n' \<noteq> 0"
  shows "\<exists>s'. sri_Add avail path r n s = Some s' \<and> sri_rep s' \<and>
    map_of (sri_data s') = (map_of (sri_data s))(path \<mapsto> spr_Add r' n' (case map_of (sri_data s) path of None \<Rightarrow> [] | Some m \<Rightarrow> m))"
proof (cases "path \<in> fst ` set (sri_data s)")
  case False
  let ?d = "sri_data s @ [(path, [])]"
  have f: "qh_find (sri_functor (sri_data s)) (sri_index s) path = Some NO_INDEX"
    using sri_find_index [OF rep, of path] False by (simp add: index_in_def)
  have "\<exists>T'. qh_insert (sri_functor ?d) path (of_nat (length (map fst (sri_data s)))) (sri_index s) = Some T' \<and>
      index_rep ucast (map fst (sri_data s) @ [path]) T' \<and> (load_ok (sri_index s) \<and> length (map fst (sri_data s)) \<le> 119304646 \<longrightarrow> load_ok T')"
  proof (rule skips.insert_key)
    show "index_rep ucast (map fst (sri_data s)) (sri_index s)" using rep by (simp add: sri_rep_def)
    then show "can_grow_by 1 (sri_index s)" using light skips.index_rep_can_grow by (auto simp: sri_light_def)
    show "length (map fst (sri_data s)) + 1 < 2 ^ LENGTH(32)" using light by (simp add: sri_light_def)
  qed (auto simp: nth_append)
  then obtain T where T: "qh_insert (sri_functor ?d) path (of_nat (length (sri_data s))) (sri_index s) = Some T"
      "index_rep ucast (map fst (sri_data s) @ [path]) T" by auto
  have d: "?d[length ?d - 1 := (path, spr_Add r' n' [])] = sri_data s @ [(path, spr_Add r' n' [])]" by simp
  have "sri_Add avail path r n s = Some (s\<lparr>sri_data := sri_data s @ [(path, spr_Add r' n' [])], sri_index := T\<rparr>)"
    using red f T(1) by (simp add: sri_Add_def Let_def)
  moreover have "map_of (sri_data s) path = None" using False by (simp add: map_of_eq_None_iff)
  moreover have "map_of (sri_data s @ [(path, m)]) = (map_of (sri_data s))(path \<mapsto> m)" for m
    using map_of_None [OF False] by (auto simp: map_add_def fun_eq_iff split: option.splits)
  ultimately show ?thesis using T(2) rep False by (auto simp: sri_rep_def)
next
  case True
  then obtain i where i: "qh_find (sri_functor (sri_data s)) (sri_index s) path = Some i" "i \<noteq> NO_INDEX"
      "unat i < length (sri_data s)" "fst (sri_data s ! unat i) = path" "map_of (sri_data s) path = Some (snd (sri_data s ! unat i))"
    using index_in_map_of [of "sri_data s" path, where 'i = 32] sri_find_index [OF rep, of path] sri_rep_length [OF rep] rep
    by (auto simp: sri_rep_def split: if_splits)
  let ?d = "(sri_data s)[unat i := (path, spr_Add r' n' (snd (sri_data s ! unat i)))]"
  have "sri_Add avail path r n s = Some (s\<lparr>sri_data := ?d\<rparr>)"
    using red i by (simp add: sri_Add_def Let_def case_prod_beta)
  moreover have "map fst ?d = map fst (sri_data s)" using i(3,4) by (auto simp: map_update list_update_same_conv)
  moreover have "map_of ?d = (map_of (sri_data s))(path \<mapsto> spr_Add r' n' (snd (sri_data s ! unat i)))"
    using map_of_update_nth [OF _ i(3)] rep i(4) by (simp add: sri_rep_def)
  ultimately show ?thesis using rep i(5) by (simp add: sri_rep_def)
qed

lemma spr_Add_empty: "spr_Add r n [] = [(r, n)]"
  by (simp add: spr_Add_def map_before_def map_from_def spr_join_next_def Let_def)


subsection \<open>A path and its parents\<close>

lemma ancestor_cases:
  assumes "pd_path d i = pd_path d p @ [e]"
  shows "prefix (pd_path d a) (pd_path d i) \<longleftrightarrow> pd_path d a = pd_path d i \<or> prefix (pd_path d a) (pd_path d p)"
  using assms by (metis prefix_order.refl prefix_snoc)

lemma path_chain_ok:
  assumes inv: "pd_inv d" and rep: "sri_rep s"
  shows "unat path < length (pd_keys d) \<Longrightarrow> \<exists>ms. path_chain d s path = Some ms \<and> ms \<noteq> [] \<and>
    (\<forall>m. Some m \<in> set ms \<longleftrightarrow>
       (\<exists>a. unat a < length (pd_keys d) \<and> prefix (pd_path d a) (pd_path d path) \<and> map_of (sri_data s) a = Some m))"
proof (induction "unat path" arbitrary: path rule: less_induct)
  case less
  have ni: "path \<noteq> NO_INDEX"
    using less.prems pd_keys_length [OF inv] unat_NO_INDEX [where 'i = 32] by auto
  show ?case
  proof (cases "path = 0")
    case True
    have "pd_GetParent d 0 = Some NO_INDEX"
      using pd_accessors(1) [OF inv, of 0] pd_invD(3) [OF inv] less.prems True
      by (auto simp: tree_ok_def hd_conv_nth simp del: length_pd_keys)
    moreover have "path_chain d s NO_INDEX = Some []" by (subst path_chain.simps) simp
    ultimately have "path_chain d s path = Some [map_of (sri_data s) path]"
      using ni sri_Find_map_of [OF rep] True by (subst path_chain.simps) simp
    moreover have "(\<exists>a. unat a < length (pd_keys d) \<and> prefix (pd_path d a) (pd_path d path) \<and> map_of (sri_data s) a = Some m) \<longleftrightarrow>
        map_of (sri_data s) path = Some m" for m
      using pd_path_eq_iff [OF inv _ less.prems] less.prems True by (auto simp del: length_pd_keys intro: exI [of _ 0])
    ultimately show ?thesis by (auto simp del: length_pd_keys)
  next
    case False
    obtain p e where p: "pd_GetParent d path = Some p" "unat p < unat path" "pd_path d path = pd_path d p @ [e]"
      using pd_parent [OF inv less.prems False] by blast
    obtain ms where ms: "path_chain d s p = Some ms"
        "\<And>m. Some m \<in> set ms \<longleftrightarrow> (\<exists>a. unat a < length (pd_keys d) \<and> prefix (pd_path d a) (pd_path d p) \<and> map_of (sri_data s) a = Some m)"
      using less.hyps [OF p(2) less_trans [OF p(2) less.prems]] by (elim exE conjE) blast
    have chain: "path_chain d s path = Some (map_of (sri_data s) path # ms)"
      using ni sri_Find_map_of [OF rep] p(1) ms(1) by (subst path_chain.simps) simp
    have ranges: "Some m \<in> set (map_of (sri_data s) path # ms) \<longleftrightarrow>
        (\<exists>a. unat a < length (pd_keys d) \<and> prefix (pd_path d a) (pd_path d path) \<and> map_of (sri_data s) a = Some m)" for m
    proof -
      have eq: "unat a < length (pd_keys d) \<and> prefix (pd_path d a) (pd_path d path) \<and> map_of (sri_data s) a = Some m \<longleftrightarrow>
          a = path \<and> map_of (sri_data s) a = Some m \<or>
          unat a < length (pd_keys d) \<and> prefix (pd_path d a) (pd_path d p) \<and> map_of (sri_data s) a = Some m" for a
        using ancestor_cases [OF p(3), of a] pd_path_eq_iff [OF inv _ less.prems, of a] less.prems
        by (cases "unat a < length (pd_keys d)") (auto simp del: length_pd_keys)
      have "(\<exists>a. unat a < length (pd_keys d) \<and> prefix (pd_path d a) (pd_path d path) \<and> map_of (sri_data s) a = Some m) \<longleftrightarrow>
          (\<exists>a. a = path \<and> map_of (sri_data s) a = Some m) \<or> Some m \<in> set ms"
        unfolding eq ms(2) by (rule ex_disj_distrib)
      then show ?thesis by auto
    qed
    show ?thesis unfolding chain using ranges by (intro exI [of _ "map_of (sri_data s) path # ms"]) simp
  qed
qed

text \<open>The revisions that are skipped for a path: those stored for it or for one of its parents.\<close>

definition skipped :: "path_dictionary \<Rightarrow> skip_revision_info \<Rightarrow> index_t \<Rightarrow> nat set" where
  "skipped d s path = {x. \<exists>a m. unat a < length (pd_keys d) \<and> prefix (pd_path d a) (pd_path d path) \<and>
     map_of (sri_data s) a = Some m \<and> x \<in> cov m}"

subsection \<open>Reducing a range\<close>

lemma raise_lower_ok:
  "unat r + unat n < 2 ^ 32 \<Longrightarrow> raise_lower avail r n = (r', n') \<Longrightarrow>
   unat r \<le> unat r' \<and> unat r' + unat n' = unat r + unat n \<and> (\<forall>x. r \<le> x \<and> x < r' \<longrightarrow> avail x) \<and> (n' \<noteq> 0 \<longrightarrow> \<not> avail r')"
proof (induction avail r n rule: raise_lower.induct)
  case (1 avail r n)
  show ?case
  proof (cases "n > 0 \<and> avail r")
    case False
    then show ?thesis using "1.prems" by (auto simp: raise_lower.simps [of avail r n] word_gt_0)
  next
    case True
    have u: "unat (n - 1) = unat n - 1" "0 < unat n" using True by (auto simp: unat_minus_one word_gt_0 unat_gt_0)
    have r1: "unat (r + 1) = unat r + 1" using "1.prems"(1) u(2) by (subst unat_add_small) auto
    have "raise_lower avail (r + 1) (n - 1) = (r', n')" using "1.prems"(2) True by (simp add: raise_lower.simps [of avail r n])
    then have IH: "unat (r + 1) \<le> unat r'" "unat r' + unat n' = unat (r + 1) + unat (n - 1)"
        "\<forall>x. r + 1 \<le> x \<and> x < r' \<longrightarrow> avail x" "n' \<noteq> 0 \<longrightarrow> \<not> avail r'"
      using "1.IH" [OF True] "1.prems"(1) r1 u by auto
    have "avail x" if "r \<le> x" "x < r'" for x
    proof (cases "x = r")
      case True
      then show ?thesis using \<open>n > 0 \<and> avail r\<close> by simp
    next
      case False
      then have "r + 1 \<le> x" using that(1) r1 by (simp add: word_le_nat_alt word_unat_eq_iff)
      then show ?thesis using IH(3) that(2) by blast
    qed
    then show ?thesis using IH r1 u by auto
  qed
qed

lemma lower_upper_ok:
  "unat r + unat n < 2 ^ 32 \<Longrightarrow> lower_upper avail r n = n' \<Longrightarrow>
   unat n' \<le> unat n \<and> (\<forall>x. unat r + unat n' \<le> unat x \<and> unat x < unat r + unat n \<longrightarrow> avail x) \<and> (n' \<noteq> 0 \<longrightarrow> \<not> avail (r + n' - 1))"
proof (induction avail r n rule: lower_upper.induct)
  case (1 avail r n)
  show ?case
  proof (cases "n > 0 \<and> avail (r + n - 1)")
    case False
    then show ?thesis using "1.prems" by (auto simp: lower_upper.simps [of avail r n] word_gt_0)
  next
    case True
    have u: "unat (n - 1) = unat n - 1" "0 < unat n" using True by (auto simp: unat_minus_one word_gt_0 unat_gt_0)
    have last: "unat (r + n - 1) = unat r + unat n - 1"
      using "1.prems"(1) u unat_add_small [of r "n - 1"] by (simp add: add_diff_eq)
    have "lower_upper avail r (n - 1) = n'" using "1.prems"(2) True by (simp add: lower_upper.simps [of avail r n])
    then have IH: "unat n' \<le> unat (n - 1)" "\<forall>x. unat r + unat n' \<le> unat x \<and> unat x < unat r + unat (n - 1) \<longrightarrow> avail x"
        "n' \<noteq> 0 \<longrightarrow> \<not> avail (r + n' - 1)"
      using "1.IH" [OF True] "1.prems"(1) u by auto
    have "avail x" if "unat r + unat n' \<le> unat x" "unat x < unat r + unat n" for x
    proof (cases "unat x = unat (r + n - 1)")
      case True
      then have "x = r + n - 1" by (rule unsigned_word_eqI)
      then show ?thesis using \<open>n > 0 \<and> avail (r + n - 1)\<close> by simp
    next
      case False
      then show ?thesis using IH(2) that u last by auto
    qed
    then show ?thesis using IH u by auto
  qed
qed


subsection \<open>Properties\<close>

definition sri_ranges :: "skip_revision_info \<Rightarrow> index_t \<Rightarrow> ranges" where
  "sri_ranges s path = (case map_of (sri_data s) path of None \<Rightarrow> [] | Some m \<Rightarrow> m)"

lemma sri_ranges_stored_ok: "sri_stored_ok s \<Longrightarrow> stored_ok (sri_ranges s path)"
  by (fastforce simp: sri_ranges_def sri_stored_ok_def stored_ok_def split: option.splits dest: map_of_SomeD)

lemma sri_stored_okI: "sri_rep s \<Longrightarrow> (\<And>p m. map_of (sri_data s) p = Some m \<Longrightarrow> stored_ok m) \<Longrightarrow> sri_stored_ok s"
  by (auto simp: sri_rep_def sri_stored_ok_def)

text \<open>
  A range to be skipped is first reduced by the revisions whose changes are cached: those
  taken off are cached, and what is left begins and ends with revisions that are not.
\<close>

lemma skip_info_reduce:
  assumes "unat r + unat n < 2 ^ 32" "sri_TryReduceRange avail r n = (r', n')"
  shows "unat r \<le> unat r' \<and> unat r' + unat n' \<le> unat r + unat n \<and>
    (\<forall>x. unat r \<le> unat x \<and> unat x < unat r + unat n \<and> (unat x < unat r' \<or> unat r' + unat n' \<le> unat x) \<longrightarrow> avail x) \<and>
    (n' \<noteq> 0 \<longrightarrow> \<not> avail r' \<and> \<not> avail (r' + n' - 1))"
proof -
  obtain q k where q: "raise_lower avail r n = (q, k)" by force
  then have n': "q = r'" "lower_upper avail r' k = n'" using assms(2) by (auto simp: sri_TryReduceRange_def)
  note a = raise_lower_ok [OF assms(1) q [unfolded n'(1)]]
  then have "unat r' + unat k < 2 ^ 32" using assms(1) by simp
  note b = lower_upper_ok [OF this n'(2)]
  have "n' \<noteq> 0 \<Longrightarrow> k \<noteq> 0" using b by (auto simp: unat_eq_zero)
  then show ?thesis using a b by (auto simp: word_le_nat_alt word_less_nat_alt)
qed

lemma skip_info_reduce_witness:
  "sri_TryReduceRange (\<lambda>x. x = 10 \<or> x = 14) 10 5 = (11, 3) \<and> (10 :: nat) \<le> unat (11 :: revision_t) \<and>
   unat (11 :: revision_t) + unat (3 :: revision_t) \<le> 15"
proof -
  have e: "sri_TryReduceRange (\<lambda>x. x = 10 \<or> x = 14) 10 5 = (11, 3)"
    by (simp add: sri_TryReduceRange_def raise_lower.simps lower_upper.simps)
  show ?thesis using skip_info_reduce [OF _ e] e by simp
qed

text \<open>
  C33.  Adding a range for a path keeps the stored ranges disjoint, apart and above revision 0, adds
  exactly the reduced range to what is skipped for this path, and leaves the other paths alone --
  provided that no more than one of the stored ranges starts behind the new start within the new range
  or at its end.
\<close>

theorem skip_info_add:
  assumes rep: "sri_rep s" "sri_light s" "sri_stored_ok s"
    and n: "sri_TryReduceRange avail r n = (r', n')" "n' \<noteq> 0" "r \<noteq> 0" "unat r + unat n < 2 ^ 32"
    and one: "length (filter (\<lambda>e. unat r' < unat (fst e) \<and> unat (fst e) \<le> unat r' + unat n') (sri_ranges s path)) \<le> 1"
  shows "\<exists>s'. sri_Add avail path r n s = Some s' \<and> sri_rep s' \<and> sri_stored_ok s' \<and>
    cov (sri_ranges s' path) = cov (sri_ranges s path) \<union> {unat r'..<unat r' + unat n'} \<and>
    (\<forall>q. q \<noteq> path \<longrightarrow> sri_ranges s' q = sri_ranges s q)"
proof -
  obtain q k where q: "raise_lower avail r n = (q, k)" by force
  then have l: "q = r'" "lower_upper avail r' k = n'" using n(1) by (auto simp: sri_TryReduceRange_def)
  note a = raise_lower_ok [OF n(4) q [unfolded l(1)]]
  then have "unat r' + unat k < 2 ^ 32" using n(4) by simp
  note b = lower_upper_ok [OF this l(2)]
  have r': "0 < unat r'" "unat r' + unat n' < 2 ^ 32" "0 < unat n'"
    using a b n(2-4) unat_gt_0 [of r] unat_gt_0 [of n'] by linarith+
  obtain s' where s': "sri_Add avail path r n s = Some s'" "sri_rep s'"
      "map_of (sri_data s') = (map_of (sri_data s))(path \<mapsto> spr_Add r' n' (sri_ranges s path))"
    using sri_Add_ok [OF rep(1,2) n(1,2), of path] by (auto simp: sri_ranges_def)
  have m: "ranges_ok (sri_ranges s path)" "0 \<notin> cov (sri_ranges s path)"
    using sri_ranges_stored_ok [OF rep(3)] by (auto simp: stored_ok_def)
  note add = spr_Add_ok [OF m(1) r'(3,2) one]
  have st: "stored_ok (spr_Add r' n' (sri_ranges s path))" using add m(2) r'(1) by (auto simp: stored_ok_def)
  have "sri_stored_ok s'"
  proof (rule sri_stored_okI [OF s'(2)])
    fix p m assume "map_of (sri_data s') p = Some m"
    then show "stored_ok m" using st rep(3) unfolding s'(3)
      by (auto simp: sri_stored_ok_def split: if_splits dest!: map_of_SomeD)
  qed
  moreover have "sri_ranges s' path = spr_Add r' n' (sri_ranges s path)" "\<forall>q. q \<noteq> path \<longrightarrow> sri_ranges s' q = sri_ranges s q"
    using s'(3) by (auto simp: sri_ranges_def)
  ultimately show ?thesis using s'(1,2) add by auto
qed

theorem skip_info_add_witness:
  "\<exists>s'. sri_Add (\<lambda>_. False) 0 10 5 sri_init = Some s' \<and> cov (sri_ranges s' 0) = {10..<15}"
proof -
  have "sri_TryReduceRange (\<lambda>_. False) 10 5 = (10, 5)"
    by (simp add: sri_TryReduceRange_def raise_lower.simps lower_upper.simps)
  from skip_info_add [OF sri_init_ok(1,3,2) this, of 0] show ?thesis by (auto simp: sri_ranges_def sri_init_def)
qed

text \<open>
  C32.  The previous revision for a path: when the revision is skipped for the path or one of
  its parents, the largest smaller revision that is skipped for none of them, otherwise
  \<open>NO_REVISION\<close>; the loops and the recursion over the parents end.
\<close>

theorem skip_info_previous:
  assumes inv: "pd_inv d" and s: "sri_rep s" "sri_stored_ok s"
    and path: "unat path < length (pd_keys d)" and r: "r \<noteq> NO_REVISION"
  shows "\<exists>v. sri_GetPreviousRevision d s path r = Some v \<and>
    (if unat r \<in> skipped d s path
     then v < r \<and> unat v \<notin> skipped d s path \<and> {unat v<..unat r} \<subseteq> skipped d s path
     else v = NO_REVISION)"
proof -
  obtain ms where ms: "path_chain d s path = Some ms" "ms \<noteq> []"
    "\<And>m. Some m \<in> set ms \<longleftrightarrow> (\<exists>a. unat a < length (pd_keys d) \<and> prefix (pd_path d a) (pd_path d path) \<and> map_of (sri_data s) a = Some m)"
    using path_chain_ok [OF inv s(1) path] by blast
  have "\<forall>m. Some m \<in> set ms \<longrightarrow> stored_ok m"
    using s(2) ms(3) map_of_SomeD by (fastforce simp: sri_stored_ok_def)
  note g = chain_previous_gap [OF this r ms(2)]
  have "chain_cov ms = skipped d s path" by (auto simp: chain_cov_def skipped_def ms(3))
  with g show ?thesis using ms(1) by (auto simp: sri_GetPreviousRevision_def previous_gap_def split: if_splits)
qed

theorem skip_info_previous_witness:
  "\<exists>d s v. pd_init = Inr d \<and> sri_Add (\<lambda>_. False) 0 10 5 sri_init = Some s \<and>
     sri_GetPreviousRevision d s 0 12 = Some v \<and> v < 12 \<and> {unat v<..12} \<subseteq> {10..<15}"
proof -
  obtain d where d: "pd_init = Inr d" "pd_inv d" using pd_init_ok by blast
  obtain s where s: "sri_Add (\<lambda>_. False) 0 10 5 sri_init = Some s" "sri_rep s"
      "map_of (sri_data s) = (map_of (sri_data sri_init))(0 \<mapsto> spr_Add 10 5 [])"
    using sri_Add_ok [OF sri_init_ok(1,3), of "\<lambda>_. False" 10 5 10 5 0]
    by (auto simp: sri_TryReduceRange_def raise_lower.simps lower_upper.simps sri_init_def)
  have m: "map_of (sri_data s) = (\<lambda>_. None)(0 \<mapsto> [(10, 5)])" using s(3) by (simp add: spr_Add_empty sri_init_def)
  have st: "sri_stored_ok s"
    by (rule sri_stored_okI [OF s(2)]) (auto simp: m stored_ok_def ranges_ok_def split: if_splits)
  have sk: "skipped d s 0 = {10..<15}"
    using pd_inv_root [OF d(2)] pd_path_eq_iff [OF d(2), of _ 0]
    by (auto simp: skipped_def m cov_def split: if_splits intro!: exI [of _ 0])
  from skip_info_previous [OF d(2) s(2) st pd_inv_root [OF d(2)], of 12] obtain v where
    "sri_GetPreviousRevision d s 0 12 = Some v" "v < 12" "{unat v<..12} \<subseteq> {10..<15}"
    unfolding sk by (auto simp: NO_INDEX_def split: if_splits)
  then show ?thesis using d(1) s(1) by blast
qed

text \<open>An addition ends with the join of one entry, which holds the new range, and the ranges behind the new start.\<close>

lemma spr_Add_joins:
  assumes ok: "ranges_ok m" and sz: "unat start + unat sz < 2 ^ 32"
  shows "\<exists>before s n after end_rev. spr_Add start sz m = spr_join_next before (s, n) after end_rev \<and>
    (\<forall>e \<in> set before. unat (fst e) < unat start) \<and> unat s \<le> unat start \<and> unat start + unat sz \<le> unat end_rev \<and>
    ranges_ok after \<and> set after \<subseteq> set m \<and> (\<forall>e \<in> set m. unat start < unat (fst e) \<longrightarrow> e \<in> set after)"
proof -
  let ?before = "map_before start m"
  obtain after old where A: "map_from start (map_emplace start sz m) = (start, old) # after"
      "(\<forall>e \<in> set m. fst e \<noteq> start) \<and> old = sz \<and> m = ?before @ after \<or> m = ?before @ (start, old) # after"
      "\<forall>e \<in> set ?before. unat (fst e) < unat start" "\<forall>e \<in> set after. unat start < unat (fst e)"
    using map_emplace_split [OF ok, of start sz] by blast
  obtain mid where mid: "m = ?before @ mid @ after" "\<forall>e \<in> set mid. fst e = start"
    using A(2) by (metis append_Cons append_Nil empty_iff fst_conv list.set(1) set_ConsD)
  have a: "ranges_ok after" using ok mid(1) by (metis ranges_ok_append)
  have in_m: "set m = set ?before \<union> set mid \<union> set after" using arg_cong [OF mid(1), of set] by auto
  have rest: "set after \<subseteq> set m" "\<forall>e \<in> set m. unat start < unat (fst e) \<longrightarrow> e \<in> set after"
    unfolding in_m using A(3) mid(2) by (auto dest: less_asym)
  have er: "unat (start + sz) = unat start + unat sz" using sz by (rule unat_add_small)
  show ?thesis
  proof (cases "?before \<noteq> [] \<and> fst (last ?before) + snd (last ?before) \<ge> start")
    case False
    have "spr_Add start sz m = spr_join_next ?before (start, if old < sz then sz else old) after (start + sz)"
      by (simp only: spr_Add_def Let_def A(1) list.sel fst_conv snd_conv if_not_P [OF False])
    then show ?thesis using A(3) a rest er by (metis order_refl)
  next
    case True
    define e' where "e' = (if start + sz < fst (last ?before) + snd (last ?before) then fst (last ?before) + snd (last ?before) else start + sz)"
    have add: "spr_Add start sz m = spr_join_next (butlast ?before) (fst (last ?before), e' - fst (last ?before)) after e'"
      using True by (simp add: spr_Add_def A(1) Let_def e'_def)
    have "unat start + unat sz \<le> unat e'" using er by (auto simp: e'_def word_less_nat_alt)
    moreover have "unat (fst (last ?before)) \<le> unat start" using A(3) True last_in_set by (metis less_imp_le)
    moreover have "\<forall>e \<in> set (butlast ?before). unat (fst e) < unat start" using A(3) by (auto dest: in_set_butlastD)
    ultimately show ?thesis using add a rest by blast
  qed
qed

text \<open>
  C40.  A new range that holds the starts of two stored ones is joined with the first of them only, and the ranges then overlap:
  every revision of the new range that no range held before and that comes behind two such starts is covered, and yet the lookup
  says that it is not skipped.
\<close>

theorem skip_ranges_overlap:
  assumes ok: "ranges_ok m" and sz: "unat start + unat sz < 2 ^ 32"
    and two: "(p, n) \<in> set m" "(q, k) \<in> set m" "unat start < unat p" "unat p < unat q" "unat q \<le> unat r"
    and r: "unat r < unat start + unat sz" "unat r \<notin> cov m"
  shows "unat r \<in> cov (spr_Add start sz m) \<and> spr_FindPrevious r (spr_Add start sz m) = NO_REVISION"
proof -
  obtain before s l after end_rev where J: "spr_Add start sz m = spr_join_next before (s, l) after end_rev"
      "\<forall>e \<in> set before. unat (fst e) < unat start" "unat s \<le> unat start" "unat start + unat sz \<le> unat end_rev"
      "ranges_ok after" "set after \<subseteq> set m" "\<forall>e \<in> set m. unat start < unat (fst e) \<longrightarrow> e \<in> set after"
    using spr_Add_joins [OF ok sz] by blast
  have pq: "(p, n) \<in> set after" "(q, k) \<in> set after" using J(7) two by auto
  then obtain x rest where x: "after = x # rest" by (cases after) auto
  have less: "\<forall>e \<in> set rest. unat (fst x) < unat (fst e)" and rest: "ranges_ok rest" using J(5) unfolding x by (auto simp: ranges_ok_Cons)
  have q: "(q, k) \<in> set rest" using pq less two(4) unfolding x by fastforce
  then have xq: "unat (fst x) < unat q" using less by fastforce
  define l' where "l' = max end_rev (fst x + snd x) - s"
  have "fst x \<le> end_rev" using xq two(5) r(1) J(4) by (simp add: word_le_nat_alt)
  then have add: "spr_Add start sz m = before @ (s, l') # rest" by (simp add: J(1) x spr_join_next_def l'_def)
  have mx: "unat end_rev \<le> unat (max end_rev (fst x + snd x))" by (simp add: max_def word_le_nat_alt)
  then have "s \<le> max end_rev (fst x + snd x)" using J(3,4) by (simp add: word_le_nat_alt)
  then have "unat l' = unat (max end_rev (fst x + snd x)) - unat s" unfolding l'_def by (rule unat_sub)
  then have "unat r < unat s + unat l'" using mx J(4) r(1) by linarith
  moreover have sr: "unat s \<le> unat r" using J(3) two(3-5) by linarith
  ultimately have "unat r \<in> cov (spr_Add start sz m)" unfolding add by simp
  moreover have "spr_FindPrevious r (spr_Add start sz m) = NO_REVISION"
  proof -
    let ?up = "takeWhile (\<lambda>e. fst e \<le> r) rest"
    obtain y ys where y: "rest = y # ys" using q by (cases rest) auto
    have "unat (fst y) \<le> unat q" using q rest unfolding y by (auto simp: ranges_ok_Cons dest: bspec less_imp_le)
    then have ne: "?up \<noteq> []" using two(5) by (simp add: y word_le_nat_alt)
    have "\<forall>e \<in> set before. fst e \<le> r" using J(2) two(3-5) by (force simp: word_le_nat_alt)
    then have up: "takeWhile (\<lambda>e. fst e \<le> r) (spr_Add start sz m) = before @ (s, l') # ?up"
      unfolding add using sr by (simp add: word_le_nat_alt)
    define e where "e = last ?up"
    have "e \<in> set ?up" unfolding e_def using ne by (rule last_in_set)
    then have e: "e \<in> set m" "fst e \<le> r" using J(6) x by (auto dest: set_takeWhileD)
    have "unat (fst e + snd e) = unat (fst e) + unat (snd e)" using ok e(1) by (intro unat_add_small) (auto simp: ranges_ok_def)
    moreover have "unat (fst e) + unat (snd e) \<le> unat r" using r(2) e by (auto simp: cov_def word_le_nat_alt not_less)
    ultimately have "fst e + snd e \<le> r" by (simp add: word_le_nat_alt)
    moreover have "last (before @ (s, l') # ?up) = e" using ne by (simp add: e_def)
    ultimately show ?thesis by (simp add: spr_FindPrevious_def Let_def up)
  qed
  ultimately show ?thesis by blast
qed

theorem skip_ranges_overlap_witness:
  "ranges_ok [(10, 1), (20, 1)] \<and> spr_Add 5 100 [(10, 1), (20, 1)] = [(5, 100), (20, 1)] \<and>
   50 \<in> cov [(5, 100), (20, 1)] \<and> spr_FindPrevious 50 [(5, 100), (20, 1)] = NO_REVISION"
proof -
  have ok: "ranges_ok [(10, 1), (20, 1)]" by (simp add: ranges_ok_def)
  have add: "spr_Add 5 100 [(10, 1), (20, 1)] = [(5, 100), (20, 1)]"
    by (simp add: spr_Add_def map_before_def map_from_def spr_join_next_def Let_def)
  have "unat (50 :: revision_t) \<in> cov (spr_Add 5 100 [(10, 1), (20, 1)]) \<and>
      spr_FindPrevious 50 (spr_Add 5 100 [(10, 1), (20, 1)]) = NO_REVISION"
    by (rule skip_ranges_overlap [OF ok, where p = 10 and n = 1 and q = 20 and k = 1]) simp_all
  then show ?thesis unfolding add using ok by simp
qed

text \<open>
  Compression does not remove known revisions from the start of a range: it adds the reduced range
  under its new start and keeps the old one.
\<close>

lemma compress_keeps_known_start:
  "remove_known (\<lambda>x. x = 10) 0 [(10, 5)] = Some [(10, 5), (11, 4)]"
  by (simp add: remove_known.simps sri_TryReduceRange_def raise_lower.simps lower_upper.simps Let_def)

end
