(* ===== verification/SkipRevisionStreams.thy ===== *)
theory SkipRevisionStreams
  imports ContainerStreams SkipRevisionInfo
begin

section \<open>Vectors and skipped revisions in streams (src/LogCache/Containers/SkipRevisionInfo.cpp)\<close>

text \<open>
  The streams of vectors, and the stream operators of the skipped revisions.  The lemmas show that the skipped revisions
  survive a cache file unless their starts go down by one from one path to the next, in which case the data that is read is
  not the data that was written.
\<close>

subsection \<open>Vectors in sub-streams\<close>

definition PACKED_DWORD_STREAM_TYPE_ID :: dword where "PACKED_DWORD_STREAM_TYPE_ID = 0x31"
definition PACKED_TIME64_STREAM_TYPE_ID :: dword where "PACKED_TIME64_STREAM_TYPE_ID = 0x35"

text \<open>The stream of a vector: its values are those after the cast to the type of the stream.\<close>

definition integer_doc :: "dword \<Rightarrow> dword list \<Rightarrow> stream_doc" where
  "integer_doc subStreamID vs = packed_doc subStreamID DIFF_INTEGER_STREAM_TYPE_ID
     (write_vector po_AddSizeValue (do_Add po_AddInteger) po_FlushLastValue id vs diff_out_init)"

definition offset_doc :: "dword \<Rightarrow> dword list \<Rightarrow> stream_doc" where
  "offset_doc subStreamID vs = packed_doc subStreamID DIFF_DWORD_STREAM_TYPE_ID
     (write_vector po_AddSizeValue (do_Add po_Add) po_FlushLastValue id vs diff_out_init)"

definition dword_doc :: "dword \<Rightarrow> dword list \<Rightarrow> stream_doc" where
  "dword_doc subStreamID vs = packed_doc subStreamID PACKED_DWORD_STREAM_TYPE_ID
     (write_vector po_AddSizeValue po_Add po_FlushLastValue id vs packed_out_init)"

definition integer_vector :: "dword \<Rightarrow> stream_doc list \<Rightarrow> load_error + dword list" where
  "integer_vector subStreamID docs = bindE (typed_stream subStreamID DIFF_INTEGER_STREAM_TYPE_ID docs) (\<lambda>bytes.
     map_sum id fst (of_stream (read_vector pi_GetSizeValue (di_GetValue pi_GetInteger) id (diff_in_open bytes))))"

definition offset_vector :: "dword \<Rightarrow> stream_doc list \<Rightarrow> load_error + dword list" where
  "offset_vector subStreamID docs = bindE (typed_stream subStreamID DIFF_DWORD_STREAM_TYPE_ID docs) (\<lambda>bytes.
     map_sum id fst (of_stream (read_vector pi_GetSizeValue (di_GetValue pi_GetValue) id (diff_in_open bytes))))"

definition dword_vector :: "dword \<Rightarrow> stream_doc list \<Rightarrow> load_error + dword list" where
  "dword_vector subStreamID docs = bindE (typed_stream subStreamID PACKED_DWORD_STREAM_TYPE_ID docs) (\<lambda>bytes.
     map_sum id fst (of_stream (read_vector pi_GetSizeValue pi_GetValue id (packed_in_open bytes))))"

definition time_vector :: "dword \<Rightarrow> stream_doc list \<Rightarrow> load_error + 64 word list" where
  "time_vector subStreamID docs = bindE (typed_stream subStreamID PACKED_TIME64_STREAM_TYPE_ID docs) (\<lambda>bytes.
     map_sum id fst (of_stream (read_vector ti_GetSizeValue ti_GetValue id (time_in_open bytes))))"

definition composite_doc :: "dword \<Rightarrow> stream_doc list \<Rightarrow> stream_doc" where
  "composite_doc subStreamID docs = Doc subStreamID COMPOSITE_STREAM_TYPE_ID [] docs"

subsection \<open>The skipped revisions\<close>

definition sri_docs :: "skip_revision_info \<Rightarrow> stream_doc list" where
  "sri_docs s =
     [packed_doc 1 PACKED_DWORD_STREAM_TYPE_ID (po_FlushLastValue
        (fold po_Add (of_nat (length (sri_data s)) # map fst (sri_data s)) packed_out_init)),
      packed_doc 2 PACKED_DWORD_STREAM_TYPE_ID (po_FlushLastValue
        (fold po_Add (map (\<lambda>e. of_nat (length (snd e))) (sri_data s)) packed_out_init)),
      packed_doc 3 DIFF_DWORD_STREAM_TYPE_ID (po_FlushLastValue
        (fold (do_Add po_Add) (map fst (concat (map snd (sri_data s)))) diff_out_init)),
      packed_doc 4 DIFF_INTEGER_STREAM_TYPE_ID (po_FlushLastValue
        (fold (do_Add po_AddInteger) (map snd (concat (map snd (sri_data s)))) diff_out_init))]"

definition sri_write :: "(revision_t \<Rightarrow> bool) \<Rightarrow> skip_revision_info \<Rightarrow> (stream_doc list \<times> skip_revision_info) option" where
  "sri_write avail s = map_option (\<lambda>s. (sri_docs s, s)) (sri_Compress avail s)"

fun read_ranges :: "nat \<Rightarrow> diff_in \<Rightarrow> diff_in \<Rightarrow> ranges \<Rightarrow> stream_error + ranges \<times> diff_in \<times> diff_in" where
  "read_ranges 0 revisions sizes m = Inr (m, revisions, sizes)"
| "read_ranges (Suc n) revisions sizes m =
     bindE (di_GetValue pi_GetValue revisions) (\<lambda>(start, revisions).
     bindE (di_GetValue pi_GetInteger sizes) (\<lambda>(sz, sizes).
       read_ranges n revisions sizes (map_emplace start sz m)))"

fun read_paths ::
    "nat \<Rightarrow> packed_in \<Rightarrow> packed_in \<Rightarrow> diff_in \<Rightarrow> diff_in \<Rightarrow> skip_revision_info \<Rightarrow> load_error + skip_revision_info" where
  "read_paths 0 pathIDs entryCounts revisions sizes s = Inr s"
| "read_paths (Suc n) pathIDs entryCounts revisions sizes s =
     bindE (of_stream (pi_GetValue pathIDs)) (\<lambda>(pathID, pathIDs).
     bindE (of_stream (pi_GetValue entryCounts)) (\<lambda>(entryCount, entryCounts).
     bindE (of_stream (read_ranges (unat entryCount) revisions sizes [])) (\<lambda>(m, revisions, sizes).
     bindE (of_container (of_opt (qh_insert (sri_functor (sri_data s)) pathID (of_nat (length (sri_data s))) (sri_index s)))) (\<lambda>T.
       read_paths n pathIDs entryCounts revisions sizes (s\<lparr>sri_data := sri_data s @ [(pathID, m)], sri_index := T\<rparr>)))))"

definition sri_read :: "stream_doc list \<Rightarrow> skip_revision_info \<Rightarrow> load_error + skip_revision_info" where
  "sri_read stream s =
     bindE (typed_stream 1 PACKED_DWORD_STREAM_TYPE_ID stream) (\<lambda>pathIDs.
     bindE (typed_stream 2 PACKED_DWORD_STREAM_TYPE_ID stream) (\<lambda>entryCounts.
     bindE (typed_stream 3 DIFF_DWORD_STREAM_TYPE_ID stream) (\<lambda>revisions.
     bindE (typed_stream 4 DIFF_INTEGER_STREAM_TYPE_ID stream) (\<lambda>sizes.
     bindE (of_stream (pi_GetValue (packed_in_open pathIDs))) (\<lambda>(count, pathIDs).
       read_paths (unat count) pathIDs (packed_in_open entryCounts) (diff_in_open revisions) (diff_in_open sizes) (sri_Clear s))))))"

subsection \<open>Vectors come back\<close>

lemma doc_id_joined [simp]: "doc_id (joined d) = doc_id d"
  by (cases d) simp

lemma doc_parts [simp]:
  "doc_id (packed_doc i t s) = i" "doc_id (integer_doc i vs) = i" "doc_id (offset_doc i vs) = i" "doc_id (dword_doc i vs) = i"
  "doc_id (composite_doc i docs) = i"
  by (simp_all add: packed_doc_def integer_doc_def offset_doc_def dword_doc_def composite_doc_def)

lemma joined_composite [simp]: "doc_subs (joined (composite_doc i docs)) = map joined docs"
  by (simp add: composite_doc_def)

definition small_ints :: "dword list \<Rightarrow> bool" where
  "small_ints vs \<longleftrightarrow> length vs < 2 ^ 24 \<and> (\<forall>v \<in> set vs. \<bar>sint v\<bar> < 2 ^ 29)"

definition small_offsets :: "dword list \<Rightarrow> bool" where
  "small_offsets vs \<longleftrightarrow> length vs < 2 ^ 24 \<and> - 1 \<notin> set (diffs_from 0 vs)"

definition small_dwords :: "dword list \<Rightarrow> bool" where
  "small_dwords vs \<longleftrightarrow> length vs < 2 ^ 24 \<and> - 1 \<notin> set vs"

lemma integer_vector_back':
  assumes "small_ints vs"
  shows "\<exists>i. read_vector pi_GetSizeValue (di_GetValue pi_GetInteger) id (diff_in_open
      (bo_bytes (write_vector po_AddSizeValue (do_Add po_AddInteger) po_FlushLastValue id vs diff_out_init))) = Inr (vs, i)"
proof -
  have len: "length vs < 2 ^ 32" and d: "\<forall>v \<in> set (diffs_from 0 vs). - 2147483647 < sint v"
    using assms diffs_small [of 0 vs] by (simp_all add: small_ints_def)
  have st: "diff_integers.storable_all [] (map id vs)" using diff_integers_storable_all [of "[]" vs] len d by simp
  have fresh: "diff_fresh_out diff_out_init" "bo_bytes diff_out_init = []" "\<And>bs. diff_fresh (diff_in_open bs)"
    "\<And>bs. bi_current (diff_in_open bs) = bs"
    by (simp_all add: diff_fresh_out_def diff_out_init_def bo_bytes_def diff_fresh_def diff_in_open_def)
  from diff_integers.vector_roundtrip [of diff_out_init id vs id, OF fresh(1) st len] fresh(2-) show ?thesis
    by (metis append_Nil append_Nil2 id_apply)
qed

lemma dword_vector_back':
  assumes "small_dwords vs"
  shows "\<exists>i. read_vector pi_GetSizeValue pi_GetValue id (packed_in_open
      (bo_bytes (write_vector po_AddSizeValue po_Add po_FlushLastValue id vs packed_out_init))) = Inr (vs, i)"
proof -
  have len: "length vs < 2 ^ 32" and d: "- 1 \<notin> set vs" using assms by (simp_all add: small_dwords_def)
  have st: "packed.storable_all [] (map id vs)" using packed_storable_all [of "[]" vs] len d by simp
  have fresh: "packed_fresh packed_out_init" "bo_bytes packed_out_init = []" "\<And>bs. pi_count (packed_in_open bs) = 0"
    "\<And>bs. bi_current (packed_in_open bs) = bs"
    by (simp_all add: packed_fresh_def packed_out_init_def bo_bytes_def packed_in_open_def)
  from packed.vector_roundtrip [of packed_out_init id vs id, OF fresh(1) st len] fresh(2-) show ?thesis
    by (metis append_Nil append_Nil2 id_apply)
qed

lemma integer_vector_ok: "small_ints vs \<Longrightarrow> sub_stream i docs = Inr (joined (integer_doc i vs)) \<Longrightarrow> integer_vector i docs = Inr vs"
  using integer_vector_back' [of vs] by (auto simp: integer_vector_def typed_stream_def integer_doc_def)

lemma offset_vector_ok: "small_offsets vs \<Longrightarrow> sub_stream i docs = Inr (joined (offset_doc i vs)) \<Longrightarrow> offset_vector i docs = Inr vs"
  using diff_dword_vector_back [of vs] by (auto simp: offset_vector_def typed_stream_def offset_doc_def small_offsets_def)

lemma dword_vector_ok: "small_dwords vs \<Longrightarrow> sub_stream i docs = Inr (joined (dword_doc i vs)) \<Longrightarrow> dword_vector i docs = Inr vs"
  using dword_vector_back' [of vs] by (auto simp: dword_vector_def typed_stream_def dword_doc_def)

lemma time_vector_ok:
  assumes "length vs < 2 ^ 32" "to_write_vector vs time_out_init = Some s"
    "sub_stream i docs = Inr (joined (Doc i PACKED_TIME64_STREAM_TYPE_ID (bo_blocks s) []))"
  shows "time_vector i docs = Inr vs"
  using time_vector_back [OF assms(1)] assms(2,3) by (auto simp: time_vector_def typed_stream_def)

text \<open>The documents of vectors fit into the format.\<close>

lemma vector_docs_ok:
  "length vs < 2 ^ 24 \<Longrightarrow> doc_ok (integer_doc i vs)" "length vs < 2 ^ 24 \<Longrightarrow> doc_ok (offset_doc i vs)"
  "length vs < 2 ^ 24 \<Longrightarrow> doc_ok (dword_doc i vs)"
proof -
  assume n: "length vs < 2 ^ 24"
  have S1: "sized (0 + 15 + 15 * length vs + 15) (write_vector po_AddSizeValue (do_Add po_AddInteger) po_FlushLastValue id vs diff_out_init)"
    unfolding write_vector_def list.map_id0 id_apply by (intro sized_Flush sized_fold sized_do_Add sized_AddInteger sized_AddSizeValue sized_init)
  have S2: "sized (0 + 15 + 15 * length vs + 15) (write_vector po_AddSizeValue (do_Add po_Add) po_FlushLastValue id vs diff_out_init)"
    unfolding write_vector_def list.map_id0 id_apply by (intro sized_Flush sized_fold sized_do_Add sized_Add sized_AddSizeValue sized_init)
  have S3: "sized (0 + 15 + 15 * length vs + 15) (write_vector po_AddSizeValue po_Add po_FlushLastValue id vs packed_out_init)"
    unfolding write_vector_def list.map_id0 id_apply by (intro sized_Flush sized_fold sized_Add sized_AddSizeValue sized_init)
  show "doc_ok (integer_doc i vs)" unfolding integer_doc_def
    by (intro packed_doc_ok [OF sized_mono [OF S1] n]) (simp_all add: DIFF_INTEGER_STREAM_TYPE_ID_def)
  show "doc_ok (offset_doc i vs)" unfolding offset_doc_def
    by (intro packed_doc_ok [OF sized_mono [OF S2] n]) (simp_all add: DIFF_DWORD_STREAM_TYPE_ID_def)
  show "doc_ok (dword_doc i vs)" unfolding dword_doc_def
    by (intro packed_doc_ok [OF sized_mono [OF S3] n]) (simp_all add: PACKED_DWORD_STREAM_TYPE_ID_def)
qed

text \<open>A time stamp takes at most nine bytes.\<close>

lemma sized_bo_Add:
  assumes "sized n s" "length bs \<le> CHUNK_SIZE" "bo_Add bs s = Some s'"
  shows "sized (n + length bs) s'"
proof (cases "length (bo_current s) + length bs \<le> CHUNK_SIZE")
  case True
  then show ?thesis using assms by (auto simp: bo_Add_def bo_make_room_fits sized_def bo_bytes_def)
next
  case False
  then have "bo_make_room (length bs) s = Some (bo_Flush s)"
    using assms(2) by (subst bo_make_room.simps) (simp add: bo_make_room_fits bo_Flush_def)
  moreover have "bo_current s \<noteq> []" using False assms(2) by auto
  ultimately show ?thesis using assms by (auto simp: bo_Add_def bo_Flush_def sized_def bo_bytes_def)
qed

lemma sized_to_Add:
  assumes "sized n s" "to_Add v s = Some s'"
  shows "sized (n + 9) s'"
proof -
  have l: "length (time_code (v - to_lastValue s)) \<le> 9"
    using time_code_ok(2) [of "\<lparr>bi_first = [], bi_current = time_code (v - to_lastValue s), ti_lastValue = 0\<rparr>" "v - to_lastValue s" "[]"] by simp
  have "sized n (s\<lparr>to_lastValue := v\<rparr>)" using assms(1) by (simp add: sized_def bo_bytes_def)
  moreover have "length (time_code (v - to_lastValue s)) \<le> CHUNK_SIZE" using l by (simp add: CHUNK_SIZE_def)
  ultimately have "sized (n + length (time_code (v - to_lastValue s))) s'"
    using assms(2) unfolding to_Add_code by (rule sized_bo_Add)
  then show ?thesis by (rule sized_mono) (use l in simp)
qed

lemma sized_to_AddAll: "sized n s \<Longrightarrow> to_AddAll vs s = Some s' \<Longrightarrow> sized (n + 9 * length vs) s'"
proof (induction vs arbitrary: n s)
  case (Cons v vs)
  obtain s1 where s1: "to_Add v s = Some s1" "to_AddAll vs s1 = Some s'" using Cons.prems(2) by (auto split: bind_splits)
  from Cons.IH [OF sized_to_Add [OF Cons.prems(1) s1(1)] s1(2)] show ?case by (simp add: add.assoc)
qed simp

lemma sized_time_out_init [simp]: "sized n time_out_init"
  by (simp add: sized_def time_out_init_def bo_bytes_def)

lemma time_doc_ok:
  assumes "to_write_vector vs time_out_init = Some s" "length vs < 2 ^ 24"
  shows "doc_ok (Doc i PACKED_TIME64_STREAM_TYPE_ID (bo_blocks s) [])"
proof -
  obtain s1 where s1: "to_Add (ucast (ucast (of_nat (length vs) :: size_t) :: dword)) time_out_init = Some s1" "to_AddAll vs s1 = Some s"
    using assms(1) by (auto simp: to_write_vector_def to_AddSizeValue_def split: bind_splits)
  have "sized (0 + 9 + 9 * length vs) s" by (rule sized_to_AddAll [OF sized_to_Add [OF sized_time_out_init s1(1)] s1(2)])
  then have S: "sized (15 * length vs + 60) s" by (rule sized_mono) simp
  show ?thesis using packed_doc_ok [OF S assms(2), of PACKED_TIME64_STREAM_TYPE_ID i]
    by (simp add: packed_doc_def PACKED_TIME64_STREAM_TYPE_ID_def BLOB_STREAM_TYPE_ID_def COMPOSITE_STREAM_TYPE_ID_def)
qed

subsection \<open>The skipped revisions come back\<close>

text \<open>The stream gives the values of the list next.\<close>

definition yields :: "('i \<Rightarrow> stream_error + 'w \<times> 'i) \<Rightarrow> 'i \<Rightarrow> 'w list \<Rightarrow> bool" where
  "yields get i vs \<longleftrightarrow> (\<exists>i'. read_values get (length vs) i = Inr (vs, i'))"

lemma yields_Cons:
  assumes "yields get i (v # vs)"
  obtains i' where "get i = Inr (v, i')" "yields get i' vs"
  using assms by (auto simp: yields_def)

lemma map_emplace_last: "\<forall>e \<in> set m. fst e < k \<Longrightarrow> map_emplace k v m = m @ [(k, v)]"
  by (induction k v m rule: map_emplace.induct) auto

lemma read_ranges_ok:
  "sorted_wrt (<) (map fst (acc @ m)) \<Longrightarrow> yields (di_GetValue pi_GetValue) r (map fst m @ rs) \<Longrightarrow>
   yields (di_GetValue pi_GetInteger) z (map snd m @ zs) \<Longrightarrow>
   \<exists>r' z'. read_ranges (length m) r z acc = Inr (acc @ m, r', z') \<and> yields (di_GetValue pi_GetValue) r' rs \<and>
     yields (di_GetValue pi_GetInteger) z' zs"
proof (induction m arbitrary: acc r z)
  case (Cons e m)
  obtain r1 where r1: "di_GetValue pi_GetValue r = Inr (fst e, r1)" "yields (di_GetValue pi_GetValue) r1 (map fst m @ rs)"
    using Cons.prems(2) by (auto elim: yields_Cons)
  obtain z1 where z1: "di_GetValue pi_GetInteger z = Inr (snd e, z1)" "yields (di_GetValue pi_GetInteger) z1 (map snd m @ zs)"
    using Cons.prems(3) by (auto elim: yields_Cons)
  have "map_emplace (fst e) (snd e) acc = acc @ [e]"
    using Cons.prems(1) by (subst map_emplace_last) (auto simp: sorted_wrt_append)
  then show ?case using Cons.IH [of "acc @ [e]" r1 z1] Cons.prems(1) r1 z1 by simp
qed simp

definition ranges_sorted :: "(index_t \<times> ranges) list \<Rightarrow> bool" where
  "ranges_sorted d \<longleftrightarrow> (\<forall>e \<in> set d. sorted_wrt (<) (map fst (snd e)))"

lemma read_paths_step:
  assumes "pi_GetValue ids = Inr (p, ids')" "pi_GetValue counts = Inr (k, counts')" "read_ranges (unat k) r z [] = Inr (m, r', z')"
    and s: "index_rep ucast (map fst (sri_data s)) (sri_index s)" "load_ok (sri_index s)" "length (sri_data s) < 119304646"
  shows "\<exists>T. read_paths (Suc n) ids counts r z s = read_paths n ids' counts' r' z' (s\<lparr>sri_data := sri_data s @ [(p, m)], sri_index := T\<rparr>) \<and>
    index_rep ucast (map fst (sri_data s @ [(p, m)])) T \<and> load_ok T"
proof -
  have "\<exists>T'. qh_insert (sri_functor (sri_data s)) p (of_nat (length (map fst (sri_data s)))) (sri_index s) = Some T' \<and>
      index_rep ucast (map fst (sri_data s) @ [p]) T' \<and> (load_ok (sri_index s) \<and> length (map fst (sri_data s)) \<le> 119304646 \<longrightarrow> load_ok T')"
  proof (rule skips.insert_key)
    show "index_rep ucast (map fst (sri_data s)) (sri_index s)" by (rule s(1))
    then show "can_grow_by 1 (sri_index s)" using s(2,3) skips.index_rep_can_grow by auto
    show "length (map fst (sri_data s)) + 1 < 2 ^ LENGTH(32)" using s(3) by simp
  qed simp_all
  then show ?thesis using assms by auto
qed

lemma read_paths_ok:
  "yields pi_GetValue ids (map fst d) \<Longrightarrow> yields pi_GetValue counts (map (\<lambda>e. of_nat (length (snd e))) d) \<Longrightarrow>
   yields (di_GetValue pi_GetValue) r (map fst (concat (map snd d))) \<Longrightarrow>
   yields (di_GetValue pi_GetInteger) z (map snd (concat (map snd d))) \<Longrightarrow>
   ranges_sorted d \<Longrightarrow> (\<forall>e \<in> set d. length (snd e) < 2 ^ 32) \<Longrightarrow>
   distinct (map fst (sri_data s @ d)) \<Longrightarrow> index_rep ucast (map fst (sri_data s)) (sri_index s) \<Longrightarrow> load_ok (sri_index s) \<Longrightarrow>
   length (sri_data s) + length d \<le> 119304646 \<Longrightarrow>
   \<exists>s'. read_paths (length d) ids counts r z s = Inr s' \<and> sri_data s' = sri_data s @ d \<and> sri_rep s' \<and> load_ok (sri_index s')"
proof (induction d arbitrary: ids counts r z s)
  case Nil
  then show ?case by (simp add: sri_rep_def)
next
  case (Cons e d)
  obtain ids1 where ids: "pi_GetValue ids = Inr (fst e, ids1)" "yields pi_GetValue ids1 (map fst d)"
    using Cons.prems(1) by (auto elim: yields_Cons)
  obtain counts1 where counts: "pi_GetValue counts = Inr (of_nat (length (snd e)), counts1)"
      "yields pi_GetValue counts1 (map (\<lambda>e. of_nat (length (snd e))) d)"
    using Cons.prems(2) by (auto elim: yields_Cons)
  have ne: "unat (of_nat (length (snd e)) :: dword) = length (snd e)" using Cons.prems(6) by (simp add: unat_of_nat_small)
  obtain r1 z1 where m: "read_ranges (length (snd e)) r z [] = Inr (snd e, r1, z1)"
      "yields (di_GetValue pi_GetValue) r1 (map fst (concat (map snd d)))"
      "yields (di_GetValue pi_GetInteger) z1 (map snd (concat (map snd d)))"
    using read_ranges_ok [of "[]" "snd e" r "map fst (concat (map snd d))" z "map snd (concat (map snd d))"] Cons.prems(3-5)
    by (auto simp: ranges_sorted_def)
  obtain T where T: "read_paths (Suc (length d)) ids counts r z s = read_paths (length d) ids1 counts1 r1 z1 (s\<lparr>sri_data := sri_data s @ [e], sri_index := T\<rparr>)"
      "index_rep ucast (map fst (sri_data s @ [e])) T" "load_ok T"
    using read_paths_step [OF ids(1) counts(1), of r z "snd e" r1 z1 s "length d"] m(1) ne Cons.prems(8-10) by auto
  let ?s = "s\<lparr>sri_data := sri_data s @ [e], sri_index := T\<rparr>"
  obtain s' where "read_paths (length d) ids1 counts1 r1 z1 ?s = Inr s'" "sri_data s' = sri_data ?s @ d" "sri_rep s'" "load_ok (sri_index s')"
    using Cons.IH [OF ids(2) counts(2) m(2,3), of ?s] Cons.prems(5-7,10) T(2,3) by (auto simp: ranges_sorted_def)
  then show ?case using T(1) by (auto simp del: read_paths.simps)
qed

lemma packed_values_back:
  assumes "length vs < 2 ^ 32" "- 1 \<notin> set vs"
  shows "yields pi_GetValue (packed_in_open (bo_bytes (po_FlushLastValue (fold po_Add vs packed_out_init)))) vs"
proof -
  have w: "packed_writes packed_out_init [] []" by (simp add: packed_writes_def packed_out_init_def bo_bytes_def PackedStreams.coded_Nil)
  have st: "packed.storable_all [] vs" using packed_storable_all [of "[]" vs] assms by simp
  from packed.values_roundtrip [OF w st] obtain bs where
      bs: "bo_bytes (po_FlushLastValue (fold po_Add vs packed_out_init)) = bs"
      "\<And>i :: packed_in. \<And>rest. pi_count i = 0 \<Longrightarrow> bi_current i = bs @ rest \<Longrightarrow> \<exists>i'. read_values pi_GetValue (length vs) i = Inr (vs, i')" by auto
  show ?thesis unfolding bs(1) yields_def using bs(2) [of "packed_in_open bs" "[]"] by (simp add: packed_in_open_def)
qed

lemma diff_dword_values_back:
  assumes "length vs < 2 ^ 32" "- 1 \<notin> set (diffs_from 0 vs)"
  shows "yields (di_GetValue pi_GetValue) (diff_in_open (bo_bytes (po_FlushLastValue (fold (do_Add po_Add) vs diff_out_init)))) vs"
proof -
  have w: "diff_writes packed_writes diff_out_init [] []"
    by (simp add: diff_writes_def packed_writes_def diff_out_init_def bo_bytes_def PackedStreams.coded_Nil)
  have st: "diff_dwords.storable_all [] vs" using diff_dwords_storable_all [of "[]" vs] assms by simp
  from diff_dwords.values_roundtrip [OF w st] obtain bs where
      bs: "bo_bytes (po_FlushLastValue (fold (do_Add po_Add) vs diff_out_init)) = bs"
      "\<And>i rest. diff_fresh i \<Longrightarrow> bi_current i = bs @ rest \<Longrightarrow>
         \<exists>i'. read_values (di_GetValue pi_GetValue) (length vs) i = Inr (vs, i')" by auto
  show ?thesis unfolding bs(1) yields_def using bs(2) [of "diff_in_open bs" "[]"] by (simp add: diff_fresh_def diff_in_open_def)
qed

text \<open>What the streams can hold: in particular no start may be one below the last one before it, across the paths.\<close>

definition sri_storable :: "skip_revision_info \<Rightarrow> bool" where
  "sri_storable s \<longleftrightarrow> length (sri_data s) < 2 ^ 23 \<and> length (concat (map snd (sri_data s))) < 2 ^ 24 \<and>
     NO_INDEX \<notin> fst ` set (sri_data s) \<and> ranges_sorted (sri_data s) \<and>
     - 1 \<notin> set (diffs_from 0 (map fst (concat (map snd (sri_data s))))) \<and>
     (\<forall>e \<in> set (concat (map snd (sri_data s))). unat (snd e) < 2 ^ 29)"

lemma sri_read_write:
  assumes s: "sri_storable s" "distinct (map fst (sri_data s))" and s0: "sri_rep s0" "load_ok (sri_index s0)"
  shows "\<exists>s'. sri_read (map joined (sri_docs s)) s0 = Inr s' \<and> sri_data s' = sri_data s \<and> sri_rep s' \<and> load_ok (sri_index s')"
proof -
  let ?d = "sri_data s"
  let ?rs = "concat (map snd ?d)"
  let ?n = "of_nat (length ?d) :: dword"
  have len: "length ?d < 2 ^ 23" "length ?rs < 2 ^ 24" and ids: "NO_INDEX \<notin> fst ` set ?d"
    and diffs: "- 1 \<notin> set (diffs_from 0 (map fst ?rs))" and sz: "\<forall>e \<in> set ?rs. unat (snd e) < 2 ^ 29"
    using s(1) by (simp_all add: sri_storable_def)
  have un: "unat ?n = length ?d" using len(1) by (simp add: unat_of_nat_small)
  have small: "of_nat k \<noteq> (- 1 :: dword)" if "k < 2 ^ 24" for k
  proof
    assume "of_nat k = (- 1 :: dword)"
    then have "unat (of_nat k :: dword) = unat (- 1 :: dword)" by (rule arg_cong)
    then show False using that unat_NO_INDEX [where 'i = 32] by (simp add: unat_of_nat_small NO_INDEX_def)
  qed
  have each: "length (snd e) \<le> length ?rs" if "e \<in> set ?d" for e
    using member_le_sum_list [of "length (snd e)" "map length (map snd ?d)"] that by (auto simp: length_concat)
  have "- 1 \<notin> set (?n # map fst ?d)" using small [of "length ?d"] len(1) ids by (auto simp: NO_INDEX_def eq_commute [of "- 1"])
  then have Y1: "yields pi_GetValue (packed_in_open (bo_bytes (po_FlushLastValue (fold po_Add (?n # map fst ?d) packed_out_init)))) (?n # map fst ?d)"
    using len(1) by (intro packed_values_back) simp_all
  have "- 1 \<notin> set (map (\<lambda>e. of_nat (length (snd e)) :: dword) ?d)"
    using small each len(2) by (fastforce simp: eq_commute [of "- 1"])
  then have Y2: "yields pi_GetValue (packed_in_open (bo_bytes (po_FlushLastValue (fold po_Add (map (\<lambda>e. of_nat (length (snd e))) ?d) packed_out_init))))
      (map (\<lambda>e. of_nat (length (snd e))) ?d)"
    using len(1) by (intro packed_values_back) simp_all
  have Y3: "yields (di_GetValue pi_GetValue) (diff_in_open (bo_bytes (po_FlushLastValue (fold (do_Add po_Add) (map fst ?rs) diff_out_init)))) (map fst ?rs)"
    using len(2) diffs by (intro diff_dword_values_back) simp_all
  have "\<forall>v \<in> set (map snd ?rs). \<bar>sint v\<bar> < 2 ^ 29" using sz sint_small by auto
  from diffs_small [OF _ this, of 0]
  have Y4: "yields (di_GetValue pi_GetInteger) (diff_in_open (bo_bytes (po_FlushLastValue (fold (do_Add po_AddInteger) (map snd ?rs) diff_out_init)))) (map snd ?rs)"
    using diff_integer_values_back [of "map snd ?rs"] len(2) by (simp add: yields_def)
  obtain i where i: "pi_GetValue (packed_in_open (bo_bytes (po_FlushLastValue (fold po_Add (?n # map fst ?d) packed_out_init)))) = Inr (?n, i)"
      "yields pi_GetValue i (map fst ?d)" by (rule yields_Cons [OF Y1])
  have cl: "sri_data (sri_Clear s0) = []" "index_rep ucast (map fst (sri_data (sri_Clear s0))) (sri_index (sri_Clear s0))" "load_ok (sri_index (sri_Clear s0))"
    using s0 index_rep_clear load_ok_clear by (auto simp: sri_Clear_def sri_rep_def)
  have "\<forall>e \<in> set ?d. length (snd e) < 2 ^ 32" using each len(2) by fastforce
  from read_paths_ok [OF i(2) Y2 Y3 Y4 _ this, of "sri_Clear s0"] obtain s' where
      "read_paths (length ?d) i (packed_in_open (bo_bytes (po_FlushLastValue (fold po_Add (map (\<lambda>e. of_nat (length (snd e))) ?d) packed_out_init))))
        (diff_in_open (bo_bytes (po_FlushLastValue (fold (do_Add po_Add) (map fst ?rs) diff_out_init))))
        (diff_in_open (bo_bytes (po_FlushLastValue (fold (do_Add po_AddInteger) (map snd ?rs) diff_out_init)))) (sri_Clear s0) = Inr s'"
      "sri_data s' = ?d" "sri_rep s'" "load_ok (sri_index s')"
    using s cl len(1) by (auto simp: sri_storable_def)
  then show ?thesis using i(1) un
    by (simp add: sri_read_def sri_docs_def typed_stream_def sub_stream_def packed_doc_def del: fold_simps)
qed

subsection \<open>Compression of the skipped revisions\<close>

lemma compress_data_distinct:
  "compress_data avail n d = Some d' \<Longrightarrow> n \<le> length d \<Longrightarrow> distinct (map fst d) \<Longrightarrow> distinct (map fst d')"
proof (induction avail n d rule: compress_data.induct)
  case (2 avail i d)
  obtain m where m: "remove_known avail 0 (snd (d ! i)) = Some m" using 2(2) by (auto split: bind_splits)
  let ?d = "d[i := (fst (d ! i), m)]"
  have f: "map fst ?d = map fst d" using 2(3) by (simp add: map_update list_update_same_conv)
  have ne: "?d \<noteq> []" using 2(3) by auto
  then obtain pre z where z: "?d = pre @ [z]" by (metis rev_exhaust)
  have dist: "distinct (map fst (pre @ [z]))" using f z 2(4) by metis
  have "distinct (map fst (butlast ((pre @ [z])[i := z])))"
  proof (cases "i < length pre")
    case True
    have "distinct (map fst (pre[i := z]))" using dist True by (simp add: map_update distinct_list_update)
    then show ?thesis using True by (simp add: list_update_append)
  next
    case False
    then have "i = length pre" using 2(3) arg_cong [OF z, of length] by simp
    then show ?thesis using dist by simp
  qed
  moreover have "butlast (?d[i := last ?d]) = butlast ((pre @ [z])[i := z])" unfolding z by simp
  ultimately have b: "distinct (map fst (butlast (?d[i := last ?d])))" by (simp only:)
  have "distinct (map fst ?d)" using f 2(4) by (simp only:)
  with b have dist': "distinct (map fst (if m = [] then butlast (?d[i := last ?d]) else ?d))" by (rule if_split [THEN iffD2, OF conjI, OF impI impI])
  have "i \<le> length (if m = [] then butlast (?d[i := last ?d]) else ?d)" using 2(3) by (simp, arith)
  moreover have "compress_data avail i (if m = [] then butlast (?d[i := last ?d]) else ?d) = Some d'" using 2(2) m by (simp add: Let_def)
  ultimately show ?case using 2(1) [OF m refl _ _ dist'] by blast
qed simp

lemma rebuild_hash_ok:
  "k \<le> length d \<Longrightarrow> index_rep ucast (map fst (take k d)) T \<Longrightarrow> ample T \<Longrightarrow> length d \<le> 119304646 \<Longrightarrow>
   \<exists>T'. rebuild_hash_loop d [k..<length d] T = Some T' \<and> index_rep ucast (map fst d) T' \<and> ample T'"
proof (induction "length d - k" arbitrary: k T)
  case (Suc n)
  then have k: "k < length d" and n: "n = length d - Suc k" by simp_all
  let ?ks = "map fst (take k d)"
  have lk: "length ?ks = k" using k by simp
  obtain T1 where T1: "qh_insert (sri_functor d) (fst (d ! k)) (of_nat k) T = Some T1" "index_rep ucast (?ks @ [fst (d ! k)]) T1"
    using skips.insert_key [where s = d and ks = ?ks and T = T and v = "fst (d ! k)"] Suc.prems ample_can_grow [OF Suc.prems(2,3)] k lk by auto
  have "ample T1" by (rule qh_insert_ample_rep [OF Suc.prems(2) T1(2,1)]) (use Suc.prems k in simp_all)
  moreover have "index_rep ucast (map fst (take (Suc k) d)) T1" using T1(2) k by (simp add: take_Suc_conv_app_nth)
  ultimately obtain T' where "rebuild_hash_loop d [Suc k..<length d] T1 = Some T'" "index_rep ucast (map fst d) T'" "ample T'"
    using Suc.hyps(1) [of "Suc k" T1] n Suc.prems(4) k by auto
  then show ?case using T1(1) k by (simp add: upt_conv_Cons)
qed simp

lemma sri_RebuildHash_ok:
  assumes "index_rep h ks (sri_index s)" "ample (sri_index s)" "distinct (map fst (sri_data s))" "length (sri_data s) \<le> 119304646"
  shows "\<exists>s'. sri_RebuildHash s = Some s' \<and> sri_data s' = sri_data s \<and> sri_rep s' \<and> ample (sri_index s')"
proof -
  have r: "index_rep (ucast :: index_t \<Rightarrow> size_t) [] (qh_clear (sri_index s))" "ample (qh_clear (sri_index s))"
    using index_rep_clear [OF assms(1)] ample_clear [OF assms(2)] by auto
  have "qh_inv (\<lambda>i. h (ks ! unat i)) (sri_index s)" using assms(1) by (simp add: index_rep_def)
  then have e: "entries (qh_data (qh_clear (sri_index s))) = {#}" by (rule qh_clear_ok [THEN conjunct2])
  obtain T where T: "reserve (sri_functor (sri_data s)) (length (sri_data s)) (qh_clear (sri_index s)) = Some T"
      "index_rep (ucast :: index_t \<Rightarrow> size_t) [] T" "ample T"
    using reserve_ample [OF r assms(4), of "sri_functor (sri_data s)"] e by auto
  then show ?thesis using rebuild_hash_ok [of 0 "sri_data s" T] assms(3,4) by (auto simp: sri_RebuildHash_def sri_rep_def)
qed

lemma sri_Compress_rep:
  assumes "sri_Compress avail s = Some s'" "sri_rep s" "ample (sri_index s)" "length (sri_data s') \<le> 119304646"
  shows "sri_rep s' \<and> ample (sri_index s')"
proof -
  obtain d where d: "compress_data avail (length (sri_data s)) (sri_data s) = Some d" "sri_RebuildHash (s\<lparr>sri_data := d\<rparr>) = Some s'"
    using assms(1) by (auto simp: sri_Compress_def split: bind_splits)
  have dist: "distinct (map fst d)" using compress_data_distinct [OF d(1)] assms(2) by (simp add: sri_rep_def)
  have "sri_data s' = d" using d(2) by (auto simp: sri_RebuildHash_def split: bind_splits)
  then show ?thesis using sri_RebuildHash_ok [of ucast "map fst (sri_data s)" "s\<lparr>sri_data := d\<rparr>"] assms(2-4) dist d(2) by (auto simp: sri_rep_def)
qed

lemma sri_docs_ok:
  assumes "length (sri_data s) < 2 ^ 23" "length (concat (map snd (sri_data s))) < 2 ^ 24"
  shows "docs_ok (sri_docs s)"
proof -
  let ?rs = "concat (map snd (sri_data s))"
  have n: "length (sri_data s) < 2 ^ 23" "length (sri_data s) + 1 < 2 ^ 24" "length ?rs < 2 ^ 24" using assms by simp_all
  have S1: "sized (0 + 15 * length vs + 15) (po_FlushLastValue (fold po_Add vs packed_out_init))" for vs
    by (intro sized_Flush sized_fold sized_Add sized_init)
  have S2: "sized (0 + 15 * length vs + 15) (po_FlushLastValue (fold (do_Add po_Add) vs diff_out_init))" for vs
    by (intro sized_Flush sized_fold sized_do_Add sized_Add sized_init)
  have S3: "sized (0 + 15 * length vs + 15) (po_FlushLastValue (fold (do_Add po_AddInteger) vs diff_out_init))" for vs
    by (intro sized_Flush sized_fold sized_do_Add sized_AddInteger sized_init)
  have "doc_ok (packed_doc 1 PACKED_DWORD_STREAM_TYPE_ID (po_FlushLastValue
        (fold po_Add (of_nat (length (sri_data s)) # map fst (sri_data s)) packed_out_init)))"
    by (intro packed_doc_ok [OF sized_mono [OF S1] n(2)]) (simp_all add: PACKED_DWORD_STREAM_TYPE_ID_def)
  moreover have "doc_ok (packed_doc 2 PACKED_DWORD_STREAM_TYPE_ID (po_FlushLastValue
        (fold po_Add (map (\<lambda>e. of_nat (length (snd e))) (sri_data s)) packed_out_init)))"
    by (intro packed_doc_ok [OF sized_mono [OF S1] n(2)]) (simp_all add: PACKED_DWORD_STREAM_TYPE_ID_def)
  moreover have "doc_ok (packed_doc 3 DIFF_DWORD_STREAM_TYPE_ID (po_FlushLastValue (fold (do_Add po_Add) (map fst ?rs) diff_out_init)))"
    by (intro packed_doc_ok [OF sized_mono [OF S2] n(3)]) (simp_all add: DIFF_DWORD_STREAM_TYPE_ID_def)
  moreover have "doc_ok (packed_doc 4 DIFF_INTEGER_STREAM_TYPE_ID (po_FlushLastValue (fold (do_Add po_AddInteger) (map snd ?rs) diff_out_init)))"
    by (intro packed_doc_ok [OF sized_mono [OF S3] n(3)]) (simp_all add: DIFF_INTEGER_STREAM_TYPE_ID_def)
  ultimately show ?thesis unfolding docs_ok_def sri_docs_def
    by (simp add: packed_doc_def del: doc_ok.simps fold_simps)
qed

text \<open>
  C34.  The skipped revisions survive their cache file: the ranges that are written, those left by the compression that
  writing begins with, are the ranges that are read, path by path, and the hash index is rebuilt with them.
\<close>

theorem skip_info_in_file:
  assumes s: "sri_rep s" "ample (sri_index s)" and w: "sri_write avail s = Some (docs, s')" and st: "sri_storable s'"
    and s0: "sri_rep s0" "load_ok (sri_index s0)"
  shows "\<exists>file docs' s''. save_file docs = Some (Inr (Some file)) \<and> load_file file = Some (Inr docs') \<and>
    sri_read docs' s0 = Inr s'' \<and> sri_data s'' = sri_data s' \<and> (\<forall>path. sri_Find path s'' = sri_Find path s')"
proof -
  have c: "sri_Compress avail s = Some s'" "docs = sri_docs s'" using w by (auto simp: sri_write_def)
  have "length (sri_data s') \<le> 119304646" using st by (simp add: sri_storable_def)
  then have rep: "sri_rep s'" using sri_Compress_rep [OF c(1) s] by simp
  obtain bytes where bytes: "save_file docs = Some (Inr (Some bytes))" "load_file bytes = Some (Inr (map joined docs))"
    using save_load [OF sri_docs_ok [of s']] st c(2) unfolding sri_storable_def by blast
  obtain s'' where s'': "sri_read (map joined docs) s0 = Inr s''" "sri_data s'' = sri_data s'" "sri_rep s''"
    using sri_read_write [OF st _ s0] rep c(2) by (auto simp: sri_rep_def)
  have "sri_Find path s'' = sri_Find path s'" for path using sri_Find_map_of [OF rep] sri_Find_map_of [OF s''(3)] s''(2) by simp
  then show ?thesis using bytes s'' by blast
qed

lemma sri_rep_new:
  assumes "distinct (map fst d)" "length d \<le> 119304646"
  shows "\<exists>s. sri_data s = d \<and> sri_rep s \<and> ample (sri_index s)"
  using sri_RebuildHash_ok [of ucast "[] :: index_t list" "\<lparr>sri_data = d, sri_index = quick_hash_init\<rparr>"] assms index_rep_init by auto

theorem skip_info_in_file_witness:
  "\<exists>s docs s' file docs' s''. sri_data s = [(1, [(10, 5), (20, 3)]), (2, [(40, 2)])] \<and> sri_write (\<lambda>_. False) s = Some (docs, s') \<and>
     save_file docs = Some (Inr (Some file)) \<and> load_file file = Some (Inr docs') \<and> sri_read docs' sri_init = Inr s'' \<and>
     sri_data s'' = [(1, [(10, 5), (20, 3)]), (2, [(40, 2)])]"
proof -
  let ?d = "[(1, [(10, 5), (20, 3)]), (2, [(40, 2)])] :: (index_t \<times> ranges) list"
  obtain s where s: "sri_data s = ?d" "sri_rep s" "ample (sri_index s)" using sri_rep_new [of ?d] by auto
  have "remove_known (\<lambda>_. False) 0 [(10, 5), (20, 3)] = Some [(10, 5), (20, 3)]" "remove_known (\<lambda>_. False) 0 [(40, 2)] = Some [(40, 2)]"
    by (simp_all add: remove_known.simps sri_TryReduceRange_def raise_lower.simps lower_upper.simps map_update_def Let_def)
  then have c: "compress_data (\<lambda>_. False) (Suc (Suc 0)) ?d = Some ?d" by (simp add: Let_def)
  obtain s' where s': "sri_RebuildHash s = Some s'" "sri_data s' = ?d"
    using sri_RebuildHash_ok [of ucast "map fst (sri_data s)" s] s by (auto simp: sri_rep_def)
  have "s\<lparr>sri_data := ?d\<rparr> = s" using s(1) by simp
  then have "sri_RebuildHash (s\<lparr>sri_data := ?d\<rparr>) = Some s'" using s'(1) by (simp only:)
  then have w: "sri_write (\<lambda>_. False) s = Some (sri_docs s', s')"
    using s(1) c by (simp add: sri_write_def sri_Compress_def del: compress_data.simps)
  have "sri_storable s'" by (simp add: s'(2) sri_storable_def ranges_sorted_def NO_INDEX_def)
  moreover have "load_ok (sri_index sri_init)" using sri_init_ok(3) by (simp add: sri_light_def)
  ultimately show ?thesis using skip_info_in_file [OF s(2,3) w _ sri_init_ok(1)] s(1) s'(2) w by metis
qed

subsection \<open>A value that cannot be stored\<close>

text \<open>
  The difference \<open>-1\<close> alone gives the token 0, which is the mark of a run: the token of the next value is read as the
  length of the run and the one after that as its value.
\<close>

lemma po_Add_same: "po_Add (po_lastValue s) s = s\<lparr>po_count := po_count s + 1\<rparr>"
  by (simp add: po_Add_def)

lemma po_Add_other:
  assumes "v \<noteq> po_lastValue s"
  shows "\<exists>bs. bo_bytes (po_Add v s) = bo_bytes s @ bs \<and> po_count (po_Add v s) = 1 \<and> po_lastValue (po_Add v s) = v \<and>
    (po_count s = 1 \<longrightarrow> bs = dword_code (po_lastValue s + 1)) \<and>
    (po_count s \<noteq> 0 \<longrightarrow> (\<exists>t bs'. bs = dword_code t @ bs' \<and> (t = 0 \<or> t = po_lastValue s + 1)))"
  using assms
  by (auto simp: po_Add_def Let_def po_FlushLastValue_def bo_bytes_InternalAdd po_fields_InternalAdd word_gt_0)

lemma do_Add_parts:
  "bo_bytes (do_Add po_Add v s) = bo_bytes (po_Add (v - do_lastValue s) s)"
  "po_count (do_Add po_Add v s) = po_count (po_Add (v - do_lastValue s) s)"
  "po_lastValue (do_Add po_Add v s) = po_lastValue (po_Add (v - do_lastValue s) s)"
  by (simp_all add: do_Add_def)

lemma do_lastValue_Add [simp]: "do_lastValue (do_Add base v s) = v"
  by (simp add: do_Add_def)

lemma po_lastValue_Add [simp]: "po_lastValue (po_Add v s) = v"
  using po_Add_other [of v s] po_Add_same [of s] by (cases "v = po_lastValue s") auto

lemma do_Add_one:
  assumes "po_count s = 1" "v - do_lastValue s \<noteq> po_lastValue s"
  shows "bo_bytes (do_Add po_Add v s) = bo_bytes s @ dword_code (po_lastValue s + 1)" "po_count (do_Add po_Add v s) = 1"
    "po_lastValue (do_Add po_Add v s) = v - do_lastValue s"
  using po_Add_other [OF assms(2)] assms(1) by (auto simp: do_Add_parts)

lemma bytes_grow: "\<exists>bs'. bo_bytes (po_FlushLastValue (fold (do_Add po_Add) vs s)) = bo_bytes s @ bs'"
proof (induction vs arbitrary: s)
  case Nil
  then show ?case by (simp add: po_FlushLastValue_def bo_bytes_InternalAdd)
next
  case (Cons v vs)
  have "\<exists>bs'. bo_bytes (po_Add (v - do_lastValue s) s) = bo_bytes s @ bs'"
    using po_Add_other [of "v - do_lastValue s" s] po_Add_same [of s] by (cases "v - do_lastValue s = po_lastValue s") auto
  then show ?case using Cons.IH [of "do_Add po_Add v s"] by (auto simp: do_Add_parts)
qed

lemma pending_token:
  "po_count s \<noteq> 0 \<Longrightarrow> unat (po_count s) + length vs < 2 ^ 32 \<Longrightarrow>
   \<exists>t bs'. bo_bytes (po_FlushLastValue (fold (do_Add po_Add) vs s)) = bo_bytes s @ dword_code t @ bs' \<and> (t = 0 \<or> t = po_lastValue s + 1)"
proof (induction vs arbitrary: s)
  case Nil
  then have "bo_bytes (po_FlushLastValue s) = bo_bytes s @ dword_code 0 @ dword_code (po_count s) @ dword_code (po_lastValue s)"
    by (simp add: po_FlushLastValue_def word_gt_0 bo_bytes_InternalAdd po_fields_InternalAdd)
  then show ?case by auto
next
  case (Cons v vs)
  let ?s = "do_Add po_Add v s"
  show ?case
  proof (cases "v - do_lastValue s = po_lastValue s")
    case True
    then have e: "po_Add (v - do_lastValue s) s = s\<lparr>po_count := po_count s + 1\<rparr>" using po_Add_same [of s] by simp
    have n: "unat (po_count s + 1) = Suc (unat (po_count s))" using Cons.prems by (simp add: unat_word_ariths)
    then have "po_count s + 1 \<noteq> 0" by (metis nat.simps(3) unat_0)
    then show ?thesis using Cons.IH [of ?s] Cons.prems(2) e n True by (simp add: do_Add_parts)
  next
    case False
    obtain bs t bs' where o: "bo_bytes ?s = bo_bytes s @ bs" "bs = dword_code t @ bs'" "t = 0 \<or> t = po_lastValue s + 1"
      using po_Add_other [OF False] Cons.prems(1) by (auto simp: do_Add_parts)
    obtain bs2 where "bo_bytes (po_FlushLastValue (fold (do_Add po_Add) vs ?s)) = bo_bytes ?s @ bs2" using bytes_grow by blast
    then show ?thesis using o by auto
  qed
qed

lemma fold_fields: "vs \<noteq> [] \<Longrightarrow> po_lastValue (fold (do_Add po_Add) vs s) = last (diffs_from (do_lastValue s) vs)"
proof (induction vs rule: rev_induct)
  case (snoc v vs)
  have "do_lastValue (fold (do_Add po_Add) vs s) = last (do_lastValue s # vs)"
    by (induction vs rule: rev_induct) auto
  then show ?case by (simp add: diffs_from_snoc do_Add_parts)
qed simp

text \<open>What is written: the values before, then the mark, the length and the value of a run that nobody meant.\<close>

lemma lost_written:
  assumes pre: "- 1 \<notin> set (diffs_from 0 pre)" "last (0 # pre) = a + 1" and d: "b - a \<noteq> - 1" "c - b \<noteq> b - a"
    and len: "length pre + length rest + 4 < 2 ^ 32"
  shows "\<exists>bs t bs'. bo_bytes (po_FlushLastValue (fold (do_Add po_Add) (pre @ a # b # c # rest) diff_out_init)) =
      bs @ dword_code 0 @ dword_code (b - a + 1) @ dword_code t @ bs' \<and> PackedStreams.coded bs (diffs_from 0 pre) \<and> (t = 0 \<or> t = c - b + 1)"
proof -
  define s0 where "s0 = fold (do_Add po_Add) pre diff_out_init"
  have w: "diff_writes packed_writes diff_out_init [] []"
    by (simp add: diff_writes_def packed_writes_def diff_out_init_def bo_bytes_def PackedStreams.coded_Nil)
  have "diff_dwords.storable_all [] pre" using diff_dwords_storable_all [of "[]" pre] len pre(1) by simp
  then have s0: "packed_writes s0 [] (diffs_from 0 pre)" "do_lastValue s0 = a + 1"
    using diff_dwords.write_all [OF w] pre(2) unfolding s0_def by (auto simp: diff_writes_def)
  have l0: "po_lastValue s0 \<noteq> - 1"
  proof (cases "pre = []")
    case False
    then have "po_lastValue s0 = last (diffs_from 0 pre)" unfolding s0_def by (subst fold_fields) (simp_all add: diff_out_init_def)
    moreover have "diffs_from 0 pre \<noteq> []" using False by (cases pre) auto
    ultimately show ?thesis using pre(1) last_in_set by metis
  qed (simp add: s0_def diff_out_init_def)
  let ?s1 = "do_Add po_Add a s0"
  have da: "a - do_lastValue s0 = - 1" using s0(2) by simp
  obtain bs1 where s1: "bo_bytes ?s1 = bo_bytes s0 @ bs1" "po_count ?s1 = 1" "po_lastValue ?s1 = - 1"
    using po_Add_other [of "- 1" s0] l0 da by (auto simp: do_Add_parts)
  have coded: "PackedStreams.coded (bo_bytes ?s1) (diffs_from 0 pre)"
  proof -
    obtain v where v: "v \<noteq> po_lastValue s0" "v \<noteq> (- 1 :: dword)"
    proof (cases "po_lastValue s0 = 0")
      case True
      then show ?thesis using that [of 1] by simp
    next
      case False
      then show ?thesis using that [of 0] by simp
    qed
    have "packed_storable (diffs_from 0 pre) v"
    proof -
      have "length (diffs_from x ys) = length ys" for x ys by (induction x ys rule: diffs_from.induct) auto
      then show ?thesis using v(2) len by (simp add: packed_storable_def)
    qed
    from packed_add_ok [OF s0(1) this] obtain bs ws where b: "bo_bytes (po_Add v s0) = bs" "PackedStreams.coded bs ws"
        "diffs_from 0 pre @ [v] = ws @ replicate (unat (po_count (po_Add v s0))) (po_lastValue (po_Add v s0))"
      by (auto simp: packed_writes_def)
    have "po_count (po_Add v s0) = 1" using po_Add_other [OF v(1)] by auto
    then have "ws = diffs_from 0 pre" using b(3) by simp
    moreover have "bo_bytes ?s1 = bo_bytes (po_Add v s0)"
      using v(1) l0 da by (simp add: do_Add_parts po_Add_def Let_def)
    ultimately show ?thesis using b by simp
  qed
  let ?s2 = "do_Add po_Add b ?s1"
  have s2: "bo_bytes ?s2 = bo_bytes ?s1 @ dword_code 0" "po_count ?s2 = 1" "po_lastValue ?s2 = b - a"
    using do_Add_one [of ?s1 b] d(1) s1(2,3) by simp_all
  let ?s3 = "do_Add po_Add c ?s2"
  have s3: "bo_bytes ?s3 = bo_bytes ?s2 @ dword_code (b - a + 1)" "po_count ?s3 = 1" "po_lastValue ?s3 = c - b"
    using do_Add_one [of ?s2 c] d(2) s2(2,3) by simp_all
  have "unat (po_count ?s3) + length rest < 2 ^ 32" using s3(2) len by simp
  then obtain t bs' where "bo_bytes (po_FlushLastValue (fold (do_Add po_Add) rest ?s3)) = bo_bytes ?s3 @ dword_code t @ bs'"
      "t = 0 \<or> t = c - b + 1"
    using pending_token [of ?s3 rest] s3(2,3) by auto
  then show ?thesis using coded s2(1) s3(1) unfolding s0_def by auto
qed

text \<open>What is read.\<close>

definition delivers :: "('i \<Rightarrow> stream_error + 'w \<times> 'i) \<Rightarrow> 'i \<Rightarrow> 'w list \<Rightarrow> 'i \<Rightarrow> bool" where
  "delivers get i vs i' \<longleftrightarrow> read_values get (length vs) i = Inr (vs, i')"

lemma delivers_Nil [simp]: "delivers get i [] i' \<longleftrightarrow> i' = i"
  by (auto simp: delivers_def)

lemma delivers_Cons [simp]: "delivers get i (v # vs) i' \<longleftrightarrow> (\<exists>i1. get i = Inr (v, i1) \<and> delivers get i1 vs i')"
  by (auto simp: delivers_def)

lemma delivers_append [simp]: "delivers get i (us @ vs) i' \<longleftrightarrow> (\<exists>i1. delivers get i us i1 \<and> delivers get i1 vs i')"
  by (induction us arbitrary: i) auto

lemma yields_delivers: "yields get i vs \<longleftrightarrow> (\<exists>i'. delivers get i vs i')"
  by (simp add: yields_def delivers_def)

lemma diffs_delivered:
  fixes i :: diff_in
  shows "packed_reads i (diffs_from (di_lastValue i) vs) rest \<Longrightarrow>
   \<exists>i'. delivers (di_GetValue pi_GetValue) i vs i' \<and> bi_current i' = rest \<and> pi_count i' = 0 \<and> di_lastValue i' = last (di_lastValue i # vs)"
proof (induction vs arbitrary: i)
  case Nil
  then have "pi_count i = 0" by (auto simp: packed_reads_def unat_eq_zero)
  then show ?case using packed_reads_done Nil by simp
next
  case (Cons v vs)
  have "packed_reads i ((v - di_lastValue i) # diffs_from v vs) rest" using Cons.prems by simp
  from packed_get_diff [OF this] obtain i1 where i1: "pi_GetValue i = Inr (v - di_lastValue i, i1)" "packed_reads i1 (diffs_from v vs) rest"
      "di_lastValue i1 = di_lastValue i" by blast
  let ?i2 = "i1\<lparr>di_lastValue := v\<rparr>"
  have "packed_reads ?i2 (diffs_from (di_lastValue ?i2) vs) rest" using i1(2) by (simp add: packed_reads_def)
  from Cons.IH [OF this] show ?case using i1 by (auto simp: di_GetValue_def)
qed

lemma run_delivered:
  fixes i :: diff_in
  shows "n \<le> unat (pi_count i) \<Longrightarrow>
   \<exists>i'. delivers (di_GetValue pi_GetValue) i (map (\<lambda>j. di_lastValue i + of_nat (Suc j) * pi_lastValue i) [0..<n]) i'"
proof (induction n arbitrary: i)
  case (Suc n)
  let ?i = "i\<lparr>pi_count := pi_count i - 1, di_lastValue := di_lastValue i + pi_lastValue i\<rparr>"
  have ne: "pi_count i \<noteq> 0" using Suc.prems by auto
  then have g: "di_GetValue pi_GetValue i = Inr (di_lastValue i + pi_lastValue i, ?i)"
    by (subst di_GetValue_def, subst pi_GetValue.simps) (simp add: Let_def)
  have "n \<le> unat (pi_count ?i)" using Suc.prems ne by (simp add: unat_minus_one)
  from Suc.IH [OF this] obtain i' where
    "delivers (di_GetValue pi_GetValue) ?i (map (\<lambda>j. di_lastValue i + pi_lastValue i + of_nat (Suc j) * pi_lastValue i) [0..<n]) i'" by auto
  moreover have "map (\<lambda>j. di_lastValue i + pi_lastValue i + of_nat (Suc j) * pi_lastValue i) [0..<n] =
      map (\<lambda>j. di_lastValue i + of_nat (Suc j) * pi_lastValue i) [1..<Suc n]"
    unfolding One_nat_def map_Suc_upt [symmetric] by (simp add: comp_def algebra_simps)
  ultimately show ?case using g by (simp add: upt_conv_Cons del: upt_Suc) blast
qed (auto intro: exI)

lemma lost_delivered:
  fixes i :: diff_in
  assumes i: "bi_current i = bs @ dword_code 0 @ dword_code k @ dword_code t @ bs'" "pi_count i = 0"
    and pre: "PackedStreams.coded bs (diffs_from (di_lastValue i) pre)" and k: "k \<noteq> 0"
  shows "\<exists>i1. delivers (di_GetValue pi_GetValue) i pre i1 \<and> (\<forall>n. 0 < n \<longrightarrow> n \<le> unat k \<longrightarrow>
    (\<exists>i2. delivers (di_GetValue pi_GetValue) i1 (map (\<lambda>j. last (di_lastValue i # pre) + of_nat (Suc j) * t) [0..<n]) i2))"
proof -
  let ?rest = "dword_code 0 @ dword_code k @ dword_code t @ bs'"
  have "packed_reads i (diffs_from (di_lastValue i) pre) ?rest" by (rule packed_open_ok [OF pre i(2,1)])
  from diffs_delivered [OF this] obtain i1 where i1: "delivers (di_GetValue pi_GetValue) i pre i1" "bi_current i1 = ?rest"
      "pi_count i1 = 0" "di_lastValue i1 = last (di_lastValue i # pre)" by blast
  let ?i2 = "i1\<lparr>pi_count := k, bi_current := bs', pi_lastValue := t\<rparr>"
  have g1: "pi_InternalGetValue i1 = Inr (0, i1\<lparr>bi_current := dword_code k @ dword_code t @ bs'\<rparr>)"
    by (rule InternalGetValue_code [OF i1(2)])
  have g2: "pi_InternalGetValue (i1\<lparr>bi_current := dword_code k @ dword_code t @ bs'\<rparr>) = Inr (k, i1\<lparr>bi_current := dword_code t @ bs'\<rparr>)"
    by (subst InternalGetValue_code [of _ k "dword_code t @ bs'"]) simp_all
  have g3: "pi_InternalGetValue (i1\<lparr>bi_current := dword_code t @ bs', pi_count := k\<rparr>) = Inr (t, i1\<lparr>pi_count := k, bi_current := bs'\<rparr>)"
    by (subst InternalGetValue_code [of _ t bs']) simp_all
  have "pi_GetValue i1 = pi_GetValue ?i2"
    using i1(3) g1 g2 g3 by (subst pi_GetValue.simps) simp
  then have first: "di_GetValue pi_GetValue i1 = di_GetValue pi_GetValue ?i2" by (simp add: di_GetValue_def)
  have "\<exists>i2. delivers (di_GetValue pi_GetValue) i1 (map (\<lambda>j. last (di_lastValue i # pre) + of_nat (Suc j) * t) [0..<n]) i2"
    if n: "0 < n" "n \<le> unat k" for n
  proof -
    have "n \<le> unat (pi_count ?i2)" using n(2) by simp
    from run_delivered [OF this] obtain i3 where
      "delivers (di_GetValue pi_GetValue) ?i2 (map (\<lambda>j. di_lastValue ?i2 + of_nat (Suc j) * pi_lastValue ?i2) [0..<n]) i3" by blast
    then show ?thesis using first i1(4) n(1) by (auto simp: upt_conv_Cons simp del: upt_Suc)
  qed
  then show ?thesis using i1(1) by blast
qed

text \<open>What a container makes of it.\<close>

lemma map_emplace_keys: "fst ` set (map_emplace k v m) = insert k (fst ` set m)"
  by (induction k v m rule: map_emplace.induct) auto

lemma read_ranges_starts:
  "read_ranges n r z acc = Inr (m, r', z') \<Longrightarrow>
   \<exists>xs. length xs = n \<and> delivers (di_GetValue pi_GetValue) r xs r' \<and> fst ` set m = fst ` set acc \<union> set xs"
proof (induction n arbitrary: r z acc)
  case (Suc n)
  obtain x r1 y z1 where g: "di_GetValue pi_GetValue r = Inr (x, r1)" "read_ranges n r1 z1 (map_emplace x y acc) = Inr (m, r', z')"
    using Suc.prems by auto
  from Suc.IH [OF g(2)] obtain xs where
    "length xs = n" "delivers (di_GetValue pi_GetValue) r1 xs r'" "fst ` set m = insert x (fst ` set acc) \<union> set xs"
    unfolding map_emplace_keys by blast
  then show ?case using g(1) by (intro exI [of _ "x # xs"]) auto
qed auto

lemma read_ranges_delivers:
  "sorted_wrt (<) (map fst (acc @ m)) \<Longrightarrow> delivers (di_GetValue pi_GetValue) r (map fst m) r' \<Longrightarrow>
   delivers (di_GetValue pi_GetInteger) z (map snd m) z' \<Longrightarrow> read_ranges (length m) r z acc = Inr (acc @ m, r', z')"
proof (induction m arbitrary: acc r z)
  case (Cons e m)
  obtain r1 z1 where g: "di_GetValue pi_GetValue r = Inr (fst e, r1)" "delivers (di_GetValue pi_GetValue) r1 (map fst m) r'"
      "di_GetValue pi_GetInteger z = Inr (snd e, z1)" "delivers (di_GetValue pi_GetInteger) z1 (map snd m) z'"
    using Cons.prems(2,3) by auto
  have "map_emplace (fst e) (snd e) acc = acc @ [e]"
    using Cons.prems(1) by (subst map_emplace_last) (auto simp: sorted_wrt_append)
  then show ?case using Cons.IH [OF _ g(2,4), of "acc @ [e]"] Cons.prems(1) g(1,3) by simp
qed simp

lemma read_paths_grow: "read_paths n ids counts r z s = Inr s' \<Longrightarrow> \<exists>d. sri_data s' = sri_data s @ d"
proof (induction n arbitrary: ids counts r z s)
  case (Suc n)
  then show ?case by fastforce
qed simp

definition starts_of :: "(index_t \<times> ranges) list \<Rightarrow> revision_t list" where
  "starts_of d = map fst (concat (map snd d))"

lemma starts_of_simps [simp]: "starts_of [] = []" "starts_of (e # d) = map fst (snd e) @ starts_of d" "starts_of (d @ d') = starts_of d @ starts_of d'"
  by (simp_all add: starts_of_def)

lemma read_paths_prefix:
  "read_paths (length d + k) ids counts r z s = Inr s' \<Longrightarrow> delivers pi_GetValue ids (map fst d) ids' \<Longrightarrow>
   delivers pi_GetValue counts (map (\<lambda>e. of_nat (length (snd e))) d) counts' \<Longrightarrow>
   delivers (di_GetValue pi_GetValue) r (starts_of d) r' \<Longrightarrow>
   delivers (di_GetValue pi_GetInteger) z (map snd (concat (map snd d))) z' \<Longrightarrow>
   ranges_sorted d \<Longrightarrow> (\<forall>e \<in> set d. length (snd e) < 2 ^ 32) \<Longrightarrow>
   \<exists>s1. sri_data s1 = sri_data s @ d \<and> read_paths k ids' counts' r' z' s1 = Inr s'"
proof (induction d arbitrary: ids counts r z s)
  case (Cons e d)
  obtain ids1 where ids: "pi_GetValue ids = Inr (fst e, ids1)" "delivers pi_GetValue ids1 (map fst d) ids'" using Cons.prems(2) by auto
  obtain counts1 where counts: "pi_GetValue counts = Inr (of_nat (length (snd e)), counts1)"
      "delivers pi_GetValue counts1 (map (\<lambda>e. of_nat (length (snd e))) d) counts'" using Cons.prems(3) by auto
  obtain r1 where r1: "delivers (di_GetValue pi_GetValue) r (map fst (snd e)) r1" "delivers (di_GetValue pi_GetValue) r1 (starts_of d) r'"
    using Cons.prems(4) by auto
  obtain z1 where z1: "delivers (di_GetValue pi_GetInteger) z (map snd (snd e)) z1"
      "delivers (di_GetValue pi_GetInteger) z1 (map snd (concat (map snd d))) z'" using Cons.prems(5) by auto
  have "sorted_wrt (<) (map fst ([] @ snd e))" using Cons.prems(6) by (simp add: ranges_sorted_def)
  from read_ranges_delivers [OF this r1(1) z1(1)] have m: "read_ranges (length (snd e)) r z [] = Inr (snd e, r1, z1)" by simp
  have ne: "unat (of_nat (length (snd e)) :: dword) = length (snd e)" using Cons.prems(7) by (simp add: unat_of_nat_small)
  obtain T where "read_paths (length d + k) ids1 counts1 r1 z1 (s\<lparr>sri_data := sri_data s @ [e], sri_index := T\<rparr>) = Inr s'"
    using Cons.prems(1) ids(1) counts(1) m ne by auto
  from Cons.IH [OF this ids(2) counts(2) r1(2) z1(2)] Cons.prems(6,7) show ?case by (auto simp: ranges_sorted_def)
qed auto

lemma signed_step:
  assumes "unat (u :: dword) < 2 ^ 31" "unat (u + t) < 2 ^ 31"
  shows "int (unat (u + t)) = int (unat u) + sint t"
proof -
  obtain x y where xy: "x = unat u" "y = unat t" by simp
  have y: "y < 2 ^ 32" using xy unat_bound [of t] by simp
  have s: "unat (u + t) = (x + y) mod 2 ^ 32" using xy by (simp add: unat_word_ariths)
  have st: "sint t = (if y < 2 ^ 31 then int y else int y - 2 ^ 32)" unfolding xy(2) by (rule sint_unat)
  have x: "x < 2 ^ 31" and b: "(x + y) mod 2 ^ 32 < 2 ^ 31" using assms xy s by simp_all
  show ?thesis
  proof (cases "x + y < 2 ^ 32")
    case True
    then show ?thesis using s st b xy(1) by simp
  next
    case False
    then have "(x + y) mod 2 ^ 32 = x + y - 2 ^ 32" using x y by (simp add: mod_if)
    then show ?thesis using False s st x xy(1) by simp
  qed
qed

lemma no_step_back:
  fixes a t :: dword
  assumes small: "\<And>j. j < n \<Longrightarrow> unat (a + 1 + of_nat (Suc j) * t) < 2 ^ 31" "unat (a + 1) < 2 ^ 31"
    and j: "j < n" "a + 1 + of_nat (Suc j) * t = a" and a: "unat a < 2 ^ 31"
  shows "t = - 1"
proof -
  have "i < n \<Longrightarrow> int (unat (a + 1 + of_nat (Suc i) * t)) = int (unat (a + 1)) + int (Suc i) * sint t" for i
  proof (induction i)
    case 0
    then show ?case using signed_step [of "a + 1" t] small by fastforce
  next
    case (Suc i)
    have e: "a + 1 + of_nat (Suc (Suc i)) * t = (a + 1 + of_nat (Suc i) * t) + t" by (simp add: algebra_simps)
    have "int (unat ((a + 1 + of_nat (Suc i) * t) + t)) = int (unat (a + 1 + of_nat (Suc i) * t)) + sint t"
      using small(1) [of i] small(1) [of "Suc i"] Suc.prems unfolding e by (intro signed_step) simp_all
    then show ?case unfolding e using Suc by (simp add: algebra_simps)
  qed
  from this [OF j(1)] have "int (unat a) = int (unat (a + 1)) + int (Suc j) * sint t" unfolding j(2) .
  moreover have "int (unat (a + 1)) = int (unat a) + 1" using signed_step [of a 1] a small(2) by simp
  ultimately have m: "int (Suc j) * sint t = - 1" by simp
  then have "int (Suc j) dvd 1" by (metis dvd_minus_iff dvd_triv_left)
  then have "sint t = - 1" using m by simp
  then have "sint t = sint (- 1 :: dword)" by simp
  then show ?thesis by (simp only: signed_word_eqI)
qed

text \<open>Containers of which everything but the starts fits into the streams.\<close>

definition sri_fits :: "skip_revision_info \<Rightarrow> bool" where
  "sri_fits s \<longleftrightarrow> length (sri_data s) < 2 ^ 23 \<and> length (concat (map snd (sri_data s))) < 2 ^ 24 \<and>
     NO_INDEX \<notin> fst ` set (sri_data s) \<and> ranges_sorted (sri_data s) \<and>
     (\<forall>e \<in> set (concat (map snd (sri_data s))). unat (fst e) < 2 ^ 31 \<and> unat (snd e) < 2 ^ 29)"

lemma small_count:
  assumes "k < 2 ^ 24"
  shows "of_nat k \<noteq> (- 1 :: dword)"
proof
  assume "of_nat k = (- 1 :: dword)"
  then have "unat (of_nat k :: dword) = unat (- 1 :: dword)" by (rule arg_cong)
  then show False using assms unat_NO_INDEX [where 'i = 32] by (simp add: unat_of_nat_small NO_INDEX_def)
qed

lemma sri_streams_ok:
  assumes "sri_fits s"
  shows "yields pi_GetValue (packed_in_open (bo_bytes (po_FlushLastValue (fold po_Add (of_nat (length (sri_data s)) # map fst (sri_data s)) packed_out_init))))
      (of_nat (length (sri_data s)) # map fst (sri_data s))" (is ?ids)
    "yields pi_GetValue (packed_in_open (bo_bytes (po_FlushLastValue (fold po_Add (map (\<lambda>e. of_nat (length (snd e))) (sri_data s)) packed_out_init))))
      (map (\<lambda>e. of_nat (length (snd e))) (sri_data s))" (is ?counts)
    "yields (di_GetValue pi_GetInteger) (diff_in_open (bo_bytes (po_FlushLastValue
      (fold (do_Add po_AddInteger) (map snd (concat (map snd (sri_data s)))) diff_out_init)))) (map snd (concat (map snd (sri_data s))))" (is ?sizes)
    "\<forall>e \<in> set (sri_data s). length (snd e) < 2 ^ 24"
proof -
  let ?d = "sri_data s" and ?rs = "concat (map snd (sri_data s))"
  have len: "length ?d < 2 ^ 23" "length ?rs < 2 ^ 24" and ids: "NO_INDEX \<notin> fst ` set ?d" and sz: "\<forall>e \<in> set ?rs. unat (snd e) < 2 ^ 29"
    using assms by (simp_all add: sri_fits_def)
  have each: "length (snd e) \<le> length ?rs" if "e \<in> set ?d" for e
    using member_le_sum_list [of "length (snd e)" "map length (map snd ?d)"] that by (auto simp: length_concat)
  then show "\<forall>e \<in> set ?d. length (snd e) < 2 ^ 24" using len(2) by fastforce
  have "- 1 \<notin> set (of_nat (length ?d) # map fst ?d)" using small_count [of "length ?d"] len(1) ids by (auto simp: NO_INDEX_def eq_commute [of "- 1"])
  then show ?ids using len(1) by (intro packed_values_back) simp_all
  have "- 1 \<notin> set (map (\<lambda>e. of_nat (length (snd e)) :: dword) ?d)"
    using small_count each len(2) by (fastforce simp: eq_commute [of "- 1"])
  then show ?counts using len(1) by (intro packed_values_back) simp_all
  have "\<forall>v \<in> set (map snd ?rs). \<bar>sint v\<bar> < 2 ^ 29" using sz sint_small by auto
  from diffs_small [OF _ this, of 0] show ?sizes
    using diff_integer_values_back [of "map snd ?rs"] len(2) by (simp add: yields_def)
qed

lemma delivers_same: "delivers get i vs i1 \<Longrightarrow> delivers get i ws i2 \<Longrightarrow> length vs = length ws \<Longrightarrow> vs = ws"
  by (simp add: delivers_def)

lemma read_paths_lost:
  assumes m: "read_paths (Suc k) ids counts r z s = Inr s'" and ids: "pi_GetValue ids = Inr (p, ids')"
    and counts: "pi_GetValue counts = Inr (of_nat (Suc (length m)), counts')" "Suc (length m) < 2 ^ 32"
    and r: "delivers (di_GetValue pi_GetValue) r (map (\<lambda>j. a + 1 + of_nat (Suc j) * t) [0..<Suc (length m)]) r'"
    and t: "t \<noteq> - 1" and small: "\<forall>e \<in> set ((a, n) # m). unat (fst e) < 2 ^ 31" "unat (a + 1) < 2 ^ 31"
  shows "sri_data s' \<noteq> sri_data s @ (p, (a, n) # m) # d"
proof
  assume same: "sri_data s' = sri_data s @ (p, (a, n) # m) # d"
  have ne: "unat (of_nat (Suc (length m)) :: dword) = Suc (length m)" using counts(2) by (intro unat_of_nat_small) simp
  obtain y where y: "read_ranges (Suc (length m)) r z [] = Inr y"
    using m ids counts(1) ne by (cases "read_ranges (Suc (length m)) r z []") (auto simp del: of_nat_Suc read_ranges.simps)
  obtain m' r2 z2 where "y = (m', r2, z2)" by (cases y)
  then obtain T where m': "read_ranges (Suc (length m)) r z [] = Inr (m', r2, z2)"
      "read_paths k ids' counts' r2 z2 (s\<lparr>sri_data := sri_data s @ [(p, m')], sri_index := T\<rparr>) = Inr s'"
    using m ids counts(1) ne y by (auto simp del: of_nat_Suc read_ranges.simps)
  obtain d' where "sri_data s' = sri_data s @ (p, m') # d'" using read_paths_grow [OF m'(2)] by auto
  then have e: "m' = (a, n) # m" using same by simp
  obtain xs where xs: "length xs = Suc (length m)" "delivers (di_GetValue pi_GetValue) r xs r2" "fst ` set m' = set xs"
    using read_ranges_starts [OF m'(1)] by auto
  have "xs = map (\<lambda>j. a + 1 + of_nat (Suc j) * t) [0..<Suc (length m)]" by (rule delivers_same [OF xs(2) r]) (use xs(1) in simp)
  then have keys: "fst ` set ((a, n) # m) = (\<lambda>j. a + 1 + of_nat (Suc j) * t) ` {0..<Suc (length m)}"
    using xs(3) e by (simp del: upt_Suc)
  have "a \<in> fst ` set ((a, n) # m)" by simp
  then obtain j where j: "j < Suc (length m)" "a + 1 + of_nat (Suc j) * t = a" unfolding keys by auto
  have "unat (a + 1 + of_nat (Suc i) * t) < 2 ^ 31" if "i < Suc (length m)" for i
  proof -
    have "a + 1 + of_nat (Suc i) * t \<in> fst ` set ((a, n) # m)" unfolding keys using that by auto
    then obtain e where "a + 1 + of_nat (Suc i) * t = fst e" "e \<in> set ((a, n) # m)" by (rule imageE)
    then show ?thesis using small(1) by (simp only:)
  qed
  moreover have "unat a < 2 ^ 31" using small(1) by simp
  ultimately show False using no_step_back [of "Suc (length m)" a t j] small(2) j t by blast
qed

text \<open>The other streams of such a container are read up to the path in question.\<close>

lemma sri_read_prefix:
  assumes fits: "sri_fits s" and data: "sri_data s = ds @ (p, m) # ds'"
    and read: "sri_read (map joined (sri_docs s)) s1 = Inr s'"
    and r: "delivers (di_GetValue pi_GetValue)
      (diff_in_open (bo_bytes (po_FlushLastValue (fold (do_Add po_Add) (starts_of (sri_data s)) diff_out_init)))) (starts_of ds) r'"
  shows "\<exists>ids ids' counts counts' z s2. sri_data s2 = ds \<and> read_paths (Suc (length ds')) ids counts r' z s2 = Inr s' \<and>
    pi_GetValue ids = Inr (p, ids') \<and> pi_GetValue counts = Inr (of_nat (length m), counts') \<and> length m < 2 ^ 32"
proof -
  note Y = sri_streams_ok [OF fits]
  define I C Z where "I = packed_in_open (bo_bytes (po_FlushLastValue (fold po_Add (of_nat (length (sri_data s)) # map fst (sri_data s)) packed_out_init)))"
    and "C = packed_in_open (bo_bytes (po_FlushLastValue (fold po_Add (map (\<lambda>e. of_nat (length (snd e))) (sri_data s)) packed_out_init)))"
    and "Z = diff_in_open (bo_bytes (po_FlushLastValue (fold (do_Add po_AddInteger) (map snd (concat (map snd (sri_data s)))) diff_out_init)))"
  have YC: "yields pi_GetValue C (map (\<lambda>e. of_nat (length (snd e))) (sri_data s))"
    and YZ: "yields (di_GetValue pi_GetInteger) Z (map snd (concat (map snd (sri_data s))))"
    unfolding C_def Z_def by (rule Y(2), rule Y(3))
  obtain I1 where I1: "pi_GetValue I = Inr (of_nat (length (sri_data s)), I1)" "yields pi_GetValue I1 (map fst (sri_data s))"
    using yields_Cons [OF Y(1)] unfolding I_def by blast
  obtain I2 I3 where I2: "delivers pi_GetValue I1 (map fst ds) I2" "pi_GetValue I2 = Inr (p, I3)"
    using I1(2) unfolding yields_delivers data by auto
  obtain C2 C3 where C2: "delivers pi_GetValue C (map (\<lambda>e. of_nat (length (snd e))) ds) C2" "pi_GetValue C2 = Inr (of_nat (length m), C3)"
    using YC unfolding yields_delivers data by auto
  obtain Z2 where Z2: "delivers (di_GetValue pi_GetInteger) Z (map snd (concat (map snd ds))) Z2"
    using YZ unfolding yields_delivers data by auto
  have "unat (of_nat (length (sri_data s)) :: dword) = length (sri_data s)" using fits by (simp add: sri_fits_def unat_of_nat_small)
  then have rp: "read_paths (length ds + Suc (length ds')) I1 C
      (diff_in_open (bo_bytes (po_FlushLastValue (fold (do_Add po_Add) (starts_of (sri_data s)) diff_out_init)))) Z (sri_Clear s1) = Inr s'"
    using read I1(1) arg_cong [OF data, of length] unfolding I_def C_def Z_def
    by (simp add: sri_read_def sri_docs_def typed_stream_def sub_stream_def packed_doc_def starts_of_def del: fold_simps)
  have big: "length (snd e) < 2 ^ 32" if "e \<in> set (sri_data s)" for e using bspec [OF Y(4) that] by simp
  then have "\<forall>e \<in> set ds. length (snd e) < 2 ^ 32" using data by simp
  moreover have "length m < 2 ^ 32" using big [of "(p, m)"] data by simp
  moreover have "ranges_sorted ds" using fits by (auto simp: sri_fits_def data ranges_sorted_def)
  ultimately have "\<exists>s2. sri_data s2 = sri_data (sri_Clear s1) @ ds \<and> read_paths (Suc (length ds')) I2 C2 r' Z2 s2 = Inr s'" "length m < 2 ^ 32"
    using read_paths_prefix [OF rp I2(1) C2(1) r Z2] by blast+
  moreover have "sri_data (sri_Clear s1) @ ds = ds" by (simp add: sri_Clear_def)
  ultimately show ?thesis using I2(2) C2(2) by metis
qed

text \<open>The stream of the starts, with the run that nobody meant.\<close>

lemma lost_starts:
  assumes start: "- 1 \<notin> set (diffs_from 0 pre)" "last (0 # pre) = a + 1"
    and after: "b - a \<noteq> - 1" "c - b \<notin> {b - a, - 2}" "n \<le> unat (b - a)" and len: "length (pre @ a # b # c # cs) < 2 ^ 24"
  shows "\<exists>t r1 r2. t \<noteq> - 1 \<and> delivers (di_GetValue pi_GetValue)
      (diff_in_open (bo_bytes (po_FlushLastValue (fold (do_Add po_Add) (pre @ a # b # c # cs) diff_out_init)))) pre r1 \<and>
    delivers (di_GetValue pi_GetValue) r1 (map (\<lambda>j. a + 1 + of_nat (Suc j) * t) [0..<Suc n]) r2"
proof -
  define B where "B = bo_bytes (po_FlushLastValue (fold (do_Add po_Add) (pre @ a # b # c # cs) diff_out_init))"
  have "length pre + length cs + 4 < 2 ^ 32" using len by simp
  then obtain bs t bs' where B: "B = bs @ dword_code 0 @ dword_code (b - a + 1) @ dword_code t @ bs'" "PackedStreams.coded bs (diffs_from 0 pre)"
      "t = 0 \<or> t = c - b + 1"
    using lost_written [OF start after(1), of c cs] after(2) unfolding B_def by auto
  have t: "t \<noteq> - 1"
  proof
    assume "t = - 1"
    then have "c - b = - 1 - 1" using B(3) by (metis add_diff_cancel_right' neg_equal_0_iff_equal zero_neq_one)
    then show False using after(2) by simp
  qed
  have k: "b - a + 1 \<noteq> 0" using after(1) by (simp add: eq_neg_iff_add_eq_0)
  then have uk: "unat (b - a + 1) = Suc (unat (b - a))" by (metis add.commute unatSuc)
  have i: "bi_current (diff_in_open B) = bs @ dword_code 0 @ dword_code (b - a + 1) @ dword_code t @ bs'" "pi_count (diff_in_open B) = 0"
      "di_lastValue (diff_in_open B) = 0" using B(1) by (simp_all add: diff_in_open_def)
  have "PackedStreams.coded bs (diffs_from (di_lastValue (diff_in_open B)) pre)" using B(2) i(3) by simp
  note L = lost_delivered [OF i(1,2) this k, unfolded i(3) start(2)]
  obtain r1 where r1: "delivers (di_GetValue pi_GetValue) (diff_in_open B) pre r1"
      "\<And>n. 0 < n \<Longrightarrow> n \<le> unat (b - a + 1) \<Longrightarrow>
        \<exists>i2. delivers (di_GetValue pi_GetValue) r1 (map (\<lambda>j. a + 1 + of_nat (Suc j) * t) [0..<n]) i2"
    using L by blast
  have "\<exists>i2. delivers (di_GetValue pi_GetValue) r1 (map (\<lambda>j. a + 1 + of_nat (Suc j) * t) [0..<Suc n]) i2"
    by (rule r1(2)) (use after(3) uk in simp_all)
  then show ?thesis using r1(1) t unfolding B_def by blast
qed

text \<open>
  C35.  A path whose first range starts one revision below the last start before it, with other ranges behind it, does not survive:
  the difference -1 alone gives the mark of a run in the stream of the starts.  Saving succeeds, and loading never gives the
  ranges that were saved, whatever the rest of the container, provided that the difference to the next start is not -1, the one
  behind it is another one and not -2, and the path has at most as many ranges as the distance of its first two starts plus one.
  (A difference -1 at the very end comes back, as the last values are written as a run.)  In the container of the witness the
  error is not detected: revision 13 is read as skipped for the path 2, and 20 as not skipped.
\<close>

theorem skip_info_start_lost:
  assumes w: "sri_write avail s0 = Some (docs, s)" and fits: "sri_fits s"
    and data: "sri_data s = ds @ (p, (a, n) # m) # ds'"
    and start: "- 1 \<notin> set (diffs_from 0 (starts_of ds))" "last (0 # starts_of ds) = a + 1"
    and after: "map fst m @ starts_of ds' = b # c # cs" "b - a \<noteq> - 1" "c - b \<notin> {b - a, - 2}" "length m \<le> unat (b - a)"
  shows "\<exists>file docs'. save_file docs = Some (Inr (Some file)) \<and> load_file file = Some (Inr docs') \<and>
    (\<forall>s1 s'. sri_read docs' s1 = Inr s' \<longrightarrow> sri_data s' \<noteq> sri_data s)"
proof -
  have docs: "docs = sri_docs s" using w by (auto simp: sri_write_def)
  have len: "length (sri_data s) < 2 ^ 23" "length (concat (map snd (sri_data s))) < 2 ^ 24" using fits by (simp_all add: sri_fits_def)
  obtain bytes where bytes: "save_file docs = Some (Inr (Some bytes))" "load_file bytes = Some (Inr (map joined docs))"
    using save_load [OF sri_docs_ok [OF len]] docs by blast
  have starts: "starts_of (sri_data s) = starts_of ds @ a # b # c # cs" using data after(1) by simp
  have "length (starts_of (sri_data s)) < 2 ^ 24" using len(2) by (simp add: starts_of_def)
  then obtain t r1 r2 where r: "t \<noteq> - 1" "delivers (di_GetValue pi_GetValue)
      (diff_in_open (bo_bytes (po_FlushLastValue (fold (do_Add po_Add) (starts_of (sri_data s)) diff_out_init)))) (starts_of ds) r1"
      "delivers (di_GetValue pi_GetValue) r1 (map (\<lambda>j. a + 1 + of_nat (Suc j) * t) [0..<Suc (length m)]) r2"
    using lost_starts [OF start after(2-4)] unfolding starts by blast
  have small: "\<forall>e \<in> set ((a, n) # m). unat (fst e) < 2 ^ 31" using fits data by (simp add: sri_fits_def)
  have small': "unat (a + 1) < 2 ^ 31"
  proof (cases "starts_of ds = []")
    case False
    then have "a + 1 \<in> set (starts_of ds)" using start(2) last_in_set by (metis last_ConsR)
    then have "a + 1 \<in> fst ` set (concat (map snd (sri_data s)))" by (auto simp: starts_of_def data)
    then obtain e where "a + 1 = fst e" "e \<in> set (concat (map snd (sri_data s)))" by (rule imageE)
    then show ?thesis using fits by (simp only: sri_fits_def)
  qed (use start(2) in simp)
  have "sri_data s' \<noteq> sri_data s" if read: "sri_read (map joined docs) s1 = Inr s'" for s1 s'
  proof -
    obtain ids ids' counts counts' z s2 where s2: "sri_data s2 = ds" "read_paths (Suc (length ds')) ids counts r1 z s2 = Inr s'"
        "pi_GetValue ids = Inr (p, ids')" "pi_GetValue counts = Inr (of_nat (Suc (length m)), counts')" "Suc (length m) < 2 ^ 32"
      using sri_read_prefix [OF fits data read [unfolded docs] r(2)] unfolding length_Cons by blast
    show ?thesis using read_paths_lost [OF s2(2-5) r(3,1) small small'] s2(1) data by simp
  qed
  then show ?thesis using bytes by blast
qed

text \<open>The ranges that come back for one such container; no error is reported.\<close>

lemma skip_info_start_lost_example:
  assumes "sri_data s = [(1, [(11, 5)]), (2, [(10, 3), (20, 4), (50, 5)])]"
  shows "\<exists>s'. sri_read (map joined (sri_docs s)) sri_init = Inr s' \<and> sri_data s' = [(1, [(11, 5)]), (2, [(11, 3)])]"
proof -
  let ?e = "[(1, [(11, 5)]), (2, [(11, 3)])] :: (index_t \<times> ranges) list"
  have ids: "yields pi_GetValue (packed_in_open (bo_bytes (po_FlushLastValue (fold po_Add [2, 1, 2] packed_out_init)))) [2, 1, 2]"
    "yields pi_GetValue (packed_in_open (bo_bytes (po_FlushLastValue (fold po_Add [1, 3] packed_out_init)))) [1, 3]"
    by (intro packed_values_back; simp)+
  have starts: "yields (di_GetValue pi_GetValue) (diff_in_open (bo_bytes (po_FlushLastValue (fold (do_Add po_Add) [11, 10, 20, 50] diff_out_init))))
      [11, 11, 11, 11]"
  proof -
    have "bo_bytes (po_FlushLastValue (fold (do_Add po_Add) [11, 10, 20, 50] diff_out_init)) = [12, 0, 11, 0, 1, 30]"
      by (simp add: diff_out_init_def do_Add_def po_Add_def po_FlushLastValue_def po_InternalAdd.simps bo_AddByte_def bo_bytes_def
          Let_def CHUNK_SIZE_def)
    then show ?thesis
      by (simp add: yields_def diff_in_open_def di_GetValue_def pi_GetValue.simps pi_InternalGetValue_def bi_GetByte_def Let_def)
  qed
  have sizes: "yields (di_GetValue pi_GetInteger) (diff_in_open (bo_bytes (po_FlushLastValue (fold (do_Add po_AddInteger) [5, 3, 4, 5] diff_out_init))))
      [5, 3, 4, 5]"
    using diff_integer_values_back [of "[5, 3, 4, 5]"] sint_small by (auto simp: yields_def intro!: sint_sub_small)
  obtain i1 i2 i3 where i: "pi_GetValue (packed_in_open (bo_bytes (po_FlushLastValue (fold po_Add [2, 1, 2] packed_out_init)))) = Inr (2, i1)"
      "pi_GetValue i1 = Inr (1, i2)" "pi_GetValue i2 = Inr (2, i3)"
    using ids(1) by (elim yields_Cons) blast
  obtain c1 c2 where c: "pi_GetValue (packed_in_open (bo_bytes (po_FlushLastValue (fold po_Add [1, 3] packed_out_init)))) = Inr (1, c1)"
      "pi_GetValue c1 = Inr (3, c2)"
    using ids(2) by (elim yields_Cons) blast
  define r0 where "r0 = diff_in_open (bo_bytes (po_FlushLastValue (fold (do_Add po_Add) [11, 10, 20, 50] diff_out_init)))"
  define z0 where "z0 = diff_in_open (bo_bytes (po_FlushLastValue (fold (do_Add po_AddInteger) [5, 3, 4, 5] diff_out_init)))"
  obtain r1 r2 r3 r4 where r: "di_GetValue pi_GetValue r0 = Inr (11, r1)" "di_GetValue pi_GetValue r1 = Inr (11, r2)"
      "di_GetValue pi_GetValue r2 = Inr (11, r3)" "di_GetValue pi_GetValue r3 = Inr (11, r4)"
    using starts unfolding r0_def [symmetric] by (elim yields_Cons) blast
  obtain z1 z2 z3 z4 where z: "di_GetValue pi_GetInteger z0 = Inr (5, z1)" "di_GetValue pi_GetInteger z1 = Inr (3, z2)"
      "di_GetValue pi_GetInteger z2 = Inr (4, z3)" "di_GetValue pi_GetInteger z3 = Inr (5, z4)"
    using sizes unfolding z0_def [symmetric] by (elim yields_Cons) blast
  have u: "unat (1 :: dword) = Suc 0" "unat (3 :: dword) = Suc (Suc (Suc 0))" by simp_all
  have m: "read_ranges (unat (1 :: dword)) r0 z0 [] = Inr ([(11, 5)], r1, z1)" "read_ranges (unat (3 :: dword)) r1 z1 [] = Inr ([(11, 3)], r4, z4)"
    using r z unfolding u by simp_all
  have c0: "sri_Clear sri_init = sri_init" by (simp add: sri_Clear_def sri_init_def qh_clear_def quick_hash_init_def create_data_def prime_grower_init_def)
  have "index_rep ucast (map fst (sri_data sri_init)) (sri_index sri_init)" "load_ok (sri_index sri_init)" "length (sri_data sri_init) < 119304646"
    using sri_init_ok by (simp_all add: sri_rep_def sri_light_def sri_init_def)
  from read_paths_step [OF i(2) c(1) m(1) this, of 1] obtain T where
      T: "read_paths 2 i1 (packed_in_open (bo_bytes (po_FlushLastValue (fold po_Add [1, 3] packed_out_init)))) r0 z0 sri_init =
        read_paths 1 i2 c1 r1 z1 \<lparr>sri_data = [(1, [(11, 5)])], sri_index = T\<rparr>"
      "index_rep ucast (map fst [(1 :: index_t, [(11, 5)] :: ranges)]) T" "load_ok T"
    by (auto simp: sri_init_def numeral_2_eq_2)
  then obtain T' where T': "read_paths 1 i2 c1 r1 z1 \<lparr>sri_data = [(1, [(11, 5)])], sri_index = T\<rparr> = Inr \<lparr>sri_data = ?e, sri_index = T'\<rparr>"
    using read_paths_step [OF i(3) c(2) m(2), of "\<lparr>sri_data = [(1, [(11, 5)])], sri_index = T\<rparr>" 0] by auto
  have "sri_read (map joined (sri_docs s)) sri_init = Inr \<lparr>sri_data = ?e, sri_index = T'\<rparr>"
    using i(1) T(1) T' assms c0 unfolding r0_def z0_def
    by (simp add: sri_read_def sri_docs_def typed_stream_def sub_stream_def packed_doc_def del: fold_simps)
  then show ?thesis by simp
qed

theorem skip_info_start_lost_witness:
  "\<exists>s0 docs s file docs' s'. sri_data s0 = [(1, [(11, 5)]), (2, [(10, 3), (20, 4), (50, 5)])] \<and>
     sri_write (\<lambda>_. False) s0 = Some (docs, s) \<and> sri_data s = sri_data s0 \<and>
     save_file docs = Some (Inr (Some file)) \<and> load_file file = Some (Inr docs') \<and>
     (\<forall>s1 s2. sri_read docs' s1 = Inr s2 \<longrightarrow> sri_data s2 \<noteq> sri_data s) \<and>
     sri_read docs' sri_init = Inr s' \<and> sri_data s' = [(1, [(11, 5)]), (2, [(11, 3)])]"
proof -
  let ?d = "[(1, [(11, 5)]), (2, [(10, 3), (20, 4), (50, 5)])] :: (index_t \<times> ranges) list"
  obtain s where s: "sri_data s = ?d" "sri_rep s" "ample (sri_index s)" using sri_rep_new [of ?d] by auto
  have "remove_known (\<lambda>_. False) 0 [(11, 5)] = Some [(11, 5)]"
      "remove_known (\<lambda>_. False) 0 [(10, 3), (20, 4), (50, 5)] = Some [(10, 3), (20, 4), (50, 5)]"
    by (simp_all add: remove_known.simps sri_TryReduceRange_def raise_lower.simps lower_upper.simps map_update_def Let_def)
  then have c: "compress_data (\<lambda>_. False) (Suc (Suc 0)) ?d = Some ?d" by (simp add: Let_def)
  obtain s' where s': "sri_RebuildHash s = Some s'" "sri_data s' = ?d"
    using sri_RebuildHash_ok [of ucast "map fst (sri_data s)" s] s by (auto simp: sri_rep_def)
  have "s\<lparr>sri_data := ?d\<rparr> = s" using s(1) by simp
  then have "sri_RebuildHash (s\<lparr>sri_data := ?d\<rparr>) = Some s'" using s'(1) by (simp only:)
  then have w: "sri_write (\<lambda>_. False) s = Some (sri_docs s', s')"
    using s(1) c by (simp add: sri_write_def sri_Compress_def del: compress_data.simps)
  have fits: "sri_fits s'" by (simp add: s'(2) sri_fits_def ranges_sorted_def NO_INDEX_def)
  have d: "sri_data s' = [(1, [(11, 5)])] @ (2, (10, 3) # [(20, 4), (50, 5)]) # []" using s'(2) by simp
  have "\<exists>file docs'. save_file (sri_docs s') = Some (Inr (Some file)) \<and> load_file file = Some (Inr docs') \<and>
      (\<forall>s1 s2. sri_read docs' s1 = Inr s2 \<longrightarrow> sri_data s2 \<noteq> sri_data s')"
    by (rule skip_info_start_lost [OF w fits d, of 20 50 "[]"]) simp_all
  then obtain bytes docs' where f: "save_file (sri_docs s') = Some (Inr (Some bytes))" "load_file bytes = Some (Inr docs')"
      "\<forall>s1 s2. sri_read docs' s1 = Inr s2 \<longrightarrow> sri_data s2 \<noteq> sri_data s'" by blast
  have "docs_ok (sri_docs s')" using s'(2) by (intro sri_docs_ok) simp_all
  then have "docs' = map joined (sri_docs s')" using save_load f(1,2) by fastforce
  moreover note skip_info_start_lost_example [OF s'(2)]
  ultimately show ?thesis using s(1) s'(2) w f by metis
qed

end
