(* ===== verification/TokenizedStringsBatch.thy ===== *)
theory TokenizedStringsBatch
  imports TokenizedStringsPacker QuickHashMap
begin

section \<open>Batch operations on tokenized strings (src/LogCache/Containers)\<close>

text \<open>
  Removal of several strings, the replacement of strings by those of another container, unification of
  equal strings, and the count of words.  The lemmas show what the replacement does to the texts.
\<close>

subsection \<open>Removal\<close>

text \<open>A copy within the buffer; a target inside of the copied range is undefined.\<close>

definition copy_tokens :: "nat \<Rightarrow> nat \<Rightarrow> nat \<Rightarrow> index_t list \<Rightarrow> container_error + index_t list" where
  "copy_tokens start stop target d =
     (if stop < start \<or> length d < stop \<or> length d < target + (stop - start) \<or> start < target \<and> target < stop then Inl Undefined
      else Inr (take target d @ take (stop - start) (drop start d) @ drop (target + (stop - start)) d))"

fun remove_strings ::
    "nat list \<Rightarrow> index_t list \<Rightarrow> nat \<Rightarrow> nat \<Rightarrow> index_t list \<Rightarrow> index_t list \<Rightarrow>
     container_error + nat \<times> index_t list \<times> index_t list" where
  "remove_strings [] indexes target targetToken d os = Inr (targetToken, d, os)"
| "remove_strings (i # is) indexes target targetToken d os =
     (if indexes \<noteq> [] \<and> unat (hd indexes) = i then remove_strings is (tl indexes) target targetToken d os
      else let first = unat (os ! i); stop = unat (os ! (i + 1)); newEnd = targetToken + (stop - first)
           in bindE (copy_tokens first stop targetToken d) (\<lambda>d.
                remove_strings is indexes (target + 1) newEnd d (os[target + 1 := of_nat newEnd])))"

definition ts_Remove_all :: "index_t list \<Rightarrow> tokenized_strings \<Rightarrow> container_error + tokenized_strings" where
  "ts_Remove_all indexes c =
     bindE (remove_strings [0..<length (ts_offsets c) - 1] indexes 0 0 (ts_stringData c) (ts_offsets c)) (\<lambda>(targetToken, d, os).
       if length indexes > length os then Inl Undefined
       else Inr (c\<lparr>ts_offsets := take (length os - length indexes) os, ts_stringData := take targetToken d\<rparr>))"

subsection \<open>Replacement\<close>

text \<open>Reading a string of the source and appending its text.\<close>

definition append_from ::
    "(byte \<Rightarrow> bool) \<Rightarrow> tokenized_strings \<Rightarrow> index_t \<Rightarrow> tokenized_strings \<Rightarrow> (container_error + tokenized_strings) option" where
  "append_from outside source index c =
     Option.bind (ts_GetAt source index) (\<lambda>r. case r of Inl e \<Rightarrow> Some (Inl e) | Inr s \<Rightarrow> ts_Append outside s c)"

fun replace_loop ::
    "(byte \<Rightarrow> bool) \<Rightarrow> tokenized_strings \<Rightarrow> index_mapping_t \<Rightarrow> index_t list \<Rightarrow> nat list \<Rightarrow> index_t \<Rightarrow> tokenized_strings \<Rightarrow>
     (container_error + tokenized_strings) option" where
  "replace_loop outside source indexMap oldData [] oldOffset c = Some (Inr c)"
| "replace_loop outside source indexMap oldData (i # is) oldOffset c =
     (let nextOffset = ts_offsets c ! (i + 1)
      in Option.bind
           (case qm_lookup index_conv indexMap (of_nat i) of
              Some index \<Rightarrow> append_from outside source index c
            | None \<Rightarrow>
                Some (if unat oldOffset \<le> unat nextOffset \<and> unat nextOffset \<le> length oldData
                      then Inr (c\<lparr>ts_stringData := ts_stringData c @ take (unat nextOffset - unat oldOffset) (drop (unat oldOffset) oldData)\<rparr>)
                      else Inl Undefined))
           (\<lambda>r. case r of
                  Inl e \<Rightarrow> Some (Inl e)
                | Inr c \<Rightarrow> replace_loop outside source indexMap oldData is nextOffset
                             (c\<lparr>ts_offsets := (ts_offsets c)[i + 1 := of_nat (length (ts_stringData c))]\<rparr>)))"

fun append_remaining ::
    "(byte \<Rightarrow> bool) \<Rightarrow> tokenized_strings \<Rightarrow> index_t \<Rightarrow> (index_t \<times> index_t) list \<Rightarrow> tokenized_strings \<Rightarrow>
     (container_error + tokenized_strings) option" where
  "append_remaining outside source n [] c = Some (Inr c)"
| "append_remaining outside source n ((key, index) # es) c =
     (if key \<ge> n
      then Option.bind (ts_GetAt source index) (\<lambda>r.
             case r of
               Inl e \<Rightarrow> Some (Inl e)
             | Inr s \<Rightarrow> Option.bind (ts_Insert outside s c) (\<lambda>r.
                 case r of Inl e \<Rightarrow> Some (Inl e) | Inr (i, c) \<Rightarrow> append_remaining outside source n es c))
      else append_remaining outside source n es c)"

definition ts_Replace ::
    "(byte \<Rightarrow> bool) \<Rightarrow> tokenized_strings \<Rightarrow> index_mapping_t \<Rightarrow> tokenized_strings \<Rightarrow> (container_error + tokenized_strings) option" where
  "ts_Replace outside source indexMap c =
     (case ts_offsets c of
        [] \<Rightarrow> Some (Inl Undefined)
      | oldOffset # os \<Rightarrow>
          Option.bind (replace_loop outside source indexMap (ts_stringData c) [0..<length os] oldOffset (c\<lparr>ts_stringData := []\<rparr>)) (\<lambda>r.
            case r of
              Inl e \<Rightarrow> Some (Inl e)
            | Inr c' \<Rightarrow> append_remaining outside source (of_nat (length os)) (qm_data indexMap) c'))"

subsection \<open>Unification\<close>

definition ts_tokens :: "tokenized_strings \<Rightarrow> index_t \<Rightarrow> index_t list" where
  "ts_tokens c index =
     (let first = unat (ts_offsets c ! unat index); stop = unat (ts_offsets c ! unat (index + 1))
      in take (stop - first) (drop first (ts_stringData c)))"

definition ts_hash :: "tokenized_strings \<Rightarrow> index_t \<Rightarrow> size_t" where
  "ts_hash c index = foldl (\<lambda>result t. result + (push_bit 13 result + ucast t)) 0 (ts_tokens c index)"

definition ts_equal :: "tokenized_strings \<Rightarrow> index_t \<Rightarrow> index_t \<Rightarrow> bool" where
  "ts_equal c v index \<longleftrightarrow> v = index \<or> ts_tokens c v = ts_tokens c index"

definition ts_functor :: "tokenized_strings \<Rightarrow> (index_t, 32 word) hash_functor" where
  "ts_functor c = \<lparr>hf_hash = ts_hash c, hf_value = (\<lambda>i. i), hf_equal = ts_equal c\<rparr>"

fun filter_duplicates ::
    "tokenized_strings \<Rightarrow> nat list \<Rightarrow> 32 word quick_hash \<Rightarrow> index_t list \<Rightarrow> index_t list \<Rightarrow> (index_t list \<times> index_t list) option" where
  "filter_duplicates c [] T newIndexes remaining = Some (newIndexes, remaining)"
| "filter_duplicates c (i # is) T newIndexes remaining = do {
     index \<leftarrow> qh_find (ts_functor c) T (of_nat i);
     if index = NO_INDEX
     then do {
       T \<leftarrow> qh_insert (ts_functor c) (of_nat i) (of_nat i) T;
       filter_duplicates c is T (newIndexes @ [of_nat (length remaining)]) (remaining @ [of_nat i])
     }
     else filter_duplicates c is T (newIndexes @ [newIndexes ! unat index]) remaining
   }"

fun vacuum :: "nat list \<Rightarrow> index_t list \<Rightarrow> index_t list \<Rightarrow> index_t list \<Rightarrow> container_error + index_t list \<times> index_t list" where
  "vacuum [] remaining d os = Inr (d, os)"
| "vacuum (i # is) remaining d os =
     (let source = unat (remaining ! i)
      in if source > i
         then let sourceOffset = os ! source; targetOffset = os ! i; len = os ! (source + 1) - sourceOffset
              in if unat sourceOffset + unat len > length d \<or> unat targetOffset + unat len > length d then Inl Undefined
                 else vacuum is remaining
                        (take (unat targetOffset) d @ take (unat len) (drop (unat sourceOffset) d) @ drop (unat targetOffset + unat len) d)
                        (os[i + 1 := targetOffset + len])
         else vacuum is remaining d os)"

definition ts_Unify :: "tokenized_strings \<Rightarrow> container_error + index_t list \<times> tokenized_strings" where
  "ts_Unify c =
     bindE (of_opt (filter_duplicates c [0..<length (ts_offsets c) - 1] quick_hash_init [] [])) (\<lambda>(newIndexes, remaining).
     bindE (vacuum [0..<length remaining] remaining (ts_stringData c) (ts_offsets c)) (\<lambda>(d, os).
       let os = take (length remaining + 1) os
       in Inr (newIndexes, c\<lparr>ts_offsets := os, ts_stringData := take (unat (last os)) d\<rparr>)))"

subsection \<open>Counting words\<close>

text \<open>One pass over the pairs whose size is not known yet, and all passes.\<close>

definition token_size :: "index_t list \<Rightarrow> index_t \<Rightarrow> index_t" where
  "token_size sizes token = (if IsDictionaryWord token then 1 else sizes ! unat token)"

fun size_pass :: "index_pair list \<Rightarrow> index_t list \<Rightarrow> index_t list \<Rightarrow> bool \<Rightarrow> index_t list \<Rightarrow> index_t list \<times> index_t list \<times> bool" where
  "size_pass ps [] left anyChanges sizes = (sizes, left, anyChanges)"
| "size_pass ps (token # ts) left anyChanges sizes =
     (let leftSize = token_size sizes (fst (ps ! unat token)); rightSize = token_size sizes (snd (ps ! unat token))
      in if leftSize > 0 \<and> rightSize > 0 then size_pass ps ts left True (sizes[unat token := leftSize + rightSize])
         else size_pass ps ts (left @ [token]) anyChanges sizes)"

lemma size_pass_le: "size_pass ps ts left b sizes = (sizes', left', b') \<Longrightarrow> length left' \<le> length left + length ts"
proof (induction ts arbitrary: left b sizes)
  case (Cons t ts)
  show ?case using Cons.prems Cons.IH by (fastforce simp: Let_def split: if_splits intro: le_SucI)
qed simp

lemma size_pass_less:
  "size_pass ps ts left False sizes = (sizes', left', True) \<Longrightarrow> length left' < length left + length ts"
proof (induction ts arbitrary: left sizes)
  case (Cons t ts)
  show ?case using Cons.prems Cons.IH size_pass_le by (fastforce simp: Let_def less_Suc_eq_le split: if_splits)
qed simp

function token_sizes :: "index_pair list \<Rightarrow> index_t list \<Rightarrow> index_t list \<Rightarrow> index_t list" where
  "token_sizes ps toProcess sizes =
     (if toProcess = [] then sizes
      else let (sizes, left, anyChanges) = size_pass ps toProcess [] False sizes
           in if anyChanges then token_sizes ps left sizes else sizes)"
  by pat_completeness auto
termination
  by (relation "measure (\<lambda>(ps, toProcess, sizes). length toProcess)")
    (auto dest!: size_pass_less [OF sym])

declare token_sizes.simps [simp del]

definition ts_UncompressedWordCount :: "tokenized_strings \<Rightarrow> size_t" where
  "ts_UncompressedWordCount c =
     (let n = length (ipd_data (ts_pairs c));
          sizes = token_sizes (ipd_data (ts_pairs c)) (map of_nat [0..<n]) (replicate n 0)
      in foldl (\<lambda>result token. if IsToken token then result + ucast (token_size sizes token) else result) 0 (ts_stringData c))"

subsection \<open>What a replacement does to the texts\<close>

lemma append_from_ok:
  assumes s: "ts_holds source stexts" "unat v < length stexts"
    and c: "tokens_ok (ts_words c) (ts_pairs c)" "words_room (length (stexts ! unat v) + k) (ts_words c)" "0 \<notin> set (stexts ! unat v)"
      "length (ts_stringData c) + length (stexts ! unat v) + 1 < 2 ^ 32"
  shows "\<exists>w D ws. append_from outside source v c = Some (Inr (c\<lparr>ts_words := w, ts_stringData := ts_stringData c @ D\<rparr>)) \<and>
    tokens_ok w (ts_pairs c) \<and> sd_strings w = sd_strings (ts_words c) @ ws \<and> words_room k w \<and> readable w (ts_pairs c) D \<and>
    tokens_text w (ts_pairs c) D (stexts ! unat v) \<and> length D \<le> length (stexts ! unat v) + 1"
proof -
  let ?s = "stexts ! unat v"
  obtain w D ws where A: "ts_Append outside ?s c = Some (Inr (c\<lparr>ts_words := w, ts_stringData := ts_stringData c @ D\<rparr>))"
    "tokens_ok w (ts_pairs c)" "sd_strings w = sd_strings (ts_words c) @ ws" "words_room k w" "\<forall>t \<in> set D. IsToken t"
    "expand_all (sd_strings w) (ipd_data (ts_pairs c)) D ?s" "length D \<le> length ?s + 1"
    by (rule ts_Append_ok [OF c])
  have "length ?s < 2 ^ 64" using c(2) by (simp add: words_room_def)
  then have "tokens_text w (ts_pairs c) D ?s" using A(5,6) by (simp add: tokens_text_tokens)
  then show ?thesis using A readable_tokens [OF A(6)] ts_GetAt_ok [OF s] by (simp add: append_from_def) blast
qed

definition replaced :: "byte list list \<Rightarrow> index_mapping_t \<Rightarrow> nat \<Rightarrow> byte list list" where
  "replaced stexts m i = (case qm_lookup index_conv m (of_nat i) of Some v \<Rightarrow> [stexts ! unat v] | None \<Rightarrow> [])"

definition new_text :: "byte list list \<Rightarrow> index_mapping_t \<Rightarrow> nat \<Rightarrow> byte list \<Rightarrow> byte list" where
  "new_text stexts m i x = (case qm_lookup index_conv m (of_nat i) of Some v \<Rightarrow> stexts ! unat v | None \<Rightarrow> x)"

lemma total_length_append [simp]: "total_length (xs @ ys) = total_length xs + total_length ys"
  by (simp add: total_length_def)

lemma replace_loop_ok:
  assumes s: "ts_holds source stexts"
    and m: "\<And>i v. qm_lookup index_conv m (of_nat i) = Some v \<Longrightarrow> unat v < length stexts \<and> 0 \<notin> set (stexts ! unat v)"
  shows "tokens_ok (ts_words c) (ts_pairs c) \<Longrightarrow> readable (ts_words c) (ts_pairs c) (ts_stringData c @ concat Ls) \<Longrightarrow>
    ts_stringData c = concat K \<Longrightarrow> ts_offsets c = map of_nat (starts 0 K @ tl (starts (length old) Ls)) \<Longrightarrow>
    list_all2 (tokens_text (ts_words c) (ts_pairs c)) (K @ Ls) (ktexts @ texts) \<Longrightarrow> length K = length ktexts \<Longrightarrow>
    words_room (total_length (concat (map (replaced stexts m) [length K..<length K + length Ls])) + k) (ts_words c) \<Longrightarrow>
    length (old @ concat Ls) < 2 ^ 32 \<Longrightarrow>
    length (concat K) + length (concat Ls) + total_length (concat (map (replaced stexts m) [length K..<length K + length Ls])) < 2 ^ 32 \<Longrightarrow>
    \<exists>c' K'. replace_loop outside source m (old @ concat Ls) [length K..<length K + length Ls] (of_nat (length old)) c = Some (Inr c') \<and>
      tokens_ok (ts_words c') (ts_pairs c') \<and> readable (ts_words c') (ts_pairs c') (ts_stringData c') \<and> layout c' [] K' \<and>
      list_all2 (tokens_text (ts_words c') (ts_pairs c')) K' (ktexts @ map2 (new_text stexts m) [length K..<length K + length Ls] texts) \<and>
      words_room k (ts_words c') \<and> ts_pairs c' = ts_pairs c \<and>
      length (ts_stringData c') \<le> length (concat K) + length (concat Ls) + total_length (concat (map (replaced stexts m) [length K..<length K + length Ls]))"
proof (induction Ls arbitrary: c K old ktexts texts)
  case Nil
  have "layout c [] K" using Nil.prems(3,4,9) by (simp add: layout_def total_length_def)
  moreover have "texts = []" using Nil.prems(5,6) list_all2_lengthD [OF Nil.prems(5)] by simp
  ultimately show ?case using Nil.prems by (intro exI [of _ c] exI [of _ K]) (simp add: total_length_def)
next
  case (Cons l Ls)
  let ?n = "length K" and ?p = "ts_pairs c"
  have up: "[?n..<?n + length (l # Ls)] = ?n # [Suc ?n..<Suc ?n + length Ls]" by (simp add: upt_rec)
  have up': "[?n..<Suc (?n + length Ls)] = ?n # [Suc ?n..<Suc (?n + length Ls)]" by (simp add: upt_rec)
  obtain x texts1 where tx: "texts = x # texts1" using list_all2_lengthD [OF Cons.prems(5)] Cons.prems(6) by (cases texts) auto
  have spl: "list_all2 (tokens_text (ts_words c) ?p) K ktexts" "tokens_text (ts_words c) ?p l x" "list_all2 (tokens_text (ts_words c) ?p) Ls texts1"
    using Cons.prems(5,6) by (simp_all add: tx list_all2_append)
  let ?rest = "total_length (concat (map (replaced stexts m) [Suc ?n..<Suc ?n + length Ls]))"
  let ?first = "total_length (replaced stexts m ?n)"
  have tot: "total_length (concat (map (replaced stexts m) [?n..<?n + length (l # Ls)])) = ?first + ?rest" unfolding up by simp
  have offs: "ts_offsets c = map of_nat (starts 0 K) @ of_nat (length (old @ l)) # map of_nat (tl (starts (length (old @ l)) Ls))"
    unfolding Cons.prems(4)
    using arg_cong [OF starts_Cons_tl [of "length (old @ l)" Ls], of "map of_nat :: nat list \<Rightarrow> index_t list"] by simp
  have nx: "ts_offsets c ! (?n + 1) = of_nat (length (old @ l))" unfolding offs by (simp add: nth_append)
  have u: "unat (of_nat (length old) :: index_t) = length old" "unat (of_nat (length (old @ l)) :: index_t) = length (old @ l)"
    using Cons.prems(8) by (simp_all add: unat_of_nat_small del: of_nat_add)
  have dat: "(old @ l) @ concat Ls = old @ concat (l # Ls)" by simp
  define step where "step = (case qm_lookup index_conv m (of_nat ?n) of Some index \<Rightarrow> append_from outside source index c
            | None \<Rightarrow> Some (if unat (of_nat (length old) :: index_t) \<le> unat (of_nat (length (old @ l)) :: index_t) \<and>
                  unat (of_nat (length (old @ l)) :: index_t) \<le> length (old @ concat (l # Ls))
                then Inr (c\<lparr>ts_stringData := ts_stringData c @ take (unat (of_nat (length (old @ l)) :: index_t) - unat (of_nat (length old) :: index_t))
                       (drop (unat (of_nat (length old) :: index_t)) (old @ concat (l # Ls)))\<rparr>)
                else Inl Undefined))"
  have "\<exists>w D ws. step = Some (Inr (c\<lparr>ts_words := w, ts_stringData := ts_stringData c @ D\<rparr>)) \<and> tokens_ok w ?p \<and>
      sd_strings w = sd_strings (ts_words c) @ ws \<and> words_room (?rest + k) w \<and> readable w ?p D \<and>
      tokens_text w ?p D (new_text stexts m ?n x) \<and> length D \<le> length l + ?first"
  proof (cases "qm_lookup index_conv m (of_nat ?n)")
    case None
    have f0: "?first = 0" by (simp add: replaced_def None total_length_def)
    have "words_room (?rest + k) (ts_words c)" using Cons.prems(7) unfolding tot f0 by simp
    moreover have "step = Some (Inr (c\<lparr>ts_stringData := ts_stringData c @ l\<rparr>))" unfolding step_def None option.case u by simp
    ultimately show ?thesis using Cons.prems(1,2) spl(2)
      by (intro exI [of _ "ts_words c"] exI [of _ l] exI [of _ "[]"]) (simp add: new_text_def None)
  next
    case (Some v)
    have "unat v < length stexts" "0 \<notin> set (stexts ! unat v)" using m [OF Some] by simp_all
    moreover have "?first = length (stexts ! unat v) + 1" using Some by (simp add: replaced_def total_length_def)
    moreover have "words_room (length (stexts ! unat v) + (?rest + k)) (ts_words c)"
      using Cons.prems(7) calculation(3) unfolding tot by (simp add: words_room_def)
    moreover have "length (ts_stringData c) + length (stexts ! unat v) + 1 < 2 ^ 32"
      using Cons.prems(3,9) calculation(3) unfolding tot by simp
    ultimately show ?thesis
      using append_from_ok [OF s _ Cons.prems(1), of v "?rest + k" outside] Some by (fastforce simp: step_def new_text_def)
  qed
  then obtain w D ws where st: "step = Some (Inr (c\<lparr>ts_words := w, ts_stringData := ts_stringData c @ D\<rparr>))" "tokens_ok w ?p"
      "sd_strings w = sd_strings (ts_words c) @ ws" "words_room (?rest + k) w" "readable w ?p D"
      "tokens_text w ?p D (new_text stexts m ?n x)" "length D \<le> length l + ?first" by blast
  let ?c = "c\<lparr>ts_words := w, ts_stringData := ts_stringData c @ D, ts_offsets := (ts_offsets c)[?n + 1 := of_nat (length (ts_stringData c @ D))]\<rparr>"
  have run: "replace_loop outside source m (old @ concat (l # Ls)) [?n..<?n + length (l # Ls)] (of_nat (length old)) c =
      replace_loop outside source m ((old @ l) @ concat Ls) [length (K @ [D])..<length (K @ [D]) + length Ls] (of_nat (length (old @ l))) ?c"
    unfolding up replace_loop.simps Let_def nx step_def [symmetric] st(1) by (simp del: upt_Suc)
  have "(ts_offsets c)[?n + 1 := of_nat (length (ts_stringData c @ D))] = map of_nat (starts 0 (K @ [D]) @ tl (starts (length (old @ l)) Ls))"
    unfolding offs by (simp add: list_update_append starts_snoc Cons.prems(3))
  moreover have "readable w ?p (ts_stringData c @ concat (l # Ls))" by (rule readable_extend [OF Cons.prems(2) st(3)]) simp
  then have "readable w ?p ((ts_stringData c @ D) @ concat Ls)" using st(5) by simp
  moreover have "list_all2 (tokens_text w ?p) ((K @ [D]) @ Ls) ((ktexts @ [new_text stexts m ?n x]) @ texts1)"
    using tokens_text_extend [OF spl(1) st(3)] tokens_text_extend [OF spl(3) st(3)] st(6) by (simp add: list_all2_appendI)
  ultimately obtain c' K' where R: "replace_loop outside source m ((old @ l) @ concat Ls) [length (K @ [D])..<length (K @ [D]) + length Ls] (of_nat (length (old @ l))) ?c = Some (Inr c')"
      "tokens_ok (ts_words c') (ts_pairs c')" "readable (ts_words c') (ts_pairs c') (ts_stringData c')" "layout c' [] K'"
      "list_all2 (tokens_text (ts_words c') (ts_pairs c')) K' ((ktexts @ [new_text stexts m ?n x]) @ map2 (new_text stexts m) [length (K @ [D])..<length (K @ [D]) + length Ls] texts1)"
      "words_room k (ts_words c')" "ts_pairs c' = ts_pairs ?c"
      "length (ts_stringData c') \<le> length (concat (K @ [D])) + length (concat Ls) + total_length (concat (map (replaced stexts m) [length (K @ [D])..<length (K @ [D]) + length Ls]))"
    using Cons.IH [of ?c "K @ [D]" "old @ l" "ktexts @ [new_text stexts m ?n x]" texts1] st(2,4,7) Cons.prems(3,6,8,9) unfolding tot
    by auto
  show ?case unfolding run tot using R st(7) by (intro exI [of _ c'] exI [of _ K']) (simp add: up' tx del: upt_Suc)
qed

definition remaining_texts :: "byte list list \<Rightarrow> index_t \<Rightarrow> (index_t \<times> index_t) list \<Rightarrow> byte list list" where
  "remaining_texts stexts n es = map (\<lambda>(key, v). stexts ! unat v) (filter (\<lambda>(key, v). n \<le> key) es)"

lemma append_remaining_ok:
  assumes s: "ts_holds source stexts"
  shows "ts_holds c texts \<Longrightarrow> \<forall>(key, v) \<in> set es. unat v < length stexts \<and> 0 \<notin> set (stexts ! unat v) \<Longrightarrow>
    words_room (total_length (remaining_texts stexts n es) + k) (ts_words c) \<Longrightarrow>
    length (ts_stringData c) + total_length (remaining_texts stexts n es) < 2 ^ 32 \<Longrightarrow>
    \<exists>c'. append_remaining outside source n es c = Some (Inr c') \<and> ts_holds c' (texts @ remaining_texts stexts n es) \<and>
      words_room k (ts_words c') \<and> ts_pairs c' = ts_pairs c \<and>
      length (ts_stringData c') \<le> length (ts_stringData c) + total_length (remaining_texts stexts n es) \<and>
      hd (ts_offsets c') = hd (ts_offsets c)"
proof (induction es arbitrary: c texts)
  case Nil
  then show ?case by (simp add: remaining_texts_def total_length_def)
next
  case (Cons e es)
  obtain key v where e: "e = (key, v)" by force
  let ?s = "stexts ! unat v" and ?r = "remaining_texts stexts n es"
  show ?case
  proof (cases "n \<le> key")
    case False
    then have "remaining_texts stexts n (e # es) = ?r" by (simp add: remaining_texts_def e)
    then show ?thesis using Cons.IH [OF Cons.prems(1)] Cons.prems(2-4) False by (simp add: e)
  next
    case True
    have r: "remaining_texts stexts n (e # es) = ?s # ?r" using True by (simp add: remaining_texts_def e)
    have t: "total_length (?s # ?r) = length ?s + 1 + total_length ?r" by (simp add: total_length_def)
    have v: "unat v < length stexts" "0 \<notin> set ?s" using Cons.prems(2) by (auto simp: e)
    have room: "words_room (length ?s + (total_length ?r + k)) (ts_words c)"
      using Cons.prems(3) unfolding r t by (simp add: words_room_def)
    have small: "length (ts_stringData c) + length ?s + 1 < 2 ^ 32" using Cons.prems(4) unfolding r t by simp
    obtain c1 where c1: "ts_Insert outside ?s c = Some (Inr (of_nat (length texts), c1))" "ts_holds c1 (texts @ [?s])"
        "words_room (total_length ?r + k) (ts_words c1)" "length (ts_stringData c1) \<le> length (ts_stringData c) + length ?s + 1"
        "ts_pairs c1 = ts_pairs c" "hd (ts_offsets c1) = hd (ts_offsets c)"
      using ts_Insert_ok [OF Cons.prems(1) room v(2) small, of outside] by blast
    have "length (ts_stringData c1) + total_length ?r < 2 ^ 32" using c1(4) Cons.prems(4) unfolding r t by simp
    then obtain c' where "append_remaining outside source n es c1 = Some (Inr c')" "ts_holds c' ((texts @ [?s]) @ ?r)"
        "words_room k (ts_words c')" "ts_pairs c' = ts_pairs c1" "length (ts_stringData c') \<le> length (ts_stringData c1) + total_length ?r"
        "hd (ts_offsets c') = hd (ts_offsets c1)"
      using Cons.IH [OF c1(2) _ c1(3)] Cons.prems(2) by auto
    then show ?thesis unfolding r t using True v(1) c1 ts_GetAt_ok [OF s v(1)] by (simp add: e)
  qed
qed

text \<open>The texts after a replacement, and the room that it takes.\<close>

definition replaced_texts :: "byte list list \<Rightarrow> index_mapping_t \<Rightarrow> byte list list \<Rightarrow> byte list list" where
  "replaced_texts stexts m texts =
     map2 (new_text stexts m) [0..<length texts] texts @ remaining_texts stexts (of_nat (length texts)) (qm_data m)"

definition incoming :: "byte list list \<Rightarrow> index_mapping_t \<Rightarrow> nat \<Rightarrow> byte list list" where
  "incoming stexts m n = concat (map (replaced stexts m) [0..<n]) @ remaining_texts stexts (of_nat n) (qm_data m)"

lemma ts_Replace_ok:
  assumes c: "ts_holds c texts" "hd (ts_offsets c) = 0" and s: "ts_holds source stexts"
    and m: "qm_inv index_conv m" "\<forall>(key, v) \<in> set (qm_data m). unat v < length stexts \<and> 0 \<notin> set (stexts ! unat v)"
    and room: "words_room (total_length (incoming stexts m (length texts)) + k) (ts_words c)"
      "length (ts_stringData c) + total_length (incoming stexts m (length texts)) < 2 ^ 32"
  shows "\<exists>c'. ts_Replace outside source m c = Some (Inr c') \<and> ts_holds c' (replaced_texts stexts m texts) \<and>
    words_room k (ts_words c') \<and> ts_pairs c' = ts_pairs c \<and> hd (ts_offsets c') = 0 \<and>
    length (ts_stringData c') \<le> length (ts_stringData c) + total_length (incoming stexts m (length texts))"
proof -
  let ?n = "length texts"
  obtain pre L where L: "layout c pre L" "list_all2 (tokens_text (ts_words c) (ts_pairs c)) L texts" "length L = ?n"
      "readable (ts_words c) (ts_pairs c) (ts_stringData c)" by (rule ts_holdsE [OF c(1)])
  have ok: "tokens_ok (ts_words c) (ts_pairs c)" by (rule ts_holds_tokens [OF c(1)])
  have "ts_offsets c ! 0 = hd (ts_offsets c)" using ts_holds_length [OF c(1)] by (intro hd_conv_nth [symmetric]) auto
  then have pre: "pre = []" using layout_offset [OF L(1), of 0] c(2) by simp
  have d: "ts_stringData c = [] @ concat L" and offs: "ts_offsets c = map of_nat (starts 0 L)" using L(1) by (simp_all add: layout_def pre)
  let ?c = "c\<lparr>ts_stringData := []\<rparr>"
  have lk: "unat v < length stexts \<and> 0 \<notin> set (stexts ! unat v)" if "qm_lookup index_conv m (of_nat i) = Some v" for i v
  proof -
    have "(of_nat i, v) \<in> set (qm_data m)" using that unfolding qm_lookup_map_of [OF m(1)] by (rule map_of_SomeD)
    then show ?thesis using m(2) by auto
  qed
  let ?t1 = "total_length (concat (map (replaced stexts m) [0..<?n]))" and ?t2 = "total_length (remaining_texts stexts (of_nat ?n) (qm_data m))"
  have tot: "total_length (incoming stexts m ?n) = ?t1 + ?t2" by (simp add: incoming_def)
  have pres: "tokens_ok (ts_words ?c) (ts_pairs ?c)" "readable (ts_words ?c) (ts_pairs ?c) (ts_stringData ?c @ concat L)"
    "ts_stringData ?c = concat []" "ts_offsets ?c = map of_nat (starts 0 [] @ tl (starts (length []) L))"
    "list_all2 (tokens_text (ts_words ?c) (ts_pairs ?c)) ([] @ L) ([] @ texts)"
    using ok L(2,4) starts_Cons_tl [of 0 L] by (simp_all add: d offs)
  have "\<exists>c1 K. replace_loop outside source m ([] @ concat L) [length ([] :: index_t list list)..<length ([] :: index_t list list) + length L]
      (of_nat (length ([] :: index_t list))) ?c = Some (Inr c1) \<and>
    tokens_ok (ts_words c1) (ts_pairs c1) \<and> readable (ts_words c1) (ts_pairs c1) (ts_stringData c1) \<and> layout c1 [] K \<and>
    list_all2 (tokens_text (ts_words c1) (ts_pairs c1)) K ([] @ map2 (new_text stexts m) [length ([] :: index_t list list)..<length ([] :: index_t list list) + length L] texts) \<and>
    words_room (?t2 + k) (ts_words c1) \<and> ts_pairs c1 = ts_pairs ?c \<and>
    length (ts_stringData c1) \<le> length (concat ([] :: index_t list list)) + length (concat L) +
      total_length (concat (map (replaced stexts m) [length ([] :: index_t list list)..<length ([] :: index_t list list) + length L]))"
    by (rule replace_loop_ok [OF s _ pres]) (use lk room L(1,3) d in \<open>simp_all add: tot add.assoc layout_def\<close>)
  then obtain c1 K where R: "replace_loop outside source m (concat L) [0..<?n] (of_nat 0) ?c = Some (Inr c1)"
    "tokens_ok (ts_words c1) (ts_pairs c1)" "readable (ts_words c1) (ts_pairs c1) (ts_stringData c1)" "layout c1 [] K"
    "list_all2 (tokens_text (ts_words c1) (ts_pairs c1)) K (map2 (new_text stexts m) [0..<?n] texts)"
    "words_room (?t2 + k) (ts_words c1)" "ts_pairs c1 = ts_pairs ?c" "length (ts_stringData c1) \<le> length (concat L) + ?t1"
    unfolding L(3) list.size append_Nil concat.simps add_0 by blast
  have h1: "ts_holds c1 (map2 (new_text stexts m) [0..<?n] texts)" using R(2-5) by (auto simp: ts_holds_def)
  obtain c2 where A: "append_remaining outside source (of_nat ?n) (qm_data m) c1 = Some (Inr c2)"
    "ts_holds c2 (replaced_texts stexts m texts)" "words_room k (ts_words c2)" "ts_pairs c2 = ts_pairs c1"
    "length (ts_stringData c2) \<le> length (ts_stringData c1) + ?t2" "hd (ts_offsets c2) = hd (ts_offsets c1)"
    using append_remaining_ok [OF s h1 m(2) R(6)] R(8) room(2) d unfolding tot replaced_texts_def by (auto simp: add.assoc)
  obtain os where os: "ts_offsets c = 0 # os" "length os = ?n"
    using c(2) ts_holds_length [OF c(1)] by (cases "ts_offsets c") auto
  have "ts_Replace outside source m c = Some (Inr c2)" using R(1) A(1) d by (simp add: ts_Replace_def os)
  moreover have "hd (ts_offsets c1) = 0" using R(4) by (cases K) (simp_all add: layout_def)
  ultimately show ?thesis using A R(7,8) d tot by (intro exI [of _ c2]) simp
qed

end
