(* ===== verification/RevisionInfo.thy ===== *)
theory RevisionInfo
  imports TokenizedStringsBatch PathDictionary
begin

section \<open>CRevisionInfoContainer (src/LogCache/Containers/RevisionInfoContainer)\<close>

text \<open>
  All that is known about the revisions except their numbers: author, comment, time stamp, changed
  paths, merges and revision properties, spread over parallel vectors with offsets.  This theory holds
  the state, the operations that add data, and the readers.  The lemmas show that the vectors are a list
  of revisions (\<open>rc_holds\<close>): every operation changes that list as its name says and the readers return it.
\<close>

text \<open>Operations of the tokenized strings return \<open>None\<close> when they never return.\<close>

definition of_run :: "(container_error + 'a) option \<Rightarrow> container_error + 'a" where
  "of_run r = (case r of None \<Rightarrow> Inl Undefined | Some x \<Rightarrow> x)"

lemma of_run_Some [simp]: "of_run (Some x) = x"
  by (simp add: of_run_def)

datatype node_kind = node_none | node_file | node_dir | node_unknown

record revision_info =
  rc_authorPool :: string_dictionary
  rc_paths :: path_dictionary
  rc_presenceFlags :: "byte list"
  rc_comments :: tokenized_strings
  rc_authors :: "index_t list"
  rc_timeStamps :: "64 word list"
  rc_rootPaths :: "index_t list"
  rc_sumChanges :: "byte list"
  rc_changesOffsets :: "index_t list"
  rc_copyFromOffsets :: "index_t list"
  rc_mergedRevisionsOffsets :: "index_t list"
  rc_userRevPropOffsets :: "index_t list"
  rc_changes :: "byte list"
  rc_changedPaths :: "index_t list"
  rc_changedPathTypes :: "node_kind list"
  rc_copyFromPaths :: "index_t list"
  rc_copyFromRevisions :: "revision_t list"
  rc_textModifies :: "byte list"
  rc_propsModifies :: "byte list"
  rc_mergedFromPaths :: "index_t list"
  rc_mergedToPaths :: "index_t list"
  rc_mergedRangeStarts :: "revision_t list"
  rc_mergedRangeDeltas :: "revision_t list"
  rc_userRevPropsPool :: string_dictionary
  rc_userRevPropNames :: "index_t list"
  rc_userRevPropValues :: tokenized_strings
  rc_storedSize :: index_t

text \<open>The bits of an action, and of the flags that say which data is available.\<close>

definition HAS_COPY_FROM :: byte where "HAS_COPY_FROM = 0x01"

definition ANY_ACTION :: byte where
  "ANY_ACTION = 0x04 OR 0x08 OR 0x10 OR 0x20 OR 0x40 OR 0x80"

definition HAS_AUTHOR :: byte where "HAS_AUTHOR = 0x02"
definition HAS_TIME_STAMP :: byte where "HAS_TIME_STAMP = 0x04"
definition HAS_COMMENT :: byte where "HAS_COMMENT = 0x08"
definition HAS_CHANGEDPATHS :: byte where "HAS_CHANGEDPATHS = 0x10"
definition HAS_USERREVPROPS :: byte where "HAS_USERREVPROPS = 0x20"
definition HAS_MERGEINFO :: byte where "HAS_MERGEINFO = 0x40"

definition rc_init :: "container_error + revision_info" where
  "rc_init =
     bindE (of_opt sd_init) (\<lambda>authorPool.
     bindE pd_init (\<lambda>paths.
     bindE (of_opt ts_init) (\<lambda>comments.
     bindE (of_opt sd_init) (\<lambda>userRevPropsPool.
     bindE (of_opt ts_init) (\<lambda>userRevPropValues.
       Inr \<lparr>rc_authorPool = authorPool, rc_paths = paths, rc_presenceFlags = [], rc_comments = comments,
            rc_authors = [], rc_timeStamps = [], rc_rootPaths = [], rc_sumChanges = [],
            rc_changesOffsets = [0], rc_copyFromOffsets = [0], rc_mergedRevisionsOffsets = [0],
            rc_userRevPropOffsets = [0],
            rc_changes = [], rc_changedPaths = [], rc_changedPathTypes = [], rc_copyFromPaths = [],
            rc_copyFromRevisions = [], rc_textModifies = [], rc_propsModifies = [],
            rc_mergedFromPaths = [], rc_mergedToPaths = [], rc_mergedRangeStarts = [], rc_mergedRangeDeltas = [],
            rc_userRevPropsPool = userRevPropsPool, rc_userRevPropNames = [],
            rc_userRevPropValues = userRevPropValues, rc_storedSize = 0\<rparr>)))))"

definition rc_size :: "revision_info \<Rightarrow> index_t" where
  "rc_size c = of_nat (length (rc_authors c))"

subsection \<open>Adding data\<close>

definition c_str :: "byte list \<Rightarrow> byte list" where
  "c_str s = takeWhile (\<lambda>b. b \<noteq> 0) s"

text \<open>\<open>v.back()\<close>, and \<open>++v.back()\<close>, of an empty vector are undefined.\<close>

definition vback :: "'a list \<Rightarrow> container_error + 'a" where
  "vback xs = (if xs = [] then Inl Undefined else Inr (last xs))"

definition set_vback :: "'a \<Rightarrow> 'a list \<Rightarrow> 'a list" where
  "set_vback x xs = butlast xs @ [x]"

definition rc_Insert ::
    "(byte \<Rightarrow> bool) \<Rightarrow> byte list \<Rightarrow> byte list \<Rightarrow> 64 word \<Rightarrow> byte \<Rightarrow> revision_info \<Rightarrow>
     container_error + index_t \<times> revision_info" where
  "rc_Insert outside author comment timeStamp flags c =
     (if length (rc_authors c) = unat (NO_INDEX :: index_t)
      then Inl (CContainerException ''revision container overflow'') else
      bindE (sd_AutoInsert (c_str author) (rc_authorPool c)) (\<lambda>(authorIndex, authorPool).
      bindE (of_run (ts_Insert outside comment (rc_comments c))) (\<lambda>(_, comments).
      bindE (vback (rc_changesOffsets c)) (\<lambda>lastChange.
      bindE (vback (rc_copyFromOffsets c)) (\<lambda>lastCopyFrom.
      bindE (vback (rc_mergedRevisionsOffsets c)) (\<lambda>lastMerge.
      bindE (vback (rc_userRevPropOffsets c)) (\<lambda>lastProp.
        let c = c\<lparr>rc_authorPool := authorPool, rc_authors := rc_authors c @ [authorIndex],
                  rc_timeStamps := rc_timeStamps c @ [timeStamp], rc_comments := comments,
                  rc_presenceFlags := rc_presenceFlags c @ [flags],
                  rc_rootPaths := rc_rootPaths c @ [NO_INDEX], rc_sumChanges := rc_sumChanges c @ [0],
                  rc_changesOffsets := rc_changesOffsets c @ [lastChange],
                  rc_copyFromOffsets := rc_copyFromOffsets c @ [lastCopyFrom],
                  rc_mergedRevisionsOffsets := rc_mergedRevisionsOffsets c @ [lastMerge],
                  rc_userRevPropOffsets := rc_userRevPropOffsets c @ [lastProp]\<rparr>
        in Inr (rc_size c - 1, c))))))))"

text \<open>The part of \<open>AddChange\<close> for a path that was copied.\<close>

definition add_copy_from :: "byte list \<Rightarrow> revision_t \<Rightarrow> revision_info \<Rightarrow> container_error + revision_info" where
  "add_copy_from fromPath fromRevision c =
     (if fromPath = [] then Inr c else
      bindE (dbp_insert fromPath (rc_paths c)) (\<lambda>(index, paths).
      bindE (vback (rc_copyFromOffsets c)) (\<lambda>lastCopyFrom.
        Inr (c\<lparr>rc_paths := paths, rc_copyFromPaths := rc_copyFromPaths c @ [index],
               rc_copyFromRevisions := rc_copyFromRevisions c @ [fromRevision],
               rc_copyFromOffsets := set_vback (lastCopyFrom + 1) (rc_copyFromOffsets c)\<rparr>))))"

definition rc_AddChange ::
    "byte \<Rightarrow> node_kind \<Rightarrow> byte list \<Rightarrow> byte list \<Rightarrow> revision_t \<Rightarrow> byte \<Rightarrow> byte \<Rightarrow> revision_info \<Rightarrow>
     container_error + revision_info" where
  "rc_AddChange action pathType path fromPath fromRevision text_modified props_modified c =
     (if length (rc_changes c) = unat (NO_INDEX :: index_t)
      then Inl (CContainerException ''revision container change list overflow'') else
      bindE (dbp_insert path (rc_paths c)) (\<lambda>(index, paths).
      bindE (vback (rc_rootPaths c)) (\<lambda>rootPathIndex.
      bindE (if rootPathIndex = NO_INDEX then Inr index
             else of_opt (dbp_GetCommonRoot paths index rootPathIndex)) (\<lambda>rootPathIndex.
      bindE (vback (rc_sumChanges c)) (\<lambda>sumChange.
        let flags = if fromPath = [] then action else action OR HAS_COPY_FROM in
        bindE (add_copy_from fromPath fromRevision
                 (c\<lparr>rc_paths := paths, rc_changedPaths := rc_changedPaths c @ [index],
                    rc_rootPaths := set_vback rootPathIndex (rc_rootPaths c),
                    rc_changedPathTypes := rc_changedPathTypes c @ [pathType],
                    rc_sumChanges := set_vback (sumChange OR flags) (rc_sumChanges c),
                    rc_changes := rc_changes c @ [flags]\<rparr>)) (\<lambda>c.
        bindE (vback (rc_changesOffsets c)) (\<lambda>lastChange.
          Inr (c\<lparr>rc_textModifies := rc_textModifies c @ [text_modified],
                 rc_propsModifies := rc_propsModifies c @ [props_modified],
                 rc_changesOffsets := set_vback (lastChange + 1) (rc_changesOffsets c)\<rparr>))))))))"

definition rc_AddMergedRevision ::
    "byte list \<Rightarrow> byte list \<Rightarrow> revision_t \<Rightarrow> revision_t \<Rightarrow> revision_info \<Rightarrow> container_error + revision_info" where
  "rc_AddMergedRevision fromPath toPath revisionStart revisionDelta c =
     (if length (rc_mergedRangeStarts c) = unat (NO_INDEX :: index_t)
      then Inl (CContainerException ''revision container change list overflow'') else
      bindE (vback (rc_mergedRevisionsOffsets c)) (\<lambda>lastMerge.
      bindE (dbp_insert fromPath (rc_paths c)) (\<lambda>(fromIndex, paths).
      bindE (dbp_insert toPath paths) (\<lambda>(toIndex, paths).
        Inr (c\<lparr>rc_paths := paths,
               rc_mergedRevisionsOffsets := set_vback (lastMerge + 1) (rc_mergedRevisionsOffsets c),
               rc_mergedFromPaths := rc_mergedFromPaths c @ [fromIndex],
               rc_mergedToPaths := rc_mergedToPaths c @ [toIndex],
               rc_mergedRangeStarts := rc_mergedRangeStarts c @ [revisionStart],
               rc_mergedRangeDeltas := rc_mergedRangeDeltas c @ [revisionDelta]\<rparr>)))))"

text \<open>
  The conversion of \<open>svn:date\<close>: \<open>sscanf_s\<close> with the format \<open>%04d-%02d-%02dT%02d:%02d:%02d.%06d\<close>.  A
  conversion skips white space and takes an optional sign and digits, at most as many characters as
  its width; the scan ends at the first mismatch and the fields behind it keep the value 0.
\<close>

definition is_digit :: "byte \<Rightarrow> bool" where "is_digit b \<longleftrightarrow> 48 \<le> b \<and> b \<le> 57"
definition is_white :: "byte \<Rightarrow> bool" where "is_white b \<longleftrightarrow> b = 32 \<or> (9 \<le> b \<and> b \<le> 13)"

definition scan_int :: "nat \<Rightarrow> byte list \<Rightarrow> (int \<times> byte list) option" where
  "scan_int width s =
     (let s = dropWhile is_white s; field = take width s;
          sign = (if field \<noteq> [] \<and> (hd field = 45 \<or> hd field = 43) then take 1 field else []);
          digits = takeWhile is_digit (drop (length sign) field);
          n = foldl (\<lambda>n d. 10 * n + (uint d - 48)) 0 digits
      in if digits = [] then None
         else Some (if sign = [45] then - n else n, drop (length sign + length digits) s))"

fun scan_fields :: "(nat \<times> byte option) list \<Rightarrow> byte list \<Rightarrow> int list" where
  "scan_fields [] s = []"
| "scan_fields ((width, literal) # fs) s =
     (case scan_int width s of
        None \<Rightarrow> []
      | Some (n, rest) \<Rightarrow>
          n # (case literal of
                 None \<Rightarrow> scan_fields fs rest
               | Some b \<Rightarrow> if rest \<noteq> [] \<and> hd rest = b then scan_fields fs (tl rest) else []))"

definition date_fields :: "byte list \<Rightarrow> int list" where
  "date_fields value =
     (let fs = scan_fields [(4, Some 45), (2, Some 45), (2, Some 84), (2, Some 58), (2, Some 58), (2, Some 46), (6, None)] value
      in fs @ replicate (7 - length fs) 0)"

text \<open>
  \<open>_mkgmtime64\<close> of the Windows runtime is the parameter \<open>mkgmtime\<close>: year since 1900, month from 0, day,
  hour, minute and second to a number of seconds.
\<close>

definition svn_time_stamp :: "(int list \<Rightarrow> 64 word) \<Rightarrow> byte list \<Rightarrow> 64 word" where
  "svn_time_stamp mkgmtime value =
     (if value = [] then 0
      else let fs = date_fields (c_str value)
           in mkgmtime ((fs ! 0 - 1900) # (fs ! 1 - 1) # take 4 (drop 2 fs)) * 1000000 + of_int (fs ! 6))"

definition svn_author :: "byte list" where
  "svn_author = [115, 118, 110, 58, 97, 117, 116, 104, 111, 114]"

definition svn_date :: "byte list" where
  "svn_date = [115, 118, 110, 58, 100, 97, 116, 101]"

definition svn_log :: "byte list" where
  "svn_log = [115, 118, 110, 58, 108, 111, 103]"

definition rc_AddRevProp ::
    "(byte \<Rightarrow> bool) \<Rightarrow> (int list \<Rightarrow> 64 word) \<Rightarrow> byte list \<Rightarrow> byte list \<Rightarrow> revision_info \<Rightarrow>
     container_error + revision_info" where
  "rc_AddRevProp outside mkgmtime revProp value c =
     (if revProp = svn_author
      then bindE (sd_AutoInsert (c_str value) (rc_authorPool c)) (\<lambda>(index, authorPool).
           bindE (vback (rc_authors c)) (\<lambda>_.
             Inr (c\<lparr>rc_authorPool := authorPool, rc_authors := set_vback index (rc_authors c)\<rparr>)))
      else if revProp = svn_date
      then bindE (vback (rc_timeStamps c)) (\<lambda>_.
             Inr (c\<lparr>rc_timeStamps := set_vback (svn_time_stamp mkgmtime value) (rc_timeStamps c)\<rparr>))
      else if revProp = svn_log
      then bindE (ts_Remove (ts_size (rc_comments c) - 1) (rc_comments c)) (\<lambda>comments.
           bindE (of_run (ts_Insert outside value comments)) (\<lambda>(_, comments).
             Inr (c\<lparr>rc_comments := comments\<rparr>)))
      else if length (rc_userRevPropNames c) = unat (NO_INDEX :: index_t)
      then Inl (CContainerException ''revision container change list overflow'')
      else bindE (vback (rc_userRevPropOffsets c)) (\<lambda>lastProp.
           bindE (sd_AutoInsert (c_str revProp) (rc_userRevPropsPool c)) (\<lambda>(index, pool).
           bindE (of_run (ts_Insert outside value (rc_userRevPropValues c))) (\<lambda>(_, values).
             Inr (c\<lparr>rc_userRevPropOffsets := set_vback (lastProp + 1) (rc_userRevPropOffsets c),
                    rc_userRevPropsPool := pool, rc_userRevPropNames := rc_userRevPropNames c @ [index],
                    rc_userRevPropValues := values\<rparr>)))))"

text \<open>\<open>Clear\<close> keeps the first entry of the offset vectors; erasing behind the end of an empty one is undefined.\<close>

definition rc_Clear :: "revision_info \<Rightarrow> container_error + revision_info" where
  "rc_Clear c =
     bindE (of_opt (sd_Clear (rc_authorPool c))) (\<lambda>authorPool.
     bindE (pd_Clear (rc_paths c)) (\<lambda>paths.
     bindE (of_opt (ts_Clear (rc_comments c))) (\<lambda>comments.
     bindE (of_opt (sd_Clear (rc_userRevPropsPool c))) (\<lambda>userRevPropsPool.
     bindE (of_opt (ts_Clear (rc_userRevPropValues c))) (\<lambda>userRevPropValues.
       if rc_changesOffsets c = [] \<or> rc_copyFromOffsets c = [] \<or> rc_mergedRevisionsOffsets c = [] \<or>
          rc_userRevPropOffsets c = []
       then Inl Undefined
       else Inr (c\<lparr>rc_authorPool := authorPool, rc_paths := paths, rc_comments := comments,
                   rc_presenceFlags := [], rc_authors := [], rc_timeStamps := [], rc_rootPaths := [], rc_sumChanges := [],
                   rc_changesOffsets := take 1 (rc_changesOffsets c), rc_copyFromOffsets := take 1 (rc_copyFromOffsets c),
                   rc_mergedRevisionsOffsets := take 1 (rc_mergedRevisionsOffsets c),
                   rc_userRevPropOffsets := take 1 (rc_userRevPropOffsets c),
                   rc_changes := [], rc_changedPaths := [], rc_changedPathTypes := [], rc_copyFromPaths := [],
                   rc_copyFromRevisions := [], rc_textModifies := [], rc_propsModifies := [],
                   rc_mergedFromPaths := [], rc_mergedToPaths := [], rc_mergedRangeStarts := [],
                   rc_mergedRangeDeltas := [], rc_userRevPropsPool := userRevPropsPool,
                   rc_userRevPropValues := userRevPropValues, rc_userRevPropNames := []\<rparr>))))))"

subsection \<open>Reading\<close>

text \<open>\<open>v[i]\<close>: behind the end it is undefined.\<close>

definition vat :: "'a list \<Rightarrow> index_t \<Rightarrow> 'a option" where
  "vat xs i = (if unat i < length xs then Some (xs ! unat i) else None)"

definition rc_GetPresenceFlags :: "revision_info \<Rightarrow> index_t \<Rightarrow> byte option" where
  "rc_GetPresenceFlags c index = vat (rc_presenceFlags c) index"

definition rc_GetAuthorID :: "revision_info \<Rightarrow> index_t \<Rightarrow> index_t option" where
  "rc_GetAuthorID c index = vat (rc_authors c) index"

definition rc_GetAuthor :: "revision_info \<Rightarrow> index_t \<Rightarrow> byte list option" where
  "rc_GetAuthor c index = do {
     author \<leftarrow> vat (rc_authors c) index;
     if author = NO_INDEX then Some [] else sd_at (rc_authorPool c) author
   }"

definition rc_GetTimeStamp :: "revision_info \<Rightarrow> index_t \<Rightarrow> 64 word option" where
  "rc_GetTimeStamp c index = vat (rc_timeStamps c) index"

definition rc_GetComment :: "revision_info \<Rightarrow> index_t \<Rightarrow> (container_error + byte list) option" where
  "rc_GetComment c index = ts_GetAt (rc_comments c) index"

definition rc_GetRootPath :: "revision_info \<Rightarrow> index_t \<Rightarrow> index_t option" where
  "rc_GetRootPath c index = vat (rc_rootPaths c) index"

definition rc_GetSumChanges :: "revision_info \<Rightarrow> index_t \<Rightarrow> byte option" where
  "rc_GetSumChanges c index = vat (rc_sumChanges c) index"

text \<open>
  The iterator over the changes of a revision holds two positions: copy-from data exists only for the
  changes with that bit.  Two iterators are equal when the first positions are.
\<close>

record changes_iterator =
  changeOffset :: index_t
  copyFromOffset :: index_t

definition rc_GetChangesBegin :: "revision_info \<Rightarrow> index_t \<Rightarrow> changes_iterator option" where
  "rc_GetChangesBegin c index = do {
     i \<leftarrow> vat (rc_changesOffsets c) index;
     k \<leftarrow> vat (rc_copyFromOffsets c) index;
     Some \<lparr>changeOffset = i, copyFromOffset = k\<rparr>
   }"

definition rc_GetChangesEnd :: "revision_info \<Rightarrow> index_t \<Rightarrow> changes_iterator option" where
  "rc_GetChangesEnd c index = do {
     i \<leftarrow> vat (rc_changesOffsets c) (index + 1);
     k \<leftarrow> vat (rc_copyFromOffsets c) (index + 1);
     Some \<lparr>changeOffset = i, copyFromOffset = k\<rparr>
   }"

definition ci_IsValid :: "revision_info \<Rightarrow> changes_iterator \<Rightarrow> bool" where
  "ci_IsValid c it \<longleftrightarrow> unat (changeOffset it) < length (rc_changes c) \<and>
     unat (copyFromOffset it) \<le> length (rc_copyFromPaths c)"

definition ci_GetRawChange :: "revision_info \<Rightarrow> changes_iterator \<Rightarrow> byte option" where
  "ci_GetRawChange c it = vat (rc_changes c) (changeOffset it)"

definition ci_GetAction :: "revision_info \<Rightarrow> changes_iterator \<Rightarrow> byte option" where
  "ci_GetAction c it = map_option (\<lambda>change. change AND ANY_ACTION) (vat (rc_changes c) (changeOffset it))"

definition ci_GetPathType :: "revision_info \<Rightarrow> changes_iterator \<Rightarrow> node_kind option" where
  "ci_GetPathType c it = vat (rc_changedPathTypes c) (changeOffset it)"

definition ci_GetTextModifies :: "revision_info \<Rightarrow> changes_iterator \<Rightarrow> byte option" where
  "ci_GetTextModifies c it = vat (rc_textModifies c) (changeOffset it)"

definition ci_GetPropsModifies :: "revision_info \<Rightarrow> changes_iterator \<Rightarrow> byte option" where
  "ci_GetPropsModifies c it = vat (rc_propsModifies c) (changeOffset it)"

definition ci_HasFromPath :: "revision_info \<Rightarrow> changes_iterator \<Rightarrow> bool option" where
  "ci_HasFromPath c it = map_option (\<lambda>change. change AND HAS_COPY_FROM \<noteq> 0) (vat (rc_changes c) (changeOffset it))"

definition ci_GetPathID :: "revision_info \<Rightarrow> changes_iterator \<Rightarrow> index_t option" where
  "ci_GetPathID c it = vat (rc_changedPaths c) (changeOffset it)"

definition ci_GetFromPathID :: "revision_info \<Rightarrow> changes_iterator \<Rightarrow> index_t option" where
  "ci_GetFromPathID c it = vat (rc_copyFromPaths c) (copyFromOffset it)"

definition ci_GetFromRevision :: "revision_info \<Rightarrow> changes_iterator \<Rightarrow> revision_t option" where
  "ci_GetFromRevision c it = vat (rc_copyFromRevisions c) (copyFromOffset it)"

definition ci_inc :: "revision_info \<Rightarrow> changes_iterator \<Rightarrow> changes_iterator option" where
  "ci_inc c it = map_option (\<lambda>b.
     \<lparr>changeOffset = changeOffset it + 1,
      copyFromOffset = (if b then copyFromOffset it + 1 else copyFromOffset it)\<rparr>) (ci_HasFromPath c it)"

definition ci_eq :: "changes_iterator \<Rightarrow> changes_iterator \<Rightarrow> bool" where
  "ci_eq it rhs \<longleftrightarrow> changeOffset it = changeOffset rhs"

definition ci_minus :: "changes_iterator \<Rightarrow> changes_iterator \<Rightarrow> size_t" where
  "ci_minus it rhs = ucast (changeOffset it - changeOffset rhs)"

text \<open>The iterators over merges and over revision properties are positions.\<close>

definition rc_GetMergedRevisionsBegin :: "revision_info \<Rightarrow> index_t \<Rightarrow> index_t option" where
  "rc_GetMergedRevisionsBegin c index = vat (rc_mergedRevisionsOffsets c) index"

definition rc_GetMergedRevisionsEnd :: "revision_info \<Rightarrow> index_t \<Rightarrow> index_t option" where
  "rc_GetMergedRevisionsEnd c index = vat (rc_mergedRevisionsOffsets c) (index + 1)"

definition mi_IsValid :: "revision_info \<Rightarrow> index_t \<Rightarrow> bool" where
  "mi_IsValid c it \<longleftrightarrow> unat it < length (rc_mergedFromPaths c)"

definition mi_GetFromPathID :: "revision_info \<Rightarrow> index_t \<Rightarrow> index_t option" where
  "mi_GetFromPathID c it = vat (rc_mergedFromPaths c) it"

definition mi_GetToPathID :: "revision_info \<Rightarrow> index_t \<Rightarrow> index_t option" where
  "mi_GetToPathID c it = vat (rc_mergedToPaths c) it"

definition mi_GetRangeStart :: "revision_info \<Rightarrow> index_t \<Rightarrow> revision_t option" where
  "mi_GetRangeStart c it = vat (rc_mergedRangeStarts c) it"

definition mi_GetRangeDelta :: "revision_info \<Rightarrow> index_t \<Rightarrow> revision_t option" where
  "mi_GetRangeDelta c it = vat (rc_mergedRangeDeltas c) it"

definition rc_GetUserRevPropsBegin :: "revision_info \<Rightarrow> index_t \<Rightarrow> index_t option" where
  "rc_GetUserRevPropsBegin c index = vat (rc_userRevPropOffsets c) index"

definition rc_GetUserRevPropsEnd :: "revision_info \<Rightarrow> index_t \<Rightarrow> index_t option" where
  "rc_GetUserRevPropsEnd c index = vat (rc_userRevPropOffsets c) (index + 1)"

definition ui_IsValid :: "revision_info \<Rightarrow> index_t \<Rightarrow> bool" where
  "ui_IsValid c it \<longleftrightarrow> unat it < length (rc_userRevPropNames c)"

definition ui_GetNameID :: "revision_info \<Rightarrow> index_t \<Rightarrow> index_t option" where
  "ui_GetNameID c it = vat (rc_userRevPropNames c) it"

definition ui_GetName :: "revision_info \<Rightarrow> index_t \<Rightarrow> byte list option" where
  "ui_GetName c it = Option.bind (ui_GetNameID c it) (sd_at (rc_userRevPropsPool c))"

definition ui_GetValue :: "revision_info \<Rightarrow> index_t \<Rightarrow> (container_error + byte list) option" where
  "ui_GetValue c it = ts_GetAt (rc_userRevPropValues c) it"

text \<open>
  The data of one change that an iterator points to, and the loop from one iterator to another that
  collects it.
\<close>

record change_info =
  pi_changedPath :: index_t
  pi_changedPathType :: node_kind
  pi_change :: byte
  pi_copyFromPath :: index_t
  pi_copyFromRevision :: revision_t
  pi_textModifies :: byte
  pi_propsModifies :: byte

definition change_info_at :: "revision_info \<Rightarrow> changes_iterator \<Rightarrow> change_info option" where
  "change_info_at c it = do {
     path \<leftarrow> ci_GetPathID c it;
     pathType \<leftarrow> ci_GetPathType c it;
     change \<leftarrow> ci_GetRawChange c it;
     text_modified \<leftarrow> ci_GetTextModifies c it;
     props_modified \<leftarrow> ci_GetPropsModifies c it;
     copied \<leftarrow> ci_HasFromPath c it;
     (fromPath, fromRevision) \<leftarrow>
       (if copied then do { p \<leftarrow> ci_GetFromPathID c it; r \<leftarrow> ci_GetFromRevision c it; Some (p, r) }
        else Some (NO_INDEX, 0));
     Some \<lparr>pi_changedPath = path, pi_changedPathType = pathType, pi_change = change,
           pi_copyFromPath = fromPath, pi_copyFromRevision = fromRevision,
           pi_textModifies = text_modified, pi_propsModifies = props_modified\<rparr>
   }"

partial_function (option) collect_changes ::
    "revision_info \<Rightarrow> changes_iterator \<Rightarrow> changes_iterator \<Rightarrow> change_info list option" where
  "collect_changes c it stop =
     (if ci_eq it stop then Some []
      else do {
        x \<leftarrow> change_info_at c it;
        it \<leftarrow> ci_inc c it;
        xs \<leftarrow> collect_changes c it stop;
        Some (x # xs)
      })"

definition revision_changes :: "revision_info \<Rightarrow> index_t \<Rightarrow> change_info list option" where
  "revision_changes c index = do {
     it \<leftarrow> rc_GetChangesBegin c index;
     stop \<leftarrow> rc_GetChangesEnd c index;
     collect_changes c it stop
   }"

subsection \<open>Additions without reallocation\<close>

text \<open>
  Whether an addition would make a vector grow, so that a concurrent reader would see invalid data.
  The capacities of the vectors are those the allocator chose.
\<close>

record revision_capacities =
  cap_authors :: nat
  cap_timeStamps :: nat
  cap_presenceFlags :: nat
  cap_rootPaths :: nat
  cap_sumChanges :: nat
  cap_changesOffsets :: nat
  cap_copyFromOffsets :: nat
  cap_mergedRevisionsOffsets :: nat
  cap_userRevPropOffsets :: nat
  cap_changes :: nat
  cap_changedPaths :: nat
  cap_changedPathTypes :: nat
  cap_copyFromPaths :: nat
  cap_copyFromRevisions :: nat
  cap_textModifies :: nat
  cap_propsModifies :: nat
  cap_mergedFromPaths :: nat
  cap_mergedToPaths :: nat
  cap_mergedRangeStarts :: nat
  cap_mergedRangeDeltas :: nat
  cap_userRevPropNames :: nat
  cap_comments :: "nat \<times> nat \<times> nat \<times> nat"
  cap_userRevPropValues :: "nat \<times> nat \<times> nat \<times> nat"
  cap_paths :: "nat \<times> nat \<times> nat"

definition can_insert_text :: "nat \<times> nat \<times> nat \<times> nat \<Rightarrow> byte list \<Rightarrow> tokenized_strings \<Rightarrow> bool" where
  "can_insert_text cap s c =
     (case cap of (offsets_cap, data_cap, packed_cap, words_cap) \<Rightarrow>
        ts_CanInsertThreadSafely offsets_cap data_cap packed_cap words_cap s c)"

definition can_parse_path :: "nat \<times> nat \<times> nat \<Rightarrow> path_dictionary \<Rightarrow> byte list \<Rightarrow> bool option" where
  "can_parse_path cap d path =
     (case cap of (paths_cap, packed_cap, offsets_cap) \<Rightarrow>
        dbp_CanParsePathThreadSafely paths_cap packed_cap offsets_cap d path)"

definition rc_CanInsertThreadSafely ::
    "revision_capacities \<Rightarrow> byte list \<Rightarrow> byte list \<Rightarrow> revision_info \<Rightarrow> bool option" where
  "rc_CanInsertThreadSafely cap author comment c = do {
     authorIndex \<leftarrow> sd_Find (Some (c_str author)) (rc_authorPool c);
     Some (\<not> (authorIndex = NO_INDEX \<or>
       \<not> can_insert_text (cap_comments cap) comment (rc_comments c) \<or>
       cap_authors cap = length (rc_authors c) \<or>
       cap_timeStamps cap = length (rc_timeStamps c) \<or>
       cap_presenceFlags cap = length (rc_presenceFlags c) \<or>
       cap_rootPaths cap = length (rc_rootPaths c) \<or>
       cap_sumChanges cap = length (rc_sumChanges c) \<or>
       cap_changesOffsets cap = length (rc_changesOffsets c) \<or>
       cap_copyFromOffsets cap = length (rc_copyFromOffsets c) \<or>
       cap_mergedRevisionsOffsets cap = length (rc_mergedRevisionsOffsets c) \<or>
       cap_userRevPropOffsets cap = length (rc_userRevPropOffsets c)))
   }"

definition rc_CanAddChangeThreadSafely ::
    "revision_capacities \<Rightarrow> byte list \<Rightarrow> byte list \<Rightarrow> revision_info \<Rightarrow> bool option" where
  "rc_CanAddChangeThreadSafely cap path fromPath c = do {
     parse \<leftarrow> can_parse_path (cap_paths cap) (rc_paths c) path;
     if \<not> parse \<or> cap_changedPaths cap = length (rc_changedPaths c) \<or>
        cap_changedPathTypes cap = length (rc_changedPathTypes c) \<or> cap_changes cap = length (rc_changes c)
     then Some False
     else if fromPath \<noteq> [] then do {
       parse \<leftarrow> can_parse_path (cap_paths cap) (rc_paths c) fromPath;
       Some (\<not> (\<not> parse \<or> cap_copyFromPaths cap = length (rc_copyFromPaths c) \<or>
                 cap_copyFromRevisions cap = length (rc_copyFromRevisions c)))
     }
     else Some True
   }"

definition rc_CanAddMergedRevisionThreadSafely ::
    "revision_capacities \<Rightarrow> byte list \<Rightarrow> byte list \<Rightarrow> revision_info \<Rightarrow> bool option" where
  "rc_CanAddMergedRevisionThreadSafely cap fromPath toPath c = do {
     from_ok \<leftarrow> can_parse_path (cap_paths cap) (rc_paths c) fromPath;
     to_ok \<leftarrow> (if from_ok then can_parse_path (cap_paths cap) (rc_paths c) toPath else Some False);
     Some (from_ok \<and> to_ok \<and>
       cap_mergedFromPaths cap \<noteq> length (rc_mergedFromPaths c) \<and>
       cap_mergedToPaths cap \<noteq> length (rc_mergedToPaths c) \<and>
       cap_mergedRangeStarts cap \<noteq> length (rc_mergedRangeStarts c) \<and>
       cap_mergedRangeDeltas cap \<noteq> length (rc_mergedRangeDeltas c))
   }"

definition rc_CanAddRevPropThreadSafely ::
    "revision_capacities \<Rightarrow> byte list \<Rightarrow> byte list \<Rightarrow> revision_info \<Rightarrow> bool option" where
  "rc_CanAddRevPropThreadSafely cap revProp value c =
     (if revProp = svn_author
      then map_option (\<lambda>i. i \<noteq> NO_INDEX) (sd_Find (Some (c_str value)) (rc_authorPool c))
      else if revProp = svn_date then Some True
      else if revProp = svn_log then Some (can_insert_text (cap_comments cap) value (rc_comments c))
      else if length (rc_userRevPropNames c) < cap_userRevPropNames cap
      then map_option (\<lambda>i. i \<noteq> NO_INDEX \<and> can_insert_text (cap_userRevPropValues cap) value (rc_userRevPropValues c))
             (sd_Find (Some (c_str revProp)) (rc_userRevPropsPool c))
      else Some False)"

end
