(* ===== verification/RevisionInfoFill.thy ===== *)
theory RevisionInfoFill
  imports RevisionInfo
begin

section \<open>The revision container as a list of revisions\<close>

text \<open>
  What the parallel vectors of CRevisionInfoContainer stand for, the effect of the operations that add
  data, and the readers.
\<close>

lemma list_all2_snoc [simp]: "list_all2 P (xs @ [x]) (ys @ [y]) \<longleftrightarrow> list_all2 P xs ys \<and> P x y"
proof
  assume l: "list_all2 P (xs @ [x]) (ys @ [y])"
  then have "length xs = length ys" by (auto dest: list_all2_lengthD)
  with l show "list_all2 P xs ys \<and> P x y" by (simp add: list_all2_append)
qed (simp add: list_all2_appendI)

subsection \<open>Revisions\<close>

record revision_change =
  ch_action :: byte
  ch_type :: node_kind
  ch_path :: "byte list list"
  ch_from :: "(byte list list \<times> revision_t) option"
  ch_text :: byte
  ch_props :: byte

record revision =
  rv_author :: "byte list"
  rv_comment :: "byte list"
  rv_time :: "64 word"
  rv_flags :: byte
  rv_changes :: "revision_change list"
  rv_merges :: "(byte list list \<times> byte list list \<times> revision_t \<times> revision_t) list"
  rv_props :: "(byte list \<times> byte list) list"

definition change_byte :: "revision_change \<Rightarrow> byte" where
  "change_byte ch = (case ch_from ch of None \<Rightarrow> ch_action ch | Some _ \<Rightarrow> ch_action ch OR HAS_COPY_FROM)"

definition copies :: "revision_change list \<Rightarrow> (byte list list \<times> revision_t) list" where
  "copies chs = concat (map (\<lambda>ch. case ch_from ch of None \<Rightarrow> [] | Some x \<Rightarrow> [x]) chs)"

definition sum_of :: "revision_change list \<Rightarrow> byte" where
  "sum_of chs = foldl (\<lambda>s ch. s OR change_byte ch) 0 chs"

fun common_path :: "byte list list list \<Rightarrow> byte list list" where
  "common_path [] = []"
| "common_path (p # ps) = foldl longest_common_prefix p ps"

lemma common_path_snoc: "ps \<noteq> [] \<Longrightarrow> common_path (ps @ [p]) = longest_common_prefix (common_path ps) p"
  by (cases ps) auto

lemma common_path_single [simp]: "common_path [p] = p"
  by simp

lemma copies_append [simp]: "copies (xs @ ys) = copies xs @ copies ys"
  by (simp add: copies_def)

lemma copies_Nil [simp]: "copies [] = []"
  by (simp add: copies_def)

lemma length_copies: "length (copies chs) \<le> length chs"
  by (induction chs) (auto simp: copies_def split: option.splits)

lemma sum_of_snoc [simp]: "sum_of (chs @ [ch]) = sum_of chs OR change_byte ch"
  by (simp add: sum_of_def)

lemma sum_of_Nil [simp]: "sum_of [] = 0"
  by (simp add: sum_of_def)

subsection \<open>Indexes that stand for strings and for paths\<close>

definition names :: "string_dictionary \<Rightarrow> index_t \<Rightarrow> byte list \<Rightarrow> bool" where
  "names w i s \<longleftrightarrow> unat i < length (sd_strings w) \<and> sd_strings w ! unat i = s"

definition stands :: "path_dictionary \<Rightarrow> index_t \<Rightarrow> byte list list \<Rightarrow> bool" where
  "stands d i p \<longleftrightarrow> unat i < length (pd_keys d) \<and> pd_path d i = p"

definition root_of :: "path_dictionary \<Rightarrow> index_t \<Rightarrow> revision_change list \<Rightarrow> bool" where
  "root_of d i chs \<longleftrightarrow> (if chs = [] then i = NO_INDEX else stands d i (common_path (map ch_path chs)))"

lemma names_extend: "names w i s \<Longrightarrow> sd_strings w' = sd_strings w @ ws \<Longrightarrow> names w' i s"
  by (auto simp: names_def nth_append)

lemma stands_extend: "stands d i p \<Longrightarrow> pd_inv d \<Longrightarrow> pd_keys d' = pd_keys d @ ks \<Longrightarrow> stands d' i p"
  using path_at_append [of "pd_keys d" "unat i" ks] by (auto simp: stands_def pd_path_def pd_inv_def)

lemma stands_valid: "pd_inv d \<Longrightarrow> stands d i p \<Longrightarrow> i \<noteq> NO_INDEX"
  using pd_keys_length [of d] unat_NO_INDEX [where 'i = 32] by (auto simp: stands_def)

lemma root_of_extend: "root_of d i chs \<Longrightarrow> pd_inv d \<Longrightarrow> pd_keys d' = pd_keys d @ ks \<Longrightarrow> root_of d' i chs"
  using stands_extend by (auto simp: root_of_def)

lemma names_all: "list_all2 (names w) is ss \<Longrightarrow> sd_strings w' = sd_strings w @ ws \<Longrightarrow> list_all2 (names w') is ss"
  by (erule list_all2_mono) (rule names_extend)

lemma stands_all: "list_all2 (stands d) is ps \<Longrightarrow> pd_inv d \<Longrightarrow> pd_keys d' = pd_keys d @ ks \<Longrightarrow> list_all2 (stands d') is ps"
  by (erule list_all2_mono) (rule stands_extend)

lemma root_all: "list_all2 (root_of d) is ps \<Longrightarrow> pd_inv d \<Longrightarrow> pd_keys d' = pd_keys d @ ks \<Longrightarrow> list_all2 (root_of d') is ps"
  by (erule list_all2_mono) (rule root_of_extend)

text \<open>Adding a name to a pool, and a path to the dictionary, with the room that is left.\<close>

lemma words_room_mono: "words_room (m + k) w \<Longrightarrow> words_room k w"
  by (simp add: words_room_def)

lemma pool_AutoInsert_ok:
  assumes inv: "sd_inv w" and room: "words_room (length s + 1 + k) w" and s: "0 \<notin> set s"
  shows "\<exists>i w' ws. sd_AutoInsert s w = Inr (i, w') \<and> sd_inv w' \<and> sd_strings w' = sd_strings w @ ws \<and>
    words_room k w' \<and> names w' i s"
proof -
  have "sd_room s w" using room s by (intro sd_room_light [OF inv]) (auto simp: words_room_def)
  then obtain w' where w': "sd_AutoInsert s w = Inr (index_in (sd_strings w') s, w')" "sd_inv w'"
      "sd_strings w' = (if s \<in> set (sd_strings w) then sd_strings w else sd_strings w @ [s])"
      "sd_light w \<longrightarrow> load_ok (sd_hashIndex w')" using sd_AutoInsert_ok [OF inv] by blast
  define ws where "ws = (if s \<in> set (sd_strings w) then [] else [s])"
  have app: "sd_strings w' = sd_strings w @ ws" by (simp add: w'(3) ws_def)
  have "length ws \<le> 1" "length (packed_of ws) \<le> length s + 1" by (auto simp: ws_def)
  moreover have "load_ok (sd_hashIndex w')" using w'(4) room by (simp add: sd_light_def words_room_def)
  ultimately have "words_room k w'" using room by (simp add: words_room_def app)
  moreover have "s \<in> set (sd_strings w')" by (simp add: w'(3))
  from string_pool.index_position [OF w'(2) this] have "names w' (index_in (sd_strings w') s) s"
    by (auto simp: names_def)
  ultimately show ?thesis using w'(1,2) app by blast
qed

lemma length_split_elements: "length (packed_of (split_elements t)) \<le> length t + 1"
proof (induction t rule: split_elements.induct)
  case (1 t)
  let ?p = "\<lambda>c. c \<noteq> slash"
  have t: "length t = length (takeWhile ?p t) + length (dropWhile ?p t)"
    by (metis length_append takeWhile_dropWhile_id)
  have "length (takeWhile (\<lambda>c. c \<noteq> 0) (takeWhile ?p t)) \<le> length (takeWhile ?p t)" by (rule length_takeWhile_le)
  then show ?case using 1 [OF refl refl] t by (subst split_elements.simps) (cases "dropWhile ?p t"; auto simp: Let_def)
qed

lemma length_path_elements: "length (packed_of (path_elements path)) \<le> length path + 1"
  using length_split_elements [of path] length_split_elements [of "tl path"] by (cases path) (auto simp: path_elements_def)

lemma dbp_insert_ok:
  assumes inv: "pd_inv d" and room: "pd_room (length path + 1 + k) (length path + 1 + k) d"
  shows "\<exists>i d' ks. dbp_insert path d = Inr (i, d') \<and> pd_inv d' \<and> pd_room k k d' \<and> pd_keys d' = pd_keys d @ ks \<and>
    stands d' i (path_elements path)"
proof -
  let ?es = "path_elements path"
  have "length ?es \<le> length path + 1" "length (packed_of ?es) \<le> length path + 1"
    using length_path_elements [of path] length_strs_le_packed [of ?es] by simp_all
  then have "pd_room (length ?es + k) (length (packed_of ?es) + k) d" using room by (simp add: pd_room_def)
  moreover have "\<forall>e \<in> set ?es. 0 \<notin> set e" using path_elements_no_zero by blast
  moreover have "unat (0 :: index_t) < length (pd_keys d)" by (rule pd_inv_root [OF inv])
  ultimately obtain i d' ks where "parse_insert ?es 0 d = Inr (i, d')" "pd_inv d'" "pd_room k k d'"
      "pd_keys d' = pd_keys d @ ks" "unat i < length (pd_keys d')" "pd_path d' i = pd_path d 0 @ ?es"
    using parse_insert_room [OF inv] by blast
  then show ?thesis by (auto simp: dbp_insert_def stands_def simp del: length_pd_keys)
qed

subsection \<open>Offset vectors\<close>

definition offsets_of :: "'a list list \<Rightarrow> index_t list" where
  "offsets_of L = map of_nat (starts 0 L)"

lemma last_starts: "last (starts n L) = n + length (concat L)"
  by (induction n L rule: starts.induct) auto

lemma starts_not_Nil [simp]: "starts n L \<noteq> []"
  by (cases L) auto

lemma vback_offsets [simp]: "vback (offsets_of L) = Inr (of_nat (length (concat L)))"
  by (simp add: vback_def offsets_of_def last_map last_starts)

lemma offsets_new [simp]: "offsets_of L @ [of_nat (length (concat L))] = offsets_of (L @ [[]])"
  by (simp add: offsets_of_def starts_snoc)

lemma offsets_grow: "set_vback (of_nat (length (concat (L @ [l]))) + 1) (offsets_of (L @ [l])) = offsets_of (L @ [l @ [x]])"
  by (simp add: offsets_of_def starts_snoc set_vback_def butlast_append)

lemma length_offsets_of [simp]: "length (offsets_of L) = length L + 1"
  by (simp add: offsets_of_def)

lemma nth_offsets_of: "i \<le> length L \<Longrightarrow> offsets_of L ! i = of_nat (length (concat (take i L)))"
  by (simp add: offsets_of_def nth_starts)


subsection \<open>The container as a list of revisions\<close>

definition holds_std :: "revision_info \<Rightarrow> revision list \<Rightarrow> bool" where
  "holds_std c revs \<longleftrightarrow> sd_inv (rc_authorPool c) \<and>
     list_all2 (names (rc_authorPool c)) (rc_authors c) (map rv_author revs) \<and>
     rc_timeStamps c = map rv_time revs \<and> rc_presenceFlags c = map rv_flags revs \<and>
     ts_holds (rc_comments c) (map rv_comment revs)"

definition all_changes :: "revision list \<Rightarrow> revision_change list" where
  "all_changes revs = concat (map rv_changes revs)"

definition holds_changes :: "revision_info \<Rightarrow> revision list \<Rightarrow> bool" where
  "holds_changes c revs \<longleftrightarrow> pd_inv (rc_paths c) \<and>
     list_all2 (root_of (rc_paths c)) (rc_rootPaths c) (map rv_changes revs) \<and>
     rc_sumChanges c = map (\<lambda>r. sum_of (rv_changes r)) revs \<and>
     rc_changesOffsets c = offsets_of (map rv_changes revs) \<and>
     rc_copyFromOffsets c = offsets_of (map (\<lambda>r. copies (rv_changes r)) revs) \<and>
     rc_changes c = map change_byte (all_changes revs) \<and>
     list_all2 (stands (rc_paths c)) (rc_changedPaths c) (map ch_path (all_changes revs)) \<and>
     rc_changedPathTypes c = map ch_type (all_changes revs) \<and>
     list_all2 (stands (rc_paths c)) (rc_copyFromPaths c) (map fst (copies (all_changes revs))) \<and>
     rc_copyFromRevisions c = map snd (copies (all_changes revs)) \<and>
     rc_textModifies c = map ch_text (all_changes revs) \<and> rc_propsModifies c = map ch_props (all_changes revs) \<and>
     (\<forall>ch \<in> set (all_changes revs). ch_action ch AND ANY_ACTION = ch_action ch)"

definition all_merges :: "revision list \<Rightarrow> (byte list list \<times> byte list list \<times> revision_t \<times> revision_t) list" where
  "all_merges revs = concat (map rv_merges revs)"

definition holds_merges :: "revision_info \<Rightarrow> revision list \<Rightarrow> bool" where
  "holds_merges c revs \<longleftrightarrow> rc_mergedRevisionsOffsets c = offsets_of (map rv_merges revs) \<and>
     list_all2 (stands (rc_paths c)) (rc_mergedFromPaths c) (map fst (all_merges revs)) \<and>
     list_all2 (stands (rc_paths c)) (rc_mergedToPaths c) (map (\<lambda>m. fst (snd m)) (all_merges revs)) \<and>
     rc_mergedRangeStarts c = map (\<lambda>m. fst (snd (snd m))) (all_merges revs) \<and>
     rc_mergedRangeDeltas c = map (\<lambda>m. snd (snd (snd m))) (all_merges revs)"

definition all_props :: "revision list \<Rightarrow> (byte list \<times> byte list) list" where
  "all_props revs = concat (map rv_props revs)"

definition holds_props :: "revision_info \<Rightarrow> revision list \<Rightarrow> bool" where
  "holds_props c revs \<longleftrightarrow> sd_inv (rc_userRevPropsPool c) \<and>
     rc_userRevPropOffsets c = offsets_of (map rv_props revs) \<and>
     list_all2 (names (rc_userRevPropsPool c)) (rc_userRevPropNames c) (map fst (all_props revs)) \<and>
     ts_holds (rc_userRevPropValues c) (map snd (all_props revs))"

definition rc_holds :: "revision_info \<Rightarrow> revision list \<Rightarrow> bool" where
  "rc_holds c revs \<longleftrightarrow> holds_std c revs \<and> holds_changes c revs \<and> holds_merges c revs \<and> holds_props c revs"

text \<open>Room for additions whose texts have \<open>k\<close> characters in all.\<close>

definition texts_room :: "nat \<Rightarrow> tokenized_strings \<Rightarrow> bool" where
  "texts_room k c \<longleftrightarrow> words_room k (ts_words c) \<and> length (ts_stringData c) + k < 2 ^ 32"

definition rc_room :: "nat \<Rightarrow> revision_info \<Rightarrow> bool" where
  "rc_room k c \<longleftrightarrow> words_room k (rc_authorPool c) \<and> words_room k (rc_userRevPropsPool c) \<and> pd_room k k (rc_paths c) \<and>
     texts_room k (rc_comments c) \<and> texts_room k (rc_userRevPropValues c) \<and>
     length (rc_authors c) + k < 2 ^ 32 - 1 \<and> length (rc_changes c) + k < 2 ^ 32 - 1 \<and>
     length (rc_mergedRangeStarts c) + k < 2 ^ 32 - 1 \<and> length (rc_userRevPropNames c) + k < 2 ^ 32 - 1"

lemma texts_room_mono: "texts_room (m + k) c \<Longrightarrow> texts_room k c"
  by (auto simp: texts_room_def words_room_def)

lemma pd_room_mono: "pd_room (m + k) (m + k) d \<Longrightarrow> pd_room k k d"
  by (simp add: pd_room_def)

lemma rc_room_mono: "rc_room (m + k) c \<Longrightarrow> rc_room k c"
  by (auto simp: rc_room_def dest: words_room_mono texts_room_mono pd_room_mono)

lemma text_Insert_ok:
  assumes "ts_holds c texts" "texts_room (length s + 1 + k) c" "0 \<notin> set s"
  shows "\<exists>c'. ts_Insert outside s c = Some (Inr (of_nat (length texts), c')) \<and> ts_holds c' (texts @ [s]) \<and> texts_room k c'"
proof -
  have "words_room (length s + (k + 1)) (ts_words c)" "length (ts_stringData c) + length s + 1 < 2 ^ 32"
    using assms(2) by (simp_all add: texts_room_def add.commute add.left_commute)
  from ts_Insert_ok [OF assms(1) this(1) assms(3) this(2)] obtain c' where
    c': "ts_Insert outside s c = Some (Inr (of_nat (length texts), c'))" "ts_holds c' (texts @ [s])" "words_room (k + 1) (ts_words c')"
      "length (ts_stringData c') \<le> length (ts_stringData c) + length s + 1" by blast
  then show ?thesis using assms(2) by (intro exI [of _ c']) (simp add: texts_room_def words_room_def)
qed

lemma rc_holds_lengths:
  assumes "rc_holds c revs"
  shows "length (rc_authors c) = length revs" "length (rc_changes c) = length (all_changes revs)"
    "length (rc_mergedRangeStarts c) = length (all_merges revs)" "length (rc_userRevPropNames c) = length (all_props revs)"
    "length (rc_rootPaths c) = length revs"
  using assms
  by (auto simp: rc_holds_def holds_std_def holds_changes_def holds_merges_def holds_props_def dest: list_all2_lengthD)

subsection \<open>Adding data\<close>

lemma c_str_no_zero [simp]: "0 \<notin> set (c_str s)"
  by (auto simp: c_str_def dest: set_takeWhileD)

lemma length_c_str: "length (c_str s) \<le> length s"
  by (simp add: c_str_def length_takeWhile_le)

lemma rc_Insert_ok:
  assumes h: "rc_holds c revs" and room: "rc_room (length author + length comment + 1 + k) c" and s: "0 \<notin> set comment"
  shows "\<exists>c'. rc_Insert outside author comment timeStamp flags c = Inr (of_nat (length revs), c') \<and>
    rc_holds c' (revs @ [\<lparr>rv_author = c_str author, rv_comment = comment, rv_time = timeStamp, rv_flags = flags,
      rv_changes = [], rv_merges = [], rv_props = []\<rparr>]) \<and> rc_room k c'"
proof -
  have "words_room (length (c_str author) + 1 + k) (rc_authorPool c)"
    using room length_c_str [of author] by (auto simp: rc_room_def words_room_def)
  moreover have "sd_inv (rc_authorPool c)" using h by (simp add: rc_holds_def holds_std_def)
  ultimately obtain i w ws where w: "sd_AutoInsert (c_str author) (rc_authorPool c) = Inr (i, w)" "sd_inv w"
      "sd_strings w = sd_strings (rc_authorPool c) @ ws" "words_room k w" "names w i (c_str author)"
    using pool_AutoInsert_ok by (metis c_str_no_zero)
  have "texts_room (length comment + 1 + k) (rc_comments c)"
    using room texts_room_mono [of "length author" "length comment + 1 + k"] by (simp add: rc_room_def add.assoc)
  moreover have "ts_holds (rc_comments c) (map rv_comment revs)" using h by (simp add: rc_holds_def holds_std_def)
  ultimately obtain t where t: "ts_Insert outside comment (rc_comments c) = Some (Inr (of_nat (length revs), t))"
      "ts_holds t (map rv_comment revs @ [comment])" "texts_room k t"
    using text_Insert_ok [of "rc_comments c" "map rv_comment revs" comment k outside] s by auto
  have roomk: "rc_room k c" by (rule rc_room_mono [OF room])
  have ne: "length (rc_authors c) \<noteq> unat (NO_INDEX :: index_t)" using room by (simp add: rc_room_def unat_NO_INDEX)
  let ?r = "\<lparr>rv_author = c_str author, rv_comment = comment, rv_time = timeStamp, rv_flags = flags,
      rv_changes = [], rv_merges = [], rv_props = []\<rparr>"
  let ?c = "c\<lparr>rc_authorPool := w, rc_authors := rc_authors c @ [i],
      rc_timeStamps := rc_timeStamps c @ [timeStamp], rc_comments := t, rc_presenceFlags := rc_presenceFlags c @ [flags],
      rc_rootPaths := rc_rootPaths c @ [NO_INDEX], rc_sumChanges := rc_sumChanges c @ [0],
      rc_changesOffsets := offsets_of (map rv_changes (revs @ [?r])),
      rc_copyFromOffsets := offsets_of (map (\<lambda>r. copies (rv_changes r)) (revs @ [?r])),
      rc_mergedRevisionsOffsets := offsets_of (map rv_merges (revs @ [?r])),
      rc_userRevPropOffsets := offsets_of (map rv_props (revs @ [?r]))\<rparr>"
  have "rc_Insert outside author comment timeStamp flags c = Inr (of_nat (length revs), ?c)"
    using h ne w(1) t(1) rc_holds_lengths(1) [OF h]
    by (simp add: rc_Insert_def rc_holds_def holds_changes_def holds_merges_def holds_props_def Let_def rc_size_def)
  moreover have "holds_std ?c (revs @ [?r])"
    using h w(2,5) t(2) names_all [OF _ w(3)] by (simp add: rc_holds_def holds_std_def)
  moreover have "holds_changes ?c (revs @ [?r])"
    using h by (simp add: rc_holds_def holds_changes_def all_changes_def root_of_def)
  moreover have "holds_merges ?c (revs @ [?r])" "holds_props ?c (revs @ [?r])"
    using h by (simp_all add: rc_holds_def holds_merges_def holds_props_def all_merges_def all_props_def)
  moreover have "rc_room k ?c" using roomk w(4) t(3) room by (simp add: rc_room_def)
  ultimately show ?thesis by (simp add: rc_holds_def)
qed


definition copy_of :: "byte list \<Rightarrow> revision_t \<Rightarrow> (byte list list \<times> revision_t) option" where
  "copy_of fromPath fromRevision = (if fromPath = [] then None else Some (path_elements fromPath, fromRevision))"

definition new_change :: "byte \<Rightarrow> node_kind \<Rightarrow> byte list \<Rightarrow> byte list \<Rightarrow> revision_t \<Rightarrow> byte \<Rightarrow> byte \<Rightarrow> revision_change" where
  "new_change action pathType path fromPath fromRevision text_modified props_modified =
     \<lparr>ch_action = action, ch_type = pathType, ch_path = path_elements path, ch_from = copy_of fromPath fromRevision,
      ch_text = text_modified, ch_props = props_modified\<rparr>"

lemma add_copy_from_ok:
  assumes inv: "pd_inv (rc_paths c)" and room: "pd_room (length fromPath + 1 + k) (length fromPath + 1 + k) (rc_paths c)"
    and offs: "rc_copyFromOffsets c = offsets_of (L @ [l])" and xs: "xs = (case copy_of fromPath fromRevision of None \<Rightarrow> [] | Some x \<Rightarrow> [x])"
  shows "\<exists>q ks fis. add_copy_from fromPath fromRevision c =
      Inr (c\<lparr>rc_paths := q, rc_copyFromPaths := rc_copyFromPaths c @ fis,
             rc_copyFromRevisions := rc_copyFromRevisions c @ map snd xs, rc_copyFromOffsets := offsets_of (L @ [l @ xs])\<rparr>) \<and>
    pd_inv q \<and> pd_room k k q \<and> pd_keys q = pd_keys (rc_paths c) @ ks \<and> list_all2 (stands q) fis (map fst xs)"
proof (cases "fromPath = []")
  case True
  then show ?thesis using inv pd_room_mono [OF room] offs xs
    by (intro exI [of _ "rc_paths c"] exI [of _ "[]"] exI [of _ "[]"]) (simp add: add_copy_from_def copy_of_def)
next
  case False
  obtain i q ks where q: "dbp_insert fromPath (rc_paths c) = Inr (i, q)" "pd_inv q" "pd_room k k q" "pd_keys q = pd_keys (rc_paths c) @ ks"
      "stands q i (path_elements fromPath)" using dbp_insert_ok [OF inv room] by blast
  have "vback (rc_copyFromOffsets c) = Inr (of_nat (length (concat (L @ [l]))))" unfolding offs by (rule vback_offsets)
  then show ?thesis using False q offs xs offsets_grow [of L l "(path_elements fromPath, fromRevision)"]
    by (intro exI [of _ q] exI [of _ ks] exI [of _ "[i]"]) (simp add: add_copy_from_def copy_of_def)
qed

lemma root_of_add:
  assumes inv: "pd_inv d" and r: "root_of d ro chs" and i: "stands d i (ch_path ch)"
  shows "\<exists>ro'. (if ro = NO_INDEX then Inr i else of_opt (dbp_GetCommonRoot d i ro)) = Inr ro' \<and> root_of d ro' (chs @ [ch])"
proof (cases "chs = []")
  case True
  then show ?thesis using r i by (simp add: root_of_def)
next
  case False
  have s: "stands d ro (common_path (map ch_path chs))" using r False by (simp add: root_of_def)
  then obtain x where "dbp_GetCommonRoot d i ro = Some x" "unat x < length (pd_keys d)"
      "pd_path d x = longest_common_prefix (pd_path d i) (pd_path d ro)"
    using GetCommonRoot_eq [OF inv, of i ro] i by (auto simp: stands_def simp del: length_pd_keys)
  then show ?thesis using stands_valid [OF inv s] False i s
    by (simp add: root_of_def stands_def common_path_snoc lcp_commute del: length_pd_keys)
qed

lemma add_all:
  "all_changes (revs @ [r\<lparr>rv_changes := rv_changes r @ [ch]\<rparr>]) = all_changes (revs @ [r]) @ [ch]"
  "all_merges (revs @ [r\<lparr>rv_changes := chs\<rparr>]) = all_merges (revs @ [r])"
  "all_props (revs @ [r\<lparr>rv_changes := chs\<rparr>]) = all_props (revs @ [r])"
  "all_merges (revs @ [r\<lparr>rv_merges := rv_merges r @ [m]\<rparr>]) = all_merges (revs @ [r]) @ [m]"
  "all_changes (revs @ [r\<lparr>rv_merges := ms\<rparr>]) = all_changes (revs @ [r])"
  "all_props (revs @ [r\<lparr>rv_merges := ms\<rparr>]) = all_props (revs @ [r])"
  "all_props (revs @ [r\<lparr>rv_props := rv_props r @ [p]\<rparr>]) = all_props (revs @ [r]) @ [p]"
  "all_changes (revs @ [r\<lparr>rv_props := ps\<rparr>]) = all_changes (revs @ [r])"
  "all_merges (revs @ [r\<lparr>rv_props := ps\<rparr>]) = all_merges (revs @ [r])"
  by (simp_all add: all_changes_def all_merges_def all_props_def)

lemma list_all2_last:
  assumes "list_all2 P xs (ys @ [y])"
  obtains xs' x where "xs = xs' @ [x]" "list_all2 P xs' ys" "P x y"
  using assms by (cases xs rule: rev_cases) (auto dest: list_all2_lengthD)

lemma rc_AddChange_ok:
  assumes h: "rc_holds c (revs @ [r])" and room: "rc_room (length path + length fromPath + 2 + k) c"
    and act: "action AND ANY_ACTION = action"
    and ch_def: "ch = new_change action pathType path fromPath fromRevision text_modified props_modified"
  shows "\<exists>c'. rc_AddChange action pathType path fromPath fromRevision text_modified props_modified c = Inr c' \<and>
    rc_holds c' (revs @ [r\<lparr>rv_changes := rv_changes r @ [ch]\<rparr>]) \<and> rc_room k c'"
proof -
  let ?r = "r\<lparr>rv_changes := rv_changes r @ [ch]\<rparr>"
  have hc: "holds_changes c (revs @ [r])" and hm: "holds_merges c (revs @ [r])" using h by (simp_all add: rc_holds_def)
  have inv: "pd_inv (rc_paths c)" using hc by (simp add: holds_changes_def)
  have "pd_room (length path + 1 + (length fromPath + 1 + k)) (length path + 1 + (length fromPath + 1 + k)) (rc_paths c)"
    using room by (simp add: rc_room_def add.assoc)
  from dbp_insert_ok [OF inv this] obtain i d1 ks1 where d1: "dbp_insert path (rc_paths c) = Inr (i, d1)" "pd_inv d1"
      "pd_room (length fromPath + 1 + k) (length fromPath + 1 + k) d1" "pd_keys d1 = pd_keys (rc_paths c) @ ks1"
      "stands d1 i (path_elements path)" by blast
  obtain roots ro where ro: "rc_rootPaths c = roots @ [ro]" "list_all2 (root_of (rc_paths c)) roots (map rv_changes revs)"
      "root_of (rc_paths c) ro (rv_changes r)"
    using hc by (auto simp: holds_changes_def elim: list_all2_last)
  have chp: "ch_path ch = path_elements path" by (simp add: ch_def new_change_def)
  from root_of_add [OF d1(2) root_of_extend [OF ro(3) inv d1(4)], of i ch] obtain ro' where
    ro': "(if ro = NO_INDEX then Inr i else of_opt (dbp_GetCommonRoot d1 i ro)) = Inr ro'" "root_of d1 ro' (rv_changes r @ [ch])"
    using d1(5) by (auto simp: chp)
  have flags: "(if fromPath = [] then action else action OR HAS_COPY_FROM) = change_byte ch"
    by (simp add: change_byte_def ch_def new_change_def copy_of_def)
  define c1 where "c1 = c\<lparr>rc_paths := d1, rc_changedPaths := rc_changedPaths c @ [i], rc_rootPaths := roots @ [ro'],
     rc_changedPathTypes := rc_changedPathTypes c @ [pathType],
     rc_sumChanges := map (\<lambda>r. sum_of (rv_changes r)) (revs @ [?r]), rc_changes := rc_changes c @ [change_byte ch]\<rparr>"
  let ?L = "map (\<lambda>r. copies (rv_changes r)) revs" and ?xs = "case copy_of fromPath fromRevision of None \<Rightarrow> [] | Some x \<Rightarrow> [x]"
  have xs: "copies [ch] = ?xs" by (simp add: copies_def ch_def new_change_def)
  have c1: "pd_inv (rc_paths c1)" "pd_room (length fromPath + 1 + k) (length fromPath + 1 + k) (rc_paths c1)"
      "rc_copyFromOffsets c1 = offsets_of (?L @ [copies (rv_changes r)])" "rc_copyFromPaths c1 = rc_copyFromPaths c"
      "rc_copyFromRevisions c1 = rc_copyFromRevisions c"
    using d1 hc by (simp_all add: c1_def holds_changes_def)
  have pc: "rc_paths c1 = d1" by (simp add: c1_def)
  obtain d2 ks2 fis where
    d2: "add_copy_from fromPath fromRevision c1 =
      Inr (c1\<lparr>rc_paths := d2, rc_copyFromPaths := rc_copyFromPaths c @ fis,
             rc_copyFromRevisions := rc_copyFromRevisions c @ map snd ?xs, rc_copyFromOffsets := offsets_of (?L @ [copies (rv_changes r) @ ?xs])\<rparr>)"
      "pd_inv d2" "pd_room k k d2" "pd_keys d2 = pd_keys d1 @ ks2" "list_all2 (stands d2) fis (map fst ?xs)"
    using add_copy_from_ok [OF c1(1-3) refl, of fromRevision] unfolding c1(4,5) pc by blast
  let ?c = "c1\<lparr>rc_paths := d2, rc_copyFromPaths := rc_copyFromPaths c @ fis,
     rc_copyFromRevisions := rc_copyFromRevisions c @ map snd ?xs, rc_copyFromOffsets := offsets_of (?L @ [copies (rv_changes r) @ ?xs]),
     rc_textModifies := rc_textModifies c @ [text_modified], rc_propsModifies := rc_propsModifies c @ [props_modified],
     rc_changesOffsets := offsets_of (map rv_changes (revs @ [?r]))\<rparr>"
  have ne: "length (rc_changes c) \<noteq> unat (NO_INDEX :: index_t)" using room by (simp add: rc_room_def unat_NO_INDEX)
  have vb: "vback (rc_rootPaths c) = Inr ro" "set_vback ro' (rc_rootPaths c) = roots @ [ro']"
      "vback (rc_sumChanges c) = Inr (sum_of (rv_changes r))"
      "set_vback (sum_of (rv_changes r) OR change_byte ch) (rc_sumChanges c) = map (\<lambda>r. sum_of (rv_changes r)) (revs @ [?r])"
      "vback (rc_changesOffsets c) = Inr (of_nat (length (concat (map rv_changes (revs @ [r])))))"
      "set_vback (of_nat (length (concat (map rv_changes (revs @ [r])))) + 1) (rc_changesOffsets c) = offsets_of (map rv_changes (revs @ [?r]))"
    using hc offsets_grow [of "map rv_changes revs" "rv_changes r" ch] vback_offsets [of "map rv_changes (revs @ [r])"]
    by (simp_all add: holds_changes_def ro(1) vback_def set_vback_def)
  have run: "rc_AddChange action pathType path fromPath fromRevision text_modified props_modified c = Inr ?c"
  proof -
    have keep: "rc_changesOffsets c1 = rc_changesOffsets c" "rc_textModifies c1 = rc_textModifies c" "rc_propsModifies c1 = rc_propsModifies c"
      by (simp_all add: c1_def)
    show ?thesis
      unfolding rc_AddChange_def Let_def flags d1(1) vb(1,3) bindE.simps prod.case ro'(1) vb(2,4) c1_def [symmetric] d2(1)
      using ne keep vb(5,6) by simp
  qed
  have keys: "pd_keys d2 = pd_keys (rc_paths c) @ (ks1 @ ks2)" by (simp add: d2(4) d1(4))
  note ext = stands_all [OF _ inv keys] root_all [OF _ inv keys]
  have "root_of d2 ro' (rv_changes r @ [ch])" "stands d2 i (ch_path ch)"
    using root_of_extend [OF ro'(2) d1(2) d2(4)] stands_extend [OF d1(5) d1(2) d2(4)] by (simp_all add: chp)
  then have "holds_changes ?c (revs @ [?r])"
    using hc d2(2,5) ext ro(2) act ch_def
    by (simp add: holds_changes_def add_all xs [symmetric] c1_def list_all2_appendI new_change_def)
  moreover have "holds_std ?c (revs @ [?r])" "holds_props ?c (revs @ [?r])" "holds_merges ?c (revs @ [?r])"
    using h ext(1) by (simp_all add: rc_holds_def holds_std_def holds_props_def holds_merges_def add_all c1_def)
  moreover have "rc_room k ?c" using room d2(3) rc_room_mono [OF room] by (simp add: rc_room_def c1_def)
  ultimately show ?thesis using run by (simp add: rc_holds_def)
qed


lemma rc_AddMergedRevision_ok:
  assumes h: "rc_holds c (revs @ [r])" and room: "rc_room (length fromPath + length toPath + 2 + k) c"
  shows "\<exists>c'. rc_AddMergedRevision fromPath toPath start delta c = Inr c' \<and>
    rc_holds c' (revs @ [r\<lparr>rv_merges := rv_merges r @ [(path_elements fromPath, path_elements toPath, start, delta)]\<rparr>]) \<and> rc_room k c'"
proof -
  let ?m = "(path_elements fromPath, path_elements toPath, start, delta)"
  let ?r = "r\<lparr>rv_merges := rv_merges r @ [?m]\<rparr>"
  have hc: "holds_changes c (revs @ [r])" and hm: "holds_merges c (revs @ [r])" using h by (simp_all add: rc_holds_def)
  have inv: "pd_inv (rc_paths c)" using hc by (simp add: holds_changes_def)
  have "pd_room (length fromPath + 1 + (length toPath + 1 + k)) (length fromPath + 1 + (length toPath + 1 + k)) (rc_paths c)"
    using room by (simp add: rc_room_def add.assoc)
  from dbp_insert_ok [OF inv this] obtain i d1 ks1 where d1: "dbp_insert fromPath (rc_paths c) = Inr (i, d1)" "pd_inv d1"
      "pd_room (length toPath + 1 + k) (length toPath + 1 + k) d1" "pd_keys d1 = pd_keys (rc_paths c) @ ks1"
      "stands d1 i (path_elements fromPath)" by blast
  from dbp_insert_ok [OF d1(2,3)] obtain j d2 ks2 where d2: "dbp_insert toPath d1 = Inr (j, d2)" "pd_inv d2"
      "pd_room k k d2" "pd_keys d2 = pd_keys d1 @ ks2" "stands d2 j (path_elements toPath)" by blast
  have keys: "pd_keys d2 = pd_keys (rc_paths c) @ (ks1 @ ks2)" by (simp add: d2(4) d1(4))
  note ext = stands_all [OF _ inv keys] root_all [OF _ inv keys]
  let ?c = "c\<lparr>rc_paths := d2, rc_mergedRevisionsOffsets := offsets_of (map rv_merges (revs @ [?r])),
     rc_mergedFromPaths := rc_mergedFromPaths c @ [i], rc_mergedToPaths := rc_mergedToPaths c @ [j],
     rc_mergedRangeStarts := rc_mergedRangeStarts c @ [start], rc_mergedRangeDeltas := rc_mergedRangeDeltas c @ [delta]\<rparr>"
  have ne: "length (rc_mergedRangeStarts c) \<noteq> unat (NO_INDEX :: index_t)" using room by (simp add: rc_room_def unat_NO_INDEX)
  have vb: "vback (rc_mergedRevisionsOffsets c) = Inr (of_nat (length (concat (map rv_merges (revs @ [r])))))"
      "set_vback (of_nat (length (concat (map rv_merges (revs @ [r])))) + 1) (rc_mergedRevisionsOffsets c) = offsets_of (map rv_merges (revs @ [?r]))"
    using hm offsets_grow [of "map rv_merges revs" "rv_merges r" ?m] vback_offsets [of "map rv_merges (revs @ [r])"]
    by (simp_all add: holds_merges_def)
  have "rc_AddMergedRevision fromPath toPath start delta c = Inr ?c"
    unfolding rc_AddMergedRevision_def d1(1) vb(1) bindE.simps prod.case d2(1) vb(2) using ne by simp
  moreover have "holds_merges ?c (revs @ [?r])"
    using hm ext(1) stands_extend [OF d1(5) d1(2) d2(4)] d2(5) by (simp add: holds_merges_def add_all)
  moreover have "holds_std ?c (revs @ [?r])" "holds_props ?c (revs @ [?r])" "holds_changes ?c (revs @ [?r])"
    using h ext d2(2) by (simp_all add: rc_holds_def holds_std_def holds_props_def holds_changes_def add_all list_all2_appendI)
  moreover have "rc_room k ?c" using room d2(3) rc_room_mono [OF room] by (simp add: rc_room_def)
  ultimately show ?thesis by (simp add: rc_holds_def)
qed

lemma rc_AddRevProp_ok:
  assumes h: "rc_holds c (revs @ [r])" and room: "rc_room (length revProp + length value + 1 + k) c" and v: "0 \<notin> set value"
    and user: "revProp \<noteq> svn_author" "revProp \<noteq> svn_date" "revProp \<noteq> svn_log"
  shows "\<exists>c'. rc_AddRevProp outside mkgmtime revProp value c = Inr c' \<and>
    rc_holds c' (revs @ [r\<lparr>rv_props := rv_props r @ [(c_str revProp, value)]\<rparr>]) \<and> rc_room k c'"
proof -
  let ?r = "r\<lparr>rv_props := rv_props r @ [(c_str revProp, value)]\<rparr>"
  have hp: "holds_props c (revs @ [r])" using h by (simp add: rc_holds_def)
  have "words_room (length (c_str revProp) + 1 + k) (rc_userRevPropsPool c)"
    using room length_c_str [of revProp] by (auto simp: rc_room_def words_room_def)
  moreover have "sd_inv (rc_userRevPropsPool c)" using hp by (simp add: holds_props_def)
  ultimately obtain i w ws where w: "sd_AutoInsert (c_str revProp) (rc_userRevPropsPool c) = Inr (i, w)" "sd_inv w"
      "sd_strings w = sd_strings (rc_userRevPropsPool c) @ ws" "words_room k w" "names w i (c_str revProp)"
    using pool_AutoInsert_ok by (metis c_str_no_zero)
  have "texts_room (length value + 1 + k) (rc_userRevPropValues c)"
    using room texts_room_mono [of "length revProp" "length value + 1 + k"] by (simp add: rc_room_def add.assoc)
  moreover have "ts_holds (rc_userRevPropValues c) (map snd (all_props (revs @ [r])))" using hp by (simp add: holds_props_def)
  ultimately obtain j t where t: "ts_Insert outside value (rc_userRevPropValues c) = Some (Inr (j, t))"
      "ts_holds t (map snd (all_props (revs @ [r])) @ [value])" "texts_room k t"
    using text_Insert_ok [of "rc_userRevPropValues c" "map snd (all_props (revs @ [r]))" "value" k outside] v by auto
  let ?c = "c\<lparr>rc_userRevPropOffsets := offsets_of (map rv_props (revs @ [?r])), rc_userRevPropsPool := w,
     rc_userRevPropNames := rc_userRevPropNames c @ [i], rc_userRevPropValues := t\<rparr>"
  have ne: "length (rc_userRevPropNames c) \<noteq> unat (NO_INDEX :: index_t)" using room by (simp add: rc_room_def unat_NO_INDEX)
  have vb: "vback (rc_userRevPropOffsets c) = Inr (of_nat (length (concat (map rv_props (revs @ [r])))))"
      "set_vback (of_nat (length (concat (map rv_props (revs @ [r])))) + 1) (rc_userRevPropOffsets c) = offsets_of (map rv_props (revs @ [?r]))"
    using hp offsets_grow [of "map rv_props revs" "rv_props r" "(c_str revProp, value)"] vback_offsets [of "map rv_props (revs @ [r])"]
    by (simp_all add: holds_props_def)
  have "rc_AddRevProp outside mkgmtime revProp value c = Inr ?c"
    unfolding rc_AddRevProp_def w(1) vb(1) bindE.simps prod.case t(1) of_run_Some vb(2) using ne user by simp
  moreover have "holds_props ?c (revs @ [?r])"
    using hp w(2,5) t(2) names_all [OF _ w(3)] by (simp add: holds_props_def add_all)
  moreover have "holds_std ?c (revs @ [?r])" "holds_changes ?c (revs @ [?r])" "holds_merges ?c (revs @ [?r])"
    using h by (simp_all add: rc_holds_def holds_std_def holds_changes_def holds_merges_def add_all)
  moreover have "rc_room k ?c" using room w(4) t(3) rc_room_mono [OF room] by (simp add: rc_room_def)
  ultimately show ?thesis by (simp add: rc_holds_def)
qed

lemma rc_AddRevProp_author_ok:
  assumes h: "rc_holds c (revs @ [r])" and room: "rc_room (length value + 1 + k) c"
  shows "\<exists>c'. rc_AddRevProp outside mkgmtime svn_author value c = Inr c' \<and>
    rc_holds c' (revs @ [r\<lparr>rv_author := c_str value\<rparr>]) \<and> rc_room k c'"
proof -
  let ?r = "r\<lparr>rv_author := c_str value\<rparr>"
  have hs: "holds_std c (revs @ [r])" using h by (simp add: rc_holds_def)
  have "words_room (length (c_str value) + 1 + k) (rc_authorPool c)"
    using room length_c_str [of "value"] by (auto simp: rc_room_def words_room_def)
  moreover have "sd_inv (rc_authorPool c)" using hs by (simp add: holds_std_def)
  ultimately obtain i w ws where w: "sd_AutoInsert (c_str value) (rc_authorPool c) = Inr (i, w)" "sd_inv w"
      "sd_strings w = sd_strings (rc_authorPool c) @ ws" "words_room k w" "names w i (c_str value)"
    using pool_AutoInsert_ok by (metis c_str_no_zero)
  obtain ids a where a: "rc_authors c = ids @ [a]" "list_all2 (names (rc_authorPool c)) ids (map rv_author revs)"
    using hs by (auto simp: holds_std_def elim: list_all2_last)
  let ?c = "c\<lparr>rc_authorPool := w, rc_authors := ids @ [i]\<rparr>"
  have "rc_AddRevProp outside mkgmtime svn_author value c = Inr ?c"
    using w(1) by (simp add: rc_AddRevProp_def a(1) vback_def set_vback_def)
  moreover have "holds_std ?c (revs @ [?r])"
    using hs w(2,5) names_all [OF a(2) w(3)] by (simp add: holds_std_def)
  moreover have "holds_changes ?c (revs @ [?r])" "holds_merges ?c (revs @ [?r])" "holds_props ?c (revs @ [?r])"
    using h by (simp_all add: rc_holds_def holds_changes_def holds_merges_def holds_props_def all_changes_def all_merges_def all_props_def)
  moreover have "rc_room k ?c" using room w(4) rc_room_mono [OF room] a(1) by (simp add: rc_room_def)
  ultimately show ?thesis by (simp add: rc_holds_def)
qed

lemma rc_AddRevProp_date_ok:
  assumes h: "rc_holds c (revs @ [r])" and room: "rc_room k c"
  shows "\<exists>c'. rc_AddRevProp outside mkgmtime svn_date value c = Inr c' \<and>
    rc_holds c' (revs @ [r\<lparr>rv_time := svn_time_stamp mkgmtime value\<rparr>]) \<and> rc_room k c'"
  using h room
  by (simp add: rc_AddRevProp_def svn_date_def svn_author_def vback_def set_vback_def rc_holds_def holds_std_def holds_changes_def
      holds_merges_def holds_props_def all_changes_def all_merges_def all_props_def rc_room_def)


subsection \<open>Reading\<close>

text \<open>The data of a revision, read through the accessors and the iterators.\<close>

definition to_change :: "path_dictionary \<Rightarrow> change_info \<Rightarrow> revision_change" where
  "to_change d x =
     \<lparr>ch_action = pi_change x AND ANY_ACTION, ch_type = pi_changedPathType x, ch_path = pd_path d (pi_changedPath x),
      ch_from = (if pi_change x AND HAS_COPY_FROM \<noteq> 0
                 then Some (pd_path d (pi_copyFromPath x), pi_copyFromRevision x) else None),
      ch_text = pi_textModifies x, ch_props = pi_propsModifies x\<rparr>"

definition positions :: "index_t \<Rightarrow> index_t \<Rightarrow> index_t list option" where
  "positions it stop = (if it \<le> stop then Some (map of_nat [unat it..<unat stop]) else None)"

definition merge_at :: "revision_info \<Rightarrow> index_t \<Rightarrow> (byte list list \<times> byte list list \<times> revision_t \<times> revision_t) option" where
  "merge_at c it = do {
     from_path \<leftarrow> mi_GetFromPathID c it;
     to_path \<leftarrow> mi_GetToPathID c it;
     start \<leftarrow> mi_GetRangeStart c it;
     delta \<leftarrow> mi_GetRangeDelta c it;
     Some (pd_path (rc_paths c) from_path, pd_path (rc_paths c) to_path, start, delta)
   }"

definition prop_at :: "revision_info \<Rightarrow> index_t \<Rightarrow> (byte list \<times> byte list) option" where
  "prop_at c it = do {
     n \<leftarrow> ui_GetName c it;
     r \<leftarrow> ui_GetValue c it;
     v \<leftarrow> (case r of Inl _ \<Rightarrow> None | Inr v \<Rightarrow> Some v);
     Some (n, v)
   }"

definition rc_read :: "revision_info \<Rightarrow> index_t \<Rightarrow> revision option" where
  "rc_read c index = do {
     author \<leftarrow> rc_GetAuthor c index;
     r \<leftarrow> rc_GetComment c index;
     comment \<leftarrow> (case r of Inl _ \<Rightarrow> None | Inr s \<Rightarrow> Some s);
     time \<leftarrow> rc_GetTimeStamp c index;
     flags \<leftarrow> rc_GetPresenceFlags c index;
     chs \<leftarrow> revision_changes c index;
     first_merge \<leftarrow> rc_GetMergedRevisionsBegin c index;
     end_merge \<leftarrow> rc_GetMergedRevisionsEnd c index;
     is \<leftarrow> positions first_merge end_merge;
     merges \<leftarrow> those (map (merge_at c) is);
     first_prop \<leftarrow> rc_GetUserRevPropsBegin c index;
     end_prop \<leftarrow> rc_GetUserRevPropsEnd c index;
     is \<leftarrow> positions first_prop end_prop;
     props \<leftarrow> those (map (prop_at c) is);
     Some \<lparr>rv_author = author, rv_comment = comment, rv_time = time, rv_flags = flags,
           rv_changes = map (to_change (rc_paths c)) chs, rv_merges = merges, rv_props = props\<rparr>
   }"

lemma action_no_copy: "a AND ANY_ACTION = a \<Longrightarrow> a AND HAS_COPY_FROM = 0"
proof -
  assume a: "a AND ANY_ACTION = a"
  have "ANY_ACTION AND HAS_COPY_FROM = 0" by (simp add: ANY_ACTION_def HAS_COPY_FROM_def)
  then have "(a AND ANY_ACTION) AND HAS_COPY_FROM = 0" by (simp add: and.assoc)
  then show ?thesis by (simp add: a)
qed

lemma change_byte_bits:
  assumes "ch_action ch AND ANY_ACTION = ch_action ch"
  shows "change_byte ch AND HAS_COPY_FROM \<noteq> 0 \<longleftrightarrow> ch_from ch \<noteq> None" "change_byte ch AND ANY_ACTION = ch_action ch"
proof -
  have "HAS_COPY_FROM \<noteq> 0" "HAS_COPY_FROM AND ANY_ACTION = 0" by (simp_all add: ANY_ACTION_def HAS_COPY_FROM_def)
  then show "change_byte ch AND HAS_COPY_FROM \<noteq> 0 \<longleftrightarrow> ch_from ch \<noteq> None" "change_byte ch AND ANY_ACTION = ch_action ch"
    using assms action_no_copy [OF assms]
    by (auto simp: change_byte_def bit.conj_disj_distrib2 split: option.splits)
qed

lemma vat_nth: "n < 2 ^ 32 \<Longrightarrow> n < length xs \<Longrightarrow> vat xs (of_nat n) = Some (xs ! n)"
  by (simp add: vat_def unat_of_nat_small)

lemma list_all2_vat:
  assumes "list_all2 P xs ys" "n < length ys" "n < 2 ^ 32"
  shows "\<exists>x. vat xs (of_nat n) = Some x \<and> P x (ys ! n)"
  using assms by (auto simp: vat_nth list_all2_lengthD list_all2_nthD2)

lemma vat_offsets:
  assumes "i \<le> length L" "i < 2 ^ 32"
  shows "vat (offsets_of L) (of_nat i) = Some (of_nat (length (concat (take i L))))"
  using assms by (simp add: vat_nth nth_offsets_of)


definition shows_change :: "path_dictionary \<Rightarrow> change_info \<Rightarrow> revision_change \<Rightarrow> bool" where
  "shows_change d x ch \<longleftrightarrow> stands d (pi_changedPath x) (ch_path ch) \<and> pi_changedPathType x = ch_type ch \<and>
     pi_change x = change_byte ch \<and> pi_textModifies x = ch_text ch \<and> pi_propsModifies x = ch_props ch \<and>
     (case ch_from ch of None \<Rightarrow> pi_copyFromPath x = NO_INDEX \<and> pi_copyFromRevision x = 0
      | Some (p, r) \<Rightarrow> stands d (pi_copyFromPath x) p \<and> pi_copyFromRevision x = r)"

lemma to_change_shows:
  assumes "shows_change d x ch" "ch_action ch AND ANY_ACTION = ch_action ch"
  shows "to_change d x = ch"
  using assms change_byte_bits [OF assms(2)]
  by (cases ch) (auto simp: shows_change_def to_change_def stands_def split: option.splits)

lemma change_info_at_ok:
  assumes h: "holds_changes c revs" and len: "length (all_changes revs) < 2 ^ 32"
    and split: "all_changes revs = pre @ ch # post"
  defines "it \<equiv> \<lparr>changeOffset = of_nat (length pre), copyFromOffset = of_nat (length (copies pre))\<rparr>"
  shows "\<exists>x. change_info_at c it = Some x \<and> shows_change (rc_paths c) x ch"
    "ci_inc c it = Some \<lparr>changeOffset = of_nat (length (pre @ [ch])), copyFromOffset = of_nat (length (copies (pre @ [ch])))\<rparr>"
proof -
  let ?all = "all_changes revs"
  have n: "length pre < 2 ^ 32" "length pre < length ?all" "?all ! length pre = ch" using len by (simp_all add: split)
  have k: "length (copies pre) < 2 ^ 32" using length_copies [of pre] n(1) by simp
  have ch: "ch \<in> set ?all" by (simp add: split)
  then have bits: "change_byte ch AND HAS_COPY_FROM \<noteq> 0 \<longleftrightarrow> ch_from ch \<noteq> None"
    using h by (intro change_byte_bits(1)) (simp add: holds_changes_def)
  obtain pid where pid: "vat (rc_changedPaths c) (of_nat (length pre)) = Some pid" "stands (rc_paths c) pid (ch_path ch)"
    using list_all2_vat [of "stands (rc_paths c)" "rc_changedPaths c" "map ch_path ?all" "length pre"] h n
    by (auto simp: holds_changes_def)
  have v: "vat (rc_changes c) (of_nat (length pre)) = Some (change_byte ch)"
      "vat (rc_changedPathTypes c) (of_nat (length pre)) = Some (ch_type ch)"
      "vat (rc_textModifies c) (of_nat (length pre)) = Some (ch_text ch)"
      "vat (rc_propsModifies c) (of_nat (length pre)) = Some (ch_props ch)"
    using h n by (simp_all add: holds_changes_def vat_nth)
  have has: "ci_HasFromPath c it = Some (ch_from ch \<noteq> None)" using bits by (simp add: ci_HasFromPath_def it_def v(1))
  show "ci_inc c it = Some \<lparr>changeOffset = of_nat (length (pre @ [ch])), copyFromOffset = of_nat (length (copies (pre @ [ch])))\<rparr>"
    unfolding ci_inc_def has by (auto simp: it_def copies_def split: option.splits)
  show "\<exists>x. change_info_at c it = Some x \<and> shows_change (rc_paths c) x ch"
  proof (cases "ch_from ch")
    case None
    then show ?thesis using has pid v
      by (simp add: change_info_at_def ci_GetPathID_def ci_GetPathType_def ci_GetRawChange_def ci_GetTextModifies_def
          ci_GetPropsModifies_def it_def shows_change_def)
  next
    case (Some pr)
    obtain p r where pr: "pr = (p, r)" by force
    have cs: "copies ?all = copies pre @ (p, r) # copies post" using Some by (simp add: split copies_def pr)
    obtain fid where fid: "vat (rc_copyFromPaths c) (of_nat (length (copies pre))) = Some fid" "stands (rc_paths c) fid p"
      using list_all2_vat [of "stands (rc_paths c)" "rc_copyFromPaths c" "map fst (copies ?all)" "length (copies pre)"] h k
      by (auto simp: holds_changes_def cs nth_append)
    have "vat (rc_copyFromRevisions c) (of_nat (length (copies pre))) = Some r"
      using h k by (simp add: holds_changes_def vat_nth cs nth_append)
    then show ?thesis using has pid v fid Some
      by (simp add: change_info_at_def ci_GetPathID_def ci_GetPathType_def ci_GetRawChange_def ci_GetTextModifies_def
          ci_GetPropsModifies_def ci_GetFromPathID_def ci_GetFromRevision_def it_def shows_change_def pr)
  qed
qed

lemma collect_changes_ok:
  assumes h: "holds_changes c revs" and len: "length (all_changes revs) < 2 ^ 32"
  shows "all_changes revs = pre @ chs @ post \<Longrightarrow>
    \<exists>xs. collect_changes c \<lparr>changeOffset = of_nat (length pre), copyFromOffset = of_nat (length (copies pre))\<rparr>
           \<lparr>changeOffset = of_nat (length (pre @ chs)), copyFromOffset = k\<rparr> = Some xs \<and>
      list_all2 (shows_change (rc_paths c)) xs chs"
proof (induction chs arbitrary: pre)
  case Nil
  then show ?case by (subst collect_changes.simps) (simp add: ci_eq_def)
next
  case (Cons ch chs)
  have all: "all_changes revs = pre @ ch # (chs @ post)" "all_changes revs = (pre @ [ch]) @ chs @ post" using Cons.prems by simp_all
  obtain x where x: "change_info_at c \<lparr>changeOffset = of_nat (length pre), copyFromOffset = of_nat (length (copies pre))\<rparr> = Some x"
      "shows_change (rc_paths c) x ch" using change_info_at_ok(1) [OF h len all(1)] by blast
  obtain xs where xs: "collect_changes c \<lparr>changeOffset = of_nat (length (pre @ [ch])), copyFromOffset = of_nat (length (copies (pre @ [ch])))\<rparr>
        \<lparr>changeOffset = of_nat (length ((pre @ [ch]) @ chs)), copyFromOffset = k\<rparr> = Some xs"
      "list_all2 (shows_change (rc_paths c)) xs chs" using Cons.IH [OF all(2)] by blast
  have "(of_nat (length pre) :: index_t) \<noteq> of_nat (length (pre @ ch # chs))"
    using of_nat_word_inj [of "length pre" "length (pre @ ch # chs)", where 'i = 32] len all(1) by auto
  then have ne: "\<not> ci_eq \<lparr>changeOffset = of_nat (length pre), copyFromOffset = of_nat (length (copies pre))\<rparr>
      \<lparr>changeOffset = of_nat (length (pre @ ch # chs)), copyFromOffset = k\<rparr>"
    unfolding ci_eq_def by (simp del: of_nat_add of_nat_Suc length_append list.size)
  have "(pre @ [ch]) @ chs = pre @ ch # chs" by simp
  then have "collect_changes c \<lparr>changeOffset = of_nat (length pre), copyFromOffset = of_nat (length (copies pre))\<rparr>
           \<lparr>changeOffset = of_nat (length (pre @ ch # chs)), copyFromOffset = k\<rparr> = Some (x # xs)"
    using ne x(1) change_info_at_ok(2) [OF h len all(1)] xs(1)
    by (subst collect_changes.simps) (simp del: of_nat_add of_nat_Suc length_append list.size copies_append)
  then show ?case using x(2) xs(2) by blast
qed

lemma revision_changes_ok:
  assumes h: "holds_changes c revs" and len: "length (all_changes revs) < 2 ^ 32" "length revs + 1 < 2 ^ 32" and i: "i < length revs"
  shows "\<exists>xs. revision_changes c (of_nat i) = Some xs \<and> list_all2 (shows_change (rc_paths c)) xs (rv_changes (revs ! i))"
proof -
  let ?pre = "all_changes (take i revs)" and ?post = "all_changes (drop (Suc i) revs)"
  have "revs = take i revs @ revs ! i # drop (Suc i) revs" using i by (simp add: id_take_nth_drop)
  then have all: "all_changes revs = ?pre @ rv_changes (revs ! i) @ ?post" by (metis all_changes_def concat.simps(2) concat_append list.simps(9) map_append)
  have t: "take (Suc i) revs = take i revs @ [revs ! i]" using i by (simp add: take_Suc_conv_app_nth)
  have c: "concat (map (\<lambda>r. copies (rv_changes r)) rs) = copies (all_changes rs)" for rs
    by (induction rs) (simp_all add: all_changes_def copies_def)
  have n: "i < 2 ^ 32" "Suc i < 2 ^ 32" "(of_nat i + 1 :: index_t) = of_nat (Suc i)" using i len(2) by simp_all
  have o: "rc_changesOffsets c = offsets_of (map rv_changes revs)" "rc_copyFromOffsets c = offsets_of (map (\<lambda>r. copies (rv_changes r)) revs)"
    using h by (simp_all add: holds_changes_def)
  have b: "rc_GetChangesBegin c (of_nat i) = Some \<lparr>changeOffset = of_nat (length ?pre), copyFromOffset = of_nat (length (copies ?pre))\<rparr>"
    using i n(1) c [of "take i revs"] by (simp add: rc_GetChangesBegin_def o vat_offsets take_map all_changes_def)
  have e: "\<exists>k. rc_GetChangesEnd c (of_nat i) = Some \<lparr>changeOffset = of_nat (length (?pre @ rv_changes (revs ! i))), copyFromOffset = k\<rparr>"
    using i n(2) vat_offsets [of "Suc i" "map rv_changes revs"] vat_offsets [of "Suc i" "map (\<lambda>r. copies (rv_changes r)) revs"]
    unfolding rc_GetChangesEnd_def o n(3) by (simp add: take_map t all_changes_def del: of_nat_Suc)
  then show ?thesis using b collect_changes_ok [OF h len(1) all] by (auto simp: revision_changes_def)
qed


text \<open>A range of positions of an offset vector, read entry by entry.\<close>

lemma read_range:
  assumes v: "v = offsets_of L" and i: "i < length L" and len: "length (concat L) < 2 ^ 32" "i + 1 < 2 ^ 32"
    and f: "\<And>n. n < length (concat L) \<Longrightarrow> f (of_nat n :: index_t) = Some (concat L ! n)"
  shows "\<exists>a b is. vat v (of_nat i) = Some a \<and> vat v (of_nat i + 1) = Some b \<and> positions a b = Some is \<and> those (map f is) = Some (L ! i)"
proof -
  let ?pre = "concat (take i L)" and ?post = "concat (drop (Suc i) L)"
  have "L = take i L @ L ! i # drop (Suc i) L" using i by (simp add: id_take_nth_drop)
  then have c: "concat L = ?pre @ L ! i @ ?post" by (metis concat.simps(2) concat_append)
  have t: "concat (take (Suc i) L) = ?pre @ L ! i" using i by (simp add: take_Suc_conv_app_nth)
  let ?a = "of_nat (length ?pre) :: index_t" and ?b = "of_nat (length (?pre @ L ! i)) :: index_t"
  have l: "length ?pre < 2 ^ 32" "length (?pre @ L ! i) < 2 ^ 32" using len(1) by (simp_all add: c)
  have ab: "unat ?a = length ?pre" "unat ?b = length (?pre @ L ! i)" using l by (simp_all add: unat_of_nat_small del: of_nat_add length_append)
  have v1: "vat v (of_nat i) = Some ?a" using vat_offsets [of i L] i len(2) by (simp add: v)
  have "(of_nat i + 1 :: index_t) = of_nat (Suc i)" by simp
  then have v2: "vat v (of_nat i + 1) = Some ?b" using vat_offsets [of "Suc i" L] i len(2) t by (simp add: v del: of_nat_Suc of_nat_add)
  have pos: "positions ?a ?b = Some (map of_nat [length ?pre..<length (?pre @ L ! i)])"
    unfolding positions_def word_le_nat_alt ab by simp
  have "those (map f (map of_nat [x..<x + length ys])) = Some ys"
    if "\<And>n. n < length ys \<Longrightarrow> f (of_nat (x + n)) = Some (ys ! n)" for x ys
    using that
  proof (induction ys arbitrary: x)
    case (Cons y ys)
    have "f (of_nat (Suc x + n)) = Some (ys ! n)" if "n < length ys" for n using Cons.prems [of "Suc n"] that by simp
    then have "those (map f (map of_nat [Suc x..<Suc x + length ys])) = Some ys" by (rule Cons.IH)
    moreover have "f (of_nat x) = Some y" using Cons.prems [of 0] by simp
    ultimately show ?case by (simp add: upt_rec [of x] del: upt_Suc)
  qed simp
  moreover have "f (of_nat (length ?pre + n)) = Some ((L ! i) ! n)" if "n < length (L ! i)" for n
    using f [of "length ?pre + n"] that by (simp add: c nth_append)
  ultimately have "those (map f (map of_nat [length ?pre..<length (?pre @ L ! i)])) = Some (L ! i)" by simp
  then show ?thesis using v1 v2 pos by blast
qed

lemma names_at: "sd_inv w \<Longrightarrow> names w i s \<Longrightarrow> sd_at w i = Some s"
  by (simp add: names_def sd_at_eq)

lemma names_valid: "sd_inv w \<Longrightarrow> names w i s \<Longrightarrow> i \<noteq> NO_INDEX"
  using sd_packs_length [OF sd_inv_rep(1), of w] unat_NO_INDEX [where 'i = 32] by (auto simp: names_def)

lemma stands_path: "stands d i p \<Longrightarrow> pd_path d i = p"
  by (simp add: stands_def)

lemma merge_at_ok:
  assumes "holds_merges c revs" "n < length (all_merges revs)" "n < 2 ^ 32"
  shows "merge_at c (of_nat n) = Some (all_merges revs ! n)"
proof -
  obtain a b s d where m: "all_merges revs ! n = (a, b, s, d)" by (metis surj_pair)
  have "\<exists>x. vat (rc_mergedFromPaths c) (of_nat n) = Some x \<and> stands (rc_paths c) x (map fst (all_merges revs) ! n)"
    "\<exists>x. vat (rc_mergedToPaths c) (of_nat n) = Some x \<and> stands (rc_paths c) x (map (\<lambda>m. fst (snd m)) (all_merges revs) ! n)"
    using assms by (intro list_all2_vat; simp add: holds_merges_def)+
  moreover have "vat (rc_mergedRangeStarts c) (of_nat n) = Some s" "vat (rc_mergedRangeDeltas c) (of_nat n) = Some d"
    using assms m by (simp_all add: holds_merges_def vat_nth)
  ultimately show ?thesis using assms(2) m
    by (auto simp: merge_at_def mi_GetFromPathID_def mi_GetToPathID_def mi_GetRangeStart_def mi_GetRangeDelta_def stands_path)
qed

lemma prop_at_ok:
  assumes "holds_props c revs" "n < length (all_props revs)" "n < 2 ^ 32"
  shows "prop_at c (of_nat n) = Some (all_props revs ! n)"
proof -
  obtain s v where p: "all_props revs ! n = (s, v)" by force
  have "\<exists>x. vat (rc_userRevPropNames c) (of_nat n) = Some x \<and> names (rc_userRevPropsPool c) x (map fst (all_props revs) ! n)"
    using assms by (intro list_all2_vat; simp add: holds_props_def)
  then obtain x where "vat (rc_userRevPropNames c) (of_nat n) = Some x" "sd_at (rc_userRevPropsPool c) x = Some s"
    using assms p by (auto simp: holds_props_def names_at)
  moreover have "ts_GetAt (rc_userRevPropValues c) (of_nat n) = Some (Inr v)"
    using ts_GetAt_ok [of "rc_userRevPropValues c" "map snd (all_props revs)" "of_nat n"] assms p
    by (simp add: holds_props_def unat_of_nat_small)
  ultimately show ?thesis using p by (simp add: prop_at_def ui_GetName_def ui_GetNameID_def ui_GetValue_def)
qed

text \<open>The sizes that the position type can count.\<close>

definition rc_small :: "revision list \<Rightarrow> bool" where
  "rc_small revs \<longleftrightarrow> length revs + 1 < 2 ^ 32 \<and> length (all_changes revs) < 2 ^ 32 \<and> length (all_merges revs) < 2 ^ 32 \<and>
     length (all_props revs) < 2 ^ 32"

lemma rc_read_ok:
  assumes h: "rc_holds c revs" and small: "rc_small revs" and i: "i < length revs"
  shows "rc_read c (of_nat i) = Some (revs ! i)"
proof -
  have parts: "holds_std c revs" "holds_changes c revs" "holds_merges c revs" "holds_props c revs" using h by (simp_all add: rc_holds_def)
  have n: "i < 2 ^ 32" using i small by (simp add: rc_small_def)
  have "\<exists>x. vat (rc_authors c) (of_nat i) = Some x \<and> names (rc_authorPool c) x (map rv_author revs ! i)"
    using parts(1) i n by (intro list_all2_vat; simp add: holds_std_def)
  then have author: "rc_GetAuthor c (of_nat i) = Some (rv_author (revs ! i))"
    using parts(1) i names_valid by (auto simp: rc_GetAuthor_def holds_std_def names_at)
  have comment: "rc_GetComment c (of_nat i) = Some (Inr (rv_comment (revs ! i)))"
    using ts_GetAt_ok [of "rc_comments c" "map rv_comment revs" "of_nat i"] parts(1) i n
    by (simp add: rc_GetComment_def holds_std_def unat_of_nat_small)
  have std: "rc_GetTimeStamp c (of_nat i) = Some (rv_time (revs ! i))" "rc_GetPresenceFlags c (of_nat i) = Some (rv_flags (revs ! i))"
    using parts(1) i n by (simp_all add: rc_GetTimeStamp_def rc_GetPresenceFlags_def holds_std_def vat_nth)
  obtain xs where xs: "revision_changes c (of_nat i) = Some xs" "list_all2 (shows_change (rc_paths c)) xs (rv_changes (revs ! i))"
    using revision_changes_ok [OF parts(2) _ _ i] small by (auto simp: rc_small_def)
  have act: "\<forall>ch \<in> set (rv_changes (revs ! i)). ch_action ch AND ANY_ACTION = ch_action ch"
    using parts(2) i nth_mem [OF i] by (fastforce simp: holds_changes_def all_changes_def)
  have chs: "map (to_change (rc_paths c)) xs = rv_changes (revs ! i)"
    using xs(2) act
  proof (induction rule: list_all2_induct)
    case (Cons x xs y ys)
    then show ?case using to_change_shows by simp
  qed simp
  have "\<exists>a b is. vat (rc_mergedRevisionsOffsets c) (of_nat i) = Some a \<and> vat (rc_mergedRevisionsOffsets c) (of_nat i + 1) = Some b \<and>
      positions a b = Some is \<and> those (map (merge_at c) is) = Some (map rv_merges revs ! i)"
    using parts(3) small i merge_at_ok [OF parts(3)] by (intro read_range) (simp_all add: holds_merges_def rc_small_def all_merges_def)
  moreover have "\<exists>a b is. vat (rc_userRevPropOffsets c) (of_nat i) = Some a \<and> vat (rc_userRevPropOffsets c) (of_nat i + 1) = Some b \<and>
      positions a b = Some is \<and> those (map (prop_at c) is) = Some (map rv_props revs ! i)"
    using parts(4) small i prop_at_ok [OF parts(4)] by (intro read_range) (simp_all add: holds_props_def rc_small_def all_props_def)
  ultimately show ?thesis using author comment std xs(1) chs i
    by (auto simp: rc_read_def rc_GetMergedRevisionsBegin_def rc_GetMergedRevisionsEnd_def rc_GetUserRevPropsBegin_def
        rc_GetUserRevPropsEnd_def)
qed


subsection \<open>Replacing the log message\<close>

text \<open>
  The removal of the last comment leaves its tokens in place, and the comment that is inserted next begins where the removed
  one began: the new text is added behind the old one.  What this needs of the container while it is filled: all tokens of
  the comments are proper, and no comment gets too long.
\<close>

definition log_ok :: "nat \<Rightarrow> revision_info \<Rightarrow> revision list \<Rightarrow> bool" where
  "log_ok k c revs \<longleftrightarrow> (\<forall>t \<in> set (ts_stringData (rc_comments c)). IsToken t) \<and>
     (\<forall>r \<in> set revs. length (rv_comment r) + k < 2 ^ 64)"

lemma log_ok_mono: "log_ok (m + k) c revs \<Longrightarrow> log_ok k c revs"
  by (auto simp: log_ok_def)

lemma log_ok_change:
  assumes "log_ok (m + k) c (revs @ [r])" "rc_comments c' = rc_comments c" "rv_comment r' = rv_comment r"
  shows "log_ok k c' (revs @ [r'])"
  using assms by (auto simp: log_ok_def)

lemma rc_AddRevProp_log_ok:
  assumes h: "rc_holds c (revs @ [r])" and room: "rc_room (length v + 1 + k) c" and v: "0 \<notin> set v"
    and log: "log_ok (length v + 1 + k) c (revs @ [r])"
  shows "\<exists>c'. rc_AddRevProp outside mkgmtime svn_log v c = Inr c' \<and>
    rc_holds c' (revs @ [r\<lparr>rv_comment := rv_comment r @ v\<rparr>]) \<and> rc_room k c' \<and>
    log_ok k c' (revs @ [r\<lparr>rv_comment := rv_comment r @ v\<rparr>])"
proof -
  let ?r = "r\<lparr>rv_comment := rv_comment r @ v\<rparr>"
  have t: "ts_holds (rc_comments c) (map rv_comment revs @ [rv_comment r])" using h by (simp add: rc_holds_def holds_std_def)
  have clean: "\<forall>t \<in> set (ts_stringData (rc_comments c)). IsToken t" using log by (simp add: log_ok_def)
  have tr: "words_room (length v + (1 + k)) (ts_words (rc_comments c))" "length (ts_stringData (rc_comments c)) + length v + 1 < 2 ^ 32"
      "length revs + 2 < 2 ^ 32"
    using room rc_holds_lengths(1) [OF h] by (simp_all add: rc_room_def texts_room_def add.assoc)
  have "length (map rv_comment revs) + 2 < 2 ^ 32" "length (rv_comment r) + length v < 2 ^ 64"
    using tr(3) log by (simp_all add: log_ok_def)
  note re = ts_replace_last_ok [OF t clean tr(1) v tr(2) this, of outside]
  obtain c2 c3 where c3: "ts_Remove (of_nat (length revs)) (rc_comments c) = Inr c2" "ts_Insert outside v c2 = Some (Inr (of_nat (length revs), c3))"
      "ts_holds c3 (map rv_comment revs @ [rv_comment r @ v])" "words_room (1 + k) (ts_words c3)"
      "length (ts_stringData c3) \<le> length (ts_stringData (rc_comments c)) + length v + 1" "\<forall>t \<in> set (ts_stringData c3). IsToken t"
    using re unfolding length_map by blast
  let ?c = "c\<lparr>rc_comments := c3\<rparr>"
  have "ts_size (rc_comments c) - 1 = of_nat (length revs)" using ts_holds_length [OF t] by (simp add: ts_size_def)
  then have "rc_AddRevProp outside mkgmtime svn_log v c = Inr ?c"
    using c3(1,2) by (simp add: rc_AddRevProp_def svn_log_def svn_author_def svn_date_def)
  moreover have "rc_holds ?c (revs @ [?r])"
    using h c3(3) by (simp add: rc_holds_def holds_std_def holds_changes_def holds_merges_def holds_props_def all_changes_def
        all_merges_def all_props_def)
  moreover have "rc_room k ?c"
  proof -
    have "texts_room k c3" using c3(4,5) room words_room_mono [of 1 k] by (simp add: rc_room_def texts_room_def)
    then show ?thesis using rc_room_mono [OF room] by (simp add: rc_room_def)
  qed
  moreover have "log_ok k ?c (revs @ [?r])" using c3(6) log by (auto simp: log_ok_def)
  ultimately show ?thesis by blast
qed

text \<open>The other operations that touch the comments, or do not.\<close>

lemma rc_Insert_log_ok:
  assumes h: "rc_holds c revs" and room: "rc_room (length author + length comment + 1 + k) c" and s: "0 \<notin> set comment"
    and log: "log_ok (length author + length comment + 1 + k) c revs"
    and ins: "rc_Insert outside author comment timeStamp flags c = Inr (i, c')" and r: "rv_comment r = comment"
  shows "log_ok k c' (revs @ [r])"
proof -
  have t: "ts_holds (rc_comments c) (map rv_comment revs)" using h by (simp add: rc_holds_def holds_std_def)
  have tr: "words_room (length comment + (length author + 1 + k)) (ts_words (rc_comments c))"
      "length (ts_stringData (rc_comments c)) + length comment + 1 < 2 ^ 32" "length comment + k < 2 ^ 64"
    using room by (simp_all add: rc_room_def texts_room_def ac_simps)
  have "texts_room (length comment + 1 + (length author + k)) (rc_comments c)" using room by (simp add: rc_room_def ac_simps)
  then obtain u where u: "ts_Insert outside comment (rc_comments c) = Some (Inr (of_nat (length (map rv_comment revs)), u))"
    using text_Insert_ok [OF t _ s] by blast
  then have "rc_comments c' = u" using ins by (auto simp: rc_Insert_def Let_def split: if_splits)
  then show ?thesis using ts_Insert_tokens [OF t tr(1) s tr(2) u] log tr(3) r \<open>rc_comments c' = u\<close> by (auto simp: log_ok_def)
qed

lemma rc_AddChange_comments:
  assumes "rc_AddChange action pathType path fromPath fromRevision t p c = Inr c'"
  shows "rc_comments c' = rc_comments c"
  using assms by (auto simp: rc_AddChange_def add_copy_from_def Let_def split: if_splits)

lemma rc_AddMergedRevision_comments:
  assumes "rc_AddMergedRevision fromPath toPath start delta c = Inr c'"
  shows "rc_comments c' = rc_comments c"
  using assms by (auto simp: rc_AddMergedRevision_def split: if_splits)

lemma rc_AddRevProp_comments:
  assumes "rc_AddRevProp outside mkgmtime revProp v c = Inr c'" "revProp \<noteq> svn_log"
  shows "rc_comments c' = rc_comments c"
  using assms by (auto simp: rc_AddRevProp_def split: if_splits)

subsection \<open>Whole logs\<close>

lemma rc_init_ok: "\<exists>c. rc_init = Inr c \<and> rc_holds c [] \<and> rc_room 100000000 c \<and> log_ok 100000000 c []"
proof -
  obtain w where w: "sd_init = Some w" "sd_inv w" "sd_strings w = [[]]" "load_ok (sd_hashIndex w)" using sd_init_ok by blast
  obtain d where d: "pd_init = Inr d" "pd_inv d" "pd_keys d = [(NO_INDEX, [])]" "sd_strings (pathElements d) = [[]]" "pd_light d"
    using pd_init_ok by blast
  obtain t where t: "ts_init = Some t" "ts_holds t []" "words_room 119304645 (ts_words t)" "ts_stringData t = []" using ts_init_ok by blast
  have "texts_room 100000000 t" using t(3,4) by (simp add: texts_room_def words_room_def)
  moreover have "words_room 100000000 w" using w(3,4) by (simp add: words_room_def)
  moreover have "pd_room 100000000 100000000 d" using d(3-5) by (simp add: pd_room_def flip: length_pd_keys)
  moreover obtain c where c: "rc_init = Inr c" "rc_authorPool c = w" "rc_paths c = d" "rc_comments c = t" "rc_userRevPropsPool c = w"
      "rc_userRevPropValues c = t" "rc_presenceFlags c = []" "rc_authors c = []" "rc_timeStamps c = []" "rc_rootPaths c = []"
      "rc_sumChanges c = []" "rc_changesOffsets c = [0]" "rc_copyFromOffsets c = [0]" "rc_mergedRevisionsOffsets c = [0]"
      "rc_userRevPropOffsets c = [0]" "rc_changes c = []" "rc_changedPaths c = []" "rc_changedPathTypes c = []" "rc_copyFromPaths c = []"
      "rc_copyFromRevisions c = []" "rc_textModifies c = []" "rc_propsModifies c = []" "rc_mergedFromPaths c = []"
      "rc_mergedToPaths c = []" "rc_mergedRangeStarts c = []" "rc_mergedRangeDeltas c = []" "rc_userRevPropNames c = []"
    by (simp add: rc_init_def w(1) d(1) t(1))
  ultimately have "rc_room 100000000 c" by (simp add: rc_room_def)
  moreover have "rc_holds c []"
    using w(2) d(2) t(2)
    by (simp add: c rc_holds_def holds_std_def holds_changes_def holds_merges_def holds_props_def
        all_changes_def all_merges_def all_props_def offsets_of_def)
  moreover have "log_ok 100000000 c []" by (simp add: log_ok_def c t(4))
  ultimately show ?thesis using c(1) by blast
qed

text \<open>The calls that add data, what they cost, and what they do to the list of revisions.\<close>

datatype rc_call =
    CallInsert "byte list" "byte list" "64 word" byte
  | CallAddChange byte node_kind "byte list" "byte list" revision_t byte byte
  | CallAddMergedRevision "byte list" "byte list" revision_t revision_t
  | CallAddRevProp "byte list" "byte list"

fun rc_step :: "(byte \<Rightarrow> bool) \<Rightarrow> (int list \<Rightarrow> 64 word) \<Rightarrow> rc_call \<Rightarrow> revision_info \<Rightarrow> container_error + revision_info" where
  "rc_step outside mkgmtime (CallInsert author comment timeStamp flags) c =
     bindE (rc_Insert outside author comment timeStamp flags c) (\<lambda>(_, c). Inr c)"
| "rc_step outside mkgmtime (CallAddChange action pathType path fromPath fromRevision t p) c =
     rc_AddChange action pathType path fromPath fromRevision t p c"
| "rc_step outside mkgmtime (CallAddMergedRevision fromPath toPath start delta) c =
     rc_AddMergedRevision fromPath toPath start delta c"
| "rc_step outside mkgmtime (CallAddRevProp revProp v) c = rc_AddRevProp outside mkgmtime revProp v c"

fun rc_run :: "(byte \<Rightarrow> bool) \<Rightarrow> (int list \<Rightarrow> 64 word) \<Rightarrow> rc_call list \<Rightarrow> revision_info \<Rightarrow> container_error + revision_info" where
  "rc_run outside mkgmtime [] c = Inr c"
| "rc_run outside mkgmtime (call # calls) c = bindE (rc_step outside mkgmtime call c) (rc_run outside mkgmtime calls)"

fun call_cost :: "rc_call \<Rightarrow> nat" where
  "call_cost (CallInsert author comment timeStamp flags) = length author + length comment + 1"
| "call_cost (CallAddChange action pathType path fromPath fromRevision t p) = length path + length fromPath + 2"
| "call_cost (CallAddMergedRevision fromPath toPath start delta) = length fromPath + length toPath + 2"
| "call_cost (CallAddRevProp revProp v) = length revProp + length v + 1"

fun call_ok :: "rc_call \<Rightarrow> bool" where
  "call_ok (CallInsert author comment timeStamp flags) \<longleftrightarrow> 0 \<notin> set comment"
| "call_ok (CallAddChange action pathType path fromPath fromRevision t p) \<longleftrightarrow> action AND ANY_ACTION = action"
| "call_ok (CallAddMergedRevision fromPath toPath start delta) \<longleftrightarrow> True"
| "call_ok (CallAddRevProp revProp v) \<longleftrightarrow> 0 \<notin> set v"

fun effect :: "(int list \<Rightarrow> 64 word) \<Rightarrow> rc_call \<Rightarrow> revision \<Rightarrow> revision" where
  "effect mkgmtime (CallInsert author comment timeStamp flags) r = r"
| "effect mkgmtime (CallAddChange action pathType path fromPath fromRevision t p) r =
     r\<lparr>rv_changes := rv_changes r @ [new_change action pathType path fromPath fromRevision t p]\<rparr>"
| "effect mkgmtime (CallAddMergedRevision fromPath toPath start delta) r =
     r\<lparr>rv_merges := rv_merges r @ [(path_elements fromPath, path_elements toPath, start, delta)]\<rparr>"
| "effect mkgmtime (CallAddRevProp revProp v) r =
     (if revProp = svn_author then r\<lparr>rv_author := c_str v\<rparr>
      else if revProp = svn_date then r\<lparr>rv_time := svn_time_stamp mkgmtime v\<rparr>
      else if revProp = svn_log then r\<lparr>rv_comment := rv_comment r @ v\<rparr>
      else r\<lparr>rv_props := rv_props r @ [(c_str revProp, v)]\<rparr>)"

definition new_revision :: "byte list \<Rightarrow> byte list \<Rightarrow> 64 word \<Rightarrow> byte \<Rightarrow> revision" where
  "new_revision author comment timeStamp flags =
     \<lparr>rv_author = c_str author, rv_comment = comment, rv_time = timeStamp, rv_flags = flags,
      rv_changes = [], rv_merges = [], rv_props = []\<rparr>"

fun called :: "(int list \<Rightarrow> 64 word) \<Rightarrow> rc_call list \<Rightarrow> revision list \<Rightarrow> revision list" where
  "called mkgmtime [] revs = revs"
| "called mkgmtime (CallInsert author comment timeStamp flags # calls) revs =
     called mkgmtime calls (revs @ [new_revision author comment timeStamp flags])"
| "called mkgmtime (call # calls) revs = called mkgmtime calls (butlast revs @ [effect mkgmtime call (last revs)])"

fun is_insert :: "rc_call \<Rightarrow> bool" where
  "is_insert (CallInsert author comment timeStamp flags) \<longleftrightarrow> True"
| "is_insert call \<longleftrightarrow> False"

lemma called_step:
  "called mkgmtime (call # calls) revs = called mkgmtime calls
     (case call of CallInsert author comment timeStamp flags \<Rightarrow> revs @ [new_revision author comment timeStamp flags]
      | _ \<Rightarrow> butlast revs @ [effect mkgmtime call (last revs)])"
  by (cases call) auto

lemma rc_step_ok:
  assumes h: "rc_holds c revs" and ne: "revs \<noteq> [] \<or> is_insert call" and ok: "call_ok call" and room: "rc_room (call_cost call + k) c"
    and log: "log_ok (call_cost call + k) c revs"
  shows "\<exists>c' revs'. rc_step outside mkgmtime call c = Inr c' \<and> rc_room k c' \<and> log_ok k c' revs' \<and> rc_holds c' revs' \<and>
    revs' = (case call of CallInsert author comment timeStamp flags \<Rightarrow> revs @ [new_revision author comment timeStamp flags]
      | _ \<Rightarrow> butlast revs @ [effect mkgmtime call (last revs)])"
proof (cases call)
  case (CallInsert author comment timeStamp flags)
  have s: "0 \<notin> set comment" and room': "rc_room (length author + length comment + 1 + k) c"
      and log': "log_ok (length author + length comment + 1 + k) c revs" using ok room log CallInsert by simp_all
  obtain c' where c': "rc_Insert outside author comment timeStamp flags c = Inr (of_nat (length revs), c')"
      "rc_holds c' (revs @ [new_revision author comment timeStamp flags])" "rc_room k c'"
    using rc_Insert_ok [OF h room' s, of outside timeStamp flags] by (auto simp: new_revision_def)
  have "log_ok k c' (revs @ [new_revision author comment timeStamp flags])"
    by (rule rc_Insert_log_ok [OF h room' s log' c'(1)]) (simp add: new_revision_def)
  then show ?thesis using c' CallInsert by simp
next
  case (CallAddChange action pathType path fromPath fromRevision t p)
  have e: "revs = butlast revs @ [last revs]" using ne CallAddChange by simp
  have h': "rc_holds c (butlast revs @ [last revs])" and log': "log_ok (call_cost call + k) c (butlast revs @ [last revs])"
    using h log e by simp_all
  obtain c' where c': "rc_AddChange action pathType path fromPath fromRevision t p c = Inr c'"
      "rc_holds c' (butlast revs @ [effect mkgmtime call (last revs)])" "rc_room k c'"
    using rc_AddChange_ok [OF h' _ _ refl, of path fromPath k action pathType fromRevision t p] ok room CallAddChange by auto
  have "log_ok k c' (butlast revs @ [effect mkgmtime call (last revs)])"
    by (rule log_ok_change [OF log' rc_AddChange_comments [OF c'(1)]]) (simp add: CallAddChange)
  then show ?thesis using c' CallAddChange by simp
next
  case (CallAddMergedRevision fromPath toPath start delta)
  have e: "revs = butlast revs @ [last revs]" using ne CallAddMergedRevision by simp
  have h': "rc_holds c (butlast revs @ [last revs])" and log': "log_ok (call_cost call + k) c (butlast revs @ [last revs])"
    using h log e by simp_all
  obtain c' where c': "rc_AddMergedRevision fromPath toPath start delta c = Inr c'"
      "rc_holds c' (butlast revs @ [effect mkgmtime call (last revs)])" "rc_room k c'"
    using rc_AddMergedRevision_ok [OF h', of fromPath toPath k start delta] room CallAddMergedRevision by auto
  have "log_ok k c' (butlast revs @ [effect mkgmtime call (last revs)])"
    by (rule log_ok_change [OF log' rc_AddMergedRevision_comments [OF c'(1)]]) (simp add: CallAddMergedRevision)
  then show ?thesis using c' CallAddMergedRevision by simp
next
  case (CallAddRevProp revProp v)
  have e: "revs = butlast revs @ [last revs]" using ne CallAddRevProp by simp
  have h': "rc_holds c (butlast revs @ [last revs])" and log': "log_ok (length revProp + (length v + 1 + k)) c (butlast revs @ [last revs])"
    using h log e CallAddRevProp by (simp_all add: add.assoc)
  have room': "rc_room (length v + 1 + k) c" using rc_room_mono [of "length revProp" "length v + 1 + k"] room CallAddRevProp
    by (simp add: add.assoc)
  have room'': "rc_room k c" by (rule rc_room_mono [OF room])
  have v: "0 \<notin> set v" using ok CallAddRevProp by simp
  show ?thesis
  proof (cases "revProp = svn_log")
    case True
    then have "revProp \<noteq> svn_author" "revProp \<noteq> svn_date" by (simp_all add: svn_author_def svn_date_def svn_log_def)
    then show ?thesis using rc_AddRevProp_log_ok [OF h' room' v log_ok_mono [OF log'], of outside mkgmtime] True CallAddRevProp by auto
  next
    case False
    have "\<exists>c'. rc_AddRevProp outside mkgmtime revProp v c = Inr c' \<and> rc_holds c' (butlast revs @ [effect mkgmtime call (last revs)]) \<and> rc_room k c'"
    proof -
      consider "revProp = svn_author" | "revProp = svn_date" | "revProp \<noteq> svn_author" "revProp \<noteq> svn_date" by blast
      then show ?thesis
      proof cases
        case 1
        then show ?thesis using rc_AddRevProp_author_ok [OF h' room', of outside mkgmtime] CallAddRevProp by auto
      next
        case 2
        then have "revProp \<noteq> svn_author" by (simp add: svn_author_def svn_date_def)
        then show ?thesis using 2 rc_AddRevProp_date_ok [OF h' room'', of outside mkgmtime v] CallAddRevProp by auto
      next
        case 3
        then show ?thesis using rc_AddRevProp_ok [OF h', of revProp v k outside mkgmtime] v room False CallAddRevProp by auto
      qed
    qed
    then obtain c' where c': "rc_AddRevProp outside mkgmtime revProp v c = Inr c'"
        "rc_holds c' (butlast revs @ [effect mkgmtime call (last revs)])" "rc_room k c'" by blast
    have "log_ok k c' (butlast revs @ [effect mkgmtime call (last revs)])"
      by (rule log_ok_change [OF log_ok_mono [OF log'] rc_AddRevProp_comments [OF c'(1) False]]) (use False CallAddRevProp in simp)
    then show ?thesis using c' CallAddRevProp by simp
  qed
qed

lemma rc_run_ok:
  "rc_holds c revs \<Longrightarrow> revs \<noteq> [] \<or> calls = [] \<or> is_insert (hd calls) \<Longrightarrow> \<forall>call \<in> set calls. call_ok call \<Longrightarrow>
   rc_room (sum_list (map call_cost calls) + k) c \<Longrightarrow> log_ok (sum_list (map call_cost calls) + k) c revs \<Longrightarrow>
   \<exists>c'. rc_run outside mkgmtime calls c = Inr c' \<and> rc_room k c' \<and> rc_holds c' (called mkgmtime calls revs)"
proof (induction calls arbitrary: c revs)
  case (Cons call calls)
  let ?revs = "case call of CallInsert author comment timeStamp flags \<Rightarrow> revs @ [new_revision author comment timeStamp flags]
      | _ \<Rightarrow> butlast revs @ [effect mkgmtime call (last revs)]"
  have ne: "revs \<noteq> [] \<or> is_insert call" and ok: "call_ok call" using Cons.prems(2,3) by simp_all
  have "rc_room (call_cost call + (sum_list (map call_cost calls) + k)) c" "log_ok (call_cost call + (sum_list (map call_cost calls) + k)) c revs"
    using Cons.prems(4,5) by (simp_all add: add.assoc)
  then obtain c1 where c1: "rc_step outside mkgmtime call c = Inr c1" "rc_room (sum_list (map call_cost calls) + k) c1"
      "log_ok (sum_list (map call_cost calls) + k) c1 ?revs" "rc_holds c1 ?revs"
    using rc_step_ok [OF Cons.prems(1) ne ok] by blast
  have "?revs \<noteq> []" by (cases call) auto
  then obtain c' where "rc_run outside mkgmtime calls c1 = Inr c'" "rc_room k c'" "rc_holds c' (called mkgmtime calls ?revs)"
    using Cons.IH [OF c1(4) _ _ c1(2,3)] Cons.prems(3) by auto
  then show ?case using c1(1) unfolding called_step by auto
qed simp

lemma rc_room_small: "rc_holds c revs \<Longrightarrow> rc_room k c \<Longrightarrow> rc_small revs"
  using rc_holds_lengths [of c revs] by (auto simp: rc_room_def rc_small_def)

definition callable :: "rc_call list \<Rightarrow> bool" where
  "callable calls \<longleftrightarrow> (calls = [] \<or> is_insert (hd calls)) \<and> (\<forall>call \<in> set calls. call_ok call) \<and>
     sum_list (map call_cost calls) \<le> 100000000"

lemma rc_run_init:
  assumes "callable calls"
  shows "\<exists>c0 c k. rc_init = Inr c0 \<and> rc_run outside mkgmtime calls c0 = Inr c \<and> rc_holds c (called mkgmtime calls []) \<and>
    rc_room k c \<and> rc_small (called mkgmtime calls [])"
proof -
  obtain c0 where c0: "rc_init = Inr c0" "rc_holds c0 []" "rc_room 100000000 c0" "log_ok 100000000 c0 []" using rc_init_ok by blast
  obtain k where "sum_list (map call_cost calls) + k = 100000000" using assms le_Suc_ex by (metis callable_def)
  then have "rc_room (sum_list (map call_cost calls) + k) c0" "log_ok (sum_list (map call_cost calls) + k) c0 []" using c0(3,4) by simp_all
  moreover have "([] :: revision list) \<noteq> [] \<or> calls = [] \<or> is_insert (hd calls)" "\<forall>call \<in> set calls. call_ok call"
    using assms by (auto simp: callable_def)
  ultimately obtain c where c: "rc_run outside mkgmtime calls c0 = Inr c" "rc_room k c" "rc_holds c (called mkgmtime calls [])"
    using rc_run_ok [OF c0(2)] by blast
  then show ?thesis using c0(1) rc_room_small [OF c(3,2)] by blast
qed


subsection \<open>Properties\<close>

text \<open>
  C12.  A revision container that is filled by any sequence of calls (the first one an insertion, within
  the capacity of the pools) accepts all of them, and reading a revision through the accessors and the
  iterators returns what the calls made of it: author, comment, time stamp, flags, changes with their
  copy sources, merges and revision properties.  The property svn:author replaces the author and svn:date
  the time stamp; svn:log does not replace the comment, its text is added behind it (see C18).
\<close>

theorem revision_container_life:
  assumes "callable calls"
  shows "\<exists>c0 c. rc_init = Inr c0 \<and> rc_run outside mkgmtime calls c0 = Inr c \<and>
    rc_size c = of_nat (length (called mkgmtime calls [])) \<and>
    (\<forall>i < length (called mkgmtime calls []). rc_read c (of_nat i) = Some (called mkgmtime calls [] ! i))"
proof -
  obtain c0 c k where c: "rc_init = Inr c0" "rc_run outside mkgmtime calls c0 = Inr c" "rc_holds c (called mkgmtime calls [])"
      "rc_small (called mkgmtime calls [])" using rc_run_init [OF assms] by blast
  then show ?thesis using rc_read_ok [OF c(3,4)] rc_holds_lengths(1) [OF c(3)] by (auto simp: rc_size_def)
qed

definition sample_calls :: "rc_call list" where
  "sample_calls = [CallInsert [98, 111, 98] [102, 105, 120] 1000 0x1A, CallAddChange 0x08 node_file [47, 97, 47, 98] [] 0 1 0,
     CallAddChange 0x04 node_dir [47, 97, 47, 99] [47, 120] 7 0 0, CallAddRevProp [107] [118], CallAddRevProp svn_log [33]]"

lemma sample_callable: "callable sample_calls"
  by (simp add: callable_def sample_calls_def ANY_ACTION_def svn_log_def)

theorem revision_container_life_witness:
  "\<exists>c0 c r. rc_init = Inr c0 \<and> rc_run (\<lambda>_. False) (\<lambda>_. 0) sample_calls c0 = Inr c \<and> rc_size c = 1 \<and> rc_read c 0 = Some r \<and>
    rv_author r = [98, 111, 98] \<and> map ch_path (rv_changes r) = [[[97], [98]], [[97], [99]]] \<and>
    map ch_from (rv_changes r) = [None, Some ([[120]], 7)] \<and> rv_props r = [([107], [118])] \<and>
    rv_comment r = [102, 105, 120, 33]"
proof -
  have r: "called (\<lambda>_. 0) sample_calls [] = [effect (\<lambda>_. 0) (sample_calls ! 4) (effect (\<lambda>_. 0) (sample_calls ! 3) (effect (\<lambda>_. 0) (sample_calls ! 2)
      (effect (\<lambda>_. 0) (sample_calls ! 1) (new_revision [98, 111, 98] [102, 105, 120] 1000 0x1A))))]"
    by (simp add: sample_calls_def)
  show ?thesis using revision_container_life [OF sample_callable, of "\<lambda>_. False" "\<lambda>_. 0"] unfolding r
    by (auto simp: sample_calls_def new_revision_def new_change_def copy_of_def svn_author_def svn_date_def svn_log_def
        c_str_def path_elements_def split_elements.simps slash_def)
qed

text \<open>
  C13.  After any such sequence of calls the root path of a revision is the longest common prefix of its
  changed paths, or invalid if there are none, and its sum of changes is the union of the bits of its
  changes.
\<close>

theorem revision_root_and_sum:
  assumes "callable calls"
  shows "\<exists>c0 c. rc_init = Inr c0 \<and> rc_run outside mkgmtime calls c0 = Inr c \<and>
    (\<forall>i < length (called mkgmtime calls []).
       let chs = rv_changes (called mkgmtime calls [] ! i)
       in rc_GetSumChanges c (of_nat i) = Some (sum_of chs) \<and>
          (if chs = [] then rc_GetRootPath c (of_nat i) = Some NO_INDEX
           else map_option (pd_path (rc_paths c)) (rc_GetRootPath c (of_nat i)) = Some (common_path (map ch_path chs))))"
proof -
  obtain c0 c k where c: "rc_init = Inr c0" "rc_run outside mkgmtime calls c0 = Inr c" "rc_holds c (called mkgmtime calls [])"
      "rc_small (called mkgmtime calls [])" using rc_run_init [OF assms] by blast
  let ?revs = "called mkgmtime calls []"
  have hc: "holds_changes c ?revs" using c(3) by (simp add: rc_holds_def)
  have "rc_GetSumChanges c (of_nat i) = Some (sum_of (rv_changes (?revs ! i))) \<and>
      (\<exists>root. rc_GetRootPath c (of_nat i) = Some root \<and> root_of (rc_paths c) root (rv_changes (?revs ! i)))"
    if i: "i < length ?revs" for i
  proof -
    have n: "i < 2 ^ 32" using i c(4) by (simp add: rc_small_def)
    have "\<exists>root. vat (rc_rootPaths c) (of_nat i) = Some root \<and> root_of (rc_paths c) root (map rv_changes ?revs ! i)"
      using hc i n by (intro list_all2_vat; simp add: holds_changes_def)
    then show ?thesis using hc i n by (simp add: rc_GetSumChanges_def rc_GetRootPath_def holds_changes_def vat_nth)
  qed
  then show ?thesis using c(1,2) by (fastforce simp: Let_def root_of_def stands_path)
qed

theorem revision_root_and_sum_witness:
  "\<exists>c0 c. rc_init = Inr c0 \<and> rc_run (\<lambda>_. False) (\<lambda>_. 0) sample_calls c0 = Inr c \<and> rc_GetSumChanges c 0 = Some 0x0D \<and>
    map_option (pd_path (rc_paths c)) (rc_GetRootPath c 0) = Some [[97]]"
proof -
  have r: "called (\<lambda>_. 0) sample_calls [] = [effect (\<lambda>_. 0) (sample_calls ! 4) (effect (\<lambda>_. 0) (sample_calls ! 3) (effect (\<lambda>_. 0) (sample_calls ! 2)
      (effect (\<lambda>_. 0) (sample_calls ! 1) (new_revision [98, 111, 98] [102, 105, 120] 1000 0x1A))))]"
    by (simp add: sample_calls_def)
  show ?thesis using revision_root_and_sum [OF sample_callable, of "\<lambda>_. False" "\<lambda>_. 0"] unfolding r
    by (auto simp: sample_calls_def new_revision_def new_change_def copy_of_def svn_author_def svn_date_def svn_log_def
        sum_of_def change_byte_def HAS_COPY_FROM_def path_elements_def split_elements.simps slash_def)
qed

text \<open>
  C18.  Replacing the log message of the revision that was inserted last does not replace it: the new text
  is added behind the old one.
\<close>

theorem replaced_log_message_joins:
  assumes "rc_holds c revs" "rc_room (length author + length comment + length v + 3) c" "0 \<notin> set comment" "0 \<notin> set v"
  shows "\<exists>c1 c2. rc_Insert outside author comment timeStamp flags c = Inr (of_nat (length revs), c1) \<and>
    rc_AddRevProp outside mkgmtime svn_log v c1 = Inr c2 \<and>
    rc_GetComment c2 (of_nat (length revs)) = Some (Inr (comment @ v))"
proof -
  have room: "rc_room (length author + length comment + 1 + (length v + 2)) c"
  proof -
    have "length author + length comment + 1 + (length v + 2) = length author + length comment + length v + 3" by simp
    then show ?thesis using assms(2) by (simp only:)
  qed
  obtain c1 where c1: "rc_Insert outside author comment timeStamp flags c = Inr (of_nat (length revs), c1)"
    using rc_Insert_ok [OF assms(1) room assms(3)] by blast
  obtain t where t: "ts_Insert outside comment (rc_comments c) = Some (Inr (of_nat (length revs), t))" "rc_comments c1 = t"
  proof -
    have "ts_holds (rc_comments c) (map rv_comment revs)" using assms(1) by (simp add: rc_holds_def holds_std_def)
    moreover have "texts_room (length comment + 1 + (length author + length v + 2)) (rc_comments c)"
    proof -
      have "length comment + 1 + (length author + length v + 2) = length author + length comment + length v + 3" by simp
      then show ?thesis using assms(2) unfolding rc_room_def by (simp only:)
    qed
    ultimately obtain t where "ts_Insert outside comment (rc_comments c) = Some (Inr (of_nat (length revs), t))"
      using text_Insert_ok [of "rc_comments c" "map rv_comment revs" comment _ outside] assms(3) by fastforce
    moreover from this have "rc_comments c1 = t" using c1 by (auto simp: rc_Insert_def Let_def split: if_splits)
    ultimately show thesis using that by blast
  qed
  have h: "ts_holds (rc_comments c) (map rv_comment revs)" using assms(1) by (simp add: rc_holds_def holds_std_def)
  have len: "length revs + 2 < 2 ^ 32" using rc_holds_lengths(1) [OF assms(1)] assms(2) by (simp add: rc_room_def)
  have "words_room (length comment + length v + (length author + 3)) (ts_words (rc_comments c))"
      "length (ts_stringData (rc_comments c)) + length comment + length v + 2 < 2 ^ 32"
    using assms(2) by (simp_all add: rc_room_def texts_room_def ac_simps)
  then obtain t2 t3 where t3: "ts_Remove (of_nat (length revs)) t = Inr t2" "ts_Insert outside v t2 = Some (Inr (of_nat (length revs), t3))"
      "ts_holds t3 (map rv_comment revs @ [comment @ v])"
    using ts_Remove_last_joins [OF h _ assms(3,4) _ _ t(1)] len words_room_mono [of "length author + 3"]
    by (auto simp: add.commute)
  have "length (ts_offsets t) = length revs + 2"
  proof -
    obtain t' where "ts_Insert outside comment (rc_comments c) = Some (Inr (of_nat (length revs), t'))" "ts_holds t' (map rv_comment revs @ [comment])"
      using ts_Insert_ok [OF h, of comment "length v" outside] assms(3)
        \<open>words_room (length comment + length v + (length author + 3)) (ts_words (rc_comments c))\<close>
        \<open>length (ts_stringData (rc_comments c)) + length comment + length v + 2 < 2 ^ 32\<close> words_room_mono [of "length author + 3"]
      by (auto simp: add.commute)
    then show ?thesis using t(1) ts_holds_length [of t'] by simp
  qed
  then have "ts_size t - 1 = of_nat (length revs)" by (simp add: ts_size_def)
  then have "rc_AddRevProp outside mkgmtime svn_log v c1 = Inr (c1\<lparr>rc_comments := t3\<rparr>)"
    using t(2) t3(1,2) by (simp add: rc_AddRevProp_def svn_log_def svn_author_def svn_date_def)
  moreover have "rc_GetComment (c1\<lparr>rc_comments := t3\<rparr>) (of_nat (length revs)) = Some (Inr (comment @ v))"
    using ts_GetAt_ok [OF t3(3), of "of_nat (length revs)"] len by (simp add: rc_GetComment_def unat_of_nat_small nth_append)
  ultimately show ?thesis using c1 by blast
qed

theorem replaced_log_message_joins_witness:
  "\<exists>c c1 c2. rc_init = Inr c \<and> rc_Insert (\<lambda>_. False) [98] [111, 108, 100] 0 0x1A c = Inr (0, c1) \<and>
    rc_AddRevProp (\<lambda>_. False) (\<lambda>_. 0) svn_log [110, 101, 119] c1 = Inr c2 \<and>
    rc_GetComment c2 0 = Some (Inr [111, 108, 100, 110, 101, 119])"
proof -
  obtain c where c: "rc_init = Inr c" "rc_holds c []" "rc_room 100000000 c" using rc_init_ok by blast
  have "rc_room (length [98 :: byte] + length [111 :: byte, 108, 100] + length [110 :: byte, 101, 119] + 3) c"
    by (rule rc_room_mono [of 99999990]) (simp add: c(3))
  then show ?thesis using replaced_log_message_joins [OF c(2), of "[98]" "[111, 108, 100]" "[110, 101, 119]" "\<lambda>_. False" 0 "0x1A" "\<lambda>_. 0"] c(1)
    by auto
qed

text \<open>
  C19.  The check that a change can be added without moving data that readers may use forgets the vectors
  of text and property modifications: it allows the addition, which then grows them beyond their capacity.
\<close>

theorem add_change_check_misses_vectors:
  assumes "rc_holds c (revs @ [r])" "rc_room (length path + length fromPath + 2) c" "action AND ANY_ACTION = action"
    "rc_CanAddChangeThreadSafely cap path fromPath c = Some True" "n = length (rc_textModifies c)"
  shows "\<exists>c'. rc_CanAddChangeThreadSafely (cap\<lparr>cap_textModifies := n, cap_propsModifies := n\<rparr>) path fromPath c = Some True \<and>
    rc_AddChange action pathType path fromPath fromRevision text_modified props_modified c = Inr c' \<and>
    n < length (rc_textModifies c') \<and> n < length (rc_propsModifies c')"
proof -
  have room: "rc_room (length path + length fromPath + 2 + 0) c" using assms(2) by simp
  obtain c' where c': "rc_AddChange action pathType path fromPath fromRevision text_modified props_modified c = Inr c'"
      "rc_holds c' (revs @ [r\<lparr>rv_changes := rv_changes r @ [new_change action pathType path fromPath fromRevision text_modified props_modified]\<rparr>])"
    using rc_AddChange_ok [OF assms(1) room assms(3) refl] by blast
  have "n < length (rc_textModifies c')" "n < length (rc_propsModifies c')"
    using c'(2) assms(1,5) by (simp_all add: rc_holds_def holds_changes_def add_all)
  moreover have "rc_CanAddChangeThreadSafely (cap\<lparr>cap_textModifies := n, cap_propsModifies := n\<rparr>) path fromPath c = rc_CanAddChangeThreadSafely cap path fromPath c"
    unfolding rc_CanAddChangeThreadSafely_def by (simp cong: if_cong)
  ultimately show ?thesis using c'(1) assms(4) by auto
qed

definition one_free :: revision_capacities where
  "one_free = \<lparr>cap_authors = 1, cap_timeStamps = 1, cap_presenceFlags = 1, cap_rootPaths = 1, cap_sumChanges = 1,
     cap_changesOffsets = 2, cap_copyFromOffsets = 2, cap_mergedRevisionsOffsets = 2, cap_userRevPropOffsets = 2,
     cap_changes = 1, cap_changedPaths = 1, cap_changedPathTypes = 1, cap_copyFromPaths = 1, cap_copyFromRevisions = 1,
     cap_textModifies = 1, cap_propsModifies = 1, cap_mergedFromPaths = 1, cap_mergedToPaths = 1, cap_mergedRangeStarts = 1,
     cap_mergedRangeDeltas = 1, cap_userRevPropNames = 1, cap_comments = (9, 9, 9, 9), cap_userRevPropValues = (9, 9, 9, 9),
     cap_paths = (1, 1, 2)\<rparr>"

theorem add_change_check_misses_vectors_witness:
  "\<exists>c c1 c2. rc_init = Inr c \<and> rc_run (\<lambda>_. False) (\<lambda>_. 0) [CallInsert [98] [] 0 0x1A] c = Inr c1 \<and>
    rc_CanAddChangeThreadSafely (one_free\<lparr>cap_textModifies := 0, cap_propsModifies := 0\<rparr>) [] [] c1 = Some True \<and>
    rc_AddChange 0x08 node_dir [] [] 0 0 1 c1 = Inr c2 \<and> 0 < length (rc_textModifies c2)"
proof -
  obtain c where c: "rc_init = Inr c" "rc_holds c []" "rc_room 100000000 c" "log_ok 100000000 c []" using rc_init_ok by blast
  have "rc_room (sum_list (map call_cost [CallInsert [98] [] 0 0x1A]) + 99999998) c"
      "log_ok (sum_list (map call_cost [CallInsert [98] [] 0 0x1A]) + 99999998) c []" using c(3,4) by simp_all
  from rc_run_ok [OF c(2) _ _ this, of "\<lambda>_. False" "\<lambda>_. 0"] obtain c1 where
    c1: "rc_run (\<lambda>_. False) (\<lambda>_. 0) [CallInsert [98] [] 0 0x1A] c = Inr c1" "rc_room 99999998 c1"
      "rc_holds c1 ([] @ [new_revision [98] [] 0 0x1A])" by auto
  have room: "rc_room (length ([] :: byte list) + length ([] :: byte list) + 2) c1" by (rule rc_room_mono [of 99999996]) (simp add: c1(2))
  have l: "rc_changes c1 = []" "rc_textModifies c1 = []" "rc_changedPathTypes c1 = []" "rc_changedPaths c1 = []"
    using c1(3) by (simp_all add: rc_holds_def holds_changes_def all_changes_def new_revision_def)
  have "rc_CanAddChangeThreadSafely one_free [] [] c1 = Some True"
    by (simp add: rc_CanAddChangeThreadSafely_def can_parse_path_def dbp_CanParsePathThreadSafely_def one_free_def l)
  moreover have "0x08 AND ANY_ACTION = (0x08 :: byte)" by (simp add: ANY_ACTION_def)
  ultimately show ?thesis
    using add_change_check_misses_vectors [OF c1(3) room, of "0x08" one_free 0 node_dir 0 0 1] c(1) c1(1) l by auto
qed

end
