(* ===== verification/RevisionInfoOptimize.thy ===== *)
theory RevisionInfoOptimize
  imports RevisionInfoFill "HOL-Library.Multiset"
begin

section \<open>Optimisation of the revision container, and its derived data\<close>

text \<open>
  \<open>Optimize\<close> sorts the authors by frequency and the changes of each revision by path; it runs when the
  size crosses a power of two.  \<open>CalculateSumChanges\<close> rebuilds the sums after loading.  The lemmas show that
  the optimisation keeps every revision up to the order of its changes, and that the rebuilt sums are
  those that the additions have accumulated.
\<close>

subsection \<open>Authors by frequency\<close>

record per_author =
  pa_frequency :: index_t
  pa_author :: index_t

definition pa_less :: "per_author \<Rightarrow> per_author \<Rightarrow> bool" where
  "pa_less lhs rhs \<longleftrightarrow> pa_frequency lhs > pa_frequency rhs \<or>
     (pa_frequency lhs = pa_frequency rhs \<and> pa_author lhs < pa_author rhs)"

text \<open>\<open>std::sort\<close> with an order in which different elements are never equivalent has one result.\<close>

fun insert_by :: "('a \<Rightarrow> 'a \<Rightarrow> bool) \<Rightarrow> 'a \<Rightarrow> 'a list \<Rightarrow> 'a list" where
  "insert_by lt x [] = [x]"
| "insert_by lt x (y # ys) = (if lt y x then y # insert_by lt x ys else x # y # ys)"

definition sort_by :: "('a \<Rightarrow> 'a \<Rightarrow> bool) \<Rightarrow> 'a list \<Rightarrow> 'a list" where
  "sort_by lt xs = foldr (insert_by lt) xs []"

fun count_authors :: "index_t list \<Rightarrow> index_t list \<Rightarrow> index_t list option" where
  "count_authors [] fs = Some fs"
| "count_authors (a # as) fs =
     (if unat a < length fs then count_authors as (fs[unat a := fs ! unat a + 1]) else None)"

definition invert_order :: "index_t list \<Rightarrow> index_t list" where
  "invert_order is = foldl (\<lambda>rs i. rs[unat (is ! i) := of_nat i]) is [0..<length is]"

definition rc_OptimizeAuthors :: "revision_info \<Rightarrow> container_error + revision_info" where
  "rc_OptimizeAuthors c =
     (let n = unat (sd_size (rc_authorPool c)) in
      bindE (of_opt (count_authors (rc_authors c) (replicate n 0))) (\<lambda>fs.
        let counter = map (\<lambda>i. \<lparr>pa_frequency = fs ! i, pa_author = of_nat i\<rparr>) [0..<n] in
        if counter = [] then Inl Undefined else
        let counter = hd counter # sort_by pa_less (tl counter); indices = map pa_author counter in
        bindE (sd_Reorder indices (rc_authorPool c)) (\<lambda>pool.
          let indices = invert_order indices
          in Inr (c\<lparr>rc_authorPool := pool, rc_authors := map (\<lambda>a. indices ! unat a) (rc_authors c)\<rparr>))))"

subsection \<open>Changes by path\<close>

definition pi_less :: "change_info \<Rightarrow> change_info \<Rightarrow> bool" where
  "pi_less lhs rhs \<longleftrightarrow> pi_changedPath lhs < pi_changedPath rhs \<or>
     (pi_changedPath lhs = pi_changedPath rhs \<and> pi_change lhs > pi_change rhs)"

definition vset :: "'a list \<Rightarrow> index_t \<Rightarrow> 'a \<Rightarrow> 'a list option" where
  "vset xs i x = (if unat i < length xs then Some (xs[unat i := x]) else None)"

fun write_changes :: "change_info list \<Rightarrow> index_t \<Rightarrow> index_t \<Rightarrow> revision_info \<Rightarrow> revision_info option" where
  "write_changes [] i k c = Some c"
| "write_changes (x # xs) i k c = do {
     changedPaths \<leftarrow> vset (rc_changedPaths c) i (pi_changedPath x);
     changedPathTypes \<leftarrow> vset (rc_changedPathTypes c) i (pi_changedPathType x);
     changes \<leftarrow> vset (rc_changes c) i (pi_change x);
     textModifies \<leftarrow> vset (rc_textModifies c) i (pi_textModifies x);
     propsModifies \<leftarrow> vset (rc_propsModifies c) i (pi_propsModifies x);
     let c = c\<lparr>rc_changedPaths := changedPaths, rc_changedPathTypes := changedPathTypes, rc_changes := changes,
               rc_textModifies := textModifies, rc_propsModifies := propsModifies\<rparr>;
     if pi_change x AND HAS_COPY_FROM \<noteq> 0
     then do {
       copyFromPaths \<leftarrow> vset (rc_copyFromPaths c) k (pi_copyFromPath x);
       copyFromRevisions \<leftarrow> vset (rc_copyFromRevisions c) k (pi_copyFromRevision x);
       write_changes xs (i + 1) (k + 1)
         (c\<lparr>rc_copyFromPaths := copyFromPaths, rc_copyFromRevisions := copyFromRevisions\<rparr>)
     }
     else write_changes xs (i + 1) k c
   }"

text \<open>
  \<open>std::sort\<close> is the parameter \<open>std_sort\<close> here: two changes with the same path and the same bits are
  equivalent, and their order in the result is not specified.
\<close>

definition sort_changes :: "(change_info list \<Rightarrow> change_info list) \<Rightarrow> index_t \<Rightarrow> revision_info \<Rightarrow> revision_info option" where
  "sort_changes std_sort index c = do {
     revisionChanges \<leftarrow> revision_changes c index;
     i \<leftarrow> vat (rc_changesOffsets c) index;
     k \<leftarrow> vat (rc_copyFromOffsets c) index;
     write_changes (std_sort revisionChanges) i k c
   }"

fun sort_all_changes :: "(change_info list \<Rightarrow> change_info list) \<Rightarrow> nat list \<Rightarrow> revision_info \<Rightarrow> revision_info option" where
  "sort_all_changes std_sort [] c = Some c"
| "sort_all_changes std_sort (i # is) c =
     Option.bind (sort_changes std_sort (of_nat i) c) (sort_all_changes std_sort is)"

definition rc_OptimizeChangeOrder :: "(change_info list \<Rightarrow> change_info list) \<Rightarrow> revision_info \<Rightarrow> container_error + revision_info" where
  "rc_OptimizeChangeOrder std_sort c = of_opt (sort_all_changes std_sort [0..<unat (rc_size c)] c)"

definition rc_Optimize :: "(change_info list \<Rightarrow> change_info list) \<Rightarrow> revision_info \<Rightarrow> container_error + revision_info" where
  "rc_Optimize std_sort c = bindE (rc_OptimizeAuthors c) (rc_OptimizeChangeOrder std_sort)"

definition rc_AutoOptimize :: "(change_info list \<Rightarrow> change_info list) \<Rightarrow> revision_info \<Rightarrow> container_error + revision_info" where
  "rc_AutoOptimize std_sort c =
     (let currentSize = rc_size c; diffBits = currentSize XOR rc_storedSize c
      in if currentSize \<le> diffBits \<or> rc_storedSize c \<le> diffBits then rc_Optimize std_sort c else Inr c)"

subsection \<open>Derived data\<close>

text \<open>
  The inner loop closes the revisions that end at or before the change \<open>i\<close>.  Reading behind the
  offsets and writing behind the sums are undefined.
\<close>

fun close_sums :: "nat \<Rightarrow> index_t list \<Rightarrow> nat \<Rightarrow> byte \<Rightarrow> byte list \<Rightarrow> (index_t list \<times> nat \<times> byte \<times> byte list) option" where
  "close_sums i [] target s sums = None"
| "close_sums i (offset # os) target s sums =
     (if unat offset \<le> i
      then if target < length sums then close_sums i os (target + 1) 0 (sums[target := s]) else None
      else Some (offset # os, target, s, sums))"

fun fold_sums :: "nat \<Rightarrow> byte list \<Rightarrow> index_t list \<Rightarrow> nat \<Rightarrow> byte \<Rightarrow> byte list \<Rightarrow> byte list option" where
  "fold_sums i [] os target s sums = (if target < length sums then Some (sums[target := s]) else None)"
| "fold_sums i (change # changes) os target s sums = do {
     (os, target, s, sums) \<leftarrow> close_sums i os target s sums;
     fold_sums (i + 1) changes os target (s OR change) sums
   }"

definition rc_CalculateSumChanges :: "revision_info \<Rightarrow> container_error + revision_info" where
  "rc_CalculateSumChanges c =
     (let sums = replicate (length (rc_rootPaths c)) 0 in
      if rc_changes c = [] then Inr (c\<lparr>rc_sumChanges := sums\<rparr>)
      else if length (rc_changesOffsets c) \<le> 1 then Inl StdOutOfRange
      else bindE (of_opt (fold_sums 0 (rc_changes c) (tl (rc_changesOffsets c)) 0 0 sums)) (\<lambda>sums.
             Inr (c\<lparr>rc_sumChanges := sums\<rparr>)))"

text \<open>
  The end of \<open>operator>>\<close>, once the vectors are read: the check of their sizes, the size on disk and the
  sums.  \<open>optional\<close> is the vector that was read, if the stream was there.
\<close>

definition ReadOrDefault :: "'a list option \<Rightarrow> nat \<Rightarrow> 'a \<Rightarrow> 'a list" where
  "ReadOrDefault optional n defaultValue = (case optional of Some xs \<Rightarrow> xs | None \<Rightarrow> replicate n defaultValue)"

definition rc_finish_read ::
    "node_kind list option \<Rightarrow> byte list option \<Rightarrow> byte list option \<Rightarrow> revision_info \<Rightarrow> container_error + revision_info" where
  "rc_finish_read types texts props c =
     (let n = length (rc_changedPaths c);
          c = c\<lparr>rc_changedPathTypes := ReadOrDefault types n node_unknown,
                rc_textModifies := ReadOrDefault texts n 0, rc_propsModifies := ReadOrDefault props n 0\<rparr>
      in if ucast (rc_size c) > (of_nat (length (rc_authors c)) :: size_t) \<or> ts_size (rc_comments c) < rc_size c \<or>
            length (rc_timeStamps c) < unat (rc_size c) \<or> length (rc_presenceFlags c) < unat (rc_size c) \<or>
            length (rc_rootPaths c) < unat (rc_size c) \<or> length (rc_changesOffsets c) < unat (rc_size c) \<or>
            length (rc_mergedRevisionsOffsets c) < unat (rc_size c) \<or> length (rc_userRevPropOffsets c) < unat (rc_size c)
         then Inl (CContainerException ''revision container mismatch'')
         else rc_CalculateSumChanges (c\<lparr>rc_storedSize := rc_size c\<rparr>))"


subsection \<open>The rebuilt sums\<close>

lemma fold_sums_close:
  "unat offset \<le> i \<Longrightarrow> target < length sums \<Longrightarrow>
   fold_sums i (x # xs) (offset # os) target s sums = fold_sums i (x # xs) os (target + 1) 0 (sums[target := s])"
  by simp

lemma fold_sums_keep:
  "i < unat offset \<Longrightarrow> fold_sums i (x # xs) (offset # os) target s sums = fold_sums (i + 1) xs (offset # os) target (s OR x) sums"
  by simp

declare fold_sums.simps(2) [simp del]

abbreviation or_all :: "byte \<Rightarrow> byte list \<Rightarrow> byte" where
  "or_all \<equiv> foldl (OR)"

lemma fold_sums_ok:
  "length sums = target + 1 + length Bs \<Longrightarrow> drop (Suc target) sums = replicate (length Bs) 0 \<Longrightarrow>
   i + length (cur @ concat Bs) < 2 ^ 32 \<Longrightarrow>
   fold_sums i (cur @ concat Bs) (map of_nat (starts (i + length cur) Bs)) target s sums =
     Some (take target sums @ or_all s cur # map (or_all 0) Bs)"
proof (induction "length (cur @ concat Bs) + length Bs" arbitrary: cur Bs i target s sums rule: less_induct)
  case less
  show ?case
  proof (cases "cur @ concat Bs = []")
    case True
    then have e: "cur = []" "concat Bs = []" by simp_all
    have "map (or_all 0) Bs = map (\<lambda>_. 0) Bs" using e(2) by (intro map_cong) auto
    then have m: "map (or_all 0) Bs = replicate (length Bs) 0" by (simp add: map_replicate_const)
    have "fold_sums i (cur @ concat Bs) (map of_nat (starts (i + length cur) Bs)) target s sums = Some (sums[target := s])"
      unfolding e using less.prems(1) by simp
    then show ?thesis using e(1) m less.prems(1,2) by (simp add: upd_conv_take_nth_drop)
  next
    case ne: False
    show ?thesis
    proof (cases cur)
      case (Cons x cur')
      obtain rest where st: "starts (i + length cur) Bs = (i + length cur) # rest" by (cases Bs) auto
      have "unat (of_nat (i + length cur) :: index_t) = i + length cur" using less.prems(3)
        by (intro unat_of_nat_small) simp
      then have "fold_sums i (cur @ concat Bs) (map of_nat (starts (i + length cur) Bs)) target s sums =
          fold_sums (i + 1) (cur' @ concat Bs) (map of_nat (starts (i + 1 + length cur') Bs)) target (s OR x) sums"
        using st by (simp add: Cons fold_sums_keep del: of_nat_add of_nat_Suc)
      also have "\<dots> = Some (take target sums @ or_all (s OR x) cur' # map (or_all 0) Bs)"
        using less.prems Cons by (intro less.hyps) auto
      finally show ?thesis by (simp add: Cons)
    next
      case Nil
      then obtain B Bs' where Bs: "Bs = B # Bs'" using ne by (cases Bs) auto
      obtain x xs where c: "concat Bs = x # xs" using ne Nil by (cases "concat Bs") auto
      have u: "unat (of_nat i :: index_t) \<le> i" using less.prems(3) by (simp add: unat_of_nat_small)
      have "fold_sums i (cur @ concat Bs) (map of_nat (starts (i + length cur) Bs)) target s sums =
          fold_sums i (B @ concat Bs') (map of_nat (starts (i + length B) Bs')) (target + 1) 0 (sums[target := s])"
        using fold_sums_close [OF u, of target sums x xs] less.prems(1) c unfolding Bs by (simp add: Nil)
      also have "\<dots> = Some (take (target + 1) (sums[target := s]) @ or_all 0 B # map (or_all 0) Bs')"
      proof (intro less.hyps)
        have "drop (Suc (Suc target)) sums = tl (drop (Suc target) sums)" by (simp add: drop_Suc tl_drop)
        then show "drop (Suc (target + 1)) (sums[target := s]) = replicate (length Bs') 0"
          using less.prems(2) by (simp add: Bs)
      qed (use less.prems in \<open>auto simp: Bs Nil\<close>)
      also have "take (target + 1) (sums[target := s]) = take target sums @ [s]"
        using less.prems(1) by (simp add: take_Suc_conv_app_nth)
      finally show ?thesis by (simp add: Nil Bs)
    qed
  qed
qed


lemma sum_of_bytes: "sum_of chs = or_all 0 (map change_byte chs)"
  by (simp add: sum_of_def foldl_map)

lemma rc_CalculateSumChanges_ok:
  assumes h: "holds_changes c revs" and len: "length (all_changes revs) < 2 ^ 32"
  shows "rc_CalculateSumChanges c = Inr c"
proof -
  have roots: "length (rc_rootPaths c) = length revs" using h by (auto simp: holds_changes_def dest: list_all2_lengthD)
  have sums: "rc_sumChanges c = map (or_all 0) (map (\<lambda>r. map change_byte (rv_changes r)) revs)"
    using h by (simp add: holds_changes_def sum_of_bytes)
  have chs: "rc_changes c = concat (map (\<lambda>r. map change_byte (rv_changes r)) revs)"
    using h by (simp add: holds_changes_def all_changes_def map_concat comp_def)
  show ?thesis
  proof (cases "rc_changes c = []")
    case True
    then have "rc_sumChanges c = map (\<lambda>_. 0) (map (\<lambda>r. map change_byte (rv_changes r)) revs)"
      unfolding sums chs by (intro map_cong) auto
    then have "rc_sumChanges c = replicate (length revs) 0" by (simp add: map_replicate_const)
    then show ?thesis using True roots by (simp add: rc_CalculateSumChanges_def)
  next
    case False
    then obtain r revs' where revs: "revs = r # revs'" using chs by (cases revs) auto
    let ?Bs = "map (\<lambda>r. map change_byte (rv_changes r)) revs'"
    have "starts (length (rv_changes r)) (map rv_changes revs') = starts (length (map change_byte (rv_changes r))) ?Bs"
    proof -
      have "starts n (map rv_changes rs) = starts n (map (\<lambda>r. map change_byte (rv_changes r)) rs)" for n rs
        by (induction rs arbitrary: n) auto
      then show ?thesis by simp
    qed
    then have offs: "tl (rc_changesOffsets c) = map of_nat (starts (0 + length (map change_byte (rv_changes r))) ?Bs)"
        "\<not> length (rc_changesOffsets c) \<le> 1"
      using h by (simp_all add: holds_changes_def offsets_of_def revs)
    have "0 + length (map change_byte (rv_changes r) @ concat ?Bs) < 2 ^ 32" using len h chs
      by (simp add: revs all_changes_def length_concat comp_def)
    then have "fold_sums 0 (map change_byte (rv_changes r) @ concat ?Bs) (map of_nat (starts (0 + length (map change_byte (rv_changes r))) ?Bs)) 0 0
        (replicate (length (rc_rootPaths c)) 0) = Some (take 0 (replicate (length (rc_rootPaths c)) 0) @ or_all 0 (map change_byte (rv_changes r)) # map (or_all 0) ?Bs)"
      by (intro fold_sums_ok) (simp_all add: roots revs)
    then have "fold_sums 0 (rc_changes c) (tl (rc_changesOffsets c)) 0 0 (replicate (length (rc_rootPaths c)) 0) = Some (rc_sumChanges c)"
      unfolding offs(1) by (simp add: chs sums revs)
    then show ?thesis using False offs(2) by (simp add: rc_CalculateSumChanges_def)
  qed
qed

subsection \<open>Permuted changes\<close>

lemma bit_or_all: "bit (or_all s xs) n \<longleftrightarrow> bit s n \<or> (\<exists>x \<in> set xs. bit x n)"
  by (induction xs arbitrary: s) (auto simp: bit_or_iff)

lemma sum_of_perm: "set chs = set chs' \<Longrightarrow> sum_of chs = sum_of chs'"
  unfolding sum_of_bytes by (rule bit_eqI) (simp add: bit_or_all)

lemma prefix_fold_lcp: "prefix z (foldl longest_common_prefix p ps) \<longleftrightarrow> (\<forall>q \<in> set (p # ps). prefix z q)"
proof (induction ps arbitrary: p)
  case (Cons q ps)
  have "prefix z (longest_common_prefix p q) \<longleftrightarrow> prefix z p \<and> prefix z q"
    using longest_common_prefix_prefix1 longest_common_prefix_prefix2 longest_common_prefix_max_prefix
    by (metis prefix_order.order_trans)
  then show ?case by (simp add: Cons.IH)
qed simp

lemma common_path_perm: "set ps = set ps' \<Longrightarrow> common_path ps = common_path ps'"
proof (cases ps; cases ps')
  fix p qs p' qs' assume s: "set ps = set ps'" "ps = p # qs" "ps' = p' # qs'"
  then have "prefix z (common_path ps) \<longleftrightarrow> prefix z (common_path ps')" for z by (simp add: prefix_fold_lcp del: list.set) 
  then show ?thesis by (meson prefix_order.antisym prefix_order.refl)
qed auto

lemma root_of_perm: "root_of d i chs \<Longrightarrow> mset chs = mset chs' \<Longrightarrow> root_of d i chs'"
  using common_path_perm [of "map ch_path chs" "map ch_path chs'"] mset_eq_setD [of chs chs'] by (auto simp: root_of_def split: if_splits)

lemma copies_perm: "mset chs = mset chs' \<Longrightarrow> length (copies chs) = length (copies chs')"
proof -
  have "length (copies chs) = (\<Sum>ch \<in># mset chs. case ch_from ch of None \<Rightarrow> 0 | Some _ \<Rightarrow> 1)" for chs
    by (induction chs) (auto simp: copies_def split: option.splits)
  then show "mset chs = mset chs' \<Longrightarrow> ?thesis" by simp
qed


definition splice_at :: "nat \<Rightarrow> 'a list \<Rightarrow> 'a list \<Rightarrow> 'a list" where
  "splice_at i ys xs = take i xs @ ys @ drop (i + length ys) xs"

lemma splice_at_Nil [simp]: "splice_at i [] xs = xs"
  by (simp add: splice_at_def)

lemma splice_at_Cons: "i < length xs \<Longrightarrow> splice_at (Suc i) ys (xs[i := y]) = splice_at i (y # ys) xs"
  by (simp add: splice_at_def take_Suc_conv_app_nth drop_update_cancel)

lemma splice_at_append: "length zs = length ys \<Longrightarrow> splice_at (length pre) ys (pre @ zs @ post) = pre @ ys @ post"
  by (simp add: splice_at_def)

lemma splice_at_map: "length zs = length ys \<Longrightarrow> splice_at (length pre) (map f ys) (map f (pre @ zs @ post)) = map f (pre @ ys @ post)"
  using splice_at_append [of "map f zs" "map f ys" "map f pre" "map f post"] by simp

lemma splice_at_all2:
  assumes "list_all2 P V (A @ B @ C)" "list_all2 P W B'" "length B' = length B"
  shows "list_all2 P (splice_at (length A) W V) (A @ B' @ C)"
proof -
  obtain V1 V2 where V: "V = V1 @ V2" "list_all2 P V1 A" "list_all2 P V2 (B @ C)"
    using assms(1) by (auto simp: list_all2_append2)
  obtain V3 V4 where V2: "V2 = V3 @ V4" "list_all2 P V3 B" "list_all2 P V4 C"
    using V(3) by (auto simp: list_all2_append2)
  have "length V1 = length A" "length V3 = length W" using V V2 assms(2,3) by (auto dest!: list_all2_lengthD)
  then show ?thesis using splice_at_append [of V3 W V1 V4] V V2 assms(2) by (simp add: list_all2_appendI)
qed

definition is_copy :: "change_info \<Rightarrow> bool" where
  "is_copy x \<longleftrightarrow> pi_change x AND HAS_COPY_FROM \<noteq> 0"

lemma write_changes_ok:
  "i + length xs \<le> length (rc_changedPaths c) \<Longrightarrow> i + length xs \<le> length (rc_changedPathTypes c) \<Longrightarrow>
   i + length xs \<le> length (rc_changes c) \<Longrightarrow> i + length xs \<le> length (rc_textModifies c) \<Longrightarrow>
   i + length xs \<le> length (rc_propsModifies c) \<Longrightarrow> k + length (filter is_copy xs) \<le> length (rc_copyFromPaths c) \<Longrightarrow>
   k + length (filter is_copy xs) \<le> length (rc_copyFromRevisions c) \<Longrightarrow> i + length xs < 2 ^ 32 \<Longrightarrow> k + length xs < 2 ^ 32 \<Longrightarrow>
   write_changes xs (of_nat i) (of_nat k) c = Some (c\<lparr>
     rc_changedPaths := splice_at i (map pi_changedPath xs) (rc_changedPaths c),
     rc_changedPathTypes := splice_at i (map pi_changedPathType xs) (rc_changedPathTypes c),
     rc_changes := splice_at i (map pi_change xs) (rc_changes c),
     rc_textModifies := splice_at i (map pi_textModifies xs) (rc_textModifies c),
     rc_propsModifies := splice_at i (map pi_propsModifies xs) (rc_propsModifies c),
     rc_copyFromPaths := splice_at k (map pi_copyFromPath (filter is_copy xs)) (rc_copyFromPaths c),
     rc_copyFromRevisions := splice_at k (map pi_copyFromRevision (filter is_copy xs)) (rc_copyFromRevisions c)\<rparr>)"
proof (induction xs arbitrary: i k c)
  case (Cons x xs)
  have u: "unat (of_nat i :: index_t) = i" "unat (of_nat k :: index_t) = k" "(of_nat i + 1 :: index_t) = of_nat (Suc i)"
      "(of_nat k + 1 :: index_t) = of_nat (Suc k)"
    using Cons.prems(8,9) by (simp_all add: unat_of_nat_small)
  let ?c = "c\<lparr>rc_changedPaths := (rc_changedPaths c)[i := pi_changedPath x],
      rc_changedPathTypes := (rc_changedPathTypes c)[i := pi_changedPathType x], rc_changes := (rc_changes c)[i := pi_change x],
      rc_textModifies := (rc_textModifies c)[i := pi_textModifies x], rc_propsModifies := (rc_propsModifies c)[i := pi_propsModifies x]\<rparr>"
  show ?case
  proof (cases "is_copy x")
    case True
    let ?d = "?c\<lparr>rc_copyFromPaths := (rc_copyFromPaths c)[k := pi_copyFromPath x],
      rc_copyFromRevisions := (rc_copyFromRevisions c)[k := pi_copyFromRevision x]\<rparr>"
    have "write_changes (x # xs) (of_nat i) (of_nat k) c = write_changes xs (of_nat (Suc i)) (of_nat (Suc k)) ?d"
      using Cons.prems(1-7) True unfolding write_changes.simps vset_def u by (simp add: is_copy_def Let_def u(1,2))
    then show ?thesis using Cons.IH [of "Suc i" ?d "Suc k"] Cons.prems True by (simp add: splice_at_Cons)
  next
    case False
    have "write_changes (x # xs) (of_nat i) (of_nat k) c = write_changes xs (of_nat (Suc i)) (of_nat k) ?c"
      using Cons.prems(1-7) False unfolding write_changes.simps vset_def u by (simp add: is_copy_def Let_def u(1,2))
    then show ?thesis using Cons.IH [of "Suc i" ?c k] Cons.prems False by (simp add: splice_at_Cons)
  qed
qed simp


text \<open>The state differs at most in the vectors of changes.\<close>

definition rewritten :: "revision_info \<Rightarrow> revision_info \<Rightarrow> bool" where
  "rewritten c c' \<longleftrightarrow> (\<exists>ps ts xs us vs fs rs. c' = c\<lparr>rc_changedPaths := ps, rc_changedPathTypes := ts, rc_changes := xs,
     rc_textModifies := us, rc_propsModifies := vs, rc_copyFromPaths := fs, rc_copyFromRevisions := rs\<rparr>)"

lemma rewritten_refl: "rewritten c c"
  unfolding rewritten_def
  by (intro exI [of _ "rc_changedPaths c"] exI [of _ "rc_changedPathTypes c"] exI [of _ "rc_changes c"]
      exI [of _ "rc_textModifies c"] exI [of _ "rc_propsModifies c"] exI [of _ "rc_copyFromPaths c"] exI [of _ "rc_copyFromRevisions c"]) simp

lemma rewritten_trans: "rewritten c c' \<Longrightarrow> rewritten c' c'' \<Longrightarrow> rewritten c c''"
  unfolding rewritten_def by force

lemma rewritten_keeps:
  assumes "rewritten c c'"
  shows "rc_paths c' = rc_paths c" "rc_size c' = rc_size c" "holds_std c' revs \<longleftrightarrow> holds_std c revs"
    "holds_merges c' revs \<longleftrightarrow> holds_merges c revs" "holds_props c' revs \<longleftrightarrow> holds_props c revs"
    "rc_changesOffsets c' = rc_changesOffsets c" "rc_copyFromOffsets c' = rc_copyFromOffsets c"
  using assms by (auto simp: rewritten_def holds_std_def holds_merges_def holds_props_def rc_size_def)

lemma shows_columns:
  assumes "list_all2 (shows_change d) xs chs" "\<forall>ch \<in> set chs. ch_action ch AND ANY_ACTION = ch_action ch"
  shows "map pi_changedPathType xs = map ch_type chs" "map pi_change xs = map change_byte chs"
    "map pi_textModifies xs = map ch_text chs" "map pi_propsModifies xs = map ch_props chs"
    "list_all2 (stands d) (map pi_changedPath xs) (map ch_path chs)"
    "list_all2 (stands d) (map pi_copyFromPath (filter is_copy xs)) (map fst (copies chs))"
    "map pi_copyFromRevision (filter is_copy xs) = map snd (copies chs)"
proof -
  have "map pi_changedPathType xs = map ch_type chs \<and> map pi_change xs = map change_byte chs \<and>
    map pi_textModifies xs = map ch_text chs \<and> map pi_propsModifies xs = map ch_props chs \<and>
    list_all2 (stands d) (map pi_changedPath xs) (map ch_path chs) \<and>
    list_all2 (stands d) (map pi_copyFromPath (filter is_copy xs)) (map fst (copies chs)) \<and>
    map pi_copyFromRevision (filter is_copy xs) = map snd (copies chs)"
    using assms
  proof (induction rule: list_all2_induct)
    case (Cons x xs ch chs)
    have "is_copy x \<longleftrightarrow> ch_from ch \<noteq> None" using Cons.hyps(1) Cons.prems change_byte_bits(1) [of ch]
      by (simp add: is_copy_def shows_change_def)
    then show ?case using Cons by (cases "ch_from ch") (auto simp: shows_change_def copies_def)
  qed simp
  then show "map pi_changedPathType xs = map ch_type chs" "map pi_change xs = map change_byte chs"
    "map pi_textModifies xs = map ch_text chs" "map pi_propsModifies xs = map ch_props chs"
    "list_all2 (stands d) (map pi_changedPath xs) (map ch_path chs)"
    "list_all2 (stands d) (map pi_copyFromPath (filter is_copy xs)) (map fst (copies chs))"
    "map pi_copyFromRevision (filter is_copy xs) = map snd (copies chs)" by simp_all
qed

lemma all_changes_update:
  assumes "i < length revs"
  shows "all_changes (revs[i := r]) = all_changes (take i revs) @ rv_changes r @ all_changes (drop (Suc i) revs)"
  using assms by (simp add: all_changes_def upd_conv_take_nth_drop)

lemma all_changes_split:
  assumes "i < length revs"
  shows "all_changes revs = all_changes (take i revs) @ rv_changes (revs ! i) @ all_changes (drop (Suc i) revs)"
  using all_changes_update [OF assms, of "revs ! i"] by simp

lemma offsets_of_same: "map length L = map length L' \<Longrightarrow> offsets_of L = offsets_of L'"
proof -
  have "starts n L = starts n L'" if "map length L = map length L'" for n
    using that by (induction L L' arbitrary: n rule: list_induct2') auto
  then show "map length L = map length L' \<Longrightarrow> ?thesis" by (simp add: offsets_of_def)
qed

definition path_range :: "revision list \<Rightarrow> nat \<Rightarrow> revision_info \<Rightarrow> index_t list" where
  "path_range revs i c = take (length (rv_changes (revs ! i))) (drop (length (all_changes (take i revs))) (rc_changedPaths c))"

lemma sort_changes_ok:
  assumes h: "holds_changes c revs" and len: "length (all_changes revs) < 2 ^ 32" "length revs + 1 < 2 ^ 32" and i: "i < length revs"
    and srt: "\<And>xs. mset (std_sort xs) = mset xs" "\<And>xs. sorted_wrt (\<lambda>a b. \<not> pi_less b a) (std_sort xs)"
  shows "\<exists>c' ys zs. sort_changes std_sort (of_nat i) c = Some c' \<and> rewritten c c' \<and> mset ys = mset (rv_changes (revs ! i)) \<and>
    holds_changes c' (revs[i := (revs ! i)\<lparr>rv_changes := ys\<rparr>]) \<and> sorted zs \<and> length zs = length ys \<and>
    rc_changedPaths c' = splice_at (length (all_changes (take i revs))) zs (rc_changedPaths c)"
proof -
  let ?pre = "all_changes (take i revs)" and ?post = "all_changes (drop (Suc i) revs)" and ?chs = "rv_changes (revs ! i)"
  note all = all_changes_split [OF i]
  obtain xs where xs: "revision_changes c (of_nat i) = Some xs" "list_all2 (shows_change (rc_paths c)) xs ?chs"
    using revision_changes_ok [OF h len i] by blast
  obtain ys where ys: "list_all2 (shows_change (rc_paths c)) (std_sort xs) ys" "mset ys = mset ?chs"
    using list_all2_reorder_left_invariance [OF xs(2) srt(1)] by blast
  let ?xs = "std_sort xs" and ?r = "(revs ! i)\<lparr>rv_changes := ys\<rparr>"
  have len_ys: "length ?xs = length ys" "length ys = length ?chs" using list_all2_lengthD [OF ys(1)] mset_eq_length [OF ys(2)] by simp_all
  have sub: "set ys = set ?chs" by (rule mset_eq_setD [OF ys(2)])
  have act: "\<forall>ch \<in> set (all_changes revs). ch_action ch AND ANY_ACTION = ch_action ch" using h by (simp add: holds_changes_def)
  have act_ys: "\<forall>ch \<in> set ys. ch_action ch AND ANY_ACTION = ch_action ch" using act sub unfolding all by simp
  note col = shows_columns [OF ys(1) act_ys]
  have c: "concat (map (\<lambda>r. copies (rv_changes r)) rs) = copies (all_changes rs)" for rs
    by (induction rs) (simp_all add: all_changes_def copies_def)
  have n: "i < 2 ^ 32" using i len(2) by simp
  have offs: "vat (rc_changesOffsets c) (of_nat i) = Some (of_nat (length ?pre))"
      "vat (rc_copyFromOffsets c) (of_nat i) = Some (of_nat (length (copies ?pre)))"
    using h i n c [of "take i revs"] by (simp_all add: holds_changes_def vat_offsets take_map all_changes_def)
  have cl: "length (copies ys) = length (copies ?chs)" by (rule copies_perm [OF ys(2)])
  have fc: "length (filter is_copy ?xs) = length (copies ys)" using arg_cong [OF col(7), of length] by simp
  have vl: "length (rc_changedPaths c) = length (all_changes revs)" "length (rc_changedPathTypes c) = length (all_changes revs)"
    "length (rc_changes c) = length (all_changes revs)" "length (rc_textModifies c) = length (all_changes revs)"
    "length (rc_propsModifies c) = length (all_changes revs)" "length (rc_copyFromPaths c) = length (copies (all_changes revs))"
    "length (rc_copyFromRevisions c) = length (copies (all_changes revs))"
    using h by (auto simp: holds_changes_def dest: list_all2_lengthD)
  have "length (copies ?pre) + length ?xs < 2 ^ 32" using length_copies [of ?pre] len(1) len_ys unfolding all by simp
  then have W: "write_changes ?xs (of_nat (length ?pre)) (of_nat (length (copies ?pre))) c = Some (c\<lparr>
     rc_changedPaths := splice_at (length ?pre) (map pi_changedPath ?xs) (rc_changedPaths c),
     rc_changedPathTypes := splice_at (length ?pre) (map pi_changedPathType ?xs) (rc_changedPathTypes c),
     rc_changes := splice_at (length ?pre) (map pi_change ?xs) (rc_changes c),
     rc_textModifies := splice_at (length ?pre) (map pi_textModifies ?xs) (rc_textModifies c),
     rc_propsModifies := splice_at (length ?pre) (map pi_propsModifies ?xs) (rc_propsModifies c),
     rc_copyFromPaths := splice_at (length (copies ?pre)) (map pi_copyFromPath (filter is_copy ?xs)) (rc_copyFromPaths c),
     rc_copyFromRevisions := splice_at (length (copies ?pre)) (map pi_copyFromRevision (filter is_copy ?xs)) (rc_copyFromRevisions c)\<rparr>)"
    (is "_ = Some ?c") using len(1) vl len_ys cl fc unfolding all by (intro write_changes_ok) simp_all
  note sm = splice_at_map [OF len_ys(2) [symmetric], of ?pre _ ?post, folded all]
  have new: "all_changes (revs[i := ?r]) = ?pre @ ys @ ?post" using all_changes_update [OF i, of ?r] by simp
  have stands1: "list_all2 (stands (rc_paths c)) (splice_at (length ?pre) (map pi_changedPath ?xs) (rc_changedPaths c)) (map ch_path (?pre @ ys @ ?post))"
    using splice_at_all2 [of "stands (rc_paths c)" "rc_changedPaths c" "map ch_path ?pre" "map ch_path ?chs" "map ch_path ?post", OF _ col(5)] h len_ys(2)
    unfolding holds_changes_def all map_append by simp
  have stands2: "list_all2 (stands (rc_paths c)) (splice_at (length (copies ?pre)) (map pi_copyFromPath (filter is_copy ?xs)) (rc_copyFromPaths c))
      (map fst (copies (?pre @ ys @ ?post)))"
    using splice_at_all2 [of "stands (rc_paths c)" "rc_copyFromPaths c" "map fst (copies ?pre)" "map fst (copies ?chs)" "map fst (copies ?post)", OF _ col(6)] h cl
    unfolding holds_changes_def all map_append copies_append by simp
  have revisions: "splice_at (length (copies ?pre)) (map snd (copies ys)) (map snd (copies (all_changes revs))) = map snd (copies (?pre @ ys @ ?post))"
    unfolding all map_append copies_append
    using splice_at_append [of "map snd (copies ?chs)" "map snd (copies ys)" "map snd (copies ?pre)" "map snd (copies ?post)"] cl by simp
  have same: "map f (revs[i := ?r]) = map f revs" if "f ?r = f (revs ! i)" for f :: "revision \<Rightarrow> 'x"
    using that i by (simp add: map_update list_update_same_conv)
  have "list_all2 (root_of (rc_paths c)) (rc_rootPaths c) (map rv_changes (revs[i := ?r]))"
  proof -
    have r: "list_all2 (root_of (rc_paths c)) (rc_rootPaths c) (map rv_changes revs)" using h by (simp add: holds_changes_def)
    then have "root_of (rc_paths c) (rc_rootPaths c ! i) ?chs" using list_all2_nthD2 [OF r, of i] i by simp
    then have "root_of (rc_paths c) (rc_rootPaths c ! i) ys" by (rule root_of_perm) (simp add: ys(2))
    from list_all2_update_cong [OF r this, of i] show ?thesis by (simp add: map_update)
  qed
  moreover have "offsets_of (map rv_changes (revs[i := ?r])) = offsets_of (map rv_changes revs)"
    unfolding map_update by (rule offsets_of_same) (use i len_ys(2) in \<open>simp add: map_update list_update_same_conv\<close>)
  moreover have "offsets_of (map (\<lambda>r. copies (rv_changes r)) (revs[i := ?r])) = offsets_of (map (\<lambda>r. copies (rv_changes r)) revs)"
    unfolding map_update by (rule offsets_of_same) (use i cl in \<open>simp add: map_update list_update_same_conv\<close>)
  moreover have "map (\<lambda>r. sum_of (rv_changes r)) (revs[i := ?r]) = map (\<lambda>r. sum_of (rv_changes r)) revs"
    by (rule same) (simp add: sum_of_perm [OF sub])
  moreover have "\<forall>ch \<in> set (?pre @ ys @ ?post). ch_action ch AND ANY_ACTION = ch_action ch"
    using act act_ys unfolding all set_append by blast
  ultimately have holds: "holds_changes ?c (revs[i := ?r])"
    using h stands1 stands2 sm [of change_byte] sm [of ch_type] sm [of ch_text] sm [of ch_props] revisions col unfolding holds_changes_def new by simp
  have "sorted_wrt (\<lambda>a b. \<not> pi_less b a) ?xs" by (rule srt(2))
  then have "sorted (map pi_changedPath ?xs)"
    by (auto simp: sorted_map pi_less_def linorder_not_less elim!: sorted_wrt_mono_rel [rotated])
  moreover have "sort_changes std_sort (of_nat i) c = Some ?c" by (simp add: sort_changes_def xs(1) offs W)
  moreover have "rewritten c ?c" unfolding rewritten_def by blast
  ultimately show ?thesis using holds ys(2) len_ys(1) by (intro exI [of _ ?c] exI [of _ ys] exI [of _ "map pi_changedPath ?xs"]) simp
qed


text \<open>The same revisions, each with its changes in some other order.\<close>

definition same_changes :: "revision \<Rightarrow> revision \<Rightarrow> bool" where
  "same_changes r r' \<longleftrightarrow> (\<exists>chs. r' = r\<lparr>rv_changes := chs\<rparr> \<and> mset chs = mset (rv_changes r))"

definition reordered :: "revision list \<Rightarrow> revision list \<Rightarrow> bool" where
  "reordered revs revs' \<longleftrightarrow> list_all2 same_changes revs revs'"

lemma same_changes_refl [simp]: "same_changes r r"
  unfolding same_changes_def by (intro exI [of _ "rv_changes r"]) simp

lemma same_changes_trans: "same_changes r r' \<Longrightarrow> same_changes r' r'' \<Longrightarrow> same_changes r r''"
  by (auto simp: same_changes_def)

lemma reordered_refl: "reordered revs revs"
  by (simp add: reordered_def list_all2_refl)

lemma reordered_trans: "reordered revs revs' \<Longrightarrow> reordered revs' revs'' \<Longrightarrow> reordered revs revs''"
  unfolding reordered_def using same_changes_trans by (rule list_all2_trans)

lemma reordered_update:
  "i < length revs \<Longrightarrow> mset ys = mset (rv_changes (revs ! i)) \<Longrightarrow> reordered revs (revs[i := (revs ! i)\<lparr>rv_changes := ys\<rparr>])"
  unfolding reordered_def
  using list_all2_update_cong [OF list_all2_refl [of same_changes revs], of "revs ! i" "(revs ! i)\<lparr>rv_changes := ys\<rparr>" i]
  by (auto simp: same_changes_def)

lemma reordered_keeps:
  assumes "reordered revs revs'"
  shows "map rv_author revs' = map rv_author revs" "map rv_comment revs' = map rv_comment revs" "map rv_time revs' = map rv_time revs"
    "map rv_flags revs' = map rv_flags revs" "map rv_merges revs' = map rv_merges revs" "map rv_props revs' = map rv_props revs"
    "length revs' = length revs" "length (all_changes revs') = length (all_changes revs)"
proof -
  have "map rv_author revs' = map rv_author revs \<and> map rv_comment revs' = map rv_comment revs \<and> map rv_time revs' = map rv_time revs \<and>
    map rv_flags revs' = map rv_flags revs \<and> map rv_merges revs' = map rv_merges revs \<and> map rv_props revs' = map rv_props revs \<and>
    length revs' = length revs \<and> length (all_changes revs') = length (all_changes revs)"
    using assms unfolding reordered_def
    by (induction rule: list_all2_induct) (auto simp: same_changes_def all_changes_def dest: mset_eq_length)
  then show "map rv_author revs' = map rv_author revs" "map rv_comment revs' = map rv_comment revs" "map rv_time revs' = map rv_time revs"
    "map rv_flags revs' = map rv_flags revs" "map rv_merges revs' = map rv_merges revs" "map rv_props revs' = map rv_props revs"
    "length revs' = length revs" "length (all_changes revs') = length (all_changes revs)" by simp_all
qed

lemma holds_reordered:
  assumes "reordered revs revs'"
  shows "holds_std c revs' \<longleftrightarrow> holds_std c revs" "holds_merges c revs' \<longleftrightarrow> holds_merges c revs" "holds_props c revs' \<longleftrightarrow> holds_props c revs"
  using reordered_keeps [OF assms] by (simp_all add: holds_std_def holds_merges_def all_merges_def holds_props_def all_props_def)

lemma range_before: "off + n \<le> i \<Longrightarrow> i \<le> length xs \<Longrightarrow> take n (drop off (splice_at i zs xs)) = take n (drop off xs)"
proof -
  assume b: "off + n \<le> i" "i \<le> length xs"
  then have "take n (drop off (splice_at i zs xs)) = take n (drop off (take i xs))" by (simp add: splice_at_def)
  also have "\<dots> = take n (drop off xs)" using b by (simp add: drop_take min_def)
  finally show ?thesis .
qed

lemma range_at: "i + length zs \<le> length xs \<Longrightarrow> take (length zs) (drop i (splice_at i zs xs)) = zs"
  by (simp add: splice_at_def)

lemma sort_all_changes_ok:
  assumes srt: "\<And>xs. mset (std_sort xs) = mset xs" "\<And>xs. sorted_wrt (\<lambda>a b. \<not> pi_less b a) (std_sort xs)"
  shows "holds_changes c revs \<Longrightarrow> length (all_changes revs) < 2 ^ 32 \<Longrightarrow> length revs + 1 < 2 ^ 32 \<Longrightarrow> k \<le> length revs \<Longrightarrow>
    \<forall>j < k. sorted (path_range revs j c) \<Longrightarrow>
    \<exists>c' revs'. sort_all_changes std_sort [k..<length revs] c = Some c' \<and> rewritten c c' \<and> holds_changes c' revs' \<and>
      reordered revs revs' \<and> (\<forall>j < length revs. sorted (path_range revs' j c'))"
proof (induction "length revs - k" arbitrary: k c revs)
  case 0
  then show ?case by (auto intro!: exI [of _ c] exI [of _ revs] rewritten_refl reordered_refl)
next
  case (Suc m)
  then have k: "k < length revs" by simp
  obtain c1 ys zs where c1: "sort_changes std_sort (of_nat k) c = Some c1" "rewritten c c1" "mset ys = mset (rv_changes (revs ! k))"
      "holds_changes c1 (revs[k := (revs ! k)\<lparr>rv_changes := ys\<rparr>])" "sorted zs" "length zs = length ys"
      "rc_changedPaths c1 = splice_at (length (all_changes (take k revs))) zs (rc_changedPaths c)"
    using sort_changes_ok [OF Suc.prems(1-3) k srt] by blast
  let ?revs = "revs[k := (revs ! k)\<lparr>rv_changes := ys\<rparr>]"
  have ro: "reordered revs ?revs" by (rule reordered_update [OF k c1(3)])
  note keep = reordered_keeps [OF ro]
  have len_ys: "length ys = length (rv_changes (revs ! k))" using mset_eq_length [OF c1(3)] .
  have vl: "length (rc_changedPaths c) = length (all_changes revs)" using Suc.prems(1) by (auto simp: holds_changes_def dest: list_all2_lengthD)
  have "sorted (path_range ?revs j c1)" if j: "j < Suc k" for j
  proof (cases "j = k")
    case True
    have "path_range ?revs k c1 = zs" using range_at [of "length (all_changes (take k revs))" zs "rc_changedPaths c"]
        vl all_changes_split [OF k] len_ys c1(6) k by (simp add: path_range_def c1(7))
    then show ?thesis using True c1(5) by simp
  next
    case False
    then have jk: "j < k" using j by simp
    have "all_changes (take k revs) = all_changes (take j revs) @ rv_changes (revs ! j) @ all_changes (drop (Suc j) (take k revs))"
      using all_changes_split [of j "take k revs"] jk k by (simp add: min_def)
    then have "path_range ?revs j c1 = path_range revs j c"
      using range_before [of "length (all_changes (take j revs))" "length (rv_changes (revs ! j))" "length (all_changes (take k revs))" "rc_changedPaths c" zs]
        jk k vl all_changes_split [OF k] by (simp add: path_range_def c1(7))
    then show ?thesis using Suc.prems(5) jk by simp
  qed
  then have pr: "\<forall>j < Suc k. sorted (path_range ?revs j c1)" by blast
  have pm: "m = length ?revs - Suc k" "length (all_changes ?revs) < 2 ^ 32" "length ?revs + 1 < 2 ^ 32" "Suc k \<le> length ?revs"
    using Suc.hyps(2) Suc.prems(2,3) keep(8) k by simp_all
  obtain c' revs' where c': "sort_all_changes std_sort [Suc k..<length ?revs] c1 = Some c'" "rewritten c1 c'" "holds_changes c' revs'"
      "reordered ?revs revs'" "\<forall>j < length ?revs. sorted (path_range revs' j c')"
    using Suc.hyps(1) [OF pm(1) c1(4) pm(2-4) pr] by blast
  have "sort_all_changes std_sort [k..<length revs] c = Some c'" using c1(1) c'(1) k by (simp add: upt_conv_Cons)
  then show ?case using rewritten_trans [OF c1(2) c'(2)] c'(3) reordered_trans [OF ro c'(4)] c'(5) by auto
qed

lemma rc_OptimizeChangeOrder_ok:
  assumes srt: "\<And>xs. mset (std_sort xs) = mset xs" "\<And>xs. sorted_wrt (\<lambda>a b. \<not> pi_less b a) (std_sort xs)"
    and h: "rc_holds c revs" and small: "rc_small revs"
  shows "\<exists>c' revs'. rc_OptimizeChangeOrder std_sort c = Inr c' \<and> rewritten c c' \<and> rc_holds c' revs' \<and> reordered revs revs' \<and>
    (\<forall>j < length revs. sorted (path_range revs' j c'))"
proof -
  have n: "length (all_changes revs) < 2 ^ 32" "length revs + 1 < 2 ^ 32" using small by (simp_all add: rc_small_def)
  have hc: "holds_changes c revs" using h by (simp add: rc_holds_def)
  obtain c' revs' where c': "sort_all_changes std_sort [0..<length revs] c = Some c'" "rewritten c c'" "holds_changes c' revs'"
      "reordered revs revs'" "\<forall>j < length revs. sorted (path_range revs' j c')"
    using sort_all_changes_ok [where std_sort = std_sort, OF srt hc n, of 0] by auto
  have "unat (rc_size c) = length revs" using rc_holds_lengths(1) [OF h] n(2) by (simp add: rc_size_def unat_of_nat_small)
  moreover have "rc_holds c' revs'" using c'(3) h rewritten_keeps [OF c'(2)] holds_reordered [OF c'(4)] by (simp add: rc_holds_def)
  ultimately show ?thesis using c' by (auto simp: rc_OptimizeChangeOrder_def)
qed


subsection \<open>Sorted authors\<close>

lemma mset_sort_by [simp]: "mset (sort_by lt xs) = mset xs"
proof -
  have i: "mset (insert_by lt x ys) = add_mset x (mset ys)" for x ys by (induction ys) auto
  then show ?thesis by (induction xs) (simp_all add: sort_by_def)
qed

lemma count_authors_ok:
  "\<forall>a \<in> set as. unat a < length fs \<Longrightarrow> \<exists>fs'. count_authors as fs = Some fs' \<and> length fs' = length fs"
proof (induction as arbitrary: fs)
  case (Cons a as)
  then show ?case using Cons.IH [of "fs[unat a := fs ! unat a + 1]"] by simp
qed simp

lemma invert_order_ok:
  assumes "distinct is" "\<forall>i \<in> set is. unat i < length is"
  shows "p < length is \<Longrightarrow> invert_order is ! unat (is ! p) = of_nat p"
proof -
  let ?f = "\<lambda>m. foldl (\<lambda>rs i. rs[unat (is ! i) := of_nat i]) is [0..<m]"
  have "length (?f m) = length is \<and> (\<forall>p < m. ?f m ! unat (is ! p) = of_nat p)" if "m \<le> length is" for m
    using that
  proof (induction m)
    case (Suc m)
    have l: "length (?f m) = length is" and IH: "\<forall>p < m. ?f m ! unat (is ! p) = of_nat p" using Suc by simp_all
    have r: "unat (is ! m) < length (?f m)" using assms(2) Suc.prems unfolding l by simp
    have "?f (Suc m) ! unat (is ! p) = of_nat p" if p: "p < Suc m" for p
    proof (cases "p = m")
      case False
      then have "is ! p \<noteq> is ! m" using nth_eq_iff_index_eq [OF assms(1), of p m] p Suc.prems by simp
      then have "unat (is ! m) \<noteq> unat (is ! p)" by (metis unsigned_word_eqI)
      then show ?thesis using IH p False by simp
    qed (use r in simp)
    then show ?case using l by simp
  qed simp
  from this [of "length is"] show "p < length is \<Longrightarrow> invert_order is ! unat (is ! p) = of_nat p"
    by (simp add: invert_order_def)
qed

lemma rc_OptimizeAuthors_ok:
  assumes h: "rc_holds c revs" and room: "rc_room k c"
  shows "\<exists>c' pool as. rc_OptimizeAuthors c = Inr c' \<and> c' = c\<lparr>rc_authorPool := pool, rc_authors := as\<rparr> \<and> rc_holds c' revs \<and>
    mset (sd_strings pool) = mset (sd_strings (rc_authorPool c))"
proof -
  let ?w = "rc_authorPool c"
  let ?n = "length (sd_strings ?w)"
  have inv: "sd_inv ?w" and names: "list_all2 (names ?w) (rc_authors c) (map rv_author revs)"
    using h by (simp_all add: rc_holds_def holds_std_def)
  have n: "?n \<le> 119304646" "load_ok (sd_hashIndex ?w)" using room by (simp_all add: rc_room_def words_room_def)
  have n0: "0 < ?n" using sd_inv_rep(3) [OF inv] by simp
  have sz: "unat (sd_size ?w) = ?n" using n(1) by (simp add: sd_size_eq [OF inv] unat_of_nat_small)
  have valid: "\<forall>a \<in> set (rc_authors c). unat a < ?n"
    using names by (auto simp: names_def list_all2_conv_all_nth in_set_conv_nth)
  have lr: "length (replicate ?n (0 :: index_t)) = ?n" by simp
  have "\<exists>fs. count_authors (rc_authors c) (replicate ?n 0) = Some fs \<and> length fs = ?n"
    using count_authors_ok [of "rc_authors c" "replicate ?n 0"] valid n(1) by auto
  then obtain fs where fs: "count_authors (rc_authors c) (replicate ?n 0) = Some fs" by blast
  define f where "f i = \<lparr>pa_frequency = fs ! i, pa_author = of_nat i\<rparr>" for i
  define counter where "counter = f 0 # sort_by pa_less (map f [1..<?n])"
  define ord where "ord = map pa_author counter"
  have upt: "map f [0..<?n] = f 0 # map f [1..<?n]" using n0 by (simp add: upt_conv_Cons)
  have "mset counter = mset (map f [0..<?n])" by (simp add: counter_def upt)
  then have "mset ord = mset (map pa_author (map f [0..<?n]))" unfolding ord_def by (metis mset_map)
  then have ms: "mset ord = mset (map of_nat [0..<?n])" by (simp add: f_def comp_def)
  have len: "length ord = ?n" using mset_eq_length [OF ms] by simp
  have dist: "distinct ord" using mset_eq_imp_distinct_iff [OF ms] n(1) by (auto simp: distinct_map inj_on_def intro: of_nat_word_inj [where 'i = 32])
  have st: "set ord = of_nat ` {0..<?n}" using mset_eq_setD [OF ms] by simp
  have rng: "\<forall>i \<in> set ord. unat i < ?n" using n(1) unfolding st by (auto simp: unat_of_nat_small)
  have hd: "hd ord = 0" by (simp add: ord_def counter_def f_def)
  have "can_grow_by (length ord) (qh_clear (sd_hashIndex ?w))" using n len by (intro can_grow_clear_load) simp_all
  from sd_Reorder_ok [OF inv len dist rng hd this] obtain w where
    w: "sd_Reorder ord ?w = Inr w" "sd_inv w" "sd_strings w = map (\<lambda>i. sd_strings ?w ! unat i) ord" by blast
  let ?as = "map (\<lambda>a. invert_order ord ! unat a) (rc_authors c)"
  let ?c = "c\<lparr>rc_authorPool := w, rc_authors := ?as\<rparr>"
  have "names w (invert_order ord ! unat a) s" if a: "names ?w a s" for a s
  proof -
    have "a \<in> set ord" using a unfolding st by (auto simp: names_def intro: image_eqI [of _ _ "unat a"])
    then obtain p where p: "p < length ord" "ord ! p = a" by (auto simp: in_set_conv_nth)
    have "invert_order ord ! unat a = of_nat p" using invert_order_ok [OF dist _ p(1)] rng len p(2) by simp
    moreover have "unat (of_nat p :: index_t) = p" using p(1) len n(1) by (simp add: unat_of_nat_small)
    ultimately show ?thesis using a p by (simp add: names_def w(3))
  qed
  then have "list_all2 (names w) ?as (map rv_author revs)" unfolding list_all2_map1 by (intro list_all2_mono [OF names])
  then have "rc_holds ?c revs"
    using h w(2) by (simp add: rc_holds_def holds_std_def holds_changes_def holds_merges_def holds_props_def)
  moreover have "rc_OptimizeAuthors c = Inr ?c"
  proof -
    have fe: "f = (\<lambda>i. \<lparr>pa_frequency = fs ! i, pa_author = of_nat i\<rparr>)" by (simp add: f_def fun_eq_iff)
    show ?thesis
      unfolding rc_OptimizeAuthors_def Let_def sz fs of_opt_simps bindE.simps fe [symmetric] upt list.sel
        counter_def [symmetric] ord_def [symmetric] w(1)
      by simp
  qed
  moreover have "mset (sd_strings w) = mset (sd_strings ?w)"
  proof -
    have "mset (sd_strings w) = image_mset (\<lambda>i. sd_strings ?w ! unat i) (mset (map (of_nat :: nat \<Rightarrow> index_t) [0..<?n]))" using ms by (simp add: w(3))
    also have "\<dots> = mset (map (\<lambda>i. sd_strings ?w ! i) [0..<?n])"
      unfolding mset_map [symmetric] map_map using n(1) by (intro arg_cong [of _ _ mset] map_cong) (simp_all add: unat_of_nat_small)
    also have "\<dots> = mset (sd_strings ?w)" by (simp only: map_nth)
    finally show ?thesis .
  qed
  ultimately show ?thesis by blast
qed

text \<open>What the optimisation leaves alone, and the authors it sorts.\<close>

definition keeps_pools :: "revision_info \<Rightarrow> revision_info \<Rightarrow> bool" where
  "keeps_pools c c' \<longleftrightarrow> mset (sd_strings (rc_authorPool c')) = mset (sd_strings (rc_authorPool c)) \<and> rc_paths c' = rc_paths c \<and>
     rc_comments c' = rc_comments c \<and> rc_userRevPropsPool c' = rc_userRevPropsPool c \<and>
     rc_userRevPropValues c' = rc_userRevPropValues c"

lemma sort_by_sorted:
  assumes tr: "\<And>a b c. \<not> lt b a \<Longrightarrow> \<not> lt c b \<Longrightarrow> \<not> lt c a" and as: "\<And>a b. lt a b \<Longrightarrow> \<not> lt b a"
  shows "sorted_wrt (\<lambda>a b. \<not> lt b a) (sort_by lt xs)"
proof -
  have s: "set (insert_by lt x ys) = insert x (set ys)" for x ys by (induction ys) auto
  have "sorted_wrt (\<lambda>a b. \<not> lt b a) ys \<Longrightarrow> sorted_wrt (\<lambda>a b. \<not> lt b a) (insert_by lt x ys)" for x ys
  proof (induction ys)
    case (Cons y ys)
    then show ?case using as [of y x] tr [of y x] by (auto simp: s)
  qed simp
  then show ?thesis by (induction xs) (simp_all add: sort_by_def)
qed

lemma sort_by_pi_less: "sorted_wrt (\<lambda>a b. \<not> pi_less b a) (sort_by pi_less xs)"
  by (rule sort_by_sorted) (auto simp: pi_less_def)

lemma rc_Optimize_ok:
  assumes srt: "\<And>xs. mset (std_sort xs) = mset xs" "\<And>xs. sorted_wrt (\<lambda>a b. \<not> pi_less b a) (std_sort xs)"
    and h: "rc_holds c revs" and room: "rc_room k c"
  shows "\<exists>c' revs'. rc_Optimize std_sort c = Inr c' \<and> rc_holds c' revs' \<and> rc_small revs' \<and> reordered revs revs' \<and>
    (\<forall>j < length revs. sorted (path_range revs' j c')) \<and> keeps_pools c c'"
proof -
  obtain c1 pool as where c1: "rc_OptimizeAuthors c = Inr c1" "rc_holds c1 revs" "c1 = c\<lparr>rc_authorPool := pool, rc_authors := as\<rparr>"
      "mset (sd_strings pool) = mset (sd_strings (rc_authorPool c))" using rc_OptimizeAuthors_ok [OF h room] by blast
  have small: "rc_small revs" by (rule rc_room_small [OF h room])
  obtain c' revs' where c': "rc_OptimizeChangeOrder std_sort c1 = Inr c'" "rc_holds c' revs'" "reordered revs revs'"
      "\<forall>j < length revs. sorted (path_range revs' j c')" "rewritten c1 c'"
    using rc_OptimizeChangeOrder_ok [where std_sort = std_sort, OF srt c1(2) small] by blast
  have "keeps_pools c c'" using c1(3,4) c'(5) by (auto simp: keeps_pools_def rewritten_def)
  moreover have "rc_small revs'" using small reordered_keeps [OF c'(3)] by (simp add: rc_small_def all_merges_def all_props_def)
  ultimately show ?thesis using c1(1) c' by (auto simp: rc_Optimize_def)
qed

lemma rc_AutoOptimize_ok:
  assumes srt: "\<And>xs. mset (std_sort xs) = mset xs" "\<And>xs. sorted_wrt (\<lambda>a b. \<not> pi_less b a) (std_sort xs)"
    and h: "rc_holds c revs" and room: "rc_room k c"
  shows "\<exists>c' revs'. rc_AutoOptimize std_sort c = Inr c' \<and> rc_holds c' revs' \<and> rc_small revs' \<and> reordered revs revs' \<and> keeps_pools c c'"
proof -
  have "keeps_pools c c" by (simp add: keeps_pools_def)
  then show ?thesis
    using rc_Optimize_ok [where std_sort = std_sort, OF srt h room] h rc_room_small [OF h room] reordered_refl
    by (auto simp: rc_AutoOptimize_def Let_def)
qed

subsection \<open>Properties\<close>

text \<open>
  C14.  The optimisation succeeds and keeps every revision, up to the order of its changes; afterwards the
  changes of each revision are in the order of their path indexes.  Nothing is assumed of the sort
  routine but that it permutes and sorts.
\<close>

theorem optimize_keeps_revisions:
  assumes "\<And>xs. mset (std_sort xs) = mset xs" "\<And>xs. sorted_wrt (\<lambda>a b. \<not> pi_less b a) (std_sort xs)"
    "rc_holds c revs" "rc_room k c"
  shows "\<exists>c' revs'. rc_Optimize std_sort c = Inr c' \<and> reordered revs revs' \<and>
    (\<forall>i < length revs. rc_read c' (of_nat i) = Some (revs' ! i) \<and> sorted (path_range revs' i c'))"
proof -
  obtain c' revs' where c': "rc_Optimize std_sort c = Inr c'" "rc_holds c' revs'" "rc_small revs'" "reordered revs revs'"
      "\<forall>j < length revs. sorted (path_range revs' j c')"
    using rc_Optimize_ok [where std_sort = std_sort, OF assms] by blast
  then show ?thesis using rc_read_ok [OF c'(2,3)] reordered_keeps(7) [OF c'(4)] by auto
qed

lemma sample_container:
  "\<exists>c0 c. rc_init = Inr c0 \<and> rc_run (\<lambda>_. False) (\<lambda>_. 0) sample_calls c0 = Inr c \<and>
    rc_holds c (called (\<lambda>_. 0) sample_calls []) \<and> rc_room 0 c \<and> rc_small (called (\<lambda>_. 0) sample_calls [])"
proof -
  obtain c0 c k where "rc_init = Inr c0" "rc_run (\<lambda>_. False) (\<lambda>_. 0) sample_calls c0 = Inr c" "rc_holds c (called (\<lambda>_. 0) sample_calls [])"
      "rc_room k c" "rc_small (called (\<lambda>_. 0) sample_calls [])"
    using rc_run_init [OF sample_callable] by blast
  then show ?thesis using rc_room_mono [of k 0] by auto
qed

theorem optimize_keeps_revisions_witness:
  "\<exists>c0 c c' r. rc_init = Inr c0 \<and> rc_run (\<lambda>_. False) (\<lambda>_. 0) sample_calls c0 = Inr c \<and>
    rc_Optimize (sort_by pi_less) c = Inr c' \<and> rc_read c' 0 = Some r \<and> rv_author r = [98, 111, 98] \<and>
    mset (map ch_path (rv_changes r)) = {#[[97], [98]], [[97], [99]]#}"
proof -
  obtain c0 c where c: "rc_init = Inr c0" "rc_run (\<lambda>_. False) (\<lambda>_. 0) sample_calls c0 = Inr c"
      "rc_holds c (called (\<lambda>_. 0) sample_calls [])" "rc_room 0 c" using sample_container by blast
  let ?r = "effect (\<lambda>_. 0) (sample_calls ! 4) (effect (\<lambda>_. 0) (sample_calls ! 3) (effect (\<lambda>_. 0) (sample_calls ! 2)
      (effect (\<lambda>_. 0) (sample_calls ! 1) (new_revision [98, 111, 98] [102, 105, 120] 1000 0x1A))))"
  have r: "called (\<lambda>_. 0) sample_calls [] = [?r]" by (simp add: sample_calls_def)
  obtain c' revs' where o: "rc_Optimize (sort_by pi_less) c = Inr c'" "reordered [?r] revs'" "rc_read c' 0 = Some (revs' ! 0)"
    using optimize_keeps_revisions [where std_sort = "sort_by pi_less", OF mset_sort_by sort_by_pi_less c(3,4)] unfolding r by auto
  have "same_changes ?r (revs' ! 0)" using o(2) list_all2_nthD [of same_changes "[?r]" revs' 0] by (simp add: reordered_def)
  then obtain chs where chs: "revs' ! 0 = ?r\<lparr>rv_changes := chs\<rparr>" "mset chs = mset (rv_changes ?r)" by (auto simp: same_changes_def)
  have "mset (map ch_path chs) = mset (map ch_path (rv_changes ?r))" using chs(2) by simp
  moreover have "map ch_path (rv_changes ?r) = [[[97], [98]], [[97], [99]]]" "rv_author ?r = [98, 111, 98]"
    by (simp_all add: sample_calls_def new_revision_def new_change_def svn_author_def svn_date_def svn_log_def c_str_def
        path_elements_def split_elements.simps slash_def)
  ultimately show ?thesis using c(1,2) o(1,3) chs(1) by auto
qed

text \<open>
  C16.  The sums that are rebuilt after loading are the ones that the additions have accumulated: on any
  container that holds revisions, with whatever stale sums, the rebuild restores that container.
\<close>

theorem rebuilt_sums_are_accumulated:
  assumes "rc_holds c revs" "rc_small revs"
  shows "rc_CalculateSumChanges (c\<lparr>rc_sumChanges := stale\<rparr>) = Inr c"
proof -
  have "rc_CalculateSumChanges c = Inr c"
    using rc_CalculateSumChanges_ok [of c revs] assms by (simp add: rc_holds_def rc_small_def)
  moreover have "rc_CalculateSumChanges (c\<lparr>rc_sumChanges := stale\<rparr>) = rc_CalculateSumChanges c"
    by (simp add: rc_CalculateSumChanges_def Let_def)
  ultimately show ?thesis by simp
qed

theorem rebuilt_sums_are_accumulated_witness:
  "\<exists>c0 c. rc_init = Inr c0 \<and> rc_run (\<lambda>_. False) (\<lambda>_. 0) sample_calls c0 = Inr c \<and>
    rc_CalculateSumChanges (c\<lparr>rc_sumChanges := []\<rparr>) = Inr c"
  using sample_container rebuilt_sums_are_accumulated by blast

text \<open>
  C17.  The check of loaded data accepts an offset vector that is one entry short; the end of the last
  revision then lies behind the vector.
\<close>

theorem read_check_accepts_short_offsets:
  assumes "rc_holds c (revs @ [r])" "rc_small (revs @ [r])"
  shows "\<exists>c'. rc_finish_read (Some (rc_changedPathTypes c)) (Some (rc_textModifies c)) (Some (rc_propsModifies c))
      (c\<lparr>rc_mergedRevisionsOffsets := butlast (rc_mergedRevisionsOffsets c)\<rparr>) = Inr c' \<and>
    rc_GetMergedRevisionsEnd c' (of_nat (length revs)) = None"
proof -
  let ?d = "c\<lparr>rc_mergedRevisionsOffsets := butlast (rc_mergedRevisionsOffsets c), rc_storedSize := rc_size c\<rparr>"
  note parts = assms(1) [unfolded rc_holds_def holds_std_def holds_changes_def holds_merges_def holds_props_def]
  have hc: "holds_changes ?d (revs @ [r])" using assms(1) by (simp add: rc_holds_def holds_changes_def)
  have small: "length (all_changes (revs @ [r])) < 2 ^ 32" "length revs + 2 < 2 ^ 32" using assms(2) by (simp_all add: rc_small_def)
  have la: "length (rc_authors c) = Suc (length revs)" using rc_holds_lengths(1) [OF assms(1)] by simp
  then have n: "unat (rc_size c) = Suc (length revs)" using small(2) unat_of_nat_small [of "Suc (length revs)", where 'i = 32] by (simp add: rc_size_def)
  have "length (ts_offsets (rc_comments c)) = length revs + 2" using parts ts_holds_length [of "rc_comments c"] by fastforce
  then have "ts_size (rc_comments c) = rc_size c" using la by (simp add: ts_size_def rc_size_def)
  moreover have "\<not> ucast (rc_size c) > (of_nat (length (rc_authors c)) :: size_t)"
    using small(2) by (simp add: rc_size_def la ucast_of_nat_size del: of_nat_Suc)
  moreover have "length (rc_rootPaths c) = Suc (length revs)" "length (rc_timeStamps c) = Suc (length revs)"
      "length (rc_presenceFlags c) = Suc (length revs)" "length (rc_changesOffsets c) = length revs + 2"
      "length (rc_userRevPropOffsets c) = length revs + 2" "length (rc_mergedRevisionsOffsets c) = length revs + 2"
    using parts rc_holds_lengths(5) [OF assms(1)] by simp_all
  moreover have "rc_size (c\<lparr>rc_mergedRevisionsOffsets := butlast (rc_mergedRevisionsOffsets c)\<rparr>) = rc_size c" by (simp add: rc_size_def)
  ultimately have "rc_finish_read (Some (rc_changedPathTypes c)) (Some (rc_textModifies c)) (Some (rc_propsModifies c))
      (c\<lparr>rc_mergedRevisionsOffsets := butlast (rc_mergedRevisionsOffsets c)\<rparr>) = rc_CalculateSumChanges ?d"
    by (simp add: rc_finish_read_def ReadOrDefault_def n [unfolded rc_size_def] Let_def rc_size_def)
  also have "\<dots> = Inr ?d" by (rule rc_CalculateSumChanges_ok [OF hc small(1)])
  finally have "rc_finish_read (Some (rc_changedPathTypes c)) (Some (rc_textModifies c)) (Some (rc_propsModifies c))
      (c\<lparr>rc_mergedRevisionsOffsets := butlast (rc_mergedRevisionsOffsets c)\<rparr>) = Inr ?d" .
  moreover have "(of_nat (length revs) + 1 :: index_t) = of_nat (Suc (length revs))" by simp
  then have "unat (of_nat (length revs) + 1 :: index_t) = Suc (length revs)"
    using small(2) unat_of_nat_small [of "Suc (length revs)", where 'i = 32] by (simp only:) simp
  then have "rc_GetMergedRevisionsEnd ?d (of_nat (length revs)) = None"
    using parts by (simp add: rc_GetMergedRevisionsEnd_def vat_def)
  ultimately show ?thesis by blast
qed

theorem read_check_accepts_short_offsets_witness:
  "\<exists>c0 c c'. rc_init = Inr c0 \<and> rc_run (\<lambda>_. False) (\<lambda>_. 0) sample_calls c0 = Inr c \<and>
    rc_finish_read (Some (rc_changedPathTypes c)) (Some (rc_textModifies c)) (Some (rc_propsModifies c))
      (c\<lparr>rc_mergedRevisionsOffsets := butlast (rc_mergedRevisionsOffsets c)\<rparr>) = Inr c' \<and>
    rc_GetMergedRevisionsEnd c' 0 = None"
proof -
  obtain c0 c where c: "rc_init = Inr c0" "rc_run (\<lambda>_. False) (\<lambda>_. 0) sample_calls c0 = Inr c"
      "rc_holds c (called (\<lambda>_. 0) sample_calls [])" "rc_small (called (\<lambda>_. 0) sample_calls [])" using sample_container by blast
  let ?r = "effect (\<lambda>_. 0) (sample_calls ! 4) (effect (\<lambda>_. 0) (sample_calls ! 3) (effect (\<lambda>_. 0) (sample_calls ! 2)
      (effect (\<lambda>_. 0) (sample_calls ! 1) (new_revision [98, 111, 98] [102, 105, 120] 1000 0x1A))))"
  have r: "called (\<lambda>_. 0) sample_calls [] = [] @ [?r]" by (simp add: sample_calls_def)
  show ?thesis using read_check_accepts_short_offsets [OF c(3,4) [unfolded r]] c(1,2) by auto
qed

end
