(* ===== verification/RevisionInfoStreams.thy ===== *)
theory RevisionInfoStreams
  imports SkipRevisionStreams RevisionInfoOptimize
begin

section \<open>The revisions in streams (src/LogCache/Containers/RevisionInfoContainer.cpp)\<close>

text \<open>
  The stream operators of the revision container, over those of the pools, paths and texts in \<open>ContainerStreams\<close> and
  those of the vectors.  The lemmas show that the container survives a cache file: each revision reads back as it was.
\<close>

subsection \<open>The revisions\<close>

fun node_number :: "node_kind \<Rightarrow> dword" where
  "node_number node_none = 0"
| "node_number node_file = 1"
| "node_number node_dir = 2"
| "node_number node_unknown = 3"

text \<open>A number that no constant of the enumeration has is outside of its range: the cast is undefined.\<close>

fun node_kinds :: "dword list \<Rightarrow> load_error + node_kind list" where
  "node_kinds [] = Inr []"
| "node_kinds (v # vs) =
     (if v > 3 then Inl (ContainerError Undefined)
      else bindE (node_kinds vs) (\<lambda>ks. Inr ((if v = 0 then node_none else if v = 1 then node_file else if v = 2 then node_dir else node_unknown) # ks)))"

definition rc_docs :: "revision_info \<Rightarrow> time_out \<Rightarrow> stream_doc list" where
  "rc_docs c timeStamps =
     [composite_doc 1 (sd_write (rc_authorPool c)),
      composite_doc 2 (ts_docs (rc_comments c)),
      composite_doc 3 (pd_write (rc_paths c)),
      integer_doc 4 (rc_authors c),
      Doc 5 PACKED_TIME64_STREAM_TYPE_ID (bo_blocks timeStamps) [],
      integer_doc 6 (rc_rootPaths c),
      offset_doc 7 (rc_changesOffsets c),
      offset_doc 8 (rc_copyFromOffsets c),
      offset_doc 13 (rc_mergedRevisionsOffsets c),
      dword_doc 9 (map ucast (rc_changes c)),
      integer_doc 10 (rc_changedPaths c),
      integer_doc 23 (map node_number (rc_changedPathTypes c)),
      integer_doc 11 (rc_copyFromPaths c),
      integer_doc 12 (rc_copyFromRevisions c),
      integer_doc 24 (map ucast (rc_textModifies c)),
      integer_doc 25 (map ucast (rc_propsModifies c)),
      integer_doc 14 (rc_mergedFromPaths c),
      integer_doc 15 (rc_mergedToPaths c),
      integer_doc 16 (rc_mergedRangeStarts c),
      integer_doc 17 (rc_mergedRangeDeltas c),
      integer_doc 18 (rc_userRevPropOffsets c),
      composite_doc 19 (sd_write (rc_userRevPropsPool c)),
      dword_doc 20 (rc_userRevPropNames c),
      composite_doc 21 (ts_docs (rc_userRevPropValues c)),
      dword_doc 22 (map scast (rc_presenceFlags c))]"

text \<open>Writing optimises the container first, and the two containers of texts compress themselves.\<close>

definition rc_write ::
    "(change_info list \<Rightarrow> change_info list) \<Rightarrow> revision_info \<Rightarrow> (container_error + stream_doc list \<times> revision_info) option" where
  "rc_write std_sort c =
     bindR (Some (rc_AutoOptimize std_sort c)) (\<lambda>c.
     bindR (ts_write (rc_comments c)) (\<lambda>(_, comments).
     bindR (ts_write (rc_userRevPropValues c)) (\<lambda>(_, userRevPropValues).
       let c = c\<lparr>rc_comments := comments, rc_userRevPropValues := userRevPropValues\<rparr>
       in map_option (\<lambda>timeStamps. Inr (rc_docs c timeStamps, c\<lparr>rc_storedSize := rc_size c\<rparr>))
            (to_write_vector (rc_timeStamps c) time_out_init))))"

definition optional_vector :: "dword \<Rightarrow> stream_doc list \<Rightarrow> load_error + dword list option" where
  "optional_vector subStreamID docs =
     (if \<exists>d \<in> set docs. doc_id d = subStreamID then map_sum id Some (integer_vector subStreamID docs) else Inr None)"

definition rc_load_pools :: "stream_doc list \<Rightarrow> revision_info \<Rightarrow> load_error + revision_info" where
  "rc_load_pools stream c =
     bindE (sub_stream 1 stream) (\<lambda>d. bindE (sd_read (doc_subs d) (rc_authorPool c)) (\<lambda>authorPool.
     bindE (sub_stream 2 stream) (\<lambda>d. bindE (ts_read (doc_subs d) (rc_comments c)) (\<lambda>comments.
     bindE (sub_stream 3 stream) (\<lambda>d. bindE (pd_read (doc_subs d) (rc_paths c)) (\<lambda>paths.
       Inr (c\<lparr>rc_authorPool := authorPool, rc_comments := comments, rc_paths := paths\<rparr>)))))))"

definition rc_load_infos :: "stream_doc list \<Rightarrow> revision_info \<Rightarrow> load_error + revision_info" where
  "rc_load_infos stream c =
     bindE (integer_vector 4 stream) (\<lambda>authors. bindE (time_vector 5 stream) (\<lambda>timeStamps.
     bindE (integer_vector 6 stream) (\<lambda>rootPaths. bindE (offset_vector 7 stream) (\<lambda>changesOffsets.
     bindE (offset_vector 8 stream) (\<lambda>copyFromOffsets. bindE (offset_vector 13 stream) (\<lambda>mergedRevisionsOffsets.
       Inr (c\<lparr>rc_authors := authors, rc_timeStamps := timeStamps, rc_rootPaths := rootPaths, rc_changesOffsets := changesOffsets,
              rc_copyFromOffsets := copyFromOffsets, rc_mergedRevisionsOffsets := mergedRevisionsOffsets\<rparr>)))))))"

definition rc_load_changes :: "stream_doc list \<Rightarrow> revision_info \<Rightarrow> load_error + revision_info" where
  "rc_load_changes stream c =
     bindE (dword_vector 9 stream) (\<lambda>changes. bindE (integer_vector 10 stream) (\<lambda>changedPaths.
     bindE (integer_vector 11 stream) (\<lambda>copyFromPaths. bindE (integer_vector 12 stream) (\<lambda>copyFromRevisions.
       Inr (c\<lparr>rc_changes := map ucast changes, rc_changedPaths := changedPaths, rc_copyFromPaths := copyFromPaths,
              rc_copyFromRevisions := copyFromRevisions\<rparr>)))))"

definition rc_load_merges :: "stream_doc list \<Rightarrow> revision_info \<Rightarrow> load_error + revision_info" where
  "rc_load_merges stream c =
     bindE (integer_vector 14 stream) (\<lambda>fromPaths. bindE (integer_vector 15 stream) (\<lambda>toPaths.
     bindE (integer_vector 16 stream) (\<lambda>starts. bindE (integer_vector 17 stream) (\<lambda>deltas.
       Inr (c\<lparr>rc_mergedFromPaths := fromPaths, rc_mergedToPaths := toPaths, rc_mergedRangeStarts := starts,
              rc_mergedRangeDeltas := deltas\<rparr>)))))"

definition rc_load_props :: "stream_doc list \<Rightarrow> revision_info \<Rightarrow> load_error + revision_info" where
  "rc_load_props stream c =
     bindE (integer_vector 18 stream) (\<lambda>offs.
     bindE (sub_stream 19 stream) (\<lambda>d. bindE (sd_read (doc_subs d) (rc_userRevPropsPool c)) (\<lambda>pool.
     bindE (dword_vector 20 stream) (\<lambda>nams.
     bindE (sub_stream 21 stream) (\<lambda>d. bindE (ts_read (doc_subs d) (rc_userRevPropValues c)) (\<lambda>vals.
     bindE (dword_vector 22 stream) (\<lambda>flags.
       Inr (c\<lparr>rc_userRevPropOffsets := offs, rc_userRevPropsPool := pool, rc_userRevPropNames := nams,
              rc_userRevPropValues := vals, rc_presenceFlags := map ucast flags\<rparr>))))))))"

text \<open>The vectors that older caches do not have, then the end of the operator.\<close>

definition rc_load_optional :: "stream_doc list \<Rightarrow> revision_info \<Rightarrow> load_error + revision_info" where
  "rc_load_optional stream c =
     bindE (optional_vector 23 stream) (\<lambda>types.
     bindE (case types of None \<Rightarrow> Inr None | Some ts \<Rightarrow> map_sum id Some (node_kinds ts)) (\<lambda>types.
     bindE (optional_vector 24 stream) (\<lambda>texts. bindE (optional_vector 25 stream) (\<lambda>props.
       of_container (rc_finish_read types (map_option (map ucast) texts) (map_option (map ucast) props) c)))))"

definition rc_load :: "stream_doc list \<Rightarrow> revision_info \<Rightarrow> load_error + revision_info" where
  "rc_load stream c =
     bindE (rc_load_pools stream c) (\<lambda>c. bindE (rc_load_infos stream c) (\<lambda>c. bindE (rc_load_changes stream c) (\<lambda>c.
     bindE (rc_load_merges stream c) (\<lambda>c. bindE (rc_load_props stream c) (rc_load_optional stream)))))"

subsection \<open>The revisions come back\<close>

definition pool_storable :: "string_dictionary \<Rightarrow> bool" where
  "pool_storable w \<longleftrightarrow> length (sd_strings w) < 2 ^ 24 \<and> length (packed_of (sd_strings w)) < 2 ^ 28"

text \<open>Texts as they are before the compression.\<close>

definition texts_storable :: "tokenized_strings \<Rightarrow> bool" where
  "texts_storable c \<longleftrightarrow> leading c \<and> compress_room c \<and> pairs_readable (ts_words c) (ts_pairs c) \<and> pool_storable (ts_words c) \<and>
     potential c < 2 ^ 24"

definition paths_storable :: "path_dictionary \<Rightarrow> bool" where
  "paths_storable d \<longleftrightarrow> pool_storable (pathElements d) \<and> length (ipd_data (paths d)) < 2 ^ 24"

text \<open>Revisions that fit into the streams: flags other than all bits, and the deltas of undone merges are negative.\<close>

definition revs_storable :: "revision list \<Rightarrow> bool" where
  "revs_storable revs \<longleftrightarrow> length revs + 1 < 2 ^ 24 \<and> length (all_changes revs) < 2 ^ 24 \<and> length (all_merges revs) < 2 ^ 24 \<and>
     length (all_props revs) + 1 < 2 ^ 24 \<and> (\<forall>r \<in> set revs. rv_flags r \<noteq> 0xFF) \<and>
     (\<forall>(p, r) \<in> set (copies (all_changes revs)). unat r < 2 ^ 29) \<and>
     (\<forall>(p, q, start, delta) \<in> set (all_merges revs). unat start < 2 ^ 29 \<and> \<bar>sint delta\<bar> < 2 ^ 29)"

lemma sd_inv_packed: "sd_inv w \<Longrightarrow> packedStrings w = packed_of (sd_strings w)"
  using sd_inv_rep(1) by (auto simp: sd_packs_def)

lemma pool_storable_sizes: "sd_inv w \<Longrightarrow> pool_storable w \<Longrightarrow> length (sd_strings w) < 2 ^ 24 \<and> length (packedStrings w) < 2 ^ 28"
  by (simp add: pool_storable_def sd_inv_packed)

lemma packed_of_mset: "mset ss = mset ss' \<Longrightarrow> length (packed_of ss) = length (packed_of ss')"
proof -
  have "length (packed_of ss) = (\<Sum>s \<in># mset ss. length s + 1)" for ss by (induction ss) (simp_all add: packed_of_def)
  then show "mset ss = mset ss' \<Longrightarrow> ?thesis" by simp
qed

lemma pool_storable_mset: "mset (sd_strings w') = mset (sd_strings w) \<Longrightarrow> pool_storable w' = pool_storable w"
  using packed_of_mset [of "sd_strings w'" "sd_strings w"] mset_eq_length [of "sd_strings w'" "sd_strings w"] by (simp add: pool_storable_def)

lemma revs_storable_reordered:
  assumes "reordered revs revs'" "revs_storable revs"
  shows "revs_storable revs'"
proof -
  note k = reordered_keeps [OF assms(1)]
  have "set (copies (all_changes revs')) = set (copies (all_changes revs))"
  proof -
    have "list_all2 (\<lambda>r r'. set (rv_changes r') = set (rv_changes r)) revs revs'"
      using assms(1) unfolding reordered_def by (rule list_all2_mono) (auto simp: same_changes_def dest: mset_eq_setD)
    then have "set (all_changes revs') = set (all_changes revs)"
      by (induction rule: list_all2_induct) (simp_all add: all_changes_def)
    then show ?thesis by (auto simp: copies_def)
  qed
  moreover have "all_merges revs' = all_merges revs" "all_props revs' = all_props revs" using k by (simp_all add: all_merges_def all_props_def)
  moreover have "rv_flags ` set revs' = rv_flags ` set revs" using k by (simp flip: set_map)
  then have "(\<forall>r \<in> set revs'. rv_flags r \<noteq> 0xFF) \<longleftrightarrow> (\<forall>r \<in> set revs. rv_flags r \<noteq> 0xFF)" by (metis (no_types, lifting) image_iff)
  ultimately show ?thesis using assms(2) k(7,8) by (simp add: revs_storable_def)
qed

text \<open>Which numbers the vectors hold.\<close>

lemma small_indexes: "length vs < 2 ^ 24 \<Longrightarrow> \<forall>v \<in> set vs. v = NO_INDEX \<or> unat v < 2 ^ 24 \<Longrightarrow> small_ints vs"
proof -
  assume "length vs < 2 ^ 24" and v: "\<forall>v \<in> set vs. v = NO_INDEX \<or> unat v < 2 ^ 24"
  moreover have "\<bar>sint v\<bar> < 2 ^ 29" if "v \<in> set vs" for v
  proof (cases "v = NO_INDEX")
    case True
    then show ?thesis by (simp add: NO_INDEX_def)
  next
    case False
    then have "unat v < 2 ^ 24" using v that by blast
    then show ?thesis by (intro sint_small) simp
  qed
  ultimately show ?thesis by (simp add: small_ints_def)
qed

lemma small_numbers: "length vs < 2 ^ 24 \<Longrightarrow> \<forall>v \<in> set vs. unat v < 2 ^ 29 \<Longrightarrow> small_ints vs"
  using sint_small by (auto simp: small_ints_def)

lemma small_no_escape: "length vs < 2 ^ 24 \<Longrightarrow> \<forall>v \<in> set vs. unat v < 2 ^ 24 \<Longrightarrow> small_dwords vs"
  using unat_NO_INDEX [where 'i = 32] by (auto simp: small_dwords_def NO_INDEX_def)

lemma unat_byte_dword: "unat (ucast (b :: byte) :: dword) = unat b" "unat (ucast (b :: byte) :: dword) < 256"
proof -
  have b: "unat b < 2 ^ 8" using unat_bound [of b] by simp
  then have "unat b < 2 ^ 32" by (rule less_le_trans) simp
  then show "unat (ucast (b :: byte) :: dword) = unat b" by (simp add: unsigned_ucast_eq take_bit_nat_eq_self)
  then show "unat (ucast (b :: byte) :: dword) < 256" using b by simp
qed

lemma byte_back: "ucast (ucast (b :: byte) :: dword) = b"
proof (rule unsigned_word_eqI)
  have "unat b < 2 ^ 8" using unat_bound [of b] by simp
  then show "unat (ucast (ucast b :: dword) :: byte) = unat b"
    by (subst unsigned_ucast_eq) (simp add: unat_byte_dword(1) take_bit_nat_eq_self)
qed

lemma small_bytes: "length bs < 2 ^ 24 \<Longrightarrow> small_ints (map ucast (bs :: byte list))" "length bs < 2 ^ 24 \<Longrightarrow> small_dwords (map ucast bs)"
proof -
  assume n: "length bs < 2 ^ 24"
  have "unat (ucast (b :: byte) :: dword) < 2 ^ 24" "unat (ucast b :: dword) < 2 ^ 29" for b using unat_byte_dword(2) [of b] by simp_all
  then show "small_ints (map ucast bs)" "small_dwords (map ucast bs)" using n by (auto intro!: small_numbers small_no_escape)
qed

lemma bytes_back [simp]: "map ((ucast :: dword \<Rightarrow> byte) \<circ> ucast) bs = bs"
  by (simp add: comp_def byte_back)

text \<open>The flags are of the signed type \<open>char\<close>: writing extends their sign, and only \<open>0xff\<close> gives the value that cannot be stored.\<close>

lemma signed_byte_back: "ucast (scast (b :: byte) :: dword) = b"
  by (rule bit_word_eqI) (simp add: bit_simps)

lemma signed_bytes_back [simp]: "map ((ucast :: dword \<Rightarrow> byte) \<circ> scast) bs = bs"
  by (simp add: comp_def signed_byte_back)

lemma small_flags:
  assumes "length bs < 2 ^ 24" "\<forall>b \<in> set bs. b \<noteq> (0xFF :: byte)"
  shows "small_dwords (map scast bs)"
proof -
  have "b = 0xFF" if "(scast b :: dword) = - 1" for b :: byte
  proof -
    have "(ucast (- 1 :: dword) :: byte) = 0xFF" by code_simp
    then show ?thesis using arg_cong [OF that, of "ucast :: dword \<Rightarrow> byte"] by (simp add: signed_byte_back)
  qed
  then show ?thesis using assms by (force simp: small_dwords_def eq_commute [of "- 1"])
qed

lemma offsets_of_small:
  assumes "length (concat L) < 2 ^ 24" "length L + 1 < 2 ^ 24"
  shows "small_offsets (offsets_of L)" "small_ints (offsets_of L)"
proof -
  have ne: "of_nat k \<noteq> (- 1 :: dword)" if "k < 2 ^ 24" for k
  proof
    assume "of_nat k = (- 1 :: dword)"
    then have "unat (of_nat k :: dword) = unat (- 1 :: dword)" by (rule arg_cong)
    then show False using that unat_NO_INDEX [where 'i = 32] by (simp add: unat_of_nat_small NO_INDEX_def)
  qed
  have each: "length l \<le> length (concat L)" if "l \<in> set L" for l
    using member_le_sum_list [of "length l" "map length L"] that by (simp add: length_concat)
  have "diffs_from 0 (offsets_of L) = of_nat 0 # map (of_nat \<circ> length) L" using diffs_starts [of 0 0 L] by (simp add: offsets_of_def)
  moreover have "of_nat (length l) \<noteq> (- 1 :: dword)" if "l \<in> set L" for l using ne [of "length l"] each [OF that] assms(1) by simp
  ultimately show "small_offsets (offsets_of L)" using assms(2) by (auto simp: small_offsets_def offsets_of_def eq_commute [of "- 1"])
  have "n \<le> k + length (concat L)" if "n \<in> set (starts k L)" for n k using that
    by (induction k L rule: starts.induct) fastforce+
  from this [of _ 0] have "unat v < 2 ^ 29" if "v \<in> set (offsets_of L)" for v
    using that assms(1) by (fastforce simp: offsets_of_def unat_of_nat_small)
  then show "small_ints (offsets_of L)" using assms(2) by (intro small_numbers) (simp_all add: offsets_of_def)
qed

lemma names_small: "list_all2 (names w) is ss \<Longrightarrow> length (sd_strings w) < 2 ^ 24 \<Longrightarrow> \<forall>i \<in> set is. unat i < 2 ^ 24"
  by (induction rule: list_all2_induct) (auto simp: names_def)

lemma stands_small: "list_all2 (stands d) is ps \<Longrightarrow> length (ipd_data (paths d)) < 2 ^ 24 \<Longrightarrow> \<forall>i \<in> set is. unat i < 2 ^ 24"
  by (induction rule: list_all2_induct) (auto simp: stands_def pd_keys_def)

lemma roots_small: "list_all2 (root_of d) is chs \<Longrightarrow> length (ipd_data (paths d)) < 2 ^ 24 \<Longrightarrow> \<forall>i \<in> set is. i = NO_INDEX \<or> unat i < 2 ^ 24"
  by (induction rule: list_all2_induct) (auto simp: root_of_def stands_def pd_keys_def split: if_splits)

lemma node_kinds_back: "node_kinds (map node_number ks) = Inr ks"
proof (induction ks)
  case (Cons k ks)
  then show ?case by (cases k) simp_all
qed simp

lemma node_numbers_small: "length ks < 2 ^ 24 \<Longrightarrow> small_ints (map node_number ks)"
proof -
  have "unat (node_number k) < 2 ^ 29" for k by (cases k) simp_all
  then show "length ks < 2 ^ 24 \<Longrightarrow> small_ints (map node_number ks)" by (intro small_numbers) auto
qed

lemma length_copies_le: "length (copies chs) \<le> length chs"
  by (induction chs) (auto simp: copies_def split: option.splits)

lemma rc_docs_subs:
  shows "sub_stream 4 (map joined (rc_docs c t)) = Inr (joined (integer_doc 4 (rc_authors c)))"
    "sub_stream 6 (map joined (rc_docs c t)) = Inr (joined (integer_doc 6 (rc_rootPaths c)))"
    "sub_stream 10 (map joined (rc_docs c t)) = Inr (joined (integer_doc 10 (rc_changedPaths c)))"
    "sub_stream 23 (map joined (rc_docs c t)) = Inr (joined (integer_doc 23 (map node_number (rc_changedPathTypes c))))"
    "sub_stream 11 (map joined (rc_docs c t)) = Inr (joined (integer_doc 11 (rc_copyFromPaths c)))"
    "sub_stream 12 (map joined (rc_docs c t)) = Inr (joined (integer_doc 12 (rc_copyFromRevisions c)))"
    "sub_stream 24 (map joined (rc_docs c t)) = Inr (joined (integer_doc 24 (map ucast (rc_textModifies c))))"
    "sub_stream 25 (map joined (rc_docs c t)) = Inr (joined (integer_doc 25 (map ucast (rc_propsModifies c))))"
    "sub_stream 14 (map joined (rc_docs c t)) = Inr (joined (integer_doc 14 (rc_mergedFromPaths c)))"
    "sub_stream 15 (map joined (rc_docs c t)) = Inr (joined (integer_doc 15 (rc_mergedToPaths c)))"
    "sub_stream 16 (map joined (rc_docs c t)) = Inr (joined (integer_doc 16 (rc_mergedRangeStarts c)))"
    "sub_stream 17 (map joined (rc_docs c t)) = Inr (joined (integer_doc 17 (rc_mergedRangeDeltas c)))"
    "sub_stream 18 (map joined (rc_docs c t)) = Inr (joined (integer_doc 18 (rc_userRevPropOffsets c)))"
    "sub_stream 7 (map joined (rc_docs c t)) = Inr (joined (offset_doc 7 (rc_changesOffsets c)))"
    "sub_stream 8 (map joined (rc_docs c t)) = Inr (joined (offset_doc 8 (rc_copyFromOffsets c)))"
    "sub_stream 13 (map joined (rc_docs c t)) = Inr (joined (offset_doc 13 (rc_mergedRevisionsOffsets c)))"
    "sub_stream 9 (map joined (rc_docs c t)) = Inr (joined (dword_doc 9 (map ucast (rc_changes c))))"
    "sub_stream 20 (map joined (rc_docs c t)) = Inr (joined (dword_doc 20 (rc_userRevPropNames c)))"
    "sub_stream 22 (map joined (rc_docs c t)) = Inr (joined (dword_doc 22 (map scast (rc_presenceFlags c))))"
    "sub_stream 1 (map joined (rc_docs c t)) = Inr (joined (composite_doc 1 (sd_write (rc_authorPool c))))"
    "sub_stream 2 (map joined (rc_docs c t)) = Inr (joined (composite_doc 2 (ts_docs (rc_comments c))))"
    "sub_stream 3 (map joined (rc_docs c t)) = Inr (joined (composite_doc 3 (pd_write (rc_paths c))))"
    "sub_stream 19 (map joined (rc_docs c t)) = Inr (joined (composite_doc 19 (sd_write (rc_userRevPropsPool c))))"
    "sub_stream 21 (map joined (rc_docs c t)) = Inr (joined (composite_doc 21 (ts_docs (rc_userRevPropValues c))))"
    "sub_stream 5 (map joined (rc_docs c t)) = Inr (joined (Doc 5 PACKED_TIME64_STREAM_TYPE_ID (bo_blocks t) []))"
  by (simp_all add: sub_stream_def rc_docs_def del: joined.simps)

text \<open>Containers that are ready to be written.\<close>

definition rc_ready :: "revision_info \<Rightarrow> bool" where
  "rc_ready c \<longleftrightarrow> pool_storable (rc_authorPool c) \<and> pool_storable (rc_userRevPropsPool c) \<and> paths_storable (rc_paths c) \<and>
     (\<forall>t \<in> {rc_comments c, rc_userRevPropValues c}. pairs_readable (ts_words t) (ts_pairs t) \<and> pool_storable (ts_words t) \<and>
        length (ipd_data (ts_pairs t)) < 2 ^ 24 \<and> length (ts_stringData t) < 2 ^ 24)"

text \<open>The vectors of a container, as its revisions determine them.\<close>

lemma rc_vectors_small:
  assumes h: "rc_holds c revs" and st: "revs_storable revs" "rc_ready c"
  shows "small_ints (rc_authors c)"
    "small_ints (rc_rootPaths c)"
    "small_ints (rc_changedPaths c)"
    "small_ints (map node_number (rc_changedPathTypes c))"
    "small_ints (rc_copyFromPaths c)"
    "small_ints (rc_copyFromRevisions c)"
    "small_ints (map ucast (rc_textModifies c))"
    "small_ints (map ucast (rc_propsModifies c))"
    "small_ints (rc_mergedFromPaths c)"
    "small_ints (rc_mergedToPaths c)"
    "small_ints (rc_mergedRangeStarts c)"
    "small_ints (rc_mergedRangeDeltas c)"
    "small_ints (rc_userRevPropOffsets c)"
    "small_offsets (rc_changesOffsets c)"
    "small_offsets (rc_copyFromOffsets c)"
    "small_offsets (rc_mergedRevisionsOffsets c)"
    "small_dwords (map ucast (rc_changes c))"
    "small_dwords (rc_userRevPropNames c)"
    "small_dwords (map scast (rc_presenceFlags c))"
proof -
  have parts: "holds_std c revs" "holds_changes c revs" "holds_merges c revs" "holds_props c revs" using h by (simp_all add: rc_holds_def)
  note d = parts [unfolded holds_std_def holds_changes_def holds_merges_def holds_props_def]
  have n: "length revs + 1 < 2 ^ 24" "length (all_changes revs) < 2 ^ 24" "length (all_merges revs) < 2 ^ 24" "length (all_props revs) + 1 < 2 ^ 24"
      "length (copies (all_changes revs)) < 2 ^ 24"
    using st(1) length_copies_le [of "all_changes revs"] by (simp_all add: revs_storable_def)
  have pools: "length (sd_strings (rc_authorPool c)) < 2 ^ 24" "length (sd_strings (rc_userRevPropsPool c)) < 2 ^ 24" "length (ipd_data (paths (rc_paths c))) < 2 ^ 24"
    using st(2) by (simp_all add: rc_ready_def pool_storable_def paths_storable_def)
  have len: "length (rc_authors c) = length revs" "length (rc_rootPaths c) = length revs" "length (rc_changedPaths c) = length (all_changes revs)"
      "length (rc_copyFromPaths c) = length (copies (all_changes revs))" "length (rc_mergedFromPaths c) = length (all_merges revs)"
      "length (rc_mergedToPaths c) = length (all_merges revs)" "length (rc_userRevPropNames c) = length (all_props revs)"
    using d by (auto dest: list_all2_lengthD)
  show "small_ints (rc_authors c)" using names_small [of "rc_authorPool c"] d(1) pools(1) n(1) len(1) by (intro small_indexes) auto
  show "small_ints (rc_rootPaths c)" using roots_small [of "rc_paths c"] d(2) pools(3) n(1) len(2) by (intro small_indexes) auto
  show "small_ints (rc_changedPaths c)" using stands_small [of "rc_paths c"] d(2) pools(3) n(2) len(3) by (intro small_indexes) auto
  show "small_ints (rc_copyFromPaths c)" using stands_small [of "rc_paths c"] d(2) pools(3) n(5) len(4) by (intro small_indexes) auto
  show "small_ints (rc_mergedFromPaths c)" using stands_small [of "rc_paths c"] d(3) pools(3) n(3) len(5) by (intro small_indexes) auto
  show "small_ints (rc_mergedToPaths c)" using stands_small [of "rc_paths c"] d(3) pools(3) n(3) len(6) by (intro small_indexes) auto
  show "small_dwords (rc_userRevPropNames c)" using names_small [of "rc_userRevPropsPool c"] d(4) pools(2) n(4) len(7) by (intro small_no_escape) auto
  show "small_ints (rc_copyFromRevisions c)" using d(2) n(5) st(1) by (intro small_numbers) (auto simp: revs_storable_def)
  show "small_ints (rc_mergedRangeStarts c)" using d(3) n(3) st(1) by (intro small_numbers) (auto simp: revs_storable_def)
  show "small_ints (rc_mergedRangeDeltas c)" using d(3) n(3) st(1) by (force simp: revs_storable_def small_ints_def)
  show "small_ints (map node_number (rc_changedPathTypes c))" using d(2) n(2) by (intro node_numbers_small) simp
  show "small_ints (map ucast (rc_textModifies c))" "small_ints (map ucast (rc_propsModifies c))" "small_dwords (map ucast (rc_changes c))"
    using d(2) n(2) by (intro small_bytes; simp)+
  show "small_dwords (map scast (rc_presenceFlags c))" using d(1) n(1) st(1) by (intro small_flags) (simp_all add: revs_storable_def)
  have c: "concat (map (\<lambda>r. copies (rv_changes r)) rs) = copies (all_changes rs)" for rs
    by (induction rs) (simp_all add: all_changes_def copies_def)
  show "small_ints (rc_userRevPropOffsets c)"
    using d(4) offsets_of_small(2) [of "map rv_props revs"] n(1,4) by (simp add: all_props_def)
  show "small_offsets (rc_changesOffsets c)" using d(2) offsets_of_small(1) [of "map rv_changes revs"] n(1,2) by (simp add: all_changes_def)
  show "small_offsets (rc_copyFromOffsets c)"
    using d(2) offsets_of_small(1) [of "map (\<lambda>r. copies (rv_changes r)) revs"] n(1,5) by (simp add: c)
  show "small_offsets (rc_mergedRevisionsOffsets c)" using d(3) offsets_of_small(1) [of "map rv_merges revs"] n(1,3) by (simp add: all_merges_def)
qed

lemma holds_transfer:
  assumes "rc_holds c revs" "sd_inv (rc_authorPool c')" "sd_strings (rc_authorPool c') = sd_strings (rc_authorPool c)"
    "sd_inv (rc_userRevPropsPool c')" "sd_strings (rc_userRevPropsPool c') = sd_strings (rc_userRevPropsPool c)"
    "pd_inv (rc_paths c')" "pd_keys (rc_paths c') = pd_keys (rc_paths c)"
    "ts_holds (rc_comments c') (map rv_comment revs)" "ts_holds (rc_userRevPropValues c') (map snd (all_props revs))"
    "\<exists>pool values paths comments names stored. c' = c\<lparr>rc_authorPool := pool, rc_userRevPropsPool := names, rc_paths := paths,
       rc_comments := comments, rc_userRevPropValues := values, rc_storedSize := stored\<rparr>"
  shows "rc_holds c' revs"
proof -
  have "names (rc_authorPool c') = names (rc_authorPool c)" "names (rc_userRevPropsPool c') = names (rc_userRevPropsPool c)"
    using assms(3,5) by (simp_all add: names_def fun_eq_iff)
  moreover have "stands (rc_paths c') = stands (rc_paths c)" using assms(7) by (simp add: stands_def pd_path_def fun_eq_iff)
  moreover from this have "root_of (rc_paths c') = root_of (rc_paths c)" by (simp add: root_of_def fun_eq_iff)
  ultimately show ?thesis using assms(1,2,4,6,8-)
    by (auto simp: rc_holds_def holds_std_def holds_changes_def holds_merges_def holds_props_def)
qed

lemma texts_ready:
  assumes "rc_ready c" "t = rc_comments c \<or> t = rc_userRevPropValues c" "ts_holds t texts" "length texts < 2 ^ 24"
  shows "\<exists>t'. ts_read (map joined (ts_docs t)) t0 = Inr t' \<and> ts_holds t' texts"
proof (rule ts_read_write [OF assms(3)])
  have "sd_inv (ts_words t)" using ts_holds_tokens [OF assms(3)] by (simp add: tokens_ok_def)
  moreover have "pool_storable (ts_words t)" using assms(1,2) by (auto simp: rc_ready_def)
  ultimately show "length (sd_strings (ts_words t)) < 2 ^ 24" "length (packedStrings (ts_words t)) < 2 ^ 28"
    using pool_storable_sizes by auto
qed (use assms in \<open>auto simp: rc_ready_def\<close>)

lemma sub_stream_Some: "sub_stream k docs = Inr d \<Longrightarrow> \<exists>d \<in> set docs. doc_id d = k"
  by (auto simp: sub_stream_def find_Some_iff split: option.splits)

lemma rc_CalculateSumChanges_stale: "rc_CalculateSumChanges (c\<lparr>rc_sumChanges := stale\<rparr>) = rc_CalculateSumChanges c"
  by (simp add: rc_CalculateSumChanges_def Let_def)

text \<open>The check of the sizes passes whatever the sums are.\<close>

lemma rc_finish_holds:
  assumes h: "rc_holds e revs" and n: "length revs + 1 < 2 ^ 24" and st: "rc_storedSize e = rc_size e"
    and c: "c\<lparr>rc_changedPathTypes := rc_changedPathTypes e, rc_textModifies := rc_textModifies e, rc_propsModifies := rc_propsModifies e,
      rc_storedSize := rc_storedSize e\<rparr> = e\<lparr>rc_sumChanges := stale\<rparr>"
  shows "rc_finish_read (Some (rc_changedPathTypes e)) (Some (rc_textModifies e)) (Some (rc_propsModifies e)) c =
    rc_CalculateSumChanges (e\<lparr>rc_sumChanges := stale\<rparr>)"
proof -
  note parts = h [unfolded rc_holds_def holds_std_def holds_changes_def holds_merges_def holds_props_def]
  let ?c = "c\<lparr>rc_changedPathTypes := rc_changedPathTypes e, rc_textModifies := rc_textModifies e, rc_propsModifies := rc_propsModifies e\<rparr>"
  have c': "?c\<lparr>rc_storedSize := rc_size ?c\<rparr> = e\<lparr>rc_sumChanges := stale\<rparr>"
    using arg_cong [OF c, of rc_authors] c st by (simp add: rc_size_def)
  have fields: "rc_authors c = rc_authors e" "rc_comments c = rc_comments e" "rc_timeStamps c = rc_timeStamps e"
      "rc_presenceFlags c = rc_presenceFlags e" "rc_rootPaths c = rc_rootPaths e" "rc_changesOffsets c = rc_changesOffsets e"
      "rc_mergedRevisionsOffsets c = rc_mergedRevisionsOffsets e" "rc_userRevPropOffsets c = rc_userRevPropOffsets e"
    using arg_cong [OF c, of rc_authors] arg_cong [OF c, of rc_comments] arg_cong [OF c, of rc_timeStamps]
      arg_cong [OF c, of rc_presenceFlags] arg_cong [OF c, of rc_rootPaths] arg_cong [OF c, of rc_changesOffsets]
      arg_cong [OF c, of rc_mergedRevisionsOffsets] arg_cong [OF c, of rc_userRevPropOffsets] by simp_all
  have la: "length (rc_authors e) = length revs" "length (rc_rootPaths e) = length revs" using rc_holds_lengths(1,5) [OF h] by simp_all
  have u: "unat (rc_size e) = length revs" using n la(1) by (simp add: rc_size_def unat_of_nat_small)
  have "length (ts_offsets (rc_comments e)) = length revs + 1" using parts ts_holds_length [of "rc_comments e"] by fastforce
  then have "ts_size (rc_comments e) = rc_size e" using la by (simp add: ts_size_def rc_size_def)
  moreover have "\<not> ucast (rc_size e) > (of_nat (length (rc_authors e)) :: size_t)"
    using n by (simp add: rc_size_def la ucast_of_nat_size)
  moreover have "length (rc_timeStamps e) = length revs" "length (rc_presenceFlags e) = length revs"
      "length (rc_changesOffsets e) = length revs + 1" "length (rc_userRevPropOffsets e) = length revs + 1"
      "length (rc_mergedRevisionsOffsets e) = length revs + 1"
    using parts by simp_all
  moreover have "rc_size ?c = rc_size e" by (simp add: rc_size_def fields)
  ultimately show ?thesis using c' la(2) u
    by (simp add: rc_finish_read_def ReadOrDefault_def Let_def fields)
qed

lemma rc_load_docs:
  assumes h: "rc_holds c revs" and st: "revs_storable revs" "rc_ready c" and t: "to_write_vector (rc_timeStamps c) time_out_init = Some t"
  shows "\<exists>c'. rc_load (map joined (rc_docs c t)) c0 = Inr c' \<and> rc_holds c' revs"
proof -
  let ?D = "map joined (rc_docs c t)"
  have parts: "holds_std c revs" "holds_changes c revs" "holds_merges c revs" "holds_props c revs" using h by (simp_all add: rc_holds_def)
  note d = parts [unfolded holds_std_def holds_changes_def holds_merges_def holds_props_def]
  have n: "length revs + 1 < 2 ^ 24" "length (all_changes revs) < 2 ^ 24" "length (all_props revs) + 1 < 2 ^ 24"
    using st(1) by (simp_all add: revs_storable_def)
  have pools: "pool_storable (rc_authorPool c)" "pool_storable (rc_userRevPropsPool c)" "paths_storable (rc_paths c)" using st(2) by (simp_all add: rc_ready_def)
  obtain w where w: "sd_read (map joined (sd_write (rc_authorPool c))) (rc_authorPool c0) = Inr w" "sd_inv w" "sd_strings w = sd_strings (rc_authorPool c)"
    using sd_read_write [of "rc_authorPool c" "rc_authorPool c0"] pool_storable_sizes [OF _ pools(1)] d(1) by blast
  obtain cm where cm: "ts_read (map joined (ts_docs (rc_comments c))) (rc_comments c0) = Inr cm" "ts_holds cm (map rv_comment revs)"
    using texts_ready [OF st(2), of "rc_comments c" "map rv_comment revs" "rc_comments c0"] d(1) n(1) by auto
  have pe: "length (sd_strings (pathElements (rc_paths c))) < 2 ^ 24" "length (packedStrings (pathElements (rc_paths c))) < 2 ^ 28"
      "length (ipd_data (paths (rc_paths c))) < 2 ^ 24"
    using pools(3) pool_storable_sizes [of "pathElements (rc_paths c)"] d(2) by (auto simp: paths_storable_def pd_inv_def)
  obtain p where p: "pd_read (map joined (pd_write (rc_paths c))) (rc_paths c0) = Inr p" "pd_inv p" "pd_keys p = pd_keys (rc_paths c)"
    using pd_read_write [OF _ pe, of "rc_paths c0"] d(2) by blast
  obtain u where u: "sd_read (map joined (sd_write (rc_userRevPropsPool c))) (rc_userRevPropsPool c0) = Inr u" "sd_inv u"
      "sd_strings u = sd_strings (rc_userRevPropsPool c)"
    using sd_read_write [of "rc_userRevPropsPool c" "rc_userRevPropsPool c0"] pool_storable_sizes [OF _ pools(2)] d(4) by blast
  obtain v where v: "ts_read (map joined (ts_docs (rc_userRevPropValues c))) (rc_userRevPropValues c0) = Inr v" "ts_holds v (map snd (all_props revs))"
    using texts_ready [OF st(2), of "rc_userRevPropValues c" "map snd (all_props revs)" "rc_userRevPropValues c0"] d(4) n(3) by auto
  note sm = rc_vectors_small [OF h st] and sub = rc_docs_subs [of c t]
  note ints = integer_vector_ok [OF sm(1) sub(1)]
    integer_vector_ok [OF sm(2) sub(2)]
    integer_vector_ok [OF sm(3) sub(3)]
    integer_vector_ok [OF sm(4) sub(4)]
    integer_vector_ok [OF sm(5) sub(5)]
    integer_vector_ok [OF sm(6) sub(6)]
    integer_vector_ok [OF sm(7) sub(7)]
    integer_vector_ok [OF sm(8) sub(8)]
    integer_vector_ok [OF sm(9) sub(9)]
    integer_vector_ok [OF sm(10) sub(10)]
    integer_vector_ok [OF sm(11) sub(11)]
    integer_vector_ok [OF sm(12) sub(12)]
    integer_vector_ok [OF sm(13) sub(13)]
  note offs = offset_vector_ok [OF sm(14) sub(14)] offset_vector_ok [OF sm(15) sub(15)] offset_vector_ok [OF sm(16) sub(16)]
  note dws = dword_vector_ok [OF sm(17) sub(17)] dword_vector_ok [OF sm(18) sub(18)] dword_vector_ok [OF sm(19) sub(19)]
  have "length (rc_timeStamps c) < 2 ^ 32" using d(1) n(1) by simp
  then have time: "time_vector 5 ?D = Inr (rc_timeStamps c)" using t sub(25) by (rule time_vector_ok)
  define c1 where "c1 = c0\<lparr>rc_authorPool := w, rc_comments := cm, rc_paths := p\<rparr>"
  define c2 where "c2 = c1\<lparr>rc_authors := rc_authors c, rc_timeStamps := rc_timeStamps c, rc_rootPaths := rc_rootPaths c,
    rc_changesOffsets := rc_changesOffsets c, rc_copyFromOffsets := rc_copyFromOffsets c, rc_mergedRevisionsOffsets := rc_mergedRevisionsOffsets c\<rparr>"
  define c3 where "c3 = c2\<lparr>rc_changes := rc_changes c, rc_changedPaths := rc_changedPaths c, rc_copyFromPaths := rc_copyFromPaths c,
    rc_copyFromRevisions := rc_copyFromRevisions c\<rparr>"
  define c4 where "c4 = c3\<lparr>rc_mergedFromPaths := rc_mergedFromPaths c, rc_mergedToPaths := rc_mergedToPaths c,
    rc_mergedRangeStarts := rc_mergedRangeStarts c, rc_mergedRangeDeltas := rc_mergedRangeDeltas c\<rparr>"
  define c5 where "c5 = c4\<lparr>rc_userRevPropOffsets := rc_userRevPropOffsets c, rc_userRevPropsPool := u, rc_userRevPropNames := rc_userRevPropNames c,
    rc_userRevPropValues := v, rc_presenceFlags := rc_presenceFlags c\<rparr>"
  have L1: "rc_load_pools ?D c0 = Inr c1" using w(1) cm(1) p(1) by (simp add: rc_load_pools_def sub c1_def)
  have L2: "rc_load_infos ?D c1 = Inr c2" by (simp add: rc_load_infos_def ints offs time c2_def)
  have L3: "rc_load_changes ?D c2 = Inr c3" by (simp add: rc_load_changes_def ints dws c3_def)
  have L4: "rc_load_merges ?D c3 = Inr c4" by (simp add: rc_load_merges_def ints c4_def)
  have "rc_userRevPropsPool c4 = rc_userRevPropsPool c0" "rc_userRevPropValues c4 = rc_userRevPropValues c0"
    by (simp_all add: c4_def c3_def c2_def c1_def)
  then have L5: "rc_load_props ?D c4 = Inr c5" using u(1) v(1) by (simp add: rc_load_props_def sub ints dws c5_def)
  define e where "e = c\<lparr>rc_authorPool := w, rc_userRevPropsPool := u, rc_paths := p, rc_comments := cm, rc_userRevPropValues := v, rc_storedSize := rc_size c\<rparr>"
  have "\<exists>pool values paths comments names stored. e = c\<lparr>rc_authorPool := pool, rc_userRevPropsPool := names, rc_paths := paths,
       rc_comments := comments, rc_userRevPropValues := values, rc_storedSize := stored\<rparr>" unfolding e_def by blast
  then have he: "rc_holds e revs"
    by (rule holds_transfer [OF h, rotated -1]) (use w(2,3) u(2,3) p(2,3) cm(2) v(2) in \<open>auto simp: e_def\<close>)
  have e_types: "rc_changedPathTypes c = rc_changedPathTypes e" "rc_textModifies c = rc_textModifies e" "rc_propsModifies c = rc_propsModifies e"
    by (simp_all add: e_def)
  have opt: "optional_vector 23 ?D = Inr (Some (map node_number (rc_changedPathTypes c)))"
    "optional_vector 24 ?D = Inr (Some (map ucast (rc_textModifies c)))" "optional_vector 25 ?D = Inr (Some (map ucast (rc_propsModifies c)))"
    using sub_stream_Some [OF sub(4)] sub_stream_Some [OF sub(7)] sub_stream_Some [OF sub(8)] by (auto simp: optional_vector_def ints)
  have "rc_finish_read (Some (rc_changedPathTypes c)) (Some (rc_textModifies c)) (Some (rc_propsModifies c)) c5 =
      rc_CalculateSumChanges (e\<lparr>rc_sumChanges := rc_sumChanges c0\<rparr>)"
    unfolding e_types
    by (rule rc_finish_holds [OF he n(1)]) (simp_all add: e_def c5_def c4_def c3_def c2_def c1_def rc_size_def)
  then have L6: "rc_load_optional ?D c5 = Inr e"
    using rc_CalculateSumChanges_stale [where c = e] rc_CalculateSumChanges_ok [of e revs] he n(2)
    by (simp add: rc_load_optional_def opt node_kinds_back rc_holds_def)
  show ?thesis using he by (simp add: rc_load_def L1 L2 L3 L4 L5 L6)
qed

lemma doc_counts:
  "doc_count (packed_doc i k s) = 1" "doc_count (integer_doc i vs) = 1" "doc_count (offset_doc i vs) = 1" "doc_count (dword_doc i vs) = 1"
  "doc_count (composite_doc i docs) = Suc (sum_list (map doc_count docs))"
  by (simp_all add: packed_doc_def integer_doc_def offset_doc_def dword_doc_def composite_doc_def)

lemma pool_counts: "sum_list (map doc_count (sd_write w)) = 2" "sum_list (map doc_count (ipd_write d)) = 2"
    "sum_list (map doc_count (pd_write p)) = 6" "sum_list (map doc_count (ts_docs u)) = 8"
    "length (sd_write w) = 2" "length (pd_write p) = 2" "length (ts_docs u) = 4"
  by (simp_all add: sd_write_def ipd_write_def pd_write_def ts_docs_def doc_counts)

lemma rc_docs_ok:
  assumes h: "rc_holds c revs" and st: "revs_storable revs" "rc_ready c" and t: "to_write_vector (rc_timeStamps c) time_out_init = Some t"
  shows "docs_ok (rc_docs c t)"
proof -
  note sm = rc_vectors_small [OF h st] and parts = h [unfolded rc_holds_def holds_std_def holds_changes_def holds_merges_def holds_props_def]
  have lens: "small_ints vs \<Longrightarrow> length vs < 2 ^ 24" "small_offsets vs \<Longrightarrow> length vs < 2 ^ 24" "small_dwords vs \<Longrightarrow> length vs < 2 ^ 24" for vs
    by (simp_all add: small_ints_def small_offsets_def small_dwords_def)
  note ok = sm(1-13) [THEN lens(1), THEN vector_docs_ok(1)] sm(14-16) [THEN lens(2), THEN vector_docs_ok(2)]
    sm(17-19) [THEN lens(3), THEN vector_docs_ok(3)]
  have "length (rc_timeStamps c) < 2 ^ 24" using parts st(1) by (simp add: revs_storable_def)
  note time = time_doc_ok [OF t this]
  have ws: "sd_inv (rc_authorPool c)" "sd_inv (rc_userRevPropsPool c)" "pd_inv (rc_paths c)" using parts by simp_all
  have p1: "length (packedStrings (rc_authorPool c)) < 2 ^ 28" "length (packedStrings (rc_userRevPropsPool c)) < 2 ^ 28"
    using pool_storable_sizes ws st(2) by (auto simp: rc_ready_def)
  have p2: "length (packedStrings (pathElements (rc_paths c))) < 2 ^ 28" "length (ipd_data (paths (rc_paths c))) < 2 ^ 24"
    using pool_storable_sizes [of "pathElements (rc_paths c)"] ws(3) st(2) by (auto simp: rc_ready_def paths_storable_def pd_inv_def)
  note ss = sd_write_docs [OF p1(1)] sd_write_docs [OF p1(2)] sd_write_docs [OF p2(1)] ipd_write_docs [OF p2(2)]
  have pd: "\<forall>x \<in> set (pd_write (rc_paths c)). doc_ok x" "distinct (map doc_id (pd_write (rc_paths c)))"
    using composite_ok [OF sd_write_docs(1,2) [OF p2(1)]] composite_ok [OF ipd_write_docs(1,2) [OF p2(2)]] ss
    by (simp_all add: pd_write_def del: doc_ok.simps)
  have td: "docs_ok (ts_docs u)" if "u = rc_comments c \<or> u = rc_userRevPropValues c" "ts_holds u us" "length us + 1 < 2 ^ 24" for u us
  proof (rule ts_docs_ok)
    have "sd_inv (ts_words u)" using ts_holds_tokens [OF that(2)] by (simp add: tokens_ok_def)
    then show "length (packedStrings (ts_words u)) < 2 ^ 28" using pool_storable_sizes [of "ts_words u"] st(2) that(1) by (auto simp: rc_ready_def)
  qed (use that st(2) ts_holds_length [OF that(2)] in \<open>auto simp: rc_ready_def\<close>)
  have cs: "docs_ok (ts_docs (rc_comments c))" using parts st(1) by (intro td [of _ "map rv_comment revs"]) (simp_all add: revs_storable_def)
  have vs: "docs_ok (ts_docs (rc_userRevPropValues c))"
    using parts st(1) by (intro td [of _ "map snd (all_props revs)"]) (simp_all add: revs_storable_def)
  have comp: "doc_ok (composite_doc i docs)" if "\<forall>x \<in> set docs. doc_ok x" "distinct (map doc_id docs)" "length docs \<le> 4" for i docs
    unfolding composite_doc_def using that by (intro composite_ok) simp_all
  have comps: "doc_ok (composite_doc 1 (sd_write (rc_authorPool c)))" "doc_ok (composite_doc 19 (sd_write (rc_userRevPropsPool c)))"
    "doc_ok (composite_doc 3 (pd_write (rc_paths c)))" "doc_ok (composite_doc 2 (ts_docs (rc_comments c)))"
    "doc_ok (composite_doc 21 (ts_docs (rc_userRevPropValues c)))"
    using ss(1,2,5,6) pd cs vs by (auto intro!: comp simp: pool_counts docs_ok_def simp del: doc_ok.simps)
  have "\<forall>d \<in> set (rc_docs c t). doc_ok d"
    unfolding rc_docs_def using ok time comps by (simp del: doc_ok.simps)
  moreover have "distinct (map doc_id (rc_docs c t))" by (simp add: rc_docs_def)
  moreover have "length (rc_docs c t) = 25" "sum_list (map doc_count (rc_docs c t)) \<le> 100"
    by (simp_all add: rc_docs_def doc_counts pool_counts)
  ultimately show ?thesis by (simp add: docs_ok_def del: doc_ok.simps)
qed

lemma ts_write_ready:
  assumes "ts_holds c texts" "texts_storable c" "length texts < 2 ^ 32"
  shows "\<exists>docs c'. ts_write c = Some (Inr (docs, c')) \<and> ts_holds c' texts \<and> pairs_readable (ts_words c') (ts_pairs c') \<and>
    pool_storable (ts_words c') \<and> length (ipd_data (ts_pairs c')) < 2 ^ 24 \<and> length (ts_stringData c') < 2 ^ 24"
proof -
  have st: "leading c" "compress_room c" "pairs_readable (ts_words c) (ts_pairs c)" "pool_storable (ts_words c)" "potential c < 2 ^ 24"
    using assms(2) by (simp_all add: texts_storable_def)
  obtain c' where c': "AutoCompress c = Some (Inr c')" "ts_holds c' texts" "potential c' \<le> potential c" "ts_words c' = ts_words c"
      "pairs_readable (ts_words c') (ts_pairs c')"
    using AutoCompress_ok [OF assms(1) st(1,2) assms(3)] st(3) by blast
  then show ?thesis using st(4,5) by (simp add: ts_write_def potential_def)
qed

definition rc_storable :: "revision_info \<Rightarrow> bool" where
  "rc_storable c \<longleftrightarrow> pool_storable (rc_authorPool c) \<and> pool_storable (rc_userRevPropsPool c) \<and> paths_storable (rc_paths c) \<and>
     texts_storable (rc_comments c) \<and> texts_storable (rc_userRevPropValues c)"

lemma rc_write_ok:
  assumes srt: "\<And>xs. mset (std_sort xs) = mset xs" "\<And>xs. sorted_wrt (\<lambda>a b. \<not> pi_less b a) (std_sort xs)"
    and h: "rc_holds c revs" and room: "rc_room k c" and st: "rc_storable c" "revs_storable revs"
  shows "\<exists>t c1 revs'. rc_write std_sort c = Some (Inr (rc_docs c1 t, c1)) \<and> rc_holds c1 revs' \<and> reordered revs revs' \<and>
    rc_small revs' \<and> rc_ready c1 \<and> revs_storable revs' \<and> to_write_vector (rc_timeStamps c1) time_out_init = Some t"
proof -
  obtain o1 revs' where o1: "rc_AutoOptimize std_sort c = Inr o1" "rc_holds o1 revs'" "rc_small revs'" "reordered revs revs'" "keeps_pools c o1"
    using rc_AutoOptimize_ok [where std_sort = std_sort, OF srt h room] by blast
  have st': "revs_storable revs'" by (rule revs_storable_reordered [OF o1(4) st(2)])
  then have n: "length revs' < 2 ^ 32" "length (all_props revs') < 2 ^ 32" by (simp_all add: revs_storable_def)
  note parts = o1(2) [unfolded rc_holds_def holds_std_def holds_changes_def holds_merges_def holds_props_def]
  note same = o1(5) [unfolded keeps_pools_def] and stor = st(1) [unfolded rc_storable_def]
  have ss: "texts_storable (rc_comments o1)" "texts_storable (rc_userRevPropValues o1)" using same stor by simp_all
  have hs: "ts_holds (rc_comments o1) (map rv_comment revs')" "ts_holds (rc_userRevPropValues o1) (map snd (all_props revs'))"
    using parts by simp_all
  obtain d1 cm where cm: "ts_write (rc_comments o1) = Some (Inr (d1, cm))" "ts_holds cm (map rv_comment revs')" "pairs_readable (ts_words cm) (ts_pairs cm)"
    "pool_storable (ts_words cm)" "length (ipd_data (ts_pairs cm)) < 2 ^ 24" "length (ts_stringData cm) < 2 ^ 24"
    using ts_write_ready [OF hs(1) ss(1)] n(1) by auto
  obtain d2 v where v: "ts_write (rc_userRevPropValues o1) = Some (Inr (d2, v))" "ts_holds v (map snd (all_props revs'))"
    "pairs_readable (ts_words v) (ts_pairs v)"
    "pool_storable (ts_words v)" "length (ipd_data (ts_pairs v)) < 2 ^ 24" "length (ts_stringData v) < 2 ^ 24"
    using ts_write_ready [OF hs(2) ss(2)] n(2) by auto
  define c1 where "c1 = o1\<lparr>rc_comments := cm, rc_userRevPropValues := v, rc_storedSize := rc_size o1\<rparr>"
  have "\<exists>pool values paths comments names stored. c1 = o1\<lparr>rc_authorPool := pool, rc_userRevPropsPool := names, rc_paths := paths,
       rc_comments := comments, rc_userRevPropValues := values, rc_storedSize := stored\<rparr>"
    unfolding c1_def by (intro exI [of _ "rc_authorPool o1"] exI [of _ v] exI [of _ "rc_paths o1"] exI [of _ cm]
      exI [of _ "rc_userRevPropsPool o1"] exI [of _ "rc_size o1"]) simp
  then have h1: "rc_holds c1 revs'"
    by (rule holds_transfer [OF o1(2), rotated -1]) (use parts cm(2) v(2) in \<open>simp_all add: c1_def\<close>)
  have "pool_storable (rc_authorPool o1)" using pool_storable_mset [of "rc_authorPool o1" "rc_authorPool c"] same stor by simp
  then have "rc_ready c1" using cm(3-) v(3-) same stor by (simp add: rc_ready_def c1_def)
  moreover obtain t where t: "to_write_vector (rc_timeStamps o1) time_out_init = Some t"
    using time_vector_back [of "rc_timeStamps o1"] n(1) parts by auto
  ultimately show ?thesis
    using o1(1,3,4) cm(1) v(1) h1 st' by (auto simp: rc_write_def rc_docs_def rc_size_def c1_def Let_def)
qed

text \<open>
  C15.  The revisions survive their cache file.  Writing optimises the container, which may reorder the changes of a revision, and
  compresses its texts; when the file is read, the check of the loaded data accepts it and every revision reads back as it stood in the
  container when it was written: author, date, comment, changes with their copy sources, merges, undone ones included, and revision
  properties.  The bounds are those of \<open>rc_storable\<close> and \<open>revs_storable\<close>: fewer than \<open>2 ^ 24\<close> entries in each vector and pool,
  copy sources, starts and absolute deltas of merges below \<open>2 ^ 29\<close>, and no revision with all eight presence flags, which the
  stream of the flags cannot hold.
\<close>

theorem revision_info_in_file:
  assumes "\<And>xs. mset (std_sort xs) = mset xs" "\<And>xs. sorted_wrt (\<lambda>a b. \<not> pi_less b a) (std_sort xs)"
    and "rc_holds c revs" "rc_room k c" "rc_storable c" "revs_storable revs"
  shows "\<exists>docs c1 file docs' c2 revs'. rc_write std_sort c = Some (Inr (docs, c1)) \<and> save_file docs = Some (Inr (Some file)) \<and>
    load_file file = Some (Inr docs') \<and> rc_load docs' c0 = Inr c2 \<and> reordered revs revs' \<and>
    (\<forall>i < length revs. rc_read c1 (of_nat i) = Some (revs' ! i) \<and> rc_read c2 (of_nat i) = Some (revs' ! i))"
proof -
  obtain t c1 revs' where c1: "rc_write std_sort c = Some (Inr (rc_docs c1 t, c1))" "rc_holds c1 revs'" "reordered revs revs'"
      "rc_small revs'" "rc_ready c1" "revs_storable revs'" "to_write_vector (rc_timeStamps c1) time_out_init = Some t"
    using rc_write_ok [where std_sort = std_sort, OF assms] by blast
  obtain bytes where bytes: "save_file (rc_docs c1 t) = Some (Inr (Some bytes))" "load_file bytes = Some (Inr (map joined (rc_docs c1 t)))"
    using save_load [OF rc_docs_ok [OF c1(2,6,5,7)]] by blast
  obtain c2 where c2: "rc_load (map joined (rc_docs c1 t)) c0 = Inr c2" "rc_holds c2 revs'"
    using rc_load_docs [OF c1(2,6,5,7)] by blast
  have "length revs' = length revs" using reordered_keeps [OF c1(3)] by simp
  then have "\<forall>i < length revs. rc_read c1 (of_nat i) = Some (revs' ! i) \<and> rc_read c2 (of_nat i) = Some (revs' ! i)"
    using rc_read_ok [OF c1(2,4)] rc_read_ok [OF c2(2) c1(4)] by simp
  then show ?thesis using c1(1,3) bytes c2(1) by blast
qed

text \<open>
  A container with one revision: a change of the root, copied from revision 5, an undone merge and a property; the texts are one word.
\<close>

definition sample_revision :: revision where
  "sample_revision = \<lparr>rv_author = [102, 105, 120], rv_comment = [102, 105, 120], rv_time = 1000, rv_flags = 0x1E,
     rv_changes = [\<lparr>ch_action = 0x10, ch_type = node_dir, ch_path = [], ch_from = Some ([], 5), ch_text = 1, ch_props = 2\<rparr>],
     rv_merges = [([], [], 7, - 2)], rv_props = [([102, 105, 120], [102, 105, 120])]\<rparr>"

lemma sample_storable:
  "\<exists>c. rc_holds c [sample_revision] \<and> rc_room 0 c \<and> rc_storable c \<and> revs_storable [sample_revision]"
proof -
  obtain w where w: "sd_inv w" "sd_strings w = [[], [102, 105, 120]]" "load_ok (sd_hashIndex w)" and
    "\<forall>c. c = \<lparr>ts_words = w, ts_pairs = ipd_init, ts_stringData = [GetWordToken 1], ts_offsets = [0, 1]\<rparr> \<longrightarrow>
       ts_holds c [[102, 105, 120]] \<and> leading c \<and> compress_room c \<and> pairs_readable (ts_words c) (ts_pairs c) \<and> potential c < 2 ^ 24"
    using sample_texts by blast
  moreover define t where "t = \<lparr>ts_words = w, ts_pairs = ipd_init, ts_stringData = [GetWordToken 1], ts_offsets = [0, 1]\<rparr>"
  ultimately have t: "ts_holds t [[102, 105, 120]]" "leading t" "compress_room t" "pairs_readable (ts_words t) (ts_pairs t)" "potential t < 2 ^ 24"
      "ts_words t = w" "length (ts_stringData t) = 1"
    by simp_all
  obtain d where d: "pd_inv d" "pd_keys d = [(NO_INDEX, [])]" "sd_strings (pathElements d) = [[]]" "pd_light d" using pd_init_ok by blast
  have ld: "length (ipd_data (paths d)) = 1" using arg_cong [OF d(2), of length] by (simp only: length_pd_keys) simp
  define c where "c = \<lparr>rc_authorPool = w, rc_paths = d, rc_presenceFlags = [0x1E], rc_comments = t, rc_authors = [1], rc_timeStamps = [1000],
    rc_rootPaths = [0], rc_sumChanges = [0x11], rc_changesOffsets = [0, 1], rc_copyFromOffsets = [0, 1], rc_mergedRevisionsOffsets = [0, 1],
    rc_userRevPropOffsets = [0, 1], rc_changes = [0x11], rc_changedPaths = [0], rc_changedPathTypes = [node_dir], rc_copyFromPaths = [0],
    rc_copyFromRevisions = [5], rc_textModifies = [1], rc_propsModifies = [2], rc_mergedFromPaths = [0], rc_mergedToPaths = [0],
    rc_mergedRangeStarts = [7], rc_mergedRangeDeltas = [- 2], rc_userRevPropsPool = w, rc_userRevPropNames = [1], rc_userRevPropValues = t,
    rc_storedSize = 0\<rparr>"
  have s: "stands d 0 []" using d(2) ld by (simp add: stands_def pd_path_def)
  have n: "names w 1 [102, 105, 120]" using w(2) by (simp add: names_def)
  have wr: "words_room 0 w" using w(2,3) by (simp add: words_room_def)
  have pw: "pool_storable w" using w(2) by (simp add: pool_storable_def)
  have "holds_std c [sample_revision]" using w(1) n t(1) by (simp add: holds_std_def c_def sample_revision_def)
  moreover have "holds_changes c [sample_revision]" using d(1) s
    by (simp add: holds_changes_def c_def sample_revision_def root_of_def offsets_of_def sum_of_def change_byte_def HAS_COPY_FROM_def
      copies_def all_changes_def ANY_ACTION_def)
  moreover have "holds_merges c [sample_revision]" using s
    by (simp add: holds_merges_def c_def sample_revision_def offsets_of_def all_merges_def)
  moreover have "holds_props c [sample_revision]" using w(1) n t(1)
    by (simp add: holds_props_def c_def sample_revision_def offsets_of_def all_props_def)
  ultimately have "rc_holds c [sample_revision]" by (simp add: rc_holds_def)
  moreover have "rc_room 0 c" using wr d(3,4) ld t(6,7) by (simp add: rc_room_def c_def texts_room_def pd_room_def)
  moreover have "texts_storable t" using t pw by (simp add: texts_storable_def)
  moreover have "paths_storable d" using d(3) ld by (simp add: paths_storable_def pool_storable_def)
  ultimately have "rc_holds c [sample_revision] \<and> rc_room 0 c \<and> rc_storable c" using pw by (simp add: rc_storable_def c_def)
  moreover have "revs_storable [sample_revision]"
    by (simp add: revs_storable_def sample_revision_def all_changes_def all_merges_def all_props_def copies_def)
  ultimately show ?thesis by blast
qed

theorem revision_info_in_file_witness:
  "\<exists>c docs c1 file docs' c2. rc_holds c [sample_revision] \<and> rc_write (sort_by pi_less) c = Some (Inr (docs, c1)) \<and>
    save_file docs = Some (Inr (Some file)) \<and> load_file file = Some (Inr docs') \<and> rc_load docs' c = Inr c2 \<and>
    rc_read c2 0 = Some sample_revision"
proof -
  obtain c where c: "rc_holds c [sample_revision]" "rc_room 0 c" "rc_storable c" "revs_storable [sample_revision]" using sample_storable by blast
  obtain docs c1 bytes docs' c2 rs where f: "rc_write (sort_by pi_less) c = Some (Inr (docs, c1))" "save_file docs = Some (Inr (Some bytes))"
      "load_file bytes = Some (Inr docs')" "rc_load docs' c = Inr c2" "reordered [sample_revision] rs"
      "\<forall>i < length [sample_revision]. rc_read c1 (of_nat i) = Some (rs ! i) \<and> rc_read c2 (of_nat i) = Some (rs ! i)"
    using revision_info_in_file [where std_sort = "sort_by pi_less" and ?c0.0 = c, OF mset_sort_by sort_by_pi_less c] by blast
  have "rs = [sample_revision]"
    using f(5) by (auto simp: reordered_def list_all2_Cons1 same_changes_def sample_revision_def)
  then have "rc_read c2 0 = Some sample_revision" using f(6) by simp
  then show ?thesis using c(1) f(1-4) by blast
qed

end
