(* ===== verification/RevisionInfoUpdate.thy ===== *)
theory RevisionInfoUpdate
  imports RevisionInfoOptimize
begin

section \<open>Updating revisions from another container (src/LogCache/Containers/RevisionInfoContainer.cpp)\<close>

text \<open>
  \<open>Update\<close> copies what another container knows about its revisions; a map gives, for a revision of the container, the
  revision of the other one, and revisions behind the end are new.  The lemmas show that each revision becomes what
  \<open>merged_revision\<close> says; comments and the values of the revision properties only in the orders in which the batch
  replacement of the texts appends them.
\<close>

subsection \<open>New entries\<close>

definition rc_AppendNewEntries :: "(byte \<Rightarrow> bool) \<Rightarrow> index_mapping_t \<Rightarrow> revision_info \<Rightarrow> container_error + revision_info" where
  "rc_AppendNewEntries outside indexMap c =
     (let oldCount = rc_size c; toAppend = length (filter (\<lambda>(key, v). key \<ge> oldCount) (qm_data indexMap))
      in if toAppend = 0 then Inr c
         else
           bindE (of_run (ts_Insert_copies outside [] toAppend (rc_comments c))) (\<lambda>(_, comments).
           bindE (vback (rc_changesOffsets c)) (\<lambda>lastChange.
           bindE (vback (rc_copyFromOffsets c)) (\<lambda>lastCopyFrom.
           bindE (vback (rc_mergedRevisionsOffsets c)) (\<lambda>lastMerge.
           bindE (vback (rc_userRevPropOffsets c)) (\<lambda>lastProp.
             Inr (c\<lparr>rc_authors := rc_authors c @ replicate toAppend 0, rc_timeStamps := rc_timeStamps c @ replicate toAppend 0,
                    rc_presenceFlags := rc_presenceFlags c @ replicate toAppend 0,
                    rc_rootPaths := rc_rootPaths c @ replicate toAppend NO_INDEX, rc_sumChanges := rc_sumChanges c @ replicate toAppend 0,
                    rc_comments := comments, rc_changesOffsets := rc_changesOffsets c @ replicate toAppend lastChange,
                    rc_copyFromOffsets := rc_copyFromOffsets c @ replicate toAppend lastCopyFrom,
                    rc_mergedRevisionsOffsets := rc_mergedRevisionsOffsets c @ replicate toAppend lastMerge,
                    rc_userRevPropOffsets := rc_userRevPropOffsets c @ replicate toAppend lastProp\<rparr>)))))))"

subsection \<open>Entries of one vector\<close>

text \<open>Whether the other container has the data of a revision, or replaces it anyway.\<close>

definition takes :: "revision_info \<Rightarrow> bool \<Rightarrow> byte \<Rightarrow> index_t \<Rightarrow> bool option" where
  "takes newData keepOld flag sourceIndex =
     (if keepOld then map_option (\<lambda>f. f AND flag \<noteq> 0) (vat (rc_presenceFlags newData) sourceIndex) else Some True)"

fun update_entries ::
    "(index_t \<Rightarrow> bool option) \<Rightarrow> (index_t \<Rightarrow> 'a \<Rightarrow> 'a option) \<Rightarrow> (index_t \<times> index_t) list \<Rightarrow> 'a list \<Rightarrow> 'a list option" where
  "update_entries tk f [] xs = Some xs"
| "update_entries tk f ((key, v) # es) xs = do {
     t \<leftarrow> tk v;
     xs \<leftarrow> (if t then do { old \<leftarrow> vat xs key; x \<leftarrow> f v old; vset xs key x } else Some xs);
     update_entries tk f es xs
   }"

definition rc_UpdateAuthors ::
    "revision_info \<Rightarrow> index_mapping_t \<Rightarrow> bool \<Rightarrow> revision_info \<Rightarrow> container_error + revision_info" where
  "rc_UpdateAuthors newData indexMap keepOld c =
     bindE (sd_Merge (rc_authorPool newData) (rc_authorPool c)) (\<lambda>(authorPool, idMapping).
     bindE (of_opt (update_entries (takes newData keepOld HAS_AUTHOR)
              (\<lambda>v old. Option.bind (vat (rc_authors newData) v) (qm_lookup index_conv idMapping)) (qm_data indexMap) (rc_authors c))) (\<lambda>authors.
       Inr (c\<lparr>rc_authorPool := authorPool, rc_authors := authors\<rparr>)))"

definition rc_UpdateTimeStamps ::
    "revision_info \<Rightarrow> index_mapping_t \<Rightarrow> bool \<Rightarrow> revision_info \<Rightarrow> container_error + revision_info" where
  "rc_UpdateTimeStamps newData indexMap keepOld c =
     bindE (of_opt (update_entries (takes newData keepOld HAS_TIME_STAMP) (\<lambda>v old. vat (rc_timeStamps newData) v)
              (qm_data indexMap) (rc_timeStamps c))) (\<lambda>timeStamps. Inr (c\<lparr>rc_timeStamps := timeStamps\<rparr>))"

definition rc_UpdatePresenceFlags ::
    "revision_info \<Rightarrow> index_mapping_t \<Rightarrow> byte \<Rightarrow> bool \<Rightarrow> revision_info \<Rightarrow> container_error + revision_info" where
  "rc_UpdatePresenceFlags newData indexMap flags keepOld c =
     bindE (of_opt (update_entries (\<lambda>_. Some True)
              (\<lambda>v old. map_option (\<lambda>f. let setValues = f AND flags in if keepOld then old OR setValues else (old AND NOT flags) OR setValues)
                 (vat (rc_presenceFlags newData) v))
              (qm_data indexMap) (rc_presenceFlags c))) (\<lambda>presenceFlags. Inr (c\<lparr>rc_presenceFlags := presenceFlags\<rparr>))"

subsection \<open>Comments\<close>

fun filter_mapping :: "(index_t \<Rightarrow> bool option) \<Rightarrow> (index_t \<times> index_t) list \<Rightarrow> index_mapping_t \<Rightarrow> index_mapping_t option" where
  "filter_mapping tk [] m = Some m"
| "filter_mapping tk ((key, v) # es) m = do {
     t \<leftarrow> tk v;
     m \<leftarrow> (if t then qm_insert index_conv key v m else Some m);
     filter_mapping tk es m
   }"

definition rc_UpdateComments ::
    "(byte \<Rightarrow> bool) \<Rightarrow> revision_info \<Rightarrow> index_mapping_t \<Rightarrow> bool \<Rightarrow> revision_info \<Rightarrow> container_error + revision_info" where
  "rc_UpdateComments outside newData indexMap keepOld c =
     bindE (of_opt (filter_mapping (takes newData keepOld HAS_COMMENT) (qm_data indexMap) qm_init)) (\<lambda>toReplace.
     bindE (of_run (ts_Replace outside (rc_comments newData) toReplace (rc_comments c))) (\<lambda>comments.
       Inr (c\<lparr>rc_comments := comments\<rparr>)))"

subsection \<open>Changes\<close>

text \<open>
  The source of the data for the revision \<open>i\<close>, if the other container has it: the outer result is \<open>None\<close> when reading its flags
  is undefined.
\<close>

definition update_source :: "revision_info \<Rightarrow> index_mapping_t \<Rightarrow> bool \<Rightarrow> byte \<Rightarrow> index_t \<Rightarrow> index_t option option" where
  "update_source newData indexMap keepOld flag i =
     (case qm_lookup index_conv indexMap i of
        None \<Rightarrow> Some None
      | Some v \<Rightarrow> map_option (\<lambda>t. if t then Some v else None) (takes newData keepOld flag v))"

text \<open>Part of a vector: \<open>copied\<close> is the loop over the entries of a revision, \<open>kept\<close> the insertion of a range.\<close>

definition copied :: "(index_t \<Rightarrow> 'a option) \<Rightarrow> index_t list \<Rightarrow> index_t \<Rightarrow> 'a list option" where
  "copied f offs sourceIndex = do {
     first \<leftarrow> vat offs sourceIndex;
     stop \<leftarrow> vat offs (sourceIndex + 1);
     ks \<leftarrow> positions first stop;
     those (map f ks)
   }"

definition kept :: "'a list \<Rightarrow> index_t \<Rightarrow> index_t \<Rightarrow> 'a list option" where
  "kept xs first stop =
     (if first \<le> stop \<and> unat stop \<le> length xs then Some (take (unat stop - unat first) (drop (unat first) xs)) else None)"

text \<open>The entries that belong to the changes of one or more revisions.\<close>

record change_entries =
  ce_changes :: "byte list"
  ce_types :: "node_kind list"
  ce_paths :: "index_t list"
  ce_texts :: "byte list"
  ce_props :: "byte list"
  ce_fromPaths :: "index_t list"
  ce_fromRevisions :: "revision_t list"

definition copied_changes :: "revision_info \<Rightarrow> index_mapping_t \<Rightarrow> index_t \<Rightarrow> change_entries option" where
  "copied_changes newData pathIDMapping sourceIndex = do {
     changes \<leftarrow> copied (vat (rc_changes newData)) (rc_changesOffsets newData) sourceIndex;
     types \<leftarrow> copied (vat (rc_changedPathTypes newData)) (rc_changesOffsets newData) sourceIndex;
     paths \<leftarrow> copied (\<lambda>k. Option.bind (vat (rc_changedPaths newData) k) (qm_lookup index_conv pathIDMapping))
                (rc_changesOffsets newData) sourceIndex;
     texts \<leftarrow> copied (vat (rc_textModifies newData)) (rc_changesOffsets newData) sourceIndex;
     props \<leftarrow> copied (vat (rc_propsModifies newData)) (rc_changesOffsets newData) sourceIndex;
     fromRevisions \<leftarrow> copied (vat (rc_copyFromRevisions newData)) (rc_copyFromOffsets newData) sourceIndex;
     fromPaths \<leftarrow> copied (\<lambda>k. Option.bind (vat (rc_copyFromPaths newData) k) (qm_lookup index_conv pathIDMapping))
                (rc_copyFromOffsets newData) sourceIndex;
     Some \<lparr>ce_changes = changes, ce_types = types, ce_paths = paths, ce_texts = texts, ce_props = props, ce_fromPaths = fromPaths,
           ce_fromRevisions = fromRevisions\<rparr>
   }"

definition kept_changes :: "revision_info \<Rightarrow> index_t \<Rightarrow> index_t \<Rightarrow> index_t \<Rightarrow> index_t \<Rightarrow> change_entries option" where
  "kept_changes old firstChange lastChange firstCopy lastCopy = do {
     changes \<leftarrow> kept (rc_changes old) firstChange lastChange;
     types \<leftarrow> kept (rc_changedPathTypes old) firstChange lastChange;
     paths \<leftarrow> kept (rc_changedPaths old) firstChange lastChange;
     texts \<leftarrow> kept (rc_textModifies old) firstChange lastChange;
     props \<leftarrow> kept (rc_propsModifies old) firstChange lastChange;
     fromPaths \<leftarrow> (if firstCopy \<noteq> lastCopy then kept (rc_copyFromPaths old) firstCopy lastCopy else Some []);
     fromRevisions \<leftarrow> (if firstCopy \<noteq> lastCopy then kept (rc_copyFromRevisions old) firstCopy lastCopy else Some []);
     Some \<lparr>ce_changes = changes, ce_types = types, ce_paths = paths, ce_texts = texts, ce_props = props, ce_fromPaths = fromPaths,
           ce_fromRevisions = fromRevisions\<rparr>
   }"

definition append_changes :: "change_entries \<Rightarrow> revision_info \<Rightarrow> revision_info" where
  "append_changes e c =
     c\<lparr>rc_changes := rc_changes c @ ce_changes e, rc_changedPathTypes := rc_changedPathTypes c @ ce_types e,
       rc_changedPaths := rc_changedPaths c @ ce_paths e, rc_textModifies := rc_textModifies c @ ce_texts e,
       rc_propsModifies := rc_propsModifies c @ ce_props e, rc_copyFromPaths := rc_copyFromPaths c @ ce_fromPaths e,
       rc_copyFromRevisions := rc_copyFromRevisions c @ ce_fromRevisions e\<rparr>"

definition copy_root :: "revision_info \<Rightarrow> index_mapping_t \<Rightarrow> index_t \<Rightarrow> index_t \<Rightarrow> revision_info \<Rightarrow> revision_info option" where
  "copy_root newData pathIDMapping sourceIndex i c = do {
     root \<leftarrow> Option.bind (vat (rc_rootPaths newData) sourceIndex) (qm_lookup index_conv pathIDMapping);
     roots \<leftarrow> vset (rc_rootPaths c) i root;
     s \<leftarrow> vat (rc_sumChanges newData) sourceIndex;
     sums \<leftarrow> vset (rc_sumChanges c) i s;
     Some (c\<lparr>rc_rootPaths := roots, rc_sumChanges := sums\<rparr>)
   }"

text \<open>The loop over the revisions; \<open>old\<close> holds the vectors that were swapped out.\<close>

fun splice_changes ::
    "revision_info \<Rightarrow> index_mapping_t \<Rightarrow> index_mapping_t \<Rightarrow> bool \<Rightarrow> revision_info \<Rightarrow> nat list \<Rightarrow> index_t \<Rightarrow> index_t \<Rightarrow> revision_info \<Rightarrow>
     revision_info option" where
  "splice_changes newData indexMap pathIDMapping keepOld old [] firstChange firstCopy c = Some c"
| "splice_changes newData indexMap pathIDMapping keepOld old (i # is) firstChange firstCopy c = do {
     source \<leftarrow> update_source newData indexMap keepOld HAS_CHANGEDPATHS (of_nat i);
     lastChange \<leftarrow> vat (rc_changesOffsets c) (of_nat i + 1);
     lastCopy \<leftarrow> vat (rc_copyFromOffsets c) (of_nat i + 1);
     c \<leftarrow> (case source of
            Some sourceIndex \<Rightarrow> do {
              e \<leftarrow> copied_changes newData pathIDMapping sourceIndex;
              copy_root newData pathIDMapping sourceIndex (of_nat i) (append_changes e c)
            }
          | None \<Rightarrow> map_option (\<lambda>e. append_changes e c) (kept_changes old firstChange lastChange firstCopy lastCopy));
     splice_changes newData indexMap pathIDMapping keepOld old is lastChange lastCopy
       (c\<lparr>rc_changesOffsets := (rc_changesOffsets c)[i + 1 := of_nat (length (rc_changes c))],
          rc_copyFromOffsets := (rc_copyFromOffsets c)[i + 1 := of_nat (length (rc_copyFromPaths c))]\<rparr>)
   }"

definition rc_UpdateChanges ::
    "revision_info \<Rightarrow> index_mapping_t \<Rightarrow> index_mapping_t \<Rightarrow> bool \<Rightarrow> revision_info \<Rightarrow> container_error + revision_info" where
  "rc_UpdateChanges newData indexMap pathIDMapping keepOld c =
     of_opt (splice_changes newData indexMap pathIDMapping keepOld c [0..<unat (rc_size c)] 0 0
       (c\<lparr>rc_changes := [], rc_changedPaths := [], rc_changedPathTypes := [], rc_copyFromPaths := [], rc_copyFromRevisions := [],
          rc_textModifies := [], rc_propsModifies := []\<rparr>))"

subsection \<open>Merges\<close>

record merge_entries =
  me_fromPaths :: "index_t list"
  me_toPaths :: "index_t list"
  me_starts :: "revision_t list"
  me_deltas :: "revision_t list"

definition copied_merges :: "revision_info \<Rightarrow> index_mapping_t \<Rightarrow> index_t \<Rightarrow> merge_entries option" where
  "copied_merges newData pathIDMapping sourceIndex = do {
     fromPaths \<leftarrow> copied (\<lambda>k. Option.bind (vat (rc_mergedFromPaths newData) k) (qm_lookup index_conv pathIDMapping))
                    (rc_mergedRevisionsOffsets newData) sourceIndex;
     toPaths \<leftarrow> copied (\<lambda>k. Option.bind (vat (rc_mergedToPaths newData) k) (qm_lookup index_conv pathIDMapping))
                  (rc_mergedRevisionsOffsets newData) sourceIndex;
     starts \<leftarrow> copied (vat (rc_mergedRangeStarts newData)) (rc_mergedRevisionsOffsets newData) sourceIndex;
     deltas \<leftarrow> copied (vat (rc_mergedRangeDeltas newData)) (rc_mergedRevisionsOffsets newData) sourceIndex;
     Some \<lparr>me_fromPaths = fromPaths, me_toPaths = toPaths, me_starts = starts, me_deltas = deltas\<rparr>
   }"

definition kept_merges :: "revision_info \<Rightarrow> index_t \<Rightarrow> index_t \<Rightarrow> merge_entries option" where
  "kept_merges old firstMerge lastMerge = do {
     fromPaths \<leftarrow> kept (rc_mergedFromPaths old) firstMerge lastMerge;
     toPaths \<leftarrow> kept (rc_mergedToPaths old) firstMerge lastMerge;
     starts \<leftarrow> kept (rc_mergedRangeStarts old) firstMerge lastMerge;
     deltas \<leftarrow> kept (rc_mergedRangeDeltas old) firstMerge lastMerge;
     Some \<lparr>me_fromPaths = fromPaths, me_toPaths = toPaths, me_starts = starts, me_deltas = deltas\<rparr>
   }"

definition append_merges :: "merge_entries \<Rightarrow> revision_info \<Rightarrow> revision_info" where
  "append_merges e c =
     c\<lparr>rc_mergedFromPaths := rc_mergedFromPaths c @ me_fromPaths e, rc_mergedToPaths := rc_mergedToPaths c @ me_toPaths e,
       rc_mergedRangeStarts := rc_mergedRangeStarts c @ me_starts e, rc_mergedRangeDeltas := rc_mergedRangeDeltas c @ me_deltas e\<rparr>"

fun splice_merges ::
    "revision_info \<Rightarrow> index_mapping_t \<Rightarrow> index_mapping_t \<Rightarrow> bool \<Rightarrow> revision_info \<Rightarrow> nat list \<Rightarrow> index_t \<Rightarrow> revision_info \<Rightarrow>
     revision_info option" where
  "splice_merges newData indexMap pathIDMapping keepOld old [] firstMerge c = Some c"
| "splice_merges newData indexMap pathIDMapping keepOld old (i # is) firstMerge c = do {
     source \<leftarrow> update_source newData indexMap keepOld HAS_MERGEINFO (of_nat i);
     lastMerge \<leftarrow> vat (rc_mergedRevisionsOffsets c) (of_nat i + 1);
     e \<leftarrow> (case source of
            Some sourceIndex \<Rightarrow> copied_merges newData pathIDMapping sourceIndex
          | None \<Rightarrow> kept_merges old firstMerge lastMerge);
     let c = append_merges e c;
     splice_merges newData indexMap pathIDMapping keepOld old is lastMerge
       (c\<lparr>rc_mergedRevisionsOffsets := (rc_mergedRevisionsOffsets c)[i + 1 := of_nat (length (rc_mergedFromPaths c))]\<rparr>)
   }"

definition rc_UpdateMergers ::
    "revision_info \<Rightarrow> index_mapping_t \<Rightarrow> index_mapping_t \<Rightarrow> bool \<Rightarrow> revision_info \<Rightarrow> container_error + revision_info" where
  "rc_UpdateMergers newData indexMap pathIDMapping keepOld c =
     of_opt (splice_merges newData indexMap pathIDMapping keepOld c [0..<unat (rc_size c)] 0
       (c\<lparr>rc_mergedFromPaths := [], rc_mergedToPaths := [], rc_mergedRangeStarts := [], rc_mergedRangeDeltas := []\<rparr>))"

subsection \<open>Revision properties\<close>

text \<open>The values get consecutive new indexes: \<open>insert (valueIndex++, k)\<close>.\<close>

fun number_values :: "index_t list \<Rightarrow> index_t \<Rightarrow> index_mapping_t \<Rightarrow> (index_t \<times> index_mapping_t) option" where
  "number_values [] valueIndex m = Some (valueIndex, m)"
| "number_values (k # ks) valueIndex m = Option.bind (qm_insert index_conv valueIndex k m) (number_values ks (valueIndex + 1))"

definition range_of :: "index_t list \<Rightarrow> index_t \<Rightarrow> index_t list option" where
  "range_of offs sourceIndex = do {
     first \<leftarrow> vat offs sourceIndex;
     stop \<leftarrow> vat offs (sourceIndex + 1);
     positions first stop
   }"

fun splice_props ::
    "revision_info \<Rightarrow> index_mapping_t \<Rightarrow> index_mapping_t \<Rightarrow> bool \<Rightarrow> index_t list \<Rightarrow> nat list \<Rightarrow> index_t \<Rightarrow> index_t \<Rightarrow>
     index_mapping_t \<Rightarrow> index_mapping_t \<Rightarrow> revision_info \<Rightarrow> (index_mapping_t \<times> index_mapping_t \<times> revision_info) option" where
  "splice_props newData indexMap propIDMapping keepOld oldNames [] firstProp valueIndex oldMap newMap c = Some (oldMap, newMap, c)"
| "splice_props newData indexMap propIDMapping keepOld oldNames (i # is) firstProp valueIndex oldMap newMap c = do {
     source \<leftarrow> update_source newData indexMap keepOld HAS_USERREVPROPS (of_nat i);
     lastProp \<leftarrow> vat (rc_userRevPropOffsets c) (of_nat i + 1);
     (nms, valueIndex, oldMap, newMap) \<leftarrow> (case source of
         Some sourceIndex \<Rightarrow>
           if rc_userRevPropNames newData = [] then Some ([], valueIndex, oldMap, newMap)
           else do {
             nms \<leftarrow> copied (\<lambda>k. Option.bind (vat (rc_userRevPropNames newData) k) (qm_lookup index_conv propIDMapping))
                      (rc_userRevPropOffsets newData) sourceIndex;
             ks \<leftarrow> range_of (rc_userRevPropOffsets newData) sourceIndex;
             (valueIndex, newMap) \<leftarrow> number_values ks valueIndex newMap;
             Some (nms, valueIndex, oldMap, newMap)
           }
       | None \<Rightarrow> do {
           nms \<leftarrow> kept oldNames firstProp lastProp;
           ks \<leftarrow> positions firstProp lastProp;
           (valueIndex, oldMap) \<leftarrow> number_values ks valueIndex oldMap;
           Some (nms, valueIndex, oldMap, newMap)
         });
     let c = c\<lparr>rc_userRevPropNames := rc_userRevPropNames c @ nms\<rparr>;
     splice_props newData indexMap propIDMapping keepOld oldNames is lastProp valueIndex oldMap newMap
       (c\<lparr>rc_userRevPropOffsets := (rc_userRevPropOffsets c)[i + 1 := of_nat (length (rc_userRevPropNames c))]\<rparr>)
   }"

text \<open>The size of the values is taken after they were swapped out.\<close>

definition rc_UpdateUserRevProps ::
    "(byte \<Rightarrow> bool) \<Rightarrow> revision_info \<Rightarrow> index_mapping_t \<Rightarrow> bool \<Rightarrow> revision_info \<Rightarrow> container_error + revision_info" where
  "rc_UpdateUserRevProps outside newData indexMap keepOld c =
     bindE (sd_Merge (rc_userRevPropsPool newData) (rc_userRevPropsPool c)) (\<lambda>(pool, propIDMapping).
     bindE (of_opt ts_init) (\<lambda>fresh.
       let oldNames = rc_userRevPropNames c; (vals, oldValues) = ts_swap (rc_userRevPropValues c) fresh
       in bindE (of_run (ts_Insert_copies outside [] (unat (ts_size vals + ts_size (rc_userRevPropValues newData))) vals)) (\<lambda>(_, vals).
          bindE (of_opt (splice_props newData indexMap propIDMapping keepOld oldNames [0..<unat (rc_size c)] 0 0 qm_init qm_init
            (c\<lparr>rc_userRevPropsPool := pool, rc_userRevPropNames := []\<rparr>))) (\<lambda>(oldMap, newMap, c).
          bindE (of_run (ts_Replace outside oldValues oldMap vals)) (\<lambda>vals.
          bindE (of_run (ts_Replace outside (rc_userRevPropValues newData) newMap vals)) (\<lambda>vals.
            Inr (c\<lparr>rc_userRevPropValues := vals\<rparr>)))))))"

definition rc_Update ::
    "(byte \<Rightarrow> bool) \<Rightarrow> revision_info \<Rightarrow> index_mapping_t \<Rightarrow> byte \<Rightarrow> bool \<Rightarrow> revision_info \<Rightarrow> container_error + revision_info" where
  "rc_Update outside newData indexMap flags keepOld c =
     bindE (rc_AppendNewEntries outside indexMap c) (\<lambda>c.
     bindE (pd_Merge (rc_paths newData) (rc_paths c)) (\<lambda>(paths, pathIDMapping).
       let c = c\<lparr>rc_paths := paths\<rparr>; when = (\<lambda>flag f c. if flags AND flag \<noteq> 0 then f c else Inr c)
       in bindE (when HAS_AUTHOR (rc_UpdateAuthors newData indexMap keepOld) c) (\<lambda>c.
          bindE (when HAS_TIME_STAMP (rc_UpdateTimeStamps newData indexMap keepOld) c) (\<lambda>c.
          bindE (when HAS_COMMENT (rc_UpdateComments outside newData indexMap keepOld) c) (\<lambda>c.
          bindE (when HAS_CHANGEDPATHS (rc_UpdateChanges newData indexMap pathIDMapping keepOld) c) (\<lambda>c.
          bindE (when HAS_MERGEINFO (rc_UpdateMergers newData indexMap pathIDMapping keepOld) c) (\<lambda>c.
          bindE (when HAS_USERREVPROPS (rc_UpdateUserRevProps outside newData indexMap keepOld) c)
            (rc_UpdatePresenceFlags newData indexMap flags keepOld))))))))"

subsection \<open>What an update means\<close>

definition merged_revision :: "byte \<Rightarrow> bool \<Rightarrow> revision \<Rightarrow> revision \<Rightarrow> revision" where
  "merged_revision flags keepOld new old =
     (let tk = (\<lambda>flag. flags AND flag \<noteq> 0 \<and> (keepOld \<longrightarrow> rv_flags new AND flag \<noteq> 0))
      in \<lparr>rv_author = if tk HAS_AUTHOR then rv_author new else rv_author old,
          rv_comment = if tk HAS_COMMENT then rv_comment new else rv_comment old,
          rv_time = if tk HAS_TIME_STAMP then rv_time new else rv_time old,
          rv_flags = if keepOld then rv_flags old OR (rv_flags new AND flags) else (rv_flags old AND NOT flags) OR (rv_flags new AND flags),
          rv_changes = if tk HAS_CHANGEDPATHS then rv_changes new else rv_changes old,
          rv_merges = if tk HAS_MERGEINFO then rv_merges new else rv_merges old,
          rv_props = if tk HAS_USERREVPROPS then rv_props new else rv_props old\<rparr>)"

definition updated :: "byte \<Rightarrow> bool \<Rightarrow> revision list \<Rightarrow> (index_t \<times> index_t) list \<Rightarrow> revision list \<Rightarrow> revision list" where
  "updated flags keepOld news es revs =
     map (\<lambda>i. case map_of es (of_nat i) of None \<Rightarrow> revs ! i | Some v \<Rightarrow> merged_revision flags keepOld (news ! unat v) (revs ! i)) [0..<length revs]"

text \<open>The entries of the map: distinct revisions of the container, old or new, and revisions of the other one.\<close>

definition entries_ok :: "nat \<Rightarrow> nat \<Rightarrow> (index_t \<times> index_t) list \<Rightarrow> bool" where
  "entries_ok n k es \<longleftrightarrow> distinct (map fst es) \<and> (\<forall>(key, v) \<in> set es. unat key < n \<and> unat v < k)"

lemma length_updated [simp]: "length (updated flags keepOld news es revs) = length revs"
  by (simp add: updated_def)

lemma nth_updated: "i < length revs \<Longrightarrow> updated flags keepOld news es revs ! i =
    (case map_of es (of_nat i) of None \<Rightarrow> revs ! i | Some v \<Rightarrow> merged_revision flags keepOld (news ! unat v) (revs ! i))"
  unfolding updated_def by (subst nth_map_upt, simp, unfold add_0, rule refl)

lemma entries_value: "entries_ok n k es \<Longrightarrow> map_of es i = Some v \<Longrightarrow> unat v < k"
  by (auto simp: entries_ok_def dest: map_of_SomeD)

subsection \<open>Entries of one vector\<close>

lemma update_entries_ok:
  assumes "length xs < 2 ^ 32"
  shows "distinct (map fst es) \<Longrightarrow>
    \<forall>(key, v) \<in> set es. unat key < length xs \<and> (\<exists>t. tk v = Some t \<and> (t \<longrightarrow> (\<forall>old. \<exists>x. f v old = Some x))) \<Longrightarrow>
    \<exists>ys. update_entries tk f es xs = Some ys \<and> length ys = length xs \<and> (\<forall>i < length xs. ys ! i =
      (case map_of es (of_nat i) of None \<Rightarrow> xs ! i | Some v \<Rightarrow> if tk v = Some True then the (f v (xs ! i)) else xs ! i))"
  using assms
proof (induction es arbitrary: xs)
  case (Cons e es)
  obtain key v where e: "e = (key, v)" by force
  obtain t where t: "tk v = Some t" "t \<longrightarrow> (\<forall>old. \<exists>x. f v old = Some x)" and k: "unat key < length xs" using Cons.prems(2) by (auto simp: e)
  define zs where "zs = (if t then xs[unat key := the (f v (xs ! unat key))] else xs)"
  have step: "update_entries tk f (e # es) xs = update_entries tk f es zs"
  proof (cases t)
    case True
    then obtain x where "f v (xs ! unat key) = Some x" using t(2) by blast
    then show ?thesis using True t(1) k by (simp add: e zs_def vat_def vset_def)
  qed (use t(1) in \<open>simp add: e zs_def\<close>)
  have len: "length zs = length xs" by (simp add: zs_def)
  obtain ys where ys: "update_entries tk f es zs = Some ys" "length ys = length zs" "\<forall>i < length zs. ys ! i =
      (case map_of es (of_nat i) of None \<Rightarrow> zs ! i | Some v \<Rightarrow> if tk v = Some True then the (f v (zs ! i)) else zs ! i)"
    using Cons.IH [of zs] Cons.prems len by auto
  have key: "(of_nat i = key) = (i = unat key)" if "i < length xs" for i
    using that Cons.prems(3) by (auto simp: unat_of_nat_small)
  have none: "map_of es key = None" using Cons.prems(1) by (simp add: e map_of_eq_None_iff)
  have "ys ! i = (case map_of (e # es) (of_nat i) of None \<Rightarrow> xs ! i | Some v \<Rightarrow> if tk v = Some True then the (f v (xs ! i)) else xs ! i)"
    if i: "i < length xs" for i
  proof (cases "i = unat key")
    case True
    then show ?thesis using ys(3) i key [OF i] none t len k by (auto simp: e zs_def)
  next
    case False
    then have z: "zs ! i = xs ! i" by (simp add: zs_def)
    have "i < length zs" using i len by simp
    from ys(3) [rule_format, OF this] show ?thesis using key [OF i] False unfolding z by (simp add: e)
  qed
  then show ?case using step ys(1,2) len by auto
qed simp

lemma takes_ok:
  assumes "holds_std n news" "unat v < length news"
  shows "takes n keepOld flag v = Some (keepOld \<longrightarrow> rv_flags (news ! unat v) AND flag \<noteq> 0)"
  using assms by (simp add: takes_def vat_def holds_std_def)

definition authors_held :: "revision_info \<Rightarrow> revision list \<Rightarrow> bool" where
  "authors_held c revs \<longleftrightarrow> sd_inv (rc_authorPool c) \<and> list_all2 (names (rc_authorPool c)) (rc_authors c) (map rv_author revs)"

lemma Merge_moves_names:
  assumes "sd_inv source" "sd_inv w" "load_ok (sd_hashIndex w)" "length (sd_strings w) + length (sd_strings source) \<le> 119304646"
    "length (packedStrings w) + length (packedStrings source) + 10 < 2 ^ 32"
  shows "\<exists>p r t. sd_Merge source w = Inr (p, r) \<and> sd_inv p \<and> sd_strings p = sd_strings w @ t \<and>
    (\<forall>i x. names source i x \<longrightarrow> (\<exists>j. qm_lookup index_conv r i = Some j \<and> names p j x))"
proof -
  obtain p r where p: "sd_Merge source w = Inr (p, r)" "sd_inv p" "sd_strings p = add_new (sd_strings w) (sd_strings source)"
      "\<forall>i < length (sd_strings source). \<exists>j. qm_lookup index_conv r (of_nat i) = Some j \<and> sd_at p j = Some (sd_strings source ! i)"
    using sd_Merge_lookup [OF assms] by blast
  have "\<exists>j. qm_lookup index_conv r i = Some j \<and> names p j x" if nm: "names source i x" for i x
  proof -
    have i: "unat i < length (sd_strings source)" "sd_strings source ! unat i = x" using nm by (simp_all add: names_def)
    then obtain j where j: "qm_lookup index_conv r i = Some j" "sd_at p j = Some x" using p(4) by fastforce
    then show ?thesis using p(2) by (auto simp: names_def sd_at_eq split: if_splits)
  qed
  moreover obtain t where "sd_strings p = sd_strings w @ t" using add_new_prefix p(3) by metis
  ultimately show ?thesis using p(1,2) by blast
qed

lemma UpdateAuthors_ok:
  assumes c: "authors_held c revs" and n: "holds_std n news" and m: "entries_ok (length revs) (length news) (qm_data m)"
    and room: "load_ok (sd_hashIndex (rc_authorPool c))" "length (sd_strings (rc_authorPool c)) + length (sd_strings (rc_authorPool n)) \<le> 119304646"
      "length (packedStrings (rc_authorPool c)) + length (packedStrings (rc_authorPool n)) + 10 < 2 ^ 32" "length revs < 2 ^ 32"
    and flag: "flags AND HAS_AUTHOR \<noteq> 0"
  shows "\<exists>p a. rc_UpdateAuthors n m keepOld c = Inr (c\<lparr>rc_authorPool := p, rc_authors := a\<rparr>) \<and>
    authors_held (c\<lparr>rc_authorPool := p, rc_authors := a\<rparr>) (updated flags keepOld news (qm_data m) revs)"
proof -
  let ?es = "qm_data m"
  have ca: "sd_inv (rc_authorPool c)" "list_all2 (names (rc_authorPool c)) (rc_authors c) (map rv_author revs)"
    using c by (simp_all add: authors_held_def)
  have na: "sd_inv (rc_authorPool n)" "list_all2 (names (rc_authorPool n)) (rc_authors n) (map rv_author news)" using n by (simp_all add: holds_std_def)
  obtain p r t where p: "sd_Merge (rc_authorPool n) (rc_authorPool c) = Inr (p, r)" "sd_inv p" and t: "sd_strings p = sd_strings (rc_authorPool c) @ t"
      and moved: "\<And>i x. names (rc_authorPool n) i x \<Longrightarrow> \<exists>j. qm_lookup index_conv r i = Some j \<and> names p j x"
    using Merge_moves_names [OF na(1) ca(1) room(1-3)] by blast
  have len: "length (rc_authors c) = length revs" "length (rc_authors n) = length news" using ca(2) na(2) by (auto dest: list_all2_lengthD)
  define f where "f = (\<lambda>v (old :: index_t). Option.bind (vat (rc_authors n) v) (qm_lookup index_conv r))"
  have f: "\<exists>j. f v old = Some j \<and> names p j (rv_author (news ! unat v))" if v: "unat v < length news" for v old
  proof -
    have "names (rc_authorPool n) (rc_authors n ! unat v) (rv_author (news ! unat v))"
      using list_all2_nthD [OF na(2), of "unat v"] v len(2) by simp
    then show ?thesis using moved v len(2) by (auto simp: f_def vat_def)
  qed
  have "\<exists>ys. update_entries (takes n keepOld HAS_AUTHOR) f ?es (rc_authors c) = Some ys \<and> length ys = length (rc_authors c) \<and>
      (\<forall>i < length (rc_authors c). ys ! i = (case map_of ?es (of_nat i) of None \<Rightarrow> rc_authors c ! i
        | Some v \<Rightarrow> if takes n keepOld HAS_AUTHOR v = Some True then the (f v (rc_authors c ! i)) else rc_authors c ! i))"
    using m len(1) room(4) takes_ok [OF n] f by (intro update_entries_ok) (fastforce simp: entries_ok_def)+
  then obtain ys where ys: "update_entries (takes n keepOld HAS_AUTHOR) f ?es (rc_authors c) = Some ys" "length ys = length revs"
      "\<forall>i < length revs. ys ! i = (case map_of ?es (of_nat i) of None \<Rightarrow> rc_authors c ! i
        | Some v \<Rightarrow> if takes n keepOld HAS_AUTHOR v = Some True then the (f v (rc_authors c ! i)) else rc_authors c ! i)"
    unfolding len(1) by blast
  have old: "names p (rc_authors c ! i) (rv_author (revs ! i))" if "i < length revs" for i
    using names_extend [OF list_all2_nthD [OF ca(2)] t] that len(1) by fastforce
  have "names p (ys ! i) (map rv_author (updated flags keepOld news ?es revs) ! i)" if i: "i < length ys" for i
  proof (cases "map_of ?es (of_nat i :: index_t)")
    case None
    then show ?thesis using i ys(2,3) old by (simp add: nth_updated)
  next
    case (Some v)
    then have v: "unat v < length news" using entries_value [OF m] by blast
    then show ?thesis using i ys(2,3) old [of i] Some f [OF v, of "rc_authors c ! i"] takes_ok [OF n v, of keepOld HAS_AUTHOR] flag
      by (auto simp: nth_updated merged_revision_def Let_def)
  qed
  then have "list_all2 (names p) ys (map rv_author (updated flags keepOld news ?es revs))"
    using ys(2) by (intro list_all2_all_nthI) auto
  then show ?thesis using p(1,2) ys(1) by (auto simp: rc_UpdateAuthors_def authors_held_def f_def)
qed

lemma UpdateTimeStamps_ok:
  assumes c: "rc_timeStamps c = map rv_time revs" and n: "holds_std n news" and m: "entries_ok (length revs) (length news) (qm_data m)"
    and small: "length revs < 2 ^ 32" and flag: "flags AND HAS_TIME_STAMP \<noteq> 0"
  shows "rc_UpdateTimeStamps n m keepOld c = Inr (c\<lparr>rc_timeStamps := map rv_time (updated flags keepOld news (qm_data m) revs)\<rparr>)"
proof -
  let ?es = "qm_data m" and ?f = "\<lambda>v (old :: 64 word). vat (rc_timeStamps n) v"
  have f: "?f v old = Some (rv_time (news ! unat v))" if "unat v < length news" for v old using that n by (simp add: vat_def holds_std_def)
  have "\<exists>ys. update_entries (takes n keepOld HAS_TIME_STAMP) ?f ?es (rc_timeStamps c) = Some ys \<and> length ys = length (rc_timeStamps c) \<and>
      (\<forall>i < length (rc_timeStamps c). ys ! i = (case map_of ?es (of_nat i) of None \<Rightarrow> rc_timeStamps c ! i
        | Some v \<Rightarrow> if takes n keepOld HAS_TIME_STAMP v = Some True then the (?f v (rc_timeStamps c ! i)) else rc_timeStamps c ! i))"
    using m c small takes_ok [OF n] f by (intro update_entries_ok) (fastforce simp: entries_ok_def)+
  then obtain ys where ys: "update_entries (takes n keepOld HAS_TIME_STAMP) ?f ?es (rc_timeStamps c) = Some ys" "length ys = length revs"
      "\<forall>i < length revs. ys ! i = (case map_of ?es (of_nat i) of None \<Rightarrow> rc_timeStamps c ! i
        | Some v \<Rightarrow> if takes n keepOld HAS_TIME_STAMP v = Some True then the (?f v (rc_timeStamps c ! i)) else rc_timeStamps c ! i)"
    unfolding c length_map by blast
  have "ys = map rv_time (updated flags keepOld news ?es revs)"
  proof (rule nth_equalityI)
    fix i assume "i < length ys"
    then show "ys ! i = map rv_time (updated flags keepOld news ?es revs) ! i"
      using ys(2,3) c flag takes_ok [OF n entries_value [OF m]] f [OF entries_value [OF m]]
      by (auto simp: nth_updated merged_revision_def Let_def split: option.splits)
  qed (simp add: ys(2))
  then show ?thesis using ys(1) by (simp add: rc_UpdateTimeStamps_def)
qed

lemma UpdatePresenceFlags_ok:
  assumes c: "rc_presenceFlags c = map rv_flags revs" and n: "holds_std n news" and m: "entries_ok (length revs) (length news) (qm_data m)"
    and small: "length revs < 2 ^ 32"
  shows "rc_UpdatePresenceFlags n m flags keepOld c = Inr (c\<lparr>rc_presenceFlags := map rv_flags (updated flags keepOld news (qm_data m) revs)\<rparr>)"
proof -
  let ?es = "qm_data m"
  define f where "f = (\<lambda>v old. map_option (\<lambda>f. let setValues = f AND flags in if keepOld then old OR setValues else (old AND NOT flags) OR setValues)
                 (vat (rc_presenceFlags n) v))"
  have f: "f v old = Some (let setValues = rv_flags (news ! unat v) AND flags in if keepOld then old OR setValues else (old AND NOT flags) OR setValues)"
    if "unat v < length news" for v old using that n by (simp add: vat_def holds_std_def f_def)
  have "\<exists>ys. update_entries (\<lambda>_. Some True) f ?es (rc_presenceFlags c) = Some ys \<and> length ys = length (rc_presenceFlags c) \<and>
      (\<forall>i < length (rc_presenceFlags c). ys ! i = (case map_of ?es (of_nat i) of None \<Rightarrow> rc_presenceFlags c ! i
        | Some v \<Rightarrow> if Some True = Some True then the (f v (rc_presenceFlags c ! i)) else rc_presenceFlags c ! i))"
    using m c small f by (intro update_entries_ok) (fastforce simp: entries_ok_def)+
  then obtain ys where ys: "update_entries (\<lambda>_. Some True) f ?es (rc_presenceFlags c) = Some ys" "length ys = length revs"
      "\<forall>i < length revs. ys ! i = (case map_of ?es (of_nat i) of None \<Rightarrow> rc_presenceFlags c ! i
        | Some v \<Rightarrow> if Some True = Some True then the (f v (rc_presenceFlags c ! i)) else rc_presenceFlags c ! i)"
    unfolding c length_map by blast
  have "ys = map rv_flags (updated flags keepOld news ?es revs)"
  proof (rule nth_equalityI)
    fix i assume "i < length ys"
    then show "ys ! i = map rv_flags (updated flags keepOld news ?es revs) ! i"
      using ys(2,3) c f [OF entries_value [OF m]]
      by (auto simp: nth_updated merged_revision_def Let_def split: option.splits)
  qed (simp add: ys(2))
  then show ?thesis using ys(1) by (simp add: rc_UpdatePresenceFlags_def f_def)
qed

subsection \<open>Comments\<close>

text \<open>The new revisions stand behind the old ones, in the order of the map.\<close>

definition appends :: "nat \<Rightarrow> nat \<Rightarrow> (index_t \<times> index_t) list \<Rightarrow> bool" where
  "appends n k es \<longleftrightarrow> map fst (filter (\<lambda>(key, v). of_nat n \<le> key) es) = map of_nat [n..<n + k]"

definition text_weight :: "byte list list \<Rightarrow> (index_t \<times> index_t) list \<Rightarrow> nat" where
  "text_weight stexts es = total_length (map (\<lambda>(key, v). stexts ! unat v) es)"

lemma map_of_filter_taken:
  "distinct (map fst es) \<Longrightarrow> map_of (filter (\<lambda>(key, v). P v) es) k = (case map_of es k of None \<Rightarrow> None | Some v \<Rightarrow> if P v then Some v else None)"
proof (induction es)
  case (Cons e es)
  obtain key v where e: "e = (key, v)" by force
  have "map_of es key = None" using Cons.prems by (simp add: e map_of_eq_None_iff)
  then show ?case using Cons by (auto simp: e)
qed simp

lemma filter_mapping_ok:
  assumes "qm_inv index_conv m" "load_ok (qm_hash m)" "length (qm_data m) + length es \<le> 119304647" "distinct (map fst (qm_data m @ es))"
    "\<forall>(key, v) \<in> set es. tk v = Some (P v)"
  shows "\<exists>m'. filter_mapping tk es m = Some m' \<and> qm_inv index_conv m' \<and> qm_data m' = qm_data m @ filter (\<lambda>(key, v). P v) es"
  using assms
proof (induction es arbitrary: m)
  case (Cons e es)
  obtain key v where e: "e = (key, v)" by force
  have t: "tk v = Some (P v)" using Cons.prems(5) by (simp add: e)
  show ?case
  proof (cases "P v")
    case True
    have "key \<notin> fst ` set (qm_data m)" "length (qm_data m) \<le> 119304646" using Cons.prems(3,4) by (auto simp: e)
    then obtain m1 where m1: "qm_insert index_conv key v m = Some m1" "qm_inv index_conv m1" "qm_data m1 = qm_data m @ [(key, v)]" "load_ok (qm_hash m1)"
      using qm_insert_light [OF Cons.prems(1,2)] by blast
    have "length (qm_data m1) + length es \<le> 119304647" "distinct (map fst (qm_data m1 @ es))" using Cons.prems(3,4) m1(3) by (auto simp: e)
    from Cons.IH [OF m1(2,4) this] Cons.prems(5) show ?thesis using True t m1(1,3) by (simp add: e)
  next
    case False
    then show ?thesis using Cons.IH [OF Cons.prems(1,2)] Cons.prems(3-5) t by (simp add: e)
  qed
qed simp

lemma filter_mapping_init:
  assumes "length es \<le> 119304647" "distinct (map fst es)" "\<forall>(key, v) \<in> set es. tk v = Some (P v)"
  shows "\<exists>m. filter_mapping tk es qm_init = Some m \<and> qm_inv index_conv m \<and> qm_data m = filter (\<lambda>(key, v). P v) es"
proof -
  have "qm_inv index_conv (qm_init :: index_mapping_t)" "qm_data (qm_init :: index_mapping_t) = []" by (rule qm_inv_init, simp add: qm_init_def)
  moreover have "load_ok (qm_hash (qm_init :: index_mapping_t))" by (simp add: qm_init_def)
  ultimately show ?thesis using filter_mapping_ok [of qm_init es tk P] assms by simp
qed

lemma total_length_concat: "total_length (concat (map f [0..<n])) = (\<Sum>i < n. total_length (f i))"
  by (induction n) (simp_all add: total_length_def)

lemma map_of_sum_le:
  fixes w :: "index_t \<Rightarrow> nat"
  assumes "n < 2 ^ 32"
  shows "(\<Sum>i < n. case map_of es (of_nat i :: index_t) of None \<Rightarrow> 0 | Some v \<Rightarrow> w v) \<le>
    sum_list (map (\<lambda>(key, v). w v) (filter (\<lambda>(key, v). unat key < n) es))"
proof (induction es)
  case (Cons e es)
  obtain key v where e: "e = (key, v)" by force
  let ?f = "\<lambda>es i. case map_of es (of_nat i :: index_t) of None \<Rightarrow> 0 | Some v \<Rightarrow> w v"
  have k: "(of_nat i = key) = (i = unat key)" if "i < n" for i using that assms by (auto simp: unat_of_nat_small)
  have "?f (e # es) i \<le> (if i = unat key then w v else 0) + ?f es i" if "i < n" for i using k [OF that] by (simp add: e)
  then have "(\<Sum>i < n. ?f (e # es) i) \<le> (\<Sum>i < n. (if i = unat key then w v else 0) + ?f es i)" by (intro sum_mono) simp
  also have "\<dots> = (if unat key < n then w v else 0) + (\<Sum>i < n. ?f es i)" by (simp add: sum.distrib)
  also have "\<dots> \<le> (if unat key < n then w v else 0) + sum_list (map (\<lambda>(key, v). w v) (filter (\<lambda>(key, v). unat key < n) es))"
    using Cons by simp
  also have "\<dots> = sum_list (map (\<lambda>(key, v). w v) (filter (\<lambda>(key, v). unat key < n) (e # es)))" by (simp add: e)
  finally show ?case .
qed simp

lemma incoming_weight:
  assumes m: "qm_inv index_conv m" and n: "n < 2 ^ 32"
  shows "total_length (incoming stexts m n) \<le> text_weight stexts (qm_data m)"
proof -
  let ?es = "qm_data m" and ?w = "\<lambda>v :: index_t. length (stexts ! unat v) + 1"
  have r: "total_length (replaced stexts m i) = (case map_of ?es (of_nat i) of None \<Rightarrow> 0 | Some v \<Rightarrow> ?w v)" for i
    by (simp add: replaced_def qm_lookup_map_of [OF m] total_length_def split: option.splits)
  have un: "unat (of_nat n :: index_t) = n" using n by (intro unat_of_nat_small) simp
  have rem: "total_length (remaining_texts stexts (of_nat n) es) = sum_list (map (\<lambda>(key, v). ?w v) (filter (\<lambda>(key, v). \<not> unat key < n) es))" for es
    by (induction es) (auto simp: remaining_texts_def total_length_def word_le_nat_alt un)
  have split: "sum_list (map (\<lambda>(key, v). ?w v) (filter (\<lambda>(key, v). unat key < n) es)) +
      sum_list (map (\<lambda>(key, v). ?w v) (filter (\<lambda>(key, v). \<not> unat key < n) es)) = text_weight stexts es" for es
    by (induction es) (auto simp: text_weight_def total_length_def)
  have "total_length (incoming stexts m n) = (\<Sum>i < n. case map_of ?es (of_nat i) of None \<Rightarrow> 0 | Some v \<Rightarrow> ?w v) +
      sum_list (map (\<lambda>(key, v). ?w v) (filter (\<lambda>(key, v). \<not> unat key < n) ?es))"
    by (simp add: incoming_def total_length_concat r rem)
  then show ?thesis using map_of_sum_le [OF n, of ?w ?es] split [of ?es] by linarith
qed

lemma weight_filter: "text_weight stexts (filter P es) \<le> text_weight stexts es"
  by (induction es) (auto simp: text_weight_def total_length_def)

definition blank :: revision where
  "blank = new_revision [] [] 0 0"

text \<open>Every new revision gets a comment.\<close>

definition new_comments :: "bool \<Rightarrow> revision list \<Rightarrow> nat \<Rightarrow> (index_t \<times> index_t) list \<Rightarrow> bool" where
  "new_comments keepOld news n es \<longleftrightarrow> (\<forall>(key, v) \<in> set es. of_nat n \<le> key \<longrightarrow> keepOld \<longrightarrow> rv_flags (news ! unat v) AND HAS_COMMENT \<noteq> 0)"

lemma remaining_comments:
  assumes d: "distinct (map fst es)" and a: "appends n k es" and sm: "n + k < 2 ^ 32"
  shows "length (remaining_texts stexts (of_nat n) es) = k"
    "j < k \<Longrightarrow> \<exists>v. map_of es (of_nat (n + j)) = Some v \<and> remaining_texts stexts (of_nat n) es ! j = stexts ! unat v"
proof -
  let ?F = "filter (\<lambda>(key, v). of_nat n \<le> key) es"
  have F: "map fst ?F = map of_nat [n..<n + k]" using a by (simp add: appends_def)
  have "length (map fst ?F) = k" unfolding F by simp
  then have len: "length ?F = k" by simp
  then show "length (remaining_texts stexts (of_nat n) es) = k" by (simp add: remaining_texts_def)
  assume j: "j < k"
  obtain key v where e: "?F ! j = (key, v)" by force
  have "map fst ?F ! j = of_nat (n + j)" unfolding F using j by simp
  then have key: "key = of_nat (n + j)" using e j len by simp
  have "?F ! j \<in> set ?F" using j len by (intro nth_mem) simp
  then have "(key, v) \<in> set es" unfolding e by simp
  then have "map_of es (of_nat (n + j)) = Some v" using d key by (simp add: map_of_eq_Some_iff)
  moreover have "remaining_texts stexts (of_nat n) es ! j = stexts ! unat v" using e j len by (simp add: remaining_texts_def)
  ultimately show "\<exists>v. map_of es (of_nat (n + j)) = Some v \<and> remaining_texts stexts (of_nat n) es ! j = stexts ! unat v" by blast
qed

lemma replaced_comments:
  assumes es: "entries_ok (length revs + k) (length news) (qm_data m)" "appends (length revs) k (qm_data m)"
    and nc: "new_comments keepOld news (length revs) (qm_data m)"
    and m': "qm_inv index_conv m'" "qm_data m' = filter (\<lambda>(key, v). keepOld \<longrightarrow> rv_flags (news ! unat v) AND HAS_COMMENT \<noteq> 0) (qm_data m)"
    and small: "length revs + k < 2 ^ 32" and flag: "flags AND HAS_COMMENT \<noteq> 0"
  shows "replaced_texts (map rv_comment news) m' (map rv_comment revs) =
    map rv_comment (updated flags keepOld news (qm_data m) (revs @ replicate k blank))"
proof -
  let ?es = "qm_data m" and ?P = "\<lambda>v. keepOld \<longrightarrow> rv_flags (news ! unat v) AND HAS_COMMENT \<noteq> 0" and ?st = "map rv_comment news" and ?n = "length revs"
  let ?R = "updated flags keepOld news ?es (revs @ replicate k blank)"
  have d: "distinct (map fst ?es)" using es(1) by (simp add: entries_ok_def)
  have all: "filter (\<lambda>(key, v). of_nat ?n \<le> key) (qm_data m') = filter (\<lambda>(key, v). of_nat ?n \<le> key) ?es"
    unfolding m'(2) filter_filter using nc by (intro filter_cong) (auto simp: new_comments_def)
  have d': "distinct (map fst (qm_data m'))" using m'(1) by (simp add: qm_inv_def)
  have app': "appends ?n k (qm_data m')" using es(2) by (simp add: appends_def all)
  note rem = remaining_comments [OF d' app' small, where stexts = ?st]
  have look: "qm_lookup index_conv m' i = (case map_of ?es i of None \<Rightarrow> None | Some v \<Rightarrow> if ?P v then Some v else None)" for i
    unfolding qm_lookup_map_of [OF m'(1)] m'(2) by (rule map_of_filter_taken [OF d])
  show ?thesis
  proof (rule nth_equalityI)
    show "length (replaced_texts ?st m' (map rv_comment revs)) = length (map rv_comment ?R)" using rem(1) by (simp add: replaced_texts_def)
    fix i assume "i < length (replaced_texts ?st m' (map rv_comment revs))"
    then have i: "i < ?n + k" using rem(1) by (simp add: replaced_texts_def)
    show "replaced_texts ?st m' (map rv_comment revs) ! i = map rv_comment ?R ! i"
    proof (cases "i < ?n")
      case True
      then have "replaced_texts ?st m' (map rv_comment revs) ! i = new_text ?st m' i (rv_comment (revs ! i))"
        by (simp add: replaced_texts_def nth_append)
      also have "\<dots> = rv_comment (?R ! i)"
        using True flag entries_value [OF es(1), of "of_nat i"]
        by (auto simp: new_text_def look nth_updated merged_revision_def Let_def nth_append split: option.splits)
      finally show ?thesis using i by simp
    next
      case False
      then have j: "i - ?n < k" and ij: "?n + (i - ?n) = i" using i by simp_all
      obtain v where v: "map_of (qm_data m') (of_nat i) = Some v" "remaining_texts ?st (of_nat ?n) (qm_data m') ! (i - ?n) = ?st ! unat v"
        using rem(2) [OF j] unfolding ij by blast
      have P: "map_of ?es (of_nat i) = Some v" "?P v"
        using look [of "of_nat i"] v(1) qm_lookup_map_of [OF m'(1), of "of_nat i"] by (auto split: option.splits if_splits)
      have "replaced_texts ?st m' (map rv_comment revs) ! i = remaining_texts ?st (of_nat ?n) (qm_data m') ! (i - ?n)"
        using False by (simp add: replaced_texts_def nth_append)
      also have "\<dots> = rv_comment (?R ! i)"
        using v(2) P flag entries_value [OF es(1) P(1)] i by (simp add: nth_updated merged_revision_def Let_def)
      finally show ?thesis using i by simp
    qed
  qed
qed

lemma lost_comments:
  assumes a: "appends n k es" and lost: "\<not> new_comments keepOld news n es"
  shows "length (filter (\<lambda>(key, v). of_nat n \<le> key) (filter (\<lambda>(key, v). keepOld \<longrightarrow> rv_flags (news ! unat v) AND HAS_COMMENT \<noteq> 0) es)) < k"
proof -
  let ?P = "\<lambda>(key :: index_t, v). keepOld \<longrightarrow> rv_flags (news ! unat v) AND HAS_COMMENT \<noteq> 0" and ?F = "filter (\<lambda>(key, v). of_nat n \<le> key) es"
  have "length (map fst ?F) = k" using a by (simp add: appends_def)
  then have len: "length ?F = k" by simp
  obtain key v where e: "(key, v) \<in> set es" "of_nat n \<le> key" "\<not> ?P (key, v)" using lost by (auto simp: new_comments_def)
  have "(key, v) \<in> set ?F" using e(1,2) by simp
  from length_filter_less [where P = ?P, OF this e(3)] have "length (filter ?P ?F) < k" by (simp only: len)
  moreover have "filter ?P ?F = filter (\<lambda>(key, v). of_nat n \<le> key) (filter ?P es)"
    unfolding filter_filter by (rule filter_cong) auto
  ultimately show ?thesis by simp
qed

lemma UpdateComments_ok:
  assumes c: "ts_holds (rc_comments c) (map rv_comment revs)" "hd (ts_offsets (rc_comments c)) = 0" and n: "holds_std n news"
    and es: "entries_ok (length revs + k) (length news) (qm_data m)" "length (qm_data m) \<le> 119304647" "appends (length revs) k (qm_data m)"
    and zero: "\<forall>r \<in> set news. 0 \<notin> set (rv_comment r)"
    and room: "words_room (text_weight (map rv_comment news) (qm_data m)) (ts_words (rc_comments c))"
      "length (ts_stringData (rc_comments c)) + text_weight (map rv_comment news) (qm_data m) < 2 ^ 32" "length revs + k < 2 ^ 32"
    and flag: "flags AND HAS_COMMENT \<noteq> 0"
  shows "\<exists>t V. rc_UpdateComments outside n m keepOld c = Inr (c\<lparr>rc_comments := t\<rparr>) \<and> ts_holds t V \<and>
    (if new_comments keepOld news (length revs) (qm_data m)
     then V = map rv_comment (updated flags keepOld news (qm_data m) (revs @ replicate k blank)) else length V < length revs + k)"
proof -
  let ?es = "qm_data m" and ?P = "\<lambda>v. keepOld \<longrightarrow> rv_flags (news ! unat v) AND HAS_COMMENT \<noteq> 0" and ?st = "map rv_comment news" and ?n = "length revs"
  have d: "distinct (map fst ?es)" using es(1) by (simp add: entries_ok_def)
  have "\<forall>(key, v) \<in> set ?es. takes n keepOld HAS_COMMENT v = Some (?P v)" using es(1) takes_ok [OF n] by (fastforce simp: entries_ok_def)
  from filter_mapping_init [OF es(2) d this] obtain m' where m': "filter_mapping (takes n keepOld HAS_COMMENT) ?es qm_init = Some m'" "qm_inv index_conv m'"
      "qm_data m' = filter (\<lambda>(key, v). ?P v) ?es" by blast
  have vals: "\<forall>(key, v) \<in> set (qm_data m'). unat v < length ?st \<and> 0 \<notin> set (?st ! unat v)"
    using es(1) zero unfolding m'(3) entries_ok_def by fastforce
  have w: "total_length (incoming ?st m' (length (map rv_comment revs))) \<le> text_weight ?st ?es"
    using incoming_weight [OF m'(2), of ?n ?st] weight_filter [of ?st "\<lambda>(key, v). ?P v" ?es] room(3) unfolding m'(3) by simp
  have "words_room (total_length (incoming ?st m' (length (map rv_comment revs))) + 0) (ts_words (rc_comments c))"
    using room(1) w by (auto simp: words_room_def)
  moreover have "length (ts_stringData (rc_comments c)) + total_length (incoming ?st m' (length (map rv_comment revs))) < 2 ^ 32"
    using room(2) w by linarith
  moreover have "ts_holds (rc_comments n) ?st" using n by (simp add: holds_std_def)
  ultimately obtain t where t: "ts_Replace outside (rc_comments n) m' (rc_comments c) = Some (Inr t)" "ts_holds t (replaced_texts ?st m' (map rv_comment revs))"
    using ts_Replace_ok [OF c _ m'(2) vals] by blast
  let ?R = "updated flags keepOld news ?es (revs @ replicate k blank)"
  let ?V = "replaced_texts ?st m' (map rv_comment revs)"
  have "?V = map rv_comment ?R" if "new_comments keepOld news ?n ?es"
    by (rule replaced_comments [OF es(1,3) that m'(2,3) room(3) flag])
  moreover have "length ?V < ?n + k" if "\<not> new_comments keepOld news ?n ?es"
    using lost_comments [OF es(3) that] by (simp add: replaced_texts_def remaining_texts_def m'(3))
  ultimately show ?thesis using m'(1) t by (auto simp: rc_UpdateComments_def)
qed

subsection \<open>Parts of vectors\<close>

lemma split_like: "length xs = length (concat M) \<Longrightarrow> \<exists>L. concat L = xs \<and> map length L = map length M"
proof (induction M arbitrary: xs)
  case (Cons m M)
  have "length (drop (length m) xs) = length (concat M)" using Cons.prems by simp
  then obtain L where "concat L = drop (length m) xs" "map length L = map length M" using Cons.IH by blast
  then show ?case using Cons.prems by (intro exI [of _ "take (length m) xs # L"]) simp
qed simp

lemma list_all2_concat_nth:
  "list_all2 P (concat L) (concat M) \<Longrightarrow> map length L = map length M \<Longrightarrow> i < length M \<Longrightarrow> list_all2 P (L ! i) (M ! i)"
proof (induction M arbitrary: L i)
  case (Cons m M)
  obtain l L' where L: "L = l # L'" "length l = length m" "map length L' = map length M" using Cons.prems(2) by (cases L) auto
  have "list_all2 P l m" "list_all2 P (concat L') (concat M)" using Cons.prems(1) L(2) by (simp_all add: L(1) list_all2_append)
  then show ?case using Cons.IH [of L'] Cons.prems(3) L by (cases i) auto
qed simp

lemma copied_ok:
  assumes col: "list_all2 P xs (concat M)" and f: "\<And>x y. P x y \<Longrightarrow> \<exists>z. f x = Some z \<and> Q z y"
    and i: "unat s < length M" and small: "length (concat M) < 2 ^ 32" "length M < 2 ^ 32"
  shows "\<exists>zs. copied (\<lambda>k. Option.bind (vat xs k) f) (offsets_of M) s = Some zs \<and> list_all2 Q zs (M ! unat s)"
proof -
  let ?ys = "map (\<lambda>x. the (f x)) xs"
  have len: "length xs = length (concat M)" using col by (rule list_all2_lengthD)
  have Q: "list_all2 Q ?ys (concat M)" using col f by (fastforce simp: list_all2_conv_all_nth)
  obtain L where L: "concat L = ?ys" "map length L = map length M" using split_like [of ?ys M] len by auto
  have ll: "length L = length M" using L(2) by (rule map_eq_imp_length_eq)
  have offs: "offsets_of M = offsets_of L" using L(2) by (intro offsets_of_same) simp
  have at: "Option.bind (vat xs (of_nat n :: index_t)) f = Some (concat L ! n)" if n: "n < length (concat L)" for n
  proof -
    have "n < length xs" using n by (simp add: L(1))
    then obtain z where "f (xs ! n) = Some z" using f list_all2_nthD [OF col] by blast
    then show ?thesis using \<open>n < length xs\<close> len small(1) by (simp add: L(1) vat_nth)
  qed
  have s: "of_nat (unat s) = s" by simp
  have "length (concat L) < 2 ^ 32" using len small(1) by (simp add: L(1))
  from read_range [OF offs _ this _ at, of "unat s"] i small(2) ll
  have "copied (\<lambda>k. Option.bind (vat xs k) f) (offsets_of M) s = Some (L ! unat s)" unfolding s by (auto simp: copied_def)
  moreover have "list_all2 Q (L ! unat s) (M ! unat s)" using list_all2_concat_nth [OF Q [folded L(1)] L(2) i] .
  ultimately show ?thesis by blast
qed

lemma copied_map:
  assumes "xs = map g (concat M)" "unat s < length M" "length (concat M) < 2 ^ 32" "length M < 2 ^ 32"
  shows "copied (vat xs) (offsets_of M) s = Some (map g (M ! unat s))"
proof -
  have "list_all2 (\<lambda>x y. x = g y) xs (concat M)" unfolding assms(1) by (simp add: list_all2_conv_all_nth)
  from copied_ok [OF this _ assms(2-), of Some "\<lambda>x y. x = g y"]
  obtain zs where "copied (\<lambda>k. Option.bind (vat xs k) Some) (offsets_of M) s = Some zs" "list_all2 (\<lambda>x y. x = g y) zs (M ! unat s)" by auto
  moreover from this(2) have "zs = map g (M ! unat s)" by (simp add: list_all2_conv_all_nth nth_equalityI)
  moreover have "(\<lambda>k. Option.bind (vat xs k) Some) = vat xs" by (simp add: fun_eq_iff)
  ultimately show ?thesis by simp
qed

lemma kept_ok:
  assumes "length (pre @ mid) < 2 ^ 32"
  shows "kept (pre @ mid @ post) (of_nat (length pre)) (of_nat (length (pre @ mid))) = Some mid"
proof -
  have "unat (of_nat (length pre) :: index_t) = length pre" "unat (of_nat (length (pre @ mid)) :: index_t) = length (pre @ mid)"
    using assms by (intro unat_of_nat_small; simp)+
  then show ?thesis by (simp add: kept_def word_le_nat_alt del: of_nat_add)
qed

lemma kept_map:
  assumes "xs = map g (pre @ mid @ post)" "length (pre @ mid) < 2 ^ 32"
  shows "kept xs (of_nat (length pre)) (of_nat (length (pre @ mid))) = Some (map g mid)"
  using kept_ok [of "map g pre" "map g mid" "map g post"] assms by (simp del: of_nat_add)

lemma kept_all2:
  assumes "list_all2 P xs (pre @ mid @ post)" "length (pre @ mid) < 2 ^ 32"
  shows "\<exists>ys. kept xs (of_nat (length pre)) (of_nat (length (pre @ mid))) = Some ys \<and> list_all2 P ys mid"
proof -
  obtain as bs cs where xs: "xs = as @ bs @ cs" "list_all2 P as pre" "list_all2 P bs mid" using assms(1) by (auto simp: list_all2_append2)
  have "length as = length pre" "length (as @ bs) = length (pre @ mid)" using xs(2,3) by (simp_all add: list_all2_lengthD)
  then show ?thesis using kept_ok [of as bs cs] xs(1,3) assms(2) by (simp del: length_append of_nat_add)
qed

text \<open>Offsets of which the first entries are already those of the new parts.\<close>

lemma spliced_offsets:
  fixes offs :: "index_t list"
  assumes offs: "offs = map of_nat (starts 0 R1 @ tl (starts k (e # E2)))"
  shows "length offs = length R1 + length E2 + 2" "offs ! (length R1 + 1) = of_nat (k + length e)"
    "offs[length R1 + 1 := of_nat (length (concat (R1 @ [r])))] = map of_nat (starts 0 (R1 @ [r]) @ tl (starts (k + length e) E2))"
proof -
  have tl: "tl (starts k (e # E2)) = (k + length e) # tl (starts (k + length e) E2)" by (cases E2) simp_all
  have n: "length R1 + 1 = length (starts 0 R1)" by simp
  show "length offs = length R1 + length E2 + 2" by (simp add: offs)
  show "offs ! (length R1 + 1) = of_nat (k + length e)" unfolding offs tl n by (simp add: nth_append del: length_starts)
  show "offs[length R1 + 1 := of_nat (length (concat (R1 @ [r])))] = map of_nat (starts 0 (R1 @ [r]) @ tl (starts (k + length e) E2))"
    unfolding offs tl n by (simp add: list_update_append starts_snoc del: length_starts)
qed

subsection \<open>Changes\<close>

definition entries_of :: "path_dictionary \<Rightarrow> change_entries \<Rightarrow> revision_change list \<Rightarrow> bool" where
  "entries_of d e chs \<longleftrightarrow> ce_changes e = map change_byte chs \<and> ce_types e = map ch_type chs \<and>
     list_all2 (stands d) (ce_paths e) (map ch_path chs) \<and> ce_texts e = map ch_text chs \<and> ce_props e = map ch_props chs \<and>
     list_all2 (stands d) (ce_fromPaths e) (map fst (copies chs)) \<and> ce_fromRevisions e = map snd (copies chs)"

definition entries_in :: "revision_info \<Rightarrow> change_entries" where
  "entries_in c = \<lparr>ce_changes = rc_changes c, ce_types = rc_changedPathTypes c, ce_paths = rc_changedPaths c, ce_texts = rc_textModifies c,
     ce_props = rc_propsModifies c, ce_fromPaths = rc_copyFromPaths c, ce_fromRevisions = rc_copyFromRevisions c\<rparr>"

lemma holds_changes_entries:
  "holds_changes c revs \<longleftrightarrow> pd_inv (rc_paths c) \<and> list_all2 (root_of (rc_paths c)) (rc_rootPaths c) (map rv_changes revs) \<and>
     rc_sumChanges c = map (\<lambda>r. sum_of (rv_changes r)) revs \<and> rc_changesOffsets c = offsets_of (map rv_changes revs) \<and>
     rc_copyFromOffsets c = offsets_of (map (\<lambda>r. copies (rv_changes r)) revs) \<and>
     entries_of (rc_paths c) (entries_in c) (all_changes revs) \<and> (\<forall>ch \<in> set (all_changes revs). ch_action ch AND ANY_ACTION = ch_action ch)"
  by (auto simp: holds_changes_def entries_of_def entries_in_def)

lemma concat_copies: "concat (map (\<lambda>r. copies (rv_changes r)) revs) = copies (all_changes revs)"
  by (induction revs) (simp_all add: all_changes_def copies_def)

lemma entries_of_append:
  "entries_of d (entries_in c) chs \<Longrightarrow> entries_of d e chs' \<Longrightarrow> entries_of d (entries_in (append_changes e c)) (chs @ chs')"
  by (simp add: entries_of_def entries_in_def append_changes_def list_all2_appendI)

text \<open>Moved paths.\<close>

lemma stands_moved:
  assumes "maps_paths source (length (pd_keys source)) d pm" "stands source i p"
  shows "\<exists>j. qm_lookup index_conv pm i = Some j \<and> stands d j p"
  using assms by (fastforce simp: maps_paths_def stands_def pd_path_def)

lemma root_moved:
  assumes "maps_paths source (length (pd_keys source)) d pm" "root_of source i chs"
  shows "\<exists>j. qm_lookup index_conv pm i = Some j \<and> root_of d j chs"
  using assms stands_moved [OF assms(1)] by (auto simp: root_of_def maps_paths_def split: if_splits)

lemma copied_changes_ok:
  assumes n: "holds_changes newData news" and pm: "maps_paths (rc_paths newData) (length (pd_keys (rc_paths newData))) d pm"
    and s: "unat s < length news" and small: "length news < 2 ^ 32" "length (all_changes news) < 2 ^ 32"
  shows "\<exists>e. copied_changes newData pm s = Some e \<and> entries_of d e (rv_changes (news ! unat s))"
proof -
  let ?M = "map rv_changes news" and ?C = "map (\<lambda>r. copies (rv_changes r)) news" and ?f = "qm_lookup index_conv pm"
  note h = n [unfolded holds_changes_def] and conc = all_changes_def [symmetric] concat_copies
  have M: "unat s < length ?M" "length (concat ?M) < 2 ^ 32" "length ?M < 2 ^ 32" using s small by (simp_all add: conc)
  have C: "unat s < length ?C" "length (concat ?C) < 2 ^ 32" "length ?C < 2 ^ 32"
    using s small le_less_trans [OF length_copies [of "all_changes news"]] by (simp_all add: conc)
  have offs: "rc_changesOffsets newData = offsets_of ?M" "rc_copyFromOffsets newData = offsets_of ?C" using h by simp_all
  have col: "rc_changes newData = map change_byte (concat ?M)" "rc_changedPathTypes newData = map ch_type (concat ?M)"
    "rc_textModifies newData = map ch_text (concat ?M)" "rc_propsModifies newData = map ch_props (concat ?M)"
    "rc_copyFromRevisions newData = map snd (concat ?C)"
    using h unfolding conc by blast+
  note changes = copied_map [OF col(1) M, folded offs] copied_map [OF col(2) M, folded offs] copied_map [OF col(3) M, folded offs]
    copied_map [OF col(4) M, folded offs] and revisions = copied_map [OF col(5) C, folded offs]
  have "list_all2 (\<lambda>x ch. stands (rc_paths newData) x (ch_path ch)) (rc_changedPaths newData) (concat ?M)"
    using h by (simp add: all_changes_def list_all2_map2)
  from copied_ok [OF this _ M, of ?f "\<lambda>x ch. stands d x (ch_path ch)"] stands_moved [OF pm]
  obtain ps where ps: "copied (\<lambda>k. Option.bind (vat (rc_changedPaths newData) k) ?f) (rc_changesOffsets newData) s = Some ps"
      "list_all2 (\<lambda>x ch. stands d x (ch_path ch)) ps (?M ! unat s)" using h by auto
  have "list_all2 (\<lambda>x c. stands (rc_paths newData) x (fst c)) (rc_copyFromPaths newData) (concat ?C)"
    using h by (simp add: concat_copies list_all2_map2)
  from copied_ok [OF this _ C, of ?f "\<lambda>x c. stands d x (fst c)"] stands_moved [OF pm]
  obtain qs where qs: "copied (\<lambda>k. Option.bind (vat (rc_copyFromPaths newData) k) ?f) (rc_copyFromOffsets newData) s = Some qs"
      "list_all2 (\<lambda>x c. stands d x (fst c)) qs (?C ! unat s)" using h by auto
  show ?thesis using changes revisions ps qs s
    by (simp add: copied_changes_def entries_of_def list_all2_map2)
qed

lemma kept_changes_ok:
  assumes e: "entries_of d (entries_in old) (pre @ chs @ post)" and small: "length (pre @ chs) < 2 ^ 32"
  shows "\<exists>e. kept_changes old (of_nat (length pre)) (of_nat (length (pre @ chs))) (of_nat (length (copies pre)))
      (of_nat (length (copies (pre @ chs)))) = Some e \<and> entries_of d e chs"
proof -
  note h = e [unfolded entries_of_def entries_in_def change_entries.simps]
  have C: "length (copies pre @ copies chs) < 2 ^ 32" using small length_copies [of "pre @ chs"] by simp
  let ?first = "of_nat (length pre) :: index_t" and ?stop = "of_nat (length (pre @ chs)) :: index_t"
  let ?firstCopy = "of_nat (length (copies pre)) :: index_t" and ?lastCopy = "of_nat (length (copies (pre @ chs))) :: index_t"
  have col: "rc_changes old = map change_byte (pre @ chs @ post)" "rc_changedPathTypes old = map ch_type (pre @ chs @ post)"
    "rc_textModifies old = map ch_text (pre @ chs @ post)" "rc_propsModifies old = map ch_props (pre @ chs @ post)"
    "rc_copyFromRevisions old = map snd (copies pre @ copies chs @ copies post)"
    using h by simp_all
  note cols = kept_map [OF col(1) small] kept_map [OF col(2) small] kept_map [OF col(3) small] kept_map [OF col(4) small]
  have "list_all2 (\<lambda>x ch. stands d x (ch_path ch)) (rc_changedPaths old) (pre @ chs @ post)" using h unfolding list_all2_map2 by blast
  from kept_all2 [OF this small] obtain ps where ps: "kept (rc_changedPaths old) ?first ?stop = Some ps"
      "list_all2 (\<lambda>x ch. stands d x (ch_path ch)) ps chs" by blast
  have "list_all2 (\<lambda>x c. stands d x (fst c)) (rc_copyFromPaths old) (copies pre @ copies chs @ copies post)"
    using h unfolding list_all2_map2 copies_append by blast
  from kept_all2 [OF this C] obtain qs where qs: "kept (rc_copyFromPaths old) ?firstCopy ?lastCopy = Some qs"
      "list_all2 (\<lambda>x c. stands d x (fst c)) qs (copies chs)" by auto
  have rs: "kept (rc_copyFromRevisions old) ?firstCopy ?lastCopy = Some (map snd (copies chs))"
    using kept_map [OF col(5) C] by simp
  have none: "copies chs = []" if "?firstCopy = ?lastCopy"
  proof -
    have "unat ?firstCopy = length (copies pre)" by (rule unat_of_nat_small) (use C in simp)
    moreover have "unat ?lastCopy = length (copies (pre @ chs))" by (rule unat_of_nat_small) (use C in simp)
    ultimately have "length (copies pre) = length (copies (pre @ chs))" unfolding that by (rule trans [OF sym])
    then show ?thesis by simp
  qed
  show ?thesis
  proof (cases "?firstCopy = ?lastCopy")
    case True
    then show ?thesis using cols ps none by (simp add: kept_changes_def entries_of_def list_all2_map2 del: of_nat_add length_append)
  next
    case False
    then show ?thesis using cols ps qs rs by (simp add: kept_changes_def entries_of_def list_all2_map2 del: of_nat_add length_append)
  qed
qed

text \<open>What the map says about the revision \<open>i\<close>, which becomes \<open>r'\<close>; \<open>get\<close> is the part of a revision that is copied.\<close>

definition sourced :: "revision_info \<Rightarrow> index_mapping_t \<Rightarrow> bool \<Rightarrow> byte \<Rightarrow> (revision \<Rightarrow> 'a) \<Rightarrow> revision list \<Rightarrow> nat \<Rightarrow> revision \<Rightarrow> revision \<Rightarrow> bool" where
  "sourced newData m keepOld flag get news i r r' \<longleftrightarrow>
     (\<exists>s. update_source newData m keepOld flag (of_nat i) = Some (Some s) \<and> unat s < length news \<and> get r' = get (news ! unat s)) \<or>
     (update_source newData m keepOld flag (of_nat i) = Some None \<and> get r' = get r)"

text \<open>The part of the state that the changes do not touch.\<close>

definition without_changes :: "revision_info \<Rightarrow> revision_info" where
  "without_changes c = c\<lparr>rc_changes := [], rc_changedPaths := [], rc_changedPathTypes := [], rc_copyFromPaths := [], rc_copyFromRevisions := [],
     rc_textModifies := [], rc_propsModifies := [], rc_changesOffsets := [], rc_copyFromOffsets := [], rc_rootPaths := [], rc_sumChanges := []\<rparr>"

definition changes_spliced :: "revision list \<Rightarrow> revision list \<Rightarrow> revision list \<Rightarrow> revision_info \<Rightarrow> bool" where
  "changes_spliced R1 E1 E2 c \<longleftrightarrow> entries_of (rc_paths c) (entries_in c) (all_changes R1) \<and>
     rc_changesOffsets c = map of_nat (starts 0 (map rv_changes R1) @ tl (starts (length (all_changes E1)) (map rv_changes E2))) \<and>
     rc_copyFromOffsets c = map of_nat (starts 0 (map (\<lambda>r. copies (rv_changes r)) R1) @
       tl (starts (length (copies (all_changes E1))) (map (\<lambda>r. copies (rv_changes r)) E2))) \<and>
     list_all2 (root_of (rc_paths c)) (rc_rootPaths c) (map rv_changes (R1 @ E2)) \<and> rc_sumChanges c = map (\<lambda>r. sum_of (rv_changes r)) (R1 @ E2)"

lemma all_changes_simps [simp]:
  "all_changes [] = []" "all_changes (r # rs) = rv_changes r @ all_changes rs" "all_changes (rs @ rs') = all_changes rs @ all_changes rs'"
  by (simp_all add: all_changes_def)

lemma unat_step: "i + 1 < 2 ^ 32 \<Longrightarrow> unat (of_nat i + 1 :: index_t) = i + 1"
proof -
  assume "i + 1 < 2 ^ 32"
  then have "unat (of_nat (i + 1) :: index_t) = i + 1" by (intro unat_of_nat_small) simp
  then show ?thesis by (simp only: of_nat_add of_nat_1)
qed

lemma splice_changes_step:
  assumes inv: "changes_spliced R1 E1 (r # E2) c" and len: "length R1 = length E1" "length E1 + length E2 + 2 < 2 ^ 32"
    and old: "entries_of (rc_paths c) (entries_in old) (all_changes (E1 @ r # E2))" and small: "length (all_changes (E1 @ r # E2)) < 2 ^ 32"
    and n: "holds_changes newData news" "maps_paths (rc_paths newData) (length (pd_keys (rc_paths newData))) (rc_paths c) pm"
      "length news < 2 ^ 32" "length (all_changes news) < 2 ^ 32"
    and src: "sourced newData m keepOld HAS_CHANGEDPATHS rv_changes news (length E1) r r'"
  shows "\<exists>c'. (\<forall>is. splice_changes newData m pm keepOld old (length E1 # is) (of_nat (length (all_changes E1))) (of_nat (length (copies (all_changes E1)))) c =
      splice_changes newData m pm keepOld old is (of_nat (length (all_changes (E1 @ [r])))) (of_nat (length (copies (all_changes (E1 @ [r]))))) c') \<and>
    changes_spliced (R1 @ [r']) (E1 @ [r]) E2 c' \<and> without_changes c' = without_changes c"
proof -
  let ?i = "length E1" and ?d = "rc_paths c" and ?g = "\<lambda>r. copies (rv_changes r)"
  note inv' = inv [unfolded changes_spliced_def]
  have offs: "rc_changesOffsets c = map of_nat (starts 0 (map rv_changes R1) @ tl (starts (length (all_changes E1)) (rv_changes r # map rv_changes E2)))"
    "rc_copyFromOffsets c = map of_nat (starts 0 (map ?g R1) @ tl (starts (length (copies (all_changes E1))) (?g r # map ?g E2)))"
    using inv' by simp_all
  have i: "unat (of_nat ?i + 1 :: index_t) = ?i + 1" "unat (of_nat ?i :: index_t) = ?i" using len(2) by (simp_all add: unat_step unat_of_nat_small)
  have lst: "vat (rc_changesOffsets c) (of_nat ?i + 1) = Some (of_nat (length (all_changes (E1 @ [r]))))"
    "vat (rc_copyFromOffsets c) (of_nat ?i + 1) = Some (of_nat (length (copies (all_changes (E1 @ [r])))))"
    using spliced_offsets(1,2) [OF offs(1)] spliced_offsets(1,2) [OF offs(2)] len(1) i(1) by (simp_all add: vat_def)
  let ?entries = "\<lambda>e. entries_of ?d e (rv_changes r')"
  let ?closed = "\<lambda>c. c\<lparr>rc_changesOffsets := (rc_changesOffsets c)[?i + 1 := of_nat (length (rc_changes c))],
          rc_copyFromOffsets := (rc_copyFromOffsets c)[?i + 1 := of_nat (length (rc_copyFromPaths c))]\<rparr>"
  have ending: "changes_spliced (R1 @ [r']) (E1 @ [r]) E2 (?closed c2) \<and> without_changes (?closed c2) = without_changes c"
    if e: "?entries e" and c2: "\<exists>roots sums. c2 = (append_changes e c)\<lparr>rc_rootPaths := roots, rc_sumChanges := sums\<rparr> \<and>
      list_all2 (root_of ?d) roots (map rv_changes (R1 @ r' # E2)) \<and> sums = map (\<lambda>r. sum_of (rv_changes r)) (R1 @ r' # E2)" for e c2
  proof -
    obtain roots sums where c2: "c2 = (append_changes e c)\<lparr>rc_rootPaths := roots, rc_sumChanges := sums\<rparr>"
      "list_all2 (root_of ?d) roots (map rv_changes (R1 @ r' # E2))" "sums = map (\<lambda>r. sum_of (rv_changes r)) (R1 @ r' # E2)"
      using c2 by blast
    have ent: "entries_of ?d (entries_in (append_changes e c)) (all_changes (R1 @ [r']))" using entries_of_append [OF _ e] inv' by simp
    have l: "length (rc_changes c2) = length (concat (map rv_changes R1 @ [rv_changes r']))"
      "length (rc_copyFromPaths c2) = length (concat (map ?g R1 @ [?g r']))"
      using ent c2(1) by (auto simp: entries_of_def entries_in_def all_changes_def [symmetric] concat_copies dest: list_all2_lengthD)
    have o: "rc_changesOffsets c2 = rc_changesOffsets c" "rc_copyFromOffsets c2 = rc_copyFromOffsets c" by (simp_all add: c2(1) append_changes_def)
    have "(rc_changesOffsets c)[?i + 1 := of_nat (length (rc_changes c2))] =
        map of_nat (starts 0 (map rv_changes (R1 @ [r'])) @ tl (starts (length (all_changes (E1 @ [r]))) (map rv_changes E2)))"
      unfolding l len(1) [symmetric] using spliced_offsets(3) [OF offs(1), of "rv_changes r'"] by simp
    moreover have "(rc_copyFromOffsets c)[?i + 1 := of_nat (length (rc_copyFromPaths c2))] =
        map of_nat (starts 0 (map ?g (R1 @ [r'])) @ tl (starts (length (copies (all_changes (E1 @ [r])))) (map ?g E2)))"
      unfolding l len(1) [symmetric] using spliced_offsets(3) [OF offs(2), of "?g r'"] by simp
    moreover have "rc_paths c2 = ?d" "entries_in (?closed c2) = entries_in (append_changes e c)" by (simp_all add: c2(1) append_changes_def entries_in_def)
    moreover have "without_changes (?closed c2) = without_changes c" by (simp add: c2(1) append_changes_def without_changes_def)
    moreover have "rc_rootPaths c2 = roots" "rc_sumChanges c2 = sums" by (simp_all add: c2(1))
    ultimately show ?thesis using ent c2(2,3) o by (simp add: changes_spliced_def)
  qed
  show ?thesis using src unfolding sourced_def
  proof (elim disjE exE conjE)
    fix s assume s: "update_source newData m keepOld HAS_CHANGEDPATHS (of_nat ?i) = Some (Some s)" "unat s < length news" "rv_changes r' = rv_changes (news ! unat s)"
    obtain e where e: "copied_changes newData pm s = Some e" "?entries e"
      using copied_changes_ok [OF n(1,2) s(2) n(3,4)] s(3) by auto
    have nr: "list_all2 (root_of (rc_paths newData)) (rc_rootPaths newData) (map rv_changes news)"
      "rc_sumChanges newData = map (\<lambda>r. sum_of (rv_changes r)) news" using n(1) by (simp_all add: holds_changes_def)
    obtain root where root: "vat (rc_rootPaths newData) s = Some root" "root_of (rc_paths newData) root (rv_changes r')"
      using list_all2_nthD2 [OF nr(1), of "unat s"] s(2,3) list_all2_lengthD [OF nr(1)] by (auto simp: vat_def)
    obtain j where j: "qm_lookup index_conv pm root = Some j" "root_of ?d j (rv_changes r')" using root_moved [OF n(2) root(2)] by blast
    have sm: "vat (rc_sumChanges newData) s = Some (sum_of (rv_changes r'))" using nr(2) s(2,3) by (simp add: vat_def)
    have roots: "list_all2 (root_of ?d) (rc_rootPaths c) (map rv_changes (R1 @ r # E2))" "rc_sumChanges c = map (\<lambda>r. sum_of (rv_changes r)) (R1 @ r # E2)"
      using inv' by simp_all
    have "length (rc_rootPaths c) = length R1 + length E2 + 1" "length (rc_sumChanges c) = length R1 + length E2 + 1"
      using list_all2_lengthD [OF roots(1)] roots(2) by simp_all
    then have cr: "copy_root newData pm s (of_nat ?i) (append_changes e c) = Some ((append_changes e c)\<lparr>rc_rootPaths := (rc_rootPaths c)[?i := j],
        rc_sumChanges := (rc_sumChanges c)[?i := sum_of (rv_changes r')]\<rparr>)"
      using root(1) j(1) sm i(2) len(1) by (simp add: copy_root_def vset_def append_changes_def)
    have "list_all2 (root_of ?d) ((rc_rootPaths c)[?i := j]) ((map rv_changes (R1 @ r # E2))[?i := rv_changes r'])"
      using roots(1) j(2) by (rule list_all2_update_cong)
    moreover have "(map rv_changes (R1 @ r # E2))[?i := rv_changes r'] = map rv_changes (R1 @ r' # E2)" using len(1) by (simp add: list_update_append)
    moreover have "(rc_sumChanges c)[?i := sum_of (rv_changes r')] = map (\<lambda>r. sum_of (rv_changes r)) (R1 @ r' # E2)"
      using roots(2) len(1) by (simp add: list_update_append)
    ultimately have "changes_spliced (R1 @ [r']) (E1 @ [r]) E2 (?closed (the (copy_root newData pm s (of_nat ?i) (append_changes e c)))) \<and>
        without_changes (?closed (the (copy_root newData pm s (of_nat ?i) (append_changes e c)))) = without_changes c"
      by (intro ending [OF e(2)]) (auto simp: cr)
    then show ?thesis using s(1) lst e(1) cr by (intro exI) (auto simp: Let_def)
  next
    assume s: "update_source newData m keepOld HAS_CHANGEDPATHS (of_nat ?i) = Some None" "rv_changes r' = rv_changes r"
    have "entries_of ?d (entries_in old) (all_changes E1 @ rv_changes r @ all_changes E2)" "length (all_changes E1 @ rv_changes r) < 2 ^ 32"
      using old small by simp_all
    from kept_changes_ok [OF this] obtain e where
      e: "kept_changes old (of_nat (length (all_changes E1))) (of_nat (length (all_changes (E1 @ [r])))) (of_nat (length (copies (all_changes E1))))
        (of_nat (length (copies (all_changes (E1 @ [r]))))) = Some e" "?entries e" unfolding s(2) by auto
    have "changes_spliced (R1 @ [r']) (E1 @ [r]) E2 (?closed (append_changes e c)) \<and> without_changes (?closed (append_changes e c)) = without_changes c"
      by (intro ending [OF e(2)] exI [of _ "rc_rootPaths c"] exI [of _ "rc_sumChanges c"]) (use inv' s(2) in \<open>simp add: append_changes_def\<close>)
    then show ?thesis using s(1) lst e(1) by (intro exI) (auto simp: Let_def)
  qed
qed

lemma splice_changes_ok:
  assumes n: "holds_changes newData news" "maps_paths (rc_paths newData) (length (pd_keys (rc_paths newData))) d pm"
    "length news < 2 ^ 32" "length (all_changes news) < 2 ^ 32"
  shows "changes_spliced R1 E1 E2 c \<Longrightarrow> rc_paths c = d \<Longrightarrow> length R1 = length E1 \<Longrightarrow> length R2 = length E2 \<Longrightarrow>
    length E1 + length E2 + 1 < 2 ^ 32 \<Longrightarrow> entries_of d (entries_in old) (all_changes (E1 @ E2)) \<Longrightarrow> length (all_changes (E1 @ E2)) < 2 ^ 32 \<Longrightarrow>
    \<forall>j < length E2. sourced newData m keepOld HAS_CHANGEDPATHS rv_changes news (length E1 + j) (E2 ! j) (R2 ! j) \<Longrightarrow>
    \<exists>c'. splice_changes newData m pm keepOld old [length E1..<length E1 + length E2] (of_nat (length (all_changes E1)))
        (of_nat (length (copies (all_changes E1)))) c = Some c' \<and>
      changes_spliced (R1 @ R2) (E1 @ E2) [] c' \<and> without_changes c' = without_changes c"
proof (induction E2 arbitrary: R1 E1 R2 c)
  case Nil
  then show ?case by simp
next
  case (Cons r E2)
  obtain r' R2' where R2: "R2 = r' # R2'" "length R2' = length E2" using Cons.prems(4) by (cases R2) auto
  have src: "sourced newData m keepOld HAS_CHANGEDPATHS rv_changes news (length E1) r r'" using Cons.prems(8) [rule_format, of 0] by (simp add: R2)
  have d: "entries_of (rc_paths c) (entries_in old) (all_changes (E1 @ r # E2))"
      "maps_paths (rc_paths newData) (length (pd_keys (rc_paths newData))) (rc_paths c) pm" using Cons.prems(2,6) n(2) by simp_all
  have len: "length E1 + length E2 + 2 < 2 ^ 32" using Cons.prems(5) by simp
  obtain c1 where c1: "\<And>is. splice_changes newData m pm keepOld old (length E1 # is) (of_nat (length (all_changes E1))) (of_nat (length (copies (all_changes E1)))) c =
      splice_changes newData m pm keepOld old is (of_nat (length (all_changes (E1 @ [r])))) (of_nat (length (copies (all_changes (E1 @ [r]))))) c1"
    "changes_spliced (R1 @ [r']) (E1 @ [r]) E2 c1" "without_changes c1 = without_changes c"
    using splice_changes_step [OF Cons.prems(1,3) len d(1) Cons.prems(7) n(1) d(2) n(3,4) src] by blast
  have "rc_paths c1 = d" using arg_cong [OF c1(3), of rc_paths] Cons.prems(2) by (simp add: without_changes_def)
  moreover have "\<forall>j < length E2. sourced newData m keepOld HAS_CHANGEDPATHS rv_changes news (length (E1 @ [r]) + j) (E2 ! j) (R2' ! j)"
    using Cons.prems(8) by (auto simp: R2 dest: spec [of _ "Suc _"])
  ultimately obtain c' where c': "splice_changes newData m pm keepOld old [length (E1 @ [r])..<length (E1 @ [r]) + length E2]
      (of_nat (length (all_changes (E1 @ [r])))) (of_nat (length (copies (all_changes (E1 @ [r]))))) c1 = Some c'"
      "changes_spliced ((R1 @ [r']) @ R2') ((E1 @ [r]) @ E2) [] c'" "without_changes c' = without_changes c1"
    using Cons.IH [OF c1(2), of R2'] Cons.prems(3,5,6,7) R2(2) by auto
  have up: "[length E1..<length E1 + length (r # E2)] = length E1 # [length (E1 @ [r])..<length (E1 @ [r]) + length E2]"
    by (simp add: upt_conv_Cons del: upt_Suc)
  show ?case unfolding up c1(1) using c'(1,2) c1(3) c'(3) R2(1) by (intro exI [of _ c']) simp
qed

lemma sourced_updated:
  assumes m: "qm_inv index_conv m" "entries_ok (length revs) (length news) (qm_data m)" and n: "holds_std n news"
    and get: "\<And>new old. get (merged_revision flags keepOld new old) = (if keepOld \<longrightarrow> rv_flags new AND flag \<noteq> 0 then get new else get old)"
    and i: "i < length revs"
  shows "sourced n m keepOld flag get news i (revs ! i) (updated flags keepOld news (qm_data m) revs ! i)"
proof (cases "map_of (qm_data m) (of_nat i :: index_t)")
  case None
  then show ?thesis using i by (simp add: sourced_def update_source_def qm_lookup_map_of [OF m(1)] nth_updated)
next
  case (Some v)
  have v: "unat v < length news" by (rule entries_value [OF m(2) Some])
  then show ?thesis using Some i takes_ok [OF n v, of keepOld flag]
    by (auto simp: sourced_def update_source_def qm_lookup_map_of [OF m(1)] nth_updated get)
qed

lemma updated_subset:
  assumes m: "entries_ok (length revs) (length news) es" and r: "r \<in> set (updated flags keepOld news es revs)"
  shows "\<exists>old \<in> set revs. rv_changes r = rv_changes old \<or> (\<exists>new \<in> set news. rv_changes r = rv_changes new)"
proof -
  obtain i where i: "i < length revs" "r = updated flags keepOld news es revs ! i" using r by (auto simp: in_set_conv_nth)
  then have "rv_changes r = rv_changes (revs ! i) \<or> (\<exists>v :: index_t. unat v < length news \<and> rv_changes r = rv_changes (news ! unat v))"
  proof (cases "map_of es (of_nat i :: index_t)")
    case (Some v)
    then have "rv_changes r = rv_changes (revs ! i) \<or> rv_changes r = rv_changes (news ! unat v)"
      using i by (simp add: nth_updated merged_revision_def Let_def)
    then show ?thesis using entries_value [OF m Some] by blast
  qed (use i in \<open>simp add: nth_updated\<close>)
  then show ?thesis using i(1) nth_mem by blast
qed

lemma map_starts: "map f (starts k L) = f k # map f (tl (starts k L))"
  by (cases L) simp_all

lemma UpdateChanges_ok:
  assumes h: "holds_changes c revs" and n: "holds_changes n news" "holds_std n news"
    and pm: "maps_paths (rc_paths n) (length (pd_keys (rc_paths n))) (rc_paths c) pm"
    and m: "qm_inv index_conv m" "entries_ok (length revs) (length news) (qm_data m)"
    and small: "length revs + 1 < 2 ^ 32" "length (all_changes revs) < 2 ^ 32" "length news < 2 ^ 32" "length (all_changes news) < 2 ^ 32"
    and sz: "length (rc_authors c) = length revs" and flag: "flags AND HAS_CHANGEDPATHS \<noteq> 0"
  shows "\<exists>c'. rc_UpdateChanges n m pm keepOld c = Inr c' \<and> holds_changes c' (updated flags keepOld news (qm_data m) revs) \<and>
    without_changes c' = without_changes c"
proof -
  let ?R = "updated flags keepOld news (qm_data m) revs"
  let ?c = "c\<lparr>rc_changes := [], rc_changedPaths := [], rc_changedPathTypes := [], rc_copyFromPaths := [], rc_copyFromRevisions := [],
          rc_textModifies := [], rc_propsModifies := []\<rparr>"
  note e = h [unfolded holds_changes_entries]
  have start: "changes_spliced [] [] revs ?c"
    using e by (simp add: changes_spliced_def offsets_of_def entries_of_def entries_in_def map_starts)
  have src: "\<forall>j < length revs. sourced n m keepOld HAS_CHANGEDPATHS rv_changes news (length ([] :: revision list) + j) (revs ! j) (?R ! j)"
    using sourced_updated [OF m n(2), where get = rv_changes and flag = HAS_CHANGEDPATHS and flags = flags and keepOld = keepOld] flag
    by (simp add: merged_revision_def Let_def)
  have sz': "unat (rc_size c) = length revs" using small(1) sz by (simp add: rc_size_def unat_of_nat_small)
  obtain c' where c': "splice_changes n m pm keepOld c [0..<length revs] 0 0 ?c = Some c'" "changes_spliced ?R revs [] c'"
      "without_changes c' = without_changes ?c"
    using splice_changes_ok [OF n(1) pm small(3,4) start, of ?R c m keepOld] src e small by auto
  have d: "rc_paths c' = rc_paths c" using arg_cong [OF c'(3), of rc_paths] by (simp add: without_changes_def)
  have any: "\<forall>ch \<in> set (all_changes ?R). ch_action ch AND ANY_ACTION = ch_action ch"
  proof
    fix ch assume "ch \<in> set (all_changes ?R)"
    then obtain r where r: "r \<in> set ?R" "ch \<in> set (rv_changes r)" by (auto simp: all_changes_def)
    have "ch \<in> set (all_changes revs) \<or> ch \<in> set (all_changes news)"
      using updated_subset [OF m(2) r(1)] r(2) by (auto simp: all_changes_def)
    then show "ch_action ch AND ANY_ACTION = ch_action ch" using e n(1) unfolding holds_changes_def by blast
  qed
  have "holds_changes c' ?R" using c'(2) any e d unfolding holds_changes_entries changes_spliced_def
    by (simp add: offsets_of_def)
  moreover have "rc_UpdateChanges n m pm keepOld c = Inr c'" using c'(1) sz' by (simp add: rc_UpdateChanges_def)
  moreover have "without_changes ?c = without_changes c" by (simp add: without_changes_def)
  ultimately show ?thesis using c'(3) by auto
qed

subsection \<open>Merges\<close>

type_synonym merge = "byte list list \<times> byte list list \<times> revision_t \<times> revision_t"

definition merges_of :: "path_dictionary \<Rightarrow> merge_entries \<Rightarrow> merge list \<Rightarrow> bool" where
  "merges_of d e ms \<longleftrightarrow> list_all2 (stands d) (me_fromPaths e) (map fst ms) \<and> list_all2 (stands d) (me_toPaths e) (map (\<lambda>m. fst (snd m)) ms) \<and>
     me_starts e = map (\<lambda>m. fst (snd (snd m))) ms \<and> me_deltas e = map (\<lambda>m. snd (snd (snd m))) ms"

definition merges_in :: "revision_info \<Rightarrow> merge_entries" where
  "merges_in c = \<lparr>me_fromPaths = rc_mergedFromPaths c, me_toPaths = rc_mergedToPaths c, me_starts = rc_mergedRangeStarts c,
     me_deltas = rc_mergedRangeDeltas c\<rparr>"

lemma holds_merges_entries:
  "holds_merges c revs \<longleftrightarrow> rc_mergedRevisionsOffsets c = offsets_of (map rv_merges revs) \<and> merges_of (rc_paths c) (merges_in c) (all_merges revs)"
  by (auto simp: holds_merges_def merges_of_def merges_in_def)

lemma merges_of_append: "merges_of d (merges_in c) ms \<Longrightarrow> merges_of d e ms' \<Longrightarrow> merges_of d (merges_in (append_merges e c)) (ms @ ms')"
  by (simp add: merges_of_def merges_in_def append_merges_def list_all2_appendI)

lemma copied_merges_ok:
  assumes n: "holds_merges newData news" and pm: "maps_paths (rc_paths newData) (length (pd_keys (rc_paths newData))) d pm"
    and s: "unat s < length news" and small: "length news < 2 ^ 32" "length (all_merges news) < 2 ^ 32"
  shows "\<exists>e. copied_merges newData pm s = Some e \<and> merges_of d e (rv_merges (news ! unat s))"
proof -
  let ?M = "map rv_merges news" and ?f = "qm_lookup index_conv pm"
  note h = n [unfolded holds_merges_def all_merges_def]
  have M: "unat s < length ?M" "length (concat ?M) < 2 ^ 32" "length ?M < 2 ^ 32" using s small by (simp_all add: all_merges_def)
  have offs: "rc_mergedRevisionsOffsets newData = offsets_of ?M" using h by simp
  have col: "rc_mergedRangeStarts newData = map (\<lambda>m. fst (snd (snd m))) (concat ?M)"
    "rc_mergedRangeDeltas newData = map (\<lambda>m. snd (snd (snd m))) (concat ?M)" using h by blast+
  have "list_all2 (\<lambda>x m. stands (rc_paths newData) x (fst m)) (rc_mergedFromPaths newData) (concat ?M)"
    "list_all2 (\<lambda>x m. stands (rc_paths newData) x (fst (snd m))) (rc_mergedToPaths newData) (concat ?M)"
    using h unfolding list_all2_map2 by blast+
  from copied_ok [OF this(1) _ M, of ?f "\<lambda>x m. stands d x (fst m)"] copied_ok [OF this(2) _ M, of ?f "\<lambda>x m. stands d x (fst (snd m))"] stands_moved [OF pm]
  obtain ps qs where "copied (\<lambda>k. Option.bind (vat (rc_mergedFromPaths newData) k) ?f) (offsets_of ?M) s = Some ps"
      "list_all2 (\<lambda>x m. stands d x (fst m)) ps (?M ! unat s)"
      "copied (\<lambda>k. Option.bind (vat (rc_mergedToPaths newData) k) ?f) (offsets_of ?M) s = Some qs"
      "list_all2 (\<lambda>x m. stands d x (fst (snd m))) qs (?M ! unat s)" by auto
  then show ?thesis using copied_map [OF col(1) M] copied_map [OF col(2) M] s
    by (simp add: copied_merges_def merges_of_def list_all2_map2 offs)
qed

lemma kept_merges_ok:
  assumes e: "merges_of d (merges_in old) (pre @ ms @ post)" and small: "length (pre @ ms) < 2 ^ 32"
  shows "\<exists>e. kept_merges old (of_nat (length pre)) (of_nat (length (pre @ ms))) = Some e \<and> merges_of d e ms"
proof -
  note h = e [unfolded merges_of_def merges_in_def merge_entries.simps]
  have col: "rc_mergedRangeStarts old = map (\<lambda>m. fst (snd (snd m))) (pre @ ms @ post)"
    "rc_mergedRangeDeltas old = map (\<lambda>m. snd (snd (snd m))) (pre @ ms @ post)" using h by blast+
  have "list_all2 (\<lambda>x m. stands d x (fst m)) (rc_mergedFromPaths old) (pre @ ms @ post)"
    "list_all2 (\<lambda>x m. stands d x (fst (snd m))) (rc_mergedToPaths old) (pre @ ms @ post)" using h unfolding list_all2_map2 by blast+
  from kept_all2 [OF this(1) small] kept_all2 [OF this(2) small] kept_map [OF col(1) small] kept_map [OF col(2) small] show ?thesis
    by (auto simp: kept_merges_def merges_of_def list_all2_map2 simp del: of_nat_add length_append)
qed

definition without_merges :: "revision_info \<Rightarrow> revision_info" where
  "without_merges c = c\<lparr>rc_mergedFromPaths := [], rc_mergedToPaths := [], rc_mergedRangeStarts := [], rc_mergedRangeDeltas := [],
     rc_mergedRevisionsOffsets := []\<rparr>"

definition merges_spliced :: "revision list \<Rightarrow> revision list \<Rightarrow> revision list \<Rightarrow> revision_info \<Rightarrow> bool" where
  "merges_spliced R1 E1 E2 c \<longleftrightarrow> merges_of (rc_paths c) (merges_in c) (all_merges R1) \<and>
     rc_mergedRevisionsOffsets c = map of_nat (starts 0 (map rv_merges R1) @ tl (starts (length (all_merges E1)) (map rv_merges E2)))"

lemma all_merges_simps [simp]:
  "all_merges [] = []" "all_merges (r # rs) = rv_merges r @ all_merges rs" "all_merges (rs @ rs') = all_merges rs @ all_merges rs'"
  by (simp_all add: all_merges_def)

lemma splice_merges_ok:
  assumes n: "holds_merges newData news" "maps_paths (rc_paths newData) (length (pd_keys (rc_paths newData))) d pm"
    "length news < 2 ^ 32" "length (all_merges news) < 2 ^ 32"
  shows "merges_spliced R1 E1 E2 c \<Longrightarrow> rc_paths c = d \<Longrightarrow> length R1 = length E1 \<Longrightarrow> length R2 = length E2 \<Longrightarrow>
    length E1 + length E2 + 1 < 2 ^ 32 \<Longrightarrow> merges_of d (merges_in old) (all_merges (E1 @ E2)) \<Longrightarrow> length (all_merges (E1 @ E2)) < 2 ^ 32 \<Longrightarrow>
    \<forall>j < length E2. sourced newData m keepOld HAS_MERGEINFO rv_merges news (length E1 + j) (E2 ! j) (R2 ! j) \<Longrightarrow>
    \<exists>c'. splice_merges newData m pm keepOld old [length E1..<length E1 + length E2] (of_nat (length (all_merges E1))) c = Some c' \<and>
      merges_spliced (R1 @ R2) (E1 @ E2) [] c' \<and> without_merges c' = without_merges c"
proof (induction E2 arbitrary: R1 E1 R2 c)
  case Nil
  then show ?case by simp
next
  case (Cons r E2)
  obtain r' R2' where R2: "R2 = r' # R2'" "length R2' = length E2" using Cons.prems(4) by (cases R2) auto
  let ?i = "length E1" and ?last = "of_nat (length (all_merges (E1 @ [r]))) :: index_t"
  have offs: "rc_mergedRevisionsOffsets c = map of_nat (starts 0 (map rv_merges R1) @ tl (starts (length (all_merges E1)) (rv_merges r # map rv_merges E2)))"
    using Cons.prems(1) by (simp add: merges_spliced_def)
  have i: "unat (of_nat ?i + 1 :: index_t) = ?i + 1" using Cons.prems(5) by (simp add: unat_step)
  have lst: "vat (rc_mergedRevisionsOffsets c) (of_nat ?i + 1) = Some ?last"
    using spliced_offsets(1,2) [OF offs] Cons.prems(3) i by (simp add: vat_def)
  have "sourced newData m keepOld HAS_MERGEINFO rv_merges news ?i r r'" using Cons.prems(8) [rule_format, of 0] by (simp add: R2)
  then obtain source e where e: "update_source newData m keepOld HAS_MERGEINFO (of_nat ?i) = Some source"
      "(case source of Some s \<Rightarrow> copied_merges newData pm s | None \<Rightarrow> kept_merges old (of_nat (length (all_merges E1))) ?last) = Some e"
      "merges_of d e (rv_merges r')"
    unfolding sourced_def
  proof (elim disjE exE conjE)
    fix s assume s: "update_source newData m keepOld HAS_MERGEINFO (of_nat ?i) = Some (Some s)" "unat s < length news" "rv_merges r' = rv_merges (news ! unat s)"
    show thesis using that [OF s(1)] copied_merges_ok [OF n(1,2) s(2) n(3,4)] s(3) by auto
  next
    assume s: "update_source newData m keepOld HAS_MERGEINFO (of_nat ?i) = Some None" "rv_merges r' = rv_merges r"
    have "merges_of d (merges_in old) (all_merges E1 @ rv_merges r @ all_merges E2)" "length (all_merges E1 @ rv_merges r) < 2 ^ 32"
      using Cons.prems(6,7) by simp_all
    from kept_merges_ok [OF this] show thesis using that [OF s(1)] s(2) by auto
  qed
  define c1 where "c1 = (append_merges e c)\<lparr>rc_mergedRevisionsOffsets :=
      (rc_mergedRevisionsOffsets c)[?i + 1 := of_nat (length (rc_mergedFromPaths (append_merges e c)))]\<rparr>"
  have step: "splice_merges newData m pm keepOld old (?i # is) (of_nat (length (all_merges E1))) c = splice_merges newData m pm keepOld old is ?last c1" for "is"
    using e(1,2) lst by (cases source) (simp_all add: Let_def c1_def append_merges_def)
  have d: "rc_paths c1 = d" "without_merges c1 = without_merges c" using Cons.prems(2) by (simp_all add: c1_def append_merges_def without_merges_def)
  have ent: "merges_of d (merges_in (append_merges e c)) (all_merges (R1 @ [r']))"
    using merges_of_append [OF _ e(3)] Cons.prems(1,2) by (simp add: merges_spliced_def)
  then have l: "length (rc_mergedFromPaths (append_merges e c)) = length (concat (map rv_merges R1 @ [rv_merges r']))"
    by (auto simp: merges_of_def merges_in_def all_merges_def [symmetric] dest: list_all2_lengthD)
  have "rc_mergedRevisionsOffsets c1 = map of_nat (starts 0 (map rv_merges (R1 @ [r'])) @ tl (starts (length (all_merges (E1 @ [r]))) (map rv_merges E2)))"
    unfolding c1_def l Cons.prems(3) [symmetric] using spliced_offsets(3) [OF offs, of "rv_merges r'"] by simp
  moreover have "merges_in c1 = merges_in (append_merges e c)" by (simp add: c1_def merges_in_def)
  ultimately have inv: "merges_spliced (R1 @ [r']) (E1 @ [r]) E2 c1" using ent d(1) by (simp add: merges_spliced_def)
  have "\<forall>j < length E2. sourced newData m keepOld HAS_MERGEINFO rv_merges news (length (E1 @ [r]) + j) (E2 ! j) (R2' ! j)"
    using Cons.prems(8) by (auto simp: R2 dest: spec [of _ "Suc _"])
  then obtain c' where c': "splice_merges newData m pm keepOld old [length (E1 @ [r])..<length (E1 @ [r]) + length E2] ?last c1 = Some c'"
      "merges_spliced ((R1 @ [r']) @ R2') ((E1 @ [r]) @ E2) [] c'" "without_merges c' = without_merges c1"
    using Cons.IH [OF inv, of R2'] d(1) Cons.prems(3,5,6,7) R2(2) by auto
  have up: "[?i..<?i + length (r # E2)] = ?i # [length (E1 @ [r])..<length (E1 @ [r]) + length E2]"
    by (simp add: upt_conv_Cons del: upt_Suc)
  show ?case unfolding up step using c' d(2) R2(1) by (intro exI [of _ c']) simp
qed

lemma UpdateMergers_ok:
  assumes h: "holds_merges c revs" and n: "holds_merges n news" "holds_std n news"
    and pm: "maps_paths (rc_paths n) (length (pd_keys (rc_paths n))) (rc_paths c) pm"
    and m: "qm_inv index_conv m" "entries_ok (length revs) (length news) (qm_data m)"
    and small: "length revs + 1 < 2 ^ 32" "length (all_merges revs) < 2 ^ 32" "length news < 2 ^ 32" "length (all_merges news) < 2 ^ 32"
    and sz: "length (rc_authors c) = length revs" and flag: "flags AND HAS_MERGEINFO \<noteq> 0"
  shows "\<exists>c'. rc_UpdateMergers n m pm keepOld c = Inr c' \<and> holds_merges c' (updated flags keepOld news (qm_data m) revs) \<and>
    without_merges c' = without_merges c"
proof -
  let ?R = "updated flags keepOld news (qm_data m) revs"
  let ?c = "c\<lparr>rc_mergedFromPaths := [], rc_mergedToPaths := [], rc_mergedRangeStarts := [], rc_mergedRangeDeltas := []\<rparr>"
  note e = h [unfolded holds_merges_entries]
  have start: "merges_spliced [] [] revs ?c"
    using e by (simp add: merges_spliced_def offsets_of_def merges_of_def merges_in_def map_starts)
  have src: "\<forall>j < length revs. sourced n m keepOld HAS_MERGEINFO rv_merges news (length ([] :: revision list) + j) (revs ! j) (?R ! j)"
    using sourced_updated [OF m n(2), where get = rv_merges and flag = HAS_MERGEINFO and flags = flags and keepOld = keepOld] flag
    by (simp add: merged_revision_def Let_def)
  have sz': "unat (rc_size c) = length revs" using small(1) sz by (simp add: rc_size_def unat_of_nat_small)
  obtain c' where c': "splice_merges n m pm keepOld c [0..<length revs] 0 ?c = Some c'" "merges_spliced ?R revs [] c'"
      "without_merges c' = without_merges ?c"
    using splice_merges_ok [OF n(1) pm small(3,4) start, of ?R c m keepOld] src e small by auto
  have "rc_paths c' = rc_paths c" using arg_cong [OF c'(3), of rc_paths] by (simp add: without_merges_def)
  then have "holds_merges c' ?R" using c'(2) unfolding holds_merges_entries merges_spliced_def by (simp add: offsets_of_def)
  moreover have "rc_UpdateMergers n m pm keepOld c = Inr c'" using c'(1) sz' by (simp add: rc_UpdateMergers_def)
  moreover have "without_merges ?c = without_merges c" by (simp add: without_merges_def)
  ultimately show ?thesis using c'(3) by auto
qed

end
