(* ===== verification/RevisionInfoUpdateEffect.thy ===== *)
theory RevisionInfoUpdateEffect
  imports RevisionInfoUpdate
begin

section \<open>The effect of an update (src/LogCache/Containers/RevisionInfoContainer.cpp)\<close>

text \<open>
  The values of the revision properties, the new entries and the whole update: each revision becomes what
  \<open>merged_revision\<close> says, unless the container runs out of comments or of values of properties.
\<close>

subsection \<open>Revision properties\<close>

text \<open>Where the values come from: \<open>Inl k\<close> is the value \<open>k\<close> of the old values and \<open>Inr k\<close> that of the other container.\<close>

fun old_values :: "nat \<Rightarrow> (index_t + index_t) list \<Rightarrow> (index_t \<times> index_t) list" where
  "old_values p [] = []"
| "old_values p (Inl k # W) = (of_nat p, k) # old_values (p + 1) W"
| "old_values p (Inr k # W) = old_values (p + 1) W"

fun new_values :: "nat \<Rightarrow> (index_t + index_t) list \<Rightarrow> (index_t \<times> index_t) list" where
  "new_values p [] = []"
| "new_values p (Inl k # W) = new_values (p + 1) W"
| "new_values p (Inr k # W) = (of_nat p, k) # new_values (p + 1) W"

fun numbered :: "nat \<Rightarrow> index_t list \<Rightarrow> (index_t \<times> index_t) list" where
  "numbered p [] = []"
| "numbered p (k # ks) = (of_nat p, k) # numbered (p + 1) ks"

lemma values_append:
  "old_values p (W @ W') = old_values p W @ old_values (p + length W) W'" "new_values p (W @ W') = new_values p W @ new_values (p + length W) W'"
  by (induction p W rule: old_values.induct) simp_all

lemma values_map:
  "old_values p (map Inl ks) = numbered p ks" "new_values p (map Inr ks) = numbered p ks" "old_values p (map Inr ks) = []" "new_values p (map Inl ks) = []"
  by (induction p ks rule: numbered.induct) simp_all

lemma values_keys:
  "fst ` set (old_values p W) \<subseteq> of_nat ` {p..<p + length W}" "fst ` set (new_values p W) \<subseteq> of_nat ` {p..<p + length W}"
  by (induction p W rule: old_values.induct) auto

lemma number_values_ok:
  "qm_inv index_conv m \<Longrightarrow> load_ok (qm_hash m) \<Longrightarrow> length (qm_data m) + length ks \<le> 119304647 \<Longrightarrow> fst ` set (qm_data m) \<subseteq> of_nat ` {0..<p} \<Longrightarrow>
   p + length ks < 2 ^ 32 \<Longrightarrow>
   \<exists>m'. number_values ks (of_nat p) m = Some (of_nat (p + length ks), m') \<and> qm_inv index_conv m' \<and> load_ok (qm_hash m') \<and>
     qm_data m' = qm_data m @ numbered p ks"
proof (induction ks arbitrary: m p)
  case (Cons k ks)
  have "(of_nat p :: index_t) \<notin> of_nat ` {0..<p}"
  proof
    assume "(of_nat p :: index_t) \<in> of_nat ` {0..<p}"
    then obtain q where "q < p" "unat (of_nat p :: index_t) = unat (of_nat q :: index_t)" by auto
    then show False using Cons.prems(5) by (simp add: unat_of_nat_small)
  qed
  then have "(of_nat p :: index_t) \<notin> fst ` set (qm_data m)" using Cons.prems(4) by blast
  moreover have "length (qm_data m) \<le> 119304646" using Cons.prems(3) by simp
  ultimately obtain m1 where m1: "qm_insert index_conv (of_nat p) k m = Some m1" "qm_inv index_conv m1" "qm_data m1 = qm_data m @ [(of_nat p, k)]"
      "load_ok (qm_hash m1)" using qm_insert_light [OF Cons.prems(1,2)] by blast
  have "fst ` set (qm_data m1) \<subseteq> of_nat ` {0..<p + 1}" using Cons.prems(4) by (auto simp: m1(3))
  then obtain m' where "number_values ks (of_nat (p + 1)) m1 = Some (of_nat (p + 1 + length ks), m')" "qm_inv index_conv m'" "load_ok (qm_hash m')"
      "qm_data m' = qm_data m1 @ numbered (p + 1) ks"
    using Cons.IH [OF m1(2,4), of "p + 1"] Cons.prems(3,5) m1(3) by auto
  then show ?case using m1(1,3) by (simp add: add.commute)
qed simp

lemma nth_concat_take: "i < length M \<Longrightarrow> j < length (M ! i) \<Longrightarrow> concat M ! (length (concat (take i M)) + j) = M ! i ! j"
  "i < length M \<Longrightarrow> length (concat (take i M)) + length (M ! i) \<le> length (concat M)"
proof -
  assume i: "i < length M"
  have "M = take i M @ M ! i # drop (Suc i) M" using i by (simp add: id_take_nth_drop)
  then have c: "concat M = concat (take i M) @ M ! i @ concat (drop (Suc i) M)" by (metis concat.simps(2) concat_append)
  show "length (concat (take i M)) + length (M ! i) \<le> length (concat M)" by (subst c) simp
  show "j < length (M ! i) \<Longrightarrow> concat M ! (length (concat (take i M)) + j) = M ! i ! j" by (subst c) (simp add: nth_append)
qed

lemma positions_of_nat:
  "a \<le> b \<Longrightarrow> b < 2 ^ 32 \<Longrightarrow> positions (of_nat a) (of_nat b) = Some (map of_nat [a..<b])"
  by (simp add: positions_def word_le_nat_alt unat_of_nat_small)

lemma range_of_ok:
  assumes "unat s < length M" "length (concat M) < 2 ^ 32" "length M < 2 ^ 32"
  shows "range_of (offsets_of M) s =
    Some (map of_nat [length (concat (take (unat s) M))..<length (concat (take (unat s) M)) + length (M ! unat s)])"
proof -
  let ?i = "unat s" and ?a = "length (concat (take (unat s) M))"
  have t: "concat (take (Suc ?i) M) = concat (take ?i M) @ M ! ?i" using assms(1) by (simp add: take_Suc_conv_app_nth)
  have s: "of_nat ?i = s" by simp
  have v1: "vat (offsets_of M) s = Some (of_nat ?a)" using vat_offsets [of ?i M] assms unfolding s by simp
  have "(of_nat ?i + 1 :: index_t) = of_nat (Suc ?i)" by simp
  then have "s + 1 = of_nat (Suc ?i)" unfolding s .
  then have v2: "vat (offsets_of M) (s + 1) = Some (of_nat (?a + length (M ! ?i)))"
    using vat_offsets [of "Suc ?i" M] assms t by (simp del: of_nat_Suc of_nat_add)
  have "?a + length (M ! ?i) < 2 ^ 32" using nth_concat_take(2) [OF assms(1)] assms(2) by simp
  then show ?thesis using v1 v2 positions_of_nat [of ?a "?a + length (M ! ?i)"] by (simp add: range_of_def del: of_nat_add)
qed

definition comes_from :: "(byte list \<times> byte list) list \<Rightarrow> (byte list \<times> byte list) list \<Rightarrow> index_t + index_t \<Rightarrow> byte list \<times> byte list \<Rightarrow> bool" where
  "comes_from olds news w x \<longleftrightarrow> (case w of Inl k \<Rightarrow> unat k < length olds \<and> snd (olds ! unat k) = snd x
     | Inr k \<Rightarrow> unat k < length news \<and> snd (news ! unat k) = snd x)"

text \<open>Whether the properties of each revision are copied, and where its values come from.\<close>

definition parts_from :: "bool list \<Rightarrow> revision list \<Rightarrow> (index_t + index_t) list list \<Rightarrow> bool" where
  "parts_from T R Ws \<longleftrightarrow> length T = length R \<and> length Ws = length R \<and>
     (\<forall>i < length R. length (Ws ! i) = length (rv_props (R ! i)) \<and> (\<forall>w \<in> set (Ws ! i). isl w \<longleftrightarrow> \<not> T ! i))"

lemma parts_from_snoc:
  "parts_from T R Ws \<Longrightarrow> length ws = length (rv_props r) \<Longrightarrow> \<forall>w \<in> set ws. isl w \<longleftrightarrow> \<not> t \<Longrightarrow> parts_from (T @ [t]) (R @ [r]) (Ws @ [ws])"
  by (auto simp: parts_from_def nth_append less_Suc_eq)

definition props_spliced ::
    "string_dictionary \<Rightarrow> (byte list \<times> byte list) list \<Rightarrow> revision list \<Rightarrow> bool list \<Rightarrow> revision list \<Rightarrow> revision list \<Rightarrow> revision list \<Rightarrow>
     (index_t + index_t) list list \<Rightarrow> index_mapping_t \<Rightarrow> index_mapping_t \<Rightarrow> revision_info \<Rightarrow> bool" where
  "props_spliced pool olds news T R1 E1 E2 Ws om nm c \<longleftrightarrow>
     list_all2 (names pool) (rc_userRevPropNames c) (map fst (all_props R1)) \<and>
     rc_userRevPropOffsets c = map of_nat (starts 0 (map rv_props R1) @ tl (starts (length (all_props E1)) (map rv_props E2))) \<and>
     parts_from T R1 Ws \<and> list_all2 (comes_from olds (all_props news)) (concat Ws) (all_props R1) \<and>
     qm_inv index_conv om \<and> load_ok (qm_hash om) \<and> qm_data om = old_values 0 (concat Ws) \<and>
     qm_inv index_conv nm \<and> load_ok (qm_hash nm) \<and> qm_data nm = new_values 0 (concat Ws)"

lemma all_props_simps [simp]:
  "all_props [] = []" "all_props (r # rs) = rv_props r @ all_props rs" "all_props (rs @ rs') = all_props rs @ all_props rs'"
  by (simp_all add: all_props_def)

lemma values_length: "length (old_values p W) + length (new_values p W) = length W"
  by (induction p W rule: old_values.induct) simp_all

definition without_props :: "revision_info \<Rightarrow> revision_info" where
  "without_props c = c\<lparr>rc_userRevPropNames := [], rc_userRevPropOffsets := []\<rparr>"

definition sourced_props :: "revision_info \<Rightarrow> index_mapping_t \<Rightarrow> bool \<Rightarrow> revision list \<Rightarrow> nat \<Rightarrow> bool \<Rightarrow> revision \<Rightarrow> revision \<Rightarrow> bool" where
  "sourced_props newData m keepOld news i t r r' \<longleftrightarrow>
     (if t then \<exists>s. update_source newData m keepOld HAS_USERREVPROPS (of_nat i) = Some (Some s) \<and> unat s < length news \<and> rv_props r' = rv_props (news ! unat s)
      else update_source newData m keepOld HAS_USERREVPROPS (of_nat i) = Some None \<and> rv_props r' = rv_props r)"

lemma copied_props_ok:
  assumes n: "holds_props newData news" and s: "unat s < length news" and small: "length news < 2 ^ 32" "length (all_props news) < 2 ^ 32"
    and moved: "\<And>i x. names (rc_userRevPropsPool newData) i x \<Longrightarrow> \<exists>j. qm_lookup index_conv pid i = Some j \<and> names pool j x"
  shows "\<exists>nms ks. copied (\<lambda>k. Option.bind (vat (rc_userRevPropNames newData) k) (qm_lookup index_conv pid)) (rc_userRevPropOffsets newData) s = Some nms \<and>
    range_of (rc_userRevPropOffsets newData) s = Some ks \<and> list_all2 (names pool) nms (map fst (rv_props (news ! unat s))) \<and>
    list_all2 (comes_from olds (all_props news)) (map Inr ks) (rv_props (news ! unat s))"
proof -
  let ?M = "map rv_props news" and ?i = "unat s"
  note h = n [unfolded holds_props_def]
  have M: "unat s < length ?M" "length (concat ?M) < 2 ^ 32" "length ?M < 2 ^ 32" using s small by (simp_all add: all_props_def)
  have "list_all2 (\<lambda>x y. names (rc_userRevPropsPool newData) x (fst y)) (rc_userRevPropNames newData) (concat ?M)"
    using h by (simp add: list_all2_map2 all_props_def)
  from copied_ok [OF this _ M, of "qm_lookup index_conv pid" "\<lambda>x y. names pool x (fst y)"] moved
  obtain nms where nms: "copied (\<lambda>k. Option.bind (vat (rc_userRevPropNames newData) k) (qm_lookup index_conv pid)) (offsets_of ?M) s = Some nms"
      "list_all2 (\<lambda>x y. names pool x (fst y)) nms (?M ! ?i)" by blast
  let ?a = "length (concat (take ?i ?M))"
  have l: "?a + length (?M ! ?i) \<le> length (concat ?M)" by (rule nth_concat_take(2) [OF M(1)])
  have "list_all2 (comes_from olds (all_props news)) (map Inr (map of_nat [?a..<?a + length (?M ! ?i)])) (?M ! ?i)"
  proof (rule list_all2_all_nthI)
    fix j assume "j < length (map Inr (map of_nat [?a..<?a + length (?M ! ?i)]) :: (index_t + index_t) list)"
    then have j: "j < length (?M ! ?i)" by simp
    have "unat (of_nat (?a + j) :: index_t) = ?a + j" using l j M(2) by (intro unat_of_nat_small) simp
    then show "comes_from olds (all_props news) (map Inr (map of_nat [?a..<?a + length (?M ! ?i)]) ! j) (?M ! ?i ! j)"
      using nth_concat_take(1) [OF M(1) j] l j by (simp add: comes_from_def all_props_def del: of_nat_add)
  qed simp
  then show ?thesis using nms range_of_ok [OF M] h s by (simp add: list_all2_map2)
qed

lemma kept_props_ok:
  assumes o: "list_all2 (names pool) oldNames (map fst (pre @ ps @ post))" and small: "length (pre @ ps) < 2 ^ 32"
  shows "\<exists>nms ks. kept oldNames (of_nat (length pre)) (of_nat (length (pre @ ps))) = Some nms \<and>
    positions (of_nat (length pre)) (of_nat (length (pre @ ps))) = Some ks \<and> list_all2 (names pool) nms (map fst ps) \<and>
    list_all2 (comes_from (pre @ ps @ post) news) (map Inl ks) ps"
proof -
  have "list_all2 (\<lambda>x y. names pool x (fst y)) oldNames (pre @ ps @ post)" using o unfolding list_all2_map2 .
  from kept_all2 [OF this small] obtain nms where nms: "kept oldNames (of_nat (length pre)) (of_nat (length (pre @ ps))) = Some nms"
      "list_all2 (\<lambda>x y. names pool x (fst y)) nms ps" by blast
  have "list_all2 (comes_from (pre @ ps @ post) news) (map Inl (map of_nat [length pre..<length (pre @ ps)])) ps"
  proof (rule list_all2_all_nthI)
    fix j assume "j < length (map Inl (map of_nat [length pre..<length (pre @ ps)]) :: (index_t + index_t) list)"
    then have j: "j < length ps" by simp
    then have "unat (of_nat (length pre + j) :: index_t) = length pre + j" using small by (intro unat_of_nat_small) simp
    then show "comes_from (pre @ ps @ post) news (map Inl (map of_nat [length pre..<length (pre @ ps)]) ! j) (ps ! j)"
      using j by (simp add: comes_from_def nth_append del: of_nat_add)
  qed simp
  then show ?thesis using nms small positions_of_nat [of "length pre" "length (pre @ ps)"] by (simp add: list_all2_map2 del: of_nat_add)
qed

lemma splice_props_step:
  assumes inv: "props_spliced pool (all_props (E1 @ r # E2)) news T R1 E1 (r # E2) Ws om nm c"
    and len: "length R1 = length E1" "length E1 + length E2 + 2 < 2 ^ 32" "length (all_props R1) + length (rv_props r') \<le> 119304647"
    and old: "list_all2 (names pool) oldNames (map fst (all_props (E1 @ r # E2)))" "length (all_props (E1 @ r # E2)) < 2 ^ 32"
    and n: "holds_props newData news" "length news < 2 ^ 32" "length (all_props news) < 2 ^ 32"
    and moved: "\<And>i x. names (rc_userRevPropsPool newData) i x \<Longrightarrow> \<exists>j. qm_lookup index_conv pid i = Some j \<and> names pool j x"
    and src: "sourced_props newData m keepOld news (length E1) t r r'"
  shows "\<exists>c' om' nm' ws. (\<forall>is. splice_props newData m pid keepOld oldNames (length E1 # is) (of_nat (length (all_props E1)))
        (of_nat (length (all_props R1))) om nm c =
      splice_props newData m pid keepOld oldNames is (of_nat (length (all_props (E1 @ [r])))) (of_nat (length (all_props (R1 @ [r'])))) om' nm' c') \<and>
    props_spliced pool (all_props (E1 @ r # E2)) news (T @ [t]) (R1 @ [r']) (E1 @ [r]) E2 (Ws @ [ws]) om' nm' c' \<and> without_props c' = without_props c"
proof -
  let ?i = "length E1" and ?p = "length (all_props R1)" and ?olds = "all_props (E1 @ r # E2)"
  let ?last = "of_nat (length (all_props (E1 @ [r]))) :: index_t"
  note inv' = inv [unfolded props_spliced_def]
  have offs: "rc_userRevPropOffsets c = map of_nat (starts 0 (map rv_props R1) @ tl (starts (length (all_props E1)) (rv_props r # map rv_props E2)))"
    using inv' by simp
  have lst: "vat (rc_userRevPropOffsets c) (of_nat ?i + 1) = Some ?last"
    using spliced_offsets(1,2) [OF offs] len(1,2) unat_step [of ?i] by (simp add: vat_def)
  have lw: "length (concat Ws) = ?p" using inv' by (auto dest: list_all2_lengthD)
  have small: "?p + length (rv_props r') < 2 ^ 32" using len(3) by simp
  have maps: "length (qm_data om) + length (rv_props r') \<le> 119304647" "length (qm_data nm) + length (rv_props r') \<le> 119304647"
      "fst ` set (qm_data om) \<subseteq> of_nat ` {0..<?p}" "fst ` set (qm_data nm) \<subseteq> of_nat ` {0..<?p}"
    using inv' values_length [of 0 "concat Ws"] values_keys [of 0 "concat Ws"] lw len(3) by simp_all
  define middle where "middle = (case the (update_source newData m keepOld HAS_USERREVPROPS (of_nat ?i)) of
         Some sourceIndex \<Rightarrow>
           if rc_userRevPropNames newData = [] then Some ([], of_nat ?p, om, nm)
           else do {
             nms \<leftarrow> copied (\<lambda>k. Option.bind (vat (rc_userRevPropNames newData) k) (qm_lookup index_conv pid)) (rc_userRevPropOffsets newData) sourceIndex;
             ks \<leftarrow> range_of (rc_userRevPropOffsets newData) sourceIndex;
             (valueIndex, newMap) \<leftarrow> number_values ks (of_nat ?p) nm;
             Some (nms, valueIndex, om, newMap)
           }
       | None \<Rightarrow> do {
           nms \<leftarrow> kept oldNames (of_nat (length (all_props E1))) ?last;
           ks \<leftarrow> positions (of_nat (length (all_props E1))) ?last;
           (valueIndex, oldMap) \<leftarrow> number_values ks (of_nat ?p) om;
           Some (nms, valueIndex, oldMap, nm)
         })"
  have "\<exists>nms ws om' nm'. middle = Some (nms, of_nat (?p + length (rv_props r')), om', nm') \<and> list_all2 (names pool) nms (map fst (rv_props r')) \<and>
      length ws = length (rv_props r') \<and> (\<forall>w \<in> set ws. isl w \<longleftrightarrow> \<not> t) \<and> list_all2 (comes_from ?olds (all_props news)) ws (rv_props r') \<and>
      qm_inv index_conv om' \<and> load_ok (qm_hash om') \<and> qm_data om' = old_values 0 (concat Ws @ ws) \<and>
      qm_inv index_conv nm' \<and> load_ok (qm_hash nm') \<and> qm_data nm' = new_values 0 (concat Ws @ ws)"
  proof (cases t)
    case True
    then obtain s where s: "update_source newData m keepOld HAS_USERREVPROPS (of_nat ?i) = Some (Some s)" "unat s < length news" "rv_props r' = rv_props (news ! unat s)"
      using src by (auto simp: sourced_props_def)
    obtain nms ks where k: "copied (\<lambda>k. Option.bind (vat (rc_userRevPropNames newData) k) (qm_lookup index_conv pid)) (rc_userRevPropOffsets newData) s = Some nms"
        "range_of (rc_userRevPropOffsets newData) s = Some ks" "list_all2 (names pool) nms (map fst (rv_props r'))"
        "list_all2 (comes_from ?olds (all_props news)) (map Inr ks) (rv_props r')"
      using copied_props_ok [OF n(1) s(2) n(2,3) moved, of ?olds] s(3) by auto
    have lk: "length ks = length (rv_props r')" using k(4) by (auto dest: list_all2_lengthD)
    show ?thesis
    proof (cases "rc_userRevPropNames newData = []")
      case True
      then have "all_props news = []" using n(1) by (auto simp: holds_props_def)
      then have "rv_props r' = []" using s(2,3) by (auto simp: all_props_def)
      then show ?thesis using True s(1) inv' by (intro exI [of _ "[]"] exI [of _ om] exI [of _ nm]) (simp add: middle_def)
    next
      case False
      obtain nm' where nm': "number_values ks (of_nat ?p) nm = Some (of_nat (?p + length ks), nm')" "qm_inv index_conv nm'" "load_ok (qm_hash nm')"
          "qm_data nm' = qm_data nm @ numbered ?p ks"
        using number_values_ok [of nm ks ?p] inv' maps(2,4) lk small by auto
      have "middle = Some (nms, of_nat (?p + length (rv_props r')), om, nm')" using False s(1) k(1,2) nm'(1) lk by (simp add: middle_def)
      moreover have "qm_data om = old_values 0 (concat Ws @ map Inr ks)" "qm_data nm' = new_values 0 (concat Ws @ map Inr ks)"
        using inv' nm'(4) by (simp_all add: values_append values_map lw)
      moreover have "\<forall>w \<in> set (map Inr ks :: (index_t + index_t) list). isl w \<longleftrightarrow> \<not> t" using \<open>t\<close> by auto
      ultimately show ?thesis using k(3,4) nm'(2,3) inv' lk
        by (intro exI [of _ nms] exI [of _ "map Inr ks"] exI [of _ om] exI [of _ nm']) simp
    qed
  next
    case False
    then have s: "update_source newData m keepOld HAS_USERREVPROPS (of_nat ?i) = Some None" "rv_props r' = rv_props r"
      using src by (auto simp: sourced_props_def)
    have "list_all2 (names pool) oldNames (map fst (all_props E1 @ rv_props r @ all_props E2))" "length (all_props E1 @ rv_props r) < 2 ^ 32"
      using old by simp_all
    from kept_props_ok [OF this, of "all_props news"] obtain nms ks where k:
        "kept oldNames (of_nat (length (all_props E1))) ?last = Some nms" "positions (of_nat (length (all_props E1))) ?last = Some ks"
        "list_all2 (names pool) nms (map fst (rv_props r'))" "list_all2 (comes_from ?olds (all_props news)) (map Inl ks) (rv_props r')"
      unfolding s(2) by auto
    have lk: "length ks = length (rv_props r')" using k(4) by (auto dest: list_all2_lengthD)
    obtain om' where om': "number_values ks (of_nat ?p) om = Some (of_nat (?p + length ks), om')" "qm_inv index_conv om'" "load_ok (qm_hash om')"
        "qm_data om' = qm_data om @ numbered ?p ks"
      using number_values_ok [of om ks ?p] inv' maps(1,3) lk small by auto
    have "middle = Some (nms, of_nat (?p + length (rv_props r')), om', nm)" using s(1) k(1,2) om'(1) lk by (simp add: middle_def)
    moreover have "qm_data om' = old_values 0 (concat Ws @ map Inl ks)" "qm_data nm = new_values 0 (concat Ws @ map Inl ks)"
      using inv' om'(4) by (simp_all add: values_append values_map lw)
    moreover have "\<forall>w \<in> set (map Inl ks :: (index_t + index_t) list). isl w \<longleftrightarrow> \<not> t" using False by auto
    ultimately show ?thesis using k(3,4) om'(2,3) inv' lk
      by (intro exI [of _ nms] exI [of _ "map Inl ks"] exI [of _ om'] exI [of _ nm]) simp
  qed
  then obtain nms ws om' nm' where mid: "middle = Some (nms, of_nat (?p + length (rv_props r')), om', nm')"
      "list_all2 (names pool) nms (map fst (rv_props r'))" "length ws = length (rv_props r')" "\<forall>w \<in> set ws. isl w \<longleftrightarrow> \<not> t"
      "list_all2 (comes_from ?olds (all_props news)) ws (rv_props r')"
      "qm_inv index_conv om'" "load_ok (qm_hash om')" "qm_data om' = old_values 0 (concat Ws @ ws)"
      "qm_inv index_conv nm'" "load_ok (qm_hash nm')" "qm_data nm' = new_values 0 (concat Ws @ ws)" by blast
  obtain source where us: "update_source newData m keepOld HAS_USERREVPROPS (of_nat ?i) = Some source"
    using src by (auto simp: sourced_props_def split: if_splits)
  define c1 where "c1 = c\<lparr>rc_userRevPropNames := rc_userRevPropNames c @ nms, rc_userRevPropOffsets :=
      (rc_userRevPropOffsets c)[?i + 1 := of_nat (length (rc_userRevPropNames c @ nms))]\<rparr>"
  have step: "splice_props newData m pid keepOld oldNames (?i # is) (of_nat (length (all_props E1))) (of_nat ?p) om nm c =
      splice_props newData m pid keepOld oldNames is ?last (of_nat (?p + length (rv_props r'))) om' nm' c1" for "is"
    unfolding splice_props.simps us lst bind.simps mid(1) [unfolded middle_def us option.sel] case_prod_conv by (simp add: c1_def Let_def)
  have nms: "list_all2 (names pool) (rc_userRevPropNames c1) (map fst (all_props (R1 @ [r'])))"
    using inv' mid(2) by (simp add: c1_def list_all2_appendI)
  then have l: "length (rc_userRevPropNames c @ nms) = length (concat (map rv_props R1 @ [rv_props r']))"
    by (auto simp: c1_def all_props_def [symmetric] dest: list_all2_lengthD)
  have "rc_userRevPropOffsets c1 = map of_nat (starts 0 (map rv_props (R1 @ [r'])) @ tl (starts (length (all_props (E1 @ [r]))) (map rv_props E2)))"
    unfolding c1_def revision_info.select_convs revision_info.update_convs
    using spliced_offsets(3) [OF offs, of "rv_props r'"] unfolding l len(1) [symmetric] by simp
  moreover have "parts_from (T @ [t]) (R1 @ [r']) (Ws @ [ws])" using inv' mid(3,4) by (simp add: parts_from_snoc)
  ultimately have "props_spliced pool ?olds news (T @ [t]) (R1 @ [r']) (E1 @ [r]) E2 (Ws @ [ws]) om' nm' c1"
    using nms mid(5-) inv' by (simp add: props_spliced_def list_all2_appendI)
  moreover have "without_props c1 = without_props c" by (simp add: c1_def without_props_def)
  moreover have "?p + length (rv_props r') = length (all_props (R1 @ [r']))" by simp
  ultimately show ?thesis using step by metis
qed

lemma splice_props_ok:
  assumes n: "holds_props newData news" "length news < 2 ^ 32" "length (all_props news) < 2 ^ 32"
    and moved: "\<And>i x. names (rc_userRevPropsPool newData) i x \<Longrightarrow> \<exists>j. qm_lookup index_conv pid i = Some j \<and> names pool j x"
  shows "props_spliced pool (all_props (E1 @ E2)) news T1 R1 E1 E2 Ws om nm c \<Longrightarrow> length R1 = length E1 \<Longrightarrow> length R2 = length E2 \<Longrightarrow> length T2 = length E2 \<Longrightarrow>
    length E1 + length E2 + 1 < 2 ^ 32 \<Longrightarrow> length (all_props (R1 @ R2)) \<le> 119304647 \<Longrightarrow>
    list_all2 (names pool) oldNames (map fst (all_props (E1 @ E2))) \<Longrightarrow> length (all_props (E1 @ E2)) < 2 ^ 32 \<Longrightarrow>
    \<forall>j < length E2. sourced_props newData m keepOld news (length E1 + j) (T2 ! j) (E2 ! j) (R2 ! j) \<Longrightarrow>
    \<exists>c' om' nm' Ws'. splice_props newData m pid keepOld oldNames [length E1..<length E1 + length E2] (of_nat (length (all_props E1)))
        (of_nat (length (all_props R1))) om nm c = Some (om', nm', c') \<and>
      props_spliced pool (all_props (E1 @ E2)) news (T1 @ T2) (R1 @ R2) (E1 @ E2) [] Ws' om' nm' c' \<and> without_props c' = without_props c"
proof (induction E2 arbitrary: R1 E1 R2 T1 T2 Ws om nm c)
  case Nil
  then show ?case by auto
next
  case (Cons r E2)
  obtain r' R2' where R2: "R2 = r' # R2'" "length R2' = length E2" using Cons.prems(3) by (cases R2) auto
  obtain t T2' where T2: "T2 = t # T2'" "length T2' = length E2" using Cons.prems(4) by (cases T2) auto
  have src: "sourced_props newData m keepOld news (length E1) t r r'" using Cons.prems(9) [rule_format, of 0] by (simp add: R2 T2)
  have len: "length E1 + length E2 + 2 < 2 ^ 32" "length (all_props R1) + length (rv_props r') \<le> 119304647"
    using Cons.prems(5,6) by (simp_all add: R2)
  obtain c1 om1 nm1 ws where c1: "\<And>is. splice_props newData m pid keepOld oldNames (length E1 # is) (of_nat (length (all_props E1)))
        (of_nat (length (all_props R1))) om nm c =
      splice_props newData m pid keepOld oldNames is (of_nat (length (all_props (E1 @ [r])))) (of_nat (length (all_props (R1 @ [r'])))) om1 nm1 c1"
    "props_spliced pool (all_props (E1 @ r # E2)) news (T1 @ [t]) (R1 @ [r']) (E1 @ [r]) E2 (Ws @ [ws]) om1 nm1 c1" "without_props c1 = without_props c"
    using splice_props_step [OF Cons.prems(1,2) len Cons.prems(7,8) n moved src] by blast
  have inv: "props_spliced pool (all_props ((E1 @ [r]) @ E2)) news (T1 @ [t]) (R1 @ [r']) (E1 @ [r]) E2 (Ws @ [ws]) om1 nm1 c1" using c1(2) by simp
  have "\<forall>j < length E2. sourced_props newData m keepOld news (length (E1 @ [r]) + j) (T2' ! j) (E2 ! j) (R2' ! j)"
    using Cons.prems(9) by (auto simp: R2 T2 dest: spec [of _ "Suc _"])
  then obtain c' om' nm' Ws' where c': "splice_props newData m pid keepOld oldNames [length (E1 @ [r])..<length (E1 @ [r]) + length E2]
      (of_nat (length (all_props (E1 @ [r])))) (of_nat (length (all_props (R1 @ [r'])))) om1 nm1 c1 = Some (om', nm', c')"
      "props_spliced pool (all_props ((E1 @ [r]) @ E2)) news ((T1 @ [t]) @ T2') ((R1 @ [r']) @ R2') ((E1 @ [r]) @ E2) [] Ws' om' nm' c'"
      "without_props c' = without_props c1"
    using Cons.IH [OF inv, of R2' T2'] Cons.prems(2,5,6,7,8) R2 T2 by auto
  have up: "[length E1..<length E1 + length (r # E2)] = length E1 # [length (E1 @ [r])..<length (E1 @ [r]) + length E2]"
    by (simp add: upt_conv_Cons del: upt_Suc)
  show ?case unfolding up c1(1) using c' c1(3) R2(1) T2(1) by (intro exI [of _ c'] exI [of _ om'] exI [of _ nm'] exI [of _ Ws']) simp
qed

subsection \<open>The values of the properties\<close>

text \<open>No property is copied to a revision in front of one that keeps its own.\<close>

definition props_in_order :: "bool list \<Rightarrow> revision list \<Rightarrow> bool" where
  "props_in_order T R \<longleftrightarrow> (\<forall>i j. i < j \<longrightarrow> j < length R \<longrightarrow> T ! i \<longrightarrow> \<not> T ! j \<longrightarrow> rv_props (R ! i) = [] \<or> rv_props (R ! j) = [])"

lemma sorted_wrt_concat:
  "sorted_wrt P (concat Ws) \<longleftrightarrow> (\<forall>i < length Ws. sorted_wrt P (Ws ! i)) \<and>
     (\<forall>i j. i < j \<longrightarrow> j < length Ws \<longrightarrow> (\<forall>x \<in> set (Ws ! i). \<forall>y \<in> set (Ws ! j). P x y))"
proof (induction Ws)
  case (Cons w Ws)
  have "(\<forall>i j. i < j \<longrightarrow> j < length (w # Ws) \<longrightarrow> (\<forall>x \<in> set ((w # Ws) ! i). \<forall>y \<in> set ((w # Ws) ! j). P x y)) \<longleftrightarrow>
      (\<forall>j < length Ws. \<forall>x \<in> set w. \<forall>y \<in> set (Ws ! j). P x y) \<and>
      (\<forall>i j. i < j \<longrightarrow> j < length Ws \<longrightarrow> (\<forall>x \<in> set (Ws ! i). \<forall>y \<in> set (Ws ! j). P x y))" (is "?L \<longleftrightarrow> ?R")
  proof
    assume l: ?L
    show ?R
    proof (intro conjI allI impI)
      fix j assume "j < length Ws"
      then show "\<forall>x \<in> set w. \<forall>y \<in> set (Ws ! j). P x y" using l [rule_format, of 0 "Suc j"] by simp
    next
      fix i j assume "i < j" "j < length Ws"
      then show "\<forall>x \<in> set (Ws ! i). \<forall>y \<in> set (Ws ! j). P x y" using l [rule_format, of "Suc i" "Suc j"] by simp
    qed
  next
    assume r: ?R
    show ?L
    proof (intro allI impI)
      fix i j assume ij: "i < j" "j < length (w # Ws)"
      then obtain j' where "j = Suc j'" by (cases j) auto
      then show "\<forall>x \<in> set ((w # Ws) ! i). \<forall>y \<in> set ((w # Ws) ! j). P x y" using r ij by (cases i) auto
    qed
  qed
  moreover have "(\<forall>i < length (w # Ws). sorted_wrt P ((w # Ws) ! i)) \<longleftrightarrow> sorted_wrt P w \<and> (\<forall>i < length Ws. sorted_wrt P (Ws ! i))"
    by (simp add: All_less_Suc2)
  moreover have "(\<forall>x \<in> set w. \<forall>y \<in> set (concat Ws). P x y) \<longleftrightarrow> (\<forall>j < length Ws. \<forall>x \<in> set w. \<forall>y \<in> set (Ws ! j). P x y)"
    by (auto simp: set_conv_nth [of Ws])
  ultimately show ?case using Cons.IH by (simp only: concat.simps sorted_wrt_append) blast
qed simp

lemma values_split:
  "(\<exists>ks ls. W = map Inl ks @ map Inr ls) \<or> (\<exists>ks l W'. W = map Inl ks @ Inr l # W' \<and> (\<exists>w \<in> set W'. isl w))"
proof (induction W)
  case (Cons w W)
  show ?case
  proof (cases w)
    case (Inl k)
    from Cons show ?thesis
    proof (elim disjE exE conjE)
      fix ks ls assume "W = map Inl ks @ map Inr ls"
      then show ?thesis using Inl by (intro disjI1 exI [of _ "k # ks"] exI [of _ ls]) simp
    next
      fix ks l W' assume "W = map Inl ks @ Inr l # W'" "\<exists>w \<in> set W'. isl w"
      then show ?thesis using Inl by (intro disjI2 exI [of _ "k # ks"] exI [of _ l] exI [of _ W']) simp
    qed
  next
    case (Inr l)
    show ?thesis
    proof (cases "\<exists>w \<in> set W. isl w")
      case True
      then show ?thesis using Inr by (intro disjI2 exI [of _ "[]"] exI [of _ l] exI [of _ W]) simp
    next
      case False
      then have "W = map Inr (map projr W)" by (induction W) auto
      then show ?thesis using Inr by (intro disjI1 exI [of _ "[]"] exI [of _ "l # map projr W"]) simp
    qed
  qed
qed simp

lemma order_of_values:
  assumes p: "parts_from T R Ws"
  shows "(\<exists>ks ls. concat Ws = map Inl ks @ map Inr ls) \<longleftrightarrow> props_in_order T R"
proof -
  let ?P = "\<lambda>w w' :: index_t + index_t. isl w' \<longrightarrow> isl w"
  have part: "\<forall>w \<in> set (Ws ! i). isl w \<longleftrightarrow> \<not> T ! i" "set (Ws ! i) = {} \<longleftrightarrow> rv_props (R ! i) = []" if "i < length Ws" for i
    using that p by (auto simp: parts_from_def simp flip: length_0_conv)
  have within: "sorted_wrt ?P (Ws ! i)" if "i < length Ws" for i
    using part(1) [OF that] by (auto simp: sorted_wrt_iff_nth_less)
  have "(\<forall>x \<in> set (Ws ! i). \<forall>y \<in> set (Ws ! j). ?P x y) \<longleftrightarrow> (T ! i \<longrightarrow> \<not> T ! j \<longrightarrow> rv_props (R ! i) = [] \<or> rv_props (R ! j) = [])"
    if "i < length Ws" "j < length Ws" for i j
  proof -
    have "(\<forall>x \<in> set (Ws ! i). \<forall>y \<in> set (Ws ! j). ?P x y) \<longleftrightarrow> (\<forall>x \<in> set (Ws ! i). \<forall>y \<in> set (Ws ! j). T ! i \<longrightarrow> T ! j)"
      using part(1) that by blast
    also have "\<dots> \<longleftrightarrow> (T ! i \<longrightarrow> \<not> T ! j \<longrightarrow> set (Ws ! i) = {} \<or> set (Ws ! j) = {})" by auto
    finally show ?thesis unfolding part(2) [OF that(1)] part(2) [OF that(2)] .
  qed
  note pairs = this
  have len: "length Ws = length R" using p by (simp add: parts_from_def)
  have "sorted_wrt ?P (concat Ws) \<longleftrightarrow> (\<forall>i j. i < j \<longrightarrow> j < length Ws \<longrightarrow> (\<forall>x \<in> set (Ws ! i). \<forall>y \<in> set (Ws ! j). ?P x y))"
    using within unfolding sorted_wrt_concat by blast
  also have "\<dots> \<longleftrightarrow> props_in_order T R"
    unfolding props_in_order_def len [symmetric] by (intro iff_allI imp_cong refl pairs) auto
  finally have s: "sorted_wrt ?P (concat Ws) \<longleftrightarrow> props_in_order T R" .
  have "sorted_wrt ?P W \<longleftrightarrow> (\<exists>ks ls. W = map Inl ks @ map Inr ls)" for W
  proof
    assume "\<exists>ks ls. W = map Inl ks @ map Inr ls"
    then show "sorted_wrt ?P W" by (auto simp: sorted_wrt_iff_nth_less nth_append split: if_splits)
  next
    assume s: "sorted_wrt ?P W"
    from values_split [of W] show "\<exists>ks ls. W = map Inl ks @ map Inr ls" using s by (auto simp: sorted_wrt_append)
  qed
  then show ?thesis using s by blast
qed

lemma numbered_keys: "fst ` set (numbered p ks) = of_nat ` {p..<p + length ks}"
proof (induction p ks rule: numbered.induct)
  case (2 p k ks)
  have "{p..<p + length (k # ks)} = insert p {p + 1..<p + 1 + length ks}" by auto
  then show ?case using 2 by simp
qed simp

lemma numbered_values: "map (\<lambda>(key, v). f v) (numbered p ks) = map f ks"
  by (induction p ks rule: numbered.induct) simp_all

lemma length_numbered [simp]: "length (numbered p ks) = length ks"
  by (induction p ks rule: numbered.induct) simp_all

text \<open>What the two replacements leave.\<close>

definition left_values :: "byte list list \<Rightarrow> byte list list \<Rightarrow> index_mapping_t \<Rightarrow> index_mapping_t \<Rightarrow> byte list list" where
  "left_values olds news om nm = replaced_texts news nm (replaced_texts olds om [])"

lemma remaining_above:
  assumes "\<forall>(key, v) \<in> set es. n \<le> key"
  shows "remaining_texts stexts n es = map (\<lambda>(key, v). stexts ! unat v) es"
  using assms by (simp add: remaining_texts_def filter_id_conv)

lemma first_replacement: "replaced_texts olds om [] = map (\<lambda>(key, v). olds ! unat v) (qm_data om)"
  by (simp add: replaced_texts_def remaining_above)

lemma values_texts:
  "list_all2 (comes_from olds news) W ps \<Longrightarrow>
     map (\<lambda>w. case w of Inl k \<Rightarrow> map snd olds ! unat k | Inr k \<Rightarrow> map snd news ! unat k) W = map snd ps"
  by (induction rule: list_all2_induct) (auto simp: comes_from_def split: sum.splits)

lemma left_values_in_order:
  assumes W: "W = map Inl ks @ map Inr ls" "list_all2 (comes_from olds news) W ps" "length W < 2 ^ 32"
    and m: "qm_data om = old_values 0 W" "qm_inv index_conv nm" "qm_data nm = new_values 0 W"
  shows "left_values (map snd olds) (map snd news) om nm = map snd ps"
proof -
  have o: "qm_data om = numbered 0 ks" "qm_data nm = numbered (length ks) ls" using m(1,3) by (simp_all add: W(1) values_append values_map)
  let ?K = "map (\<lambda>k. map snd olds ! unat k) ks"
  have K: "replaced_texts (map snd olds) om [] = ?K"
    by (simp add: first_replacement o(1) numbered_values)
  have low: "unat i \<ge> length ks" if "i \<in> fst ` set (qm_data nm)" for i
    using that W(1,3) by (auto simp: o(2) numbered_keys unat_of_nat_small)
  have none: "map_of (qm_data nm) (of_nat i) = None" if "i < length ks" for i
  proof -
    have "unat (of_nat i :: index_t) = i" using that W(1,3) by (intro unat_of_nat_small) simp
    then show ?thesis using low [of "of_nat i"] that by (auto simp: map_of_eq_None_iff)
  qed
  have kn: "unat (of_nat (length ks) :: index_t) = length ks" using W(1,3) by (intro unat_of_nat_small) simp
  have "map2 (new_text (map snd news) nm) [0..<length ?K] ?K = ?K"
    by (rule nth_equalityI) (simp_all add: new_text_def qm_lookup_map_of [OF m(2)] none)
  moreover have "remaining_texts (map snd news) (of_nat (length ?K)) (qm_data nm) = map (\<lambda>k. map snd news ! unat k) ls"
  proof (subst remaining_above)
    show "\<forall>(key, v) \<in> set (qm_data nm). of_nat (length ?K) \<le> key" using low kn by (force simp: word_le_nat_alt)
  qed (simp add: o(2) numbered_values)
  ultimately have "left_values (map snd olds) (map snd news) om nm = ?K @ map (\<lambda>k. map snd news ! unat k) ls"
    unfolding left_values_def K by (simp add: replaced_texts_def)
  also have "\<dots> = map snd ps" using values_texts [OF W(2)] by (simp add: W(1) comp_def)
  finally show ?thesis .
qed

lemma left_values_out_of_order:
  assumes W: "W = map Inl ks @ Inr l # W'" "\<exists>w \<in> set W'. isl w" "length W < 2 ^ 32"
    and m: "qm_data om = old_values 0 W" "qm_data nm = new_values 0 W"
  shows "length (left_values olds news om nm) < length W"
proof -
  let ?p = "length (qm_data om)"
  have nm: "qm_data nm = (of_nat (length ks), l) # new_values (length ks + 1) W'" by (simp add: m(2) W(1) values_append values_map)
  have o: "?p = length ks + length (old_values (length ks + 1) W')" by (simp add: m(1) W(1) values_append values_map)
  have "\<exists>w \<in> set W'. isl w \<Longrightarrow> old_values q W' \<noteq> []" for q by (induction q W' rule: old_values.induct) auto
  then have "length ks < ?p" using W(2) o by simp
  moreover have p: "?p \<le> length W" using values_length [of 0 W] m(1) by simp
  ultimately have low: "\<not> (of_nat ?p :: index_t) \<le> of_nat (length ks)"
    using W(3) by (simp add: word_le_nat_alt unat_of_nat_small)
  have "length (left_values olds news om nm) = ?p + length (filter (\<lambda>(key, v). of_nat ?p \<le> key) (qm_data nm))"
    by (simp add: left_values_def replaced_texts_def remaining_texts_def)
  also have "length (filter (\<lambda>(key, v). of_nat ?p \<le> key) (qm_data nm)) < length (qm_data nm)"
    using low by (simp add: nm less_Suc_eq_le)
  also have "?p + length (qm_data nm) = length W" using values_length [of 0 W] m by simp
  finally show ?thesis by simp
qed

lemma values_weight:
  "list_all2 (comes_from olds news) W ps \<Longrightarrow>
   text_weight (map snd olds) (old_values p W) + text_weight (map snd news) (new_values p W) = total_length (map snd ps)"
proof (induction arbitrary: p rule: list_all2_induct)
  case (Cons w W x ps)
  then show ?case by (cases w) (auto simp: comes_from_def text_weight_def total_length_def ac_simps)
qed (simp add: text_weight_def total_length_def)

definition copies_props :: "bool \<Rightarrow> revision list \<Rightarrow> (index_t \<times> index_t) list \<Rightarrow> nat \<Rightarrow> bool list" where
  "copies_props keepOld news es n =
     map (\<lambda>i. case map_of es (of_nat i) of None \<Rightarrow> False | Some v \<Rightarrow> keepOld \<longrightarrow> rv_flags (news ! unat v) AND HAS_USERREVPROPS \<noteq> 0) [0..<n]"

lemma sourced_props_updated:
  assumes m: "qm_inv index_conv m" "entries_ok (length revs) (length news) (qm_data m)" and n: "holds_std n news"
    and flag: "flags AND HAS_USERREVPROPS \<noteq> 0" and i: "i < length revs"
  shows "sourced_props n m keepOld news i (copies_props keepOld news (qm_data m) (length revs) ! i) (revs ! i)
    (updated flags keepOld news (qm_data m) revs ! i)"
proof (cases "map_of (qm_data m) (of_nat i :: index_t)")
  case None
  then show ?thesis using i by (simp add: sourced_props_def copies_props_def update_source_def qm_lookup_map_of [OF m(1)] nth_updated)
next
  case (Some v)
  have v: "unat v < length news" by (rule entries_value [OF m(2) Some])
  define P where "P \<longleftrightarrow> (keepOld \<longrightarrow> rv_flags (news ! unat v) AND HAS_USERREVPROPS \<noteq> 0)"
  have "update_source n m keepOld HAS_USERREVPROPS (of_nat i) = Some (if P then Some v else None)"
    using takes_ok [OF n v, of keepOld HAS_USERREVPROPS, folded P_def] by (simp only: update_source_def qm_lookup_map_of [OF m(1)] Some option.case option.map)
  moreover have "copies_props keepOld news (qm_data m) (length revs) ! i = P" using Some i by (simp add: copies_props_def P_def)
  moreover have "rv_props (updated flags keepOld news (qm_data m) revs ! i) = (if P then rv_props (news ! unat v) else rv_props (revs ! i))"
    using Some i flag by (simp add: nth_updated merged_revision_def P_def)
  ultimately show ?thesis using v by (cases P) (simp_all add: sourced_props_def)
qed

lemma comes_from_sources:
  "list_all2 (comes_from olds news) W ps \<Longrightarrow> (key, v) \<in> set (old_values p W) \<Longrightarrow> unat v < length olds"
  "list_all2 (comes_from olds news) W ps \<Longrightarrow> (key, v) \<in> set (new_values p W) \<Longrightarrow> unat v < length news"
proof -
  have *: "(\<forall>(key, v) \<in> set (old_values p W). unat v < length olds) \<and> (\<forall>(key, v) \<in> set (new_values p W). unat v < length news)"
    if "list_all2 (comes_from olds news) W ps"
    using that
  proof (induction arbitrary: p rule: list_all2_induct)
    case (Cons w W x ps)
    show ?case using Cons.hyps(1) Cons.IH [of "p + 1"] by (cases w) (simp_all add: comes_from_def)
  qed simp
  show "list_all2 (comes_from olds news) W ps \<Longrightarrow> (key, v) \<in> set (old_values p W) \<Longrightarrow> unat v < length olds"
    "list_all2 (comes_from olds news) W ps \<Longrightarrow> (key, v) \<in> set (new_values p W) \<Longrightarrow> unat v < length news"
    using * by auto
qed

text \<open>The replacement of the values, first by the old ones and then by the new ones.\<close>

lemma replace_values_ok:
  assumes o: "ts_holds oldValues (map snd olds)" and n: "ts_holds newValues (map snd news)"
    and zero: "\<forall>x \<in> set olds \<union> set news. 0 \<notin> set (snd x)"
    and W: "list_all2 (comes_from olds news) W ps" "length W < 2 ^ 32"
    and om: "qm_inv index_conv om" "qm_data om = old_values 0 W" and nm: "qm_inv index_conv nm" "qm_data nm = new_values 0 W"
    and room: "total_length (map snd ps) \<le> 119304645" and fresh: "ts_init = Some c"
  shows "\<exists>c1 c2. ts_Replace outside oldValues om c = Some (Inr c1) \<and> ts_Replace outside newValues nm c1 = Some (Inr c2) \<and>
    ts_holds c2 (left_values (map snd olds) (map snd news) om nm)"
proof -
  have init_def: "hd (ts_offsets c) = 0" using fresh by (auto simp: ts_init_def)
  have c: "ts_holds c []" "words_room 119304645 (ts_words c)" "ts_stringData c = []" "hd (ts_offsets c) = 0"
    using ts_init_ok unfolding fresh by (auto simp: init_def)
  let ?w1 = "text_weight (map snd olds) (qm_data om)" and ?w2 = "text_weight (map snd news) (qm_data nm)"
  have w: "?w1 + ?w2 = total_length (map snd ps)" using values_weight [OF W(1), of 0] by (simp add: om(2) nm(2))
  have i1: "total_length (incoming (map snd olds) om (length ([] :: byte list list))) \<le> ?w1" by (rule incoming_weight [OF om(1)]) simp
  have "\<forall>(key, v) \<in> set (qm_data om). unat v < length (map snd olds) \<and> 0 \<notin> set (map snd olds ! unat v)"
    using comes_from_sources(1) [OF W(1)] zero unfolding om(2) by fastforce
  moreover have "words_room (total_length (incoming (map snd olds) om (length ([] :: byte list list))) + ?w2) (ts_words c)"
    using c(2) i1 w room by (simp add: words_room_def)
  moreover have "length (ts_stringData c) + total_length (incoming (map snd olds) om (length ([] :: byte list list))) < 2 ^ 32"
    using c(3) i1 w room by simp
  ultimately obtain c1 where c1: "ts_Replace outside oldValues om c = Some (Inr c1)" "ts_holds c1 (replaced_texts (map snd olds) om [])"
      "words_room ?w2 (ts_words c1)" "hd (ts_offsets c1) = 0"
      "length (ts_stringData c1) \<le> length (ts_stringData c) + total_length (incoming (map snd olds) om (length ([] :: byte list list)))"
    using ts_Replace_ok [OF c(1,4) o om(1)] by blast
  let ?K = "replaced_texts (map snd olds) om []"
  have "length ?K \<le> length W" using values_length [of 0 W] by (simp add: first_replacement om(2))
  then have i2: "total_length (incoming (map snd news) nm (length ?K)) \<le> ?w2" using W(2) by (intro incoming_weight [OF nm(1)]) simp
  have "\<forall>(key, v) \<in> set (qm_data nm). unat v < length (map snd news) \<and> 0 \<notin> set (map snd news ! unat v)"
    using comes_from_sources(2) [OF W(1)] zero unfolding nm(2) by fastforce
  moreover have "words_room (total_length (incoming (map snd news) nm (length ?K)) + 0) (ts_words c1)"
    using c1(3) i2 by (simp add: words_room_def)
  moreover have "length (ts_stringData c1) + total_length (incoming (map snd news) nm (length ?K)) < 2 ^ 32"
    using c1(5) c(3) i1 i2 w room by simp
  ultimately obtain c2 where "ts_Replace outside newValues nm c1 = Some (Inr c2)" "ts_holds c2 (replaced_texts (map snd news) nm ?K)"
    using ts_Replace_ok [OF c1(2,4) n nm(1)] by blast
  then show ?thesis using c1(1) by (auto simp: left_values_def)
qed

text \<open>The part of the state that the properties do not touch.\<close>

definition without_prop_data :: "revision_info \<Rightarrow> revision_info" where
  "without_prop_data c = c\<lparr>rc_userRevPropsPool := rc_authorPool c, rc_userRevPropNames := [], rc_userRevPropOffsets := [],
     rc_userRevPropValues := rc_comments c\<rparr>"

lemma ts_swap_swaps: "ts_swap c d = (d, c)"
  by (simp add: ts_swap_def sd_swap_def ipd_Swap_def qh_swap_def)

lemma Insert_no_copies: "ts_Insert_copies outside [] n c = Some (Inr (of_nat (length (ts_offsets c) - 1), c))"
  using ts_Insert_copies_empty [of n outside c] by (cases "n = 0") (simp_all add: ts_Insert_copies_def)

definition holds_names :: "revision_info \<Rightarrow> revision list \<Rightarrow> bool" where
  "holds_names c revs \<longleftrightarrow> sd_inv (rc_userRevPropsPool c) \<and> rc_userRevPropOffsets c = offsets_of (map rv_props revs) \<and>
     list_all2 (names (rc_userRevPropsPool c)) (rc_userRevPropNames c) (map fst (all_props revs))"

lemma UpdateUserRevProps_ok:
  assumes h: "holds_props c revs" and n: "holds_props n news" "holds_std n news"
    and m: "qm_inv index_conv m" "entries_ok (length revs) (length news) (qm_data m)"
    and room: "load_ok (sd_hashIndex (rc_userRevPropsPool c))"
      "length (sd_strings (rc_userRevPropsPool c)) + length (sd_strings (rc_userRevPropsPool n)) \<le> 119304646"
      "length (packedStrings (rc_userRevPropsPool c)) + length (packedStrings (rc_userRevPropsPool n)) + 10 < 2 ^ 32"
    and small: "length revs + 1 < 2 ^ 32" "length (all_props revs) < 2 ^ 32" "length news < 2 ^ 32" "length (all_props news) < 2 ^ 32"
    and total: "total_length (map snd (all_props (updated flags keepOld news (qm_data m) revs))) \<le> 119304645"
    and zero: "\<forall>x \<in> set (all_props revs) \<union> set (all_props news). 0 \<notin> set (snd x)"
    and sz: "length (rc_authors c) = length revs" and flag: "flags AND HAS_USERREVPROPS \<noteq> 0"
  shows "\<exists>c' V. rc_UpdateUserRevProps outside n m keepOld c = Inr c' \<and> without_prop_data c' = without_prop_data c \<and>
    holds_names c' (updated flags keepOld news (qm_data m) revs) \<and> ts_holds (rc_userRevPropValues c') V \<and>
    (if props_in_order (copies_props keepOld news (qm_data m) (length revs)) (updated flags keepOld news (qm_data m) revs)
     then V = map snd (all_props (updated flags keepOld news (qm_data m) revs))
     else length V < length (all_props (updated flags keepOld news (qm_data m) revs)))"
proof -
  let ?R = "updated flags keepOld news (qm_data m) revs" and ?T = "copies_props keepOld news (qm_data m) (length revs)"
  note hc = h [unfolded holds_props_def] and hn = n(1) [unfolded holds_props_def]
  obtain p r t where p: "sd_Merge (rc_userRevPropsPool n) (rc_userRevPropsPool c) = Inr (p, r)" "sd_inv p"
      and t: "sd_strings p = sd_strings (rc_userRevPropsPool c) @ t"
      and moved: "\<And>i x. names (rc_userRevPropsPool n) i x \<Longrightarrow> \<exists>j. qm_lookup index_conv r i = Some j \<and> names p j x"
    using Merge_moves_names [OF _ _ room] hc hn by blast
  obtain fresh where fresh: "ts_init = Some fresh" using ts_init_ok by blast
  let ?c = "c\<lparr>rc_userRevPropsPool := p, rc_userRevPropNames := []\<rparr>"
  have len: "length (all_props ?R) \<le> 119304645" using length_le_total_length [of "map snd (all_props ?R)"] total by simp
  have start: "props_spliced p (all_props ([] @ revs)) news [] [] [] revs [] qm_init qm_init ?c"
    using hc by (simp add: props_spliced_def offsets_of_def map_starts parts_from_def qm_inv_init) (simp add: qm_init_def)
  have old: "list_all2 (names p) (rc_userRevPropNames c) (map fst (all_props ([] @ revs)))"
    using names_all [OF _ t] hc by simp
  have src: "\<forall>j < length revs. sourced_props n m keepOld news (length ([] :: revision list) + j) (?T ! j) (revs ! j) (?R ! j)"
    using sourced_props_updated [OF m n(2) flag] by simp
  obtain c1 om nm Ws where c1: "splice_props n m r keepOld (rc_userRevPropNames c) [0..<length revs] 0 0 qm_init qm_init ?c = Some (om, nm, c1)"
      "props_spliced p (all_props revs) news ?T ?R revs [] Ws om nm c1" "without_props c1 = without_props ?c"
    using splice_props_ok [OF n(1) small(3,4) moved start, of ?R ?T "rc_userRevPropNames c" m keepOld] src old len small(1,2)
    by (auto simp: copies_props_def)
  note sp = c1(2) [unfolded props_spliced_def]
  have W: "list_all2 (comes_from (all_props revs) (all_props news)) (concat Ws) (all_props ?R)" using sp by blast
  have lW: "length (concat Ws) < 2 ^ 32" using list_all2_lengthD [OF W] len by simp
  let ?V = "left_values (map snd (all_props revs)) (map snd (all_props news)) om nm"
  obtain v1 v2 where v: "ts_Replace outside (rc_userRevPropValues c) om fresh = Some (Inr v1)"
      "ts_Replace outside (rc_userRevPropValues n) nm v1 = Some (Inr v2)" "ts_holds v2 ?V"
    using replace_values_ok [OF _ _ zero W lW _ _ _ _ total fresh, of "rc_userRevPropValues c" "rc_userRevPropValues n" om nm outside]
      sp hc hn by blast
  have sz': "unat (rc_size c) = length revs" using small(1) sz by (simp add: rc_size_def unat_of_nat_small)
  let ?c' = "c1\<lparr>rc_userRevPropValues := v2\<rparr>"
  have "rc_UpdateUserRevProps outside n m keepOld c = Inr ?c'"
    using p(1) c1(1) v(1,2) sz' by (simp add: rc_UpdateUserRevProps_def fresh ts_swap_swaps Insert_no_copies)
  moreover have "without_prop_data ?c' = without_prop_data c" "rc_userRevPropsPool c1 = p"
    using arg_cong [OF c1(3), of without_prop_data] arg_cong [OF c1(3), of rc_userRevPropsPool] by (simp_all add: without_props_def without_prop_data_def)
  moreover have "holds_names ?c' ?R" using sp calculation(3) p(2) by (simp add: holds_names_def offsets_of_def)
  moreover have "if props_in_order ?T ?R then ?V = map snd (all_props ?R) else length ?V < length (all_props ?R)"
  proof (cases "props_in_order ?T ?R")
    case True
    then obtain ks ls where "concat Ws = map Inl ks @ map Inr ls" using order_of_values sp by blast
    from left_values_in_order [OF this W lW, of om nm] show ?thesis using True sp by simp
  next
    case False
    then have "\<not> (\<exists>ks ls. concat Ws = map Inl ks @ map Inr ls)" using order_of_values sp by blast
    then obtain ks l W' where "concat Ws = map Inl ks @ Inr l # W'" "\<exists>w \<in> set W'. isl w" using values_split [of "concat Ws"] by blast
    from left_values_out_of_order [OF this lW, of om nm] show ?thesis using False sp list_all2_lengthD [OF W] by simp
  qed
  ultimately show ?thesis using v(3) by (intro exI [of _ ?c'] exI [of _ ?V]) simp
qed

subsection \<open>New entries\<close>

lemma offsets_blank: "offsets_of (L @ replicate k []) = offsets_of L @ replicate k (of_nat (length (concat L)))"
proof (induction k)
  case (Suc k)
  have "L @ replicate (Suc k) [] = (L @ replicate k []) @ [[]]" by (simp add: replicate_append_same)
  then have "offsets_of (L @ replicate (Suc k) []) = offsets_of (L @ replicate k []) @ [of_nat (length (concat (L @ replicate k [])))]"
    by (simp only: offsets_new)
  also have "concat (L @ replicate k []) = concat L" by simp
  finally show ?case using Suc by (simp add: replicate_append_same)
qed simp

lemma blank_fields [simp]:
  "rv_author blank = []" "rv_comment blank = []" "rv_time blank = 0" "rv_flags blank = 0" "rv_changes blank = []" "rv_merges blank = []"
  "rv_props blank = []"
  by (simp_all add: blank_def new_revision_def c_str_def)

lemma names_empty: "sd_inv w \<Longrightarrow> names w 0 []"
  using sd_inv_rep(3,4) [of w] by (simp add: names_def hd_conv_nth)

lemma list_all2_blank: "list_all2 P xs ys \<Longrightarrow> P x y \<Longrightarrow> list_all2 P (xs @ replicate k x) (ys @ replicate k y)"
  by (intro list_all2_appendI) (simp_all add: list_all2_conv_all_nth)

lemma all_blank [simp]:
  "all_changes (replicate k blank) = []" "all_merges (replicate k blank) = []" "all_props (replicate k blank) = []"
  by (simp_all add: all_changes_def all_merges_def all_props_def)

definition blanks :: "revision list \<Rightarrow> nat \<Rightarrow> revision list" where
  "blanks revs k = revs @ replicate k blank"

lemma length_blanks [simp]: "length (blanks revs k) = length revs + k"
  by (simp add: blanks_def)

lemma all_blanks [simp]:
  "all_changes (blanks revs k) = all_changes revs" "all_merges (blanks revs k) = all_merges revs" "all_props (blanks revs k) = all_props revs"
  by (simp_all add: blanks_def)

lemma AppendNewEntries_ok:
  assumes h: "rc_holds c revs" and es: "appends (length revs) k (qm_data m)"
  shows "\<exists>c'. rc_AppendNewEntries outside m c = Inr c' \<and> rc_comments c' = rc_comments c \<and> rc_paths c' = rc_paths c \<and>
    rc_authorPool c' = rc_authorPool c \<and> rc_userRevPropsPool c' = rc_userRevPropsPool c \<and>
    length (rc_authors c') = length revs + k \<and> authors_held c' (blanks revs k) \<and>
    rc_timeStamps c' = map rv_time (blanks revs k) \<and> rc_presenceFlags c' = map rv_flags (blanks revs k) \<and>
    holds_changes c' (blanks revs k) \<and> holds_merges c' (blanks revs k) \<and> holds_props c' (blanks revs k)"
proof -
  have std: "holds_std c revs" and ch: "holds_changes c revs" and mg: "holds_merges c revs" and pr: "holds_props c revs"
    using h by (simp_all add: rc_holds_def)
  note std' = std [unfolded holds_std_def] and ch' = ch [unfolded holds_changes_def] and mg' = mg [unfolded holds_merges_def]
    and pr' = pr [unfolded holds_props_def]
  have len: "length (rc_authors c) = length revs" using std' by (auto dest: list_all2_lengthD)
  have "length (map fst (filter (\<lambda>(key, v). of_nat (length revs) \<le> key) (qm_data m))) = k" using es by (simp add: appends_def)
  then have app: "length (filter (\<lambda>(key, v). rc_size c \<le> key) (qm_data m)) = k" by (simp add: rc_size_def len)
  define c' where "c' = c\<lparr>rc_authors := rc_authors c @ replicate k 0, rc_timeStamps := rc_timeStamps c @ replicate k 0,
                    rc_presenceFlags := rc_presenceFlags c @ replicate k 0,
                    rc_rootPaths := rc_rootPaths c @ replicate k NO_INDEX, rc_sumChanges := rc_sumChanges c @ replicate k 0,
                    rc_changesOffsets := offsets_of (map rv_changes (blanks revs k)),
                    rc_copyFromOffsets := offsets_of (map (\<lambda>r. copies (rv_changes r)) (blanks revs k)),
                    rc_mergedRevisionsOffsets := offsets_of (map rv_merges (blanks revs k)),
                    rc_userRevPropOffsets := offsets_of (map rv_props (blanks revs k))\<rparr>"
  have run: "rc_AppendNewEntries outside m c = Inr c'"
  proof (cases "k = 0")
    case True
    then have "c' = c" using ch' mg' pr' by (simp add: c'_def blanks_def)
    then show ?thesis using True app by (simp add: rc_AppendNewEntries_def)
  next
    case False
    then have "filter (\<lambda>(key, v). rc_size c \<le> key) (qm_data m) \<noteq> []" using app by auto
    then show ?thesis using app ch' mg' pr'
      by (simp add: rc_AppendNewEntries_def Insert_no_copies c'_def blanks_def offsets_blank)
  qed
  have "authors_held c' (blanks revs k)"
    using std' names_empty list_all2_blank [of "names (rc_authorPool c)" "rc_authors c" "map rv_author revs" 0 "[]" k]
    by (simp add: authors_held_def c'_def blanks_def)
  moreover have "holds_changes c' (blanks revs k)"
    using ch' list_all2_blank [of "root_of (rc_paths c)" "rc_rootPaths c" "map rv_changes revs" NO_INDEX "[]" k]
    by (simp add: holds_changes_def c'_def) (simp add: blanks_def root_of_def)
  moreover have "holds_merges c' (blanks revs k)" using mg' by (simp add: holds_merges_def c'_def)
  moreover have "holds_props c' (blanks revs k)" using pr' by (simp add: holds_props_def c'_def)
  moreover have "rc_timeStamps c' = map rv_time (blanks revs k)" "rc_presenceFlags c' = map rv_flags (blanks revs k)"
    using std' by (simp_all add: c'_def blanks_def)
  moreover have "rc_comments c' = rc_comments c" "rc_paths c' = rc_paths c" "rc_authorPool c' = rc_authorPool c"
      "rc_userRevPropsPool c' = rc_userRevPropsPool c" "length (rc_authors c') = length revs + k"
    by (simp_all add: c'_def len)
  ultimately show ?thesis using run by blast
qed

lemma more_paths:
  assumes inv: "pd_inv (rc_paths c)" and d: "pd_inv d" "pd_keys d = pd_keys (rc_paths c) @ ks"
  shows "holds_changes c revs \<Longrightarrow> holds_changes (c\<lparr>rc_paths := d\<rparr>) revs" "holds_merges c revs \<Longrightarrow> holds_merges (c\<lparr>rc_paths := d\<rparr>) revs"
  using stands_all [OF _ inv d(2)] root_all [OF _ inv d(2)] d(1) by (simp_all add: holds_changes_def holds_merges_def)

subsection \<open>The parts of the state that a step leaves alone\<close>

lemma changes_frame:
  "without_changes c' = without_changes c \<Longrightarrow> authors_held c' revs = authors_held c revs \<and> rc_timeStamps c' = rc_timeStamps c \<and>
     rc_presenceFlags c' = rc_presenceFlags c \<and> rc_comments c' = rc_comments c \<and> holds_merges c' revs = holds_merges c revs \<and>
     holds_props c' revs = holds_props c revs \<and> rc_authors c' = rc_authors c \<and> rc_userRevPropsPool c' = rc_userRevPropsPool c \<and>
     rc_paths c' = rc_paths c"
  by (cases c; cases c') (simp add: without_changes_def authors_held_def holds_merges_def holds_props_def)

lemma merges_frame:
  "without_merges c' = without_merges c \<Longrightarrow> authors_held c' revs = authors_held c revs \<and> rc_timeStamps c' = rc_timeStamps c \<and>
     rc_presenceFlags c' = rc_presenceFlags c \<and> rc_comments c' = rc_comments c \<and> holds_changes c' revs = holds_changes c revs \<and>
     holds_props c' revs = holds_props c revs \<and> rc_authors c' = rc_authors c \<and> rc_userRevPropsPool c' = rc_userRevPropsPool c"
  by (cases c; cases c') (simp add: without_merges_def authors_held_def holds_changes_def holds_props_def)

lemma props_frame:
  "without_prop_data c' = without_prop_data c \<Longrightarrow> authors_held c' revs = authors_held c revs \<and> rc_timeStamps c' = rc_timeStamps c \<and>
     rc_presenceFlags c' = rc_presenceFlags c \<and> rc_comments c' = rc_comments c \<and> holds_changes c' revs = holds_changes c revs \<and>
     holds_merges c' revs = holds_merges c revs"
  by (cases c; cases c') (simp add: without_prop_data_def authors_held_def holds_changes_def holds_merges_def)

lemma updated_unchanged:
  assumes "\<And>new old. get (merged_revision flags keepOld new old) = get old"
  shows "map get (updated flags keepOld news es revs) = map get revs"
  by (rule nth_equalityI) (simp_all add: nth_updated assms split: option.splits)

lemma map_same: "map f xs = map f ys \<Longrightarrow> map (\<lambda>x. g (f x)) xs = map (\<lambda>x. g (f x)) ys"
  by (drule arg_cong [of _ _ "map g"]) (simp add: comp_def)

lemma holds_changes_same: "map rv_changes R = map rv_changes revs \<Longrightarrow> holds_changes c R = holds_changes c revs"
proof -
  assume e: "map rv_changes R = map rv_changes revs"
  then have "all_changes R = all_changes revs" by (simp add: all_changes_def)
  then show ?thesis using e map_same [OF e, of sum_of] map_same [OF e, of copies] unfolding holds_changes_def by simp
qed

lemma holds_merges_same: "map rv_merges R = map rv_merges revs \<Longrightarrow> holds_merges c R = holds_merges c revs"
  by (simp add: holds_merges_def all_merges_def)

lemma holds_props_same: "map rv_props R = map rv_props revs \<Longrightarrow> holds_props c R = holds_props c revs"
  by (simp add: holds_props_def all_props_def)

lemma authors_held_same: "map rv_author R = map rv_author revs \<Longrightarrow> authors_held c R = authors_held c revs"
  by (simp add: authors_held_def)

subsection \<open>The whole update\<close>

definition pools_fit :: "string_dictionary \<Rightarrow> string_dictionary \<Rightarrow> bool" where
  "pools_fit source w \<longleftrightarrow> load_ok (sd_hashIndex w) \<and> length (sd_strings w) + length (sd_strings source) \<le> 119304646 \<and>
     length (packedStrings w) + length (packedStrings source) + 10 < 2 ^ 32"

definition paths_fit :: "path_dictionary \<Rightarrow> path_dictionary \<Rightarrow> bool" where
  "paths_fit source d \<longleftrightarrow> pools_fit (pathElements source) (pathElements d) \<and> load_ok (ipd_hashIndex (paths d)) \<and>
     length (pd_keys d) + length (pd_keys source) \<le> 119304646"

definition comments_fit :: "nat \<Rightarrow> tokenized_strings \<Rightarrow> bool" where
  "comments_fit w t \<longleftrightarrow> hd (ts_offsets t) = 0 \<and> words_room w (ts_words t) \<and> length (ts_stringData t) + w < 2 ^ 32"

definition few :: "revision list \<Rightarrow> bool" where
  "few revs \<longleftrightarrow> length revs + 1 < 2 ^ 32 \<and> length (all_changes revs) < 2 ^ 32 \<and> length (all_merges revs) < 2 ^ 32 \<and> length (all_props revs) < 2 ^ 32 \<and>
     (\<forall>r \<in> set revs. 0 \<notin> set (rv_comment r)) \<and> (\<forall>x \<in> set (all_props revs). 0 \<notin> set (snd x))"

text \<open>The update of a container that holds \<open>revs\<close> by one that holds \<open>news\<close>; the map has \<open>k\<close> new revisions.\<close>

definition update_fits :: "revision_info \<Rightarrow> revision list \<Rightarrow> nat \<Rightarrow> revision_info \<Rightarrow> revision list \<Rightarrow> index_mapping_t \<Rightarrow> byte \<Rightarrow> bool \<Rightarrow> bool" where
  "update_fits c revs k n news m flags keepOld \<longleftrightarrow>
     pools_fit (rc_authorPool n) (rc_authorPool c) \<and> pools_fit (rc_userRevPropsPool n) (rc_userRevPropsPool c) \<and>
     paths_fit (rc_paths n) (rc_paths c) \<and> comments_fit (text_weight (map rv_comment news) (qm_data m)) (rc_comments c) \<and>
     length (qm_data m) \<le> 119304647 \<and> few (blanks revs k) \<and> few news \<and>
     total_length (map snd (all_props (updated flags keepOld news (qm_data m) (blanks revs k)))) \<le> 119304645"

definition update_map_ok :: "nat \<Rightarrow> nat \<Rightarrow> revision list \<Rightarrow> index_mapping_t \<Rightarrow> bool" where
  "update_map_ok n k news m \<longleftrightarrow> qm_inv index_conv m \<and> entries_ok (n + k) (length news) (qm_data m) \<and> appends n k (qm_data m)"

text \<open>Whether every new revision gets a comment.\<close>

definition comments_kept :: "byte \<Rightarrow> bool \<Rightarrow> revision list \<Rightarrow> nat \<Rightarrow> nat \<Rightarrow> (index_t \<times> index_t) list \<Rightarrow> bool" where
  "comments_kept flags keepOld news n k es \<longleftrightarrow> k = 0 \<or> flags AND HAS_COMMENT \<noteq> 0 \<and> new_comments keepOld news n es"

lemma Merge_paths_ok:
  assumes "pd_inv (rc_paths n)" "pd_inv (rc_paths c)" "paths_fit (rc_paths n) (rc_paths c)"
  shows "\<exists>d r ks. pd_Merge (rc_paths n) (rc_paths c) = Inr (d, r) \<and> pd_inv d \<and> pd_keys d = pd_keys (rc_paths c) @ ks \<and>
    maps_paths (rc_paths n) (length (pd_keys (rc_paths n))) d r"
  using assms(3) by (intro pd_Merge_ok [OF assms(1,2)]) (auto simp: paths_fit_def pools_fit_def pd_light_def)

lemma no_new_comments: "appends n 0 es \<Longrightarrow> new_comments keepOld news n es"
  by (auto simp: appends_def new_comments_def filter_empty_conv)

text \<open>The state after the new entries are there and the paths are merged.\<close>

lemma update_start:
  assumes h: "rc_holds c revs" "rc_holds n news" and a: "appends (length revs) k (qm_data m)" and f: "paths_fit (rc_paths n) (rc_paths c)"
  shows "\<exists>c0 d pm. rc_AppendNewEntries outside m c = Inr c0 \<and> pd_Merge (rc_paths n) (rc_paths c0) = Inr (d, pm) \<and>
    maps_paths (rc_paths n) (length (pd_keys (rc_paths n))) d pm \<and> (let c1 = c0\<lparr>rc_paths := d\<rparr> in rc_comments c1 = rc_comments c \<and> rc_paths c1 = d \<and>
      rc_authorPool c1 = rc_authorPool c \<and> rc_userRevPropsPool c1 = rc_userRevPropsPool c \<and> length (rc_authors c1) = length revs + k \<and>
      authors_held c1 (blanks revs k) \<and> rc_timeStamps c1 = map rv_time (blanks revs k) \<and> rc_presenceFlags c1 = map rv_flags (blanks revs k) \<and>
      holds_changes c1 (blanks revs k) \<and> holds_merges c1 (blanks revs k) \<and> holds_props c1 (blanks revs k))"
proof -
  obtain c0 where c0: "rc_AppendNewEntries outside m c = Inr c0" "rc_comments c0 = rc_comments c" "rc_paths c0 = rc_paths c"
      "rc_authorPool c0 = rc_authorPool c" "rc_userRevPropsPool c0 = rc_userRevPropsPool c" "length (rc_authors c0) = length revs + k"
      "authors_held c0 (blanks revs k)" "rc_timeStamps c0 = map rv_time (blanks revs k)" "rc_presenceFlags c0 = map rv_flags (blanks revs k)"
      "holds_changes c0 (blanks revs k)" "holds_merges c0 (blanks revs k)" "holds_props c0 (blanks revs k)"
    using AppendNewEntries_ok [OF h(1) a, of outside] by blast
  have inv: "pd_inv (rc_paths n)" "pd_inv (rc_paths c0)" using h c0(3) by (simp_all add: rc_holds_def holds_changes_def)
  obtain d pm ks where d: "pd_Merge (rc_paths n) (rc_paths c0) = Inr (d, pm)" "pd_inv d" "pd_keys d = pd_keys (rc_paths c0) @ ks"
      "maps_paths (rc_paths n) (length (pd_keys (rc_paths n))) d pm" using Merge_paths_ok [OF inv] f c0(3) by metis
  note more = more_paths [OF inv(2) d(2,3)]
  show ?thesis using c0 d(1,4) more(1) [OF c0(10)] more(2) [OF c0(11)]
    by (intro exI [of _ c0] exI [of _ d] exI [of _ pm]) (simp add: authors_held_def holds_props_def)
qed

text \<open>The steps that only happen for some flags.\<close>

lemma author_step:
  assumes c: "authors_held c revs" and n: "holds_std n news" and m: "entries_ok (length revs) (length news) (qm_data m)"
    and fit: "pools_fit (rc_authorPool n) (rc_authorPool c)" "length revs < 2 ^ 32"
  shows "\<exists>p a. (if flags AND HAS_AUTHOR \<noteq> 0 then rc_UpdateAuthors n m keepOld c else Inr c) = Inr (c\<lparr>rc_authorPool := p, rc_authors := a\<rparr>) \<and>
    authors_held (c\<lparr>rc_authorPool := p, rc_authors := a\<rparr>) (updated flags keepOld news (qm_data m) revs)"
proof (cases "flags AND HAS_AUTHOR = 0")
  case True
  then have "map rv_author (updated flags keepOld news (qm_data m) revs) = map rv_author revs"
    by (intro updated_unchanged) (simp add: merged_revision_def)
  from authors_held_same [OF this] show ?thesis using True c by (intro exI [of _ "rc_authorPool c"] exI [of _ "rc_authors c"]) simp
next
  case False
  have "load_ok (sd_hashIndex (rc_authorPool c))" "length (sd_strings (rc_authorPool c)) + length (sd_strings (rc_authorPool n)) \<le> 119304646"
      "length (packedStrings (rc_authorPool c)) + length (packedStrings (rc_authorPool n)) + 10 < 2 ^ 32"
    using fit(1) by (simp_all add: pools_fit_def)
  from UpdateAuthors_ok [OF c n m this fit(2) False] show ?thesis using False by simp
qed

lemma time_step:
  assumes c: "rc_timeStamps c = map rv_time revs" and n: "holds_std n news" and m: "entries_ok (length revs) (length news) (qm_data m)"
    and small: "length revs < 2 ^ 32"
  shows "(if flags AND HAS_TIME_STAMP \<noteq> 0 then rc_UpdateTimeStamps n m keepOld c else Inr c) =
    Inr (c\<lparr>rc_timeStamps := map rv_time (updated flags keepOld news (qm_data m) revs)\<rparr>)"
proof (cases "flags AND HAS_TIME_STAMP = 0")
  case True
  then have "map rv_time (updated flags keepOld news (qm_data m) revs) = map rv_time revs"
    by (intro updated_unchanged) (simp add: merged_revision_def)
  then have "map rv_time (updated flags keepOld news (qm_data m) revs) = rc_timeStamps c" by (simp only: c)
  then show ?thesis using True by simp
next
  case False
  then show ?thesis using UpdateTimeStamps_ok [OF c n m small False] by simp
qed

lemma comment_step:
  assumes c: "ts_holds (rc_comments c) (map rv_comment revs)" and n: "holds_std n news"
    and m: "update_map_ok (length revs) k news m" "length (qm_data m) \<le> 119304647"
    and zero: "\<forall>r \<in> set news. 0 \<notin> set (rv_comment r)"
    and fit: "comments_fit (text_weight (map rv_comment news) (qm_data m)) (rc_comments c)" "length revs + k < 2 ^ 32"
  shows "\<exists>t V. (if flags AND HAS_COMMENT \<noteq> 0 then rc_UpdateComments outside n m keepOld c else Inr c) = Inr (c\<lparr>rc_comments := t\<rparr>) \<and>
    ts_holds t V \<and> (if comments_kept flags keepOld news (length revs) k (qm_data m)
      then V = map rv_comment (updated flags keepOld news (qm_data m) (blanks revs k)) else length V < length revs + k)"
proof (cases "flags AND HAS_COMMENT = 0")
  case True
  then have same: "map rv_comment (updated flags keepOld news (qm_data m) (blanks revs k)) = map rv_comment (blanks revs k)"
    by (intro updated_unchanged) (simp add: merged_revision_def)
  have kept: "comments_kept flags keepOld news (length revs) k (qm_data m) \<longleftrightarrow> k = 0" using True by (simp add: comments_kept_def)
  show ?thesis unfolding kept same using True c
    by (intro exI [of _ "rc_comments c"] exI [of _ "map rv_comment revs"]) (simp add: blanks_def)
next
  case False
  note m' = m(1) [unfolded update_map_ok_def] and f = fit(1) [unfolded comments_fit_def]
  have es: "entries_ok (length revs + k) (length news) (qm_data m)" "appends (length revs) k (qm_data m)" using m' by blast+
  then have kept: "comments_kept flags keepOld news (length revs) k (qm_data m) \<longleftrightarrow> new_comments keepOld news (length revs) (qm_data m)"
    using False no_new_comments by (auto simp: comments_kept_def)
  have "hd (ts_offsets (rc_comments c)) = 0" "words_room (text_weight (map rv_comment news) (qm_data m)) (ts_words (rc_comments c))"
      "length (ts_stringData (rc_comments c)) + text_weight (map rv_comment news) (qm_data m) < 2 ^ 32" using f by blast+
  from UpdateComments_ok [OF c this(1) n es(1) m(2) es(2) zero this(2,3) fit(2) False]
  show ?thesis unfolding kept blanks_def if_P [OF False] .
qed

lemma changes_step:
  assumes h: "holds_changes c revs" and n: "holds_changes n news" "holds_std n news"
    and pm: "maps_paths (rc_paths n) (length (pd_keys (rc_paths n))) (rc_paths c) pm"
    and m: "qm_inv index_conv m" "entries_ok (length revs) (length news) (qm_data m)" and small: "few revs" "few news"
    and sz: "length (rc_authors c) = length revs"
  shows "\<exists>c'. (if flags AND HAS_CHANGEDPATHS \<noteq> 0 then rc_UpdateChanges n m pm keepOld c else Inr c) = Inr c' \<and>
    holds_changes c' (updated flags keepOld news (qm_data m) revs) \<and> without_changes c' = without_changes c"
proof (cases "flags AND HAS_CHANGEDPATHS = 0")
  case True
  then have "map rv_changes (updated flags keepOld news (qm_data m) revs) = map rv_changes revs"
    by (intro updated_unchanged) (simp add: merged_revision_def)
  from holds_changes_same [OF this] show ?thesis using True h by simp
next
  case False
  then show ?thesis using UpdateChanges_ok [OF h n pm m _ _ _ _ sz False, of keepOld] small by (simp add: few_def)
qed

lemma merges_step:
  assumes h: "holds_merges c revs" and n: "holds_merges n news" "holds_std n news"
    and pm: "maps_paths (rc_paths n) (length (pd_keys (rc_paths n))) (rc_paths c) pm"
    and m: "qm_inv index_conv m" "entries_ok (length revs) (length news) (qm_data m)" and small: "few revs" "few news"
    and sz: "length (rc_authors c) = length revs"
  shows "\<exists>c'. (if flags AND HAS_MERGEINFO \<noteq> 0 then rc_UpdateMergers n m pm keepOld c else Inr c) = Inr c' \<and>
    holds_merges c' (updated flags keepOld news (qm_data m) revs) \<and> without_merges c' = without_merges c"
proof (cases "flags AND HAS_MERGEINFO = 0")
  case True
  then have "map rv_merges (updated flags keepOld news (qm_data m) revs) = map rv_merges revs"
    by (intro updated_unchanged) (simp add: merged_revision_def)
  from holds_merges_same [OF this] show ?thesis using True h by simp
next
  case False
  then show ?thesis using UpdateMergers_ok [OF h n pm m _ _ _ _ sz False, of keepOld] small by (simp add: few_def)
qed

text \<open>Whether the values of the properties survive.\<close>

definition values_kept :: "byte \<Rightarrow> bool \<Rightarrow> revision list \<Rightarrow> (index_t \<times> index_t) list \<Rightarrow> revision list \<Rightarrow> bool" where
  "values_kept flags keepOld news es revs \<longleftrightarrow> flags AND HAS_USERREVPROPS = 0 \<or>
     props_in_order (copies_props keepOld news es (length revs)) (updated flags keepOld news es revs)"

lemma props_step:
  assumes h: "holds_props c revs" and n: "holds_props n news" "holds_std n news"
    and m: "qm_inv index_conv m" "entries_ok (length revs) (length news) (qm_data m)"
    and fit: "pools_fit (rc_userRevPropsPool n) (rc_userRevPropsPool c)" and small: "few revs" "few news"
    and total: "total_length (map snd (all_props (updated flags keepOld news (qm_data m) revs))) \<le> 119304645"
    and sz: "length (rc_authors c) = length revs"
  shows "\<exists>c' V. (if flags AND HAS_USERREVPROPS \<noteq> 0 then rc_UpdateUserRevProps outside n m keepOld c else Inr c) = Inr c' \<and>
    without_prop_data c' = without_prop_data c \<and> holds_names c' (updated flags keepOld news (qm_data m) revs) \<and>
    ts_holds (rc_userRevPropValues c') V \<and>
    (if values_kept flags keepOld news (qm_data m) revs then V = map snd (all_props (updated flags keepOld news (qm_data m) revs))
     else length V < length (all_props (updated flags keepOld news (qm_data m) revs)))"
proof (cases "flags AND HAS_USERREVPROPS = 0")
  case True
  then have "map rv_props (updated flags keepOld news (qm_data m) revs) = map rv_props revs"
    by (intro updated_unchanged) (simp add: merged_revision_def)
  from holds_props_same [OF this] have "holds_props c (updated flags keepOld news (qm_data m) revs)" using h by simp
  then show ?thesis using True by (intro exI [of _ c] exI [of _ "map snd (all_props (updated flags keepOld news (qm_data m) revs))"])
      (simp add: holds_props_def holds_names_def values_kept_def)
next
  case False
  have v: "values_kept flags keepOld news (qm_data m) revs \<longleftrightarrow>
      props_in_order (copies_props keepOld news (qm_data m) (length revs)) (updated flags keepOld news (qm_data m) revs)"
    using False by (simp add: values_kept_def)
  have "\<forall>x \<in> set (all_props revs) \<union> set (all_props news). 0 \<notin> set (snd x)" using small by (auto simp: few_def)
  from UpdateUserRevProps_ok [OF h n m _ _ _ _ _ _ _ total this sz False, of outside] fit small
  show ?thesis using False unfolding v by (simp add: few_def pools_fit_def)
qed

text \<open>The first three steps, which do not touch paths and properties.\<close>

lemma std_steps:
  assumes c1: "authors_held c1 B" "rc_timeStamps c1 = map rv_time B" "rc_comments c1 = rc_comments c" "rc_authorPool c1 = rc_authorPool c"
    and B: "B = blanks revs k" and c: "ts_holds (rc_comments c) (map rv_comment revs)" and n: "holds_std n news"
    and m: "update_map_ok (length revs) k news m" "length (qm_data m) \<le> 119304647"
    and fit: "pools_fit (rc_authorPool n) (rc_authorPool c)" "comments_fit (text_weight (map rv_comment news) (qm_data m)) (rc_comments c)"
      "few B" "few news"
  shows "\<exists>c2 c3 c4 V. (if flags AND HAS_AUTHOR \<noteq> 0 then rc_UpdateAuthors n m keepOld c1 else Inr c1) = Inr c2 \<and>
    (if flags AND HAS_TIME_STAMP \<noteq> 0 then rc_UpdateTimeStamps n m keepOld c2 else Inr c2) = Inr c3 \<and>
    (if flags AND HAS_COMMENT \<noteq> 0 then rc_UpdateComments outside n m keepOld c3 else Inr c3) = Inr c4 \<and>
    authors_held c4 (updated flags keepOld news (qm_data m) B) \<and> rc_timeStamps c4 = map rv_time (updated flags keepOld news (qm_data m) B) \<and>
    ts_holds (rc_comments c4) V \<and> (if comments_kept flags keepOld news (length revs) k (qm_data m)
      then V = map rv_comment (updated flags keepOld news (qm_data m) B) else length V < length revs + k) \<and>
    rc_presenceFlags c4 = rc_presenceFlags c1 \<and> rc_paths c4 = rc_paths c1 \<and> rc_userRevPropsPool c4 = rc_userRevPropsPool c1 \<and>
    (\<forall>r. holds_changes c4 r = holds_changes c1 r \<and> holds_merges c4 r = holds_merges c1 r \<and> holds_props c4 r = holds_props c1 r)"
proof -
  let ?R = "updated flags keepOld news (qm_data m) B"
  have es: "entries_ok (length B) (length news) (qm_data m)" using m by (simp add: update_map_ok_def B)
  have small: "length B < 2 ^ 32" "length revs + k < 2 ^ 32" "\<forall>r \<in> set news. 0 \<notin> set (rv_comment r)"
    using fit(3,4) by (simp_all add: few_def B)
  obtain p a where
      a: "(if flags AND HAS_AUTHOR \<noteq> 0 then rc_UpdateAuthors n m keepOld c1 else Inr c1) = Inr (c1\<lparr>rc_authorPool := p, rc_authors := a\<rparr>)"
      "authors_held (c1\<lparr>rc_authorPool := p, rc_authors := a\<rparr>) ?R"
    using author_step [OF c1(1) n es _ small(1), of flags keepOld] fit(1) c1(4) by auto
  define c2 where "c2 = c1\<lparr>rc_authorPool := p, rc_authors := a\<rparr>"
  define c3 where "c3 = c2\<lparr>rc_timeStamps := map rv_time ?R\<rparr>"
  have "rc_timeStamps c2 = map rv_time B" using c1 by (simp add: c2_def)
  from time_step [OF this n es small(1), of flags keepOld] have
      t: "(if flags AND HAS_TIME_STAMP \<noteq> 0 then rc_UpdateTimeStamps n m keepOld c2 else Inr c2) = Inr c3" by (simp only: c3_def)
  have "ts_holds (rc_comments c3) (map rv_comment revs)" "comments_fit (text_weight (map rv_comment news) (qm_data m)) (rc_comments c3)"
    using c c1 fit(2) by (simp_all add: c2_def c3_def)
  from comment_step [OF this(1) n m small(3) this(2) small(2), of flags outside keepOld] obtain x V where
      x: "(if flags AND HAS_COMMENT \<noteq> 0 then rc_UpdateComments outside n m keepOld c3 else Inr c3) = Inr (c3\<lparr>rc_comments := x\<rparr>)"
      "ts_holds x V" "if comments_kept flags keepOld news (length revs) k (qm_data m) then V = map rv_comment ?R else length V < length revs + k"
    unfolding B by blast
  have "\<forall>r. holds_changes (c3\<lparr>rc_comments := x\<rparr>) r = holds_changes c1 r \<and> holds_merges (c3\<lparr>rc_comments := x\<rparr>) r = holds_merges c1 r \<and>
      holds_props (c3\<lparr>rc_comments := x\<rparr>) r = holds_props c1 r"
    by (simp add: c3_def c2_def holds_changes_def holds_merges_def holds_props_def)
  moreover have "authors_held (c3\<lparr>rc_comments := x\<rparr>) ?R" using a(2) by (simp add: c3_def c2_def authors_held_def)
  ultimately show ?thesis using a(1) t x
    by (intro exI [of _ c2] exI [of _ c3] exI [of _ "c3\<lparr>rc_comments := x\<rparr>"] exI [of _ V]) (simp add: c3_def c2_def)
qed

text \<open>What an update leaves: everything but comments and values of properties is as it should be.\<close>

definition updated_state :: "revision_info \<Rightarrow> revision list \<Rightarrow> byte list list \<Rightarrow> byte list list \<Rightarrow> bool" where
  "updated_state c R comments vals \<longleftrightarrow> authors_held c R \<and> rc_timeStamps c = map rv_time R \<and> rc_presenceFlags c = map rv_flags R \<and>
     ts_holds (rc_comments c) comments \<and> holds_changes c R \<and> holds_merges c R \<and> holds_names c R \<and>
     ts_holds (rc_userRevPropValues c) vals"

lemma updated_state_holds: "updated_state c R (map rv_comment R) (map snd (all_props R)) \<longleftrightarrow> rc_holds c R"
  by (auto simp: updated_state_def rc_holds_def holds_std_def authors_held_def holds_names_def holds_props_def)

lemma Update_ok:
  assumes h: "rc_holds c revs" "rc_holds n news" and m: "update_map_ok (length revs) k news m"
    and fit: "update_fits c revs k n news m flags keepOld"
  shows "\<exists>c' C V. rc_Update outside n m flags keepOld c = Inr c' \<and> updated_state c' (updated flags keepOld news (qm_data m) (blanks revs k)) C V \<and>
    (if comments_kept flags keepOld news (length revs) k (qm_data m)
     then C = map rv_comment (updated flags keepOld news (qm_data m) (blanks revs k)) else length C < length revs + k) \<and>
    (if values_kept flags keepOld news (qm_data m) (blanks revs k)
     then V = map snd (all_props (updated flags keepOld news (qm_data m) (blanks revs k)))
     else length V < length (all_props (updated flags keepOld news (qm_data m) (blanks revs k))))"
proof -
  let ?B = "blanks revs k" and ?R = "updated flags keepOld news (qm_data m) (blanks revs k)"
  have n: "holds_std n news" "holds_changes n news" "holds_merges n news" "holds_props n news" and c: "ts_holds (rc_comments c) (map rv_comment revs)"
    using h by (simp_all add: rc_holds_def holds_std_def)
  have es: "qm_inv index_conv m" "entries_ok (length ?B) (length news) (qm_data m)" "appends (length revs) k (qm_data m)"
    using m by (simp_all add: update_map_ok_def)
  note f = fit [unfolded update_fits_def]
  have small: "few ?B" "few news" "length ?B < 2 ^ 32" "length (qm_data m) \<le> 119304647" "pools_fit (rc_authorPool n) (rc_authorPool c)"
      "comments_fit (text_weight (map rv_comment news) (qm_data m)) (rc_comments c)" "paths_fit (rc_paths n) (rc_paths c)"
      "total_length (map snd (all_props ?R)) \<le> 119304645"
    using f by (simp_all add: few_def)
  obtain c0 d pm where c0: "rc_AppendNewEntries outside m c = Inr c0"
      "pd_Merge (rc_paths n) (rc_paths c0) = Inr (d, pm)" "maps_paths (rc_paths n) (length (pd_keys (rc_paths n))) d pm"
    and s0: "let c1 = c0\<lparr>rc_paths := d\<rparr> in rc_comments c1 = rc_comments c \<and> rc_paths c1 = d \<and>
      rc_authorPool c1 = rc_authorPool c \<and> rc_userRevPropsPool c1 = rc_userRevPropsPool c \<and> length (rc_authors c1) = length revs + k \<and>
      authors_held c1 ?B \<and> rc_timeStamps c1 = map rv_time ?B \<and> rc_presenceFlags c1 = map rv_flags ?B \<and>
      holds_changes c1 ?B \<and> holds_merges c1 ?B \<and> holds_props c1 ?B"
    using update_start [OF h es(3) small(7), of outside] by blast
  define c1 where "c1 = c0\<lparr>rc_paths := d\<rparr>"
  note s1 = s0 [folded c1_def, unfolded Let_def]
  obtain c2 c3 c4 C where s: "(if flags AND HAS_AUTHOR \<noteq> 0 then rc_UpdateAuthors n m keepOld c1 else Inr c1) = Inr c2"
      "(if flags AND HAS_TIME_STAMP \<noteq> 0 then rc_UpdateTimeStamps n m keepOld c2 else Inr c2) = Inr c3"
      "(if flags AND HAS_COMMENT \<noteq> 0 then rc_UpdateComments outside n m keepOld c3 else Inr c3) = Inr c4"
    and s4: "authors_held c4 ?R" "rc_timeStamps c4 = map rv_time ?R" "ts_holds (rc_comments c4) C"
      "if comments_kept flags keepOld news (length revs) k (qm_data m) then C = map rv_comment ?R else length C < length revs + k"
      "rc_presenceFlags c4 = rc_presenceFlags c1" "rc_paths c4 = rc_paths c1" "rc_userRevPropsPool c4 = rc_userRevPropsPool c1"
      "\<forall>r. holds_changes c4 r = holds_changes c1 r \<and> holds_merges c4 r = holds_merges c1 r \<and> holds_props c4 r = holds_props c1 r"
    using std_steps [OF _ _ _ _ refl c n(1) m small(4-6,1,2), of c1 flags keepOld outside] s1 by blast
  have h4: "holds_changes c4 ?B" "rc_paths c4 = d" "length (rc_authors c4) = length ?B"
    using s1 s4 by (auto simp: authors_held_def dest: list_all2_lengthD)
  obtain c5 where c5: "(if flags AND HAS_CHANGEDPATHS \<noteq> 0 then rc_UpdateChanges n m pm keepOld c4 else Inr c4) = Inr c5"
      "holds_changes c5 ?R" "without_changes c5 = without_changes c4"
    using changes_step [OF h4(1) n(2,1) c0(3) [folded h4(2)] es(1,2) small(1,2) h4(3), of flags keepOld] by blast
  note e5 = changes_frame [OF c5(3), of ?R] changes_frame [OF c5(3), of ?B]
  have s5: "holds_merges c5 ?B" "rc_paths c5 = d" "length (rc_authors c5) = length ?B" using e5 s1 s4 h4 by simp_all
  obtain c6 where c6: "(if flags AND HAS_MERGEINFO \<noteq> 0 then rc_UpdateMergers n m pm keepOld c5 else Inr c5) = Inr c6"
      "holds_merges c6 ?R" "without_merges c6 = without_merges c5"
    using merges_step [OF s5(1) n(3,1) c0(3) [folded s5(2)] es(1,2) small(1,2) s5(3), of flags keepOld] by blast
  note e6 = merges_frame [OF c6(3), of ?R] merges_frame [OF c6(3), of ?B]
  have s6: "holds_props c6 ?B" "pools_fit (rc_userRevPropsPool n) (rc_userRevPropsPool c6)" "length (rc_authors c6) = length ?B"
    using e5 e6 s1 s4 s5(3) f by simp_all
  obtain c7 V where c7: "(if flags AND HAS_USERREVPROPS \<noteq> 0 then rc_UpdateUserRevProps outside n m keepOld c6 else Inr c6) = Inr c7"
      "without_prop_data c7 = without_prop_data c6" "holds_names c7 ?R" "ts_holds (rc_userRevPropValues c7) V"
      "if values_kept flags keepOld news (qm_data m) ?B then V = map snd (all_props ?R) else length V < length (all_props ?R)"
    using props_step [OF s6(1) n(4,1) es(1,2) s6(2) small(1,2,8) s6(3), of outside] by blast
  note e7 = props_frame [OF c7(2), of ?R] props_frame [OF c7(2), of ?B]
  let ?c' = "c7\<lparr>rc_presenceFlags := map rv_flags ?R\<rparr>"
  have "rc_presenceFlags c7 = map rv_flags ?B" using e5 e6 e7 s1 s4 by simp
  then have c8: "rc_UpdatePresenceFlags n m flags keepOld c7 = Inr ?c'" by (rule UpdatePresenceFlags_ok [OF _ n(1) es(2) small(3)])
  have "rc_Update outside n m flags keepOld c = Inr ?c'"
    unfolding rc_Update_def Let_def c0(1,2) bindE.simps case_prod_conv c1_def [symmetric] s c5(1) c6(1) c7(1) c8 by (rule refl)
  moreover have "updated_state ?c' ?R C V"
    using e5 e6 e7 s4 c5(2) c6(2) c7(3,4)
    by (simp add: updated_state_def authors_held_def holds_changes_def holds_merges_def holds_names_def)
  ultimately show ?thesis using s4(4) c7(5) by blast
qed

text \<open>
  C20.  For any two containers that hold lists of revisions and any map of distinct revisions (those behind the end are
  consecutive and new), within the bounds of \<open>update_fits\<close>: the update succeeds, and every revision reads back as
  \<open>merged_revision\<close> of what both containers know about it, new ones as the merge with a blank one, and those that the map
  does not name as they were.  The two conditions that this needs: every new revision gets a comment (\<open>comments_kept\<close>), and no
  revision whose properties are copied comes before one that keeps its own (\<open>values_kept\<close>, unless one of them has none).
\<close>

theorem update_merges_revisions:
  assumes "rc_holds c revs" "rc_holds n news" "update_map_ok (length revs) k news m" "update_fits c revs k n news m flags keepOld"
    and "comments_kept flags keepOld news (length revs) k (qm_data m)" "values_kept flags keepOld news (qm_data m) (blanks revs k)"
  shows "\<exists>c'. rc_Update outside n m flags keepOld c = Inr c' \<and> rc_holds c' (updated flags keepOld news (qm_data m) (blanks revs k)) \<and>
    (rc_small (updated flags keepOld news (qm_data m) (blanks revs k)) \<longrightarrow>
      (\<forall>i < length revs + k. rc_read c' (of_nat i) = Some (updated flags keepOld news (qm_data m) (blanks revs k) ! i)))"
proof -
  let ?R = "updated flags keepOld news (qm_data m) (blanks revs k)"
  obtain c' where "rc_Update outside n m flags keepOld c = Inr c'" "updated_state c' ?R (map rv_comment ?R) (map snd (all_props ?R))"
    using Update_ok [OF assms(1-4), of outside] assms(5,6) by auto
  then show ?thesis using rc_read_ok [of c' ?R] by (auto simp: updated_state_holds)
qed

text \<open>
  An update that copies properties to a revision in front of one that keeps its own succeeds as well,
  but it leaves fewer values than names of properties.
\<close>

lemma update_loses_property_values:
  assumes "rc_holds c revs" "rc_holds n news" "update_map_ok (length revs) k news m" "update_fits c revs k n news m flags keepOld"
    and "\<not> values_kept flags keepOld news (qm_data m) (blanks revs k)"
  shows "\<exists>c' V. rc_Update outside n m flags keepOld c = Inr c' \<and> ts_holds (rc_userRevPropValues c') V \<and>
    length V < length (rc_userRevPropNames c')"
proof -
  let ?R = "updated flags keepOld news (qm_data m) (blanks revs k)"
  obtain c' C V where "rc_Update outside n m flags keepOld c = Inr c'" "updated_state c' ?R C V" "length V < length (all_props ?R)"
    using Update_ok [OF assms(1-4), of outside] assms(5) by auto
  moreover from this have "length (rc_userRevPropNames c') = length (all_props ?R)" "ts_holds (rc_userRevPropValues c') V"
    by (simp_all add: updated_state_def holds_names_def list_all2_conv_all_nth)
  ultimately show ?thesis by auto
qed

text \<open>
  C21.  Whenever an update adds a revision that gets no comment (comments are not updated, or the other container has none
  for it and old data is kept), it succeeds as well, but it leaves fewer comments than revisions: the entries for the new
  comments, inserted as copies of the empty text, do not exist, and later comments move to earlier revisions.
\<close>

theorem update_loses_comments:
  assumes "rc_holds c revs" "rc_holds n news" "update_map_ok (length revs) k news m" "update_fits c revs k n news m flags keepOld"
    and "\<not> comments_kept flags keepOld news (length revs) k (qm_data m)"
  shows "\<exists>c' C. rc_Update outside n m flags keepOld c = Inr c' \<and> ts_holds (rc_comments c') C \<and> length C < length (rc_authors c')"
proof -
  let ?R = "updated flags keepOld news (qm_data m) (blanks revs k)"
  obtain c' C V where "rc_Update outside n m flags keepOld c = Inr c'" "updated_state c' ?R C V" "length C < length revs + k"
    using Update_ok [OF assms(1-4), of outside] assms(5) by auto
  moreover from this have "length (rc_authors c') = length revs + k" "ts_holds (rc_comments c') C"
    by (simp_all add: updated_state_def authors_held_def list_all2_conv_all_nth)
  ultimately show ?thesis by auto
qed

subsection \<open>Two small containers\<close>

text \<open>Revisions by \<open>fix\<close>, with this text as the comment and as the name and value of each property.\<close>

definition small_revision :: "64 word \<Rightarrow> nat \<Rightarrow> byte \<Rightarrow> revision" where
  "small_revision time p flags = \<lparr>rv_author = [102, 105, 120], rv_comment = [102, 105, 120], rv_time = time, rv_flags = flags, rv_changes = [],
     rv_merges = [], rv_props = replicate p ([102, 105, 120], [102, 105, 120])\<rparr>"

definition small_texts :: "string_dictionary \<Rightarrow> nat \<Rightarrow> tokenized_strings" where
  "small_texts w n = \<lparr>ts_words = w, ts_pairs = ipd_init, ts_stringData = replicate n (GetWordToken 1), ts_offsets = map of_nat [0..<n + 1]\<rparr>"

definition small_info :: "string_dictionary \<Rightarrow> path_dictionary \<Rightarrow> revision list \<Rightarrow> revision_info" where
  "small_info w d revs = \<lparr>rc_authorPool = w, rc_paths = d, rc_presenceFlags = map rv_flags revs, rc_comments = small_texts w (length revs),
     rc_authors = map (\<lambda>_. 1) revs, rc_timeStamps = map rv_time revs, rc_rootPaths = map (\<lambda>_. NO_INDEX) revs, rc_sumChanges = map (\<lambda>_. 0) revs,
     rc_changesOffsets = offsets_of (map rv_changes revs), rc_copyFromOffsets = offsets_of (map (\<lambda>r. copies (rv_changes r)) revs),
     rc_mergedRevisionsOffsets = offsets_of (map rv_merges revs), rc_userRevPropOffsets = offsets_of (map rv_props revs),
     rc_changes = [], rc_changedPaths = [], rc_changedPathTypes = [], rc_copyFromPaths = [], rc_copyFromRevisions = [], rc_textModifies = [],
     rc_propsModifies = [], rc_mergedFromPaths = [], rc_mergedToPaths = [], rc_mergedRangeStarts = [], rc_mergedRangeDeltas = [],
     rc_userRevPropsPool = w, rc_userRevPropNames = map (\<lambda>_. 1) (all_props revs), rc_userRevPropValues = small_texts w (length (all_props revs)),
     rc_storedSize = 0\<rparr>"

lemma starts_single: "starts p (replicate n [x]) = [p..<p + n + 1]"
  by (induction n arbitrary: p) (simp_all add: upt_conv_Cons)

lemma small_texts_hold:
  assumes w: "sd_inv w" "sd_strings w = [[], [102, 105, 120]]" "load_ok (sd_hashIndex w)" and n: "n < 2 ^ 32"
  shows "ts_holds (small_texts w n) (replicate n [102, 105, 120])"
proof -
  let ?c = "small_texts w n"
  have tok: "IsDictionaryWord (GetWordToken 1)" "GetWordIndex (GetWordToken 1) = 1" "IsToken (GetWordToken 1)"
    using word_token [of 1] by simp_all
  have e: "expands (sd_strings w) (ipd_data ipd_init) (GetWordToken 1) [102, 105, 120]"
    using expands_word [of "GetWordToken 1" "sd_strings w"] tok w(2) by simp
  have "tokens_ok (ts_words ?c) (ts_pairs ?c)" using w ipd_sound_init by (simp add: tokens_ok_def small_texts_def ipd_init_def)
  moreover have "readable (ts_words ?c) (ts_pairs ?c) (ts_stringData ?c)" using e by (auto simp: readable_def small_texts_def)
  moreover have "concat (replicate n [GetWordToken 1 :: index_t]) = replicate n (GetWordToken 1)" by (induction n) simp_all
  then have "layout ?c [] (replicate n [GetWordToken 1])" using n by (simp add: layout_def small_texts_def starts_single)
  moreover have "list_all2 (tokens_text (ts_words ?c) (ts_pairs ?c)) (replicate n [GetWordToken 1]) (replicate n [102, 105, 120])"
    using e tok by (simp add: tokens_text_def small_texts_def list_all2_conv_all_nth)
  ultimately show ?thesis unfolding ts_holds_def by blast
qed

lemma small_info_holds:
  assumes w: "sd_inv w" "sd_strings w = [[], [102, 105, 120]]" "load_ok (sd_hashIndex w)" and d: "pd_inv d"
    and revs: "\<forall>r \<in> set revs. \<exists>time p flags. r = small_revision time p flags" "length revs < 2 ^ 32" "length (all_props revs) < 2 ^ 32"
  shows "rc_holds (small_info w d revs) revs"
proof -
  let ?c = "small_info w d revs"
  have n: "names w 1 [102, 105, 120]" using w(2) by (simp add: names_def)
  have parts: "rv_author r = [102, 105, 120] \<and> rv_comment r = [102, 105, 120] \<and> rv_changes r = [] \<and> rv_merges r = [] \<and>
      (\<forall>x \<in> set (rv_props r). x = ([102, 105, 120], [102, 105, 120]))" if "r \<in> set revs" for r
    using revs(1) that by (auto simp: small_revision_def)
  have none: "all_changes revs = []" "all_merges revs = []" using parts by (auto simp: all_changes_def all_merges_def)
  have props: "x = ([102, 105, 120], [102, 105, 120])" if "x \<in> set (all_props revs)" for x
    using that parts by (auto simp: all_props_def)
  have "map rv_comment revs = map (\<lambda>_. [102, 105, 120]) revs" by (rule map_cong [OF refl]) (use parts in blast)
  then have c: "map rv_comment revs = replicate (length revs) [102, 105, 120]" by (simp add: map_replicate_const)
  have "map snd (all_props revs) = map (\<lambda>_. [102, 105, 120]) (all_props revs)" by (rule map_cong [OF refl]) (use props in fastforce)
  then have v: "map snd (all_props revs) = replicate (length (all_props revs)) [102, 105, 120]" by (simp add: map_replicate_const)
  have "holds_std ?c revs"
    using w(1) n parts small_texts_hold [OF w revs(2)] unfolding holds_std_def c
    by (simp add: small_info_def list_all2_conv_all_nth)
  moreover have "holds_changes ?c revs" using d none parts
    by (simp add: holds_changes_def small_info_def list_all2_conv_all_nth root_of_def sum_of_def copies_def)
  moreover have "holds_merges ?c revs" using none by (simp add: holds_merges_def small_info_def)
  moreover have "holds_props ?c revs"
    using w(1) small_texts_hold [OF w revs(3)] unfolding holds_props_def v
    by (simp add: small_info_def list_all2_conv_all_nth) (metis fst_conv n nth_mem props)
  ultimately show ?thesis by (simp add: rc_holds_def)
qed

lemma small_setup:
  "\<exists>w d. sd_inv w \<and> sd_strings w = [[], [102, 105, 120]] \<and> load_ok (sd_hashIndex w) \<and> pd_inv d \<and> pools_fit w w \<and> paths_fit d d \<and> words_room 1000 w"
proof -
  obtain w0 where w0: "sd_init = Some w0" "sd_inv w0" "sd_strings w0 = [[]]" "load_ok (sd_hashIndex w0)" using sd_init_ok by blast
  have "sd_room [102, 105, 120] w0" "sd_light w0"
    using sd_room_light [OF w0(2,4), of "[102, 105, 120]"] w0(3,4) by (simp_all add: packed_of_def sd_light_def)
  from sd_Insert_ok [OF w0(2) this(1)] this(2) w0(3) obtain w where w: "sd_inv w" "sd_strings w = [[], [102, 105, 120]]" "load_ok (sd_hashIndex w)"
    by auto
  obtain d where d: "pd_inv d" "pd_keys d = [(NO_INDEX, [])]" "sd_strings (pathElements d) = [[]]" "pd_light d" using pd_init_ok by blast
  have "packedStrings w = packed_of (sd_strings w)" using sd_inv_rep(1) [OF w(1)] by (simp add: sd_packs_def)
  then have "pools_fit w w" "words_room 1000 w" using w by (simp_all add: pools_fit_def words_room_def packed_of_def)
  moreover have "sd_inv (pathElements d)" using d(1) by (simp add: pd_inv_def)
  then have "packedStrings (pathElements d) = packed_of [[]]" using sd_inv_rep(1) d(3) by (auto simp: sd_packs_def)
  then have "paths_fit d d" using d by (simp add: paths_fit_def pools_fit_def pd_light_def packed_of_def)
  ultimately show ?thesis using w d(1) by blast
qed

lemma small_comments_fit: "words_room 1000 w \<Longrightarrow> n \<le> 10 \<Longrightarrow> k \<le> 1000 \<Longrightarrow> comments_fit k (small_texts w n)"
  using words_room_mono [of "1000 - k" k w] by (cases n) (simp_all add: comments_fit_def small_texts_def upt_conv_Cons del: upt_Suc)

lemma small_map: "distinct (map fst es) \<Longrightarrow> length es \<le> 10 \<Longrightarrow> \<exists>m :: index_mapping_t. qm_inv index_conv m \<and> qm_data m = es"
  using filter_mapping_init [of es "\<lambda>_. Some True" "\<lambda>_. True"] by auto

text \<open>The updates of the witnesses: all flags are \<open>0x7E\<close>, those without a comment \<open>0x76\<close>.\<close>

definition is_small :: "revision \<Rightarrow> bool" where
  "is_small r \<longleftrightarrow> length (rv_props r) \<le> 10 \<and> r = small_revision (rv_time r) (length (rv_props r)) (rv_flags r)"

lemma is_smallD: "is_small r \<Longrightarrow> \<exists>time p flags. p \<le> 10 \<and> r = small_revision time p flags"
  unfolding is_small_def by blast

lemma is_small_revision [simp]: "p \<le> 10 \<Longrightarrow> is_small (small_revision time p flags)"
  by (simp add: is_small_def small_revision_def)

lemma small_ok:
  fixes m :: index_mapping_t
  assumes w: "sd_inv w" "sd_strings w = [[], [102, 105, 120]]" "load_ok (sd_hashIndex w)" "pd_inv d" "pools_fit w w" "paths_fit d d" "words_room 1000 w"
    and m: "qm_inv index_conv m" "qm_data m = es"
    and revs: "\<forall>r \<in> set (revs @ news). is_small r" "length revs + k \<le> 3" "length news \<le> 3"
    and es: "length es \<le> 3" "entries_ok (length revs + k) (length news) es" "appends (length revs) k es"
    and up: "total_length (map snd (all_props (updated flags keepOld news es (blanks revs k)))) \<le> 119304645"
  shows "rc_holds (small_info w d revs) revs" "rc_holds (small_info w d news) news" "update_map_ok (length revs) k news m"
    "update_fits (small_info w d revs) revs k (small_info w d news) news m flags keepOld"
proof -
  have props: "length (all_props rs) \<le> 10 * length rs \<and> all_changes rs = [] \<and> all_merges rs = [] \<and> (\<forall>r \<in> set rs. rv_comment r = [102, 105, 120]) \<and>
      (\<forall>x \<in> set (all_props rs). snd x = [102, 105, 120])"
    if "\<forall>r \<in> set rs. \<exists>time p flags. p \<le> 10 \<and> r = small_revision time p flags" for rs
    using that by (induction rs) (auto simp: all_props_def all_changes_def all_merges_def small_revision_def)
  have pr: "\<forall>r \<in> set revs. \<exists>time p flags. p \<le> 10 \<and> r = small_revision time p flags"
    by (rule ballI, rule is_smallD, use revs(1) in simp)
  have pn: "\<forall>r \<in> set news. \<exists>time p flags. p \<le> 10 \<and> r = small_revision time p flags"
    by (rule ballI, rule is_smallD, use revs(1) in simp)
  note P = props [OF pr] props [OF pn]
  have "length revs < 2 ^ 32" "length news < 2 ^ 32" "length (all_props revs) < 2 ^ 32" "length (all_props news) < 2 ^ 32"
    using revs(2,3) P by auto
  then show h: "rc_holds (small_info w d revs) revs" "rc_holds (small_info w d news) news"
    using pr pn by (intro small_info_holds [OF w(1-4)]; blast)+
  show "update_map_ok (length revs) k news m" using m es by (simp add: update_map_ok_def)
  have "\<forall>r \<in> set (blanks revs k). 0 \<notin> set (rv_comment r)" using P(1) by (auto simp: blanks_def blank_def new_revision_def)
  then have "few (blanks revs k)" using P(1) revs(2) by (auto simp: few_def)
  moreover have "few news" using P(2) revs(3) by (auto simp: few_def)
  moreover have "text_weight (map rv_comment news) (qm_data m) \<le> 1000"
  proof -
    have "text_weight (map rv_comment news) xs = 4 * length xs" if "\<forall>(key, v) \<in> set xs. unat v < length news" for xs :: "(index_t \<times> index_t) list"
      using that P(2) by (induction xs) (auto simp: text_weight_def total_length_def)
    moreover have "\<forall>(key, v) \<in> set (qm_data m). unat v < length news" using es(2) m(2) by (auto simp: entries_ok_def)
    ultimately show ?thesis using es(1) m(2) by simp
  qed
  moreover have "length revs \<le> 10" using revs(2) by simp
  ultimately show "update_fits (small_info w d revs) revs k (small_info w d news) news m flags keepOld"
    using w es(1) m(2) up small_comments_fit [OF w(7), of "length revs" "text_weight (map rv_comment news) es"]
    by (simp add: update_fits_def small_info_def)
qed

theorem update_merges_revisions_witness:
  "\<exists>c n m c'. rc_holds c [small_revision 1 1 0x7E] \<and> rc_holds n [small_revision 2 1 0x7E] \<and> qm_data m = [(1, 0)] \<and>
     rc_Update (\<lambda>_. False) n m 0x7E False c = Inr c' \<and>
     rc_read c' 0 = Some (small_revision 1 1 0x7E) \<and> rc_read c' 1 = Some (small_revision 2 1 0x7E)"
proof -
  let ?r = "[small_revision 1 1 0x7E]" and ?n = "[small_revision 2 1 0x7E]"
  obtain w d where w: "sd_inv w" "sd_strings w = [[], [102, 105, 120]]" "load_ok (sd_hashIndex w)" "pd_inv d" "pools_fit w w" "paths_fit d d"
      "words_room 1000 w" using small_setup by blast
  obtain m :: index_mapping_t where m: "qm_inv index_conv m" "qm_data m = [(1, 0)]" using small_map [of "[(1, 0)]"] by auto
  have u: "updated 0x7E False ?n [(1, 0)] (blanks ?r 1) = [small_revision 1 1 0x7E, small_revision 2 1 0x7E]"
    by (simp add: updated_def blanks_def blank_def new_revision_def merged_revision_def small_revision_def upt_rec HAS_AUTHOR_def HAS_COMMENT_def HAS_TIME_STAMP_def
        HAS_CHANGEDPATHS_def HAS_MERGEINFO_def HAS_USERREVPROPS_def)
  have "\<forall>r \<in> set (?r @ ?n). is_small r" by simp
  moreover have "entries_ok (length ?r + 1) (length ?n) [(1, 0)]" "appends (length ?r) 1 [(1, 0)]" by (simp_all add: entries_ok_def appends_def upt_rec)
  moreover have "total_length (map snd (all_props (updated 0x7E False ?n [(1, 0)] (blanks ?r 1)))) \<le> 119304645"
    unfolding u by (simp add: all_props_def small_revision_def total_length_def)
  ultimately have h: "rc_holds (small_info w d ?r) ?r" "rc_holds (small_info w d ?n) ?n" "update_map_ok (length ?r) 1 ?n m"
      "update_fits (small_info w d ?r) ?r 1 (small_info w d ?n) ?n m 0x7E False"
    by (intro small_ok [OF w m]; simp)+
  have k: "comments_kept 0x7E False ?n (length ?r) 1 (qm_data m)" "values_kept 0x7E False ?n (qm_data m) (blanks ?r 1)"
    by (simp_all add: m(2) comments_kept_def new_comments_def HAS_COMMENT_def values_kept_def props_in_order_def copies_props_def nth_Cons' less_Suc_eq)
  from update_merges_revisions [OF h k, of "\<lambda>_. False"] obtain c' where "rc_Update (\<lambda>_. False) (small_info w d ?n) m 0x7E False (small_info w d ?r) = Inr c'"
      "\<forall>i < 2. rc_read c' (of_nat i) = Some ([small_revision 1 1 0x7E, small_revision 2 1 0x7E] ! i)"
    unfolding m(2) u by (auto simp: rc_small_def all_changes_def all_merges_def all_props_def small_revision_def)
  moreover from this(2) have "rc_read c' 0 = Some (small_revision 1 1 0x7E)" "rc_read c' 1 = Some (small_revision 2 1 0x7E)"
    using spec [of _ 0] spec [of _ 1] by (auto simp: numeral_2_eq_2)
  ultimately show ?thesis using h(1,2) m(2) by blast
qed

lemma update_loses_property_values_witness:
  "\<exists>c n m c' V. rc_holds c [small_revision 1 1 0x7E, small_revision 2 1 0x7E] \<and> rc_holds n [small_revision 3 1 0x7E] \<and> qm_data m = [(0, 0)] \<and>
     rc_Update (\<lambda>_. False) n m 0x7E False c = Inr c' \<and> ts_holds (rc_userRevPropValues c') V \<and> length V < length (rc_userRevPropNames c')"
proof -
  let ?r = "[small_revision 1 1 0x7E, small_revision 2 1 0x7E]" and ?n = "[small_revision 3 1 0x7E]"
  obtain w d where w: "sd_inv w" "sd_strings w = [[], [102, 105, 120]]" "load_ok (sd_hashIndex w)" "pd_inv d" "pools_fit w w" "paths_fit d d"
      "words_room 1000 w" using small_setup by blast
  obtain m :: index_mapping_t where m: "qm_inv index_conv m" "qm_data m = [(0, 0)]" using small_map [of "[(0, 0)]"] by auto
  have u: "updated 0x7E False ?n [(0, 0)] (blanks ?r 0) = [small_revision 3 1 0x7E, small_revision 2 1 0x7E]"
    by (simp add: updated_def blanks_def merged_revision_def small_revision_def upt_rec HAS_AUTHOR_def HAS_COMMENT_def HAS_TIME_STAMP_def
        HAS_CHANGEDPATHS_def HAS_MERGEINFO_def HAS_USERREVPROPS_def)
  have "\<forall>r \<in> set (?r @ ?n). is_small r" by simp
  moreover have "entries_ok (length ?r + 0) (length ?n) [(0, 0)]" "appends (length ?r) 0 [(0, 0)]" by (simp_all add: entries_ok_def appends_def)
  moreover have "total_length (map snd (all_props (updated 0x7E False ?n [(0, 0)] (blanks ?r 0)))) \<le> 119304645"
    unfolding u by (simp add: all_props_def small_revision_def total_length_def)
  ultimately have h: "rc_holds (small_info w d ?r) ?r" "rc_holds (small_info w d ?n) ?n" "update_map_ok (length ?r) 0 ?n m"
      "update_fits (small_info w d ?r) ?r 0 (small_info w d ?n) ?n m 0x7E False"
    by (intro small_ok [OF w m]; simp)+
  have "\<not> values_kept 0x7E False ?n (qm_data m) (blanks ?r 0)"
    unfolding values_kept_def m(2) u props_in_order_def
    by (simp add: copies_props_def HAS_USERREVPROPS_def) (intro exI [of _ 0] exI [of _ 1], simp add: small_revision_def upt_rec)
  from update_loses_property_values [OF h this, of "\<lambda>_. False"] show ?thesis using h(1,2) m(2) by blast
qed

theorem update_loses_comments_witness:
  "\<exists>c n m c' C. rc_holds c [small_revision 1 1 0x7E] \<and> rc_holds n [small_revision 2 1 0x76] \<and> qm_data m = [(1, 0)] \<and>
     rc_Update (\<lambda>_. False) n m 0x7E True c = Inr c' \<and> ts_holds (rc_comments c') C \<and> length C < length (rc_authors c')"
proof -
  let ?r = "[small_revision 1 1 0x7E]" and ?n = "[small_revision 2 1 0x76]"
  obtain w d where w: "sd_inv w" "sd_strings w = [[], [102, 105, 120]]" "load_ok (sd_hashIndex w)" "pd_inv d" "pools_fit w w" "paths_fit d d"
      "words_room 1000 w" using small_setup by blast
  obtain m :: index_mapping_t where m: "qm_inv index_conv m" "qm_data m = [(1, 0)]" using small_map [of "[(1, 0)]"] by auto
  have u: "map rv_props (updated 0x7E True ?n [(1, 0)] (blanks ?r 1)) = map rv_props [small_revision 1 1 0x7E, small_revision 2 1 0x76]"
    by (simp add: updated_def blanks_def blank_def new_revision_def merged_revision_def small_revision_def upt_rec HAS_AUTHOR_def HAS_COMMENT_def
        HAS_TIME_STAMP_def HAS_CHANGEDPATHS_def HAS_MERGEINFO_def HAS_USERREVPROPS_def)
  have "\<forall>r \<in> set (?r @ ?n). is_small r" by simp
  moreover have "entries_ok (length ?r + 1) (length ?n) [(1, 0)]" "appends (length ?r) 1 [(1, 0)]" by (simp_all add: entries_ok_def appends_def upt_rec)
  moreover have "total_length (map snd (all_props (updated 0x7E True ?n [(1, 0)] (blanks ?r 1)))) \<le> 119304645"
    unfolding all_props_def u by (simp add: small_revision_def total_length_def)
  ultimately have h: "rc_holds (small_info w d ?r) ?r" "rc_holds (small_info w d ?n) ?n" "update_map_ok (length ?r) 1 ?n m"
      "update_fits (small_info w d ?r) ?r 1 (small_info w d ?n) ?n m 0x7E True"
    by (intro small_ok [OF w m]; simp)+
  have "\<not> comments_kept 0x7E True ?n (length ?r) 1 (qm_data m)"
    by (simp add: m(2) comments_kept_def new_comments_def HAS_COMMENT_def small_revision_def)
  from update_loses_comments [OF h this, of "\<lambda>_. False"] show ?thesis using h(1,2) m(2) by blast
qed

end
