(* ===== verification/CacheFileSafety.thy ===== *)
theory CacheFileSafety
  imports CacheFileReader
begin

section \<open>Reading any file\<close>

text \<open>
  What the reader guarantees for files that were not written by this program or are damaged, and what it
  does not.
\<close>

lemma GetDWORD_range: "GetDWORD B n = Inr v \<Longrightarrow> n + 4 \<le> length B"
  by (simp add: GetDWORD_def split: if_splits)

lemma stream_starts_ranges:
  "stream_starts B n off l = Inr starts \<Longrightarrow>
     sorted (l # starts) \<and> length starts = n \<and> last (l # starts) \<le> l + n * 2 ^ 32 \<and> (0 < n \<longrightarrow> unat off + 4 \<le> length B)"
proof (induction n arbitrary: off l starts)
  case (Suc n)
  obtain v starts' where v: "GetDWORD B (unat off) = Inr v" "stream_starts B n (off + 4) (l + unat v) = Inr starts'"
      "starts = (l + unat v) # starts'"
    using Suc.prems by (auto simp: Let_def)
  have b: "unat v < 2 ^ 32" using unat_bound [of v] by simp
  from Suc.IH [OF v(2)] have i: "sorted ((l + unat v) # starts')" "length starts' = n"
      "last ((l + unat v) # starts') \<le> (l + unat v) + n * 2 ^ 32" by simp_all
  have "last (l # starts) \<le> l + Suc n * 2 ^ 32" unfolding v(3) last.simps(1) using i(3) b by simp
  moreover have "sorted (l # starts)" using i(1) unfolding v(3) by auto
  ultimately show ?case using GetDWORD_range [OF v(1)] i(2) v(3) by simp
qed simp

lemma ReadStreamOffsets_ranges:
  assumes r: "ReadStreamOffsets file = Inr f" and n: "length file < 2 ^ 33"
  shows "cfi_buffer f = file \<and> sorted (streamContents f) \<and> hd (streamContents f) = 8 \<and>
    last (streamContents f) + 4 \<le> length file \<and> streamContents f \<noteq> [] \<and> length (streamContents f) \<le> 2 ^ 31"
proof -
  define size where "size = (of_nat (length file) :: size_t)"
  have us: "unat size = length file" unfolding size_def using n by (simp add: unat_of_nat_small)
  obtain count starts where c: "\<not> size < 3 * 4" "GetDWORD file (unat (size - 4)) = Inr count"
      "\<not> size < ucast (3 + count) * 4"
      "stream_starts file (unat count) (size - ucast (count + 1) * 4) 8 = Inr starts"
      "(of_nat (last (8 # starts)) :: size_t) = size - ucast (count + 1) * 4"
      "f = \<lparr>cfi_buffer = file, streamContents = 8 # starts\<rparr>"
    using r unfolding ReadStreamOffsets_def Let_def size_def [symmetric] by (auto split: if_splits)
  let ?e = "size - ucast (count + 1) * 4"
  from stream_starts_ranges [OF c(4)] have s: "sorted (8 # starts)" "length starts = unat count"
      "last (8 # starts) \<le> 8 + unat count * 2 ^ 32" "0 < unat count \<Longrightarrow> unat ?e + 4 \<le> length file" by simp_all
  have lt: "unat count < 2 ^ 32" using unat_bound [of count] by simp
  have k: "unat count < 2 ^ 31"
  proof (rule ccontr)
    assume big: "\<not> unat count < 2 ^ 31"
    then have e: "unat ?e + 4 \<le> length file" using s(4) by simp
    show False
    proof (cases "count = - 1")
      case True
      then show False using e us by simp
    next
      case False
      then have "unat count + 1 < 2 ^ 32" using lt
        by (cases "unat count = 2 ^ 32 - 1") (auto simp: word_unat_eq_iff unsigned_minus_1_eq_mask mask_eq_exp_minus_1)
      then have "unat (ucast (count + 1) * 4 :: size_t) = (unat count + 1) * 4"
        by (simp add: unat_word_ariths unsigned_ucast_eq take_bit_nat_eq_self)
      then have "unat ?e = 2 ^ 64 + length file - (unat count + 1) * 4" using us n big lt
        by (simp add: unat_sub_if_size word_size word_le_nat_alt)
      then show False using e n lt by simp
    qed
  qed
  have u: "unat (ucast (3 + count) * 4 :: size_t) = (3 + unat count) * 4" "unat (ucast (count + 1) * 4 :: size_t) = (unat count + 1) * 4"
    using k by (simp_all add: unat_word_ariths unsigned_ucast_eq take_bit_nat_eq_self)
  have e: "unat ?e = length file - (unat count + 1) * 4" "(3 + unat count) * 4 \<le> length file"
    using c(3) us u by (simp_all add: word_less_nat_alt unat_sub word_le_nat_alt)
  have "last (8 # starts) < 2 ^ 64" using s(3) k by simp
  then have "last (8 # starts) = unat ?e" using c(5) unat_of_nat_small [of "last (8 # starts)", where 'i = 64] by simp
  then show ?thesis using e s(1,2) k c(6) by simp
qed

definition ranges_ok :: "cache_file_in \<Rightarrow> bool" where
  "ranges_ok f \<longleftrightarrow> sorted (streamContents f) \<and> hd (streamContents f) = 8 \<and> last (streamContents f) + 4 \<le> length (cfi_buffer f) \<and>
     streamContents f \<noteq> [] \<and> length (streamContents f) \<le> 2 ^ 31"

lemma unat_scast_small: "unat (scast (i :: dword) :: size_t) < 2 ^ 31 \<Longrightarrow> unat (scast i :: size_t) = unat i"
proof -
  assume s: "unat (scast i :: size_t) < 2 ^ 31"
  have "i = ucast (scast i :: size_t)" by (rule bit_word_eqI) (simp add: bit_simps)
  then have "unat i = unat (ucast (scast i :: size_t) :: dword)" by (rule arg_cong)
  also have "\<dots> = unat (scast i :: size_t) mod 2 ^ 32" by (simp add: unsigned_ucast_eq take_bit_eq_mod)
  finally show ?thesis using s by simp
qed

lemma GetStreamBuffer_range:
  assumes f: "ranges_ok f" and g: "GetStreamBuffer f index = Inr (first, final)"
  shows "8 \<le> first \<and> first \<le> final \<and> final + 4 \<le> length (cfi_buffer f)"
proof -
  let ?xs = "streamContents f"
  have n: "unat (of_nat (length ?xs) - 1 :: size_t) = length ?xs - 1"
  proof -
    have "length ?xs < 2 ^ 64" "1 \<le> length ?xs" using f by (cases ?xs; simp add: ranges_ok_def)+
    then show ?thesis by (subst unat_sub) (simp_all add: word_le_nat_alt unat_of_nat_small)
  qed
  have lt: "unat (scast index :: size_t) < length ?xs - 1" and r: "first = ?xs ! unat index" "final = ?xs ! (unat index + 1)"
    using g n by (auto simp: GetStreamBuffer_def word_le_nat_alt split: if_splits)
  have "length ?xs \<le> 2 ^ 31" using f by (simp add: ranges_ok_def)
  then have "unat (scast index :: size_t) < 2 ^ 31" using lt by linarith
  then have i: "unat index + 1 < length ?xs" using lt unat_scast_small [of index] by linarith
  have "first \<le> final" unfolding r using f i by (intro sorted_nth_mono) (simp_all add: ranges_ok_def)
  moreover have "?xs ! 0 \<le> first" unfolding r using f i by (intro sorted_nth_mono) (simp_all add: ranges_ok_def)
  moreover have "final \<le> ?xs ! (length ?xs - 1)" unfolding r using f i by (intro sorted_nth_mono) (simp_all add: ranges_ok_def)
  ultimately show ?thesis using f i by (auto simp: ranges_ok_def hd_conv_nth last_conv_nth)
qed

lemma read_directory_range:
  "ranges_ok f \<Longrightarrow> read_directory f index = Inr (first, final, count, sz) \<Longrightarrow>
   8 \<le> first \<and> first + sz \<le> final \<and> final + 4 \<le> length (cfi_buffer f)"
  using GetStreamBuffer_range [of f index]
  by (auto simp: read_directory_def Let_def split: if_splits)

text \<open>
  A stream object is well-formed: its data lies in the file, its sub-streams have distinct ids, known types,
  and are well-formed.
\<close>

fun stream_ok :: "nat \<Rightarrow> in_stream \<Rightarrow> bool" where
  "stream_ok n (InStream t first final decoded subs) \<longleftrightarrow> 8 \<le> first \<and> first \<le> final \<and> final + 4 \<le> n \<and>
     distinct (map fst subs) \<and> (\<forall>s \<in> set subs. is_type (snd s) \<in> set stream_types \<and> stream_ok n (snd s))"

definition subs_ok :: "nat \<Rightarrow> (dword \<times> in_stream) list \<Rightarrow> bool" where
  "subs_ok n subs \<longleftrightarrow> distinct (map fst subs) \<and> (\<forall>s \<in> set subs. is_type (snd s) \<in> set stream_types \<and> stream_ok n (snd s))"

lemma subs_ok_emplace: "subs_ok n subs \<Longrightarrow> is_type s \<in> set stream_types \<Longrightarrow> stream_ok n s \<Longrightarrow> subs_ok n (emplace i s subs)"
  by (auto simp: subs_ok_def emplace_def)

lemma read_subs_wf:
  assumes f: "ranges_ok f" and r: "read_subs f source n acc = Some (Inr subs)" and acc: "subs_ok (length (cfi_buffer f)) acc"
  shows "subs_ok (length (cfi_buffer f)) subs"
proof -
  let ?n = "length (cfi_buffer f)"
  have "\<forall>subs. f' = f \<longrightarrow> r = Inr subs \<longrightarrow> subs_ok ?n acc \<longrightarrow> subs_ok ?n subs" if "read_subs f' source n acc = Some r" for f' source n acc r
    using that
  proof (rule read_subs.raw_induct [where P = "\<lambda>f' source n acc r. \<forall>subs. f' = f \<longrightarrow> r = Inr subs \<longrightarrow> subs_ok ?n acc \<longrightarrow> subs_ok ?n subs", rotated])
    fix rec :: "cache_file_in \<Rightarrow> nat \<Rightarrow> nat \<Rightarrow> (dword \<times> in_stream) list \<Rightarrow> (stream_error + (dword \<times> in_stream) list) option" and f' source n acc r
    assume IH: "\<And>f' source n acc r. rec f' source n acc = Some r \<Longrightarrow> \<forall>subs. f' = f \<longrightarrow> r = Inr subs \<longrightarrow> subs_ok ?n acc \<longrightarrow> subs_ok ?n subs"
      and step: "(if n = 0 then Some (Inr acc)
      else case bindE (read_entry f' source) (\<lambda>(index, subStreamID, type).
             map_sum id (\<lambda>d. (subStreamID, type, d)) (read_directory f' index)) of
        Inl e \<Rightarrow> Some (Inl e)
      | Inr (subStreamID, type, first, final, count, directorySize) \<Rightarrow>
          Option.bind (rec f' (first + 4) (unat count) []) (\<lambda>r. case r of
            Inl e \<Rightarrow> Some (Inl e)
          | Inr subs \<Rightarrow>
              rec f' (source + 12) (n - 1)
                (emplace subStreamID (InStream type (first + directorySize) final None subs) acc))) = Some r"
    show "\<forall>subs. f' = f \<longrightarrow> r = Inr subs \<longrightarrow> subs_ok ?n acc \<longrightarrow> subs_ok ?n subs"
    proof (intro allI impI)
      fix subs assume a: "f' = f" "r = Inr subs" "subs_ok ?n acc"
      show "subs_ok ?n subs"
      proof (cases "n = 0")
        case False
        with step a obtain index i t first final count sz subs1 where
            e: "read_entry f source = Inr (index, i, t)" "read_directory f index = Inr (first, final, count, sz)"
              "rec f (first + 4) (unat count) [] = Some (Inr subs1)"
              "rec f (source + 12) (n - 1) (emplace i (InStream t (first + sz) final None subs1) acc) = Some (Inr subs)"
          by (cases "read_entry f source"; cases "read_directory f (fst (projr (read_entry f source)))")
            (auto split: sum.splits bind_splits)
        have "subs_ok ?n subs1" using IH [OF e(3)] by (simp add: subs_ok_def)
        then have "stream_ok ?n (InStream t (first + sz) final None subs1)"
          using read_directory_range [OF f e(2)] by (auto simp: subs_ok_def)
        moreover have "t \<in> set stream_types" using e(1) by (auto simp: read_entry_def GetFactory_def split: if_splits)
        ultimately have "subs_ok ?n (emplace i (InStream t (first + sz) final None subs1) acc)"
          using a(3) by (intro subs_ok_emplace) simp_all
        then show ?thesis using IH [OF e(4)] by simp
      qed (use step a in simp)
    qed
  qed
  then show ?thesis using r acc by blast
qed

lemma map_sum_Inr_iff: "map_sum g h z = Inr y \<longleftrightarrow> (\<exists>x. z = Inr x \<and> y = h x)"
  by (cases z) auto

lemma DecodeThisStream_shape:
  "DecodeThisStream f s = Some (Inr s') \<Longrightarrow> \<exists>d. s' = InStream (is_type s) (is_first s) (is_last s) (Some d) (is_subStreams s)"
  by (auto simp: DecodeThisStream_def map_sum_Inr_iff split: sum.splits)

text \<open>
  C7.  Whatever file is opened, each stream object made for it is well-formed: its data lies inside the mapped
  file, behind the version numbers and before the stream count, its sub-streams have distinct ids and known types, and are
  well-formed in turn.  The files are those below 8 GiB; above, the sum of the sizes can overflow.
\<close>

theorem stream_objects_well_formed:
  assumes small: "length file < 2 ^ 33" and root: "CRootInStream file = Some (Inr (f, s))"
  shows "cfi_buffer f = file \<and> stream_ok (length file) s"
proof -
  obtain s0 where r: "ReadStreamOffsets file = Inr f" "ReadSubStreams ROOT_STREAM_TYPE_ID f (GetLastStream f) = Some (Inr s0)"
      "DecodeThisStream f s0 = Some (Inr s)"
    using root by (auto simp: CRootInStream_def map_sum_Inr_iff split: sum.splits bind_splits)
  have b: "cfi_buffer f = file" and f: "ranges_ok f" using ReadStreamOffsets_ranges [OF r(1) small] by (simp_all add: ranges_ok_def)
  obtain first final count sz subs where d: "read_directory f (GetLastStream f) = Inr (first, final, count, sz)"
      "read_subs f (first + 4) (unat count) [] = Some (Inr subs)" "s0 = InStream ROOT_STREAM_TYPE_ID (first + sz) final None subs"
    using r(2) by (auto simp: ReadSubStreams_def map_sum_Inr_iff split: sum.splits prod.splits)
  have "subs_ok (length file) subs" using read_subs_wf [OF f d(2)] b by (simp add: subs_ok_def)
  then have "stream_ok (length file) s0" using read_directory_range [OF f d(1)] b d(3) by (auto simp: subs_ok_def)
  then show ?thesis using DecodeThisStream_shape [OF r(3)] d(3) b by auto
qed

text \<open>A file with one empty binary stream.\<close>

definition small_file :: "byte list list" where
  "small_file = [dword_bytes 0 @ dword_bytes 0, dword_bytes 1 @ directory_bytes [0] [Doc 1 BINARY_STREAM_TYPE_ID [] []] @ dword_bytes 0]"

theorem stream_objects_well_formed_witness:
  "\<exists>s. CRootInStream (file_of small_file) = Some (Inr (in_file small_file, s)) \<and> stream_ok 48 s \<and> length (file_of small_file) = 48"
proof -
  have l: "length (file_of small_file) = 48" by (simp add: length_file_of small_file_def directory_bytes_def)
  have c: "coded [] []" by (simp add: coded_def)
  have leaf: "stored small_file 0 (Doc 1 BINARY_STREAM_TYPE_ID [] [])"
    by (rule stored_Doc [where cs = "[]" and es = "[]" and ixs = "[]"]) (simp_all add: c small_file_def directory_bytes_def)
  have root: "stored small_file 1 (Doc 0 ROOT_STREAM_TYPE_ID [] [Doc 1 BINARY_STREAM_TYPE_ID [] []])"
    by (rule stored_Doc [where cs = "[]" and es = "[]" and ixs = "[0]"]) (use leaf in \<open>simp_all add: c\<close>, simp_all add: small_file_def)
  have "file_small small_file" by (simp add: file_small_def small_file_def directory_bytes_def)
  moreover have "docs_ok [Doc 1 BINARY_STREAM_TYPE_ID [] []]"
    by (simp add: docs_ok_def stream_types_def BINARY_STREAM_TYPE_ID_def)
  ultimately obtain s where "CRootInStream (file_of small_file) = Some (Inr (in_file small_file, s))"
    using CRootInStream_ok [of small_file _ 1] root by (auto simp: small_file_def)
  then show ?thesis using stream_objects_well_formed [of "file_of small_file" "in_file small_file" s] l by auto
qed

text \<open>A file whose only stream names itself as its sub-stream.\<close>

definition endless_file :: "byte list list" where
  "endless_file = [dword_bytes 1 @ dword_bytes 0 @ dword_bytes 5 @ dword_bytes COMPOSITE_STREAM_TYPE_ID]"

lemma endless_directory: "read_directory (in_file endless_file) 0 = Inr (8, 24, 1, 8)"
proof -
  have "file_small endless_file" by (simp add: file_small_def endless_file_def)
  then have "GetStreamBuffer (in_file endless_file) 0 = Inr (8, 24)" using GetStreamBuffer_ok [of endless_file 0]
    by (simp add: endless_file_def start_of_def)
  moreover have "GetDWORD (file_of endless_file) 8 = Inr 1"
    by (rule GetDWORD_at [of _ "file_header"]) (simp_all add: file_of_def endless_file_def)
  ultimately show ?thesis by (simp add: read_directory_def in_file_def)
qed

lemma endless_entry: "read_entry (in_file endless_file) 12 = Inr (0, 5, COMPOSITE_STREAM_TYPE_ID)"
  using read_entry_ok [of endless_file "file_header @ dword_bytes 1" 0 "Doc 5 COMPOSITE_STREAM_TYPE_ID [] []"]
  by (simp add: file_of_def endless_file_def stream_types_def)

lemma endless_subs: "read_subs (in_file endless_file) 12 1 [] = None"
proof -
  let ?f = "in_file endless_file"
  have "f = ?f \<longrightarrow> source = 12 \<longrightarrow> n = 1 \<longrightarrow> acc = [] \<longrightarrow> False" if "read_subs f source n acc = Some r" for f source n acc r
    using that
  proof (rule read_subs.raw_induct [where P = "\<lambda>f source n acc r. f = ?f \<longrightarrow> source = 12 \<longrightarrow> n = 1 \<longrightarrow> acc = [] \<longrightarrow> False", rotated], goal_cases)
    case (1 rec f source n acc r)
    show ?case
    proof (intro impI)
      assume "f = ?f" "source = 12" "n = 1" "acc = []"
      then obtain x where "rec ?f 12 1 [] = Some x" using 1(2) endless_entry endless_directory by (auto split: bind_splits)
      then show False using 1(1) by blast
    qed
  qed
  then show ?thesis by (cases "read_subs ?f 12 1 []") blast+
qed

text \<open>
  C9.  A file whose stream names itself as a sub-stream passes all checks, and the reader never returns: the
  constructors of the streams call each other without end.
\<close>

theorem nested_streams_may_not_end:
  "ReadStreamOffsets (file_of endless_file) = Inr (in_file endless_file) \<and> CRootInStream (file_of endless_file) = None"
proof -
  have o: "ReadStreamOffsets (file_of endless_file) = Inr (in_file endless_file)"
    by (rule ReadStreamOffsets_ok) (simp add: file_small_def endless_file_def)
  have "GetLastStream (in_file endless_file) = 0" by (simp add: GetLastStream_def in_file_def endless_file_def)
  then show ?thesis using o endless_directory endless_subs by (simp add: CRootInStream_def ReadSubStreams_def)
qed

text \<open>
  A file whose root claims seven sub-streams in the space of seven numbers; each entry takes three.
\<close>

definition dwords :: "dword list \<Rightarrow> byte list" where
  "dwords ws = concat (map dword_bytes ws)"

lemma length_dwords: "length (dwords ws) = 4 * length ws"
  by (induction ws) (simp_all add: dwords_def)

lemma GetDWORD_dwords:
  assumes "k < length ws"
  shows "GetDWORD (dwords ws) (4 * k) = Inr (ws ! k)"
proof (rule GetDWORD_at)
  have "dwords (take k ws @ ws ! k # drop (Suc k) ws) = dwords (take k ws) @ dword_bytes (ws ! k) @ dwords (drop (Suc k) ws)"
    by (simp add: dwords_def)
  then show "dwords ws = dwords (take k ws) @ dword_bytes (ws ! k) @ dwords (drop (Suc k) ws)"
    using id_take_nth_drop [OF assms] by simp
  show "4 * k = length (dwords (take k ws))" using assms by (simp add: length_dwords)
qed

definition overlong_list :: "byte list list" where
  "overlong_list = [dwords [0], dwords [7, 0, 1, 0x10, 0, 2, 0x10, 0]]"

lemma overlong_file: "file_of overlong_list =
    dwords [OUR_LOG_CACHE_FILE_VERSION, MIN_LOG_CACHE_FILE_VERSION, 0, 7, 0, 1, 0x10, 0, 2, 0x10, 0, 4, 0x20, 2]"
  by (simp add: file_of_def file_header_def overlong_list_def dwords_def)

lemma overlong_dwords:
  "GetDWORD (file_of overlong_list) 8 = Inr 0" "GetDWORD (file_of overlong_list) 12 = Inr 7"
  "GetDWORD (file_of overlong_list) 16 = Inr 0" "GetDWORD (file_of overlong_list) 20 = Inr 1" "GetDWORD (file_of overlong_list) 24 = Inr 0x10"
  "GetDWORD (file_of overlong_list) 28 = Inr 0" "GetDWORD (file_of overlong_list) 32 = Inr 2" "GetDWORD (file_of overlong_list) 36 = Inr 0x10"
  "GetDWORD (file_of overlong_list) 40 = Inr 0" "GetDWORD (file_of overlong_list) 44 = Inr 4" "GetDWORD (file_of overlong_list) 48 = Inr 0x20"
  "GetDWORD (file_of overlong_list) 52 = Inr 2"
  using GetDWORD_dwords [of 2] GetDWORD_dwords [of 3] GetDWORD_dwords [of 4] GetDWORD_dwords [of 5] GetDWORD_dwords [of 6]
    GetDWORD_dwords [of 7] GetDWORD_dwords [of 8] GetDWORD_dwords [of 9] GetDWORD_dwords [of 10] GetDWORD_dwords [of 11]
    GetDWORD_dwords [of 12] GetDWORD_dwords [of 13]
  unfolding overlong_file by simp_all

lemma overlong_end: "GetDWORD (file_of overlong_list) 56 = Inl UndefinedRead"
  unfolding overlong_file by (simp add: GetDWORD_def length_dwords)

text \<open>
  C8.  The check of the sub-stream list asks for one number per sub-stream where three are read: for a list that
  passes it, the loop reads behind the stream, and here behind the end of the mapped file.
\<close>

theorem sub_stream_list_check_too_weak:
  "ReadStreamOffsets (file_of overlong_list) = Inr (in_file overlong_list) \<and>
   read_directory (in_file overlong_list) 1 = Inr (12, 44, 7, 32) \<and>
   CRootInStream (file_of overlong_list) = Some (Inl UndefinedRead)"
proof -
  let ?f = "in_file overlong_list"
  have small: "file_small overlong_list" by (simp add: file_small_def overlong_list_def length_dwords)
  have o: "ReadStreamOffsets (file_of overlong_list) = Inr ?f" by (rule ReadStreamOffsets_ok [OF small])
  have b: "GetStreamBuffer ?f 0 = Inr (8, 12)" "GetStreamBuffer ?f 1 = Inr (12, 44)"
    using GetStreamBuffer_ok [OF small, of 0] GetStreamBuffer_ok [OF small, of 1]
    by (simp_all add: overlong_list_def start_of_def length_dwords)
  have f: "cfi_buffer ?f = file_of overlong_list" by (simp add: in_file_def)
  have d: "read_directory ?f 0 = Inr (8, 12, 0, 4)" "read_directory ?f 1 = Inr (12, 44, 7, 32)"
    using b overlong_dwords(1,2) by (simp_all add: read_directory_def f)
  have e: "read_entry ?f 16 = Inr (0, 1, 0x10)" "read_entry ?f 28 = Inr (0, 2, 0x10)" "read_entry ?f 40 = Inr (0, 4, 0x20)"
      "read_entry ?f 52 = Inl UndefinedRead"
    using overlong_dwords overlong_end
    by (simp_all add: read_entry_def f GetFactory_def stream_types_def COMPOSITE_STREAM_TYPE_ID_def BLOB_STREAM_TYPE_ID_def)
  have z: "read_subs ?f k 0 acc = Some (Inr acc)" for k acc by (subst read_subs.simps) simp
  have "read_subs ?f 52 4 acc = Some (Inl UndefinedRead)" for acc by (subst read_subs.simps) (simp add: e)
  then have "read_subs ?f 40 5 acc = Some (Inl UndefinedRead)" for acc by (subst read_subs.simps) (simp add: e d z)
  then have "read_subs ?f 28 6 acc = Some (Inl UndefinedRead)" for acc by (subst read_subs.simps) (simp add: e d z)
  then have "read_subs ?f 16 7 [] = Some (Inl UndefinedRead)" by (subst read_subs.simps) (simp add: e d z)
  moreover have "GetLastStream ?f = 1" by (simp add: GetLastStream_def in_file_def overlong_list_def)
  ultimately show ?thesis using o d by (simp add: CRootInStream_def ReadSubStreams_def)
qed

end
