(* ===== verification/Spec2Isabelle.thy ===== *)
theory Spec2Isabelle
  imports DictionaryBasedTempPath RevisionInfoStreams RevisionInfoUpdateEffect CacheFileSafety
begin

text \<open>
  TortoiseSVN's log cache.

  The program keeps what it has learned about the history of a repository in a cache file, and answers
  log requests from it.  This development models the data structures of that cache
  (src/src/LogCache/Containers), the byte streams that store them (src/src/LogCache/Streams) and the hash
  tables that both are built on (src/src/Utils/QuickHash*.h): the part of the program that has a contract
  of its own and does not only forward to Windows or to the Subversion library.

  \<^bold>\<open>How the parts interact.\<close>  A pool stores unique values and gives each an index that never changes; its
  values lie in a vector and a \<open>quick_hash\<close> over that vector finds them.  \<open>CStringDictionary\<close> is the pool of
  strings, \<open>CIndexPairDictionary\<close> the pool of pairs of indexes, \<open>CPathDictionary\<close> combines both to a tree of
  paths, and \<open>CTokenizedStringContainer\<close> combines both to compressed texts.  \<open>CRevisionInfoContainer\<close> holds
  the revisions in parallel vectors that refer to such pools by index; \<open>CRevisionIndex\<close> maps revision
  numbers to positions in it and \<open>CSkipRevisionInfo\<close> knows, for each path, the ranges of revisions that hold
  nothing for it.  All of them are written to and read from value streams, whose bytes are compressed with
  a Huffman coder.

  \<^bold>\<open>Theories and sources.\<close>  Definitions have the names of the functions they model, with a prefix where a
  class needs one; record fields are the members.
  \<^item> \<open>Prelude\<close>: \<open>NO_INDEX\<close> and \<open>NO_REVISION\<close> (LogCacheGlobals.h), the exception of the containers, words.
  \<^item> \<open>QuickHash\<close> (QuickHash.h), prefix qh: the prime capacities and growth, probing, \<open>insert\<close>, the batch
    insertion in its two forms, \<open>find\<close>, \<open>reserve\<close>, \<open>clear\<close>.  The locale \<open>hash_container\<close> is the interface of a vector
    with a hash index over it; \<open>IndexPairDictionary\<close>, \<open>StringDictionary\<close>, \<open>QuickHashMap\<close> and \<open>SkipRevisionInfo\<close>
    interpret it.
  \<^item> \<open>QuickHashMap\<close> (QuickHashMap.h, QuickHashSet.h), prefixes qm and qs.
  \<^item> \<open>IndexPool\<close>: the locale \<open>index_pool\<close>, the contract of the pools, with the lemmas about sequences of
    insertions; interpreted by the string, pair and path pools.
  \<^item> \<open>IndexPairDictionary\<close>, prefix ipd; \<open>StringDictionary\<close>, prefix sd (StringDictonary.cpp); \<open>PathDictionary\<close>, prefixes
    pd and dbp (both classes of PathDictionary.cpp); \<open>DictionaryBasedTempPath\<close>, prefix tp.
  \<^item> \<open>TokenizedStrings\<close>, \<open>TokenizedStringsPacker\<close>, \<open>TokenizedStringsBatch\<close>, prefix ts (TokenizedStringContainer.cpp):
    access and single modifications; the inner class CPairPacker; replacement, unification, statistics.
  \<^item> \<open>RevisionIndex\<close>, prefix ri; \<open>SkipRevisionInfo\<close>, prefix sri.
  \<^item> \<open>RevisionInfo\<close>, \<open>RevisionInfoFill\<close>, \<open>RevisionInfoOptimize\<close>, \<open>RevisionInfoUpdate\<close>, \<open>RevisionInfoUpdateEffect\<close>, prefix rc
    (RevisionInfoContainer.cpp): the state and the operations; what the vectors stand for and how filling them acts;
    sorting, derived data and the check of data that was read; the update from another container and its effect.
  \<^item> \<open>PackedStreams\<close>: CBinary*Stream, CPackedDWORD*Stream, CPackedInteger*Stream, CDiff*Stream,
    CPackedTime64*Stream, with the locales \<open>value_stream\<close> and \<open>sized_stream\<close> for a pair of writer and reader.
  \<^item> \<open>HuffmanEncoder\<close>, \<open>HuffmanDecoder\<close> (HuffmanBase.*, HuffmanEncoder.*, HuffmanDecoder.*).
  \<^item> \<open>CacheFile\<close>: the cache file (CBufferedOutFile, CCacheFileOutBuffer, CCacheFileInBuffer), the hierarchical streams
    (CHierachicalOutStreamBase, CHierachicalInStreamBase, CStreamFactoryPool, the root, composite and BLOB streams)
    and a client that saves and loads a tree of streams; \<open>CacheFileWriter\<close> and \<open>CacheFileReader\<close>: what the
    writer leaves in the file and what the reader finds; \<open>CacheFileSafety\<close>: reading files of any content.
  \<^item> \<open>ContainerStreams\<close>, \<open>SkipRevisionStreams\<close>, \<open>RevisionInfoStreams\<close>: the stream operators of the containers; each writes the
    documents of a tree of streams and reads them back, and the lemmas lead through the file of \<open>CacheFile\<close>.

  \<^bold>\<open>What the lemmas show.\<close>  Each container has an invariant and an abstraction: a pool is the list of its
  values (\<open>sd_strings\<close>, \<open>ipd_data\<close>, \<open>pd_keys\<close>), a path index the list of its elements (\<open>path_at\<close>), a text container
  the list of its texts (\<open>ts_holds\<close>), the revision container the list of its revisions (\<open>rc_holds\<close>), the skip
  ranges a set of revisions per path.  The functional lemmas show what each operation does to the
  abstraction and that it returns; the properties are numbered in their own text blocks.  A stream is
  shown to give back the values that were written, the coder to invert itself.  Where the code does not
  do what it promises, the property states what it does instead.

  \<^bold>\<open>Conventions.\<close>  Integers keep their width (\<open>index_t\<close> and \<open>revision_t\<close> are 32 bit words, \<open>size_t\<close> 64 bit); the model is
  the 64 bit build.  An exception is \<open>Inl\<close>; where a routine may also run forever or access memory that is
  not there, \<open>None\<close> stands for that, and the properties say that the result is \<open>Some\<close>.  Loops whose end
  depends on the data are \<open>partial_function (option)\<close>.  Reading a file gives \<open>load_error\<close>, an error of a stream or of a
  container.  Vectors are lists; \<open>rc_holds\<close> and the like fix their lengths.

  \<^bold>\<open>Bounds.\<close>  Indexes have 32 bits, and \<open>quick_hash\<close> keeps its load low only while twice the number of entries
  lies within its table of primes.  The premises \<open>sd_room\<close>, \<open>ipd_room\<close>, \<open>pd_room\<close>, \<open>words_room\<close>, \<open>rc_room\<close> say that
  what is added still fits: at most 119304646 entries, after which the next rehash still finds a prime of
  the table above the capacity it needs without an overflow of the 32 bit arithmetic, and less than \<open>2 ^ 32\<close>
  characters, the range of an offset.  The properties about whole runs (\<open>tokenized_strings_life\<close>,
  \<open>revision_container_life\<close>) start with an empty container and ask for a total size of all arguments below a constant;
  the witnesses run them on concrete calls.  What fits into a file (\<open>docs_ok\<close>, \<open>rc_storable\<close>, \<open>revs_storable\<close>, \<open>sri_storable\<close>) is
  below \<open>2 ^ 24\<close> values per vector and \<open>2 ^ 28\<close> bytes per pool, so that no stream reaches the 32 bit sizes of the format; revision
  numbers are below \<open>2 ^ 29\<close>, because the streams of differences store signed values.

  \<^bold>\<open>Parameters.\<close>  What is not in the repository is an argument: \<open>std::sort\<close> of the change order (any
  permutation sorted by the comparison), the time conversion of the C runtime in the revision property
  svn:date, the capacities of \<open>std::vector\<close>, the memory behind a buffer, and the word that stands in front of the
  delimiter table for characters above 127.  \<open>CCachedLogInfo\<close>'s test for available data is a predicate on
  revisions.  Witnesses instantiate them.

  \<^bold>\<open>Not modelled.\<close>
  \<^item> Of the containers: \<open>CPathDictionary::GetCommonBaseImp\<close>; \<open>quick_hash_map::end_batch_insert\<close>, which has
    no instance and would not compile.
  \<^item> \<open>CCachedLogInfo\<close>, \<open>CLogCachePool\<close>, \<open>CRepositoryInfo\<close>, the log queries and iterators: they
    combine the containers with files, locks and calls of the Subversion library.
  \<^item> CMappedInFile and the creation and removal of files: a file is the list of its bytes.  In \<open>CacheFile\<close> the
    client finishes a sub-stream before it turns to another one, and the values that a packed stream still
    holds back when it is closed are among the blocks of the client; \<open>PackedStreams\<close> models them.
  \<^item> The user interface, the shell extension, the status cache service, the diff and merge tools and the
    wrappers of the Subversion API (src/src): calls of MFC, COM, Win32 and libsvn, whose behaviour is not
    in these sources.
  \<^item> src/ext: vendored libraries; src/contrib, src/test, src/doc, src/www: samples, tests, documentation.
\<close>

end
